(* ===== verification/Prelude.thy ===== *)
theory Prelude
  imports Main "HOL-Library.Word"
begin

text \<open>
  Shared vocabulary of the development: the result type of fallible Rust operations, row
  access as the graph tables do it, and the one invariant behind every worklist loop of the
  graph crate.

  Conventions used by every other theory:
  \<^item> \<open>Result<T, E>\<close> is \<open>'e + 'a\<close>, \<open>Inl\<close> being \<open>Err\<close>; the \<open>?\<close> operator is \<open>rbind\<close>.
  \<^item> A method taking \<open>&mut self\<close> returns its result paired with the state it leaves behind,
    also when it fails; \<open>sbind\<close> is \<open>?\<close> for those.
  \<^item> An operation that can panic (index out of range, \<open>assert!\<close>, \<open>expect\<close>, arithmetic underflow)
    returns an \<open>option\<close> and \<open>None\<close> is the panic, so that absence of panics is a theorem.
  \<^item> A \<open>Vec\<close> used as a stack is a list whose head is the top of the stack.
\<close>

named_theorems bs_simps \<open>membership facts of bit sets\<close>
named_theorems wf_simps \<open>projections of well-formedness invariants\<close>

text \<open>The bytes of the dash in the string literals of the code.\<close>

definition en_dash :: string where
  "en_dash = [CHR 0xE2, CHR 0x80, CHR 0x93]"

section \<open>Results\<close>

definition rbind :: "'e + 'a \<Rightarrow> ('a \<Rightarrow> 'e + 'b) \<Rightarrow> 'e + 'b" where
  "rbind r f = (case r of Inl e \<Rightarrow> Inl e | Inr a \<Rightarrow> f a)"

definition sbind :: "('e + 'a) \<times> 's \<Rightarrow> ('a \<Rightarrow> 's \<Rightarrow> ('e + 'b) \<times> 's) \<Rightarrow> ('e + 'b) \<times> 's" where
  "sbind r f = (case r of (Inl e, s) \<Rightarrow> (Inl e, s) | (Inr a, s) \<Rightarrow> f a s)"

lemma rbind_simps [simp]:
  "rbind (Inl e) f = Inl e" "rbind (Inr a) f = f a"
  by (simp_all add: rbind_def)

lemma sbind_simps [simp]:
  "sbind (Inl e, s) f = (Inl e, s)" "sbind (Inr a, s) f = f a s"
  by (simp_all add: sbind_def)

lemma rbind_eq_Inr [simp]: "rbind r f = Inr b \<longleftrightarrow> (\<exists>a. r = Inr a \<and> f a = Inr b)"
  by (cases r) simp_all

lemma rbind_eq_Inl: "rbind r f = Inl e \<longleftrightarrow> r = Inl e \<or> (\<exists>a. r = Inr a \<and> f a = Inl e)"
  by (cases r) simp_all

lemma rbind_assoc: "rbind (rbind r f) g = rbind r (\<lambda>a. rbind (f a) g)"
  by (cases r) simp_all

text \<open>Run a state-changing step over a list, stopping at the first error (a \<open>for\<close> loop with \<open>?\<close>).\<close>

fun for_each :: "('x \<Rightarrow> 's \<Rightarrow> ('e + unit) \<times> 's) \<Rightarrow> 'x list \<Rightarrow> 's \<Rightarrow> ('e + unit) \<times> 's" where
  "for_each f [] s = (Inr (), s)"
| "for_each f (x # xs) s = sbind (f x s) (\<lambda>_ s'. for_each f xs s')"

lemma for_each_invariant:
  assumes "\<And>x s r s'. x \<in> set xs \<Longrightarrow> P s \<Longrightarrow> f x s = (r, s') \<Longrightarrow> P s'"
    and "P s" and "for_each f xs s = (r, s')"
  shows "P s'"
  using assms
proof (induction xs arbitrary: s)
  case (Cons x xs)
  obtain r1 s1 where step: "f x s = (r1, s1)" by fastforce
  with Cons.prems(1)[of x] Cons.prems(2) have "P s1" by simp
  show ?case
  proof (cases r1)
    case (Inl e)
    with step Cons.prems(3) \<open>P s1\<close> show ?thesis by simp
  next
    case (Inr u)
    with step Cons.prems(3) have run: "for_each f xs s1 = (r, s')" by simp
    have keep: "\<And>x s r s'. x \<in> set xs \<Longrightarrow> P s \<Longrightarrow> f x s = (r, s') \<Longrightarrow> P s'"
      using Cons.prems(1) by (metis list.set_intros(2))
    show ?thesis by (rule Cons.IH[OF keep \<open>P s1\<close> run])
  qed
qed simp

text \<open>The same for steps that can panic: \<open>None\<close> is the panic, which ends everything.\<close>

definition pbind ::
  "(('e + 'a) \<times> 's) option \<Rightarrow> ('a \<Rightarrow> 's \<Rightarrow> (('e + 'b) \<times> 's) option) \<Rightarrow> (('e + 'b) \<times> 's) option" where
  "pbind m f = (case m of
     None \<Rightarrow> None
   | Some (Inl e, s) \<Rightarrow> Some (Inl e, s)
   | Some (Inr a, s) \<Rightarrow> f a s)"

lemma pbind_simps [simp]:
  "pbind None f = None" "pbind (Some (Inl e, s)) f = Some (Inl e, s)"
  "pbind (Some (Inr a, s)) f = f a s"
  by (simp_all add: pbind_def)

fun try_each :: "('x \<Rightarrow> 's \<Rightarrow> (('e + unit) \<times> 's) option) \<Rightarrow> 'x list \<Rightarrow> 's \<Rightarrow> (('e + unit) \<times> 's) option" where
  "try_each f [] s = Some (Inr (), s)"
| "try_each f (x # xs) s = pbind (f x s) (\<lambda>_ s'. try_each f xs s')"

lemma try_each_invariant:
  assumes "\<And>x s. x \<in> set xs \<Longrightarrow> P s \<Longrightarrow> \<exists>r s'. f x s = Some (r, s') \<and> P s'" and "P s"
  shows "\<exists>r s'. try_each f xs s = Some (r, s') \<and> P s'"
  using assms
proof (induction xs arbitrary: s)
  case (Cons x xs)
  obtain r s1 where step: "f x s = Some (r, s1)" "P s1"
    using Cons.prems(1)[of x s] Cons.prems(2) by auto
  have "\<exists>r s'. try_each f xs s1 = Some (r, s') \<and> P s'"
    by (rule Cons.IH) (use Cons.prems(1) step(2) in auto)
  with step show ?case by (cases r) auto
qed simp

section \<open>Saturating arithmetic\<close>

text \<open>\<open>usize\<close> is 64 bits wide, so \<open>usize::MAX\<close> and \<open>u64::MAX\<close> are one number.\<close>

definition usize_max :: nat where
  "usize_max = 2 ^ 64 - 1"

definition saturating_mul :: "nat \<Rightarrow> nat \<Rightarrow> nat" where
  "saturating_mul a b = min (a * b) usize_max"

definition saturating_add :: "nat \<Rightarrow> nat \<Rightarrow> nat" where
  "saturating_add a b = min (a + b) usize_max"

section \<open>Rows\<close>

text \<open>\<open>rows.get(i).map_or(&[], Vec::as_slice)\<close>: the row of \<open>i\<close>, empty for an index out of range.\<close>

definition row :: "'a list list \<Rightarrow> nat \<Rightarrow> 'a list" where
  "row rows i = (if i < length rows then rows ! i else [])"

text \<open>\<open>rows[i].push(x)\<close> for an index in range.\<close>

definition push_row :: "'a list list \<Rightarrow> nat \<Rightarrow> 'a \<Rightarrow> 'a list list" where
  "push_row rows i x = rows[i := rows ! i @ [x]]"

lemma length_push_row [simp]: "length (push_row rows i x) = length rows"
  by (simp add: push_row_def)

lemma row_beyond [simp]: "length rows \<le> i \<Longrightarrow> row rows i = []"
  by (simp add: row_def)

lemma row_nth: "i < length rows \<Longrightarrow> row rows i = rows ! i"
  by (simp add: row_def)

lemma row_append_empty [simp]: "row (rows @ [[]]) i = row rows i"
  by (auto simp: row_def nth_append)

lemma row_push_row:
  "row (push_row rows i x) j = (if i = j \<and> i < length rows then row rows j @ [x] else row rows j)"
  by (auto simp: row_def push_row_def)

lemma in_row_length: "x \<in> set (row rows i) \<Longrightarrow> i < length rows"
  by (auto simp: row_def split: if_splits)

definition row_rel :: "'a list list \<Rightarrow> (nat \<times> 'a) set" where
  "row_rel rows = {(u, v). v \<in> set (row rows u)}"

lemma row_rel_iff [simp]: "(u, v) \<in> row_rel rows \<longleftrightarrow> v \<in> set (row rows u)"
  by (simp add: row_rel_def)

lemma row_rel_push_row:
  "i < length rows \<Longrightarrow> row_rel (push_row rows i x) = insert (i, x) (row_rel rows)"
  by (auto simp: row_rel_def row_push_row split: if_splits)

lemma row_rel_append_empty [simp]: "row_rel (rows @ [[]]) = row_rel rows"
  by (simp add: row_rel_def)

lemma row_rel_replicate_empty [simp]: "row_rel (replicate n []) = {}"
  by (auto simp: row_rel_def row_def)

lemma row_rel_Nil [simp]: "row_rel [] = {}"
  by (auto simp: row_rel_def row_def)

lemma finite_row_rel [simp]: "finite (row_rel rows)"
proof -
  have "row_rel rows \<subseteq> (\<Union>u<length rows. {u} \<times> set (row rows u))"
    by (auto dest: in_row_length)
  then show ?thesis by (rule finite_subset) simp
qed

section \<open>Worklist searches\<close>

text \<open>
  Every search of the crate keeps a visited set \<open>V\<close> and a stack \<open>F\<close> of visited nodes still to
  be expanded. \<open>worklist E S V F\<close> is what all of them maintain; with an empty stack it says that
  \<open>V\<close> is exactly what is reachable from the seeds.
\<close>

definition worklist :: "('a \<times> 'a) set \<Rightarrow> 'a set \<Rightarrow> 'a set \<Rightarrow> 'a set \<Rightarrow> bool" where
  "worklist E S V F \<longleftrightarrow> S \<subseteq> V \<and> F \<subseteq> V \<and> V \<subseteq> E\<^sup>* `` S \<and> (\<forall>u \<in> V - F. E `` {u} \<subseteq> V)"

lemma worklist_init: "worklist E S S S"
  by (auto simp: worklist_def)

lemma worklist_step:
  assumes "worklist E S V F" and "F \<subseteq> insert u F'" and "F' \<subseteq> F" and "u \<in> V"
    and "E `` {u} \<subseteq> V \<union> N" and "N \<subseteq> E `` {u}"
  shows "worklist E S (V \<union> N) (F' \<union> N)"
proof -
  have V: "V \<subseteq> E\<^sup>* `` S" and S: "S \<subseteq> V" and F: "F \<subseteq> V"
    and closed: "\<And>v. v \<in> V - F \<Longrightarrow> E `` {v} \<subseteq> V"
    using assms(1) by (simp_all add: worklist_def)
  have "N \<subseteq> E\<^sup>* `` S"
  proof
    fix w assume "w \<in> N"
    with assms(6) have "(u, w) \<in> E" by blast
    with V assms(4) show "w \<in> E\<^sup>* `` S" by (blast intro: rtrancl_into_rtrancl)
  qed
  moreover have "E `` {v} \<subseteq> V \<union> N" if "v \<in> (V \<union> N) - (F' \<union> N)" for v
  proof (cases "v = u")
    case True
    with assms(5) show ?thesis by simp
  next
    case False
    with that assms(2) have "v \<in> V - F" by blast
    with closed show ?thesis by blast
  qed
  ultimately show ?thesis using V S F assms(3) unfolding worklist_def by blast
qed

lemma worklist_done:
  assumes "worklist E S V {}"
  shows "V = E\<^sup>* `` S"
proof
  show "V \<subseteq> E\<^sup>* `` S" using assms by (simp add: worklist_def)
  show "E\<^sup>* `` S \<subseteq> V"
  proof
    fix w assume "w \<in> E\<^sup>* `` S"
    then obtain s where "s \<in> S" and "(s, w) \<in> E\<^sup>*" by blast
    from this(2) show "w \<in> V"
    proof (induction rule: rtrancl_induct)
      case base
      with \<open>s \<in> S\<close> assms show ?case by (auto simp: worklist_def)
    next
      case (step y z)
      with assms show ?case by (auto simp: worklist_def)
    qed
  qed
qed

lemma worklist_reach: "worklist E S V F \<Longrightarrow> v \<in> V \<Longrightarrow> \<exists>s\<in>S. (s, v) \<in> E\<^sup>*"
  by (auto simp: worklist_def)

section \<open>Reachability and cycles\<close>

lemma acyclic_insert_rtrancl: "acyclic (insert (a, b) E) \<longleftrightarrow> acyclic E \<and> (b, a) \<notin> E\<^sup>*"
  by (rule acyclic_insert)

lemma acyclic_mono: "acyclic E \<Longrightarrow> F \<subseteq> E \<Longrightarrow> acyclic F"
  by (rule acyclic_subset)

lemma finite_acyclic_source:
  assumes "finite R" and "R \<noteq> {}" and "\<And>v. v \<in> R \<Longrightarrow> \<exists>u \<in> R. (u, v) \<in> E"
  shows "\<not> acyclic E"
proof
  assume ac: "acyclic E"
  let ?F = "E \<inter> R \<times> R"
  have "finite ?F" using assms(1) by simp
  moreover have "acyclic ?F" using ac by (rule acyclic_subset) simp
  ultimately have "wf ?F" by (rule finite_acyclic_wf)
  then obtain m where "m \<in> R" and "\<And>y. (y, m) \<in> ?F \<Longrightarrow> y \<notin> R"
    using assms(2) by (metis ex_in_conv wfE_min)
  with assms(3) show False by blast
qed

lemma rtrancl_within:
  assumes "(a, b) \<in> E\<^sup>*" and "\<And>u v. (u, v) \<in> E \<Longrightarrow> v < n" and "a < n"
  shows "b < (n :: nat)"
  using assms by (induction rule: rtrancl_induct) auto

end
