(* ===== verification/Word_Bits.thy ===== *)
theory Word_Bits
  imports Prelude
begin

text \<open>
  Machine-word facts shared by \<open>BitSet\<close> and \<open>mask_closure\<close>: \<open>trailing_zeros\<close>, \<open>count_ones\<close>, the
  idiom \<open>rest &= rest - 1\<close> that clears the lowest set bit, and the tail mask \<open>(1 << tail) - 1\<close>.
\<close>

unbundle bit_operations_syntax

definition trailing_zeros :: "'w::len word \<Rightarrow> nat" where
  "trailing_zeros w = length (takeWhile (\<lambda>i. \<not> bit w i) [0..<LENGTH('w)])"

definition word_ones :: "'w::len word \<Rightarrow> nat" where
  "word_ones w = length (filter (bit w) [0..<LENGTH('w)])"

lemma word_ones_card: "word_ones (w :: 'w::len word) = card {i. bit w i}"
proof -
  have "{i. bit w i} = set (filter (bit w) [0..<LENGTH('w)])"
    by (auto simp: bit_imp_le_length)
  then show ?thesis
    unfolding word_ones_def by (simp only: distinct_card distinct_filter distinct_upt)
qed

lemma word_has_bit: "(w :: 'w::len word) \<noteq> 0 \<Longrightarrow> \<exists>i < LENGTH('w). bit w i"
  using bit_word_eqI[of w 0] by auto

lemma finite_word_bits [simp]: "finite {i. bit (w :: 'w::len word) i}"
  by (rule finite_subset[of _ "{..<LENGTH('w)}"]) (auto simp: bit_imp_le_length)

lemma trailing_zeros_lowest:
  fixes w :: "'w::len word"
  assumes "w \<noteq> 0"
  shows "trailing_zeros w < LENGTH('w)" and "bit w (trailing_zeros w)"
    and "i < trailing_zeros w \<Longrightarrow> \<not> bit w i"
proof -
  let ?P = "\<lambda>i. \<not> bit w i" and ?xs = "[0..<LENGTH('w)]"
  from word_has_bit[OF assms] have "takeWhile ?P ?xs \<noteq> ?xs"
    by (auto simp: takeWhile_eq_all_conv)
  then have lt: "length (takeWhile ?P ?xs) < length ?xs"
    by (metis length_takeWhile_le order_le_less takeWhile_eq_take take_all_iff)
  then show "trailing_zeros w < LENGTH('w)" by (simp add: trailing_zeros_def)
  from lt nth_length_takeWhile[OF lt] show "bit w (trailing_zeros w)"
    by (simp add: trailing_zeros_def)
  assume i: "i < trailing_zeros w"
  then have "takeWhile ?P ?xs ! i \<in> set (takeWhile ?P ?xs)"
    unfolding trailing_zeros_def by (rule nth_mem)
  moreover have "takeWhile ?P ?xs ! i = i"
    using i lt by (simp add: trailing_zeros_def takeWhile_nth)
  ultimately show "\<not> bit w i" by (auto dest: set_takeWhileD)
qed

lemma int_clear_lowest:
  fixes x :: int
  assumes "bit x k" and "\<And>j. j < k \<Longrightarrow> \<not> bit x j"
  shows "bit (x AND (x - 1)) i \<longleftrightarrow> bit x i \<and> i \<noteq> k"
  using assms
proof (induction k arbitrary: x i)
  case 0
  then have "odd x" by (simp add: bit_0)
  then obtain y where x: "x = 2 * y + 1" by (rule oddE)
  show ?case unfolding bit_and_iff by (cases i) (simp_all add: x bit_0 bit_Suc)
next
  case (Suc k)
  from Suc.prems(2)[of 0] have "even x" by (simp add: bit_0)
  then obtain y where x: "x = 2 * y" by (rule evenE)
  have y: "bit y k" "\<And>j. j < k \<Longrightarrow> \<not> bit y j"
    using Suc.prems(1) Suc.prems(2)[of "Suc _"] by (auto simp: x bit_Suc)
  have pred: "(2 * y - 1) div 2 = y - 1" by simp
  show ?case
  proof (cases i)
    case 0
    then show ?thesis unfolding bit_and_iff by (simp add: x bit_0)
  next
    case (Suc i')
    have "bit (x AND (x - 1)) i \<longleftrightarrow> bit (y AND (y - 1)) i'"
      unfolding bit_and_iff using pred by (simp add: x Suc bit_Suc)
    also have "\<dots> \<longleftrightarrow> bit y i' \<and> i' \<noteq> k" by (rule Suc.IH[OF y])
    finally show ?thesis by (simp add: x Suc bit_Suc)
  qed
qed

lemma bit_clear_lowest:
  fixes w :: "'w::len word"
  assumes "w \<noteq> 0"
  shows "bit (w AND (w - 1)) i \<longleftrightarrow> bit w i \<and> i \<noteq> trailing_zeros w"
proof (cases "i < LENGTH('w)")
  case True
  have u: "bit (uint v) j \<longleftrightarrow> bit v j" for v :: "'w word" and j
    using bit_imp_le_length[of v j] by (auto simp: bit_uint_iff)
  have "uint (w - 1) = uint w - 1"
  proof -
    have "1 \<le> uint w" using assms uint_0_iff[of w] uint_ge_0[of w] by linarith
    then show ?thesis by (simp add: uint_sub_if')
  qed
  then have "bit (w AND (w - 1)) i \<longleftrightarrow> bit (uint w AND (uint w - 1)) i"
    by (metis u uint_and)
  also have "\<dots> \<longleftrightarrow> bit (uint w) i \<and> i \<noteq> trailing_zeros w"
    by (rule int_clear_lowest) (simp_all add: u trailing_zeros_lowest[OF assms])
  finally show ?thesis by (simp add: u)
qed (use bit_imp_le_length in blast)

lemma word_ones_clear_lowest:
  fixes w :: "'w::len word"
  assumes "w \<noteq> 0"
  shows "word_ones (w AND (w - 1)) < word_ones w"
proof -
  have "{i. bit (w AND (w - 1)) i} \<subset> {i. bit w i}"
    using trailing_zeros_lowest[OF assms] by (auto simp: bit_clear_lowest[OF assms])
  then show ?thesis unfolding word_ones_card by (rule psubset_card_mono[OF finite_word_bits])
qed

lemma filter_bits_lowest:
  fixes w :: "'w::len word"
  assumes "w \<noteq> 0"
  shows "filter (bit w) [0..<LENGTH('w)] =
    trailing_zeros w # filter (bit (w AND (w - 1))) [0..<LENGTH('w)]"
proof -
  let ?k = "trailing_zeros w"
  note low = trailing_zeros_lowest[OF assms]
  have split: "[0..<LENGTH('w)] = [0..<?k] @ ?k # [Suc ?k..<LENGTH('w)]"
    using low(1) by (metis upt_add_eq_append upt_conv_Cons zero_le less_imp_le_nat add_0
        le_add_diff_inverse)
  have none: "filter (bit w) [0..<?k] = []" "filter (bit (w AND (w - 1))) [0..<?k] = []"
    using low(3) by (auto simp: bit_clear_lowest[OF assms] filter_empty_conv)
  have same: "filter (bit (w AND (w - 1))) [Suc ?k..<LENGTH('w)] =
      filter (bit w) [Suc ?k..<LENGTH('w)]"
    by (rule filter_cong) (auto simp: bit_clear_lowest[OF assms])
  show ?thesis
    unfolding split filter_append none using low(2) same
    by (simp add: bit_clear_lowest[OF assms])
qed

text \<open>\<open>(1 << t) - 1\<close> keeps exactly the bits below \<open>t\<close>.\<close>

lemma bit_tail_mask:
  "t < LENGTH('w) \<Longrightarrow> bit (push_bit t 1 - 1 :: 'w::len word) i \<longleftrightarrow> i < t"
proof -
  assume t: "t < LENGTH('w)"
  have "(push_bit t 1 - 1 :: 'w word) = mask t" by (simp add: mask_eq_exp_minus_1)
  then show ?thesis using t by (auto simp: bit_mask_iff)
qed

lemma bit_tail_mask_exp:
  "t < LENGTH('w) \<Longrightarrow> bit (2 ^ t - 1 :: 'w::len word) i \<longleftrightarrow> i < t"
  using bit_tail_mask[where 'w = 'w] by simp

lemma bit_single: "bit (push_bit k 1 :: 'w::len word) i \<longleftrightarrow> i = k \<and> k < LENGTH('w)"
  by (auto simp: bit_exp_iff)

end
