(* ===== verification/Graph_Types.thy ===== *)
theory Graph_Types
  imports Prelude
begin

text \<open>
  The vocabulary of \<open>antecedent-graph\<close>: node labels (\<open>antecedent-core/src/node.rs\<close>), the errors of
  \<open>error.rs\<close>, and \<open>types.rs\<close>: dense ids, endpoint and middle marks, marked edges, the pending-edge
  lists of review artifacts and the lag check of temporal graphs.

  Identifiers are \<open>u32\<close> newtypes without arithmetic; they are \<open>nat\<close> here, and the conversions that
  can fail (\<open>try_from_usize\<close>, \<open>from_index\<close>, \<open>all\<close>) carry the \<open>u32\<close> range check.
\<close>

type_synonym variable_id = nat
type_synonym environment_id = nat
type_synonym lag = nat

definition lag_is_contemporaneous :: "lag \<Rightarrow> bool" where
  "lag_is_contemporaneous l \<longleftrightarrow> l = 0"

section \<open>Node labels\<close>

datatype node_ref =
    Static variable_id
  | Lagged (node_variable: variable_id) (node_lag: lag)
  | Unfolded variable_id int
  | Context variable_id "environment_id option"

fun node_ref_variable :: "node_ref \<Rightarrow> variable_id" where
  "node_ref_variable (Static v) = v"
| "node_ref_variable (Lagged v _) = v"
| "node_ref_variable (Unfolded v _) = v"
| "node_ref_variable (Context v _) = v"

fun node_ref_lag :: "node_ref \<Rightarrow> lag option" where
  "node_ref_lag (Lagged _ l) = Some l"
| "node_ref_lag _ = None"

fun is_static_graph_node :: "node_ref \<Rightarrow> bool" where
  "is_static_graph_node (Static _) = True"
| "is_static_graph_node (Unfolded _ _) = True"
| "is_static_graph_node _ = False"

section \<open>Dense ids and errors\<close>

type_synonym dense_id = nat

datatype graph_error =
    UnknownNode dense_id
  | UnknownVariableName string
  | Cycle dense_id dense_id
  | InvalidEndpoints string
  | ContemporaneousSelfEdge variable_id
  | DuplicateEdge dense_id dense_id
  | InvalidLag lag
  | FutureToPast dense_id dense_id lag lag
  | TooManyNodes
  | InvalidSelectionDiagram string
  | SearchBudgetExhausted nat nat
  | SeparationUndetermined

text \<open>The number of dense ids: \<open>u32::MAX + 1\<close>.\<close>

definition id_space :: nat where
  "id_space = 2 ^ 32"

definition u32_max :: nat where
  "u32_max = 2 ^ 32 - 1"

definition try_from_usize :: "nat \<Rightarrow> graph_error + dense_id" where
  "try_from_usize i = (if i < id_space then Inr i else Inl TooManyNodes)"

text \<open>\<open>from_index\<close> panics (\<open>expect\<close>) when the position does not fit.\<close>

definition from_index :: "nat \<Rightarrow> dense_id option" where
  "from_index i = (if i < id_space then Some i else None)"

text \<open>\<open>all(n)\<close> converts the count, so it panics one later than \<open>from_index\<close>.\<close>

definition all_ids :: "nat \<Rightarrow> dense_id list option" where
  "all_ids n = (if n < id_space then Some [0..<n] else None)"

lemma all_ids_from_index: "all_ids n = Some ids \<Longrightarrow> i \<in> set ids \<Longrightarrow> from_index i = Some i"
  by (auto simp: all_ids_def from_index_def split: if_splits)

section \<open>Marks\<close>

datatype endpoint = Tail | Arrow | Circle | Conflict

datatype middle_mark = Unknown | MLeft | MRight | Both | Empty

fun middle_is_definite :: "middle_mark \<Rightarrow> bool" where
  "middle_is_definite Empty = True"
| "middle_is_definite _ = False"

text \<open>\<open>MiddleMark::apply\<close>, arms in source order.\<close>

fun middle_apply :: "middle_mark \<Rightarrow> middle_mark \<Rightarrow> middle_mark" where
  "middle_apply Empty _ = Empty"
| "middle_apply _ Empty = Empty"
| "middle_apply Both _ = Both"
| "middle_apply _ Both = Both"
| "middle_apply MLeft MRight = Both"
| "middle_apply MRight MLeft = Both"
| "middle_apply Unknown other = other"
| "middle_apply other Unknown = other"
| "middle_apply MLeft MLeft = MLeft"
| "middle_apply MRight MRight = MRight"

text \<open>
  The marks carry information: \<open>Unknown\<close> says nothing, \<open>L\<close> and \<open>R\<close> one search each, \<open>!\<close> both,
  and \<open>-\<close> is definite. \<open>apply\<close> is the join of that order.
\<close>

fun middle_rank :: "middle_mark \<Rightarrow> bool \<times> bool \<times> bool" where
  "middle_rank Unknown = (False, False, False)"
| "middle_rank MLeft = (True, False, False)"
| "middle_rank MRight = (False, True, False)"
| "middle_rank Both = (True, True, False)"
| "middle_rank Empty = (True, True, True)"

lemma middle_rank_inject: "middle_rank a = middle_rank b \<Longrightarrow> a = b"
  by (cases a; cases b) simp_all

lemma middle_rank_apply:
  "middle_rank (middle_apply a b) =
     (case (middle_rank a, middle_rank b) of
        ((l, r, d), (l', r', d')) \<Rightarrow> (l \<or> l', r \<or> r', d \<or> d'))"
  by (cases a; cases b) simp_all

lemma middle_apply_comm: "middle_apply a b = middle_apply b a"
  by (cases a; cases b) simp_all

lemma middle_apply_assoc: "middle_apply (middle_apply a b) c = middle_apply a (middle_apply b c)"
  by (cases a; cases b; cases c) simp_all

lemma middle_apply_idem [simp]: "middle_apply a a = a"
  by (cases a) simp_all

lemma middle_apply_definite:
  "middle_is_definite (middle_apply a b) \<longleftrightarrow> middle_is_definite a \<or> middle_is_definite b"
  by (cases a; cases b) simp_all

section \<open>Marked edges\<close>

record marked_edge =
  me_a :: dense_id
  me_b :: dense_id
  me_at_a :: endpoint
  me_at_b :: endpoint
  me_middle :: middle_mark

definition me_directed :: "dense_id \<Rightarrow> dense_id \<Rightarrow> marked_edge" where
  "me_directed src tgt =
     \<lparr>me_a = src, me_b = tgt, me_at_a = Tail, me_at_b = Arrow, me_middle = Empty\<rparr>"

definition me_undirected :: "dense_id \<Rightarrow> dense_id \<Rightarrow> marked_edge" where
  "me_undirected a b =
     (if a \<le> b
      then \<lparr>me_a = a, me_b = b, me_at_a = Tail, me_at_b = Tail, me_middle = Empty\<rparr>
      else \<lparr>me_a = b, me_b = a, me_at_a = Tail, me_at_b = Tail, me_middle = Empty\<rparr>)"

definition me_bidirected :: "dense_id \<Rightarrow> dense_id \<Rightarrow> marked_edge" where
  "me_bidirected a b =
     (if a \<le> b
      then \<lparr>me_a = a, me_b = b, me_at_a = Arrow, me_at_b = Arrow, me_middle = Empty\<rparr>
      else \<lparr>me_a = b, me_b = a, me_at_a = Arrow, me_at_b = Arrow, me_middle = Empty\<rparr>)"

definition me_conflict :: "dense_id \<Rightarrow> dense_id \<Rightarrow> marked_edge" where
  "me_conflict a b =
     (if a \<le> b
      then \<lparr>me_a = a, me_b = b, me_at_a = Conflict, me_at_b = Conflict, me_middle = Empty\<rparr>
      else \<lparr>me_a = b, me_b = a, me_at_a = Conflict, me_at_b = Conflict, me_middle = Empty\<rparr>)"

definition is_dag_directed :: "marked_edge \<Rightarrow> bool" where
  "is_dag_directed e \<longleftrightarrow>
     (case (me_at_a e, me_at_b e) of
        (Tail, Arrow) \<Rightarrow> True | (Arrow, Tail) \<Rightarrow> True | _ \<Rightarrow> False)"

definition is_undirected :: "marked_edge \<Rightarrow> bool" where
  "is_undirected e \<longleftrightarrow> (case (me_at_a e, me_at_b e) of (Tail, Tail) \<Rightarrow> True | _ \<Rightarrow> False)"

definition is_bidirected :: "marked_edge \<Rightarrow> bool" where
  "is_bidirected e \<longleftrightarrow> (case (me_at_a e, me_at_b e) of (Arrow, Arrow) \<Rightarrow> True | _ \<Rightarrow> False)"

definition is_conflict :: "marked_edge \<Rightarrow> bool" where
  "is_conflict e \<longleftrightarrow> (case (me_at_a e, me_at_b e) of (Conflict, Conflict) \<Rightarrow> True | _ \<Rightarrow> False)"

definition is_cpdag_legal :: "marked_edge \<Rightarrow> bool" where
  "is_cpdag_legal e \<longleftrightarrow>
     (case (me_at_a e, me_at_b e) of
        (Tail, Arrow) \<Rightarrow> True | (Tail, Tail) \<Rightarrow> True
      | (Arrow, Tail) \<Rightarrow> True | (Conflict, Conflict) \<Rightarrow> True | _ \<Rightarrow> False)"

definition cpdag_marks_message :: string where
  "cpdag_marks_message = ''CPDAG accepts only Tail'' @ en_dash @ ''Arrow, Tail'' @ en_dash @ ''Tail, or Conflict'' @ en_dash @
     ''Conflict marks''"

definition orient_undirected_message :: string where
  "orient_undirected_message = ''orient_undirected requires an undirected Tail'' @ en_dash @ ''Tail edge''"

definition is_admg_legal :: "marked_edge \<Rightarrow> bool" where
  "is_admg_legal e \<longleftrightarrow>
     (case (me_at_a e, me_at_b e) of
        (Tail, Arrow) \<Rightarrow> True | (Arrow, Arrow) \<Rightarrow> True | (Arrow, Tail) \<Rightarrow> True | _ \<Rightarrow> False)"

definition parent_child :: "marked_edge \<Rightarrow> (dense_id \<times> dense_id) option" where
  "parent_child e =
     (case (me_at_a e, me_at_b e) of
        (Tail, Arrow) \<Rightarrow> Some (me_a e, me_b e)
      | (Arrow, Tail) \<Rightarrow> Some (me_b e, me_a e)
      | _ \<Rightarrow> None)"

definition causal_arrow_direction :: "marked_edge \<Rightarrow> (dense_id \<times> dense_id) option" where
  "causal_arrow_direction e =
     (case (me_at_a e, me_at_b e) of
        (Tail, Arrow) \<Rightarrow> Some (me_a e, me_b e)
      | (Circle, Arrow) \<Rightarrow> Some (me_a e, me_b e)
      | (Arrow, Tail) \<Rightarrow> Some (me_b e, me_a e)
      | (Arrow, Circle) \<Rightarrow> Some (me_b e, me_a e)
      | _ \<Rightarrow> None)"

lemmas mark_tests = is_dag_directed_def is_undirected_def is_bidirected_def is_conflict_def
  is_cpdag_legal_def is_admg_legal_def

lemma parent_child_iff_directed: "parent_child e \<noteq> None \<longleftrightarrow> is_dag_directed e"
  by (auto simp: parent_child_def is_dag_directed_def split: endpoint.splits)

lemma cpdag_legal_cases:
  "is_cpdag_legal e \<longleftrightarrow> is_dag_directed e \<or> is_undirected e \<or> is_conflict e"
  by (auto simp: mark_tests split: endpoint.splits)

lemma admg_legal_cases: "is_admg_legal e \<longleftrightarrow> is_dag_directed e \<or> is_bidirected e"
  by (auto simp: mark_tests split: endpoint.splits)

lemma parent_child_directed [simp]: "parent_child (me_directed a b) = Some (a, b)"
  by (simp add: parent_child_def me_directed_def)

lemma parent_child_causal_arrow:
  "parent_child e = Some (u, v) \<Longrightarrow> causal_arrow_direction e = Some (u, v)"
  by (auto simp: parent_child_def causal_arrow_direction_def split: endpoint.splits)

lemma me_symmetric:
  "me_undirected a b = me_undirected b a" "me_bidirected a b = me_bidirected b a"
  "me_conflict a b = me_conflict b a"
  by (auto simp: me_undirected_def me_bidirected_def me_conflict_def)

section \<open>Pending lists of review artifacts\<close>

definition without_pending :: "'a list \<Rightarrow> 'a \<Rightarrow> 'a list" where
  "without_pending pending item = filter (\<lambda>e. e \<noteq> item) pending"

definition orient_pending ::
  "('a \<times> 'a) list \<Rightarrow> ('a \<times> 'a) list \<Rightarrow> 'a \<Rightarrow> 'a \<Rightarrow> ('a \<times> 'a) list \<times> ('a \<times> 'a) list" where
  "orient_pending edges undirected src tgt =
     (let undirected' = filter (\<lambda>e. e \<noteq> (src, tgt) \<and> e \<noteq> (tgt, src)) undirected;
          edges' = (if (src, tgt) \<notin> set edges then edges @ [(src, tgt)] else edges)
      in (edges', undirected'))"

lemma orient_pending_moves:
  assumes "orient_pending edges undirected s t = (edges', undirected')"
  shows "set edges' = insert (s, t) (set edges)"
    and "set undirected' = set undirected - {(s, t), (t, s)}"
    and "distinct edges \<Longrightarrow> distinct edges'"
  using assms by (auto simp: orient_pending_def Let_def split: if_splits)

section \<open>The lag check of temporal edges\<close>

text \<open>
  \<open>reject_future_to_past\<close>: an edge from a node nearer the present to one further in the past is
  refused. Indexing out of range panics in the source; the callers have validated both ids.
\<close>

definition reject_future_to_past :: "node_ref list \<Rightarrow> dense_id \<Rightarrow> dense_id \<Rightarrow> graph_error + unit" where
  "reject_future_to_past nodes src tgt =
     (case (nodes ! src, nodes ! tgt) of
        (Lagged _ from_lag, Lagged _ to_lag) \<Rightarrow>
          (if from_lag < to_lag then Inl (FutureToPast src tgt from_lag to_lag) else Inr ())
      | _ \<Rightarrow> Inr ())"

lemma reject_future_to_past_Inr:
  "reject_future_to_past nodes s t = Inr () \<longleftrightarrow>
     (\<forall>v l v' l'. nodes ! s = Lagged v l \<and> nodes ! t = Lagged v' l' \<longrightarrow> l' \<le> l)"
  by (auto simp: reject_future_to_past_def split: node_ref.splits if_splits)

end
