(* ===== verification/Node_BitSet.thy ===== *)
theory Node_BitSet
  imports Word_Bits Graph_Types
begin

text \<open>
  \<open>workspace.rs\<close>: the bit set over dense node ids, word for word (a vector of 64-bit words and an
  addressable length), and the traversal workspace. \<open>bs_inv\<close> is the invariant every operation
  keeps: the word vector has the length the bit count asks for and no bit at or beyond the
  length is set, which is what makes word equality (and hashing) set equality. The locale
  \<open>node_set\<close> is the interface the searches use: \<open>bs_members\<close> reads a bit set as a set of ids and
  every operation is the set operation of that name.
\<close>

unbundle bit_operations_syntax

section \<open>BitSet\<close>

record bitset =
  bs_words :: "64 word list"
  bs_len :: nat

definition div_ceil64 :: "nat \<Rightarrow> nat" where
  "div_ceil64 n = (n + 63) div 64"

definition bs_default :: bitset where
  "bs_default = \<lparr>bs_words = [], bs_len = 0\<rparr>"

definition bs_with_len :: "nat \<Rightarrow> bitset" where
  "bs_with_len n = \<lparr>bs_words = replicate (div_ceil64 n) 0, bs_len = n\<rparr>"

text \<open>\<open>if let Some(last) = words.last_mut() { *last = f(*last) }\<close>\<close>

definition map_last :: "('a \<Rightarrow> 'a) \<Rightarrow> 'a list \<Rightarrow> 'a list" where
  "map_last f ws = (if ws = [] then [] else butlast ws @ [f (last ws)])"

definition bs_full :: "nat \<Rightarrow> bitset" where
  "bs_full n =
     (let ws = replicate (div_ceil64 n) (- 1 :: 64 word); t = n mod 64
      in \<lparr>bs_words = (if t \<noteq> 0 then map_last (\<lambda>_. push_bit t 1 - 1) ws else ws), bs_len = n\<rparr>)"

definition bs_clear :: "bitset \<Rightarrow> bitset" where
  "bs_clear b = b\<lparr>bs_words := map (\<lambda>_. 0) (bs_words b)\<rparr>"

text \<open>\<open>Vec::resize(n, x)\<close> truncates or pads.\<close>

definition vec_resize :: "nat \<Rightarrow> 'a \<Rightarrow> 'a list \<Rightarrow> 'a list" where
  "vec_resize n x xs = take n xs @ replicate (n - length xs) x"

definition bs_resize :: "bitset \<Rightarrow> nat \<Rightarrow> bitset" where
  "bs_resize b n =
     (let ws = vec_resize (div_ceil64 n) 0 (bs_words b); t = n mod 64
      in \<lparr>bs_words = (if t \<noteq> 0 then map_last (\<lambda>w. w AND (push_bit t 1 - 1)) ws else ws),
          bs_len = n\<rparr>)"

definition bs_bit_len :: "bitset \<Rightarrow> nat" where
  "bs_bit_len b = bs_len b"

definition bs_try_insert :: "bitset \<Rightarrow> dense_id \<Rightarrow> (graph_error + unit) \<times> bitset" where
  "bs_try_insert b i =
     (if i \<ge> bs_len b then (Inl (UnknownNode i), b)
      else (let w = i div 64; k = i mod 64
            in if w < length (bs_words b)
               then (Inr (), b\<lparr>bs_words := (bs_words b)[w := bs_words b ! w OR push_bit k 1]\<rparr>)
               else (Inl (UnknownNode i), b)))"

text \<open>\<open>insert\<close> asserts that \<open>try_insert\<close> succeeded.\<close>

definition bs_insert :: "bitset \<Rightarrow> dense_id \<Rightarrow> bitset option" where
  "bs_insert b i = (case bs_try_insert b i of (Inr _, b') \<Rightarrow> Some b' | (Inl _, _) \<Rightarrow> None)"

definition bs_remove :: "bitset \<Rightarrow> dense_id \<Rightarrow> bitset" where
  "bs_remove b i =
     (if i \<ge> bs_len b then b
      else b\<lparr>bs_words :=
        (bs_words b)[i div 64 := bs_words b ! (i div 64) AND NOT (push_bit (i mod 64) 1)]\<rparr>)"

definition bs_contains :: "bitset \<Rightarrow> dense_id \<Rightarrow> bool" where
  "bs_contains b i =
     (if i \<ge> bs_len b then False
      else drop_bit (i mod 64) (bs_words b ! (i div 64)) AND 1 = 1)"

definition bs_any :: "bitset \<Rightarrow> bool" where
  "bs_any b \<longleftrightarrow> list_ex (\<lambda>w. w \<noteq> 0) (bs_words b)"

definition bs_count_ones :: "bitset \<Rightarrow> nat" where
  "bs_count_ones b = sum_list (map word_ones (bs_words b))"

text \<open>
  The inner iterator of \<open>iter\<close>: take the lowest bit of \<open>rest\<close>, clear it, go on. The position becomes an id
  with \<open>from_index\<close>, which panics from \<open>2^32\<close> on; the iterator is lazy, so \<open>None\<close> is a caller that
  consumes it to the end. A set over the nodes of a graph has no such member.
\<close>

function word_iter :: "nat \<Rightarrow> 64 word \<Rightarrow> dense_id list option" where
  "word_iter base rest =
     (if rest = 0 then Some []
      else case from_index (base + trailing_zeros rest) of
             None \<Rightarrow> None
           | Some i \<Rightarrow> map_option ((#) i) (word_iter base (rest AND (rest - 1))))"
  by pat_completeness auto
termination
  by (relation "measure (\<lambda>(base, rest). word_ones rest)") (auto simp: word_ones_clear_lowest)

declare word_iter.simps [simp del]

fun words_iter :: "nat \<Rightarrow> 64 word list \<Rightarrow> dense_id list option" where
  "words_iter w [] = Some []"
| "words_iter w (x # xs) =
     (case word_iter (w * 64) x of
        None \<Rightarrow> None
      | Some ids \<Rightarrow> map_option ((@) ids) (words_iter (Suc w) xs))"

definition bs_iter :: "bitset \<Rightarrow> dense_id list option" where
  "bs_iter b = words_iter 0 (bs_words b)"

definition bs_to_dense_ids :: "bitset \<Rightarrow> dense_id list option" where
  "bs_to_dense_ids b = bs_iter b"

text \<open>The binary operations assert equal domains first; \<open>None\<close> is that assertion failing.\<close>

definition bs_same_domain :: "bitset \<Rightarrow> bitset \<Rightarrow> bool" where
  "bs_same_domain a b \<longleftrightarrow> bs_len a = bs_len b \<and> length (bs_words a) = length (bs_words b)"

definition bs_intersects :: "bitset \<Rightarrow> bitset \<Rightarrow> bool option" where
  "bs_intersects a b =
     (if bs_same_domain a b
      then Some (list_ex (\<lambda>(x, y). x AND y \<noteq> 0) (zip (bs_words a) (bs_words b))) else None)"

definition bs_union_with :: "bitset \<Rightarrow> bitset \<Rightarrow> bitset option" where
  "bs_union_with a b =
     (if bs_same_domain a b
      then Some (a\<lparr>bs_words := map2 (\<lambda>x y. x OR y) (bs_words a) (bs_words b)\<rparr>) else None)"

definition bs_intersect_with :: "bitset \<Rightarrow> bitset \<Rightarrow> bitset option" where
  "bs_intersect_with a b =
     (if bs_same_domain a b
      then Some (a\<lparr>bs_words := map2 (\<lambda>x y. x AND y) (bs_words a) (bs_words b)\<rparr>) else None)"

definition bs_difference_with :: "bitset \<Rightarrow> bitset \<Rightarrow> bitset option" where
  "bs_difference_with a b =
     (if bs_same_domain a b
      then Some (a\<lparr>bs_words := map2 (\<lambda>x y. x AND NOT y) (bs_words a) (bs_words b)\<rparr>) else None)"

definition bs_is_subset_of :: "bitset \<Rightarrow> bitset \<Rightarrow> bool option" where
  "bs_is_subset_of a b =
     (if bs_same_domain a b
      then Some (list_all (\<lambda>(x, y). x AND NOT y = 0) (zip (bs_words a) (bs_words b))) else None)"

definition bs_equal_set :: "bitset \<Rightarrow> bitset \<Rightarrow> bool" where
  "bs_equal_set a b \<longleftrightarrow> bs_len a = bs_len b \<and> bs_words a = bs_words b"

section \<open>The invariant and the reading as a set\<close>

definition bs_bit :: "bitset \<Rightarrow> nat \<Rightarrow> bool" where
  "bs_bit b i \<longleftrightarrow> i div 64 < length (bs_words b) \<and> bit (bs_words b ! (i div 64)) (i mod 64)"

definition bs_inv :: "bitset \<Rightarrow> bool" where
  "bs_inv b \<longleftrightarrow> length (bs_words b) = div_ceil64 (bs_len b) \<and> (\<forall>i. bs_bit b i \<longrightarrow> i < bs_len b)"

definition bs_members :: "bitset \<Rightarrow> nat set" where
  "bs_members b = {i. bs_contains b i}"

lemma div_ceil64_eq: "div_ceil64 n = (if n mod 64 = 0 then n div 64 else Suc (n div 64))"
proof -
  have "n + 63 = (n mod 64 + 63) + n div 64 * 64" by simp
  then have "(n + 63) div 64 = (n mod 64 + 63) div 64 + n div 64"
    by (metis div_mult_self1 zero_neq_numeral add.commute)
  moreover have "(n mod 64 + 63) div 64 = 1" if "n mod 64 \<noteq> 0"
    using that by (intro div_nat_eqI) simp_all
  ultimately show ?thesis by (simp add: div_ceil64_def)
qed

lemma div_mod64_less: "i div 64 = n div 64 \<Longrightarrow> i < n \<longleftrightarrow> i mod 64 < n mod 64" for i n :: nat
  using div_mult_mod_eq[of i 64] div_mult_mod_eq[of n 64] by linarith

lemma div64_less: "i div 64 < n div 64 \<Longrightarrow> i < n" for i n :: nat
  by (metis div_le_mono leD leI)

lemma div_ceil64_less: "i < n \<Longrightarrow> i div 64 < div_ceil64 n"
  using div_le_mono[of i n 64] div_mod64_less[of i n]
  by (cases "i div 64 = n div 64") (auto simp: div_ceil64_eq)

lemma div_ceil64_last: "i div 64 < div_ceil64 n \<Longrightarrow> n mod 64 = 0 \<Longrightarrow> i < n"
  using div64_less[of i n] by (simp only: div_ceil64_eq if_True simp_thms)

lemma div_ceil64_tail:
  assumes "n mod 64 \<noteq> 0"
  shows "div_ceil64 n = Suc (n div 64)"
  using assms by (simp add: div_ceil64_eq)

lemma shift_and_one: "drop_bit k w AND 1 = 1 \<longleftrightarrow> bit w k" for w :: "'w::len word"
  using bit_iff_odd_drop_bit[of w k] and_one_eq[of "drop_bit k w"]
    odd_iff_mod_2_eq_one[of "drop_bit k w"] by metis

lemma contains_bit:
  "bs_contains b i \<longleftrightarrow> i < bs_len b \<and> bit (bs_words b ! (i div 64)) (i mod 64)"
  unfolding bs_contains_def shift_and_one by simp

lemma contains_bs_bit: "bs_inv b \<Longrightarrow> bs_contains b i \<longleftrightarrow> bs_bit b i"
  by (auto simp: contains_bit bs_bit_def bs_inv_def div_ceil64_less)

lemma bs_members_bit: "bs_inv b \<Longrightarrow> bs_members b = {i. bs_bit b i}"
  by (auto simp: bs_members_def contains_bs_bit)

lemma bs_contains_members: "bs_contains b i \<longleftrightarrow> i \<in> bs_members b"
  by (simp add: bs_members_def)

lemma bs_members_below: "i \<in> bs_members b \<Longrightarrow> i < bs_len b"
  by (auto simp: bs_members_def contains_bit)

lemma bs_members_subset: "bs_members b \<subseteq> {..<bs_len b}"
  by (auto dest: bs_members_below)

lemma bs_members_finite [simp]: "finite (bs_members b)"
  by (rule finite_subset[OF bs_members_subset]) simp

text \<open>Canonical form: two well-formed sets over one domain with the same members are equal.\<close>

lemma bs_extensional:
  assumes "bs_inv a" "bs_inv b" "bs_len a = bs_len b" "bs_members a = bs_members b"
  shows "a = b"
proof -
  have same: "bs_bit a i = bs_bit b i" for i
    using assms(4) by (auto simp: bs_members_bit assms(1,2))
  have len: "length (bs_words a) = length (bs_words b)"
    using assms(1-3) by (simp add: bs_inv_def)
  have "bs_words a = bs_words b"
  proof (rule nth_equalityI[OF len], rule bit_word_eqI)
    fix w k assume "w < length (bs_words a)" "k < LENGTH(64)"
    then show "bit (bs_words a ! w) k = bit (bs_words b ! w) k"
      using same[of "64 * w + k"] len by (simp add: bs_bit_def)
  qed
  then show ?thesis using assms(3) by simp
qed

lemma bs_equal_set_eq: "bs_equal_set a b \<longleftrightarrow> a = b"
  by (auto simp: bs_equal_set_def)

section \<open>What the operations do to the members\<close>

lemma length_map_last [simp]: "length (map_last f ws) = length ws"
  by (simp add: map_last_def)

lemma nth_map_last:
  "i < length ws \<Longrightarrow> map_last f ws ! i = (if Suc i = length ws then f (ws ! i) else ws ! i)"
proof (cases "Suc i = length ws")
  case True
  moreover from True have "length ws - Suc 0 = i" by simp
  ultimately show ?thesis by (auto simp: map_last_def nth_append last_conv_nth)
qed (auto simp: map_last_def nth_append nth_butlast)

lemma length_vec_resize [simp]: "length (vec_resize n x xs) = n"
  by (simp add: vec_resize_def)

lemma nth_vec_resize:
  "i < n \<Longrightarrow> vec_resize n x xs ! i = (if i < length xs then xs ! i else x)"
  by (auto simp: vec_resize_def nth_append)

lemma bs_invI:
  "length (bs_words b) = div_ceil64 (bs_len b) \<Longrightarrow> (\<And>i. bs_bit b i \<Longrightarrow> i < bs_len b) \<Longrightarrow> bs_inv b"
  by (simp add: bs_inv_def)

lemma bs_inv_bit_below: "bs_inv b \<Longrightarrow> bs_bit b i \<Longrightarrow> i < bs_len b"
  by (simp add: bs_inv_def)

lemma bs_with_len [bs_simps]:
  "bs_inv (bs_with_len n)" "bs_members (bs_with_len n) = {}" "bs_len (bs_with_len n) = n"
proof -
  have none: "\<not> bs_bit (bs_with_len n) i" for i by (simp add: bs_bit_def bs_with_len_def)
  show inv: "bs_inv (bs_with_len n)"
    by (rule bs_invI) (simp_all add: none, simp add: bs_with_len_def)
  show "bs_members (bs_with_len n) = {}" by (simp add: bs_members_bit[OF inv] none)
  show "bs_len (bs_with_len n) = n" by (simp add: bs_with_len_def)
qed

lemma bs_default [bs_simps]:
  "bs_inv bs_default" "bs_members bs_default = {}" "bs_len bs_default = 0"
proof -
  have eq: "bs_default = bs_with_len 0"
    by (simp add: bs_default_def bs_with_len_def div_ceil64_def)
  show "bs_inv bs_default" "bs_members bs_default = {}" "bs_len bs_default = 0"
    unfolding eq by (rule bs_with_len)+
qed

lemma bs_clear [bs_simps]:
  "bs_inv b \<Longrightarrow> bs_inv (bs_clear b)" "bs_members (bs_clear b) = {}"
  "bs_len (bs_clear b) = bs_len b" if "bs_inv b" for b
proof -
  have none: "\<not> bs_bit (bs_clear b) i" for i by (simp add: bs_bit_def bs_clear_def)
  show inv: "bs_inv (bs_clear b)"
    using that by (intro bs_invI) (simp_all add: none, simp add: bs_clear_def bs_inv_def)
  show "bs_members (bs_clear b) = {}" by (simp add: bs_members_bit[OF inv] none)
  show "bs_len (bs_clear b) = bs_len b" by (simp add: bs_clear_def)
qed

lemma bs_bit_resize: "bs_bit (bs_resize b n) i \<longleftrightarrow> bs_bit b i \<and> i < n"
proof (cases "n mod 64 = 0")
  case True
  then have "bs_words (bs_resize b n) = vec_resize (div_ceil64 n) 0 (bs_words b)"
    by (simp add: bs_resize_def Let_def)
  then show ?thesis
    using div_ceil64_last[OF _ True, of i] div_ceil64_less[of i n]
    by (auto simp: bs_bit_def nth_vec_resize split: if_splits)
next
  case False
  let ?k = "n mod 64" and ?ws = "vec_resize (div_ceil64 n) 0 (bs_words b)"
  have words: "bs_words (bs_resize b n) = map_last (\<lambda>w. w AND (push_bit ?k 1 - 1)) ?ws"
    using False by (simp add: bs_resize_def Let_def)
  have mask: "bit (2 ^ ?k - 1 :: 64 word) j \<longleftrightarrow> j < ?k" for j
    by (rule bit_tail_mask_exp) simp
  consider "i div 64 < n div 64" | "i div 64 = n div 64" | "n div 64 < i div 64" by linarith
  then show ?thesis
  proof cases
    case 1
    then have "i < n" by (rule div64_less)
    then show ?thesis using 1
      by (auto simp: bs_bit_def words div_ceil64_tail[OF False] nth_map_last nth_vec_resize)
  next
    case 2
    then show ?thesis using div_mod64_less[OF 2]
      by (auto simp: bs_bit_def words div_ceil64_tail[OF False] nth_map_last nth_vec_resize
          bit_and_iff mask)
  next
    case 3
    then have "\<not> i < n" using div_le_mono[of i n 64] by linarith
    then show ?thesis using 3 by (auto simp: bs_bit_def words div_ceil64_tail[OF False])
  qed
qed

lemma bs_resize [bs_simps]:
  assumes "bs_inv b"
  shows "bs_inv (bs_resize b n)" "bs_members (bs_resize b n) = {i \<in> bs_members b. i < n}"
    "bs_len (bs_resize b n) = n"
proof -
  show len: "bs_len (bs_resize b n) = n" by (simp add: bs_resize_def Let_def)
  show inv: "bs_inv (bs_resize b n)"
    by (rule bs_invI) (simp_all add: len bs_bit_resize, simp add: bs_resize_def Let_def)
  show "bs_members (bs_resize b n) = {i \<in> bs_members b. i < n}"
    by (auto simp: bs_members_bit[OF inv] bs_members_bit[OF assms] bs_bit_resize)
qed

lemma bs_full [bs_simps]:
  "bs_inv (bs_full n)" "bs_members (bs_full n) = {..<n}" "bs_len (bs_full n) = n"
proof -
  have bits: "bs_bit (bs_full n) i \<longleftrightarrow> i < n" for i
  proof (cases "n mod 64 = 0")
    case True
    then have "bs_words (bs_full n) = replicate (div_ceil64 n) (- 1)"
      by (simp add: bs_full_def Let_def)
    then show ?thesis
      using div_ceil64_last[OF _ True, of i] div_ceil64_less[of i n] by (auto simp: bs_bit_def)
  next
    case False
    let ?k = "n mod 64" and ?ws = "replicate (div_ceil64 n) (- 1 :: 64 word)"
    have words: "bs_words (bs_full n) = map_last (\<lambda>_. push_bit ?k 1 - 1) ?ws"
      using False by (simp add: bs_full_def Let_def)
    have mask: "bit (2 ^ ?k - 1 :: 64 word) j \<longleftrightarrow> j < ?k" for j
      by (rule bit_tail_mask_exp) simp
    consider "i div 64 < n div 64" | "i div 64 = n div 64" | "n div 64 < i div 64" by linarith
    then show ?thesis
    proof cases
      case 1
      then have "i < n" by (rule div64_less)
      then show ?thesis using 1
        by (auto simp: bs_bit_def words div_ceil64_tail[OF False] nth_map_last
            simp del: replicate_Suc)
    next
      case 2
      then show ?thesis using div_mod64_less[OF 2]
        by (auto simp: bs_bit_def words div_ceil64_tail[OF False] nth_map_last mask
            simp del: replicate_Suc)
    next
      case 3
      then have "\<not> i < n" using div_le_mono[of i n 64] by linarith
      then show ?thesis using 3 by (auto simp: bs_bit_def words div_ceil64_tail[OF False])
    qed
  qed
  show len: "bs_len (bs_full n) = n" by (simp add: bs_full_def Let_def)
  show inv: "bs_inv (bs_full n)"
    by (rule bs_invI) (simp_all add: len bits, simp add: bs_full_def Let_def)
  show "bs_members (bs_full n) = {..<n}" by (auto simp: bs_members_bit[OF inv] bits)
qed

section \<open>Insertion, removal and the binary operations\<close>

lemma nth_upd: "j < length xs \<Longrightarrow> xs[i := x] ! j = (if i = j then x else xs ! j)"
  by simp

lemma bs_try_insert_cases:
  "bs_try_insert b i =
     (if i < bs_len b \<and> i div 64 < length (bs_words b)
      then (Inr (), b\<lparr>bs_words := (bs_words b)[i div 64 := bs_words b ! (i div 64) OR push_bit (i mod 64) 1]\<rparr>)
      else (Inl (UnknownNode i), b))"
  by (simp add: bs_try_insert_def Let_def)

lemma bs_insert_Some:
  assumes "bs_insert b i = Some b'"
  shows "bs_len b' = bs_len b" "bs_members b' = insert i (bs_members b)" "i < bs_len b"
    "length (bs_words b') = length (bs_words b)"
proof -
  from assms have i: "i < bs_len b" "i div 64 < length (bs_words b)"
    and b': "b' = b\<lparr>bs_words := (bs_words b)[i div 64 := bs_words b ! (i div 64) OR push_bit (i mod 64) 1]\<rparr>"
    by (auto simp: bs_insert_def bs_try_insert_cases split: if_splits)
  show "bs_len b' = bs_len b" "i < bs_len b" "length (bs_words b') = length (bs_words b)"
    using i b' by simp_all
  have eq: "j = i \<longleftrightarrow> j div 64 = i div 64 \<and> j mod 64 = i mod 64" for j
    by (metis div_mult_mod_eq)
  show "bs_members b' = insert i (bs_members b)"
    using i unfolding bs_members_def contains_bit b'
    by (auto simp: nth_list_update bit_or_iff bit_exp_iff eq)
qed

lemma bs_insert_inv: "bs_insert b i = Some b' \<Longrightarrow> bs_inv b \<Longrightarrow> bs_inv b'"
proof -
  assume ins: "bs_insert b i = Some b'" and inv: "bs_inv b"
  note props = bs_insert_Some[OF ins]
  from ins have b': "b' = b\<lparr>bs_words := (bs_words b)[i div 64 := bs_words b ! (i div 64) OR push_bit (i mod 64) 1]\<rparr>"
    by (auto simp: bs_insert_def bs_try_insert_cases split: if_splits)
  show "bs_inv b'"
  proof (rule bs_invI)
    show "length (bs_words b') = div_ceil64 (bs_len b')" using inv props by (simp add: bs_inv_def)
    fix j assume j: "bs_bit b' j"
    show "j < bs_len b'"
    proof (cases "bs_bit b j")
      case True
      then show ?thesis using inv props(1) by (simp add: bs_inv_bit_below)
    next
      case False
      with j have "j div 64 = i div 64 \<and> j mod 64 = i mod 64"
        by (auto simp: bs_bit_def b' nth_upd bit_or_iff bit_exp_iff split: if_splits)
      then have "j = i" by (metis div_mult_mod_eq)
      with props show ?thesis by simp
    qed
  qed
qed

lemma bs_insert_in_range: "bs_inv b \<Longrightarrow> i < bs_len b \<Longrightarrow> \<exists>b'. bs_insert b i = Some b'"
  by (simp add: bs_insert_def bs_try_insert_cases bs_inv_def div_ceil64_less)

lemma bs_insert_panics: "bs_inv b \<Longrightarrow> bs_insert b i = None \<longleftrightarrow> bs_len b \<le> i"
  using bs_insert_in_range[of b i] bs_insert_Some(3)[of b i]
  by (cases "bs_insert b i"; cases "i < bs_len b") auto

lemma bs_try_insert_error: "bs_try_insert b i = (Inl e, b') \<Longrightarrow> e = UnknownNode i \<and> b' = b"
  by (auto simp: bs_try_insert_cases split: if_splits)

lemma bs_remove [bs_simps]:
  assumes "bs_inv b"
  shows "bs_inv (bs_remove b i)" "bs_members (bs_remove b i) = bs_members b - {i}"
    "bs_len (bs_remove b i) = bs_len b"
proof -
  have eq: "j = i \<longleftrightarrow> j div 64 = i div 64 \<and> j mod 64 = i mod 64" for j
    by (metis div_mult_mod_eq)
  show len: "bs_len (bs_remove b i) = bs_len b" by (simp add: bs_remove_def)
  have sub: "bs_bit (bs_remove b i) j \<Longrightarrow> bs_bit b j" for j
    by (auto simp: bs_bit_def bs_remove_def nth_upd bit_and_iff split: if_splits)
  show inv: "bs_inv (bs_remove b i)"
  proof (rule bs_invI)
    show "length (bs_words (bs_remove b i)) = div_ceil64 (bs_len (bs_remove b i))"
      using assms by (simp add: bs_inv_def bs_remove_def)
    show "\<And>j. bs_bit (bs_remove b i) j \<Longrightarrow> j < bs_len (bs_remove b i)"
      using sub assms by (simp add: len bs_inv_bit_below)
  qed
  show "bs_members (bs_remove b i) = bs_members b - {i}"
  proof (cases "i < bs_len b")
    case True
    then have "i div 64 < length (bs_words b)" using assms by (simp add: bs_inv_def div_ceil64_less)
    then show ?thesis using True
      unfolding bs_members_def contains_bit
      by (auto simp: bs_remove_def nth_list_update bit_and_iff bit_not_iff bit_exp_iff eq)
  next
    case False
    then show ?thesis by (auto simp: bs_remove_def bs_members_def contains_bit)
  qed
qed

text \<open>The binary operations on equal domains.\<close>

lemma bs_same_domain_inv: "bs_inv a \<Longrightarrow> bs_inv b \<Longrightarrow> bs_same_domain a b \<longleftrightarrow> bs_len a = bs_len b"
  by (auto simp: bs_same_domain_def bs_inv_def)

lemma bs_map2:
  assumes "bs_inv a" "bs_inv b" "bs_len a = bs_len b"
    and bits: "\<And>x y k. bit (f x y :: 64 word) k \<Longrightarrow> bit x k \<or> bit y k"
    and r: "r = a\<lparr>bs_words := map2 f (bs_words a) (bs_words b)\<rparr>"
  shows "bs_inv r" "bs_len r = bs_len a"
    "i \<in> bs_members r \<longleftrightarrow> i < bs_len a \<and> bit (f (bs_words a ! (i div 64)) (bs_words b ! (i div 64))) (i mod 64)"
proof -
  have len: "length (bs_words a) = length (bs_words b)" using assms(1-3) by (simp add: bs_inv_def)
  show "bs_len r = bs_len a" by (simp add: r)
  show inv: "bs_inv r"
  proof (rule bs_invI)
    show "length (bs_words r) = div_ceil64 (bs_len r)"
      using assms(1) len by (simp add: r bs_inv_def)
    fix i assume "bs_bit r i"
    then have "bs_bit a i \<or> bs_bit b i"
      using len bits[of "bs_words a ! (i div 64)" "bs_words b ! (i div 64)" "i mod 64"]
      by (auto simp: bs_bit_def r)
    then show "i < bs_len r"
      using assms(3) bs_inv_bit_below[OF assms(1)] bs_inv_bit_below[OF assms(2)] by (auto simp: r)
  qed
  have "i < bs_len a \<Longrightarrow> i div 64 < length (bs_words a)"
    using assms(1) by (simp add: bs_inv_def div_ceil64_less)
  then show "i \<in> bs_members r \<longleftrightarrow> i < bs_len a \<and> bit (f (bs_words a ! (i div 64)) (bs_words b ! (i div 64))) (i mod 64)"
    using len by (auto simp: bs_members_def contains_bit r)
qed

lemma bs_mem_iff: "i \<in> bs_members b \<longleftrightarrow> i < bs_len b \<and> bit (bs_words b ! (i div 64)) (i mod 64)"
  by (simp add: bs_members_def contains_bit)

lemma bs_union_with [bs_simps]:
  assumes "bs_inv a" "bs_inv b" "bs_len a = bs_len b"
  shows "\<exists>r. bs_union_with a b = Some r \<and> bs_inv r \<and> bs_len r = bs_len a \<and>
    bs_members r = bs_members a \<union> bs_members b"
proof -
  let ?r = "a\<lparr>bs_words := map2 (\<lambda>x y. x OR y) (bs_words a) (bs_words b)\<rparr>"
  have bits: "\<And>x y k. bit (x OR y :: 64 word) k \<Longrightarrow> bit x k \<or> bit y k"
    by (auto simp: bit_or_iff)
  note m = bs_map2[OF assms bits refl]
  have "bs_members ?r = bs_members a \<union> bs_members b"
    by (rule set_eqI, subst m(3)) (auto simp: bit_or_iff bs_mem_iff assms(3))
  moreover have "bs_inv ?r" by (rule m(1))
  ultimately show ?thesis
    using assms by (simp add: bs_union_with_def bs_same_domain_inv)
qed

lemma bs_intersect_with [bs_simps]:
  assumes "bs_inv a" "bs_inv b" "bs_len a = bs_len b"
  shows "\<exists>r. bs_intersect_with a b = Some r \<and> bs_inv r \<and> bs_len r = bs_len a \<and>
    bs_members r = bs_members a \<inter> bs_members b"
proof -
  let ?r = "a\<lparr>bs_words := map2 (\<lambda>x y. x AND y) (bs_words a) (bs_words b)\<rparr>"
  have bits: "\<And>x y k. bit (x AND y :: 64 word) k \<Longrightarrow> bit x k \<or> bit y k"
    by (auto simp: bit_and_iff)
  note m = bs_map2[OF assms bits refl]
  have "bs_members ?r = bs_members a \<inter> bs_members b"
    by (rule set_eqI, subst m(3)) (auto simp: bit_and_iff bs_mem_iff assms(3))
  moreover have "bs_inv ?r" by (rule m(1))
  ultimately show ?thesis
    using assms by (simp add: bs_intersect_with_def bs_same_domain_inv)
qed

lemma bs_difference_with [bs_simps]:
  assumes "bs_inv a" "bs_inv b" "bs_len a = bs_len b"
  shows "\<exists>r. bs_difference_with a b = Some r \<and> bs_inv r \<and> bs_len r = bs_len a \<and>
    bs_members r = bs_members a - bs_members b"
proof -
  let ?r = "a\<lparr>bs_words := map2 (\<lambda>x y. x AND NOT y) (bs_words a) (bs_words b)\<rparr>"
  have bits: "\<And>x y k. bit (x AND NOT y :: 64 word) k \<Longrightarrow> bit x k \<or> bit y k"
    by (auto simp: bit_and_iff bit_not_iff)
  note m = bs_map2[OF assms bits refl]
  have "bs_members ?r = bs_members a - bs_members b"
    by (rule set_eqI, subst m(3)) (auto simp: bit_and_iff bit_not_iff bs_mem_iff assms(3))
  moreover have "bs_inv ?r" by (rule m(1))
  ultimately show ?thesis
    using assms by (simp add: bs_difference_with_def bs_same_domain_inv)
qed

text \<open>The tests on pairs.\<close>

lemma bs_words_exists:
  assumes "bs_inv b"
  shows "(\<exists>w < length (bs_words b). \<exists>k. bit (bs_words b ! w) k \<and> P w k) \<longleftrightarrow>
    (\<exists>i \<in> bs_members b. P (i div 64) (i mod 64))"
proof
  assume "\<exists>w < length (bs_words b). \<exists>k. bit (bs_words b ! w) k \<and> P w k"
  then obtain w k where w: "w < length (bs_words b)" "bit (bs_words b ! w) k" "P w k" by blast
  then have k: "k < 64" by (auto dest: bit_imp_le_length)
  then have "bs_bit b (64 * w + k)" using w by (simp add: bs_bit_def)
  then show "\<exists>i \<in> bs_members b. P (i div 64) (i mod 64)"
    using w k by (intro bexI[of _ "64 * w + k"]) (simp_all add: bs_members_bit[OF assms])
next
  assume "\<exists>i \<in> bs_members b. P (i div 64) (i mod 64)"
  then show "\<exists>w < length (bs_words b). \<exists>k. bit (bs_words b ! w) k \<and> P w k"
    by (auto simp: bs_members_bit[OF assms] bs_bit_def)
qed

lemma word_nonzero_bit: "w \<noteq> 0 \<longleftrightarrow> (\<exists>k. bit w k)" for w :: "'w::len word"
  using word_has_bit[of w] by auto

lemma bs_any_members [bs_simps]: "bs_inv b \<Longrightarrow> bs_any b \<longleftrightarrow> bs_members b \<noteq> {}"
proof -
  have "bs_any b \<longleftrightarrow> (\<exists>w < length (bs_words b). \<exists>k. bit (bs_words b ! w) k \<and> True)"
    by (simp add: bs_any_def list_ex_length word_nonzero_bit)
  then show "bs_inv b \<Longrightarrow> bs_any b \<longleftrightarrow> bs_members b \<noteq> {}"
    using bs_words_exists[of b "\<lambda>_ _. True"] by auto
qed

lemma bs_intersects [bs_simps]:
  assumes "bs_inv a" "bs_inv b" "bs_len a = bs_len b"
  shows "bs_intersects a b = Some (bs_members a \<inter> bs_members b \<noteq> {})"
proof -
  have len: "length (bs_words a) = length (bs_words b)" using assms by (simp add: bs_inv_def)
  have "list_ex (\<lambda>(x, y). x AND y \<noteq> 0) (zip (bs_words a) (bs_words b)) \<longleftrightarrow>
      (\<exists>w < length (bs_words a). \<exists>k. bit (bs_words a ! w) k \<and> bit (bs_words b ! w) k)"
    using len by (simp add: list_ex_iff set_zip word_nonzero_bit bit_and_iff) fastforce
  also have "\<dots> \<longleftrightarrow> bs_members a \<inter> bs_members b \<noteq> {}"
    using bs_words_exists[OF assms(1), of "\<lambda>w k. bit (bs_words b ! w) k"] assms(3)
    by (auto simp: bs_mem_iff)
  finally show ?thesis using assms by (simp add: bs_intersects_def bs_same_domain_inv)
qed

lemma bs_is_subset_of [bs_simps]:
  assumes "bs_inv a" "bs_inv b" "bs_len a = bs_len b"
  shows "bs_is_subset_of a b = Some (bs_members a \<subseteq> bs_members b)"
proof -
  have len: "length (bs_words a) = length (bs_words b)" using assms by (simp add: bs_inv_def)
  have "\<not> list_all (\<lambda>(x, y). x AND NOT y = 0) (zip (bs_words a) (bs_words b)) \<longleftrightarrow>
      (\<exists>w < length (bs_words a). \<exists>k. bit (bs_words a ! w) k \<and> k < 64 \<and> \<not> bit (bs_words b ! w) k)"
    using len word_nonzero_bit[where 'w = 64]
    by (simp add: list_all_iff set_zip word_nonzero_bit bit_and_iff bit_not_iff
        del: neq0_conv) (fastforce dest: bit_imp_le_length)
  also have "\<dots> \<longleftrightarrow> \<not> bs_members a \<subseteq> bs_members b"
    using bs_words_exists[OF assms(1), of "\<lambda>w k. k < 64 \<and> \<not> bit (bs_words b ! w) k"] assms(3)
    by (auto simp: bs_mem_iff subset_eq)
  finally show ?thesis using assms by (simp add: bs_is_subset_of_def bs_same_domain_inv)
qed

section \<open>Iteration and counting\<close>

text \<open>The conversion of a list of positions, which fails when one of them is out of range.\<close>

definition as_ids :: "nat list \<Rightarrow> dense_id list option" where
  "as_ids ps = (if \<forall>i \<in> set ps. i < id_space then Some ps else None)"

lemma as_ids_simps [simp]:
  "as_ids [] = Some []"
  "as_ids (i # ps) = (case from_index i of None \<Rightarrow> None | Some i \<Rightarrow> map_option ((#) i) (as_ids ps))"
  by (auto simp: as_ids_def from_index_def)

lemma as_ids_append:
  "as_ids (ps @ qs) = (case as_ids ps of None \<Rightarrow> None | Some ids \<Rightarrow> map_option ((@) ids) (as_ids qs))"
  by (auto simp: as_ids_def)

lemma word_iter_eq: "word_iter base rest = as_ids (map ((+) base) (filter (bit rest) [0..<64]))"
proof (induction base rest rule: word_iter.induct)
  case (1 base rest)
  show ?case
  proof (cases "rest = 0")
    case True
    then show ?thesis by (subst word_iter.simps) simp
  next
    case False
    have "word_iter base rest = (case from_index (base + trailing_zeros rest) of None \<Rightarrow> None
        | Some i \<Rightarrow> map_option ((#) i) (as_ids (map ((+) base) (filter (bit (rest AND (rest - 1))) [0..<64]))))"
      using False 1 by (subst word_iter.simps) (simp split: option.splits)
    then show ?thesis using filter_bits_lowest[OF False] by simp
  qed
qed

text \<open>The set bits of a list of words, the first of which has index \<open>w\<close>.\<close>

definition word_positions :: "nat \<Rightarrow> 64 word list \<Rightarrow> nat list" where
  "word_positions w xs = filter (\<lambda>i. bit (xs ! (i div 64 - w)) (i mod 64)) [w * 64..<(w + length xs) * 64]"

lemma word_positions_Cons:
  "word_positions w (x # xs) = map ((+) (w * 64)) (filter (bit x) [0..<64]) @ word_positions (Suc w) xs"
proof -
  let ?Q = "\<lambda>i. bit ((x # xs) ! (i div 64 - w)) (i mod 64)"
  have split: "[w * 64..<(w + length (x # xs)) * 64] =
      [w * 64..<w * 64 + 64] @ [Suc w * 64..<(Suc w + length xs) * 64]"
    using upt_add_eq_append[of "w * 64" "w * 64 + 64" "length xs * 64"]
    by (simp add: algebra_simps)
  have "[w * 64..<w * 64 + 64] = map ((+) (w * 64)) [0..<64]"
    by (simp only: map_add_upt add.commute[of "w * 64"] add_0)
      (simp add: map_add_upt[of "w * 64" 64, symmetric] add.commute)
  then have "filter ?Q [w * 64..<w * 64 + 64] =
      map ((+) (w * 64)) (filter (\<lambda>k. ?Q (w * 64 + k)) [0..<64])"
    by (simp only: filter_map o_def)
  also have "filter (\<lambda>k. ?Q (w * 64 + k)) [0..<64] = filter (bit x) [0..<64]"
    by (rule filter_cong[OF refl]) simp
  finally have first: "filter ?Q [w * 64..<w * 64 + 64] = map ((+) (w * 64)) (filter (bit x) [0..<64])" .
  have "filter ?Q [Suc w * 64..<(Suc w + length xs) * 64] = word_positions (Suc w) xs"
    unfolding word_positions_def
  proof (rule filter_cong[OF refl])
    fix i assume "i \<in> set [Suc w * 64..<(Suc w + length xs) * 64]"
    then have "Suc w * 64 \<le> i" by simp
    then have "Suc w \<le> i div 64" by (metis div_le_mono nonzero_mult_div_cancel_right zero_neq_numeral)
    then have "i div 64 - w = Suc (i div 64 - Suc w)" by linarith
    then show "?Q i = bit (xs ! (i div 64 - Suc w)) (i mod 64)" by simp
  qed
  with first show ?thesis unfolding word_positions_def split filter_append by simp
qed

lemma words_iter_eq: "words_iter w xs = as_ids (word_positions w xs)"
proof (induction xs arbitrary: w)
  case (Cons x xs)
  then show ?case by (simp add: word_positions_Cons as_ids_append word_iter_eq cong: option.case_cong)
qed (simp add: word_positions_def)

lemma word_ones_positions: "sum_list (map word_ones xs) = length (word_positions w xs)"
proof (induction xs arbitrary: w)
  case (Cons x xs)
  then show ?case by (simp add: word_positions_Cons word_ones_def)
qed (simp add: word_positions_def)

text \<open>\<open>iter\<close> lists the members in ascending order, as a scan by \<open>contains\<close> would.\<close>

definition bs_ids :: "bitset \<Rightarrow> nat list" where
  "bs_ids b = filter (bs_contains b) [0..<bs_len b]"

lemma word_positions_scan:
  assumes "bs_inv b"
  shows "word_positions 0 (bs_words b) = bs_ids b"
proof -
  let ?n = "length (bs_words b) * 64"
  have "bs_len b \<le> ?n"
    using assms div_ceil64_eq[of "bs_len b"] div_mult_mod_eq[of "bs_len b" 64]
      mod_less_divisor[of 64 "bs_len b"]
    by (auto simp: bs_inv_def split: if_splits)
  then have split: "[0..<?n] = [0..<bs_len b] @ [bs_len b..<?n]"
    using upt_add_eq_append[of 0 "bs_len b" "?n - bs_len b"] by simp
  have "word_positions 0 (bs_words b) = filter (bs_bit b) [0..<?n]"
    unfolding word_positions_def by (rule filter_cong) (auto simp: bs_bit_def less_mult_imp_div_less)
  also have "\<dots> = filter (bs_bit b) [0..<bs_len b]"
  proof -
    have "\<not> bs_bit b i" if "bs_len b \<le> i" for i
      using bs_inv_bit_below[OF assms, of i] that by linarith
    then show ?thesis by (simp add: split filter_empty_conv)
  qed
  finally show ?thesis by (simp add: bs_ids_def contains_bs_bit[OF assms] cong: filter_cong)
qed

lemma bs_iter_scan: "bs_inv b \<Longrightarrow> bs_iter b = as_ids (bs_ids b)"
  by (simp add: bs_iter_def words_iter_eq word_positions_scan)

lemma bs_ids [bs_simps]:
  assumes "bs_inv b"
  shows "set (bs_ids b) = bs_members b" "distinct (bs_ids b)" "sorted (bs_ids b)"
  using assms by (auto simp: bs_ids_def bs_members_def contains_bit sorted_wrt_filter)

text \<open>A set over at most \<open>2^32\<close> nodes is listed without a panic.\<close>

lemma bs_iter:
  assumes "bs_inv b" "bs_members b \<subseteq> {..<n}" "n \<le> id_space"
  shows "bs_iter b = Some (bs_ids b)" "bs_to_dense_ids b = Some (bs_ids b)"
  using assms bs_ids(1)[OF assms(1)] by (auto simp: bs_iter_scan bs_to_dense_ids_def as_ids_def)

lemma bs_count_ones_card [bs_simps]: "bs_inv b \<Longrightarrow> bs_count_ones b = card (bs_members b)"
  using word_ones_positions[of "bs_words b" 0] word_positions_scan[of b] bs_ids(1,2)[of b]
  by (simp add: bs_count_ones_def distinct_card[symmetric])

section \<open>The interface the searches rely on\<close>

text \<open>
  What every search of the crate needs of its visited set: fresh insertion succeeds inside the
  domain, adds exactly the id, keeps the domain and the invariant, and leaves fewer ids outside
  the set, which is why the searches end.
\<close>

locale node_set =
  fixes inv :: "'s \<Rightarrow> bool" and width :: "'s \<Rightarrow> nat" and members :: "'s \<Rightarrow> nat set"
    and member :: "'s \<Rightarrow> nat \<Rightarrow> bool" and ins :: "'s \<Rightarrow> nat \<Rightarrow> 's option"
    and clear :: "'s \<Rightarrow> 's" and resize :: "'s \<Rightarrow> nat \<Rightarrow> 's"
  assumes members_bounded: "members s \<subseteq> {..<width s}"
    and member_iff: "member s i \<longleftrightarrow> i \<in> members s"
    and ins_Some: "ins s i = Some s' \<Longrightarrow>
      width s' = width s \<and> members s' = insert i (members s) \<and> i < width s"
    and ins_inv: "ins s i = Some s' \<Longrightarrow> inv s \<Longrightarrow> inv s'"
    and ins_total: "inv s \<Longrightarrow> i < width s \<Longrightarrow> \<exists>s'. ins s i = Some s'"
    and clear_spec: "inv s \<Longrightarrow> inv (clear s) \<and> members (clear s) = {} \<and> width (clear s) = width s"
    and resize_spec: "inv s \<Longrightarrow>
      inv (resize s n) \<and> members (resize s n) = {i \<in> members s. i < n} \<and> width (resize s n) = n"
begin

lemma finite_members: "finite (members s)"
  by (rule finite_subset[OF members_bounded]) simp

lemma prepared: "inv s \<Longrightarrow>
    inv (clear (resize s n)) \<and> members (clear (resize s n)) = {} \<and> width (clear (resize s n)) = n"
  using clear_spec[of "resize s n"] resize_spec[of s n] by simp

lemma fresh_ins_shrinks:
  assumes "ins s i = Some s'" and "\<not> member s i"
  shows "card ({..<width s'} - members s') < card ({..<width s} - members s)"
proof -
  note spec = ins_Some[OF assms(1)]
  have "{..<width s'} - members s' \<subset> {..<width s} - members s"
    using spec assms(2) by (auto simp: member_iff)
  then show ?thesis by (intro psubset_card_mono) simp_all
qed

lemma ins_step:
  assumes "inv s" "i < width s"
  obtains s' where "ins s i = Some s'" "inv s'" "members s' = insert i (members s)"
    "width s' = width s"
  using ins_total[OF assms] ins_Some ins_inv assms(1) by blast

end

interpretation bs: node_set bs_inv bs_len bs_members bs_contains bs_insert bs_clear bs_resize
proof (unfold_locales, goal_cases)
  case (1 s)
  show ?case by (rule bs_members_subset)
next
  case (2 s i)
  show ?case by (rule bs_contains_members)
next
  case (3 s i s')
  then show ?case by (simp add: bs_insert_Some)
next
  case (4 s i s')
  then show ?case by (rule bs_insert_inv)
next
  case (5 s i)
  then show ?case by (rule bs_insert_in_range)
next
  case (6 s)
  then show ?case by (simp add: bs_clear)
next
  case (7 s n)
  then show ?case by (simp add: bs_resize)
qed

section \<open>The traversal workspace\<close>

record graph_workspace =
  ws_visited :: bitset
  ws_frontier :: "dense_id list"
  ws_scratch_nodes :: "dense_id list"
  ws_predecessor :: "dense_id option list"

definition ws_default :: graph_workspace where
  "ws_default = \<lparr>ws_visited = bs_default, ws_frontier = [], ws_scratch_nodes = [], ws_predecessor = []\<rparr>"

definition ws_prepare :: "graph_workspace \<Rightarrow> nat \<Rightarrow> graph_workspace" where
  "ws_prepare ws n =
     ws\<lparr>ws_visited := bs_clear (bs_resize (ws_visited ws) n), ws_frontier := [], ws_scratch_nodes := []\<rparr>"

definition ws_prepare_with_predecessors :: "graph_workspace \<Rightarrow> nat \<Rightarrow> graph_workspace" where
  "ws_prepare_with_predecessors ws n = (ws_prepare ws n)\<lparr>ws_predecessor := replicate n None\<rparr>"

definition ws_inv :: "graph_workspace \<Rightarrow> bool" where
  "ws_inv ws \<longleftrightarrow> bs_inv (ws_visited ws)"

lemma ws_default_inv [simp]: "ws_inv ws_default"
  by (simp add: ws_inv_def ws_default_def bs_default)

lemma ws_prepare [simp]:
  assumes "ws_inv ws"
  shows "ws_inv (ws_prepare ws n)" "bs_inv (ws_visited (ws_prepare ws n))"
    "bs_members (ws_visited (ws_prepare ws n)) = {}" "bs_len (ws_visited (ws_prepare ws n)) = n"
  using bs.prepared[of "ws_visited ws" n] assms by (simp_all add: ws_prepare_def ws_inv_def)

lemma ws_prepare_frontier [simp]: "ws_frontier (ws_prepare ws n) = []"
  by (simp add: ws_prepare_def)

text \<open>Ids still unvisited: what every loop of the crate counts down.\<close>

definition ws_unseen :: "bitset \<Rightarrow> nat" where
  "ws_unseen b = card ({..<bs_len b} - bs_members b)"

lemma ws_unseen_insert:
  "bs_insert b i = Some b' \<Longrightarrow> \<not> bs_contains b i \<Longrightarrow> ws_unseen b' < ws_unseen b"
  unfolding ws_unseen_def by (rule bs.fresh_ins_shrinks)

end
