(* ===== verification/Graph_Search.thy ===== *)
theory Graph_Search
  imports Node_BitSet
begin

text \<open>
  The reachability and closure searches of \<open>algo.rs\<close>: \<open>bfs_reaches\<close>, \<open>closure_into\<close>,
  \<open>mask_closure\<close>, \<open>implicit_closure\<close> and \<open>components_by\<close>. Each loop is a recursive function over
  the same state as the source (a bit set of visited ids and a stack); a step that would panic
  (an id outside the set, a row out of range) is \<open>None\<close>. Each search is proved to return, never to
  panic on rows in range, and to compute reflexive-transitive closure.
\<close>

unbundle bit_operations_syntax

section \<open>Directed reachability\<close>

fun bfs_scan :: "dense_id \<Rightarrow> dense_id list \<Rightarrow> graph_workspace \<Rightarrow> (bool \<times> graph_workspace) option" where
  "bfs_scan tgt [] ws = Some (False, ws)"
| "bfs_scan tgt (c # cs) ws =
     (if c = tgt then Some (True, ws)
      else if \<not> bs_contains (ws_visited ws) c then
        (case bs_insert (ws_visited ws) c of
           None \<Rightarrow> None
         | Some vis \<Rightarrow> bfs_scan tgt cs (ws\<lparr>ws_visited := vis, ws_frontier := c # ws_frontier ws\<rparr>))
      else bfs_scan tgt cs ws)"

definition ws_measure :: "graph_workspace \<Rightarrow> nat" where
  "ws_measure ws = 2 * ws_unseen (ws_visited ws) + length (ws_frontier ws)"

lemma bfs_scan_measure: "bfs_scan tgt cs ws = Some (r, ws') \<Longrightarrow> ws_measure ws' \<le> ws_measure ws"
proof (induction tgt cs ws rule: bfs_scan.induct)
  case (2 tgt c cs ws)
  show ?case
  proof (cases "c = tgt \<or> bs_contains (ws_visited ws) c")
    case True
    with 2 show ?thesis by (auto split: if_splits)
  next
    case False
    with "2.prems" obtain vis where vis: "bs_insert (ws_visited ws) c = Some vis"
      and run: "bfs_scan tgt cs (ws\<lparr>ws_visited := vis, ws_frontier := c # ws_frontier ws\<rparr>) = Some (r, ws')"
      by (auto split: option.splits)
    with False "2.IH"(1)[OF _ _ vis run] ws_unseen_insert[OF vis] show ?thesis
      by (simp add: ws_measure_def)
  qed
qed simp

function bfs_loop ::
  "dense_id list list \<Rightarrow> dense_id \<Rightarrow> graph_workspace \<Rightarrow> (bool \<times> graph_workspace) option" where
  "bfs_loop children tgt ws =
     (case ws_frontier ws of
        [] \<Rightarrow> Some (False, ws)
      | n # rest \<Rightarrow>
          (if n < length children then
             (case bfs_scan tgt (children ! n) (ws\<lparr>ws_frontier := rest\<rparr>) of
                None \<Rightarrow> None
              | Some (found, ws') \<Rightarrow> (if found then Some (True, ws') else bfs_loop children tgt ws'))
           else None))"
  by pat_completeness auto
termination
  by (relation "measure (\<lambda>(children, tgt, ws). ws_measure ws)")
    (auto dest!: bfs_scan_measure simp: ws_measure_def)

declare bfs_loop.simps [simp del]

definition bfs_reaches ::
  "dense_id list list \<Rightarrow> dense_id \<Rightarrow> dense_id \<Rightarrow> graph_workspace \<Rightarrow> (bool \<times> graph_workspace) option" where
  "bfs_reaches children src tgt ws =
     (if src = tgt then Some (True, ws)
      else if src \<ge> length children \<or> tgt \<ge> length children then Some (False, ws)
      else (let ws1 = ws_prepare ws (length children)
            in case bs_insert (ws_visited ws1) src of
                 None \<Rightarrow> None
               | Some vis \<Rightarrow> bfs_loop children tgt
                   (ws1\<lparr>ws_visited := vis, ws_frontier := src # ws_frontier ws1\<rparr>)))"

text \<open>Rows whose entries are ids of the same table.\<close>

definition rows_closed :: "dense_id list list \<Rightarrow> bool" where
  "rows_closed rows \<longleftrightarrow> (\<forall>r \<in> set rows. set r \<subseteq> {..<length rows})"

lemma rows_closed_row: "rows_closed rows \<Longrightarrow> v \<in> set (row rows u) \<Longrightarrow> v < length rows"
  by (auto simp: rows_closed_def row_def split: if_splits)

lemma bfs_scan_spec:
  assumes "bs_inv (ws_visited ws)" "set cs \<subseteq> {..<bs_len (ws_visited ws)}"
  shows "\<exists>ws'. bfs_scan tgt cs ws = Some (tgt \<in> set cs, ws') \<and> bs_inv (ws_visited ws') \<and>
    bs_len (ws_visited ws') = bs_len (ws_visited ws) \<and>
    (tgt \<notin> set cs \<longrightarrow>
      bs_members (ws_visited ws') = bs_members (ws_visited ws) \<union> set cs \<and>
      set (ws_frontier ws') = set (ws_frontier ws) \<union> (set cs - bs_members (ws_visited ws)))"
  using assms
proof (induction cs arbitrary: ws)
  case (Cons c cs)
  consider "c = tgt" | "c \<noteq> tgt" "bs_contains (ws_visited ws) c"
    | "c \<noteq> tgt" "\<not> bs_contains (ws_visited ws) c" by blast
  then show ?case
  proof cases
    case 1
    with Cons.prems show ?thesis by auto
  next
    case 2
    with Cons.IH[of ws] Cons.prems show ?thesis
      by (auto simp: bs_contains_members)
  next
    case 3
    from Cons.prems have "c < bs_len (ws_visited ws)" by simp
    with Cons.prems obtain vis where vis: "bs_insert (ws_visited ws) c = Some vis" "bs_inv vis"
        "bs_members vis = insert c (bs_members (ws_visited ws))" "bs_len vis = bs_len (ws_visited ws)"
      by (auto elim: bs.ins_step)
    let ?ws = "ws\<lparr>ws_visited := vis, ws_frontier := c # ws_frontier ws\<rparr>"
    from Cons.IH[of ?ws] Cons.prems vis obtain ws' where
        "bfs_scan tgt cs ?ws = Some (tgt \<in> set cs, ws')" "bs_inv (ws_visited ws')"
        "bs_len (ws_visited ws') = bs_len vis"
        "tgt \<notin> set cs \<longrightarrow> bs_members (ws_visited ws') = bs_members vis \<union> set cs \<and>
          set (ws_frontier ws') = insert c (set (ws_frontier ws)) \<union> (set cs - bs_members vis)"
      by auto
    with 3 vis show ?thesis by (auto simp: bs_contains_members)
  qed
qed simp

lemma bfs_loop_spec:
  assumes "rows_closed children" "bs_inv (ws_visited ws)"
    and "bs_len (ws_visited ws) = length children"
    and "worklist (row_rel children) {src} (bs_members (ws_visited ws)) (set (ws_frontier ws))"
    and "tgt \<notin> bs_members (ws_visited ws)"
  shows "\<exists>ws'. bfs_loop children tgt ws = Some ((src, tgt) \<in> (row_rel children)\<^sup>*, ws') \<and> ws_inv ws'"
  using assms
proof (induction children tgt ws rule: bfs_loop.induct)
  case (1 children tgt ws)
  let ?E = "row_rel children" and ?V = "bs_members (ws_visited ws)"
  show ?case
  proof (cases "ws_frontier ws")
    case Nil
    with "1.prems"(4) have "?V = ?E\<^sup>* `` {src}" by (auto dest: worklist_done)
    with Nil "1.prems" show ?thesis by (subst bfs_loop.simps) (auto simp: ws_inv_def)
  next
    case (Cons n rest)
    with "1.prems"(4) have n: "n \<in> ?V" by (auto simp: worklist_def)
    then have lt: "n < length children" using "1.prems"(3) bs_members_below by metis
    have kids: "set (children ! n) = ?E `` {n}" using lt by (auto simp: row_nth)
    have "set (children ! n) \<subseteq> {..<length children}"
      using "1.prems"(1) lt by (auto simp: rows_closed_def)
    then obtain ws' where scan:
        "bfs_scan tgt (children ! n) (ws\<lparr>ws_frontier := rest\<rparr>) = Some (tgt \<in> ?E `` {n}, ws')"
        "bs_inv (ws_visited ws')" "bs_len (ws_visited ws') = length children"
        "tgt \<notin> ?E `` {n} \<longrightarrow> bs_members (ws_visited ws') = ?V \<union> ?E `` {n} \<and>
          set (ws_frontier ws') = set rest \<union> (?E `` {n} - ?V)"
      using bfs_scan_spec[of "ws\<lparr>ws_frontier := rest\<rparr>" "children ! n" tgt] "1.prems" kids by auto
    show ?thesis
    proof (cases "tgt \<in> ?E `` {n}")
      case True
      moreover have "(src, n) \<in> ?E\<^sup>*" using worklist_reach[OF "1.prems"(4) n] by simp
      ultimately have "(src, tgt) \<in> ?E\<^sup>*" by (auto intro: rtrancl_into_rtrancl)
      with True scan(1,2) Cons lt show ?thesis
        by (subst bfs_loop.simps) (simp add: ws_inv_def)
    next
      case False
      let ?N = "?E `` {n} - ?V"
      have "worklist ?E {src} (?V \<union> ?N) (set rest \<union> ?N)"
        by (rule worklist_step[OF "1.prems"(4) _ _ n]) (auto simp: Cons)
      then have "worklist ?E {src} (bs_members (ws_visited ws')) (set (ws_frontier ws'))"
        using False scan(4) by (simp add: Un_Diff_cancel)
      moreover have "tgt \<notin> bs_members (ws_visited ws')" using False scan(4) "1.prems"(5) by blast
      ultimately have "\<exists>w. bfs_loop children tgt ws' = Some ((src, tgt) \<in> ?E\<^sup>*, w) \<and> ws_inv w"
        using "1.IH"[OF Cons lt scan(1) refl] False "1.prems"(1) scan(2,3) by blast
      then show ?thesis using False scan(1) Cons lt by (subst bfs_loop.simps) simp
    qed
  qed
qed

text \<open>
  \<open>bfs_reaches\<close> answers reachability whatever the workspace held before: nothing a previous
  search left behind can leak into the answer.
\<close>

lemma bfs_reaches_spec:
  assumes "rows_closed children" "ws_inv ws"
  shows "\<exists>ws'. bfs_reaches children src tgt ws =
      Some (src = tgt \<or> (src, tgt) \<in> (row_rel children)\<^sup>*, ws') \<and> ws_inv ws'"
proof -
  consider "src = tgt" | "src \<noteq> tgt" "src \<ge> length children \<or> tgt \<ge> length children"
    | "src \<noteq> tgt" "src < length children" "tgt < length children" by linarith
  then show ?thesis
  proof cases
    case 1
    with assms show ?thesis by (simp add: bfs_reaches_def)
  next
    case 2
    have "(src, tgt) \<notin> (row_rel children)\<^sup>*"
    proof
      assume reach: "(src, tgt) \<in> (row_rel children)\<^sup>*"
      with 2(1) obtain y where "(src, y) \<in> row_rel children" by (auto elim: converse_rtranclE)
      then have "src < length children" by (auto dest: in_row_length)
      moreover from reach 2(1) obtain z where "(z, tgt) \<in> row_rel children"
        by (auto elim: rtranclE)
      then have "tgt < length children" by (auto dest: rows_closed_row[OF assms(1)])
      ultimately show False using 2(2) by linarith
    qed
    with 2 assms show ?thesis by (simp add: bfs_reaches_def)
  next
    case 3
    let ?ws = "ws_prepare ws (length children)"
    obtain vis where vis: "bs_insert (ws_visited ?ws) src = Some vis" "bs_inv vis"
        "bs_members vis = {src}" "bs_len vis = length children"
      using bs.ins_step[of "ws_visited ?ws" src] assms(2) 3 by auto
    let ?ws1 = "?ws\<lparr>ws_visited := vis, ws_frontier := [src]\<rparr>"
    have "\<exists>ws'. bfs_loop children tgt ?ws1 = Some ((src, tgt) \<in> (row_rel children)\<^sup>*, ws') \<and> ws_inv ws'"
      by (rule bfs_loop_spec[OF assms(1)]) (use vis 3 worklist_init in auto)
    with 3 vis show ?thesis by (simp add: bfs_reaches_def Let_def)
  qed
qed

section \<open>Closure of seeds along adjacency\<close>

text \<open>The seed loop: seeds at or beyond \<open>n\<close> are skipped, repeated seeds counted once.\<close>

fun closure_seeds ::
  "nat \<Rightarrow> dense_id list \<Rightarrow> bitset \<Rightarrow> dense_id list \<Rightarrow> (bitset \<times> dense_id list) option" where
  "closure_seeds n [] out stack = Some (out, stack)"
| "closure_seeds n (v # vs) out stack =
     (if v \<ge> n then closure_seeds n vs out stack
      else if \<not> bs_contains out v then
        (case bs_insert out v of None \<Rightarrow> None | Some out' \<Rightarrow> closure_seeds n vs out' (v # stack))
      else closure_seeds n vs out stack)"

fun closure_scan ::
  "(dense_id \<Rightarrow> bool) \<Rightarrow> dense_id list \<Rightarrow> bitset \<Rightarrow> dense_id list \<Rightarrow> (bitset \<times> dense_id list) option" where
  "closure_scan keep [] out stack = Some (out, stack)"
| "closure_scan keep (w # ws) out stack =
     (if \<not> keep w \<or> bs_contains out w then closure_scan keep ws out stack
      else (case bs_insert out w of None \<Rightarrow> None | Some out' \<Rightarrow> closure_scan keep ws out' (w # stack)))"

lemma closure_scan_measure:
  "closure_scan keep ws out stack = Some (out', stack') \<Longrightarrow>
    2 * ws_unseen out' + length stack' \<le> 2 * ws_unseen out + length stack"
proof (induction keep ws out stack rule: closure_scan.induct)
  case (2 keep w ws out stack)
  show ?case
  proof (cases "\<not> keep w \<or> bs_contains out w")
    case True
    with 2 show ?thesis by simp
  next
    case False
    with "2.prems" obtain o1 where ins: "bs_insert out w = Some o1"
      and run: "closure_scan keep ws o1 (w # stack) = Some (out', stack')"
      by (auto split: option.splits)
    with False "2.IH"(2)[OF False ins run] ws_unseen_insert[OF ins] show ?thesis by simp
  qed
qed simp

function closure_loop ::
  "(dense_id \<Rightarrow> dense_id list) \<Rightarrow> (dense_id \<Rightarrow> dense_id \<Rightarrow> bool) \<Rightarrow> bitset \<Rightarrow> dense_id list \<Rightarrow>
    (bitset \<times> dense_id list) option" where
  "closure_loop nbrs keep out stack =
     (case stack of
        [] \<Rightarrow> Some (out, [])
      | u # rest \<Rightarrow>
          (case closure_scan (keep u) (nbrs u) out rest of
             None \<Rightarrow> None
           | Some (out', stack') \<Rightarrow> closure_loop nbrs keep out' stack'))"
  by pat_completeness auto
termination
  by (relation "measure (\<lambda>(nbrs, keep, out, stack). 2 * ws_unseen out + length stack)")
    (auto dest!: closure_scan_measure)

declare closure_loop.simps [simp del]

definition closure_into ::
  "nat \<Rightarrow> (dense_id \<Rightarrow> dense_id list) \<Rightarrow> dense_id list \<Rightarrow> bitset \<Rightarrow> graph_workspace \<Rightarrow>
    (dense_id \<Rightarrow> dense_id \<Rightarrow> bool) \<Rightarrow> (bitset \<times> graph_workspace) option" where
  "closure_into n nbrs seeds out ws keep =
     (let out0 = bs_clear (bs_resize out n); ws0 = ws_prepare ws n
      in case closure_seeds n seeds out0 (ws_frontier ws0) of
           None \<Rightarrow> None
         | Some (out1, stack) \<Rightarrow>
             (case closure_loop nbrs keep out1 stack of
                None \<Rightarrow> None
              | Some (out2, stack') \<Rightarrow> Some (out2, ws0\<lparr>ws_frontier := stack'\<rparr>)))"

definition closure_rel ::
  "(dense_id \<Rightarrow> dense_id list) \<Rightarrow> (dense_id \<Rightarrow> dense_id \<Rightarrow> bool) \<Rightarrow> (dense_id \<times> dense_id) set" where
  "closure_rel nbrs keep = {(u, w). w \<in> set (nbrs u) \<and> keep u w}"

lemma closure_seeds_spec:
  assumes "bs_inv out" "bs_len out = n"
  shows "\<exists>out' stack'. closure_seeds n vs out stack = Some (out', stack') \<and> bs_inv out' \<and>
    bs_len out' = n \<and> bs_members out' = bs_members out \<union> {v \<in> set vs. v < n} \<and>
    set stack' = set stack \<union> ({v \<in> set vs. v < n} - bs_members out)"
  using assms
proof (induction vs arbitrary: out stack)
  case (Cons v vs)
  show ?case
  proof (cases "v < n \<and> v \<notin> bs_members out")
    case True
    then obtain o1 where o1: "bs_insert out v = Some o1" "bs_inv o1"
        "bs_members o1 = insert v (bs_members out)" "bs_len o1 = n"
      using Cons.prems by (auto elim: bs.ins_step)
    with True Cons.IH[of o1 "v # stack"] show ?thesis by (auto simp: bs_contains_members)
  next
    case False
    with Cons.IH[of out stack] Cons.prems show ?thesis by (auto simp: bs_contains_members)
  qed
qed simp

lemma closure_scan_spec:
  assumes "bs_inv out" "\<And>w. w \<in> set ws \<Longrightarrow> keep w \<Longrightarrow> w < bs_len out"
  shows "\<exists>out' stack'. closure_scan keep ws out stack = Some (out', stack') \<and> bs_inv out' \<and>
    bs_len out' = bs_len out \<and> bs_members out' = bs_members out \<union> {w \<in> set ws. keep w} \<and>
    set stack' = set stack \<union> ({w \<in> set ws. keep w} - bs_members out)"
  using assms
proof (induction ws arbitrary: out stack)
  case (Cons w ws)
  show ?case
  proof (cases "keep w \<and> w \<notin> bs_members out")
    case True
    then obtain o1 where o1: "bs_insert out w = Some o1" "bs_inv o1"
        "bs_members o1 = insert w (bs_members out)" "bs_len o1 = bs_len out"
      using Cons.prems by (auto elim: bs.ins_step)
    with True Cons.IH[of o1 "w # stack"] Cons.prems(2) show ?thesis
      by (auto simp: bs_contains_members)
  next
    case False
    with Cons.IH[of out stack] Cons.prems show ?thesis by (auto simp: bs_contains_members)
  qed
qed simp

lemma closure_loop_spec:
  assumes "bs_inv out" "bs_len out = n"
    and "\<And>u w. u < n \<Longrightarrow> w \<in> set (nbrs u) \<Longrightarrow> keep u w \<Longrightarrow> w < n"
    and "worklist (closure_rel nbrs keep) S (bs_members out) (set stack)"
  shows "\<exists>out'. closure_loop nbrs keep out stack = Some (out', []) \<and> bs_inv out' \<and>
    bs_len out' = n \<and> bs_members out' = (closure_rel nbrs keep)\<^sup>* `` S"
  using assms
proof (induction nbrs keep out stack rule: closure_loop.induct)
  case (1 nbrs keep out stack)
  let ?E = "closure_rel nbrs keep" and ?V = "bs_members out"
  show ?case
  proof (cases stack)
    case Nil
    with "1.prems"(4) have "?V = ?E\<^sup>* `` S" by (simp add: worklist_done)
    with Nil "1.prems"(1,2) show ?thesis by (subst closure_loop.simps) simp
  next
    case (Cons u rest)
    with "1.prems"(4) have u: "u \<in> ?V" by (auto simp: worklist_def)
    then have lt: "u < n" using bs_members_below "1.prems"(2) by metis
    have kids: "{w \<in> set (nbrs u). keep u w} = ?E `` {u}" by (auto simp: closure_rel_def)
    obtain out' stack' where scan: "closure_scan (keep u) (nbrs u) out rest = Some (out', stack')"
        "bs_inv out'" "bs_len out' = n" "bs_members out' = ?V \<union> ?E `` {u}"
        "set stack' = set rest \<union> (?E `` {u} - ?V)"
      using closure_scan_spec[of out "nbrs u" "keep u" rest] "1.prems"(1-3) lt kids by auto
    have "worklist ?E S (?V \<union> (?E `` {u} - ?V)) (set rest \<union> (?E `` {u} - ?V))"
      by (rule worklist_step[OF "1.prems"(4) _ _ u]) (auto simp: Cons)
    then have "worklist ?E S (bs_members out') (set stack')" using scan by simp
    from "1.IH"[OF Cons scan(1) refl scan(2,3) "1.prems"(3) this] show ?thesis
      using Cons scan(1) by (subst closure_loop.simps) simp
  qed
qed

text \<open>
  \<open>closure_into\<close> returns and fills \<open>out\<close> with exactly the nodes reachable from the in-range
  seeds along the edges \<open>keep\<close> accepts.
\<close>

lemma closure_into_spec:
  assumes "bs_inv out" "ws_inv ws"
    and "\<And>u w. u < n \<Longrightarrow> w \<in> set (nbrs u) \<Longrightarrow> keep u w \<Longrightarrow> w < n"
  shows "\<exists>out' ws'. closure_into n nbrs seeds out ws keep = Some (out', ws') \<and> bs_inv out' \<and>
    bs_len out' = n \<and> ws_inv ws' \<and>
    bs_members out' = (closure_rel nbrs keep)\<^sup>* `` {v \<in> set seeds. v < n}"
proof -
  let ?out = "bs_clear (bs_resize out n)" and ?S = "{v \<in> set seeds. v < n}"
  have out0: "bs_inv ?out" "bs_len ?out = n" "bs_members ?out = {}"
    using bs.prepared[OF assms(1)] by simp_all
  obtain out1 stack where s1: "closure_seeds n seeds ?out [] = Some (out1, stack)" "bs_inv out1"
      "bs_len out1 = n" "bs_members out1 = ?S" "set stack = ?S"
    using closure_seeds_spec[OF out0(1,2), of seeds "[]"] out0(3) by auto
  have wl: "worklist (closure_rel nbrs keep) ?S (bs_members out1) (set stack)"
    by (simp add: s1(4,5) worklist_init)
  have "\<exists>out2. closure_loop nbrs keep out1 stack = Some (out2, []) \<and> bs_inv out2 \<and>
      bs_len out2 = n \<and> bs_members out2 = (closure_rel nbrs keep)\<^sup>* `` ?S"
    by (rule closure_loop_spec[OF s1(2,3) _ wl]) (rule assms(3))
  then obtain out2 where "closure_loop nbrs keep out1 stack = Some (out2, [])" "bs_inv out2"
      "bs_len out2 = n" "bs_members out2 = (closure_rel nbrs keep)\<^sup>* `` ?S" by blast
  moreover have "ws_inv ((ws_prepare ws n)\<lparr>ws_frontier := []\<rparr>)"
    using ws_prepare(1)[OF assms(2)] by (simp add: ws_inv_def)
  ultimately show ?thesis using s1(1) by (simp add: closure_into_def Let_def)
qed

section \<open>Closure over bitmask adjacency\<close>

text \<open>
  \<open>MaskWord\<close> is implemented by the unsigned integers, one macro arm for all of them; here the mask
  is any \<open>'w word\<close>. \<open>next[u]\<close> panics when \<open>u\<close> is at or beyond \<open>next.len()\<close>.
\<close>

definition mask_lowest_bit :: "'w::len word \<Rightarrow> nat option" where
  "mask_lowest_bit m = (if m \<noteq> 0 then Some (trailing_zeros m) else None)"

definition mask_single :: "nat \<Rightarrow> 'w::len word" where
  "mask_single i = push_bit i 1"

lemma bit_mask_single: "bit (mask_single k :: 'w::len word) i \<longleftrightarrow> i = k \<and> k < LENGTH('w)"
  unfolding mask_single_def by (rule bit_single)

lemma and_single_zero: "(m AND mask_single u = 0) \<longleftrightarrow> \<not> bit m u" for m :: "'w::len word"
  using word_nonzero_bit[of "m AND mask_single u"]
  by (auto simp: bit_and_iff bit_mask_single dest: bit_imp_le_length)

definition mask_measure :: "'w::len word \<Rightarrow> 'w word \<Rightarrow> nat" where
  "mask_measure closure pending =
     2 * card {i. i < LENGTH('w) \<and> \<not> bit closure i} + card {i. bit pending i}"

lemma mask_step_measure:
  fixes closure pending fresh :: "'w::len word"
  assumes "bit pending u" and "\<And>i. bit fresh i \<Longrightarrow> \<not> bit closure i"
  shows "mask_measure (closure OR fresh) ((pending AND NOT (mask_single u)) OR fresh) <
    mask_measure closure pending"
proof -
  let ?F = "{i. bit fresh i}" and ?C = "{i. i < LENGTH('w) \<and> \<not> bit closure i}"
  have C: "{i. i < LENGTH('w) \<and> \<not> bit (closure OR fresh) i} = ?C - ?F"
    by (auto simp: bit_or_iff)
  have "?F \<subseteq> ?C" using assms(2) by (auto dest: bit_imp_le_length)
  then have cC: "card (?C - ?F) + card ?F = card ?C"
    by (metis card_Diff_subset card_mono finite_word_bits finite_Collect_conjI finite_Collect_less_nat
        le_add_diff_inverse2)
  have "{i. bit ((pending AND NOT (mask_single u)) OR fresh) i} \<subseteq> ({i. bit pending i} - {u}) \<union> ?F"
    by (auto simp: bit_or_iff bit_and_iff bit_not_iff bit_mask_single dest: bit_imp_le_length)
  then have "card {i. bit ((pending AND NOT (mask_single u)) OR fresh) i} \<le>
      card ({i. bit pending i} - {u}) + card ?F"
    by (meson card_Un_le card_mono finite_Diff finite_UnI finite_word_bits order_trans)
  moreover have "card ({i. bit pending i} - {u}) < card {i. bit pending i}"
    using assms(1) by (intro psubset_card_mono) auto
  ultimately show ?thesis using cC by (simp add: mask_measure_def C)
qed

function mask_closure_loop ::
  "'w::len word list \<Rightarrow> 'w word \<Rightarrow> 'w word \<Rightarrow> 'w word \<Rightarrow> 'w word option" where
  "mask_closure_loop rows frozen closure pending =
     (case mask_lowest_bit pending of
        None \<Rightarrow> Some closure
      | Some u \<Rightarrow>
          (let pending1 = pending AND NOT (mask_single u)
           in if frozen AND mask_single u \<noteq> 0 then mask_closure_loop rows frozen closure pending1
              else if u < length rows then
                (let fresh = rows ! u AND NOT closure
                 in mask_closure_loop rows frozen (closure OR fresh) (pending1 OR fresh))
              else None))"
  by pat_completeness auto
termination
proof (relation "measure (\<lambda>(rows, frozen, closure, pending). mask_measure closure pending)", goal_cases)
  case (2 rows frozen closure pending u pending1)
  then have "bit pending u" by (auto simp: mask_lowest_bit_def trailing_zeros_lowest split: if_splits)
  from mask_step_measure[OF this, of 0 closure] show ?case by (simp add: 2)
next
  case (3 rows frozen closure pending u pending1 fresh)
  then have "bit pending u" by (auto simp: mask_lowest_bit_def trailing_zeros_lowest split: if_splits)
  from mask_step_measure[OF this, of fresh closure] show ?case
    by (simp add: 3 bit_and_iff bit_not_iff)
qed simp

declare mask_closure_loop.simps [simp del]

definition mask_closure :: "'w::len word \<Rightarrow> 'w word list \<Rightarrow> 'w word \<Rightarrow> 'w word option" where
  "mask_closure seeds rows frozen = mask_closure_loop rows frozen seeds seeds"

definition mask_rel :: "'w::len word list \<Rightarrow> 'w word \<Rightarrow> (nat \<times> nat) set" where
  "mask_rel rows frozen = {(u, w). u < length rows \<and> bit (rows ! u) w \<and> \<not> bit frozen u}"

lemma mask_closure_loop_spec:
  fixes closure :: "'w::len word"
  assumes "\<And>i. bit closure i \<Longrightarrow> \<not> bit frozen i \<Longrightarrow> i < length rows"
    and "\<And>u i. u < length rows \<Longrightarrow> bit (rows ! u) i \<Longrightarrow> \<not> bit frozen i \<Longrightarrow> i < length rows"
    and "worklist (mask_rel rows frozen) S {i. bit closure i} {i. bit pending i}"
  shows "\<exists>m. mask_closure_loop rows frozen closure pending = Some m \<and>
    {i. bit m i} = (mask_rel rows frozen)\<^sup>* `` S"
  using assms
proof (induction rows frozen closure pending rule: mask_closure_loop.induct)
  case (1 rows frozen closure pending)
  let ?E = "mask_rel rows frozen" and ?C = "{i. bit closure i}" and ?P = "{i. bit pending i}"
  show ?case
  proof (cases "pending = 0")
    case True
    with "1.prems"(3) have "?C = ?E\<^sup>* `` S" by (simp add: worklist_done)
    then show ?thesis by (subst mask_closure_loop.simps) (simp add: mask_lowest_bit_def True)
  next
    case False
    define u where "u = trailing_zeros pending"
    define p1 where "p1 = pending AND NOT (mask_single u)"
    have low: "mask_lowest_bit pending = Some u" using False by (simp add: mask_lowest_bit_def u_def)
    have up: "bit pending u" using trailing_zeros_lowest(2)[OF False] by (simp add: u_def)
    then have uc: "u \<in> ?C" using "1.prems"(3) by (auto simp: worklist_def)
    have p1: "{i. bit p1 i} = ?P - {u}"
      by (auto simp: p1_def bit_and_iff bit_not_iff bit_mask_single dest: bit_imp_le_length)
    show ?thesis
    proof (cases "bit frozen u")
      case True
      then have fr: "frozen AND mask_single u \<noteq> 0" by (simp add: and_single_zero)
      have "?E `` {u} = {}" using True by (auto simp: mask_rel_def)
      then have "worklist ?E S (?C \<union> {}) ((?P - {u}) \<union> {})"
        by (intro worklist_step[OF "1.prems"(3) _ _ uc]) auto
      then have "worklist ?E S ?C {i. bit p1 i}" using p1 by simp
      from "1.IH"(1)[OF low p1_def fr "1.prems"(1,2) this] show ?thesis
        by (subst mask_closure_loop.simps) (simp add: low fr p1_def[symmetric])
    next
      case False
      then have fr: "\<not> (frozen AND mask_single u \<noteq> 0)" by (simp add: and_single_zero)
      have lt: "u < length rows" using "1.prems"(1) uc False by simp
      define fresh where "fresh = rows ! u AND NOT closure"
      have fb: "bit fresh i \<longleftrightarrow> bit (rows ! u) i \<and> \<not> bit closure i" for i
        by (auto simp: fresh_def bit_and_iff bit_not_iff dest: bit_imp_le_length)
      let ?N = "{i. bit fresh i}"
      have kids: "?E `` {u} = {i. bit (rows ! u) i}" using lt False by (auto simp: mask_rel_def)
      have "worklist ?E S (?C \<union> ?N) ((?P - {u}) \<union> ?N)"
        by (rule worklist_step[OF "1.prems"(3) _ _ uc]) (auto simp: kids fb)
      then have "worklist ?E S {i. bit (closure OR fresh) i} {i. bit (p1 OR fresh) i}"
        using p1 by (simp add: bit_or_iff Collect_disj_eq)
      moreover have "bit (closure OR fresh) i \<Longrightarrow> \<not> bit frozen i \<Longrightarrow> i < length rows" for i
        using "1.prems"(1,2) lt by (auto simp: bit_or_iff fb)
      ultimately show ?thesis
        using "1.IH"(2)[OF low p1_def fr lt fresh_def] "1.prems"(2)
        by (subst mask_closure_loop.simps)
          (simp add: low fr lt p1_def[symmetric] fresh_def[symmetric])
    qed
  qed
qed

lemma mask_closure_spec:
  assumes "\<And>i. bit seeds i \<Longrightarrow> \<not> bit frozen i \<Longrightarrow> i < length rows"
    and "\<And>u i. u < length rows \<Longrightarrow> bit (rows ! u) i \<Longrightarrow> \<not> bit frozen i \<Longrightarrow> i < length rows"
  shows "\<exists>m. mask_closure seeds rows frozen = Some m \<and>
    {i. bit m i} = (mask_rel rows frozen)\<^sup>* `` {i. bit seeds i}"
  unfolding mask_closure_def by (rule mask_closure_loop_spec[OF assms worklist_init])

section \<open>Closure under an expansion function\<close>

text \<open>
  \<open>implicit_closure\<close> runs over arbitrary keys, so the reachable set may be infinite and the loop
  need not end: \<open>None\<close> is not returning. The seen set is a \<open>BTreeSet\<close>; the expander is modelled
  as a function of the key (callers also use it to flag a truncated expansion, which is state
  outside the closure).
\<close>

partial_function (option) implicit_closure_loop ::
  "('k \<Rightarrow> 'k list) \<Rightarrow> 'k set \<Rightarrow> 'k list \<Rightarrow> 'k set option" where
  "implicit_closure_loop expand seen stack =
     (case stack of
        [] \<Rightarrow> Some seen
      | node # rest \<Rightarrow>
          (if node \<in> seen then implicit_closure_loop expand seen rest
           else implicit_closure_loop expand (insert node seen) (rev (expand node) @ rest)))"

declare implicit_closure_loop.simps [code]

definition implicit_closure :: "'k list \<Rightarrow> ('k \<Rightarrow> 'k list) \<Rightarrow> 'k set option" where
  "implicit_closure seeds expand = implicit_closure_loop expand {} (rev seeds)"

text \<open>
  Here a node joins \<open>seen\<close> when it is expanded, so the worklist reading takes the seen set
  together with the stack as the visited set. The loop returns whenever the reachable set is
  finite: each expansion uses up one reachable key.
\<close>

lemma implicit_closure_loop_spec:
  fixes expand :: "'k \<Rightarrow> 'k list"
  defines "E \<equiv> {(u, w). w \<in> set (expand u)}"
  assumes "finite (E\<^sup>* `` S)"
    and "S \<subseteq> seen \<union> set stack" "seen \<union> set stack \<subseteq> E\<^sup>* `` S"
    and "E `` seen \<subseteq> seen \<union> set stack"
  shows "implicit_closure_loop expand seen stack = Some (E\<^sup>* `` S)"
  using assms(3-5)
proof (induction "(card (E\<^sup>* `` S - seen), length stack)" arbitrary: seen stack
    rule: wf_induct_rule[OF wf_lex_prod[OF wf_less_than wf_less_than]])
  case (1 seen stack)
  show ?case
  proof (cases stack)
    case Nil
    with "1.prems" have "worklist E S seen {}" by (auto simp: worklist_def)
    then show ?thesis using Nil
      by (subst implicit_closure_loop.simps) (simp add: worklist_done)
  next
    case (Cons node rest)
    show ?thesis
    proof (cases "node \<in> seen")
      case True
      have "implicit_closure_loop expand seen rest = Some (E\<^sup>* `` S)"
        by (rule "1.hyps") (use "1.prems" Cons True in auto)
      then show ?thesis using Cons True by (subst implicit_closure_loop.simps) simp
    next
      case False
      have node: "node \<in> E\<^sup>* `` S" using "1.prems"(2) Cons by auto
      have succ: "E `` {node} = set (expand node)" by (auto simp: E_def)
      with node have "set (expand node) \<subseteq> E\<^sup>* `` S"
        by (auto simp: E_def intro: rtrancl_into_rtrancl)
      moreover have "card (E\<^sup>* `` S - insert node seen) < card (E\<^sup>* `` S - seen)"
        using node False assms(2) by (intro psubset_card_mono) auto
      moreover have "E `` insert node seen \<subseteq> insert node seen \<union> set (rev (expand node) @ rest)"
        using "1.prems"(3) Cons succ by auto
      ultimately have "implicit_closure_loop expand (insert node seen) (rev (expand node) @ rest) =
          Some (E\<^sup>* `` S)"
        using "1.prems"(1,2) Cons by (intro "1.hyps") auto
      then show ?thesis using Cons False by (subst implicit_closure_loop.simps) simp
    qed
  qed
qed

lemma implicit_closure_spec:
  assumes "finite ({(u, w). w \<in> set (expand u)}\<^sup>* `` set seeds)"
  shows "implicit_closure seeds expand = Some ({(u, w). w \<in> set (expand u)}\<^sup>* `` set seeds)"
  unfolding implicit_closure_def
  by (rule implicit_closure_loop_spec) (use assms in auto)

section \<open>Connected components\<close>

text \<open>\<open>seen\<close> is the source's \<open>Vec<bool>\<close>; a neighbour at or beyond \<open>n\<close> is ignored.\<close>

fun comp_scan :: "nat list \<Rightarrow> bool list \<Rightarrow> nat list \<Rightarrow> bool list \<times> nat list" where
  "comp_scan [] seen stack = (seen, stack)"
| "comp_scan (v # vs) seen stack =
     (if v < length seen \<and> \<not> seen ! v then comp_scan vs (seen[v := True]) (v # stack)
      else comp_scan vs seen stack)"

definition unseen :: "bool list \<Rightarrow> nat" where
  "unseen seen = card {v. v < length seen \<and> \<not> seen ! v}"

definition seen_set :: "bool list \<Rightarrow> nat set" where
  "seen_set seen = {v. v < length seen \<and> seen ! v}"

lemma unseen_update:
  assumes "v < length seen" "\<not> seen ! v"
  shows "unseen (seen[v := True]) < unseen seen"
proof -
  have "{u. u < length (seen[v := True]) \<and> \<not> seen[v := True] ! u} \<subset> {u. u < length seen \<and> \<not> seen ! u}"
    using assms by (auto simp: nth_list_update split: if_splits)
  then show ?thesis unfolding unseen_def by (intro psubset_card_mono) simp_all
qed

lemma seen_set_update: "v < length seen \<Longrightarrow> seen_set (seen[v := True]) = insert v (seen_set seen)"
  by (auto simp: seen_set_def nth_list_update split: if_splits)

lemma comp_scan_measure:
  "comp_scan vs seen stack = (seen', stack') \<Longrightarrow>
    2 * unseen seen' + length stack' \<le> 2 * unseen seen + length stack"
proof (induction vs seen stack rule: comp_scan.induct)
  case (2 v vs seen stack)
  then show ?case using unseen_update[of v seen] by (cases "v < length seen \<and> \<not> seen ! v") auto
qed simp

function comp_grow ::
  "(nat \<Rightarrow> nat list) \<Rightarrow> bool list \<Rightarrow> nat list \<Rightarrow> nat list \<Rightarrow> bool list \<times> nat list" where
  "comp_grow neighbors seen [] members = (seen, members)"
| "comp_grow neighbors seen (u # stack) members =
     (case comp_scan (neighbors u) seen stack of
        (seen', stack') \<Rightarrow> comp_grow neighbors seen' stack' (members @ [u]))"
  by pat_completeness auto
termination
  by (relation "measure (\<lambda>(neighbors, seen, stack, members). 2 * unseen seen + length stack)")
    (auto dest!: comp_scan_measure[OF sym])

fun comp_outer ::
  "(nat \<Rightarrow> nat list) \<Rightarrow> nat list \<Rightarrow> bool list \<Rightarrow> nat list list \<Rightarrow> nat list list" where
  "comp_outer neighbors [] seen components = components"
| "comp_outer neighbors (start # starts) seen components =
     (if seen ! start then comp_outer neighbors starts seen components
      else (case comp_grow neighbors (seen[start := True]) [start] [] of
              (seen', members) \<Rightarrow> comp_outer neighbors starts seen' (components @ [sort members])))"

definition components_by :: "nat \<Rightarrow> (nat \<Rightarrow> nat list) \<Rightarrow> nat list list" where
  "components_by n neighbors = comp_outer neighbors [0..<n] (replicate n False) []"

definition neighbor_rel :: "nat \<Rightarrow> (nat \<Rightarrow> nat list) \<Rightarrow> (nat \<times> nat) set" where
  "neighbor_rel n neighbors = {(u, v). u < n \<and> v < n \<and> v \<in> set (neighbors u)}"

lemma comp_scan_spec:
  assumes "comp_scan vs seen stack = (seen', stack')" "distinct stack" "set stack \<subseteq> seen_set seen"
  shows "length seen' = length seen \<and> distinct stack' \<and>
    seen_set seen' = seen_set seen \<union> {v \<in> set vs. v < length seen} \<and>
    set stack' = set stack \<union> ({v \<in> set vs. v < length seen} - seen_set seen)"
  using assms
proof (induction vs seen stack arbitrary: rule: comp_scan.induct)
  case (2 v vs seen stack)
  show ?case
  proof (cases "v < length seen \<and> \<not> seen ! v")
    case True
    then have v: "v \<notin> seen_set seen" by (simp add: seen_set_def)
    have up: "seen_set (seen[v := True]) = insert v (seen_set seen)"
      using True by (simp add: seen_set_update)
    have "comp_scan vs (seen[v := True]) (v # stack) = (seen', stack')" using "2.prems"(1) True by simp
    moreover have "distinct (v # stack)" "set (v # stack) \<subseteq> seen_set (seen[v := True])"
      using "2.prems"(2,3) v up by auto
    ultimately have "length seen' = length seen \<and> distinct stack' \<and>
        seen_set seen' = insert v (seen_set seen) \<union> {w \<in> set vs. w < length seen} \<and>
        set stack' = insert v (set stack) \<union> ({w \<in> set vs. w < length seen} - insert v (seen_set seen))"
      using "2.IH"(1)[OF True] up by simp
    with v True show ?thesis by auto
  next
    case False
    then have "v < length seen \<Longrightarrow> v \<in> seen_set seen" by (simp add: seen_set_def)
    with "2.IH"(2)[OF False] "2.prems" False show ?thesis by auto
  qed
qed auto

lemma comp_grow_spec:
  assumes R: "\<And>u v. (u, v) \<in> R \<longleftrightarrow> u < n \<and> v < n \<and> v \<in> set (neighbors u)"
    and D: "sym R" "R `` D \<subseteq> D" "start \<notin> D"
    and "length seen = n" "D \<subseteq> seen_set seen"
    and "worklist R {start} (seen_set seen - D) (set stack)"
    and "distinct (members @ stack)" "set members = seen_set seen - D - set stack"
    and "comp_grow neighbors seen stack members = (seen', members')"
  shows "length seen' = n \<and> seen_set seen' = D \<union> R\<^sup>* `` {start} \<and> distinct members' \<and>
    set members' = R\<^sup>* `` {start}"
  using assms(1,5-)
proof (induction neighbors seen stack members rule: comp_grow.induct)
  case (1 neighbors seen members)
  then have "seen_set seen - D = R\<^sup>* `` {start}" by (simp add: worklist_done)
  with 1 show ?case by auto
next
  case (2 neighbors seen u stack members)
  note seen = "2.prems"(2,3) and wl = "2.prems"(4) and mem = "2.prems"(5,6)
  have avoid: "R\<^sup>* `` {start} \<inter> D = {}"
  proof -
    have "v \<notin> D" if "(start, v) \<in> R\<^sup>*" for v
      using that
    proof (induction rule: rtrancl_induct)
      case (step y z)
      with D(1) have "(z, y) \<in> R" by (auto dest: symD)
      with D(2) step.IH show ?case by blast
    qed (rule D(3))
    then show ?thesis by blast
  qed
  have u: "u \<in> seen_set seen - D" using wl by (auto simp: worklist_def)
  then have un: "u < n" using seen(1) by (auto simp: seen_set_def)
  have "(start, u) \<in> R\<^sup>*" using worklist_reach[OF wl u] by simp
  then have disj: "R `` {u} \<inter> D = {}" using avoid by (auto intro: rtrancl_into_rtrancl)
  obtain seen1 stack1 where scan: "comp_scan (neighbors u) seen stack = (seen1, stack1)" by fastforce
  have kids: "{v \<in> set (neighbors u). v < n} = R `` {u}" using un "2.prems"(1) by auto
  have "distinct stack" "set stack \<subseteq> seen_set seen" using mem(1) wl by (auto simp: worklist_def)
  from comp_scan_spec[OF scan this] kids seen(1)
  have sc: "length seen1 = n" "distinct stack1" "seen_set seen1 = seen_set seen \<union> R `` {u}"
      "set stack1 = set stack \<union> (R `` {u} - seen_set seen)" by auto
  let ?V = "seen_set seen - D" and ?N = "R `` {u} - seen_set seen"
  have "worklist R {start} (?V \<union> ?N) (set stack \<union> ?N)"
    by (rule worklist_step[OF wl _ _ u]) (use disj in auto)
  moreover have "?V \<union> ?N = seen_set seen1 - D" using sc(3) disj by auto
  ultimately have wl1: "worklist R {start} (seen_set seen1 - D) (set stack1)" using sc(4) by simp
  have "distinct ((members @ [u]) @ stack1)" using mem u sc by auto
  moreover have "set (members @ [u]) = seen_set seen1 - D - set stack1"
    using mem u sc(3,4) disj by auto
  moreover have "D \<subseteq> seen_set seen1" using seen(2) sc(3) by blast
  moreover have "comp_grow neighbors seen1 stack1 (members @ [u]) = (seen', members')"
    using "2.prems"(7) scan by simp
  ultimately show ?case
    using "2.IH"[OF scan[symmetric] "2.prems"(1) sc(1) _ wl1] by blast
qed

text \<open>
  \<open>components_by\<close> on a symmetric relation: one component per node that no smaller node reaches, in
  ascending order of that node, each component listing exactly what it reaches, ascending.
\<close>

lemma comp_outer_spec:
  assumes R: "\<And>u v. (u, v) \<in> R \<longleftrightarrow> u < n \<and> v < n \<and> v \<in> set (neighbors u)" and "sym R"
    and "k \<le> n" "length seen = n" "seen_set seen = {v. v < n \<and> (\<exists>t < k. (t, v) \<in> R\<^sup>*)}"
  shows "comp_outer neighbors [k..<n] seen comps =
    comps @ map (\<lambda>s. sorted_list_of_set (R\<^sup>* `` {s})) (filter (\<lambda>s. \<forall>t < s. (t, s) \<notin> R\<^sup>*) [k..<n])"
  using assms(3-)
proof (induction "n - k" arbitrary: k seen comps)
  case 0
  then show ?case by simp
next
  case (Suc m)
  then have k: "k < n" and up: "[k..<n] = k # [Suc k..<n]" by (simp_all add: upt_conv_Cons)
  have below: "v < n" if "(t, v) \<in> R\<^sup>*" "t < n" for t v
    using that by (induction rule: rtrancl_induct) (auto simp: R)
  have seen_k: "seen ! k \<longleftrightarrow> (\<exists>t < k. (t, k) \<in> R\<^sup>*)"
    using Suc.prems(2,3) k unfolding seen_set_def by blast
  show ?case
  proof (cases "seen ! k")
    case True
    have "{v. v < n \<and> (\<exists>t < k. (t, v) \<in> R\<^sup>*)} = {v. v < n \<and> (\<exists>t < Suc k. (t, v) \<in> R\<^sup>*)}"
    proof -
      obtain t0 where t0: "t0 < k" "(t0, k) \<in> R\<^sup>*" using True seen_k by blast
      have "(\<exists>t < Suc k. (t, v) \<in> R\<^sup>*) \<longleftrightarrow> (\<exists>t < k. (t, v) \<in> R\<^sup>*)" for v
        using t0 rtrancl_trans[OF t0(2)] less_Suc_eq by metis
      then show ?thesis by simp
    qed
    then have "comp_outer neighbors [Suc k..<n] seen comps = comps @
        map (\<lambda>s. sorted_list_of_set (R\<^sup>* `` {s})) (filter (\<lambda>s. \<forall>t < s. (t, s) \<notin> R\<^sup>*) [Suc k..<n])"
      using Suc k by (intro Suc.hyps(1)) auto
    then show ?thesis using True seen_k by (auto simp: up)
  next
    case False
    let ?D = "seen_set seen" and ?seen0 = "seen[k := True]"
    obtain seen' members where grow: "comp_grow neighbors ?seen0 [k] [] = (seen', members)" by fastforce
    have kD: "k \<notin> ?D" using False by (simp add: seen_set_def)
    have s0: "seen_set ?seen0 = insert k ?D" using k Suc.prems(2) by (simp add: seen_set_update)
    have closed: "R `` ?D \<subseteq> ?D"
    proof
      fix v assume "v \<in> R `` ?D"
      then obtain u where u: "u \<in> ?D" "(u, v) \<in> R" by blast
      then obtain t where "t < k" "(t, u) \<in> R\<^sup>*" using Suc.prems(3) by blast
      moreover have "v < n" using u(2) R by blast
      ultimately show "v \<in> ?D" using Suc.prems(3) u(2) by (blast intro: rtrancl_into_rtrancl)
    qed
    have wl: "worklist R {k} (seen_set ?seen0 - ?D) (set [k])"
      using s0 kD worklist_init[of R "{k}"] by (simp add: insert_Diff_if)
    have "length seen' = n \<and> seen_set seen' = ?D \<union> R\<^sup>* `` {k} \<and> distinct members \<and>
        set members = R\<^sup>* `` {k}"
      by (rule comp_grow_spec[OF R \<open>sym R\<close> closed kD _ _ wl _ _ grow])
        (use Suc.prems(2) s0 kD in auto)
    then have g: "length seen' = n" "seen_set seen' = ?D \<union> R\<^sup>* `` {k}" "distinct members"
        "set members = R\<^sup>* `` {k}" by blast+
    have "(\<exists>t < Suc k. (t, v) \<in> R\<^sup>*) \<longleftrightarrow> (\<exists>t < k. (t, v) \<in> R\<^sup>*) \<or> (k, v) \<in> R\<^sup>*" for v
      using less_Suc_eq by metis
    then have "seen_set seen' = {v. v < n \<and> (\<exists>t < Suc k. (t, v) \<in> R\<^sup>*)}"
      unfolding g(2) Suc.prems(3) using below[OF _ k] by blast
    then have "comp_outer neighbors [Suc k..<n] seen' (comps @ [sort members]) =
        (comps @ [sort members]) @
        map (\<lambda>s. sorted_list_of_set (R\<^sup>* `` {s})) (filter (\<lambda>s. \<forall>t < s. (t, s) \<notin> R\<^sup>*) [Suc k..<n])"
      using Suc g(1) k by (intro Suc.hyps(1)) auto
    moreover have "sort members = sorted_list_of_set (R\<^sup>* `` {k})"
      using g(3,4) sorted_list_of_set_sort_remdups[of members] by (simp add: distinct_remdups_id)
    moreover have "\<forall>t < k. (t, k) \<notin> R\<^sup>*" using False seen_k by blast
    ultimately show ?thesis using False grow by (simp add: up)
  qed
qed

lemma components_by_spec:
  assumes "sym (neighbor_rel n neighbors)"
  shows "components_by n neighbors =
    map (\<lambda>s. sorted_list_of_set ((neighbor_rel n neighbors)\<^sup>* `` {s}))
      (filter (\<lambda>s. \<forall>t < s. (t, s) \<notin> (neighbor_rel n neighbors)\<^sup>*) [0..<n])"
proof -
  have "seen_set (replicate n False) = {v. v < n \<and> (\<exists>t<0. (t, v) \<in> (neighbor_rel n neighbors)\<^sup>*)}"
    by (auto simp: seen_set_def)
  then have "comp_outer neighbors [0..<n] (replicate n False) [] = [] @
      map (\<lambda>s. sorted_list_of_set ((neighbor_rel n neighbors)\<^sup>* `` {s}))
        (filter (\<lambda>s. \<forall>t < s. (t, s) \<notin> (neighbor_rel n neighbors)\<^sup>*) [0..<n])"
    using assms by (intro comp_outer_spec) (auto simp: neighbor_rel_def)
  then show ?thesis by (simp add: components_by_def)
qed

end
