(* ===== verification/Graph_Order.thy ===== *)
theory Graph_Order
  imports Graph_Search
begin

text \<open>
  Kahn's algorithm, \<open>kahn_order\<close> and \<open>is_dag\<close> of \<open>algo.rs\<close>: indegrees taken from the parent rows,
  a stack of nodes whose parents are all placed, and one decrement per outgoing edge. Underflow of
  an indegree and indexing out of range are panics (\<open>None\<close>); a parent row too long for \<open>u32\<close> makes
  \<open>kahn_order\<close> answer that there is no order.

  The theorems: on adjacency tables that describe one relation the algorithm never panics, it finds
  an order exactly when the relation is acyclic, and the order is a topological permutation.
\<close>

section \<open>The algorithm\<close>

fun kahn_scan :: "dense_id list \<Rightarrow> nat list \<Rightarrow> dense_id list \<Rightarrow> (nat list \<times> dense_id list) option" where
  "kahn_scan [] indeg q = Some (indeg, q)"
| "kahn_scan (v # vs) indeg q =
     (if v \<ge> length indeg \<or> indeg ! v = 0 then None
      else (let indeg' = indeg[v := indeg ! v - 1]
            in if indeg' ! v = 0 then kahn_scan vs indeg' (v # q) else kahn_scan vs indeg' q))"

lemma sum_list_decrement:
  fixes xs :: "nat list"
  assumes "i < length xs" "xs ! i \<noteq> 0"
  shows "Suc (sum_list (xs[i := xs ! i - 1])) = sum_list xs"
  using assms
proof (induction xs arbitrary: i)
  case (Cons x xs)
  then show ?case by (cases i) auto
qed simp

lemma kahn_scan_measure:
  "kahn_scan vs indeg q = Some (indeg', q') \<Longrightarrow>
    2 * sum_list indeg' + length q' \<le> 2 * sum_list indeg + length q"
proof (induction vs indeg q rule: kahn_scan.induct)
  case (2 v vs indeg q)
  then have ok: "\<not> (v \<ge> length indeg \<or> indeg ! v = 0)" by (auto split: if_splits)
  then have dec: "Suc (sum_list (indeg[v := indeg ! v - 1])) = sum_list indeg"
    using sum_list_decrement[of v indeg] by simp
  show ?case
  proof (cases "indeg[v := indeg ! v - 1] ! v = 0")
    case True
    with 2 ok have "2 * sum_list indeg' + length q' \<le> 2 * sum_list (indeg[v := indeg ! v - 1]) + length (v # q)"
      by (simp add: Let_def)
    with dec show ?thesis by simp
  next
    case False
    with 2 ok have "2 * sum_list indeg' + length q' \<le> 2 * sum_list (indeg[v := indeg ! v - 1]) + length q"
      by (simp add: Let_def)
    with dec show ?thesis by simp
  qed
qed simp

function kahn_loop ::
  "dense_id list list \<Rightarrow> nat list \<Rightarrow> dense_id list \<Rightarrow> dense_id list \<Rightarrow> dense_id list option" where
  "kahn_loop children indeg [] order = Some order"
| "kahn_loop children indeg (u # q) order =
     (if u < length children then
        (case kahn_scan (children ! u) indeg q of
           None \<Rightarrow> None
         | Some (indeg', q') \<Rightarrow> kahn_loop children indeg' q' (order @ [u]))
      else None)"
  by pat_completeness auto
termination
  by (relation "measure (\<lambda>(children, indeg, q, order). 2 * sum_list indeg + length q)")
    (auto dest!: kahn_scan_measure)

text \<open>\<open>u32::try_from(p.len()).ok()?\<close> per row; \<open>Inl\<close> is the early return.\<close>

definition degrees :: "'a list list \<Rightarrow> unit + nat list" where
  "degrees rows = (if \<forall>r \<in> set rows. length r < id_space then Inr (map length rows) else Inl ())"

definition zero_degree :: "nat list \<Rightarrow> dense_id list option" where
  "zero_degree indeg =
     (let zs = filter (\<lambda>i. indeg ! i = 0) [0..<length indeg]
      in if \<forall>i \<in> set zs. from_index i \<noteq> None then Some (rev zs) else None)"

text \<open>The outer \<open>option\<close> is the panic, the inner one the function's own result.\<close>

definition kahn_order :: "dense_id list list \<Rightarrow> dense_id list list \<Rightarrow> dense_id list option option" where
  "kahn_order parents children =
     (if length parents \<noteq> length children then None
      else case degrees parents of
        Inl _ \<Rightarrow> Some None
      | Inr indeg \<Rightarrow>
          (case zero_degree indeg of
             None \<Rightarrow> None
           | Some q \<Rightarrow>
               (case kahn_loop children indeg q [] of
                  None \<Rightarrow> None
                | Some order \<Rightarrow> Some (if length order = length parents then Some order else None))))"

text \<open>\<open>is_dag\<close> keeps only the number of placed nodes.\<close>

function placed_loop :: "dense_id list list \<Rightarrow> nat list \<Rightarrow> dense_id list \<Rightarrow> nat \<Rightarrow> nat option" where
  "placed_loop children indeg [] placed = Some placed"
| "placed_loop children indeg (u # ready) placed =
     (if u < length children then
        (case kahn_scan (children ! u) indeg ready of
           None \<Rightarrow> None
         | Some (indeg', ready') \<Rightarrow> placed_loop children indeg' ready' (placed + 1))
      else None)"
  by pat_completeness auto
termination
  by (relation "measure (\<lambda>(children, indeg, q, placed). 2 * sum_list indeg + length q)")
    (auto dest!: kahn_scan_measure)

definition is_dag :: "dense_id list list \<Rightarrow> dense_id list list \<Rightarrow> bool option" where
  "is_dag parents children =
     (if length parents \<noteq> length children then Some False
      else case degrees parents of
        Inl _ \<Rightarrow> Some False
      | Inr indeg \<Rightarrow>
          (case zero_degree indeg of
             None \<Rightarrow> None
           | Some ready \<Rightarrow>
               (case placed_loop children indeg ready 0 of
                  None \<Rightarrow> None
                | Some placed \<Rightarrow> Some (placed = length parents))))"

lemma placed_loop_kahn:
  "placed_loop children indeg q (length order) =
     map_option length (kahn_loop children indeg q order)"
proof (induction children indeg q order rule: kahn_loop.induct)
  case (2 children indeg u q order)
  show ?case
  proof (cases "u < length children")
    case True
    then show ?thesis using "2.IH"[OF True] by (auto split: option.splits)
  qed simp
qed simp

lemma is_dag_kahn_order:
  "length parents = length children \<Longrightarrow>
     is_dag parents children = map_option (\<lambda>r. r \<noteq> None) (kahn_order parents children)"
  using placed_loop_kahn[of children _ _ "[]"]
  by (auto simp: is_dag_def kahn_order_def split: sum.splits option.splits)

section \<open>Topological orders\<close>

definition parents_first :: "('a \<times> 'a) set \<Rightarrow> 'a list \<Rightarrow> bool" where
  "parents_first E order \<longleftrightarrow> (\<forall>i < length order. \<forall>u. (u, order ! i) \<in> E \<longrightarrow> u \<in> set (take i order))"

definition topological :: "('a \<times> 'a) set \<Rightarrow> 'a set \<Rightarrow> 'a list \<Rightarrow> bool" where
  "topological E V order \<longleftrightarrow> distinct order \<and> set order = V \<and> parents_first E order"

lemma parents_first_snoc:
  "parents_first E (xs @ [v]) \<longleftrightarrow> parents_first E xs \<and> (\<forall>u. (u, v) \<in> E \<longrightarrow> u \<in> set xs)"
  by (auto simp: parents_first_def nth_append less_Suc_eq)

lemma parents_first_Nil [simp]: "parents_first E []"
  by (simp add: parents_first_def)

lemma parents_first_before:
  assumes "parents_first E (xs @ v # ys)" "(u, v) \<in> E"
  shows "u \<in> set xs"
  using assms unfolding parents_first_def
  by (metis append_eq_conv_conj length_append_singleton lessI nth_append_length append.assoc
      append_Cons append_Nil length_append less_add_same_cancel1 list.size(4) zero_less_Suc add_Suc_right)

lemma parents_first_acyclic:
  assumes "parents_first E order" "distinct order" "Field E \<subseteq> set order"
  shows "acyclic E"
proof -
  let ?pos = "\<lambda>v. length (takeWhile (\<lambda>w. w \<noteq> v) order)"
  have "?pos u < ?pos v" if e: "(u, v) \<in> E" for u v
  proof -
    have "v \<in> set order" using e assms(3) by (auto simp: Field_def)
    then obtain xs ys where split: "order = xs @ v # ys" by (auto simp: in_set_conv_decomp)
    have "u \<in> set xs" using parents_first_before[of E xs v ys u] assms(1) e split by simp
    then obtain as bs where xs: "xs = as @ u # bs" "u \<notin> set as"
      using split_list_first[of u xs] by blast
    have "v \<notin> set xs" using assms(2) split by auto
    then have "takeWhile (\<lambda>w. w \<noteq> v) (xs @ v # ys) = xs" by (subst takeWhile_append2) auto
    then have "?pos v = length xs" using split by simp
    moreover have "takeWhile (\<lambda>w. w \<noteq> u) (as @ u # bs @ v # ys) = as"
      using xs(2) by (subst takeWhile_append2) auto
    then have "?pos u = length as" using split xs(1) by simp
    ultimately show ?thesis using xs by simp
  qed
  then have "acyclic (E\<inverse>)" by (intro acyclicI_order[of _ ?pos]) auto
  then show ?thesis by (simp add: acyclic_converse)
qed

section \<open>Correctness\<close>

text \<open>
  What the tables have to satisfy: equal lengths, targets in range, and each parent row as long as
  the number of edges into its node.
\<close>

definition in_count :: "dense_id list list \<Rightarrow> nat set \<Rightarrow> nat \<Rightarrow> nat" where
  "in_count children U v = (\<Sum>u\<in>U. count_list (children ! u) v)"

definition kahn_tables :: "dense_id list list \<Rightarrow> dense_id list list \<Rightarrow> bool" where
  "kahn_tables parents children \<longleftrightarrow>
     length parents = length children \<and> length children \<le> id_space \<and> rows_closed children \<and>
     (\<forall>v < length children. length (parents ! v) = in_count children {..<length children} v)"

definition kahn_state :: "nat \<Rightarrow> nat list \<Rightarrow> dense_id list \<Rightarrow> nat set \<Rightarrow> (nat \<Rightarrow> nat) \<Rightarrow> bool" where
  "kahn_state n indeg q D need \<longleftrightarrow>
     length indeg = n \<and> distinct q \<and> set q \<subseteq> {..<n} \<and> set q \<inter> D = {} \<and>
     (\<forall>v < n. indeg ! v = need v) \<and> (\<forall>v < n. need v = 0 \<longleftrightarrow> v \<in> D \<union> set q)"

lemma kahn_stateD:
  assumes "kahn_state n indeg q D need"
  shows "length indeg = n" "distinct q" "set q \<subseteq> {..<n}" "set q \<inter> D = {}"
    and "v < n \<Longrightarrow> indeg ! v = need v" "v < n \<Longrightarrow> need v = 0 \<longleftrightarrow> v \<in> D \<or> v \<in> set q"
  using assms unfolding kahn_state_def by blast+

lemma kahn_scan_spec:
  assumes "kahn_state n indeg q D (\<lambda>v. base v + count_list cs v)" "set cs \<subseteq> {..<n}"
  shows "\<exists>indeg' q'. kahn_scan cs indeg q = Some (indeg', q') \<and> kahn_state n indeg' q' D base"
  using assms
proof (induction cs arbitrary: indeg q)
  case (Cons c cs)
  let ?indeg = "indeg[c := indeg ! c - 1]"
  note st = kahn_stateD[OF Cons.prems(1)]
  have c: "c < n" "length indeg = n" "indeg ! c = base c + Suc (count_list cs c)"
    using Cons.prems(2) st(1) st(5)[of c] by simp_all
  have upd: "?indeg ! v = base v + count_list cs v" if "v < n" for v
    using c st(5)[OF that] by (simp add: nth_list_update)
  have cq: "c \<notin> D" "c \<notin> set q" using st(6)[OF c(1)] by simp_all
  have iff: "v \<noteq> c \<Longrightarrow> base v + count_list cs v = 0 \<longleftrightarrow> v \<in> D \<or> v \<in> set q" if "v < n" for v
    using st(6)[OF that] by simp
  show ?case
  proof (cases "?indeg ! c = 0")
    case True
    have "kahn_state n ?indeg (c # q) D (\<lambda>v. base v + count_list cs v)"
      unfolding kahn_state_def
    proof (intro conjI allI impI)
      fix v assume v: "v < n"
      show "?indeg ! v = base v + count_list cs v" using upd v by simp
      show "base v + count_list cs v = 0 \<longleftrightarrow> v \<in> D \<union> set (c # q)"
        using iff[OF v] upd[OF c(1)] True by (cases "v = c") simp_all
    qed (use st(2-4) c cq in simp_all)
    moreover have "kahn_scan (c # cs) indeg q = kahn_scan cs ?indeg (c # q)"
      unfolding kahn_scan.simps Let_def using True c by (simp only: if_True) simp
    ultimately show ?thesis using Cons.IH[of ?indeg "c # q"] Cons.prems(2) by simp
  next
    case False
    have "kahn_state n ?indeg q D (\<lambda>v. base v + count_list cs v)"
      unfolding kahn_state_def
    proof (intro conjI allI impI)
      fix v assume v: "v < n"
      show "?indeg ! v = base v + count_list cs v" using upd v by simp
      show "base v + count_list cs v = 0 \<longleftrightarrow> v \<in> D \<union> set q"
        using iff[OF v] upd[OF c(1)] False cq by (cases "v = c") simp_all
    qed (use st(2-4) c in simp_all)
    moreover have "kahn_scan (c # cs) indeg q = kahn_scan cs ?indeg q"
      unfolding kahn_scan.simps Let_def using False c by (simp only: if_False) simp
    ultimately show ?thesis using Cons.IH[of ?indeg q] Cons.prems(2) by simp
  qed
qed simp

lemma kahn_loop_spec:
  assumes "rows_closed children" "length children = n"
    and "kahn_state n indeg q (set order) (in_count children ({..<n} - set order))"
    and "distinct order" "set order \<subseteq> {..<n}" "parents_first (row_rel children) order"
  shows "\<exists>order'. kahn_loop children indeg q order = Some order' \<and>
    distinct order' \<and> set order' \<subseteq> {..<n} \<and> parents_first (row_rel children) order' \<and>
    (\<forall>v < n. v \<notin> set order' \<longrightarrow> in_count children ({..<n} - set order') v > 0)"
  using assms
proof (induction children indeg q order rule: kahn_loop.induct)
  case (1 children indeg order)
  then show ?case by (auto simp: kahn_state_def)
next
  case (2 children indeg u q order)
  note st = kahn_stateD[OF "2.prems"(3)]
  have u: "u < n" "u \<notin> set order" "u \<notin> set q" using st(2-4) by simp_all
  have cs: "set (children ! u) \<subseteq> {..<n}"
    using "2.prems"(1,2) u(1) by (auto simp: rows_closed_def)
  let ?rest = "{..<n} - set (order @ [u])"
  have split: "in_count children ({..<n} - set order) v = in_count children ?rest v + count_list (children ! u) v" for v
  proof -
    have "{..<n} - set order = insert u ?rest" using u by auto
    then have "in_count children ({..<n} - set order) v = (\<Sum>w\<in>insert u ?rest. count_list (children ! w) v)"
      by (simp only: in_count_def)
    also have "\<dots> = count_list (children ! u) v + in_count children ?rest v"
      unfolding in_count_def by (rule sum.insert) simp_all
    finally show ?thesis by simp
  qed
  have "kahn_state n indeg q (set (order @ [u])) (\<lambda>v. in_count children ?rest v + count_list (children ! u) v)"
    unfolding kahn_state_def
  proof (intro conjI allI impI)
    fix v assume v: "v < n"
    show "indeg ! v = in_count children ?rest v + count_list (children ! u) v"
      using st(5)[OF v] split[of v] by simp
    show "in_count children ?rest v + count_list (children ! u) v = 0 \<longleftrightarrow> v \<in> set (order @ [u]) \<union> set q"
      using st(6)[OF v] split[of v] by auto
  qed (use st(1-4) u in auto)
  from kahn_scan_spec[OF this cs] obtain indeg' q' where
    scan: "kahn_scan (children ! u) indeg q = Some (indeg', q')" and
    st': "kahn_state n indeg' q' (set (order @ [u])) (in_count children ?rest)" by blast
  have need: "in_count children ({..<n} - set order) u = 0"
    using st(6)[OF u(1)] by simp
  have "w \<in> set order" if "(w, u) \<in> row_rel children" for w
  proof (rule ccontr)
    assume "w \<notin> set order"
    moreover have "w < n" using that in_row_length[of u children w] "2.prems"(2) by simp
    ultimately have "count_list (children ! w) u = 0"
      using need by (simp add: in_count_def)
    with that \<open>w < n\<close> "2.prems"(2) show False by (simp add: row_nth count_list_0_iff)
  qed
  then have "parents_first (row_rel children) (order @ [u])"
    using "2.prems"(6) by (simp add: parents_first_snoc)
  moreover have "distinct (order @ [u])" "set (order @ [u]) \<subseteq> {..<n}"
    using "2.prems"(4,5) u by auto
  ultimately show ?case
    using "2.IH"[OF _ scan refl "2.prems"(1,2) st'] u(1) "2.prems"(2) scan by simp
qed

lemma kahn_order_total:
  assumes "kahn_tables parents children" "\<forall>r \<in> set parents. length r < id_space"
  shows "\<exists>order. distinct order \<and> set order \<subseteq> {..<length children} \<and> parents_first (row_rel children) order \<and>
    (\<forall>v < length children. v \<notin> set order \<longrightarrow> in_count children ({..<length children} - set order) v > 0) \<and>
    kahn_order parents children = Some (if length order = length parents then Some order else None)"
proof -
  let ?n = "length children" and ?indeg = "map length parents"
  have len: "length parents = ?n" and closed: "rows_closed children"
    and deg: "\<And>v. v < ?n \<Longrightarrow> ?indeg ! v = in_count children {..<?n} v"
    using assms(1) by (auto simp: kahn_tables_def)
  let ?q = "rev (filter (\<lambda>i. ?indeg ! i = 0) [0..<?n])"
  have q: "zero_degree ?indeg = Some ?q"
    using assms(1) len by (auto simp: zero_degree_def Let_def from_index_def kahn_tables_def)
  have "kahn_state ?n ?indeg ?q (set []) (in_count children ({..<?n} - set []))"
    using deg len by (auto simp: kahn_state_def)
  from kahn_loop_spec[OF closed refl this] obtain order where
    "kahn_loop children ?indeg ?q [] = Some order" "distinct order" "set order \<subseteq> {..<?n}"
    "parents_first (row_rel children) order"
    "\<forall>v < ?n. v \<notin> set order \<longrightarrow> in_count children ({..<?n} - set order) v > 0" by auto
  moreover have "degrees parents = Inr ?indeg" using assms(2) by (simp add: degrees_def)
  ultimately show ?thesis using q len by (intro exI[of _ order]) (simp add: kahn_order_def)
qed

lemma kahn_order_spec:
  assumes "kahn_tables parents children" "\<forall>r \<in> set parents. length r < id_space"
  shows "\<exists>r. kahn_order parents children = Some r \<and>
    (r \<noteq> None \<longleftrightarrow> acyclic (row_rel children)) \<and>
    (\<forall>order. r = Some order \<longrightarrow> topological (row_rel children) {..<length children} order)"
proof -
  let ?n = "length children" and ?E = "row_rel children"
  have len: "length parents = ?n" and closed: "rows_closed children"
    using assms(1) by (auto simp: kahn_tables_def)
  from kahn_order_total[OF assms] obtain order where
    o: "distinct order" "set order \<subseteq> {..<?n}" "parents_first ?E order"
    and left: "\<And>v. v < ?n \<Longrightarrow> v \<notin> set order \<Longrightarrow> in_count children ({..<?n} - set order) v > 0"
    and run: "kahn_order parents children = Some (if length order = length parents then Some order else None)"
    by blast
  show ?thesis
  proof (cases "length order = ?n")
    case True
    with o have "set order = {..<?n}" by (metis card_lessThan card_subset_eq distinct_card finite_lessThan)
    moreover have "Field ?E \<subseteq> {..<?n}"
      using rows_closed_row[OF closed] by (auto simp: Field_def dest: in_row_length)
    ultimately have "acyclic ?E" "topological ?E {..<?n} order"
      using parents_first_acyclic[OF o(3,1)] o by (auto simp: topological_def)
    with run True len show ?thesis by simp
  next
    case False
    let ?R = "{..<?n} - set order"
    have "?R \<noteq> {}" using False o by (metis Diff_eq_empty_iff card_lessThan distinct_card subset_antisym)
    moreover have "\<exists>u \<in> ?R. (u, v) \<in> ?E" if "v \<in> ?R" for v
    proof -
      have "(\<Sum>u\<in>?R. count_list (children ! u) v) \<noteq> 0" using left[of v] that by (simp add: in_count_def del: sum_eq_0_iff)
      then obtain u where u: "u \<in> ?R" "count_list (children ! u) v \<noteq> 0" by (meson sum.neutral)
      then have "(u, v) \<in> ?E" by (simp add: row_nth count_list_0_iff)
      with u(1) show ?thesis by blast
    qed
    ultimately have "\<not> acyclic ?E" by (intro finite_acyclic_source[of ?R]) auto
    with run False len show ?thesis by simp
  qed
qed

section \<open>Tables of one relation\<close>

text \<open>
  Duplicate-free rows that are converses of each other satisfy the hypothesis, which is how the
  graph types use the algorithm.
\<close>

lemma count_list_distinct: "distinct xs \<Longrightarrow> count_list xs v = (if v \<in> set xs then 1 else 0)"
  by (induction xs) auto

lemma converse_row_length:
  assumes "length parents = length children" "\<forall>r \<in> set parents. distinct r" "\<forall>r \<in> set children. distinct r"
    and "row_rel parents = (row_rel children)\<inverse>" "v < length children"
  shows "length (parents ! v) = in_count children {..<length children} v"
proof -
  let ?n = "length children"
  have "set (parents ! v) = {u. u < ?n \<and> v \<in> set (children ! u)}"
  proof (rule set_eqI)
    fix u
    have "u \<in> set (parents ! v) \<longleftrightarrow> (v, u) \<in> row_rel parents" using assms(1,5) by (simp add: row_nth)
    also have "\<dots> \<longleftrightarrow> v \<in> set (row children u)" using assms(4) by simp
    also have "\<dots> \<longleftrightarrow> u < ?n \<and> v \<in> set (children ! u)" by (simp add: row_def)
    finally show "u \<in> set (parents ! v) \<longleftrightarrow> u \<in> {u. u < ?n \<and> v \<in> set (children ! u)}" by simp
  qed
  moreover have "length (parents ! v) = card (set (parents ! v))"
    using assms(1,2,5) by (simp add: distinct_card[symmetric])
  moreover have "in_count children {..<?n} v = (\<Sum>u<?n. if v \<in> set (children ! u) then 1 else 0)"
    unfolding in_count_def using assms(3) by (intro sum.cong) (auto simp: count_list_distinct)
  moreover have "(\<Sum>u<?n. if v \<in> set (children ! u) then 1 else 0 :: nat) = card {u. u < ?n \<and> v \<in> set (children ! u)}"
    by (subst sum.If_cases) (auto intro!: arg_cong[of _ _ card])
  ultimately show ?thesis by metis
qed

lemma distinct_bounded_length:
  assumes "distinct xs" "set xs \<subseteq> {..<n}"
  shows "length xs \<le> n"
  using card_mono[OF _ assms(2)] assms(1) by (simp add: distinct_card)

lemma kahn_order_relation:
  assumes tabs: "length parents = length children" "\<forall>r \<in> set parents. distinct r"
    "\<forall>r \<in> set children. distinct r" "row_rel parents = (row_rel children)\<inverse>"
    "rows_closed children" and n: "length children \<le> id_space"
  shows "\<exists>r. kahn_order parents children = Some r \<and>
    (r \<noteq> None \<longleftrightarrow> acyclic (row_rel children)) \<and>
    (\<forall>order. r = Some order \<longrightarrow> topological (row_rel children) {..<length children} order)"
proof (cases "\<forall>r \<in> set parents. length r < id_space")
  case True
  moreover have "kahn_tables parents children"
    using tabs n converse_row_length[OF tabs(1-4)] by (simp add: kahn_tables_def)
  ultimately show ?thesis by (rule kahn_order_spec[rotated])
next
  case False
  let ?n = "length children"
  obtain v where v: "v < ?n" "\<not> length (parents ! v) < id_space"
    using False tabs(1) by (metis in_set_conv_nth)
  have sub: "set (parents ! v) \<subseteq> {..<?n}"
  proof
    fix u assume "u \<in> set (parents ! v)"
    then have "(v, u) \<in> row_rel parents" using v tabs(1) by (simp add: row_nth)
    then have "v \<in> set (row children u)" using tabs(4) by simp
    then show "u \<in> {..<?n}" by (auto dest: in_row_length)
  qed
  have "distinct (parents ! v)" using v(1) tabs(1,2) by simp
  then have "card (set (parents ! v)) = ?n"
    using distinct_bounded_length[OF _ sub] v(2) n by (simp add: distinct_card)
  then have "set (parents ! v) = {..<?n}" using sub by (intro card_subset_eq) simp_all
  then have "(v, v) \<in> row_rel parents" using v(1) tabs(1) by (simp add: row_nth)
  then have "(v, v) \<in> row_rel children" using tabs(4) by auto
  then have "\<not> acyclic (row_rel children)" by (meson acyclic_def r_into_trancl)
  moreover have "degrees parents = Inl ()" using False unfolding degrees_def by (simp only: if_False)
  then have "kahn_order parents children = Some None" using tabs(1) by (simp add: kahn_order_def)
  ultimately show ?thesis by simp
qed

end
