(* ===== verification/Directed_Core.thy ===== *)
theory Directed_Core
  imports Graph_Order "HOL-Library.Product_Lexorder"
begin

text \<open>
  \<open>directed.rs\<close>: the node table and directed adjacency shared by \<open>Dag\<close>, \<open>Admg\<close> and
  \<open>TemporalDag\<close>. The record has the struct's four fields; the insertion scratch \<open>dc_insert_ws\<close> is
  part of the state and not of graph equality (\<open>same_directed\<close>).

  \<open>dc_wf\<close> is the representation invariant: tables of equal length within the dense-id space, rows
  in range and free of duplicates, parents the converse of children. \<open>dc_inv\<close> adds acyclicity.
  Every operation is shown to keep what it should, insertion is shown to answer for the right
  reason, and the batch test \<open>accepts_new_edges\<close> is shown equivalent to inserting one by one.
\<close>

record directed_core =
  dc_nodes :: "node_ref list"
  dc_children :: "dense_id list list"
  dc_parents :: "dense_id list list"
  dc_insert_ws :: graph_workspace

definition dc_new :: directed_core where
  "dc_new = \<lparr>dc_nodes = [], dc_children = [], dc_parents = [], dc_insert_ws = ws_default\<rparr>"

definition dc_node_count :: "directed_core \<Rightarrow> nat" where
  "dc_node_count g = length (dc_nodes g)"

definition dc_is_empty :: "directed_core \<Rightarrow> bool" where
  "dc_is_empty g \<longleftrightarrow> dc_nodes g = []"

definition dc_push_node :: "directed_core \<Rightarrow> directed_core" where
  "dc_push_node g = g\<lparr>dc_children := dc_children g @ [[]], dc_parents := dc_parents g @ [[]]\<rparr>"

definition dc_push_labeled :: "directed_core \<Rightarrow> node_ref \<Rightarrow> (graph_error + dense_id) \<times> directed_core" where
  "dc_push_labeled g node =
     (case try_from_usize (length (dc_nodes g)) of
        Inl e \<Rightarrow> (Inl e, g)
      | Inr i \<Rightarrow> (Inr i, dc_push_node (g\<lparr>dc_nodes := dc_nodes g @ [node]\<rparr>)))"

definition dc_children_of :: "directed_core \<Rightarrow> dense_id \<Rightarrow> dense_id list" where
  "dc_children_of g i = row (dc_children g) i"

definition dc_parents_of :: "directed_core \<Rightarrow> dense_id \<Rightarrow> dense_id list" where
  "dc_parents_of g i = row (dc_parents g) i"

definition dc_reaches_with ::
  "directed_core \<Rightarrow> dense_id \<Rightarrow> dense_id \<Rightarrow> graph_workspace \<Rightarrow> (bool \<times> graph_workspace) option" where
  "dc_reaches_with g src tgt ws = bfs_reaches (dc_children g) src tgt ws"

definition dc_reaches :: "directed_core \<Rightarrow> dense_id \<Rightarrow> dense_id \<Rightarrow> bool option" where
  "dc_reaches g src tgt = map_option fst (dc_reaches_with g src tgt ws_default)"

text \<open>
  The row positions below are converted to ids with \<open>from_index\<close> or \<open>expect("node fit")\<close>; \<open>push_labeled\<close>
  keeps the table within the id space (\<open>dc_wf\<close>), so neither conversion panics.
\<close>

definition dc_marked_edges :: "directed_core \<Rightarrow> marked_edge list" where
  "dc_marked_edges g =
     concat (map (\<lambda>i. map (me_directed i) (dc_children g ! i)) [0..<length (dc_children g)])"

definition dc_edge_pairs_sorted :: "directed_core \<Rightarrow> (nat \<times> nat) list" where
  "dc_edge_pairs_sorted g =
     sort (concat (map (\<lambda>i. map (\<lambda>t. (i, t)) (dc_children g ! i)) [0..<length (dc_children g)]))"

definition dc_topological_order :: "directed_core \<Rightarrow> dense_id list option option" where
  "dc_topological_order g = kahn_order (dc_parents g) (dc_children g)"

definition dc_push_unchecked :: "directed_core \<Rightarrow> dense_id \<Rightarrow> dense_id \<Rightarrow> directed_core option" where
  "dc_push_unchecked g src tgt =
     (if src < length (dc_children g) \<and> tgt < length (dc_parents g) then
        Some (g\<lparr>dc_children := push_row (dc_children g) src tgt,
                dc_parents := push_row (dc_parents g) tgt src\<rparr>)
      else None)"

definition dc_try_insert ::
  "directed_core \<Rightarrow> dense_id \<Rightarrow> dense_id \<Rightarrow> ((graph_error + unit) \<times> directed_core) option" where
  "dc_try_insert g src tgt =
     (if src \<ge> length (dc_children g) then None
      else if tgt \<in> set (dc_children g ! src) then Some (Inl (DuplicateEdge src tgt), g)
      else (case bfs_reaches (dc_children g) tgt src (dc_insert_ws g) of
              None \<Rightarrow> None
            | Some (cycle, ws) \<Rightarrow>
                (let g' = g\<lparr>dc_insert_ws := ws\<rparr>
                 in if cycle then Some (Inl (Cycle src tgt), g')
                    else map_option (\<lambda>g''. (Inr (), g'')) (dc_push_unchecked g' src tgt))))"

definition dc_push_if_absent :: "directed_core \<Rightarrow> dense_id \<Rightarrow> dense_id \<Rightarrow> (bool \<times> directed_core) option" where
  "dc_push_if_absent g src tgt =
     (if src \<ge> length (dc_children g) then None
      else if tgt \<in> set (dc_children g ! src) then Some (False, g)
      else map_option (\<lambda>g'. (True, g')) (dc_push_unchecked g src tgt))"

definition dc_same_edges :: "directed_core \<Rightarrow> directed_core \<Rightarrow> bool" where
  "dc_same_edges g h \<longleftrightarrow> dc_children g = dc_children h \<and> dc_parents g = dc_parents h"

definition dc_same_directed :: "directed_core \<Rightarrow> directed_core \<Rightarrow> bool" where
  "dc_same_directed g h \<longleftrightarrow> dc_nodes g = dc_nodes h \<and> dc_same_edges g h"

fun dc_push_edges :: "directed_core \<Rightarrow> (dense_id \<times> dense_id) list \<Rightarrow> directed_core option" where
  "dc_push_edges g [] = Some g"
| "dc_push_edges g ((src, tgt) # es) =
     (case dc_push_unchecked g src tgt of None \<Rightarrow> None | Some g' \<Rightarrow> dc_push_edges g' es)"

text \<open>The first loop of \<open>accepts_new_edges\<close>; \<open>seen\<close> is its hash set.\<close>

fun dc_all_new ::
  "directed_core \<Rightarrow> (dense_id \<times> dense_id) set \<Rightarrow> (dense_id \<times> dense_id) list \<Rightarrow> bool" where
  "dc_all_new g seen [] = True"
| "dc_all_new g seen ((src, tgt) # es) =
     (if src \<ge> length (dc_children g) \<or> tgt \<ge> length (dc_children g) then False
      else if (src, tgt) \<in> seen \<or> tgt \<in> set (dc_children g ! src) then False
      else dc_all_new g (insert (src, tgt) seen) es)"

definition dc_accepts_new_edges :: "directed_core \<Rightarrow> (dense_id \<times> dense_id) list \<Rightarrow> bool option" where
  "dc_accepts_new_edges g edges =
     (if \<not> dc_all_new g {} edges then Some False
      else if edges = [] then Some True
      else (case dc_push_edges g edges of
              None \<Rightarrow> None
            | Some trial \<Rightarrow> map_option (\<lambda>order. order \<noteq> None) (dc_topological_order trial)))"

section \<open>The representation invariant\<close>

definition dc_rel :: "directed_core \<Rightarrow> (dense_id \<times> dense_id) set" where
  "dc_rel g = row_rel (dc_children g)"

definition dc_wf :: "directed_core \<Rightarrow> bool" where
  "dc_wf g \<longleftrightarrow>
     length (dc_children g) = length (dc_nodes g) \<and> length (dc_parents g) = length (dc_nodes g) \<and>
     length (dc_nodes g) \<le> id_space \<and> rows_closed (dc_children g) \<and>
     (\<forall>r \<in> set (dc_children g). distinct r) \<and> (\<forall>r \<in> set (dc_parents g). distinct r) \<and>
     row_rel (dc_parents g) = (row_rel (dc_children g))\<inverse> \<and> ws_inv (dc_insert_ws g)"

definition dc_inv :: "directed_core \<Rightarrow> bool" where
  "dc_inv g \<longleftrightarrow> dc_wf g \<and> acyclic (dc_rel g)"

definition dc_tables :: "directed_core \<Rightarrow> node_ref list \<times> dense_id list list \<times> dense_id list list" where
  "dc_tables g = (dc_nodes g, dc_children g, dc_parents g)"

lemma dc_same_directed_tables: "dc_same_directed g h \<longleftrightarrow> dc_tables g = dc_tables h"
  by (auto simp: dc_same_directed_def dc_same_edges_def dc_tables_def)

lemma dc_wfD [wf_simps]:
  assumes "dc_wf g"
  shows "length (dc_children g) = dc_node_count g" "length (dc_parents g) = dc_node_count g"
    and "length (dc_nodes g) = dc_node_count g"
    and "dc_node_count g \<le> id_space" "rows_closed (dc_children g)" "ws_inv (dc_insert_ws g)"
    and "row_rel (dc_parents g) = (dc_rel g)\<inverse>"
  using assms by (auto simp: dc_wf_def dc_node_count_def dc_rel_def)

lemma dc_wf_distinct:
  assumes "dc_wf g" "i < dc_node_count g"
  shows "distinct (dc_children g ! i)" "distinct (dc_parents g ! i)"
  using assms by (simp_all add: dc_wf_def dc_node_count_def)

lemma dc_inv_wf [wf_simps]: "dc_inv g \<Longrightarrow> dc_wf g"
  by (simp add: dc_inv_def)

lemma in_dc_children: "v \<in> set (dc_children_of g u) \<longleftrightarrow> (u, v) \<in> dc_rel g"
  by (simp add: dc_children_of_def dc_rel_def)

lemma in_dc_parents: "dc_wf g \<Longrightarrow> u \<in> set (dc_parents_of g v) \<longleftrightarrow> (u, v) \<in> dc_rel g"
  using dc_wfD(7)[of g] by (auto simp: dc_parents_of_def dc_rel_def set_eq_iff)

lemma dc_rel_bound: "dc_wf g \<Longrightarrow> (u, v) \<in> dc_rel g \<Longrightarrow> u < dc_node_count g \<and> v < dc_node_count g"
  using dc_wfD(1,5)[of g] rows_closed_row[of "dc_children g" v u] in_row_length[of v "dc_children g" u]
  by (simp add: dc_rel_def)

lemma dc_wf_tables:
  "dc_tables g = dc_tables h \<Longrightarrow> ws_inv (dc_insert_ws h) \<Longrightarrow> dc_wf g \<Longrightarrow> dc_wf h"
  by (simp add: dc_tables_def dc_wf_def)

lemma dc_rel_tables: "dc_tables g = dc_tables h \<Longrightarrow> dc_rel g = dc_rel h"
  by (simp add: dc_tables_def dc_rel_def)

lemma dc_new_inv [simp]: "dc_inv dc_new"
  by (simp add: dc_inv_def dc_wf_def dc_new_def dc_rel_def rows_closed_def acyclic_def)

lemma rows_closed_append_empty: "rows_closed rows \<Longrightarrow> rows_closed (rows @ [[]])"
  by (fastforce simp: rows_closed_def)

lemma dc_push_labeled_spec:
  assumes "dc_inv g"
  shows "dc_push_labeled g node =
      (if dc_node_count g < id_space
       then (Inr (dc_node_count g), dc_push_node (g\<lparr>dc_nodes := dc_nodes g @ [node]\<rparr>))
       else (Inl TooManyNodes, g))"
    and "dc_push_labeled g node = (r, g') \<Longrightarrow> dc_inv g' \<and> dc_rel g' = dc_rel g"
proof -
  show eq: "dc_push_labeled g node =
      (if dc_node_count g < id_space
       then (Inr (dc_node_count g), dc_push_node (g\<lparr>dc_nodes := dc_nodes g @ [node]\<rparr>))
       else (Inl TooManyNodes, g))"
    by (simp add: dc_push_labeled_def try_from_usize_def dc_node_count_def)
  assume "dc_push_labeled g node = (r, g')"
  with assms show "dc_inv g' \<and> dc_rel g' = dc_rel g"
    unfolding eq
    by (auto simp: dc_inv_def dc_wf_def dc_rel_def dc_push_node_def dc_node_count_def
        rows_closed_append_empty split: if_splits)
qed

section \<open>Pushing edges\<close>

lemma rows_closed_push_row:
  "rows_closed rows \<Longrightarrow> i < length rows \<Longrightarrow> x < length rows \<Longrightarrow> rows_closed (push_row rows i x)"
  using nth_mem[of i rows] unfolding rows_closed_def push_row_def
  by (fastforce dest!: set_update_subset_insert[THEN subsetD])

lemma distinct_push_row:
  assumes "\<forall>r \<in> set rows. distinct r" "i < length rows" "x \<notin> set (rows ! i)"
  shows "\<forall>r \<in> set (push_row rows i x). distinct r"
  using assms unfolding push_row_def
  by (auto dest!: set_update_subset_insert[THEN subsetD])

lemma dc_push_unchecked_spec:
  assumes "dc_wf g" "src < dc_node_count g" "tgt < dc_node_count g"
  shows "\<exists>g'. dc_push_unchecked g src tgt = Some g' \<and> dc_nodes g' = dc_nodes g \<and>
    dc_children g' = push_row (dc_children g) src tgt \<and>
    dc_parents g' = push_row (dc_parents g) tgt src \<and> dc_insert_ws g' = dc_insert_ws g \<and>
    dc_rel g' = insert (src, tgt) (dc_rel g) \<and>
    ((src, tgt) \<notin> dc_rel g \<longrightarrow> dc_wf g')"
proof -
  note wf = dc_wfD[OF assms(1)]
  let ?g = "g\<lparr>dc_children := push_row (dc_children g) src tgt, dc_parents := push_row (dc_parents g) tgt src\<rparr>"
  have rel: "dc_rel ?g = insert (src, tgt) (dc_rel g)"
    using assms(2) wf(1) by (simp add: dc_rel_def row_rel_push_row)
  have "dc_wf ?g" if new: "(src, tgt) \<notin> dc_rel g"
  proof -
    have "tgt \<notin> set (dc_children g ! src)"
      using new assms(2) wf(1) by (simp add: dc_rel_def row_nth)
    moreover have "src \<notin> set (dc_parents g ! tgt)"
      using new in_dc_parents[OF assms(1), of src tgt] assms(3) wf(2)
      by (simp add: dc_parents_of_def row_nth)
    ultimately have rows: "\<forall>r \<in> set (push_row (dc_children g) src tgt). distinct r"
        "\<forall>r \<in> set (push_row (dc_parents g) tgt src). distinct r"
      using assms(2,3) wf(1,2) distinct_push_row[of "dc_children g" src tgt]
        distinct_push_row[of "dc_parents g" tgt src] assms(1)
      unfolding dc_wf_def by metis+
    have conv: "row_rel (push_row (dc_parents g) tgt src) = (row_rel (push_row (dc_children g) src tgt))\<inverse>"
      using assms(2,3) wf by (auto simp: row_rel_push_row dc_rel_def)
    have "rows_closed (push_row (dc_children g) src tgt)"
      using assms(2,3) wf(1,5) by (simp add: rows_closed_push_row)
    then have "rows_closed (dc_children ?g)" by simp
    moreover have "length (dc_children ?g) = length (dc_nodes ?g)" "length (dc_parents ?g) = length (dc_nodes ?g)"
      using wf(1-3) by simp_all
    moreover have "length (dc_nodes ?g) \<le> id_space" "ws_inv (dc_insert_ws ?g)" using wf(3,4,6) by simp_all
    moreover have "row_rel (dc_parents ?g) = (row_rel (dc_children ?g))\<inverse>" using conv by simp
    moreover have "\<forall>r \<in> set (dc_children ?g). distinct r" "\<forall>r \<in> set (dc_parents ?g). distinct r"
      using rows by simp_all
    ultimately show ?thesis unfolding dc_wf_def by blast
  qed
  then show ?thesis using assms(2,3) wf(1,2) rel by (simp add: dc_push_unchecked_def)
qed

lemma dc_push_unchecked_tables:
  assumes "dc_tables g = dc_tables h" "dc_push_unchecked g src tgt = Some g'"
  shows "\<exists>h'. dc_push_unchecked h src tgt = Some h' \<and> dc_tables g' = dc_tables h' \<and>
    dc_insert_ws h' = dc_insert_ws h"
  using assms by (auto simp: dc_push_unchecked_def dc_tables_def split: if_splits)

text \<open>
  \<open>try_insert\<close> on an acyclic graph with both endpoints present never panics, answers \<open>Duplicate\<close> or
  \<open>Cycle\<close> exactly when it should, leaves the tables alone when it refuses and adds the edge otherwise.
\<close>

lemma dc_try_insert_cases:
  assumes "dc_inv g" "src < dc_node_count g" "tgt < dc_node_count g"
  obtains (duplicate) "(src, tgt) \<in> dc_rel g" "dc_try_insert g src tgt = Some (Inl (DuplicateEdge src tgt), g)"
  | (cycle) ws where "(src, tgt) \<notin> dc_rel g" "(tgt, src) \<in> (dc_rel g)\<^sup>*" "ws_inv ws"
      "dc_try_insert g src tgt = Some (Inl (Cycle src tgt), g\<lparr>dc_insert_ws := ws\<rparr>)"
  | (inserted) g' where "(src, tgt) \<notin> dc_rel g" "(tgt, src) \<notin> (dc_rel g)\<^sup>*"
      "dc_try_insert g src tgt = Some (Inr (), g')" "dc_nodes g' = dc_nodes g" "dc_inv g'"
      "dc_children g' = push_row (dc_children g) src tgt"
      "dc_parents g' = push_row (dc_parents g) tgt src"
      "dc_rel g' = insert (src, tgt) (dc_rel g)"
proof -
  have inv: "dc_wf g" "acyclic (dc_rel g)" using assms(1) by (simp_all add: dc_inv_def)
  note wf = dc_wfD[OF inv(1)]
  have dup: "tgt \<in> set (dc_children g ! src) \<longleftrightarrow> (src, tgt) \<in> dc_rel g"
    using assms(2) wf(1) by (simp add: dc_rel_def row_nth)
  obtain ws where bfs: "bfs_reaches (dc_children g) tgt src (dc_insert_ws g) =
      Some (tgt = src \<or> (tgt, src) \<in> (row_rel (dc_children g))\<^sup>*, ws)" and ws: "ws_inv ws"
    using bfs_reaches_spec[OF wf(5,6)] by blast
  have reach: "(tgt = src \<or> (tgt, src) \<in> (row_rel (dc_children g))\<^sup>*) \<longleftrightarrow> (tgt, src) \<in> (dc_rel g)\<^sup>*"
    by (auto simp: dc_rel_def)
  show thesis
  proof (cases "(src, tgt) \<in> dc_rel g")
    case True
    then show thesis using duplicate assms(2) wf(1) dup by (simp add: dc_try_insert_def)
  next
    case new: False
    show thesis
    proof (cases "(tgt, src) \<in> (dc_rel g)\<^sup>*")
      case True
      then show thesis using cycle[OF new True ws] assms(2) wf(1) dup new bfs reach
        by (simp add: dc_try_insert_def)
    next
      case False
      let ?g = "g\<lparr>dc_insert_ws := ws\<rparr>"
      have w: "dc_wf ?g" by (rule dc_wf_tables[OF _ _ inv(1)]) (simp_all add: dc_tables_def ws)
      have r: "dc_rel ?g = dc_rel g" by (simp add: dc_rel_def)
      have "src < dc_node_count ?g" "tgt < dc_node_count ?g"
        using assms(2,3) by (simp_all add: dc_node_count_def)
      from dc_push_unchecked_spec[OF w this] obtain g' where
        g0: "dc_push_unchecked ?g src tgt = Some g'" "dc_nodes g' = dc_nodes ?g"
          "dc_children g' = push_row (dc_children ?g) src tgt"
          "dc_parents g' = push_row (dc_parents ?g) tgt src"
          "dc_rel g' = insert (src, tgt) (dc_rel ?g)" "(src, tgt) \<notin> dc_rel ?g \<longrightarrow> dc_wf g'"
        by (elim exE conjE) (rule that)
      have g': "dc_push_unchecked ?g src tgt = Some g'" "dc_nodes g' = dc_nodes g"
          "dc_children g' = push_row (dc_children g) src tgt"
          "dc_parents g' = push_row (dc_parents g) tgt src"
          "dc_rel g' = insert (src, tgt) (dc_rel g)" "dc_wf g'"
        using g0 r new by simp_all
      have keep: "dc_inv g'" using g'(5,6) inv(2) False by (simp add: dc_inv_def acyclic_insert)
      have run: "dc_try_insert g src tgt = Some (Inr (), g')"
      proof -
        have "\<not> length (dc_children g) \<le> src" using assms(2) wf(1) by simp
        moreover have "tgt \<notin> set (dc_children g ! src)" using dup new by blast
        moreover have "bfs_reaches (dc_children g) tgt src (dc_insert_ws g) = Some (False, ws)"
          using bfs reach False by metis
        ultimately show ?thesis using g'(1) by (simp add: dc_try_insert_def)
      qed
      show thesis by (rule inserted[OF new False run g'(2) keep g'(3,4,5)])
    qed
  qed
qed

lemma dc_try_insert_inv:
  assumes "dc_inv g" "src < dc_node_count g" "tgt < dc_node_count g"
  shows "\<exists>r g'. dc_try_insert g src tgt = Some (r, g') \<and> dc_inv g' \<and> dc_nodes g' = dc_nodes g \<and>
    dc_rel g' = (if r = Inr () then insert (src, tgt) (dc_rel g) else dc_rel g)"
  using assms
proof (cases rule: dc_try_insert_cases)
  case (cycle ws)
  have "dc_wf (g\<lparr>dc_insert_ws := ws\<rparr>)"
    by (rule dc_wf_tables[of g]) (use cycle assms in \<open>simp_all add: dc_tables_def dc_inv_def\<close>)
  with cycle assms(1) show ?thesis by (simp add: dc_inv_def dc_rel_def)
qed (use assms(1) in simp_all)

lemma dc_try_insert_ok:
  assumes "dc_inv g" "src < dc_node_count g" "tgt < dc_node_count g"
  shows "(\<exists>g'. dc_try_insert g src tgt = Some (Inr (), g')) \<longleftrightarrow>
    (src, tgt) \<notin> dc_rel g \<and> (tgt, src) \<notin> (dc_rel g)\<^sup>*"
  using assms by (cases rule: dc_try_insert_cases) simp_all

section \<open>Whole-graph observations\<close>

lemma dc_topological_order_spec:
  assumes "dc_wf g"
  shows "\<exists>r. dc_topological_order g = Some r \<and> (r \<noteq> None \<longleftrightarrow> acyclic (dc_rel g)) \<and>
    (\<forall>order. r = Some order \<longrightarrow> topological (dc_rel g) {..<dc_node_count g} order)"
proof -
  have d: "\<forall>r \<in> set (dc_parents g). distinct r" "\<forall>r \<in> set (dc_children g). distinct r"
    using assms by (simp_all add: dc_wf_def)
  note wf = dc_wfD[OF assms]
  have "length (dc_parents g) = length (dc_children g)" "length (dc_children g) \<le> id_space"
      "row_rel (dc_parents g) = (row_rel (dc_children g))\<inverse>"
    using wf by (simp_all add: dc_rel_def)
  from kahn_order_relation[OF this(1) d this(3) wf(5) this(2)] show ?thesis
    unfolding dc_topological_order_def dc_rel_def wf(1) .
qed

lemma dc_reaches_spec:
  assumes "dc_wf g" "ws_inv ws"
  shows "\<exists>ws'. dc_reaches_with g src tgt ws = Some ((src, tgt) \<in> (dc_rel g)\<^sup>*, ws') \<and> ws_inv ws'"
proof -
  have eq: "(src = tgt \<or> (src, tgt) \<in> (row_rel (dc_children g))\<^sup>*) \<longleftrightarrow> (src, tgt) \<in> (dc_rel g)\<^sup>*"
    by (auto simp: dc_rel_def)
  show ?thesis
    using bfs_reaches_spec[OF dc_wfD(5)[OF assms(1)] assms(2), of src tgt]
    unfolding dc_reaches_with_def eq .
qed

lemma dc_marked_edges_parent_child:
  "map parent_child (dc_marked_edges g) =
    map Some (concat (map (\<lambda>i. map (Pair i) (dc_children g ! i)) [0..<length (dc_children g)]))"
  by (simp add: dc_marked_edges_def map_concat comp_def)

lemma set_dc_pairs:
  "set (concat (map (\<lambda>i. map (Pair i) (dc_children g ! i)) [0..<length (dc_children g)])) = dc_rel g"
  by (auto simp: dc_rel_def row_rel_def row_def split: if_splits)

lemma distinct_dc_pairs:
  assumes "dc_wf g"
  shows "distinct (concat (map (\<lambda>i. map (Pair i) (dc_children g ! i)) [0..<length (dc_children g)]))"
proof -
  have "distinct (concat (map (\<lambda>i. map (Pair i) (rows ! i)) [0..<k]))"
    if "\<forall>r \<in> set rows. distinct r" "k \<le> length rows" for rows :: "'a list list" and k
    using that(2)
  proof (induction k)
    case (Suc k)
    with that(1) show ?case by (auto simp: distinct_map inj_on_def)
  qed simp
  then show ?thesis using assms unfolding dc_wf_def by blast
qed

lemma dc_edge_pairs_sorted_spec:
  assumes "dc_wf g"
  shows "dc_edge_pairs_sorted g = sorted_list_of_set (dc_rel g)"
  unfolding dc_edge_pairs_sorted_def
  using set_dc_pairs[of g] distinct_dc_pairs[OF assms]
  by (metis distinct_remdups_id sorted_list_of_set_sort_remdups)

section \<open>Batch insertion\<close>

lemma dc_all_new_iff:
  "dc_all_new g seen es \<longleftrightarrow>
     distinct es \<and> set es \<inter> seen = {} \<and>
     (\<forall>(s, t) \<in> set es. s < length (dc_children g) \<and> t < length (dc_children g) \<and> (s, t) \<notin> dc_rel g)"
proof (induction g seen es rule: dc_all_new.induct)
  case (2 g seen src tgt es)
  show ?case
  proof (cases "src < length (dc_children g) \<and> tgt < length (dc_children g) \<and> (src, tgt) \<notin> seen \<and>
      (src, tgt) \<notin> dc_rel g")
    case True
    then have "\<not> (src \<ge> length (dc_children g) \<or> tgt \<ge> length (dc_children g))"
        "\<not> ((src, tgt) \<in> seen \<or> tgt \<in> set (dc_children g ! src))"
      by (auto simp: dc_rel_def row_nth)
    from "2.IH"[OF this] this True show ?thesis by auto
  next
    case False
    then have "(src \<ge> length (dc_children g) \<or> tgt \<ge> length (dc_children g)) \<or>
        (src, tgt) \<in> seen \<or> tgt \<in> set (dc_children g ! src)"
      by (auto simp: dc_rel_def row_def)
    then have "\<not> dc_all_new g seen ((src, tgt) # es)" by auto
    with False show ?thesis by auto
  qed
qed simp

text \<open>An edge list that may be appended: in range, new, without repetition.\<close>

definition fresh_edges :: "directed_core \<Rightarrow> (dense_id \<times> dense_id) list \<Rightarrow> bool" where
  "fresh_edges g es \<longleftrightarrow> distinct es \<and>
     (\<forall>(s, t) \<in> set es. s < dc_node_count g \<and> t < dc_node_count g \<and> (s, t) \<notin> dc_rel g)"

lemma dc_all_new_fresh: "dc_wf g \<Longrightarrow> dc_all_new g {} es \<longleftrightarrow> fresh_edges g es"
  using dc_wfD(1)[of g] by (simp add: dc_all_new_iff fresh_edges_def)

lemma fresh_edges_ConsD:
  assumes "fresh_edges g ((s, t) # es)"
  shows "s < dc_node_count g" "t < dc_node_count g" "(s, t) \<notin> dc_rel g"
  using assms by (auto simp: fresh_edges_def)

lemma fresh_edges_step:
  assumes "fresh_edges g ((s, t) # es)" "dc_nodes g' = dc_nodes g"
    and "dc_rel g' = insert (s, t) (dc_rel g)"
  shows "fresh_edges g' es"
  using assms by (auto simp: fresh_edges_def dc_node_count_def)

lemma dc_push_edges_spec:
  assumes "dc_wf g" "fresh_edges g es"
  shows "\<exists>g'. dc_push_edges g es = Some g' \<and> dc_wf g' \<and> dc_nodes g' = dc_nodes g \<and>
    dc_insert_ws g' = dc_insert_ws g \<and> dc_rel g' = dc_rel g \<union> set es"
  using assms
proof (induction es arbitrary: g)
  case (Cons e es)
  obtain s t where e: "e = (s, t)" by fastforce
  note fresh = fresh_edges_ConsD[OF Cons.prems(2)[unfolded e]]
  from dc_push_unchecked_spec[OF Cons.prems(1) fresh(1,2)] obtain g1 where
    g1: "dc_push_unchecked g s t = Some g1" "dc_nodes g1 = dc_nodes g"
      "dc_insert_ws g1 = dc_insert_ws g" "dc_rel g1 = insert (s, t) (dc_rel g)" "dc_wf g1"
    using fresh(3) by blast
  have "fresh_edges g1 es" using fresh_edges_step[OF Cons.prems(2)[unfolded e] g1(2,4)] .
  from Cons.IH[OF g1(5) this] g1 e show ?case by auto
qed simp

lemma dc_accepts_new_edges_spec:
  assumes "dc_inv g"
  shows "dc_accepts_new_edges g es = Some (fresh_edges g es \<and> acyclic (dc_rel g \<union> set es))"
proof -
  have wf: "dc_wf g" using assms by (rule dc_inv_wf)
  show ?thesis
  proof (cases "fresh_edges g es \<and> es \<noteq> []")
    case True
    then obtain g' where g': "dc_push_edges g es = Some g'" "dc_wf g'" "dc_rel g' = dc_rel g \<union> set es"
      using dc_push_edges_spec[OF wf, of es] by blast
    obtain r where "dc_topological_order g' = Some r" "r \<noteq> None \<longleftrightarrow> acyclic (dc_rel g')"
      using dc_topological_order_spec[OF g'(2)] by blast
    with True g' wf show ?thesis by (simp add: dc_accepts_new_edges_def dc_all_new_fresh)
  next
    case False
    then show ?thesis using wf assms
      by (auto simp: dc_accepts_new_edges_def dc_all_new_fresh dc_inv_def)
  qed
qed

text \<open>One accepted edge: appending it and inserting it with all checks give the same tables.\<close>

lemma dc_batch_step:
  assumes "dc_wf g" "dc_inv h" "dc_tables g = dc_tables h" "fresh_edges g ((s, t) # es)"
    and "acyclic (dc_rel g \<union> set ((s, t) # es))"
  obtains g' h' where "dc_push_unchecked g s t = Some g'" "dc_try_insert h s t = Some (Inr (), h')"
    "dc_wf g'" "dc_inv h'" "dc_tables g' = dc_tables h'" "fresh_edges g' es"
    "acyclic (dc_rel g' \<union> set es)" "dc_nodes g' = dc_nodes g"
proof -
  note fresh = fresh_edges_ConsD[OF assms(4)]
  have same: "dc_rel h = dc_rel g" "dc_node_count h = dc_node_count g"
    using assms(3) by (simp_all add: dc_tables_def dc_rel_def dc_node_count_def)
  have ac: "acyclic (insert (s, t) (dc_rel h))"
    using assms(5) same(1) by (elim acyclic_subset) auto
  then have "(t, s) \<notin> (dc_rel h)\<^sup>*" by (simp add: acyclic_insert)
  moreover have "(s, t) \<notin> dc_rel h" using fresh(3) same(1) by simp
  moreover have h: "s < dc_node_count h" "t < dc_node_count h" using fresh(1,2) same(2) by simp_all
  ultimately obtain h' where h': "dc_try_insert h s t = Some (Inr (), h')" "dc_nodes h' = dc_nodes h"
      "dc_inv h'" "dc_children h' = push_row (dc_children h) s t" "dc_parents h' = push_row (dc_parents h) t s"
    using dc_try_insert_cases[OF assms(2) h] by metis
  from dc_push_unchecked_spec[OF assms(1) fresh(1,2)] obtain g' where
    g': "dc_push_unchecked g s t = Some g'" "dc_nodes g' = dc_nodes g"
      "dc_children g' = push_row (dc_children g) s t" "dc_parents g' = push_row (dc_parents g) t s"
      "dc_rel g' = insert (s, t) (dc_rel g)" "dc_wf g'"
    using fresh(3) by blast
  have tabs: "dc_tables g' = dc_tables h'" using g'(2-4) h'(2,4,5) assms(3) by (simp add: dc_tables_def)
  have fr: "fresh_edges g' es" by (rule fresh_edges_step[OF assms(4) g'(2,5)])
  have "acyclic (dc_rel g' \<union> set es)" using assms(5) g'(5) by simp
  from that[OF g'(1) h'(1) g'(6) h'(3) tabs fr this g'(2)] show thesis .
qed

end
