(* ===== verification/Digraph_Interface.thy ===== *)
theory Digraph_Interface
  imports Directed_Core
begin

text \<open>
  What the algorithms over \<open>Dag\<close>, \<open>Admg\<close> and \<open>TemporalDag\<close> rely on, as one interface: a node count
  and the child and parent rows of an acyclic directed graph. The three types are interpreted in
  their own theories; the closure facts proved here serve their ancestor and descendant queries,
  whatever edge filter (overlay, active set) the query passes.
\<close>

definition arcs :: "('a \<Rightarrow> 'a list) \<Rightarrow> ('a \<times> 'a) set" where
  "arcs kids = {(u, v). v \<in> set (kids u)}"

lemma in_arcs [simp]: "(u, v) \<in> arcs kids \<longleftrightarrow> v \<in> set (kids u)"
  by (simp add: arcs_def)

lemma arcs_dc_children [simp]: "arcs (dc_children_of g) = dc_rel g"
  by (auto simp: in_dc_children)

definition filtered_arcs :: "('a \<Rightarrow> 'a list) \<Rightarrow> ('a \<Rightarrow> 'a \<Rightarrow> bool) \<Rightarrow> ('a \<times> 'a) set" where
  "filtered_arcs kids keep = {(u, v). v \<in> set (kids u) \<and> keep u v}"

lemma filtered_arcs_all [simp]: "filtered_arcs kids (\<lambda>_ _. True) = arcs kids"
  by (simp add: filtered_arcs_def arcs_def)

lemma filtered_arcs_iff [simp]: "(u, v) \<in> filtered_arcs kids keep \<longleftrightarrow> v \<in> set (kids u) \<and> keep u v"
  by (simp add: filtered_arcs_def)

locale digraph =
  fixes inv :: "'g \<Rightarrow> bool" and count :: "'g \<Rightarrow> nat" and kids pars :: "'g \<Rightarrow> dense_id \<Rightarrow> dense_id list"
  assumes kid_range: "inv g \<Longrightarrow> v \<in> set (kids g u) \<Longrightarrow> u < count g \<and> v < count g"
    and par_iff: "inv g \<Longrightarrow> u \<in> set (pars g v) \<longleftrightarrow> v \<in> set (kids g u)"
    and no_cycle: "inv g \<Longrightarrow> acyclic (arcs (kids g))"
begin

lemma finite_arcs: "inv g \<Longrightarrow> finite (arcs (kids g))"
  by (rule finite_subset[of _ "{..<count g} \<times> {..<count g}"]) (auto dest: kid_range)

lemma arcs_wf: "inv g \<Longrightarrow> wf (arcs (kids g))"
  using finite_acyclic_wf[OF finite_arcs no_cycle] .

lemma no_self_arc: "inv g \<Longrightarrow> u \<notin> set (kids g u)"
  using no_cycle[of g] r_into_trancl[of u u "arcs (kids g)"] unfolding acyclic_def by auto

lemma reach_antisym:
  assumes "inv g" "(u, v) \<in> (arcs (kids g))\<^sup>*" "(v, u) \<in> (arcs (kids g))\<^sup>*"
  shows "u = v"
  using no_cycle[OF assms(1)] assms(2,3) by (meson acyclic_impl_antisym_rtrancl antisymD)

lemma reach_range:
  "inv g \<Longrightarrow> (u, v) \<in> (arcs (kids g))\<^sup>* \<Longrightarrow> u < count g \<Longrightarrow> v < count g"
  using rtrancl_within[of u v "arcs (kids g)" "count g"] by (auto dest: kid_range)

lemma reach_range_back:
  "inv g \<Longrightarrow> (u, v) \<in> (arcs (kids g))\<^sup>* \<Longrightarrow> v < count g \<Longrightarrow> u < count g"
  by (metis converse_rtranclE in_arcs kid_range)

lemma descendants_closure:
  assumes "inv g" "bs_inv out" "ws_inv ws"
  shows "\<exists>out' ws'. closure_into (count g) (kids g) seeds out ws keep = Some (out', ws') \<and> bs_inv out' \<and>
    bs_len out' = count g \<and> ws_inv ws' \<and>
    bs_members out' = (filtered_arcs (kids g) keep)\<^sup>* `` {v \<in> set seeds. v < count g}"
proof -
  have "w < count g" if "u < count g" "w \<in> set (kids g u)" "keep u w" for u w
    using kid_range[OF assms(1) that(2)] by simp
  from closure_into_spec[OF assms(2,3) this, where seeds = seeds] show ?thesis
    by (simp add: closure_rel_def filtered_arcs_def)
qed

lemma ancestors_closure:
  assumes "inv g" "bs_inv out" "ws_inv ws"
  shows "\<exists>out' ws'. closure_into (count g) (pars g) seeds out ws keep = Some (out', ws') \<and> bs_inv out' \<and>
    bs_len out' = count g \<and> ws_inv ws' \<and>
    bs_members out' =
      {a. \<exists>s \<in> set seeds. s < count g \<and> (a, s) \<in> (filtered_arcs (kids g) (\<lambda>p c. keep c p))\<^sup>*}"
proof -
  have "\<exists>out' ws'. closure_into (count g) (pars g) seeds out ws keep = Some (out', ws') \<and> bs_inv out' \<and>
      bs_len out' = count g \<and> ws_inv ws' \<and>
      bs_members out' = (closure_rel (pars g) keep)\<^sup>* `` {v \<in> set seeds. v < count g}"
  proof (rule closure_into_spec[OF assms(2,3)])
    show "w < count g" if "u < count g" "w \<in> set (pars g u)" "keep u w" for u w
      using kid_range[OF assms(1)] par_iff[OF assms(1)] that(2) by blast
  qed
  then obtain out' ws' where
    r: "closure_into (count g) (pars g) seeds out ws keep = Some (out', ws')" "bs_inv out'"
      "bs_len out' = count g" "ws_inv ws'"
      "bs_members out' = (closure_rel (pars g) keep)\<^sup>* `` {v \<in> set seeds. v < count g}"
    by (elim exE conjE) (rule that)
  have "closure_rel (pars g) keep = (filtered_arcs (kids g) (\<lambda>p c. keep c p))\<inverse>"
  proof (rule set_eqI, clarify)
    fix u w
    show "(u, w) \<in> closure_rel (pars g) keep \<longleftrightarrow> (u, w) \<in> (filtered_arcs (kids g) (\<lambda>p c. keep c p))\<inverse>"
      using par_iff[OF assms(1), of w u] by (simp add: closure_rel_def)
  qed
  then have "bs_members out' =
      {a. \<exists>s \<in> set seeds. s < count g \<and> (a, s) \<in> (filtered_arcs (kids g) (\<lambda>p c. keep c p))\<^sup>*}"
    unfolding r(5) by (auto simp: rtrancl_converse)
  with r show ?thesis by blast
qed

end

section \<open>Wrappers of the directed core\<close>

text \<open>
  \<open>Dag\<close>, \<open>Admg\<close> and \<open>TemporalDag\<close> each own a core and insert an edge by running checks of their
  own and then \<open>try_insert\<close>. Their batch insertions append to the core directly when
  \<open>accepts_new_edges\<close> agrees; that this equals inserting one by one is proved once, here.
\<close>

locale core_wrapper =
  fixes winv :: "'g \<Rightarrow> bool" and core :: "'g \<Rightarrow> directed_core" and put :: "'g \<Rightarrow> directed_core \<Rightarrow> 'g"
    and admits :: "'g \<Rightarrow> dense_id \<Rightarrow> dense_id \<Rightarrow> bool"
    and add_edge :: "'g \<Rightarrow> dense_id \<Rightarrow> dense_id \<Rightarrow> ((graph_error + unit) \<times> 'g) option"
  assumes core_put: "core (put g c) = c"
    and put_core: "put g (core g) = g"
    and put_put: "put (put g c) c' = put g c'"
    and winv_core: "winv g \<Longrightarrow> dc_inv (core g)"
    and winv_put: "winv g \<Longrightarrow> dc_inv c \<Longrightarrow> dc_nodes c = dc_nodes (core g) \<Longrightarrow> winv (put g c)"
    and admits_put: "dc_nodes c = dc_nodes (core g) \<Longrightarrow> admits (put g c) s t = admits g s t"
    and add_edge_core: "winv g \<Longrightarrow> s < dc_node_count (core g) \<Longrightarrow> t < dc_node_count (core g) \<Longrightarrow> admits g s t \<Longrightarrow>
      add_edge g s t = map_option (\<lambda>(r, c). (r, put g c)) (dc_try_insert (core g) s t)"
begin

lemma batch_accepted:
  assumes "dc_wf g" "winv e" "dc_tables g = dc_tables (core e)" "fresh_edges g es"
    and "acyclic (dc_rel g \<union> set es)" "\<forall>(s, t) \<in> set es. admits e s t"
  shows "\<exists>g' e'. dc_push_edges g es = Some g' \<and>
    try_each (\<lambda>(s, t) e. add_edge e s t) es e = Some (Inr (), e') \<and>
    dc_tables g' = dc_tables (core e') \<and> winv e' \<and> dc_wf g' \<and> e' = put e (core e')"
  using assms
proof (induction es arbitrary: g e)
  case Nil
  then show ?case by (simp add: put_core)
next
  case (Cons x es)
  obtain s t where x: "x = (s, t)" by fastforce
  have h: "dc_inv (core e)" using Cons.prems(2) by (rule winv_core)
  obtain g1 h1 where step: "dc_push_unchecked g s t = Some g1" "dc_try_insert (core e) s t = Some (Inr (), h1)"
      "dc_wf g1" "dc_inv h1" "dc_tables g1 = dc_tables h1" "fresh_edges g1 es" "acyclic (dc_rel g1 \<union> set es)"
      "dc_nodes g1 = dc_nodes g"
    using dc_batch_step[OF Cons.prems(1) h Cons.prems(3) Cons.prems(4)[unfolded x] Cons.prems(5)[unfolded x]]
    by blast
  have nodes: "dc_nodes h1 = dc_nodes (core e)" using step(5,8) Cons.prems(3) by (simp add: dc_tables_def)
  have inv: "winv (put e h1)" by (rule winv_put[OF Cons.prems(2) step(4) nodes])
  have "s < dc_node_count (core e)" "t < dc_node_count (core e)"
    using fresh_edges_ConsD[OF Cons.prems(4)[unfolded x]] Cons.prems(3)
    by (simp_all add: dc_node_count_def dc_tables_def)
  then have ins: "add_edge e s t = Some (Inr (), put e h1)"
    using step(2) add_edge_core[OF Cons.prems(2)] Cons.prems(6) x by simp
  have "\<forall>(s, t) \<in> set es. admits (put e h1) s t" using Cons.prems(6) admits_put[OF nodes] by simp
  from Cons.IH[OF step(3) inv _ step(6,7) this] step(5) obtain g' e' where
    "dc_push_edges g1 es = Some g'" "try_each (\<lambda>(s, t) e. add_edge e s t) es (put e h1) = Some (Inr (), e')"
    "dc_tables g' = dc_tables (core e')" "winv e'" "dc_wf g'" "e' = put (put e h1) (core e')"
    by (auto simp: core_put)
  then show ?case using x step(1) ins by (auto simp: put_put)
qed

lemma batch_same:
  assumes "winv d" "fresh_edges (core d) es" "acyclic (dc_rel (core d) \<union> set es)" "\<forall>(s, t) \<in> set es. admits d s t"
  obtains g' e' where "dc_push_edges (core d) es = Some g'"
    "try_each (\<lambda>(s, t) e. add_edge e s t) es d = Some (Inr (), e')"
    "dc_tables g' = dc_tables (core e')" "winv (put d g')" "e' = put d (core e')"
proof -
  have wf: "dc_wf (core d)" using winv_core[OF assms(1)] by (rule dc_inv_wf)
  obtain g' e' where r: "dc_push_edges (core d) es = Some g'"
      "try_each (\<lambda>(s, t) e. add_edge e s t) es d = Some (Inr (), e')"
      "dc_tables g' = dc_tables (core e')" "winv e'" "dc_wf g'" "e' = put d (core e')"
    using batch_accepted[OF wf assms(1) refl assms(2-4)] by blast
  obtain g1 where "dc_push_edges (core d) es = Some g1" "dc_nodes g1 = dc_nodes (core d)"
    using dc_push_edges_spec[OF wf assms(2)] by blast
  with r(1) have nodes: "dc_nodes g' = dc_nodes (core d)" by simp
  have "dc_inv g'" using r(5) dc_rel_tables[OF r(3)] winv_core[OF r(4)] by (simp add: dc_inv_def)
  with that[OF r(1-3) winv_put[OF assms(1) _ nodes] r(6)] show thesis by blast
qed

end

end
