(* ===== verification/Indexer.thy ===== *)
theory Indexer
  imports Graph_Types
begin

text \<open>
  \<open>antecedent-core/src/temporal.rs\<close>: the dense layout of an unfolded temporal window. A node is a
  variable at a signed offset from the analysis origin; the indexer lays the window out time-major.
  \<open>u32\<close> values are \<open>nat\<close> with their range checks, \<open>i32\<close> and \<open>i64\<close> values are \<open>int\<close>; the products
  in \<open>dense_id\<close> stay below \<open>2 ^ 64\<close> for every indexer \<open>new\<close> returns (\<open>indexer_inv\<close>).
\<close>

datatype temporal_index_error = Invalid string | UnknownVariable variable_id

record temporal_node_key =
  tk_variable :: variable_id
  tk_offset :: int

definition i32_ok :: "int \<Rightarrow> bool" where
  "i32_ok x \<longleftrightarrow> - (2 ^ 31) \<le> x \<and> x < 2 ^ 31"

definition tk_contemporaneous :: "variable_id \<Rightarrow> temporal_node_key" where
  "tk_contemporaneous v = \<lparr>tk_variable = v, tk_offset = 0\<rparr>"

definition tk_lagged :: "variable_id \<Rightarrow> lag \<Rightarrow> temporal_node_key option" where
  "tk_lagged v l = (if l < 2 ^ 31 then Some \<lparr>tk_variable = v, tk_offset = - int l\<rparr> else None)"

record temporal_indexer =
  ti_variable_count :: nat
  ti_history :: nat
  ti_horizon :: nat
  ti_dense_len :: nat

definition ti_new :: "nat \<Rightarrow> nat \<Rightarrow> nat \<Rightarrow> temporal_index_error + temporal_indexer" where
  "ti_new variable_count history horizon =
     (if variable_count = 0 \<or> horizon = 0
      then Inl (Invalid ''variable_count and horizon must be non-zero'')
      else if history + horizon \<ge> id_space then Inl (Invalid ''history+horizon overflow'')
      else if variable_count * (history + horizon) \<ge> id_space
      then Inl (Invalid ''dense index space overflow'')
      else Inr \<lparr>ti_variable_count = variable_count, ti_history = history, ti_horizon = horizon,
                ti_dense_len = variable_count * (history + horizon)\<rparr>)"

definition ti_dense_id :: "temporal_indexer \<Rightarrow> temporal_node_key \<Rightarrow> temporal_index_error + nat" where
  "ti_dense_id ti key =
     (let v = tk_variable key
      in if v \<ge> ti_variable_count ti then Inl (UnknownVariable v)
         else (let slice = tk_offset key + int (ti_history ti)
               in if slice < 0 \<or> slice \<ge> int (ti_history ti) + int (ti_horizon ti)
                  then Inl (Invalid ''temporal offset outside unfolding window'')
                  else (let dense = nat slice * ti_variable_count ti + v
                        in if dense \<ge> id_space then Inl (Invalid ''dense id exceeds u32'')
                           else Inr dense)))"

definition ti_key_of :: "temporal_indexer \<Rightarrow> nat \<Rightarrow> temporal_index_error + temporal_node_key" where
  "ti_key_of ti dense =
     (if dense \<ge> ti_dense_len ti then Inl (Invalid ''dense id out of range'')
      else (let slice = dense div ti_variable_count ti;
                var = dense mod ti_variable_count ti;
                offset = int slice - int (ti_history ti)
            in if i32_ok offset then Inr \<lparr>tk_variable = var, tk_offset = offset\<rparr>
               else Inl (Invalid ''offset overflow'')))"

definition indexer_inv :: "temporal_indexer \<Rightarrow> bool" where
  "indexer_inv ti \<longleftrightarrow> 0 < ti_variable_count ti \<and> 0 < ti_horizon ti \<and>
     ti_dense_len ti = ti_variable_count ti * (ti_history ti + ti_horizon ti) \<and> ti_dense_len ti < id_space"

lemma ti_new_inv: "ti_new v h z = Inr ti \<Longrightarrow> indexer_inv ti"
  by (auto simp: ti_new_def indexer_inv_def split: if_splits)

lemma ti_new_succeeds:
  "(\<exists>ti. ti_new v h z = Inr ti) \<longleftrightarrow> 0 < v \<and> 0 < z \<and> v * (h + z) < id_space"
proof -
  have "h + z < id_space" if "0 < v" "v * (h + z) < id_space"
  proof -
    have "1 * (h + z) \<le> v * (h + z)" using that(1) by (intro mult_le_mono1) simp
    with that(2) show ?thesis by (metis le_less_trans mult_1)
  qed
  then show ?thesis by (cases "v = 0") (auto simp: ti_new_def not_le)
qed

text \<open>The key is in the window and its id is in the dense range.\<close>

lemma window_slice:
  assumes "i < vc" "s < k"
  shows "s * vc + i < vc * (k :: nat)"
proof -
  have "s * vc + i < Suc s * vc" using assms(1) by simp
  also have "\<dots> \<le> k * vc" using assms(2) by (intro mult_le_mono1) simp
  finally show ?thesis by (simp add: mult.commute)
qed

lemma ti_dense_id_ok:
  assumes "indexer_inv ti"
  shows "ti_dense_id ti key = Inr d \<longleftrightarrow>
    tk_variable key < ti_variable_count ti \<and> - int (ti_history ti) \<le> tk_offset key \<and>
    tk_offset key < int (ti_horizon ti) \<and>
    d = nat (tk_offset key + int (ti_history ti)) * ti_variable_count ti + tk_variable key"
proof -
  let ?s = "nat (tk_offset key + int (ti_history ti))"
  have "?s * ti_variable_count ti + tk_variable key < id_space"
    if "tk_variable key < ti_variable_count ti" "- int (ti_history ti) \<le> tk_offset key"
      "tk_offset key < int (ti_horizon ti)"
  proof -
    have "?s < ti_history ti + ti_horizon ti" using that by linarith
    from window_slice[OF that(1) this] assms show ?thesis by (simp add: indexer_inv_def)
  qed
  then show ?thesis by (auto simp: ti_dense_id_def Let_def not_le split: if_splits)
qed

lemma ti_dense_id_range:
  assumes "indexer_inv ti" "ti_dense_id ti key = Inr d"
  shows "d < ti_dense_len ti"
proof -
  note k = assms(2)[unfolded ti_dense_id_ok[OF assms(1)]]
  then have "nat (tk_offset key + int (ti_history ti)) < ti_history ti + ti_horizon ti" by linarith
  with k window_slice[of "tk_variable key" "ti_variable_count ti"] assms(1) show ?thesis
    by (simp add: indexer_inv_def)
qed

lemma ti_round_trip_key:
  assumes "indexer_inv ti" "i32_ok (tk_offset key)" "ti_dense_id ti key = Inr d"
  shows "ti_key_of ti d = Inr key"
proof -
  note k = assms(3)[unfolded ti_dense_id_ok[OF assms(1)]]
  let ?s = "nat (tk_offset key + int (ti_history ti))"
  have "d div ti_variable_count ti = ?s" "d mod ti_variable_count ti = tk_variable key"
    using k by simp_all
  moreover have "int ?s - int (ti_history ti) = tk_offset key" using k by simp
  ultimately show ?thesis
    using ti_dense_id_range[OF assms(1,3)] assms(2) by (simp add: ti_key_of_def Let_def)
qed

lemma ti_round_trip_dense:
  assumes "indexer_inv ti" "ti_key_of ti d = Inr key"
  shows "ti_dense_id ti key = Inr d" "i32_ok (tk_offset key)"
proof -
  let ?vc = "ti_variable_count ti"
  have d: "d < ti_dense_len ti" and key: "key = \<lparr>tk_variable = d mod ?vc, tk_offset = int (d div ?vc) - int (ti_history ti)\<rparr>"
    and ok: "i32_ok (int (d div ?vc) - int (ti_history ti))"
    using assms(2) by (auto simp: ti_key_of_def Let_def split: if_splits)
  show "i32_ok (tk_offset key)" using ok key by simp
  have "d div ?vc < ti_history ti + ti_horizon ti"
    using d assms(1) by (simp add: indexer_inv_def less_mult_imp_div_less mult.commute)
  then have "int (d div ?vc) - int (ti_history ti) < int (ti_horizon ti)" by linarith
  then show "ti_dense_id ti key = Inr d"
    unfolding ti_dense_id_ok[OF assms(1)] key using assms(1) by (simp add: indexer_inv_def)
qed

end
