(* ===== verification/Schema.thy ===== *)
theory Schema
  imports Graph_Types
begin

text \<open>
  \<open>antecedent-core/src/schema.rs\<close>: role-hint bit sets, the immutable causal schema and the builder
  that assigns dense variable ids, together with the two name-resolution helpers of
  \<open>antecedent-graph/src/named.rs\<close>.

  The builder keeps the accepted names in a hash set beside the pending list and an error deferred
  by the fluent interface; \<open>builder_inv\<close> says the set is the names of the list, and that no name
  repeats. A schema built from it resolves every name to the one variable that carries it.
\<close>

datatype scalar_type = Float64 | Float32 | Int64 | Int32

datatype value_type =
    Continuous | Count | Binary | Categorical | Ordinal | Unspecified
  | Vector (width: nat) (element: scalar_type)

fun requires_category_domain :: "value_type \<Rightarrow> bool" where
  "requires_category_domain Categorical = True"
| "requires_category_domain Ordinal = True"
| "requires_category_domain _ = False"

section \<open>Role hints\<close>

datatype role_hint =
    TreatmentCandidate | OutcomeCandidate | InstrumentCandidate | RoleContext | Selection
  | UnitId | Time | Environment | Regime

fun hint_index :: "role_hint \<Rightarrow> nat" where
  "hint_index TreatmentCandidate = 0"
| "hint_index OutcomeCandidate = 1"
| "hint_index InstrumentCandidate = 2"
| "hint_index RoleContext = 3"
| "hint_index Selection = 4"
| "hint_index UnitId = 5"
| "hint_index Time = 6"
| "hint_index Environment = 7"
| "hint_index Regime = 8"

type_synonym role_set = "16 word"

text \<open>\<open>hint as u16\<close>.\<close>

definition hint_bits :: "role_hint \<Rightarrow> role_set" where
  "hint_bits h = push_bit (hint_index h) 1"

definition rs_empty :: role_set where
  "rs_empty = 0"

definition rs_from_hint :: "role_hint \<Rightarrow> role_set" where
  "rs_from_hint h = hint_bits h"

unbundle bit_operations_syntax

definition rs_insert :: "role_set \<Rightarrow> role_hint \<Rightarrow> role_set" where
  "rs_insert s h = s OR hint_bits h"

definition rs_remove :: "role_set \<Rightarrow> role_hint \<Rightarrow> role_set" where
  "rs_remove s h = s AND NOT (hint_bits h)"

definition rs_contains :: "role_set \<Rightarrow> role_hint \<Rightarrow> bool" where
  "rs_contains s h \<longleftrightarrow> s AND hint_bits h \<noteq> 0"

definition rs_is_empty :: "role_set \<Rightarrow> bool" where
  "rs_is_empty s \<longleftrightarrow> s = 0"

definition rs_from_bits_truncate :: "16 word \<Rightarrow> role_set" where
  "rs_from_bits_truncate bits = bits AND (push_bit 9 1 - 1)"

definition all_hints :: "role_hint list" where
  "all_hints = [TreatmentCandidate, OutcomeCandidate, InstrumentCandidate, RoleContext, Selection,
     UnitId, Time, Environment, Regime]"

definition rs_iter :: "role_set \<Rightarrow> role_hint list" where
  "rs_iter s = filter (rs_contains s) all_hints"

lemma hint_index_less: "hint_index h < 9"
  by (cases h) simp_all

lemma hint_index_inject: "hint_index h = hint_index k \<longleftrightarrow> h = k"
  by (cases h; cases k) simp_all

lemma all_hints_set [simp]: "h \<in> set all_hints"
  by (cases h) (simp_all add: all_hints_def)

lemma bit_hint_bits: "bit (hint_bits h) i \<longleftrightarrow> i = hint_index h"
proof -
  have "hint_index h < 16" using hint_index_less[of h] by simp
  then show ?thesis by (auto simp: hint_bits_def bit_exp_iff)
qed

lemma rs_contains_bit: "rs_contains s h \<longleftrightarrow> bit s (hint_index h)"
proof -
  have "s AND hint_bits h = 0 \<longleftrightarrow> (\<forall>i. \<not> (bit s i \<and> i = hint_index h))"
    unfolding bit_eq_iff bit_and_iff bit_hint_bits using bit_imp_le_length[of s] by auto
  then show ?thesis by (simp add: rs_contains_def)
qed

lemma rs_contains_insert: "rs_contains (rs_insert s h) k \<longleftrightarrow> k = h \<or> rs_contains s k"
  by (auto simp: rs_contains_bit rs_insert_def bit_or_iff bit_hint_bits hint_index_inject)

lemma rs_contains_remove: "rs_contains (rs_remove s h) k \<longleftrightarrow> k \<noteq> h \<and> rs_contains s k"
  using hint_index_less[of k]
  by (auto simp: rs_contains_bit rs_remove_def bit_and_iff bit_not_iff bit_hint_bits hint_index_inject)

lemma rs_contains_empty: "\<not> rs_contains rs_empty h"
  by (simp add: rs_contains_bit rs_empty_def)

lemma rs_iter_set: "set (rs_iter s) = {h. rs_contains s h}"
  by (auto simp: rs_iter_def)

lemma rs_truncate_contains: "rs_contains (rs_from_bits_truncate b) h \<longleftrightarrow> rs_contains b h"
proof -
  have "rs_from_bits_truncate b = b AND mask 9"
    by (simp add: rs_from_bits_truncate_def mask_eq_exp_minus_1)
  moreover have "bit (b AND mask 9) (hint_index h) \<longleftrightarrow> bit b (hint_index h) \<and> hint_index h < 9"
    unfolding bit_and_iff bit_mask_iff using bit_imp_le_length[of b "hint_index h"] by auto
  ultimately have "bit (rs_from_bits_truncate b) (hint_index h) \<longleftrightarrow> bit b (hint_index h) \<and> hint_index h < 9"
    by simp
  then show ?thesis using hint_index_less[of h] by (simp add: rs_contains_bit)
qed

section \<open>Schemas\<close>

datatype schema_error =
    DuplicateVariableName string
  | MissingCategoryDomain string
  | UnexpectedCategoryDomain string
  | UnknownVariableId nat
  | SchemaUnknownName string
  | TooManyVariables

record measurement_spec =
  ms_description :: "string option"
  ms_noisy :: bool

definition ms_default :: measurement_spec where
  "ms_default = \<lparr>ms_description = None, ms_noisy = False\<rparr>"

record variable_schema =
  vs_id :: variable_id
  vs_name :: string
  vs_value_type :: value_type
  vs_role_hints :: role_set
  vs_unit :: "string option"
  vs_category_domain :: "nat option"
  vs_measurement :: measurement_spec

record causal_schema =
  cs_variables :: "variable_schema list"

definition cs_len :: "causal_schema \<Rightarrow> nat" where
  "cs_len s = length (cs_variables s)"

definition cs_is_empty :: "causal_schema \<Rightarrow> bool" where
  "cs_is_empty s \<longleftrightarrow> cs_variables s = []"

definition cs_get :: "causal_schema \<Rightarrow> variable_id \<Rightarrow> schema_error + variable_schema" where
  "cs_get s i = (if i < length (cs_variables s) then Inr (cs_variables s ! i) else Inl (UnknownVariableId i))"

definition cs_id_of :: "causal_schema \<Rightarrow> string \<Rightarrow> schema_error + variable_id" where
  "cs_id_of s name =
     (case find (\<lambda>v. vs_name v = name) (cs_variables s) of
        Some v \<Rightarrow> Inr (vs_id v) | None \<Rightarrow> Inl (SchemaUnknownName name))"

definition cs_by_name :: "causal_schema \<Rightarrow> string \<Rightarrow> schema_error + variable_schema" where
  "cs_by_name s name = rbind (cs_id_of s name) (cs_get s)"

section \<open>The builder\<close>

record pending_variable =
  pv_name :: string
  pv_value_type :: value_type
  pv_role_hints :: role_set
  pv_unit :: "string option"
  pv_category_domain :: "nat option"
  pv_measurement :: measurement_spec

record schema_builder =
  sb_pending :: "pending_variable list"
  sb_names :: "string set"
  sb_deferred :: "schema_error option"

definition sb_new :: schema_builder where
  "sb_new = \<lparr>sb_pending = [], sb_names = {}, sb_deferred = None\<rparr>"

definition validate_domain_consistency :: "string \<Rightarrow> value_type \<Rightarrow> nat option \<Rightarrow> schema_error + unit" where
  "validate_domain_consistency name vt category =
     (case (requires_category_domain vt, category) of
        (True, None) \<Rightarrow> Inl (MissingCategoryDomain name)
      | (False, Some _) \<Rightarrow> Inl (UnexpectedCategoryDomain name)
      | _ \<Rightarrow> Inr ())"

definition sb_add_variable ::
  "schema_builder \<Rightarrow> string \<Rightarrow> value_type \<Rightarrow> role_set \<Rightarrow> string option \<Rightarrow> nat option \<Rightarrow>
    measurement_spec \<Rightarrow> (schema_error + unit) \<times> schema_builder" where
  "sb_add_variable b name vt hints unit category ms =
     (if name \<in> sb_names b then (Inl (DuplicateVariableName name), b)
      else case validate_domain_consistency name vt category of
        Inl e \<Rightarrow> (Inl e, b)
      | Inr _ \<Rightarrow> (Inr (), b\<lparr>sb_names := insert name (sb_names b),
          sb_pending := sb_pending b @ [\<lparr>pv_name = name, pv_value_type = vt, pv_role_hints = hints,
            pv_unit = unit, pv_category_domain = category, pv_measurement = ms\<rparr>]\<rparr>))"

definition sb_push_pending :: "schema_builder \<Rightarrow> pending_variable \<Rightarrow> schema_builder" where
  "sb_push_pending b p =
     (if sb_deferred b \<noteq> None then b
      else if pv_name p \<in> sb_names b then b\<lparr>sb_deferred := Some (DuplicateVariableName (pv_name p))\<rparr>
      else case validate_domain_consistency (pv_name p) (pv_value_type p) (pv_category_domain p) of
        Inl e \<Rightarrow> b\<lparr>sb_deferred := Some e\<rparr>
      | Inr _ \<Rightarrow> b\<lparr>sb_names := insert (pv_name p) (sb_names b), sb_pending := sb_pending b @ [p]\<rparr>)"

definition finish_variable :: "pending_variable \<Rightarrow> nat \<Rightarrow> variable_schema" where
  "finish_variable p i = \<lparr>vs_id = i, vs_name = pv_name p, vs_value_type = pv_value_type p,
     vs_role_hints = pv_role_hints p, vs_unit = pv_unit p, vs_category_domain = pv_category_domain p,
     vs_measurement = pv_measurement p\<rparr>"

definition sb_build :: "schema_builder \<Rightarrow> schema_error + causal_schema" where
  "sb_build b =
     (case sb_deferred b of
        Some err \<Rightarrow> Inl err
      | None \<Rightarrow>
          (if length (sb_pending b) < id_space then
             Inr \<lparr>cs_variables = map2 finish_variable (sb_pending b) [0..<length (sb_pending b)]\<rparr>
           else Inl TooManyVariables))"

record variable_in_progress =
  vp_builder :: schema_builder
  vp_pending :: pending_variable

definition sb_begin :: "schema_builder \<Rightarrow> string \<Rightarrow> value_type \<Rightarrow> nat option \<Rightarrow> variable_in_progress" where
  "sb_begin b name vt category =
     \<lparr>vp_builder = b, vp_pending = \<lparr>pv_name = name, pv_value_type = vt, pv_role_hints = rs_empty,
        pv_unit = None, pv_category_domain = category, pv_measurement = ms_default\<rparr>\<rparr>"

definition sb_continuous :: "schema_builder \<Rightarrow> string \<Rightarrow> variable_in_progress" where
  "sb_continuous b name = sb_begin b name Continuous None"

definition sb_binary :: "schema_builder \<Rightarrow> string \<Rightarrow> variable_in_progress" where
  "sb_binary b name = sb_begin b name Binary None"

definition sb_count :: "schema_builder \<Rightarrow> string \<Rightarrow> variable_in_progress" where
  "sb_count b name = sb_begin b name Count None"

definition vp_finish :: "variable_in_progress \<Rightarrow> schema_builder" where
  "vp_finish p = sb_push_pending (vp_builder p) (vp_pending p)"

definition vp_with_role :: "role_hint \<Rightarrow> variable_in_progress \<Rightarrow> schema_builder" where
  "vp_with_role h p =
     vp_finish (p\<lparr>vp_pending := (vp_pending p)\<lparr>pv_role_hints := rs_insert (pv_role_hints (vp_pending p)) h\<rparr>\<rparr>)"

definition vp_treatment :: "variable_in_progress \<Rightarrow> schema_builder" where
  "vp_treatment p = vp_with_role TreatmentCandidate p"

definition vp_outcome :: "variable_in_progress \<Rightarrow> schema_builder" where
  "vp_outcome p = vp_with_role OutcomeCandidate p"

definition vp_context :: "variable_in_progress \<Rightarrow> schema_builder" where
  "vp_context p = vp_with_role RoleContext p"

definition vp_instrument :: "variable_in_progress \<Rightarrow> schema_builder" where
  "vp_instrument p = vp_with_role InstrumentCandidate p"

definition vp_unit :: "variable_in_progress \<Rightarrow> string \<Rightarrow> variable_in_progress" where
  "vp_unit p u = p\<lparr>vp_pending := (vp_pending p)\<lparr>pv_unit := Some u\<rparr>\<rparr>"

definition vp_build :: "variable_in_progress \<Rightarrow> schema_error + causal_schema" where
  "vp_build p = sb_build (vp_finish p)"

section \<open>Invariants\<close>

definition domain_ok :: "pending_variable \<Rightarrow> bool" where
  "domain_ok p \<longleftrightarrow> (requires_category_domain (pv_value_type p) \<longleftrightarrow> pv_category_domain p \<noteq> None)"

definition builder_inv :: "schema_builder \<Rightarrow> bool" where
  "builder_inv b \<longleftrightarrow> sb_names b = pv_name ` set (sb_pending b) \<and>
     distinct (map pv_name (sb_pending b)) \<and> (\<forall>p \<in> set (sb_pending b). domain_ok p)"

lemma validate_domain_ok:
  "validate_domain_consistency n (pv_value_type p) (pv_category_domain p) = Inr () \<longleftrightarrow> domain_ok p"
  by (auto simp: validate_domain_consistency_def domain_ok_def split: bool.splits option.splits)

lemma builder_inv_new: "builder_inv sb_new"
  by (simp add: builder_inv_def sb_new_def)

lemma builder_inv_append:
  assumes "builder_inv b" "pv_name p \<notin> sb_names b" "domain_ok p"
  shows "builder_inv (b\<lparr>sb_names := insert (pv_name p) (sb_names b), sb_pending := sb_pending b @ [p]\<rparr>)"
  using assms by (auto simp: builder_inv_def)

lemma builder_inv_add_variable:
  assumes "builder_inv b" "sb_add_variable b name vt hints unit category ms = (r, b')"
  shows "builder_inv b'"
proof -
  let ?p = "\<lparr>pv_name = name, pv_value_type = vt, pv_role_hints = hints, pv_unit = unit,
      pv_category_domain = category, pv_measurement = ms\<rparr>"
  show ?thesis
    using assms builder_inv_append[OF assms(1), of ?p] validate_domain_ok[of name ?p]
    by (auto simp: sb_add_variable_def split: if_splits sum.splits)
qed

lemma builder_inv_push_pending:
  assumes "builder_inv b"
  shows "builder_inv (sb_push_pending b p)"
proof -
  have "builder_inv (b\<lparr>sb_deferred := d\<rparr>)" for d using assms by (simp add: builder_inv_def)
  then show ?thesis
    using assms builder_inv_append[OF assms, of p] validate_domain_ok[of "pv_name p" p]
    by (auto simp: sb_push_pending_def split: sum.splits)
qed

text \<open>The fluent commit does what \<open>add_variable\<close> does, with the error deferred; the first error stays.\<close>

lemma sb_push_pending_add_variable:
  assumes "sb_deferred b = None"
    and "sb_add_variable b (pv_name p) (pv_value_type p) (pv_role_hints p) (pv_unit p)
           (pv_category_domain p) (pv_measurement p) = (r, b')"
  shows "sb_push_pending b p = (case r of Inr _ \<Rightarrow> b' | Inl e \<Rightarrow> b'\<lparr>sb_deferred := Some e\<rparr>)"
  using assms by (auto simp: sb_add_variable_def sb_push_pending_def split: if_splits sum.splits)

lemma sb_push_pending_deferred: "sb_deferred b = Some e \<Longrightarrow> sb_push_pending b p = b"
  by (simp add: sb_push_pending_def)

definition schema_inv :: "causal_schema \<Rightarrow> bool" where
  "schema_inv s \<longleftrightarrow> cs_len s < id_space \<and> distinct (map vs_name (cs_variables s)) \<and>
     (\<forall>i < cs_len s. vs_id (cs_variables s ! i) = i)"

lemma sb_build_inv:
  assumes "builder_inv b" "sb_build b = Inr s"
  shows "schema_inv s" "map vs_name (cs_variables s) = map pv_name (sb_pending b)"
proof -
  have s: "cs_variables s = map2 finish_variable (sb_pending b) [0..<length (sb_pending b)]"
    and len: "length (sb_pending b) < id_space"
    using assms(2) by (auto simp: sb_build_def split: option.splits if_splits)
  show names: "map vs_name (cs_variables s) = map pv_name (sb_pending b)"
    unfolding s by (intro nth_equalityI) (simp_all add: finish_variable_def)
  have "vs_id (cs_variables s ! i) = i" if "i < cs_len s" for i
    using that unfolding s cs_len_def by (simp add: finish_variable_def)
  moreover have "cs_len s < id_space" using len s by (simp add: cs_len_def)
  ultimately show "schema_inv s" using names assms(1) by (simp add: schema_inv_def builder_inv_def)
qed

lemma cs_id_of_spec:
  assumes "schema_inv s"
  shows "cs_id_of s name = Inr i \<longleftrightarrow> i < cs_len s \<and> vs_name (cs_variables s ! i) = name"
proof -
  let ?vs = "cs_variables s"
  have ids: "\<And>i. i < length ?vs \<Longrightarrow> vs_id (?vs ! i) = i" and d: "distinct (map vs_name ?vs)"
    using assms by (simp_all add: schema_inv_def cs_len_def)
  show ?thesis
  proof (cases "find (\<lambda>v. vs_name v = name) ?vs")
    case None
    then have "\<forall>v \<in> set ?vs. vs_name v \<noteq> name" by (auto simp: find_None_iff)
    with None show ?thesis by (auto simp: cs_id_of_def cs_len_def)
  next
    case (Some v)
    then obtain k where k: "k < length ?vs" "vs_name (?vs ! k) = name" "v = ?vs ! k"
      by (auto simp: find_Some_iff)
    have only: "j = k" if "j < length ?vs" "vs_name (?vs ! j) = name" for j
      using d that k(1,2) by (metis nth_map length_map nth_eq_iff_index_eq)
    have "cs_id_of s name = Inr k" using Some k ids by (simp add: cs_id_of_def)
    then show ?thesis using only[of i] k(1,2) unfolding cs_len_def by auto
  qed
qed

lemma cs_by_name_spec:
  assumes "schema_inv s"
  shows "cs_by_name s name = Inr v \<longleftrightarrow> v \<in> set (cs_variables s) \<and> vs_name v = name"
proof -
  have "cs_by_name s name = Inr v \<longleftrightarrow>
      (\<exists>i < cs_len s. vs_name (cs_variables s ! i) = name \<and> v = cs_variables s ! i)"
    by (auto simp: cs_by_name_def cs_id_of_spec[OF assms] cs_get_def cs_len_def)
  then show ?thesis by (auto simp: in_set_conv_nth cs_len_def)
qed

section \<open>Name resolution for graphs\<close>

definition resolve_named_edge ::
  "causal_schema \<Rightarrow> string \<Rightarrow> string \<Rightarrow> graph_error + (dense_id \<times> dense_id)" where
  "resolve_named_edge s from_name to_name =
     (case cs_id_of s from_name of
        Inl _ \<Rightarrow> Inl (UnknownVariableName from_name)
      | Inr f \<Rightarrow>
          (case cs_id_of s to_name of
             Inl _ \<Rightarrow> Inl (UnknownVariableName to_name)
           | Inr t \<Rightarrow> Inr (f, t)))"

definition schema_node_count :: "causal_schema \<Rightarrow> graph_error + nat" where
  "schema_node_count s = (if cs_len s < id_space then Inr (cs_len s) else Inl TooManyNodes)"

lemma resolve_named_edge_range:
  "schema_inv s \<Longrightarrow> resolve_named_edge s a b = Inr (f, t) \<Longrightarrow> f < cs_len s \<and> t < cs_len s"
  by (auto simp: resolve_named_edge_def cs_id_of_spec split: sum.splits)

lemma schema_node_count_ok: "schema_inv s \<Longrightarrow> schema_node_count s = Inr (cs_len s)"
  by (simp add: schema_inv_def schema_node_count_def)

end
