(* ===== verification/Dag.thy ===== *)
theory Dag
  imports Digraph_Interface Indexer Schema
begin

text \<open>
  \<open>dag.rs\<close>: the static DAG, its constructors and insertion operations, the batch insertion, the
  validation, and the review artifact \<open>DagReview\<close>. Path enumeration is in \<open>Dag_Paths\<close>, ancestry and
  surgery in \<open>Dag_Surgery\<close>.
\<close>

record dag =
  dag_directed :: directed_core

definition dag_empty :: dag where
  "dag_empty = \<lparr>dag_directed = dc_new\<rparr>"

definition dag_node_count :: "dag \<Rightarrow> nat" where
  "dag_node_count d = dc_node_count (dag_directed d)"

definition dag_is_empty :: "dag \<Rightarrow> bool" where
  "dag_is_empty d = dc_is_empty (dag_directed d)"

definition dag_nodes :: "dag \<Rightarrow> node_ref list" where
  "dag_nodes d = dc_nodes (dag_directed d)"

definition dag_children :: "dag \<Rightarrow> dense_id \<Rightarrow> dense_id list" where
  "dag_children d i = dc_children_of (dag_directed d) i"

definition dag_parents :: "dag \<Rightarrow> dense_id \<Rightarrow> dense_id list" where
  "dag_parents d i = dc_parents_of (dag_directed d) i"

definition dag_eq :: "dag \<Rightarrow> dag \<Rightarrow> bool" where
  "dag_eq d e = dc_same_directed (dag_directed d) (dag_directed e)"

definition dag_reaches :: "dag \<Rightarrow> dense_id \<Rightarrow> dense_id \<Rightarrow> bool option" where
  "dag_reaches d src tgt = dc_reaches (dag_directed d) src tgt"

definition dag_reaches_with ::
  "dag \<Rightarrow> dense_id \<Rightarrow> dense_id \<Rightarrow> graph_workspace \<Rightarrow> (bool \<times> graph_workspace) option" where
  "dag_reaches_with d src tgt ws = dc_reaches_with (dag_directed d) src tgt ws"

definition dag_topological_order :: "dag \<Rightarrow> dense_id list option option" where
  "dag_topological_order d = dc_topological_order (dag_directed d)"

definition dag_edges :: "dag \<Rightarrow> marked_edge list" where
  "dag_edges d = dc_marked_edges (dag_directed d)"

definition dag_directed_edge_pairs_sorted :: "dag \<Rightarrow> (nat \<times> nat) list" where
  "dag_directed_edge_pairs_sorted d = dc_edge_pairs_sorted (dag_directed d)"

definition dag_node_ids :: "dag \<Rightarrow> dense_id list option" where
  "dag_node_ids d = all_ids (dag_node_count d)"

section \<open>Construction\<close>

definition dag_add_node :: "dag \<Rightarrow> node_ref \<Rightarrow> (graph_error + dense_id) \<times> dag" where
  "dag_add_node d node =
     (if \<not> is_static_graph_node node
      then (Inl (InvalidEndpoints ''Dag accepts only Static or Unfolded nodes''), d)
      else (case dc_push_labeled (dag_directed d) node of (r, g) \<Rightarrow> (r, d\<lparr>dag_directed := g\<rparr>)))"

text \<open>\<open>let _ = g.add_node(...)\<close>: the results are discarded.\<close>

fun dag_add_statics :: "dag \<Rightarrow> variable_id list \<Rightarrow> dag" where
  "dag_add_statics d [] = d"
| "dag_add_statics d (v # vs) = dag_add_statics (snd (dag_add_node d (Static v))) vs"

definition dag_with_variables :: "nat \<Rightarrow> dag" where
  "dag_with_variables n = dag_add_statics dag_empty [0..<n]"

fun dag_add_window :: "temporal_indexer \<Rightarrow> nat list \<Rightarrow> dag \<Rightarrow> (graph_error + unit) \<times> dag" where
  "dag_add_window ti [] d = (Inr (), d)"
| "dag_add_window ti (dense # rest) d =
     (if dense \<ge> id_space then (Inl TooManyNodes, d)
      else case ti_key_of ti dense of
        Inl _ \<Rightarrow> (Inl TooManyNodes, d)
      | Inr key \<Rightarrow>
          sbind (dag_add_node d (Unfolded (tk_variable key) (tk_offset key)))
            (\<lambda>_ d'. dag_add_window ti rest d'))"

definition dag_from_unfolding :: "temporal_indexer \<Rightarrow> graph_error + dag" where
  "dag_from_unfolding ti =
     (case dag_add_window ti [0..<ti_dense_len ti] dag_empty of
        (Inl e, _) \<Rightarrow> Inl e | (Inr _, d) \<Rightarrow> Inr d)"

text \<open>The copy loop of \<open>copy_filtered\<close>: edges without a parent and child are skipped.\<close>

fun push_kept ::
  "(dense_id \<Rightarrow> dense_id \<Rightarrow> bool) \<Rightarrow> marked_edge list \<Rightarrow> directed_core \<Rightarrow> directed_core option" where
  "push_kept keep [] g = Some g"
| "push_kept keep (e # es) g =
     (case parent_child e of
        None \<Rightarrow> push_kept keep es g
      | Some (src, tgt) \<Rightarrow>
          (if keep src tgt
           then (case dc_push_unchecked g src tgt of None \<Rightarrow> None | Some g' \<Rightarrow> push_kept keep es g')
           else push_kept keep es g))"

definition dag_copy_filtered :: "dag \<Rightarrow> (dense_id \<Rightarrow> dense_id \<Rightarrow> bool) \<Rightarrow> (graph_error + dag) option" where
  "dag_copy_filtered d keep =
     (if dag_node_count d \<ge> id_space then Some (Inl TooManyNodes)
      else map_option (\<lambda>g. Inr \<lparr>dag_directed = g\<rparr>)
        (push_kept keep (dag_edges d) (dag_directed (dag_with_variables (dag_node_count d)))))"

section \<open>Insertion\<close>

definition dag_validate_node :: "dag \<Rightarrow> dense_id \<Rightarrow> graph_error + unit" where
  "dag_validate_node d i = (if i \<ge> dag_node_count d then Inl (UnknownNode i) else Inr ())"

definition lift_core :: "dag \<Rightarrow> (('e + 'a) \<times> directed_core) option \<Rightarrow> (('e + 'a) \<times> dag) option" where
  "lift_core d = map_option (\<lambda>(r, g). (r, d\<lparr>dag_directed := g\<rparr>))"

definition dag_insert_directed ::
  "dag \<Rightarrow> dense_id \<Rightarrow> dense_id \<Rightarrow> ((graph_error + unit) \<times> dag) option" where
  "dag_insert_directed d src tgt =
     (case rbind (dag_validate_node d src) (\<lambda>_. dag_validate_node d tgt) of
        Inl e \<Rightarrow> Some (Inl e, d)
      | Inr _ \<Rightarrow> lift_core d (dc_try_insert (dag_directed d) src tgt))"

definition dag_insert_directed_edges ::
  "dag \<Rightarrow> (dense_id \<times> dense_id) list \<Rightarrow> ((graph_error + unit) \<times> dag) option" where
  "dag_insert_directed_edges d edges =
     (case dc_accepts_new_edges (dag_directed d) edges of
        None \<Rightarrow> None
      | Some True \<Rightarrow>
          map_option (\<lambda>g. (Inr (), d\<lparr>dag_directed := g\<rparr>)) (dc_push_edges (dag_directed d) edges)
      | Some False \<Rightarrow> try_each (\<lambda>(src, tgt) d'. dag_insert_directed d' src tgt) edges d)"

fun dag_insert_resolved ::
  "causal_schema \<Rightarrow> (string \<times> string) list \<Rightarrow> (dense_id \<times> dense_id) list \<Rightarrow> dag \<Rightarrow>
    ((graph_error + unit) \<times> dag) option" where
  "dag_insert_resolved s [] pending d = dag_insert_directed_edges d pending"
| "dag_insert_resolved s ((from_name, to_name) # rest) pending d =
     (case resolve_named_edge s from_name to_name of
        Inr pair \<Rightarrow> dag_insert_resolved s rest (pending @ [pair]) d
      | Inl err \<Rightarrow> pbind (dag_insert_directed_edges d pending) (\<lambda>_ d'. Some (Inl err, d')))"

definition dag_insert_resolved_directed ::
  "dag \<Rightarrow> causal_schema \<Rightarrow> (string \<times> string) list \<Rightarrow> ((graph_error + unit) \<times> dag) option" where
  "dag_insert_resolved_directed d s edges = dag_insert_resolved s edges [] d"

definition dag_from_named_edges ::
  "causal_schema \<Rightarrow> (string \<times> string) list \<Rightarrow> (graph_error + dag) option" where
  "dag_from_named_edges s edges =
     (case schema_node_count s of
        Inl e \<Rightarrow> Some (Inl e)
      | Inr n \<Rightarrow>
          map_option (\<lambda>(r, d). case r of Inl e \<Rightarrow> Inl e | Inr _ \<Rightarrow> Inr d)
            (dag_insert_resolved_directed (dag_with_variables n) s edges))"

definition dag_validate :: "dag \<Rightarrow> (graph_error + unit) option" where
  "dag_validate d =
     map_option (\<lambda>ok. if ok then Inr () else Inl (Cycle 0 0))
       (is_dag (dc_parents (dag_directed d)) (dc_children (dag_directed d)))"

section \<open>Review artifact\<close>

record dag_review =
  dr_graph :: dag
  dr_pending_edges :: "(variable_id \<times> variable_id) list"
  dr_algorithm :: string

definition variable_id_of :: "dag \<Rightarrow> dense_id \<Rightarrow> variable_id option" where
  "variable_id_of d i =
     (if i < length (dag_nodes d) then (case dag_nodes d ! i of Static v \<Rightarrow> Some v | _ \<Rightarrow> None) else None)"

fun pending_pairs :: "dag \<Rightarrow> marked_edge list \<Rightarrow> (variable_id \<times> variable_id) list" where
  "pending_pairs d [] = []"
| "pending_pairs d (e # es) =
     (case parent_child e of
        None \<Rightarrow> pending_pairs d es
      | Some (src, tgt) \<Rightarrow>
          (case (variable_id_of d src, variable_id_of d tgt) of
             (Some fv, Some tv) \<Rightarrow> (fv, tv) # pending_pairs d es
           | _ \<Rightarrow> pending_pairs d es))"

definition dr_from_dag :: "dag \<Rightarrow> string \<Rightarrow> dag_review" where
  "dr_from_dag d algorithm =
     \<lparr>dr_graph = d, dr_pending_edges = pending_pairs d (dag_edges d), dr_algorithm = algorithm\<rparr>"

definition dr_accept_edge :: "dag_review \<Rightarrow> variable_id \<Rightarrow> variable_id \<Rightarrow> dag_review" where
  "dr_accept_edge r src tgt = r\<lparr>dr_pending_edges := without_pending (dr_pending_edges r) (src, tgt)\<rparr>"

definition dr_accept_all :: "dag_review \<Rightarrow> dag_review" where
  "dr_accept_all r = r\<lparr>dr_pending_edges := []\<rparr>"

definition dr_is_complete :: "dag_review \<Rightarrow> bool" where
  "dr_is_complete r \<longleftrightarrow> dr_pending_edges r = []"

definition dr_try_into_dag :: "dag_review \<Rightarrow> graph_error + dag" where
  "dr_try_into_dag r =
     (if \<not> dr_is_complete r
      then Inl (InvalidEndpoints ''cannot finish DagReview while pending edges remain'')
      else Inr (dr_graph r))"

section \<open>The invariant\<close>

definition dag_rel :: "dag \<Rightarrow> (dense_id \<times> dense_id) set" where
  "dag_rel d = dc_rel (dag_directed d)"

definition dag_inv :: "dag \<Rightarrow> bool" where
  "dag_inv d \<longleftrightarrow> dc_inv (dag_directed d) \<and> (\<forall>n \<in> set (dag_nodes d). is_static_graph_node n)"

lemma dag_inv_core [wf_simps]: "dag_inv d \<Longrightarrow> dc_inv (dag_directed d)" "dag_inv d \<Longrightarrow> dc_wf (dag_directed d)"
  by (simp_all add: dag_inv_def dc_inv_def)

lemma in_dag_children: "v \<in> set (dag_children d u) \<longleftrightarrow> (u, v) \<in> dag_rel d"
  by (simp add: dag_children_def dag_rel_def in_dc_children)

lemma in_dag_parents: "dag_inv d \<Longrightarrow> u \<in> set (dag_parents d v) \<longleftrightarrow> (u, v) \<in> dag_rel d"
  by (simp add: dag_parents_def dag_rel_def in_dc_parents wf_simps)

lemma dag_rel_bound: "dag_inv d \<Longrightarrow> (u, v) \<in> dag_rel d \<Longrightarrow> u < dag_node_count d \<and> v < dag_node_count d"
  by (simp add: dag_rel_def dag_node_count_def dc_rel_bound wf_simps)

lemma arcs_dag_children [simp]: "arcs (dag_children d) = dag_rel d"
  by (auto simp: in_dag_children)

interpretation dg: digraph dag_inv dag_node_count dag_children dag_parents
proof unfold_locales
  fix d :: dag
  assume d: "dag_inv d"
  show "u < dag_node_count d \<and> v < dag_node_count d" if "v \<in> set (dag_children d u)" for u v
    using dag_rel_bound[OF d] that by (simp add: in_dag_children)
  show "u \<in> set (dag_parents d v) \<longleftrightarrow> v \<in> set (dag_children d u)" for u v
    using in_dag_parents[OF d] by (simp add: in_dag_children)
  show "acyclic (arcs (dag_children d))"
    using d by (simp add: dag_rel_def dag_inv_def dc_inv_def)
qed

lemma dag_empty_inv: "dag_inv dag_empty"
  by (simp add: dag_inv_def dag_empty_def dag_nodes_def dc_new_def dc_new_inv[unfolded dc_new_def])

lemma dag_add_node_spec:
  assumes "dag_inv d" "dag_add_node d node = (r, d')"
  shows "dag_inv d'" "dag_rel d' = dag_rel d"
    and "is_static_graph_node node \<Longrightarrow> dag_node_count d < id_space \<Longrightarrow>
      r = Inr (dag_node_count d) \<and> dag_nodes d' = dag_nodes d @ [node]"
    and "\<not> is_static_graph_node node \<or> dag_node_count d \<ge> id_space \<Longrightarrow> d' = d \<and> (\<exists>e. r = Inl e)"
proof -
  note push = dc_push_labeled_spec[OF dag_inv_core(1)[OF assms(1)]]
  have eq: "dag_add_node d node =
     (if \<not> is_static_graph_node node
      then (Inl (InvalidEndpoints ''Dag accepts only Static or Unfolded nodes''), d)
      else if dag_node_count d < id_space
      then (Inr (dag_node_count d), d\<lparr>dag_directed :=
             dc_push_node ((dag_directed d)\<lparr>dc_nodes := dc_nodes (dag_directed d) @ [node]\<rparr>)\<rparr>)
      else (Inl TooManyNodes, d))"
    by (simp add: dag_add_node_def push(1) dag_node_count_def)
  show "is_static_graph_node node \<Longrightarrow> dag_node_count d < id_space \<Longrightarrow>
      r = Inr (dag_node_count d) \<and> dag_nodes d' = dag_nodes d @ [node]"
    using assms(2) unfolding eq by (auto simp: dag_nodes_def dc_push_node_def)
  show "\<not> is_static_graph_node node \<or> dag_node_count d \<ge> id_space \<Longrightarrow> d' = d \<and> (\<exists>e. r = Inl e)"
    using assms(2) unfolding eq by (auto split: if_splits)
  show "dag_inv d'" "dag_rel d' = dag_rel d"
    using assms push(2)[of node] unfolding dag_add_node_def
    by (auto simp: dag_inv_def dag_rel_def dag_nodes_def dc_push_labeled_def dc_push_node_def
        split: if_splits prod.splits sum.splits)
qed

section \<open>Constructors\<close>

text \<open>A graph that has only nodes: both adjacency tables are empty rows.\<close>

definition edgeless :: "node_ref list \<Rightarrow> directed_core \<Rightarrow> bool" where
  "edgeless ns g \<longleftrightarrow> dc_nodes g = ns \<and> dc_children g = replicate (length ns) [] \<and>
     dc_parents g = replicate (length ns) [] \<and> dc_insert_ws g = ws_default"

lemma edgeless_new: "edgeless [] dc_new"
  by (simp add: edgeless_def dc_new_def)

lemma edgeless_push:
  assumes "edgeless ns g"
  shows "edgeless (ns @ [n]) (dc_push_node (g\<lparr>dc_nodes := dc_nodes g @ [n]\<rparr>))"
  using assms by (simp add: edgeless_def dc_push_node_def replicate_append_same)

lemma edgeless_inv:
  assumes "edgeless ns g" "length ns \<le> id_space"
  shows "dc_inv g" "dc_rel g = {}"
  using assms
  by (auto simp: edgeless_def dc_inv_def dc_wf_def dc_rel_def rows_closed_def acyclic_def)

lemma dag_add_node_edgeless:
  assumes "edgeless ns (dag_directed d)" "is_static_graph_node n" "length ns < id_space"
  shows "\<exists>d'. dag_add_node d n = (Inr (length ns), d') \<and> edgeless (ns @ [n]) (dag_directed d')"
proof -
  have "dc_nodes (dag_directed d) = ns" using assms(1) by (simp add: edgeless_def)
  then show ?thesis using assms(2,3) edgeless_push[OF assms(1), of n]
    by (simp add: dag_add_node_def dc_push_labeled_def try_from_usize_def)
qed

lemma dag_add_statics_edgeless:
  assumes "edgeless ns (dag_directed d)" "length ns + length vs \<le> id_space"
  shows "edgeless (ns @ map Static vs) (dag_directed (dag_add_statics d vs))"
  using assms
proof (induction vs arbitrary: ns d)
  case (Cons v vs)
  have "length ns < id_space" using Cons.prems(2) by simp
  then obtain d' where "dag_add_node d (Static v) = (Inr (length ns), d')"
      "edgeless (ns @ [Static v]) (dag_directed d')"
    using dag_add_node_edgeless[OF Cons.prems(1), of "Static v"] by auto
  with Cons.IH[OF this(2)] Cons.prems(2) show ?case by simp
qed simp

lemma dag_with_variables_edgeless:
  assumes "n \<le> id_space"
  shows "edgeless (map Static [0..<n]) (dag_directed (dag_with_variables n))"
  using dag_add_statics_edgeless[of "[]" dag_empty "[0..<n]"] assms
  by (simp add: dag_with_variables_def dag_empty_def edgeless_new)

lemma dag_with_variables_spec:
  assumes "n \<le> id_space"
  shows "dag_inv (dag_with_variables n)" "dag_node_count (dag_with_variables n) = n"
    and "dag_nodes (dag_with_variables n) = map Static [0..<n]" "dag_rel (dag_with_variables n) = {}"
  using dag_with_variables_edgeless[OF assms] edgeless_inv[OF dag_with_variables_edgeless[OF assms]] assms
  by (auto simp: dag_inv_def dag_nodes_def dag_node_count_def dc_node_count_def dag_rel_def edgeless_def)

text \<open>The unfolding has one node per slot of the window, in dense order.\<close>

definition window_node :: "temporal_indexer \<Rightarrow> nat \<Rightarrow> node_ref" where
  "window_node ti dense =
     Unfolded (dense mod ti_variable_count ti) (int (dense div ti_variable_count ti) - int (ti_history ti))"

lemma dag_add_window_spec:
  assumes "indexer_inv ti" "\<forall>i < ti_dense_len ti. i32_ok (int (i div ti_variable_count ti) - int (ti_history ti))"
    and "edgeless (map (window_node ti) [0..<k]) (dag_directed d)" "k \<le> ti_dense_len ti"
  shows "\<exists>d'. dag_add_window ti [k..<ti_dense_len ti] d = (Inr (), d') \<and>
    edgeless (map (window_node ti) [0..<ti_dense_len ti]) (dag_directed d')"
  using assms(3,4)
proof (induction "ti_dense_len ti - k" arbitrary: k d)
  case (Suc m)
  then have k: "k < ti_dense_len ti" and up: "[k..<ti_dense_len ti] = k # [Suc k..<ti_dense_len ti]"
    by (simp_all add: upt_conv_Cons)
  have small: "k < id_space" using k assms(1) by (simp add: indexer_inv_def)
  let ?key = "\<lparr>tk_variable = k mod ti_variable_count ti,
      tk_offset = int (k div ti_variable_count ti) - int (ti_history ti)\<rparr>"
  have key: "ti_key_of ti k = Inr ?key" using k assms(2) by (simp add: ti_key_of_def Let_def)
  have node: "Unfolded (tk_variable ?key) (tk_offset ?key) = window_node ti k" by (simp add: window_node_def)
  obtain d' where add: "dag_add_node d (window_node ti k) = (Inr k, d')"
      "edgeless (map (window_node ti) [0..<k] @ [window_node ti k]) (dag_directed d')"
    using dag_add_node_edgeless[OF Suc.prems(1), of "window_node ti k"] small
    by (auto simp: window_node_def)
  have "edgeless (map (window_node ti) [0..<Suc k]) (dag_directed d')" using add(2) by simp
  then obtain d'' where "dag_add_window ti [Suc k..<ti_dense_len ti] d' = (Inr (), d'')"
      "edgeless (map (window_node ti) [0..<ti_dense_len ti]) (dag_directed d'')"
  proof -
    have "m = ti_dense_len ti - Suc k" using Suc.hyps(2) by simp
    from Suc.hyps(1)[OF this \<open>edgeless (map (window_node ti) [0..<Suc k]) (dag_directed d')\<close>] k
    show ?thesis using that by auto
  qed
  with small key add(1) show ?case by (simp add: up node[simplified])
qed simp

lemma dag_from_unfolding_spec:
  assumes "indexer_inv ti" "\<forall>i < ti_dense_len ti. i32_ok (int (i div ti_variable_count ti) - int (ti_history ti))"
  shows "\<exists>d. dag_from_unfolding ti = Inr d \<and> dag_inv d \<and> dag_rel d = {} \<and>
    dag_nodes d = map (window_node ti) [0..<ti_dense_len ti]"
proof -
  have "edgeless (map (window_node ti) [0..<0]) (dag_directed dag_empty)"
    by (simp add: dag_empty_def edgeless_new)
  from dag_add_window_spec[OF assms this] obtain d where
    d: "dag_add_window ti [0..<ti_dense_len ti] dag_empty = (Inr (), d)"
      "edgeless (map (window_node ti) [0..<ti_dense_len ti]) (dag_directed d)" by auto
  have "length (map (window_node ti) [0..<ti_dense_len ti]) \<le> id_space"
    using assms(1) by (simp add: indexer_inv_def)
  from edgeless_inv[OF d(2) this] d show ?thesis
    by (auto simp: dag_from_unfolding_def dag_inv_def dag_rel_def dag_nodes_def edgeless_def window_node_def)
qed

section \<open>Filtered copies\<close>

text \<open>
  The rows of a copy that keeps the edges of \<open>g\<close> satisfying \<open>keep\<close>: child rows are filtered in place,
  parent rows are rebuilt in ascending order of the parent.
\<close>

lemma push_kept_directed:
  "push_kept keep (map (\<lambda>(u, v). me_directed u v) es) g =
     dc_push_edges g (filter (\<lambda>(u, v). keep u v) es)"
proof (induction es arbitrary: g)
  case (Cons e es)
  then show ?case by (cases e) (auto split: option.splits)
qed simp

definition dc_pairs :: "directed_core \<Rightarrow> (dense_id \<times> dense_id) list" where
  "dc_pairs g = concat (map (\<lambda>i. map (Pair i) (dc_children g ! i)) [0..<length (dc_children g)])"

lemma dc_marked_edges_pairs: "dc_marked_edges g = map (\<lambda>(u, v). me_directed u v) (dc_pairs g)"
  by (simp add: dc_marked_edges_def dc_pairs_def map_concat comp_def)

lemma dc_push_edges_rows:
  assumes "dc_wf g" "fresh_edges g es" "dc_push_edges g es = Some g'" "u < dc_node_count g"
  shows "dc_children g' ! u = dc_children g ! u @ map snd (filter (\<lambda>e. fst e = u) es)"
  using assms
proof (induction es arbitrary: g)
  case (Cons e es)
  obtain s t where e: "e = (s, t)" by fastforce
  note fresh = fresh_edges_ConsD[OF Cons.prems(2)[unfolded e]]
  from dc_push_unchecked_spec[OF Cons.prems(1) fresh(1,2)] obtain g1 where
    g1: "dc_push_unchecked g s t = Some g1" "dc_nodes g1 = dc_nodes g" "dc_rel g1 = insert (s, t) (dc_rel g)"
      "dc_wf g1" "dc_children g1 = push_row (dc_children g) s t"
    using fresh(3) by blast
  have "fresh_edges g1 es" using fresh_edges_step[OF Cons.prems(2)[unfolded e] g1(2,3)] .
  moreover have "dc_push_edges g1 es = Some g'" using Cons.prems(3) g1(1) e by simp
  moreover have "dc_node_count g1 = dc_node_count g" using g1(2) by (simp add: dc_node_count_def)
  ultimately have "dc_children g' ! u = dc_children g1 ! u @ map snd (filter (\<lambda>e. fst e = u) es)"
    using Cons.IH[OF g1(4)] Cons.prems(4) by simp
  moreover have "dc_children g1 ! u = (if s = u then dc_children g ! u @ [t] else dc_children g ! u)"
    using g1(5) Cons.prems(4) dc_wfD(1)[OF Cons.prems(1)] by (simp add: push_row_def nth_list_update)
  ultimately show ?case using e by simp
qed simp

lemma filter_concat_pairs:
  assumes "u < n"
  shows "filter (\<lambda>e. fst e = u) (concat (map (\<lambda>i. map (Pair i) (f i)) [0..<n])) = map (Pair u) (f u)"
proof -
  have other: "filter (\<lambda>e. fst e = u) (concat (map (\<lambda>i. map (Pair i) (f i)) is)) = []" if "u \<notin> set is" for "is"
    using that by (induction "is") auto
  have "[0..<n] = [0..<u] @ u # [Suc u..<n]" using assms
    by (metis le_add1 less_imp_add_positive upt_add_eq_append upt_conv_Cons zero_le less_imp_le_nat le_add_diff_inverse)
  then show ?thesis using other[of "[0..<u]"] other[of "[Suc u..<n]"] by (simp add: filter_map comp_def)
qed

lemma push_kept_copy:
  assumes "dag_inv d" "dag_node_count d < id_space"
  shows "\<exists>g. push_kept keep (dag_edges d) (dag_directed (dag_with_variables (dag_node_count d))) = Some g \<and>
    dag_inv \<lparr>dag_directed = g\<rparr> \<and> dc_nodes g = map Static [0..<dag_node_count d] \<and>
    dc_rel g = {(u, v) \<in> dag_rel d. keep u v} \<and>
    (\<forall>u < dag_node_count d. dc_children g ! u = filter (keep u) (dag_children d u))"
proof -
  let ?n = "dag_node_count d" and ?core = "dag_directed d"
  let ?g0 = "dag_directed (dag_with_variables ?n)" and ?es = "filter (\<lambda>(u, v). keep u v) (dc_pairs ?core)"
  have n: "?n \<le> id_space" using assms(2) by simp
  note wv = dag_with_variables_spec[OF n]
  have wf: "dc_wf ?core" "dc_wf ?g0" using assms(1) wv(1) by (simp_all add: wf_simps)
  have count: "dc_node_count ?g0 = ?n" "dc_rel ?g0 = {}"
    using wv(2,4) by (simp_all add: dag_node_count_def dag_rel_def)
  have pairs: "set (dc_pairs ?core) = dag_rel d" "distinct (dc_pairs ?core)"
    using set_dc_pairs distinct_dc_pairs[OF wf(1)] by (simp_all add: dc_pairs_def dag_rel_def)
  have fresh: "fresh_edges ?g0 ?es"
    using pairs dag_rel_bound[OF assms(1)] by (auto simp: fresh_edges_def count)
  from dc_push_edges_spec[OF wf(2) this] obtain g where
    g: "dc_push_edges ?g0 ?es = Some g" "dc_wf g" "dc_nodes g = dc_nodes ?g0" "dc_rel g = dc_rel ?g0 \<union> set ?es"
    by blast
  have rel: "dc_rel g = {(u, v) \<in> dag_rel d. keep u v}" using g(4) count(2) pairs(1) by auto
  have "acyclic (dag_rel d)" using assms(1) by (simp add: dag_inv_def dc_inv_def dag_rel_def)
  then have "acyclic (dc_rel g)" using rel by (elim acyclic_subset) auto
  moreover have nodes: "dc_nodes g = map Static [0..<?n]" using g(3) wv(3) by (simp add: dag_nodes_def)
  ultimately have "dag_inv \<lparr>dag_directed = g\<rparr>" using g(2) by (auto simp: dag_inv_def dc_inv_def dag_nodes_def)
  moreover have "dc_children g ! u = filter (keep u) (dag_children d u)" if u: "u < ?n" for u
  proof -
    have len: "length (dc_children ?core) = ?n" using dc_wfD(1)[OF wf(1)] by (simp add: dag_node_count_def)
    have "dc_children ?g0 ! u = []"
      using dag_with_variables_edgeless[OF n] u by (simp add: edgeless_def)
    then have "dc_children g ! u = map snd (filter (\<lambda>e. fst e = u) ?es)"
      using dc_push_edges_rows[OF wf(2) fresh g(1)] u count(1) by simp
    also have "filter (\<lambda>e. fst e = u) ?es = filter (\<lambda>(u, v). keep u v) (filter (\<lambda>e. fst e = u) (dc_pairs ?core))"
      by (simp add: conj_commute)
    also have "filter (\<lambda>e. fst e = u) (dc_pairs ?core) = map (Pair u) (dc_children ?core ! u)"
      unfolding dc_pairs_def len using u by (rule filter_concat_pairs)
    finally show ?thesis using u len by (simp add: filter_map comp_def dag_children_def dc_children_of_def row_nth)
  qed
  moreover have "push_kept keep (dag_edges d) ?g0 = Some g"
    using g(1) by (simp add: dag_edges_def dc_marked_edges_pairs push_kept_directed)
  ultimately show ?thesis using rel nodes by blast
qed

lemma dag_copy_filtered_spec:
  assumes "dag_inv d" "dag_node_count d < id_space"
  shows "\<exists>c. dag_copy_filtered d keep = Some (Inr c) \<and> dag_inv c \<and>
    dag_nodes c = map Static [0..<dag_node_count d] \<and> dag_rel c = {(u, v) \<in> dag_rel d. keep u v}"
  using push_kept_copy[OF assms, of keep] assms(2)
  by (auto simp: dag_copy_filtered_def dag_nodes_def dag_rel_def)

section \<open>Insertion\<close>

lemma dag_insert_directed_cases:
  assumes "dag_inv d"
  obtains (unknown) i where "dag_insert_directed d src tgt = Some (Inl (UnknownNode i), d)"
      "i \<ge> dag_node_count d" "i = (if src \<ge> dag_node_count d then src else tgt)"
  | (duplicate) "src < dag_node_count d" "tgt < dag_node_count d" "(src, tgt) \<in> dag_rel d"
      "dag_insert_directed d src tgt = Some (Inl (DuplicateEdge src tgt), d)"
  | (cycle) d' where "src < dag_node_count d" "tgt < dag_node_count d"
      "(src, tgt) \<notin> dag_rel d" "(tgt, src) \<in> (dag_rel d)\<^sup>*"
      "dag_insert_directed d src tgt = Some (Inl (Cycle src tgt), d')" "dag_eq d' d" "dag_inv d'"
  | (inserted) d' where "src < dag_node_count d" "tgt < dag_node_count d"
      "(src, tgt) \<notin> dag_rel d" "(tgt, src) \<notin> (dag_rel d)\<^sup>*"
      "dag_insert_directed d src tgt = Some (Inr (), d')" "dag_inv d'" "dag_nodes d' = dag_nodes d"
      "dag_rel d' = insert (src, tgt) (dag_rel d)"
proof (cases "src < dag_node_count d \<and> tgt < dag_node_count d")
  case False
  then show thesis
    by (intro unknown[of "if src \<ge> dag_node_count d then src else tgt"])
      (auto simp: dag_insert_directed_def dag_validate_node_def)
next
  case True
  let ?g = "dag_directed d"
  have inv: "dc_inv ?g" using assms by (rule dag_inv_core)
  have bounds: "src < dc_node_count ?g" "tgt < dc_node_count ?g" using True by (simp_all add: dag_node_count_def)
  have run: "dag_insert_directed d src tgt = lift_core d (dc_try_insert ?g src tgt)"
    using True by (simp add: dag_insert_directed_def dag_validate_node_def)
  from inv bounds show thesis
  proof (cases rule: dc_try_insert_cases)
    case duplicate
    then show thesis using that(2) True run by (simp add: lift_core_def dag_rel_def)
  next
    case (cycle ws)
    have "dc_wf (?g\<lparr>dc_insert_ws := ws\<rparr>)"
      by (rule dc_wf_tables[of ?g]) (use cycle(3) inv in \<open>simp_all add: dc_tables_def dc_inv_def\<close>)
    then have "dag_inv (d\<lparr>dag_directed := ?g\<lparr>dc_insert_ws := ws\<rparr>\<rparr>)"
      using assms by (simp add: dag_inv_def dc_inv_def dc_rel_def dag_nodes_def)
    with cycle show thesis using that(3) True run
      by (simp add: lift_core_def dag_rel_def dag_eq_def dc_same_directed_def dc_same_edges_def)
  next
    case (inserted g')
    then have "dag_inv (d\<lparr>dag_directed := g'\<rparr>)" using assms by (simp add: dag_inv_def dag_nodes_def)
    with inserted show thesis using that(4) True run by (simp add: lift_core_def dag_rel_def dag_nodes_def)
  qed
qed

lemma dag_insert_directed_total:
  assumes "dag_inv d"
  shows "\<exists>r d'. dag_insert_directed d src tgt = Some (r, d') \<and> dag_inv d' \<and> dag_nodes d' = dag_nodes d"
proof (rule dag_insert_directed_cases[OF assms, of src tgt])
  fix d' assume "dag_insert_directed d src tgt = Some (Inl (Cycle src tgt), d')" "dag_eq d' d" "dag_inv d'"
  then show ?thesis by (simp add: dag_eq_def dc_same_directed_def dag_nodes_def)
qed (use assms in simp_all)

text \<open>Batch insertion is the one-edge loop: same result, same tables.\<close>

definition dag_insert_one_by_one ::
  "dag \<Rightarrow> (dense_id \<times> dense_id) list \<Rightarrow> ((graph_error + unit) \<times> dag) option" where
  "dag_insert_one_by_one d edges = try_each (\<lambda>(src, tgt) d'. dag_insert_directed d' src tgt) edges d"

interpretation dw: core_wrapper dag_inv dag_directed "\<lambda>d g. d\<lparr>dag_directed := g\<rparr>" "\<lambda>_ _ _. True" dag_insert_directed
  by unfold_locales
    (auto simp: dag_inv_def dag_nodes_def dag_insert_directed_def dag_validate_node_def dag_node_count_def
      lift_core_def)

lemma dag_insert_directed_edges_spec:
  assumes "dag_inv d"
  shows "\<exists>r d1 d2. dag_insert_directed_edges d es = Some (r, d1) \<and> dag_insert_one_by_one d es = Some (r, d2) \<and>
    dag_eq d1 d2 \<and> dag_inv d1"
proof -
  let ?g = "dag_directed d"
  have inv: "dc_inv ?g" "dc_wf ?g" using assms by (simp_all add: wf_simps)
  show ?thesis
  proof (cases "fresh_edges ?g es \<and> acyclic (dc_rel ?g \<union> set es)")
    case True
    then obtain g' e' where run: "dc_push_edges ?g es = Some g'" "dag_insert_one_by_one d es = Some (Inr (), e')"
        "dc_tables g' = dc_tables (dag_directed e')" "dag_inv (d\<lparr>dag_directed := g'\<rparr>)"
      using dw.batch_same[OF assms, of es] unfolding dag_insert_one_by_one_def by blast
    with True show ?thesis
      by (simp add: dag_insert_directed_edges_def dc_accepts_new_edges_spec[OF inv(1)] dag_eq_def
          dc_same_directed_tables)
  next
    case False
    have "\<exists>r d'. try_each (\<lambda>(src, tgt) d'. dag_insert_directed d' src tgt) es d = Some (r, d') \<and> dag_inv d'"
      by (rule try_each_invariant[where P = dag_inv])
        (use dag_insert_directed_total assms in \<open>auto split: prod.split, blast\<close>)
    then obtain r d' where run: "dag_insert_one_by_one d es = Some (r, d')" "dag_inv d'"
      unfolding dag_insert_one_by_one_def by blast
    have "dag_insert_directed_edges d es = dag_insert_one_by_one d es"
      using False unfolding dag_insert_directed_edges_def dc_accepts_new_edges_spec[OF inv(1)]
        dag_insert_one_by_one_def by (simp only: option.case bool.case)
    with run show ?thesis by (simp add: dag_eq_def dc_same_directed_def dc_same_edges_def)
  qed
qed

lemma dag_insert_resolved_inv:
  assumes "dag_inv d"
  shows "\<exists>r d'. dag_insert_resolved s names pending d = Some (r, d') \<and> dag_inv d'"
  using assms
proof (induction s names pending d rule: dag_insert_resolved.induct)
  case (1 s pending d)
  then show ?case using dag_insert_directed_edges_spec[of d pending] by auto
next
  case (2 s a b rest pending d)
  show ?case
  proof (cases "resolve_named_edge s a b")
    case (Inl err)
    obtain r d' where "dag_insert_directed_edges d pending = Some (r, d')" "dag_inv d'"
      using dag_insert_directed_edges_spec[OF "2.prems", of pending] by blast
    then show ?thesis using Inl by (cases r) simp_all
  next
    case (Inr pair)
    then show ?thesis using "2.IH" "2.prems" by simp
  qed
qed

lemma dag_from_named_edges_spec:
  assumes "schema_inv s"
  shows "\<exists>r. dag_from_named_edges s edges = Some r \<and> (\<forall>d. r = Inr d \<longrightarrow> dag_inv d)"
proof -
  have n: "cs_len s \<le> id_space" using assms by (simp add: schema_inv_def)
  obtain r d where "dag_insert_resolved s edges [] (dag_with_variables (cs_len s)) = Some (r, d)" "dag_inv d"
    using dag_insert_resolved_inv[OF dag_with_variables_spec(1)[OF n]] by blast
  then show ?thesis
    by (cases r) (simp_all add: dag_from_named_edges_def schema_node_count_ok[OF assms]
        dag_insert_resolved_directed_def)
qed

section \<open>Observations and review\<close>

lemma dag_topological_order_spec:
  assumes "dag_inv d"
  shows "\<exists>order. dag_topological_order d = Some (Some order) \<and>
    topological (dag_rel d) {..<dag_node_count d} order"
  using dc_topological_order_spec[OF dag_inv_core(2)[OF assms]] assms
  by (auto simp: dag_topological_order_def dag_rel_def dag_node_count_def dag_inv_def dc_inv_def)

lemma dag_validate_ok:
  assumes "dag_inv d"
  shows "dag_validate d = Some (Inr ())"
proof -
  let ?g = "dag_directed d"
  have "length (dc_parents ?g) = length (dc_children ?g)" using dc_wfD(1,2) dag_inv_core(2)[OF assms] by simp
  from is_dag_kahn_order[OF this] dag_topological_order_spec[OF assms] show ?thesis
    by (auto simp: dag_validate_def dag_topological_order_def dc_topological_order_def)
qed

lemma dag_reaches_spec:
  assumes "dag_inv d"
  shows "dag_reaches d src tgt = Some ((src, tgt) \<in> (dag_rel d)\<^sup>*)"
proof -
  obtain ws' where "dc_reaches_with (dag_directed d) src tgt ws_default =
      Some ((src, tgt) \<in> (dc_rel (dag_directed d))\<^sup>*, ws')"
    using dc_reaches_spec[OF dag_inv_core(2)[OF assms], of ws_default] ws_default_inv by blast
  then show ?thesis by (simp add: dag_reaches_def dc_reaches_def dag_rel_def)
qed

text \<open>Accepting every pending edge, one at a time and in any order, completes the review.\<close>

fun dr_accept_edges :: "dag_review \<Rightarrow> (variable_id \<times> variable_id) list \<Rightarrow> dag_review" where
  "dr_accept_edges r [] = r"
| "dr_accept_edges r ((u, v) # es) = dr_accept_edges (dr_accept_edge r u v) es"

lemma dr_accept_edges_spec:
  "dr_graph (dr_accept_edges r es) = dr_graph r"
  "dr_pending_edges (dr_accept_edges r es) = filter (\<lambda>e. e \<notin> set es) (dr_pending_edges r)"
  by (induction r es rule: dr_accept_edges.induct)
    (auto simp: dr_accept_edge_def without_pending_def intro!: filter_cong)

lemma dr_review_complete:
  "dr_try_into_dag (dr_accept_edges (dr_from_dag d alg) es) =
     (if set (dr_pending_edges (dr_from_dag d alg)) \<subseteq> set es then Inr d
      else Inl (InvalidEndpoints ''cannot finish DagReview while pending edges remain''))"
  by (auto simp: dr_try_into_dag_def dr_is_complete_def dr_accept_edges_spec filter_empty_conv
      subset_iff) (auto simp: dr_from_dag_def)

section \<open>Graphs from an ordered edge list\<close>

text \<open>
  A batch whose edges all run from a smaller to a larger id is accepted whole: the result's nodes,
  edges and invariant are known without evaluating the insertion.
\<close>

lemma acyclic_increasing: "\<forall>(s, t) \<in> E. s < t \<Longrightarrow> acyclic (E :: (nat \<times> nat) set)"
  by (rule acyclic_subset[OF wf_acyclic[OF wf_less_than]]) auto

definition dag_of_edges :: "nat \<Rightarrow> (dense_id \<times> dense_id) list \<Rightarrow> dag" where
  "dag_of_edges n es = snd (the (dag_insert_directed_edges (dag_with_variables n) es))"

lemma dag_of_edges:
  assumes "n \<le> id_space" "distinct es" "\<forall>(s, t) \<in> set es. s < t \<and> t < n"
  shows "dag_insert_directed_edges (dag_with_variables n) es = Some (Inr (), dag_of_edges n es)"
    and "dag_inv (dag_of_edges n es)" "dag_node_count (dag_of_edges n es) = n"
    and "dag_nodes (dag_of_edges n es) = map Static [0..<n]" "dag_rel (dag_of_edges n es) = set es"
proof -
  let ?d = "dag_with_variables n"
  note new = dag_with_variables_spec[OF assms(1)]
  have inv: "dc_inv (dag_directed ?d)" "dc_wf (dag_directed ?d)" using new(1) by (simp_all add: wf_simps)
  have rel: "dc_rel (dag_directed ?d) = {}" using new(4) by (simp add: dag_rel_def)
  have count: "dc_node_count (dag_directed ?d) = n" using new(2) by (simp add: dag_node_count_def)
  have fresh: "fresh_edges (dag_directed ?d) es" using assms(2,3) rel count by (auto simp: fresh_edges_def)
  have acyc: "acyclic (set es)" by (rule acyclic_increasing) (use assms(3) in auto)
  obtain g' where g': "dc_push_edges (dag_directed ?d) es = Some g'" "dc_wf g'" "dc_nodes g' = dc_nodes (dag_directed ?d)"
      "dc_rel g' = set es"
    using dc_push_edges_spec[OF inv(2) fresh] rel by auto
  have run: "dag_insert_directed_edges ?d es = Some (Inr (), ?d\<lparr>dag_directed := g'\<rparr>)"
    using g'(1) fresh acyc rel by (simp add: dag_insert_directed_edges_def dc_accepts_new_edges_spec[OF inv(1)])
  then have result: "dag_of_edges n es = ?d\<lparr>dag_directed := g'\<rparr>" by (simp add: dag_of_edges_def)
  show "dag_insert_directed_edges ?d es = Some (Inr (), dag_of_edges n es)" using run result by simp
  show "dag_inv (dag_of_edges n es)"
    using g' acyc new(1) by (simp add: result dag_inv_def dag_nodes_def dc_inv_def)
  show "dag_node_count (dag_of_edges n es) = n"
    using g'(3) count by (simp add: result dag_node_count_def dc_node_count_def)
  show "dag_nodes (dag_of_edges n es) = map Static [0..<n]" using g'(3) new(3) by (simp add: result dag_nodes_def)
  show "dag_rel (dag_of_edges n es) = set es" using g'(4) by (simp add: result dag_rel_def)
qed

text \<open>The diamond 0 -> 1 -> 3, 0 -> 2 -> 3.\<close>

definition diamond :: dag where
  "diamond = dag_of_edges 4 [(0, 1), (0, 2), (1, 3), (2, 3)]"

lemma diamond: "dag_inv diamond" "dag_node_count diamond = 4" "dag_nodes diamond = map Static [0..<4]"
    "dag_rel diamond = {(0, 1), (0, 2), (1, 3), (2, 3)}"
  using dag_of_edges(2-5)[of 4 "[(0, 1), (0, 2), (1, 3), (2, 3)]"] by (simp_all add: diamond_def id_space_def)

end
