(* ===== verification/Dag_Paths.thy ===== *)
theory Dag_Paths
  imports Dag "HOL-Library.Sublist"
begin

text \<open>
  Path enumeration of \<open>dag.rs\<close>: the ancestor mask, the longest-path pass and
  \<open>directed_paths_with_budget\<close>, the depth-first search that is pruned to ancestors of the target and
  cut off by \<open>max_paths\<close>, \<open>max_len\<close> and a visit budget.

  \<open>usize\<close> is 64 bits; the visit budget saturates there. Index and cursor errors are panics. The
  main result: the enumeration is sound, and when it does not report truncation it has found every
  directed path.
\<close>

section \<open>The ancestor mask\<close>

fun mask_scan :: "dense_id list \<Rightarrow> bool list \<Rightarrow> dense_id list \<Rightarrow> (bool list \<times> dense_id list) option" where
  "mask_scan [] seen queue = Some (seen, queue)"
| "mask_scan (p # ps) seen queue =
     (if p \<ge> length seen then None
      else if \<not> seen ! p then mask_scan ps (seen[p := True]) (p # queue)
      else mask_scan ps seen queue)"

lemma mask_scan_measure:
  "mask_scan ps seen queue = Some (seen', queue') \<Longrightarrow>
    2 * unseen seen' + length queue' \<le> 2 * unseen seen + length queue"
proof (induction ps seen queue rule: mask_scan.induct)
  case (2 p ps seen queue)
  then show ?case using unseen_update[of p seen] by (auto split: if_splits)
qed simp

function mask_loop :: "(dense_id \<Rightarrow> dense_id list) \<Rightarrow> bool list \<Rightarrow> dense_id list \<Rightarrow> bool list option" where
  "mask_loop pars seen [] = Some seen"
| "mask_loop pars seen (v # queue) =
     (case mask_scan (pars v) seen queue of
        None \<Rightarrow> None
      | Some (seen', queue') \<Rightarrow> mask_loop pars seen' queue')"
  by pat_completeness auto
termination
  by (relation "measure (\<lambda>(pars, seen, queue). 2 * unseen seen + length queue)")
    (auto dest!: mask_scan_measure)

definition dag_ancestors_mask :: "dag \<Rightarrow> dense_id \<Rightarrow> bool list option" where
  "dag_ancestors_mask d to_id = mask_loop (dag_parents d) (replicate (dag_node_count d) False) [to_id]"

lemma mask_scan_spec:
  assumes "set ps \<subseteq> {..<length seen}"
  shows "\<exists>seen' queue'. mask_scan ps seen queue = Some (seen', queue') \<and> length seen' = length seen \<and>
    seen_set seen' = seen_set seen \<union> set ps \<and> set queue' = set queue \<union> (set ps - seen_set seen)"
  using assms
proof (induction ps seen queue rule: mask_scan.induct)
  case (2 p ps seen queue)
  have p: "p < length seen" using "2.prems" by simp
  show ?case
  proof (cases "seen ! p")
    case True
    then have "p \<in> seen_set seen" using p by (simp add: seen_set_def)
    with True p "2.IH"(2) "2.prems" show ?thesis by (auto simp: not_le)
  next
    case False
    then have "p \<notin> seen_set seen" by (simp add: seen_set_def)
    moreover have "seen_set (seen[p := True]) = insert p (seen_set seen)" using p by (rule seen_set_update)
    ultimately show ?thesis using False p "2.IH"(1) "2.prems" by (fastforce simp: not_le)
  qed
qed simp

lemma seen_set_replicate [simp]: "seen_set (replicate n False) = {}"
  by (auto simp: seen_set_def)

lemma mask_loop_spec:
  assumes "length seen = n" "\<And>v p. p \<in> set (pars v) \<Longrightarrow> p < n"
    and "worklist (arcs pars) {start} (insert start (seen_set seen)) (set queue)"
  shows "\<exists>seen'. mask_loop pars seen queue = Some seen' \<and> length seen' = n \<and>
    insert start (seen_set seen') = (arcs pars)\<^sup>* `` {start}"
  using assms
proof (induction pars seen queue rule: mask_loop.induct)
  case (1 pars seen)
  then show ?case using worklist_done by fastforce
next
  case (2 pars seen v queue)
  note wl = "2.prems"(3)
  have "set (pars v) \<subseteq> {..<length seen}" using "2.prems"(1,2) by auto
  from mask_scan_spec[OF this] obtain seen' queue' where
    scan: "mask_scan (pars v) seen queue = Some (seen', queue')" "length seen' = length seen"
      "seen_set seen' = seen_set seen \<union> set (pars v)" "set queue' = set queue \<union> (set (pars v) - seen_set seen)"
    by blast
  let ?V = "insert start (seen_set seen)" and ?N = "set (pars v) - seen_set seen"
  have v: "v \<in> ?V" using wl by (auto simp: worklist_def)
  have "worklist (arcs pars) {start} (?V \<union> ?N) (set queue \<union> ?N)"
    by (rule worklist_step[OF wl _ _ v]) auto
  moreover have "?V \<union> ?N = insert start (seen_set seen')" using scan(3) by auto
  ultimately have wl': "worklist (arcs pars) {start} (insert start (seen_set seen')) (set queue')"
    using scan(4) by simp
  from "2.IH"[OF scan(1) refl _ "2.prems"(2) wl'] scan(1,2) "2.prems"(1) show ?case by simp
qed

lemma dag_ancestors_mask_spec:
  assumes "dag_inv d"
  shows "\<exists>live. dag_ancestors_mask d t = Some live \<and> length live = dag_node_count d \<and>
    (\<forall>a < dag_node_count d. a \<noteq> t \<longrightarrow> (live ! a \<longleftrightarrow> (a, t) \<in> (dag_rel d)\<^sup>*))"
proof -
  let ?n = "dag_node_count d" and ?P = "arcs (dag_parents d)"
  have conv: "?P = (dag_rel d)\<inverse>" using in_dag_parents[OF assms] by auto
  have "worklist ?P {t} (insert t (seen_set (replicate ?n False))) (set [t])"
    using worklist_init[of ?P "{t}"] by simp
  moreover have "p < ?n" if "p \<in> set (dag_parents d v)" for v p
    using that in_dag_parents[OF assms] dag_rel_bound[OF assms] by blast
  ultimately obtain live where live: "mask_loop (dag_parents d) (replicate ?n False) [t] = Some live"
      "length live = ?n" "insert t (seen_set live) = ?P\<^sup>* `` {t}"
    using mask_loop_spec[of "replicate ?n False" ?n "dag_parents d" t "[t]"] by auto
  have "live ! a \<longleftrightarrow> (a, t) \<in> (dag_rel d)\<^sup>*" if "a < ?n" "a \<noteq> t" for a
  proof -
    have "live ! a \<longleftrightarrow> a \<in> insert t (seen_set live)" using that live(2) by (simp add: seen_set_def)
    then show ?thesis unfolding live(3) conv by (simp add: rtrancl_converse)
  qed
  with live show ?thesis by (simp add: dag_ancestors_mask_def)
qed

section \<open>The longest path that avoids a node\<close>

text \<open>The three values of \<open>state\<close>: 0 unvisited, 1 on the stack, 2 finished.\<close>

type_synonym visit_state = nat

definition white :: "visit_state list \<Rightarrow> nat" where
  "white state = card {v. v < length state \<and> state ! v = 0}"

lemma white_update:
  assumes "v < length state" "state ! v = 0" "x \<noteq> 0"
  shows "white (state[v := x]) < white state"
proof -
  have "{u. u < length (state[v := x]) \<and> state[v := x] ! u = 0} \<subset> {u. u < length state \<and> state ! u = 0}"
    using assms by (auto simp: nth_list_update split: if_splits)
  then show ?thesis unfolding white_def by (intro psubset_card_mono) simp_all
qed

lemma white_finish: "v < length state \<Longrightarrow> x \<noteq> 0 \<Longrightarrow> white (state[v := x]) \<le> white state"
  unfolding white_def by (rule card_mono) (auto simp: nth_list_update split: if_splits)

definition deepest :: "dense_id \<Rightarrow> visit_state list \<Rightarrow> nat list \<Rightarrow> dense_id list \<Rightarrow> nat option" where
  "deepest avoid state best kids =
     (if \<exists>c \<in> set kids. c \<noteq> avoid \<and> (c \<ge> length state \<or> c \<ge> length best) then None
      else (let depths = map (\<lambda>c. best ! c) (filter (\<lambda>c. c \<noteq> avoid \<and> state ! c = 2) kids)
            in Some (fold max depths 0)))"

definition stack_work :: "(dense_id \<Rightarrow> dense_id list) \<Rightarrow> (dense_id \<times> nat) list \<Rightarrow> nat" where
  "stack_work kids stack = (\<Sum>(v, nx) \<leftarrow> stack. length (kids v) + 1 - nx) + length stack"

function longest_loop ::
  "(dense_id \<Rightarrow> dense_id list) \<Rightarrow> dense_id \<Rightarrow> visit_state list \<Rightarrow> nat list \<Rightarrow>
    (dense_id \<times> nat) list \<Rightarrow> nat list option" where
  "longest_loop kids avoid state best [] = Some best"
| "longest_loop kids avoid state best ((v, nx) # stack) =
     (if nx < length (kids v) then
        (let c = kids v ! nx
         in if c = avoid then longest_loop kids avoid state best ((v, nx + 1) # stack)
            else if c \<ge> length state then None
            else if state ! c = 0
            then longest_loop kids avoid (state[c := 1]) best ((c, 0) # (v, nx + 1) # stack)
            else longest_loop kids avoid state best ((v, nx + 1) # stack))
      else if v \<ge> length state \<or> v \<ge> length best then None
      else (case deepest avoid state best (kids v) of
              None \<Rightarrow> None
            | Some m \<Rightarrow> longest_loop kids avoid (state[v := 2]) (best[v := m + 1]) stack))"
  by pat_completeness auto
termination
proof (relation "measures [\<lambda>(kids, avoid, state, best, stack). white state,
    \<lambda>(kids, avoid, state, best, stack). stack_work kids stack]", goal_cases)
  case (3 kids avoid state best v nx stack c)
  then show ?case using white_update[of c state 1] by simp
next
  case (5 kids avoid state best v nx stack m)
  then show ?case using white_finish[of v state 2] by (auto simp: stack_work_def)
qed (simp_all add: stack_work_def)

declare longest_loop.simps(2) [simp del]

definition dag_longest_path_nodes_avoiding :: "dag \<Rightarrow> dense_id \<Rightarrow> dense_id \<Rightarrow> nat option" where
  "dag_longest_path_nodes_avoiding d src avoid =
     (let n = dag_node_count d
      in if src \<ge> n then None
         else map_option (\<lambda>best. best ! src)
           (longest_loop (dag_children d) avoid ((replicate n 0)[src := 1]) (replicate n 0) [(src, 0)]))"

text \<open>The number of nodes of a directed path from \<open>v\<close> that does not enter \<open>avoid\<close> after \<open>v\<close>.\<close>

inductive path_len :: "(dense_id \<Rightarrow> dense_id list) \<Rightarrow> dense_id \<Rightarrow> dense_id \<Rightarrow> nat \<Rightarrow> bool"
  for kids avoid where
  start: "path_len kids avoid v 1"
| step: "c \<in> set (kids v) \<Longrightarrow> c \<noteq> avoid \<Longrightarrow> path_len kids avoid c k \<Longrightarrow> path_len kids avoid v (Suc k)"

inductive_cases path_lenE: "path_len kids avoid v k"

definition longest :: "(dense_id \<Rightarrow> dense_id list) \<Rightarrow> dense_id \<Rightarrow> dense_id \<Rightarrow> nat \<Rightarrow> bool" where
  "longest kids avoid v m \<longleftrightarrow> path_len kids avoid v m \<and> (\<forall>k. path_len kids avoid v k \<longrightarrow> k \<le> m)"

lemma fold_max_Max: "fold max xs (0 :: nat) = Max (insert 0 (set xs))"
  using Max.set_eq_fold[of "0 :: nat" xs] by simp

lemma deepest_longest:
  assumes "\<And>c. c \<in> set ks \<Longrightarrow> c < length state \<and> c < length best" "ks = kids v"
    and "\<And>c. c \<in> set ks \<Longrightarrow> c \<noteq> avoid \<Longrightarrow> state ! c = 2 \<and> longest kids avoid c (best ! c)"
  shows "\<exists>m. deepest avoid state best ks = Some m \<and> longest kids avoid v (m + 1)"
proof -
  let ?K = "{c \<in> set ks. c \<noteq> avoid}"
  let ?m = "Max (insert 0 ((\<lambda>c. best ! c) ` ?K))"
  have "set (filter (\<lambda>c. c \<noteq> avoid \<and> state ! c = 2) ks) = ?K" using assms(3) by auto
  then have run: "deepest avoid state best ks = Some ?m"
    using assms(1) by (auto simp: deepest_def Let_def fold_max_Max not_le)
  have upper: "k \<le> ?m + 1" if "path_len kids avoid v k" for k
  proof -
    from that consider "k = 1" | c k' where "k = Suc k'" "c \<in> set (kids v)" "c \<noteq> avoid" "path_len kids avoid c k'"
      by (auto elim: path_lenE)
    then show ?thesis
    proof cases
      case (2 c k')
      then have "k' \<le> best ! c" using assms(2,3) by (simp add: longest_def)
      moreover have "best ! c \<le> ?m" using 2 assms(2) by (intro Max_ge) auto
      ultimately show ?thesis using 2(1) by simp
    qed simp
  qed
  have "?m \<in> insert 0 ((\<lambda>c. best ! c) ` ?K)" by (rule Max_in) simp_all
  then consider "?m = 0" | c where "c \<in> ?K" "?m = best ! c" by (elim insertE imageE) simp_all
  then have "path_len kids avoid v (?m + 1)"
  proof cases
    case 1
    then show ?thesis using path_len.start[of kids avoid v] by simp
  next
    case (2 c)
    then have "path_len kids avoid c ?m" using assms(3)[of c] by (simp add: longest_def)
    then show ?thesis using path_len.step[of c kids v avoid ?m] 2(1) assms(2) by simp
  qed
  with run upper show ?thesis by (auto simp: longest_def)
qed

definition lp_inv ::
  "nat \<Rightarrow> (dense_id \<Rightarrow> dense_id list) \<Rightarrow> dense_id \<Rightarrow> visit_state list \<Rightarrow> nat list \<Rightarrow>
    (dense_id \<times> nat) list \<Rightarrow> bool" where
  "lp_inv n kids avoid state best stack \<longleftrightarrow>
     length state = n \<and> length best = n \<and> distinct (map fst stack) \<and>
     set (map fst stack) = {v. v < n \<and> state ! v = 1} \<and>
     (\<forall>v < n. state ! v \<le> 2) \<and> (\<forall>v < n. state ! v = 2 \<longrightarrow> longest kids avoid v (best ! v)) \<and>
     (\<forall>(v, nx) \<in> set stack. \<forall>j < nx. j < length (kids v) \<longrightarrow> kids v ! j \<noteq> avoid \<longrightarrow> state ! (kids v ! j) \<noteq> 0) \<and>
     successively (\<lambda>u v. (v, u) \<in> arcs kids) (map fst stack)"

lemma lp_invD:
  assumes "lp_inv n kids avoid state best stack"
  shows "length state = n" "length best = n" "distinct (map fst stack)"
    and "set (map fst stack) = {v. v < n \<and> state ! v = 1}"
    and "v < n \<Longrightarrow> state ! v \<le> 2" "v < n \<Longrightarrow> state ! v = 2 \<Longrightarrow> longest kids avoid v (best ! v)"
    and "(v, nx) \<in> set stack \<Longrightarrow> j < nx \<Longrightarrow> j < length (kids v) \<Longrightarrow> kids v ! j \<noteq> avoid \<Longrightarrow>
      state ! (kids v ! j) \<noteq> 0"
    and "successively (\<lambda>u v. (v, u) \<in> arcs kids) (map fst stack)"
  using assms unfolding lp_inv_def by blast+

lemma stack_below:
  "successively (\<lambda>u v. (v, u) \<in> E) (x # xs) \<Longrightarrow> y \<in> set xs \<Longrightarrow> (y, x) \<in> E\<^sup>+"
proof (induction xs arbitrary: x)
  case (Cons z zs)
  then have "(z, x) \<in> E" by simp
  with Cons show ?case by (cases "y = z") (auto intro: trancl_into_trancl)
qed simp

lemma lp_next:
  assumes "lp_inv n kids avoid state best ((v, nx) # stack)"
    and "nx < length (kids v)" "kids v ! nx = avoid \<or> state ! (kids v ! nx) \<noteq> 0"
  shows "lp_inv n kids avoid state best ((v, nx + 1) # stack)"
  using assms unfolding lp_inv_def by (auto simp: less_Suc_eq)

lemma lp_push:
  assumes inv: "lp_inv n kids avoid state best ((v, nx) # stack)"
    and c: "nx < length (kids v)" "c = kids v ! nx" "c < n" "state ! c = 0"
  shows "lp_inv n kids avoid (state[c := 1]) best ((c, 0) # (v, nx + 1) # stack)"
proof -
  note d = lp_invD[OF inv]
  have cv: "c \<notin> set (map fst ((v, nx) # stack))" using d(4) c(4) by simp
  have st: "state[c := 1] ! u = (if u = c then 1 else state ! u)" if "u < n" for u
    using that d(1) c(3) by (simp add: nth_list_update)
  have "set (map fst ((c, 0) # (v, nx + 1) # stack)) = insert c (set (map fst ((v, nx) # stack)))" by simp
  also have "\<dots> = {u. u < n \<and> state[c := 1] ! u = 1}" unfolding d(4) using st c(3) by auto
  finally have s: "set (map fst ((c, 0) # (v, nx + 1) # stack)) = {u. u < n \<and> state[c := 1] ! u = 1}" .
  have keep: "state[c := 1] ! x \<noteq> 0" if "x = c \<or> state ! x \<noteq> 0" for x
    using that d(1) c(3) by (cases "x = c") simp_all
  have mark: "state[c := 1] ! (kids u ! j) \<noteq> 0"
    if "(u, k) \<in> set ((c, 0) # (v, nx + 1) # stack)" "j < k" "j < length (kids u)" "kids u ! j \<noteq> avoid" for u k j
  proof -
    have "(u = v \<and> j = nx) \<or> (u, k) \<in> set stack \<or> (u = v \<and> j < nx)" using that(1,2) by auto
    then consider "u = v" "j = nx" | "(u, k) \<in> set stack" | "u = v" "j < nx" by blast
    then show ?thesis
    proof cases
      case 1 then show ?thesis using c keep by simp
    next
      case 2 then show ?thesis using d(7)[of u k j] that keep by simp
    next
      case 3 then show ?thesis using d(7)[of v nx j] that keep by simp
    qed
  qed
  show ?thesis
    unfolding lp_inv_def
  proof (intro conjI allI impI)
    show "set (map fst ((c, 0) # (v, nx + 1) # stack)) = {v. v < n \<and> state[c := 1] ! v = 1}" by (rule s)
    show "\<forall>(u, k) \<in> set ((c, 0) # (v, nx + 1) # stack). \<forall>j < k. j < length (kids u) \<longrightarrow>
        kids u ! j \<noteq> avoid \<longrightarrow> state[c := 1] ! (kids u ! j) \<noteq> 0" using mark by blast
    show "state[c := 1] ! u \<le> 2" if "u < n" for u using that st d(5) by simp
    show "longest kids avoid u (best ! u)" if "u < n" "state[c := 1] ! u = 2" for u
      using that st[OF that(1)] d(6) by (simp split: if_splits)
    show "successively (\<lambda>u v. (v, u) \<in> arcs kids) (map fst ((c, 0) # (v, nx + 1) # stack))"
      using d(8) c(1,2) by simp
  qed (use d(1-3) cv in simp_all)
qed

lemma lp_pop:
  assumes inv: "lp_inv n kids avoid state best ((v, nx) # stack)" and m: "longest kids avoid v m"
  shows "lp_inv n kids avoid (state[v := 2]) (best[v := m]) stack"
proof -
  note d = lp_invD[OF inv]
  have v: "v < n" "v \<notin> set (map fst stack)" using d(3,4) by auto
  have st: "state[v := 2] ! u = (if u = v then 2 else state ! u)" if "u < n" for u
    using that d(1) v(1) by (simp add: nth_list_update)
  have keep: "state[v := 2] ! x \<noteq> 0" if "state ! x \<noteq> 0" for x
    using that d(1) v(1) by (cases "x = v") simp_all
  show ?thesis
    unfolding lp_inv_def
  proof (intro conjI allI impI)
    have "set (map fst stack) = {u. u < n \<and> state ! u = 1} - {v}" using d(4) v(2) by auto
    also have "\<dots> = {u. u < n \<and> state[v := 2] ! u = 1}" using st by (auto split: if_splits)
    finally show "set (map fst stack) = {u. u < n \<and> state[v := 2] ! u = 1}" .
    show "state[v := 2] ! u \<le> 2" if "u < n" for u using that st d(5) by simp
    show "longest kids avoid u (best[v := m] ! u)" if "u < n" "state[v := 2] ! u = 2" for u
      using that st[OF that(1)] d(2,6) m v(1) by (cases "u = v") simp_all
    show "\<forall>(u, k) \<in> set stack. \<forall>j < k. j < length (kids u) \<longrightarrow> kids u ! j \<noteq> avoid \<longrightarrow>
        state[v := 2] ! (kids u ! j) \<noteq> 0" using d(7) keep by fastforce
    show "successively (\<lambda>u v. (v, u) \<in> arcs kids) (map fst stack)"
      using d(8) by (cases stack) simp_all
  qed (use d(1-3) in simp_all)
qed

lemma longest_loop_spec:
  assumes "acyclic (arcs kids)" "\<forall>u < n. set (kids u) \<subseteq> {..<n}"
    and "lp_inv n kids avoid state best stack"
  shows "\<exists>best'. longest_loop kids avoid state best stack = Some best' \<and>
    (\<forall>v < n. state ! v \<noteq> 0 \<longrightarrow> longest kids avoid v (best' ! v))"
  using assms
proof (induction kids avoid state best stack rule: longest_loop.induct)
  case (1 kids avoid state best)
  note d = lp_invD[OF "1.prems"(3)]
  have "longest kids avoid v (best ! v)" if "v < n" "state ! v \<noteq> 0" for v
  proof -
    have "state ! v \<noteq> 1" using d(4) that(1) by auto
    then have "state ! v = 2" using d(5)[OF that(1)] that(2) by simp
    with d(6)[OF that(1)] show ?thesis .
  qed
  then show ?case by simp
next
  case (2 kids avoid state best v nx stack)
  note inv = "2.prems"(3)
  note d = lp_invD[OF inv]
  have v: "v < n" using d(4) by auto
  show ?case
  proof (cases "nx < length (kids v)")
    case True
    let ?c = "kids v ! nx"
    have "?c \<in> set (kids v)" using True by simp
    then have c: "?c < n" using "2.prems"(2) v by blast
    consider "?c = avoid" | "?c \<noteq> avoid" "state ! ?c \<noteq> 0" | "?c \<noteq> avoid" "state ! ?c = 0" by blast
    then show ?thesis
    proof cases
      case 1
      from "2.IH"(1)[OF True refl 1 "2.prems"(1,2) lp_next[OF inv True]] 1 True show ?thesis
        by (simp add: longest_loop.simps(2))
    next
      case 2
      have "\<not> length state \<le> ?c" using c d(1) by simp
      from "2.IH"(3)[OF True refl 2(1) this 2(2) "2.prems"(1,2) lp_next[OF inv True]] 2 True this
      show ?thesis by (simp add: longest_loop.simps(2))
    next
      case 3
      have "\<exists>best'. longest_loop kids avoid (state[?c := 1]) best ((?c, 0) # (v, nx + 1) # stack) = Some best' \<and>
          (\<forall>u < n. state[?c := 1] ! u \<noteq> 0 \<longrightarrow> longest kids avoid u (best' ! u))"
        by (rule "2.IH"(2)[OF True refl _ _ _ "2.prems"(1,2) lp_push[OF inv True refl c 3(2)]])
          (use 3 c d(1) in simp_all)
      moreover have "state[?c := 1] ! u \<noteq> 0" if "state ! u \<noteq> 0" for u
        using that c d(1) by (cases "u = ?c") simp_all
      ultimately show ?thesis using 3 True c d(1) by (auto simp: longest_loop.simps(2))
    qed
  next
    case False
    have "state ! c = 2 \<and> longest kids avoid c (best ! c)" if kid: "c \<in> set (kids v)" "c \<noteq> avoid" for c
    proof -
      have c: "c < n" using "2.prems"(2) v kid(1) by blast
      obtain j where j: "j < length (kids v)" "kids v ! j = c" using kid(1) by (metis in_set_conv_nth)
      then have "state ! c \<noteq> 0" using d(7)[of v nx j] False kid(2) by simp
      moreover have "state ! c \<noteq> 1"
      proof
        assume "state ! c = 1"
        then have "c \<in> set (map fst ((v, nx) # stack))" using d(4) c by simp
        then have "c = v \<or> (c, v) \<in> (arcs kids)\<^sup>+"
          using stack_below[of "arcs kids" v "map fst stack" c] d(8) by auto
        moreover have "(v, c) \<in> arcs kids" using kid(1) by simp
        ultimately have "(v, v) \<in> (arcs kids)\<^sup>+" by (auto intro: trancl_into_trancl2)
        with "2.prems"(1) show False by (simp add: acyclic_def)
      qed
      ultimately have "state ! c = 2" using d(5)[OF c] by simp
      with d(6)[OF c] show ?thesis by simp
    qed
    moreover have "c < length state \<and> c < length best" if "c \<in> set (kids v)" for c
      using "2.prems"(2) v that d(1,2) by auto
    ultimately obtain m where m: "deepest avoid state best (kids v) = Some m" "longest kids avoid v (m + 1)"
      using deepest_longest[of "kids v" state best kids v avoid] by blast
    have ok: "\<not> (v \<ge> length state \<or> v \<ge> length best)" using v d(1,2) by simp
    have "\<exists>best'. longest_loop kids avoid (state[v := 2]) (best[v := m + 1]) stack = Some best' \<and>
        (\<forall>u < n. state[v := 2] ! u \<noteq> 0 \<longrightarrow> longest kids avoid u (best' ! u))"
      by (rule "2.IH"(4)[OF False ok m(1) "2.prems"(1,2) lp_pop[OF inv m(2)]])
    moreover have "state[v := 2] ! u \<noteq> 0" if "state ! u \<noteq> 0" for u
      using that v d(1) by (cases "u = v") simp_all
    ultimately show ?thesis using False ok m(1) by (auto simp: longest_loop.simps(2))
  qed
qed

lemma dag_longest_path_spec:
  assumes "dag_inv d" "src < dag_node_count d"
  shows "\<exists>m. dag_longest_path_nodes_avoiding d src avoid = Some m \<and> longest (dag_children d) avoid src m"
proof -
  let ?n = "dag_node_count d"
  let ?state = "(replicate ?n 0)[src := 1] :: nat list" and ?kids = "dag_children d"
  have "?state ! v = (if v = src then Suc 0 else 0)" if "v < ?n" for v using that assms(2) by (simp add: nth_list_update)
  then have start: "lp_inv ?n ?kids avoid ?state (replicate ?n 0) [(src, 0)]"
    using assms(2) unfolding lp_inv_def by (auto split: if_splits)
  have closed: "\<forall>u < ?n. set (?kids u) \<subseteq> {..<?n}" using dg.kid_range[OF assms(1)] by blast
  from longest_loop_spec[OF dg.no_cycle[OF assms(1)] closed start] obtain best where
    "longest_loop ?kids avoid ?state (replicate ?n 0) [(src, 0)] = Some best"
    and best: "\<forall>v < ?n. ?state ! v \<noteq> 0 \<longrightarrow> longest ?kids avoid v (best ! v)"
    by (elim exE conjE) (rule that)
  moreover have "?state ! src \<noteq> 0" using assms(2) by simp
  ultimately show ?thesis using assms(2) by (simp add: dag_longest_path_nodes_avoiding_def)
qed

section \<open>Enumeration with a budget\<close>

text \<open>
  The depth-first loop. \<open>path\<close> and \<open>cursor\<close> are stacks, deepest node first; \<open>cursor\<close> holds how many
  children of the path node are still to be tried. A visit is counted when a node is pushed.
\<close>

function paths_loop ::
  "(dense_id \<Rightarrow> dense_id list) \<Rightarrow> bool list \<Rightarrow> dense_id \<Rightarrow> nat \<Rightarrow> nat \<Rightarrow> nat \<Rightarrow> bool \<Rightarrow>
    dense_id list \<Rightarrow> nat list \<Rightarrow> bool list \<Rightarrow> dense_id list list \<Rightarrow> nat \<Rightarrow>
    (dense_id list list \<times> bool) option" where
  "paths_loop kids live tgt max_paths max_len budget truncated [] cursor on_path out visits =
     Some (out, truncated)"
| "paths_loop kids live tgt max_paths max_len budget truncated (v # path) [] on_path out visits = None"
| "paths_loop kids live tgt max_paths max_len budget truncated (v # path) (0 # cursor) on_path out visits =
     (if v \<ge> length on_path then None
      else paths_loop kids live tgt max_paths max_len budget truncated path cursor
             (on_path[v := False]) out visits)"
| "paths_loop kids live tgt max_paths max_len budget truncated (v # path) (Suc k # cursor) on_path out visits =
     (if k \<ge> length (kids v) then None
      else (let c = kids v ! k
            in if length out \<ge> max_paths then Some (out, True)
               else if c \<ge> length on_path then None
               else if on_path ! c
               then paths_loop kids live tgt max_paths max_len budget truncated (v # path) (k # cursor)
                      on_path out visits
               else if c = tgt
               then paths_loop kids live tgt max_paths max_len budget truncated (v # path) (k # cursor)
                      on_path (out @ [rev (c # v # path)]) visits
               else if c \<ge> length live then None
               else if \<not> live ! c \<or> length (v # path) + 1 \<ge> max_len
               then paths_loop kids live tgt max_paths max_len budget truncated (v # path) (k # cursor)
                      on_path out visits
               else if visits + 1 > budget then Some (out, True)
               else paths_loop kids live tgt max_paths max_len budget truncated (c # v # path)
                      (length (kids c) # k # cursor) (on_path[c := True]) out (visits + 1)))"
  by pat_completeness auto
termination
  by (relation "measures [\<lambda>(kids, live, tgt, mp, ml, budget, tr, path, cursor, on, out, visits). budget - visits,
      \<lambda>(kids, live, tgt, mp, ml, budget, tr, path, cursor, on, out, visits). sum_list cursor + length path]") auto

declare paths_loop.simps(4) [simp del]

definition dag_directed_paths_with_budget ::
  "dag \<Rightarrow> dense_id \<Rightarrow> dense_id \<Rightarrow> nat \<Rightarrow> nat \<Rightarrow> (graph_error + dense_id list list \<times> bool) option" where
  "dag_directed_paths_with_budget d src tgt max_paths max_len =
     (case rbind (dag_validate_node d src) (\<lambda>_. dag_validate_node d tgt) of
        Inl e \<Rightarrow> Some (Inl e)
      | Inr _ \<Rightarrow>
          (if max_paths = 0 \<or> max_len = 0 then Some (Inr ([], True))
           else if src = tgt then Some (Inr ([[src]], False))
           else if max_len = 1 then Some (Inr ([], True))
           else (case (dag_ancestors_mask d tgt, dag_longest_path_nodes_avoiding d src tgt) of
                   (Some live, Some longest_nodes) \<Rightarrow>
                     map_option Inr
                       (paths_loop (dag_children d) live tgt max_paths max_len
                          (saturating_mul (saturating_mul max_paths max_len) 16)
                          (longest_nodes \<ge> max_len) [src] [length (dag_children d src)]
                          ((replicate (dag_node_count d) False)[src := True]) [] 0)
                 | _ \<Rightarrow> None)))"

definition dag_directed_paths ::
  "dag \<Rightarrow> dense_id \<Rightarrow> dense_id \<Rightarrow> nat \<Rightarrow> nat \<Rightarrow> (graph_error + dense_id list list) option" where
  "dag_directed_paths d src tgt max_paths max_len =
     map_option (\<lambda>r. rbind r (\<lambda>(paths, _). Inr paths))
       (dag_directed_paths_with_budget d src tgt max_paths max_len)"

text \<open>What the search is to find: the simple directed paths between two nodes.\<close>

definition simple_paths :: "('a \<times> 'a) set \<Rightarrow> 'a \<Rightarrow> 'a \<Rightarrow> 'a list set" where
  "simple_paths E s t =
     {p. p \<noteq> [] \<and> hd p = s \<and> last p = t \<and> distinct p \<and> successively (\<lambda>u v. (u, v) \<in> E) p}"

definition extends :: "('a \<times> 'a) set \<Rightarrow> 'a \<Rightarrow> 'a \<Rightarrow> 'a list \<Rightarrow> 'a list set" where
  "extends E s t q = {p \<in> simple_paths E s t. prefix q p}"

fun pending :: "(dense_id \<times> dense_id) set \<Rightarrow> (dense_id \<Rightarrow> dense_id list) \<Rightarrow> dense_id \<Rightarrow> dense_id \<Rightarrow>
    dense_id list \<Rightarrow> nat list \<Rightarrow> dense_id list set" where
  "pending E kids s t (v # path) (k # cursor) =
     (\<Union>j < k. extends E s t (rev (v # path) @ [kids v ! j])) \<union> pending E kids s t path cursor"
| "pending E kids s t _ _ = {}"

text \<open>The stacks agree: each node above the bottom is the child its parent's cursor points at.\<close>

fun stacks_ok :: "(dense_id \<Rightarrow> dense_id list) \<Rightarrow> dense_id list \<Rightarrow> nat list \<Rightarrow> bool" where
  "stacks_ok kids [] [] = True"
| "stacks_ok kids [v] [k] = (k \<le> length (kids v))"
| "stacks_ok kids (v # u # path) (k # j # cursor) =
     (k \<le> length (kids v) \<and> j < length (kids u) \<and> kids u ! j = v \<and> stacks_ok kids (u # path) (j # cursor))"
| "stacks_ok kids _ _ = False"

definition pl_inv ::
  "nat \<Rightarrow> (dense_id \<Rightarrow> dense_id list) \<Rightarrow> dense_id \<Rightarrow> dense_id \<Rightarrow> nat \<Rightarrow> nat \<Rightarrow> dense_id list \<Rightarrow> nat list \<Rightarrow>
    bool list \<Rightarrow> dense_id list list \<Rightarrow> bool" where
  "pl_inv n kids s t max_paths max_len path cursor on_path out \<longleftrightarrow>
     stacks_ok kids path cursor \<and> distinct path \<and> t \<notin> set path \<and> length on_path = n \<and>
     set path = {v. v < n \<and> on_path ! v} \<and> (path \<noteq> [] \<longrightarrow> last path = s \<and> length path < max_len) \<and>
     distinct out \<and> set out \<subseteq> simple_paths (arcs kids) s t \<and>
     (\<forall>p \<in> set out. length p \<le> max_len) \<and> length out \<le> max_paths \<and>
     set out \<inter> pending (arcs kids) kids s t path cursor = {} \<and>
     {p \<in> simple_paths (arcs kids) s t. length p \<le> max_len} \<subseteq>
       set out \<union> pending (arcs kids) kids s t path cursor"

lemma simple_pathsD:
  assumes "p \<in> simple_paths E s t"
  shows "p \<noteq> []" "hd p = s" "last p = t" "distinct p" "successively (\<lambda>u v. (u, v) \<in> E) p"
  using assms by (simp_all add: simple_paths_def)

lemma prefix_snocD: "prefix (q @ [a]) p \<Longrightarrow> prefix (q @ [b]) p \<Longrightarrow> a = b"
  by (auto simp: prefix_def)

lemma stacks_chain:
  "stacks_ok kids path cursor \<Longrightarrow> successively (\<lambda>u v. (u, v) \<in> arcs kids) (rev path)"
proof (induction kids path cursor rule: stacks_ok.induct)
  case (3 kids v u path k j cursor)
  then have "(u, v) \<in> arcs kids" by auto
  with 3 show ?case by (simp add: successively_append_iff)
qed simp_all

lemma stacks_length: "stacks_ok kids path cursor \<Longrightarrow> length cursor = length path"
  by (induction kids path cursor rule: stacks_ok.induct) simp_all

lemma stacks_pop: "stacks_ok kids (v # path) (k # cursor) \<Longrightarrow> stacks_ok kids path cursor"
  by (cases path; cases cursor) auto

lemma stacks_dec: "stacks_ok kids (v # path) (Suc k # cursor) \<Longrightarrow> stacks_ok kids (v # path) (k # cursor)"
  by (cases path; cases cursor) auto

lemma stacks_top: "stacks_ok kids (v # path) (k # cursor) \<Longrightarrow> k \<le> length (kids v)"
  by (cases path; cases cursor) auto

lemma stacks_push:
  assumes "stacks_ok kids (v # path) (Suc k # cursor)"
  shows "stacks_ok kids (kids v ! k # v # path) (length (kids (kids v ! k)) # k # cursor)"
  using stacks_dec[OF assms] stacks_top[OF assms] by simp

lemma pending_above:
  assumes "stacks_ok kids (v # path) (k # cursor)" "\<forall>u. distinct (kids u)" "prefix (rev (v # path)) p"
  shows "p \<notin> pending E kids s t path cursor"
  using assms
proof (induction path arbitrary: v k cursor)
  case (Cons u path)
  obtain j cursor' where c: "cursor = j # cursor'" using stacks_length[OF Cons.prems(1)] by (cases cursor) auto
  have u: "j < length (kids u)" "kids u ! j = v" "stacks_ok kids (u # path) (j # cursor')"
    using Cons.prems(1) c by auto
  have pre: "prefix (rev (u # path) @ [v]) p" using Cons.prems(3) by simp
  then have "prefix (rev (u # path)) p" by (rule append_prefixD)
  then have "p \<notin> pending E kids s t path cursor'" by (rule Cons.IH[OF u(3) Cons.prems(2)])
  moreover have "p \<notin> extends E s t (rev (u # path) @ [kids u ! i])" if "i < j" for i
  proof
    assume "p \<in> extends E s t (rev (u # path) @ [kids u ! i])"
    then have "prefix (rev (u # path) @ [kids u ! i]) p" by (simp add: extends_def)
    then have "kids u ! i = v" using pre by (rule prefix_snocD)
    then have "i = j" using Cons.prems(2) u(1,2) that nth_eq_iff_index_eq[of "kids u" i j] by simp
    with that show False by simp
  qed
  ultimately show ?case by (simp add: c)
qed simp

lemma pending_split:
  "pending E kids s t (v # path) (Suc k # cursor) =
    extends E s t (rev (v # path) @ [kids v ! k]) \<union> pending E kids s t (v # path) (k # cursor)"
  by (auto simp: less_Suc_eq)

lemma pending_disjoint:
  assumes "stacks_ok kids (v # path) (Suc k # cursor)" "\<forall>u. distinct (kids u)"
  shows "extends E s t (rev (v # path) @ [kids v ! k]) \<inter> pending E kids s t (v # path) (k # cursor) = {}"
proof -
  have False if p: "p \<in> extends E s t (rev (v # path) @ [kids v ! k])"
    "p \<in> pending E kids s t (v # path) (k # cursor)" for p
  proof -
    have pre: "prefix (rev (v # path) @ [kids v ! k]) p" using p(1) by (simp add: extends_def)
    then have "p \<notin> pending E kids s t path cursor"
      using pending_above[OF assms append_prefixD[OF pre]] by simp
    then obtain j where j: "j < k" "prefix (rev (v # path) @ [kids v ! j]) p"
      using p(2) by (auto simp: extends_def)
    have "kids v ! j = kids v ! k" using j(2) pre by (rule prefix_snocD)
    moreover have "k < length (kids v)" using stacks_top[OF assms(1)] by simp
    ultimately show False using assms(2) j(1) nth_eq_iff_index_eq[of "kids v" j k] by simp
  qed
  then show ?thesis by blast
qed

lemma successively_reach:
  "successively (\<lambda>u v. (u, v) \<in> E) (xs @ c # ys) \<Longrightarrow> (c, last (c # ys)) \<in> E\<^sup>*"
proof (induction ys arbitrary: xs c)
  case (Cons y ys)
  then have "(c, y) \<in> E" by (simp add: successively_append_iff)
  moreover have "(y, last (y # ys)) \<in> E\<^sup>*" using Cons.IH[of "xs @ [c]" y] Cons.prems by simp
  ultimately show ?case by (simp add: converse_rtrancl_into_rtrancl)
qed simp

lemma extends_dead:
  assumes "c \<in> set path \<or> c \<noteq> t \<and> (c, t) \<notin> E\<^sup>* \<or> c \<noteq> t \<and> length path + 1 \<ge> m"
  shows "extends E s t (rev path @ [c]) \<inter> {p. length p \<le> m} = {}"
proof -
  have False if p: "p \<in> extends E s t (rev path @ [c])" "length p \<le> m" for p
  proof -
    obtain r where r: "p = rev path @ c # r" using p(1) by (auto simp: extends_def prefix_def)
    have sp: "distinct p" "last p = t" "successively (\<lambda>u v. (u, v) \<in> E) p"
      using p(1) simple_pathsD(3-5)[of p E s t] unfolding extends_def by blast+
    have "(c, t) \<in> E\<^sup>*" using successively_reach[of E "rev path" c r] sp(2,3) r by simp
    moreover have "c \<notin> set path" using sp(1) r by simp
    ultimately have "c \<noteq> t" "length path + 1 \<ge> m" using assms by auto
    moreover have "r \<noteq> []" using \<open>c \<noteq> t\<close> sp(2) r by auto
    ultimately show False using p(2) r by (cases r) simp_all
  qed
  then show ?thesis by blast
qed

lemma extends_target:
  assumes "successively (\<lambda>u v. (u, v) \<in> E) (rev (t # path))" "distinct path" "t \<notin> set path" "path \<noteq> []" "last path = s"
  shows "extends E s t (rev path @ [t]) = {rev (t # path)}"
proof -
  have "rev (t # path) \<in> simple_paths E s t"
    using assms by (simp add: simple_paths_def hd_append hd_rev)
  moreover have "p = rev (t # path)" if "p \<in> extends E s t (rev path @ [t])" for p
  proof -
    note p = that
    obtain r where r: "p = rev path @ t # r" using p by (auto simp: extends_def prefix_def)
    have "distinct p" "last p = t" using p simple_pathsD(3,4)[of p E s t] by (simp_all add: extends_def)
    then have "r = []" using r by (cases r rule: rev_cases) auto
    with r show ?thesis by simp
  qed
  ultimately show ?thesis by (auto simp: extends_def)
qed

lemma extends_further:
  assumes "c \<noteq> t"
  shows "extends (arcs kids) s t (rev path @ [c]) =
    (\<Union>j < length (kids c). extends (arcs kids) s t (rev (c # path) @ [kids c ! j]))"
proof
  show "extends (arcs kids) s t (rev path @ [c]) \<subseteq>
      (\<Union>j < length (kids c). extends (arcs kids) s t (rev (c # path) @ [kids c ! j]))"
  proof
    fix p assume p: "p \<in> extends (arcs kids) s t (rev path @ [c])"
    then obtain r where r: "p = rev path @ c # r" by (auto simp: extends_def prefix_def)
    have sp: "last p = t" "successively (\<lambda>u v. (u, v) \<in> arcs kids) p"
      using p simple_pathsD(3,5)[of p "arcs kids" s t] unfolding extends_def by blast+
    then obtain x r' where "r = x # r'" using r assms by (cases r) auto
    moreover have "x \<in> set (kids c)" using sp(2) r calculation by (simp add: successively_append_iff)
    ultimately show "p \<in> (\<Union>j < length (kids c). extends (arcs kids) s t (rev (c # path) @ [kids c ! j]))"
      using p r by (auto simp: in_set_conv_nth extends_def prefix_def)
  qed
qed (auto simp: extends_def prefix_def)

lemma pl_invD:
  assumes "pl_inv n kids s t mp ml path cursor on_path out"
  shows "stacks_ok kids path cursor" "distinct path" "t \<notin> set path" "length on_path = n"
    and "set path = {v. v < n \<and> on_path ! v}" "path \<noteq> [] \<Longrightarrow> last path = s \<and> length path < ml"
    and "distinct out" "set out \<subseteq> simple_paths (arcs kids) s t" "\<forall>p \<in> set out. length p \<le> ml"
    and "length out \<le> mp" "set out \<inter> pending (arcs kids) kids s t path cursor = {}"
    and "{p \<in> simple_paths (arcs kids) s t. length p \<le> ml} \<subseteq>
      set out \<union> pending (arcs kids) kids s t path cursor"
  using assms unfolding pl_inv_def by blast+

lemma pl_top:
  assumes "pl_inv n kids s t mp ml (v # path) cursor on_path out"
  shows "v < n"
proof -
  have "v \<in> set (v # path)" by simp
  then show ?thesis unfolding pl_invD(5)[OF assms] by simp
qed

lemma pl_pop:
  assumes "pl_inv n kids s t mp ml (v # path) (0 # cursor) on_path out"
  shows "pl_inv n kids s t mp ml path cursor (on_path[v := False]) out"
proof -
  note d = pl_invD[OF assms]
  have v: "v < n" "v \<notin> set path" using d(2,5) by auto
  have upd: "on_path[v := False] ! u \<longleftrightarrow> u \<noteq> v \<and> on_path ! u" if "u < n" for u
    using that d(4) v(1) by (cases "u = v") simp_all
  have "set path = set (v # path) - {v}" using v(2) by auto
  also have "\<dots> = {u. u < n \<and> on_path[v := False] ! u}" unfolding d(5) using upd by auto
  finally have "set path = {u. u < n \<and> on_path[v := False] ! u}" .
  moreover have "path \<noteq> [] \<longrightarrow> last path = s \<and> length path < ml" using d(6) by auto
  moreover have "pending (arcs kids) kids s t (v # path) (0 # cursor) = pending (arcs kids) kids s t path cursor"
    by simp
  moreover have "distinct path" "t \<notin> set path" "length (on_path[v := False]) = n" using d(2-4) by simp_all
  ultimately show ?thesis
    using d(7-12) stacks_pop[OF d(1)] unfolding pl_inv_def by metis
qed

lemma pl_skip:
  assumes inv: "pl_inv n kids s t mp ml (v # path) (Suc k # cursor) on_path out"
    and dead: "extends (arcs kids) s t (rev (v # path) @ [kids v ! k]) \<inter> {p. length p \<le> ml} = {}"
  shows "pl_inv n kids s t mp ml (v # path) (k # cursor) on_path out"
proof -
  note d = pl_invD[OF inv] note sp = pending_split[of "arcs kids" kids s t v path k cursor]
  have "set out \<inter> pending (arcs kids) kids s t (v # path) (k # cursor) = {}" using d(11) unfolding sp by blast
  moreover have "{p \<in> simple_paths (arcs kids) s t. length p \<le> ml} \<subseteq>
      set out \<union> pending (arcs kids) kids s t (v # path) (k # cursor)"
    using d(12) dead unfolding sp by blast
  ultimately show ?thesis
    using d(2-10) stacks_dec[OF d(1)] unfolding pl_inv_def by blast
qed

lemma pl_emit:
  assumes inv: "pl_inv n kids s t mp ml (v # path) (Suc k # cursor) on_path out"
    and t: "kids v ! k = t" "length out < mp" and dk: "\<forall>u. distinct (kids u)"
  shows "pl_inv n kids s t mp ml (v # path) (k # cursor) on_path (out @ [rev (t # v # path)])"
proof -
  let ?P = "pending (arcs kids) kids s t"
  note d = pl_invD[OF inv] note sp = pending_split[of "arcs kids" kids s t v path k cursor]
  let ?q = "rev (t # v # path)"
  have top: "k < length (kids v)" using stacks_top[OF d(1)] by simp
  then have arc: "(v, t) \<in> arcs kids" using t(1) nth_mem by fastforce
  have "successively (\<lambda>u v. (u, v) \<in> arcs kids) ?q"
    using stacks_chain[OF d(1)] arc by (simp add: successively_append_iff)
  then have ext: "extends (arcs kids) s t (rev (v # path) @ [kids v ! k]) = {?q}"
    using extends_target[of "arcs kids" t "v # path" s] d(2,3,6) t(1) by simp
  then have q: "?q \<in> simple_paths (arcs kids) s t" by (auto simp: extends_def)
  have "?q \<in> ?P (v # path) (Suc k # cursor)" unfolding sp ext by simp
  then have fresh: "?q \<notin> set out" using d(11) by blast
  have "?q \<notin> ?P (v # path) (k # cursor)" using pending_disjoint[OF d(1) dk, of "arcs kids" s t] ext by auto
  then have dis: "set (out @ [?q]) \<inter> ?P (v # path) (k # cursor) = {}" using d(11) unfolding sp by auto
  have all: "{p \<in> simple_paths (arcs kids) s t. length p \<le> ml} \<subseteq> set (out @ [?q]) \<union> ?P (v # path) (k # cursor)"
    using d(12) unfolding sp ext by auto
  have "length ?q \<le> ml" using d(6) by simp
  then have out: "\<forall>p \<in> set (out @ [?q]). length p \<le> ml" "distinct (out @ [?q])"
      "set (out @ [?q]) \<subseteq> simple_paths (arcs kids) s t" "length (out @ [?q]) \<le> mp"
    using d(7-9) fresh q t(2) by auto
  show ?thesis
    unfolding pl_inv_def using stacks_dec[OF d(1)] d(2-6) out dis all by blast
qed

lemma pl_push:
  assumes inv: "pl_inv n kids s t mp ml (v # path) (Suc k # cursor) on_path out"
    and c: "c = kids v ! k" "c < n" "\<not> on_path ! c" "c \<noteq> t" "length (v # path) + 1 < ml"
    and dk: "\<forall>u. distinct (kids u)"
  shows "pl_inv n kids s t mp ml (c # v # path) (length (kids c) # k # cursor) (on_path[c := True]) out"
proof -
  let ?P = "pending (arcs kids) kids s t"
  note d = pl_invD[OF inv] note sp = pending_split[of "arcs kids" kids s t v path k cursor]
  have new: "c \<notin> set (v # path)" using c(3) unfolding d(5) by simp
  have "set (c # v # path) = insert c (set (v # path))" by simp
  also have "\<dots> = {u. u < n \<and> on_path[c := True] ! u}"
  proof -
    have "on_path[c := True] ! u \<longleftrightarrow> u = c \<or> on_path ! u" if "u < n" for u
      using that d(4) c(2) by (cases "u = c") simp_all
    then show ?thesis unfolding d(5) using c(2) by auto
  qed
  finally have on: "set (c # v # path) = {u. u < n \<and> on_path[c := True] ! u}" .
  have "?P (c # v # path) (length (kids c) # k # cursor) = ?P (v # path) (Suc k # cursor)"
    unfolding sp c(1)[symmetric] extends_further[OF c(4)] by simp
  moreover have "distinct (c # v # path)" "t \<notin> set (c # v # path)" "length (on_path[c := True]) = n"
      "last (c # v # path) = s \<and> length (c # v # path) < ml"
    using d(2-4,6) c(4,5) new by auto
  moreover have "stacks_ok kids (c # v # path) (length (kids c) # k # cursor)"
    using stacks_push[OF d(1)] c(1) by simp
  ultimately show ?thesis
    using d(7-12) on unfolding pl_inv_def by metis
qed

lemma paths_loop_spec:
  assumes "\<forall>u < n. set (kids u) \<subseteq> {..<n}" "\<forall>u. distinct (kids u)"
    and "length live = n" "\<forall>a < n. a \<noteq> t \<longrightarrow> (live ! a \<longleftrightarrow> (a, t) \<in> (arcs kids)\<^sup>*)"
    and "pl_inv n kids s t mp ml path cursor on_path out"
  shows "\<exists>out' tr'. paths_loop kids live t mp ml budget tr path cursor on_path out visits = Some (out', tr') \<and>
    distinct out' \<and> set out' \<subseteq> simple_paths (arcs kids) s t \<and> (\<forall>p \<in> set out'. length p \<le> ml) \<and>
    length out' \<le> mp \<and>
    (\<not> tr' \<longrightarrow> \<not> tr \<and> {p \<in> simple_paths (arcs kids) s t. length p \<le> ml} \<subseteq> set out')"
  using assms
proof (induction kids live t mp ml budget tr path cursor on_path out visits rule: paths_loop.induct)
  case (1 kids live tgt max_paths max_len budget truncated cursor on_path out visits)
  then show ?case unfolding pl_inv_def by auto
next
  case (2 kids live tgt max_paths max_len budget truncated v path on_path out visits)
  show ?case using stacks_length[OF pl_invD(1)[OF "2.prems"(5)]] by simp
next
  case (3 kids live tgt max_paths max_len budget truncated v path cursor on_path out visits)
  note d = pl_invD[OF "3.prems"(5)]
  have v: "\<not> v \<ge> length on_path" using d(4) pl_top[OF "3.prems"(5)] by simp
  from "3.IH"[OF v "3.prems"(1-4) pl_pop[OF "3.prems"(5)]] v show ?case by simp
next
  case (4 kids live tgt max_paths max_len budget truncated v path k cursor on_path out visits)
  note inv = "4.prems"(5)
  note d = pl_invD[OF inv]
  note IH = "4.IH" and run = paths_loop.simps(4) and pre = "4.prems"(1-4)
  let ?c = "kids v ! k" and ?E = "arcs kids"
  have v: "v < n" by (rule pl_top[OF inv])
  have k: "\<not> k \<ge> length (kids v)" using stacks_top[OF d(1)] by simp
  then have "?c \<in> set (kids v)" by simp
  then have c: "?c < n" using "4.prems"(1) v by blast
  have on: "\<not> ?c \<ge> length on_path" and lv: "\<not> ?c \<ge> length live" using c d(4) "4.prems"(3) by simp_all
  show ?case
  proof (cases "length out \<ge> max_paths")
    case True
    then show ?thesis using k d(7-10) by (intro exI[of _ out] exI[of _ True]) (simp add: run)
  next
    case room: False
    consider (again) "on_path ! ?c" | (target) "\<not> on_path ! ?c" "?c = tgt"
      | (cut) "\<not> on_path ! ?c" "?c \<noteq> tgt" "\<not> live ! ?c \<or> length (v # path) + 1 \<ge> max_len"
      | (budget) "\<not> on_path ! ?c" "?c \<noteq> tgt" "\<not> (\<not> live ! ?c \<or> length (v # path) + 1 \<ge> max_len)"
          "visits + 1 > budget"
      | (deeper) "\<not> on_path ! ?c" "?c \<noteq> tgt" "\<not> (\<not> live ! ?c \<or> length (v # path) + 1 \<ge> max_len)"
          "\<not> visits + 1 > budget" by blast
    then show ?thesis
    proof cases
      case again
      then have "?c \<in> set (v # path)" using c unfolding d(5) by simp
      then have "pl_inv n kids s tgt max_paths max_len (v # path) (k # cursor) on_path out"
        by (intro pl_skip[OF inv] extends_dead) blast
      from IH(1)[OF k refl room on again pre this] show ?thesis using again k room on by (simp add: run)
    next
      case target
      have "pl_inv n kids s tgt max_paths max_len (v # path) (k # cursor) on_path (out @ [rev (?c # v # path)])"
        using pl_emit[OF inv target(2) _ "4.prems"(2)] room target(2) by simp
      from IH(2)[OF k refl room on target pre this] show ?thesis using target k room on by (simp add: run)
    next
      case cut
      then have "?c \<noteq> tgt \<and> (?c, tgt) \<notin> ?E\<^sup>* \<or> ?c \<noteq> tgt \<and> length (v # path) + 1 \<ge> max_len"
        using "4.prems"(4) c by blast
      then have "pl_inv n kids s tgt max_paths max_len (v # path) (k # cursor) on_path out"
        by (intro pl_skip[OF inv] extends_dead) blast
      from IH(3)[OF k refl room on cut(1,2) lv cut(3) pre this] show ?thesis
        using cut k room on lv by (auto simp: run)
    next
      case budget
      then show ?thesis using k room on lv d(7-10)
        by (intro exI[of _ out] exI[of _ True]) (auto simp: run)
    next
      case deeper
      have "pl_inv n kids s tgt max_paths max_len (?c # v # path) (length (kids ?c) # k # cursor)
          (on_path[?c := True]) out"
        by (rule pl_push[OF inv refl c deeper(1,2) _ "4.prems"(2)]) (use deeper(3) in simp)
      from IH(4)[OF k refl room on deeper(1,2) lv deeper(3,4) pre this] show ?thesis
        using deeper k room on lv by (auto simp: run)
    qed
  qed
qed

lemma path_len_successively:
  assumes "successively (\<lambda>u v. (u, v) \<in> arcs kids) (v # xs)" "avoid \<notin> set xs"
  shows "path_len kids avoid v (length (v # xs))"
  using assms
proof (induction xs arbitrary: v)
  case Nil
  then show ?case using path_len.start[of kids avoid v] by simp
next
  case (Cons x xs)
  then have "path_len kids avoid x (length (x # xs))" by simp
  with Cons.prems show ?case using path_len.step[of x kids v avoid "length (x # xs)"] by simp
qed

lemma simple_path_length:
  assumes "p \<in> simple_paths (arcs kids) s t" "s \<noteq> t" "longest kids t s m"
  shows "length p \<le> m + 1"
proof -
  note p = simple_pathsD[OF assms(1)]
  obtain q where q: "p = q @ [t]" using p(1,3) by (cases p rule: rev_cases) auto
  then obtain xs where xs: "q = s # xs" using p(2) assms(2) by (cases q) auto
  have "t \<notin> set xs" using p(4) q xs by simp
  moreover have "successively (\<lambda>u v. (u, v) \<in> arcs kids) (s # xs)"
    using p(5) unfolding q xs successively_append_iff by blast
  ultimately have "path_len kids t s (length (s # xs))" by (intro path_len_successively)
  with assms(3) q xs show ?thesis by (simp add: longest_def)
qed

lemma distinct_dag_children:
  assumes "dag_inv d"
  shows "distinct (dag_children d u)"
  using dc_wf_distinct(1)[OF dag_inv_core(2)[OF assms], of u] dc_wfD(1)[OF dag_inv_core(2)[OF assms]]
  by (simp add: dag_children_def dc_children_of_def row_def)

lemma simple_paths_refl: "simple_paths E s s = {[s]}"
proof -
  have "p = [s]" if "p \<in> simple_paths E s s" for p
  proof -
    note d = simple_pathsD[OF that]
    obtain xs where "p = s # xs" using d(1,2) by (cases p) auto
    then have "xs = []" using d(3,4) by (cases xs rule: rev_cases) auto
    with \<open>p = s # xs\<close> show ?thesis by simp
  qed
  then show ?thesis by (auto simp: simple_paths_def)
qed

lemma paths_start:
  assumes "dag_inv d" "src < dag_node_count d" "src \<noteq> tgt" "2 \<le> ml"
  shows "pl_inv (dag_node_count d) (dag_children d) src tgt mp ml [src] [length (dag_children d src)]
    ((replicate (dag_node_count d) False)[src := True]) []"
proof -
  let ?n = "dag_node_count d" and ?kids = "dag_children d"
  let ?on = "(replicate ?n False)[src := True]"
  have "?on ! v \<longleftrightarrow> v = src" if "v < ?n" for v using that assms(2) by (simp add: nth_list_update)
  then have on: "set [src] = {v. v < ?n \<and> ?on ! v}" using assms(2) by auto
  have "simple_paths (dag_rel d) src tgt \<subseteq> extends (arcs ?kids) src tgt (rev [] @ [src])"
    by (auto simp: extends_def simple_paths_def prefix_def) (metis list.collapse)
  then have "simple_paths (dag_rel d) src tgt \<subseteq>
      pending (arcs ?kids) ?kids src tgt [src] [length (?kids src)]"
    unfolding extends_further[OF assms(3)] by simp
  then show ?thesis
    unfolding pl_inv_def using on assms(2-4) by auto
qed

theorem dag_directed_paths_with_budget_spec:
  assumes "dag_inv d" "src < dag_node_count d" "tgt < dag_node_count d"
  shows "\<exists>out truncated. dag_directed_paths_with_budget d src tgt max_paths max_len = Some (Inr (out, truncated)) \<and>
    distinct out \<and> set out \<subseteq> simple_paths (dag_rel d) src tgt \<and> (\<forall>p \<in> set out. length p \<le> max_len) \<and>
    length out \<le> max_paths \<and> (\<not> truncated \<longrightarrow> set out = simple_paths (dag_rel d) src tgt)"
proof -
  let ?n = "dag_node_count d" and ?kids = "dag_children d" and ?P = "simple_paths (dag_rel d) src tgt"
  have nodes: "rbind (dag_validate_node d src) (\<lambda>_. dag_validate_node d tgt) = Inr ()"
    using assms(2,3) by (simp add: dag_validate_node_def)
  consider "max_paths = 0 \<or> max_len = 0" | "\<not> (max_paths = 0 \<or> max_len = 0)" "src = tgt"
    | "\<not> (max_paths = 0 \<or> max_len = 0)" "src \<noteq> tgt" "max_len = 1"
    | (search) "\<not> (max_paths = 0 \<or> max_len = 0)" "src \<noteq> tgt" "max_len \<noteq> 1" "2 \<le> max_len" by linarith
  then show ?thesis
  proof cases
    case search
    obtain live where live: "dag_ancestors_mask d tgt = Some live" "length live = ?n"
        "\<forall>a < ?n. a \<noteq> tgt \<longrightarrow> (live ! a \<longleftrightarrow> (a, tgt) \<in> (arcs ?kids)\<^sup>*)"
      using dag_ancestors_mask_spec[OF assms(1), of tgt] by auto
    obtain m where m: "dag_longest_path_nodes_avoiding d src tgt = Some m" "longest ?kids tgt src m"
      using dag_longest_path_spec[OF assms(1,2)] by blast
    have closed: "\<forall>u < ?n. set (?kids u) \<subseteq> {..<?n}" using dg.kid_range[OF assms(1)] by blast
    have dist: "\<forall>u. distinct (?kids u)" using distinct_dag_children[OF assms(1)] by simp
    note found = paths_loop_spec[OF closed dist live(2,3) paths_start[OF assms(1,2) search(2,4)],
        where mp = max_paths and budget = "saturating_mul (saturating_mul max_paths max_len) 16"
          and tr = "m \<ge> max_len" and visits = 0]
    obtain out tr where
      run: "paths_loop ?kids live tgt max_paths max_len (saturating_mul (saturating_mul max_paths max_len) 16)
          (m \<ge> max_len) [src] [length (?kids src)] ((replicate ?n False)[src := True]) [] 0 = Some (out, tr)"
      and out: "distinct out" "set out \<subseteq> ?P" "\<forall>p \<in> set out. length p \<le> max_len" "length out \<le> max_paths"
      and all: "\<not> tr \<longrightarrow> \<not> m \<ge> max_len \<and> {p \<in> ?P. length p \<le> max_len} \<subseteq> set out"
      using found unfolding arcs_dag_children by (elim exE conjE) (rule that)
    have "?P \<subseteq> set out" if "\<not> tr"
    proof
      fix p assume p: "p \<in> ?P"
      then have "length p \<le> m + 1" using simple_path_length[of p ?kids src tgt m] search(2) m(2) by simp
      with all that have "length p \<le> max_len" by simp
      with all that p show "p \<in> set out" by blast
    qed
    then show ?thesis
      using run out nodes live(1) m(1) search
      by (auto simp: dag_directed_paths_with_budget_def intro: exI[of _ out] exI[of _ tr])
  next
    case 2
    have "dag_directed_paths_with_budget d src tgt max_paths max_len = Some (Inr ([[src]], False))"
      using 2 unfolding dag_directed_paths_with_budget_def nodes by simp
    with 2 show ?thesis by (auto simp: simple_paths_refl)
  qed (auto simp: dag_directed_paths_with_budget_def nodes)
qed

end
