(* ===== verification/Dag_Surgery.thy ===== *)
theory Dag_Surgery
  imports Dag
begin

text \<open>
  \<open>ancestry.rs\<close> and \<open>overlay.rs\<close>: ancestor and descendant queries, edge-visibility overlays for graph
  surgery, the borrowed view of a DAG under an overlay, and \<open>mutilate\<close>. The view is shown to be the
  same graph as its materialisation, and \<open>mutilate\<close> to remove exactly the edges into the intervened
  nodes. Materialised graphs are rebuilt with \<open>with_variables\<close>, so their labels are \<open>Static 0 ..\<close>
  whatever the labels of the base graph were.
\<close>

section \<open>Overlays\<close>

record graph_overlay =
  ov_hide_incoming :: bitset
  ov_hide_outgoing :: bitset

definition ov_observational :: "nat \<Rightarrow> graph_overlay" where
  "ov_observational n = \<lparr>ov_hide_incoming = bs_with_len n, ov_hide_outgoing = bs_with_len n\<rparr>"

fun ov_hide :: "nat \<Rightarrow> dense_id list \<Rightarrow> bitset \<Rightarrow> bitset option" where
  "ov_hide n [] b = Some b"
| "ov_hide n (v # vs) b =
     (if v < n then (case bs_insert b v of None \<Rightarrow> None | Some b' \<Rightarrow> ov_hide n vs b')
      else ov_hide n vs b)"

definition ov_do_intervention :: "nat \<Rightarrow> dense_id list \<Rightarrow> graph_overlay option" where
  "ov_do_intervention n intervened =
     (let overlay = ov_observational n
      in map_option (\<lambda>b. overlay\<lparr>ov_hide_incoming := b\<rparr>) (ov_hide n intervened (ov_hide_incoming overlay)))"

definition ov_remove_outgoing :: "nat \<Rightarrow> dense_id list \<Rightarrow> graph_overlay option" where
  "ov_remove_outgoing n nodes =
     (let overlay = ov_observational n
      in map_option (\<lambda>b. overlay\<lparr>ov_hide_outgoing := b\<rparr>) (ov_hide n nodes (ov_hide_outgoing overlay)))"

definition edge_visible :: "graph_overlay \<Rightarrow> dense_id \<Rightarrow> dense_id \<Rightarrow> bool" where
  "edge_visible ov src tgt \<longleftrightarrow>
     \<not> bs_contains (ov_hide_outgoing ov) src \<and> \<not> bs_contains (ov_hide_incoming ov) tgt"

definition visible_under :: "graph_overlay option \<Rightarrow> dense_id \<Rightarrow> dense_id \<Rightarrow> bool" where
  "visible_under overlay src tgt \<longleftrightarrow> (case overlay of None \<Rightarrow> True | Some ov \<Rightarrow> edge_visible ov src tgt)"

section \<open>Ancestry\<close>

definition dag_ancestors_of_with ::
  "dag \<Rightarrow> dense_id list \<Rightarrow> bitset \<Rightarrow> graph_workspace \<Rightarrow> graph_overlay option \<Rightarrow>
    (bitset \<times> graph_workspace) option" where
  "dag_ancestors_of_with d nodes out ws overlay =
     closure_into (dag_node_count d) (dag_parents d) nodes out ws (\<lambda>u p. visible_under overlay p u)"

definition dag_ancestors_of ::
  "dag \<Rightarrow> dense_id list \<Rightarrow> bitset \<Rightarrow> graph_workspace \<Rightarrow> (bitset \<times> graph_workspace) option" where
  "dag_ancestors_of d nodes out ws = dag_ancestors_of_with d nodes out ws None"

definition dag_descendants_of_with ::
  "dag \<Rightarrow> dense_id list \<Rightarrow> bitset \<Rightarrow> graph_workspace \<Rightarrow> graph_overlay option \<Rightarrow>
    (bitset \<times> graph_workspace) option" where
  "dag_descendants_of_with d nodes out ws overlay =
     closure_into (dag_node_count d) (dag_children d) nodes out ws (\<lambda>u c. visible_under overlay u c)"

definition dag_descendants_of ::
  "dag \<Rightarrow> dense_id list \<Rightarrow> bitset \<Rightarrow> graph_workspace \<Rightarrow> (bitset \<times> graph_workspace) option" where
  "dag_descendants_of d nodes out ws = dag_descendants_of_with d nodes out ws None"

section \<open>Views\<close>

record dag_view =
  view_dag :: dag
  view_overlay :: graph_overlay

definition dag_to_view :: "dag \<Rightarrow> graph_overlay \<Rightarrow> dag_view" where
  "dag_to_view d ov = \<lparr>view_dag = d, view_overlay = ov\<rparr>"

definition view_node_count :: "dag_view \<Rightarrow> nat" where
  "view_node_count w = dag_node_count (view_dag w)"

text \<open>\<open>parents_into\<close> and \<open>children_into\<close> return the vector they fill.\<close>

definition view_parents_into :: "dag_view \<Rightarrow> dense_id \<Rightarrow> dense_id list" where
  "view_parents_into w i =
     (if i \<ge> dag_node_count (view_dag w) then []
      else filter (\<lambda>p. edge_visible (view_overlay w) p i) (dag_parents (view_dag w) i))"

definition view_children_into :: "dag_view \<Rightarrow> dense_id \<Rightarrow> dense_id list" where
  "view_children_into w i =
     (if i \<ge> dag_node_count (view_dag w) then []
      else filter (\<lambda>c. edge_visible (view_overlay w) i c) (dag_children (view_dag w) i))"

definition view_ancestors_of ::
  "dag_view \<Rightarrow> dense_id list \<Rightarrow> bitset \<Rightarrow> graph_workspace \<Rightarrow> (bitset \<times> graph_workspace) option" where
  "view_ancestors_of w nodes out ws = dag_ancestors_of_with (view_dag w) nodes out ws (Some (view_overlay w))"

definition view_descendants_of ::
  "dag_view \<Rightarrow> dense_id list \<Rightarrow> bitset \<Rightarrow> graph_workspace \<Rightarrow> (bitset \<times> graph_workspace) option" where
  "view_descendants_of w nodes out ws = dag_descendants_of_with (view_dag w) nodes out ws (Some (view_overlay w))"

fun copy_visible_row ::
  "graph_overlay \<Rightarrow> dense_id \<Rightarrow> dense_id list \<Rightarrow> directed_core \<Rightarrow> directed_core option" where
  "copy_visible_row ov src [] g = Some g"
| "copy_visible_row ov src (tgt # ts) g =
     (if edge_visible ov src tgt
      then (case dc_push_unchecked g src tgt of None \<Rightarrow> None | Some g' \<Rightarrow> copy_visible_row ov src ts g')
      else copy_visible_row ov src ts g)"

fun copy_visible_rows ::
  "graph_overlay \<Rightarrow> dag \<Rightarrow> dense_id list \<Rightarrow> directed_core \<Rightarrow> directed_core option" where
  "copy_visible_rows ov d [] g = Some g"
| "copy_visible_rows ov d (i # is) g =
     (case copy_visible_row ov i (dag_children d i) g of
        None \<Rightarrow> None | Some g' \<Rightarrow> copy_visible_rows ov d is g')"

definition view_materialize :: "dag_view \<Rightarrow> (graph_error + dag) option" where
  "view_materialize w =
     (let n = dag_node_count (view_dag w)
      in if n \<ge> id_space then Some (Inl TooManyNodes)
         else map_option (\<lambda>g. Inr \<lparr>dag_directed = g\<rparr>)
           (copy_visible_rows (view_overlay w) (view_dag w) [0..<n] (dag_directed (dag_with_variables n))))"

fun validate_nodes :: "dag \<Rightarrow> dense_id list \<Rightarrow> graph_error + unit" where
  "validate_nodes d [] = Inr ()"
| "validate_nodes d (v # vs) = rbind (dag_validate_node d v) (\<lambda>_. validate_nodes d vs)"

definition dag_mutilate :: "dag \<Rightarrow> dense_id list \<Rightarrow> (graph_error + dag) option" where
  "dag_mutilate d intervened =
     (case validate_nodes d intervened of
        Inl e \<Rightarrow> Some (Inl e)
      | Inr _ \<Rightarrow>
          (case ov_do_intervention (dag_node_count d) intervened of
             None \<Rightarrow> None
           | Some overlay \<Rightarrow> view_materialize (dag_to_view d overlay)))"

section \<open>Correctness\<close>

lemma ov_hide_spec:
  assumes "bs_inv b" "bs_len b = n"
  shows "\<exists>b'. ov_hide n vs b = Some b' \<and> bs_inv b' \<and> bs_len b' = n \<and>
    bs_members b' = bs_members b \<union> {v \<in> set vs. v < n}"
  using assms
proof (induction vs arbitrary: b)
  case (Cons v vs)
  show ?case
  proof (cases "v < n")
    case True
    then obtain b1 where b1: "bs_insert b v = Some b1" "bs_inv b1" "bs_members b1 = insert v (bs_members b)"
        "bs_len b1 = n"
      using bs.ins_step[OF Cons.prems(1)] Cons.prems(2) by metis
    from Cons.IH[OF b1(2,4)] b1 True show ?thesis by auto
  next
    case False
    then show ?thesis using Cons.IH[OF Cons.prems] by auto
  qed
qed simp

lemma ov_do_intervention_spec:
  "\<exists>ov. ov_do_intervention n xs = Some ov \<and>
    (\<forall>u v. edge_visible ov u v \<longleftrightarrow> \<not> (v \<in> set xs \<and> v < n))"
  using ov_hide_spec[of "bs_with_len n" n xs] bs_with_len[of n]
  by (auto simp: ov_do_intervention_def ov_observational_def edge_visible_def bs_contains_members Let_def)

lemma ov_remove_outgoing_spec:
  "\<exists>ov. ov_remove_outgoing n xs = Some ov \<and>
    (\<forall>u v. edge_visible ov u v \<longleftrightarrow> \<not> (u \<in> set xs \<and> u < n))"
  using ov_hide_spec[of "bs_with_len n" n xs] bs_with_len[of n]
  by (auto simp: ov_remove_outgoing_def ov_observational_def edge_visible_def bs_contains_members Let_def)

lemma ov_observational_visible: "edge_visible (ov_observational n) u v"
  using bs_with_len[of n] by (simp add: edge_visible_def ov_observational_def bs_contains_members)

text \<open>The edges a query sees.\<close>

definition seen_rel :: "dag \<Rightarrow> graph_overlay option \<Rightarrow> (dense_id \<times> dense_id) set" where
  "seen_rel d overlay = {(u, v) \<in> dag_rel d. visible_under overlay u v}"

lemma seen_rel_None [simp]: "seen_rel d None = dag_rel d"
  by (auto simp: seen_rel_def visible_under_def)

lemma filtered_seen: "filtered_arcs (dag_children d) (visible_under overlay) = seen_rel d overlay"
  by (auto simp: seen_rel_def in_dag_children)

lemma dag_ancestors_of_with_spec:
  assumes "dag_inv d" "bs_inv out" "ws_inv ws"
  shows "\<exists>out' ws'. dag_ancestors_of_with d nodes out ws overlay = Some (out', ws') \<and> bs_inv out' \<and>
    bs_len out' = dag_node_count d \<and> ws_inv ws' \<and>
    bs_members out' = {a. \<exists>s \<in> set nodes. s < dag_node_count d \<and> (a, s) \<in> (seen_rel d overlay)\<^sup>*}"
  using dg.ancestors_closure[OF assms, of nodes "\<lambda>u p. visible_under overlay p u"]
  by (simp add: dag_ancestors_of_with_def filtered_seen)

lemma dag_descendants_of_with_spec:
  assumes "dag_inv d" "bs_inv out" "ws_inv ws"
  shows "\<exists>out' ws'. dag_descendants_of_with d nodes out ws overlay = Some (out', ws') \<and> bs_inv out' \<and>
    bs_len out' = dag_node_count d \<and> ws_inv ws' \<and>
    bs_members out' = {w. \<exists>s \<in> set nodes. s < dag_node_count d \<and> (s, w) \<in> (seen_rel d overlay)\<^sup>*}"
  using dg.descendants_closure[OF assms, of nodes "visible_under overlay"]
  by (auto simp: dag_descendants_of_with_def filtered_seen)

lemma copy_visible_row_push_kept:
  "copy_visible_row ov i ts g = push_kept (edge_visible ov) (map (me_directed i) ts) g"
  by (induction ts arbitrary: g) (auto split: option.splits)

lemma push_kept_append:
  "push_kept keep (es @ fs) g = (case push_kept keep es g of None \<Rightarrow> None | Some g' \<Rightarrow> push_kept keep fs g')"
  by (induction keep es g rule: push_kept.induct) (auto split: option.splits prod.splits)

lemma copy_visible_rows_push_kept:
  "copy_visible_rows ov d is g =
     push_kept (edge_visible ov) (concat (map (\<lambda>i. map (me_directed i) (dag_children d i)) is)) g"
  by (induction "is" arbitrary: g) (auto simp: copy_visible_row_push_kept push_kept_append split: option.splits)

lemma dag_edges_rows:
  assumes "dag_inv d"
  shows "dag_edges d = concat (map (\<lambda>i. map (me_directed i) (dag_children d i)) [0..<dag_node_count d])"
proof -
  have len: "length (dc_children (dag_directed d)) = dag_node_count d"
    using dc_wfD(1)[OF dag_inv_core(2)[OF assms]] by (simp add: dag_node_count_def)
  have "map (\<lambda>i. map (me_directed i) (dc_children (dag_directed d) ! i)) [0..<dag_node_count d] =
      map (\<lambda>i. map (me_directed i) (dag_children d i)) [0..<dag_node_count d]"
    by (rule map_cong[OF refl]) (simp add: dag_children_def dc_children_of_def row_nth len)
  then show ?thesis unfolding dag_edges_def dc_marked_edges_def len by (rule arg_cong)
qed

text \<open>The materialised view has the visible edges, in the order of the base rows.\<close>

lemma view_materialize_spec:
  assumes "dag_inv d" "dag_node_count d < id_space"
  shows "\<exists>m. view_materialize (dag_to_view d ov) = Some (Inr m) \<and> dag_inv m \<and>
    dag_nodes m = map Static [0..<dag_node_count d] \<and> dag_rel m = seen_rel d (Some ov) \<and>
    (\<forall>i. dag_children m i = view_children_into (dag_to_view d ov) i) \<and>
    (\<forall>i. set (dag_parents m i) = set (view_parents_into (dag_to_view d ov) i))"
proof -
  from push_kept_copy[OF assms, of "edge_visible ov"] obtain g where
    g: "push_kept (edge_visible ov) (dag_edges d) (dag_directed (dag_with_variables (dag_node_count d))) = Some g"
      "dag_inv \<lparr>dag_directed = g\<rparr>" "dc_nodes g = map Static [0..<dag_node_count d]"
      "dc_rel g = {(u, v) \<in> dag_rel d. edge_visible ov u v}"
      "\<forall>u < dag_node_count d. dc_children g ! u = filter (edge_visible ov u) (dag_children d u)"
    by (elim exE conjE) (rule that)
  let ?m = "\<lparr>dag_directed = g\<rparr>"
  have rel: "dag_rel ?m = seen_rel d (Some ov)"
    using g(4) by (auto simp: dag_rel_def seen_rel_def visible_under_def)
  have "length (dc_children g) = dag_node_count d"
    using g(3) dc_wfD(1)[OF dag_inv_core(2)[OF g(2)]] by (simp add: dc_node_count_def)
  then have kids: "dag_children ?m i = view_children_into (dag_to_view d ov) i" for i
    using g(5) by (simp add: dag_children_def dc_children_of_def row_def view_children_into_def dag_to_view_def)
  have "set (dag_parents ?m i) = set (view_parents_into (dag_to_view d ov) i)" for i
  proof -
    have "u \<in> set (dag_parents ?m i) \<longleftrightarrow> u \<in> set (view_parents_into (dag_to_view d ov) i)" for u
      using in_dag_parents[OF g(2), of u i] in_dag_parents[OF assms(1), of u i] dag_rel_bound[OF assms(1), of u i]
      unfolding rel by (auto simp: seen_rel_def visible_under_def view_parents_into_def dag_to_view_def)
    then show ?thesis by blast
  qed
  with kids rel g assms(2) show ?thesis
    by (auto simp: view_materialize_def dag_to_view_def copy_visible_rows_push_kept
        dag_edges_rows[OF assms(1), symmetric] dag_nodes_def Let_def)
qed

text \<open>Ancestors asked of the view are the ancestors of the materialised graph.\<close>

lemma view_ancestors_materialize:
  assumes "dag_inv d" "dag_node_count d < id_space" "bs_inv out" "ws_inv ws"
    and "view_materialize (dag_to_view d ov) = Some (Inr m)"
  shows "map_option fst (view_ancestors_of (dag_to_view d ov) nodes out ws) =
      map_option fst (dag_ancestors_of m nodes out ws)"
    and "map_option fst (view_descendants_of (dag_to_view d ov) nodes out ws) =
      map_option fst (dag_descendants_of m nodes out ws)"
proof -
  have m: "dag_inv m" "dag_rel m = seen_rel d (Some ov)" "dag_node_count m = dag_node_count d"
    using view_materialize_spec[OF assms(1,2), of ov] assms(5)
    by (auto simp: dag_node_count_def dc_node_count_def dag_nodes_def)
  obtain a1 w1 where a1: "dag_ancestors_of_with d nodes out ws (Some ov) = Some (a1, w1)" "bs_inv a1"
      "bs_len a1 = dag_node_count d"
      "bs_members a1 = {a. \<exists>s \<in> set nodes. s < dag_node_count d \<and> (a, s) \<in> (seen_rel d (Some ov))\<^sup>*}"
    using dag_ancestors_of_with_spec[OF assms(1,3,4), of nodes "Some ov"] by blast
  obtain a2 w2 where a2: "dag_ancestors_of_with m nodes out ws None = Some (a2, w2)" "bs_inv a2"
      "bs_len a2 = dag_node_count m"
      "bs_members a2 = {a. \<exists>s \<in> set nodes. s < dag_node_count m \<and> (a, s) \<in> (seen_rel m None)\<^sup>*}"
    using dag_ancestors_of_with_spec[OF m(1) assms(3,4), of nodes None] by blast
  have "a1 = a2" by (rule bs_extensional) (use a1 a2 m in simp_all)
  with a1 a2 show "map_option fst (view_ancestors_of (dag_to_view d ov) nodes out ws) =
      map_option fst (dag_ancestors_of m nodes out ws)"
    by (simp add: view_ancestors_of_def dag_ancestors_of_def dag_to_view_def)
  obtain b1 w1 where b1: "dag_descendants_of_with d nodes out ws (Some ov) = Some (b1, w1)" "bs_inv b1"
      "bs_len b1 = dag_node_count d"
      "bs_members b1 = {w. \<exists>s \<in> set nodes. s < dag_node_count d \<and> (s, w) \<in> (seen_rel d (Some ov))\<^sup>*}"
    using dag_descendants_of_with_spec[OF assms(1,3,4), of nodes "Some ov"] by blast
  obtain b2 w2 where b2: "dag_descendants_of_with m nodes out ws None = Some (b2, w2)" "bs_inv b2"
      "bs_len b2 = dag_node_count m"
      "bs_members b2 = {w. \<exists>s \<in> set nodes. s < dag_node_count m \<and> (s, w) \<in> (seen_rel m None)\<^sup>*}"
    using dag_descendants_of_with_spec[OF m(1) assms(3,4), of nodes None] by blast
  have "b1 = b2" by (rule bs_extensional) (use b1 b2 m in simp_all)
  with b1 b2 show "map_option fst (view_descendants_of (dag_to_view d ov) nodes out ws) =
      map_option fst (dag_descendants_of m nodes out ws)"
    by (simp add: view_descendants_of_def dag_descendants_of_def dag_to_view_def)
qed

lemma validate_nodes_spec:
  "validate_nodes d vs = Inr () \<longleftrightarrow> (\<forall>v \<in> set vs. v < dag_node_count d)"
  "validate_nodes d vs = Inl e \<longleftrightarrow> (\<exists>v. find (\<lambda>v. v \<ge> dag_node_count d) vs = Some v \<and> e = UnknownNode v)"
  by (induction vs) (auto simp: dag_validate_node_def)

lemma dag_mutilate_spec:
  assumes "dag_inv d" "dag_node_count d < id_space"
  shows "(\<forall>v \<in> set xs. v < dag_node_count d) \<Longrightarrow>
      \<exists>m. dag_mutilate d xs = Some (Inr m) \<and> dag_inv m \<and> dag_rel m = {(u, v) \<in> dag_rel d. v \<notin> set xs} \<and>
        dag_nodes m = map Static [0..<dag_node_count d]"
    and "\<not> (\<forall>v \<in> set xs. v < dag_node_count d) \<Longrightarrow>
      \<exists>v \<in> set xs. v \<ge> dag_node_count d \<and> dag_mutilate d xs = Some (Inl (UnknownNode v))"
proof -
  assume ok: "\<forall>v \<in> set xs. v < dag_node_count d"
  then have val: "validate_nodes d xs = Inr ()" by (simp add: validate_nodes_spec)
  obtain ov where ov: "ov_do_intervention (dag_node_count d) xs = Some ov"
      "\<forall>u v. edge_visible ov u v \<longleftrightarrow> \<not> (v \<in> set xs \<and> v < dag_node_count d)"
    using ov_do_intervention_spec by blast
  have "seen_rel d (Some ov) = {(u, v) \<in> dag_rel d. v \<notin> set xs}"
    using ov(2) ok by (auto simp: seen_rel_def visible_under_def)
  with view_materialize_spec[OF assms, of ov] ov(1) val
  show "\<exists>m. dag_mutilate d xs = Some (Inr m) \<and> dag_inv m \<and> dag_rel m = {(u, v) \<in> dag_rel d. v \<notin> set xs} \<and>
        dag_nodes m = map Static [0..<dag_node_count d]"
    by (auto simp: dag_mutilate_def)
next
  assume bad: "\<not> (\<forall>v \<in> set xs. v < dag_node_count d)"
  then obtain e where e: "validate_nodes d xs = Inl e"
    using validate_nodes_spec(1)[of d xs] by (cases "validate_nodes d xs") auto
  then obtain v where "find (\<lambda>v. v \<ge> dag_node_count d) xs = Some v" "e = UnknownNode v"
    unfolding validate_nodes_spec by blast
  with e show "\<exists>v \<in> set xs. v \<ge> dag_node_count d \<and> dag_mutilate d xs = Some (Inl (UnknownNode v))"
    by (auto simp: dag_mutilate_def find_Some_iff)
qed

end
