(* ===== verification/Admg.thy ===== *)
theory Admg
  imports Dag
begin

text \<open>
  \<open>admg.rs\<close>, storage half: the acyclic directed mixed graph, a directed core plus symmetric
  bidirected rows, with its constructors, filtered copies, conversions from and to \<open>Dag\<close> and the
  insertion operations. The closure, district and ancestor-set queries are in \<open>Admg_Queries\<close>.
\<close>

record admg =
  ad_directed :: directed_core
  ad_bidirected :: "dense_id list list"

datatype copy_labels = Preserve | StaticIndex (extra: nat)

definition admg_empty :: admg where
  "admg_empty = \<lparr>ad_directed = dc_new, ad_bidirected = []\<rparr>"

definition admg_eq :: "admg \<Rightarrow> admg \<Rightarrow> bool" where
  "admg_eq a b \<longleftrightarrow> dc_same_directed (ad_directed a) (ad_directed b) \<and> ad_bidirected a = ad_bidirected b"

definition admg_node_count :: "admg \<Rightarrow> nat" where
  "admg_node_count a = dc_node_count (ad_directed a)"

definition admg_is_empty :: "admg \<Rightarrow> bool" where
  "admg_is_empty a = dc_is_empty (ad_directed a)"

definition admg_nodes :: "admg \<Rightarrow> node_ref list" where
  "admg_nodes a = dc_nodes (ad_directed a)"

definition admg_children :: "admg \<Rightarrow> dense_id \<Rightarrow> dense_id list" where
  "admg_children a i = dc_children_of (ad_directed a) i"

definition admg_parents :: "admg \<Rightarrow> dense_id \<Rightarrow> dense_id list" where
  "admg_parents a i = dc_parents_of (ad_directed a) i"

definition admg_bidirected_neighbors :: "admg \<Rightarrow> dense_id \<Rightarrow> dense_id list" where
  "admg_bidirected_neighbors a i = row (ad_bidirected a) i"

definition admg_has_bidirected :: "admg \<Rightarrow> bool" where
  "admg_has_bidirected a \<longleftrightarrow> (\<exists>r \<in> set (ad_bidirected a). r \<noteq> [])"

definition admg_reaches :: "admg \<Rightarrow> dense_id \<Rightarrow> dense_id \<Rightarrow> bool option" where
  "admg_reaches a src tgt = dc_reaches (ad_directed a) src tgt"

definition admg_reaches_with ::
  "admg \<Rightarrow> dense_id \<Rightarrow> dense_id \<Rightarrow> graph_workspace \<Rightarrow> (bool \<times> graph_workspace) option" where
  "admg_reaches_with a src tgt ws = dc_reaches_with (ad_directed a) src tgt ws"

definition admg_topological_order :: "admg \<Rightarrow> dense_id list option option" where
  "admg_topological_order a = dc_topological_order (ad_directed a)"

definition admg_directed_edge_pairs_sorted :: "admg \<Rightarrow> (nat \<times> nat) list" where
  "admg_directed_edge_pairs_sorted a = dc_edge_pairs_sorted (ad_directed a)"

definition admg_node_ids :: "admg \<Rightarrow> dense_id list option" where
  "admg_node_ids a = all_ids (admg_node_count a)"

definition admg_validate :: "admg \<Rightarrow> (graph_error + unit) option" where
  "admg_validate a =
     map_option (\<lambda>ok. if ok then Inr () else Inl (Cycle 0 0))
       (is_dag (dc_parents (ad_directed a)) (dc_children (ad_directed a)))"

section \<open>Nodes and edges\<close>

definition admg_add_node :: "admg \<Rightarrow> node_ref \<Rightarrow> (graph_error + dense_id) \<times> admg" where
  "admg_add_node a node =
     (if \<not> is_static_graph_node node
      then (Inl (InvalidEndpoints ''Admg accepts only Static or Unfolded nodes''), a)
      else (case dc_push_labeled (ad_directed a) node of
              (Inl e, g) \<Rightarrow> (Inl e, a\<lparr>ad_directed := g\<rparr>)
            | (Inr i, g) \<Rightarrow> (Inr i, a\<lparr>ad_directed := g, ad_bidirected := ad_bidirected a @ [[]]\<rparr>)))"

fun admg_add_statics :: "admg \<Rightarrow> variable_id list \<Rightarrow> admg" where
  "admg_add_statics a [] = a"
| "admg_add_statics a (v # vs) = admg_add_statics (snd (admg_add_node a (Static v))) vs"

definition admg_with_variables :: "nat \<Rightarrow> admg" where
  "admg_with_variables n = admg_add_statics admg_empty [0..<n]"

definition admg_validate_node :: "admg \<Rightarrow> dense_id \<Rightarrow> graph_error + unit" where
  "admg_validate_node a i = (if i \<ge> admg_node_count a then Inl (UnknownNode i) else Inr ())"

definition admg_insert_directed ::
  "admg \<Rightarrow> dense_id \<Rightarrow> dense_id \<Rightarrow> ((graph_error + unit) \<times> admg) option" where
  "admg_insert_directed a src tgt =
     (case rbind (admg_validate_node a src) (\<lambda>_. admg_validate_node a tgt) of
        Inl e \<Rightarrow> Some (Inl e, a)
      | Inr _ \<Rightarrow>
          (if src = tgt then Some (Inl (InvalidEndpoints ''Admg rejects directed self-loops''), a)
           else map_option (\<lambda>(r, g). (r, a\<lparr>ad_directed := g\<rparr>)) (dc_try_insert (ad_directed a) src tgt)))"

definition admg_insert_bidirected ::
  "admg \<Rightarrow> dense_id \<Rightarrow> dense_id \<Rightarrow> ((graph_error + unit) \<times> admg) option" where
  "admg_insert_bidirected g a b =
     (case rbind (admg_validate_node g a) (\<lambda>_. admg_validate_node g b) of
        Inl e \<Rightarrow> Some (Inl e, g)
      | Inr _ \<Rightarrow>
          (if a = b then Some (Inl (InvalidEndpoints ''Admg rejects bidirected self-loops''), g)
           else if a \<ge> length (ad_bidirected g) then None
           else if b \<in> set (ad_bidirected g ! a) then Some (Inl (DuplicateEdge a b), g)
           else if b \<ge> length (ad_bidirected g) then None
           else Some (Inr (), g\<lparr>ad_bidirected := push_row (push_row (ad_bidirected g) a b) b a\<rparr>)))"

definition admg_insert_marked :: "admg \<Rightarrow> marked_edge \<Rightarrow> ((graph_error + unit) \<times> admg) option" where
  "admg_insert_marked g e =
     (if \<not> is_admg_legal e
      then Some (Inl (InvalidEndpoints ''Admg allows only directed or bidirected edges''), g)
      else if is_bidirected e then admg_insert_bidirected g (me_a e) (me_b e)
      else case parent_child e of
        Some (p, c) \<Rightarrow> admg_insert_directed g p c
      | None \<Rightarrow> Some (Inl (InvalidEndpoints ''unrecognized ADMG edge''), g))"

definition admg_insert_directed_edges ::
  "admg \<Rightarrow> (dense_id \<times> dense_id) list \<Rightarrow> ((graph_error + unit) \<times> admg) option" where
  "admg_insert_directed_edges a edges =
     (let one_by_one = try_each (\<lambda>(src, tgt) a'. admg_insert_directed a' src tgt) edges a
      in if \<exists>(src, tgt) \<in> set edges. src = tgt then one_by_one
         else case dc_accepts_new_edges (ad_directed a) edges of
           None \<Rightarrow> None
         | Some True \<Rightarrow> map_option (\<lambda>g. (Inr (), a\<lparr>ad_directed := g\<rparr>)) (dc_push_edges (ad_directed a) edges)
         | Some False \<Rightarrow> one_by_one)"

fun admg_insert_resolved ::
  "causal_schema \<Rightarrow> (string \<times> string) list \<Rightarrow> (dense_id \<times> dense_id) list \<Rightarrow> admg \<Rightarrow>
    ((graph_error + unit) \<times> admg) option" where
  "admg_insert_resolved s [] pending a = admg_insert_directed_edges a pending"
| "admg_insert_resolved s ((from_name, to_name) # rest) pending a =
     (case resolve_named_edge s from_name to_name of
        Inr pair \<Rightarrow> admg_insert_resolved s rest (pending @ [pair]) a
      | Inl err \<Rightarrow> pbind (admg_insert_directed_edges a pending) (\<lambda>_ a'. Some (Inl err, a')))"

definition admg_from_named_edges ::
  "causal_schema \<Rightarrow> (string \<times> string) list \<Rightarrow> (graph_error + admg) option" where
  "admg_from_named_edges s edges =
     (case schema_node_count s of
        Inl e \<Rightarrow> Some (Inl e)
      | Inr n \<Rightarrow>
          map_option (\<lambda>(r, a). case r of Inl e \<Rightarrow> Inl e | Inr _ \<Rightarrow> Inr a)
            (admg_insert_resolved s edges [] (admg_with_variables n)))"

definition admg_from_dag :: "dag \<Rightarrow> (graph_error + admg) option" where
  "admg_from_dag d =
     (let a = \<lparr>ad_directed = dag_directed d, ad_bidirected = replicate (dag_node_count d) []\<rparr>
      in map_option (\<lambda>r. rbind r (\<lambda>_. Inr a)) (admg_validate a))"

definition admg_directed_part :: "admg \<Rightarrow> graph_error + dag" where
  "admg_directed_part a = Inr \<lparr>dag_directed = ad_directed a\<rparr>"

section \<open>Filtered copies\<close>

fun copy_directed_row ::
  "(dense_id \<Rightarrow> dense_id \<Rightarrow> bool) \<Rightarrow> dense_id \<Rightarrow> dense_id list \<Rightarrow> admg \<Rightarrow> admg option" where
  "copy_directed_row keep src [] out = Some out"
| "copy_directed_row keep src (tgt # ts) out =
     (if keep src tgt
      then (case dc_push_unchecked (ad_directed out) src tgt of
              None \<Rightarrow> None
            | Some g \<Rightarrow> copy_directed_row keep src ts (out\<lparr>ad_directed := g\<rparr>))
      else copy_directed_row keep src ts out)"

definition copy_bidirected_row ::
  "(dense_id \<Rightarrow> dense_id \<Rightarrow> bool) \<Rightarrow> dense_id \<Rightarrow> dense_id list \<Rightarrow> admg \<Rightarrow> ((graph_error + unit) \<times> admg) option" where
  "copy_bidirected_row keep src ts out =
     try_each (\<lambda>tgt out. if tgt > src \<and> keep src tgt then admg_insert_bidirected out src tgt
                         else Some (Inr (), out)) ts out"

fun copy_admg_rows ::
  "(dense_id \<Rightarrow> dense_id \<Rightarrow> bool) \<Rightarrow> (dense_id \<Rightarrow> dense_id \<Rightarrow> bool) \<Rightarrow> admg \<Rightarrow> dense_id list \<Rightarrow> admg \<Rightarrow>
    ((graph_error + unit) \<times> admg) option" where
  "copy_admg_rows keep_d keep_b a [] out = Some (Inr (), out)"
| "copy_admg_rows keep_d keep_b a (i # is) out =
     (case copy_directed_row keep_d i (admg_children a i) out of
        None \<Rightarrow> None
      | Some out1 \<Rightarrow>
          pbind (copy_bidirected_row keep_b i (admg_bidirected_neighbors a i) out1)
            (\<lambda>_ out2. copy_admg_rows keep_d keep_b a is out2))"

definition copy_nodes :: "admg \<Rightarrow> copy_labels \<Rightarrow> graph_error + admg" where
  "copy_nodes a labels =
     (case labels of
        Preserve \<Rightarrow>
          (case for_each (\<lambda>node out. case admg_add_node out node of
                                       (Inl e, o') \<Rightarrow> (Inl e, o') | (Inr _, o') \<Rightarrow> (Inr (), o'))
                  (admg_nodes a) admg_empty of
             (Inl e, _) \<Rightarrow> Inl e | (Inr _, out) \<Rightarrow> Inr out)
      | StaticIndex ex \<Rightarrow>
          (if admg_node_count a \<ge> id_space then Inl TooManyNodes
           else if admg_node_count a + ex \<ge> id_space then Inl TooManyNodes
           else Inr (admg_with_variables (admg_node_count a + ex))))"

definition admg_copy_filtered ::
  "admg \<Rightarrow> copy_labels \<Rightarrow> (dense_id \<Rightarrow> dense_id \<Rightarrow> bool) \<Rightarrow> (dense_id \<Rightarrow> dense_id \<Rightarrow> bool) \<Rightarrow>
    (graph_error + admg) option" where
  "admg_copy_filtered a labels keep_d keep_b =
     (case copy_nodes a labels of
        Inl e \<Rightarrow> Some (Inl e)
      | Inr out \<Rightarrow>
          map_option (\<lambda>(r, out'). rbind r (\<lambda>_. Inr out'))
            (copy_admg_rows keep_d keep_b a [0..<admg_node_count a] out))"

section \<open>The invariant\<close>

definition admg_rel :: "admg \<Rightarrow> (dense_id \<times> dense_id) set" where
  "admg_rel a = dc_rel (ad_directed a)"

definition admg_bi :: "admg \<Rightarrow> (dense_id \<times> dense_id) set" where
  "admg_bi a = row_rel (ad_bidirected a)"

definition bi_inv :: "nat \<Rightarrow> dense_id list list \<Rightarrow> bool" where
  "bi_inv n rows \<longleftrightarrow> length rows = n \<and> rows_closed rows \<and> (\<forall>r \<in> set rows. distinct r) \<and>
     sym (row_rel rows) \<and> irrefl (row_rel rows)"

definition admg_inv :: "admg \<Rightarrow> bool" where
  "admg_inv a \<longleftrightarrow> dc_inv (ad_directed a) \<and> (\<forall>n \<in> set (admg_nodes a). is_static_graph_node n) \<and>
     bi_inv (admg_node_count a) (ad_bidirected a)"

lemma admg_inv_core [wf_simps]:
  "admg_inv a \<Longrightarrow> dc_inv (ad_directed a)" "admg_inv a \<Longrightarrow> dc_wf (ad_directed a)"
  "admg_inv a \<Longrightarrow> bi_inv (admg_node_count a) (ad_bidirected a)"
  by (simp_all add: admg_inv_def dc_inv_def)

lemma in_admg_children: "v \<in> set (admg_children a u) \<longleftrightarrow> (u, v) \<in> admg_rel a"
  by (simp add: admg_children_def admg_rel_def in_dc_children)

lemma in_admg_parents: "admg_inv a \<Longrightarrow> u \<in> set (admg_parents a v) \<longleftrightarrow> (u, v) \<in> admg_rel a"
  by (simp add: admg_parents_def admg_rel_def in_dc_parents wf_simps)

lemma in_admg_bi: "v \<in> set (admg_bidirected_neighbors a u) \<longleftrightarrow> (u, v) \<in> admg_bi a"
  by (simp add: admg_bidirected_neighbors_def admg_bi_def)

lemma admg_rel_bound: "admg_inv a \<Longrightarrow> (u, v) \<in> admg_rel a \<Longrightarrow> u < admg_node_count a \<and> v < admg_node_count a"
  by (simp add: admg_rel_def admg_node_count_def dc_rel_bound wf_simps)

lemma admg_bi_bound:
  assumes "admg_inv a" "(u, v) \<in> admg_bi a"
  shows "u < admg_node_count a \<and> v < admg_node_count a"
  using admg_inv_core(3)[OF assms(1)] assms(2) rows_closed_row[of "ad_bidirected a" v u]
    in_row_length[of v "ad_bidirected a" u]
  by (simp add: bi_inv_def admg_bi_def)

lemma admg_bi_sym: "admg_inv a \<Longrightarrow> (u, v) \<in> admg_bi a \<longleftrightarrow> (v, u) \<in> admg_bi a"
  using admg_inv_core(3)[of a] unfolding bi_inv_def admg_bi_def sym_def by blast

lemma admg_bi_irrefl: "admg_inv a \<Longrightarrow> (u, u) \<notin> admg_bi a"
  using admg_inv_core(3)[of a] unfolding bi_inv_def admg_bi_def irrefl_def by blast

lemma arcs_admg [simp]:
  "arcs (admg_children a) = admg_rel a" "arcs (admg_bidirected_neighbors a) = admg_bi a"
  by (auto simp: in_admg_children in_admg_bi)

interpretation ag: digraph admg_inv admg_node_count admg_children admg_parents
proof unfold_locales
  fix a :: admg
  assume a: "admg_inv a"
  show "u < admg_node_count a \<and> v < admg_node_count a" if "v \<in> set (admg_children a u)" for u v
    using admg_rel_bound[OF a] that by (simp add: in_admg_children)
  show "u \<in> set (admg_parents a v) \<longleftrightarrow> v \<in> set (admg_children a u)" for u v
    using in_admg_parents[OF a] by (simp add: in_admg_children)
  show "acyclic (arcs (admg_children a))"
    using a by (simp add: admg_rel_def admg_inv_def dc_inv_def)
qed

lemma bi_inv_push:
  assumes "bi_inv n rows" "a < n" "b < n" "a \<noteq> b" "b \<notin> set (rows ! a)"
  shows "bi_inv n (push_row (push_row rows a b) b a)"
    and "row_rel (push_row (push_row rows a b) b a) = row_rel rows \<union> {(a, b), (b, a)}"
proof -
  have len: "length rows = n" and closed: "rows_closed rows" and d: "\<forall>r \<in> set rows. distinct r"
    and s: "sym (row_rel rows)" and i: "irrefl (row_rel rows)"
    using assms(1) by (simp_all add: bi_inv_def)
  have "(a, b) \<notin> row_rel rows" using assms(2,5) len by (simp add: row_nth)
  then have "(b, a) \<notin> row_rel rows" using s by (meson symD)
  then have nb: "a \<notin> set (rows ! b)" using assms(3) len by (simp add: row_nth)
  let ?r1 = "push_row rows a b"
  have r1b: "?r1 ! b = rows ! b" using assms(2,4) len by (simp add: push_row_def)
  show rel: "row_rel (push_row ?r1 b a) = row_rel rows \<union> {(a, b), (b, a)}"
    using assms(2,3) len by (auto simp: row_rel_push_row)
  have "rows_closed (push_row ?r1 b a)"
    using closed assms(2,3) len by (simp add: rows_closed_push_row)
  moreover have "\<forall>r \<in> set (push_row ?r1 b a). distinct r"
    using distinct_push_row[OF distinct_push_row[OF d]] assms(2,3,5) nb len r1b by simp
  moreover have "sym (row_rel (push_row ?r1 b a))" unfolding rel using s by (auto simp: sym_def)
  moreover have "irrefl (row_rel (push_row ?r1 b a))" unfolding rel using i assms(4) by (auto simp: irrefl_def)
  ultimately show "bi_inv n (push_row ?r1 b a)" using len by (simp add: bi_inv_def)
qed

section \<open>Insertion\<close>

definition admg_refusal :: "admg \<Rightarrow> dense_id \<Rightarrow> dense_id \<Rightarrow> graph_error" where
  "admg_refusal a src tgt =
     (if src \<ge> admg_node_count a then UnknownNode src
      else if tgt \<ge> admg_node_count a then UnknownNode tgt
      else if src = tgt then InvalidEndpoints ''Admg rejects directed self-loops''
      else if (src, tgt) \<in> admg_rel a then DuplicateEdge src tgt
      else Cycle src tgt)"

lemma admg_insert_directed_cases:
  assumes "admg_inv a"
  obtains (refused) a' where "admg_insert_directed a src tgt = Some (Inl (admg_refusal a src tgt), a')"
      "admg_eq a' a" "admg_inv a'"
      "\<not> (src < admg_node_count a \<and> tgt < admg_node_count a \<and> src \<noteq> tgt \<and> (src, tgt) \<notin> admg_rel a \<and>
         (tgt, src) \<notin> (admg_rel a)\<^sup>*)"
  | (inserted) a' where "admg_insert_directed a src tgt = Some (Inr (), a')" "admg_inv a'"
      "src < admg_node_count a" "tgt < admg_node_count a" "src \<noteq> tgt" "(src, tgt) \<notin> admg_rel a"
      "(tgt, src) \<notin> (admg_rel a)\<^sup>*" "admg_rel a' = insert (src, tgt) (admg_rel a)"
      "ad_bidirected a' = ad_bidirected a" "admg_nodes a' = admg_nodes a"
proof (cases "src < admg_node_count a \<and> tgt < admg_node_count a \<and> src \<noteq> tgt")
  case False
  then have "admg_insert_directed a src tgt = Some (Inl (admg_refusal a src tgt), a)"
    by (cases "src < admg_node_count a"; cases "tgt < admg_node_count a")
      (simp_all add: admg_insert_directed_def admg_validate_node_def admg_refusal_def)
  then show thesis using refused False assms
    by (simp add: admg_eq_def dc_same_directed_def dc_same_edges_def)
next
  case True
  let ?g = "ad_directed a"
  have inv: "dc_inv ?g" using assms by (rule admg_inv_core)
  have bounds: "src < dc_node_count ?g" "tgt < dc_node_count ?g" using True by (simp_all add: admg_node_count_def)
  have run: "admg_insert_directed a src tgt =
      map_option (\<lambda>(r, g). (r, a\<lparr>ad_directed := g\<rparr>)) (dc_try_insert ?g src tgt)"
    using True by (simp add: admg_insert_directed_def admg_validate_node_def)
  from inv bounds show thesis
  proof (cases rule: dc_try_insert_cases)
    case duplicate
    then show thesis using refused[of a] run assms True
      by (simp add: admg_refusal_def admg_rel_def admg_eq_def dc_same_directed_def dc_same_edges_def)
  next
    case (cycle ws)
    let ?a = "a\<lparr>ad_directed := ?g\<lparr>dc_insert_ws := ws\<rparr>\<rparr>"
    have "dc_wf (?g\<lparr>dc_insert_ws := ws\<rparr>)"
      by (rule dc_wf_tables[of ?g]) (use cycle(3) inv in \<open>simp_all add: dc_tables_def dc_inv_def\<close>)
    then have "admg_inv ?a"
      using assms by (simp add: admg_inv_def dc_inv_def dc_rel_def admg_nodes_def admg_node_count_def dc_node_count_def)
    with cycle show thesis using refused[of ?a] run True
      by (simp add: admg_refusal_def admg_rel_def admg_eq_def dc_same_directed_def dc_same_edges_def)
  next
    case (inserted g')
    let ?a = "a\<lparr>ad_directed := g'\<rparr>"
    have "admg_inv ?a" using assms inserted(4,5)
      by (simp add: admg_inv_def admg_nodes_def admg_node_count_def dc_node_count_def)
    with inserted show thesis using that(2)[of ?a] True run by (simp add: admg_rel_def admg_nodes_def)
  qed
qed

lemma admg_insert_bidirected_spec:
  assumes "admg_inv g"
  shows "\<exists>r g'. admg_insert_bidirected g a b = Some (r, g') \<and> admg_inv g' \<and> ad_directed g' = ad_directed g \<and>
    (r = Inr () \<longleftrightarrow> a < admg_node_count g \<and> b < admg_node_count g \<and> a \<noteq> b \<and> (a, b) \<notin> admg_bi g) \<and>
    (r = Inr () \<longrightarrow> admg_bi g' = admg_bi g \<union> {(a, b), (b, a)}) \<and> (r \<noteq> Inr () \<longrightarrow> g' = g)"
proof (cases "a < admg_node_count g \<and> b < admg_node_count g \<and> a \<noteq> b")
  case False
  then show ?thesis using assms by (auto simp: admg_insert_bidirected_def admg_validate_node_def)
next
  case True
  let ?rows = "ad_bidirected g"
  have bi: "bi_inv (admg_node_count g) ?rows" using assms by (rule admg_inv_core)
  then have len: "length ?rows = admg_node_count g" by (simp add: bi_inv_def)
  have mem: "b \<in> set (?rows ! a) \<longleftrightarrow> (a, b) \<in> admg_bi g" using True len by (simp add: admg_bi_def row_nth)
  show ?thesis
  proof (cases "(a, b) \<in> admg_bi g")
    case in_bi: True
    then show ?thesis using True mem len assms
      by (simp add: admg_insert_bidirected_def admg_validate_node_def)
  next
    case new: False
    let ?g = "g\<lparr>ad_bidirected := push_row (push_row ?rows a b) b a\<rparr>"
    have b: "b \<notin> set (?rows ! a)" using mem new by simp
    have "admg_inv ?g"
      using assms bi_inv_push(1)[OF bi _ _ _ b] True
      by (simp add: admg_inv_def admg_nodes_def admg_node_count_def)
    moreover have "admg_bi ?g = admg_bi g \<union> {(a, b), (b, a)}"
      using bi_inv_push(2)[OF bi _ _ _ b] True by (simp add: admg_bi_def)
    moreover have "admg_insert_bidirected g a b = Some (Inr (), ?g)"
      using True b len by (simp add: admg_insert_bidirected_def admg_validate_node_def)
    ultimately show ?thesis using True new by simp
  qed
qed

lemma admg_insert_directed_total:
  assumes "admg_inv a"
  shows "\<exists>r a'. admg_insert_directed a src tgt = Some (r, a') \<and> admg_inv a'"
  by (rule admg_insert_directed_cases[OF assms, of src tgt]) simp_all

lemma admg_insert_marked_inv:
  assumes "admg_inv g"
  shows "\<exists>r g'. admg_insert_marked g e = Some (r, g') \<and> admg_inv g'"
  using admg_insert_directed_total[OF assms] admg_insert_bidirected_spec[OF assms, of "me_a e" "me_b e"] assms
  by (auto simp: admg_insert_marked_def split: option.splits)

text \<open>The last branch of \<open>insert_marked\<close> is unreachable: a legal edge is bidirected or has a parent.\<close>

lemma admg_insert_marked_recognized:
  "is_admg_legal e \<Longrightarrow> is_bidirected e \<or> (\<exists>p c. parent_child e = Some (p, c))"
  by (auto simp: mark_tests parent_child_def split: endpoint.splits)

section \<open>Batch insertion\<close>

interpretation aw: core_wrapper admg_inv ad_directed "\<lambda>a g. a\<lparr>ad_directed := g\<rparr>" "\<lambda>_ s t. s \<noteq> t" admg_insert_directed
  by unfold_locales
    (auto simp: admg_inv_def admg_nodes_def admg_insert_directed_def admg_validate_node_def
      admg_node_count_def dc_node_count_def)

definition admg_insert_one_by_one ::
  "admg \<Rightarrow> (dense_id \<times> dense_id) list \<Rightarrow> ((graph_error + unit) \<times> admg) option" where
  "admg_insert_one_by_one a edges = try_each (\<lambda>(src, tgt) a'. admg_insert_directed a' src tgt) edges a"

lemma admg_insert_directed_edges_spec:
  assumes "admg_inv a"
  shows "\<exists>r a1 a2. admg_insert_directed_edges a es = Some (r, a1) \<and> admg_insert_one_by_one a es = Some (r, a2) \<and>
    admg_eq a1 a2 \<and> admg_inv a1"
proof -
  let ?g = "ad_directed a"
  have inv: "dc_inv ?g" "dc_wf ?g" using assms by (simp_all add: wf_simps)
  show ?thesis
  proof (cases "(\<forall>(s, t) \<in> set es. s \<noteq> t) \<and> fresh_edges ?g es \<and> acyclic (dc_rel ?g \<union> set es)")
    case True
    then obtain g' e' where run: "dc_push_edges ?g es = Some g'" "admg_insert_one_by_one a es = Some (Inr (), e')"
        "dc_tables g' = dc_tables (ad_directed e')" "admg_inv (a\<lparr>ad_directed := g'\<rparr>)"
        "e' = a\<lparr>ad_directed := ad_directed e'\<rparr>"
      using aw.batch_same[OF assms, of es] unfolding admg_insert_one_by_one_def by blast
    have "ad_bidirected e' = ad_bidirected a" by (subst run(5)) simp
    moreover have "\<not> (\<exists>(s, t) \<in> set es. s = t)" using True by auto
    ultimately show ?thesis using run(1-4) True
      by (simp add: admg_insert_directed_edges_def dc_accepts_new_edges_spec[OF inv(1)] admg_eq_def
          dc_same_directed_tables)
  next
    case False
    have "\<exists>r a'. try_each (\<lambda>(src, tgt) a'. admg_insert_directed a' src tgt) es a = Some (r, a') \<and> admg_inv a'"
      by (rule try_each_invariant[where P = admg_inv])
        (use admg_insert_directed_total assms in \<open>auto split: prod.split\<close>)
    then obtain r a' where run: "admg_insert_one_by_one a es = Some (r, a')" "admg_inv a'"
      unfolding admg_insert_one_by_one_def by blast
    have "admg_insert_directed_edges a es = admg_insert_one_by_one a es"
    proof (cases "\<exists>(s, t) \<in> set es. s = t")
      case True
      then show ?thesis by (simp add: admg_insert_directed_edges_def admg_insert_one_by_one_def Let_def)
    next
      case noloop: False
      then have "\<not> (fresh_edges ?g es \<and> acyclic (dc_rel ?g \<union> set es))" using False by auto
      then show ?thesis
        using noloop unfolding admg_insert_directed_edges_def dc_accepts_new_edges_spec[OF inv(1)]
          admg_insert_one_by_one_def Let_def by (simp only: option.case bool.case if_False)
    qed
    with run show ?thesis by (simp add: admg_eq_def dc_same_directed_def dc_same_edges_def)
  qed
qed

section \<open>Constructors and conversions\<close>

definition admg_edgeless :: "node_ref list \<Rightarrow> admg \<Rightarrow> bool" where
  "admg_edgeless ns a \<longleftrightarrow> edgeless ns (ad_directed a) \<and> ad_bidirected a = replicate (length ns) []"

lemma bi_inv_replicate: "bi_inv n (replicate n [])"
  by (auto simp: bi_inv_def rows_closed_def sym_def irrefl_def)

lemma admg_edgeless_inv:
  assumes "admg_edgeless ns a" "length ns \<le> id_space" "\<forall>n \<in> set ns. is_static_graph_node n"
  shows "admg_inv a" "admg_rel a = {}" "admg_bi a = {}" "admg_nodes a = ns" "admg_node_count a = length ns"
  using assms edgeless_inv[of ns "ad_directed a"]
  by (auto simp: admg_edgeless_def admg_inv_def admg_rel_def admg_bi_def admg_nodes_def edgeless_def
      admg_node_count_def dc_node_count_def bi_inv_replicate)

lemma admg_add_node_edgeless:
  assumes "admg_edgeless ns a" "is_static_graph_node n" "length ns < id_space"
  shows "\<exists>a'. admg_add_node a n = (Inr (length ns), a') \<and> admg_edgeless (ns @ [n]) a'"
proof -
  have e: "edgeless ns (ad_directed a)" using assms(1) by (simp add: admg_edgeless_def)
  then have "dc_nodes (ad_directed a) = ns" by (simp add: edgeless_def)
  then show ?thesis using assms edgeless_push[OF e, of n]
    by (simp add: admg_add_node_def dc_push_labeled_def try_from_usize_def admg_edgeless_def
        replicate_append_same)
qed

lemma admg_add_statics_edgeless:
  assumes "admg_edgeless ns a" "length ns + length vs \<le> id_space"
  shows "admg_edgeless (ns @ map Static vs) (admg_add_statics a vs)"
  using assms
proof (induction vs arbitrary: ns a)
  case (Cons v vs)
  have "length ns < id_space" using Cons.prems(2) by simp
  then obtain a' where "admg_add_node a (Static v) = (Inr (length ns), a')" "admg_edgeless (ns @ [Static v]) a'"
    using admg_add_node_edgeless[OF Cons.prems(1), of "Static v"] by auto
  with Cons.IH[OF this(2)] Cons.prems(2) show ?case by simp
qed simp

lemma admg_empty_edgeless: "admg_edgeless [] admg_empty"
  by (simp add: admg_edgeless_def admg_empty_def edgeless_new)

lemma admg_with_variables_edgeless:
  "n \<le> id_space \<Longrightarrow> admg_edgeless (map Static [0..<n]) (admg_with_variables n)"
  using admg_add_statics_edgeless[OF admg_empty_edgeless, of "[0..<n]"] by (simp add: admg_with_variables_def)

lemma admg_with_variables_spec:
  assumes "n \<le> id_space"
  shows "admg_inv (admg_with_variables n)" "admg_node_count (admg_with_variables n) = n"
    and "admg_rel (admg_with_variables n) = {}" "admg_bi (admg_with_variables n) = {}"
  using admg_edgeless_inv[OF admg_with_variables_edgeless[OF assms]] assms by auto

lemma admg_insert_resolved_inv:
  assumes "admg_inv a"
  shows "\<exists>r a'. admg_insert_resolved s names pending a = Some (r, a') \<and> admg_inv a'"
  using assms
proof (induction s names pending a rule: admg_insert_resolved.induct)
  case (1 s pending a)
  then show ?case using admg_insert_directed_edges_spec[of a pending] by auto
next
  case (2 s x y rest pending a)
  show ?case
  proof (cases "resolve_named_edge s x y")
    case (Inl err)
    obtain r a' where "admg_insert_directed_edges a pending = Some (r, a')" "admg_inv a'"
      using admg_insert_directed_edges_spec[OF "2.prems", of pending] by blast
    then show ?thesis using Inl by (cases r) simp_all
  next
    case (Inr pair)
    then show ?thesis using "2.IH" "2.prems" by simp
  qed
qed

lemma admg_from_named_edges_spec:
  assumes "schema_inv s"
  shows "\<exists>r. admg_from_named_edges s edges = Some r \<and> (\<forall>a. r = Inr a \<longrightarrow> admg_inv a)"
proof -
  have n: "cs_len s \<le> id_space" using assms by (simp add: schema_inv_def)
  obtain r a where "admg_insert_resolved s edges [] (admg_with_variables (cs_len s)) = Some (r, a)" "admg_inv a"
    using admg_insert_resolved_inv[OF admg_with_variables_spec(1)[OF n]] by blast
  then show ?thesis
    by (cases r) (simp_all add: admg_from_named_edges_def schema_node_count_ok[OF assms])
qed

lemma admg_topological_order_spec:
  assumes "admg_inv a"
  shows "\<exists>order. admg_topological_order a = Some (Some order) \<and>
    topological (admg_rel a) {..<admg_node_count a} order"
  using dc_topological_order_spec[OF admg_inv_core(2)[OF assms]] assms
  by (auto simp: admg_topological_order_def admg_rel_def admg_node_count_def admg_inv_def dc_inv_def)

lemma admg_validate_ok:
  assumes "dc_inv (ad_directed a)"
  shows "admg_validate a = Some (Inr ())"
proof -
  let ?g = "ad_directed a"
  have wf: "dc_wf ?g" using assms by (rule dc_inv_wf)
  have "length (dc_parents ?g) = length (dc_children ?g)" using dc_wfD(1,2)[OF wf] by simp
  from is_dag_kahn_order[OF this] dc_topological_order_spec[OF wf] assms show ?thesis
    by (auto simp: admg_validate_def dc_topological_order_def dc_inv_def)
qed

lemma admg_from_dag_spec:
  assumes "dag_inv d"
  shows "\<exists>a. admg_from_dag d = Some (Inr a) \<and> admg_inv a \<and> admg_rel a = dag_rel d \<and> admg_bi a = {} \<and>
    admg_nodes a = dag_nodes d \<and> admg_directed_part a = Inr d"
proof -
  let ?a = "\<lparr>ad_directed = dag_directed d, ad_bidirected = replicate (dag_node_count d) []\<rparr>"
  have "dc_inv (ad_directed ?a)" using assms by (simp add: wf_simps)
  then have "admg_validate ?a = Some (Inr ())" by (rule admg_validate_ok)
  moreover have "admg_inv ?a" using assms
    by (simp add: admg_inv_def dag_inv_def admg_nodes_def dag_nodes_def admg_node_count_def dag_node_count_def
        bi_inv_replicate)
  ultimately show ?thesis
    by (simp add: admg_from_dag_def admg_rel_def dag_rel_def admg_bi_def admg_nodes_def dag_nodes_def
        admg_directed_part_def)
qed

lemma admg_directed_part_spec:
  assumes "admg_inv a"
  shows "\<exists>d. admg_directed_part a = Inr d \<and> dag_inv d \<and> dag_rel d = admg_rel a \<and> dag_nodes d = admg_nodes a"
  using assms by (simp add: admg_directed_part_def dag_inv_def admg_inv_def dag_rel_def admg_rel_def
      dag_nodes_def admg_nodes_def)

section \<open>Filtered copies keep the accepted edges\<close>

text \<open>
  The copy so far: rows below \<open>k\<close> have been copied. A bidirected edge is copied at its lower end.
\<close>

definition copied :: "(dense_id \<Rightarrow> dense_id \<Rightarrow> bool) \<Rightarrow> (dense_id \<Rightarrow> dense_id \<Rightarrow> bool) \<Rightarrow> admg \<Rightarrow>
    node_ref list \<Rightarrow> nat \<Rightarrow> admg \<Rightarrow> bool" where
  "copied keep_d keep_b a ns k out \<longleftrightarrow> admg_inv out \<and> admg_nodes out = ns \<and>
     admg_rel out = {(u, v) \<in> admg_rel a. u < k \<and> keep_d u v} \<and>
     admg_bi out = {(u, v) \<in> admg_bi a. min u v < k \<and> keep_b (min u v) (max u v)}"

lemma copy_directed_row_push:
  "copy_directed_row keep src ts out =
     map_option (\<lambda>g. out\<lparr>ad_directed := g\<rparr>)
       (dc_push_edges (ad_directed out) (map (Pair src) (filter (keep src) ts)))"
  by (induction keep src ts out rule: copy_directed_row.induct) (auto split: option.splits)

lemma copy_directed_row_spec:
  assumes "admg_inv out" "distinct ts" "src < admg_node_count out" "set ts \<subseteq> {..<admg_node_count out}"
    and "\<forall>t. (src, t) \<notin> admg_rel out"
    and "acyclic (admg_rel out \<union> {(src, t) | t. t \<in> set ts \<and> keep src t})"
  shows "\<exists>out'. copy_directed_row keep src ts out = Some out' \<and> admg_inv out' \<and>
    admg_nodes out' = admg_nodes out \<and> ad_bidirected out' = ad_bidirected out \<and>
    admg_rel out' = admg_rel out \<union> {(src, t) | t. t \<in> set ts \<and> keep src t}"
proof -
  let ?g = "ad_directed out" and ?es = "map (Pair src) (filter (keep src) ts)"
  have wf: "dc_wf ?g" using assms(1) by (simp add: wf_simps)
  have "fresh_edges ?g ?es"
    using assms(2-5) by (auto simp: fresh_edges_def distinct_map inj_on_def admg_node_count_def admg_rel_def)
  from dc_push_edges_spec[OF wf this] obtain g' where
    g': "dc_push_edges ?g ?es = Some g'" "dc_wf g'" "dc_nodes g' = dc_nodes ?g" "dc_rel g' = dc_rel ?g \<union> set ?es"
    by blast
  have set: "set ?es = {(src, t) | t. t \<in> set ts \<and> keep src t}" by auto
  have "dc_inv g'" using g'(2,4) assms(6) unfolding set by (simp add: dc_inv_def admg_rel_def)
  then have "admg_inv (out\<lparr>ad_directed := g'\<rparr>)"
    using assms(1) g'(3) by (simp add: admg_inv_def admg_nodes_def admg_node_count_def dc_node_count_def)
  then show ?thesis
    using g' unfolding set by (simp add: copy_directed_row_push admg_nodes_def admg_rel_def)
qed

lemma copy_bidirected_row_spec:
  assumes "admg_inv out" "distinct ts" "src < admg_node_count out" "set ts \<subseteq> {..<admg_node_count out}"
    and "\<forall>t \<in> set ts. t > src \<longrightarrow> (src, t) \<notin> admg_bi out"
  shows "\<exists>out'. copy_bidirected_row keep src ts out = Some (Inr (), out') \<and> admg_inv out' \<and>
    ad_directed out' = ad_directed out \<and>
    admg_bi out' = admg_bi out \<union> {(src, t) | t. t \<in> set ts \<and> t > src \<and> keep src t}
      \<union> {(t, src) | t. t \<in> set ts \<and> t > src \<and> keep src t}"
  using assms
proof (induction ts arbitrary: out)
  case Nil
  then show ?case by (simp add: copy_bidirected_row_def)
next
  case (Cons t ts)
  show ?case
  proof (cases "t > src \<and> keep src t")
    case True
    obtain r g' where ins: "admg_insert_bidirected out src t = Some (r, g')" "admg_inv g'"
        "ad_directed g' = ad_directed out"
        "r = Inr () \<longleftrightarrow> src < admg_node_count out \<and> t < admg_node_count out \<and> src \<noteq> t \<and> (src, t) \<notin> admg_bi out"
        "r = Inr () \<longrightarrow> admg_bi g' = admg_bi out \<union> {(src, t), (t, src)}"
      using admg_insert_bidirected_spec[OF Cons.prems(1), of src t] by blast
    have r: "r = Inr ()" using ins(4) Cons.prems(3-5) True by auto
    have cnt: "admg_node_count g' = admg_node_count out" using ins(3) by (simp add: admg_node_count_def)
    have "\<exists>out'. copy_bidirected_row keep src ts g' = Some (Inr (), out') \<and> admg_inv out' \<and>
        ad_directed out' = ad_directed g' \<and>
        admg_bi out' = admg_bi g' \<union> {(src, t) | t. t \<in> set ts \<and> t > src \<and> keep src t}
          \<union> {(t, src) | t. t \<in> set ts \<and> t > src \<and> keep src t}"
      by (rule Cons.IH) (use ins r cnt Cons.prems True in auto)
    then show ?thesis using ins(1,3,5) r True by (auto simp: copy_bidirected_row_def)
  next
    case False
    then have "copy_bidirected_row keep src (t # ts) out = copy_bidirected_row keep src ts out"
      by (auto simp: copy_bidirected_row_def)
    moreover have "\<exists>out'. copy_bidirected_row keep src ts out = Some (Inr (), out') \<and> admg_inv out' \<and>
        ad_directed out' = ad_directed out \<and>
        admg_bi out' = admg_bi out \<union> {(src, t) | t. t \<in> set ts \<and> t > src \<and> keep src t}
          \<union> {(t, src) | t. t \<in> set ts \<and> t > src \<and> keep src t}"
      by (rule Cons.IH) (use Cons.prems in auto)
    ultimately show ?thesis using False by auto
  qed
qed

lemma copy_admg_row:
  assumes a: "admg_inv a" and c: "copied keep_d keep_b a ns k out" and k: "k < admg_node_count a"
    and n: "admg_node_count a \<le> length ns"
  shows "\<exists>out1 out2. copy_directed_row keep_d k (admg_children a k) out = Some out1 \<and>
    copy_bidirected_row keep_b k (admg_bidirected_neighbors a k) out1 = Some (Inr (), out2) \<and>
    copied keep_d keep_b a ns (Suc k) out2"
proof -
  have out: "admg_inv out" "admg_nodes out = ns"
    and rel: "admg_rel out = {(u, v) \<in> admg_rel a. u < k \<and> keep_d u v}"
    and bi: "admg_bi out = {(u, v) \<in> admg_bi a. min u v < k \<and> keep_b (min u v) (max u v)}"
    using c by (simp_all add: copied_def)
  have cnt: "admg_node_count out = length ns" using out(2) by (simp add: admg_node_count_def dc_node_count_def admg_nodes_def)
  let ?D = "{(k, t) | t. t \<in> set (admg_children a k) \<and> keep_d k t}"
  have "distinct (admg_children a k)"
    using dc_wf_distinct(1)[OF admg_inv_core(2)[OF a], of k] k dc_wfD(1)[OF admg_inv_core(2)[OF a]]
    by (simp add: admg_children_def dc_children_of_def row_def admg_node_count_def)
  moreover have "set (admg_children a k) \<subseteq> {..<admg_node_count out}"
    using admg_rel_bound[OF a] n cnt by (fastforce simp: in_admg_children)
  moreover have "acyclic (admg_rel out \<union> ?D)"
    by (rule acyclic_subset[OF ag.no_cycle[OF a]]) (auto simp: rel in_admg_children)
  moreover have "\<forall>t. (k, t) \<notin> admg_rel out" by (simp add: rel)
  ultimately obtain out1 where out1: "copy_directed_row keep_d k (admg_children a k) out = Some out1"
      "admg_inv out1" "admg_nodes out1 = ns" "ad_bidirected out1 = ad_bidirected out"
      "admg_rel out1 = admg_rel out \<union> ?D"
    using copy_directed_row_spec[OF out(1), of "admg_children a k" k keep_d] out(2) k n cnt by auto
  have cnt1: "admg_node_count out1 = length ns"
    using out1(3) by (simp add: admg_node_count_def dc_node_count_def admg_nodes_def)
  have bi1: "admg_bi out1 = admg_bi out" using out1(4) by (simp add: admg_bi_def)
  let ?ts = "admg_bidirected_neighbors a k"
  have "distinct ?ts"
    using admg_inv_core(3)[OF a] by (auto simp: bi_inv_def admg_bidirected_neighbors_def row_def)
  moreover have "set ?ts \<subseteq> {..<admg_node_count out1}"
    using admg_bi_bound[OF a] n cnt1 by (fastforce simp: in_admg_bi)
  moreover have "\<forall>t \<in> set ?ts. t > k \<longrightarrow> (k, t) \<notin> admg_bi out1" by (auto simp: bi1 bi)
  ultimately obtain out2 where out2: "copy_bidirected_row keep_b k ?ts out1 = Some (Inr (), out2)"
      "admg_inv out2" "ad_directed out2 = ad_directed out1"
      "admg_bi out2 = admg_bi out1 \<union> {(k, t) | t. t \<in> set ?ts \<and> t > k \<and> keep_b k t}
        \<union> {(t, k) | t. t \<in> set ?ts \<and> t > k \<and> keep_b k t}"
    using copy_bidirected_row_spec[OF out1(2), of ?ts k keep_b] k n cnt1 by auto
  have rel2: "admg_rel out2 = {(u, v) \<in> admg_rel a. u < Suc k \<and> keep_d u v}"
  proof -
    have "admg_rel out2 = admg_rel out \<union> ?D" using out2(3) out1(5) by (simp add: admg_rel_def)
    then show ?thesis unfolding rel by (auto simp: in_admg_children less_Suc_eq)
  qed
  have bi2: "admg_bi out2 = {(u, v) \<in> admg_bi a. min u v < Suc k \<and> keep_b (min u v) (max u v)}"
  proof -
    have "(u, v) \<in> admg_bi out2 \<longleftrightarrow> (u, v) \<in> admg_bi a \<and> min u v < Suc k \<and> keep_b (min u v) (max u v)" for u v
    proof -
      consider "u = v" | "u < v" | "v < u" by linarith
      then show ?thesis
      proof cases
        case 1
        then show ?thesis using admg_bi_irrefl[OF a] admg_bi_irrefl[OF out2(2)] by simp
      next
        case 2
        then show ?thesis unfolding out2(4) bi1 bi by (auto simp: in_admg_bi less_Suc_eq)
      next
        case 3
        then show ?thesis unfolding out2(4) bi1 bi
          by (auto simp: in_admg_bi less_Suc_eq admg_bi_sym[OF a, of u v])
      qed
    qed
    then show ?thesis by auto
  qed
  have "admg_nodes out2 = ns" using out2(3) out1(3) by (simp add: admg_nodes_def)
  then have "copied keep_d keep_b a ns (Suc k) out2" using rel2 bi2 out2(2) by (simp add: copied_def)
  with out1(1) out2(1) show ?thesis by blast
qed

lemma copy_admg_rows_spec:
  assumes a: "admg_inv a" and n: "admg_node_count a \<le> length ns"
    and "copied keep_d keep_b a ns k out" "k \<le> admg_node_count a"
  shows "\<exists>out'. copy_admg_rows keep_d keep_b a [k..<admg_node_count a] out = Some (Inr (), out') \<and>
    copied keep_d keep_b a ns (admg_node_count a) out'"
  using assms(3,4)
proof (induction "admg_node_count a - k" arbitrary: k out)
  case 0
  then show ?case by simp
next
  case (Suc m)
  then have k: "k < admg_node_count a" and up: "[k..<admg_node_count a] = k # [Suc k..<admg_node_count a]"
    by (simp_all add: upt_conv_Cons)
  obtain out1 out2 where step: "copy_directed_row keep_d k (admg_children a k) out = Some out1"
      "copy_bidirected_row keep_b k (admg_bidirected_neighbors a k) out1 = Some (Inr (), out2)"
      "copied keep_d keep_b a ns (Suc k) out2"
    using copy_admg_row[OF a Suc.prems(1) k n] by blast
  have "m = admg_node_count a - Suc k" using Suc.hyps(2) by simp
  from Suc.hyps(1)[OF this step(3)] k step(1,2) show ?case by (simp add: up)
qed

lemma copy_nodes_preserve:
  assumes "admg_edgeless ns out" "length ns + length ms \<le> id_space" "\<forall>n \<in> set ms. is_static_graph_node n"
  shows "\<exists>out'. for_each (\<lambda>node out. case admg_add_node out node of
        (Inl e, o') \<Rightarrow> (Inl e, o') | (Inr _, o') \<Rightarrow> (Inr (), o')) ms out = (Inr (), out') \<and>
    admg_edgeless (ns @ ms) out'"
  using assms
proof (induction ms arbitrary: ns out)
  case (Cons m ms)
  obtain out1 where "admg_add_node out m = (Inr (length ns), out1)" "admg_edgeless (ns @ [m]) out1"
    using admg_add_node_edgeless[OF Cons.prems(1), of m] Cons.prems(2,3) by auto
  with Cons.IH[OF this(2)] Cons.prems(2,3) show ?case by simp
qed simp

definition copy_label_list :: "admg \<Rightarrow> copy_labels \<Rightarrow> node_ref list" where
  "copy_label_list a labels =
     (case labels of Preserve \<Rightarrow> admg_nodes a | StaticIndex ex \<Rightarrow> map Static [0..<admg_node_count a + ex])"

text \<open>The copy has room for its labels: only \<open>StaticIndex\<close> can run out of ids.\<close>

definition copy_fits :: "admg \<Rightarrow> copy_labels \<Rightarrow> bool" where
  "copy_fits a labels \<longleftrightarrow> (case labels of Preserve \<Rightarrow> True | StaticIndex ex \<Rightarrow> admg_node_count a + ex < id_space)"

lemma copy_nodes_spec:
  assumes "admg_inv a" "copy_fits a labels"
  shows "\<exists>out. copy_nodes a labels = Inr out \<and> admg_edgeless (copy_label_list a labels) out"
proof (cases labels)
  case Preserve
  have nodes: "length (admg_nodes a) \<le> id_space" "\<forall>n \<in> set (admg_nodes a). is_static_graph_node n"
    using assms(1) dc_wfD(3,4)[OF admg_inv_core(2)[OF assms(1)]] by (auto simp: admg_inv_def admg_nodes_def)
  from copy_nodes_preserve[OF admg_empty_edgeless _ nodes(2)] nodes(1) Preserve show ?thesis
    by (auto simp: copy_nodes_def copy_label_list_def)
next
  case (StaticIndex x)
  then show ?thesis using assms(2) admg_with_variables_edgeless[of "admg_node_count a + x"]
    by (simp add: copy_nodes_def copy_label_list_def copy_fits_def)
qed

lemma admg_copy_filtered_spec:
  assumes "admg_inv a"
  shows "copy_fits a labels \<Longrightarrow>
      \<exists>c. admg_copy_filtered a labels keep_d keep_b = Some (Inr c) \<and> admg_inv c \<and>
        admg_nodes c = copy_label_list a labels \<and>
        admg_rel c = {(u, v) \<in> admg_rel a. keep_d u v} \<and>
        admg_bi c = {(u, v) \<in> admg_bi a. keep_b (min u v) (max u v)}"
    and "\<not> copy_fits a labels \<Longrightarrow> admg_copy_filtered a labels keep_d keep_b = Some (Inl TooManyNodes)"
proof -
  assume fits: "copy_fits a labels"
  let ?ns = "copy_label_list a labels"
  obtain out where out: "copy_nodes a labels = Inr out" "admg_edgeless ?ns out"
    using copy_nodes_spec[OF assms fits] by blast
  have nodes: "length (admg_nodes a) = admg_node_count a" "admg_node_count a \<le> id_space"
    using dc_wfD(3,4)[OF admg_inv_core(2)[OF assms]] by (simp_all add: admg_nodes_def admg_node_count_def)
  have static: "\<forall>n \<in> set ?ns. is_static_graph_node n" and len: "length ?ns \<le> id_space" "admg_node_count a \<le> length ?ns"
    using assms fits nodes by (auto simp: copy_label_list_def admg_inv_def copy_fits_def split: copy_labels.splits)
  have "copied keep_d keep_b a ?ns 0 out"
    using admg_edgeless_inv[OF out(2) len(1) static] by (simp add: copied_def)
  from copy_admg_rows_spec[OF assms len(2) this] obtain c where
    c: "copy_admg_rows keep_d keep_b a [0..<admg_node_count a] out = Some (Inr (), c)"
      "copied keep_d keep_b a ?ns (admg_node_count a) c" by auto
  have "admg_rel c = {(u, v) \<in> admg_rel a. keep_d u v}"
    using c(2) admg_rel_bound[OF assms] unfolding copied_def by auto
  moreover have "admg_bi c = {(u, v) \<in> admg_bi a. keep_b (min u v) (max u v)}"
    using c(2) admg_bi_bound[OF assms] unfolding copied_def by (auto simp: min_less_iff_disj)
  ultimately show "\<exists>c. admg_copy_filtered a labels keep_d keep_b = Some (Inr c) \<and> admg_inv c \<and>
        admg_nodes c = copy_label_list a labels \<and> admg_rel c = {(u, v) \<in> admg_rel a. keep_d u v} \<and>
        admg_bi c = {(u, v) \<in> admg_bi a. keep_b (min u v) (max u v)}"
    using out(1) c by (simp add: admg_copy_filtered_def copied_def)
next
  assume "\<not> copy_fits a labels"
  then show "admg_copy_filtered a labels keep_d keep_b = Some (Inl TooManyNodes)"
    by (auto simp: copy_fits_def admg_copy_filtered_def copy_nodes_def split: copy_labels.splits)
qed

section \<open>Graphs from edge lists\<close>

text \<open>A DAG with one latent common cause.\<close>

definition admg_of_edges :: "nat \<Rightarrow> (dense_id \<times> dense_id) list \<Rightarrow> dense_id \<Rightarrow> dense_id \<Rightarrow> admg" where
  "admg_of_edges n es u v =
     snd (the (admg_insert_bidirected (projr (the (admg_from_dag (dag_of_edges n es)))) u v))"

lemma admg_of_edges:
  assumes "n \<le> id_space" "distinct es" "\<forall>(s, t) \<in> set es. s < t \<and> t < n" "u < n" "v < n" "u \<noteq> v"
  shows "admg_inv (admg_of_edges n es u v)" "admg_node_count (admg_of_edges n es u v) = n"
    and "admg_nodes (admg_of_edges n es u v) = map Static [0..<n]"
    and "admg_rel (admg_of_edges n es u v) = set es" "admg_bi (admg_of_edges n es u v) = {(u, v), (v, u)}"
proof -
  note d = dag_of_edges(2-5)[OF assms(1-3)]
  obtain a where a: "admg_from_dag (dag_of_edges n es) = Some (Inr a)" "admg_inv a" "admg_rel a = set es"
      "admg_bi a = {}" "admg_nodes a = map Static [0..<n]"
    using admg_from_dag_spec[OF d(1)] d by auto
  then have n: "admg_node_count a = n" by (simp add: admg_node_count_def admg_nodes_def dc_node_count_def)
  obtain g' where g': "admg_insert_bidirected a u v = Some (Inr (), g')" "admg_inv g'" "ad_directed g' = ad_directed a"
      "admg_bi g' = {(u, v), (v, u)}"
    using admg_insert_bidirected_spec[OF a(2), of u v] assms(4-6) n a(4) by auto
  then have res: "admg_of_edges n es u v = g'" using a(1) by (simp add: admg_of_edges_def)
  show "admg_inv (admg_of_edges n es u v)" "admg_node_count (admg_of_edges n es u v) = n"
      "admg_nodes (admg_of_edges n es u v) = map Static [0..<n]"
      "admg_rel (admg_of_edges n es u v) = set es" "admg_bi (admg_of_edges n es u v) = {(u, v), (v, u)}"
    using g' n a by (simp_all add: res admg_node_count_def admg_nodes_def admg_rel_def)
qed

text \<open>The confounded chain 0 -> 1 -> 2, 0 <-> 2.\<close>

definition confounded_chain :: admg where
  "confounded_chain = admg_of_edges 3 [(0, 1), (1, 2)] 0 2"

lemma confounded_chain: "admg_inv confounded_chain" "admg_node_count confounded_chain = 3"
    "admg_nodes confounded_chain = map Static [0..<3]"
    "admg_rel confounded_chain = {(0, 1), (1, 2)}" "admg_bi confounded_chain = {(0, 2), (2, 0)}"
  using admg_of_edges[of 3 "[(0, 1), (1, 2)]" 0 2] by (simp_all add: confounded_chain_def id_space_def)

end
