(* ===== verification/Admg_Queries.thy ===== *)
theory Admg_Queries
  imports Admg
begin

text \<open>
  \<open>admg.rs\<close>, query half: ancestor and descendant closures restricted to an active set, district
  closures and labellings, weak components, the strict ancestor sets of every node in one
  topological sweep, and the sorted edge lists. Each result is characterised by the reachability
  relation it stands for.
\<close>

section \<open>Closures\<close>

definition admg_descendants_of ::
  "admg \<Rightarrow> dense_id list \<Rightarrow> bitset \<Rightarrow> graph_workspace \<Rightarrow> (bitset \<times> graph_workspace) option" where
  "admg_descendants_of a nodes out ws =
     closure_into (admg_node_count a) (admg_children a) nodes out ws (\<lambda>_ _. True)"

definition admg_ancestors_of ::
  "admg \<Rightarrow> dense_id list \<Rightarrow> bitset \<Rightarrow> graph_workspace \<Rightarrow> (bitset \<times> graph_workspace) option" where
  "admg_ancestors_of a nodes out ws =
     closure_into (admg_node_count a) (admg_parents a) nodes out ws (\<lambda>_ _. True)"

definition in_opt :: "bitset option \<Rightarrow> dense_id \<Rightarrow> bool" where
  "in_opt s v \<longleftrightarrow> (case s of None \<Rightarrow> False | Some b \<Rightarrow> bs_contains b v)"

definition admg_descendants_within ::
  "admg \<Rightarrow> bitset \<Rightarrow> bitset \<Rightarrow> bitset option \<Rightarrow> graph_workspace \<Rightarrow> (bitset \<times> graph_workspace) option" where
  "admg_descendants_within a seeds active cut_at ws =
     (case bs_iter seeds of
        None \<Rightarrow> None
      | Some ids \<Rightarrow>
          closure_into (admg_node_count a) (admg_children a) (filter (bs_contains active) ids)
            (bs_with_len (admg_node_count a)) ws (\<lambda>u c. \<not> in_opt cut_at u \<and> bs_contains active c))"

definition admg_ancestors_within ::
  "admg \<Rightarrow> bitset \<Rightarrow> bitset \<Rightarrow> bitset option \<Rightarrow> graph_workspace \<Rightarrow> (bitset \<times> graph_workspace) option" where
  "admg_ancestors_within a seeds active bar_x ws =
     (case bs_iter seeds of
        None \<Rightarrow> None
      | Some ids \<Rightarrow>
          closure_into (admg_node_count a) (admg_parents a) (filter (bs_contains active) ids)
            (bs_with_len (admg_node_count a)) ws (\<lambda>u p. \<not> in_opt bar_x u \<and> bs_contains active p))"

definition admg_district_closure_within ::
  "admg \<Rightarrow> bitset \<Rightarrow> bitset \<Rightarrow> graph_workspace \<Rightarrow> (bitset \<times> graph_workspace) option" where
  "admg_district_closure_within a seeds active ws =
     (case bs_iter seeds of
        None \<Rightarrow> None
      | Some ids \<Rightarrow>
          closure_into (admg_node_count a) (admg_bidirected_neighbors a) (filter (bs_contains active) ids)
            (bs_with_len (admg_node_count a)) ws (\<lambda>_ w. bs_contains active w))"

definition in_set_opt :: "bitset option \<Rightarrow> nat set" where
  "in_set_opt s = {v. in_opt s v}"

lemma active_seeds:
  assumes "bs_inv seeds"
  shows "set (filter (bs_contains active) (bs_ids seeds)) = bs_members seeds \<inter> bs_members active"
  using bs_ids(1)[OF assms] by (auto simp: bs_contains_members)

text \<open>Seeds that are ids are listed without a panic.\<close>

lemma admg_within_eq:
  assumes "bs_inv seeds" "bs_members seeds \<subseteq> {..<id_space}"
  shows "admg_descendants_within a seeds active cut_at ws =
      closure_into (admg_node_count a) (admg_children a) (filter (bs_contains active) (bs_ids seeds))
        (bs_with_len (admg_node_count a)) ws (\<lambda>u c. \<not> in_opt cut_at u \<and> bs_contains active c)"
    "admg_ancestors_within a seeds active bar_x ws =
      closure_into (admg_node_count a) (admg_parents a) (filter (bs_contains active) (bs_ids seeds))
        (bs_with_len (admg_node_count a)) ws (\<lambda>u p. \<not> in_opt bar_x u \<and> bs_contains active p)"
    "admg_district_closure_within a seeds active ws =
      closure_into (admg_node_count a) (admg_bidirected_neighbors a) (filter (bs_contains active) (bs_ids seeds))
        (bs_with_len (admg_node_count a)) ws (\<lambda>_ w. bs_contains active w)"
  using bs_iter(1)[OF assms order_refl]
  by (simp_all add: admg_descendants_within_def admg_ancestors_within_def admg_district_closure_within_def)

lemma admg_descendants_within_spec:
  assumes "admg_inv a" "bs_inv seeds" "ws_inv ws" "bs_len active = admg_node_count a" "bs_members seeds \<subseteq> {..<id_space}"
  shows "\<exists>out ws'. admg_descendants_within a seeds active cut_at ws = Some (out, ws') \<and> bs_inv out \<and> ws_inv ws' \<and>
    bs_members out = {(u, c) \<in> admg_rel a. u \<notin> in_set_opt cut_at \<and> c \<in> bs_members active}\<^sup>* ``
      (bs_members seeds \<inter> bs_members active)"
proof -
  have "filtered_arcs (admg_children a) (\<lambda>u c. \<not> in_opt cut_at u \<and> bs_contains active c) =
      {(u, c) \<in> admg_rel a. u \<notin> in_set_opt cut_at \<and> c \<in> bs_members active}"
    by (auto simp: in_admg_children in_set_opt_def bs_contains_members)
  moreover have "{v \<in> set (filter (bs_contains active) (bs_ids seeds)). v < admg_node_count a} =
      bs_members seeds \<inter> bs_members active"
    unfolding active_seeds[OF assms(2)] using bs_members_below assms(4) by fastforce
  moreover from ag.descendants_closure[OF assms(1) bs_with_len(1)[of "admg_node_count a"] assms(3),
      where seeds = "filter (bs_contains active) (bs_ids seeds)"
        and keep = "\<lambda>u c. \<not> in_opt cut_at u \<and> bs_contains active c",
      folded admg_within_eq(1)[OF assms(2,5)]] obtain out ws' where
    "admg_descendants_within a seeds active cut_at ws = Some (out, ws')" "bs_inv out" "ws_inv ws'"
    "bs_members out = (filtered_arcs (admg_children a) (\<lambda>u c. \<not> in_opt cut_at u \<and> bs_contains active c))\<^sup>* ``
      {v \<in> set (filter (bs_contains active) (bs_ids seeds)). v < admg_node_count a}"
    by (elim exE conjE) (rule that)
  ultimately show ?thesis by (intro exI[of _ out] exI[of _ ws']) (simp only: simp_thms)
qed

lemma admg_ancestors_within_spec:
  assumes "admg_inv a" "bs_inv seeds" "ws_inv ws" "bs_len active = admg_node_count a" "bs_members seeds \<subseteq> {..<id_space}"
  shows "\<exists>out ws'. admg_ancestors_within a seeds active bar_x ws = Some (out, ws') \<and> bs_inv out \<and> ws_inv ws' \<and>
    bs_members out = {p. \<exists>s \<in> bs_members seeds \<inter> bs_members active.
      (p, s) \<in> {(p, u) \<in> admg_rel a. u \<notin> in_set_opt bar_x \<and> p \<in> bs_members active}\<^sup>*}"
proof -
  have "filtered_arcs (admg_children a) (\<lambda>p c. \<not> in_opt bar_x c \<and> bs_contains active p) =
      {(p, u) \<in> admg_rel a. u \<notin> in_set_opt bar_x \<and> p \<in> bs_members active}"
    by (auto simp: in_admg_children in_set_opt_def bs_contains_members)
  moreover have "v < admg_node_count a" if "v \<in> bs_members active" for v
    using bs_members_below[OF that] assms(4) by simp
  moreover from ag.ancestors_closure[OF assms(1) bs_with_len(1)[of "admg_node_count a"] assms(3),
      where seeds = "filter (bs_contains active) (bs_ids seeds)"
        and keep = "\<lambda>u p. \<not> in_opt bar_x u \<and> bs_contains active p",
      folded admg_within_eq(2)[OF assms(2,5)], unfolded active_seeds[OF assms(2)]] obtain out ws' where
    o: "admg_ancestors_within a seeds active bar_x ws = Some (out, ws')" "bs_inv out" "ws_inv ws'"
    "bs_members out = {p. \<exists>s \<in> bs_members seeds \<inter> bs_members active. s < admg_node_count a \<and>
      (p, s) \<in> (filtered_arcs (admg_children a) (\<lambda>p c. \<not> in_opt bar_x c \<and> bs_contains active p))\<^sup>*}"
    by (elim exE conjE) (rule that)
  ultimately have "bs_members out = {p. \<exists>s \<in> bs_members seeds \<inter> bs_members active.
      (p, s) \<in> {(p, u) \<in> admg_rel a. u \<notin> in_set_opt bar_x \<and> p \<in> bs_members active}\<^sup>*}" by auto
  with o(1-3) show ?thesis by (intro exI[of _ out] exI[of _ ws']) (simp only: simp_thms)
qed

text \<open>Bidirected edges with both ends in the active set.\<close>

definition district_rel :: "admg \<Rightarrow> nat set \<Rightarrow> (nat \<times> nat) set" where
  "district_rel a S = {(u, v) \<in> admg_bi a. u \<in> S \<and> v \<in> S}"

lemma sym_district_rel: "admg_inv a \<Longrightarrow> sym (district_rel a S)"
  using admg_bi_sym unfolding sym_def district_rel_def by fastforce

lemma admg_district_closure_within_spec:
  assumes "admg_inv a" "bs_inv seeds" "ws_inv ws" "bs_len active = admg_node_count a" "bs_members seeds \<subseteq> {..<id_space}"
  shows "\<exists>out ws'. admg_district_closure_within a seeds active ws = Some (out, ws') \<and> bs_inv out \<and> ws_inv ws' \<and>
    bs_members out = (district_rel a (bs_members active))\<^sup>* `` (bs_members seeds \<inter> bs_members active)"
proof -
  let ?seeds = "filter (bs_contains active) (bs_ids seeds)" and ?n = "admg_node_count a"
  let ?R = "closure_rel (admg_bidirected_neighbors a) (\<lambda>_ w. bs_contains active w)"
  have "\<exists>out' ws'. closure_into ?n (admg_bidirected_neighbors a) ?seeds (bs_with_len ?n) ws
        (\<lambda>_ w. bs_contains active w) = Some (out', ws') \<and> bs_inv out' \<and> bs_len out' = ?n \<and> ws_inv ws' \<and>
      bs_members out' = ?R\<^sup>* `` {v \<in> set ?seeds. v < ?n}"
    by (rule closure_into_spec) (use assms bs_with_len admg_bi_bound in \<open>auto simp: in_admg_bi\<close>)
  moreover have "{v \<in> set ?seeds. v < ?n} = bs_members seeds \<inter> bs_members active"
    unfolding active_seeds[OF assms(2)] using bs_members_below assms(4) by fastforce
  moreover have "?R\<^sup>* `` (bs_members seeds \<inter> bs_members active) =
      (district_rel a (bs_members active))\<^sup>* `` (bs_members seeds \<inter> bs_members active)"
  proof -
    let ?D = "district_rel a (bs_members active)"
    have rel: "?R = {(u, w) \<in> admg_bi a. w \<in> bs_members active}"
      by (auto simp: closure_rel_def in_admg_bi bs_contains_members)
    have "(s, w) \<in> ?D\<^sup>* \<and> w \<in> bs_members active" if "(s, w) \<in> ?R\<^sup>*" "s \<in> bs_members active" for s w
      using that
    proof (induction rule: rtrancl_induct)
      case (step y z)
      then have "(y, z) \<in> ?D" unfolding rel by (auto simp: district_rel_def)
      with step show ?case unfolding rel by (auto intro: rtrancl_into_rtrancl)
    qed simp
    moreover have "?D \<subseteq> ?R" unfolding rel by (auto simp: district_rel_def)
    ultimately show ?thesis using rtrancl_mono[of ?D ?R] by blast
  qed
  ultimately show ?thesis unfolding admg_within_eq(3)[OF assms(2,5)] by metis
qed

section \<open>Weak components\<close>

definition admg_weak_components :: "admg \<Rightarrow> dense_id list list" where
  "admg_weak_components a =
     components_by (admg_node_count a)
       (\<lambda>i. admg_children a i @ admg_parents a i @ admg_bidirected_neighbors a i)"

definition weak_rel :: "admg \<Rightarrow> (nat \<times> nat) set" where
  "weak_rel a = admg_rel a \<union> (admg_rel a)\<inverse> \<union> admg_bi a"

lemma admg_weak_components_spec:
  assumes "admg_inv a"
  shows "admg_weak_components a =
    map (\<lambda>s. sorted_list_of_set ((weak_rel a)\<^sup>* `` {s}))
      (filter (\<lambda>s. \<forall>t < s. (t, s) \<notin> (weak_rel a)\<^sup>*) [0..<admg_node_count a])"
proof -
  let ?nb = "\<lambda>i. admg_children a i @ admg_parents a i @ admg_bidirected_neighbors a i"
  have rel: "neighbor_rel (admg_node_count a) ?nb = weak_rel a"
    using admg_rel_bound[OF assms] admg_bi_bound[OF assms] in_admg_parents[OF assms]
    by (auto simp: neighbor_rel_def weak_rel_def in_admg_children in_admg_bi)
  have "sym (weak_rel a)" using admg_bi_sym[OF assms] unfolding sym_def weak_rel_def by auto
  then have "sym (neighbor_rel (admg_node_count a) ?nb)" unfolding rel .
  from components_by_spec[OF this] show ?thesis unfolding rel admg_weak_components_def .
qed

section \<open>Districts\<close>

text \<open>
  A label of \<open>u32::MAX\<close> means unlabelled. The growing loop is guarded by that sentinel, so it is a
  partial function; with fewer than \<open>u32::MAX\<close> labels in use it returns.
\<close>

fun dist_scan ::
  "(dense_id \<Rightarrow> bool) \<Rightarrow> nat \<Rightarrow> dense_id list \<Rightarrow> nat list \<Rightarrow> dense_id list \<Rightarrow>
    (nat list \<times> dense_id list) option" where
  "dist_scan inside nxt [] label stack = Some (label, stack)"
| "dist_scan inside nxt (v # vs) label stack =
     (if v \<ge> length label then None
      else if label ! v = u32_max \<and> inside v then dist_scan inside nxt vs (label[v := nxt]) (v # stack)
      else dist_scan inside nxt vs label stack)"

partial_function (option) dist_grow ::
  "(dense_id \<Rightarrow> dense_id list) \<Rightarrow> (dense_id \<Rightarrow> bool) \<Rightarrow> nat \<Rightarrow> nat list \<Rightarrow> dense_id list \<Rightarrow> nat list option" where
  "dist_grow nbrs inside nxt label stack =
     (case stack of
        [] \<Rightarrow> Some label
      | u # rest \<Rightarrow>
          (case dist_scan inside nxt (nbrs u) label rest of
             None \<Rightarrow> None
           | Some (label', stack') \<Rightarrow> dist_grow nbrs inside nxt label' stack'))"

declare dist_grow.simps [code]

fun dist_outer ::
  "(dense_id \<Rightarrow> dense_id list) \<Rightarrow> (dense_id \<Rightarrow> bool) \<Rightarrow> nat list \<Rightarrow> nat list \<Rightarrow> nat \<Rightarrow> (nat list \<times> nat) option" where
  "dist_outer nbrs inside [] label nxt = Some (label, nxt)"
| "dist_outer nbrs inside (i # is) label nxt =
     (if label ! i \<noteq> u32_max \<or> \<not> inside i then dist_outer nbrs inside is label nxt
      else (case dist_grow nbrs inside nxt (label[i := nxt]) [i] of
              None \<Rightarrow> None
            | Some label' \<Rightarrow>
                (if nxt \<ge> u32_max then None else dist_outer nbrs inside is label' (nxt + 1))))"

definition admg_districts_into :: "admg \<Rightarrow> bitset option \<Rightarrow> (nat list \<times> nat) option" where
  "admg_districts_into a within =
     (let n = admg_node_count a;
          inside = (\<lambda>v. case within of None \<Rightarrow> True | Some w \<Rightarrow> bs_contains w v)
      in dist_outer (admg_bidirected_neighbors a) inside [0..<n] (replicate n u32_max) 0)"

definition admg_districts :: "admg \<Rightarrow> nat list option" where
  "admg_districts a = map_option fst (admg_districts_into a None)"

definition admg_district_count :: "admg \<Rightarrow> nat option" where
  "admg_district_count a = map_option snd (admg_districts_into a None)"

fun fill_components :: "nat list \<Rightarrow> dense_id list \<Rightarrow> bitset list \<Rightarrow> bitset list option" where
  "fill_components label [] comps = Some comps"
| "fill_components label (i # is) comps =
     (if i \<ge> length label \<or> label ! i \<ge> length comps then None
      else (case bs_insert (comps ! (label ! i)) i of
              None \<Rightarrow> None
            | Some b \<Rightarrow> fill_components label is (comps[label ! i := b])))"

definition admg_district_components_within :: "admg \<Rightarrow> bitset \<Rightarrow> bitset list option" where
  "admg_district_components_within a nodes =
     (case admg_districts_into a (Some nodes) of
        None \<Rightarrow> None
      | Some (label, count) \<Rightarrow>
          (case bs_to_dense_ids nodes of
             None \<Rightarrow> None
           | Some ids \<Rightarrow> fill_components label ids (replicate count (bs_with_len (admg_node_count a)))))"

definition marked :: "nat list \<Rightarrow> nat set" where
  "marked label = {v. v < length label \<and> label ! v \<noteq> u32_max}"

definition unmarked :: "nat list \<Rightarrow> nat" where
  "unmarked label = card {v. v < length label \<and> label ! v = u32_max}"

lemma marked_update: "v < length label \<Longrightarrow> x \<noteq> u32_max \<Longrightarrow> marked (label[v := x]) = insert v (marked label)"
  by (auto simp: marked_def nth_list_update split: if_splits)

lemma unmarked_update:
  assumes "v < length label" "label ! v = u32_max" "x \<noteq> u32_max"
  shows "unmarked (label[v := x]) < unmarked label"
proof -
  have "{u. u < length (label[v := x]) \<and> label[v := x] ! u = u32_max} \<subset> {u. u < length label \<and> label ! u = u32_max}"
    using assms by (auto simp: nth_list_update split: if_splits)
  then show ?thesis unfolding unmarked_def by (intro psubset_card_mono) simp_all
qed

lemma dist_scan_spec:
  assumes "set vs \<subseteq> {..<length label}" "nxt \<noteq> u32_max"
  shows "\<exists>label' stack'. dist_scan inside nxt vs label stack = Some (label', stack') \<and>
    length label' = length label \<and>
    marked label' = marked label \<union> {v \<in> set vs. inside v} \<and>
    (\<forall>v < length label. label' ! v = (if v \<in> marked label' - marked label then nxt else label ! v)) \<and>
    set stack' = set stack \<union> ({v \<in> set vs. inside v} - marked label) \<and>
    2 * unmarked label' + length stack' \<le> 2 * unmarked label + length stack"
  using assms
proof (induction inside nxt vs label stack rule: dist_scan.induct)
  case (2 inside nxt v vs label stack)
  have v: "v < length label" using "2.prems"(1) by simp
  show ?case
  proof (cases "label ! v = u32_max \<and> inside v")
    case True
    let ?l = "label[v := nxt]"
    have m: "marked ?l = insert v (marked label)" using v "2.prems"(2) by (rule marked_update)
    have nm: "v \<notin> marked label" using True by (simp add: marked_def)
    have vs: "set vs \<subseteq> {..<length ?l}" and nv: "\<not> v \<ge> length label" using "2.prems"(1) by simp_all
    from "2.IH"(1)[OF nv True vs "2.prems"(2)] obtain l' s' where
      r: "dist_scan inside nxt vs ?l (v # stack) = Some (l', s')" "length l' = length ?l"
        "marked l' = marked ?l \<union> {v \<in> set vs. inside v}"
        "\<forall>u < length ?l. l' ! u = (if u \<in> marked l' - marked ?l then nxt else ?l ! u)"
        "set s' = set (v # stack) \<union> ({v \<in> set vs. inside v} - marked ?l)"
        "2 * unmarked l' + length s' \<le> 2 * unmarked ?l + length (v # stack)"
      by (elim exE conjE) (rule that)
    have lab: "l' ! u = (if u \<in> marked l' - marked label then nxt else label ! u)" if "u < length label" for u
    proof (cases "u = v")
      case True
      then show ?thesis using r(3,4) m nm v by simp
    next
      case False
      have "l' ! u = (if u \<in> marked l' - marked ?l then nxt else ?l ! u)" using r(4) that by simp
      with False m show ?thesis by simp
    qed
    have "2 * unmarked l' + length s' \<le> 2 * unmarked label + length stack"
      using r(6) unmarked_update[OF v _ "2.prems"(2)] True by simp
    moreover have "set s' = set stack \<union> ({u \<in> set (v # vs). inside u} - marked label)"
      unfolding r(5) m using nm conjunct2[OF True] by auto
    moreover have "marked l' = marked label \<union> {u \<in> set (v # vs). inside u}"
      unfolding r(3) m using conjunct2[OF True] by auto
    moreover have "dist_scan inside nxt (v # vs) label stack = Some (l', s')" using r(1) True v by simp
    moreover have "length l' = length label" using r(2) by simp
    ultimately show ?thesis using lab by (intro exI[of _ l'] exI[of _ s']) blast
  next
    case False
    then have mem: "inside v \<Longrightarrow> v \<in> marked label" using v by (auto simp: marked_def)
    have vs: "set vs \<subseteq> {..<length label}" and nv: "\<not> v \<ge> length label" using "2.prems"(1) by simp_all
    from "2.IH"(2)[OF nv False vs "2.prems"(2)] obtain l' s' where
      r: "dist_scan inside nxt vs label stack = Some (l', s')" "length l' = length label"
        "marked l' = marked label \<union> {v \<in> set vs. inside v}"
        "\<forall>u < length label. l' ! u = (if u \<in> marked l' - marked label then nxt else label ! u)"
        "set s' = set stack \<union> ({v \<in> set vs. inside v} - marked label)"
        "2 * unmarked l' + length s' \<le> 2 * unmarked label + length stack"
      by (elim exE conjE) (rule that)
    have "marked l' = marked label \<union> {u \<in> set (v # vs). inside u}"
        "set s' = set stack \<union> ({u \<in> set (v # vs). inside u} - marked label)"
      using r(3,5) mem by auto
    moreover have "dist_scan inside nxt (v # vs) label stack = Some (l', s')" using r(1) False nv by auto
    ultimately show ?thesis using r(2,4,6) by (intro exI[of _ l'] exI[of _ s']) blast
  qed
qed simp

text \<open>What growing from one root does: it labels exactly the root's district.\<close>

lemma dist_grow_spec:
  assumes R: "\<And>u v. (u, v) \<in> R \<longleftrightarrow> v \<in> set (nbrs u) \<and> inside v \<and> inside u"
    and bound: "\<forall>u. set (nbrs u) \<subseteq> {..<n}"
    and D: "sym R" "R `` D \<subseteq> D" "root \<notin> D" "inside root" and nxt: "nxt \<noteq> u32_max"
    and "length label = n" "D \<subseteq> marked label"
    and "worklist R {root} (marked label - D) (set stack)"
    and "\<forall>v \<in> marked label - D. label ! v = nxt"
  shows "\<exists>label'. dist_grow nbrs inside nxt label stack = Some label' \<and> length label' = n \<and>
    marked label' = D \<union> R\<^sup>* `` {root} \<and> (\<forall>v \<in> D. label' ! v = label ! v) \<and>
    (\<forall>v \<in> R\<^sup>* `` {root}. label' ! v = nxt)"
  using assms(8-)
proof (induction "2 * unmarked label + length stack" arbitrary: label stack rule: less_induct)
  case less
  note wl = less.prems(3)
  show ?case
  proof (cases stack)
    case Nil
    then have fin: "marked label - D = R\<^sup>* `` {root}" using worklist_done wl by simp
    have "dist_grow nbrs inside nxt label stack = Some label"
      by (subst dist_grow.simps) (simp add: Nil)
    moreover have "marked label = D \<union> R\<^sup>* `` {root}" using fin less.prems(2) by blast
    moreover have "\<forall>v \<in> R\<^sup>* `` {root}. label ! v = nxt" using less.prems(4) unfolding fin by simp
    ultimately show ?thesis using less.prems(1) by blast
  next
    case (Cons u rest)
    have u: "u \<in> marked label - D" using wl by (auto simp: worklist_def Cons)
    have ru: "(root, u) \<in> R\<^sup>*" using worklist_reach[OF wl u] by simp
    have iu: "inside u" using ru D(4) by (cases rule: rtranclE) (auto simp: R)
    have far: "v \<notin> D" if "(root, v) \<in> R\<^sup>*" for v
      using that
    proof (induction rule: rtrancl_induct)
      case (step y z)
      with D(1) have "(z, y) \<in> R" by (auto dest: symD)
      with D(2) step.IH show ?case by blast
    qed (rule D(3))
    have disj: "R `` {u} \<inter> D = {}" using far rtrancl_into_rtrancl[OF ru] by blast
    have sub: "set (nbrs u) \<subseteq> {..<length label}" using bound less.prems(1) by blast
    have img: "{v \<in> set (nbrs u). inside v} = R `` {u}" using R iu by blast
    from dist_scan_spec[OF sub nxt, of inside rest] obtain l' s' where
      sc: "dist_scan inside nxt (nbrs u) label rest = Some (l', s')" "length l' = length label"
        "marked l' = marked label \<union> R `` {u}"
        "\<forall>v < length label. l' ! v = (if v \<in> marked l' - marked label then nxt else label ! v)"
        "set s' = set rest \<union> (R `` {u} - marked label)"
        "2 * unmarked l' + length s' \<le> 2 * unmarked label + length rest"
      unfolding img by (elim exE conjE) (rule that)
    let ?N = "R `` {u} - marked label"
    have "worklist R {root} ((marked label - D) \<union> ?N) (set rest \<union> ?N)"
      by (rule worklist_step[OF wl _ _ u]) (use disj Cons in auto)
    moreover have "(marked label - D) \<union> ?N = marked l' - D" using sc(3) disj by blast
    ultimately have wl': "worklist R {root} (marked l' - D) (set s')" using sc(5) by simp
    have old: "l' ! v = label ! v" if "v \<in> marked label" for v
    proof -
      have "v < length label" using that by (simp add: marked_def)
      with sc(4) that show ?thesis by simp
    qed
    have lab: "\<forall>v \<in> marked l' - D. l' ! v = nxt"
    proof
      fix v assume v: "v \<in> marked l' - D"
      show "l' ! v = nxt"
      proof (cases "v \<in> marked label")
        case True
        with v less.prems(4) old show ?thesis by simp
      next
        case False
        moreover have "v < length label" using v sc(2) by (simp add: marked_def)
        ultimately show ?thesis using sc(4) v by simp
      qed
    qed
    have "2 * unmarked l' + length s' < 2 * unmarked label + length stack" using sc(6) Cons by simp
    moreover have "length l' = n" "D \<subseteq> marked l'" using sc(2,3) less.prems(1,2) by auto
    ultimately obtain label' where fin: "dist_grow nbrs inside nxt l' s' = Some label'" "length label' = n"
        "marked label' = D \<union> R\<^sup>* `` {root}" "\<forall>v \<in> D. label' ! v = l' ! v"
        "\<forall>v \<in> R\<^sup>* `` {root}. label' ! v = nxt"
      using less.hyps[OF _ _ _ wl' lab] by blast
    have "dist_grow nbrs inside nxt label stack = Some label'"
      by (subst dist_grow.simps) (simp add: Cons sc(1) fin(1))
    moreover have "\<forall>v \<in> D. label' ! v = label ! v" using fin(4) old less.prems(2) by auto
    ultimately show ?thesis using fin(2,3,5) by blast
  qed
qed

text \<open>The roots met so far, in order: the least members of their districts.\<close>

definition reps :: "(nat \<times> nat) set \<Rightarrow> (nat \<Rightarrow> bool) \<Rightarrow> nat \<Rightarrow> nat list" where
  "reps R inside k = filter (\<lambda>s. inside s \<and> (\<forall>t < s. (t, s) \<notin> R\<^sup>*)) [0..<k]"

definition labelled :: "(nat \<times> nat) set \<Rightarrow> (nat \<Rightarrow> bool) \<Rightarrow> nat \<Rightarrow> nat list \<Rightarrow> nat \<Rightarrow> bool" where
  "labelled R inside k label nxt \<longleftrightarrow> nxt = length (reps R inside k) \<and>
     marked label = {v. v < length label \<and> inside v \<and> (\<exists>t < k. (t, v) \<in> R\<^sup>* \<and> inside t)} \<and>
     (\<forall>v \<in> marked label. label ! v < nxt \<and> (reps R inside k ! (label ! v), v) \<in> R\<^sup>*)"

lemma reps_Suc: "reps R inside (Suc k) =
    (if inside k \<and> (\<forall>t < k. (t, k) \<notin> R\<^sup>*) then reps R inside k @ [k] else reps R inside k)"
  by (simp add: reps_def)

lemma reps_length: "length (reps R inside k) \<le> k"
  unfolding reps_def using length_filter_le[of _ "[0..<k]"] by simp

lemma dist_outer_spec:
  assumes R: "\<And>u v. (u, v) \<in> R \<longleftrightarrow> v \<in> set (nbrs u) \<and> inside v \<and> inside u"
    and bound: "\<forall>u. set (nbrs u) \<subseteq> {..<n}" and "sym R" and n: "n \<le> u32_max"
    and "k \<le> n" "length label = n" "labelled R inside k label nxt"
  shows "\<exists>label' count. dist_outer nbrs inside [k..<n] label nxt = Some (label', count) \<and>
    length label' = n \<and> labelled R inside n label' count"
  using assms(5-)
proof (induction "n - k" arbitrary: k label nxt)
  case 0
  then show ?case by auto
next
  case (Suc m)
  then have k: "k < n" and up: "[k..<n] = k # [Suc k..<n]" and m: "m = n - Suc k"
    by (simp_all add: upt_conv_Cons)
  have nxt: "nxt = length (reps R inside k)"
    and mk: "marked label = {v. v < length label \<and> inside v \<and> (\<exists>t < k. (t, v) \<in> R\<^sup>* \<and> inside t)}"
    and lab: "\<And>v. v \<in> marked label \<Longrightarrow> label ! v < nxt \<and> (reps R inside k ! (label ! v), v) \<in> R\<^sup>*"
    using Suc.prems(3) unfolding labelled_def by blast+
  have ins: "inside u" if "(u, v) \<in> R\<^sup>*" "inside v" for u v
    using that by (cases rule: converse_rtranclE) (auto simp: R)
  have skip: "label ! k \<noteq> u32_max \<or> \<not> inside k \<longleftrightarrow> \<not> (inside k \<and> (\<forall>t < k. (t, k) \<notin> R\<^sup>*))"
  proof -
    have "label ! k \<noteq> u32_max \<longleftrightarrow> k \<in> marked label" using k Suc.prems(2) by (simp add: marked_def)
    then show ?thesis unfolding mk using k Suc.prems(2) ins by auto
  qed
  show ?case
  proof (cases "label ! k \<noteq> u32_max \<or> \<not> inside k")
    case True
    then have r: "reps R inside (Suc k) = reps R inside k" using skip by (auto simp: reps_Suc)
    have "(\<exists>t < Suc k. (t, v) \<in> R\<^sup>* \<and> inside t) \<longleftrightarrow> (\<exists>t < k. (t, v) \<in> R\<^sup>* \<and> inside t)" if "inside v" for v
    proof
      assume "\<exists>t < Suc k. (t, v) \<in> R\<^sup>* \<and> inside t"
      then obtain t where t: "t < Suc k" "(t, v) \<in> R\<^sup>*" "inside t" by blast
      show "\<exists>t < k. (t, v) \<in> R\<^sup>* \<and> inside t"
      proof (cases "t = k")
        case at_k: True
        then obtain t0 where "t0 < k" "(t0, k) \<in> R\<^sup>*" using True skip t(3) by blast
        then show ?thesis using at_k t ins by (meson rtrancl_trans)
      next
        case False
        then have "t < k" using t(1) by simp
        with t(2,3) show ?thesis by blast
      qed
    qed (auto simp: less_Suc_eq)
    then have "labelled R inside (Suc k) label nxt"
      using nxt mk lab unfolding labelled_def r by auto
    from Suc.hyps(1)[OF m _ Suc.prems(2) this] k True show ?thesis by (simp add: up)
  next
    case False
    then have root: "inside k" "\<forall>t < k. (t, k) \<notin> R\<^sup>*" using skip by auto
    have free: "label ! k = u32_max" using False by simp
    have small: "nxt \<noteq> u32_max" "\<not> nxt \<ge> u32_max" using nxt reps_length[of R inside k] k n by auto
    let ?D = "marked label" and ?l = "label[k := nxt]"
    have kD: "k \<notin> ?D" using free by (simp add: marked_def)
    have ml: "marked ?l = insert k ?D" using marked_update k Suc.prems(2) small(1) by simp
    have closed: "R `` ?D \<subseteq> ?D"
    proof
      fix v assume "v \<in> R `` ?D"
      then obtain u where u: "u \<in> ?D" "(u, v) \<in> R" by blast
      then obtain t where "t < k" "(t, u) \<in> R\<^sup>*" "inside t" unfolding mk by blast
      then have "t < k" "(t, v) \<in> R\<^sup>*" "inside t" using u(2) by (auto intro: rtrancl_into_rtrancl)
      moreover have "v < length label" "inside v" using u(2) R bound Suc.prems(2) by blast+
      ultimately show "v \<in> ?D" unfolding mk by blast
    qed
    have wl: "worklist R {k} (marked ?l - ?D) (set [k])"
      using worklist_init[of R "{k}"] ml kD by (simp add: insert_Diff_if)
    have len: "length ?l = n" "?D \<subseteq> marked ?l" using Suc.prems(2) ml by auto
    have only: "\<forall>v \<in> marked ?l - ?D. ?l ! v = nxt" using ml k Suc.prems(2) by auto
    obtain l' where grow: "dist_grow nbrs inside nxt ?l [k] = Some l'" "length l' = n"
        "marked l' = ?D \<union> R\<^sup>* `` {k}" "\<forall>v \<in> ?D. l' ! v = ?l ! v" "\<forall>v \<in> R\<^sup>* `` {k}. l' ! v = nxt"
      using dist_grow_spec[OF R bound \<open>sym R\<close> closed kD root(1) small(1) len wl only] by blast
    have r: "reps R inside (Suc k) = reps R inside k @ [k]" using root by (simp add: reps_Suc)
    have within: "v < n \<and> inside v" if "(k, v) \<in> R\<^sup>*" for v
      using that
    proof (induction rule: rtrancl_induct)
      case (step y z)
      then show ?case using R bound by blast
    qed (use k root(1) in simp)
    have "labelled R inside (Suc k) l' (nxt + 1)"
      unfolding labelled_def
    proof (intro conjI ballI)
      show "nxt + 1 = length (reps R inside (Suc k))" using nxt r by simp
      show "marked l' = {v. v < length l' \<and> inside v \<and> (\<exists>t < Suc k. (t, v) \<in> R\<^sup>* \<and> inside t)}"
        unfolding grow(3) mk grow(2) Suc.prems(2) using within root(1) by (auto simp: less_Suc_eq)
      fix v assume v: "v \<in> marked l'"
      have "l' ! v < nxt + 1 \<and> (reps R inside (Suc k) ! (l' ! v), v) \<in> R\<^sup>*"
      proof (cases "v \<in> R\<^sup>* `` {k}")
        case True
        then show ?thesis using grow(5) nxt r by simp
      next
        case False
        then have vD: "v \<in> ?D" using v grow(3) by blast
        then have "v \<noteq> k" using kD by blast
        then have "l' ! v = label ! v" using grow(4) vD by simp
        with lab[OF vD] nxt r show ?thesis by (simp add: nth_append)
      qed
      then show "l' ! v < nxt + 1" "(reps R inside (Suc k) ! (l' ! v), v) \<in> R\<^sup>*" by blast+
    qed
    from Suc.hyps(1)[OF m _ grow(2) this] k show ?thesis
      using False grow(1) small(2) by (simp add: up)
  qed
qed

definition within_set :: "bitset option \<Rightarrow> nat \<Rightarrow> bool" where
  "within_set within v \<longleftrightarrow> (case within of None \<Rightarrow> True | Some w \<Rightarrow> bs_contains w v)"

lemma admg_districts_into_spec:
  assumes "admg_inv a" "admg_node_count a \<le> u32_max"
  shows "\<exists>label count. admg_districts_into a within = Some (label, count) \<and> length label = admg_node_count a \<and>
    labelled (district_rel a {v. within_set within v}) (within_set within) (admg_node_count a) label count"
proof -
  let ?n = "admg_node_count a" and ?in = "within_set within"
  let ?R = "district_rel a {v. ?in v}"
  have R: "(u, v) \<in> ?R \<longleftrightarrow> v \<in> set (admg_bidirected_neighbors a u) \<and> ?in v \<and> ?in u" for u v
    by (auto simp: district_rel_def in_admg_bi)
  have bound: "\<forall>u. set (admg_bidirected_neighbors a u) \<subseteq> {..<?n}"
    using admg_bi_bound[OF assms(1)] by (auto simp: in_admg_bi)
  have "marked (replicate ?n u32_max) = {}" by (auto simp: marked_def)
  then have "labelled ?R ?in 0 (replicate ?n u32_max) 0" by (simp add: labelled_def reps_def)
  from dist_outer_spec[OF R bound sym_district_rel[OF assms(1)] assms(2) _ _ this]
  obtain label count where "dist_outer (admg_bidirected_neighbors a) ?in [0..<?n] (replicate ?n u32_max) 0 = Some (label, count)"
      "length label = ?n" "labelled ?R ?in ?n label count" by auto
  moreover have "?in = (\<lambda>v. case within of None \<Rightarrow> True | Some w \<Rightarrow> bs_contains w v)"
    by (simp add: within_set_def fun_eq_iff)
  ultimately show ?thesis by (simp add: admg_districts_into_def Let_def)
qed

text \<open>Two labelled nodes share a label exactly when bidirected edges join them.\<close>

lemma distinct_reps: "distinct (reps R inside k)"
  by (simp add: reps_def)

lemma reps_apart:
  assumes "sym R" "s \<in> set (reps R inside k)" "t \<in> set (reps R inside k)" "(s, t) \<in> R\<^sup>*"
  shows "s = t"
proof -
  have "(t, s) \<in> R\<^sup>*" using assms(1,4) by (meson sym_rtrancl symD)
  with assms show ?thesis by (cases s t rule: linorder_cases) (auto simp: reps_def)
qed

lemma labelled_same:
  assumes "sym R" "labelled R inside k label count" "u \<in> marked label" "v \<in> marked label"
  shows "label ! u = label ! v \<longleftrightarrow> (u, v) \<in> R\<^sup>*"
proof -
  let ?r = "reps R inside k"
  have cnt: "count = length ?r" using assms(2) by (simp add: labelled_def)
  have u: "label ! u < count" "(?r ! (label ! u), u) \<in> R\<^sup>*" and v: "label ! v < count" "(?r ! (label ! v), v) \<in> R\<^sup>*"
    using assms(2-4) unfolding labelled_def by blast+
  have s: "sym (R\<^sup>*)" using assms(1) by (rule sym_rtrancl)
  show ?thesis
  proof
    assume "label ! u = label ! v"
    with u(2) v(2) s show "(u, v) \<in> R\<^sup>*" by (metis rtrancl_trans symD)
  next
    assume "(u, v) \<in> R\<^sup>*"
    then have "(?r ! (label ! u), ?r ! (label ! v)) \<in> R\<^sup>*"
      using u(2) v(2) s by (meson rtrancl_trans symD)
    then have "?r ! (label ! u) = ?r ! (label ! v)"
      by (intro reps_apart[OF assms(1), where inside = inside and k = k]) (use u(1) v(1) cnt in simp_all)
    then show "label ! u = label ! v"
      using nth_eq_iff_index_eq[OF distinct_reps] u(1) v(1) cnt by metis
  qed
qed

lemma bitsets_update:
  assumes "\<forall>k < m. bs_inv (bs ! k) \<and> bs_len (bs ! k) = n" "bs_inv b" "bs_len b = n"
  shows "\<forall>k < m. bs_inv (bs[i := b] ! k) \<and> bs_len (bs[i := b] ! k) = n"
  using assms by (metis linorder_le_less_linear list_update_beyond nth_list_update_eq nth_list_update_neq)

lemma fill_components_spec:
  assumes "\<forall>i \<in> set is. i < length label \<and> label ! i < length comps"
    and "\<forall>k < length comps. bs_inv (comps ! k) \<and> bs_len (comps ! k) = length label"
  shows "\<exists>comps'. fill_components label is comps = Some comps' \<and> length comps' = length comps \<and>
    (\<forall>k < length comps. bs_inv (comps' ! k) \<and> bs_len (comps' ! k) = length label \<and>
      bs_members (comps' ! k) = bs_members (comps ! k) \<union> {i \<in> set is. label ! i = k})"
  using assms
proof (induction "is" arbitrary: comps)
  case (Cons i js)
  let ?k = "label ! i"
  have i: "i < length label" "?k < length comps" using Cons.prems(1) by simp_all
  obtain b where b: "bs_insert (comps ! ?k) i = Some b" "bs_inv b" "bs_members b = insert i (bs_members (comps ! ?k))"
      "bs_len b = length label"
    using bs.ins_step[of "comps ! ?k" i] Cons.prems(2) i by metis
  let ?comps = "comps[?k := b]"
  have keep: "?comps ! k = (if k = ?k then b else comps ! k)" if "k < length comps" for k
    using that by (simp add: nth_list_update)
  have "\<exists>comps'. fill_components label js ?comps = Some comps' \<and> length comps' = length ?comps \<and>
      (\<forall>k < length ?comps. bs_inv (comps' ! k) \<and> bs_len (comps' ! k) = length label \<and>
        bs_members (comps' ! k) = bs_members (?comps ! k) \<union> {i \<in> set js. label ! i = k})"
  proof (rule Cons.IH)
    show "\<forall>k < length ?comps. bs_inv (?comps ! k) \<and> bs_len (?comps ! k) = length label"
      using bitsets_update[OF Cons.prems(2) b(2,4)] by simp
  qed (use Cons.prems(1) in simp)
  then obtain comps' where c: "fill_components label js ?comps = Some comps'" "length comps' = length comps"
      "\<And>k. k < length comps \<Longrightarrow> bs_inv (comps' ! k) \<and> bs_len (comps' ! k) = length label \<and>
        bs_members (comps' ! k) = bs_members (?comps ! k) \<union> {i \<in> set js. label ! i = k}" by auto
  have "bs_members (comps' ! k) = bs_members (comps ! k) \<union> {x \<in> set (i # js). label ! x = k}"
    if "k < length comps" for k
    using c(3)[OF that] keep[OF that] b(3) by (cases "k = ?k") auto
  with c i b(1) show ?case by auto
qed simp

lemma admg_district_components_within_spec:
  assumes "admg_inv a" "admg_node_count a \<le> u32_max" "bs_inv nodes" "bs_members nodes \<subseteq> {..<admg_node_count a}"
  shows "\<exists>comps. admg_district_components_within a nodes = Some comps \<and>
    (\<forall>c \<in> set comps. bs_inv c \<and> bs_len c = admg_node_count a) \<and>
    map bs_members comps =
      map (\<lambda>s. (district_rel a (bs_members nodes))\<^sup>* `` {s})
        (filter (\<lambda>s. s \<in> bs_members nodes \<and> (\<forall>t < s. (t, s) \<notin> (district_rel a (bs_members nodes))\<^sup>*))
          [0..<admg_node_count a])"
proof -
  let ?n = "admg_node_count a" and ?S = "bs_members nodes" and ?in = "within_set (Some nodes)"
  let ?R = "district_rel a ?S"
  have ins: "?in v \<longleftrightarrow> v \<in> ?S" for v by (simp add: within_set_def bs_contains_members)
  obtain label count where l: "admg_districts_into a (Some nodes) = Some (label, count)" "length label = ?n"
      "labelled ?R ?in ?n label count"
    using admg_districts_into_spec[OF assms(1,2), of "Some nodes"] by (auto simp: ins)
  have cnt: "count = length (reps ?R ?in ?n)"
    and mk: "marked label = ?S" and lab: "\<And>v. v \<in> ?S \<Longrightarrow> label ! v < count \<and> (reps ?R ?in ?n ! (label ! v), v) \<in> ?R\<^sup>*"
  proof -
    show "count = length (reps ?R ?in ?n)" using l(3) by (simp add: labelled_def)
    show "marked label = ?S" using l(2,3) assms(4) unfolding labelled_def by (auto simp: ins)
    with l(3) show "v \<in> ?S \<Longrightarrow> label ! v < count \<and> (reps ?R ?in ?n ! (label ! v), v) \<in> ?R\<^sup>*" for v
      unfolding labelled_def by blast
  qed
  let ?ids = "bs_ids nodes" and ?empty = "replicate count (bs_with_len ?n)"
  have ids: "set ?ids = ?S" using bs_ids(1)[OF assms(3)] .
  have listed: "bs_to_dense_ids nodes = Some ?ids"
    using bs_iter(2)[OF assms(3,4)] assms(2) by (simp add: u32_max_def id_space_def)
  obtain comps where c: "fill_components label ?ids ?empty = Some comps" "length comps = count"
      "\<And>k. k < count \<Longrightarrow> bs_inv (comps ! k) \<and> bs_len (comps ! k) = ?n \<and>
        bs_members (comps ! k) = {i \<in> ?S. label ! i = k}"
    using fill_components_spec[of ?ids label ?empty] ids assms(4) lab l(2) bs_with_len[of ?n] by auto
  have "bs_members (comps ! k) = ?R\<^sup>* `` {reps ?R ?in ?n ! k}" if k: "k < count" for k
  proof -
    let ?s = "reps ?R ?in ?n ! k"
    have "?s \<in> set (reps ?R ?in ?n)" using k cnt by simp
    then have s: "?s \<in> ?S" by (auto simp: reps_def ins)
    have sym: "sym ?R" by (rule sym_district_rel[OF assms(1)])
    have at_k: "label ! ?s = k"
    proof -
      have "(reps ?R ?in ?n ! (label ! ?s), ?s) \<in> ?R\<^sup>*" "label ! ?s < count" using lab[OF s] by simp_all
      then have "reps ?R ?in ?n ! (label ! ?s) = ?s"
        by (intro reps_apart[OF sym, where inside = ?in and k = ?n]) (use k cnt in simp_all)
      then show ?thesis using nth_eq_iff_index_eq[OF distinct_reps] k cnt \<open>label ! ?s < count\<close> by metis
    qed
    have closed: "v \<in> ?S" if "(?s, v) \<in> ?R\<^sup>*" for v
      using that s by (cases rule: rtranclE) (auto simp: district_rel_def)
    have "i \<in> ?S \<and> label ! i = k \<longleftrightarrow> (?s, i) \<in> ?R\<^sup>*" for i
      using labelled_same[OF sym l(3), of ?s i] at_k closed s mk by auto
    with c(3)[OF k] show ?thesis by auto
  qed
  then have "map bs_members comps = map (\<lambda>s. ?R\<^sup>* `` {s}) (reps ?R ?in ?n)"
    using c(2) cnt by (intro nth_equalityI) simp_all
  moreover have "reps ?R ?in ?n = filter (\<lambda>s. s \<in> ?S \<and> (\<forall>t < s. (t, s) \<notin> ?R\<^sup>*)) [0..<?n]"
    by (simp add: reps_def ins)
  moreover have "\<forall>c \<in> set comps. bs_inv c \<and> bs_len c = ?n" using c(2,3) by (auto simp: in_set_conv_nth)
  ultimately show ?thesis using l(1) c(1) listed by (simp add: admg_district_components_within_def)
qed

section \<open>Strict ancestor sets\<close>

fun sa_scan ::
  "dense_id \<Rightarrow> bitset \<Rightarrow> dense_id list \<Rightarrow> bitset list \<Rightarrow> nat list \<Rightarrow> dense_id list \<Rightarrow>
    (bitset list \<times> nat list \<times> dense_id list) option" where
  "sa_scan v fin [] ancs pend ready = Some (ancs, pend, ready)"
| "sa_scan v fin (c # cs) ancs pend ready =
     (if c \<ge> length ancs then None
      else case bs_union_with (ancs ! c) fin of
        None \<Rightarrow> None
      | Some b \<Rightarrow>
          (case bs_insert b v of
             None \<Rightarrow> None
           | Some b' \<Rightarrow>
               (if c \<ge> length pend \<or> pend ! c = 0 then None
                else (let ancs' = ancs[c := b']; pend' = pend[c := pend ! c - 1]
                      in if pend' ! c = 0 then sa_scan v fin cs ancs' pend' (c # ready)
                         else sa_scan v fin cs ancs' pend' ready))))"

lemma sa_scan_kahn:
  "sa_scan v fin cs ancs pend ready = Some (ancs', pend', ready') \<Longrightarrow>
    kahn_scan cs pend ready = Some (pend', ready')"
  by (induction v fin cs ancs pend ready rule: sa_scan.induct)
    (auto simp: Let_def split: if_splits option.splits)

function sa_loop ::
  "(dense_id \<Rightarrow> dense_id list) \<Rightarrow> bitset list \<Rightarrow> nat list \<Rightarrow> dense_id list \<Rightarrow> bitset list option" where
  "sa_loop kids ancs pend [] = Some ancs"
| "sa_loop kids ancs pend (v # ready) =
     (if v \<ge> length ancs then None
      else case sa_scan v (ancs ! v) (kids v) ancs pend ready of
        None \<Rightarrow> None
      | Some (ancs', pend', ready') \<Rightarrow> sa_loop kids ancs' pend' ready')"
  by pat_completeness auto
termination
  by (relation "measure (\<lambda>(kids, ancs, pend, ready). 2 * sum_list pend + length ready)")
    (auto dest!: sa_scan_kahn kahn_scan_measure)

definition admg_strict_ancestor_sets :: "admg \<Rightarrow> bitset list option" where
  "admg_strict_ancestor_sets a =
     (let n = admg_node_count a;
          ancestors = replicate n (bs_with_len n);
          pend = map length (dc_parents (ad_directed a))
      in case admg_node_ids a of
           None \<Rightarrow> None
         | Some ids \<Rightarrow>
             (if \<exists>v \<in> set ids. v \<ge> length pend then None
              else sa_loop (admg_children a) ancestors pend (rev (filter (\<lambda>v. pend ! v = 0) ids))))"

lemma sa_scan_spec:
  assumes "kahn_scan cs pend ready = Some (pend', ready')" "distinct cs" "set cs \<subseteq> {..<n}" "length pend = n"
    and "length ancs = n" "\<forall>c < n. bs_inv (ancs ! c) \<and> bs_len (ancs ! c) = n"
    and "bs_inv fin" "bs_len fin = n" "v < n"
  shows "\<exists>ancs'. sa_scan v fin cs ancs pend ready = Some (ancs', pend', ready') \<and> length ancs' = n \<and>
    (\<forall>c < n. bs_inv (ancs' ! c) \<and> bs_len (ancs' ! c) = n \<and>
      bs_members (ancs' ! c) = bs_members (ancs ! c) \<union> (if c \<in> set cs then insert v (bs_members fin) else {}))"
  using assms(1-6)
proof (induction cs arbitrary: ancs pend ready)
  case Nil
  then show ?case by simp
next
  case (Cons c cs)
  have c: "c < n" using Cons.prems(3) by simp
  have ac: "bs_inv (ancs ! c)" "bs_len (ancs ! c) = n" using Cons.prems(6) c by simp_all
  obtain b where b: "bs_union_with (ancs ! c) fin = Some b" "bs_inv b" "bs_len b = n"
      "bs_members b = bs_members (ancs ! c) \<union> bs_members fin"
    using bs_union_with[OF ac(1) assms(7)] ac(2) assms(8) by auto
  have "v < bs_len b" using b(3) assms(9) by simp
  then obtain b' where b': "bs_insert b v = Some b'" "bs_inv b'" "bs_members b' = insert v (bs_members b)" "bs_len b' = n"
    using bs.ins_step[OF b(2)] b(3) by metis
  let ?ancs = "ancs[c := b']" and ?pend = "pend[c := pend ! c - 1]"
  have pc: "\<not> (c \<ge> length pend \<or> pend ! c = 0)" using Cons.prems(1) by (auto split: if_splits)
  define ready1 where "ready1 = (if ?pend ! c = 0 then c # ready else ready)"
  have run: "kahn_scan cs ?pend ready1 = Some (pend', ready')"
    using Cons.prems(1) pc unfolding kahn_scan.simps Let_def ready1_def by (simp split: if_splits)
  have at: "?ancs ! k = (if k = c then b' else ancs ! k)" if "k < n" for k
    using that Cons.prems(5) by (simp add: nth_list_update)
  have "\<exists>ancs'. sa_scan v fin cs ?ancs ?pend ready1 = Some (ancs', pend', ready') \<and> length ancs' = n \<and>
      (\<forall>c < n. bs_inv (ancs' ! c) \<and> bs_len (ancs' ! c) = n \<and>
        bs_members (ancs' ! c) = bs_members (?ancs ! c) \<union> (if c \<in> set cs then insert v (bs_members fin) else {}))"
    by (rule Cons.IH[OF run]) (use Cons.prems bitsets_update[OF Cons.prems(6) b'(2,4)] in simp_all)
  then obtain ancs' where a': "sa_scan v fin cs ?ancs ?pend ready1 = Some (ancs', pend', ready')" "length ancs' = n"
      "\<And>k. k < n \<Longrightarrow> bs_inv (ancs' ! k) \<and> bs_len (ancs' ! k) = n \<and>
        bs_members (ancs' ! k) = bs_members (?ancs ! k) \<union> (if k \<in> set cs then insert v (bs_members fin) else {})" by blast
  have "bs_members (ancs' ! k) = bs_members (ancs ! k) \<union> (if k \<in> set (c # cs) then insert v (bs_members fin) else {})"
    if "k < n" for k
    using a'(3)[OF that] at[OF that] b(4) b'(3) Cons.prems(2) by (cases "k = c") auto
  moreover have "sa_scan v fin (c # cs) ancs pend ready = Some (ancs', pend', ready')"
  proof -
    have "sa_scan v fin (c # cs) ancs pend ready = sa_scan v fin cs ?ancs ?pend ready1"
      using c Cons.prems(5) b(1) b'(1) pc unfolding sa_scan.simps Let_def ready1_def by (simp only: option.case if_False split: if_split) simp
    with a'(1) show ?thesis by simp
  qed
  ultimately show ?case using a'(2,3) by blast
qed

lemma sa_loop_spec:
  assumes "rows_closed children" "length children = n" "\<forall>r \<in> set children. distinct r" "acyclic (row_rel children)"
    and "kahn_state n pend ready D (in_count children ({..<n} - D))" "D \<subseteq> {..<n}"
    and "\<forall>u v. (u, v) \<in> row_rel children \<and> v \<in> D \<longrightarrow> u \<in> D"
    and "length ancs = n"
    and "\<forall>c < n. bs_inv (ancs ! c) \<and> bs_len (ancs ! c) = n \<and>
      bs_members (ancs ! c) = {a. \<exists>u \<in> D. (u, c) \<in> row_rel children \<and> (a, u) \<in> (row_rel children)\<^sup>*}"
  shows "\<exists>ancs'. sa_loop (row children) ancs pend ready = Some ancs' \<and> length ancs' = n \<and>
    (\<forall>c < n. bs_inv (ancs' ! c) \<and> bs_len (ancs' ! c) = n \<and> bs_members (ancs' ! c) = {a. (a, c) \<in> (row_rel children)\<^sup>+})"
  using assms(5-)
proof (induction "row children" ancs pend ready arbitrary: D rule: sa_loop.induct)
  case (1 ancs pend)
  let ?E = "row_rel children"
  have "{..<n} - D = {}"
  proof (rule ccontr)
    assume ne: "{..<n} - D \<noteq> {}"
    have "\<exists>u \<in> {..<n} - D. (u, v) \<in> ?E" if "v \<in> {..<n} - D" for v
    proof -
      have "in_count children ({..<n} - D) v \<noteq> 0" using kahn_stateD(6)[OF "1.prems"(1), of v] that by auto
      then obtain u where u: "u \<in> {..<n} - D" "count_list (children ! u) v \<noteq> 0"
        unfolding in_count_def by (meson sum.neutral)
      then have "(u, v) \<in> ?E" using assms(2) by (simp add: row_nth count_list_0_iff)
      with u(1) show ?thesis by blast
    qed
    then have "\<not> acyclic ?E" using ne by (intro finite_acyclic_source[of "{..<n} - D"]) auto
    with assms(4) show False by simp
  qed
  then have all: "u \<in> D" if "(u, v) \<in> ?E" for u v
    using that in_row_length[of v children u] assms(2) by auto
  have "{a. \<exists>u \<in> D. (u, c) \<in> ?E \<and> (a, u) \<in> ?E\<^sup>*} = {a. (a, c) \<in> ?E\<^sup>+}" for c
    using all by (auto intro: rtrancl_into_trancl1 elim: tranclE dest!: tranclD2)
  with "1.prems"(4,5) show ?case by simp
next
  case (2 ancs pend v ready)
  let ?E = "row_rel children" and ?D = "insert v D"
  note st = kahn_stateD[OF "2.prems"(1)]
  have v: "v < n" "v \<notin> D" "v \<notin> set ready" using st(2-4) by simp_all
  have rv: "row children v = children ! v" using v(1) assms(2) by (simp add: row_nth)
  have cs: "set (children ! v) \<subseteq> {..<n}" using assms(1,2) v(1) by (auto simp: rows_closed_def)
  have split: "in_count children ({..<n} - D) w = in_count children ({..<n} - ?D) w + count_list (children ! v) w" for w
  proof -
    have "{..<n} - D = insert v ({..<n} - ?D)" using v by auto
    then have "in_count children ({..<n} - D) w = (\<Sum>u\<in>insert v ({..<n} - ?D). count_list (children ! u) w)"
      by (simp only: in_count_def)
    also have "\<dots> = count_list (children ! v) w + in_count children ({..<n} - ?D) w"
      unfolding in_count_def by (rule sum.insert) simp_all
    finally show ?thesis by simp
  qed
  have "kahn_state n pend ready ?D (\<lambda>w. in_count children ({..<n} - ?D) w + count_list (children ! v) w)"
    unfolding kahn_state_def
  proof (intro conjI allI impI)
    fix w assume w: "w < n"
    show "pend ! w = in_count children ({..<n} - ?D) w + count_list (children ! v) w"
      using st(5)[OF w] split[of w] by simp
    show "in_count children ({..<n} - ?D) w + count_list (children ! v) w = 0 \<longleftrightarrow> w \<in> ?D \<union> set ready"
      using st(6)[OF w] split[of w] by auto
  qed (use st(1-4) v in auto)
  from kahn_scan_spec[OF this cs] obtain pend' ready' where
    ks: "kahn_scan (children ! v) pend ready = Some (pend', ready')"
      "kahn_state n pend' ready' ?D (in_count children ({..<n} - ?D))" by blast
  have parents: "u \<in> D" if "(u, v) \<in> ?E" for u
  proof (rule ccontr)
    assume "u \<notin> D"
    moreover have "u < n" using that in_row_length[of v children u] assms(2) by simp
    moreover have "in_count children ({..<n} - D) v = 0" using st(6)[OF v(1)] by simp
    ultimately have "count_list (children ! u) v = 0" by (simp add: in_count_def)
    with that \<open>u < n\<close> assms(2) show False by (simp add: row_nth count_list_0_iff)
  qed
  have av: "bs_members (ancs ! v) = {a. (a, v) \<in> ?E\<^sup>+}"
  proof -
    have "bs_members (ancs ! v) = {a. \<exists>u \<in> D. (u, v) \<in> ?E \<and> (a, u) \<in> ?E\<^sup>*}" using "2.prems"(5) v(1) by blast
    also have "\<dots> = {a. (a, v) \<in> ?E\<^sup>+}"
      using parents by (auto intro: rtrancl_into_trancl1 dest!: tranclD2)
    finally show ?thesis .
  qed
  have d: "distinct (children ! v)" using assms(2,3) v(1) by simp
  have fine: "\<forall>c < n. bs_inv (ancs ! c) \<and> bs_len (ancs ! c) = n" using "2.prems"(5) by blast
  obtain ancs' where sc: "sa_scan v (ancs ! v) (children ! v) ancs pend ready = Some (ancs', pend', ready')"
      "length ancs' = n"
      "\<And>c. c < n \<Longrightarrow> bs_inv (ancs' ! c) \<and> bs_len (ancs' ! c) = n \<and>
        bs_members (ancs' ! c) = bs_members (ancs ! c) \<union>
          (if c \<in> set (children ! v) then insert v (bs_members (ancs ! v)) else {})"
    using sa_scan_spec[OF ks(1) d cs st(1) "2.prems"(4) fine, of "ancs ! v" v] fine v(1) by blast
  have up: "insert v (bs_members (ancs ! v)) = {a. (a, v) \<in> ?E\<^sup>*}"
    unfolding av by (auto simp: rtrancl_eq_or_trancl)
  have new: "bs_members (ancs' ! c) = {a. \<exists>u \<in> ?D. (u, c) \<in> ?E \<and> (a, u) \<in> ?E\<^sup>*}" if c: "c < n" for c
  proof -
    have "c \<in> set (children ! v) \<longleftrightarrow> (v, c) \<in> ?E" using rv by simp
    then show ?thesis using sc(3)[OF c] "2.prems"(5) c unfolding up by auto
  qed
  have "\<forall>u w. (u, w) \<in> ?E \<and> w \<in> ?D \<longrightarrow> u \<in> ?D" using "2.prems"(3) parents by blast
  moreover have "?D \<subseteq> {..<n}" using "2.prems"(2) v(1) by simp
  moreover have "\<forall>c < n. bs_inv (ancs' ! c) \<and> bs_len (ancs' ! c) = n \<and>
      bs_members (ancs' ! c) = {a. \<exists>u \<in> ?D. (u, c) \<in> ?E \<and> (a, u) \<in> ?E\<^sup>*}" using sc(3) new by blast
  moreover have ok: "\<not> v \<ge> length ancs" using v(1) "2.prems"(4) by simp
  ultimately show ?case
    using "2.hyps"[OF ok sc(1)[folded rv] refl refl ks(2)] sc(1,2) rv by simp
qed

lemma admg_strict_ancestor_sets_spec:
  assumes "admg_inv a" "admg_node_count a < id_space"
  shows "\<exists>sets. admg_strict_ancestor_sets a = Some sets \<and> length sets = admg_node_count a \<and>
    (\<forall>v < admg_node_count a. bs_inv (sets ! v) \<and> bs_len (sets ! v) = admg_node_count a \<and>
      bs_members (sets ! v) = {u. (u, v) \<in> (admg_rel a)\<^sup>+})"
proof -
  let ?n = "admg_node_count a" and ?g = "ad_directed a" and ?E = "admg_rel a"
  let ?children = "dc_children ?g" and ?parents = "dc_parents ?g"
  have wf: "dc_wf ?g" using assms(1) by (simp add: wf_simps)
  note w = dc_wfD[OF wf, folded admg_node_count_def]
  have d: "\<forall>r \<in> set ?parents. distinct r" "\<forall>r \<in> set ?children. distinct r" using wf by (simp_all add: dc_wf_def)
  have E: "row_rel ?children = ?E" by (simp add: admg_rel_def dc_rel_def)
  have "row_rel ?parents = (row_rel ?children)\<inverse>" using w(7) by (simp add: dc_rel_def)
  then have deg: "length (?parents ! v) = in_count ?children {..<?n} v" if "v < ?n" for v
    using converse_row_length[of ?parents ?children v] w(1,2) d that by simp
  let ?pend = "map length ?parents" and ?ready = "rev (filter (\<lambda>v. map length ?parents ! v = 0) [0..<?n])"
  have ks: "kahn_state ?n ?pend ?ready {} (in_count ?children ({..<?n} - {}))"
    unfolding kahn_state_def using deg w(2) by auto
  have start: "\<forall>c < ?n. bs_inv (replicate ?n (bs_with_len ?n) ! c) \<and> bs_len (replicate ?n (bs_with_len ?n) ! c) = ?n \<and>
      bs_members (replicate ?n (bs_with_len ?n) ! c) =
        {a. \<exists>u \<in> {}. (u, c) \<in> row_rel ?children \<and> (a, u) \<in> (row_rel ?children)\<^sup>*}"
    using bs_with_len[of ?n] by simp
  have acyc: "acyclic (row_rel ?children)" using ag.no_cycle[OF assms(1)] by (simp add: E)
  have loop: "\<exists>sets. sa_loop (row ?children) (replicate ?n (bs_with_len ?n)) ?pend ?ready = Some sets \<and> length sets = ?n \<and>
      (\<forall>c < ?n. bs_inv (sets ! c) \<and> bs_len (sets ! c) = ?n \<and> bs_members (sets ! c) = {a. (a, c) \<in> (row_rel ?children)\<^sup>+})"
    by (rule sa_loop_spec[OF w(5,1) d(2) acyc ks _ _ _ start]) simp_all
  have kids: "row ?children = admg_children a" by (simp add: fun_eq_iff admg_children_def dc_children_of_def)
  have ids: "admg_node_ids a = Some [0..<?n]" using assms(2) by (simp add: admg_node_ids_def all_ids_def)
  from loop show ?thesis unfolding E kids using w(2) ids by (simp add: admg_strict_ancestor_sets_def Let_def)
qed

section \<open>Edge lists and labels\<close>

definition admg_bidirected_edge_pairs_sorted :: "admg \<Rightarrow> (nat \<times> nat) list" where
  "admg_bidirected_edge_pairs_sorted a =
     sort (concat (map (\<lambda>i. map (Pair i) (filter (\<lambda>t. t > i) (ad_bidirected a ! i)))
       [0..<length (ad_bidirected a)]))"

definition admg_static_variable :: "admg \<Rightarrow> dense_id \<Rightarrow> variable_id option" where
  "admg_static_variable a i =
     (if i < length (admg_nodes a)
      then (case admg_nodes a ! i of Static v \<Rightarrow> Some v | _ \<Rightarrow> None) else None)"

definition admg_dense_of_static :: "admg \<Rightarrow> variable_id \<Rightarrow> dense_id option" where
  "admg_dense_of_static a v =
     find (\<lambda>i. admg_nodes a ! i = Static v) [0..<length (admg_nodes a)]"

text \<open>\<open>?\<close> inside the loop leaves with \<open>None\<close> at the first endpoint without a variable.\<close>

fun static_row :: "admg \<Rightarrow> variable_id \<Rightarrow> dense_id list \<Rightarrow> (variable_id \<times> variable_id) list option" where
  "static_row a u [] = Some []"
| "static_row a u (t # ts) =
     (case admg_static_variable a t of
        None \<Rightarrow> None
      | Some v \<Rightarrow> map_option ((#) (u, v)) (static_row a u ts))"

fun static_rows :: "admg \<Rightarrow> dense_id list \<Rightarrow> (variable_id \<times> variable_id) list option" where
  "static_rows a [] = Some []"
| "static_rows a (i # is) =
     (case admg_static_variable a i of
        None \<Rightarrow> None
      | Some u \<Rightarrow>
          (case static_row a u (admg_children a i) of
             None \<Rightarrow> None
           | Some r \<Rightarrow> map_option ((@) r) (static_rows a is)))"

text \<open>The outer option is the panic of \<open>all\<close>, the inner one the result.\<close>

definition admg_static_directed_edges_sorted :: "admg \<Rightarrow> (variable_id \<times> variable_id) list option option" where
  "admg_static_directed_edges_sorted a =
     map_option (\<lambda>ids. map_option sort (static_rows a ids)) (all_ids (admg_node_count a))"

lemma admg_bidirected_edge_pairs_sorted_spec:
  assumes "admg_inv a"
  shows "admg_bidirected_edge_pairs_sorted a = sorted_list_of_set {(u, v) \<in> admg_bi a. u < v}"
proof -
  let ?rows = "ad_bidirected a"
  let ?row = "\<lambda>i. map (Pair i) (filter (\<lambda>t. t > i) (?rows ! i))"
  let ?ps = "concat (map ?row [0..<length ?rows])"
  have d: "distinct (?rows ! i)" if "i < length ?rows" for i using assms that by (simp add: admg_inv_def bi_inv_def)
  have "distinct (concat (map ?row [0..<k]))" if "k \<le> length ?rows" for k
    using that
  proof (induction k)
    case (Suc k)
    have "distinct (?row k)" using d[of k] Suc.prems by (simp add: distinct_map inj_on_def)
    moreover have "set (concat (map ?row [0..<k])) \<inter> set (?row k) = {}" by auto
    moreover have "distinct (concat (map ?row [0..<k]))" using Suc by simp
    ultimately show ?case by (simp only: upt_Suc_append[OF le0] map_append concat_append distinct_append) simp
  qed simp
  then have "distinct ?ps" by blast
  then have "sort ?ps = sorted_list_of_set (set ?ps)"
    by (simp only: sorted_list_of_set_sort_remdups distinct_remdups_id)
  moreover have "set ?ps = {(u, v) \<in> admg_bi a. u < v}"
    by (auto simp: admg_bi_def row_rel_def row_def split: if_splits)
  ultimately show ?thesis
    unfolding admg_bidirected_edge_pairs_sorted_def by (simp only:)
qed

lemma admg_dense_of_static_spec:
  "admg_dense_of_static a v = Some i \<longleftrightarrow>
     admg_static_variable a i = Some v \<and> (\<forall>j < i. admg_static_variable a j \<noteq> Some v)"
proof -
  have at: "admg_static_variable a j = Some v \<longleftrightarrow> j < length (admg_nodes a) \<and> admg_nodes a ! j = Static v" for j
    by (auto simp: admg_static_variable_def split: node_ref.splits)
  show ?thesis
    unfolding admg_dense_of_static_def find_Some_iff at by (auto intro!: exI[of _ i])
qed

lemma static_row_spec:
  "static_row a u ts = (if \<forall>t \<in> set ts. admg_static_variable a t \<noteq> None
     then Some (map (\<lambda>t. (u, the (admg_static_variable a t))) ts) else None)"
  by (induction ts) (auto split: option.splits)

lemma static_rows_spec:
  "static_rows a is = (if \<forall>i \<in> set is. admg_static_variable a i \<noteq> None \<and>
       (\<forall>t \<in> set (admg_children a i). admg_static_variable a t \<noteq> None)
     then Some (concat (map (\<lambda>i. map (\<lambda>t. (the (admg_static_variable a i), the (admg_static_variable a t)))
       (admg_children a i)) is)) else None)"
  by (induction "is") (auto simp: static_row_spec split: option.splits)

lemma admg_static_directed_edges_sorted_spec:
  assumes "admg_inv a" "admg_node_count a \<le> u32_max"
  shows "\<exists>r. admg_static_directed_edges_sorted a = Some r \<and>
      (r \<noteq> None \<longleftrightarrow> (\<forall>i < admg_node_count a. admg_static_variable a i \<noteq> None))"
    and "admg_static_directed_edges_sorted a = Some (Some ps) \<Longrightarrow> sorted ps \<and>
      set ps = {(x, y). \<exists>u v. (u, v) \<in> admg_rel a \<and> admg_static_variable a u = Some x \<and> admg_static_variable a v = Some y}"
proof -
  have kids: "t < admg_node_count a" if "t \<in> set (admg_children a i)" for t i
    using ag.kid_range[OF assms(1) that] by simp
  have ids: "all_ids (admg_node_count a) = Some [0..<admg_node_count a]"
    using assms(2) by (simp add: all_ids_def u32_max_def id_space_def)
  show "\<exists>r. admg_static_directed_edges_sorted a = Some r \<and>
      (r \<noteq> None \<longleftrightarrow> (\<forall>i < admg_node_count a. admg_static_variable a i \<noteq> None))"
    using kids by (auto simp: admg_static_directed_edges_sorted_def ids static_rows_spec simp del: not_None_eq)
  assume some: "admg_static_directed_edges_sorted a = Some (Some ps)"
  then have all: "\<forall>i < admg_node_count a. admg_static_variable a i \<noteq> None"
    and ps: "ps = sort (concat (map (\<lambda>i. map (\<lambda>t. (the (admg_static_variable a i), the (admg_static_variable a t)))
       (admg_children a i)) [0..<admg_node_count a]))"
    by (auto simp: admg_static_directed_edges_sorted_def ids static_rows_spec split: if_splits)
  let ?s = "\<lambda>i. the (admg_static_variable a i)"
  have "set ps = {(?s u, ?s v) | u v. (u, v) \<in> admg_rel a}"
  proof (rule set_eqI, rule iffI)
    fix p assume "p \<in> set ps"
    then obtain i t where "p = (?s i, ?s t)" "t \<in> set (admg_children a i)" unfolding ps by auto
    then show "p \<in> {(?s u, ?s v) | u v. (u, v) \<in> admg_rel a}" using in_admg_children by blast
  next
    fix p assume "p \<in> {(?s u, ?s v) | u v. (u, v) \<in> admg_rel a}"
    then obtain u v where p: "p = (?s u, ?s v)" and e: "(u, v) \<in> admg_rel a" by blast
    then show "p \<in> set ps"
      unfolding ps using admg_rel_bound[OF assms(1) e] in_admg_children[of v a u]
      by (auto intro!: bexI[of _ u] imageI)
  qed
  also have "\<dots> = {(x, y). \<exists>u v. (u, v) \<in> admg_rel a \<and> admg_static_variable a u = Some x \<and> admg_static_variable a v = Some y}"
  proof -
    have "admg_static_variable a u = Some (?s u) \<and> admg_static_variable a v = Some (?s v)" if "(u, v) \<in> admg_rel a" for u v
      using admg_rel_bound[OF assms(1) that] all by auto
    then show ?thesis by (auto) (metis option.sel)+
  qed
  finally show "sorted ps \<and> set ps = {(x, y). \<exists>u v. (u, v) \<in> admg_rel a \<and> admg_static_variable a u = Some x \<and> admg_static_variable a v = Some y}"
    using ps by simp
qed

end
