(* ===== verification/Graph_Properties.thy ===== *)
theory Graph_Properties
  imports Dag_Paths Dag_Surgery Admg_Queries Indexer Schema
begin

text \<open>
  The correctness statements of the graph storage and its searches, each over the code's own
  operations, with the invariant of the stored graph as hypothesis and a concrete graph on which
  the statement is applied. The lemmas they rest on are in the theories of the components.
\<close>

section \<open>Insertion\<close>

text \<open>C6: inserting a directed edge into a stored DAG never panics, accepts exactly the edges whose
  endpoints exist, that are new and that close no directed cycle, adds just that edge, and leaves the
  graph equal to what it was when it refuses; the invariant (tables mirror each other, acyclic) holds after.\<close>

theorem dag_insert_directed_correct:
  assumes "dag_inv d"
  shows "\<exists>r d'. dag_insert_directed d src tgt = Some (r, d') \<and> dag_inv d' \<and>
    (r = Inr () \<longleftrightarrow> src < dag_node_count d \<and> tgt < dag_node_count d \<and>
       (src, tgt) \<notin> dag_rel d \<and> (tgt, src) \<notin> (dag_rel d)\<^sup>*) \<and>
    (if r = Inr () then dag_rel d' = insert (src, tgt) (dag_rel d) \<and> dag_nodes d' = dag_nodes d
     else dag_eq d' d)"
  by (rule dag_insert_directed_cases[OF assms, of src tgt])
    (use assms in \<open>auto simp: dag_eq_def dc_same_directed_tables\<close>)

theorem dag_insert_directed_correct_witness:
  "\<exists>r d'. dag_insert_directed diamond 3 0 = Some (r, d') \<and> dag_inv d' \<and> r \<noteq> Inr () \<and> dag_eq d' diamond"
proof -
  have "(0, 1) \<in> dag_rel diamond" "(1, 3) \<in> dag_rel diamond" by (simp_all add: diamond)
  then have "(0, 3) \<in> (dag_rel diamond)\<^sup>*" by (meson converse_rtrancl_into_rtrancl r_into_rtrancl)
  with dag_insert_directed_correct[OF diamond(1), of 3 0] show ?thesis by auto
qed

text \<open>C22: the batch insertion, which tests the whole batch first and then appends without checks, answers
  and stores exactly what inserting the edges one by one does, on every batch (errors included).\<close>

theorem dag_batch_is_one_by_one:
  assumes "dag_inv d"
  shows "\<exists>r d1 d2. dag_insert_directed_edges d es = Some (r, d1) \<and>
    try_each (\<lambda>(src, tgt) d'. dag_insert_directed d' src tgt) es d = Some (r, d2) \<and> dag_eq d1 d2 \<and> dag_inv d1"
  using dag_insert_directed_edges_spec[OF assms, of es] by (simp add: dag_insert_one_by_one_def)

theorem dag_batch_is_one_by_one_witness:
  "\<exists>r d1 d2. dag_insert_directed_edges diamond [(1, 2), (3, 0)] = Some (r, d1) \<and>
    try_each (\<lambda>(src, tgt) d'. dag_insert_directed d' src tgt) [(1, 2), (3, 0)] diamond = Some (r, d2) \<and>
    dag_eq d1 d2 \<and> dag_inv d1"
  by (rule dag_batch_is_one_by_one[OF diamond(1)])

section \<open>Searches on a DAG\<close>

text \<open>C28: on a stored DAG the topological order exists, lists every node once and puts parents before
  children, and validation accepts the graph.\<close>

theorem dag_order_and_validate:
  assumes "dag_inv d"
  shows "\<exists>order. dag_topological_order d = Some (Some order) \<and>
    topological (dag_rel d) {..<dag_node_count d} order \<and> dag_validate d = Some (Inr ())"
  using dag_topological_order_spec[OF assms] dag_validate_ok[OF assms] by blast

theorem dag_order_and_validate_witness:
  "\<exists>order. dag_topological_order diamond = Some (Some order) \<and>
    topological {(0, 1), (0, 2), (1, 3), (2, 3)} {..<4} order \<and> dag_validate diamond = Some (Inr ())"
  using dag_order_and_validate[OF diamond(1)] by (simp add: diamond)

text \<open>C20: the budgeted enumeration of directed paths never panics, returns distinct directed simple paths
  from source to target within both limits, and when it does not report truncation it returns all of them.\<close>

theorem dag_directed_paths_complete:
  assumes "dag_inv d" "src < dag_node_count d" "tgt < dag_node_count d"
  shows "\<exists>out truncated. dag_directed_paths_with_budget d src tgt max_paths max_len = Some (Inr (out, truncated)) \<and>
    distinct out \<and> set out \<subseteq> simple_paths (dag_rel d) src tgt \<and> (\<forall>p \<in> set out. length p \<le> max_len) \<and>
    length out \<le> max_paths \<and> (\<not> truncated \<longrightarrow> set out = simple_paths (dag_rel d) src tgt)"
  by (rule dag_directed_paths_with_budget_spec[OF assms])

theorem dag_directed_paths_complete_witness:
  "\<exists>out truncated. dag_directed_paths_with_budget diamond 0 3 10 10 = Some (Inr (out, truncated)) \<and>
    distinct out \<and> (\<not> truncated \<longrightarrow> set out = simple_paths {(0, 1), (0, 2), (1, 3), (2, 3)} 0 3)"
  using dag_directed_paths_complete[OF diamond(1), of 0 3 10 10] by (auto simp: diamond)

text \<open>C30: the explicit-stack search for the longest path from a node that avoids another node never
  panics and returns the number of nodes on the longest such path.\<close>

theorem dag_longest_path_correct:
  assumes "dag_inv d" "src < dag_node_count d"
  shows "\<exists>m. dag_longest_path_nodes_avoiding d src avoid = Some m \<and>
    path_len (dag_children d) avoid src m \<and> (\<forall>k. path_len (dag_children d) avoid src k \<longrightarrow> k \<le> m)"
  using dag_longest_path_spec[OF assms, of avoid] by (simp add: longest_def)

theorem dag_longest_path_correct_witness:
  "\<exists>m. dag_longest_path_nodes_avoiding diamond 0 2 = Some m \<and>
    path_len (dag_children diamond) 2 0 m \<and> (\<forall>k. path_len (dag_children diamond) 2 0 k \<longrightarrow> k \<le> m)"
  by (rule dag_longest_path_correct[OF diamond(1)]) (simp add: diamond)

section \<open>Surgery\<close>

text \<open>C32: intervening on existing nodes rebuilds the graph without the edges into them, with its nodes
  relabelled as the static variables 0, ..., n - 1, and querying
  ancestors through the intervention's overlay (hidden edges filtered on the fly) returns the very
  bit set the same query returns on the rebuilt graph.\<close>

theorem mutilate_and_overlay_agree:
  assumes "dag_inv d" "dag_node_count d < id_space" "\<forall>v \<in> set xs. v < dag_node_count d"
    and "bs_inv out" "ws_inv ws"
  shows "\<exists>ov m. ov_do_intervention (dag_node_count d) xs = Some ov \<and> dag_mutilate d xs = Some (Inr m) \<and>
    dag_inv m \<and> dag_rel m = {(u, v) \<in> dag_rel d. v \<notin> set xs} \<and>
    dag_nodes m = map Static [0..<dag_node_count d] \<and>
    map_option fst (view_ancestors_of (dag_to_view d ov) nodes out ws) = map_option fst (dag_ancestors_of m nodes out ws)"
proof -
  obtain m where m: "dag_mutilate d xs = Some (Inr m)" "dag_inv m" "dag_rel m = {(u, v) \<in> dag_rel d. v \<notin> set xs}"
      "dag_nodes m = map Static [0..<dag_node_count d]"
    using dag_mutilate_spec(1)[OF assms(1,2,3)] by blast
  then obtain ov where ov: "ov_do_intervention (dag_node_count d) xs = Some ov"
      "view_materialize (dag_to_view d ov) = Some (Inr m)"
    by (auto simp: dag_mutilate_def split: sum.splits option.splits)
  with m view_ancestors_materialize(1)[OF assms(1,2,4,5) ov(2)] show ?thesis by blast
qed

theorem mutilate_and_overlay_agree_witness:
  "\<exists>ov m. ov_do_intervention 4 [3] = Some ov \<and> dag_mutilate diamond [3] = Some (Inr m) \<and>
    dag_inv m \<and> dag_rel m = {(0, 1), (0, 2)} \<and> dag_nodes m = map Static [0..<4] \<and>
    map_option fst (view_ancestors_of (dag_to_view diamond ov) [3] bs_default ws_default) =
      map_option fst (dag_ancestors_of m [3] bs_default ws_default)"
proof -
  have "{(u, v) \<in> dag_rel diamond. v \<notin> set [3]} = {(0, 1), (0, 2)}" by (auto simp: diamond)
  with mutilate_and_overlay_agree[OF diamond(1), of "[3]" bs_default ws_default "[3]"] show ?thesis
    by (simp add: diamond id_space_def bs_default)
qed

section \<open>Mixed graphs\<close>

text \<open>Inserting a directed edge into a stored ADMG never panics; it succeeds exactly when both ends
  exist and differ, the edge is new and closes no directed cycle, then adds just that edge, and otherwise
  returns the error the code's checks name in their order and leaves the graph equal.\<close>

theorem admg_insert_directed_correct:
  assumes "admg_inv a"
  shows "\<exists>r a'. admg_insert_directed a src tgt = Some (r, a') \<and> admg_inv a' \<and>
    (if src < admg_node_count a \<and> tgt < admg_node_count a \<and> src \<noteq> tgt \<and> (src, tgt) \<notin> admg_rel a \<and>
        (tgt, src) \<notin> (admg_rel a)\<^sup>*
     then r = Inr () \<and> admg_rel a' = insert (src, tgt) (admg_rel a) \<and> admg_bi a' = admg_bi a
     else r = Inl (if src \<ge> admg_node_count a then UnknownNode src
       else if tgt \<ge> admg_node_count a then UnknownNode tgt
       else if src = tgt then InvalidEndpoints ''Admg rejects directed self-loops''
       else if (src, tgt) \<in> admg_rel a then DuplicateEdge src tgt else Cycle src tgt) \<and> admg_eq a' a)"
proof (rule admg_insert_directed_cases[OF assms, of src tgt])
  fix a' assume "admg_insert_directed a src tgt = Some (Inl (admg_refusal a src tgt), a')" "admg_eq a' a" "admg_inv a'"
    "\<not> (src < admg_node_count a \<and> tgt < admg_node_count a \<and> src \<noteq> tgt \<and> (src, tgt) \<notin> admg_rel a \<and>
       (tgt, src) \<notin> (admg_rel a)\<^sup>*)"
  then show ?thesis unfolding admg_refusal_def by (intro exI conjI) (assumption, assumption, simp)
qed (simp add: admg_bi_def)

theorem admg_insert_directed_correct_witness:
  "\<exists>a'. admg_insert_directed confounded_chain 2 0 = Some (Inl (Cycle 2 0), a') \<and> admg_eq a' confounded_chain"
proof -
  have "(0, 2) \<in> {(0, 1), (1, 2 :: nat)}\<^sup>*" by (meson converse_rtrancl_into_rtrancl insertI1 insertI2 r_into_rtrancl)
  with admg_insert_directed_correct[OF confounded_chain(1), of 2 0] show ?thesis
    by (auto simp: confounded_chain)
qed

text \<open>C27: for every node of a stored ADMG the single pass over the topological order computes exactly its
  strict ancestors under directed edges.\<close>

theorem admg_strict_ancestors_correct:
  assumes "admg_inv a" "admg_node_count a < id_space"
  shows "\<exists>sets. admg_strict_ancestor_sets a = Some sets \<and> length sets = admg_node_count a \<and>
    (\<forall>v < admg_node_count a. bs_members (sets ! v) = {u. (u, v) \<in> (admg_rel a)\<^sup>+})"
  using admg_strict_ancestor_sets_spec[OF assms] by blast

theorem admg_strict_ancestors_correct_witness:
  "\<exists>sets. admg_strict_ancestor_sets confounded_chain = Some sets \<and> length sets = 3 \<and>
    (\<forall>v < 3. bs_members (sets ! v) = {u. (u, v) \<in> {(0, 1), (1, 2)}\<^sup>+})"
  using admg_strict_ancestors_correct[OF confounded_chain(1)] by (simp add: confounded_chain id_space_def)

text \<open>C26: the district components of a node subset are the classes of bidirected connection inside the
  subset, one bit set each, in the order of their smallest members.\<close>

theorem admg_district_components_correct:
  assumes "admg_inv a" "admg_node_count a \<le> u32_max" "bs_inv nodes" "bs_members nodes \<subseteq> {..<admg_node_count a}"
  shows "\<exists>comps. admg_district_components_within a nodes = Some comps \<and>
    map bs_members comps =
      map (\<lambda>s. (district_rel a (bs_members nodes))\<^sup>* `` {s})
        (filter (\<lambda>s. s \<in> bs_members nodes \<and> (\<forall>t < s. (t, s) \<notin> (district_rel a (bs_members nodes))\<^sup>*))
          [0..<admg_node_count a])"
  using admg_district_components_within_spec[OF assms] by blast

theorem admg_district_components_correct_witness:
  "\<exists>comps. admg_district_components_within confounded_chain (bs_full 3) = Some comps \<and>
    map bs_members comps =
      map (\<lambda>s. (district_rel confounded_chain {..<3})\<^sup>* `` {s})
        (filter (\<lambda>s. s \<in> {..<3} \<and> (\<forall>t < s. (t, s) \<notin> (district_rel confounded_chain {..<3})\<^sup>*)) [0..<3])"
  using admg_district_components_correct[OF confounded_chain(1) _ bs_full(1)]
  by (simp add: confounded_chain u32_max_def id_space_def bs_full)

text \<open>A DAG lifted to an ADMG keeps its nodes and edges, has no bidirected edge, and projecting to the
  directed part gives the DAG back.\<close>

theorem admg_from_dag_round_trip:
  assumes "dag_inv d"
  shows "\<exists>a. admg_from_dag d = Some (Inr a) \<and> admg_inv a \<and> admg_rel a = dag_rel d \<and> admg_bi a = {} \<and>
    admg_nodes a = dag_nodes d \<and> admg_directed_part a = Inr d"
  by (rule admg_from_dag_spec[OF assms])

theorem admg_from_dag_round_trip_witness:
  "\<exists>a. admg_from_dag diamond = Some (Inr a) \<and> admg_inv a \<and> admg_bi a = {} \<and> admg_directed_part a = Inr diamond"
  using admg_from_dag_round_trip[OF diamond(1)] by blast

section \<open>Indexing and schemas\<close>

text \<open>The time-major dense id of a key inside the window decodes to that key, and a dense id the
  indexer decodes encodes back to itself.\<close>

theorem temporal_index_round_trip:
  assumes "ti_new v h z = Inr ti" "i32_ok (tk_offset key)"
  shows "(ti_dense_id ti key = Inr d) = (ti_key_of ti d = Inr key)"
  using ti_round_trip_key[OF ti_new_inv[OF assms(1)] assms(2)] ti_round_trip_dense(1)[OF ti_new_inv[OF assms(1)]]
  by blast

theorem temporal_index_round_trip_witness:
  "\<exists>ti. ti_new 2 1 1 = Inr ti \<and>
    (ti_dense_id ti \<lparr>tk_variable = 1, tk_offset = - 1\<rparr> = Inr 1) = (ti_key_of ti 1 = Inr \<lparr>tk_variable = 1, tk_offset = - 1\<rparr>)"
proof -
  obtain ti where "ti_new 2 1 1 = Inr ti" using ti_new_succeeds[of 2 1 1] by (auto simp: id_space_def)
  with temporal_index_round_trip[of 2 1 1 ti "\<lparr>tk_variable = 1, tk_offset = - 1\<rparr>" 1] show ?thesis
    by (auto simp: i32_ok_def)
qed

text \<open>A schema a builder produced finds by name exactly the variable that carries the name.\<close>

theorem schema_lookup_by_name:
  assumes "builder_inv b" "sb_build b = Inr s"
  shows "cs_by_name s name = Inr v \<longleftrightarrow> v \<in> set (cs_variables s) \<and> vs_name v = name"
  by (rule cs_by_name_spec[OF sb_build_inv(1)[OF assms]])

theorem schema_lookup_by_name_witness:
  "\<exists>s. sb_build (vp_treatment (sb_continuous sb_new ''t'')) = Inr s \<and>
    (\<forall>v. (cs_by_name s ''t'' = Inr v) = (v \<in> set (cs_variables s) \<and> vs_name v = ''t''))"
proof -
  have "builder_inv (vp_treatment (sb_continuous sb_new ''t''))"
    by (simp add: vp_treatment_def vp_finish_def vp_with_role_def sb_continuous_def sb_begin_def
        builder_inv_new builder_inv_push_pending)
  moreover obtain s where "sb_build (vp_treatment (sb_continuous sb_new ''t'')) = Inr s"
    by (simp add: sb_build_def vp_treatment_def vp_finish_def vp_with_role_def sb_continuous_def sb_begin_def
        sb_push_pending_def sb_new_def validate_domain_consistency_def Let_def id_space_def)
  ultimately show ?thesis using schema_lookup_by_name by blast
qed

section \<open>Bit sets and closures\<close>

text \<open>C40: the word operations on bit sets are the set operations: they keep the bits beyond the length clear
  and never panic on sets of the same length, and the counted ones are the number of members. The iterator, consumed
  to the end, lists the members in ascending order when all of them are 32-bit ids, and panics otherwise.\<close>

theorem bitset_operations_are_sets:
  assumes "bs_inv a" "bs_inv b" "bs_len a = bs_len b"
  shows "(\<exists>u. bs_union_with a b = Some u \<and> bs_inv u \<and> bs_members u = bs_members a \<union> bs_members b) \<and>
    (\<exists>i. bs_intersect_with a b = Some i \<and> bs_inv i \<and> bs_members i = bs_members a \<inter> bs_members b) \<and>
    (\<exists>d. bs_difference_with a b = Some d \<and> bs_inv d \<and> bs_members d = bs_members a - bs_members b) \<and>
    bs_is_subset_of a b = Some (bs_members a \<subseteq> bs_members b) \<and>
    bs_intersects a b = Some (bs_members a \<inter> bs_members b \<noteq> {}) \<and>
    bs_inv (bs_resize a n) \<and> bs_members (bs_resize a n) = {i \<in> bs_members a. i < n} \<and>
    bs_iter a = (if bs_members a \<subseteq> {..<id_space} then Some (sorted_list_of_set (bs_members a)) else None) \<and>
    bs_to_dense_ids a = bs_iter a \<and> bs_count_ones a = card (bs_members a)"
proof -
  have "bs_ids a = sorted_list_of_set (bs_members a)"
    using bs_ids[OF assms(1)] by (metis sorted_list_of_set.idem_if_sorted_distinct)
  then have "bs_iter a = (if bs_members a \<subseteq> {..<id_space} then Some (sorted_list_of_set (bs_members a)) else None)"
    using bs_ids(1)[OF assms(1)] by (auto simp: bs_iter_scan[OF assms(1)] as_ids_def)
  then show ?thesis
    using bs_union_with[OF assms] bs_intersect_with[OF assms] bs_difference_with[OF assms] bs_is_subset_of[OF assms]
      bs_intersects[OF assms] bs_resize(1,2)[OF assms(1)] bs_count_ones_card[OF assms(1)] bs_to_dense_ids_def[of a] by blast
qed

theorem bitset_operations_are_sets_witness:
  "bs_intersects (bs_full 70) (bs_with_len 70) = Some False \<and> bs_iter (bs_full 70) = Some [0..<70] \<and>
    bs_count_ones (bs_full 70) = 70"
proof -
  have "sorted_list_of_set {..<70} = [0..<70::nat]" unfolding lessThan_atLeast0 by (rule sorted_list_of_set_range)
  moreover have "{..<70::nat} \<subseteq> {..<id_space}" by (auto simp: id_space_def)
  ultimately show ?thesis
    using bitset_operations_are_sets[OF bs_full(1) bs_with_len(1), of 70 70 0]
    by (simp only: bs_full(2,3) bs_with_len(2,3) if_True) simp
qed

text \<open>The closure over bitmask rows and the closure over adjacency rows with a filter are the same
  search: on rows with the same neighbors and the same starting nodes, both return and select the same nodes.\<close>

theorem mask_closure_is_closure_into:
  fixes rows :: "'w::len word list"
  assumes "\<And>u. u < length rows \<Longrightarrow> set (nbrs u) = {i. bit (rows ! u) i}"
    and "\<And>u i. u < length rows \<Longrightarrow> bit (rows ! u) i \<Longrightarrow> i < length rows"
    and "set seeds = {i. bit start i}" "\<And>i. bit start i \<Longrightarrow> i < length rows" "bs_inv out" "ws_inv ws"
  shows "\<exists>m out' ws'. mask_closure start rows frozen = Some m \<and>
    closure_into (length rows) nbrs seeds out ws (\<lambda>u w. \<not> bit frozen u) = Some (out', ws') \<and>
    bs_members out' = {i. bit m i}"
proof -
  let ?E = "closure_rel nbrs (\<lambda>u w. \<not> bit frozen u)" and ?S = "{i. bit start i}"
  obtain m where m: "mask_closure start rows frozen = Some m" "{i. bit m i} = (mask_rel rows frozen)\<^sup>* `` ?S"
    using mask_closure_spec[of start frozen rows] assms(2,4) by blast
  have "w < length rows" if "u < length rows" "w \<in> set (nbrs u)" for u w using assms(1)[OF that(1)] assms(2)[of u w] that by simp
  then obtain out' ws' where c: "closure_into (length rows) nbrs seeds out ws (\<lambda>u w. \<not> bit frozen u) = Some (out', ws')"
      "bs_members out' = ?E\<^sup>* `` {v \<in> set seeds. v < length rows}"
    using closure_into_spec[OF assms(5,6), of "length rows" nbrs "\<lambda>u w. \<not> bit frozen u" seeds] by blast
  have seeds: "{v \<in> set seeds. v < length rows} = ?S" using assms(3,4) by auto
  have arc: "(u, w) \<in> ?E \<longleftrightarrow> (u, w) \<in> mask_rel rows frozen" if "u < length rows" for u w
    using assms(1)[OF that] that by (auto simp: closure_rel_def mask_rel_def)
  have "(s, v) \<in> ?E\<^sup>* \<longleftrightarrow> (s, v) \<in> (mask_rel rows frozen)\<^sup>*" if s: "s < length rows" for s v
  proof
    assume "(s, v) \<in> ?E\<^sup>*"
    then have "v < length rows \<and> (s, v) \<in> (mask_rel rows frozen)\<^sup>*"
    proof (induction rule: rtrancl_induct)
      case (step y z)
      then have "(y, z) \<in> mask_rel rows frozen" using arc by blast
      then show ?case using step.IH assms(2) by (auto simp: mask_rel_def intro: rtrancl_into_rtrancl)
    qed (use s in simp)
    then show "(s, v) \<in> (mask_rel rows frozen)\<^sup>*" ..
  next
    assume "(s, v) \<in> (mask_rel rows frozen)\<^sup>*"
    then show "(s, v) \<in> ?E\<^sup>*"
    proof (induction rule: rtrancl_induct)
      case (step y z)
      then have "(y, z) \<in> ?E" using assms(1)[of y] by (auto simp: mask_rel_def closure_rel_def)
      with step.IH show ?case by (rule rtrancl_into_rtrancl)
    qed simp
  qed
  then have "?E\<^sup>* `` ?S = (mask_rel rows frozen)\<^sup>* `` ?S" using assms(4) by blast
  then show ?thesis using m c seeds by auto
qed

theorem mask_closure_is_closure_into_witness:
  "\<exists>m out' ws'. mask_closure (1 :: 8 word) [2, 0] 0 = Some m \<and>
    closure_into 2 (\<lambda>u. if u = 0 then [1] else []) [0] bs_default ws_default (\<lambda>u w. \<not> bit (0 :: 8 word) u) = Some (out', ws') \<and>
    bs_members out' = {i. bit m i}"
proof -
  have two: "bit (2 :: 8 word) i \<longleftrightarrow> i = 1" for i
    using bit_mask_single[of 1 i, where 'w = 8] by (simp add: mask_single_def)
  have one: "bit (1 :: 8 word) i \<longleftrightarrow> i = 0" for i
    using bit_mask_single[of 0 i, where 'w = 8] by (simp add: mask_single_def)
  have "\<exists>m out' ws'. mask_closure (1 :: 8 word) [2, 0] 0 = Some m \<and>
    closure_into (length [2 :: 8 word, 0]) (\<lambda>u. if u = 0 then [1] else []) [0] bs_default ws_default
      (\<lambda>u w. \<not> bit (0 :: 8 word) u) = Some (out', ws') \<and> bs_members out' = {i. bit m i}"
  proof (rule mask_closure_is_closure_into)
    fix u assume "u < length [2 :: 8 word, 0]"
    then have u: "u = 0 \<or> u = 1" by fastforce
    then consider "u = 0" | "u = 1" by blast
    then show "set (if u = 0 then [1] else []) = {i. bit ([2 :: 8 word, 0] ! u) i}"
    proof cases
      case 1
      have "{i. bit (2 :: 8 word) i} = {1}" unfolding two by simp
      then show ?thesis unfolding 1 by (simp only: nth_Cons_0) simp
    qed simp
    fix i assume "bit ([2 :: 8 word, 0] ! u) i"
    with u have "bit (2 :: 8 word) i" by auto
    then show "i < length [2 :: 8 word, 0]" unfolding two by simp
  qed (simp_all only: one two bs_default(1) ws_default_inv, auto)
  then show ?thesis by (simp add: numeral_2_eq_2)
qed

text \<open>The closure under an expansion function, which may run over infinitely many keys, returns whenever the
  keys reachable from the seeds are finitely many, and then it is exactly those keys.\<close>

theorem implicit_closure_returns:
  assumes "finite ({(u, w). w \<in> set (expand u)}\<^sup>* `` set seeds)"
  shows "implicit_closure seeds expand = Some ({(u, w). w \<in> set (expand u)}\<^sup>* `` set seeds)"
  by (rule implicit_closure_spec[OF assms])

theorem implicit_closure_returns_witness:
  "\<exists>R. implicit_closure [3 :: nat] (\<lambda>u. if u = 0 then [] else [u - 1]) = Some R \<and> 3 \<in> R \<and> finite R"
proof -
  let ?E = "{(u, w :: nat). w \<in> set (if u = 0 then [] else [u - 1])}"
  have "v \<le> u" if "(u, v) \<in> ?E\<^sup>*" for u v
    using that by (induction rule: rtrancl_induct) (auto split: if_splits)
  then have "?E\<^sup>* `` set [3] \<subseteq> {..3}" by auto
  then have "finite (?E\<^sup>* `` set [3])" by (rule finite_subset) simp
  from implicit_closure_returns[OF this] this show ?thesis by auto
qed

end
