(* ===== verification/Separation_Criterion.thy ===== *)
theory Separation_Criterion
  imports Main
begin

text \<open>
  The two criteria the separation queries are stated against, over plain relations: \<open>E\<close> holds the
  directed edges, \<open>B\<close> the bidirected ones, \<open>Z\<close> is the conditioning set. \<open>ball_rel\<close> is one move of
  the Bayes ball on states \<open>(node, came from a child)\<close>; \<open>moral_rel\<close> is adjacency in the moral graph
  on an ancestral set, where every district together with its parents is a clique. The ball reaches
  a node from another exactly when the moral graph connects them outside the conditioning set.
\<close>

section \<open>The two relations\<close>

definition ancestors :: "('a \<times> 'a) set \<Rightarrow> 'a set \<Rightarrow> 'a set" where
  "ancestors E S = {a. \<exists>s \<in> S. (a, s) \<in> E\<^sup>*}"

inductive ball_move :: "('a \<times> 'a) set \<Rightarrow> ('a \<times> 'a) set \<Rightarrow> 'a set \<Rightarrow> 'a \<times> bool \<Rightarrow> 'a \<times> bool \<Rightarrow> bool"
  for E B Z where
  up_parent: "v \<notin> Z \<Longrightarrow> (p, v) \<in> E \<Longrightarrow> ball_move E B Z (v, True) (p, True)"
| up_child: "v \<notin> Z \<Longrightarrow> (v, c) \<in> E \<Longrightarrow> ball_move E B Z (v, True) (c, False)"
| up_spouse: "v \<notin> Z \<Longrightarrow> (v, b) \<in> B \<Longrightarrow> ball_move E B Z (v, True) (b, False)"
| down_child: "v \<notin> Z \<Longrightarrow> (v, c) \<in> E \<Longrightarrow> ball_move E B Z (v, False) (c, False)"
| down_parent: "v \<in> ancestors E Z \<Longrightarrow> (p, v) \<in> E \<Longrightarrow> ball_move E B Z (v, False) (p, True)"
| down_spouse: "v \<in> ancestors E Z \<Longrightarrow> (v, b) \<in> B \<Longrightarrow> ball_move E B Z (v, False) (b, False)"

inductive_simps ball_move_up: "ball_move E B Z (v, True) t"
inductive_simps ball_move_down: "ball_move E B Z (v, False) t"

definition ball_rel :: "('a \<times> 'a) set \<Rightarrow> ('a \<times> 'a) set \<Rightarrow> 'a set \<Rightarrow> (('a \<times> bool) \<times> ('a \<times> bool)) set" where
  "ball_rel E B Z = {(s, t). ball_move E B Z s t}"

lemma ball_relI: "ball_move E B Z s t \<Longrightarrow> (s, t) \<in> ball_rel E B Z"
  by (simp add: ball_rel_def)

lemmas ball_rel_intros = ball_move.intros [THEN ball_relI]

definition ball_connected :: "('a \<times> 'a) set \<Rightarrow> ('a \<times> 'a) set \<Rightarrow> 'a set \<Rightarrow> 'a \<Rightarrow> 'a \<Rightarrow> bool" where
  "ball_connected E B Z x y \<longleftrightarrow> (\<exists>fc. ((x, True), (y, fc)) \<in> (ball_rel E B Z)\<^sup>*)"

definition spouses_in :: "('a \<times> 'a) set \<Rightarrow> 'a set \<Rightarrow> ('a \<times> 'a) set" where
  "spouses_in B A = {(u, v) \<in> B. u \<in> A \<and> v \<in> A}"

text \<open>\<open>near E c u\<close>: \<open>u\<close> is \<open>c\<close> or a parent of it, so every district's clique is what is near it.\<close>

definition near :: "('a \<times> 'a) set \<Rightarrow> 'a \<Rightarrow> 'a \<Rightarrow> bool" where
  "near E c u \<longleftrightarrow> u = c \<or> (u, c) \<in> E"

definition clique_rel :: "('a \<times> 'a) set \<Rightarrow> ('a \<times> 'a) set \<Rightarrow> 'a set \<Rightarrow> ('a \<times> 'a) set" where
  "clique_rel E B A =
     {(u, v). \<exists>c \<in> A. \<exists>d \<in> A. (c, d) \<in> (spouses_in B A)\<^sup>* \<and> near E c u \<and> near E d v}"

definition moral_rel :: "('a \<times> 'a) set \<Rightarrow> ('a \<times> 'a) set \<Rightarrow> 'a set \<Rightarrow> ('a \<times> 'a) set" where
  "moral_rel E B A = {(u, v) \<in> clique_rel E B A. u \<noteq> v}"

definition open_moral :: "('a \<times> 'a) set \<Rightarrow> ('a \<times> 'a) set \<Rightarrow> 'a set \<Rightarrow> 'a set \<Rightarrow> ('a \<times> 'a) set" where
  "open_moral E B A Z = {(u, v) \<in> moral_rel E B A. v \<notin> Z}"

definition moral_connected :: "('a \<times> 'a) set \<Rightarrow> ('a \<times> 'a) set \<Rightarrow> 'a set \<Rightarrow> 'a \<Rightarrow> 'a \<Rightarrow> bool" where
  "moral_connected E B Z x y \<longleftrightarrow> (x, y) \<in> (open_moral E B (ancestors E ({x, y} \<union> Z)) Z)\<^sup>*"

section \<open>Ancestral sets and cliques\<close>

lemma ancestors_refl: "S \<subseteq> ancestors E S"
  by (auto simp: ancestors_def)

lemma ancestors_parent: "(p, v) \<in> E \<Longrightarrow> v \<in> ancestors E S \<Longrightarrow> p \<in> ancestors E S"
  by (auto simp: ancestors_def intro: converse_rtrancl_into_rtrancl)

lemma ancestors_mono: "S \<subseteq> T \<Longrightarrow> ancestors E S \<subseteq> ancestors E T"
  by (auto simp: ancestors_def)

lemma ancestors_Un: "ancestors E (S \<union> T) = ancestors E S \<union> ancestors E T"
  by (auto simp: ancestors_def)

lemma sym_spouses_in: "sym B \<Longrightarrow> sym (spouses_in B A)"
  by (auto simp: sym_def spouses_in_def)

lemma sym_clique_rel: "sym B \<Longrightarrow> sym (clique_rel E B A)"
proof (rule symI)
  fix u v assume B: "sym B" and uv: "(u, v) \<in> clique_rel E B A"
  from uv obtain c d where "c \<in> A" "d \<in> A" "(c, d) \<in> (spouses_in B A)\<^sup>*" "near E c u" "near E d v"
    by (auto simp: clique_rel_def)
  moreover from this have "(d, c) \<in> (spouses_in B A)\<^sup>*" using sym_rtrancl[OF sym_spouses_in[OF B]] by (meson symD)
  ultimately show "(v, u) \<in> clique_rel E B A" by (auto simp: clique_rel_def)
qed

lemma sym_moral_rel: "sym B \<Longrightarrow> sym (moral_rel E B A)"
  using sym_clique_rel[of B E A] by (auto simp: sym_def moral_rel_def)

text \<open>Two nodes near the same district are equal or morally adjacent.\<close>

lemma near_same_district:
  assumes "sym B" "c \<in> A" "d \<in> A" "e \<in> A" "(c, e) \<in> (spouses_in B A)\<^sup>*" "(d, e) \<in> (spouses_in B A)\<^sup>*"
    and "near E c u" "near E d v"
  shows "(u, v) \<in> clique_rel E B A"
proof -
  have "(e, d) \<in> (spouses_in B A)\<^sup>*" using sym_rtrancl[OF sym_spouses_in[OF assms(1)]] assms(6) by (meson symD)
  with assms(5) have "(c, d) \<in> (spouses_in B A)\<^sup>*" by (rule rtrancl_trans)
  with assms show ?thesis by (auto simp: clique_rel_def)
qed

section \<open>The ball follows every moral path\<close>

text \<open>\<open>through\<close>: the ball is at \<open>v\<close> and may go on to its parents and its spouses.\<close>

definition through :: "('a \<times> 'a) set \<Rightarrow> ('a \<times> 'a) set \<Rightarrow> 'a set \<Rightarrow> 'a \<Rightarrow> 'a \<Rightarrow> bool" where
  "through E B Z x v \<longleftrightarrow> (v \<notin> Z \<and> ((x, True), (v, True)) \<in> (ball_rel E B Z)\<^sup>*) \<or>
     (v \<in> ancestors E Z \<and> ((x, True), (v, False)) \<in> (ball_rel E B Z)\<^sup>*)"

lemma through_parent: "through E B Z x v \<Longrightarrow> (p, v) \<in> E \<Longrightarrow> ((x, True), (p, True)) \<in> (ball_rel E B Z)\<^sup>*"
  unfolding through_def by (auto intro: rtrancl_into_rtrancl ball_rel_intros)

lemma through_spouse: "through E B Z x v \<Longrightarrow> (v, b) \<in> B \<Longrightarrow> ((x, True), (b, False)) \<in> (ball_rel E B Z)\<^sup>*"
  unfolding through_def by (auto intro: rtrancl_into_rtrancl ball_rel_intros)

lemma through_child:
  "through E B Z x v \<Longrightarrow> v \<notin> Z \<Longrightarrow> (v, c) \<in> E \<Longrightarrow> ((x, True), (c, False)) \<in> (ball_rel E B Z)\<^sup>*"
  unfolding through_def by (auto intro: rtrancl_into_rtrancl ball_rel_intros)

text \<open>Directed paths that miss the ancestors of the conditioning set are open both ways.\<close>

lemma ball_climbs:
  assumes "(v, x) \<in> E\<^sup>*" "v \<notin> ancestors E Z"
  shows "((x, True), (v, True)) \<in> (ball_rel E B Z)\<^sup>*"
  using assms
proof (induction rule: converse_rtrancl_induct)
  case (step v w)
  then have "w \<notin> ancestors E Z" using ancestors_parent by fast
  moreover then have "w \<notin> Z" using ancestors_refl[of Z E] by blast
  ultimately show ?case using step by (auto intro: rtrancl_into_rtrancl ball_rel_intros(1))
qed simp

lemma ball_falls:
  assumes "(v, y) \<in> E\<^sup>*" "v \<notin> ancestors E Z" "(s, (v, False)) \<in> (ball_rel E B Z)\<^sup>*"
  shows "(s, (y, False)) \<in> (ball_rel E B Z)\<^sup>*"
  using assms
proof (induction rule: converse_rtrancl_induct)
  case (step v w)
  then have "v \<notin> Z" using ancestors_refl[of Z E] by blast
  moreover have "w \<notin> ancestors E Z" using step ancestors_parent by fast
  ultimately show ?case using step by (blast intro: rtrancl_into_rtrancl ball_rel_intros(4))
qed simp

lemma down_goes_through:
  assumes "((x, True), (v, False)) \<in> (ball_rel E B Z)\<^sup>*" "v \<in> ancestors E (insert x Y \<union> Z)"
    and "\<forall>y \<in> Y. \<not> ball_connected E B Z x y"
  shows "through E B Z x v"
proof (cases "v \<in> ancestors E Z")
  case False
  with assms(2) consider "(v, x) \<in> E\<^sup>*" | y where "y \<in> Y" "(v, y) \<in> E\<^sup>*" by (auto simp: ancestors_def)
  then show ?thesis
  proof cases
    case 1
    with False show ?thesis using ball_climbs[OF 1 False] ancestors_refl[of Z E] by (auto simp: through_def)
  next
    case 2
    then show ?thesis using ball_falls[OF 2(2) False assms(1)] assms(3) by (auto simp: ball_connected_def)
  qed
qed (use assms(1) in \<open>simp add: through_def\<close>)

lemma through_district:
  assumes "(c, d) \<in> (spouses_in B (ancestors E (insert x Y \<union> Z)))\<^sup>*" "through E B Z x c"
    "\<forall>y \<in> Y. \<not> ball_connected E B Z x y"
  shows "through E B Z x d"
  using assms(1,2)
proof (induction rule: rtrancl_induct)
  case (step d e)
  then show ?case using through_spouse[of E B Z x d e] down_goes_through[OF _ _ assms(3), of e]
    by (auto simp: spouses_in_def)
qed simp

lemma moral_step_through:
  assumes "(u, v) \<in> open_moral E B (ancestors E (insert x Y \<union> Z)) Z" "u \<notin> Z" "through E B Z x u"
    and "\<forall>y \<in> Y. \<not> ball_connected E B Z x y"
  shows "through E B Z x v"
proof -
  let ?A = "ancestors E (insert x Y \<union> Z)"
  from assms(1) obtain c d where cd: "c \<in> ?A" "d \<in> ?A" "(c, d) \<in> (spouses_in B ?A)\<^sup>*" "near E c u" "near E d v" "v \<notin> Z"
    by (auto simp: open_moral_def moral_rel_def clique_rel_def)
  have "through E B Z x c"
    using cd(1,4) assms(2,3) through_child[OF assms(3,2)] down_goes_through[OF _ _ assms(4)] by (auto simp: near_def)
  then have "through E B Z x d" by (rule through_district[OF cd(3) _ assms(4)])
  then show ?thesis using cd(5,6) through_parent[of E B Z x d v] by (auto simp: near_def through_def)
qed

text \<open>A ball that reaches none of \<open>Y\<close> passes through every node the moral graph on the ancestors of the source, of
  all of \<open>Y\<close> and of the conditioning set connects to the source; so none of these is in \<open>Y\<close>.\<close>

lemma moral_reach_through:
  assumes "x \<notin> Z" "\<forall>y \<in> Y. \<not> ball_connected E B Z x y"
    and "(x, v) \<in> (open_moral E B (ancestors E (insert x Y \<union> Z)) Z)\<^sup>*"
  shows "v \<notin> Z \<and> through E B Z x v"
  using assms(3)
proof (induction rule: rtrancl_induct)
  case base
  then show ?case using assms(1) by (simp add: through_def)
next
  case (step u v)
  then show ?case using moral_step_through[OF step(2) _ _ assms(2)] by (auto simp: open_moral_def)
qed

lemma moral_reach_avoids:
  assumes "x \<notin> Z" "\<forall>y \<in> Y. \<not> ball_connected E B Z x y"
    and "(x, v) \<in> (open_moral E B (ancestors E (insert x Y \<union> Z)) Z)\<^sup>*"
  shows "v \<notin> Y"
  using moral_reach_through[OF assms] assms(2) by (auto simp: through_def ball_connected_def)

lemma moral_implies_ball:
  assumes "x \<notin> Z" "moral_connected E B Z x y"
  shows "ball_connected E B Z x y"
  using moral_reach_avoids[of x Z "{y}" E B y] assms by (auto simp: moral_connected_def)

section \<open>Every ball path has a moral path\<close>

text \<open>
  \<open>W\<close> is what the moral graph connects to \<open>x\<close>. A ball that moves up is in \<open>W\<close> unless it is stuck on
  a conditioning node; a ball that moves down inside the ancestral set sits in a district that is
  near a member of \<open>W\<close>.
\<close>

fun tracked :: "('a \<times> 'a) set \<Rightarrow> ('a \<times> 'a) set \<Rightarrow> 'a set \<Rightarrow> 'a set \<Rightarrow> 'a set \<Rightarrow> 'a \<times> bool \<Rightarrow> bool" where
  "tracked E B A Z W (v, True) \<longleftrightarrow> v \<in> A \<and> (v \<notin> Z \<longrightarrow> v \<in> W)"
| "tracked E B A Z W (v, False) \<longleftrightarrow>
     (v \<in> A \<longrightarrow> (\<exists>w \<in> W. \<exists>c \<in> A. (c, v) \<in> (spouses_in B A)\<^sup>* \<and> near E c w))"

lemma tracked_downI: "w \<in> W \<Longrightarrow> d \<in> A \<or> v \<notin> A \<Longrightarrow> (d, v) \<in> (spouses_in B A)\<^sup>* \<or> v \<notin> A \<Longrightarrow> near E d w \<Longrightarrow>
    tracked E B A Z W (v, False)"
  by auto

lemma clique_step:
  assumes "W = (open_moral E B A Z)\<^sup>* `` {x}" "w \<in> W" "(w, v) \<in> clique_rel E B A" "v \<notin> Z"
  shows "v \<in> W"
proof (cases "w = v")
  case False
  with assms(3,4) have "(w, v) \<in> open_moral E B A Z" by (simp add: open_moral_def moral_rel_def)
  with assms(1,2) show ?thesis by (auto intro: rtrancl_into_rtrancl)
qed (use assms(2) in simp)

lemma tracked_step:
  assumes "sym B" "A = ancestors E S" "Z \<subseteq> S" "W = (open_moral E B A Z)\<^sup>* `` {x}"
    and "(s, t) \<in> ball_rel E B Z" "tracked E B A Z W s"
  shows "tracked E B A Z W t"
proof -
  have up: "p \<in> A" if "(p, v) \<in> E" "v \<in> A" for p v using that assms(2) ancestors_parent by fast
  have anZ: "v \<in> A" if "v \<in> ancestors E Z" for v using that assms(2,3) ancestors_mono by fast
  note near = near_same_district[OF assms(1)]
  from assms(5) have "ball_move E B Z s t" by (simp add: ball_rel_def)
  then show ?thesis
  proof (cases rule: ball_move.cases)
    case (up_parent v p)
    with assms(6) have "v \<in> A" "v \<in> W" by simp_all
    moreover have "(v, p) \<in> clique_rel E B A"
      by (rule near[of v A v v E]) (use \<open>v \<in> A\<close> up_parent in \<open>auto simp: near_def\<close>)
    ultimately show ?thesis using up_parent up clique_step[OF assms(4)] by auto
  next
    case (up_child v c)
    with assms(6) have "v \<in> W" by simp
    with up_child tracked_downI[of v W c A c] show ?thesis by (auto simp: near_def)
  next
    case (up_spouse v b)
    with assms(6) have v: "v \<in> A" "v \<in> W" by simp_all
    with up_spouse tracked_downI[of v W v A b] show ?thesis by (auto simp: near_def spouses_in_def)
  next
    case (down_child v c)
    have "v \<in> W" if "c \<in> A"
    proof -
      have v: "v \<in> A" using down_child that up by blast
      with assms(6) down_child obtain w e where "w \<in> W" "e \<in> A" "(e, v) \<in> (spouses_in B A)\<^sup>*" "near E e w" by auto
      moreover from this have "(w, v) \<in> clique_rel E B A"
        using near[of e A v v E w v] v by (simp add: near_def)
      ultimately show ?thesis using clique_step[OF assms(4)] down_child by blast
    qed
    with down_child tracked_downI[of v W c A c] show ?thesis by (auto simp: near_def)
  next
    case (down_parent v p)
    then have v: "v \<in> A" using anZ by blast
    with assms(6) down_parent obtain w e where "w \<in> W" "e \<in> A" "(e, v) \<in> (spouses_in B A)\<^sup>*" "near E e w" by auto
    moreover from this have "(w, p) \<in> clique_rel E B A"
      using near[of e A v v E w p] v down_parent by (simp add: near_def)
    ultimately show ?thesis using clique_step[OF assms(4)] down_parent up v by auto
  next
    case (down_spouse v b)
    then have v: "v \<in> A" using anZ by blast
    with assms(6) down_spouse obtain w e where "w \<in> W" "e \<in> A" "(e, v) \<in> (spouses_in B A)\<^sup>*" "near E e w" by auto
    moreover have "(v, b) \<in> spouses_in B A" if "b \<in> A" using that v down_spouse by (simp add: spouses_in_def)
    ultimately show ?thesis using down_spouse by (auto intro: rtrancl_into_rtrancl)
  qed
qed

lemma ball_implies_moral:
  assumes "sym B" "x \<notin> Z" "y \<notin> Z" "ball_connected E B Z x y"
  shows "moral_connected E B Z x y"
proof -
  define A where "A = ancestors E ({x, y} \<union> Z)"
  define W where "W = (open_moral E B A Z)\<^sup>* `` {x}"
  have xy: "x \<in> A" "y \<in> A" using ancestors_refl[of "{x, y} \<union> Z" E] by (auto simp: A_def)
  from assms(4) obtain fc where path: "((x, True), (y, fc)) \<in> (ball_rel E B Z)\<^sup>*" by (auto simp: ball_connected_def)
  have start: "tracked E B A Z W (x, True)" using xy by (simp add: W_def)
  have "tracked E B A Z W t" if "((x, True), t) \<in> (ball_rel E B Z)\<^sup>*" for t
    using that
  proof (induction rule: rtrancl_induct)
    case (step s t)
    show ?case by (rule tracked_step[OF assms(1) A_def _ W_def step(2,3)]) blast
  qed (rule start)
  with path have tr: "tracked E B A Z W (y, fc)" by blast
  have "y \<in> W"
  proof (cases fc)
    case False
    with tr xy obtain w c where "w \<in> W" "c \<in> A" "(c, y) \<in> (spouses_in B A)\<^sup>*" "near E c w" by auto
    moreover from this have "(w, y) \<in> clique_rel E B A"
      using near_same_district[OF assms(1), of c A y y E w y] xy by (simp add: near_def)
    ultimately show ?thesis using clique_step[OF W_def] assms(3) by blast
  qed (use tr assms(3) in simp)
  then show ?thesis by (simp add: W_def A_def moral_connected_def)
qed

theorem ball_iff_moral:
  assumes "sym B" "x \<notin> Z" "y \<notin> Z"
  shows "ball_connected E B Z x y \<longleftrightarrow> moral_connected E B Z x y"
  using ball_implies_moral[OF assms] moral_implies_ball[OF assms(2)] by blast

section \<open>Symmetry\<close>

lemma moral_connected_sym:
  assumes "sym B" "x \<notin> Z" "y \<notin> Z"
  shows "moral_connected E B Z x y \<longleftrightarrow> moral_connected E B Z y x"
proof -
  have "(v, u) \<in> (open_moral E B A Z)\<^sup>*" if "(u, v) \<in> (open_moral E B A Z)\<^sup>*" "u \<notin> Z" for A and u v :: 'a
    using that
  proof (induction rule: rtrancl_induct)
    case (step v w)
    have "v \<notin> Z"
    proof (cases "v = u")
      case False
      with step(1) obtain t where "(t, v) \<in> open_moral E B A Z" by (auto elim: rtranclE)
      then show ?thesis by (simp add: open_moral_def)
    qed (use step(4) in simp)
    with step(2) have "(w, v) \<in> open_moral E B A Z"
      using sym_moral_rel[OF assms(1), of E A] by (auto simp: open_moral_def dest: symD)
    with step show ?case by (blast intro: converse_rtrancl_into_rtrancl)
  qed simp
  moreover have "{x, y} = {y, x}" by auto
  ultimately show ?thesis using assms by (auto simp: moral_connected_def)
qed

lemma ball_connected_sym:
  assumes "sym B" "x \<notin> Z" "y \<notin> Z"
  shows "ball_connected E B Z x y \<longleftrightarrow> ball_connected E B Z y x"
  using ball_iff_moral[OF assms] ball_iff_moral[OF assms(1,3,2)] moral_connected_sym[OF assms] by blast

end
