(* ===== verification/Bayes_Ball.thy ===== *)
theory Bayes_Ball
  imports Separation_Criterion Dag_Surgery
begin

text \<open>
  \<open>dsep.rs\<close>, first half: the scratch buffers of separation queries and the Bayes-ball search
  \<open>bayes_ball_reaches\<close>, shared by DAGs (under an overlay) and ADMGs. The search is proved to end,
  never to panic on graphs with rows in range, and to answer whether the ball relation connects a
  source with a target.
\<close>

section \<open>Scratch buffers\<close>

record dsep_workspace =
  sw_ancestral :: bitset
  sw_conditioning :: bitset
  sw_undirected :: "dense_id list list"
  sw_undirected_member :: "bitset list"
  sw_visited :: bitset
  sw_frontier :: "dense_id list"
  sw_pred :: "dense_id option list"
  sw_graph_ws :: graph_workspace
  sw_district_label :: "nat list"
  sw_district_stack :: "dense_id list"
  sw_district_groups :: "dense_id list list"
  sw_clique :: "dense_id list"
  sw_clique_mark :: bitset
  sw_bayes_up :: bitset
  sw_bayes_down :: bitset
  sw_bayes_targets :: bitset
  sw_bayes_queue :: "(dense_id \<times> bool) list"

definition sw_default :: dsep_workspace where
  "sw_default = \<lparr>sw_ancestral = bs_default, sw_conditioning = bs_default, sw_undirected = [],
     sw_undirected_member = [], sw_visited = bs_default, sw_frontier = [], sw_pred = [],
     sw_graph_ws = ws_default, sw_district_label = [], sw_district_stack = [], sw_district_groups = [],
     sw_clique = [], sw_clique_mark = bs_default, sw_bayes_up = bs_default, sw_bayes_down = bs_default,
     sw_bayes_targets = bs_default, sw_bayes_queue = []\<rparr>"

text \<open>\<open>prepare\<close> resizes the ancestral, conditioning and visited sets without clearing them: each query
  clears them where it fills them.\<close>

definition sw_prepare :: "dsep_workspace \<Rightarrow> nat \<Rightarrow> dsep_workspace" where
  "sw_prepare ws n = ws\<lparr>
     sw_ancestral := bs_resize (sw_ancestral ws) n,
     sw_conditioning := bs_resize (sw_conditioning ws) n,
     sw_visited := bs_resize (sw_visited ws) n,
     sw_undirected := map (\<lambda>_. []) (vec_resize n [] (sw_undirected ws)),
     sw_undirected_member := map (\<lambda>m. bs_clear (bs_resize m n))
       (if length (sw_undirected_member ws) < n then vec_resize n (bs_with_len n) (sw_undirected_member ws)
        else take n (sw_undirected_member ws)),
     sw_frontier := [],
     sw_pred := replicate n None,
     sw_graph_ws := ws_prepare (sw_graph_ws ws) n,
     sw_clique_mark := bs_clear (bs_resize (sw_clique_mark ws) n),
     sw_bayes_up := bs_clear (bs_resize (sw_bayes_up ws) n),
     sw_bayes_down := bs_clear (bs_resize (sw_bayes_down ws) n),
     sw_bayes_targets := bs_clear (bs_resize (sw_bayes_targets ws) n),
     sw_bayes_queue := []\<rparr>"

definition sw_inv :: "dsep_workspace \<Rightarrow> bool" where
  "sw_inv ws \<longleftrightarrow> bs_inv (sw_ancestral ws) \<and> bs_inv (sw_conditioning ws) \<and> bs_inv (sw_visited ws) \<and>
     (\<forall>m \<in> set (sw_undirected_member ws). bs_inv m) \<and> ws_inv (sw_graph_ws ws) \<and> bs_inv (sw_clique_mark ws) \<and>
     bs_inv (sw_bayes_up ws) \<and> bs_inv (sw_bayes_down ws) \<and> bs_inv (sw_bayes_targets ws)"

lemma sw_default_inv: "sw_inv sw_default"
  by (simp add: sw_inv_def sw_default_def bs_default)

lemma sw_prepare_inv:
  assumes "sw_inv ws"
  shows "sw_inv (sw_prepare ws n)"
proof -
  have "bs_inv (bs_clear (bs_resize m n))" if "bs_inv m" for m using bs.prepared[OF that] by simp
  moreover have "bs_inv m" if "m \<in> set (take n (sw_undirected_member ws))" for m
    using assms that by (auto simp: sw_inv_def dest: in_set_takeD)
  ultimately show ?thesis
    using assms by (auto simp: sw_inv_def sw_prepare_def vec_resize_def bs_resize bs_with_len dest: in_set_takeD)
qed

lemma sw_prepare_lens:
  assumes "sw_inv ws"
  shows "bs_len (sw_ancestral (sw_prepare ws n)) = n" "bs_len (sw_conditioning (sw_prepare ws n)) = n"
    and "bs_len (sw_visited (sw_prepare ws n)) = n" "sw_undirected (sw_prepare ws n) = replicate n []"
    and "length (sw_undirected_member (sw_prepare ws n)) = n" "length (sw_pred (sw_prepare ws n)) = n"
    and "bs_members (sw_clique_mark (sw_prepare ws n)) = {}" "bs_len (sw_clique_mark (sw_prepare ws n)) = n"
    and "bs_members (sw_bayes_up (sw_prepare ws n)) = {}" "bs_len (sw_bayes_up (sw_prepare ws n)) = n"
    and "bs_members (sw_bayes_down (sw_prepare ws n)) = {}" "bs_len (sw_bayes_down (sw_prepare ws n)) = n"
    and "bs_members (sw_bayes_targets (sw_prepare ws n)) = {}" "bs_len (sw_bayes_targets (sw_prepare ws n)) = n"
  using assms bs.prepared[of _ n]
  by (simp_all add: sw_inv_def sw_prepare_def bs_resize map_replicate_const)

lemma sw_prepare_members:
  assumes "sw_inv ws" "m \<in> set (sw_undirected_member (sw_prepare ws n))"
  shows "bs_members m = {}" "bs_len m = n"
proof -
  have "\<forall>m \<in> set (sw_undirected_member ws). bs_inv m" using assms(1) by (simp add: sw_inv_def)
  then have "\<exists>m'. bs_inv m' \<and> m = bs_clear (bs_resize m' n)"
    using assms(2) bs_with_len[of n]
    by (auto simp: sw_prepare_def vec_resize_def dest: in_set_takeD split: if_splits)
  then show "bs_members m = {}" "bs_len m = n" using bs.prepared[of _ n] by auto
qed

text \<open>\<open>for v in vs { if v < n { set.insert(v) } }\<close>.\<close>

fun mark_below :: "nat \<Rightarrow> dense_id list \<Rightarrow> bitset \<Rightarrow> bitset option" where
  "mark_below n [] b = Some b"
| "mark_below n (v # vs) b =
     (if v < n then (case bs_insert b v of None \<Rightarrow> None | Some b' \<Rightarrow> mark_below n vs b')
      else mark_below n vs b)"

lemma mark_below_spec:
  assumes "bs_inv b" "bs_len b = n"
  shows "\<exists>b'. mark_below n vs b = Some b' \<and> bs_inv b' \<and> bs_len b' = n \<and>
    bs_members b' = bs_members b \<union> {v \<in> set vs. v < n}"
  using assms
proof (induction vs arbitrary: b)
  case (Cons v vs)
  show ?case
  proof (cases "v < n")
    case True
    with Cons.prems obtain b1 where "bs_insert b v = Some b1" "bs_inv b1" "bs_members b1 = insert v (bs_members b)" "bs_len b1 = n"
      by (auto elim: bs.ins_step)
    with True Cons.IH[of b1] show ?thesis by auto
  next
    case False
    then have "{w \<in> set (v # vs). w < n} = {w \<in> set vs. w < n}" by auto
    with False Cons show ?thesis by simp
  qed
qed simp

section \<open>The Bayes ball\<close>

record ball_graph =
  bg_parents :: "dense_id list list"
  bg_children :: "dense_id list list"
  bg_bidirected :: "dense_id list list"
  bg_overlay :: "graph_overlay option"

definition ball_schedule :: "dsep_workspace \<Rightarrow> dense_id \<Rightarrow> bool \<Rightarrow> dsep_workspace option" where
  "ball_schedule ws node from_child =
     (let seen = (if from_child then bs_contains (sw_bayes_up ws) node else bs_contains (sw_bayes_down ws) node)
      in if seen then Some ws
         else if from_child then
           map_option (\<lambda>b. ws\<lparr>sw_bayes_up := b, sw_bayes_queue := (node, from_child) # sw_bayes_queue ws\<rparr>)
             (bs_insert (sw_bayes_up ws) node)
         else
           map_option (\<lambda>b. ws\<lparr>sw_bayes_down := b, sw_bayes_queue := (node, from_child) # sw_bayes_queue ws\<rparr>)
             (bs_insert (sw_bayes_down ws) node))"

fun ball_schedule_all :: "(dense_id \<times> bool) list \<Rightarrow> dsep_workspace \<Rightarrow> dsep_workspace option" where
  "ball_schedule_all [] ws = Some ws"
| "ball_schedule_all ((node, from_child) # rest) ws =
     (case ball_schedule ws node from_child of None \<Rightarrow> None | Some ws' \<Rightarrow> ball_schedule_all rest ws')"

text \<open>The \<open>schedule\<close> calls one popped state makes, in their order; their guards read only the
  conditioning and the ancestral set, which \<open>schedule\<close> leaves alone.\<close>

definition ball_moves :: "ball_graph \<Rightarrow> bitset \<Rightarrow> bitset \<Rightarrow> dense_id \<Rightarrow> bool \<Rightarrow> (dense_id \<times> bool) list" where
  "ball_moves g conditioning ancestral node from_child =
     (let directed_ok = visible_under (bg_overlay g);
          to_parents = map (\<lambda>p. (p, True)) (filter (\<lambda>p. directed_ok p node) (row (bg_parents g) node));
          to_children = map (\<lambda>c. (c, False)) (filter (\<lambda>c. directed_ok node c) (row (bg_children g) node));
          to_spouses = map (\<lambda>b. (b, False)) (row (bg_bidirected g) node)
      in if from_child then
           (if bs_contains conditioning node then [] else to_parents @ to_children @ to_spouses)
         else
           (if \<not> bs_contains conditioning node then to_children else []) @
           (if bs_contains ancestral node then to_parents @ to_spouses else []))"

definition ball_measure :: "dsep_workspace \<Rightarrow> nat" where
  "ball_measure ws =
     2 * (ws_unseen (sw_bayes_up ws) + ws_unseen (sw_bayes_down ws)) + length (sw_bayes_queue ws)"

lemma ball_schedule_measure: "ball_schedule ws v fc = Some ws' \<Longrightarrow> ball_measure ws' \<le> ball_measure ws"
  using ws_unseen_insert[of "sw_bayes_up ws" v] ws_unseen_insert[of "sw_bayes_down ws" v]
  by (fastforce simp: ball_schedule_def ball_measure_def Let_def split: if_splits)

lemma ball_schedule_all_measure: "ball_schedule_all ms ws = Some ws' \<Longrightarrow> ball_measure ws' \<le> ball_measure ws"
  by (induction ms ws rule: ball_schedule_all.induct)
    (auto split: option.splits dest!: ball_schedule_measure)

function ball_loop :: "ball_graph \<Rightarrow> dsep_workspace \<Rightarrow> (bool \<times> dsep_workspace) option" where
  "ball_loop g ws =
     (case sw_bayes_queue ws of
        [] \<Rightarrow> Some (False, ws)
      | (node, from_child) # rest \<Rightarrow>
          (let ws0 = ws\<lparr>sw_bayes_queue := rest\<rparr>
           in if bs_contains (sw_bayes_targets ws) node then Some (True, ws0)
              else case ball_schedule_all
                  (ball_moves g (sw_conditioning ws) (sw_ancestral ws) node from_child) ws0 of
                None \<Rightarrow> None
              | Some ws' \<Rightarrow> ball_loop g ws'))"
  by pat_completeness auto
termination
  by (relation "measure (\<lambda>(g, ws). ball_measure ws)")
    (auto dest!: ball_schedule_all_measure simp: ball_measure_def)

declare ball_loop.simps [simp del]

fun ball_sources :: "nat \<Rightarrow> dense_id list \<Rightarrow> dsep_workspace \<Rightarrow> dsep_workspace option" where
  "ball_sources n [] ws = Some ws"
| "ball_sources n (s # ss) ws =
     (if s \<ge> n \<or> bs_contains (sw_bayes_up ws) s then ball_sources n ss ws
      else case bs_insert (sw_bayes_up ws) s of
        None \<Rightarrow> None
      | Some b \<Rightarrow> ball_sources n ss (ws\<lparr>sw_bayes_up := b, sw_bayes_queue := (s, True) # sw_bayes_queue ws\<rparr>))"

definition bayes_ball_reaches ::
  "dsep_workspace \<Rightarrow> ball_graph \<Rightarrow> dense_id list \<Rightarrow> dense_id list \<Rightarrow> dense_id list \<Rightarrow>
    (bool \<times> dsep_workspace) option" where
  "bayes_ball_reaches ws g sources targets conditioning =
     (let n = length (bg_parents g); ws1 = sw_prepare ws n
      in case mark_below n conditioning (bs_clear (sw_conditioning ws1)) of
           None \<Rightarrow> None
         | Some cond \<Rightarrow>
      (case closure_into n (row (bg_parents g)) conditioning (sw_ancestral ws1) (sw_graph_ws ws1)
              (\<lambda>child parent. visible_under (bg_overlay g) parent child) of
           None \<Rightarrow> None
         | Some (anc, gws) \<Rightarrow>
      (case mark_below n targets (sw_bayes_targets ws1) of
           None \<Rightarrow> None
         | Some tgts \<Rightarrow>
      (case ball_sources n sources
              (ws1\<lparr>sw_conditioning := cond, sw_ancestral := anc, sw_graph_ws := gws, sw_bayes_targets := tgts\<rparr>) of
           None \<Rightarrow> None
         | Some ws2 \<Rightarrow> ball_loop g ws2))))"


section \<open>The search computes the ball relation\<close>

text \<open>The rows a search reads, as relations: \<open>E\<close> are the visible directed edges.\<close>

definition ball_rows :: "ball_graph \<Rightarrow> nat \<Rightarrow> (nat \<times> nat) set \<Rightarrow> (nat \<times> nat) set \<Rightarrow> bool" where
  "ball_rows g n E B \<longleftrightarrow> length (bg_parents g) = n \<and>
     (\<forall>u p. p \<in> set (row (bg_parents g) u) \<and> visible_under (bg_overlay g) p u \<longleftrightarrow> (p, u) \<in> E) \<and>
     (\<forall>u c. c \<in> set (row (bg_children g) u) \<and> visible_under (bg_overlay g) u c \<longleftrightarrow> (u, c) \<in> E) \<and>
     (\<forall>u b. b \<in> set (row (bg_bidirected g) u) \<longleftrightarrow> (u, b) \<in> B) \<and>
     E \<subseteq> {..<n} \<times> {..<n} \<and> B \<subseteq> {..<n} \<times> {..<n}"

lemma ball_rowsD:
  assumes "ball_rows g n E B"
  shows "length (bg_parents g) = n"
    and "p \<in> set (row (bg_parents g) u) \<and> visible_under (bg_overlay g) p u \<longleftrightarrow> (p, u) \<in> E"
    and "c \<in> set (row (bg_children g) u) \<and> visible_under (bg_overlay g) u c \<longleftrightarrow> (u, c) \<in> E"
    and "b \<in> set (row (bg_bidirected g) u) \<longleftrightarrow> (u, b) \<in> B"
    and "(u, v) \<in> E \<Longrightarrow> u < n \<and> v < n" "(u, v) \<in> B \<Longrightarrow> u < n \<and> v < n"
  using assms unfolding ball_rows_def by blast+

lemma ball_moves_spec:
  assumes "ball_rows g n E B" "bs_members cond = Z" "bs_members anc = ancestors E Z"
  shows "set (ball_moves g cond anc v fc) = {t. ball_move E B Z (v, fc) t}"
proof -
  note r = ball_rowsD(2-4)[OF assms(1)]
  show ?thesis
  proof (cases fc)
    case True
    then show ?thesis using r assms(2)
      by (auto simp: ball_moves_def Let_def ball_move_up bs_contains_members image_iff)
  next
    case False
    then show ?thesis using r assms(2,3)
      by (auto simp: ball_moves_def Let_def ball_move_down bs_contains_members image_iff)
  qed
qed

lemma ball_move_range: "ball_rows g n E B \<Longrightarrow> ball_move E B Z s t \<Longrightarrow> fst t < n"
  by (erule ball_move.cases) (auto dest: ball_rowsD(5,6))

definition ball_seen :: "dsep_workspace \<Rightarrow> (nat \<times> bool) set" where
  "ball_seen ws = {(v, fc). if fc then v \<in> bs_members (sw_bayes_up ws) else v \<in> bs_members (sw_bayes_down ws)}"

text \<open>What a search keeps while it runs.\<close>

definition ball_ready :: "dsep_workspace \<Rightarrow> nat \<Rightarrow> bool" where
  "ball_ready ws n \<longleftrightarrow> sw_inv ws \<and> bs_len (sw_bayes_up ws) = n \<and> bs_len (sw_bayes_down ws) = n"

definition ball_fixed :: "dsep_workspace \<Rightarrow> bitset \<times> bitset \<times> bitset" where
  "ball_fixed ws = (sw_conditioning ws, sw_ancestral ws, sw_bayes_targets ws)"

lemma ball_schedule_spec:
  assumes "ball_ready ws n" "v < n"
  shows "\<exists>ws'. ball_schedule ws v fc = Some ws' \<and> ball_ready ws' n \<and> ball_fixed ws' = ball_fixed ws \<and>
    ball_seen ws' = insert (v, fc) (ball_seen ws) \<and>
    set (sw_bayes_queue ws') = set (sw_bayes_queue ws) \<union> ({(v, fc)} - ball_seen ws)"
proof -
  have inv: "bs_inv (sw_bayes_up ws)" "bs_inv (sw_bayes_down ws)" and n: "bs_len (sw_bayes_up ws) = n" "bs_len (sw_bayes_down ws) = n"
    using assms(1) by (simp_all add: ball_ready_def sw_inv_def)
  obtain u where u: "bs_insert (sw_bayes_up ws) v = Some u" "bs_inv u" "bs_members u = insert v (bs_members (sw_bayes_up ws))" "bs_len u = n"
    using bs.ins_step[OF inv(1)] n assms(2) by metis
  obtain w where w: "bs_insert (sw_bayes_down ws) v = Some w" "bs_inv w" "bs_members w = insert v (bs_members (sw_bayes_down ws))" "bs_len w = n"
    using bs.ins_step[OF inv(2)] n assms(2) by metis
  show ?thesis
  proof (cases "(v, fc) \<in> ball_seen ws")
    case True
    then show ?thesis using assms(1) by (auto simp: ball_schedule_def ball_seen_def bs_contains_members)
  next
    case False
    then show ?thesis using assms(1) u w
      by (cases fc) (auto simp: ball_schedule_def ball_seen_def bs_contains_members ball_ready_def sw_inv_def ball_fixed_def
          split: if_splits)
  qed
qed

lemma ball_schedule_all_spec:
  assumes "ball_ready ws n" "\<forall>t \<in> set ms. fst t < n"
  shows "\<exists>ws'. ball_schedule_all ms ws = Some ws' \<and> ball_ready ws' n \<and> ball_fixed ws' = ball_fixed ws \<and>
    ball_seen ws' = ball_seen ws \<union> set ms \<and>
    set (sw_bayes_queue ws') = set (sw_bayes_queue ws) \<union> (set ms - ball_seen ws)"
  using assms
proof (induction ms ws rule: ball_schedule_all.induct)
  case (2 v fc rest ws)
  from ball_schedule_spec[OF "2.prems"(1), of v fc] "2.prems"(2) obtain ws1 where
    w1: "ball_schedule ws v fc = Some ws1" "ball_ready ws1 n" "ball_fixed ws1 = ball_fixed ws"
      "ball_seen ws1 = insert (v, fc) (ball_seen ws)"
      "set (sw_bayes_queue ws1) = set (sw_bayes_queue ws) \<union> ({(v, fc)} - ball_seen ws)" by auto
  from "2.IH"[OF w1(1,2)] "2.prems"(2) obtain ws2 where
    "ball_schedule_all rest ws1 = Some ws2" "ball_ready ws2 n" "ball_fixed ws2 = ball_fixed ws1"
      "ball_seen ws2 = ball_seen ws1 \<union> set rest"
      "set (sw_bayes_queue ws2) = set (sw_bayes_queue ws1) \<union> (set rest - ball_seen ws1)" by auto
  with w1 show ?case by auto
qed simp

lemma ball_loop_spec:
  assumes "ball_rows g n E B" "ball_ready ws n"
    and "bs_members (sw_conditioning ws) = Z" "bs_members (sw_ancestral ws) = ancestors E Z"
    and "worklist (ball_rel E B Z) S (ball_seen ws) (set (sw_bayes_queue ws))"
    and "\<forall>(v, fc) \<in> ball_seen ws - set (sw_bayes_queue ws). v \<notin> bs_members (sw_bayes_targets ws)"
  shows "\<exists>ws'. ball_loop g ws = Some
      ((\<exists>s \<in> S. \<exists>y \<in> bs_members (sw_bayes_targets ws). \<exists>fc. (s, (y, fc)) \<in> (ball_rel E B Z)\<^sup>*), ws') \<and> sw_inv ws'"
  using assms
proof (induction g ws rule: ball_loop.induct)
  case (1 g ws)
  let ?R = "ball_rel E B Z" and ?T = "bs_members (sw_bayes_targets ws)"
  have inv: "sw_inv ws" using "1.prems"(2) by (simp add: ball_ready_def)
  show ?case
  proof (cases "sw_bayes_queue ws")
    case Nil
    with "1.prems"(5) have "ball_seen ws = ?R\<^sup>* `` S" by (auto dest: worklist_done)
    then have "\<not> (\<exists>s \<in> S. \<exists>y \<in> ?T. \<exists>fc. (s, (y, fc)) \<in> ?R\<^sup>*)" using "1.prems"(6) Nil by auto
    with Nil inv show ?thesis by (subst ball_loop.simps) simp
  next
    case (Cons hd rest)
    obtain v fc where hd: "hd = (v, fc)" by fastforce
    have seen: "(v, fc) \<in> ball_seen ws" using "1.prems"(5) Cons hd by (auto simp: worklist_def)
    show ?thesis
    proof (cases "v \<in> ?T")
      case True
      have "\<exists>s \<in> S. (s, (v, fc)) \<in> ?R\<^sup>*" by (rule worklist_reach[OF "1.prems"(5) seen])
      with True Cons hd inv show ?thesis
        by (subst ball_loop.simps) (auto simp: Let_def bs_contains_members sw_inv_def)
    next
      case False
      let ?ms = "ball_moves g (sw_conditioning ws) (sw_ancestral ws) v fc" and ?ws0 = "ws\<lparr>sw_bayes_queue := rest\<rparr>"
      have ms: "set ?ms = {t. ball_move E B Z (v, fc) t}" by (rule ball_moves_spec[OF "1.prems"(1) "1.prems"(3,4)])
      have ready0: "ball_ready ?ws0 n" using "1.prems"(2) by (simp add: ball_ready_def sw_inv_def)
      have range: "\<forall>t \<in> set ?ms. fst t < n" using ms ball_move_range[OF "1.prems"(1)] by auto
      from ball_schedule_all_spec[OF ready0 range] obtain ws' where
        run: "ball_schedule_all ?ms ?ws0 = Some ws'" and ready: "ball_ready ws' n" and fixed: "ball_fixed ws' = ball_fixed ?ws0"
        and seen': "ball_seen ws' = ball_seen ?ws0 \<union> set ?ms"
        and queue: "set (sw_bayes_queue ws') = set rest \<union> (set ?ms - ball_seen ?ws0)" by auto
      have seen0: "ball_seen ?ws0 = ball_seen ws" by (simp add: ball_seen_def)
      have fx: "sw_conditioning ws' = sw_conditioning ws" "sw_ancestral ws' = sw_ancestral ws"
          "sw_bayes_targets ws' = sw_bayes_targets ws" using fixed by (simp_all add: ball_fixed_def)
      have "worklist ?R S (ball_seen ws \<union> (set ?ms - ball_seen ws)) (set rest \<union> (set ?ms - ball_seen ws))"
        by (rule worklist_step[OF "1.prems"(5), of "(v, fc)"]) (use Cons hd seen ms in \<open>auto simp: ball_rel_def\<close>)
      then have wl: "worklist ?R S (ball_seen ws') (set (sw_bayes_queue ws'))"
        using queue seen' seen0 by (simp add: Un_Diff_cancel)
      have clear: "\<forall>(w, fd) \<in> ball_seen ws' - set (sw_bayes_queue ws'). w \<notin> bs_members (sw_bayes_targets ws')"
        using "1.prems"(6) Cons hd False queue seen' seen0 fx(3) by auto
      have nt: "\<not> bs_contains (sw_bayes_targets ws) v" using False by (simp add: bs_contains_members)
      from "1.IH"[OF Cons hd[symmetric] refl nt run "1.prems"(1) ready] "1.prems"(3,4) wl clear obtain ws'' where
        "ball_loop g ws' = Some ((\<exists>s \<in> S. \<exists>y \<in> ?T. \<exists>fc. (s, (y, fc)) \<in> ?R\<^sup>*), ws'')" "sw_inv ws''"
        unfolding fx by blast
      with Cons hd nt run show ?thesis by (subst ball_loop.simps) (simp add: Let_def)
    qed
  qed
qed

lemma ball_sources_spec:
  assumes "ball_ready ws n"
  shows "\<exists>ws'. ball_sources n ss ws = Some ws' \<and> ball_ready ws' n \<and> ball_fixed ws' = ball_fixed ws \<and>
    ball_seen ws' = ball_seen ws \<union> {(s, True) | s. s \<in> set ss \<and> s < n} \<and>
    set (sw_bayes_queue ws') = set (sw_bayes_queue ws) \<union> ({(s, True) | s. s \<in> set ss \<and> s < n} - ball_seen ws)"
  using assms
proof (induction ss arbitrary: ws)
  case (Cons s ss)
  show ?case
  proof (cases "s \<ge> n \<or> bs_contains (sw_bayes_up ws) s")
    case True
    then have "ball_sources n (s # ss) ws = ball_sources n ss ws" by simp
    moreover have "s < n \<Longrightarrow> (s, True) \<in> ball_seen ws" using True by (auto simp: ball_seen_def bs_contains_members)
    ultimately show ?thesis using Cons.IH[OF Cons.prems] True by fastforce
  next
    case False
    then obtain b where b: "bs_insert (sw_bayes_up ws) s = Some b"
      using Cons.prems bs_insert_in_range[of "sw_bayes_up ws" s] by (auto simp: ball_ready_def sw_inv_def)
    let ?ws = "ws\<lparr>sw_bayes_up := b, sw_bayes_queue := (s, True) # sw_bayes_queue ws\<rparr>"
    have "ball_schedule ws s True = Some ?ws" using False b by (simp add: ball_schedule_def)
    with ball_schedule_spec[OF Cons.prems, of s True] False
    have w: "ball_ready ?ws n" "ball_fixed ?ws = ball_fixed ws" "ball_seen ?ws = insert (s, True) (ball_seen ws)"
      by auto
    have fresh: "(s, True) \<notin> ball_seen ws" using False by (simp add: ball_seen_def bs_contains_members)
    from Cons.IH[OF w(1)] obtain ws' where
      "ball_sources n ss ?ws = Some ws'" "ball_ready ws' n" "ball_fixed ws' = ball_fixed ws"
      "ball_seen ws' = insert (s, True) (ball_seen ws) \<union> {(s, True) | s. s \<in> set ss \<and> s < n}"
      "set (sw_bayes_queue ws') = insert (s, True) (set (sw_bayes_queue ws)) \<union>
        ({(s, True) | s. s \<in> set ss \<and> s < n} - insert (s, True) (ball_seen ws))"
      unfolding w(2,3) by auto
    with False b fresh show ?thesis by auto
  qed
qed simp

theorem bayes_ball_reaches_spec:
  assumes "ball_rows g n E B" "sw_inv ws"
  shows "\<exists>ws'. bayes_ball_reaches ws g sources targets cond = Some
      ((\<exists>x \<in> set sources. \<exists>y \<in> set targets. x < n \<and> y < n \<and>
          ball_connected E B {v \<in> set cond. v < n} x y), ws') \<and> sw_inv ws'"
proof -
  note rows = ball_rowsD[OF assms(1)]
  let ?Z = "{v \<in> set cond. v < n}" and ?ws1 = "sw_prepare ws n"
  have inv1: "sw_inv ?ws1" by (rule sw_prepare_inv[OF assms(2)])
  note lens = sw_prepare_lens[OF assms(2), of n]
  have parts: "bs_inv (sw_conditioning ?ws1)" "bs_inv (sw_ancestral ?ws1)" "ws_inv (sw_graph_ws ?ws1)" "bs_inv (sw_bayes_targets ?ws1)"
    using inv1 by (simp_all add: sw_inv_def)
  obtain cb where cb: "mark_below n cond (bs_clear (sw_conditioning ?ws1)) = Some cb" "bs_inv cb" "bs_members cb = ?Z"
    using mark_below_spec[of "bs_clear (sw_conditioning ?ws1)" n cond] bs.clear_spec[OF parts(1)] lens(2) by auto
  let ?keep = "\<lambda>c p. visible_under (bg_overlay g) p c"
  have "closure_rel (row (bg_parents g)) ?keep = E\<inverse>" using rows(2) by (auto simp: closure_rel_def)
  moreover have "\<exists>anc gws. closure_into n (row (bg_parents g)) cond (sw_ancestral ?ws1) (sw_graph_ws ?ws1) ?keep = Some (anc, gws) \<and>
      bs_inv anc \<and> bs_len anc = n \<and> ws_inv gws \<and> bs_members anc = (closure_rel (row (bg_parents g)) ?keep)\<^sup>* `` ?Z"
    by (rule closure_into_spec[OF parts(2,3)]) (use rows(2,5) in blast)
  ultimately obtain anc gws where
    anc: "closure_into n (row (bg_parents g)) cond (sw_ancestral ?ws1) (sw_graph_ws ?ws1) ?keep = Some (anc, gws)"
      "bs_inv anc" "ws_inv gws" "bs_members anc = (E\<inverse>)\<^sup>* `` ?Z" by auto
  have anc_mem: "bs_members anc = ancestors E ?Z" unfolding anc(4) ancestors_def by (auto simp: rtrancl_converse)
  obtain tb where tb: "mark_below n targets (sw_bayes_targets ?ws1) = Some tb" "bs_inv tb" "bs_members tb = {v \<in> set targets. v < n}"
    using mark_below_spec[OF parts(4) lens(14), of targets] lens(13) by auto
  let ?ws2 = "?ws1\<lparr>sw_conditioning := cb, sw_ancestral := anc, sw_graph_ws := gws, sw_bayes_targets := tb\<rparr>"
  have ready: "ball_ready ?ws2 n" using inv1 lens cb(2) anc(2,3) tb(2) by (simp add: ball_ready_def sw_inv_def)
  have none: "ball_seen ?ws2 = {}" "sw_bayes_queue ?ws2 = []" using lens(9,11) by (auto simp: ball_seen_def sw_prepare_def)
  let ?S = "{(s, True) | s. s \<in> set sources \<and> s < n}"
  from ball_sources_spec[OF ready, of sources] obtain ws3 where
    src: "ball_sources n sources ?ws2 = Some ws3" "ball_ready ws3 n" "ball_fixed ws3 = ball_fixed ?ws2"
      "ball_seen ws3 = ?S" "set (sw_bayes_queue ws3) = ?S" unfolding none by auto
  have fx: "sw_conditioning ws3 = cb" "sw_ancestral ws3 = anc" "sw_bayes_targets ws3 = tb"
    using src(3) by (simp_all add: ball_fixed_def)
  have "\<exists>ws'. ball_loop g ws3 = Some
      ((\<exists>s \<in> ?S. \<exists>y \<in> bs_members (sw_bayes_targets ws3). \<exists>fc. (s, (y, fc)) \<in> (ball_rel E B ?Z)\<^sup>*), ws') \<and> sw_inv ws'"
    by (rule ball_loop_spec[OF assms(1) src(2)]) (use fx cb(3) anc_mem src(4,5) worklist_init in auto)
  then obtain ws' where
    loop: "ball_loop g ws3 = Some ((\<exists>s \<in> ?S. \<exists>y \<in> bs_members tb. \<exists>fc. (s, (y, fc)) \<in> (ball_rel E B ?Z)\<^sup>*), ws')" "sw_inv ws'"
    unfolding fx(3) by blast
  have "(\<exists>s \<in> ?S. \<exists>y \<in> bs_members tb. \<exists>fc. (s, (y, fc)) \<in> (ball_rel E B ?Z)\<^sup>*) \<longleftrightarrow>
      (\<exists>x \<in> set sources. \<exists>y \<in> set targets. x < n \<and> y < n \<and> ball_connected E B ?Z x y)"
    unfolding tb(3) ball_connected_def by blast
  with loop show ?thesis
    unfolding bayes_ball_reaches_def Let_def rows(1) using cb(1) anc(1) tb(1) src(1) by simp
qed

end
