(* ===== verification/Moral_Graph.thy ===== *)
theory Moral_Graph
  imports Bayes_Ball
begin

text \<open>
  \<open>dsep.rs\<close>, second half: the undirected moral graph kept as insertion-ordered rows with a bit set
  per row, the search of it that records predecessors, and the path read back from them. The search
  is proved to decide connection outside the conditioning set, and the path it reconstructs to be a
  simple path of that graph.
\<close>

section \<open>Adding undirected edges\<close>

type_synonym moral_tables = "dense_id list list \<times> bitset list"

text \<open>One of the two mirrored halves of \<open>add_undirected\<close>.\<close>

definition add_half :: "dense_id \<Rightarrow> dense_id \<Rightarrow> moral_tables \<Rightarrow> moral_tables option" where
  "add_half a b = (\<lambda>(adj, mem).
     if a \<ge> length mem then None
     else if bs_contains (mem ! a) b then Some (adj, mem)
     else case bs_insert (mem ! a) b of
       None \<Rightarrow> None
     | Some m \<Rightarrow> if a \<ge> length adj then None else Some (push_row adj a b, mem[a := m]))"

definition add_undirected :: "dense_id \<Rightarrow> dense_id \<Rightarrow> moral_tables \<Rightarrow> moral_tables option" where
  "add_undirected a b t =
     (if a = b then Some t
      else case add_half a b t of None \<Rightarrow> None | Some t' \<Rightarrow> add_half b a t')"

fun add_undirected_all :: "(dense_id \<times> dense_id) list \<Rightarrow> moral_tables \<Rightarrow> moral_tables option" where
  "add_undirected_all [] t = Some t"
| "add_undirected_all ((a, b) # ps) t =
     (case add_undirected a b t of None \<Rightarrow> None | Some t' \<Rightarrow> add_undirected_all ps t')"

text \<open>The calls of a loop \<open>for (i, a) in xs { if ok(a) { for b in xs[i + 1..] { if ok(b) { add(a, b) } } } }\<close>.\<close>

fun marry :: "('a \<Rightarrow> bool) \<Rightarrow> 'a list \<Rightarrow> ('a \<times> 'a) list" where
  "marry ok [] = []"
| "marry ok (a # rest) = (if ok a then map (Pair a) (filter ok rest) else []) @ marry ok rest"

definition tables_inv :: "nat \<Rightarrow> moral_tables \<Rightarrow> (nat \<times> nat) set \<Rightarrow> bool" where
  "tables_inv n = (\<lambda>(adj, mem) R. length adj = n \<and> length mem = n \<and> row_rel adj = R \<and>
     (\<forall>i < n. bs_inv (mem ! i) \<and> bs_len (mem ! i) = n \<and> bs_members (mem ! i) = set (adj ! i)))"

definition sym_pairs :: "('a \<times> 'a) set \<Rightarrow> ('a \<times> 'a) set" where
  "sym_pairs P = {(a, b). a \<noteq> b \<and> ((a, b) \<in> P \<or> (b, a) \<in> P)}"

lemma sym_pairs_Un: "sym_pairs (P \<union> Q) = sym_pairs P \<union> sym_pairs Q"
  by (auto simp: sym_pairs_def)

lemma sym_pairs_empty [simp]: "sym_pairs {} = {}"
  by (simp add: sym_pairs_def)

lemma tables_invD:
  assumes "tables_inv n t R"
  shows "length (fst t) = n" "length (snd t) = n" "row_rel (fst t) = R"
    and "i < n \<Longrightarrow> bs_inv (snd t ! i) \<and> bs_len (snd t ! i) = n \<and> bs_members (snd t ! i) = set (fst t ! i)"
  using assms by (auto simp: tables_inv_def split: prod.splits)

lemma tables_inv_R: "tables_inv n t R \<Longrightarrow> (a, b) \<in> R \<longleftrightarrow> a < n \<and> b \<in> set (fst t ! a)"
  using tables_invD(1,3)[of n t R] by (metis in_row_length row_nth row_rel_iff)

lemma tables_range: "tables_inv n t R \<Longrightarrow> (a, b) \<in> R \<Longrightarrow> a < n \<and> b < n"
  using tables_invD(4)[of n t R a] tables_inv_R[of n t R a b] bs_members_below by fastforce

lemma add_half_spec:
  assumes "tables_inv n t R" "a < n" "b < n"
  shows "\<exists>t'. add_half a b t = Some t' \<and> tables_inv n t' (insert (a, b) R)"
proof -
  obtain adj mem where t: "t = (adj, mem)" by fastforce
  note d = tables_invD[OF assms(1)[unfolded t], simplified]
  note m = d(4)[OF assms(2)]
  have R: "(a, b) \<in> R \<longleftrightarrow> b \<in> set (adj ! a)" using tables_inv_R[OF assms(1), of a b] assms(2) by (simp add: t)
  show ?thesis
  proof (cases "bs_contains (mem ! a) b")
    case True
    then have "insert (a, b) R = R" using R m by (auto simp: bs_contains_members)
    with True assms d(2) show ?thesis by (simp add: add_half_def t)
  next
    case False
    obtain b' where b': "bs_insert (mem ! a) b = Some b'" "bs_inv b'" "bs_members b' = insert b (bs_members (mem ! a))"
        "bs_len b' = bs_len (mem ! a)"
      using bs.ins_step[of "mem ! a" b] m assms(3) by metis
    have "row_rel (push_row adj a b) = insert (a, b) R" using d(1,3) assms(2) by (simp add: row_rel_push_row)
    moreover have "\<forall>i < n. bs_inv (mem[a := b'] ! i) \<and> bs_len (mem[a := b'] ! i) = n \<and>
        bs_members (mem[a := b'] ! i) = set (push_row adj a b ! i)"
      using d(1,2,4) b' m assms(2) by (auto simp: push_row_def nth_list_update)
    ultimately have "tables_inv n (push_row adj a b, mem[a := b']) (insert (a, b) R)"
      using d(1,2) by (simp add: tables_inv_def)
    with False b'(1) d(1,2) assms(2) show ?thesis by (simp add: add_half_def t)
  qed
qed

lemma add_undirected_spec:
  assumes "tables_inv n t R" "a < n" "b < n"
  shows "\<exists>t'. add_undirected a b t = Some t' \<and> tables_inv n t' (R \<union> sym_pairs {(a, b)})"
proof (cases "a = b")
  case True
  then have "sym_pairs {(a, b)} = {}" by (auto simp: sym_pairs_def)
  with True show ?thesis using assms(1) by (simp add: add_undirected_def)
next
  case False
  obtain t1 where t1: "add_half a b t = Some t1" "tables_inv n t1 (insert (a, b) R)" using add_half_spec[OF assms] by blast
  obtain t2 where t2: "add_half b a t1 = Some t2" "tables_inv n t2 (insert (b, a) (insert (a, b) R))"
    using add_half_spec[OF t1(2) assms(3,2)] by blast
  have "insert (b, a) (insert (a, b) R) = R \<union> sym_pairs {(a, b)}" using False by (auto simp: sym_pairs_def)
  with False t1 t2 show ?thesis by (simp add: add_undirected_def)
qed

lemma add_undirected_all_spec:
  assumes "tables_inv n t R" "\<forall>(a, b) \<in> set ps. a < n \<and> b < n"
  shows "\<exists>t'. add_undirected_all ps t = Some t' \<and> tables_inv n t' (R \<union> sym_pairs (set ps))"
  using assms
proof (induction ps t arbitrary: R rule: add_undirected_all.induct)
  case (2 a b ps t)
  obtain t1 where t1: "add_undirected a b t = Some t1" "tables_inv n t1 (R \<union> sym_pairs {(a, b)})"
    using add_undirected_spec[OF "2.prems"(1), of a b] "2.prems"(2) by auto
  from "2.IH"[OF t1] "2.prems"(2) obtain t2 where
    "add_undirected_all ps t1 = Some t2" "tables_inv n t2 (R \<union> sym_pairs {(a, b)} \<union> sym_pairs (set ps))" by auto
  with t1(1) show ?case using sym_pairs_Un[of "{(a, b)}" "set ps"] by (simp add: Un_assoc)
qed simp

lemma sym_pairs_marry:
  assumes "distinct xs"
  shows "sym_pairs (set (marry ok xs)) = {(a, b). a \<noteq> b \<and> a \<in> set xs \<and> b \<in> set xs \<and> ok a \<and> ok b}"
  using assms
proof (induction xs)
  case (Cons x xs)
  then show ?case by (auto simp: sym_pairs_def split: if_splits)
qed simp

lemma marry_in: "(a, b) \<in> set (marry ok xs) \<Longrightarrow> a \<in> set xs \<and> b \<in> set xs"
  by (induction xs) (auto split: if_splits)

section \<open>Searching it\<close>

fun moral_scan :: "dense_id \<Rightarrow> bool \<Rightarrow> dense_id list \<Rightarrow> dsep_workspace \<Rightarrow> dsep_workspace option" where
  "moral_scan u record_pred [] ws = Some ws"
| "moral_scan u record_pred (v # vs) ws =
     (if bs_contains (sw_conditioning ws) v \<or> bs_contains (sw_visited ws) v then moral_scan u record_pred vs ws
      else case bs_insert (sw_visited ws) v of
        None \<Rightarrow> None
      | Some vis \<Rightarrow>
          (if record_pred \<and> v \<ge> length (sw_pred ws) then None
           else moral_scan u record_pred vs (ws\<lparr>sw_visited := vis,
             sw_pred := (if record_pred then (sw_pred ws)[v := Some u] else sw_pred ws),
             sw_frontier := v # sw_frontier ws\<rparr>)))"

definition moral_measure :: "dsep_workspace \<Rightarrow> nat" where
  "moral_measure ws = 2 * ws_unseen (sw_visited ws) + length (sw_frontier ws)"

lemma moral_scan_measure: "moral_scan u rec vs ws = Some ws' \<Longrightarrow> moral_measure ws' \<le> moral_measure ws"
proof (induction u "rec" vs ws rule: moral_scan.induct)
  case (2 u rp v vs ws)
  show ?case
  proof (cases "bs_contains (sw_conditioning ws) v \<or> bs_contains (sw_visited ws) v")
    case True
    with 2 show ?thesis by simp
  next
    case False
    with "2.prems" obtain vis where vis: "bs_insert (sw_visited ws) v = Some vis" "\<not> (rp \<and> v \<ge> length (sw_pred ws))"
      by (auto split: option.splits if_splits)
    with False "2.prems" "2.IH"(2)[OF False vis] ws_unseen_insert[OF vis(1)] show ?thesis
      by (simp add: moral_measure_def)
  qed
qed simp

function moral_loop :: "dense_id \<Rightarrow> bool \<Rightarrow> dsep_workspace \<Rightarrow> (bool \<times> dsep_workspace) option" where
  "moral_loop y record_pred ws =
     (case sw_frontier ws of
        [] \<Rightarrow> Some (False, ws)
      | u # rest \<Rightarrow>
          (let ws0 = ws\<lparr>sw_frontier := rest\<rparr>
           in if u = y then Some (True, ws0)
              else if u \<ge> length (sw_undirected ws) then None
              else case moral_scan u record_pred (sw_undirected ws ! u) ws0 of
                None \<Rightarrow> None
              | Some ws' \<Rightarrow> moral_loop y record_pred ws'))"
  by pat_completeness auto
termination
  by (relation "measure (\<lambda>(y, rp, ws). moral_measure ws)")
    (auto dest!: moral_scan_measure simp: moral_measure_def)

declare moral_loop.simps [simp del]

definition moral_reaches :: "dsep_workspace \<Rightarrow> dense_id \<Rightarrow> dense_id \<Rightarrow> bool \<Rightarrow> (bool \<times> dsep_workspace) option" where
  "moral_reaches ws x y record_pred =
     (let ws1 = ws\<lparr>sw_visited := bs_clear (sw_visited ws),
        sw_pred := (if record_pred then map (\<lambda>_. None) (sw_pred ws) else sw_pred ws), sw_frontier := [x]\<rparr>
      in case bs_insert (sw_visited ws1) x of
           None \<Rightarrow> None
         | Some vis \<Rightarrow> moral_loop y record_pred (ws1\<lparr>sw_visited := vis\<rparr>))"

section \<open>Reading the path back\<close>

text \<open>
  The vector grows at its end and is reversed last, so it is kept reversed here. \<open>None\<close> is a panic
  (no predecessor) or a walk that does not end.
\<close>

partial_function (option) reconstruct_loop ::
  "dense_id option list \<Rightarrow> dense_id \<Rightarrow> dense_id \<Rightarrow> dense_id list \<Rightarrow> dense_id list option" where
  "reconstruct_loop pred start cur path =
     (if cur = start then Some path
      else if cur \<ge> length pred then None
      else case pred ! cur of None \<Rightarrow> None | Some c \<Rightarrow> reconstruct_loop pred start c (c # path))"

declare reconstruct_loop.simps [code]

definition reconstruct_path :: "dense_id option list \<Rightarrow> dense_id \<Rightarrow> dense_id \<Rightarrow> dense_id list option" where
  "reconstruct_path pred start fin = reconstruct_loop pred start fin [fin]"

inductive pred_chain :: "dense_id option list \<Rightarrow> dense_id \<Rightarrow> dense_id \<Rightarrow> dense_id list \<Rightarrow> bool"
  for pred x where
  base: "pred_chain pred x x [x]"
| step: "v \<noteq> x \<Longrightarrow> v < length pred \<Longrightarrow> pred ! v = Some u \<Longrightarrow> pred_chain pred x u p \<Longrightarrow> pred_chain pred x v (v # p)"

lemma pred_chain_ends: "pred_chain pred x v p \<Longrightarrow> p \<noteq> [] \<and> hd p = v \<and> last p = x"
  by (induction rule: pred_chain.induct) auto

lemma pred_chain_update:
  "pred_chain pred x v p \<Longrightarrow> w \<notin> set p \<Longrightarrow> pred_chain (pred[w := z]) x v p"
  by (induction rule: pred_chain.induct) (auto intro: pred_chain.intros)

lemma reconstruct_loop_chain:
  "pred_chain pred x v p \<Longrightarrow> reconstruct_loop pred x v (v # acc) = Some (rev p @ acc)"
proof (induction arbitrary: acc rule: pred_chain.induct)
  case base
  then show ?case by (subst reconstruct_loop.simps) simp
next
  case (step v u p)
  then show ?case by (subst reconstruct_loop.simps) simp
qed

lemma reconstruct_path_chain: "pred_chain pred x y p \<Longrightarrow> reconstruct_path pred x y = Some (rev p)"
  using reconstruct_loop_chain[of pred x y p "[]"] by (simp add: reconstruct_path_def)

section \<open>The search decides connection\<close>

text \<open>Every visited node has a recorded simple path back to the start.\<close>

definition chains :: "dsep_workspace \<Rightarrow> nat \<Rightarrow> (nat \<times> nat) set \<Rightarrow> bool" where
  "chains ws x R \<longleftrightarrow> (\<forall>v \<in> bs_members (sw_visited ws). \<exists>p. pred_chain (sw_pred ws) x v p \<and> distinct p \<and>
     set p \<subseteq> bs_members (sw_visited ws) \<and> successively (\<lambda>a b. (b, a) \<in> R) p)"

definition moral_ready :: "dsep_workspace \<Rightarrow> nat \<Rightarrow> bool" where
  "moral_ready ws n \<longleftrightarrow> sw_inv ws \<and> bs_len (sw_visited ws) = n \<and> length (sw_pred ws) = n"

lemma moral_scan_spec:
  assumes "moral_ready ws n" "set vs \<subseteq> {..<n}" "u \<in> bs_members (sw_visited ws)"
    and "\<forall>v \<in> set vs. (u, v) \<in> row_rel (sw_undirected ws)"
    and "rec \<longrightarrow> chains ws x {(u, v) \<in> row_rel (sw_undirected ws). v \<notin> bs_members (sw_conditioning ws)}"
  shows "\<exists>ws'. moral_scan u rec vs ws = Some ws' \<and> moral_ready ws' n \<and>
    sw_undirected ws' = sw_undirected ws \<and> sw_conditioning ws' = sw_conditioning ws \<and>
    bs_members (sw_visited ws') = bs_members (sw_visited ws) \<union> (set vs - bs_members (sw_conditioning ws)) \<and>
    set (sw_frontier ws') = set (sw_frontier ws) \<union>
      (set vs - bs_members (sw_conditioning ws) - bs_members (sw_visited ws)) \<and>
    (rec \<longrightarrow> chains ws' x {(u, v) \<in> row_rel (sw_undirected ws). v \<notin> bs_members (sw_conditioning ws)})"
  using assms
proof (induction vs arbitrary: ws)
  case (Cons v vs)
  let ?Z = "bs_members (sw_conditioning ws)" and ?V = "bs_members (sw_visited ws)"
  let ?R = "{(u, v) \<in> row_rel (sw_undirected ws). v \<notin> ?Z}"
  have inv: "sw_inv ws" "bs_len (sw_visited ws) = n" "length (sw_pred ws) = n" using Cons.prems(1) by (simp_all add: moral_ready_def)
  show ?case
  proof (cases "v \<in> ?Z \<or> v \<in> ?V")
    case True
    then have "moral_scan u rec (v # vs) ws = moral_scan u rec vs ws" by (auto simp: bs_contains_members)
    moreover have "set (v # vs) - ?Z - ?V = set vs - ?Z - ?V" "?V \<union> (set (v # vs) - ?Z) = ?V \<union> (set vs - ?Z)"
      using True by auto
    ultimately show ?thesis using Cons.IH[OF Cons.prems(1) _ Cons.prems(3) _ Cons.prems(5)] Cons.prems(2,4) by simp
  next
    case False
    have v: "v < n" using Cons.prems(2) by simp
    have bv: "bs_inv (sw_visited ws)" using inv(1) by (simp add: sw_inv_def)
    obtain vis where vis: "bs_insert (sw_visited ws) v = Some vis" "bs_inv vis" "bs_members vis = insert v ?V" "bs_len vis = n"
      using bs.ins_step[OF bv] v inv(2) by metis
    let ?ws = "ws\<lparr>sw_visited := vis, sw_pred := (if rec then (sw_pred ws)[v := Some u] else sw_pred ws),
      sw_frontier := v # sw_frontier ws\<rparr>"
    have run: "moral_scan u rec (v # vs) ws = moral_scan u rec vs ?ws"
      using False vis(1) v inv(3) by (simp add: bs_contains_members)
    have ready: "moral_ready ?ws n" using inv vis by (simp add: moral_ready_def sw_inv_def)
    have ch: "chains ?ws x ?R" if r: rec
    proof -
      have old: "\<exists>p. pred_chain (sw_pred ?ws) x w p \<and> distinct p \<and> set p \<subseteq> ?V \<and> successively (\<lambda>a b. (b, a) \<in> ?R) p"
        if "w \<in> ?V" for w
      proof -
        from Cons.prems(5) r that obtain p where p: "pred_chain (sw_pred ws) x w p" "distinct p" "set p \<subseteq> ?V"
            "successively (\<lambda>a b. (b, a) \<in> ?R) p" unfolding chains_def by blast
        moreover have "v \<notin> set p" using p(3) False by blast
        ultimately show ?thesis using r pred_chain_update[of "sw_pred ws" x w p v "Some u"] by auto
      qed
      obtain p where p: "pred_chain (sw_pred ?ws) x u p" "distinct p" "set p \<subseteq> ?V" "successively (\<lambda>a b. (b, a) \<in> ?R) p"
        using old[OF Cons.prems(3)] by blast
      have "v \<noteq> x"
        using old[OF Cons.prems(3)] False pred_chain_ends by (metis last_in_set subsetD)
      then have "pred_chain (sw_pred ?ws) x v (v # p)"
        using p(1) r v inv(3) by (intro pred_chain.step[of _ _ _ u]) auto
      moreover have "successively (\<lambda>a b. (b, a) \<in> ?R) (v # p)"
        using p(4) pred_chain_ends[OF p(1)] False Cons.prems(4) by (cases p) auto
      moreover have "distinct (v # p)" "set (v # p) \<subseteq> insert v ?V" using p(2,3) False by auto
      ultimately have new: "\<exists>q. pred_chain (sw_pred ?ws) x v q \<and> distinct q \<and> set q \<subseteq> insert v ?V \<and>
          successively (\<lambda>a b. (b, a) \<in> ?R) q" by blast
      have "\<exists>q. pred_chain (sw_pred ?ws) x w q \<and> distinct q \<and> set q \<subseteq> insert v ?V \<and> successively (\<lambda>a b. (b, a) \<in> ?R) q"
        if "w \<in> insert v ?V" for w
      proof (cases "w = v")
        case False
        with that have "w \<in> ?V" by blast
        from old[OF this] show ?thesis by blast
      qed (use new in blast)
      then show ?thesis unfolding chains_def by (simp add: vis(3))
    qed
    have "\<exists>ws'. moral_scan u rec vs ?ws = Some ws' \<and> moral_ready ws' n \<and>
        sw_undirected ws' = sw_undirected ?ws \<and> sw_conditioning ws' = sw_conditioning ?ws \<and>
        bs_members (sw_visited ws') = bs_members (sw_visited ?ws) \<union> (set vs - bs_members (sw_conditioning ?ws)) \<and>
        set (sw_frontier ws') = set (sw_frontier ?ws) \<union>
          (set vs - bs_members (sw_conditioning ?ws) - bs_members (sw_visited ?ws)) \<and>
        (rec \<longrightarrow> chains ws' x {(u, v) \<in> row_rel (sw_undirected ?ws). v \<notin> bs_members (sw_conditioning ?ws)})"
      by (rule Cons.IH[OF ready]) (use Cons.prems(2-4) ch vis(3) in auto)
    then obtain ws' where ws': "moral_scan u rec vs ?ws = Some ws'" "moral_ready ws' n"
        "sw_undirected ws' = sw_undirected ws" "sw_conditioning ws' = sw_conditioning ws"
        "bs_members (sw_visited ws') = insert v ?V \<union> (set vs - ?Z)"
        "set (sw_frontier ws') = insert v (set (sw_frontier ws)) \<union> (set vs - ?Z - insert v ?V)"
        "rec \<longrightarrow> chains ws' x ?R"
      by (auto simp: vis(3))
    have "insert v ?V \<union> (set vs - ?Z) = ?V \<union> (set (v # vs) - ?Z)"
      and "insert v (set (sw_frontier ws)) \<union> (set vs - ?Z - insert v ?V) = set (sw_frontier ws) \<union> (set (v # vs) - ?Z - ?V)"
      using False by auto
    with ws' run show ?thesis by auto
  qed
qed simp

lemma moral_loop_spec:
  assumes "moral_ready ws n" "length (sw_undirected ws) = n" "rows_closed (sw_undirected ws)"
    and "R = {(u, v) \<in> row_rel (sw_undirected ws). v \<notin> bs_members (sw_conditioning ws)}"
    and "worklist R {x} (bs_members (sw_visited ws)) (set (sw_frontier ws))"
    and "y \<notin> bs_members (sw_visited ws) - set (sw_frontier ws)"
    and "rec \<longrightarrow> chains ws x R"
  shows "\<exists>ws'. moral_loop y rec ws = Some ((x, y) \<in> R\<^sup>*, ws') \<and> sw_inv ws' \<and>
    (rec \<and> (x, y) \<in> R\<^sup>* \<longrightarrow> (\<exists>p. pred_chain (sw_pred ws') x y p \<and> distinct p \<and> successively (\<lambda>a b. (b, a) \<in> R) p))"
  using assms
proof (induction y "rec" ws rule: moral_loop.induct)
  case (1 y rp ws)
  let ?V = "bs_members (sw_visited ws)" and ?Z = "bs_members (sw_conditioning ws)"
  have inv: "sw_inv ws" using "1.prems"(1) by (simp add: moral_ready_def)
  show ?case
  proof (cases "sw_frontier ws")
    case Nil
    then have "?V = R\<^sup>* `` {x}" using "1.prems"(5) worklist_done by auto
    then have "(x, y) \<notin> R\<^sup>*" using "1.prems"(6) Nil by auto
    with Nil inv show ?thesis by (subst moral_loop.simps) simp
  next
    case (Cons u rest)
    let ?ws0 = "ws\<lparr>sw_frontier := rest\<rparr>"
    have u: "u \<in> ?V" using "1.prems"(5) Cons by (auto simp: worklist_def)
    have un: "u < n" using u bs_members_below[of u "sw_visited ws"] "1.prems"(1) by (simp add: moral_ready_def)
    show ?thesis
    proof (cases "u = y")
      case True
      have xy: "(x, y) \<in> R\<^sup>*" using worklist_reach[OF "1.prems"(5) u] True by auto
      have "moral_loop y rp ws = Some (True, ?ws0)" using Cons True by (subst moral_loop.simps) simp
      moreover have "sw_inv ?ws0" using inv by (simp add: sw_inv_def)
      moreover have "\<exists>p. pred_chain (sw_pred ?ws0) x y p \<and> distinct p \<and> successively (\<lambda>a b. (b, a) \<in> R) p" if rp
        using "1.prems"(7) that u True unfolding chains_def by auto
      ultimately show ?thesis using xy by auto
    next
      case False
      let ?row = "sw_undirected ws ! u"
      have len: "\<not> u \<ge> length (sw_undirected ws)" using un "1.prems"(2) by simp
      have row: "set ?row \<subseteq> {..<n}" "\<forall>v \<in> set ?row. (u, v) \<in> row_rel (sw_undirected ws)"
        using "1.prems"(2,3) un by (auto simp: rows_closed_def row_def)
      have ready0: "moral_ready ?ws0 n" using "1.prems"(1) by (simp add: moral_ready_def sw_inv_def)
      have ch0: "rp \<longrightarrow> chains ?ws0 x {(u, v) \<in> row_rel (sw_undirected ?ws0). v \<notin> bs_members (sw_conditioning ?ws0)}"
        using "1.prems"(4,7) by (simp add: chains_def)
      have "\<exists>ws'. moral_scan u rp ?row ?ws0 = Some ws' \<and> moral_ready ws' n \<and>
          sw_undirected ws' = sw_undirected ?ws0 \<and> sw_conditioning ws' = sw_conditioning ?ws0 \<and>
          bs_members (sw_visited ws') = bs_members (sw_visited ?ws0) \<union> (set ?row - bs_members (sw_conditioning ?ws0)) \<and>
          set (sw_frontier ws') = set (sw_frontier ?ws0) \<union>
            (set ?row - bs_members (sw_conditioning ?ws0) - bs_members (sw_visited ?ws0)) \<and>
          (rp \<longrightarrow> chains ws' x {(u, v) \<in> row_rel (sw_undirected ?ws0). v \<notin> bs_members (sw_conditioning ?ws0)})"
        by (rule moral_scan_spec[OF ready0 row(1) _ _ ch0]) (use u row(2) in simp_all)
      then obtain ws' where ws': "moral_scan u rp ?row ?ws0 = Some ws'" "moral_ready ws' n"
          "sw_undirected ws' = sw_undirected ws" "sw_conditioning ws' = sw_conditioning ws"
          "bs_members (sw_visited ws') = ?V \<union> (set ?row - ?Z)"
          "set (sw_frontier ws') = set rest \<union> (set ?row - ?Z - ?V)" "rp \<longrightarrow> chains ws' x R"
        unfolding "1.prems"(4) by auto
      have "worklist R {x} (?V \<union> (set ?row - ?Z - ?V)) (set rest \<union> (set ?row - ?Z - ?V))"
        by (rule worklist_step[OF "1.prems"(5), of u])
          (use Cons u len "1.prems"(4) in \<open>auto simp: row_def\<close>)
      moreover have "?V \<union> (set ?row - ?Z - ?V) = ?V \<union> (set ?row - ?Z)" by auto
      ultimately have wl: "worklist R {x} (bs_members (sw_visited ws')) (set (sw_frontier ws'))" using ws'(5,6) by simp
      have "y \<notin> bs_members (sw_visited ws') - set (sw_frontier ws')"
        using "1.prems"(6) ws'(5,6) Cons False by auto
      with "1.IH"[OF Cons refl False len ws'(1,2)] wl ws'(3,4,7) "1.prems"(2,3,4) obtain ws'' where
        "moral_loop y rp ws' = Some ((x, y) \<in> R\<^sup>*, ws'')" "sw_inv ws''"
        "rp \<and> (x, y) \<in> R\<^sup>* \<longrightarrow> (\<exists>p. pred_chain (sw_pred ws'') x y p \<and> distinct p \<and> successively (\<lambda>a b. (b, a) \<in> R) p)"
        by auto
      moreover have "moral_loop y rp ws = moral_loop y rp ws'"
        using Cons False len ws'(1) by (subst moral_loop.simps) simp
      ultimately show ?thesis by auto
    qed
  qed
qed

lemma moral_reaches_spec:
  assumes "sw_inv ws" "tables_inv n (sw_undirected ws, sw_undirected_member ws) M"
    and "bs_len (sw_visited ws) = n" "length (sw_pred ws) = n" "x < n"
    and "R = {(u, v) \<in> M. v \<notin> bs_members (sw_conditioning ws)}"
  shows "\<exists>ws'. moral_reaches ws x y rec = Some ((x, y) \<in> R\<^sup>*, ws') \<and> sw_inv ws' \<and>
    (rec \<and> (x, y) \<in> R\<^sup>* \<longrightarrow> (\<exists>p. pred_chain (sw_pred ws') x y p \<and> distinct p \<and> successively (\<lambda>a b. (b, a) \<in> R) p))"
proof -
  let ?ws1 = "ws\<lparr>sw_visited := bs_clear (sw_visited ws),
    sw_pred := (if rec then map (\<lambda>_. None) (sw_pred ws) else sw_pred ws), sw_frontier := [x]\<rparr>"
  note t = tables_invD[OF assms(2), simplified]
  have bv: "bs_inv (sw_visited ws)" using assms(1) by (simp add: sw_inv_def)
  have c: "bs_inv (bs_clear (sw_visited ws))" "bs_members (bs_clear (sw_visited ws)) = {}" "bs_len (bs_clear (sw_visited ws)) = n"
    using bs.clear_spec[OF bv] assms(3) by simp_all
  obtain vis where vis: "bs_insert (bs_clear (sw_visited ws)) x = Some vis" "bs_inv vis" "bs_members vis = {x}" "bs_len vis = n"
    using bs.ins_step[OF c(1), of x] assms(5) c by auto
  let ?ws2 = "?ws1\<lparr>sw_visited := vis\<rparr>"
  have "rows_closed (sw_undirected ws)"
    unfolding rows_closed_def using tables_range[OF assms(2)] tables_inv_R[OF assms(2)] t(1)
    by (metis (no_types, lifting) fst_conv in_set_conv_nth lessThan_iff subsetI)
  moreover have "moral_ready ?ws2 n" using assms(1,4) vis by (simp add: moral_ready_def sw_inv_def)
  moreover have "chains ?ws2 x R" by (auto simp: chains_def vis(3) intro!: exI[of _ "[x]"] pred_chain.base)
  ultimately have "\<exists>ws'. moral_loop y rec ?ws2 = Some ((x, y) \<in> R\<^sup>*, ws') \<and> sw_inv ws' \<and>
      (rec \<and> (x, y) \<in> R\<^sup>* \<longrightarrow> (\<exists>p. pred_chain (sw_pred ws') x y p \<and> distinct p \<and> successively (\<lambda>a b. (b, a) \<in> R) p))"
    by (intro moral_loop_spec[of ?ws2 n]) (use t(1,3) assms(6) vis(3) worklist_init[of R "{x}"] in auto)
  then show ?thesis using vis(1) by (simp add: moral_reaches_def Let_def)
qed

end
