(* ===== verification/Dag_Separation.thy ===== *)
theory Dag_Separation
  imports Moral_Graph
begin

text \<open>
  d-separation on DAGs and on DAG views (\<open>dsep.rs\<close>, \<open>overlay.rs\<close>): the Boolean query by Bayes ball,
  the witness query by the moral graph of the ancestral set. Both are characterised, so they agree,
  and a query under an overlay agrees with the query on the materialised graph.
\<close>

section \<open>Results\<close>

record path_step =
  ps_node :: dense_id

record separation_certificate =
  sc_conditioning :: "dense_id list"

datatype separation_result =
  Separated (sr_conditioning: "dense_id list") (sr_certificate: separation_certificate)
| Connected (sr_active_path: "path_step list")

definition path_steps :: "dense_id list \<Rightarrow> path_step list" where
  "path_steps nodes = map (\<lambda>v. \<lparr>ps_node = v\<rparr>) nodes"

section \<open>The queries\<close>

definition dag_ball_graph :: "dag \<Rightarrow> graph_overlay option \<Rightarrow> ball_graph" where
  "dag_ball_graph d overlay =
     \<lparr>bg_parents = dc_parents (dag_directed d), bg_children = dc_children (dag_directed d), bg_bidirected = [],
      bg_overlay = overlay\<rparr>"

definition dag_is_d_separated_with ::
  "dag \<Rightarrow> dense_id \<Rightarrow> dense_id \<Rightarrow> dense_id list \<Rightarrow> dsep_workspace \<Rightarrow> graph_overlay option \<Rightarrow>
    ((graph_error + bool) \<times> dsep_workspace) option" where
  "dag_is_d_separated_with d x y z ws overlay =
     (case validate_nodes d (x # y # z) of
        Inl e \<Rightarrow> Some (Inl e, ws)
      | Inr _ \<Rightarrow>
          (if x = y then Some (Inr False, ws)
           else if x \<in> set z \<or> y \<in> set z then Some (Inr False, ws)
           else map_option (\<lambda>(reached, ws'). (Inr (\<not> reached), ws'))
             (bayes_ball_reaches ws (dag_ball_graph d overlay) [x] [y] z)))"

definition dag_is_d_separated ::
  "dag \<Rightarrow> dense_id \<Rightarrow> dense_id \<Rightarrow> dense_id list \<Rightarrow> dsep_workspace \<Rightarrow>
    ((graph_error + bool) \<times> dsep_workspace) option" where
  "dag_is_d_separated d x y z ws = dag_is_d_separated_with d x y z ws None"

text \<open>\<open>for v in vs { set.insert(v) }\<close>.\<close>

fun bs_insert_all :: "dense_id list \<Rightarrow> bitset \<Rightarrow> bitset option" where
  "bs_insert_all [] b = Some b"
| "bs_insert_all (v # vs) b = (case bs_insert b v of None \<Rightarrow> None | Some b' \<Rightarrow> bs_insert_all vs b')"

text \<open>The undirected edges one node of the ancestral set contributes, in the order they are added.\<close>

definition dag_moral_pairs ::
  "dag \<Rightarrow> graph_overlay option \<Rightarrow> bitset \<Rightarrow> dense_id \<Rightarrow> (dense_id \<times> dense_id) list" where
  "dag_moral_pairs d overlay anc u =
     (if \<not> bs_contains anc u then []
      else map (Pair u) (filter (\<lambda>c. visible_under overlay u c \<and> bs_contains anc c) (dag_children d u)) @
           marry (\<lambda>a. visible_under overlay a u \<and> bs_contains anc a) (dag_parents d u))"

definition dag_d_sep_connected ::
  "dag \<Rightarrow> dense_id \<Rightarrow> dense_id \<Rightarrow> dense_id list \<Rightarrow> dsep_workspace \<Rightarrow> graph_overlay option \<Rightarrow> bool \<Rightarrow>
    (bool \<times> dsep_workspace) option" where
  "dag_d_sep_connected d x y z ws overlay record_path =
     (let n = dag_node_count d;
          ws1 = (sw_prepare ws n)\<lparr>sw_frontier := rev (x # y # z)\<rparr>
      in case dag_ancestors_of_with d (x # y # z) (sw_ancestral ws1) (sw_graph_ws ws1) overlay of
           None \<Rightarrow> None
         | Some (anc, gws) \<Rightarrow>
      (case bs_insert_all z (bs_clear (sw_conditioning ws1)) of
           None \<Rightarrow> None
         | Some cond \<Rightarrow>
      (case add_undirected_all (concat (map (dag_moral_pairs d overlay anc) [0..<n]))
              (sw_undirected ws1, sw_undirected_member ws1) of
           None \<Rightarrow> None
         | Some (adj, mem) \<Rightarrow>
             moral_reaches (ws1\<lparr>sw_ancestral := anc, sw_graph_ws := gws, sw_conditioning := cond,
               sw_undirected := adj, sw_undirected_member := mem\<rparr>) x y record_path)))"

definition dag_d_separation_with ::
  "dag \<Rightarrow> dense_id \<Rightarrow> dense_id \<Rightarrow> dense_id list \<Rightarrow> dsep_workspace \<Rightarrow> graph_overlay option \<Rightarrow>
    ((graph_error + separation_result) \<times> dsep_workspace) option" where
  "dag_d_separation_with d x y z ws overlay =
     (case validate_nodes d (x # y # z) of
        Inl e \<Rightarrow> Some (Inl e, ws)
      | Inr _ \<Rightarrow>
          (if x \<in> set z \<or> y \<in> set z then
             Some (Inl (InvalidEndpoints
               ''d-separation witness requires conditioning disjoint from endpoints''), ws)
           else if x = y then Some (Inr (Connected (path_steps [x])), ws)
           else case dag_d_sep_connected d x y z ws overlay True of
             None \<Rightarrow> None
           | Some (True, ws') \<Rightarrow>
               map_option (\<lambda>path. (Inr (Connected (path_steps path)), ws')) (reconstruct_path (sw_pred ws') x y)
           | Some (False, ws') \<Rightarrow> Some (Inr (Separated z \<lparr>sc_conditioning = z\<rparr>), ws')))"

definition dag_d_separation ::
  "dag \<Rightarrow> dense_id \<Rightarrow> dense_id \<Rightarrow> dense_id list \<Rightarrow> dsep_workspace \<Rightarrow>
    ((graph_error + separation_result) \<times> dsep_workspace) option" where
  "dag_d_separation d x y z ws = dag_d_separation_with d x y z ws None"

definition view_is_d_separated ::
  "dag_view \<Rightarrow> dense_id \<Rightarrow> dense_id \<Rightarrow> dense_id list \<Rightarrow> dsep_workspace \<Rightarrow>
    ((graph_error + bool) \<times> dsep_workspace) option" where
  "view_is_d_separated w x y z ws = dag_is_d_separated_with (view_dag w) x y z ws (Some (view_overlay w))"

definition view_d_separation ::
  "dag_view \<Rightarrow> dense_id \<Rightarrow> dense_id \<Rightarrow> dense_id list \<Rightarrow> dsep_workspace \<Rightarrow>
    ((graph_error + separation_result) \<times> dsep_workspace) option" where
  "view_d_separation w x y z ws = dag_d_separation_with (view_dag w) x y z ws (Some (view_overlay w))"

section \<open>The Boolean query\<close>

lemma seen_rel_bound: "dag_inv d \<Longrightarrow> (u, v) \<in> seen_rel d ov \<Longrightarrow> u < dag_node_count d \<and> v < dag_node_count d"
  using dag_rel_bound by (auto simp: seen_rel_def)

lemma dag_ball_rows:
  assumes "dag_inv d"
  shows "ball_rows (dag_ball_graph d ov) (dag_node_count d) (seen_rel d ov) {}"
proof -
  note wf = dc_wfD[OF dag_inv_core(2)[OF assms], folded dag_node_count_def]
  have "row (dc_parents (dag_directed d)) u = dag_parents d u" "row (dc_children (dag_directed d)) u = dag_children d u" for u
    by (simp_all add: dag_parents_def dag_children_def dc_parents_of_def dc_children_of_def)
  then show ?thesis
    using wf(1,2) seen_rel_bound[OF assms] in_dag_parents[OF assms] in_dag_children[of _ d]
    by (auto simp: ball_rows_def dag_ball_graph_def seen_rel_def dag_rel_bound[OF assms])
qed

lemma validate_nodes_ok: "\<forall>v \<in> set vs. v < dag_node_count d \<Longrightarrow> validate_nodes d vs = Inr ()"
  by (simp add: validate_nodes_spec)

lemma below_filter: "\<forall>v \<in> set z. v < n \<Longrightarrow> {v \<in> set z. v < n} = set z"
  by auto

lemma dag_is_d_separated_with_spec:
  assumes "dag_inv d" "sw_inv ws" "x < dag_node_count d" "y < dag_node_count d" "\<forall>v \<in> set z. v < dag_node_count d"
  shows "\<exists>ws'. dag_is_d_separated_with d x y z ws ov = Some (Inr
      (x \<noteq> y \<and> x \<notin> set z \<and> y \<notin> set z \<and> \<not> ball_connected (seen_rel d ov) {} (set z) x y), ws') \<and> sw_inv ws'"
proof -
  have "validate_nodes d (x # y # z) = Inr ()" using assms(3-5) by (intro validate_nodes_ok) simp
  moreover obtain ws' where
    "bayes_ball_reaches ws (dag_ball_graph d ov) [x] [y] z = Some (ball_connected (seen_rel d ov) {} (set z) x y, ws')" "sw_inv ws'"
    using bayes_ball_reaches_spec[OF dag_ball_rows[OF assms(1)] assms(2), of ov "[x]" "[y]" z] assms(3-5)
    by (auto simp: below_filter)
  ultimately show ?thesis using assms(2) by (auto simp: dag_is_d_separated_with_def)
qed

section \<open>The witness query\<close>

lemma bs_insert_all_spec:
  assumes "bs_inv b" "\<forall>v \<in> set vs. v < bs_len b"
  shows "\<exists>b'. bs_insert_all vs b = Some b' \<and> bs_inv b' \<and> bs_len b' = bs_len b \<and> bs_members b' = bs_members b \<union> set vs"
  using assms
proof (induction vs arbitrary: b)
  case (Cons v vs)
  then obtain b1 where "bs_insert b v = Some b1" "bs_inv b1" "bs_members b1 = insert v (bs_members b)" "bs_len b1 = bs_len b"
    using bs.ins_step[of b v] by auto
  with Cons.IH[of b1] Cons.prems(2) show ?case by auto
qed simp

lemma spouses_in_empty [simp]: "spouses_in {} A = {}"
  by (simp add: spouses_in_def)

lemma sym_pairs_concat: "sym_pairs (set (concat (map f xs))) = (\<Union>x \<in> set xs. sym_pairs (set (f x)))"
  by (induction xs) (auto simp: sym_pairs_Un)

lemma UN_restrict: "A \<subseteq> set xs \<Longrightarrow> (\<Union>i \<in> set xs. if i \<in> A then F i else {}) = (\<Union>i \<in> A. F i)"
  by auto

lemma ancestors_below:
  assumes "S \<subseteq> {..<n}" "\<And>u v. (u, v) \<in> E \<Longrightarrow> u < n" "u \<in> ancestors E S"
  shows "u < (n :: nat)"
  using assms by (auto simp: ancestors_def elim: converse_rtranclE)

lemma dag_moral_pairs_rel:
  assumes "dag_inv d" "bs_members anc = ancestors (seen_rel d ov) S" "S \<subseteq> {..<dag_node_count d}"
  shows "sym_pairs (set (concat (map (dag_moral_pairs d ov anc) [0..<dag_node_count d]))) =
    moral_rel (seen_rel d ov) {} (ancestors (seen_rel d ov) S)"
proof -
  let ?E = "seen_rel d ov" and ?A = "ancestors (seen_rel d ov) S" and ?n = "dag_node_count d"
  have A_range: "u < ?n" if "u \<in> ?A" for u
    by (rule ancestors_below[OF assms(3) _ that]) (use seen_rel_bound[OF assms(1)] in blast)
  have up: "p \<in> ?A" if "(p, v) \<in> ?E" "v \<in> ?A" for p v using that by (rule ancestors_parent)
  have kids: "v \<in> set (dag_children d u) \<and> visible_under ov u v \<longleftrightarrow> (u, v) \<in> ?E" for u v
    by (auto simp: seen_rel_def in_dag_children)
  have pars: "u \<in> set (dag_parents d v) \<and> visible_under ov u v \<longleftrightarrow> (u, v) \<in> ?E" for u v
    using in_dag_parents[OF assms(1)] by (auto simp: seen_rel_def)
  have one: "sym_pairs (set (dag_moral_pairs d ov anc i)) =
      (if i \<in> ?A then {(a, b). a \<noteq> b \<and> ((a = i \<and> (i, b) \<in> ?E \<and> b \<in> ?A) \<or> (b = i \<and> (i, a) \<in> ?E \<and> a \<in> ?A) \<or>
         ((a, i) \<in> ?E \<and> (b, i) \<in> ?E))} else {})" for i
  proof (cases "i \<in> ?A")
    case True
    have dist: "distinct (dag_parents d i)"
      using dc_wf_distinct(2)[OF dag_inv_core(2)[OF assms(1)], of i] dc_wfD(2)[OF dag_inv_core(2)[OF assms(1)]]
      by (simp add: dag_parents_def dc_parents_of_def row_def)
    have split: "sym_pairs (set (dag_moral_pairs d ov anc i)) =
        sym_pairs (Pair i ` {c \<in> set (dag_children d i). visible_under ov i c \<and> c \<in> ?A}) \<union>
        {(a, b). a \<noteq> b \<and> a \<in> set (dag_parents d i) \<and> b \<in> set (dag_parents d i) \<and>
           (visible_under ov a i \<and> a \<in> ?A) \<and> visible_under ov b i \<and> b \<in> ?A}"
      using True assms(2) by (simp add: dag_moral_pairs_def sym_pairs_Un sym_pairs_marry[OF dist] bs_contains_members)
    show ?thesis unfolding split using True kids[of _ i] pars[of _ i] up[of _ i]
      by (auto simp: sym_pairs_def)
  next
    case False
    then show ?thesis using assms(2) by (simp add: dag_moral_pairs_def bs_contains_members)
  qed
  have "sym_pairs (set (concat (map (dag_moral_pairs d ov anc) [0..<?n]))) =
      {(a, b). a \<noteq> b \<and> (\<exists>i \<in> ?A. (a = i \<and> (i, b) \<in> ?E \<and> b \<in> ?A) \<or> (b = i \<and> (i, a) \<in> ?E \<and> a \<in> ?A) \<or>
         ((a, i) \<in> ?E \<and> (b, i) \<in> ?E))}"
    unfolding sym_pairs_concat one by (subst UN_restrict) (use A_range in auto)
  also have "\<dots> = moral_rel ?E {} ?A"
    using up by (fastforce simp: moral_rel_def clique_rel_def near_def)
  finally show ?thesis .
qed

text \<open>What a connected answer carries: a simple path of the moral graph that avoids the conditioning set.\<close>

definition moral_path ::
  "(nat \<times> nat) set \<Rightarrow> (nat \<times> nat) set \<Rightarrow> nat set \<Rightarrow> nat \<Rightarrow> nat \<Rightarrow> nat list \<Rightarrow> bool" where
  "moral_path E B Z x y p \<longleftrightarrow> p \<noteq> [] \<and> hd p = x \<and> last p = y \<and> distinct p \<and> set p \<inter> Z = {} \<and>
     successively (\<lambda>a b. (a, b) \<in> moral_rel E B (ancestors E ({x, y} \<union> Z))) p"

lemma successively_rev_chain: "successively (\<lambda>a b. (b, a) \<in> R) p \<Longrightarrow> successively (\<lambda>a b. (a, b) \<in> R) (rev p)"
  by simp

lemma successively_tail: "successively P p \<Longrightarrow> \<forall>a b. P a b \<longrightarrow> Q b \<Longrightarrow> p \<noteq> [] \<Longrightarrow> Q (hd p) \<Longrightarrow> \<forall>v \<in> set p. Q v"
proof (induction p rule: induct_list012)
  case (3 a b p)
  from "3.prems"(1) have "P a b" "successively P (b # p)" by simp_all
  moreover from this "3.prems"(2) have "Q b" by blast
  ultimately have "\<forall>v \<in> set (b # p). Q v" using "3.IH"(2)[OF _ "3.prems"(2)] by simp
  with "3.prems"(4) show ?case by simp
qed simp_all

lemma moral_path_reconstructed:
  assumes "pred_chain pred x y p" "distinct p" "x \<notin> Z"
    and "successively (\<lambda>a b. (b, a) \<in> {(u, v) \<in> moral_rel E B (ancestors E ({x, y} \<union> Z)). v \<notin> Z}) p"
  shows "moral_path E B Z x y (rev p)"
proof -
  let ?M = "moral_rel E B (ancestors E ({x, y} \<union> Z))"
  note e = pred_chain_ends[OF assms(1)]
  have s: "successively (\<lambda>a b. (a, b) \<in> ?M \<and> b \<notin> Z) (rev p)"
    using successively_rev_chain[OF assms(4)] by simp
  then have "\<forall>v \<in> set (rev p). v \<notin> Z"
    by (rule successively_tail) (use e assms(3) in \<open>auto simp: hd_rev\<close>)
  moreover have "successively (\<lambda>a b. (a, b) \<in> ?M) (rev p)" using s by (rule successively_mono) simp
  ultimately show "moral_path E B Z x y (rev p)"
    using e assms(2) by (auto simp: moral_path_def hd_rev last_rev)
qed

text \<open>
  What both graph classes share: once the tables hold the moral graph of the ancestral set, the
  search answers moral connection and the recorded predecessors are a moral path.
\<close>

lemma moral_search:
  assumes "sw_inv ws" "tables_inv n (sw_undirected ws, sw_undirected_member ws) (moral_rel E B (ancestors E ({x, y} \<union> Z)))"
    and "bs_len (sw_visited ws) = n" "length (sw_pred ws) = n" "x < n" "bs_members (sw_conditioning ws) = Z"
  shows "\<exists>ws'. moral_reaches ws x y rec = Some (moral_connected E B Z x y, ws') \<and> sw_inv ws' \<and>
    (rec \<and> moral_connected E B Z x y \<and> x \<notin> Z \<longrightarrow>
      (\<exists>p. pred_chain (sw_pred ws') x y p \<and> moral_path E B Z x y (rev p)))"
proof -
  let ?R = "open_moral E B (ancestors E ({x, y} \<union> Z)) Z"
  have "?R = {(u, v) \<in> moral_rel E B (ancestors E ({x, y} \<union> Z)). v \<notin> bs_members (sw_conditioning ws)}"
    using assms(6) by (simp add: open_moral_def)
  from moral_reaches_spec[OF assms(1-5) this, of y "rec"] obtain ws' where
    "moral_reaches ws x y rec = Some ((x, y) \<in> ?R\<^sup>*, ws')" "sw_inv ws'"
    and chain: "rec \<and> (x, y) \<in> ?R\<^sup>* \<longrightarrow>
      (\<exists>p. pred_chain (sw_pred ws') x y p \<and> distinct p \<and> successively (\<lambda>a b. (b, a) \<in> ?R) p)" by blast
  moreover have "\<exists>p. pred_chain (sw_pred ws') x y p \<and> moral_path E B Z x y (rev p)"
    if "rec" "(x, y) \<in> ?R\<^sup>*" "x \<notin> Z"
    using chain that moral_path_reconstructed[of "sw_pred ws'" x y _ Z E B] unfolding open_moral_def by blast
  ultimately show ?thesis unfolding moral_connected_def by blast
qed

lemma prepared_tables:
  assumes "sw_inv ws"
  shows "tables_inv n (sw_undirected (sw_prepare ws n), sw_undirected_member (sw_prepare ws n)) {}"
proof -
  let ?mem = "sw_undirected_member (sw_prepare ws n)"
  note lens = sw_prepare_lens(4,5)[OF assms, of n]
  have "bs_inv (?mem ! i) \<and> bs_len (?mem ! i) = n \<and> bs_members (?mem ! i) = {}" if "i < n" for i
  proof -
    have m: "?mem ! i \<in> set ?mem" using that lens(2) by simp
    with sw_prepare_members[OF assms m] sw_prepare_inv[OF assms, of n] show ?thesis by (auto simp: sw_inv_def)
  qed
  with lens show ?thesis by (simp add: tables_inv_def)
qed

lemma dag_d_sep_connected_spec:
  assumes "dag_inv d" "sw_inv ws" "x < dag_node_count d" "y < dag_node_count d" "\<forall>v \<in> set z. v < dag_node_count d"
  shows "\<exists>ws'. dag_d_sep_connected d x y z ws ov rec =
      Some (moral_connected (seen_rel d ov) {} (set z) x y, ws') \<and> sw_inv ws' \<and>
    (rec \<and> moral_connected (seen_rel d ov) {} (set z) x y \<and> x \<notin> set z \<longrightarrow>
      (\<exists>p. pred_chain (sw_pred ws') x y p \<and> moral_path (seen_rel d ov) {} (set z) x y (rev p)))"
proof -
  let ?n = "dag_node_count d" and ?E = "seen_rel d ov" and ?Z = "set z"
  let ?ws1 = "(sw_prepare ws ?n)\<lparr>sw_frontier := rev (x # y # z)\<rparr>" and ?A = "ancestors ?E ({x, y} \<union> ?Z)"
  have inv1: "sw_inv ?ws1" using sw_prepare_inv[OF assms(2), of ?n] by (simp add: sw_inv_def)
  note lens = sw_prepare_lens[OF assms(2), of ?n]
  have parts: "bs_inv (sw_conditioning ?ws1)" "bs_inv (sw_ancestral ?ws1)" "ws_inv (sw_graph_ws ?ws1)"
    using inv1 by (simp_all add: sw_inv_def)
  obtain anc gws where anc: "dag_ancestors_of_with d (x # y # z) (sw_ancestral ?ws1) (sw_graph_ws ?ws1) ov = Some (anc, gws)"
      "bs_inv anc" "ws_inv gws"
      "bs_members anc = {a. \<exists>s \<in> set (x # y # z). s < ?n \<and> (a, s) \<in> ?E\<^sup>*}"
    using dag_ancestors_of_with_spec[OF assms(1) parts(2,3), of "x # y # z" ov] by blast
  have anc_mem: "bs_members anc = ?A" unfolding anc(4) ancestors_def using assms(3-5) by auto
  obtain cond where cond: "bs_insert_all z (bs_clear (sw_conditioning ?ws1)) = Some cond" "bs_inv cond" "bs_members cond = ?Z"
    using bs_insert_all_spec[of "bs_clear (sw_conditioning ?ws1)" z] bs.clear_spec[OF parts(1)] lens(2) assms(5) by auto
  let ?ps = "concat (map (dag_moral_pairs d ov anc) [0..<?n])"
  have empty: "tables_inv ?n (sw_undirected ?ws1, sw_undirected_member ?ws1) {}"
    using prepared_tables[OF assms(2)] by simp
  have "\<forall>(a, b) \<in> set ?ps. a < ?n \<and> b < ?n"
    using in_dag_children[of _ d] dag_rel_bound[OF assms(1)] in_dag_parents[OF assms(1)]
    by (auto simp: dag_moral_pairs_def split: if_splits dest!: marry_in)
  from add_undirected_all_spec[OF empty this] obtain adj mem where
    tab: "add_undirected_all ?ps (sw_undirected ?ws1, sw_undirected_member ?ws1) = Some (adj, mem)"
      "tables_inv ?n (adj, mem) (sym_pairs (set ?ps))" by auto
  have M: "sym_pairs (set ?ps) = moral_rel ?E {} ?A"
    by (rule dag_moral_pairs_rel[OF assms(1) anc_mem]) (use assms(3-5) in auto)
  let ?ws2 = "?ws1\<lparr>sw_ancestral := anc, sw_graph_ws := gws, sw_conditioning := cond,
    sw_undirected := adj, sw_undirected_member := mem\<rparr>"
  have inv2: "sw_inv ?ws2"
    using inv1 anc(2,3) cond(2) tables_invD(2,4)[OF tab(2)] by (auto simp: sw_inv_def in_set_conv_nth)
  have "\<exists>ws'. moral_reaches ?ws2 x y rec = Some (moral_connected ?E {} ?Z x y, ws') \<and> sw_inv ws' \<and>
      (rec \<and> moral_connected ?E {} ?Z x y \<and> x \<notin> ?Z \<longrightarrow>
        (\<exists>p. pred_chain (sw_pred ws') x y p \<and> moral_path ?E {} ?Z x y (rev p)))"
  proof (rule moral_search[OF inv2, of ?n])
    show "tables_inv ?n (sw_undirected ?ws2, sw_undirected_member ?ws2) (moral_rel ?E {} ?A)"
      using tab(2) unfolding M by simp
  qed (simp_all add: lens(3,6) assms(3) cond(3))
  with anc(1) cond(1) tab(1) show ?thesis
    by (simp add: dag_d_sep_connected_def Let_def)
qed

lemma dag_d_separation_with_spec:
  assumes "dag_inv d" "sw_inv ws" "x < dag_node_count d" "y < dag_node_count d" "\<forall>v \<in> set z. v < dag_node_count d"
    and "x \<noteq> y" "x \<notin> set z" "y \<notin> set z"
  shows "\<exists>r ws'. dag_d_separation_with d x y z ws ov = Some (Inr r, ws') \<and> sw_inv ws' \<and>
    (if ball_connected (seen_rel d ov) {} (set z) x y
     then \<exists>p. r = Connected (path_steps p) \<and> moral_path (seen_rel d ov) {} (set z) x y p
     else r = Separated z \<lparr>sc_conditioning = z\<rparr>)"
proof -
  have val: "validate_nodes d (x # y # z) = Inr ()" using assms(3-5) by (intro validate_nodes_ok) simp
  have same: "ball_connected (seen_rel d ov) {} (set z) x y \<longleftrightarrow> moral_connected (seen_rel d ov) {} (set z) x y"
    by (rule ball_iff_moral) (use assms(7,8) in \<open>simp_all add: sym_def\<close>)
  obtain ws' where run: "dag_d_sep_connected d x y z ws ov True = Some (moral_connected (seen_rel d ov) {} (set z) x y, ws')"
      "sw_inv ws'" and path: "moral_connected (seen_rel d ov) {} (set z) x y \<longrightarrow>
        (\<exists>p. pred_chain (sw_pred ws') x y p \<and> moral_path (seen_rel d ov) {} (set z) x y (rev p))"
    using dag_d_sep_connected_spec[OF assms(1-5), of ov True] assms(7) by blast
  show ?thesis
  proof (cases "moral_connected (seen_rel d ov) {} (set z) x y")
    case True
    with path obtain p where p: "pred_chain (sw_pred ws') x y p" "moral_path (seen_rel d ov) {} (set z) x y (rev p)" by blast
    then have "dag_d_separation_with d x y z ws ov = Some (Inr (Connected (path_steps (rev p))), ws')"
      using True run(1) val assms(6-8) reconstruct_path_chain[OF p(1)] by (simp add: dag_d_separation_with_def)
    with p(2) run(2) True same show ?thesis by auto
  next
    case False
    with run val assms(6-8) same show ?thesis by (simp add: dag_d_separation_with_def)
  qed
qed

end
