(* ===== verification/Admg_Separation.thy ===== *)
theory Admg_Separation
  imports Dag_Separation Admg_Queries
begin

text \<open>
  m-separation on ADMGs (\<open>msep.rs\<close>, first half): the pairwise and the set query by Bayes ball, the
  witness query by Richardson's moral graph, whose cliques are the districts of the ancestral set
  with their parents. The two agree, and the set query is the conjunction of the pairwise ones.
\<close>

section \<open>The queries\<close>

fun admg_validate_nodes :: "admg \<Rightarrow> dense_id list \<Rightarrow> graph_error + unit" where
  "admg_validate_nodes a [] = Inr ()"
| "admg_validate_nodes a (v # vs) = rbind (admg_validate_node a v) (\<lambda>_. admg_validate_nodes a vs)"

definition admg_ball_graph :: "admg \<Rightarrow> ball_graph" where
  "admg_ball_graph a =
     \<lparr>bg_parents = dc_parents (ad_directed a), bg_children = dc_children (ad_directed a),
      bg_bidirected = ad_bidirected a, bg_overlay = None\<rparr>"

definition admg_bayes_m_connected ::
  "admg \<Rightarrow> dense_id list \<Rightarrow> dense_id list \<Rightarrow> dense_id list \<Rightarrow> dsep_workspace \<Rightarrow> (bool \<times> dsep_workspace) option" where
  "admg_bayes_m_connected a sources targets z ws = bayes_ball_reaches ws (admg_ball_graph a) sources targets z"

definition admg_is_m_separated ::
  "admg \<Rightarrow> dense_id \<Rightarrow> dense_id \<Rightarrow> dense_id list \<Rightarrow> dsep_workspace \<Rightarrow>
    ((graph_error + bool) \<times> dsep_workspace) option" where
  "admg_is_m_separated a x y z ws =
     (case admg_validate_nodes a (x # y # z) of
        Inl e \<Rightarrow> Some (Inl e, ws)
      | Inr _ \<Rightarrow>
          (if x = y then Some (Inr False, ws)
           else if x \<in> set z \<or> y \<in> set z then Some (Inr False, ws)
           else map_option (\<lambda>(reached, ws'). (Inr (\<not> reached), ws')) (admg_bayes_m_connected a [x] [y] z ws)))"

fun bs_try_insert_all :: "dense_id list \<Rightarrow> bitset \<Rightarrow> graph_error + bitset" where
  "bs_try_insert_all [] b = Inr b"
| "bs_try_insert_all (v # vs) b =
     (case bs_try_insert b v of (Inl e, _) \<Rightarrow> Inl e | (Inr _, b') \<Rightarrow> bs_try_insert_all vs b')"

definition admg_is_m_separated_sets ::
  "admg \<Rightarrow> dense_id list \<Rightarrow> dense_id list \<Rightarrow> dense_id list \<Rightarrow> dsep_workspace \<Rightarrow>
    ((graph_error + bool) \<times> dsep_workspace) option" where
  "admg_is_m_separated_sets a sources targets z ws =
     (case admg_validate_nodes a (sources @ targets @ z) of
        Inl e \<Rightarrow> Some (Inl e, ws)
      | Inr _ \<Rightarrow>
          (if sources = [] \<or> targets = [] then Some (Inr True, ws)
           else case bs_try_insert_all targets (bs_with_len (admg_node_count a)) of
             Inl e \<Rightarrow> Some (Inl e, ws)
           | Inr target_set \<Rightarrow>
               (if list_ex (\<lambda>s. bs_contains target_set s \<or> s \<in> set z) sources then Some (Inr False, ws)
                else if list_ex (\<lambda>t. t \<in> set z) targets then Some (Inr False, ws)
                else map_option (\<lambda>(reached, ws'). (Inr (\<not> reached), ws'))
                  (admg_bayes_m_connected a sources targets z ws))))"

section \<open>The moral graph\<close>

text \<open>Edges among ancestral nodes; a bidirected edge is added from its smaller end.\<close>

definition admg_edge_pairs_in :: "admg \<Rightarrow> bitset \<Rightarrow> dense_id \<Rightarrow> (dense_id \<times> dense_id) list" where
  "admg_edge_pairs_in a anc u =
     (if \<not> bs_contains anc u then []
      else map (Pair u) (filter (bs_contains anc) (admg_children a u)) @
           map (Pair u) (filter (\<lambda>b. b > u \<and> bs_contains anc b) (admg_bidirected_neighbors a u)))"

text \<open>\<open>for (i, label) in labels.enumerate() { if label != u32::MAX { groups[label].push(i) } }\<close>.\<close>

fun fill_groups :: "(nat \<times> nat) list \<Rightarrow> dense_id list list \<Rightarrow> dense_id list list option" where
  "fill_groups [] groups = Some groups"
| "fill_groups ((i, label) # rest) groups =
     (if label = u32_max then fill_groups rest groups
      else if label \<ge> length groups then None
      else fill_groups rest (push_row groups label i))"

text \<open>The clique of one district: each member, then its ancestral parents, every node once.\<close>

fun clique_collect :: "dense_id list \<Rightarrow> dense_id list \<Rightarrow> bitset \<Rightarrow> (dense_id list \<times> bitset) option" where
  "clique_collect [] clique mark = Some (clique, mark)"
| "clique_collect (u # us) clique mark =
     (if bs_contains mark u then clique_collect us clique mark
      else case bs_insert mark u of
        None \<Rightarrow> None
      | Some mark' \<Rightarrow> clique_collect us (clique @ [u]) mark')"

definition clique_candidates :: "admg \<Rightarrow> bitset \<Rightarrow> dense_id list \<Rightarrow> dense_id list" where
  "clique_candidates a anc members =
     concat (map (\<lambda>u. u # filter (bs_contains anc) (admg_parents a u)) members)"

text \<open>The state of the clique loop: the tables, the last clique and the marks.\<close>

fun add_cliques ::
  "admg \<Rightarrow> bitset \<Rightarrow> dense_id list list \<Rightarrow> moral_tables \<Rightarrow> dense_id list \<Rightarrow> bitset \<Rightarrow>
    (moral_tables \<times> dense_id list \<times> bitset) option" where
  "add_cliques a anc [] t clique mark = Some (t, clique, mark)"
| "add_cliques a anc (members # rest) t clique mark =
     (case clique_collect (clique_candidates a anc members) [] mark of
        None \<Rightarrow> None
      | Some (clique', mark') \<Rightarrow>
          (case add_undirected_all (marry (\<lambda>_. True) clique') t of
             None \<Rightarrow> None
           | Some t' \<Rightarrow> add_cliques a anc rest t' clique' (fold (\<lambda>u m. bs_remove m u) clique' mark')))"

definition admg_moralize_ancestral_set :: "admg \<Rightarrow> dsep_workspace \<Rightarrow> dsep_workspace option" where
  "admg_moralize_ancestral_set a ws =
     (let n = admg_node_count a; anc = sw_ancestral ws
      in case add_undirected_all (concat (map (admg_edge_pairs_in a anc) [0..<n]))
              (sw_undirected ws, sw_undirected_member ws) of
           None \<Rightarrow> None
         | Some t \<Rightarrow>
      (case admg_districts_into a (Some anc) of
           None \<Rightarrow> None
         | Some (label, n_districts) \<Rightarrow>
      (case fill_groups (enumerate 0 label)
              (vec_resize (max n_districts (length (sw_district_groups ws))) []
                (map (\<lambda>_. []) (sw_district_groups ws))) of
           None \<Rightarrow> None
         | Some groups \<Rightarrow>
      (case add_cliques a anc (take n_districts groups) t (sw_clique ws) (sw_clique_mark ws) of
           None \<Rightarrow> None
         | Some ((adj, mem), clique, mark) \<Rightarrow>
             Some (ws\<lparr>sw_undirected := adj, sw_undirected_member := mem, sw_district_label := label,
               sw_district_stack := [], sw_district_groups := groups, sw_clique := clique,
               sw_clique_mark := mark\<rparr>)))))"

definition admg_build_moral_of_seeds ::
  "admg \<Rightarrow> dense_id list \<Rightarrow> dense_id list \<Rightarrow> dsep_workspace \<Rightarrow> dsep_workspace option" where
  "admg_build_moral_of_seeds a seeds z ws =
     (let ws1 = sw_prepare ws (admg_node_count a)
      in case bs_insert_all z (bs_clear (sw_conditioning ws1)) of
           None \<Rightarrow> None
         | Some cond \<Rightarrow>
      (case admg_ancestors_of a (seeds @ z) (sw_ancestral ws1) (sw_graph_ws ws1) of
           None \<Rightarrow> None
         | Some (anc, gws) \<Rightarrow>
             admg_moralize_ancestral_set a
               (ws1\<lparr>sw_conditioning := cond, sw_ancestral := anc, sw_graph_ws := gws, sw_frontier := []\<rparr>)))"

definition admg_build_moral_ancestral ::
  "admg \<Rightarrow> dense_id \<Rightarrow> dense_id \<Rightarrow> dense_id list \<Rightarrow> dsep_workspace \<Rightarrow> dsep_workspace option" where
  "admg_build_moral_ancestral a x y z ws = admg_build_moral_of_seeds a [x, y] z ws"

text \<open>The walk back along the predecessors stops at \<open>x\<close> or where there is none.\<close>

partial_function (option) active_path_loop ::
  "dense_id option list \<Rightarrow> dense_id \<Rightarrow> dense_id option \<Rightarrow> dense_id list \<Rightarrow> dense_id list option" where
  "active_path_loop pred x cur path =
     (case cur of
        None \<Rightarrow> Some path
      | Some n \<Rightarrow>
          (if n = x then Some (n # path)
           else if n \<ge> length pred then None
           else active_path_loop pred x (pred ! n) (n # path)))"

declare active_path_loop.simps [code]

definition admg_m_sep_active_path ::
  "admg \<Rightarrow> dense_id \<Rightarrow> dense_id \<Rightarrow> dense_id list \<Rightarrow> dsep_workspace \<Rightarrow>
    (dense_id list option \<times> dsep_workspace) option" where
  "admg_m_sep_active_path a x y z ws =
     (case admg_build_moral_ancestral a x y z ws of
        None \<Rightarrow> None
      | Some ws1 \<Rightarrow>
          (case moral_reaches ws1 x y True of
             None \<Rightarrow> None
           | Some (False, ws2) \<Rightarrow> Some (None, ws2)
           | Some (True, ws2) \<Rightarrow>
               map_option (\<lambda>path. (Some path, ws2)) (active_path_loop (sw_pred ws2) x (Some y) [])))"

definition admg_m_separation ::
  "admg \<Rightarrow> dense_id \<Rightarrow> dense_id \<Rightarrow> dense_id list \<Rightarrow> dsep_workspace \<Rightarrow>
    ((graph_error + separation_result) \<times> dsep_workspace) option" where
  "admg_m_separation a x y z ws =
     (case admg_validate_nodes a (x # y # z) of
        Inl e \<Rightarrow> Some (Inl e, ws)
      | Inr _ \<Rightarrow>
          (if x = y then Some (Inr (Connected (path_steps [x])), ws)
           else if x \<in> set z \<or> y \<in> set z then Some (Inr (Connected (path_steps [x, y])), ws)
           else case admg_m_sep_active_path a x y z ws of
             None \<Rightarrow> None
           | Some (Some path, ws') \<Rightarrow> Some (Inr (Connected (path_steps path)), ws')
           | Some (None, ws') \<Rightarrow> Some (Inr (Separated z \<lparr>sc_conditioning = z\<rparr>), ws')))"

section \<open>The Boolean queries\<close>

lemma admg_validate_nodes_spec:
  "admg_validate_nodes a vs = Inr () \<longleftrightarrow> (\<forall>v \<in> set vs. v < admg_node_count a)"
  by (induction vs) (auto simp: admg_validate_node_def)

lemma admg_ball_rows:
  assumes "admg_inv a"
  shows "ball_rows (admg_ball_graph a) (admg_node_count a) (admg_rel a) (admg_bi a)"
proof -
  have wf: "dc_wf (ad_directed a)" using assms by (simp add: wf_simps)
  note w = dc_wfD[OF wf, folded admg_node_count_def]
  have "row (dc_parents (ad_directed a)) u = admg_parents a u" "row (dc_children (ad_directed a)) u = admg_children a u" for u
    by (simp_all add: admg_parents_def admg_children_def dc_parents_of_def dc_children_of_def)
  then show ?thesis
    using w(1,2) admg_rel_bound[OF assms] admg_bi_bound[OF assms] in_admg_parents[OF assms] in_admg_children[of _ a]
    by (auto simp: ball_rows_def admg_ball_graph_def visible_under_def admg_bi_def)
qed

lemma admg_bayes_m_connected_spec:
  assumes "admg_inv a" "sw_inv ws" "\<forall>v \<in> set (sources @ targets @ z). v < admg_node_count a"
  shows "\<exists>ws'. admg_bayes_m_connected a sources targets z ws = Some
      ((\<exists>x \<in> set sources. \<exists>y \<in> set targets. ball_connected (admg_rel a) (admg_bi a) (set z) x y), ws') \<and> sw_inv ws'"
proof -
  have "{v \<in> set z. v < admg_node_count a} = set z" using assms(3) by auto
  then show ?thesis
    using bayes_ball_reaches_spec[OF admg_ball_rows[OF assms(1)] assms(2), of sources targets z] assms(3)
    unfolding admg_bayes_m_connected_def by fastforce
qed

lemma admg_is_m_separated_spec:
  assumes "admg_inv a" "sw_inv ws" "x < admg_node_count a" "y < admg_node_count a" "\<forall>v \<in> set z. v < admg_node_count a"
  shows "\<exists>ws'. admg_is_m_separated a x y z ws = Some (Inr
      (x \<noteq> y \<and> x \<notin> set z \<and> y \<notin> set z \<and> \<not> ball_connected (admg_rel a) (admg_bi a) (set z) x y), ws') \<and> sw_inv ws'"
proof -
  have "admg_validate_nodes a (x # y # z) = Inr ()" using assms(3-5) by (simp only: admg_validate_nodes_spec) simp
  moreover obtain ws' where
    "admg_bayes_m_connected a [x] [y] z ws = Some (ball_connected (admg_rel a) (admg_bi a) (set z) x y, ws')" "sw_inv ws'"
    using admg_bayes_m_connected_spec[OF assms(1,2), of "[x]" "[y]" z] assms(3-5) by auto
  ultimately show ?thesis using assms(2) by (auto simp: admg_is_m_separated_def)
qed

lemma bs_try_insert_all_spec:
  assumes "bs_inv b" "\<forall>v \<in> set vs. v < bs_len b"
  shows "\<exists>b'. bs_try_insert_all vs b = Inr b' \<and> bs_inv b' \<and> bs_members b' = bs_members b \<union> set vs"
  using assms
proof (induction vs arbitrary: b)
  case (Cons v vs)
  then obtain b1 where b1: "bs_insert b v = Some b1" "bs_inv b1" "bs_members b1 = insert v (bs_members b)" "bs_len b1 = bs_len b"
    using bs.ins_step[of b v] by auto
  then have "bs_try_insert b v = (Inr (), b1)"
    by (auto simp: bs_insert_def split: prod.splits sum.splits)
  with b1 Cons.IH[of b1] Cons.prems(2) show ?case by auto
qed simp

lemma admg_is_m_separated_sets_spec:
  assumes "admg_inv a" "sw_inv ws" "\<forall>v \<in> set (sources @ targets @ z). v < admg_node_count a"
  shows "\<exists>ws'. admg_is_m_separated_sets a sources targets z ws = Some (Inr
      (\<forall>x \<in> set sources. \<forall>y \<in> set targets. x \<noteq> y \<and> x \<notin> set z \<and> y \<notin> set z \<and>
        \<not> ball_connected (admg_rel a) (admg_bi a) (set z) x y), ws') \<and> sw_inv ws'"
proof -
  have val: "admg_validate_nodes a (sources @ targets @ z) = Inr ()" using assms(3) by (simp only: admg_validate_nodes_spec)
  obtain ts where ts: "bs_try_insert_all targets (bs_with_len (admg_node_count a)) = Inr ts" "bs_members ts = set targets"
    using bs_try_insert_all_spec[of "bs_with_len (admg_node_count a)" targets] bs_with_len[of "admg_node_count a"] assms(3)
    by auto
  obtain ws' where run: "admg_bayes_m_connected a sources targets z ws = Some
      ((\<exists>x \<in> set sources. \<exists>y \<in> set targets. ball_connected (admg_rel a) (admg_bi a) (set z) x y), ws')" "sw_inv ws'"
    using admg_bayes_m_connected_spec[OF assms] by blast
  let ?bad = "list_ex (\<lambda>s. bs_contains ts s \<or> s \<in> set z) sources" and ?bad' = "list_ex (\<lambda>t. t \<in> set z) targets"
  have bad: "?bad \<longleftrightarrow> (\<exists>x \<in> set sources. x \<in> set targets \<or> x \<in> set z)" "?bad' \<longleftrightarrow> (\<exists>y \<in> set targets. y \<in> set z)"
    using ts(2) by (auto simp: list_ex_iff bs_contains_members)
  consider "sources = [] \<or> targets = []" | "sources \<noteq> []" "targets \<noteq> []" "?bad \<or> ?bad'"
    | "sources \<noteq> []" "targets \<noteq> []" "\<not> ?bad" "\<not> ?bad'" by blast
  then show ?thesis
  proof cases
    case 1
    with val assms(2) show ?thesis by (auto simp: admg_is_m_separated_sets_def)
  next
    case 2
    then have "admg_is_m_separated_sets a sources targets z ws = Some (Inr False, ws)"
      using val ts(1) by (auto simp: admg_is_m_separated_sets_def)
    moreover have "\<not> (\<forall>x \<in> set sources. \<forall>y \<in> set targets. x \<noteq> y \<and> x \<notin> set z \<and> y \<notin> set z \<and>
        \<not> ball_connected (admg_rel a) (admg_bi a) (set z) x y)"
      using 2 unfolding bad by (auto simp: neq_Nil_conv)
    ultimately show ?thesis using assms(2) by auto
  next
    case 3
    then have "admg_is_m_separated_sets a sources targets z ws =
        Some (Inr (\<not> (\<exists>x \<in> set sources. \<exists>y \<in> set targets. ball_connected (admg_rel a) (admg_bi a) (set z) x y)), ws')"
      using val ts(1) run(1) by (simp add: admg_is_m_separated_sets_def)
    moreover have "(\<not> (\<exists>x \<in> set sources. \<exists>y \<in> set targets. ball_connected (admg_rel a) (admg_bi a) (set z) x y)) \<longleftrightarrow>
        (\<forall>x \<in> set sources. \<forall>y \<in> set targets. x \<noteq> y \<and> x \<notin> set z \<and> y \<notin> set z \<and>
        \<not> ball_connected (admg_rel a) (admg_bi a) (set z) x y)"
      using 3 unfolding bad by blast
    ultimately show ?thesis using run(2) by simp
  qed
qed


section \<open>The moral graph is Richardson's\<close>

lemma admg_ancestors_of_spec:
  assumes "admg_inv a" "bs_inv out" "ws_inv ws"
  shows "\<exists>out' ws'. admg_ancestors_of a nodes out ws = Some (out', ws') \<and> bs_inv out' \<and> bs_len out' = admg_node_count a \<and>
    ws_inv ws' \<and> bs_members out' = ancestors (admg_rel a) {s \<in> set nodes. s < admg_node_count a}"
proof -
  have "filtered_arcs (admg_children a) (\<lambda>_ _. True) = admg_rel a" by (auto simp: in_admg_children)
  moreover have "ancestors (admg_rel a) {s \<in> set nodes. s < admg_node_count a} =
      {b. \<exists>s \<in> set nodes. s < admg_node_count a \<and> (b, s) \<in> (admg_rel a)\<^sup>*}"
    by (auto simp: ancestors_def)
  ultimately show ?thesis
    using ag.ancestors_closure[OF assms, of nodes "\<lambda>_ _. True"] by (simp add: admg_ancestors_of_def)
qed

lemma fill_groups_spec:
  assumes "\<forall>(i, label) \<in> set ps. label \<noteq> u32_max \<longrightarrow> label < length groups"
  shows "\<exists>gs. fill_groups ps groups = Some gs \<and> length gs = length groups \<and>
    (\<forall>k < length groups. set (gs ! k) = set (groups ! k) \<union> {i. (i, k) \<in> set ps \<and> k \<noteq> u32_max})"
  using assms
proof (induction ps groups rule: fill_groups.induct)
  case (2 i label rest groups)
  show ?case
  proof (cases "label = u32_max")
    case True
    with 2 show ?thesis by auto
  next
    case False
    with "2.prems" have l: "\<not> label \<ge> length groups" by auto
    from "2.IH"(2)[OF False l] "2.prems" obtain gs where
      gs: "fill_groups rest (push_row groups label i) = Some gs" "length gs = length groups"
        "\<forall>k < length groups. set (gs ! k) = set (push_row groups label i ! k) \<union> {i. (i, k) \<in> set rest \<and> k \<noteq> u32_max}"
      by auto
    have "set (push_row groups label i ! k) = set (groups ! k) \<union> (if k = label then {i} else {})" if "k < length groups" for k
      using that l by (auto simp: push_row_def nth_list_update)
    with gs False l show ?thesis by auto
  qed
qed simp

lemma clique_collect_spec:
  assumes "bs_inv mark" "\<forall>u \<in> set us. u < bs_len mark" "set clique \<subseteq> bs_members mark" "distinct clique"
  shows "\<exists>clique' mark'. clique_collect us clique mark = Some (clique', mark') \<and> bs_inv mark' \<and>
    bs_len mark' = bs_len mark \<and> bs_members mark' = bs_members mark \<union> set us \<and> distinct clique' \<and>
    set clique' = set clique \<union> (set us - bs_members mark)"
  using assms
proof (induction us clique mark rule: clique_collect.induct)
  case (2 u us clique mark)
  show ?case
  proof (cases "bs_contains mark u")
    case True
    with 2 show ?thesis by (auto simp: bs_contains_members)
  next
    case False
    obtain m where m: "bs_insert mark u = Some m" "bs_inv m" "bs_members m = insert u (bs_members mark)" "bs_len m = bs_len mark"
      using bs.ins_step[OF "2.prems"(1), of u] "2.prems"(2) by auto
    have "\<exists>clique' mark'. clique_collect us (clique @ [u]) m = Some (clique', mark') \<and> bs_inv mark' \<and>
        bs_len mark' = bs_len m \<and> bs_members mark' = bs_members m \<union> set us \<and> distinct clique' \<and>
        set clique' = set (clique @ [u]) \<union> (set us - bs_members m)"
      by (rule "2.IH"(2)[OF False m(1,2)]) (use "2.prems" m False in \<open>auto simp: bs_contains_members\<close>)
    with False m show ?thesis by (auto simp: bs_contains_members)
  qed
qed simp

lemma fold_remove_spec:
  assumes "bs_inv m"
  shows "bs_inv (fold (\<lambda>u m. bs_remove m u) us m)" "bs_len (fold (\<lambda>u m. bs_remove m u) us m) = bs_len m"
    and "bs_members (fold (\<lambda>u m. bs_remove m u) us m) = bs_members m - set us"
  using assms by (induction us arbitrary: m) (auto simp: bs_remove)

lemma add_cliques_spec:
  assumes "tables_inv n t R" "bs_inv mark" "bs_len mark = n" "bs_members mark = {}"
    and "\<forall>ms \<in> set groups. set (clique_candidates a anc ms) \<subseteq> {..<n}"
  shows "\<exists>t' clique' mark'. add_cliques a anc groups t clique mark = Some (t', clique', mark') \<and>
    bs_inv mark' \<and> tables_inv n t' (R \<union> {(u, v). u \<noteq> v \<and>
      (\<exists>ms \<in> set groups. u \<in> set (clique_candidates a anc ms) \<and> v \<in> set (clique_candidates a anc ms))})"
  using assms
proof (induction groups arbitrary: t clique mark R)
  case (Cons ms rest)
  let ?us = "clique_candidates a anc ms"
  have "set ?us \<subseteq> {..<n}" using Cons.prems(5) by simp
  then obtain c m where cm: "clique_collect ?us [] mark = Some (c, m)" "bs_inv m" "bs_len m = n" "bs_members m = set ?us"
      "distinct c" "set c = set ?us"
    using clique_collect_spec[OF Cons.prems(2), of ?us "[]"] Cons.prems(3,4) by auto
  have "\<forall>(x, y) \<in> set (marry (\<lambda>_. True) c). x < n \<and> y < n"
    using cm(6) \<open>set ?us \<subseteq> {..<n}\<close> by (auto dest!: marry_in)
  from add_undirected_all_spec[OF Cons.prems(1) this] obtain t1 where
    t1: "add_undirected_all (marry (\<lambda>_. True) c) t = Some t1"
      "tables_inv n t1 (R \<union> {(u, v). u \<noteq> v \<and> u \<in> set ?us \<and> v \<in> set ?us})"
    unfolding sym_pairs_marry[OF cm(5)] cm(6) by auto
  let ?m = "fold (\<lambda>u m. bs_remove m u) c m"
  have m: "bs_inv ?m" "bs_len ?m = n" "bs_members ?m = {}" using fold_remove_spec[OF cm(2), of c] cm(3,4,6) by simp_all
  have "\<forall>ms \<in> set rest. set (clique_candidates a anc ms) \<subseteq> {..<n}" using Cons.prems(5) by simp
  from Cons.IH[OF t1(2) m this, of c] obtain t' c' mark' where
    r: "add_cliques a anc rest t1 c ?m = Some (t', c', mark')" "bs_inv mark'"
      "tables_inv n t' (R \<union> {(u, v). u \<noteq> v \<and> u \<in> set ?us \<and> v \<in> set ?us} \<union> {(u, v). u \<noteq> v \<and>
        (\<exists>ms \<in> set rest. u \<in> set (clique_candidates a anc ms) \<and> v \<in> set (clique_candidates a anc ms))})"
    by (elim exE conjE) (rule that)
  have "R \<union> {(u, v). u \<noteq> v \<and> u \<in> set ?us \<and> v \<in> set ?us} \<union> {(u, v). u \<noteq> v \<and>
        (\<exists>ms \<in> set rest. u \<in> set (clique_candidates a anc ms) \<and> v \<in> set (clique_candidates a anc ms))} =
      R \<union> {(u, v). u \<noteq> v \<and>
        (\<exists>ms \<in> set (ms # rest). u \<in> set (clique_candidates a anc ms) \<and> v \<in> set (clique_candidates a anc ms))}"
    by auto
  with r cm(1) t1(1) show ?case by auto
qed simp

lemma district_rel_spouses: "district_rel a S = spouses_in (admg_bi a) S"
  by (auto simp: district_rel_def spouses_in_def)

text \<open>Edges and district cliques together are moral adjacency on an ancestral set.\<close>

lemma moral_rel_of_labels:
  assumes inv: "admg_inv a" and anc: "A = ancestors (admg_rel a) S" and sub: "A \<subseteq> {..<n}"
    and lab: "labelled (spouses_in (admg_bi a) A) (\<lambda>v. v \<in> A) n label count" "length label = n"
  shows "moral_rel (admg_rel a) (admg_bi a) A =
    sym_pairs {(u, v). u \<in> A \<and> v \<in> A \<and> ((u, v) \<in> admg_rel a \<or> (u, v) \<in> admg_bi a \<and> u < v)} \<union>
    {(u, v). u \<noteq> v \<and> (\<exists>k < count. (\<exists>c. c \<in> A \<and> label ! c = k \<and> near (admg_rel a) c u) \<and>
      (\<exists>d. d \<in> A \<and> label ! d = k \<and> near (admg_rel a) d v))}" (is "?M = ?edges \<union> ?cliques")
proof -
  let ?E = "admg_rel a" and ?B = "admg_bi a"
  have symB: "sym ?B" using admg_bi_sym[OF inv] by (auto simp: sym_def)
  have mk: "marked label = A" using lab sub unfolding labelled_def by auto
  have same: "label ! c = label ! d \<longleftrightarrow> (c, d) \<in> (spouses_in ?B A)\<^sup>*" if "c \<in> A" "d \<in> A" for c d
    using labelled_same[OF sym_spouses_in[OF symB] lab(1)] that mk by blast
  have bound: "label ! c < count" if "c \<in> A" for c using lab(1) that mk unfolding labelled_def by blast
  have "?M = ?cliques"
  proof -
    have "(u, v) \<in> ?M \<longleftrightarrow> (u, v) \<in> ?cliques" for u v
      using same bound by (auto simp: moral_rel_def clique_rel_def) metis+
    then show ?thesis by auto
  qed
  moreover have "?edges \<subseteq> ?M"
  proof -
    have one: "(u, v) \<in> clique_rel ?E ?B A" if "u \<in> A" "v \<in> A" "(u, v) \<in> ?E \<or> (u, v) \<in> ?B" for u v
    proof (cases "(u, v) \<in> ?E")
      case True
      then have "near ?E v u" "near ?E v v" by (simp_all add: near_def)
      with that(2) show ?thesis unfolding clique_rel_def by blast
    next
      case False
      then have "(u, v) \<in> (spouses_in ?B A)\<^sup>*" using that by (auto simp: spouses_in_def)
      moreover have "near ?E u u" "near ?E v v" by (simp_all add: near_def)
      ultimately show ?thesis using that(1,2) unfolding clique_rel_def by blast
    qed
    moreover have "(v, u) \<in> clique_rel ?E ?B A" if "(u, v) \<in> clique_rel ?E ?B A" for u v
      using that sym_clique_rel[OF symB, of ?E A] by (auto dest: symD)
    ultimately show ?thesis by (auto simp: sym_pairs_def moral_rel_def)
  qed
  ultimately show ?thesis by blast
qed

lemma set_clique_candidates:
  assumes "admg_inv a" "bs_members anc = A" "set ms \<subseteq> A" "\<And>p v. (p, v) \<in> admg_rel a \<Longrightarrow> v \<in> A \<Longrightarrow> p \<in> A"
  shows "set (clique_candidates a anc ms) = {u. \<exists>c \<in> set ms. near (admg_rel a) c u}"
  using assms in_admg_parents[OF assms(1)]
  by (auto simp: clique_candidates_def near_def bs_contains_members)

lemma admg_edge_pairs_rel:
  assumes "admg_inv a" "bs_members anc = A" "A \<subseteq> {..<admg_node_count a}"
  shows "set (concat (map (admg_edge_pairs_in a anc) [0..<admg_node_count a])) =
    {(u, v). u \<in> A \<and> v \<in> A \<and> ((u, v) \<in> admg_rel a \<or> (u, v) \<in> admg_bi a \<and> u < v)}"
proof -
  have "(u, v) \<in> set (concat (map (admg_edge_pairs_in a anc) [0..<admg_node_count a])) \<longleftrightarrow>
      u < admg_node_count a \<and> (u, v) \<in> set (admg_edge_pairs_in a anc u)" for u v
    by (fastforce simp: admg_edge_pairs_in_def split: if_splits)
  then show ?thesis
    using assms(2,3) by (auto simp: admg_edge_pairs_in_def bs_contains_members in_admg_children in_admg_bi)
qed

lemma admg_moralize_spec:
  assumes inv: "admg_inv a" "admg_node_count a \<le> u32_max"
    and ws: "sw_inv ws" "tables_inv (admg_node_count a) (sw_undirected ws, sw_undirected_member ws) {}"
    and mark: "bs_members (sw_clique_mark ws) = {}" "bs_len (sw_clique_mark ws) = admg_node_count a"
    and anc: "bs_members (sw_ancestral ws) = ancestors (admg_rel a) S" "S \<subseteq> {..<admg_node_count a}"
  shows "\<exists>ws'. admg_moralize_ancestral_set a ws = Some ws' \<and> sw_inv ws' \<and>
    tables_inv (admg_node_count a) (sw_undirected ws', sw_undirected_member ws')
      (moral_rel (admg_rel a) (admg_bi a) (ancestors (admg_rel a) S)) \<and>
    sw_conditioning ws' = sw_conditioning ws \<and> sw_visited ws' = sw_visited ws \<and> sw_pred ws' = sw_pred ws"
proof -
  let ?n = "admg_node_count a" and ?E = "admg_rel a" and ?B = "admg_bi a" and ?anc = "sw_ancestral ws"
  define A where "A = ancestors ?E S"
  have mem: "bs_members ?anc = A" using anc(1) by (simp add: A_def)
  have sub: "A \<subseteq> {..<?n}"
    using ancestors_below[OF anc(2), of ?E] admg_rel_bound[OF inv(1)] unfolding A_def by blast
  have up: "p \<in> A" if "(p, v) \<in> ?E" "v \<in> A" for p v using that unfolding A_def by (rule ancestors_parent)
  let ?ps = "concat (map (admg_edge_pairs_in a ?anc) [0..<?n])"
  note ps = admg_edge_pairs_rel[OF inv(1) mem sub]
  have "\<forall>(u, v) \<in> set ?ps. u < ?n \<and> v < ?n" using sub unfolding ps by auto
  from add_undirected_all_spec[OF ws(2) this] obtain t where
    t: "add_undirected_all ?ps (sw_undirected ws, sw_undirected_member ws) = Some t" "tables_inv ?n t (sym_pairs (set ?ps))"
    by auto
  have within: "within_set (Some ?anc) = (\<lambda>v. v \<in> A)"
    using mem by (auto simp: within_set_def bs_contains_members)
  obtain label count where
    l: "admg_districts_into a (Some ?anc) = Some (label, count)" "length label = ?n"
      "labelled (spouses_in ?B A) (\<lambda>v. v \<in> A) ?n label count"
    using admg_districts_into_spec[OF inv, of "Some ?anc"] unfolding within district_rel_spouses Collect_mem_eq by blast
  have mk: "marked label = A" using l sub unfolding labelled_def by auto
  have bound: "label ! c < count" if "c \<in> A" for c using l(3) that mk unfolding labelled_def by blast
  let ?g0 = "vec_resize (max count (length (sw_district_groups ws))) [] (map (\<lambda>_. []) (sw_district_groups ws)) :: dense_id list list"
  have len0: "count \<le> length ?g0" and empty0: "\<forall>k < length ?g0. ?g0 ! k = []"
    by (simp_all add: vec_resize_def nth_append)
  have "\<forall>(i, lb) \<in> set (enumerate 0 label). lb \<noteq> u32_max \<longrightarrow> lb < length ?g0"
    using bound mk len0 by (fastforce simp: in_set_enumerate_eq marked_def)
  from fill_groups_spec[OF this] obtain gs where
    gs: "fill_groups (enumerate 0 label) ?g0 = Some gs" "length gs = length ?g0"
      "\<forall>k < length ?g0. set (gs ! k) = set (?g0 ! k) \<union> {i. (i, k) \<in> set (enumerate 0 label) \<and> k \<noteq> u32_max}" by blast
  have grp: "set (gs ! k) = {c \<in> A. label ! c = k}" if "k < count" for k
  proof -
    have "k \<noteq> u32_max" using that l(3) reps_length[of "spouses_in ?B A" "\<lambda>v. v \<in> A" ?n] inv(2) by (simp add: labelled_def)
    moreover have "(i, k) \<in> set (enumerate 0 label) \<longleftrightarrow> i < ?n \<and> label ! i = k" for i
      using l(2) by (auto simp: in_set_enumerate_eq)
    ultimately have "set (gs ! k) = {i. i < ?n \<and> label ! i = k \<and> k \<noteq> u32_max}"
      using gs(3) empty0 that len0 by auto
    also have "\<dots> = {c \<in> A. label ! c = k}" using mk l(2) \<open>k \<noteq> u32_max\<close> unfolding marked_def by auto
    finally show ?thesis .
  qed
  let ?groups = "take count gs"
  have in_groups: "ms \<in> set ?groups \<longleftrightarrow> (\<exists>k < count. ms = gs ! k)" for ms
    using gs(2) len0 by (auto simp: in_set_conv_nth)
  have cand: "set (clique_candidates a ?anc (gs ! k)) = {u. \<exists>c. c \<in> A \<and> label ! c = k \<and> near ?E c u}" if "k < count" for k
    using set_clique_candidates[OF inv(1) mem, of "gs ! k"] grp[OF that] up by auto
  have "\<forall>ms \<in> set ?groups. set (clique_candidates a ?anc ms) \<subseteq> {..<?n}"
  proof (intro ballI subsetI)
    fix ms u assume "ms \<in> set ?groups" "u \<in> set (clique_candidates a ?anc ms)"
    then obtain c where "c \<in> A" "near ?E c u" using cand unfolding in_groups by blast
    then show "u \<in> {..<?n}" using sub admg_rel_bound[OF inv(1)] by (auto simp: near_def)
  qed
  moreover have "bs_inv (sw_clique_mark ws)" using ws(1) by (simp add: sw_inv_def)
  ultimately obtain t' clique mark' where
    c: "add_cliques a ?anc ?groups t (sw_clique ws) (sw_clique_mark ws) = Some (t', clique, mark')" "bs_inv mark'"
      "tables_inv ?n t' (sym_pairs (set ?ps) \<union> {(u, v). u \<noteq> v \<and>
        (\<exists>ms \<in> set ?groups. u \<in> set (clique_candidates a ?anc ms) \<and> v \<in> set (clique_candidates a ?anc ms))})"
    using add_cliques_spec[OF t(2) _ mark(2,1), of ?groups a ?anc "sw_clique ws"] by blast
  have "{(u, v). u \<noteq> v \<and> (\<exists>ms \<in> set ?groups. u \<in> set (clique_candidates a ?anc ms) \<and> v \<in> set (clique_candidates a ?anc ms))} =
      {(u, v). u \<noteq> v \<and> (\<exists>k < count. (\<exists>c. c \<in> A \<and> label ! c = k \<and> near ?E c u) \<and>
        (\<exists>d. d \<in> A \<and> label ! d = k \<and> near ?E d v))}"
    using cand unfolding Bex_def in_groups by auto
  then have tab: "tables_inv ?n t' (moral_rel ?E ?B A)"
    using c(3) moral_rel_of_labels[OF inv(1) A_def sub l(3,2)] unfolding ps by simp
  obtain adj mems where t': "t' = (adj, mems)" by fastforce
  let ?ws' = "ws\<lparr>sw_undirected := adj, sw_undirected_member := mems, sw_district_label := label,
    sw_district_stack := [], sw_district_groups := gs, sw_clique := clique, sw_clique_mark := mark'\<rparr>"
  have "admg_moralize_ancestral_set a ws = Some ?ws'"
    unfolding admg_moralize_ancestral_set_def Let_def using t(1) l(1) gs(1) c(1) t' by simp
  moreover have "sw_inv ?ws'"
    using ws(1) c(2) tables_invD(2,4)[OF tab[unfolded t']] by (auto simp: sw_inv_def in_set_conv_nth)
  ultimately show ?thesis using tab unfolding t' A_def by (intro exI[of _ ?ws']) simp
qed

section \<open>The witness query\<close>

lemma active_path_loop_chain:
  "pred_chain pred x v p \<Longrightarrow> active_path_loop pred x (Some v) acc = Some (rev p @ acc)"
proof (induction arbitrary: acc rule: pred_chain.induct)
  case base
  then show ?case by (subst active_path_loop.simps) simp
next
  case (step v u p)
  then show ?case by (subst active_path_loop.simps) simp
qed

lemma admg_m_sep_active_path_spec:
  assumes "admg_inv a" "admg_node_count a \<le> u32_max" "sw_inv ws"
    and "x < admg_node_count a" "y < admg_node_count a" "\<forall>v \<in> set z. v < admg_node_count a" "x \<notin> set z"
  shows "\<exists>r ws'. admg_m_sep_active_path a x y z ws = Some (r, ws') \<and> sw_inv ws' \<and>
    (if moral_connected (admg_rel a) (admg_bi a) (set z) x y
     then \<exists>p. r = Some p \<and> moral_path (admg_rel a) (admg_bi a) (set z) x y p else r = None)"
proof -
  let ?n = "admg_node_count a" and ?E = "admg_rel a" and ?B = "admg_bi a" and ?Z = "set z"
  let ?ws1 = "sw_prepare ws ?n"
  have inv1: "sw_inv ?ws1" by (rule sw_prepare_inv[OF assms(3)])
  note lens = sw_prepare_lens[OF assms(3), of ?n]
  have parts: "bs_inv (sw_conditioning ?ws1)" "bs_inv (sw_ancestral ?ws1)" "ws_inv (sw_graph_ws ?ws1)"
    using inv1 by (simp_all add: sw_inv_def)
  obtain cond where cond: "bs_insert_all z (bs_clear (sw_conditioning ?ws1)) = Some cond" "bs_inv cond" "bs_members cond = ?Z"
    using bs_insert_all_spec[of "bs_clear (sw_conditioning ?ws1)" z] bs.clear_spec[OF parts(1)] lens(2) assms(6) by auto
  have "{s \<in> set ([x, y] @ z). s < ?n} = {x, y} \<union> ?Z" using assms(4-6) by auto
  then obtain anc gws where anc: "admg_ancestors_of a ([x, y] @ z) (sw_ancestral ?ws1) (sw_graph_ws ?ws1) = Some (anc, gws)"
      "bs_inv anc" "ws_inv gws" "bs_members anc = ancestors ?E ({x, y} \<union> ?Z)"
    using admg_ancestors_of_spec[OF assms(1) parts(2,3), of "[x, y] @ z"] by auto
  let ?ws2 = "?ws1\<lparr>sw_conditioning := cond, sw_ancestral := anc, sw_graph_ws := gws, sw_frontier := []\<rparr>"
  have inv2: "sw_inv ?ws2" using inv1 cond(2) anc(2,3) by (simp add: sw_inv_def)
  have "\<exists>ws'. admg_moralize_ancestral_set a ?ws2 = Some ws' \<and> sw_inv ws' \<and>
      tables_inv ?n (sw_undirected ws', sw_undirected_member ws') (moral_rel ?E ?B (ancestors ?E ({x, y} \<union> ?Z))) \<and>
      sw_conditioning ws' = sw_conditioning ?ws2 \<and> sw_visited ws' = sw_visited ?ws2 \<and> sw_pred ws' = sw_pred ?ws2"
    by (rule admg_moralize_spec[OF assms(1,2) inv2])
      (use prepared_tables[OF assms(3), of ?n] lens(7,8) anc(4) assms(4-6) in auto)
  then obtain ws3 where ws3: "admg_moralize_ancestral_set a ?ws2 = Some ws3" "sw_inv ws3"
      "tables_inv ?n (sw_undirected ws3, sw_undirected_member ws3) (moral_rel ?E ?B (ancestors ?E ({x, y} \<union> ?Z)))"
      "sw_conditioning ws3 = sw_conditioning ?ws2" "sw_visited ws3 = sw_visited ?ws2" "sw_pred ws3 = sw_pred ?ws2"
    by blast
  have built: "admg_build_moral_ancestral a x y z ws = Some ws3"
    using cond(1) anc(1) ws3(1) by (simp add: admg_build_moral_ancestral_def admg_build_moral_of_seeds_def Let_def)
  have "\<exists>ws'. moral_reaches ws3 x y True = Some (moral_connected ?E ?B ?Z x y, ws') \<and> sw_inv ws' \<and>
      (True \<and> moral_connected ?E ?B ?Z x y \<and> x \<notin> ?Z \<longrightarrow>
        (\<exists>p. pred_chain (sw_pred ws') x y p \<and> moral_path ?E ?B ?Z x y (rev p)))"
    by (rule moral_search[OF ws3(2,3)]) (simp_all add: ws3(4-6) lens(3,6) assms(4) cond(3))
  then obtain ws' where run: "moral_reaches ws3 x y True = Some (moral_connected ?E ?B ?Z x y, ws')" "sw_inv ws'"
      "moral_connected ?E ?B ?Z x y \<longrightarrow> (\<exists>p. pred_chain (sw_pred ws') x y p \<and> moral_path ?E ?B ?Z x y (rev p))"
    using assms(7) by blast
  show ?thesis
  proof (cases "moral_connected ?E ?B ?Z x y")
    case True
    with run(3) obtain p where p: "pred_chain (sw_pred ws') x y p" "moral_path ?E ?B ?Z x y (rev p)" by blast
    then have "admg_m_sep_active_path a x y z ws = Some (Some (rev p), ws')"
      using built run(1) True active_path_loop_chain[OF p(1), of "[]"] by (simp add: admg_m_sep_active_path_def)
    with p(2) run(2) True show ?thesis by auto
  next
    case False
    with built run(1,2) show ?thesis by (auto simp: admg_m_sep_active_path_def)
  qed
qed

lemma admg_m_separation_spec:
  assumes "admg_inv a" "admg_node_count a \<le> u32_max" "sw_inv ws"
    and "x < admg_node_count a" "y < admg_node_count a" "\<forall>v \<in> set z. v < admg_node_count a"
    and "x \<noteq> y" "x \<notin> set z" "y \<notin> set z"
  shows "\<exists>r ws'. admg_m_separation a x y z ws = Some (Inr r, ws') \<and> sw_inv ws' \<and>
    (if ball_connected (admg_rel a) (admg_bi a) (set z) x y
     then \<exists>p. r = Connected (path_steps p) \<and> moral_path (admg_rel a) (admg_bi a) (set z) x y p
     else r = Separated z \<lparr>sc_conditioning = z\<rparr>)"
proof -
  have val: "admg_validate_nodes a (x # y # z) = Inr ()" using assms(4-6) by (simp only: admg_validate_nodes_spec) simp
  have "sym (admg_bi a)" using admg_bi_sym[OF assms(1)] by (auto simp: sym_def)
  then have same: "ball_connected (admg_rel a) (admg_bi a) (set z) x y \<longleftrightarrow>
      moral_connected (admg_rel a) (admg_bi a) (set z) x y"
    by (rule ball_iff_moral[OF _ assms(8,9)])
  obtain r ws' where "admg_m_sep_active_path a x y z ws = Some (r, ws')" "sw_inv ws'"
      "if moral_connected (admg_rel a) (admg_bi a) (set z) x y
       then \<exists>p. r = Some p \<and> moral_path (admg_rel a) (admg_bi a) (set z) x y p else r = None"
    using admg_m_sep_active_path_spec[OF assms(1-6,8)] by blast
  with val assms(7-9) same show ?thesis
    by (cases "moral_connected (admg_rel a) (admg_bi a) (set z) x y") (auto simp: admg_m_separation_def)
qed

end
