(* ===== verification/Separation_Properties.thy ===== *)
theory Separation_Properties
  imports Admg_Separation
begin

text \<open>
  What the separation queries promise, over the code's own operations: the Boolean and the witness
  query agree, overlays agree with materialised graphs, set queries with pairwise ones, DAGs with the
  ADMGs they lift to; separation is symmetric, adjacent nodes are never separated, and every node of
  a DAG is separated from its non-descendants by its parents.
\<close>

section \<open>Consequences of the ball relation\<close>

lemma ball_adjacent:
  assumes "(x, y) \<in> E \<or> (y, x) \<in> E \<or> (x, y) \<in> B" "x \<notin> Z"
  shows "ball_connected E B Z x y"
  using assms ball_rel_intros(1-3)[of x Z] unfolding ball_connected_def by (meson r_into_rtrancl)

lemma ball_from_parents:
  assumes "acyclic E" "Z = {p. (p, x) \<in> E}" "((x, True), t) \<in> (ball_rel E {} Z)\<^sup>*"
  shows "t = (x, True) \<or> (\<exists>p \<in> Z. t = (p, True)) \<or> (\<exists>c. (x, c) \<in> E\<^sup>+ \<and> t = (c, False))"
  using assms(3)
proof (induction rule: rtrancl_induct)
  case (step s t)
  have blocked: "c \<notin> ancestors E Z" if "(x, c) \<in> E\<^sup>+" for c
  proof
    assume "c \<in> ancestors E Z"
    then obtain p where "(c, p) \<in> E\<^sup>*" "(p, x) \<in> E" using assms(2) by (auto simp: ancestors_def)
    with that have "(x, x) \<in> E\<^sup>+" by (meson rtrancl_into_trancl1 trancl_trans)
    with assms(1) show False by (simp add: acyclic_def)
  qed
  from step(3) show ?case
  proof (elim disjE bexE exE conjE)
    assume "s = (x, True)"
    with step(2) show ?thesis using assms(2) by (auto simp: ball_rel_def ball_move_up)
  next
    fix p assume "p \<in> Z" "s = (p, True)"
    with step(2) show ?thesis by (auto simp: ball_rel_def ball_move_up)
  next
    fix c assume c: "(x, c) \<in> E\<^sup>+" "s = (c, False)"
    with step(2) blocked[OF c(1)] show ?thesis
      by (auto simp: ball_rel_def ball_move_down intro: trancl_into_trancl)
  qed
qed simp

section \<open>DAGs\<close>

text \<open>C7: on a stored DAG the Bayes-ball query and the moral-graph query agree for every pair and every
  disjoint conditioning set: when the first answers separated the second returns the certificate, and
  otherwise the second returns a simple path of the ancestral moral graph from the source to the
  target that avoids the conditioning set. Neither panics.\<close>

theorem d_separation_agrees:
  assumes "dag_inv d" "sw_inv ws" "x < dag_node_count d" "y < dag_node_count d" "\<forall>v \<in> set z. v < dag_node_count d"
    and "x \<noteq> y" "x \<notin> set z" "y \<notin> set z"
  shows "\<exists>b r ws1 ws2. dag_is_d_separated d x y z ws = Some (Inr b, ws1) \<and>
    dag_d_separation d x y z ws = Some (Inr r, ws2) \<and>
    (if b then r = Separated z \<lparr>sc_conditioning = z\<rparr>
     else \<exists>p. r = Connected (path_steps p) \<and> moral_path (dag_rel d) {} (set z) x y p)"
  using dag_is_d_separated_with_spec[OF assms(1-5), of None] dag_d_separation_with_spec[OF assms, of None] assms(6-8)
  unfolding dag_is_d_separated_def dag_d_separation_def seen_rel_None by fastforce

theorem d_separation_agrees_witness:
  "\<exists>b r ws1 ws2. dag_is_d_separated diamond 1 2 [0] sw_default = Some (Inr b, ws1) \<and>
    dag_d_separation diamond 1 2 [0] sw_default = Some (Inr r, ws2) \<and>
    (if b then r = Separated [0] \<lparr>sc_conditioning = [0]\<rparr>
     else \<exists>p. r = Connected (path_steps p) \<and> moral_path (dag_rel diamond) {} (set [0]) 1 2 p)"
  by (rule d_separation_agrees[OF diamond(1) sw_default_inv]) (simp_all add: diamond)

text \<open>C31: querying d-separation through an overlay gives the answer of the same query on the graph
  materialised from it.\<close>

theorem overlay_d_separation:
  assumes "dag_inv d" "dag_node_count d < id_space" "sw_inv ws" "sw_inv ws'"
    and "x < dag_node_count d" "y < dag_node_count d" "\<forall>v \<in> set z. v < dag_node_count d"
  shows "\<exists>m b ws1 ws2. view_materialize (dag_to_view d ov) = Some (Inr m) \<and>
    view_is_d_separated (dag_to_view d ov) x y z ws = Some (Inr b, ws1) \<and>
    dag_is_d_separated m x y z ws' = Some (Inr b, ws2)"
proof -
  obtain m where m: "view_materialize (dag_to_view d ov) = Some (Inr m)" "dag_inv m"
      "dag_nodes m = map Static [0..<dag_node_count d]" "dag_rel m = seen_rel d (Some ov)"
    using view_materialize_spec[OF assms(1,2), of ov] by blast
  then have "dag_node_count m = dag_node_count d"
    by (simp add: dag_node_count_def dag_nodes_def dc_node_count_def)
  then show ?thesis
    using m dag_is_d_separated_with_spec[OF assms(1,3,5-7), of "Some ov"] assms(5-7)
      dag_is_d_separated_with_spec[OF m(2) assms(4), of x y z None]
    by (auto simp: view_is_d_separated_def dag_is_d_separated_def dag_to_view_def)
qed

theorem overlay_d_separation_witness:
  "\<exists>m b ws1 ws2. view_materialize (dag_to_view diamond (ov_observational 4)) = Some (Inr m) \<and>
    view_is_d_separated (dag_to_view diamond (ov_observational 4)) 1 2 [0] sw_default = Some (Inr b, ws1) \<and>
    dag_is_d_separated m 1 2 [0] sw_default = Some (Inr b, ws2)"
  using overlay_d_separation[OF diamond(1) _ sw_default_inv sw_default_inv, of 1 2 "[0]"] by (simp add: diamond id_space_def)

text \<open>C38: the local Markov property: conditioning on exactly its parents, the query answers that a node
  is separated from every other node that is neither a descendant nor a parent.\<close>

theorem d_separated_from_non_descendants:
  assumes "dag_inv d" "sw_inv ws" "x < dag_node_count d" "y < dag_node_count d" "set z = set (dag_parents d x)"
    and "y \<notin> set z" "(x, y) \<notin> (dag_rel d)\<^sup>*"
  shows "\<exists>ws'. dag_is_d_separated d x y z ws = Some (Inr True, ws')"
proof -
  have pa: "set z = {p. (p, x) \<in> dag_rel d}" using assms(5) in_dag_parents[OF assms(1)] by auto
  have acyc: "acyclic (dag_rel d)" using assms(1) by (simp add: dag_inv_def dc_inv_def dag_rel_def)
  have x: "x \<notin> set z" using acyc unfolding pa by (auto simp: acyclic_def)
  have "\<not> ball_connected (dag_rel d) {} (set z) x y"
  proof
    assume "ball_connected (dag_rel d) {} (set z) x y"
    then obtain fc where "((x, True), (y, fc)) \<in> (ball_rel (dag_rel d) {} (set z))\<^sup>*" by (auto simp: ball_connected_def)
    from ball_from_parents[OF acyc pa this] assms(6,7) show False by (auto dest: trancl_into_rtrancl)
  qed
  moreover have "x \<noteq> y" using assms(7) by auto
  moreover have "\<forall>v \<in> set z. v < dag_node_count d" using dag_rel_bound[OF assms(1)] unfolding pa by blast
  ultimately show ?thesis
    using dag_is_d_separated_with_spec[OF assms(1-4), of z None] x assms(6)
    by (auto simp: dag_is_d_separated_def)
qed

theorem d_separated_from_non_descendants_witness:
  "\<exists>ws'. dag_is_d_separated diamond 1 2 (dag_parents diamond 1) sw_default = Some (Inr True, ws')"
proof -
  have "2 \<notin> set (dag_parents diamond 1)" using in_dag_parents[OF diamond(1)] by (simp add: diamond)
  moreover have "v = 1 \<or> v = 3" if "(1, v) \<in> (dag_rel diamond)\<^sup>*" for v
    using that by (induction rule: rtrancl_induct) (auto simp: diamond)
  then have "(1, 2) \<notin> (dag_rel diamond)\<^sup>*" by fastforce
  ultimately show ?thesis
    using d_separated_from_non_descendants[OF diamond(1) sw_default_inv, of 1 2] by (simp add: diamond)
qed

section \<open>ADMGs\<close>

text \<open>C19: on a stored ADMG the Bayes-ball query and the query on Richardson's moral graph (districts of
  the ancestral set with their parents as cliques) agree for every pair and disjoint conditioning set,
  with a certificate or a simple moral path, and neither panics.\<close>

theorem m_separation_agrees:
  assumes "admg_inv a" "admg_node_count a \<le> u32_max" "sw_inv ws"
    and "x < admg_node_count a" "y < admg_node_count a" "\<forall>v \<in> set z. v < admg_node_count a"
    and "x \<noteq> y" "x \<notin> set z" "y \<notin> set z"
  shows "\<exists>b r ws1 ws2. admg_is_m_separated a x y z ws = Some (Inr b, ws1) \<and>
    admg_m_separation a x y z ws = Some (Inr r, ws2) \<and>
    (if b then r = Separated z \<lparr>sc_conditioning = z\<rparr>
     else \<exists>p. r = Connected (path_steps p) \<and> moral_path (admg_rel a) (admg_bi a) (set z) x y p)"
  using admg_is_m_separated_spec[OF assms(1,3-6)] admg_m_separation_spec[OF assms] assms(7-9) by fastforce

theorem m_separation_agrees_witness:
  "\<exists>b r ws1 ws2. admg_is_m_separated confounded_chain 0 2 [1] sw_default = Some (Inr b, ws1) \<and>
    admg_m_separation confounded_chain 0 2 [1] sw_default = Some (Inr r, ws2) \<and>
    (if b then r = Separated [1] \<lparr>sc_conditioning = [1]\<rparr>
     else \<exists>p. r = Connected (path_steps p) \<and>
       moral_path (admg_rel confounded_chain) (admg_bi confounded_chain) (set [1]) 0 2 p)"
  by (rule m_separation_agrees[OF confounded_chain(1) _ sw_default_inv])
    (simp_all add: confounded_chain u32_max_def id_space_def)

text \<open>The set query, one search from all sources, answers that every source is separated from every
  target in the sense of the pairwise query, whatever buffers each call reuses.\<close>

theorem m_separated_sets_pairwise:
  assumes "admg_inv a" "sw_inv ws" "\<forall>v \<in> set (sources @ targets @ z). v < admg_node_count a"
  shows "\<exists>b ws'. admg_is_m_separated_sets a sources targets z ws = Some (Inr b, ws') \<and>
    (b \<longleftrightarrow> (\<forall>x \<in> set sources. \<forall>y \<in> set targets. \<exists>ws2. admg_is_m_separated a x y z ws = Some (Inr True, ws2)))"
proof -
  have pair: "(\<exists>ws2. admg_is_m_separated a x y z ws = Some (Inr True, ws2)) \<longleftrightarrow> x \<noteq> y \<and> x \<notin> set z \<and> y \<notin> set z \<and>
      \<not> ball_connected (admg_rel a) (admg_bi a) (set z) x y" if "x \<in> set sources" "y \<in> set targets" for x y
    using admg_is_m_separated_spec[OF assms(1,2), of x y z] assms(3) that by auto
  from admg_is_m_separated_sets_spec[OF assms] show ?thesis using pair by fastforce
qed

theorem m_separated_sets_pairwise_witness:
  "\<exists>b ws'. admg_is_m_separated_sets confounded_chain [0] [1, 2] [] sw_default = Some (Inr b, ws') \<and>
    (b \<longleftrightarrow> (\<forall>x \<in> {0}. \<forall>y \<in> {1, 2}. \<exists>ws2. admg_is_m_separated confounded_chain x y [] sw_default = Some (Inr True, ws2)))"
  using m_separated_sets_pairwise[OF confounded_chain(1) sw_default_inv, of "[0]" "[1, 2]" "[]"]
  by (simp add: confounded_chain)

text \<open>M-separation is symmetric in its endpoints, and nodes joined by an edge are never separated.\<close>

theorem m_separated_symmetric:
  assumes "admg_inv a" "sw_inv ws" "x < admg_node_count a" "y < admg_node_count a" "\<forall>v \<in> set z. v < admg_node_count a"
  shows "\<exists>b ws1 ws2. admg_is_m_separated a x y z ws = Some (Inr b, ws1) \<and>
    admg_is_m_separated a y x z ws = Some (Inr b, ws2) \<and>
    ((x, y) \<in> admg_rel a \<union> admg_bi a \<longrightarrow> \<not> b)"
proof -
  have sym: "sym (admg_bi a)" using admg_bi_sym[OF assms(1)] by (auto simp: sym_def)
  have "ball_connected (admg_rel a) (admg_bi a) (set z) x y \<longleftrightarrow> ball_connected (admg_rel a) (admg_bi a) (set z) y x"
    if "x \<notin> set z" "y \<notin> set z" using ball_connected_sym[OF sym that] .
  moreover have "ball_connected (admg_rel a) (admg_bi a) (set z) x y" if "(x, y) \<in> admg_rel a \<union> admg_bi a" "x \<notin> set z"
    using that by (intro ball_adjacent) auto
  ultimately obtain b where b: "b = (x \<noteq> y \<and> x \<notin> set z \<and> y \<notin> set z \<and> \<not> ball_connected (admg_rel a) (admg_bi a) (set z) x y)"
      "b = (y \<noteq> x \<and> y \<notin> set z \<and> x \<notin> set z \<and> \<not> ball_connected (admg_rel a) (admg_bi a) (set z) y x)"
      "(x, y) \<in> admg_rel a \<union> admg_bi a \<longrightarrow> \<not> b" by blast
  then show ?thesis
    using admg_is_m_separated_spec[OF assms(1-5), folded b(1)] admg_is_m_separated_spec[OF assms(1,2,4,3,5), folded b(2)] by blast
qed

theorem m_separated_symmetric_witness:
  "\<exists>ws1 ws2. admg_is_m_separated confounded_chain 0 1 [2] sw_default = Some (Inr False, ws1) \<and>
    admg_is_m_separated confounded_chain 1 0 [2] sw_default = Some (Inr False, ws2)"
  using m_separated_symmetric[OF confounded_chain(1) sw_default_inv, of 0 1 "[2]"] by (auto simp: confounded_chain)

text \<open>C37: lifting a DAG to an ADMG keeps every separation answer: m-separation of the lifted graph is
  d-separation of the DAG.\<close>

theorem from_dag_keeps_separation:
  assumes "dag_inv d" "sw_inv ws" "x < dag_node_count d" "y < dag_node_count d" "\<forall>v \<in> set z. v < dag_node_count d"
  shows "\<exists>a b ws1 ws2. admg_from_dag d = Some (Inr a) \<and> dag_is_d_separated d x y z ws = Some (Inr b, ws1) \<and>
    admg_is_m_separated a x y z ws = Some (Inr b, ws2)"
proof -
  obtain a where a: "admg_from_dag d = Some (Inr a)" "admg_inv a" "admg_rel a = dag_rel d" "admg_bi a = {}"
      "admg_nodes a = dag_nodes d"
    using admg_from_dag_spec[OF assms(1)] by blast
  then have "admg_node_count a = dag_node_count d"
    by (simp add: admg_node_count_def admg_nodes_def dag_node_count_def dag_nodes_def dc_node_count_def)
  with a show ?thesis
    using dag_is_d_separated_with_spec[OF assms, of None] admg_is_m_separated_spec[OF a(2) assms(2), of x y z] assms(3-5)
    by (auto simp: dag_is_d_separated_def)
qed

theorem from_dag_keeps_separation_witness:
  "\<exists>a b ws1 ws2. admg_from_dag diamond = Some (Inr a) \<and> dag_is_d_separated diamond 1 2 [0, 3] sw_default = Some (Inr b, ws1) \<and>
    admg_is_m_separated a 1 2 [0, 3] sw_default = Some (Inr b, ws2)"
  using from_dag_keeps_separation[OF diamond(1) sw_default_inv, of 1 2 "[0, 3]"] by (simp add: diamond)

text \<open>With an endpoint in the conditioning set the ADMG witness query claims a connection by the
  two-node path from source to target, adjacent or not, where the DAG witness query refuses the
  question with an error.\<close>

theorem endpoint_conditioning_answers:
  assumes "admg_inv a" "x < admg_node_count a" "y < admg_node_count a" "\<forall>v \<in> set z. v < admg_node_count a"
    and "dag_inv d" "dag_node_count d = admg_node_count a" "x \<noteq> y" "x \<in> set z \<or> y \<in> set z"
  shows "admg_m_separation a x y z ws = Some (Inr (Connected (path_steps [x, y])), ws) \<and>
    dag_d_separation d x y z ws =
      Some (Inl (InvalidEndpoints ''d-separation witness requires conditioning disjoint from endpoints''), ws)"
proof -
  have "admg_validate_nodes a (x # y # z) = Inr ()" using assms(2-4) by (simp only: admg_validate_nodes_spec) simp
  moreover have "validate_nodes d (x # y # z) = Inr ()" using assms(2-4,6) by (intro validate_nodes_ok) simp
  ultimately show ?thesis using assms(7,8)
    by (auto simp: admg_m_separation_def dag_d_separation_def dag_d_separation_with_def)
qed

theorem endpoint_conditioning_answers_witness:
  "admg_m_separation confounded_chain 1 2 [2] sw_default = Some (Inr (Connected (path_steps [1, 2])), sw_default) \<and>
    dag_d_separation (dag_of_edges 3 []) 1 2 [2] sw_default =
      Some (Inl (InvalidEndpoints ''d-separation witness requires conditioning disjoint from endpoints''), sw_default)"
  using endpoint_conditioning_answers[OF confounded_chain(1), of 1 2 "[2]" "dag_of_edges 3 []"] dag_of_edges(2,3)[of 3 "[]"]
  by (simp add: confounded_chain id_space_def)

end
