(* ===== verification/Projection_Criterion.thy ===== *)
theory Projection_Criterion
  imports Separation_Criterion
begin

text \<open>
  Latent projection over plain relations: \<open>E\<close> holds the directed edges, \<open>Ob\<close> the observed nodes. An
  observed node is seen from another node along a directed path whose interior is latent. The main
  result is that the ball meets the same observed nodes in the graph and in its projection, which is
  what makes the projected ADMG a faithful substitute for separation queries over observed nodes.
\<close>

definition latent_step :: "('a \<times> 'a) set \<Rightarrow> 'a set \<Rightarrow> ('a \<times> 'a) set" where
  "latent_step E Ob = {(u, v) \<in> E. v \<notin> Ob}"

definition sees :: "('a \<times> 'a) set \<Rightarrow> 'a set \<Rightarrow> 'a \<Rightarrow> 'a \<Rightarrow> bool" where
  "sees E Ob u c \<longleftrightarrow> c \<in> Ob \<and> (\<exists>v. (u, v) \<in> (latent_step E Ob)\<^sup>* \<and> (v, c) \<in> E)"

definition proj_rel :: "('a \<times> 'a) set \<Rightarrow> 'a set \<Rightarrow> ('a \<times> 'a) set" where
  "proj_rel E Ob = {(u, c). u \<in> Ob \<and> sees E Ob u c}"

definition proj_bi :: "('a \<times> 'a) set \<Rightarrow> 'a set \<Rightarrow> ('a \<times> 'a) set" where
  "proj_bi E Ob = {(a, b). a \<noteq> b \<and> (\<exists>l. l \<notin> Ob \<and> sees E Ob l a \<and> sees E Ob l b)}"

lemma seesD: "sees E Ob u c \<Longrightarrow> c \<in> Ob"
  by (simp add: sees_def)

lemma sees_edge: "(u, c) \<in> E \<Longrightarrow> c \<in> Ob \<Longrightarrow> sees E Ob u c"
  by (auto simp: sees_def)

lemma sees_path: "(u, v) \<in> (latent_step E Ob)\<^sup>* \<Longrightarrow> sees E Ob v c \<Longrightarrow> sees E Ob u c"
  by (auto simp: sees_def intro: rtrancl_trans)

lemma sees_step: "(u, v) \<in> E \<Longrightarrow> v \<notin> Ob \<Longrightarrow> sees E Ob v c \<Longrightarrow> sees E Ob u c"
  by (rule sees_path[of u v]) (auto simp: latent_step_def)

lemma latent_step_sub: "latent_step E Ob \<subseteq> E"
  by (auto simp: latent_step_def)

lemma sees_trancl: "sees E Ob u c \<Longrightarrow> (u, c) \<in> E\<^sup>+"
  unfolding sees_def using rtrancl_mono[OF latent_step_sub[of E Ob]] by (meson rtrancl_into_trancl1 subsetD)

lemma proj_rel_trancl: "proj_rel E Ob \<subseteq> E\<^sup>+"
  by (auto simp: proj_rel_def dest: sees_trancl)

lemma proj_rel_rtrancl: "(u, v) \<in> (proj_rel E Ob)\<^sup>* \<Longrightarrow> (u, v) \<in> E\<^sup>*"
  using rtrancl_mono[OF proj_rel_trancl[of E Ob]] by (auto simp: trancl_rtrancl_absorb)

lemma proj_rel_acyclic: "acyclic E \<Longrightarrow> acyclic (proj_rel E Ob)"
  unfolding acyclic_def using trancl_mono[OF _ proj_rel_trancl[of E Ob]] by (metis trancl_id trans_trancl)

lemma sym_proj_bi: "sym (proj_bi E Ob)"
  by (auto simp: sym_def proj_bi_def)

text \<open>Descending to an observed node: through the first observed node on the way.\<close>

lemma descends_projected:
  assumes "(v, z) \<in> E\<^sup>*" "z \<in> Ob"
  shows "(v \<in> Ob \<longrightarrow> (v, z) \<in> (proj_rel E Ob)\<^sup>*) \<and>
    (v \<notin> Ob \<longrightarrow> (\<exists>w. sees E Ob v w \<and> (w, z) \<in> (proj_rel E Ob)\<^sup>*))"
  using assms(1)
proof (induction rule: converse_rtrancl_induct)
  case (step v w)
  have seen: "\<exists>u. sees E Ob v u \<and> (u, z) \<in> (proj_rel E Ob)\<^sup>*"
  proof (cases "w \<in> Ob")
    case True
    then show ?thesis using step sees_edge by fast
  next
    case False
    then show ?thesis using step sees_step[OF step.hyps(1)] by blast
  qed
  then show ?case by (auto simp: proj_rel_def intro: converse_rtrancl_into_rtrancl)
qed (use assms(2) in simp)

lemma ancestors_proj_sub: "ancestors (proj_rel E Ob) Z \<subseteq> ancestors E Z"
  by (auto simp: ancestors_def dest: proj_rel_rtrancl)

lemma ancestors_proj:
  assumes "Z \<subseteq> Ob" "v \<in> ancestors E Z"
  shows "v \<in> Ob \<Longrightarrow> v \<in> ancestors (proj_rel E Ob) Z"
    and "v \<notin> Ob \<Longrightarrow> \<exists>w. sees E Ob v w \<and> w \<in> ancestors (proj_rel E Ob) Z"
  using assms descends_projected[of v _ E Ob] unfolding ancestors_def by blast+

section \<open>The ball in the projection is followed in the graph\<close>

lemma ball_up_latent:
  assumes "Z \<subseteq> Ob" "(p, v) \<in> (latent_step E Ob)\<^sup>*"
  shows "((v, True), (p, True)) \<in> (ball_rel E {} Z)\<^sup>*"
  using assms(2)
proof (induction rule: rtrancl_induct)
  case (step y z)
  then have "z \<notin> Z" "(y, z) \<in> E" using assms(1) by (auto simp: latent_step_def)
  then show ?case using step.IH by (meson ball_rel_intros(1) converse_rtrancl_into_rtrancl)
qed simp

lemma ball_down_latent:
  assumes "Z \<subseteq> Ob" "(l, v) \<in> (latent_step E Ob)\<^sup>*" "l \<notin> Ob"
  shows "v \<notin> Ob \<and> ((l, False), (v, False)) \<in> (ball_rel E {} Z)\<^sup>*"
  using assms(2)
proof (induction rule: rtrancl_induct)
  case (step y z)
  then have "y \<notin> Z" "(y, z) \<in> E" "z \<notin> Ob" using assms(1) by (auto simp: latent_step_def)
  then show ?case using step.IH by (meson ball_rel_intros(4) rtrancl.rtrancl_into_rtrancl)
qed (use assms(3) in simp)

lemma ball_down_seen:
  assumes "Z \<subseteq> Ob" "sees E Ob u c" "u \<notin> Z"
  shows "((u, b), (c, False)) \<in> (ball_rel E {} Z)\<^sup>*"
proof -
  obtain v where v: "(u, v) \<in> (latent_step E Ob)\<^sup>*" "(v, c) \<in> E" using assms(2) by (auto simp: sees_def)
  have child: "((u, b), (w, False)) \<in> ball_rel E {} Z" if "(u, w) \<in> E" for w
    using that assms(3) by (cases b) (auto intro: ball_rel_intros)
  from v(1) show ?thesis
  proof (cases rule: converse_rtranclE)
    case base
    then show ?thesis using child v(2) by blast
  next
    case (step l)
    then have l: "(u, l) \<in> E" "l \<notin> Ob" by (auto simp: latent_step_def)
    have "v \<notin> Z" "((l, False), (v, False)) \<in> (ball_rel E {} Z)\<^sup>*"
      using ball_down_latent[OF assms(1) step(2) l(2)] assms(1) by auto
    then show ?thesis using child[OF l(1)] v(2)
      by (meson ball_rel_intros(4) converse_rtrancl_into_rtrancl rtrancl.rtrancl_into_rtrancl)
  qed
qed

text \<open>From a node that lets the ball up, it climbs to everything that sees the node.\<close>

lemma ball_up_seen:
  assumes "Z \<subseteq> Ob" "sees E Ob p v" "b \<and> v \<notin> Z \<or> \<not> b \<and> v \<in> ancestors E Z"
  shows "((v, b), (p, True)) \<in> (ball_rel E {} Z)\<^sup>*"
proof -
  obtain w where w: "(p, w) \<in> (latent_step E Ob)\<^sup>*" "(w, v) \<in> E" using assms(2) by (auto simp: sees_def)
  have "((v, b), (w, True)) \<in> ball_rel E {} Z" using w(2) assms(3) by (cases b) (auto intro: ball_rel_intros)
  then show ?thesis using ball_up_latent[OF assms(1) w(1)] by (rule converse_rtrancl_into_rtrancl)
qed

lemma ball_projected_followed:
  assumes "Z \<subseteq> Ob" "(s, t) \<in> (ball_rel (proj_rel E Ob) (proj_bi E Ob) Z)\<^sup>*"
  shows "(s, t) \<in> (ball_rel E {} Z)\<^sup>*"
  using assms(2)
proof (induction rule: rtrancl_induct)
  case (step s' t)
  note up = ball_up_seen[OF assms(1)] and down = ball_down_seen[OF assms(1)]
  have spouse: "((v, b), (c, False)) \<in> (ball_rel E {} Z)\<^sup>*"
    if vc: "(v, c) \<in> proj_bi E Ob" and lets: "b \<and> v \<notin> Z \<or> \<not> b \<and> v \<in> ancestors E Z" for v b c
  proof -
    obtain l where l: "l \<notin> Ob" "sees E Ob l v" "sees E Ob l c" using vc by (auto simp: proj_bi_def)
    then have "((l, True), (c, False)) \<in> (ball_rel E {} Z)\<^sup>*" using down assms(1) by blast
    with up[OF l(2) lets] show ?thesis by (rule rtrancl_trans)
  qed
  have an: "v \<in> ancestors E Z" if "v \<in> ancestors (proj_rel E Ob) Z" for v using that ancestors_proj_sub by fast
  have "ball_move (proj_rel E Ob) (proj_bi E Ob) Z s' t" using step.hyps(2) by (simp add: ball_rel_def)
  then have "(s', t) \<in> (ball_rel E {} Z)\<^sup>*"
    by (cases rule: ball_move.cases) (use up down spouse an in \<open>auto simp: proj_rel_def\<close>)
  with step.IH show ?case by (rule rtrancl_trans)
qed simp

section \<open>The ball in the graph is tracked in the projection\<close>

text \<open>
  While the ball is at an observed node the projection has it there too, possibly with the other
  mark when that lets at least as much through (\<open>touched\<close>). While it is at a latent node the
  projection remembers the observed node it left (going down) or will be able to climb from.
\<close>

abbreviation at :: "('a \<times> 'a) set \<Rightarrow> 'a set \<Rightarrow> 'a set \<Rightarrow> 'a \<Rightarrow> 'a \<Rightarrow> bool \<Rightarrow> bool" where
  "at E Ob Z x v b \<equiv> ((x, True), (v, b)) \<in> (ball_rel (proj_rel E Ob) (proj_bi E Ob) Z)\<^sup>*"

abbreviation goes_through :: "('a \<times> 'a) set \<Rightarrow> 'a set \<Rightarrow> 'a set \<Rightarrow> 'a \<Rightarrow> 'a \<Rightarrow> bool" where
  "goes_through E Ob Z x v \<equiv> through (proj_rel E Ob) (proj_bi E Ob) Z x v"

definition touched :: "('a \<times> 'a) set \<Rightarrow> 'a set \<Rightarrow> 'a set \<Rightarrow> 'a \<Rightarrow> 'a \<Rightarrow> bool" where
  "touched E Ob Z x v \<longleftrightarrow> at E Ob Z x v False \<or> v \<notin> Z \<and> at E Ob Z x v True"

definition climbing :: "('a \<times> 'a) set \<Rightarrow> 'a set \<Rightarrow> 'a set \<Rightarrow> 'a \<Rightarrow> 'a \<Rightarrow> bool" where
  "climbing E Ob Z x v \<longleftrightarrow> (if v \<in> Ob then at E Ob Z x v True
     else \<exists>u. sees E Ob v u \<and> goes_through E Ob Z x u)"

definition falling :: "('a \<times> 'a) set \<Rightarrow> 'a set \<Rightarrow> 'a set \<Rightarrow> 'a \<Rightarrow> 'a \<Rightarrow> bool" where
  "falling E Ob Z x v \<longleftrightarrow> (if v \<in> Ob then touched E Ob Z x v
     else (\<exists>u b. u \<in> Ob \<and> u \<notin> Z \<and> at E Ob Z x u b \<and> (u, v) \<in> (latent_step E Ob)\<^sup>*) \<or>
       (\<exists>u l. l \<notin> Ob \<and> sees E Ob l u \<and> goes_through E Ob Z x u \<and> (l, v) \<in> (latent_step E Ob)\<^sup>*))"

lemma through_touched: "goes_through E Ob Z x v \<Longrightarrow> touched E Ob Z x v"
  by (auto simp: through_def touched_def)

lemma touched_through: "touched E Ob Z x v \<Longrightarrow> v \<in> ancestors (proj_rel E Ob) Z \<Longrightarrow> goes_through E Ob Z x v"
  by (auto simp: through_def touched_def)

lemma at_child:
  assumes "at E Ob Z x u b" "u \<notin> Z" "u \<in> Ob" "sees E Ob u c"
  shows "at E Ob Z x c False"
proof -
  have "(u, c) \<in> proj_rel E Ob" using assms(3,4) by (simp add: proj_rel_def)
  then have "((u, b), (c, False)) \<in> ball_rel (proj_rel E Ob) (proj_bi E Ob) Z"
    using assms(2) by (cases b) (auto intro: ball_rel_intros)
  with assms(1) show ?thesis by (rule rtrancl_into_rtrancl)
qed

text \<open>A latent node that sees where the ball climbs from lets it fall on what else it sees.\<close>

lemma fork_touches:
  assumes "l \<notin> Ob" "sees E Ob l u" "goes_through E Ob Z x u" "sees E Ob l w"
  shows "touched E Ob Z x w"
proof (cases "u = w")
  case True
  then show ?thesis using assms(3) through_touched by fast
next
  case False
  then have "(u, w) \<in> proj_bi E Ob" using assms by (auto simp: proj_bi_def)
  from through_spouse[OF assms(3) this] show ?thesis by (simp add: touched_def)
qed

lemma falling_touches:
  assumes "falling E Ob Z x v" "v \<notin> Ob" "sees E Ob v w"
  shows "touched E Ob Z x w"
proof -
  consider u b where "u \<in> Ob" "u \<notin> Z" "at E Ob Z x u b" "(u, v) \<in> (latent_step E Ob)\<^sup>*"
    | u l where "l \<notin> Ob" "sees E Ob l u" "goes_through E Ob Z x u" "(l, v) \<in> (latent_step E Ob)\<^sup>*"
    using assms(1,2) by (auto simp: falling_def)
  then show ?thesis
  proof cases
    case 1
    then have "at E Ob Z x w False" using at_child[OF 1(3,2,1)] sees_path[OF 1(4) assms(3)] by blast
    then show ?thesis by (simp add: touched_def)
  next
    case 2
    then show ?thesis using fork_touches[OF 2(1-3)] sees_path[OF 2(4) assms(3)] by blast
  qed
qed

lemma falling_extends:
  assumes "falling E Ob Z x v" "v \<notin> Ob" "(v, c) \<in> E" "c \<notin> Ob"
  shows "falling E Ob Z x c"
proof -
  have step: "(v, c) \<in> latent_step E Ob" using assms(3,4) by (simp add: latent_step_def)
  have "(u, c) \<in> (latent_step E Ob)\<^sup>*" if "(u, v) \<in> (latent_step E Ob)\<^sup>*" for u
    using that step by (rule rtrancl_into_rtrancl)
  then show ?thesis using assms(1,2,4) unfolding falling_def by (simp split: if_splits) blast
qed

text \<open>Climbing from an observed node that lets the ball through to whatever sees it.\<close>

lemma through_climbs:
  assumes "goes_through E Ob Z x u" "sees E Ob p u"
  shows "climbing E Ob Z x p"
proof (cases "p \<in> Ob")
  case True
  then have "(p, u) \<in> proj_rel E Ob" using assms(2) by (simp add: proj_rel_def)
  from through_parent[OF assms(1) this] show ?thesis using True by (simp add: climbing_def)
qed (use assms in \<open>auto simp: climbing_def\<close>)

lemma leaves_observed:
  assumes "at E Ob Z x v b" "v \<in> Ob" "v \<notin> Z" "(v, c) \<in> E"
  shows "falling E Ob Z x c"
proof (cases "c \<in> Ob")
  case True
  then show ?thesis using at_child[OF assms(1,3,2) sees_edge[OF assms(4)]] by (simp add: falling_def touched_def)
next
  case False
  then have "(v, c) \<in> (latent_step E Ob)\<^sup>*" using assms(4) by (auto simp: latent_step_def)
  then show ?thesis using False assms(1-3) by (auto simp: falling_def)
qed

lemma tracked_move:
  assumes "Z \<subseteq> Ob" "ball_move E {} Z (v, b) (w, c)" "if b then climbing E Ob Z x v else falling E Ob Z x v"
  shows "if c then climbing E Ob Z x w else falling E Ob Z x w"
  using assms(2)
proof (cases rule: ball_move.cases)
  case up_parent
  then have v: "climbing E Ob Z x v" "v \<notin> Z" "(w, v) \<in> E" "c" using assms(3) by simp_all
  show ?thesis
  proof (cases "v \<in> Ob")
    case True
    then have "goes_through E Ob Z x v" using v by (simp add: climbing_def through_def)
    then show ?thesis using through_climbs sees_edge[OF v(3) True] v(4) by fastforce
  next
    case False
    then obtain u where "sees E Ob v u" "goes_through E Ob Z x u" using v(1) by (auto simp: climbing_def)
    then show ?thesis using through_climbs sees_step[OF v(3) False] v(4) by fastforce
  qed
next
  case up_child
  then have v: "climbing E Ob Z x v" "v \<notin> Z" "(v, w) \<in> E" "\<not> c" using assms(3) by simp_all
  show ?thesis
  proof (cases "v \<in> Ob")
    case True
    then show ?thesis using leaves_observed[OF _ True v(2,3)] v(1,4) by (simp add: climbing_def)
  next
    case False
    then obtain u where u: "sees E Ob v u" "goes_through E Ob Z x u" using v(1) by (auto simp: climbing_def)
    show ?thesis
    proof (cases "w \<in> Ob")
      case True
      then show ?thesis using fork_touches[OF False u sees_edge[OF v(3)]] v(4) by (simp add: falling_def)
    next
      case w: False
      then have "(v, w) \<in> (latent_step E Ob)\<^sup>*" using v(3) by (auto simp: latent_step_def)
      then show ?thesis using u False w v(4) by (auto simp: falling_def)
    qed
  qed
next
  case down_child
  then have v: "falling E Ob Z x v" "v \<notin> Z" "(v, w) \<in> E" "\<not> c" using assms(3) by simp_all
  show ?thesis
  proof (cases "v \<in> Ob")
    case True
    then obtain b' where "at E Ob Z x v b'" using v(1) by (auto simp: falling_def touched_def)
    then show ?thesis using leaves_observed[OF _ True v(2,3)] v(4) by simp
  next
    case False
    then show ?thesis using falling_touches[OF v(1) False sees_edge[OF v(3)]] falling_extends[OF v(1) False v(3)] v(4)
      by (cases "w \<in> Ob") (simp_all add: falling_def)
  qed
next
  case down_parent
  then have v: "falling E Ob Z x v" "v \<in> ancestors E Z" "(w, v) \<in> E" "c" using assms(3) by simp_all
  have "\<exists>u. sees E Ob w u \<and> goes_through E Ob Z x u"
  proof (cases "v \<in> Ob")
    case True
    then have "goes_through E Ob Z x v"
      using touched_through v(1) ancestors_proj(1)[OF assms(1) v(2) True] by (simp add: falling_def)
    then show ?thesis using sees_edge[OF v(3) True] by blast
  next
    case False
    obtain u where u: "sees E Ob v u" "u \<in> ancestors (proj_rel E Ob) Z"
      using ancestors_proj(2)[OF assms(1) v(2) False] by blast
    have "goes_through E Ob Z x u" using touched_through[OF falling_touches[OF v(1) False u(1)] u(2)] .
    then show ?thesis using sees_step[OF v(3) False u(1)] by blast
  qed
  then show ?thesis using through_climbs v(4) by fastforce
qed simp_all

lemma ball_graph_tracked:
  assumes "Z \<subseteq> Ob" "x \<in> Ob" "((x, True), (v, b)) \<in> (ball_rel E {} Z)\<^sup>*"
  shows "if b then climbing E Ob Z x v else falling E Ob Z x v"
  using assms(3)
proof (induction rule: rtrancl_induct2)
  case refl
  then show ?case using assms(2) by (simp add: climbing_def)
next
  case (step v b w c)
  then show ?case using tracked_move[OF assms(1), of E v b w c x] by (simp add: ball_rel_def)
qed

theorem projection_keeps_ball:
  assumes "Z \<subseteq> Ob" "x \<in> Ob" "y \<in> Ob"
  shows "ball_connected (proj_rel E Ob) (proj_bi E Ob) Z x y \<longleftrightarrow> ball_connected E {} Z x y"
proof
  assume "ball_connected (proj_rel E Ob) (proj_bi E Ob) Z x y"
  then show "ball_connected E {} Z x y" unfolding ball_connected_def using ball_projected_followed[OF assms(1)] by blast
next
  assume "ball_connected E {} Z x y"
  then obtain b where "((x, True), (y, b)) \<in> (ball_rel E {} Z)\<^sup>*" by (auto simp: ball_connected_def)
  from ball_graph_tracked[OF assms(1,2) this] show "ball_connected (proj_rel E Ob) (proj_bi E Ob) Z x y"
    using assms(3) by (auto simp: climbing_def falling_def touched_def ball_connected_def split: if_splits)
qed

section \<open>Renaming\<close>

text \<open>The projected graph numbers the observed nodes by their position.\<close>

lemma ancestors_rename:
  assumes "inj_on f A" "E \<subseteq> A \<times> A" "Z \<subseteq> A" "v \<in> A"
  shows "f v \<in> ancestors (map_prod f f ` E) (f ` Z) \<longleftrightarrow> v \<in> ancestors E Z"
proof
  assume "f v \<in> ancestors (map_prod f f ` E) (f ` Z)"
  then obtain z where z: "(f v, z) \<in> (map_prod f f ` E)\<^sup>*" "z \<in> f ` Z" by (auto simp: ancestors_def)
  from z(1) have "\<exists>w \<in> A. z = f w \<and> (v, w) \<in> E\<^sup>*"
  proof (induction rule: rtrancl_induct)
    case (step y z)
    then obtain w where w: "w \<in> A" "y = f w" "(v, w) \<in> E\<^sup>*" by blast
    obtain a c where ac: "(a, c) \<in> E" "y = f a" "z = f c" using step.hyps(2) by auto
    then have "a = w" "c \<in> A" using w assms(1,2) by (auto dest: inj_onD)
    then show ?case using w ac by (auto intro: rtrancl_into_rtrancl)
  qed (use assms(4) in auto)
  then show "v \<in> ancestors E Z" using z(2) assms(1,3) by (auto simp: ancestors_def dest: inj_onD)
next
  have keep: "(f v, f z) \<in> (map_prod f f ` E)\<^sup>*" if "(v, z) \<in> E\<^sup>*" for z
    using that by (induction rule: rtrancl_induct) (auto intro: rtrancl_into_rtrancl)
  assume "v \<in> ancestors E Z"
  then show "f v \<in> ancestors (map_prod f f ` E) (f ` Z)" using keep by (auto simp: ancestors_def)
qed

lemma ball_connected_rename:
  assumes "inj_on f A" "E \<subseteq> A \<times> A" "B \<subseteq> A \<times> A" "Z \<subseteq> A" "x \<in> A" "y \<in> A"
  shows "ball_connected (map_prod f f ` E) (map_prod f f ` B) (f ` Z) (f x) (f y) \<longleftrightarrow> ball_connected E B Z x y"
proof -
  let ?R = "ball_rel (map_prod f f ` E) (map_prod f f ` B) (f ` Z)"
  have memZ: "f v \<in> f ` Z \<longleftrightarrow> v \<in> Z" if "v \<in> A" for v using that assms(1,4) by (auto dest: inj_onD)
  have memE: "(f u, f v) \<in> map_prod f f ` E \<longleftrightarrow> (u, v) \<in> E" if "u \<in> A" "v \<in> A" for u v
    using that assms(1,2) by (auto dest: inj_onD)
  have memB: "(f u, f v) \<in> map_prod f f ` B \<longleftrightarrow> (u, v) \<in> B" if "u \<in> A" "v \<in> A" for u v
    using that assms(1,3) by (auto dest: inj_onD)
  note an = ancestors_rename[OF assms(1,2,4)]
  have move: "((f v, b), (f w, c)) \<in> ?R \<longleftrightarrow> ((v, b), (w, c)) \<in> ball_rel E B Z" if "v \<in> A" "w \<in> A" for v b w c
    using memZ[OF that(1)] memE[OF that] memE[OF that(2,1)] memB[OF that] an[OF that(1)]
    by (cases b) (simp_all add: ball_rel_def ball_move_up ball_move_down)
  have there: "w \<in> A" if "((v, b), (w, c)) \<in> ball_rel E B Z" "v \<in> A" for v b w c
    using that assms(2,3) by (cases b) (auto simp: ball_rel_def ball_move_up ball_move_down)
  have lift: "v \<in> A \<and> ((f x, True), (f v, b)) \<in> ?R\<^sup>*" if "((x, True), (v, b)) \<in> (ball_rel E B Z)\<^sup>*" for v b
    using that
  proof (induction rule: rtrancl_induct2)
    case (step v b w c)
    then show ?case using there[OF step.hyps(2)] move[of v w b c] by (auto intro: rtrancl_into_rtrancl)
  qed (use assms(5) in simp)
  have image: "w \<in> f ` A" if "((f v, b), (w, c)) \<in> ?R" "v \<in> A" for v b w c
    using that assms(2,3) by (cases b) (auto simp: ball_rel_def ball_move_up ball_move_down)
  have pull: "\<exists>v \<in> A. u = f v \<and> ((x, True), (v, b)) \<in> (ball_rel E B Z)\<^sup>*" if "((f x, True), (u, b)) \<in> ?R\<^sup>*" for u b
    using that
  proof (induction rule: rtrancl_induct2)
    case (step u b w c)
    then obtain v where v: "v \<in> A" "u = f v" "((x, True), (v, b)) \<in> (ball_rel E B Z)\<^sup>*" by blast
    obtain w' where w': "w' \<in> A" "w = f w'" using image[of v b w c] step.hyps(2) v(1,2) by auto
    have "((v, b), (w', c)) \<in> ball_rel E B Z" using move[OF v(1) w'(1)] step.hyps(2) v(2) w'(2) by simp
    then show ?case using v(3) w' by (auto intro: rtrancl_into_rtrancl)
  qed (use assms(5) in auto)
  show ?thesis
  proof
    assume "ball_connected (map_prod f f ` E) (map_prod f f ` B) (f ` Z) (f x) (f y)"
    then obtain b where "((f x, True), (f y, b)) \<in> ?R\<^sup>*" by (auto simp: ball_connected_def)
    from pull[OF this] assms(1,6) show "ball_connected E B Z x y" by (auto simp: ball_connected_def dest: inj_onD)
  qed (use lift in \<open>auto simp: ball_connected_def\<close>)
qed

end
