(* ===== verification/Projection.thy ===== *)
theory Projection
  imports Projection_Criterion Dag_Separation Admg_Separation
begin

text \<open>
  \<open>projection.rs\<close>: the latent projection of a DAG onto an observed subset and the check that its
  separations agree. One search per source walks through latent nodes only; the loops over positions
  are lists of calls in order.
\<close>

section \<open>The latent-only search\<close>

fun lat_scan ::
  "bitset \<Rightarrow> dense_id option list \<Rightarrow> dense_id list \<Rightarrow> graph_workspace \<Rightarrow> bitset \<Rightarrow>
    ((graph_error + unit) \<times> graph_workspace \<times> bitset) option" where
  "lat_scan observed pos [] ws out = Some (Inr (), ws, out)"
| "lat_scan observed pos (c # cs) ws out =
     (if bs_contains observed c then
        (if c \<ge> length pos then None
         else (case pos ! c of
                 None \<Rightarrow> Some (Inl (UnknownNode c), ws, out)
               | Some p \<Rightarrow> (case bs_insert out p of None \<Rightarrow> None | Some out' \<Rightarrow> lat_scan observed pos cs ws out')))
      else if \<not> bs_contains (ws_visited ws) c then
        (case bs_insert (ws_visited ws) c of
           None \<Rightarrow> None
         | Some vis \<Rightarrow> lat_scan observed pos cs (ws\<lparr>ws_visited := vis, ws_frontier := c # ws_frontier ws\<rparr>) out)
      else lat_scan observed pos cs ws out)"

lemma lat_scan_measure: "lat_scan observed pos cs ws out = Some (r, ws', out') \<Longrightarrow> ws_measure ws' \<le> ws_measure ws"
proof (induction observed pos cs ws out rule: lat_scan.induct)
  case (2 observed pos c cs ws out)
  show ?case
  proof (cases "\<not> bs_contains observed c \<and> \<not> bs_contains (ws_visited ws) c")
    case True
    with "2.prems" obtain vis where vis: "bs_insert (ws_visited ws) c = Some vis"
      and run: "lat_scan observed pos cs (ws\<lparr>ws_visited := vis, ws_frontier := c # ws_frontier ws\<rparr>) out = Some (r, ws', out')"
      by (auto split: option.splits)
    with True "2.IH"(2)[OF _ _ vis run] ws_unseen_insert[OF vis] show ?thesis by (simp add: ws_measure_def)
  next
    case False
    with 2 show ?thesis by (auto split: if_splits option.splits)
  qed
qed simp

function lat_loop ::
  "dag \<Rightarrow> bitset \<Rightarrow> dense_id option list \<Rightarrow> graph_workspace \<Rightarrow> bitset \<Rightarrow>
    ((graph_error + unit) \<times> graph_workspace \<times> bitset) option" where
  "lat_loop d observed pos ws out =
     (case ws_frontier ws of
        [] \<Rightarrow> Some (Inr (), ws, out)
      | n # rest \<Rightarrow>
          (case lat_scan observed pos (dag_children d n) (ws\<lparr>ws_frontier := rest\<rparr>) out of
             None \<Rightarrow> None
           | Some (Inl e, ws', out') \<Rightarrow> Some (Inl e, ws', out')
           | Some (Inr _, ws', out') \<Rightarrow> lat_loop d observed pos ws' out'))"
  by pat_completeness auto
termination
  by (relation "measure (\<lambda>(d, observed, pos, ws, out). ws_measure ws)")
    (auto dest!: lat_scan_measure simp: ws_measure_def)

declare lat_loop.simps [simp del]

definition observed_reachable_via_latents ::
  "dag \<Rightarrow> dense_id \<Rightarrow> bitset \<Rightarrow> dense_id option list \<Rightarrow> graph_workspace \<Rightarrow> bitset \<Rightarrow>
    ((graph_error + unit) \<times> graph_workspace \<times> bitset) option" where
  "observed_reachable_via_latents d start observed pos ws out =
     (let ws1 = ws_prepare ws (dag_node_count d)
      in case bs_insert (ws_visited ws1) start of
           None \<Rightarrow> None
         | Some vis \<Rightarrow> lat_loop d observed pos
             (ws1\<lparr>ws_visited := vis, ws_frontier := start # ws_frontier ws1\<rparr>) (bs_clear out))"

section \<open>The projection\<close>

fun first_unknown :: "dag \<Rightarrow> dense_id list \<Rightarrow> graph_error + unit" where
  "first_unknown d [] = Inr ()"
| "first_unknown d (v # vs) = (if v \<ge> dag_node_count d then Inl (UnknownNode v) else first_unknown d vs)"

fun project_nodes :: "dag \<Rightarrow> dense_id list \<Rightarrow> bitset \<Rightarrow> admg \<Rightarrow> (graph_error + bitset \<times> admg) option" where
  "project_nodes d [] observed a = Some (Inr (observed, a))"
| "project_nodes d (v # vs) observed a =
     (if bs_contains observed v
      then Some (Inl (InvalidEndpoints ''latent projection observed nodes must be unique''))
      else (case bs_insert observed v of
              None \<Rightarrow> None
            | Some observed' \<Rightarrow>
                (if v \<ge> length (dag_nodes d) then None
                 else (case admg_add_node a (dag_nodes d ! v) of
                         (Inl e, _) \<Rightarrow> Some (Inl e)
                       | (Inr _, a') \<Rightarrow> project_nodes d vs observed' a'))))"

fun position_map :: "nat \<Rightarrow> dense_id list \<Rightarrow> dense_id option list \<Rightarrow> (graph_error + dense_id option list) option" where
  "position_map i [] pos = Some (Inr pos)"
| "position_map i (v # vs) pos =
     (case try_from_usize i of
        Inl e \<Rightarrow> Some (Inl e)
      | Inr p \<Rightarrow> (if v \<ge> length pos then None else position_map (i + 1) vs (pos[v := Some p])))"

text \<open>One proposed directed edge; a cycle is refused as an incomplete projection.\<close>

definition project_directed :: "nat \<Rightarrow> bitset \<Rightarrow> nat \<Rightarrow> admg \<Rightarrow> ((graph_error + unit) \<times> admg) option" where
  "project_directed i reached j a =
     (if i = j then Some (Inr (), a)
      else case try_from_usize j of
        Inl e \<Rightarrow> Some (Inl e, a)
      | Inr to_id \<Rightarrow>
          (if \<not> bs_contains reached to_id then Some (Inr (), a)
           else (case rbind (try_from_usize i) (\<lambda>src. rbind (try_from_usize j) (\<lambda>tgt. Inr (src, tgt))) of
              Inl e \<Rightarrow> Some (Inl e, a)
            | Inr (src, tgt) \<Rightarrow>
                (case admg_insert_directed a src tgt of
                   None \<Rightarrow> None
                 | Some (Inr _, a') \<Rightarrow> Some (Inr (), a')
                 | Some (Inl (DuplicateEdge _ _), a') \<Rightarrow> Some (Inr (), a')
                 | Some (Inl (Cycle _ _), a') \<Rightarrow>
                     Some (Inl (InvalidEndpoints ''latent projection directed edge conflicts with an existing path (cycle); refuse incomplete projection''), a')
                 | Some (Inl e, a') \<Rightarrow> Some (Inl e, a')))))"

definition project_source ::
  "dag \<Rightarrow> bitset \<Rightarrow> dense_id option list \<Rightarrow> nat \<Rightarrow> nat \<times> dense_id \<Rightarrow> admg \<times> graph_workspace \<times> bitset \<Rightarrow>
    ((graph_error + unit) \<times> admg \<times> graph_workspace \<times> bitset) option" where
  "project_source d observed pos k = (\<lambda>(i, u) (a, ws, reached).
     (case observed_reachable_via_latents d u observed pos ws reached of
        None \<Rightarrow> None
      | Some (Inl e, ws', reached') \<Rightarrow> Some (Inl e, a, ws', reached')
      | Some (Inr _, ws', reached') \<Rightarrow>
          map_option (\<lambda>(r, a'). (r, a', ws', reached')) (try_each (project_directed i reached') [0..<k] a)))"

fun join_members :: "dense_id list \<Rightarrow> bitset \<Rightarrow> bitset list \<Rightarrow> bitset list option" where
  "join_members [] reached joined = Some joined"
| "join_members (m # ms) reached joined =
     (if m \<ge> length joined then None
      else (case bs_union_with (joined ! m) reached of
              None \<Rightarrow> None
            | Some r \<Rightarrow> join_members ms reached (joined[m := r])))"

definition join_latent ::
  "dag \<Rightarrow> bitset \<Rightarrow> dense_id option list \<Rightarrow> nat \<Rightarrow> bitset list \<times> graph_workspace \<times> bitset \<Rightarrow>
    ((graph_error + unit) \<times> bitset list \<times> graph_workspace \<times> bitset) option" where
  "join_latent d observed pos l = (\<lambda>(joined, ws, reached).
     (case try_from_usize l of
        Inl e \<Rightarrow> Some (Inl e, joined, ws, reached)
      | Inr l_id \<Rightarrow>
          (if bs_contains observed l_id then Some (Inr (), joined, ws, reached)
           else (case observed_reachable_via_latents d l_id observed pos ws reached of
              None \<Rightarrow> None
            | Some (Inl e, ws', reached') \<Rightarrow> Some (Inl e, joined, ws', reached')
            | Some (Inr _, ws', reached') \<Rightarrow>
                (case bs_to_dense_ids reached' of
                   None \<Rightarrow> None
                 | Some ids \<Rightarrow> map_option (\<lambda>joined'. (Inr (), joined', ws', reached'))
                     (join_members ids reached' joined))))))"

definition project_bidirected :: "bitset list \<Rightarrow> nat \<times> nat \<Rightarrow> admg \<Rightarrow> ((graph_error + unit) \<times> admg) option" where
  "project_bidirected joined = (\<lambda>(i, j) a.
     (case try_from_usize j of
        Inl e \<Rightarrow> Some (Inl e, a)
      | Inr j_id \<Rightarrow>
          (if i \<ge> length joined then None
           else if \<not> bs_contains (joined ! i) j_id then Some (Inr (), a)
           else (case rbind (try_from_usize i) (\<lambda>x. rbind (try_from_usize j) (\<lambda>y. Inr (x, y))) of
              Inl e \<Rightarrow> Some (Inl e, a)
            | Inr (x, y) \<Rightarrow>
                (case admg_insert_bidirected a x y of
                   None \<Rightarrow> None
                 | Some (Inr _, a') \<Rightarrow> Some (Inr (), a')
                 | Some (Inl (DuplicateEdge _ _), a') \<Rightarrow> Some (Inr (), a')
                 | Some (Inl (Cycle _ _), a') \<Rightarrow> Some (Inr (), a')
                 | Some (Inl e, a') \<Rightarrow> Some (Inl e, a'))))))"

definition latent_project :: "dag \<Rightarrow> dense_id list \<Rightarrow> (graph_error + admg) option" where
  "latent_project d observed =
     (case first_unknown d observed of
        Inl e \<Rightarrow> Some (Inl e)
      | Inr _ \<Rightarrow>
      (case project_nodes d observed (bs_with_len (dag_node_count d)) admg_empty of
        None \<Rightarrow> None
      | Some (Inl e) \<Rightarrow> Some (Inl e)
      | Some (Inr (obs, a)) \<Rightarrow>
      (case position_map 0 observed (replicate (dag_node_count d) None) of
        None \<Rightarrow> None
      | Some (Inl e) \<Rightarrow> Some (Inl e)
      | Some (Inr pos) \<Rightarrow>
          (let k = length observed
           in case try_each (project_source d obs pos k) (enumerate 0 observed) (a, ws_default, bs_with_len k) of
                None \<Rightarrow> None
              | Some (Inl e, _) \<Rightarrow> Some (Inl e)
              | Some (Inr _, a1, ws, reached) \<Rightarrow>
                  (case try_each (join_latent d obs pos) [0..<dag_node_count d]
                          (replicate k (bs_with_len k), ws, reached) of
                     None \<Rightarrow> None
                   | Some (Inl e, _) \<Rightarrow> Some (Inl e)
                   | Some (Inr _, joined, _, _) \<Rightarrow>
                       map_option (\<lambda>(r, a2). case r of Inl e \<Rightarrow> Inl e | Inr _ \<Rightarrow> Inr a2)
                         (try_each (project_bidirected joined)
                            (concat (map (\<lambda>i. map (Pair i) [i + 1..<k]) [0..<k])) a1))))))"

text \<open>The two workspaces and the comparison, query by query; the first disagreement ends the loop.\<close>

definition projected_position :: "dense_id option list \<Rightarrow> dense_id \<Rightarrow> (graph_error + dense_id) option" where
  "projected_position pos v =
     (if v \<ge> length pos then None
      else Some (case pos ! v of None \<Rightarrow> Inl (UnknownNode v) | Some p \<Rightarrow> Inr p))"

fun projected_positions :: "dense_id option list \<Rightarrow> dense_id list \<Rightarrow> (graph_error + dense_id list) option" where
  "projected_positions pos [] = Some (Inr [])"
| "projected_positions pos (v # vs) =
     (case projected_position pos v of
        None \<Rightarrow> None
      | Some (Inl e) \<Rightarrow> Some (Inl e)
      | Some (Inr p) \<Rightarrow> map_option (\<lambda>r. rbind r (\<lambda>ps. Inr (p # ps))) (projected_positions pos vs))"

fun compare_queries ::
  "dag \<Rightarrow> admg \<Rightarrow> dense_id option list \<Rightarrow> (dense_id \<times> dense_id \<times> dense_id list) list \<Rightarrow>
    dsep_workspace \<Rightarrow> dsep_workspace \<Rightarrow> (graph_error + bool) option" where
  "compare_queries d a pos [] dws mws = Some (Inr True)"
| "compare_queries d a pos ((x, y, z) # qs) dws mws =
     (case dag_is_d_separated d x y z dws of
        None \<Rightarrow> None
      | Some (Inl e, _) \<Rightarrow> Some (Inl e)
      | Some (Inr dx, dws') \<Rightarrow>
      (case projected_position pos x of
        None \<Rightarrow> None
      | Some (Inl e) \<Rightarrow> Some (Inl e)
      | Some (Inr mx) \<Rightarrow>
      (case projected_position pos y of
        None \<Rightarrow> None
      | Some (Inl e) \<Rightarrow> Some (Inl e)
      | Some (Inr my) \<Rightarrow>
      (case projected_positions pos z of
        None \<Rightarrow> None
      | Some (Inl e) \<Rightarrow> Some (Inl e)
      | Some (Inr mz) \<Rightarrow>
      (case admg_is_m_separated a mx my mz mws of
        None \<Rightarrow> None
      | Some (Inl e, _) \<Rightarrow> Some (Inl e)
      | Some (Inr sep, mws') \<Rightarrow>
          (if dx \<noteq> sep then Some (Inr False) else compare_queries d a pos qs dws' mws'))))))"

definition projection_preserves_msep_sample ::
  "dag \<Rightarrow> dense_id list \<Rightarrow> (dense_id \<times> dense_id \<times> dense_id list) list \<Rightarrow> (graph_error + bool) option" where
  "projection_preserves_msep_sample d observed queries =
     (case latent_project d observed of
        None \<Rightarrow> None
      | Some (Inl e) \<Rightarrow> Some (Inl e)
      | Some (Inr a) \<Rightarrow>
          (case position_map 0 observed (replicate (dag_node_count d) None) of
             None \<Rightarrow> None
           | Some (Inl e) \<Rightarrow> Some (Inl e)
           | Some (Inr pos) \<Rightarrow> compare_queries d a pos queries sw_default sw_default))"

section \<open>What the searches find\<close>

definition positions :: "dense_id list \<Rightarrow> dense_id set \<Rightarrow> nat set" where
  "positions observed S = {i. i < length observed \<and> observed ! i \<in> S}"

text \<open>The tables of one projection: the observed ids as a set and their positions.\<close>

definition proj_tables :: "dag \<Rightarrow> dense_id list \<Rightarrow> bitset \<Rightarrow> dense_id option list \<Rightarrow> bool" where
  "proj_tables d observed obs pos \<longleftrightarrow> distinct observed \<and> bs_inv obs \<and> bs_members obs = set observed \<and>
     length pos = dag_node_count d \<and> (\<forall>i < length observed. pos ! (observed ! i) = Some i)"

lemma lat_scan_spec:
  assumes "proj_tables d observed obs pos" "\<forall>c \<in> set cs. c < dag_node_count d" "ws_inv ws"
    "bs_len (ws_visited ws) = dag_node_count d" "bs_inv out" "bs_len out = length observed"
  shows "\<exists>ws' out'. lat_scan obs pos cs ws out = Some (Inr (), ws', out') \<and> ws_inv ws' \<and>
    bs_len (ws_visited ws') = dag_node_count d \<and> bs_inv out' \<and> bs_len out' = length observed \<and>
    bs_members (ws_visited ws') = bs_members (ws_visited ws) \<union> (set cs - set observed) \<and>
    set (ws_frontier ws') = set (ws_frontier ws) \<union> (set cs - set observed - bs_members (ws_visited ws)) \<and>
    bs_members out' = bs_members out \<union> positions observed (set cs)"
  using assms(2-6)
proof (induction cs arbitrary: ws out)
  case (Cons c cs)
  have obs: "bs_contains obs v \<longleftrightarrow> v \<in> set observed" for v
    using assms(1) by (simp add: proj_tables_def bs_contains_members)
  have n: "c < dag_node_count d" "\<forall>c \<in> set cs. c < dag_node_count d" using Cons.prems(1) by simp_all
  consider i where "i < length observed" "c = observed ! i" | "c \<notin> set observed" "c \<notin> bs_members (ws_visited ws)"
    | "c \<notin> set observed" "c \<in> bs_members (ws_visited ws)" by (auto simp: in_set_conv_nth)
  then show ?case
  proof cases
    case 1
    have pos: "pos ! c = Some i" "c < length pos" "positions observed (insert c S) = insert i (positions observed S)" for S
      using assms(1) 1 n(1) by (auto simp: proj_tables_def positions_def nth_eq_iff_index_eq)
    obtain o1 where o1: "bs_insert out i = Some o1" "bs_inv o1" "bs_members o1 = insert i (bs_members out)"
        "bs_len o1 = bs_len out"
      using bs.ins_step[OF Cons.prems(4), of i] 1(1) Cons.prems(5) by auto
    have c: "c \<in> set observed" using 1 by simp
    then have "lat_scan obs pos (c # cs) ws out = lat_scan obs pos cs ws o1" using pos o1(1) obs by simp
    then show ?thesis using Cons.IH[OF n(2) Cons.prems(2,3) o1(2)] o1(3,4) Cons.prems(5) pos(3) c by auto
  next
    case 2
    obtain vis where vis: "bs_insert (ws_visited ws) c = Some vis" "bs_inv vis"
        "bs_members vis = insert c (bs_members (ws_visited ws))" "bs_len vis = dag_node_count d"
      using bs.ins_step[of "ws_visited ws" c] Cons.prems(2,3) n(1) by (auto simp: ws_inv_def)
    let ?ws = "ws\<lparr>ws_visited := vis, ws_frontier := c # ws_frontier ws\<rparr>"
    have skip: "positions observed (insert c S) = positions observed S" for S
      using 2(1) by (auto simp: positions_def)
    have "lat_scan obs pos (c # cs) ws out = lat_scan obs pos cs ?ws out"
      using 2 vis(1) obs by (simp add: bs_contains_members)
    then show ?thesis using Cons.IH[OF n(2), of ?ws out] vis Cons.prems(4,5) 2 skip by (auto simp: ws_inv_def)
  next
    case 3
    have skip: "positions observed (insert c S) = positions observed S" for S
      using 3(1) by (auto simp: positions_def)
    have "lat_scan obs pos (c # cs) ws out = lat_scan obs pos cs ws out"
      using 3 obs by (simp add: bs_contains_members)
    then show ?thesis using Cons.IH[OF n(2) Cons.prems(2-5)] 3 skip by auto
  qed
qed (simp add: positions_def)

lemma lat_loop_spec:
  assumes "dag_inv d" "proj_tables d observed obs pos" "ws_inv ws" "bs_len (ws_visited ws) = dag_node_count d"
    "bs_inv out" "bs_len out = length observed"
    "worklist (latent_step (dag_rel d) (set observed)) S (bs_members (ws_visited ws)) (set (ws_frontier ws))"
    "positions observed (dag_rel d `` (bs_members (ws_visited ws) - set (ws_frontier ws))) \<subseteq> bs_members out"
    "bs_members out \<subseteq> positions observed (dag_rel d `` bs_members (ws_visited ws))"
  shows "\<exists>ws' out'. lat_loop d obs pos ws out = Some (Inr (), ws', out') \<and> ws_inv ws' \<and> bs_inv out' \<and>
    bs_len out' = length observed \<and>
    bs_members out' = positions observed (dag_rel d `` ((latent_step (dag_rel d) (set observed))\<^sup>* `` S))"
  using assms(3-9)
proof (induction "ws_measure ws" arbitrary: ws out rule: less_induct)
  case less
  let ?E = "latent_step (dag_rel d) (set observed)" and ?V = "bs_members (ws_visited ws)"
  show ?case
  proof (cases "ws_frontier ws")
    case Nil
    then have "?V = ?E\<^sup>* `` S" using less.prems(5) by (simp add: worklist_done)
    moreover have "bs_members out = positions observed (dag_rel d `` ?V)" using less.prems(6,7) Nil by auto
    ultimately show ?thesis using less.prems(1,3,4) Nil by (simp add: lat_loop.simps[of _ _ _ ws])
  next
    case (Cons u rest)
    let ?ws = "ws\<lparr>ws_frontier := rest\<rparr>" and ?ch = "dag_rel d `` {u}"
    have u: "u \<in> ?V" using less.prems(5) Cons by (auto simp: worklist_def)
    have ch: "set (dag_children d u) = ?ch" by (auto simp: in_dag_children)
    have range: "\<forall>c \<in> set (dag_children d u). c < dag_node_count d"
      using dag_rel_bound[OF assms(1)] by (auto simp: in_dag_children)
    obtain ws' out' where sc: "lat_scan obs pos (dag_children d u) ?ws out = Some (Inr (), ws', out')" "ws_inv ws'"
        "bs_len (ws_visited ws') = dag_node_count d" "bs_inv out'" "bs_len out' = length observed"
        "bs_members (ws_visited ws') = ?V \<union> (?ch - set observed)"
        "set (ws_frontier ws') = set rest \<union> (?ch - set observed - ?V)"
        "bs_members out' = bs_members out \<union> positions observed ?ch"
      using lat_scan_spec[OF assms(2) range, of ?ws out] less.prems(1-4) ch by (auto simp: ws_inv_def)
    have meas: "ws_measure ws' < ws_measure ws"
      using lat_scan_measure[OF sc(1)] Cons by (simp add: ws_measure_def)
    have wl: "worklist ?E S (bs_members (ws_visited ws')) (set (ws_frontier ws'))"
    proof -
      have "worklist ?E S (?V \<union> (?ch - set observed - ?V)) (set rest \<union> (?ch - set observed - ?V))"
        by (rule worklist_step[OF less.prems(5) _ _ u]) (auto simp: Cons latent_step_def)
      moreover have "?V \<union> (?ch - set observed - ?V) = bs_members (ws_visited ws')" using sc(6) by blast
      ultimately show ?thesis by (simp only: sc(7))
    qed
    have mono: "positions observed A \<subseteq> positions observed B" if "A \<subseteq> B" for A B
      using that by (auto simp: positions_def)
    have "positions observed (dag_rel d `` (bs_members (ws_visited ws') - set (ws_frontier ws'))) \<subseteq> bs_members out'"
    proof -
      have "dag_rel d `` (bs_members (ws_visited ws') - set (ws_frontier ws')) \<subseteq>
          dag_rel d `` (?V - set (ws_frontier ws)) \<union> ?ch" unfolding sc(6,7) by (auto simp: Cons)
      from mono[OF this] show ?thesis using less.prems(6) unfolding sc(8) by (auto simp: positions_def)
    qed
    moreover have "bs_members out' \<subseteq> positions observed (dag_rel d `` bs_members (ws_visited ws'))"
      using less.prems(7) u unfolding sc(6,8) by (auto simp: positions_def)
    ultimately show ?thesis
      using less.hyps[OF meas sc(2-5) wl] sc(1) Cons by (simp add: lat_loop.simps[of _ _ _ ws])
  qed
qed

lemma observed_reachable_spec:
  assumes "dag_inv d" "proj_tables d observed obs pos" "ws_inv ws" "bs_inv out" "bs_len out = length observed"
    "u < dag_node_count d"
  shows "\<exists>ws' out'. observed_reachable_via_latents d u obs pos ws out = Some (Inr (), ws', out') \<and> ws_inv ws' \<and>
    bs_inv out' \<and> bs_len out' = length observed \<and>
    bs_members out' = {i. i < length observed \<and> sees (dag_rel d) (set observed) u (observed ! i)}"
proof -
  let ?n = "dag_node_count d" and ?E = "latent_step (dag_rel d) (set observed)"
  note prep = ws_prepare(2-4)[OF assms(3), of ?n]
  obtain vis where vis: "bs_insert (ws_visited (ws_prepare ws ?n)) u = Some vis" "bs_inv vis" "bs_members vis = {u}"
      "bs_len vis = ?n"
    using bs.ins_step[OF prep(1), of u] prep(2,3) assms(6) by auto
  let ?ws = "(ws_prepare ws ?n)\<lparr>ws_visited := vis, ws_frontier := [u]\<rparr>"
  have "worklist ?E {u} (bs_members (ws_visited ?ws)) (set (ws_frontier ?ws))" using vis(3) by (simp add: worklist_init)
  then obtain ws' out' where l: "lat_loop d obs pos ?ws (bs_clear out) = Some (Inr (), ws', out')" "ws_inv ws'" "bs_inv out'"
      "bs_len out' = length observed" "bs_members out' = positions observed (dag_rel d `` (?E\<^sup>* `` {u}))"
    using lat_loop_spec[OF assms(1,2), of ?ws "bs_clear out" "{u}"] vis bs.clear_spec[OF assms(4)] assms(5)
    by (auto simp: ws_inv_def positions_def)
  have "positions observed (dag_rel d `` (?E\<^sup>* `` {u})) =
      {i. i < length observed \<and> sees (dag_rel d) (set observed) u (observed ! i)}"
    by (auto simp: positions_def sees_def)
  then show ?thesis using l vis(1) by (simp add: observed_reachable_via_latents_def Let_def)
qed

section \<open>The tables\<close>

lemma first_unknown_spec:
  "first_unknown d vs = (case find (\<lambda>v. v \<ge> dag_node_count d) vs of None \<Rightarrow> Inr () | Some v \<Rightarrow> Inl (UnknownNode v))"
  by (induction vs) auto

lemma project_nodes_spec:
  assumes "dag_inv d" "\<forall>v \<in> set vs. v < dag_node_count d" "bs_inv obs" "bs_len obs = dag_node_count d"
    "admg_edgeless ns a" "length ns + length vs \<le> id_space" "distinct vs" "set vs \<inter> bs_members obs = {}"
  shows "\<exists>obs' a'. project_nodes d vs obs a = Some (Inr (obs', a')) \<and> bs_inv obs' \<and>
    bs_members obs' = bs_members obs \<union> set vs \<and> admg_edgeless (ns @ map ((!) (dag_nodes d)) vs) a'"
  using assms(2-8)
proof (induction vs arbitrary: obs a ns)
  case (Cons v vs)
  have v: "v < length (dag_nodes d)" "v < bs_len obs" "\<not> bs_contains obs v"
    using Cons.prems(1,3,7) by (simp_all add: dag_node_count_def dag_nodes_def dc_node_count_def bs_contains_members)
  obtain o1 where o1: "bs_insert obs v = Some o1" "bs_inv o1" "bs_members o1 = insert v (bs_members obs)"
      "bs_len o1 = dag_node_count d"
    using bs.ins_step[OF Cons.prems(2) v(2)] Cons.prems(3) by metis
  have "is_static_graph_node (dag_nodes d ! v)" using assms(1) v(1) by (simp add: dag_inv_def)
  then obtain a1 where a1: "admg_add_node a (dag_nodes d ! v) = (Inr (length ns), a1)"
      "admg_edgeless (ns @ [dag_nodes d ! v]) a1"
    using admg_add_node_edgeless[OF Cons.prems(4)] Cons.prems(5) by auto
  show ?case using Cons.IH[of o1 "ns @ [dag_nodes d ! v]" a1] Cons.prems o1 a1 v by auto
qed simp

text \<open>A repeated observed node is refused.\<close>

lemma project_nodes_duplicate:
  assumes "dag_inv d" "\<forall>v \<in> set vs. v < dag_node_count d" "bs_inv obs" "bs_len obs = dag_node_count d"
    "admg_edgeless ns a" "length ns + length vs \<le> id_space" "\<not> (distinct vs \<and> set vs \<inter> bs_members obs = {})"
  shows "project_nodes d vs obs a = Some (Inl (InvalidEndpoints ''latent projection observed nodes must be unique''))"
  using assms(2-7)
proof (induction vs arbitrary: obs a ns)
  case (Cons v vs)
  show ?case
  proof (cases "bs_contains obs v")
    case False
    have v: "v < length (dag_nodes d)" "v < bs_len obs"
      using Cons.prems(1,3) by (simp_all add: dag_node_count_def dag_nodes_def dc_node_count_def)
    obtain o1 where o1: "bs_insert obs v = Some o1" "bs_inv o1" "bs_members o1 = insert v (bs_members obs)"
        "bs_len o1 = dag_node_count d"
      using bs.ins_step[OF Cons.prems(2) v(2)] Cons.prems(3) by metis
    have "is_static_graph_node (dag_nodes d ! v)" using assms(1) v(1) by (simp add: dag_inv_def)
    then obtain a1 where a1: "admg_add_node a (dag_nodes d ! v) = (Inr (length ns), a1)"
        "admg_edgeless (ns @ [dag_nodes d ! v]) a1"
      using admg_add_node_edgeless[OF Cons.prems(4)] Cons.prems(5) by auto
    have "\<not> (distinct vs \<and> set vs \<inter> bs_members o1 = {})"
      using Cons.prems(6) False o1(3) by (auto simp: bs_contains_members)
    then show ?thesis using Cons.IH[of o1 "ns @ [dag_nodes d ! v]" a1] Cons.prems(1,5) o1 a1 v False by simp
  qed simp
qed simp

lemma position_map_spec:
  assumes "distinct vs" "\<forall>v \<in> set vs. v < length pos" "i + length vs \<le> id_space"
  shows "\<exists>pos'. position_map i vs pos = Some (Inr pos') \<and> length pos' = length pos \<and>
    (\<forall>j < length vs. pos' ! (vs ! j) = Some (i + j)) \<and> (\<forall>v. v \<notin> set vs \<longrightarrow> pos' ! v = pos ! v)"
  using assms
proof (induction vs arbitrary: i pos)
  case (Cons v vs)
  obtain pos' where p: "position_map (i + 1) vs (pos[v := Some i]) = Some (Inr pos')" "length pos' = length pos"
      "\<forall>j < length vs. pos' ! (vs ! j) = Some (i + 1 + j)" "\<forall>w. w \<notin> set vs \<longrightarrow> pos' ! w = pos[v := Some i] ! w"
    using Cons.IH[of "pos[v := Some i]" "i + 1"] Cons.prems by auto
  have "pos' ! ((v # vs) ! j) = Some (i + j)" if "j < length (v # vs)" for j
    using that p(3,4) Cons.prems(1,2) by (cases j) auto
  moreover have "pos' ! w = pos ! w" if "w \<notin> set (v # vs)" for w using that p(4) by auto
  moreover have "position_map i (v # vs) pos = Some (Inr pos')"
    using p(1) Cons.prems(2,3) by (simp add: try_from_usize_def)
  ultimately show ?case using p(2) by blast
qed simp

section \<open>The directed edges\<close>

definition stage :: "node_ref list \<Rightarrow> (nat \<times> nat) set \<Rightarrow> admg \<Rightarrow> bool" where
  "stage ns R a \<longleftrightarrow> admg_inv a \<and> admg_nodes a = ns \<and> admg_rel a = R \<and> admg_bi a = {}"

lemma stage_count: "stage ns R a \<Longrightarrow> admg_node_count a = length ns"
  by (auto simp: stage_def admg_node_count_def admg_nodes_def dc_node_count_def)

lemma project_row_spec:
  assumes "acyclic F" "R \<subseteq> F" "\<forall>j \<in> set js. j < length ns" "distinct js" "i < length ns" "length ns \<le> id_space"
    "\<forall>j \<in> set js. (i, j) \<notin> R" "\<forall>j \<in> set js. bs_contains reached j \<longleftrightarrow> (i, j) \<in> F" "stage ns R a"
  shows "\<exists>a'. try_each (project_directed i reached) js a = Some (Inr (), a') \<and>
    stage ns (R \<union> {(i, j) | j. j \<in> set js \<and> (i, j) \<in> F}) a'"
  using assms(2-4,7-9)
proof (induction js arbitrary: R a)
  case (Cons j js)
  have ids: "try_from_usize i = Inr i" "try_from_usize j = Inr j"
    using Cons.prems(2) assms(5,6) by (simp_all add: try_from_usize_def)
  have noloop: "(u, u) \<notin> F" for u using assms(1) by (auto simp: acyclic_def)
  show ?case
  proof (cases "(i, j) \<in> F")
    case False
    then have "project_directed i reached j a = Some (Inr (), a)"
      using ids Cons.prems(5) by (simp add: project_directed_def)
    moreover have "R \<union> {(i, j') | j'. j' \<in> set (j # js) \<and> (i, j') \<in> F} = R \<union> {(i, j') | j'. j' \<in> set js \<and> (i, j') \<in> F}"
      using False by auto
    ultimately show ?thesis using Cons.IH[of R a] Cons.prems by simp
  next
    case True
    have a: "admg_inv a" "admg_rel a = R" "admg_node_count a = length ns"
      using Cons.prems(6) stage_count by (auto simp: stage_def)
    have "(j, i) \<notin> R\<^sup>*"
    proof
      assume "(j, i) \<in> R\<^sup>*"
      then have "(j, i) \<in> F\<^sup>*" using rtrancl_mono[OF Cons.prems(1)] by blast
      then have "(j, j) \<in> F\<^sup>+" using True by (rule rtrancl_into_trancl1)
      then show False using assms(1) by (simp add: acyclic_def)
    qed
    moreover have "(i, j) \<notin> R" using Cons.prems(4) by simp
    moreover have "i \<noteq> j" using True noloop by auto
    ultimately obtain a1 where a1: "admg_insert_directed a i j = Some (Inr (), a1)" "admg_inv a1"
        "admg_rel a1 = insert (i, j) R" "ad_bidirected a1 = ad_bidirected a" "admg_nodes a1 = admg_nodes a"
      using admg_insert_directed_cases[OF a(1), of i j] a(2,3) assms(5) Cons.prems(2) by (metis list.set_intros(1))
    have st: "stage ns (insert (i, j) R) a1" using a1(2-5) Cons.prems(6) by (simp add: stage_def admg_bi_def)
    have "project_directed i reached j a = Some (Inr (), a1)"
      using ids Cons.prems(5) True a1(1) \<open>i \<noteq> j\<close> by (simp add: project_directed_def)
    moreover have "R \<union> {(i, j') | j'. j' \<in> set (j # js) \<and> (i, j') \<in> F} =
        insert (i, j) R \<union> {(i, j') | j'. j' \<in> set js \<and> (i, j') \<in> F}" using True by auto
    moreover have "\<forall>j' \<in> set js. (i, j') \<notin> insert (i, j) R" using Cons.prems(3,4) by auto
    ultimately show ?thesis using Cons.IH[of "insert (i, j) R" a1] Cons.prems True st by simp
  qed
qed simp

lemma project_sources_spec:
  assumes "dag_inv d" "proj_tables d observed obs pos" "length observed \<le> id_space" "\<forall>v \<in> set observed. v < dag_node_count d"
    and "F = {(i, j). i < length observed \<and> j < length observed \<and> sees (dag_rel d) (set observed) (observed ! i) (observed ! j)}"
    and "acyclic F" "length ns = length observed"
    and "observed = pre @ us" "stage ns {(i, j) \<in> F. i < length pre} a" "ws_inv ws" "bs_inv reached"
      "bs_len reached = length observed"
  shows "\<exists>a' ws' reached'. try_each (project_source d obs pos (length observed)) (enumerate (length pre) us) (a, ws, reached) =
      Some (Inr (), a', ws', reached') \<and> stage ns F a' \<and> ws_inv ws' \<and> bs_inv reached' \<and>
      bs_len reached' = length observed"
  using assms(8-12)
proof (induction us arbitrary: pre a ws reached)
  case Nil
  then have "{(i, j) \<in> F. i < length pre} = F" using assms(5) by auto
  then show ?case using Nil by simp
next
  case (Cons u us)
  let ?k = "length observed" and ?i = "length pre"
  have i: "?i < ?k" "observed ! ?i = u" "u < dag_node_count d"
    using Cons.prems(1) assms(4) by (auto simp: nth_append)
  obtain ws' r' where o: "observed_reachable_via_latents d u obs pos ws reached = Some (Inr (), ws', r')" "ws_inv ws'"
      "bs_inv r'" "bs_len r' = ?k" "bs_members r' = {j. j < ?k \<and> sees (dag_rel d) (set observed) u (observed ! j)}"
    using observed_reachable_spec[OF assms(1,2) Cons.prems(3-5) i(3)] by blast
  have mem: "\<forall>j \<in> set [0..<?k]. bs_contains r' j \<longleftrightarrow> (?i, j) \<in> F"
    using o(5) i(1,2) assms(5) by (simp add: bs_contains_members)
  obtain a1 where a1: "try_each (project_directed ?i r') [0..<?k] a = Some (Inr (), a1)"
      "stage ns ({(i, j) \<in> F. i < ?i} \<union> {(?i, j) | j. j \<in> set [0..<?k] \<and> (?i, j) \<in> F}) a1"
    using project_row_spec[OF assms(6), of "{(i, j) \<in> F. i < ?i}" "[0..<?k]" ns ?i r' a] assms(3,7) i(1) mem Cons.prems(2)
    by auto
  have "{(i, j) \<in> F. i < ?i} \<union> {(?i, j) | j. j \<in> set [0..<?k] \<and> (?i, j) \<in> F} = {(i, j) \<in> F. i < length (pre @ [u])}"
    using assms(5) by (auto simp: less_Suc_eq)
  then have st: "stage ns {(i, j) \<in> F. i < length (pre @ [u])} a1" using a1(2) by (simp only:)
  have "project_source d obs pos ?k (?i, u) (a, ws, reached) = Some (Inr (), a1, ws', r')"
    using o(1) a1(1) by (simp add: project_source_def)
  then show ?case using Cons.IH[of "pre @ [u]" a1 ws' r'] Cons.prems(1) st o(2-4) by simp
qed

section \<open>The bidirected edges\<close>

lemma join_members_spec:
  assumes "distinct ms" "\<forall>m \<in> set ms. m < length joined" "bs_inv reached"
    "\<forall>r \<in> set joined. bs_inv r \<and> bs_len r = bs_len reached"
  shows "\<exists>joined'. join_members ms reached joined = Some joined' \<and> length joined' = length joined \<and>
    (\<forall>r \<in> set joined'. bs_inv r \<and> bs_len r = bs_len reached) \<and>
    (\<forall>m < length joined. bs_members (joined' ! m) =
       bs_members (joined ! m) \<union> (if m \<in> set ms then bs_members reached else {}))"
  using assms
proof (induction ms arbitrary: joined)
  case (Cons m ms)
  have m: "m < length joined" "bs_inv (joined ! m)" "bs_len (joined ! m) = bs_len reached"
    using Cons.prems(2,4) nth_mem[of m joined] by simp_all
  obtain r where r: "bs_union_with (joined ! m) reached = Some r" "bs_inv r" "bs_len r = bs_len reached"
      "bs_members r = bs_members (joined ! m) \<union> bs_members reached"
    using bs_union_with[OF m(2) Cons.prems(3) m(3)] m(3) by auto
  have ok: "\<forall>x \<in> set (joined[m := r]). bs_inv x \<and> bs_len x = bs_len reached"
    using Cons.prems(4) r(2,3) set_update_subset_insert[of joined m r] by blast
  obtain joined' where j: "join_members ms reached (joined[m := r]) = Some joined'" "length joined' = length joined"
      "\<forall>x \<in> set joined'. bs_inv x \<and> bs_len x = bs_len reached"
      "\<forall>x < length joined. bs_members (joined' ! x) =
         bs_members (joined[m := r] ! x) \<union> (if x \<in> set ms then bs_members reached else {})"
    using Cons.IH[of "joined[m := r]"] Cons.prems(1-3) ok by auto
  have "bs_members (joined' ! x) = bs_members (joined ! x) \<union> (if x \<in> set (m # ms) then bs_members reached else {})"
    if "x < length joined" for x
    using that j(4) r(4) Cons.prems(1) by (cases "x = m") auto
  then show ?case using r(1) m(1) j by simp
qed simp

definition joined_by :: "dag \<Rightarrow> dense_id list \<Rightarrow> dense_id set \<Rightarrow> bitset list \<Rightarrow> bool" where
  "joined_by d observed L joined \<longleftrightarrow> length joined = length observed \<and>
     (\<forall>r \<in> set joined. bs_inv r \<and> bs_len r = length observed) \<and>
     (\<forall>i < length observed. bs_members (joined ! i) = {j. j < length observed \<and> (\<exists>l \<in> L - set observed.
        sees (dag_rel d) (set observed) l (observed ! i) \<and> sees (dag_rel d) (set observed) l (observed ! j))})"

lemma join_latents_spec:
  assumes "dag_inv d" "proj_tables d observed obs pos" "dag_node_count d \<le> id_space"
    and "\<forall>l \<in> set ls. l < dag_node_count d" "joined_by d observed L joined" "ws_inv ws" "bs_inv reached"
      "bs_len reached = length observed"
    and small: "length observed \<le> id_space"
  shows "\<exists>joined' ws' reached'. try_each (join_latent d obs pos) ls (joined, ws, reached) =
      Some (Inr (), joined', ws', reached') \<and> joined_by d observed (L \<union> set ls) joined'"
  using assms(4-8)
proof (induction ls arbitrary: L joined ws reached)
  case (Cons l ls)
  let ?k = "length observed" and ?sees = "sees (dag_rel d) (set observed) l"
  have l: "try_from_usize l = Inr l" "l < dag_node_count d"
    using Cons.prems(1) assms(3) by (simp_all add: try_from_usize_def)
  have obs: "bs_contains obs l \<longleftrightarrow> l \<in> set observed"
    using assms(2) by (simp add: proj_tables_def bs_contains_members)
  have ls: "\<forall>l \<in> set ls. l < dag_node_count d" using Cons.prems(1) by simp
  show ?case
  proof (cases "l \<in> set observed")
    case True
    then have "joined_by d observed (insert l L) joined" using Cons.prems(2) by (simp add: joined_by_def insert_Diff_if)
    moreover have "join_latent d obs pos l (joined, ws, reached) = Some (Inr (), joined, ws, reached)"
      using True l(1) obs by (simp add: join_latent_def)
    ultimately show ?thesis using Cons.IH[OF ls, of "insert l L"] Cons.prems(3-5) by simp
  next
    case False
    obtain ws' r' where o: "observed_reachable_via_latents d l obs pos ws reached = Some (Inr (), ws', r')" "ws_inv ws'"
        "bs_inv r'" "bs_len r' = ?k" "bs_members r' = {j. j < ?k \<and> ?sees (observed ! j)}"
      using observed_reachable_spec[OF assms(1,2) Cons.prems(3-5) l(2)] by blast
    note j0 = Cons.prems(2)[unfolded joined_by_def]
    note ids = bs_ids(1,2)[OF o(3)]
    have "bs_members r' \<subseteq> {..<?k}" using o(5) by auto
    note listed = bs_iter(2)[OF o(3) this small]
    obtain j1 where j1: "join_members (bs_ids r') r' joined = Some j1" "length j1 = length joined"
        "\<forall>r \<in> set j1. bs_inv r \<and> bs_len r = bs_len r'"
        "\<forall>m < length joined. bs_members (j1 ! m) =
           bs_members (joined ! m) \<union> (if m \<in> set (bs_ids r') then bs_members r' else {})"
      using join_members_spec[OF ids(2) _ o(3), of joined] j0 o(4,5) ids(1) by auto
    have "bs_members (j1 ! i) = {j. j < ?k \<and> (\<exists>l' \<in> insert l L - set observed.
        sees (dag_rel d) (set observed) l' (observed ! i) \<and> sees (dag_rel d) (set observed) l' (observed ! j))}"
      if "i < ?k" for i
      using that j0 j1(4) o(5) ids(1) False by auto
    then have "joined_by d observed (insert l L) j1" using j0 j1(2,3) o(4) by (simp add: joined_by_def)
    moreover have "join_latent d obs pos l (joined, ws, reached) = Some (Inr (), j1, ws', r')"
      using False l(1) obs o(1) j1(1) listed by (simp add: join_latent_def)
    ultimately show ?thesis using Cons.IH[OF ls, of "insert l L" j1 ws' r'] o(2-4) by simp
  qed
qed simp

lemma project_pairs_spec:
  assumes "\<forall>(i, j) \<in> set ps. i < j \<and> j < length joined" "distinct ps" "length joined \<le> id_space"
    and "admg_inv a" "admg_node_count a = length joined" "\<forall>(i, j) \<in> set ps. (i, j) \<notin> admg_bi a"
  shows "\<exists>a'. try_each (project_bidirected joined) ps a = Some (Inr (), a') \<and> admg_inv a' \<and>
    ad_directed a' = ad_directed a \<and>
    admg_bi a' = admg_bi a \<union> {(i, j). ((i, j) \<in> set ps \<and> j \<in> bs_members (joined ! i)) \<or>
      ((j, i) \<in> set ps \<and> i \<in> bs_members (joined ! j))}"
  using assms(1,2,4-6)
proof (induction ps arbitrary: a)
  case (Cons p ps)
  obtain i j where p: "p = (i, j)" by fastforce
  have ij: "i < j" "j < length joined" using Cons.prems(1) p by auto
  then have ids: "try_from_usize i = Inr i" "try_from_usize j = Inr j" using assms(3) by (simp_all add: try_from_usize_def)
  show ?case
  proof (cases "j \<in> bs_members (joined ! i)")
    case False
    then have "project_bidirected joined p a = Some (Inr (), a)"
      using ids ij p by (simp add: project_bidirected_def bs_contains_members)
    moreover have "{(x, y). ((x, y) \<in> set (p # ps) \<and> y \<in> bs_members (joined ! x)) \<or>
          ((y, x) \<in> set (p # ps) \<and> x \<in> bs_members (joined ! y))} =
        {(x, y). ((x, y) \<in> set ps \<and> y \<in> bs_members (joined ! x)) \<or> ((y, x) \<in> set ps \<and> x \<in> bs_members (joined ! y))}"
      using False p by auto
    ultimately show ?thesis using Cons.IH[of a] Cons.prems by simp
  next
    case True
    obtain r a1 where a1: "admg_insert_bidirected a i j = Some (r, a1)" "admg_inv a1" "ad_directed a1 = ad_directed a"
        "r = Inr () \<longleftrightarrow> i < admg_node_count a \<and> j < admg_node_count a \<and> i \<noteq> j \<and> (i, j) \<notin> admg_bi a"
        "r = Inr () \<longrightarrow> admg_bi a1 = admg_bi a \<union> {(i, j), (j, i)}"
      using admg_insert_bidirected_spec[OF Cons.prems(3), of i j] by blast
    have r: "r = Inr ()" "admg_bi a1 = admg_bi a \<union> {(i, j), (j, i)}"
      using a1(4,5) ij Cons.prems(4,5) p by auto
    have fresh: "\<forall>(x, y) \<in> set ps. (x, y) \<notin> admg_bi a1"
      using Cons.prems(1,2,5) p unfolding r(2) by fastforce
    have count: "admg_node_count a1 = length joined"
      using Cons.prems(4) a1(3) by (simp add: admg_node_count_def admg_nodes_def)
    have "project_bidirected joined p a = Some (Inr (), a1)"
      using ids ij p True a1(1) r(1) by (simp add: project_bidirected_def bs_contains_members)
    moreover have "admg_bi a \<union> {(x, y). ((x, y) \<in> set (p # ps) \<and> y \<in> bs_members (joined ! x)) \<or>
          ((y, x) \<in> set (p # ps) \<and> x \<in> bs_members (joined ! y))} =
        admg_bi a1 \<union> {(x, y). ((x, y) \<in> set ps \<and> y \<in> bs_members (joined ! x)) \<or>
          ((y, x) \<in> set ps \<and> x \<in> bs_members (joined ! y))}"
      using True p r(2) by auto
    ultimately show ?thesis using Cons.IH[of a1] Cons.prems(1,2) a1(2,3) count fresh by simp
  qed
qed simp

section \<open>The projection of a DAG\<close>

lemma position_pairs:
  "set (concat (map (\<lambda>i. map (Pair i) [i + 1..<k]) [0..<k])) = {(i, j). i < j \<and> j < k}"
  "distinct (concat (map (\<lambda>i. map (Pair i) [i + 1..<k]) [0..<k]))"
proof -
  show "set (concat (map (\<lambda>i. map (Pair i) [i + 1..<k]) [0..<k])) = {(i, j). i < j \<and> j < k}"
    by (force simp: image_iff)
  have "distinct (concat (map (\<lambda>i. map (Pair i) [i + 1..<k]) is))" if "distinct is" for "is"
    using that by (induction "is") (auto simp: distinct_map inj_on_def)
  then show "distinct (concat (map (\<lambda>i. map (Pair i) [i + 1..<k]) [0..<k]))" by simp
qed

definition projected :: "dag \<Rightarrow> dense_id list \<Rightarrow> admg \<Rightarrow> bool" where
  "projected d observed a \<longleftrightarrow> admg_inv a \<and> admg_nodes a = map ((!) (dag_nodes d)) observed \<and>
     admg_rel a = {(i, j). i < length observed \<and> j < length observed \<and>
       sees (dag_rel d) (set observed) (observed ! i) (observed ! j)} \<and>
     admg_bi a = {(i, j). i < length observed \<and> j < length observed \<and> i \<noteq> j \<and>
       (\<exists>l. l \<notin> set observed \<and> sees (dag_rel d) (set observed) l (observed ! i) \<and>
         sees (dag_rel d) (set observed) l (observed ! j))}"

lemma sees_range: "dag_inv d \<Longrightarrow> sees (dag_rel d) Ob l c \<Longrightarrow> l < dag_node_count d"
  using sees_trancl[of "dag_rel d" Ob l c] dag_rel_bound by (blast dest: tranclD)

lemma dag_rel_acyclic: "dag_inv d \<Longrightarrow> acyclic (dag_rel d)"
  using dag_inv_core(1)[of d] by (simp add: dc_inv_def dag_rel_def)

lemma acyclic_via:
  assumes "acyclic E" "\<And>i j. (i, j) \<in> F \<Longrightarrow> (f i, f j) \<in> E\<^sup>+"
  shows "acyclic F"
proof -
  have "(f i, f j) \<in> E\<^sup>+" if "(i, j) \<in> F\<^sup>+" for i j
    using that by (induction rule: trancl_induct) (auto intro: assms(2) trancl_trans)
  then show ?thesis using assms(1) by (auto simp: acyclic_def)
qed

text \<open>
  On a stored DAG and distinct stored nodes the projection never fails: its directed edges cannot close
  a cycle, so the refusal of an incomplete projection is unreachable.
\<close>

lemma latent_project_spec:
  assumes "dag_inv d" "distinct observed" "\<forall>v \<in> set observed. v < dag_node_count d"
  obtains a pos where "latent_project d observed = Some (Inr a)" "projected d observed a"
    "position_map 0 observed (replicate (dag_node_count d) None) = Some (Inr pos)" "length pos = dag_node_count d"
    "\<forall>i < length observed. pos ! (observed ! i) = Some i" "\<forall>v. v \<notin> set observed \<longrightarrow> v < dag_node_count d \<longrightarrow> pos ! v = None"
proof -
  let ?n = "dag_node_count d" and ?k = "length observed" and ?E = "dag_rel d" and ?O = "set observed"
  have n: "?n \<le> id_space" using dc_wfD(4)[OF dag_inv_core(2)[OF assms(1)]] by (simp add: dag_node_count_def)
  have k: "?k \<le> ?n"
  proof -
    have "?O \<subseteq> {..<?n}" using assms(3) by blast
    from card_mono[OF _ this] show ?thesis using distinct_card[OF assms(2)] by simp
  qed
  have unknown: "first_unknown d observed = Inr ()"
  proof -
    have "find (\<lambda>v. v \<ge> dag_node_count d) observed = None"
      using assms(3) by (auto simp: find_None_iff not_le)
    then show ?thesis by (simp add: first_unknown_spec)
  qed
  obtain obs a0 where nodes: "project_nodes d observed (bs_with_len ?n) admg_empty = Some (Inr (obs, a0))" "bs_inv obs"
      "bs_members obs = ?O" "admg_edgeless (map ((!) (dag_nodes d)) observed) a0"
    using project_nodes_spec[OF assms(1,3) bs_with_len(1,3) admg_empty_edgeless] k n assms(2) bs_with_len(2)
    by fastforce
  obtain pos where pos: "position_map 0 observed (replicate ?n None) = Some (Inr pos)" "length pos = ?n"
      "\<forall>i < ?k. pos ! (observed ! i) = Some i" "\<forall>v. v \<notin> ?O \<longrightarrow> pos ! v = replicate ?n None ! v"
    using position_map_spec[OF assms(2), of "replicate ?n None" 0] assms(3) k n by auto
  have tables: "proj_tables d observed obs pos"
    using assms(2) nodes(2,3) pos(2,3) by (simp add: proj_tables_def)
  let ?ns = "map ((!) (dag_nodes d)) observed"
  have static: "\<forall>m \<in> set ?ns. is_static_graph_node m"
    using assms(1,3) by (auto simp: dag_inv_def dag_node_count_def dag_nodes_def dc_node_count_def)
  define F where "F = {(i, j). i < ?k \<and> j < ?k \<and> sees ?E ?O (observed ! i) (observed ! j)}"
  have acF: "acyclic F"
    by (rule acyclic_via[OF dag_rel_acyclic[OF assms(1)], where f = "(!) observed"]) (auto simp: F_def dest: sees_trancl)
  have stage0: "stage ?ns {(i, j) \<in> F. i < length []} a0"
    using admg_edgeless_inv[OF nodes(4) _ static] k n by (simp add: stage_def)
  obtain a1 ws1 r1 where dir: "try_each (project_source d obs pos ?k) (enumerate 0 observed) (a0, ws_default, bs_with_len ?k)
        = Some (Inr (), a1, ws1, r1)" "stage ?ns F a1" "ws_inv ws1" "bs_inv r1" "bs_len r1 = ?k"
    using project_sources_spec[OF assms(1) tables _ assms(3) F_def acF, of ?ns "[]" observed a0 ws_default "bs_with_len ?k"]
      stage0 k n by (auto simp: bs_with_len)
  have "bs_members (replicate ?k (bs_with_len ?k) ! i) = {}" if "i < ?k" for i using that by (simp add: bs_with_len)
  then have j0: "joined_by d observed {} (replicate ?k (bs_with_len ?k))" by (simp add: joined_by_def bs_with_len)
  have below_n: "\<forall>l \<in> set [0..<?n]. l < ?n" by simp
  obtain joined ws2 r2 where join: "try_each (join_latent d obs pos) [0..<?n] (replicate ?k (bs_with_len ?k), ws1, r1) =
      Some (Inr (), joined, ws2, r2)" "joined_by d observed {..<?n} joined"
    using join_latents_spec[OF assms(1) tables n below_n j0 dir(3-5)] k n by (auto simp: lessThan_atLeast0)
  note j = join(2)[unfolded joined_by_def]
  let ?ps = "concat (map (\<lambda>i. map (Pair i) [i + 1..<?k]) [0..<?k])"
  have a1: "admg_inv a1" "admg_node_count a1 = length joined" "admg_bi a1 = {}"
    using dir(2) stage_count[OF dir(2)] j by (simp_all add: stage_def)
  have below: "\<forall>(i, j) \<in> set ?ps. i < j \<and> j < length joined" using j unfolding position_pairs(1) by auto
  have jk: "length joined \<le> id_space" using j k n by simp
  obtain a2 where bid: "try_each (project_bidirected joined) ?ps a1 = Some (Inr (), a2)" "admg_inv a2"
      "ad_directed a2 = ad_directed a1" "admg_bi a2 = {(i, j). ((i, j) \<in> set ?ps \<and> j \<in> bs_members (joined ! i)) \<or>
        ((j, i) \<in> set ?ps \<and> i \<in> bs_members (joined ! j))}"
    using project_pairs_spec[OF below position_pairs(2) jk a1(1,2)] a1(3) by auto
  have "admg_bi a2 = {(i, j). i < ?k \<and> j < ?k \<and> i \<noteq> j \<and>
      (\<exists>l. l \<notin> ?O \<and> sees ?E ?O l (observed ! i) \<and> sees ?E ?O l (observed ! j))}"
  proof -
    have mem: "y \<in> bs_members (joined ! x) \<longleftrightarrow> y < ?k \<and> (\<exists>l. l \<notin> ?O \<and> sees ?E ?O l (observed ! x) \<and> sees ?E ?O l (observed ! y))"
      if "x < ?k" for x y using that j sees_range[OF assms(1)] by auto
    show ?thesis unfolding bid(4) position_pairs(1) using mem by (auto simp: nat_neq_iff)
  qed
  moreover have "admg_nodes a2 = ?ns" "admg_rel a2 = F"
    using dir(2) bid(3) by (simp_all add: stage_def admg_nodes_def admg_rel_def)
  ultimately have "projected d observed a2" using bid(2) by (simp add: projected_def F_def)
  moreover have "latent_project d observed = Some (Inr a2)"
    using unknown nodes(1) pos(1) dir(1) join(1) bid(1) by (simp add: latent_project_def Let_def)
  ultimately show thesis using that[of a2 pos] pos by simp
qed

text \<open>The refusals: the first unknown node, then a repeated one.\<close>

lemma latent_project_unknown:
  "find (\<lambda>v. v \<ge> dag_node_count d) observed = Some v \<Longrightarrow> latent_project d observed = Some (Inl (UnknownNode v))"
  by (simp add: latent_project_def first_unknown_spec)

section \<open>Separation after projection\<close>

lemma projected_connected:
  assumes "dag_inv d" "distinct observed" "projected d observed a" "i < length observed" "j < length observed"
    "\<forall>c \<in> Z. c < length observed"
  shows "ball_connected (admg_rel a) (admg_bi a) Z i j \<longleftrightarrow>
    ball_connected (dag_rel d) {} ((!) observed ` Z) (observed ! i) (observed ! j)"
proof -
  let ?k = "length observed" and ?f = "(!) observed" and ?E = "dag_rel d" and ?O = "set observed"
  have inj: "inj_on ?f {..<?k}" using assms(2) by (auto simp: inj_on_def nth_eq_iff_index_eq)
  have image: "map_prod ?f ?f ` {(i, j). i < ?k \<and> j < ?k \<and> P i j} = {(u, v). u \<in> ?O \<and> v \<in> ?O \<and> Q u v}"
    if "\<And>i j. i < ?k \<Longrightarrow> j < ?k \<Longrightarrow> P i j \<longleftrightarrow> Q (?f i) (?f j)" for P Q
  proof (intro set_eqI iffI)
    fix x assume "x \<in> {(u, v). u \<in> ?O \<and> v \<in> ?O \<and> Q u v}"
    then obtain i j where "x = (?f i, ?f j)" "i < ?k" "j < ?k" "Q (?f i) (?f j)" by (auto simp: in_set_conv_nth)
    then show "x \<in> map_prod ?f ?f ` {(i, j). i < ?k \<and> j < ?k \<and> P i j}" using that by force
  qed (use that in auto)
  have rel: "map_prod ?f ?f ` admg_rel a = proj_rel ?E ?O"
  proof -
    have "map_prod ?f ?f ` admg_rel a = {(u, v). u \<in> ?O \<and> v \<in> ?O \<and> sees ?E ?O u v}"
      using assms(3) unfolding projected_def by (simp only: image)
    then show ?thesis by (auto simp: proj_rel_def dest: seesD)
  qed
  have bi: "map_prod ?f ?f ` admg_bi a = proj_bi ?E ?O"
  proof -
    have "map_prod ?f ?f ` admg_bi a =
        {(u, v). u \<in> ?O \<and> v \<in> ?O \<and> u \<noteq> v \<and> (\<exists>l. l \<notin> ?O \<and> sees ?E ?O l u \<and> sees ?E ?O l v)}"
    proof -
      have "map_prod ?f ?f ` {(i, j). i < ?k \<and> j < ?k \<and> i \<noteq> j \<and>
            (\<exists>l. l \<notin> ?O \<and> sees ?E ?O l (?f i) \<and> sees ?E ?O l (?f j))} =
          {(u, v). u \<in> ?O \<and> v \<in> ?O \<and> u \<noteq> v \<and> (\<exists>l. l \<notin> ?O \<and> sees ?E ?O l u \<and> sees ?E ?O l v)}"
        by (rule image) (use assms(2) in \<open>simp add: nth_eq_iff_index_eq\<close>)
      then show ?thesis using assms(3) by (simp add: projected_def)
    qed
    then show ?thesis by (auto simp: proj_bi_def dest: seesD)
  qed
  have "admg_rel a \<subseteq> {..<?k} \<times> {..<?k}" "admg_bi a \<subseteq> {..<?k} \<times> {..<?k}" using assms(3) by (auto simp: projected_def)
  then have "ball_connected (admg_rel a) (admg_bi a) Z i j \<longleftrightarrow>
      ball_connected (proj_rel ?E ?O) (proj_bi ?E ?O) (?f ` Z) (?f i) (?f j)"
    using ball_connected_rename[OF inj, of "admg_rel a" "admg_bi a" Z i j] assms(4-6) unfolding rel bi by auto
  also have "\<dots> \<longleftrightarrow> ball_connected ?E {} (?f ` Z) (?f i) (?f j)"
    by (rule projection_keeps_ball) (use assms(4-6) in auto)
  finally show ?thesis .
qed

lemma projected_position_spec:
  "length pos = n \<Longrightarrow> i < length observed \<Longrightarrow> pos ! (observed ! i) = Some i \<Longrightarrow> observed ! i < n \<Longrightarrow>
    projected_position pos (observed ! i) = Some (Inr i)"
  by (simp add: projected_position_def)

lemma projected_positions_spec:
  assumes "\<forall>i < length observed. pos ! (observed ! i) = Some i" "\<forall>v \<in> set observed. v < length pos" "set z \<subseteq> set observed"
  shows "\<exists>ps. projected_positions pos z = Some (Inr ps) \<and> map ((!) observed) ps = z \<and> (\<forall>i \<in> set ps. i < length observed)"
  using assms(3)
proof (induction z)
  case (Cons v z)
  then obtain i where i: "i < length observed" "v = observed ! i" by (auto simp: in_set_conv_nth)
  then have "projected_position pos v = Some (Inr i)"
    using assms(1,2) nth_mem[OF i(1)] by (simp add: projected_position_def not_le)
  moreover obtain ps where "projected_positions pos z = Some (Inr ps)" "map ((!) observed) ps = z"
      "\<forall>i \<in> set ps. i < length observed" using Cons by auto
  ultimately show ?case using i by auto
qed simp

text \<open>The sampled check never finds a disagreement.\<close>

lemma compare_queries_agree:
  assumes "dag_inv d" "distinct observed" "\<forall>v \<in> set observed. v < dag_node_count d" "projected d observed a"
    "length pos = dag_node_count d" "\<forall>i < length observed. pos ! (observed ! i) = Some i"
    "\<forall>(x, y, z) \<in> set qs. x \<in> set observed \<and> y \<in> set observed \<and> set z \<subseteq> set observed" "sw_inv dws" "sw_inv mws"
  shows "compare_queries d a pos qs dws mws = Some (Inr True)"
  using assms(7-9)
proof (induction qs arbitrary: dws mws)
  case (Cons q qs)
  obtain x y z where q: "q = (x, y, z)" by (cases q) auto
  obtain i j where ij: "i < length observed" "x = observed ! i" "j < length observed" "y = observed ! j"
    using Cons.prems(1) q by (auto simp: in_set_conv_nth)
  have z: "set z \<subseteq> set observed" using Cons.prems(1) q by simp
  have range: "x < dag_node_count d" "y < dag_node_count d" "\<forall>v \<in> set z. v < dag_node_count d"
    using ij z assms(3) by auto
  obtain ps where ps: "projected_positions pos z = Some (Inr ps)" "map ((!) observed) ps = z" "\<forall>i \<in> set ps. i < length observed"
    using projected_positions_spec[OF assms(6) _ z] assms(3,5) by auto
  have inv: "admg_inv a" "admg_node_count a = length observed"
    using assms(4) by (auto simp: projected_def admg_node_count_def admg_nodes_def dc_node_count_def dest: arg_cong[of _ _ length])
  obtain dws' where dsep: "dag_is_d_separated d x y z dws = Some (Inr (x \<noteq> y \<and> x \<notin> set z \<and> y \<notin> set z \<and>
      \<not> ball_connected (dag_rel d) {} (set z) x y), dws')" "sw_inv dws'"
    using dag_is_d_separated_with_spec[OF assms(1) Cons.prems(2) range, of None] by (auto simp: dag_is_d_separated_def)
  obtain mws' where msep: "admg_is_m_separated a i j ps mws = Some (Inr (i \<noteq> j \<and> i \<notin> set ps \<and> j \<notin> set ps \<and>
      \<not> ball_connected (admg_rel a) (admg_bi a) (set ps) i j), mws')" "sw_inv mws'"
    using admg_is_m_separated_spec[OF inv(1) Cons.prems(3), of i j ps] inv(2) ij ps(3) by auto
  have zs: "set z = (!) observed ` set ps" using ps(2) by (metis set_map)
  have mem: "observed ! m \<in> set z \<longleftrightarrow> m \<in> set ps" if "m < length observed" for m
    using that ps(3) assms(2) unfolding zs by (auto simp: nth_eq_iff_index_eq)
  have "ball_connected (admg_rel a) (admg_bi a) (set ps) i j \<longleftrightarrow> ball_connected (dag_rel d) {} (set z) x y"
    using projected_connected[OF assms(1,2,4) ij(1,3) ps(3)] ij(2,4) zs by simp
  moreover have "x = y \<longleftrightarrow> i = j" using ij assms(2) by (simp add: nth_eq_iff_index_eq)
  ultimately have same: "(x \<noteq> y \<and> x \<notin> set z \<and> y \<notin> set z \<and> \<not> ball_connected (dag_rel d) {} (set z) x y) =
      (i \<noteq> j \<and> i \<notin> set ps \<and> j \<notin> set ps \<and> \<not> ball_connected (admg_rel a) (admg_bi a) (set ps) i j)"
    using mem ij by blast
  have "projected_position pos x = Some (Inr i)" "projected_position pos y = Some (Inr j)"
    using ij assms(3,5,6) nth_mem[OF ij(1)] nth_mem[OF ij(3)] by (simp_all add: projected_position_def not_le)
  then have "compare_queries d a pos (q # qs) dws mws = compare_queries d a pos qs dws' mws'"
    using dsep(1) msep(1) ps(1) unfolding q same by simp
  then show ?case using Cons.IH[OF _ dsep(2) msep(2)] Cons.prems(1) by simp
qed simp

end
