(* ===== verification/Projection_Properties.thy ===== *)
theory Projection_Properties
  imports Projection
begin

text \<open>
  The correctness statements of the latent projection: what graph it builds and when it refuses, and
  that separation among observed nodes is the same before and after it.
\<close>

text \<open>C21: projecting a stored DAG onto distinct stored nodes never panics and never refuses; the ADMG keeps
  the observed nodes in the given order, has a directed edge exactly where a directed path with latent
  interior leads from one observed node to another, and a bidirected edge exactly where one latent
  node leads to both. An unknown node is refused with its id, and a repeated one as not unique.\<close>

theorem latent_projection_correct:
  assumes "dag_inv d" "length observed \<le> id_space"
  shows "case find (\<lambda>v. v \<ge> dag_node_count d) observed of
      Some v \<Rightarrow> latent_project d observed = Some (Inl (UnknownNode v))
    | None \<Rightarrow>
        (if distinct observed
         then \<exists>a. latent_project d observed = Some (Inr a) \<and> admg_inv a \<and>
           admg_nodes a = map ((!) (dag_nodes d)) observed \<and>
           admg_rel a = {(i, j). i < length observed \<and> j < length observed \<and>
             sees (dag_rel d) (set observed) (observed ! i) (observed ! j)} \<and>
           admg_bi a = {(i, j). i < length observed \<and> j < length observed \<and> i \<noteq> j \<and>
             (\<exists>l. l \<notin> set observed \<and> sees (dag_rel d) (set observed) l (observed ! i) \<and>
               sees (dag_rel d) (set observed) l (observed ! j))}
         else latent_project d observed = Some (Inl (InvalidEndpoints ''latent projection observed nodes must be unique'')))"
proof (cases "find (\<lambda>v. v \<ge> dag_node_count d) observed")
  case (Some v)
  then show ?thesis by (simp add: latent_project_unknown)
next
  case None
  then have range: "\<forall>v \<in> set observed. v < dag_node_count d" by (auto simp: find_None_iff not_le)
  show ?thesis
  proof (cases "distinct observed")
    case True
    obtain a where a: "latent_project d observed = Some (Inr a)" "projected d observed a"
      by (rule latent_project_spec[OF assms(1) True range])
    show ?thesis unfolding None option.case if_P[OF True]
      by (rule exI[of _ a], rule conjI[OF a(1)], rule a(2)[unfolded projected_def])
  next
    case False
    then have "project_nodes d observed (bs_with_len (dag_node_count d)) admg_empty =
        Some (Inl (InvalidEndpoints ''latent projection observed nodes must be unique''))"
      using project_nodes_duplicate[OF assms(1) range bs_with_len(1,3) admg_empty_edgeless] assms(2) by simp
    then show ?thesis using None False by (simp add: latent_project_def first_unknown_spec)
  qed
qed

theorem latent_projection_correct_witness:
  "(\<exists>a. latent_project diamond [1, 2] = Some (Inr a) \<and> (0, 1) \<in> admg_bi a) \<and>
   latent_project diamond [1, 1] = Some (Inl (InvalidEndpoints ''latent projection observed nodes must be unique'')) \<and>
   latent_project diamond [1, 9] = Some (Inl (UnknownNode 9))"
proof -
  have small: "length [1, 2 :: nat] \<le> id_space" "length [1, 1 :: nat] \<le> id_space" "length [1, 9 :: nat] \<le> id_space"
    by (simp_all add: id_space_def)
  have "sees (dag_rel diamond) {1, 2} 0 1" "sees (dag_rel diamond) {1, 2} 0 2"
    by (rule sees_edge, simp_all add: diamond)+
  then have "\<exists>l. l \<notin> set [1, 2] \<and> sees (dag_rel diamond) (set [1, 2]) l ([1, 2] ! 0) \<and>
      sees (dag_rel diamond) (set [1, 2]) l ([1, 2] ! 1)" by (intro exI[of _ 0]) simp
  then have "\<exists>a. latent_project diamond [1, 2] = Some (Inr a) \<and> (0, 1) \<in> admg_bi a"
    using latent_projection_correct[OF diamond(1) small(1)] by (auto simp: diamond)
  then show ?thesis
    using latent_projection_correct[OF diamond(1) small(2)] latent_projection_correct[OF diamond(1) small(3)]
    by (simp add: diamond)
qed

text \<open>C10: latent projection preserves separation: the sampled comparison of d-separation in the DAG and
  m-separation in its projection, for any list of queries over observed nodes (any endpoints, any
  conditioning sets), runs without a panic or an error and never finds a disagreement.\<close>

theorem projection_preserves_separation:
  assumes "dag_inv d" "distinct observed" "\<forall>v \<in> set observed. v < dag_node_count d"
    and "\<forall>(x, y, z) \<in> set queries. x \<in> set observed \<and> y \<in> set observed \<and> set z \<subseteq> set observed"
  shows "projection_preserves_msep_sample d observed queries = Some (Inr True)"
proof -
  obtain a pos where p: "latent_project d observed = Some (Inr a)" "projected d observed a"
      "position_map 0 observed (replicate (dag_node_count d) None) = Some (Inr pos)" "length pos = dag_node_count d"
      "\<forall>i < length observed. pos ! (observed ! i) = Some i"
    using latent_project_spec[OF assms(1-3)] by metis
  have "compare_queries d a pos queries sw_default sw_default = Some (Inr True)"
    by (rule compare_queries_agree[OF assms(1-3) p(2,4,5) assms(4)]) (simp_all add: sw_default_inv)
  then show ?thesis using p(1,3) by (simp add: projection_preserves_msep_sample_def)
qed

theorem projection_preserves_separation_witness:
  "projection_preserves_msep_sample diamond [1, 2, 3] [(1, 2, []), (1, 2, [3]), (1, 3, [2])] = Some (Inr True)"
  by (rule projection_preserves_separation[OF diamond(1)]) (auto simp: diamond)

end
