(* ===== verification/Marked_Storage.thy ===== *)
theory Marked_Storage
  imports Graph_Search "HOL-Library.Product_Lexorder"
begin

text \<open>
  \<open>marked_storage.rs\<close>: the adjacency lists behind \<open>Cpdag\<close>, \<open>Pag\<close> and their temporal variants. An
  edge is stored twice, once in the row of each endpoint, with the mark at the row's own node first.

  \<open>ms_marks\<close> reads the lists as a partial map from ordered pairs to marks; \<open>ms_wf\<close> says that the
  two halves agree, and \<open>ms_inv\<close> that the definite arrows are acyclic. Every mutating operation is
  shown to be one update of the map at a pair and its mirror (\<open>set_pair\<close>), or a refusal.
\<close>

record adj_entry =
  ae_neighbor :: dense_id
  ae_at_self :: endpoint
  ae_at_neighbor :: endpoint
  ae_middle :: middle_mark

type_synonym adjacency = "adj_entry list list"

definition ae_new :: "dense_id \<Rightarrow> endpoint \<Rightarrow> endpoint \<Rightarrow> middle_mark \<Rightarrow> adj_entry" where
  "ae_new n p q m = \<lparr>ae_neighbor = n, ae_at_self = p, ae_at_neighbor = q, ae_middle = m\<rparr>"

definition ae_is_directed_out :: "adj_entry \<Rightarrow> bool" where
  "ae_is_directed_out e \<longleftrightarrow> ae_at_self e = Tail \<and> ae_at_neighbor e = Arrow"

text \<open>Both pushes index the table: an endpoint out of range panics.\<close>

definition push_marked_pair :: "adjacency \<Rightarrow> marked_edge \<Rightarrow> adjacency option" where
  "push_marked_pair adj e =
     (if me_a e < length adj \<and> me_b e < length adj then
        Some (push_row
          (push_row adj (me_a e) (ae_new (me_b e) (me_at_a e) (me_at_b e) (me_middle e)))
          (me_b e) (ae_new (me_a e) (me_at_b e) (me_at_a e) (me_middle e)))
      else None)"

definition edge_between :: "adjacency \<Rightarrow> dense_id \<Rightarrow> dense_id \<Rightarrow> marked_edge option" where
  "edge_between adj a b =
     (if a \<ge> length adj \<or> b \<ge> length adj then None
      else map_option (\<lambda>e. \<lparr>me_a = a, me_b = b, me_at_a = ae_at_self e, me_at_b = ae_at_neighbor e,
          me_middle = ae_middle e\<rparr>)
        (find (\<lambda>e. ae_neighbor e = b) (adj ! a)))"

definition directed_children :: "adjacency \<Rightarrow> dense_id \<Rightarrow> dense_id list" where
  "directed_children adj i = map ae_neighbor (filter ae_is_directed_out (row adj i))"

definition directed_parents :: "adjacency \<Rightarrow> dense_id \<Rightarrow> dense_id list" where
  "directed_parents adj i =
     map ae_neighbor (filter (\<lambda>e. ae_at_self e = Arrow \<and> ae_at_neighbor e = Tail) (row adj i))"

definition undirected_neighbors :: "adjacency \<Rightarrow> dense_id \<Rightarrow> dense_id list" where
  "undirected_neighbors adj i =
     map ae_neighbor (filter (\<lambda>e. ae_at_self e = Tail \<and> ae_at_neighbor e = Tail) (row adj i))"

definition ms_neighbors :: "adjacency \<Rightarrow> dense_id \<Rightarrow> (dense_id \<times> endpoint \<times> endpoint) list" where
  "ms_neighbors adj i = map (\<lambda>e. (ae_neighbor e, ae_at_self e, ae_at_neighbor e)) (row adj i)"

text \<open>\<open>mark as u8\<close>: the position of the constructor.\<close>

fun endpoint_code :: "endpoint \<Rightarrow> nat" where
  "endpoint_code Tail = 0"
| "endpoint_code Arrow = 1"
| "endpoint_code Circle = 2"
| "endpoint_code Conflict = 3"

definition forward_halves :: "dense_id \<Rightarrow> adj_entry \<Rightarrow> marked_edge list" where
  "forward_halves a e =
     (if a < ae_neighbor e \<or>
         a = ae_neighbor e \<and> ae_at_self e = Tail \<and> ae_at_neighbor e = Arrow
      then [\<lparr>me_a = a, me_b = ae_neighbor e, me_at_a = ae_at_self e, me_at_b = ae_at_neighbor e,
             me_middle = ae_middle e\<rparr>]
      else if a > ae_neighbor e then []
      else if ae_at_self e = Arrow \<and> ae_at_neighbor e = Tail then [me_directed (ae_neighbor e) a]
      else [])"

definition edge_sort_key :: "marked_edge \<Rightarrow> dense_id \<times> dense_id \<times> nat \<times> nat" where
  "edge_sort_key e = (me_a e, me_b e, endpoint_code (me_at_a e), endpoint_code (me_at_b e))"

text \<open>
  \<open>from_index\<close> of a row position cannot fail: the constructors refuse more than \<open>2^32\<close> rows, and
  the invariants of the graph types say so.
\<close>

definition all_marked_edges :: "adjacency \<Rightarrow> marked_edge list" where
  "all_marked_edges adj =
     remdups_adj (sort_key edge_sort_key
       (concat (map (\<lambda>i. concat (map (forward_halves i) (adj ! i))) [0..<length adj])))"

text \<open>
  \<open>reaches_directed\<close>: the inner \<open>for\<close> over the children is the loop body of \<open>bfs_reaches\<close>, with the
  children filtered from the row; rows are read with \<open>get\<close>, so an unknown id has none.
\<close>

function ms_reach_loop :: "adjacency \<Rightarrow> dense_id \<Rightarrow> graph_workspace \<Rightarrow> (bool \<times> graph_workspace) option" where
  "ms_reach_loop adj tgt ws =
     (case ws_frontier ws of
        [] \<Rightarrow> Some (False, ws)
      | u # rest \<Rightarrow>
          (case bfs_scan tgt (directed_children adj u) (ws\<lparr>ws_frontier := rest\<rparr>) of
             None \<Rightarrow> None
           | Some (found, ws') \<Rightarrow> (if found then Some (True, ws') else ms_reach_loop adj tgt ws')))"
  by pat_completeness auto
termination
  by (relation "measure (\<lambda>(adj, tgt, ws). ws_measure ws)")
    (auto dest!: bfs_scan_measure simp: ws_measure_def)

declare ms_reach_loop.simps [simp del]

definition reaches_directed ::
  "adjacency \<Rightarrow> graph_workspace \<Rightarrow> dense_id \<Rightarrow> dense_id \<Rightarrow> (bool \<times> graph_workspace) option" where
  "reaches_directed adj ws src tgt =
     (if src = tgt then Some (True, ws)
      else if src \<ge> length adj \<or> tgt \<ge> length adj then Some (False, ws)
      else (let ws1 = ws_prepare ws (length adj)
            in case bs_insert (ws_visited ws1) src of
                 None \<Rightarrow> None
               | Some vis \<Rightarrow> ms_reach_loop adj tgt
                   (ws1\<lparr>ws_visited := vis, ws_frontier := src # ws_frontier ws1\<rparr>)))"

text \<open>
  The scratch variant runs on a thread-local workspace. \<open>prepare\<close> resets it, so its content does not
  matter (\<open>reaches_directed_spec\<close> holds for every well-formed workspace); a fresh one stands for it.
\<close>

definition reaches_directed_scratch :: "adjacency \<Rightarrow> dense_id \<Rightarrow> dense_id \<Rightarrow> bool option" where
  "reaches_directed_scratch adj src tgt = map_option fst (reaches_directed adj ws_default src tgt)"

section \<open>Mutation\<close>

fun update_first :: "dense_id \<Rightarrow> (adj_entry \<Rightarrow> adj_entry) \<Rightarrow> adj_entry list \<Rightarrow> bool \<times> adj_entry list" where
  "update_first b f [] = (False, [])"
| "update_first b f (e # es) =
     (if ae_neighbor e = b then (True, f e # es)
      else (case update_first b f es of (found, es') \<Rightarrow> (found, e # es')))"

text \<open>
  Update the first entry for \<open>b\<close> in the row of \<open>a\<close>; \<open>UnknownNode a\<close> when there is none. The two
  setters do this for both halves, and the first half stays changed when the second is missing.
\<close>

definition update_half ::
  "dense_id \<Rightarrow> dense_id \<Rightarrow> (adj_entry \<Rightarrow> adj_entry) \<Rightarrow> adjacency \<Rightarrow> ((graph_error + unit) \<times> adjacency) option" where
  "update_half a b f adj =
     (if a < length adj then
        (case update_first b f (adj ! a) of
           (found, es) \<Rightarrow> Some (if found then Inr () else Inl (UnknownNode a), adj[a := es]))
      else None)"

definition ms_set_marks ::
  "adjacency \<Rightarrow> dense_id \<Rightarrow> dense_id \<Rightarrow> endpoint \<Rightarrow> endpoint \<Rightarrow> ((graph_error + unit) \<times> adjacency) option" where
  "ms_set_marks adj a b at_a at_b =
     pbind (update_half a b (\<lambda>e. e\<lparr>ae_at_self := at_a, ae_at_neighbor := at_b\<rparr>) adj)
       (\<lambda>_ adj'. update_half b a (\<lambda>e. e\<lparr>ae_at_self := at_b, ae_at_neighbor := at_a\<rparr>) adj')"

definition ms_set_middle ::
  "adjacency \<Rightarrow> dense_id \<Rightarrow> dense_id \<Rightarrow> middle_mark \<Rightarrow> ((graph_error + unit) \<times> adjacency) option" where
  "ms_set_middle adj a b m =
     pbind (update_half a b (\<lambda>e. e\<lparr>ae_middle := m\<rparr>) adj)
       (\<lambda>_ adj'. update_half b a (\<lambda>e. e\<lparr>ae_middle := m\<rparr>) adj')"

definition ms_remove_edge :: "adjacency \<Rightarrow> dense_id \<Rightarrow> dense_id \<Rightarrow> adjacency option" where
  "ms_remove_edge adj a b =
     (if a < length adj \<and> b < length adj then
        (let adj' = adj[a := filter (\<lambda>e. ae_neighbor e \<noteq> b) (adj ! a)]
         in Some (adj'[b := filter (\<lambda>e. ae_neighbor e \<noteq> a) (adj' ! b)]))
      else None)"

definition insert_marked_finish ::
  "adjacency \<Rightarrow> marked_edge \<Rightarrow> ((graph_error + unit) \<times> adjacency) option" where
  "insert_marked_finish adj e =
     (if edge_between adj (me_a e) (me_b e) \<noteq> None
      then Some (Inl (DuplicateEdge (me_a e) (me_b e)), adj)
      else (let push = map_option (\<lambda>adj'. (Inr (), adj')) (push_marked_pair adj e)
            in case parent_child e of
                 Some (src, tgt) \<Rightarrow>
                   (case reaches_directed_scratch adj tgt src of
                      None \<Rightarrow> None
                    | Some True \<Rightarrow> Some (Inl (Cycle src tgt), adj)
                    | Some False \<Rightarrow> push)
               | None \<Rightarrow> push))"

definition orient_undirected_finish ::
  "adjacency \<Rightarrow> dense_id \<Rightarrow> dense_id \<Rightarrow> ((graph_error + unit) \<times> adjacency) option" where
  "orient_undirected_finish adj src tgt =
     (case edge_between adj src tgt of
        None \<Rightarrow> Some (Inl (UnknownNode src), adj)
      | Some edge \<Rightarrow>
          (if \<not> is_undirected edge
           then Some (Inl (InvalidEndpoints orient_undirected_message), adj)
           else (case reaches_directed_scratch adj tgt src of
                   None \<Rightarrow> None
                 | Some True \<Rightarrow> Some (Inl (Cycle src tgt), adj)
                 | Some False \<Rightarrow> ms_set_marks adj src tgt Tail Arrow)))"

definition mark_conflict_finish ::
  "adjacency \<Rightarrow> dense_id \<Rightarrow> dense_id \<Rightarrow> ((graph_error + unit) \<times> adjacency) option" where
  "mark_conflict_finish adj a b =
     (if edge_between adj a b = None then Some (Inl (UnknownNode a), adj)
      else ms_set_marks adj a b Conflict Conflict)"

definition set_marks_finish ::
  "adjacency \<Rightarrow> dense_id \<Rightarrow> dense_id \<Rightarrow> endpoint \<Rightarrow> endpoint \<Rightarrow> marked_edge \<Rightarrow>
    ((graph_error + unit) \<times> adjacency) option" where
  "set_marks_finish adj a b at_a at_b previous =
     (let edge = \<lparr>me_a = a, me_b = b, me_at_a = at_a, me_at_b = at_b, me_middle = me_middle previous\<rparr>
      in case parent_child edge of
           Some (src, tgt) \<Rightarrow>
             (case ms_remove_edge adj a b of
                None \<Rightarrow> None
              | Some adj1 \<Rightarrow>
                  (case reaches_directed_scratch adj1 tgt src of
                     None \<Rightarrow> None
                   | Some True \<Rightarrow>
                       map_option (\<lambda>adj2. (Inl (Cycle src tgt), adj2)) (push_marked_pair adj1 previous)
                   | Some False \<Rightarrow> map_option (\<lambda>adj2. (Inr (), adj2)) (push_marked_pair adj1 edge)))
         | None \<Rightarrow> ms_set_marks adj a b at_a at_b)"

section \<open>The lists as a map of marks\<close>

type_synonym marks = "endpoint \<times> endpoint \<times> middle_mark"

definition ae_marks :: "adj_entry \<Rightarrow> marks" where
  "ae_marks e = (ae_at_self e, ae_at_neighbor e, ae_middle e)"

definition swap_marks :: "marks \<Rightarrow> marks" where
  "swap_marks = (\<lambda>(p, q, m). (q, p, m))"

lemma swap_marks_simps [simp]: "swap_marks (p, q, m) = (q, p, m)" "swap_marks (swap_marks k) = k"
  by (simp_all add: swap_marks_def split: prod.split)

definition row_marks :: "adj_entry list \<Rightarrow> dense_id \<Rightarrow> marks option" where
  "row_marks r b = map_option ae_marks (find (\<lambda>e. ae_neighbor e = b) r)"

definition ms_marks :: "adjacency \<Rightarrow> dense_id \<Rightarrow> dense_id \<Rightarrow> marks option" where
  "ms_marks adj a b = row_marks (row adj a) b"

lemma row_marks_simps [simp]:
  "row_marks [] b = None"
  "row_marks (e # r) b = (if ae_neighbor e = b then Some (ae_marks e) else row_marks r b)"
  by (simp_all add: row_marks_def)

lemma row_marks_None: "row_marks r b = None \<longleftrightarrow> b \<notin> ae_neighbor ` set r"
  by (induction r) auto

lemma row_marks_entry:
  "distinct (map ae_neighbor r) \<Longrightarrow> e \<in> set r \<Longrightarrow> row_marks r (ae_neighbor e) = Some (ae_marks e)"
  by (induction r) (auto simp: image_iff)

lemma row_marks_Some: "row_marks r b = Some k \<Longrightarrow> \<exists>e \<in> set r. ae_neighbor e = b \<and> ae_marks e = k"
  by (induction r) (auto split: if_splits)

lemma row_marks_append: "row_marks (r @ [e]) b =
    (case row_marks r b of None \<Rightarrow> (if ae_neighbor e = b then Some (ae_marks e) else None) | Some k \<Rightarrow> Some k)"
  by (induction r) simp_all

lemma row_marks_filter: "row_marks (filter (\<lambda>e. ae_neighbor e \<noteq> c) r) b = (if b = c then None else row_marks r b)"
  by (induction r) auto

lemma ms_marks_bound: "ms_marks adj a b = Some k \<Longrightarrow> a < length adj"
  by (cases "a < length adj") (auto simp: ms_marks_def)

lemma ms_marks_nth: "a < length adj \<Longrightarrow> ms_marks adj a b = row_marks (adj ! a) b"
  by (simp add: ms_marks_def row_nth)

lemma edge_between_marks:
  "edge_between adj a b =
     (if b < length adj
      then map_option (\<lambda>(p, q, m). \<lparr>me_a = a, me_b = b, me_at_a = p, me_at_b = q, me_middle = m\<rparr>) (ms_marks adj a b)
      else None)"
proof (cases "a < length adj \<and> b < length adj")
  case True
  then show ?thesis
    by (simp add: edge_between_def ms_marks_nth row_marks_def option.map_comp comp_def ae_marks_def)
qed (auto simp: edge_between_def ms_marks_def)

text \<open>The directed part: the pairs with a tail at the first and an arrowhead at the second node.\<close>

definition marks_rel :: "(dense_id \<Rightarrow> dense_id \<Rightarrow> marks option) \<Rightarrow> (dense_id \<times> dense_id) set" where
  "marks_rel M = {(a, b). \<exists>m. M a b = Some (Tail, Arrow, m)}"

definition marks_sym :: "nat \<Rightarrow> (dense_id \<Rightarrow> dense_id \<Rightarrow> marks option) \<Rightarrow> bool" where
  "marks_sym n M \<longleftrightarrow>
     (\<forall>a b k. M a b = Some k \<longrightarrow> a < n \<and> b < n \<and> a \<noteq> b \<and> M b a = Some (swap_marks k))"

definition ms_rows :: "adjacency \<Rightarrow> bool" where
  "ms_rows adj \<longleftrightarrow> (\<forall>r \<in> set adj. distinct (map ae_neighbor r))"

definition ms_wf :: "adjacency \<Rightarrow> bool" where
  "ms_wf adj \<longleftrightarrow> ms_rows adj \<and> marks_sym (length adj) (ms_marks adj)"

definition ms_rel :: "adjacency \<Rightarrow> (dense_id \<times> dense_id) set" where
  "ms_rel adj = marks_rel (ms_marks adj)"

definition ms_inv :: "adjacency \<Rightarrow> bool" where
  "ms_inv adj \<longleftrightarrow> ms_wf adj \<and> acyclic (ms_rel adj)"

lemma ms_wfD [wf_simps]:
  assumes "ms_wf adj"
  shows "ms_rows adj" "marks_sym (length adj) (ms_marks adj)"
  using assms by (simp_all add: ms_wf_def)

lemma ms_inv_wf [wf_simps]: "ms_inv adj \<Longrightarrow> ms_wf adj" "ms_inv adj \<Longrightarrow> acyclic (ms_rel adj)"
  by (simp_all add: ms_inv_def)

lemma marks_symD:
  assumes "marks_sym n M" "M a b = Some k"
  shows "a < n" "b < n" "a \<noteq> b" "M b a = Some (swap_marks k)"
  using assms unfolding marks_sym_def by blast+

lemma ms_marks_append_empty [simp]: "ms_marks (adj @ [[]]) = ms_marks adj"
  by (simp add: ms_marks_def fun_eq_iff)

lemma marks_sym_mono:
  assumes "marks_sym n M" "n \<le> n'"
  shows "marks_sym n' M"
  unfolding marks_sym_def
proof (intro allI impI)
  fix a b k assume "M a b = Some k"
  note facts = marks_symD[OF assms(1) this]
  show "a < n' \<and> b < n' \<and> a \<noteq> b \<and> M b a = Some (swap_marks k)"
    using less_le_trans[OF facts(1) assms(2)] less_le_trans[OF facts(2) assms(2)] facts(3,4) by blast
qed

lemma marks_sym_None: "marks_sym n M \<Longrightarrow> M a b = None \<longleftrightarrow> M b a = None"
  by (metis marks_symD(4) not_None_eq)

lemma marks_sym_swap:
  assumes "marks_sym n M"
  shows "M b a = map_option swap_marks (M a b)"
proof (cases "M a b")
  case None
  then have "M b a = None" by (rule marks_sym_None[OF assms, THEN iffD1])
  with None show ?thesis by simp
next
  case (Some k)
  then show ?thesis using marks_symD(4)[OF assms Some] by (simp only: option.map)
qed

lemma ms_rows_row: "ms_rows adj \<Longrightarrow> distinct (map ae_neighbor (row adj i))"
  by (cases "i < length adj") (simp_all add: ms_rows_def row_nth)

lemma ms_rel_iff: "(a, b) \<in> ms_rel adj \<longleftrightarrow> (\<exists>m. ms_marks adj a b = Some (Tail, Arrow, m))"
  by (simp add: ms_rel_def marks_rel_def)

lemma ms_rel_bound: "ms_wf adj \<Longrightarrow> (a, b) \<in> ms_rel adj \<Longrightarrow> a < length adj \<and> b < length adj"
  using marks_symD(1,2)[OF ms_wfD(2)] by (auto simp: ms_rel_iff)

text \<open>The row queries read the map.\<close>

lemma ms_marks_entry:
  assumes "ms_rows adj"
  shows "ms_marks adj i b = Some k \<longleftrightarrow> (\<exists>e \<in> set (row adj i). ae_neighbor e = b \<and> ae_marks e = k)"
  using row_marks_entry[OF ms_rows_row[OF assms], of _ i] row_marks_Some[of "row adj i" b k]
  by (auto simp: ms_marks_def)

lemma row_query:
  assumes "ms_rows adj" "\<And>e. P e = Q (ae_at_self e) (ae_at_neighbor e)"
  shows "set (map ae_neighbor (filter P (row adj i))) = {b. \<exists>p q m. ms_marks adj i b = Some (p, q, m) \<and> Q p q}"
  by (auto simp: ms_marks_entry[OF assms(1)] assms(2) ae_marks_def)

lemma directed_children_set: "ms_rows adj \<Longrightarrow> set (directed_children adj i) = {b. (i, b) \<in> ms_rel adj}"
  unfolding directed_children_def
  by (subst row_query[where Q = "\<lambda>p q. p = Tail \<and> q = Arrow"]) (auto simp: ms_rel_iff ae_is_directed_out_def)

lemma directed_parents_set:
  assumes "ms_wf adj"
  shows "set (directed_parents adj i) = {b. (b, i) \<in> ms_rel adj}"
  unfolding directed_parents_def using marks_sym_swap[OF ms_wfD(2)[OF assms], of _ i]
  by (subst row_query[OF ms_wfD(1)[OF assms], where Q = "\<lambda>p q. p = Arrow \<and> q = Tail"]) (auto simp: ms_rel_iff)

lemma undirected_neighbors_set:
  "ms_rows adj \<Longrightarrow> set (undirected_neighbors adj i) = {b. \<exists>m. ms_marks adj i b = Some (Tail, Tail, m)}"
  unfolding undirected_neighbors_def
  by (subst row_query[where Q = "\<lambda>p q. p = Tail \<and> q = Tail"]) auto

lemma ms_neighbors_set:
  "ms_rows adj \<Longrightarrow> set (ms_neighbors adj i) = {(b, p, q). \<exists>m. ms_marks adj i b = Some (p, q, m)}"
  by (auto simp: ms_neighbors_def ms_marks_entry ae_marks_def image_iff)

lemma distinct_directed_children: "ms_rows adj \<Longrightarrow> distinct (directed_children adj i)"
  unfolding directed_children_def using ms_rows_row[of adj i] by (simp add: distinct_map_filter)

section \<open>Reachability along definite arrows\<close>

definition child_table :: "adjacency \<Rightarrow> dense_id list list" where
  "child_table adj = map (directed_children adj) [0..<length adj]"

lemma child_table:
  assumes "ms_wf adj"
  shows "length (child_table adj) = length adj" "row_rel (child_table adj) = ms_rel adj"
    "rows_closed (child_table adj)"
proof -
  note kids = directed_children_set[OF ms_wfD(1)[OF assms]]
  show "length (child_table adj) = length adj" by (simp add: child_table_def)
  have row: "set (row (child_table adj) u) = {b. (u, b) \<in> ms_rel adj}" for u
    using kids[of u] ms_rel_bound[OF assms, of u] by (auto simp: child_table_def row_def)
  then show "row_rel (child_table adj) = ms_rel adj" by (auto simp: row_rel_def)
  show "rows_closed (child_table adj)"
    using kids ms_rel_bound[OF assms] by (auto simp: rows_closed_def child_table_def)
qed

lemma ms_reach_loop_bfs: "bfs_loop (child_table adj) tgt ws = Some r \<Longrightarrow> ms_reach_loop adj tgt ws = Some r"
proof (induction adj tgt ws rule: ms_reach_loop.induct)
  case (1 adj tgt ws)
  show ?case
  proof (cases "ws_frontier ws")
    case Nil
    then show ?thesis using "1.prems" by (simp add: bfs_loop.simps[of _ _ ws] ms_reach_loop.simps[of _ _ ws])
  next
    case (Cons n rest)
    have n: "n < length (child_table adj)"
      using "1.prems" Cons by (simp add: bfs_loop.simps[of _ _ ws] split: if_splits)
    then have kids: "child_table adj ! n = directed_children adj n" by (simp add: child_table_def)
    obtain found ws' where scan:
      "bfs_scan tgt (directed_children adj n) (ws\<lparr>ws_frontier := rest\<rparr>) = Some (found, ws')"
      using "1.prems" Cons n kids by (auto simp: bfs_loop.simps[of _ _ ws] split: option.splits)
    show ?thesis
    proof (cases found)
      case True
      then show ?thesis using "1.prems" Cons n kids scan
        by (auto simp: bfs_loop.simps[of _ _ ws] ms_reach_loop.simps[of _ _ ws])
    next
      case False
      then have "bfs_loop (child_table adj) tgt ws' = Some r" using "1.prems" Cons n kids scan
        by (simp add: bfs_loop.simps[of _ _ ws])
      from "1.IH"[OF Cons scan refl False this] show ?thesis using Cons scan False
        by (simp add: ms_reach_loop.simps[of _ _ ws])
    qed
  qed
qed

lemma reaches_directed_spec:
  assumes "ms_wf adj" "ws_inv ws"
  shows "\<exists>ws'. reaches_directed adj ws src tgt = Some ((src, tgt) \<in> (ms_rel adj)\<^sup>*, ws') \<and> ws_inv ws'"
proof -
  note tab = child_table[OF assms(1)]
  obtain ws' where bfs: "bfs_reaches (child_table adj) src tgt ws =
      Some (src = tgt \<or> (src, tgt) \<in> (ms_rel adj)\<^sup>*, ws')" "ws_inv ws'"
    using bfs_reaches_spec[OF tab(3) assms(2), of src tgt] unfolding tab(2) by blast
  have same: "(src = tgt \<or> (src, tgt) \<in> (ms_rel adj)\<^sup>*) = ((src, tgt) \<in> (ms_rel adj)\<^sup>*)" by auto
  have "reaches_directed adj ws src tgt = Some ((src, tgt) \<in> (ms_rel adj)\<^sup>*, ws')"
    using bfs(1) unfolding same
    by (auto simp: bfs_reaches_def reaches_directed_def tab(1) Let_def dest: ms_reach_loop_bfs
        split: if_splits option.splits)
  with bfs(2) show ?thesis by blast
qed

lemma reaches_directed_scratch_spec:
  assumes "ms_wf adj"
  shows "reaches_directed_scratch adj src tgt = Some ((src, tgt) \<in> (ms_rel adj)\<^sup>*)"
  using reaches_directed_spec[OF assms ws_default_inv, of src tgt] by (auto simp: reaches_directed_scratch_def)

section \<open>Mutations update the map at one pair\<close>

definition set_pair ::
  "(dense_id \<Rightarrow> dense_id \<Rightarrow> marks option) \<Rightarrow> dense_id \<Rightarrow> dense_id \<Rightarrow> marks option \<Rightarrow>
    dense_id \<Rightarrow> dense_id \<Rightarrow> marks option" where
  "set_pair M a b k =
     (\<lambda>x y. if x = a \<and> y = b then k else if x = b \<and> y = a then map_option swap_marks k else M x y)"

lemma set_pair_sym:
  assumes "marks_sym n M" "a < n" "b < n" "a \<noteq> b"
  shows "marks_sym n (set_pair M a b k)"
  unfolding marks_sym_def
proof (intro allI impI)
  fix x y l
  assume l: "set_pair M a b k x y = Some l"
  consider "x = a" "y = b" | "x = b" "y = a" | "\<not> (x = a \<and> y = b)" "\<not> (x = b \<and> y = a)" by blast
  then show "x < n \<and> y < n \<and> x \<noteq> y \<and> set_pair M a b k y x = Some (swap_marks l)"
  proof cases
    case 3
    then have "M x y = Some l" using l by (auto simp: set_pair_def split: if_splits)
    from marks_symD[OF assms(1) this] 3 show ?thesis by (auto simp: set_pair_def)
  qed (use l assms(2-4) in \<open>auto simp: set_pair_def\<close>)
qed

lemma set_pair_set_pair [simp]: "set_pair (set_pair M a b k) a b l = set_pair M a b l"
  by (rule ext)+ (simp add: set_pair_def)

lemma set_pair_same: "marks_sym n M \<Longrightarrow> set_pair M a b (M a b) = M"
  using marks_sym_swap[of n M b a] by (intro ext) (auto simp: set_pair_def)

text \<open>The directed part after an update: the old pair leaves, at most one arrow comes.\<close>

definition marks_arrow :: "dense_id \<Rightarrow> dense_id \<Rightarrow> marks option \<Rightarrow> (dense_id \<times> dense_id) set" where
  "marks_arrow a b k = (case k of
     Some (Tail, Arrow, _) \<Rightarrow> {(a, b)} | Some (Arrow, Tail, _) \<Rightarrow> {(b, a)} | _ \<Rightarrow> {})"

lemma marks_rel_set_pair:
  assumes "a \<noteq> b"
  shows "marks_rel (set_pair M a b k) = marks_rel M - {(a, b), (b, a)} \<union> marks_arrow a b k"
proof (cases k)
  case None
  then show ?thesis using assms by (auto simp: marks_rel_def set_pair_def marks_arrow_def)
next
  case (Some l)
  obtain p q m where l: "l = (p, q, m)" by (cases l)
  show ?thesis using assms unfolding Some l
    by (cases p; cases q) (auto simp: marks_rel_def set_pair_def marks_arrow_def split: if_splits)
qed

lemma ms_rows_update: "ms_rows adj \<Longrightarrow> distinct (map ae_neighbor r) \<Longrightarrow> ms_rows (adj[a := r])"
  unfolding ms_rows_def by (auto dest!: set_update_subset_insert[THEN subsetD])

lemma ms_marks_update:
  "a < length adj \<Longrightarrow> ms_marks (adj[a := r]) x y = (if x = a then row_marks r y else ms_marks adj x y)"
  by (auto simp: ms_marks_def row_def)

lemma push_marked_pair_spec:
  assumes "ms_wf adj" "me_a e < length adj" "me_b e < length adj" "me_a e \<noteq> me_b e"
    "ms_marks adj (me_a e) (me_b e) = None"
  shows "\<exists>adj'. push_marked_pair adj e = Some adj' \<and> length adj' = length adj \<and> ms_wf adj' \<and>
    ms_marks adj' = set_pair (ms_marks adj) (me_a e) (me_b e) (Some (me_at_a e, me_at_b e, me_middle e))"
proof -
  let ?a = "me_a e" and ?b = "me_b e"
  let ?ea = "ae_new ?b (me_at_a e) (me_at_b e) (me_middle e)" and ?eb = "ae_new ?a (me_at_b e) (me_at_a e) (me_middle e)"
  let ?r1 = "adj ! ?a @ [?ea]" and ?r2 = "adj ! ?b @ [?eb]"
  let ?adj' = "(adj[?a := ?r1])[?b := ?r2]"
  have mirror: "ms_marks adj ?b ?a = None" using marks_sym_None[OF ms_wfD(2)[OF assms(1)]] assms(5) by blast
  have none: "row_marks (adj ! ?a) ?b = None" "row_marks (adj ! ?b) ?a = None"
    using assms(2,3,5) mirror by (simp_all add: ms_marks_nth)
  have rows: "distinct (map ae_neighbor (adj ! ?a))" "distinct (map ae_neighbor (adj ! ?b))"
    using ms_rows_row[OF ms_wfD(1)[OF assms(1)], of ?a] ms_rows_row[OF ms_wfD(1)[OF assms(1)], of ?b] assms(2,3)
    by (simp_all add: row_nth)
  have run: "push_marked_pair adj e = Some ?adj'"
    using assms(2-4) by (simp add: push_marked_pair_def push_row_def)
  have "ms_rows ?adj'"
    by (intro ms_rows_update ms_wfD(1)[OF assms(1)])
      (use rows none in \<open>simp_all add: row_marks_None ae_new_def\<close>)
  moreover have marks: "ms_marks ?adj' = set_pair (ms_marks adj) ?a ?b (Some (me_at_a e, me_at_b e, me_middle e))"
  proof (intro ext)
    fix x y
    show "ms_marks ?adj' x y =
        set_pair (ms_marks adj) ?a ?b (Some (me_at_a e, me_at_b e, me_middle e)) x y"
      using assms(2-4) none
      by (auto simp: ms_marks_update row_marks_append set_pair_def ms_marks_nth ae_new_def ae_marks_def
          split: option.splits)
  qed
  moreover have "marks_sym (length adj) (ms_marks ?adj')"
    unfolding marks by (rule set_pair_sym[OF ms_wfD(2)[OF assms(1)] assms(2-4)])
  ultimately show ?thesis using run by (simp add: ms_wf_def)
qed

lemma update_first_spec:
  assumes "update_first b f r = (found, r')" "\<And>e. ae_neighbor (f e) = ae_neighbor e"
    "\<And>e. ae_marks (f e) = g (ae_marks e)"
  shows "found \<longleftrightarrow> row_marks r b \<noteq> None" "map ae_neighbor r' = map ae_neighbor r"
    "row_marks r' y = (if y = b then map_option g (row_marks r b) else row_marks r y)"
  using assms(1)
  by (induction r arbitrary: r' found)
    (auto simp: assms(2,3) simp del: not_None_eq split: if_splits prod.splits)

lemma update_half_spec:
  assumes "ms_rows adj" "a < length adj" "\<And>e. ae_neighbor (f e) = ae_neighbor e"
    "\<And>e. ae_marks (f e) = g (ae_marks e)"
  shows "\<exists>adj'. update_half a b f adj = Some (if ms_marks adj a b \<noteq> None then Inr () else Inl (UnknownNode a), adj') \<and>
    ms_rows adj' \<and> length adj' = length adj \<and>
    ms_marks adj' = (\<lambda>x y. if x = a \<and> y = b then map_option g (ms_marks adj a b) else ms_marks adj x y)"
proof -
  obtain found r' where u: "update_first b f (adj ! a) = (found, r')" by fastforce
  note spec = update_first_spec[OF u assms(3,4)]
  have "distinct (map ae_neighbor r')"
    using spec(2) ms_rows_row[OF assms(1), of a] assms(2) by (simp add: row_nth)
  then have rows: "ms_rows (adj[a := r'])" by (rule ms_rows_update[OF assms(1)])
  have marks: "ms_marks (adj[a := r']) =
      (\<lambda>x y. if x = a \<and> y = b then map_option g (ms_marks adj a b) else ms_marks adj x y)"
  proof (intro ext)
    fix x y
    show "ms_marks (adj[a := r']) x y =
        (if x = a \<and> y = b then map_option g (ms_marks adj a b) else ms_marks adj x y)"
      by (cases "x = a") (simp_all add: ms_marks_update ms_marks_nth assms(2) spec(3))
  qed
  have "update_half a b f adj =
      Some (if ms_marks adj a b \<noteq> None then Inr () else Inl (UnknownNode a), adj[a := r'])"
    using u assms(2) spec(1) by (simp add: update_half_def ms_marks_nth del: not_None_eq)
  then show ?thesis using rows marks by (intro exI[of _ "adj[a := r']"] conjI) simp_all
qed

lemma ms_set_marks_spec:
  assumes "ms_wf adj" "ms_marks adj a b = Some (p, q, m)"
  shows "\<exists>adj'. ms_set_marks adj a b at_a at_b = Some (Inr (), adj') \<and> length adj' = length adj \<and> ms_wf adj' \<and>
    ms_marks adj' = set_pair (ms_marks adj) a b (Some (at_a, at_b, m))"
proof -
  note sym = marks_symD[OF ms_wfD(2)[OF assms(1)] assms(2)]
  let ?f = "\<lambda>e. e\<lparr>ae_at_self := at_a, ae_at_neighbor := at_b\<rparr>" and ?f' = "\<lambda>e. e\<lparr>ae_at_self := at_b, ae_at_neighbor := at_a\<rparr>"
  let ?g = "\<lambda>(_, _, m). (at_a, at_b, m)" and ?g' = "\<lambda>(_, _, m). (at_b, at_a, m)"
  obtain adj1 where one: "update_half a b ?f adj = Some (Inr (), adj1)" "ms_rows adj1" "length adj1 = length adj"
      "ms_marks adj1 = (\<lambda>x y. if x = a \<and> y = b then map_option ?g (ms_marks adj a b) else ms_marks adj x y)"
    using update_half_spec[OF ms_wfD(1)[OF assms(1)] sym(1), of ?f ?g b] assms(2) by (auto simp: ae_marks_def)
  have b1: "ms_marks adj1 b a = Some (q, p, m)" using one(4) sym(3,4) by auto
  have "b < length adj1" using sym(2) one(3) by simp
  then obtain adj2 where two: "update_half b a ?f' adj1 = Some (Inr (), adj2)" "ms_rows adj2" "length adj2 = length adj1"
      "ms_marks adj2 = (\<lambda>x y. if x = b \<and> y = a then map_option ?g' (ms_marks adj1 b a) else ms_marks adj1 x y)"
    using update_half_spec[OF one(2), of b ?f' ?g' a] b1 by (auto simp: ae_marks_def)
  have marks: "ms_marks adj2 = set_pair (ms_marks adj) a b (Some (at_a, at_b, m))"
    unfolding two(4) b1 unfolding one(4) assms(2) set_pair_def using sym(3) by (intro ext) auto
  have "marks_sym (length adj) (ms_marks adj2)"
    unfolding marks by (rule set_pair_sym[OF ms_wfD(2)[OF assms(1)] sym(1-3)])
  then have "ms_wf adj2" using two(2,3) one(3) by (simp add: ms_wf_def)
  then show ?thesis using one(1,3) two(1,3) marks by (intro exI[of _ adj2]) (simp add: ms_set_marks_def)
qed

lemma ms_set_middle_spec:
  assumes "ms_wf adj" "ms_marks adj a b = Some (p, q, m)"
  shows "\<exists>adj'. ms_set_middle adj a b m' = Some (Inr (), adj') \<and> length adj' = length adj \<and> ms_wf adj' \<and>
    ms_marks adj' = set_pair (ms_marks adj) a b (Some (p, q, m'))"
proof -
  note sym = marks_symD[OF ms_wfD(2)[OF assms(1)] assms(2)]
  let ?f = "\<lambda>e. e\<lparr>ae_middle := m'\<rparr>" and ?g = "\<lambda>(p, q, _). (p, q, m')"
  obtain adj1 where one: "update_half a b ?f adj = Some (Inr (), adj1)" "ms_rows adj1" "length adj1 = length adj"
      "ms_marks adj1 = (\<lambda>x y. if x = a \<and> y = b then map_option ?g (ms_marks adj a b) else ms_marks adj x y)"
    using update_half_spec[OF ms_wfD(1)[OF assms(1)] sym(1), of ?f ?g b] assms(2) by (auto simp: ae_marks_def)
  have b1: "ms_marks adj1 b a = Some (q, p, m)" using one(4) sym(3,4) by auto
  have "b < length adj1" using sym(2) one(3) by simp
  then obtain adj2 where two: "update_half b a ?f adj1 = Some (Inr (), adj2)" "ms_rows adj2" "length adj2 = length adj1"
      "ms_marks adj2 = (\<lambda>x y. if x = b \<and> y = a then map_option ?g (ms_marks adj1 b a) else ms_marks adj1 x y)"
    using update_half_spec[OF one(2), of b ?f ?g a] b1 by (auto simp: ae_marks_def)
  have marks: "ms_marks adj2 = set_pair (ms_marks adj) a b (Some (p, q, m'))"
    unfolding two(4) b1 unfolding one(4) assms(2) set_pair_def using sym(3) by (intro ext) auto
  have "marks_sym (length adj) (ms_marks adj2)"
    unfolding marks by (rule set_pair_sym[OF ms_wfD(2)[OF assms(1)] sym(1-3)])
  then have "ms_wf adj2" using two(2,3) one(3) by (simp add: ms_wf_def)
  then show ?thesis using one(1,3) two(1,3) marks by (intro exI[of _ adj2]) (simp add: ms_set_middle_def)
qed

lemma ms_remove_edge_spec:
  assumes "ms_wf adj" "a < length adj" "b < length adj" "a \<noteq> b"
  shows "\<exists>adj'. ms_remove_edge adj a b = Some adj' \<and> length adj' = length adj \<and> ms_wf adj' \<and>
    ms_marks adj' = set_pair (ms_marks adj) a b None"
proof -
  let ?r1 = "filter (\<lambda>e. ae_neighbor e \<noteq> b) (adj ! a)" and ?r2 = "filter (\<lambda>e. ae_neighbor e \<noteq> a) (adj ! b)"
  let ?adj' = "(adj[a := ?r1])[b := ?r2]"
  have run: "ms_remove_edge adj a b = Some ?adj'" using assms(2-4) by (simp add: ms_remove_edge_def)
  have rows: "distinct (map ae_neighbor (adj ! i))" if "i < length adj" for i
    using ms_rows_row[OF ms_wfD(1)[OF assms(1)], of i] that by (simp add: row_nth)
  have "ms_rows ?adj'"
    by (intro ms_rows_update ms_wfD(1)[OF assms(1)]) (use rows assms(2,3) in \<open>simp_all add: distinct_map_filter\<close>)
  moreover have marks: "ms_marks ?adj' = set_pair (ms_marks adj) a b None"
    by (intro ext) (use assms(2-4) in \<open>auto simp: ms_marks_update row_marks_filter set_pair_def ms_marks_nth\<close>)
  moreover have "marks_sym (length adj) (ms_marks ?adj')"
    unfolding marks by (rule set_pair_sym[OF ms_wfD(2)[OF assms(1)] assms(2-4)])
  ultimately show ?thesis using run by (intro exI[of _ ?adj']) (simp add: ms_wf_def)
qed

section \<open>The shared operations\<close>

lemma marks_arrow_parent_child:
  "marks_arrow (me_a e) (me_b e) (Some (me_at_a e, me_at_b e, m)) =
     (case parent_child e of None \<Rightarrow> {} | Some st \<Rightarrow> {st})"
  by (simp add: marks_arrow_def parent_child_def split: endpoint.split)

lemma set_pair_acyclic:
  assumes "acyclic (marks_rel M)" "a \<noteq> b"
    and "\<forall>(s, t) \<in> marks_arrow a b k. (t, s) \<notin> (marks_rel M - {(a, b), (b, a)})\<^sup>*"
  shows "acyclic (marks_rel (set_pair M a b k))"
proof -
  have rest: "acyclic (marks_rel M - {(a, b), (b, a)})" by (rule acyclic_subset[OF assms(1)]) blast
  have "marks_arrow a b k = {} \<or> (\<exists>s t. marks_arrow a b k = {(s, t)})"
    by (auto simp: marks_arrow_def split: option.split prod.split endpoint.split)
  then show ?thesis
    unfolding marks_rel_set_pair[OF assms(2)] using rest assms(3) by (auto simp: acyclic_insert)
qed

text \<open>What an insertion refuses, and why.\<close>

definition insert_refusal :: "adjacency \<Rightarrow> marked_edge \<Rightarrow> graph_error option" where
  "insert_refusal adj e =
     (if ms_marks adj (me_a e) (me_b e) \<noteq> None then Some (DuplicateEdge (me_a e) (me_b e))
      else case parent_child e of
        Some (s, t) \<Rightarrow> (if (t, s) \<in> (ms_rel adj)\<^sup>* then Some (Cycle s t) else None)
      | None \<Rightarrow> None)"

lemma insert_marked_finish_spec:
  assumes "ms_inv adj" "me_a e < length adj" "me_b e < length adj" "me_a e \<noteq> me_b e"
  obtains (refused) err where "insert_refusal adj e = Some err" "insert_marked_finish adj e = Some (Inl err, adj)"
  | (inserted) adj' where "insert_refusal adj e = None" "insert_marked_finish adj e = Some (Inr (), adj')"
      "ms_inv adj'" "length adj' = length adj"
      "ms_marks adj' = set_pair (ms_marks adj) (me_a e) (me_b e) (Some (me_at_a e, me_at_b e, me_middle e))"
proof -
  have wf: "ms_wf adj" using assms(1) by (rule ms_inv_wf)
  let ?M = "ms_marks adj"
  note reach = reaches_directed_scratch_spec[OF wf]
  have present: "edge_between adj (me_a e) (me_b e) \<noteq> None \<longleftrightarrow> ?M (me_a e) (me_b e) \<noteq> None"
    using assms(3) by (simp add: edge_between_marks)
  show thesis
  proof (cases "insert_refusal adj e")
    case (Some err)
    then show thesis using refused[OF Some] present reach
      by (auto simp: insert_refusal_def insert_marked_finish_def split: if_splits option.splits)
  next
    case None
    then have new: "?M (me_a e) (me_b e) = None"
      by (simp add: insert_refusal_def del: not_None_eq split: if_splits)
    obtain adj' where p: "push_marked_pair adj e = Some adj'" "length adj' = length adj" "ms_wf adj'"
        "ms_marks adj' = set_pair ?M (me_a e) (me_b e) (Some (me_at_a e, me_at_b e, me_middle e))"
      using push_marked_pair_spec[OF wf assms(2-4) new] by blast
    have open_arrow: "(t, s) \<notin> (ms_rel adj)\<^sup>*" if "parent_child e = Some (s, t)" for s t
      using None new that by (auto simp: insert_refusal_def split: if_splits)
    have "insert_marked_finish adj e = Some (Inr (), adj')"
      using present new p(1) reach open_arrow
      by (cases "parent_child e") (auto simp: insert_marked_finish_def Let_def)
    moreover have "acyclic (marks_rel (ms_marks adj'))"
      unfolding p(4)
    proof (rule set_pair_acyclic[OF _ assms(4)])
      show "acyclic (marks_rel ?M)" using assms(1) by (simp add: ms_inv_def ms_rel_def)
      show "\<forall>(s, t) \<in> marks_arrow (me_a e) (me_b e) (Some (me_at_a e, me_at_b e, me_middle e)).
          (t, s) \<notin> (marks_rel ?M - {(me_a e, me_b e), (me_b e, me_a e)})\<^sup>*"
        unfolding marks_arrow_parent_child
        using open_arrow rtrancl_mono[of "marks_rel ?M - {(me_a e, me_b e), (me_b e, me_a e)}" "marks_rel ?M"]
        by (auto simp: ms_rel_def split: option.split)
    qed
    ultimately show thesis using inserted None p by (simp add: ms_inv_def ms_rel_def)
  qed
qed

text \<open>Replacing the marks of an existing edge.\<close>

definition other_arrows :: "adjacency \<Rightarrow> dense_id \<Rightarrow> dense_id \<Rightarrow> (dense_id \<times> dense_id) set" where
  "other_arrows adj a b = ms_rel adj - {(a, b), (b, a)}"

lemma set_marks_inv:
  assumes "ms_inv adj" "ms_wf adj'" "a \<noteq> b" "ms_marks adj' = set_pair (ms_marks adj) a b k"
    and "\<forall>(s, t) \<in> marks_arrow a b k. (t, s) \<notin> (other_arrows adj a b)\<^sup>*"
  shows "ms_inv adj'"
  using set_pair_acyclic[of "ms_marks adj" a b k] assms
  by (simp add: ms_inv_def ms_rel_def other_arrows_def)

lemma set_marks_finish_spec:
  assumes "ms_inv adj" "ms_marks adj a b = Some (p0, q0, m)"
    and "previous = \<lparr>me_a = a, me_b = b, me_at_a = p0, me_at_b = q0, me_middle = m\<rparr>"
  obtains (cycle) s t adj' where "marks_arrow a b (Some (p, q, m)) = {(s, t)}" "(t, s) \<in> (other_arrows adj a b)\<^sup>*"
      "set_marks_finish adj a b p q previous = Some (Inl (Cycle s t), adj')"
      "ms_inv adj'" "length adj' = length adj" "ms_marks adj' = ms_marks adj"
  | (replaced) adj' where "\<forall>(s, t) \<in> marks_arrow a b (Some (p, q, m)). (t, s) \<notin> (other_arrows adj a b)\<^sup>*"
      "set_marks_finish adj a b p q previous = Some (Inr (), adj')"
      "ms_inv adj'" "length adj' = length adj" "ms_marks adj' = set_pair (ms_marks adj) a b (Some (p, q, m))"
proof -
  let ?e = "\<lparr>me_a = a, me_b = b, me_at_a = p, me_at_b = q, me_middle = m\<rparr>"
  have wf: "ms_wf adj" using assms(1) by (rule ms_inv_wf)
  note sym = marks_symD[OF ms_wfD(2)[OF wf] assms(2)]
  have arrow: "marks_arrow a b (Some (p, q, m)) = (case parent_child ?e of None \<Rightarrow> {} | Some st \<Rightarrow> {st})"
    using marks_arrow_parent_child[of ?e m] by simp
  show thesis
  proof (cases "parent_child ?e")
    case None
    obtain adj' where r: "ms_set_marks adj a b p q = Some (Inr (), adj')" "length adj' = length adj" "ms_wf adj'"
        "ms_marks adj' = set_pair (ms_marks adj) a b (Some (p, q, m))"
      using ms_set_marks_spec[OF wf assms(2), of p q] by blast
    have none: "\<forall>(s, t) \<in> marks_arrow a b (Some (p, q, m)). (t, s) \<notin> (other_arrows adj a b)\<^sup>*"
      unfolding arrow using None by simp
    have "set_marks_finish adj a b p q previous = Some (Inr (), adj')"
      using None r(1) by (simp add: set_marks_finish_def assms(3))
    from replaced[OF none this set_marks_inv[OF assms(1) r(3) sym(3) r(4) none] r(2,4)] show thesis .
  next
    case (Some st)
    obtain s t where st: "st = (s, t)" by fastforce
    obtain adj1 where r1: "ms_remove_edge adj a b = Some adj1" "length adj1 = length adj" "ms_wf adj1"
        "ms_marks adj1 = set_pair (ms_marks adj) a b None"
      using ms_remove_edge_spec[OF wf sym(1-3)] by blast
    have rel1: "ms_rel adj1 = other_arrows adj a b"
      unfolding ms_rel_def other_arrows_def r1(4) marks_rel_set_pair[OF sym(3)] by (simp add: marks_arrow_def)
    have gone: "ms_marks adj1 a b = None" by (simp add: r1(4) set_pair_def)
    have push: "\<exists>adj2. push_marked_pair adj1 \<lparr>me_a = a, me_b = b, me_at_a = x, me_at_b = y, me_middle = m\<rparr> = Some adj2 \<and>
        length adj2 = length adj \<and> ms_wf adj2 \<and> ms_marks adj2 = set_pair (ms_marks adj) a b (Some (x, y, m))" for x y
      using push_marked_pair_spec[OF r1(3), of "\<lparr>me_a = a, me_b = b, me_at_a = x, me_at_b = y, me_middle = m\<rparr>"]
        sym(1-3) gone r1(2) by (simp add: r1(4))
    have run: "set_marks_finish adj a b p q previous =
        (if (t, s) \<in> (other_arrows adj a b)\<^sup>*
         then map_option (\<lambda>adj2. (Inl (Cycle s t), adj2)) (push_marked_pair adj1 previous)
         else map_option (\<lambda>adj2. (Inr (), adj2)) (push_marked_pair adj1 ?e))"
      using Some st r1(1) reaches_directed_scratch_spec[OF r1(3), of t s]
      by (simp add: set_marks_finish_def assms(3) rel1)
    show thesis
    proof (cases "(t, s) \<in> (other_arrows adj a b)\<^sup>*")
      case True
      obtain adj2 where r2: "push_marked_pair adj1 previous = Some adj2" "length adj2 = length adj" "ms_wf adj2"
          "ms_marks adj2 = set_pair (ms_marks adj) a b (Some (p0, q0, m))"
        using push[of p0 q0] unfolding assms(3) by blast
      have same: "ms_marks adj2 = ms_marks adj"
        using set_pair_same[OF ms_wfD(2)[OF wf], of a b] r2(4) assms(2) by simp
      have inv: "ms_inv adj2" using r2(3) assms(1) by (simp add: ms_inv_def ms_rel_def same)
      have "set_marks_finish adj a b p q previous = Some (Inl (Cycle s t), adj2)"
        using run True r2(1) by simp
      from cycle[OF _ True this inv r2(2) same] show thesis using arrow Some st by simp
    next
      case False
      obtain adj2 where r2: "push_marked_pair adj1 ?e = Some adj2" "length adj2 = length adj" "ms_wf adj2"
          "ms_marks adj2 = set_pair (ms_marks adj) a b (Some (p, q, m))"
        using push[of p q] by blast
      have ok: "\<forall>(s, t) \<in> marks_arrow a b (Some (p, q, m)). (t, s) \<notin> (other_arrows adj a b)\<^sup>*"
        unfolding arrow using Some st False by simp
      have "set_marks_finish adj a b p q previous = Some (Inr (), adj2)" using run False r2(1) by simp
      from replaced[OF ok this set_marks_inv[OF assms(1) r2(3) sym(3) r2(4) ok] r2(2,4)] show thesis .
    qed
  qed
qed

lemma edge_between_Some:
  assumes "ms_wf adj" "ms_marks adj a b = Some (p, q, m)"
  shows "edge_between adj a b = Some \<lparr>me_a = a, me_b = b, me_at_a = p, me_at_b = q, me_middle = m\<rparr>"
  using marks_symD(2)[OF ms_wfD(2)[OF assms(1)] assms(2)] assms(2) by (simp add: edge_between_marks)

lemma edge_between_None:
  assumes "ms_wf adj" "ms_marks adj a b = None"
  shows "edge_between adj a b = None"
  using assms(2) by (simp add: edge_between_marks)

lemma orient_undirected_finish_spec:
  assumes "ms_inv adj"
  obtains (missing) "ms_marks adj src tgt = None"
      "orient_undirected_finish adj src tgt = Some (Inl (UnknownNode src), adj)"
  | (oriented_already) p q m where "ms_marks adj src tgt = Some (p, q, m)" "\<not> (p = Tail \<and> q = Tail)"
      "orient_undirected_finish adj src tgt =
        Some (Inl (InvalidEndpoints orient_undirected_message), adj)"
  | (cycle) m where "ms_marks adj src tgt = Some (Tail, Tail, m)" "(tgt, src) \<in> (ms_rel adj)\<^sup>*"
      "orient_undirected_finish adj src tgt = Some (Inl (Cycle src tgt), adj)"
  | (oriented) m adj' where "ms_marks adj src tgt = Some (Tail, Tail, m)" "(tgt, src) \<notin> (ms_rel adj)\<^sup>*"
      "orient_undirected_finish adj src tgt = Some (Inr (), adj')" "ms_inv adj'" "length adj' = length adj"
      "ms_marks adj' = set_pair (ms_marks adj) src tgt (Some (Tail, Arrow, m))"
      "ms_rel adj' = insert (src, tgt) (ms_rel adj)"
proof -
  have wf: "ms_wf adj" using assms by (rule ms_inv_wf)
  note reach = reaches_directed_scratch_spec[OF wf, of tgt src]
  show thesis
  proof (cases "ms_marks adj src tgt")
    case None
    then show thesis using missing edge_between_None[OF wf None] by (simp add: orient_undirected_finish_def)
  next
    case (Some k)
    obtain p q m where k: "k = (p, q, m)" by (cases k)
    note edge = edge_between_Some[OF wf Some[unfolded k]]
    show thesis
    proof (cases "p = Tail \<and> q = Tail")
      case False
      then have "\<not> is_undirected \<lparr>me_a = src, me_b = tgt, me_at_a = p, me_at_b = q, me_middle = m\<rparr>"
        by (auto simp: is_undirected_def split: endpoint.splits)
      then show thesis using oriented_already[OF Some[unfolded k] False] edge
        by (simp add: orient_undirected_finish_def)
    next
      case True
      then have und: "ms_marks adj src tgt = Some (Tail, Tail, m)"
          "is_undirected \<lparr>me_a = src, me_b = tgt, me_at_a = p, me_at_b = q, me_middle = m\<rparr>"
        using Some k by (simp_all add: is_undirected_def)
      note sym = marks_symD[OF ms_wfD(2)[OF wf] und(1)]
      show thesis
      proof (cases "(tgt, src) \<in> (ms_rel adj)\<^sup>*")
        case True
        then show thesis using cycle[OF und(1)] edge und(2) reach by (simp add: orient_undirected_finish_def)
      next
        case False
        obtain adj' where r: "ms_set_marks adj src tgt Tail Arrow = Some (Inr (), adj')" "length adj' = length adj"
            "ms_wf adj'" "ms_marks adj' = set_pair (ms_marks adj) src tgt (Some (Tail, Arrow, m))"
          using ms_set_marks_spec[OF wf und(1), of Tail Arrow] by blast
        have others: "other_arrows adj src tgt = ms_rel adj"
          using und(1) sym(4) by (auto simp: other_arrows_def ms_rel_iff)
        have "ms_inv adj'"
          by (rule set_marks_inv[OF assms r(3) sym(3) r(4)]) (use False others in \<open>simp add: marks_arrow_def\<close>)
        moreover have "ms_rel adj' = insert (src, tgt) (ms_rel adj)"
          unfolding ms_rel_def r(4) marks_rel_set_pair[OF sym(3)]
          using others by (simp add: other_arrows_def ms_rel_def marks_arrow_def)
        moreover have "orient_undirected_finish adj src tgt = Some (Inr (), adj')"
          using edge und(2) reach False r(1) by (simp add: orient_undirected_finish_def)
        ultimately show thesis using oriented[OF und(1) False] r(2,4) by blast
      qed
    qed
  qed
qed

lemma mark_conflict_finish_spec:
  assumes "ms_inv adj"
  obtains (missing) "ms_marks adj a b = None" "mark_conflict_finish adj a b = Some (Inl (UnknownNode a), adj)"
  | (pinned) p q m adj' where "ms_marks adj a b = Some (p, q, m)" "mark_conflict_finish adj a b = Some (Inr (), adj')"
      "ms_inv adj'" "length adj' = length adj"
      "ms_marks adj' = set_pair (ms_marks adj) a b (Some (Conflict, Conflict, m))"
proof -
  have wf: "ms_wf adj" using assms by (rule ms_inv_wf)
  show thesis
  proof (cases "ms_marks adj a b")
    case None
    then show thesis using missing edge_between_None[OF wf None] by (simp add: mark_conflict_finish_def)
  next
    case (Some k)
    obtain p q m where k: "k = (p, q, m)" by (cases k)
    note sym = marks_symD[OF ms_wfD(2)[OF wf] Some]
    obtain adj' where r: "ms_set_marks adj a b Conflict Conflict = Some (Inr (), adj')" "length adj' = length adj"
        "ms_wf adj'" "ms_marks adj' = set_pair (ms_marks adj) a b (Some (Conflict, Conflict, m))"
      using ms_set_marks_spec[OF wf Some[unfolded k], of Conflict Conflict] by blast
    have "ms_inv adj'" by (rule set_marks_inv[OF assms r(3) sym(3) r(4)]) (simp add: marks_arrow_def)
    moreover have "mark_conflict_finish adj a b = Some (Inr (), adj')"
      using edge_between_Some[OF wf Some[unfolded k]] r(1) by (simp add: mark_conflict_finish_def)
    ultimately show thesis using pinned[OF Some[unfolded k]] r(2,4) by blast
  qed
qed

section \<open>The edge list\<close>

text \<open>
  Every stored pair is listed once, under its smaller id, whatever its marks: an arrow from the larger
  to the smaller id appears as \<open>Arrow\<close>, \<open>Tail\<close>, not parent first.
\<close>

definition half_edge :: "dense_id \<Rightarrow> adj_entry \<Rightarrow> marked_edge" where
  "half_edge a e = \<lparr>me_a = a, me_b = ae_neighbor e, me_at_a = ae_at_self e, me_at_b = ae_at_neighbor e,
     me_middle = ae_middle e\<rparr>"

definition edge_of_marks :: "dense_id \<Rightarrow> dense_id \<Rightarrow> marks \<Rightarrow> marked_edge" where
  "edge_of_marks a b = (\<lambda>(p, q, m). \<lparr>me_a = a, me_b = b, me_at_a = p, me_at_b = q, me_middle = m\<rparr>)"

lemma forward_halves_filter:
  "\<forall>e \<in> set r. ae_neighbor e \<noteq> i \<Longrightarrow>
     concat (map (forward_halves i) r) = map (half_edge i) (filter (\<lambda>e. i < ae_neighbor e) r)"
  by (induction r) (auto simp: forward_halves_def half_edge_def)

definition raw_edges :: "adjacency \<Rightarrow> marked_edge list" where
  "raw_edges adj = concat (map (\<lambda>i. map (half_edge i) (filter (\<lambda>e. i < ae_neighbor e) (adj ! i))) [0..<length adj])"

lemma no_self_entry:
  assumes "ms_wf adj" "i < length adj" "e \<in> set (adj ! i)"
  shows "ae_neighbor e \<noteq> i"
proof -
  have "ms_marks adj i (ae_neighbor e) = Some (ae_marks e)"
    using assms(2,3) by (auto simp: ms_marks_entry[OF ms_wfD(1)[OF assms(1)]] row_nth)
  then show ?thesis using marks_symD(3)[OF ms_wfD(2)[OF assms(1)]] by blast
qed

lemma all_marked_edges_raw:
  assumes "ms_wf adj"
  shows "all_marked_edges adj = remdups_adj (sort_key edge_sort_key (raw_edges adj))"
proof -
  have "concat (map (forward_halves i) (adj ! i)) = map (half_edge i) (filter (\<lambda>e. i < ae_neighbor e) (adj ! i))"
    if "i < length adj" for i
    by (rule forward_halves_filter) (use no_self_entry[OF assms that] in blast)
  then have "concat (map (\<lambda>i. concat (map (forward_halves i) (adj ! i))) [0..<length adj]) = raw_edges adj"
    unfolding raw_edges_def by (intro arg_cong[where f = concat] map_cong) simp_all
  then show ?thesis by (simp add: all_marked_edges_def)
qed

lemma set_raw_edges:
  assumes "ms_wf adj"
  shows "set (raw_edges adj) = {edge_of_marks a b k | a b k. a < b \<and> ms_marks adj a b = Some k}"
proof (intro set_eqI iffI)
  fix x
  assume "x \<in> set (raw_edges adj)"
  then obtain i e where "i < length adj" "e \<in> set (adj ! i)" "i < ae_neighbor e" "x = half_edge i e"
    by (auto simp: raw_edges_def)
  then show "x \<in> {edge_of_marks a b k | a b k. a < b \<and> ms_marks adj a b = Some k}"
    by (intro CollectI exI[of _ i] exI[of _ "ae_neighbor e"] exI[of _ "ae_marks e"])
      (auto simp: ms_marks_entry[OF ms_wfD(1)[OF assms]] row_nth half_edge_def edge_of_marks_def ae_marks_def)
next
  fix x
  assume "x \<in> {edge_of_marks a b k | a b k. a < b \<and> ms_marks adj a b = Some k}"
  then obtain a b k where x: "x = edge_of_marks a b k" "a < b" "ms_marks adj a b = Some k" by blast
  obtain e where e: "e \<in> set (row adj a)" "ae_neighbor e = b" "ae_marks e = k"
    using x(3) by (auto simp: ms_marks_entry[OF ms_wfD(1)[OF assms]])
  have a: "a < length adj" using x(3) by (rule ms_marks_bound)
  have "x = half_edge a e" using x(1) e(2,3) by (auto simp: half_edge_def edge_of_marks_def ae_marks_def)
  then show "x \<in> set (raw_edges adj)" using a e x(2) by (auto simp: raw_edges_def row_nth)
qed

lemma distinct_concat_pairs:
  assumes "\<And>i. i \<in> set is \<Longrightarrow> distinct (map f (g i))" "\<And>i x. x \<in> set (g i) \<Longrightarrow> h (f x) = i" "distinct is"
  shows "distinct (map f (concat (map g is)))"
  using assms(1,3)
proof (induction "is")
  case (Cons i "is")
  have "f x \<noteq> f y" if "x \<in> set (g i)" "j \<in> set is" "y \<in> set (g j)" for x y j
  proof
    assume "f x = f y"
    then have "i = j" using assms(2)[OF that(1)] assms(2)[OF that(3)] by simp
    with Cons.prems(2) that(2) show False by simp
  qed
  then have "f ` set (g i) \<inter> f ` set (concat (map g is)) = {}" by fastforce
  then show ?case using Cons by simp
qed simp

lemma distinct_raw_edges:
  assumes "ms_wf adj"
  shows "distinct (map (\<lambda>e. (me_a e, me_b e)) (raw_edges adj))"
  unfolding raw_edges_def
proof (rule distinct_concat_pairs[where h = fst])
  fix i assume "i \<in> set [0..<length adj]"
  then have "distinct (map ae_neighbor (adj ! i))"
    using ms_rows_row[OF ms_wfD(1)[OF assms], of i] by (simp add: row_nth)
  then have d: "distinct (map ae_neighbor (filter (\<lambda>e. i < ae_neighbor e) (adj ! i)))" by (rule distinct_map_filter)
  have "map (\<lambda>e. (me_a e, me_b e)) (map (half_edge i) es) = map (Pair i) (map ae_neighbor es)" for es
    by (simp add: half_edge_def comp_def)
  then show "distinct (map (\<lambda>e. (me_a e, me_b e)) (map (half_edge i) (filter (\<lambda>e. i < ae_neighbor e) (adj ! i))))"
    using d distinct_map[of "Pair i" "map ae_neighbor (filter (\<lambda>e. i < ae_neighbor e) (adj ! i))"]
    by (simp add: inj_on_def del: map_map)
qed (auto simp: half_edge_def)

lemma all_marked_edges_spec:
  assumes "ms_wf adj"
  shows "set (all_marked_edges adj) = {edge_of_marks a b k | a b k. a < b \<and> ms_marks adj a b = Some k}"
    and "distinct (map (\<lambda>e. (me_a e, me_b e)) (all_marked_edges adj))"
    and "sorted (map edge_sort_key (all_marked_edges adj))"
proof -
  let ?s = "sort_key edge_sort_key (raw_edges adj)"
  have d: "distinct (map (\<lambda>e. (me_a e, me_b e)) ?s)"
    using distinct_raw_edges[OF assms] by (simp add: distinct_map)
  then have "distinct ?s" by (simp add: distinct_map)
  then have "remdups_adj ?s = ?s" by (rule remdups_adj_distinct)
  then have eq: "all_marked_edges adj = ?s" by (simp add: all_marked_edges_raw[OF assms])
  show "set (all_marked_edges adj) = {edge_of_marks a b k | a b k. a < b \<and> ms_marks adj a b = Some k}"
    unfolding eq by (simp add: set_raw_edges[OF assms])
  show "distinct (map (\<lambda>e. (me_a e, me_b e)) (all_marked_edges adj))" unfolding eq by (rule d)
  show "sorted (map edge_sort_key (all_marked_edges adj))" unfolding eq by simp
qed

text \<open>The definite arrows of the list are the directed part, each once.\<close>

definition arrow_pairs :: "marked_edge list \<Rightarrow> (dense_id \<times> dense_id) list" where
  "arrow_pairs es = List.map_filter parent_child es"

lemma arrow_pairs_simps [simp]:
  "arrow_pairs [] = []"
  "arrow_pairs (e # es) = (case parent_child e of None \<Rightarrow> arrow_pairs es | Some st \<Rightarrow> st # arrow_pairs es)"
  by (simp_all add: arrow_pairs_def map_filter_simps split: option.split)

lemma set_arrow_pairs: "set (arrow_pairs es) = {st. \<exists>e \<in> set es. parent_child e = Some st}"
  by (induction es) (auto split: option.splits)

lemma arrow_pairs_spec:
  assumes "ms_wf adj"
  shows "set (arrow_pairs (all_marked_edges adj)) = ms_rel adj" "distinct (arrow_pairs (all_marked_edges adj))"
proof -
  note spec = all_marked_edges_spec[OF assms]
  note sym = marks_symD[OF ms_wfD(2)[OF assms]]
  show "set (arrow_pairs (all_marked_edges adj)) = ms_rel adj"
  proof (intro set_eqI iffI)
    fix st assume "st \<in> set (arrow_pairs (all_marked_edges adj))"
    then obtain a b p q m where e: "ms_marks adj a b = Some (p, q, m)" "parent_child (edge_of_marks a b (p, q, m)) = Some st"
      by (auto simp: set_arrow_pairs spec(1))
    show "st \<in> ms_rel adj" using e sym(4)[OF e(1)]
      by (cases p; cases q) (auto simp: parent_child_def edge_of_marks_def ms_rel_iff)
  next
    fix st assume st: "st \<in> ms_rel adj"
    obtain s t where eq: "st = (s, t)" by fastforce
    obtain m where m: "ms_marks adj s t = Some (Tail, Arrow, m)" using st eq by (auto simp: ms_rel_iff)
    show "st \<in> set (arrow_pairs (all_marked_edges adj))"
    proof (cases "s < t")
      case True
      then have "edge_of_marks s t (Tail, Arrow, m) \<in> set (all_marked_edges adj)" using m spec(1) by blast
      then show ?thesis unfolding set_arrow_pairs eq
        by (intro CollectI bexI) (simp_all add: parent_child_def edge_of_marks_def)
    next
      case False
      then have "t < s" "ms_marks adj t s = Some (Arrow, Tail, m)" using sym(3,4)[OF m] by auto
      then have "edge_of_marks t s (Arrow, Tail, m) \<in> set (all_marked_edges adj)" using spec(1) by blast
      then show ?thesis unfolding set_arrow_pairs eq
        by (intro CollectI bexI) (simp_all add: parent_child_def edge_of_marks_def)
    qed
  qed
  have "distinct (arrow_pairs es)" if "distinct (map (\<lambda>e. (me_a e, me_b e)) es)" "\<forall>e \<in> set es. me_a e < me_b e" for es
    using that
  proof (induction es)
    case (Cons e es)
    have "st \<notin> set (arrow_pairs es)" if "parent_child e = Some st" for st
    proof
      assume "st \<in> set (arrow_pairs es)"
      then obtain e' where e': "e' \<in> set es" "parent_child e' = Some st" by (auto simp: set_arrow_pairs)
      have "(me_a e, me_b e) \<notin> (\<lambda>e. (me_a e, me_b e)) ` set es" using Cons.prems(1) by simp
      then have "(me_a e', me_b e') \<noteq> (me_a e, me_b e)" using imageI[OF e'(1), of "\<lambda>e. (me_a e, me_b e)"] by metis
      moreover have "me_a e' < me_b e'" "me_a e < me_b e" using Cons.prems(2) e'(1) by simp_all
      ultimately show False using that e'(2) by (auto simp: parent_child_def split: endpoint.splits)
    qed
    then show ?case using Cons by (simp split: option.split)
  qed simp
  moreover have "\<forall>e \<in> set (all_marked_edges adj). me_a e < me_b e"
    unfolding spec(1) by (auto simp: edge_of_marks_def)
  ultimately show "distinct (arrow_pairs (all_marked_edges adj))" using spec(2) by blast
qed

end
