(* ===== verification/Marked_Interface.thy ===== *)
theory Marked_Interface
  imports Marked_Storage Dag
begin

text \<open>
  What \<open>Cpdag\<close>, \<open>TemporalCpdag\<close> and \<open>Pag\<close> share: a node table and marked adjacency kept in step. The
  facts their queries and conversions need are proved once here; each type interprets the interface
  on its own invariant.
\<close>

definition marks_all ::
  "(dense_id \<Rightarrow> dense_id \<Rightarrow> endpoint \<Rightarrow> endpoint \<Rightarrow> bool) \<Rightarrow> (dense_id \<Rightarrow> dense_id \<Rightarrow> marks option) \<Rightarrow> bool" where
  "marks_all P M \<longleftrightarrow> (\<forall>a b p q m. M a b = Some (p, q, m) \<longrightarrow> P a b p q)"

lemma marks_all_set_pair:
  assumes "marks_all P M" "\<And>p q m. k = Some (p, q, m) \<Longrightarrow> P a b p q \<and> P b a q p"
  shows "marks_all P (set_pair M a b k)"
  unfolding marks_all_def
proof (intro allI impI)
  fix x y p q m
  assume l: "set_pair M a b k x y = Some (p, q, m)"
  consider "x = a" "y = b" | "\<not> (x = a \<and> y = b)" "x = b" "y = a"
    | "\<not> (x = a \<and> y = b)" "\<not> (x = b \<and> y = a)" by blast
  then show "P x y p q"
  proof cases
    case 1
    then show ?thesis using l assms(2)[of p q m] by (simp add: set_pair_def)
  next
    case 2
    then obtain p' q' m' where k: "k = Some (p', q', m')" "swap_marks (p', q', m') = (p, q, m)"
      using l by (auto simp: set_pair_def)
    show ?thesis using assms(2)[OF k(1)] k(2) 2 by simp
  next
    case 3
    then have "M x y = Some (p, q, m)" using l by (auto simp: set_pair_def split: if_splits)
    then show ?thesis using assms(1) unfolding marks_all_def by blast
  qed
qed

locale marked_graph =
  fixes ginv :: "'g \<Rightarrow> bool" and count :: "'g \<Rightarrow> nat" and adj_of :: "'g \<Rightarrow> adjacency"
  assumes adj_inv: "ginv g \<Longrightarrow> ms_inv (adj_of g)"
    and adj_length: "ginv g \<Longrightarrow> length (adj_of g) = count g"
begin

lemma adj_wf: "ginv g \<Longrightarrow> ms_wf (adj_of g)"
  using adj_inv by (rule ms_inv_wf)

lemma arrow_range: "ginv g \<Longrightarrow> (u, v) \<in> ms_rel (adj_of g) \<Longrightarrow> u < count g \<and> v < count g"
  using ms_rel_bound[OF adj_wf] adj_length by metis

lemma marks_range:
  "ginv g \<Longrightarrow> ms_marks (adj_of g) u v = Some k \<Longrightarrow> u < count g \<and> v < count g \<and> u \<noteq> v"
  using marks_symD(1-3)[OF ms_wfD(2)[OF adj_wf]] adj_length by metis

lemma arrows_listed:
  assumes "ginv g"
  shows "set (arrow_pairs (all_marked_edges (adj_of g))) = ms_rel (adj_of g)"
    "distinct (arrow_pairs (all_marked_edges (adj_of g)))" "acyclic (ms_rel (adj_of g))"
  using arrow_pairs_spec[OF adj_wf[OF assms]] adj_inv[OF assms] by (simp_all add: ms_inv_def)

lemma edges_complete:
  assumes "ginv g"
  shows "e \<in> set (all_marked_edges (adj_of g)) \<longleftrightarrow>
    (\<exists>a b k. e = edge_of_marks a b k \<and> a < b \<and> ms_marks (adj_of g) a b = Some k)"
  using all_marked_edges_spec(1)[OF adj_wf[OF assms]] by blast

lemma reach_decided:
  assumes "ginv g" "ws_inv ws"
  obtains ws' where "reaches_directed (adj_of g) ws u v = Some ((u, v) \<in> (ms_rel (adj_of g))\<^sup>*, ws')" "ws_inv ws'"
  using reaches_directed_spec[OF adj_wf[OF assms(1)] assms(2)] by blast

end

section \<open>Rebuilding an acyclic graph from its arrows\<close>

text \<open>The loop \<open>for e in edges { if let Some((from, to)) = e.parent_child() { insert(from, to)?; } }\<close>.\<close>

definition insert_arrow ::
  "('g \<Rightarrow> dense_id \<Rightarrow> dense_id \<Rightarrow> ((graph_error + unit) \<times> 'g) option) \<Rightarrow> marked_edge \<Rightarrow> 'g \<Rightarrow>
    ((graph_error + unit) \<times> 'g) option" where
  "insert_arrow ins e g = (case parent_child e of Some (s, t) \<Rightarrow> ins g s t | None \<Rightarrow> Some (Inr (), g))"

lemma insert_arrow_simps:
  "parent_child e = None \<Longrightarrow> insert_arrow ins e g = Some (Inr (), g)"
  "parent_child e = Some (s, t) \<Longrightarrow> insert_arrow ins e g = ins g s t"
  by (simp_all add: insert_arrow_def)

lemma try_each_insert_arrow:
  "try_each (insert_arrow ins) es = try_each (\<lambda>(s, t) g. ins g s t) (arrow_pairs es)"
proof (induction es)
  case (Cons e es)
  show ?case
  proof (rule ext, cases "parent_child e")
    fix g
    case None
    then show "try_each (insert_arrow ins) (e # es) g =
        try_each (\<lambda>(s, t) g. ins g s t) (arrow_pairs (e # es)) g"
      using Cons by (simp add: insert_arrow_simps)
  next
    fix g st
    assume "parent_child e = Some st"
    then show "try_each (insert_arrow ins) (e # es) g =
        try_each (\<lambda>(s, t) g. ins g s t) (arrow_pairs (e # es)) g"
      using Cons by (cases st) (simp add: insert_arrow_simps)
  qed
qed (simp add: fun_eq_iff)

text \<open>
  Inserting pairwise distinct arrows of an acyclic relation one by one succeeds for every graph type
  whose single insertion accepts what is new, admissible (\<open>ok\<close>) and closes no cycle. Labels decide
  the node count and what is admissible.
\<close>

locale arrow_insertion =
  fixes ginv :: "'g \<Rightarrow> bool" and count :: "'g \<Rightarrow> nat" and rel :: "'g \<Rightarrow> (dense_id \<times> dense_id) set"
    and ins :: "'g \<Rightarrow> dense_id \<Rightarrow> dense_id \<Rightarrow> ((graph_error + unit) \<times> 'g) option"
    and ok :: "'g \<Rightarrow> dense_id \<Rightarrow> dense_id \<Rightarrow> bool" and free :: "'g \<Rightarrow> dense_id \<Rightarrow> dense_id \<Rightarrow> bool"
    and label :: "'g \<Rightarrow> node_ref list"
  assumes accepts: "ginv g \<Longrightarrow> s < count g \<Longrightarrow> t < count g \<Longrightarrow> ok g s t \<Longrightarrow> free g s t \<Longrightarrow> (t, s) \<notin> (rel g)\<^sup>* \<Longrightarrow>
      \<exists>g'. ins g s t = Some (Inr (), g') \<and> ginv g' \<and> rel g' = insert (s, t) (rel g) \<and> label g' = label g \<and>
        (\<forall>u v. free g u v \<longrightarrow> (u, v) \<noteq> (s, t) \<longrightarrow> (u, v) \<noteq> (t, s) \<longrightarrow> free g' u v)"
    and label_same: "label g = label g' \<Longrightarrow> count g = count g' \<and> ok g = ok g'"
begin

lemma accepts_all:
  assumes "ginv g" "distinct es"
    and "\<forall>(s, t) \<in> set es. s < count g \<and> t < count g \<and> ok g s t \<and> free g s t"
    and "acyclic (rel g \<union> set es)"
  shows "\<exists>g'. try_each (\<lambda>(s, t) g. ins g s t) es g = Some (Inr (), g') \<and> ginv g' \<and>
    rel g' = rel g \<union> set es \<and> label g' = label g"
  using assms
proof (induction es arbitrary: g)
  case (Cons e es)
  obtain s t where e: "e = (s, t)" by fastforce
  have "acyclic (insert (s, t) (rel g))" by (rule acyclic_subset[OF Cons.prems(4)]) (auto simp: e)
  then have "(t, s) \<notin> (rel g)\<^sup>*" by (simp add: acyclic_insert)
  moreover have st: "s < count g" "t < count g" "ok g s t" "free g s t" using Cons.prems(3) by (simp_all add: e)
  ultimately obtain g1 where g1: "ins g s t = Some (Inr (), g1)" "ginv g1" "rel g1 = insert (s, t) (rel g)"
      "label g1 = label g" "\<forall>u v. free g u v \<longrightarrow> (u, v) \<noteq> (s, t) \<longrightarrow> (u, v) \<noteq> (t, s) \<longrightarrow> free g1 u v"
    using accepts[OF Cons.prems(1) st] by blast
  have same: "count g1 = count g" "ok g1 = ok g" using label_same[OF g1(4)] by blast+
  have "(t, s) \<notin> set es"
  proof
    assume "(t, s) \<in> set es"
    then have "(s, t) \<in> rel g \<union> set (e # es)" "(t, s) \<in> rel g \<union> set (e # es)" by (simp_all add: e)
    then have "(s, s) \<in> (rel g \<union> set (e # es))\<^sup>+" by (meson trancl.intros)
    with Cons.prems(4) show False by (simp add: acyclic_def)
  qed
  have "free g1 u v" if uv: "(u, v) \<in> set es" for u v
  proof -
    have "free g u v" using Cons.prems(3) uv by auto
    moreover have "(u, v) \<noteq> (s, t)" "(u, v) \<noteq> (t, s)" using Cons.prems(2) e uv \<open>(t, s) \<notin> set es\<close> by auto
    ultimately show ?thesis using g1(5) by blast
  qed
  then have free: "\<forall>(u, v) \<in> set es. free g1 u v" by blast
  have "\<exists>g'. try_each (\<lambda>(s, t) g. ins g s t) es g1 = Some (Inr (), g') \<and> ginv g' \<and>
      rel g' = rel g1 \<union> set es \<and> label g' = label g1"
  proof (rule Cons.IH[OF g1(2)])
    show "distinct es" using Cons.prems(2) by simp
    show "\<forall>(s, t) \<in> set es. s < count g1 \<and> t < count g1 \<and> ok g1 s t \<and> free g1 s t"
      using Cons.prems(3) free unfolding same by auto
    show "acyclic (rel g1 \<union> set es)" using Cons.prems(4) by (simp add: g1(3) e)
  qed
  then show ?case using g1 e by auto
qed simp

end

interpretation di: arrow_insertion dag_inv dag_node_count dag_rel dag_insert_directed "\<lambda>_ _ _. True"
  "\<lambda>d s t. (s, t) \<notin> dag_rel d" dag_nodes
proof unfold_locales
  fix d s t
  assume "dag_inv d" "s < dag_node_count d" "t < dag_node_count d" "(s, t) \<notin> dag_rel d" "(t, s) \<notin> (dag_rel d)\<^sup>*"
  then show "\<exists>d'. dag_insert_directed d s t = Some (Inr (), d') \<and> dag_inv d' \<and>
      dag_rel d' = insert (s, t) (dag_rel d) \<and> dag_nodes d' = dag_nodes d \<and>
      (\<forall>u v. (u, v) \<notin> dag_rel d \<longrightarrow> (u, v) \<noteq> (s, t) \<longrightarrow> (u, v) \<noteq> (t, s) \<longrightarrow> (u, v) \<notin> dag_rel d')"
    by (cases rule: dag_insert_directed_cases[of d s t]) auto
qed (simp add: dag_node_count_def dag_nodes_def dc_node_count_def)

end
