(* ===== verification/Cpdag.thy ===== *)
theory Cpdag
  imports Marked_Interface
begin

text \<open>
  The static part of \<open>cpdag.rs\<close>: the CPDAG and its review. \<open>Cpdag\<close> and \<open>TemporalCpdag\<close> have the same
  two fields and the same read-only accessors (the macro \<open>impl_cpdag_accessors!\<close>), which are defined
  once here on the common record; the temporal type is in \<open>Temporal_Cpdag\<close>.
\<close>

record cpdag =
  cp_nodes :: "node_ref list"
  cp_adj :: adjacency

section \<open>The accessors of the macro\<close>

definition cp_node_count :: "cpdag \<Rightarrow> nat" where
  "cp_node_count g = length (cp_nodes g)"

definition cp_is_empty :: "cpdag \<Rightarrow> bool" where
  "cp_is_empty g \<longleftrightarrow> cp_nodes g = []"

definition cp_edge_between :: "cpdag \<Rightarrow> dense_id \<Rightarrow> dense_id \<Rightarrow> marked_edge option" where
  "cp_edge_between g a b = edge_between (cp_adj g) a b"

definition cp_has_edge :: "cpdag \<Rightarrow> dense_id \<Rightarrow> dense_id \<Rightarrow> bool" where
  "cp_has_edge g a b \<longleftrightarrow> cp_edge_between g a b \<noteq> None"

definition cp_edges :: "cpdag \<Rightarrow> marked_edge list" where
  "cp_edges g = all_marked_edges (cp_adj g)"

definition cp_children :: "cpdag \<Rightarrow> dense_id \<Rightarrow> dense_id list" where
  "cp_children g i = directed_children (cp_adj g) i"

definition cp_parents :: "cpdag \<Rightarrow> dense_id \<Rightarrow> dense_id list" where
  "cp_parents g i = directed_parents (cp_adj g) i"

definition cp_undirected_neighbors :: "cpdag \<Rightarrow> dense_id \<Rightarrow> dense_id list" where
  "cp_undirected_neighbors g i = undirected_neighbors (cp_adj g) i"

definition cp_conflict_edge_count :: "cpdag \<Rightarrow> nat" where
  "cp_conflict_edge_count g = length (filter is_conflict (cp_edges g))"

definition cp_undirected_edge_count :: "cpdag \<Rightarrow> nat" where
  "cp_undirected_edge_count g = length (filter is_undirected (cp_edges g))"

definition cp_directed_edge_count :: "cpdag \<Rightarrow> nat" where
  "cp_directed_edge_count g = length (filter (\<lambda>e. parent_child e \<noteq> None) (cp_edges g))"

definition cp_reaches_directed_with ::
  "cpdag \<Rightarrow> graph_workspace \<Rightarrow> dense_id \<Rightarrow> dense_id \<Rightarrow> (bool \<times> graph_workspace) option" where
  "cp_reaches_directed_with g ws src tgt = reaches_directed (cp_adj g) ws src tgt"

definition cp_validate_node :: "cpdag \<Rightarrow> dense_id \<Rightarrow> graph_error + unit" where
  "cp_validate_node g i = (if i \<ge> cp_node_count g then Inl (UnknownNode i) else Inr ())"

section \<open>Static CPDAG: construction and mutation\<close>

definition cp_empty :: cpdag where
  "cp_empty = \<lparr>cp_nodes = [], cp_adj = []\<rparr>"

definition cp_push_node :: "cpdag \<Rightarrow> node_ref \<Rightarrow> (graph_error + dense_id) \<times> cpdag" where
  "cp_push_node g node =
     (case try_from_usize (length (cp_nodes g)) of
        Inl e \<Rightarrow> (Inl e, g)
      | Inr i \<Rightarrow> (Inr i, g\<lparr>cp_nodes := cp_nodes g @ [node], cp_adj := cp_adj g @ [[]]\<rparr>))"

definition cp_add_node :: "cpdag \<Rightarrow> node_ref \<Rightarrow> (graph_error + dense_id) \<times> cpdag" where
  "cp_add_node g node =
     (if \<not> is_static_graph_node node
      then (Inl (InvalidEndpoints ''Cpdag accepts only Static or Unfolded nodes''), g)
      else cp_push_node g node)"

text \<open>\<open>let _ = g.add_node(...)\<close> over a list: the results are discarded.\<close>

fun cp_add_nodes :: "cpdag \<Rightarrow> node_ref list \<Rightarrow> cpdag" where
  "cp_add_nodes g [] = g"
| "cp_add_nodes g (n # ns) = cp_add_nodes (snd (cp_add_node g n)) ns"

definition cp_with_variables :: "nat \<Rightarrow> cpdag" where
  "cp_with_variables n = cp_add_nodes cp_empty (map Static [0..<n])"

definition lift_adj ::
  "cpdag \<Rightarrow> ((graph_error + unit) \<times> adjacency) option \<Rightarrow> ((graph_error + unit) \<times> cpdag) option" where
  "lift_adj g = map_option (\<lambda>(r, adj). (r, g\<lparr>cp_adj := adj\<rparr>))"

definition cp_insert_marked :: "cpdag \<Rightarrow> marked_edge \<Rightarrow> ((graph_error + unit) \<times> cpdag) option" where
  "cp_insert_marked g e =
     (if \<not> is_cpdag_legal e
      then Some (Inl (InvalidEndpoints cpdag_marks_message), g)
      else case rbind (cp_validate_node g (me_a e)) (\<lambda>_. cp_validate_node g (me_b e)) of
        Inl err \<Rightarrow> Some (Inl err, g)
      | Inr _ \<Rightarrow>
          (if me_a e = me_b e then Some (Inl (Cycle (me_a e) (me_b e)), g)
           else lift_adj g (insert_marked_finish (cp_adj g) e)))"

definition cp_insert_directed :: "cpdag \<Rightarrow> dense_id \<Rightarrow> dense_id \<Rightarrow> ((graph_error + unit) \<times> cpdag) option" where
  "cp_insert_directed g src tgt = cp_insert_marked g (me_directed src tgt)"

definition cp_insert_undirected :: "cpdag \<Rightarrow> dense_id \<Rightarrow> dense_id \<Rightarrow> ((graph_error + unit) \<times> cpdag) option" where
  "cp_insert_undirected g a b = cp_insert_marked g (me_undirected a b)"

fun cp_insert_named ::
  "causal_schema \<Rightarrow> (string \<times> string) list \<Rightarrow> cpdag \<Rightarrow> ((graph_error + unit) \<times> cpdag) option" where
  "cp_insert_named s [] g = Some (Inr (), g)"
| "cp_insert_named s ((from_name, to_name) # rest) g =
     (case resolve_named_edge s from_name to_name of
        Inl err \<Rightarrow> Some (Inl err, g)
      | Inr (src, tgt) \<Rightarrow> pbind (cp_insert_directed g src tgt) (\<lambda>_ g'. cp_insert_named s rest g'))"

definition cp_from_named_edges ::
  "causal_schema \<Rightarrow> (string \<times> string) list \<Rightarrow> (graph_error + cpdag) option" where
  "cp_from_named_edges s edges =
     (case schema_node_count s of
        Inl e \<Rightarrow> Some (Inl e)
      | Inr n \<Rightarrow>
          map_option (\<lambda>(r, g). case r of Inl e \<Rightarrow> Inl e | Inr _ \<Rightarrow> Inr g)
            (cp_insert_named s edges (cp_with_variables n)))"

definition with_valid_pair ::
  "cpdag \<Rightarrow> dense_id \<Rightarrow> dense_id \<Rightarrow> ((graph_error + unit) \<times> cpdag) option \<Rightarrow>
    ((graph_error + unit) \<times> cpdag) option" where
  "with_valid_pair g a b k =
     (case rbind (cp_validate_node g a) (\<lambda>_. cp_validate_node g b) of
        Inl e \<Rightarrow> Some (Inl e, g) | Inr _ \<Rightarrow> k)"

definition cp_remove_edge :: "cpdag \<Rightarrow> dense_id \<Rightarrow> dense_id \<Rightarrow> ((graph_error + unit) \<times> cpdag) option" where
  "cp_remove_edge g a b =
     with_valid_pair g a b (map_option (\<lambda>adj. (Inr (), g\<lparr>cp_adj := adj\<rparr>)) (ms_remove_edge (cp_adj g) a b))"

definition cp_orient_undirected ::
  "cpdag \<Rightarrow> dense_id \<Rightarrow> dense_id \<Rightarrow> ((graph_error + unit) \<times> cpdag) option" where
  "cp_orient_undirected g src tgt =
     with_valid_pair g src tgt (lift_adj g (orient_undirected_finish (cp_adj g) src tgt))"

definition cp_mark_conflict :: "cpdag \<Rightarrow> dense_id \<Rightarrow> dense_id \<Rightarrow> ((graph_error + unit) \<times> cpdag) option" where
  "cp_mark_conflict g a b = with_valid_pair g a b (lift_adj g (mark_conflict_finish (cp_adj g) a b))"

text \<open>\<open>adjacent\<close> indexes the adjacency with an id checked against the node table only.\<close>

definition cp_adjacent :: "cpdag \<Rightarrow> dense_id \<Rightarrow> dense_id list option" where
  "cp_adjacent g i =
     (if i \<ge> cp_node_count g then Some []
      else if i < length (cp_adj g) then Some (map ae_neighbor (cp_adj g ! i)) else None)"

section \<open>Conversions\<close>

text \<open>\<open>let _ = g.insert_directed(from, to)\<close> over the edges of a DAG.\<close>

fun cp_insert_arrows :: "(cpdag \<Rightarrow> dense_id \<Rightarrow> dense_id \<Rightarrow> ((graph_error + unit) \<times> cpdag) option) \<Rightarrow>
    marked_edge list \<Rightarrow> cpdag \<Rightarrow> cpdag option" where
  "cp_insert_arrows ins [] g = Some g"
| "cp_insert_arrows ins (e # es) g =
     (case parent_child e of
        None \<Rightarrow> cp_insert_arrows ins es g
      | Some (src, tgt) \<Rightarrow>
          (case ins g src tgt of None \<Rightarrow> None | Some (_, g') \<Rightarrow> cp_insert_arrows ins es g'))"

definition cp_from_dag :: "dag \<Rightarrow> cpdag option" where
  "cp_from_dag d = cp_insert_arrows cp_insert_directed (dag_edges d) (cp_add_nodes cp_empty (dag_nodes d))"

definition cp_to_directed_skeleton :: "cpdag \<Rightarrow> (graph_error + dag) option" where
  "cp_to_directed_skeleton g =
     (case for_each (\<lambda>n d. case dag_add_node d n of (Inl e, d') \<Rightarrow> (Inl e, d') | (Inr _, d') \<Rightarrow> (Inr (), d'))
            (cp_nodes g) dag_empty of
        (Inl e, _) \<Rightarrow> Some (Inl e)
      | (Inr _, d) \<Rightarrow>
          map_option (\<lambda>(r, d'). case r of Inl e \<Rightarrow> Inl e | Inr _ \<Rightarrow> Inr d')
            (try_each (insert_arrow dag_insert_directed) (cp_edges g) d))"

text \<open>The scan of \<open>try_into_dag\<close>: the first edge that is not directed decides the message.\<close>

fun undirected_left :: "string \<Rightarrow> string \<Rightarrow> marked_edge list \<Rightarrow> graph_error option" where
  "undirected_left und_msg conf_msg [] = None"
| "undirected_left und_msg conf_msg (e # es) =
     (if is_undirected e then Some (InvalidEndpoints und_msg)
      else if is_conflict e then Some (InvalidEndpoints conf_msg)
      else undirected_left und_msg conf_msg es)"

definition cp_try_into_dag :: "cpdag \<Rightarrow> (graph_error + dag) option" where
  "cp_try_into_dag g =
     (case undirected_left ''cannot complete Cpdag to Dag while undirected edges remain''
             ''cannot complete Cpdag to Dag while conflict edges remain'' (cp_edges g) of
        Some e \<Rightarrow> Some (Inl e)
      | None \<Rightarrow> cp_to_directed_skeleton g)"

definition cp_variable_id :: "cpdag \<Rightarrow> dense_id \<Rightarrow> variable_id option" where
  "cp_variable_id g i =
     (if i < length (cp_nodes g) then (case cp_nodes g ! i of Static v \<Rightarrow> Some v | _ \<Rightarrow> None) else None)"

section \<open>Review artifact\<close>

record cpdag_review =
  cr_graph :: cpdag
  cr_pending_edges :: "(variable_id \<times> variable_id) list"
  cr_pending_undirected :: "(variable_id \<times> variable_id) list"
  cr_algorithm :: string

fun cr_pending :: "cpdag \<Rightarrow> marked_edge list \<Rightarrow>
    (variable_id \<times> variable_id) list \<times> (variable_id \<times> variable_id) list" where
  "cr_pending g [] = ([], [])"
| "cr_pending g (e # es) =
     (case cr_pending g es of
        (pending, undirected) \<Rightarrow>
          (case parent_child e of
             Some (src, tgt) \<Rightarrow>
               (case (cp_variable_id g src, cp_variable_id g tgt) of
                  (Some fv, Some tv) \<Rightarrow> ((fv, tv) # pending, undirected)
                | _ \<Rightarrow> (pending, undirected))
           | None \<Rightarrow>
               (if is_undirected e
                then (case (cp_variable_id g (me_a e), cp_variable_id g (me_b e)) of
                        (Some av, Some bv) \<Rightarrow>
                          (pending, (if av \<le> bv then (av, bv) else (bv, av)) # undirected)
                      | _ \<Rightarrow> (pending, undirected))
                else (pending, undirected))))"

definition cr_from_cpdag :: "cpdag \<Rightarrow> string \<Rightarrow> cpdag_review" where
  "cr_from_cpdag g algorithm =
     (case cr_pending g (cp_edges g) of
        (pending, undirected) \<Rightarrow>
          \<lparr>cr_graph = g, cr_pending_edges = pending, cr_pending_undirected = undirected,
           cr_algorithm = algorithm\<rparr>)"

definition cr_accept_edge :: "cpdag_review \<Rightarrow> variable_id \<Rightarrow> variable_id \<Rightarrow> cpdag_review" where
  "cr_accept_edge r src tgt = r\<lparr>cr_pending_edges := without_pending (cr_pending_edges r) (src, tgt)\<rparr>"

definition cr_resolve_var :: "cpdag_review \<Rightarrow> variable_id \<Rightarrow> graph_error + dense_id" where
  "cr_resolve_var r var =
     (case find (\<lambda>i. cp_variable_id (cr_graph r) i = Some var) [0..<cp_node_count (cr_graph r)] of
        Some i \<Rightarrow> Inr i | None \<Rightarrow> Inl (UnknownNode var))"

text \<open>\<open>orient_edge\<close> consumes the review: an error drops it.\<close>

definition cr_orient_edge ::
  "cpdag_review \<Rightarrow> variable_id \<Rightarrow> variable_id \<Rightarrow> (graph_error + cpdag_review) option" where
  "cr_orient_edge r src tgt =
     (case rbind (cr_resolve_var r src) (\<lambda>s. rbind (cr_resolve_var r tgt) (\<lambda>t. Inr (s, t))) of
        Inl e \<Rightarrow> Some (Inl e)
      | Inr (s, t) \<Rightarrow>
          (case cp_orient_undirected (cr_graph r) s t of
             None \<Rightarrow> None
           | Some (Inl e, _) \<Rightarrow> Some (Inl e)
           | Some (Inr _, g) \<Rightarrow>
               (case orient_pending (cr_pending_edges r) (cr_pending_undirected r) src tgt of
                  (pending, undirected) \<Rightarrow>
                    Some (Inr (r\<lparr>cr_graph := g, cr_pending_edges := pending,
                                 cr_pending_undirected := undirected\<rparr>)))))"

definition cr_is_complete :: "cpdag_review \<Rightarrow> bool" where
  "cr_is_complete r \<longleftrightarrow> cr_pending_edges r = [] \<and> cr_pending_undirected r = []"

definition cr_try_into_dag :: "cpdag_review \<Rightarrow> (graph_error + dag) option" where
  "cr_try_into_dag r =
     (if \<not> cr_is_complete r
      then Some (Inl (InvalidEndpoints ''CpdagReview is incomplete; accept directed and orient undirected edges first''))
      else cp_try_into_dag (cr_graph r))"

section \<open>The invariant\<close>

definition cpdag_marks :: "endpoint \<Rightarrow> endpoint \<Rightarrow> bool" where
  "cpdag_marks p q \<longleftrightarrow> (p, q) \<in> {(Tail, Arrow), (Arrow, Tail), (Tail, Tail), (Conflict, Conflict)}"

lemma is_cpdag_legal_marks: "is_cpdag_legal e \<longleftrightarrow> cpdag_marks (me_at_a e) (me_at_b e)"
  by (auto simp: is_cpdag_legal_def cpdag_marks_def split: endpoint.split)

lemma cpdag_marks_sym: "cpdag_marks p q = cpdag_marks q p"
  by (auto simp: cpdag_marks_def)

definition cp_rel :: "cpdag \<Rightarrow> (dense_id \<times> dense_id) set" where
  "cp_rel g = ms_rel (cp_adj g)"

definition cp_marks :: "cpdag \<Rightarrow> dense_id \<Rightarrow> dense_id \<Rightarrow> marks option" where
  "cp_marks g = ms_marks (cp_adj g)"

text \<open>\<open>cp_wf\<close> is what both CPDAG types keep; each adds which nodes it admits.\<close>

definition cp_wf :: "cpdag \<Rightarrow> bool" where
  "cp_wf g \<longleftrightarrow> ms_inv (cp_adj g) \<and> length (cp_adj g) = length (cp_nodes g) \<and> length (cp_nodes g) \<le> id_space \<and>
     marks_all (\<lambda>_ _. cpdag_marks) (cp_marks g)"

definition cpdag_inv :: "cpdag \<Rightarrow> bool" where
  "cpdag_inv g \<longleftrightarrow> cp_wf g \<and> (\<forall>n \<in> set (cp_nodes g). is_static_graph_node n)"

interpretation cpg: marked_graph cp_wf cp_node_count cp_adj
  by unfold_locales (simp_all add: cp_wf_def cp_node_count_def)

lemma cpdag_inv_wf [wf_simps]: "cpdag_inv g \<Longrightarrow> cp_wf g"
  by (simp add: cpdag_inv_def)

lemma cp_wfD [wf_simps]:
  assumes "cp_wf g"
  shows "ms_inv (cp_adj g)" "ms_wf (cp_adj g)" "length (cp_adj g) = cp_node_count g" "cp_node_count g \<le> id_space"
    "marks_all (\<lambda>_ _. cpdag_marks) (cp_marks g)"
  using assms by (simp_all add: cp_wf_def cp_node_count_def ms_inv_def)

lemma cp_empty_wf: "cp_wf cp_empty" "cp_rel cp_empty = {}" "cp_marks cp_empty = (\<lambda>_ _. None)"
  by (auto simp: cp_wf_def cp_empty_def ms_inv_def ms_wf_def ms_rows_def marks_sym_def marks_all_def cp_marks_def
      cp_rel_def ms_rel_def marks_rel_def acyclic_def fun_eq_iff ms_marks_def)

lemma cp_push_node_spec:
  assumes "cp_wf g"
  shows "cp_node_count g < id_space \<Longrightarrow> \<exists>g'. cp_push_node g n = (Inr (cp_node_count g), g') \<and> cp_wf g' \<and>
      cp_nodes g' = cp_nodes g @ [n] \<and> cp_marks g' = cp_marks g"
    and "cp_node_count g \<ge> id_space \<Longrightarrow> cp_push_node g n = (Inl TooManyNodes, g)"
proof -
  let ?g = "g\<lparr>cp_nodes := cp_nodes g @ [n], cp_adj := cp_adj g @ [[]]\<rparr>"
  assume small: "cp_node_count g < id_space"
  have "marks_sym (length (cp_adj g) + 1) (ms_marks (cp_adj g))"
    by (rule marks_sym_mono[OF ms_wfD(2)[OF cp_wfD(2)[OF assms]]]) simp
  then have "ms_inv (cp_adj ?g)"
    using cp_wfD(1)[OF assms] by (simp add: ms_inv_def ms_wf_def ms_rows_def ms_rel_def)
  then have "cp_wf ?g" using assms small by (simp add: cp_wf_def cp_marks_def cp_node_count_def)
  then show "\<exists>g'. cp_push_node g n = (Inr (cp_node_count g), g') \<and> cp_wf g' \<and>
      cp_nodes g' = cp_nodes g @ [n] \<and> cp_marks g' = cp_marks g"
    using small by (simp add: cp_push_node_def try_from_usize_def cp_node_count_def cp_marks_def)
next
  show "cp_node_count g \<ge> id_space \<Longrightarrow> cp_push_node g n = (Inl TooManyNodes, g)"
    by (simp add: cp_push_node_def try_from_usize_def cp_node_count_def)
qed

section \<open>Insertion and orientation\<close>

definition cp_refusal :: "cpdag \<Rightarrow> marked_edge \<Rightarrow> graph_error option" where
  "cp_refusal g e =
     (if \<not> is_cpdag_legal e
      then Some (InvalidEndpoints cpdag_marks_message)
      else if me_a e \<ge> cp_node_count g then Some (UnknownNode (me_a e))
      else if me_b e \<ge> cp_node_count g then Some (UnknownNode (me_b e))
      else if me_a e = me_b e then Some (Cycle (me_a e) (me_b e))
      else insert_refusal (cp_adj g) e)"

lemma cp_insert_marked_cases:
  assumes "cp_wf g"
  obtains (refused) err where "cp_refusal g e = Some err" "cp_insert_marked g e = Some (Inl err, g)"
  | (inserted) g' where "cp_refusal g e = None" "cp_insert_marked g e = Some (Inr (), g')" "cp_wf g'"
      "cp_nodes g' = cp_nodes g" "me_a e < cp_node_count g" "me_b e < cp_node_count g" "me_a e \<noteq> me_b e"
      "cp_marks g' = set_pair (cp_marks g) (me_a e) (me_b e) (Some (me_at_a e, me_at_b e, me_middle e))"
proof (cases "is_cpdag_legal e \<and> me_a e < cp_node_count g \<and> me_b e < cp_node_count g \<and> me_a e \<noteq> me_b e")
  case False
  then show thesis using refused
    by (cases "is_cpdag_legal e"; cases "me_a e < cp_node_count g"; cases "me_b e < cp_node_count g")
      (simp_all add: cp_refusal_def cp_insert_marked_def cp_validate_node_def)
next
  case True
  then have run: "cp_insert_marked g e = lift_adj g (insert_marked_finish (cp_adj g) e)"
    "cp_refusal g e = insert_refusal (cp_adj g) e"
    by (simp_all add: cp_insert_marked_def cp_validate_node_def cp_refusal_def)
  have bounds: "me_a e < length (cp_adj g)" "me_b e < length (cp_adj g)" "me_a e \<noteq> me_b e"
    using True cp_wfD(3)[OF assms] by simp_all
  from cp_wfD(1)[OF assms] bounds show thesis
  proof (cases rule: insert_marked_finish_spec)
    case (refused err)
    then show thesis using that(1) run by (simp add: lift_adj_def)
  next
    case (inserted adj')
    have "marks_all (\<lambda>_ _. cpdag_marks) (ms_marks adj')"
      unfolding inserted(5) using True cp_wfD(5)[OF assms] cpdag_marks_sym[of "me_at_b e" "me_at_a e"]
      by (intro marks_all_set_pair) (auto simp: is_cpdag_legal_marks cp_marks_def)
    then have "cp_wf (g\<lparr>cp_adj := adj'\<rparr>)"
      using inserted(3,4) assms by (simp add: cp_wf_def cp_marks_def)
    with inserted True run show thesis
      using that(2)[of "g\<lparr>cp_adj := adj'\<rparr>"] by (simp add: lift_adj_def cp_marks_def)
  qed
qed

lemma with_valid_pair_simps:
  "a < cp_node_count g \<Longrightarrow> b < cp_node_count g \<Longrightarrow> with_valid_pair g a b k = k"
  "a \<ge> cp_node_count g \<Longrightarrow> with_valid_pair g a b k = Some (Inl (UnknownNode a), g)"
  "a < cp_node_count g \<Longrightarrow> b \<ge> cp_node_count g \<Longrightarrow> with_valid_pair g a b k = Some (Inl (UnknownNode b), g)"
  by (simp_all add: with_valid_pair_def cp_validate_node_def)

lemma cp_update_wf:
  assumes "cp_wf g" "ms_inv adj'" "length adj' = length (cp_adj g)" "ms_marks adj' = set_pair (cp_marks g) a b k"
    "\<And>p q m. k = Some (p, q, m) \<Longrightarrow> cpdag_marks p q"
  shows "cp_wf (g\<lparr>cp_adj := adj'\<rparr>)"
proof -
  have "marks_all (\<lambda>_ _. cpdag_marks) (ms_marks adj')"
    unfolding assms(4) using cp_wfD(5)[OF assms(1)] assms(5) cpdag_marks_sym by (intro marks_all_set_pair) blast+
  then show ?thesis using assms by (simp add: cp_wf_def cp_marks_def)
qed

definition cp_orient_refusal :: "cpdag \<Rightarrow> dense_id \<Rightarrow> dense_id \<Rightarrow> graph_error option" where
  "cp_orient_refusal g src tgt =
     (if src \<ge> cp_node_count g then Some (UnknownNode src)
      else if tgt \<ge> cp_node_count g then Some (UnknownNode tgt)
      else case cp_marks g src tgt of
        None \<Rightarrow> Some (UnknownNode src)
      | Some (Tail, Tail, _) \<Rightarrow> (if (tgt, src) \<in> (cp_rel g)\<^sup>* then Some (Cycle src tgt) else None)
      | _ \<Rightarrow> Some (InvalidEndpoints orient_undirected_message))"

lemma cp_orient_undirected_cases:
  assumes "cp_wf g"
  obtains (refused) err where "cp_orient_refusal g src tgt = Some err"
      "cp_orient_undirected g src tgt = Some (Inl err, g)"
  | (oriented) m g' where "cp_orient_refusal g src tgt = None" "cp_orient_undirected g src tgt = Some (Inr (), g')"
      "cp_wf g'" "cp_nodes g' = cp_nodes g" "cp_marks g src tgt = Some (Tail, Tail, m)"
      "cp_marks g' = set_pair (cp_marks g) src tgt (Some (Tail, Arrow, m))"
      "cp_rel g' = insert (src, tgt) (cp_rel g)"
proof (cases "src < cp_node_count g \<and> tgt < cp_node_count g")
  case False
  then show thesis using refused
    by (cases "src < cp_node_count g") (simp_all add: cp_orient_refusal_def cp_orient_undirected_def with_valid_pair_simps)
next
  case True
  then have run: "cp_orient_undirected g src tgt = lift_adj g (orient_undirected_finish (cp_adj g) src tgt)"
    by (simp add: cp_orient_undirected_def with_valid_pair_simps)
  from cp_wfD(1)[OF assms] show thesis
  proof (cases rule: orient_undirected_finish_spec[where src = src and tgt = tgt])
    case missing
    then show thesis using refused True run by (simp add: cp_orient_refusal_def lift_adj_def cp_marks_def)
  next
    case (oriented_already p q m)
    then show thesis using refused True run
      by (cases p; cases q) (simp_all add: cp_orient_refusal_def lift_adj_def cp_marks_def)
  next
    case (cycle m)
    then show thesis using refused True run
      by (simp add: cp_orient_refusal_def lift_adj_def cp_marks_def cp_rel_def)
  next
    case (oriented m adj')
    have "cp_wf (g\<lparr>cp_adj := adj'\<rparr>)"
      by (rule cp_update_wf[OF assms oriented(4,5) oriented(6)[folded cp_marks_def]]) (simp add: cpdag_marks_def)
    with oriented True run show thesis using that(2)[of "g\<lparr>cp_adj := adj'\<rparr>" m]
      by (simp add: cp_orient_refusal_def lift_adj_def cp_marks_def cp_rel_def)
  qed
qed

lemma cp_mark_conflict_cases:
  assumes "cp_wf g"
  obtains (refused) err where "cp_mark_conflict g a b = Some (Inl err, g)"
      "\<not> (a < cp_node_count g \<and> b < cp_node_count g \<and> cp_marks g a b \<noteq> None)"
  | (pinned) m g' where "cp_mark_conflict g a b = Some (Inr (), g')" "cp_wf g'" "cp_nodes g' = cp_nodes g"
      "cp_marks g' = set_pair (cp_marks g) a b (Some (Conflict, Conflict, m))"
proof (cases "a < cp_node_count g \<and> b < cp_node_count g")
  case False
  then show thesis using refused by (cases "a < cp_node_count g") (simp_all add: cp_mark_conflict_def with_valid_pair_simps)
next
  case True
  then have run: "cp_mark_conflict g a b = lift_adj g (mark_conflict_finish (cp_adj g) a b)"
    by (simp add: cp_mark_conflict_def with_valid_pair_simps)
  from cp_wfD(1)[OF assms] show thesis
  proof (cases rule: mark_conflict_finish_spec[where a = a and b = b])
    case missing
    then show thesis using refused run by (simp add: lift_adj_def cp_marks_def)
  next
    case (pinned p q m adj')
    have "cp_wf (g\<lparr>cp_adj := adj'\<rparr>)"
      by (rule cp_update_wf[OF assms pinned(3,4) pinned(5)[folded cp_marks_def]]) (simp add: cpdag_marks_def)
    with pinned run show thesis using that(2)[of "g\<lparr>cp_adj := adj'\<rparr>" m] by (simp add: lift_adj_def cp_marks_def)
  qed
qed

text \<open>Removing an absent edge is accepted and changes nothing.\<close>

lemma cp_remove_edge_spec:
  assumes "cp_wf g" "a < cp_node_count g" "b < cp_node_count g" "a \<noteq> b"
  shows "\<exists>g'. cp_remove_edge g a b = Some (Inr (), g') \<and> cp_wf g' \<and> cp_nodes g' = cp_nodes g \<and>
    cp_marks g' = set_pair (cp_marks g) a b None"
proof -
  have bounds: "a < length (cp_adj g)" "b < length (cp_adj g)" using assms cp_wfD(3)[OF assms(1)] by simp_all
  obtain adj' where r: "ms_remove_edge (cp_adj g) a b = Some adj'" "length adj' = length (cp_adj g)" "ms_wf adj'"
      "ms_marks adj' = set_pair (cp_marks g) a b None"
    using ms_remove_edge_spec[OF cp_wfD(2)[OF assms(1)] bounds assms(4)] unfolding cp_marks_def by blast
  have "ms_inv adj'"
    by (rule set_marks_inv[OF cp_wfD(1)[OF assms(1)] r(3) assms(4) r(4)[unfolded cp_marks_def]])
      (simp add: marks_arrow_def)
  then have "cp_wf (g\<lparr>cp_adj := adj'\<rparr>)" using cp_update_wf[OF assms(1) _ r(2,4)] by simp
  then show ?thesis using r assms by (simp add: cp_remove_edge_def with_valid_pair_simps cp_marks_def)
qed

section \<open>Construction\<close>

lemma cp_remove_edge_cases:
  assumes "cp_wf g"
  obtains (refused) err where "cp_remove_edge g a b = Some (Inl err, g)" "\<not> (a < cp_node_count g \<and> b < cp_node_count g)"
  | (same) "a = b" "cp_remove_edge g a b = Some (Inr (), g)"
  | (removed) g' where "a \<noteq> b" "cp_remove_edge g a b = Some (Inr (), g')" "cp_wf g'" "cp_nodes g' = cp_nodes g"
      "cp_marks g' = set_pair (cp_marks g) a b None"
proof (cases "a < cp_node_count g \<and> b < cp_node_count g")
  case False
  then show thesis using refused
    by (cases "a < cp_node_count g") (simp_all add: cp_remove_edge_def with_valid_pair_simps)
next
  case True
  show thesis
  proof (cases "a = b")
    case eq: True
    have len: "a < length (cp_adj g)" using True cp_wfD(3)[OF assms] by simp
    have "ms_marks (cp_adj g) a a = None"
      using ms_wfD(2)[OF cp_wfD(2)[OF assms]] unfolding marks_sym_def by (cases "ms_marks (cp_adj g) a a") blast+
    then have "a \<notin> ae_neighbor ` set (cp_adj g ! a)" using len by (simp add: ms_marks_nth row_marks_None)
    then have "filter (\<lambda>e. ae_neighbor e \<noteq> a) (cp_adj g ! a) = cp_adj g ! a" by (auto intro!: filter_True)
    then show thesis using same True eq len by (simp add: cp_remove_edge_def with_valid_pair_simps ms_remove_edge_def)
  next
    case False
    then show thesis using removed True cp_remove_edge_spec[OF assms] by blast
  qed
qed

lemma cp_add_nodes_spec:
  assumes "cp_wf g" "\<forall>n \<in> set ns. is_static_graph_node n" "cp_node_count g + length ns \<le> id_space"
  shows "cp_wf (cp_add_nodes g ns) \<and> cp_nodes (cp_add_nodes g ns) = cp_nodes g @ ns \<and>
    cp_marks (cp_add_nodes g ns) = cp_marks g"
  using assms
proof (induction ns arbitrary: g)
  case (Cons n ns)
  then obtain g' where g': "cp_add_node g n = (Inr (cp_node_count g), g')" "cp_wf g'" "cp_nodes g' = cp_nodes g @ [n]"
      "cp_marks g' = cp_marks g"
    using cp_push_node_spec(1)[OF Cons.prems(1), of n] by (auto simp: cp_add_node_def)
  then show ?case using Cons.IH[OF g'(2)] Cons.prems(2,3) by (simp add: cp_node_count_def)
qed simp

definition cp_all_directed :: "cpdag \<Rightarrow> bool" where
  "cp_all_directed g \<longleftrightarrow>
     marks_all (\<lambda>_ _ p q. p = Tail \<and> q = Arrow \<or> p = Arrow \<and> q = Tail) (cp_marks g)"

interpretation ci: arrow_insertion "\<lambda>g. cp_wf g \<and> cp_all_directed g" cp_node_count cp_rel cp_insert_directed
  "\<lambda>_ _ _. True" "\<lambda>g s t. cp_marks g s t = None" cp_nodes
proof unfold_locales
  fix g s t
  assume a: "cp_wf g \<and> cp_all_directed g" "s < cp_node_count g" "t < cp_node_count g" "cp_marks g s t = None"
    "(t, s) \<notin> (cp_rel g)\<^sup>*"
  let ?e = "me_directed s t"
  have st: "s \<noteq> t" using a(5) by auto
  have "cp_refusal g ?e = None"
    using a st by (simp add: cp_refusal_def insert_refusal_def me_directed_def is_cpdag_legal_def
        parent_child_def cp_marks_def cp_rel_def)
  then obtain g' where g': "cp_insert_marked g ?e = Some (Inr (), g')" "cp_wf g'" "cp_nodes g' = cp_nodes g"
      "cp_marks g' = set_pair (cp_marks g) s t (Some (Tail, Arrow, Empty))"
    using cp_insert_marked_cases[of g ?e] a(1) by (auto simp: me_directed_def)
  have mirror: "cp_marks g t s = None"
    using marks_sym_None[OF ms_wfD(2)[OF cp_wfD(2)]] a(1,4) unfolding cp_marks_def by blast
  then have "(s, t) \<notin> cp_rel g" "(t, s) \<notin> cp_rel g" using a(4) by (simp_all add: cp_rel_def ms_rel_iff cp_marks_def)
  then have rel: "cp_rel g' = insert (s, t) (cp_rel g)"
    using marks_rel_set_pair[OF st, of "cp_marks g" "Some (Tail, Arrow, Empty)"] g'(4)
    by (simp add: cp_rel_def ms_rel_def cp_marks_def marks_arrow_def)
  have dir: "cp_all_directed g'"
    unfolding cp_all_directed_def g'(4) by (rule marks_all_set_pair) (use a(1) in \<open>auto simp: cp_all_directed_def\<close>)
  have "\<forall>u v. cp_marks g u v = None \<longrightarrow> (u, v) \<noteq> (s, t) \<longrightarrow> (u, v) \<noteq> (t, s) \<longrightarrow> cp_marks g' u v = None"
    unfolding g'(4) by (simp add: set_pair_def)
  with g' rel dir show "\<exists>g'. cp_insert_directed g s t = Some (Inr (), g') \<and> (cp_wf g' \<and> cp_all_directed g') \<and>
      cp_rel g' = insert (s, t) (cp_rel g) \<and> cp_nodes g' = cp_nodes g \<and>
      (\<forall>u v. cp_marks g u v = None \<longrightarrow> (u, v) \<noteq> (s, t) \<longrightarrow> (u, v) \<noteq> (t, s) \<longrightarrow> cp_marks g' u v = None)"
    by (simp add: cp_insert_directed_def)
qed (simp add: cp_node_count_def)

lemma cp_insert_arrows_each:
  "try_each (insert_arrow ins) es g = Some (Inr (), g') \<Longrightarrow> cp_insert_arrows ins es g = Some g'"
proof (induction es arbitrary: g)
  case (Cons e es)
  show ?case
  proof (cases "parent_child e")
    case None
    then show ?thesis using Cons by (simp add: insert_arrow_simps)
  next
    case (Some st)
    obtain s t where st: "st = (s, t)" by fastforce
    from Cons.prems Some st obtain g1 where g1: "ins g s t = Some (Inr (), g1)"
        "try_each (insert_arrow ins) es g1 = Some (Inr (), g')"
      by (cases "ins g s t") (auto simp: insert_arrow_simps pbind_def split: sum.splits prod.splits)
    then show ?thesis using Cons.IH[OF g1(2)] Some st by simp
  qed
qed simp

lemma arrow_pairs_marked_edges:
  assumes "dc_wf g"
  shows "set (arrow_pairs (dc_marked_edges g)) = dc_rel g" "distinct (arrow_pairs (dc_marked_edges g))"
proof -
  have "arrow_pairs (map (\<lambda>(u, v). me_directed u v) es) = es" for es by (induction es) auto
  then have "arrow_pairs (dc_marked_edges g) = dc_pairs g" by (simp add: dc_marked_edges_pairs)
  then show "set (arrow_pairs (dc_marked_edges g)) = dc_rel g" "distinct (arrow_pairs (dc_marked_edges g))"
    using set_dc_pairs[of g] distinct_dc_pairs[OF assms] by (simp_all add: dc_pairs_def)
qed

lemma cp_from_dag_spec:
  assumes "dag_inv d"
  shows "\<exists>g. cp_from_dag d = Some g \<and> cpdag_inv g \<and> cp_all_directed g \<and> cp_nodes g = dag_nodes d \<and> cp_rel g = dag_rel d"
proof -
  let ?g0 = "cp_add_nodes cp_empty (dag_nodes d)"
  have stat: "\<forall>n \<in> set (dag_nodes d). is_static_graph_node n" using assms by (simp add: dag_inv_def)
  have count: "length (dag_nodes d) = dag_node_count d" by (simp add: dag_nodes_def dag_node_count_def dc_node_count_def)
  have small: "dag_node_count d \<le> id_space"
    using dc_wfD(4)[OF dag_inv_core(2)[OF assms]] by (simp add: dag_node_count_def)
  have g0: "cp_wf ?g0" "cp_nodes ?g0 = dag_nodes d" "cp_marks ?g0 = (\<lambda>_ _. None)"
    using cp_add_nodes_spec[OF cp_empty_wf(1) stat] small count cp_empty_wf(3)
    by (simp_all add: cp_node_count_def cp_empty_def)
  have rel0: "cp_rel ?g0 = {}" using g0(3) by (auto simp: cp_rel_def ms_rel_def marks_rel_def cp_marks_def)
  note pairs = arrow_pairs_marked_edges[OF dag_inv_core(2)[OF assms]]
  have "\<exists>g. try_each (\<lambda>(s, t) g. cp_insert_directed g s t) (arrow_pairs (dag_edges d)) ?g0 = Some (Inr (), g) \<and>
      (cp_wf g \<and> cp_all_directed g) \<and> cp_rel g = cp_rel ?g0 \<union> set (arrow_pairs (dag_edges d)) \<and> cp_nodes g = cp_nodes ?g0"
  proof (rule ci.accepts_all)
    show "cp_wf ?g0 \<and> cp_all_directed ?g0" using g0 by (simp add: cp_all_directed_def marks_all_def)
    show "distinct (arrow_pairs (dag_edges d))" using pairs(2) by (simp add: dag_edges_def)
    show "\<forall>(s, t) \<in> set (arrow_pairs (dag_edges d)). s < cp_node_count ?g0 \<and> t < cp_node_count ?g0 \<and> True \<and>
        cp_marks ?g0 s t = None"
      using pairs(1) dag_rel_bound[OF assms] g0(2,3) count
      by (auto simp: dag_edges_def dag_rel_def cp_node_count_def)
    show "acyclic (cp_rel ?g0 \<union> set (arrow_pairs (dag_edges d)))"
      using pairs(1) assms rel0 by (simp add: dag_edges_def dag_inv_def dc_inv_def)
  qed
  then obtain g where g: "try_each (insert_arrow cp_insert_directed) (dag_edges d) ?g0 = Some (Inr (), g)"
      "cp_wf g" "cp_all_directed g" "cp_rel g = dag_rel d" "cp_nodes g = dag_nodes d"
    using pairs(1) rel0 g0(2) unfolding try_each_insert_arrow by (auto simp: dag_edges_def dag_rel_def)
  have "cp_from_dag d = Some g" using cp_insert_arrows_each[OF g(1)] by (simp add: cp_from_dag_def)
  moreover have "cpdag_inv g" using g(2,5) stat by (simp add: cpdag_inv_def)
  ultimately show ?thesis using g by blast
qed

section \<open>Completing a CPDAG to a DAG\<close>

lemma dag_add_each_edgeless:
  assumes "edgeless ns (dag_directed d)" "\<forall>n \<in> set ms. is_static_graph_node n" "length ns + length ms \<le> id_space"
  shows "\<exists>d'. for_each (\<lambda>n d. case dag_add_node d n of (Inl e, d') \<Rightarrow> (Inl e, d') | (Inr _, d') \<Rightarrow> (Inr (), d')) ms d =
      (Inr (), d') \<and> edgeless (ns @ ms) (dag_directed d')"
  using assms
proof (induction ms arbitrary: ns d)
  case (Cons n ms)
  obtain d1 where d1: "dag_add_node d n = (Inr (length ns), d1)" "edgeless (ns @ [n]) (dag_directed d1)"
    using dag_add_node_edgeless[OF Cons.prems(1), of n] Cons.prems(2,3) by auto
  obtain d' where "for_each (\<lambda>n d. case dag_add_node d n of (Inl e, d') \<Rightarrow> (Inl e, d') | (Inr _, d') \<Rightarrow> (Inr (), d')) ms d1 =
      (Inr (), d')" "edgeless (ns @ n # ms) (dag_directed d')"
    using Cons.IH[OF d1(2)] Cons.prems(2,3) by auto
  then show ?case using d1 by simp
qed simp

lemma cp_to_directed_skeleton_spec:
  assumes "cpdag_inv g"
  shows "\<exists>d. cp_to_directed_skeleton g = Some (Inr d) \<and> dag_inv d \<and> dag_nodes d = cp_nodes g \<and> dag_rel d = cp_rel g"
proof -
  have wf: "cp_wf g" using assms by (rule cpdag_inv_wf)
  note arrows = cpg.arrows_listed[OF wf]
  obtain d0 where d0: "for_each (\<lambda>n d. case dag_add_node d n of (Inl e, d') \<Rightarrow> (Inl e, d') | (Inr _, d') \<Rightarrow> (Inr (), d'))
      (cp_nodes g) dag_empty = (Inr (), d0)" "edgeless (cp_nodes g) (dag_directed d0)"
    using dag_add_each_edgeless[of "[]" dag_empty "cp_nodes g"] assms cp_wfD(4)[OF wf]
    by (auto simp: edgeless_new dag_empty_def cpdag_inv_def cp_node_count_def)
  have e0: "dag_inv d0" "dag_rel d0 = {}" "dag_nodes d0 = cp_nodes g"
    using edgeless_inv[OF d0(2)] d0(2) assms cp_wfD(4)[OF wf]
    by (simp_all add: dag_inv_def dag_rel_def dag_nodes_def edgeless_def cpdag_inv_def cp_node_count_def)
  have "\<exists>d. try_each (\<lambda>(s, t) d. dag_insert_directed d s t) (arrow_pairs (cp_edges g)) d0 = Some (Inr (), d) \<and>
      dag_inv d \<and> dag_rel d = dag_rel d0 \<union> set (arrow_pairs (cp_edges g)) \<and> dag_nodes d = dag_nodes d0"
  proof (rule di.accepts_all[OF e0(1)])
    show "distinct (arrow_pairs (cp_edges g))" using arrows(2) by (simp add: cp_edges_def)
    show "\<forall>(s, t) \<in> set (arrow_pairs (cp_edges g)). s < dag_node_count d0 \<and> t < dag_node_count d0 \<and> True \<and>
        (s, t) \<notin> dag_rel d0"
      using arrows(1) cpg.arrow_range[OF wf] e0(2,3)
      by (auto simp: cp_edges_def cp_node_count_def dag_node_count_def dag_nodes_def dc_node_count_def)
    show "acyclic (dag_rel d0 \<union> set (arrow_pairs (cp_edges g)))" using arrows(1,3) e0(2) by (simp add: cp_edges_def)
  qed
  then obtain d where d: "try_each (insert_arrow dag_insert_directed) (cp_edges g) d0 = Some (Inr (), d)"
      "dag_inv d" "dag_rel d = cp_rel g" "dag_nodes d = cp_nodes g"
    using arrows(1) e0(2,3) unfolding try_each_insert_arrow by (auto simp: cp_edges_def cp_rel_def)
  then show ?thesis using d0(1) by (simp add: cp_to_directed_skeleton_def)
qed

lemma undirected_left_None:
  "undirected_left u c es = None \<longleftrightarrow> (\<forall>e \<in> set es. \<not> is_undirected e \<and> \<not> is_conflict e)"
  by (induction es) auto

lemma undirected_left_Some: "undirected_left u c es = Some e \<Longrightarrow> e = InvalidEndpoints u \<or> e = InvalidEndpoints c"
  by (induction es) (auto split: if_splits)

text \<open>The scan passes exactly when every stored edge is an arrow.\<close>

lemma no_undirected_left:
  assumes "cp_wf g"
  shows "undirected_left u c (cp_edges g) = None \<longleftrightarrow> cp_all_directed g"
proof -
  note edges = cpg.edges_complete[OF assms, folded cp_edges_def]
  have listed: "edge_of_marks a b k \<in> set (cp_edges g)" if "a < b" "cp_marks g a b = Some k" for a b k
    unfolding edges by (intro exI conjI refl) (use that in \<open>simp_all only: cp_marks_def\<close>)
  have legal: "cpdag_marks p q" if "cp_marks g a b = Some (p, q, m)" for a b p q m
    using cp_wfD(5)[OF assms] that unfolding marks_all_def by blast
  show ?thesis
  proof
    assume none: "undirected_left u c (cp_edges g) = None"
    show "cp_all_directed g"
      unfolding cp_all_directed_def marks_all_def
    proof (intro allI impI)
      fix a b p q m
      assume m: "cp_marks g a b = Some (p, q, m)"
      note sym = marks_symD[OF ms_wfD(2)[OF cp_wfD(2)[OF assms]] m[unfolded cp_marks_def]]
      have "\<exists>e \<in> set (cp_edges g). (me_at_a e = p \<and> me_at_b e = q) \<or> (me_at_a e = q \<and> me_at_b e = p)"
      proof (cases "a < b")
        case True
        then have "edge_of_marks a b (p, q, m) \<in> set (cp_edges g)"
          using m by (rule listed)
        then show ?thesis by (rule bexI[rotated]) (simp add: edge_of_marks_def)
      next
        case False
        then have "edge_of_marks b a (q, p, m) \<in> set (cp_edges g)"
          using listed[of b a] sym(3,4) by (simp add: cp_marks_def)
        then show ?thesis by (rule bexI[rotated]) (simp add: edge_of_marks_def)
      qed
      then show "p = Tail \<and> q = Arrow \<or> p = Arrow \<and> q = Tail"
        using none legal[OF m] unfolding undirected_left_None
        by (auto simp: is_undirected_def is_conflict_def cpdag_marks_def)
    qed
  next
    assume dir: "cp_all_directed g"
    show "undirected_left u c (cp_edges g) = None"
      unfolding undirected_left_None
    proof
      fix e assume "e \<in> set (cp_edges g)"
      then obtain a b p q m where e: "e = edge_of_marks a b (p, q, m)" "cp_marks g a b = Some (p, q, m)"
        using edges by (auto simp: cp_marks_def)
      have "p = Tail \<and> q = Arrow \<or> p = Arrow \<and> q = Tail"
        using dir e(2) unfolding cp_all_directed_def marks_all_def by blast
      then show "\<not> is_undirected e \<and> \<not> is_conflict e"
        unfolding e(1) by (auto simp: is_undirected_def is_conflict_def edge_of_marks_def)
    qed
  qed
qed

lemma cp_try_into_dag_spec:
  assumes "cpdag_inv g"
  shows "if cp_all_directed g
    then \<exists>d. cp_try_into_dag g = Some (Inr d) \<and> dag_inv d \<and> dag_nodes d = cp_nodes g \<and> dag_rel d = cp_rel g
    else \<exists>msg. cp_try_into_dag g = Some (Inl (InvalidEndpoints msg))"
proof -
  note left = no_undirected_left[OF cpdag_inv_wf[OF assms],
      of "''cannot complete Cpdag to Dag while undirected edges remain''"
         "''cannot complete Cpdag to Dag while conflict edges remain''"]
  show ?thesis
  proof (cases "cp_all_directed g")
    case True
    then show ?thesis using left cp_to_directed_skeleton_spec[OF assms] by (simp add: cp_try_into_dag_def)
  next
    case False
    then obtain e where "undirected_left ''cannot complete Cpdag to Dag while undirected edges remain''
        ''cannot complete Cpdag to Dag while conflict edges remain'' (cp_edges g) = Some e" using left by auto
    with undirected_left_Some[OF this] False show ?thesis by (auto simp: cp_try_into_dag_def)
  qed
qed

section \<open>Review\<close>

lemma cr_resolve_var_Inr:
  "cr_resolve_var r v = Inr i \<Longrightarrow> i < cp_node_count (cr_graph r) \<and> cp_variable_id (cr_graph r) i = Some v"
  by (auto simp: cr_resolve_var_def find_Some_iff split: option.splits)

lemma cr_orient_edge_spec:
  assumes "cpdag_inv (cr_graph r)"
  shows "(\<exists>err. cr_orient_edge r u v = Some (Inl err)) \<or>
    (\<exists>s t m r'. cr_resolve_var r u = Inr s \<and> cr_resolve_var r v = Inr t \<and>
      cp_marks (cr_graph r) s t = Some (Tail, Tail, m) \<and> cr_orient_edge r u v = Some (Inr r') \<and>
      cpdag_inv (cr_graph r') \<and> cp_nodes (cr_graph r') = cp_nodes (cr_graph r) \<and>
      cp_marks (cr_graph r') = set_pair (cp_marks (cr_graph r)) s t (Some (Tail, Arrow, m)) \<and>
      set (cr_pending_edges r') = insert (u, v) (set (cr_pending_edges r)) \<and>
      set (cr_pending_undirected r') = set (cr_pending_undirected r) - {(u, v), (v, u)})"
proof (cases "rbind (cr_resolve_var r u) (\<lambda>s. rbind (cr_resolve_var r v) (\<lambda>t. Inr (s, t)))")
  case (Inl e)
  then show ?thesis by (simp add: cr_orient_edge_def)
next
  case (Inr st)
  then obtain s t where st: "cr_resolve_var r u = Inr s" "cr_resolve_var r v = Inr t" "st = (s, t)" by auto
  obtain pe pu where o: "orient_pending (cr_pending_edges r) (cr_pending_undirected r) u v = (pe, pu)" by fastforce
  from cpdag_inv_wf[OF assms] show ?thesis
  proof (cases rule: cp_orient_undirected_cases[where src = s and tgt = t])
    case (refused err)
    then show ?thesis using st by (simp add: cr_orient_edge_def)
  next
    case (oriented m g')
    have "cpdag_inv g'" using oriented(3,4) assms by (simp add: cpdag_inv_def)
    then show ?thesis using st oriented o orient_pending_moves(1,2)[OF o] by (simp add: cr_orient_edge_def)
  qed
qed

end
