(* ===== verification/Temporal.thy ===== *)
theory Temporal
  imports Digraph_Interface Indexer
begin

text \<open>
  \<open>temporal.rs\<close>: the DAG over lagged nodes. It wraps the directed core and adds the lag rules: a node
  must be \<open>Lagged\<close>, a contemporaneous self-edge and an edge from the present into the past are
  refused. \<open>tdag_inv\<close> states what that buys: every edge runs from an equal or larger lag.
\<close>

record temporal_dag =
  td_directed :: directed_core

definition tdag_empty :: temporal_dag where
  "tdag_empty = \<lparr>td_directed = dc_new\<rparr>"

definition tdag_eq :: "temporal_dag \<Rightarrow> temporal_dag \<Rightarrow> bool" where
  "tdag_eq g h = dc_same_directed (td_directed g) (td_directed h)"

definition tdag_node_count :: "temporal_dag \<Rightarrow> nat" where
  "tdag_node_count g = dc_node_count (td_directed g)"

definition tdag_is_empty :: "temporal_dag \<Rightarrow> bool" where
  "tdag_is_empty g = dc_is_empty (td_directed g)"

definition tdag_nodes :: "temporal_dag \<Rightarrow> node_ref list" where
  "tdag_nodes g = dc_nodes (td_directed g)"

definition tdag_add_node :: "temporal_dag \<Rightarrow> node_ref \<Rightarrow> (graph_error + dense_id) \<times> temporal_dag" where
  "tdag_add_node g node =
     (case node of
        Lagged _ _ \<Rightarrow>
          (case dc_push_labeled (td_directed g) node of (r, c) \<Rightarrow> (r, g\<lparr>td_directed := c\<rparr>))
      | _ \<Rightarrow> (Inl (InvalidEndpoints ''TemporalDag accepts only Lagged nodes''), g))"

definition tdag_add_lagged ::
  "temporal_dag \<Rightarrow> variable_id \<Rightarrow> lag \<Rightarrow> (graph_error + dense_id) \<times> temporal_dag" where
  "tdag_add_lagged g v l = tdag_add_node g (Lagged v l)"

definition tdag_validate_node :: "temporal_dag \<Rightarrow> dense_id \<Rightarrow> graph_error + unit" where
  "tdag_validate_node g i = (if i \<ge> tdag_node_count g then Inl (UnknownNode i) else Inr ())"

definition tdag_insert_directed ::
  "temporal_dag \<Rightarrow> dense_id \<Rightarrow> dense_id \<Rightarrow> ((graph_error + unit) \<times> temporal_dag) option" where
  "tdag_insert_directed g src tgt =
     (let rules =
        rbind (tdag_validate_node g src) (\<lambda>_.
        rbind (tdag_validate_node g tgt) (\<lambda>_.
          (case (tdag_nodes g ! src, tdag_nodes g ! tgt) of
             (Lagged v1 l1, Lagged v2 l2) \<Rightarrow>
               (if v1 = v2 \<and> l1 = l2 \<and> lag_is_contemporaneous l1 then Inl (ContemporaneousSelfEdge v1)
                else reject_future_to_past (tdag_nodes g) src tgt)
           | _ \<Rightarrow> Inr ())))
      in case rules of
           Inl e \<Rightarrow> Some (Inl e, g)
         | Inr _ \<Rightarrow> map_option (\<lambda>(r, c). (r, g\<lparr>td_directed := c\<rparr>)) (dc_try_insert (td_directed g) src tgt))"

definition tdag_temporal_precheck :: "temporal_dag \<Rightarrow> dense_id \<Rightarrow> dense_id \<Rightarrow> bool" where
  "tdag_temporal_precheck g src tgt =
     (if tdag_validate_node g src \<noteq> Inr () \<or> tdag_validate_node g tgt \<noteq> Inr () then False
      else case (tdag_nodes g ! src, tdag_nodes g ! tgt) of
        (Lagged v1 l1, Lagged v2 l2) \<Rightarrow>
          (if v1 = v2 \<and> l1 = l2 \<and> lag_is_contemporaneous l1 then False
           else reject_future_to_past (tdag_nodes g) src tgt = Inr ())
      | _ \<Rightarrow> False)"

definition tdag_insert_directed_edges ::
  "temporal_dag \<Rightarrow> (dense_id \<times> dense_id) list \<Rightarrow> ((graph_error + unit) \<times> temporal_dag) option" where
  "tdag_insert_directed_edges g edges =
     (let one_by_one = try_each (\<lambda>(src, tgt) g'. tdag_insert_directed g' src tgt) edges g
      in if \<forall>(src, tgt) \<in> set edges. tdag_temporal_precheck g src tgt
         then (case dc_accepts_new_edges (td_directed g) edges of
                 None \<Rightarrow> None
               | Some True \<Rightarrow>
                   map_option (\<lambda>c. (Inr (), g\<lparr>td_directed := c\<rparr>)) (dc_push_edges (td_directed g) edges)
               | Some False \<Rightarrow> one_by_one)
         else one_by_one)"

text \<open>\<open>children\<close> and \<open>parents\<close> index the tables directly, so an unknown id panics.\<close>

definition tdag_children :: "temporal_dag \<Rightarrow> dense_id \<Rightarrow> dense_id list option" where
  "tdag_children g i =
     (if i < length (dc_children (td_directed g)) then Some (dc_children (td_directed g) ! i) else None)"

definition tdag_parents :: "temporal_dag \<Rightarrow> dense_id \<Rightarrow> dense_id list option" where
  "tdag_parents g i =
     (if i < length (dc_parents (td_directed g)) then Some (dc_parents (td_directed g) ! i) else None)"

definition tdag_edges :: "temporal_dag \<Rightarrow> marked_edge list" where
  "tdag_edges g = dc_marked_edges (td_directed g)"

definition tdag_directed_edge_pairs_sorted :: "temporal_dag \<Rightarrow> (nat \<times> nat) list" where
  "tdag_directed_edge_pairs_sorted g = dc_edge_pairs_sorted (td_directed g)"

definition tdag_reaches :: "temporal_dag \<Rightarrow> dense_id \<Rightarrow> dense_id \<Rightarrow> bool option" where
  "tdag_reaches g src tgt = dc_reaches (td_directed g) src tgt"

definition tdag_reaches_with ::
  "temporal_dag \<Rightarrow> dense_id \<Rightarrow> dense_id \<Rightarrow> graph_workspace \<Rightarrow> (bool \<times> graph_workspace) option" where
  "tdag_reaches_with g src tgt ws = dc_reaches_with (td_directed g) src tgt ws"

definition tdag_temporal_key :: "temporal_dag \<Rightarrow> dense_id \<Rightarrow> temporal_node_key option" where
  "tdag_temporal_key g i =
     (if i < length (tdag_nodes g)
      then (case tdag_nodes g ! i of
              Lagged v l \<Rightarrow> (if l < 2 ^ 31 then Some \<lparr>tk_variable = v, tk_offset = - int l\<rparr> else None)
            | _ \<Rightarrow> None)
      else None)"

section \<open>The invariant\<close>

definition tdag_rel :: "temporal_dag \<Rightarrow> (dense_id \<times> dense_id) set" where
  "tdag_rel g = dc_rel (td_directed g)"

definition tdag_lag :: "temporal_dag \<Rightarrow> dense_id \<Rightarrow> lag" where
  "tdag_lag g i = node_lag (tdag_nodes g ! i)"

definition tdag_var :: "temporal_dag \<Rightarrow> dense_id \<Rightarrow> variable_id" where
  "tdag_var g i = node_ref_variable (tdag_nodes g ! i)"

definition edge_respects_time :: "temporal_dag \<Rightarrow> dense_id \<Rightarrow> dense_id \<Rightarrow> bool" where
  "edge_respects_time g s t \<longleftrightarrow> tdag_lag g t \<le> tdag_lag g s \<and>
     \<not> (tdag_var g s = tdag_var g t \<and> tdag_lag g s = 0 \<and> tdag_lag g t = 0)"

text \<open>
  \<open>tdag_lagged\<close> is what one insertion needs to run; \<open>tdag_inv\<close> adds what the insertions have ensured.
\<close>

definition tdag_lagged :: "temporal_dag \<Rightarrow> bool" where
  "tdag_lagged g \<longleftrightarrow> dc_inv (td_directed g) \<and> (\<forall>n \<in> set (tdag_nodes g). is_Lagged n)"

definition tdag_inv :: "temporal_dag \<Rightarrow> bool" where
  "tdag_inv g \<longleftrightarrow> tdag_lagged g \<and> (\<forall>(s, t) \<in> tdag_rel g. edge_respects_time g s t)"

lemmas tdag_inv_defs = tdag_inv_def tdag_lagged_def

lemma tdag_inv_core [wf_simps]: "tdag_inv g \<Longrightarrow> dc_inv (td_directed g)" "tdag_inv g \<Longrightarrow> dc_wf (td_directed g)"
    "tdag_inv g \<Longrightarrow> tdag_lagged g"
  by (simp_all add: tdag_inv_defs dc_inv_def)

lemma tdag_node_lagged:
  assumes "tdag_lagged g" "i < tdag_node_count g"
  shows "tdag_nodes g ! i = Lagged (tdag_var g i) (tdag_lag g i)"
proof -
  have "tdag_nodes g ! i \<in> set (tdag_nodes g)" using assms(2)
    by (simp add: tdag_nodes_def tdag_node_count_def dc_node_count_def)
  then have "is_Lagged (tdag_nodes g ! i)" using assms(1) by (simp add: tdag_lagged_def)
  then show ?thesis by (cases "tdag_nodes g ! i") (simp_all add: tdag_var_def tdag_lag_def)
qed

lemma edge_respects_time_nodes:
  "tdag_nodes g = tdag_nodes h \<Longrightarrow> edge_respects_time g s t = edge_respects_time h s t"
  by (simp add: edge_respects_time_def tdag_lag_def tdag_var_def)

interpretation tg: digraph tdag_inv tdag_node_count "\<lambda>g. dc_children_of (td_directed g)" "\<lambda>g. dc_parents_of (td_directed g)"
proof unfold_locales
  fix g :: temporal_dag
  assume g: "tdag_inv g"
  show "u < tdag_node_count g \<and> v < tdag_node_count g" if "v \<in> set (dc_children_of (td_directed g) u)" for u v
    using dc_rel_bound[OF tdag_inv_core(2)[OF g]] that by (simp add: in_dc_children tdag_node_count_def)
  show "u \<in> set (dc_parents_of (td_directed g) v) \<longleftrightarrow> v \<in> set (dc_children_of (td_directed g) u)" for u v
    by (simp add: in_dc_children in_dc_parents tdag_inv_core(2)[OF g])
  show "acyclic (arcs (dc_children_of (td_directed g)))"
    using g by (simp add: tdag_inv_defs dc_inv_def)
qed

lemma tdag_empty_inv: "tdag_inv tdag_empty"
  by (simp add: tdag_inv_defs tdag_empty_def tdag_nodes_def dc_new_def dc_new_inv[unfolded dc_new_def]
      tdag_rel_def dc_rel_def)

lemma tdag_add_node_spec:
  assumes "tdag_inv g" "tdag_add_node g node = (r, g')"
  shows "tdag_inv g'" "tdag_rel g' = tdag_rel g"
    and "is_Lagged node \<Longrightarrow> tdag_node_count g < id_space \<Longrightarrow>
      r = Inr (tdag_node_count g) \<and> tdag_nodes g' = tdag_nodes g @ [node]"
    and "\<not> is_Lagged node \<or> tdag_node_count g \<ge> id_space \<Longrightarrow> g' = g \<and> (\<exists>e. r = Inl e)"
proof -
  note push = dc_push_labeled_spec[OF tdag_inv_core(1)[OF assms(1)]]
  show ok: "r = Inr (tdag_node_count g) \<and> tdag_nodes g' = tdag_nodes g @ [node]"
    if "is_Lagged node" "tdag_node_count g < id_space"
    using assms(2) that by (auto simp: tdag_add_node_def push(1) tdag_nodes_def tdag_node_count_def dc_push_node_def
        split: node_ref.splits)
  show refused: "g' = g \<and> (\<exists>e. r = Inl e)" if "\<not> is_Lagged node \<or> tdag_node_count g \<ge> id_space"
    using assms(2) that by (auto simp: tdag_add_node_def push(1) tdag_node_count_def split: node_ref.splits)
  obtain r' c where c: "dc_push_labeled (td_directed g) node = (r', c)" by fastforce
  have ran: "g' = g \<or> g' = g\<lparr>td_directed := c\<rparr> \<and> dc_inv c \<and> dc_rel c = dc_rel (td_directed g)"
    using assms(2) push(2)[OF c] c by (cases node) (simp_all add: tdag_add_node_def)
  show rel: "tdag_rel g' = tdag_rel g"
    using ran by (elim disjE conjE) (simp_all add: tdag_rel_def)
  show "tdag_inv g'"
  proof (cases "is_Lagged node \<and> tdag_node_count g < id_space")
    case False
    then have "g' = g" using refused by auto
    then show ?thesis using assms(1) by simp
  next
    case True
    have nodes: "tdag_nodes g' = tdag_nodes g @ [node]" using ok True by blast
    have core: "dc_inv (td_directed g')"
      using ran tdag_inv_core(1)[OF assms(1)] by (elim disjE conjE) simp_all
    have "edge_respects_time g' s t" if st: "(s, t) \<in> tdag_rel g" for s t
    proof -
      have "s < length (tdag_nodes g)" "t < length (tdag_nodes g)"
        using dc_rel_bound[OF tdag_inv_core(2)[OF assms(1)]] st
        by (simp_all add: tdag_rel_def tdag_nodes_def dc_node_count_def)
      moreover have "edge_respects_time g s t" using st assms(1) by (auto simp: tdag_inv_defs)
      ultimately show ?thesis by (simp add: edge_respects_time_def tdag_lag_def tdag_var_def nodes nth_append)
    qed
    then show ?thesis using core nodes rel True assms(1) by (auto simp: tdag_inv_defs)
  qed
qed

section \<open>Insertion\<close>

definition tdag_refusal :: "temporal_dag \<Rightarrow> dense_id \<Rightarrow> dense_id \<Rightarrow> graph_error" where
  "tdag_refusal g s t =
     (if s \<ge> tdag_node_count g then UnknownNode s
      else if t \<ge> tdag_node_count g then UnknownNode t
      else if tdag_var g s = tdag_var g t \<and> tdag_lag g s = tdag_lag g t \<and> tdag_lag g s = 0
        then ContemporaneousSelfEdge (tdag_var g s)
      else if tdag_lag g s < tdag_lag g t then FutureToPast s t (tdag_lag g s) (tdag_lag g t)
      else if (s, t) \<in> tdag_rel g then DuplicateEdge s t
      else Cycle s t)"

lemma tdag_precheck_iff:
  assumes "tdag_lagged g"
  shows "tdag_temporal_precheck g s t \<longleftrightarrow>
    s < tdag_node_count g \<and> t < tdag_node_count g \<and> edge_respects_time g s t"
proof (cases "s < tdag_node_count g \<and> t < tdag_node_count g")
  case True
  note nodes = tdag_node_lagged[OF assms, of s] tdag_node_lagged[OF assms, of t]
  show ?thesis using True nodes
    by (auto simp: tdag_temporal_precheck_def tdag_validate_node_def lag_is_contemporaneous_def
        reject_future_to_past_def edge_respects_time_def)
qed (auto simp: tdag_temporal_precheck_def tdag_validate_node_def)

lemma tdag_insert_directed_run:
  assumes "tdag_lagged g"
  shows "tdag_temporal_precheck g s t \<Longrightarrow> tdag_insert_directed g s t =
      map_option (\<lambda>(r, c). (r, g\<lparr>td_directed := c\<rparr>)) (dc_try_insert (td_directed g) s t)"
    and "\<not> tdag_temporal_precheck g s t \<Longrightarrow> tdag_insert_directed g s t = Some (Inl (tdag_refusal g s t), g)"
proof -
  note nodes = tdag_node_lagged[OF assms, of s] tdag_node_lagged[OF assms, of t]
  note unfold_all = tdag_insert_directed_def tdag_validate_node_def Let_def lag_is_contemporaneous_def
    reject_future_to_past_def
  show "tdag_insert_directed g s t =
      map_option (\<lambda>(r, c). (r, g\<lparr>td_directed := c\<rparr>)) (dc_try_insert (td_directed g) s t)"
    if "tdag_temporal_precheck g s t"
    using that nodes unfolding tdag_precheck_iff[OF assms]
    by (auto simp: unfold_all edge_respects_time_def)
  show "tdag_insert_directed g s t = Some (Inl (tdag_refusal g s t), g)" if "\<not> tdag_temporal_precheck g s t"
  proof (cases "s < tdag_node_count g \<and> t < tdag_node_count g")
    case True
    then show ?thesis using that nodes unfolding tdag_precheck_iff[OF assms]
      by (auto simp: unfold_all edge_respects_time_def tdag_refusal_def)
  next
    case False
    then show ?thesis by (auto simp: unfold_all tdag_refusal_def)
  qed
qed

lemma tdag_insert_directed_cases:
  assumes "tdag_inv g"
  obtains (refused) g' where "tdag_insert_directed g s t = Some (Inl (tdag_refusal g s t), g')"
      "tdag_eq g' g" "tdag_inv g'"
      "\<not> (s < tdag_node_count g \<and> t < tdag_node_count g \<and> edge_respects_time g s t \<and> (s, t) \<notin> tdag_rel g \<and>
         (t, s) \<notin> (tdag_rel g)\<^sup>*)"
  | (inserted) g' where "tdag_insert_directed g s t = Some (Inr (), g')" "tdag_inv g'"
      "s < tdag_node_count g" "t < tdag_node_count g" "edge_respects_time g s t" "(s, t) \<notin> tdag_rel g"
      "(t, s) \<notin> (tdag_rel g)\<^sup>*" "tdag_rel g' = insert (s, t) (tdag_rel g)" "tdag_nodes g' = tdag_nodes g"
proof (cases "tdag_temporal_precheck g s t")
  case False
  then have "\<not> (s < tdag_node_count g \<and> t < tdag_node_count g \<and> edge_respects_time g s t)"
    by (simp add: tdag_precheck_iff[OF tdag_inv_core(3)[OF assms]])
  then show thesis using refused[OF tdag_insert_directed_run(2)[OF tdag_inv_core(3)[OF assms] False] _ assms]
    by (auto simp: tdag_eq_def dc_same_directed_def dc_same_edges_def)
next
  case True
  let ?c = "td_directed g"
  have st: "s < tdag_node_count g" "t < tdag_node_count g" "edge_respects_time g s t"
    using True by (simp_all add: tdag_precheck_iff[OF tdag_inv_core(3)[OF assms]])
  have late: "tdag_refusal g s t = (if (s, t) \<in> tdag_rel g then DuplicateEdge s t else Cycle s t)"
    using st by (auto simp: tdag_refusal_def edge_respects_time_def)
  note run = tdag_insert_directed_run(1)[OF tdag_inv_core(3)[OF assms] True]
  have inv: "dc_inv ?c" using assms by (rule tdag_inv_core)
  have "s < dc_node_count ?c" "t < dc_node_count ?c" using st by (simp_all add: tdag_node_count_def)
  with inv show thesis
  proof (cases rule: dc_try_insert_cases)
    case duplicate
    then show thesis using refused[of g] run assms late
      by (simp add: tdag_rel_def tdag_eq_def dc_same_directed_def dc_same_edges_def)
  next
    case (cycle ws)
    let ?g = "g\<lparr>td_directed := ?c\<lparr>dc_insert_ws := ws\<rparr>\<rparr>"
    have "dc_wf (?c\<lparr>dc_insert_ws := ws\<rparr>)"
      by (rule dc_wf_tables[of ?c]) (use cycle(3) inv in \<open>simp_all add: dc_tables_def dc_inv_def\<close>)
    moreover have "edge_respects_time ?g u v = edge_respects_time g u v" for u v
      by (rule edge_respects_time_nodes) (simp add: tdag_nodes_def)
    ultimately have "tdag_inv ?g"
      using assms by (simp add: tdag_inv_defs dc_inv_def dc_rel_def tdag_nodes_def tdag_rel_def)
    with cycle show thesis using refused[of ?g] run late
      by (simp add: tdag_rel_def tdag_eq_def dc_same_directed_def dc_same_edges_def)
  next
    case (inserted c)
    let ?g = "g\<lparr>td_directed := c\<rparr>"
    have "edge_respects_time ?g u v = edge_respects_time g u v" for u v
      by (rule edge_respects_time_nodes) (simp add: tdag_nodes_def inserted(4))
    then have "tdag_inv ?g" using assms inserted(4,5,8) st(3) by (auto simp: tdag_inv_defs tdag_nodes_def tdag_rel_def)
    with inserted st show thesis using that(2)[of ?g] run by (simp add: tdag_rel_def tdag_nodes_def)
  qed
qed

lemma tdag_insert_directed_total:
  assumes "tdag_inv g"
  shows "\<exists>r g'. tdag_insert_directed g s t = Some (r, g') \<and> tdag_inv g'"
  by (rule tdag_insert_directed_cases[OF assms, of s t]) simp_all

section \<open>Batch insertion\<close>

interpretation tw: core_wrapper tdag_lagged td_directed "\<lambda>g c. g\<lparr>td_directed := c\<rparr>" edge_respects_time tdag_insert_directed
proof unfold_locales
  fix g :: temporal_dag and c s t
  show "tdag_insert_directed g s t = map_option (\<lambda>(r, c). (r, g\<lparr>td_directed := c\<rparr>)) (dc_try_insert (td_directed g) s t)"
    if "tdag_lagged g" "s < dc_node_count (td_directed g)" "t < dc_node_count (td_directed g)" "edge_respects_time g s t"
    using tdag_insert_directed_run(1)[OF that(1)] tdag_precheck_iff[OF that(1)] that by (simp add: tdag_node_count_def)
  show "edge_respects_time (g\<lparr>td_directed := c\<rparr>) s t = edge_respects_time g s t" if "dc_nodes c = dc_nodes (td_directed g)"
    by (rule edge_respects_time_nodes) (simp add: tdag_nodes_def that)
qed (simp_all add: tdag_lagged_def tdag_nodes_def)

definition tdag_insert_one_by_one ::
  "temporal_dag \<Rightarrow> (dense_id \<times> dense_id) list \<Rightarrow> ((graph_error + unit) \<times> temporal_dag) option" where
  "tdag_insert_one_by_one g edges = try_each (\<lambda>(src, tgt) g'. tdag_insert_directed g' src tgt) edges g"

lemma tdag_insert_one_by_one_total:
  assumes "tdag_inv g"
  shows "\<exists>r g'. tdag_insert_one_by_one g es = Some (r, g') \<and> tdag_inv g'"
  unfolding tdag_insert_one_by_one_def
  by (rule try_each_invariant[where P = tdag_inv])
    (use tdag_insert_directed_total assms in \<open>auto split: prod.split\<close>)

lemma tdag_insert_directed_edges_spec:
  assumes "tdag_inv g"
  shows "\<exists>r g1 g2. tdag_insert_directed_edges g es = Some (r, g1) \<and> tdag_insert_one_by_one g es = Some (r, g2) \<and>
    tdag_eq g1 g2 \<and> tdag_inv g1"
proof -
  let ?c = "td_directed g"
  have inv: "dc_inv ?c" "dc_wf ?c" "tdag_lagged g" using assms by (simp_all add: wf_simps)
  let ?pre = "\<forall>(s, t) \<in> set es. tdag_temporal_precheck g s t"
  show ?thesis
  proof (cases "?pre \<and> fresh_edges ?c es \<and> acyclic (dc_rel ?c \<union> set es)")
    case True
    have ok: "\<forall>(s, t) \<in> set es. edge_respects_time g s t"
      using True by (auto simp: tdag_precheck_iff[OF inv(3)])
    with True obtain c' g' where run: "dc_push_edges ?c es = Some c'" "tdag_insert_one_by_one g es = Some (Inr (), g')"
        "dc_tables c' = dc_tables (td_directed g')" "tdag_lagged (g\<lparr>td_directed := c'\<rparr>)"
      using tw.batch_same[OF inv(3), of es] unfolding tdag_insert_one_by_one_def by blast
    have "tdag_inv g'" using tdag_insert_one_by_one_total[OF assms, of es] run(2) by simp
    moreover have "edge_respects_time (g\<lparr>td_directed := c'\<rparr>) s t = edge_respects_time g' s t" for s t
      by (rule edge_respects_time_nodes) (use run(3) in \<open>simp add: tdag_nodes_def dc_tables_def\<close>)
    moreover have "tdag_rel (g\<lparr>td_directed := c'\<rparr>) = tdag_rel g'"
      using dc_rel_tables[OF run(3)] by (simp add: tdag_rel_def)
    ultimately have "tdag_inv (g\<lparr>td_directed := c'\<rparr>)" using run(4) by (simp add: tdag_inv_def)
    with True run(1-3) show ?thesis
      by (simp add: tdag_insert_directed_edges_def dc_accepts_new_edges_spec[OF inv(1)] tdag_eq_def
          dc_same_directed_tables)
  next
    case False
    obtain r g' where run: "tdag_insert_one_by_one g es = Some (r, g')" "tdag_inv g'"
      using tdag_insert_one_by_one_total[OF assms] by blast
    have "tdag_insert_directed_edges g es = tdag_insert_one_by_one g es"
    proof (cases ?pre)
      case True
      with False have "\<not> (fresh_edges ?c es \<and> acyclic (dc_rel ?c \<union> set es))" by simp
      with True show ?thesis unfolding tdag_insert_directed_edges_def dc_accepts_new_edges_spec[OF inv(1)]
          tdag_insert_one_by_one_def Let_def by (simp only: option.case bool.case if_True if_cancel)
    next
      case False
      then show ?thesis unfolding tdag_insert_directed_edges_def tdag_insert_one_by_one_def Let_def
        by (simp only: if_False)
    qed
    with run show ?thesis by (simp add: tdag_eq_def dc_same_directed_def dc_same_edges_def)
  qed
qed

section \<open>Time runs forward along every path\<close>

lemma tdag_path_lag:
  assumes "tdag_inv g" "(u, v) \<in> (tdag_rel g)\<^sup>*"
  shows "tdag_lag g v \<le> tdag_lag g u"
  using assms(2)
proof (induction rule: rtrancl_induct)
  case (step y z)
  have "tdag_lag g z \<le> tdag_lag g y"
    using assms(1) step.hyps(2) by (auto simp: tdag_inv_def edge_respects_time_def)
  then show ?case using step.IH by simp
qed simp

lemma tdag_reaches_spec:
  assumes "tdag_inv g"
  shows "tdag_reaches g u v = Some ((u, v) \<in> (tdag_rel g)\<^sup>*)"
proof -
  obtain ws' where "dc_reaches_with (td_directed g) u v ws_default =
      Some ((u, v) \<in> (dc_rel (td_directed g))\<^sup>*, ws')"
    using dc_reaches_spec[OF tdag_inv_core(2)[OF assms], of ws_default] ws_default_inv by blast
  then show ?thesis by (simp add: tdag_reaches_def dc_reaches_def tdag_rel_def)
qed

lemma tdag_temporal_key_spec:
  assumes "tdag_inv g" "i < tdag_node_count g"
  shows "tdag_temporal_key g i = tk_lagged (tdag_var g i) (tdag_lag g i)"
  using tdag_node_lagged[OF tdag_inv_core(3)[OF assms(1)] assms(2)] assms(2)
  by (simp add: tdag_temporal_key_def tk_lagged_def tdag_nodes_def tdag_node_count_def dc_node_count_def)

end
