(* ===== verification/Temporal_Cpdag.thy ===== *)
theory Temporal_Cpdag
  imports Cpdag Temporal
begin

text \<open>
  The temporal part of \<open>cpdag.rs\<close>: the CPDAG over lagged and context nodes. It has the fields and the
  accessors of the static type; its insertions add the lag rules of \<open>TemporalDag\<close>, and \<open>tcp_inv\<close>
  states that every definite arrow between lagged nodes runs towards the present.
\<close>

type_synonym temporal_cpdag = cpdag

definition tcp_empty :: temporal_cpdag where
  "tcp_empty = \<lparr>cp_nodes = [], cp_adj = []\<rparr>"

definition tcp_add_node :: "temporal_cpdag \<Rightarrow> node_ref \<Rightarrow> (graph_error + dense_id) \<times> temporal_cpdag" where
  "tcp_add_node g node =
     (case node of
        Lagged _ _ \<Rightarrow> cp_push_node g node
      | Context _ _ \<Rightarrow> cp_push_node g node
      | _ \<Rightarrow> (Inl (InvalidEndpoints ''TemporalCpdag accepts Lagged or Context nodes (not Static)''), g))"

definition tcp_add_lagged ::
  "temporal_cpdag \<Rightarrow> variable_id \<Rightarrow> lag \<Rightarrow> (graph_error + dense_id) \<times> temporal_cpdag" where
  "tcp_add_lagged g v l = tcp_add_node g (Lagged v l)"

definition tcp_add_context ::
  "temporal_cpdag \<Rightarrow> variable_id \<Rightarrow> environment_id option \<Rightarrow> (graph_error + dense_id) \<times> temporal_cpdag" where
  "tcp_add_context g v env = tcp_add_node g (Context v env)"

text \<open>Two nodes, perhaps the same, that stand for one variable at lag 0.\<close>

definition contemporaneous_self :: "node_ref list \<Rightarrow> dense_id \<Rightarrow> dense_id \<Rightarrow> variable_id option" where
  "contemporaneous_self ns a b =
     (case (ns ! a, ns ! b) of
        (Lagged v1 l1, Lagged v2 l2) \<Rightarrow>
          (if v1 = v2 \<and> l1 = l2 \<and> lag_is_contemporaneous l1 then Some v1 else None)
      | _ \<Rightarrow> None)"

definition tcp_insert_marked ::
  "temporal_cpdag \<Rightarrow> marked_edge \<Rightarrow> ((graph_error + unit) \<times> temporal_cpdag) option" where
  "tcp_insert_marked g e =
     (if \<not> is_cpdag_legal e
      then Some (Inl (InvalidEndpoints cpdag_marks_message), g)
      else case rbind (cp_validate_node g (me_a e)) (\<lambda>_. cp_validate_node g (me_b e)) of
        Inl err \<Rightarrow> Some (Inl err, g)
      | Inr _ \<Rightarrow>
          (case contemporaneous_self (cp_nodes g) (me_a e) (me_b e) of
             Some v \<Rightarrow> Some (Inl (ContemporaneousSelfEdge v), g)
           | None \<Rightarrow>
               (if me_a e = me_b e then Some (Inl (Cycle (me_a e) (me_b e)), g)
                else case (case parent_child e of
                             Some (src, tgt) \<Rightarrow> reject_future_to_past (cp_nodes g) src tgt
                           | None \<Rightarrow> Inr ()) of
                  Inl err \<Rightarrow> Some (Inl err, g)
                | Inr _ \<Rightarrow> lift_adj g (insert_marked_finish (cp_adj g) e))))"

definition tcp_insert_directed ::
  "temporal_cpdag \<Rightarrow> dense_id \<Rightarrow> dense_id \<Rightarrow> ((graph_error + unit) \<times> temporal_cpdag) option" where
  "tcp_insert_directed g src tgt = tcp_insert_marked g (me_directed src tgt)"

definition tcp_insert_undirected ::
  "temporal_cpdag \<Rightarrow> dense_id \<Rightarrow> dense_id \<Rightarrow> ((graph_error + unit) \<times> temporal_cpdag) option" where
  "tcp_insert_undirected g a b = tcp_insert_marked g (me_undirected a b)"

definition tcp_orient_undirected ::
  "temporal_cpdag \<Rightarrow> dense_id \<Rightarrow> dense_id \<Rightarrow> ((graph_error + unit) \<times> temporal_cpdag) option" where
  "tcp_orient_undirected g src tgt =
     with_valid_pair g src tgt
       (case reject_future_to_past (cp_nodes g) src tgt of
          Inl e \<Rightarrow> Some (Inl e, g)
        | Inr _ \<Rightarrow> lift_adj g (orient_undirected_finish (cp_adj g) src tgt))"

definition tcp_mark_conflict ::
  "temporal_cpdag \<Rightarrow> dense_id \<Rightarrow> dense_id \<Rightarrow> ((graph_error + unit) \<times> temporal_cpdag) option" where
  "tcp_mark_conflict g a b = with_valid_pair g a b (lift_adj g (mark_conflict_finish (cp_adj g) a b))"

fun tcp_add_nodes :: "temporal_cpdag \<Rightarrow> node_ref list \<Rightarrow> temporal_cpdag" where
  "tcp_add_nodes g [] = g"
| "tcp_add_nodes g (n # ns) = tcp_add_nodes (snd (tcp_add_node g n)) ns"

definition tcp_from_temporal_dag :: "temporal_dag \<Rightarrow> temporal_cpdag option" where
  "tcp_from_temporal_dag d =
     cp_insert_arrows tcp_insert_directed (tdag_edges d) (tcp_add_nodes tcp_empty (tdag_nodes d))"

definition tcp_to_directed_skeleton :: "temporal_cpdag \<Rightarrow> (graph_error + temporal_dag) option" where
  "tcp_to_directed_skeleton g =
     (case for_each (\<lambda>n d. case tdag_add_node d n of (Inl e, d') \<Rightarrow> (Inl e, d') | (Inr _, d') \<Rightarrow> (Inr (), d'))
            (cp_nodes g) tdag_empty of
        (Inl e, _) \<Rightarrow> Some (Inl e)
      | (Inr _, d) \<Rightarrow>
          map_option (\<lambda>(r, d'). case r of Inl e \<Rightarrow> Inl e | Inr _ \<Rightarrow> Inr d')
            (try_each (insert_arrow tdag_insert_directed) (cp_edges g) d))"

definition tcp_try_into_temporal_dag :: "temporal_cpdag \<Rightarrow> (graph_error + temporal_dag) option" where
  "tcp_try_into_temporal_dag g =
     (case undirected_left ''cannot complete TemporalCpdag to TemporalDag while undirected edges remain''
             ''cannot complete TemporalCpdag to TemporalDag while conflict edges remain'' (cp_edges g) of
        Some e \<Rightarrow> Some (Inl e)
      | None \<Rightarrow> tcp_to_directed_skeleton g)"

definition tcp_temporal_key :: "temporal_cpdag \<Rightarrow> dense_id \<Rightarrow> temporal_node_key option" where
  "tcp_temporal_key g i =
     (if i < length (cp_nodes g)
      then (case cp_nodes g ! i of
              Lagged v l \<Rightarrow> (if l < 2 ^ 31 then Some \<lparr>tk_variable = v, tk_offset = - int l\<rparr> else None)
            | _ \<Rightarrow> None)
      else None)"

section \<open>The invariant\<close>

definition in_time :: "node_ref list \<Rightarrow> dense_id \<Rightarrow> dense_id \<Rightarrow> bool" where
  "in_time ns s t \<longleftrightarrow> reject_future_to_past ns s t = Inr ()"

text \<open>What the lag rules leave at a pair of nodes, for every mark.\<close>

definition pair_in_time :: "node_ref list \<Rightarrow> dense_id \<Rightarrow> dense_id \<Rightarrow> endpoint \<Rightarrow> endpoint \<Rightarrow> bool" where
  "pair_in_time ns a b p q \<longleftrightarrow> contemporaneous_self ns a b = None \<and>
     (p = Tail \<and> q = Arrow \<longrightarrow> in_time ns a b) \<and> (p = Arrow \<and> q = Tail \<longrightarrow> in_time ns b a)"

fun temporal_node :: "node_ref \<Rightarrow> bool" where
  "temporal_node (Lagged _ _) = True"
| "temporal_node (Context _ _) = True"
| "temporal_node _ = False"

definition tcp_inv :: "temporal_cpdag \<Rightarrow> bool" where
  "tcp_inv g \<longleftrightarrow> cp_wf g \<and> (\<forall>n \<in> set (cp_nodes g). temporal_node n) \<and>
     marks_all (pair_in_time (cp_nodes g)) (cp_marks g)"

lemma tcp_inv_wf [wf_simps]: "tcp_inv g \<Longrightarrow> cp_wf g" "tcp_inv g \<Longrightarrow> marks_all (pair_in_time (cp_nodes g)) (cp_marks g)"
  by (simp_all add: tcp_inv_def)

lemma contemporaneous_self_sym: "contemporaneous_self ns a b = contemporaneous_self ns b a"
  by (auto simp: contemporaneous_self_def split: node_ref.split)

lemma pair_in_time_sym: "pair_in_time ns a b p q = pair_in_time ns b a q p"
  using contemporaneous_self_sym[of ns a b] by (auto simp: pair_in_time_def)

text \<open>The arrows of a temporal CPDAG never lead from a lagged node to one further in the past.\<close>

lemma tcp_arrow_in_time:
  assumes "tcp_inv g" "(s, t) \<in> cp_rel g" "cp_nodes g ! s = Lagged v l" "cp_nodes g ! t = Lagged v' l'"
  shows "l' \<le> l" "\<not> (v = v' \<and> l = 0 \<and> l' = 0)"
proof -
  obtain m where "cp_marks g s t = Some (Tail, Arrow, m)"
    using assms(2) by (auto simp: cp_rel_def ms_rel_iff cp_marks_def)
  then have "pair_in_time (cp_nodes g) s t Tail Arrow" using tcp_inv_wf(2)[OF assms(1)] by (auto simp: marks_all_def)
  then show "l' \<le> l" "\<not> (v = v' \<and> l = 0 \<and> l' = 0)"
    using assms(3,4) by (auto simp: pair_in_time_def in_time_def reject_future_to_past_Inr contemporaneous_self_def
        lag_is_contemporaneous_def split: if_splits)
qed

definition tcp_refusal :: "temporal_cpdag \<Rightarrow> marked_edge \<Rightarrow> graph_error option" where
  "tcp_refusal g e =
     (if \<not> is_cpdag_legal e
      then Some (InvalidEndpoints cpdag_marks_message)
      else if me_a e \<ge> cp_node_count g then Some (UnknownNode (me_a e))
      else if me_b e \<ge> cp_node_count g then Some (UnknownNode (me_b e))
      else case contemporaneous_self (cp_nodes g) (me_a e) (me_b e) of
        Some v \<Rightarrow> Some (ContemporaneousSelfEdge v)
      | None \<Rightarrow>
          (if me_a e = me_b e then Some (Cycle (me_a e) (me_b e))
           else case parent_child e of
             Some (s, t) \<Rightarrow>
               (case reject_future_to_past (cp_nodes g) s t of
                  Inl err \<Rightarrow> Some err | Inr _ \<Rightarrow> insert_refusal (cp_adj g) e)
           | None \<Rightarrow> insert_refusal (cp_adj g) e))"

lemma pair_in_time_edge:
  assumes "contemporaneous_self ns (me_a e) (me_b e) = None" "\<forall>s t. parent_child e = Some (s, t) \<longrightarrow> in_time ns s t"
  shows "pair_in_time ns (me_a e) (me_b e) (me_at_a e) (me_at_b e)"
  using assms by (auto simp: pair_in_time_def parent_child_def)

lemma tcp_insert_marked_cases:
  assumes "tcp_inv g"
  obtains (refused) err where "tcp_refusal g e = Some err" "tcp_insert_marked g e = Some (Inl err, g)"
  | (inserted) g' where "tcp_refusal g e = None" "tcp_insert_marked g e = Some (Inr (), g')" "tcp_inv g'"
      "cp_nodes g' = cp_nodes g" "me_a e < cp_node_count g" "me_b e < cp_node_count g" "me_a e \<noteq> me_b e"
      "cp_marks g' = set_pair (cp_marks g) (me_a e) (me_b e) (Some (me_at_a e, me_at_b e, me_middle e))"
proof (cases "is_cpdag_legal e \<and> me_a e < cp_node_count g \<and> me_b e < cp_node_count g \<and>
    contemporaneous_self (cp_nodes g) (me_a e) (me_b e) = None \<and> me_a e \<noteq> me_b e \<and>
    (\<forall>s t. parent_child e = Some (s, t) \<longrightarrow> in_time (cp_nodes g) s t)")
  case False
  note defs = tcp_refusal_def tcp_insert_marked_def cp_validate_node_def
  have "\<exists>err. tcp_refusal g e = Some err \<and> tcp_insert_marked g e = Some (Inl err, g)"
  proof (cases "is_cpdag_legal e \<and> me_a e < cp_node_count g \<and> me_b e < cp_node_count g")
    case bad: False
    then show ?thesis
      by (cases "is_cpdag_legal e"; cases "me_a e < cp_node_count g") (simp_all add: defs)
  next
    case valid: True
    show ?thesis
    proof (cases "contemporaneous_self (cp_nodes g) (me_a e) (me_b e)")
      case (Some v)
      then show ?thesis using valid by (simp add: defs)
    next
      case None
      show ?thesis
      proof (cases "me_a e = me_b e")
        case True
        then show ?thesis using valid None by (simp add: defs)
      next
        case distinct: False
        with False valid None obtain s t where st: "parent_child e = Some (s, t)" "\<not> in_time (cp_nodes g) s t" by blast
        then obtain err where "reject_future_to_past (cp_nodes g) s t = Inl err"
          by (cases "reject_future_to_past (cp_nodes g) s t") (auto simp: in_time_def)
        then show ?thesis using valid None distinct st by (simp add: defs)
      qed
    qed
  qed
  then show thesis using refused by blast
next
  case True
  then have run: "tcp_insert_marked g e = lift_adj g (insert_marked_finish (cp_adj g) e)"
    "tcp_refusal g e = insert_refusal (cp_adj g) e"
    by (auto simp: tcp_insert_marked_def cp_validate_node_def tcp_refusal_def in_time_def split: option.split sum.split)
  have wf: "cp_wf g" using assms by (rule tcp_inv_wf)
  have bounds: "me_a e < length (cp_adj g)" "me_b e < length (cp_adj g)" "me_a e \<noteq> me_b e"
    using True cp_wfD(3)[OF wf] by simp_all
  from cp_wfD(1)[OF wf] bounds show thesis
  proof (cases rule: insert_marked_finish_spec)
    case (refused err)
    then show thesis using that(1) run by (simp add: lift_adj_def)
  next
    case (inserted adj')
    have "cp_wf (g\<lparr>cp_adj := adj'\<rparr>)"
      by (rule cp_update_wf[OF wf inserted(3,4) inserted(5)[folded cp_marks_def]])
        (use True in \<open>simp add: is_cpdag_legal_marks\<close>)
    moreover have "marks_all (pair_in_time (cp_nodes g)) (ms_marks adj')"
      unfolding inserted(5)
    proof (rule marks_all_set_pair)
      show "marks_all (pair_in_time (cp_nodes g)) (ms_marks (cp_adj g))"
        using tcp_inv_wf(2)[OF assms] by (simp add: cp_marks_def)
      have "pair_in_time (cp_nodes g) (me_a e) (me_b e) (me_at_a e) (me_at_b e)"
        by (rule pair_in_time_edge) (use True in blast)+
      then show "pair_in_time (cp_nodes g) (me_a e) (me_b e) p q \<and> pair_in_time (cp_nodes g) (me_b e) (me_a e) q p"
        if "Some (me_at_a e, me_at_b e, me_middle e) = Some (p, q, m)" for p q m
        using that pair_in_time_sym by auto
    qed
    ultimately have "tcp_inv (g\<lparr>cp_adj := adj'\<rparr>)"
      using assms by (simp add: tcp_inv_def cp_marks_def)
    with inserted True run show thesis
      using that(2)[of "g\<lparr>cp_adj := adj'\<rparr>"] by (simp add: lift_adj_def cp_marks_def)
  qed
qed

definition tcp_orient_refusal :: "temporal_cpdag \<Rightarrow> dense_id \<Rightarrow> dense_id \<Rightarrow> graph_error option" where
  "tcp_orient_refusal g src tgt =
     (if src \<ge> cp_node_count g then Some (UnknownNode src)
      else if tgt \<ge> cp_node_count g then Some (UnknownNode tgt)
      else case reject_future_to_past (cp_nodes g) src tgt of
        Inl err \<Rightarrow> Some err | Inr _ \<Rightarrow> cp_orient_refusal g src tgt)"

lemma tcp_orient_undirected_cases:
  assumes "tcp_inv g"
  obtains (refused) err where "tcp_orient_refusal g src tgt = Some err"
      "tcp_orient_undirected g src tgt = Some (Inl err, g)"
  | (oriented) m g' where "tcp_orient_refusal g src tgt = None" "tcp_orient_undirected g src tgt = Some (Inr (), g')"
      "tcp_inv g'" "cp_nodes g' = cp_nodes g" "cp_marks g src tgt = Some (Tail, Tail, m)"
      "cp_marks g' = set_pair (cp_marks g) src tgt (Some (Tail, Arrow, m))"
      "cp_rel g' = insert (src, tgt) (cp_rel g)"
proof (cases "src < cp_node_count g \<and> tgt < cp_node_count g \<and> in_time (cp_nodes g) src tgt")
  case False
  then have "\<exists>err. tcp_orient_refusal g src tgt = Some err \<and> tcp_orient_undirected g src tgt = Some (Inl err, g)"
    by (cases "src < cp_node_count g"; cases "tgt < cp_node_count g";
        cases "reject_future_to_past (cp_nodes g) src tgt")
      (simp_all add: tcp_orient_refusal_def tcp_orient_undirected_def with_valid_pair_simps in_time_def)
  then show thesis using refused by blast
next
  case True
  have wf: "cp_wf g" using assms by (rule tcp_inv_wf)
  have run: "tcp_orient_undirected g src tgt = cp_orient_undirected g src tgt"
    "tcp_orient_refusal g src tgt = cp_orient_refusal g src tgt"
    using True by (simp_all add: tcp_orient_undirected_def cp_orient_undirected_def tcp_orient_refusal_def
        with_valid_pair_simps in_time_def)
  from wf show thesis
  proof (cases rule: cp_orient_undirected_cases[where src = src and tgt = tgt])
    case (refused err)
    then show thesis using that(1) run by simp
  next
    case (oriented m g')
    have "pair_in_time (cp_nodes g) src tgt Tail Tail"
      using tcp_inv_wf(2)[OF assms] oriented(5) unfolding marks_all_def by blast
    then have pair: "pair_in_time (cp_nodes g) src tgt Tail Arrow" using True by (simp add: pair_in_time_def)
    have "marks_all (pair_in_time (cp_nodes g)) (cp_marks g')"
      unfolding oriented(6)
      by (rule marks_all_set_pair[OF tcp_inv_wf(2)[OF assms]]) (use pair pair_in_time_sym in auto)
    then have "tcp_inv g'" using oriented(3,4) assms by (simp add: tcp_inv_def)
    with oriented show thesis using that(2) run by simp
  qed
qed

section \<open>Conversions\<close>

lemma tcp_add_nodes_spec:
  assumes "tcp_inv g" "\<forall>n \<in> set ns. temporal_node n" "cp_node_count g + length ns \<le> id_space"
    "cp_marks g = (\<lambda>_ _. None)"
  shows "tcp_inv (tcp_add_nodes g ns) \<and> cp_nodes (tcp_add_nodes g ns) = cp_nodes g @ ns \<and>
    cp_marks (tcp_add_nodes g ns) = cp_marks g"
  using assms
proof (induction ns arbitrary: g)
  case (Cons n ns)
  have wf: "cp_wf g" using Cons.prems(1) by (rule tcp_inv_wf)
  obtain g' where g': "tcp_add_node g n = (Inr (cp_node_count g), g')" "cp_wf g'" "cp_nodes g' = cp_nodes g @ [n]"
      "cp_marks g' = cp_marks g"
    using cp_push_node_spec(1)[OF wf, of n] Cons.prems(2,3) by (cases n) (auto simp: tcp_add_node_def)
  have "tcp_inv g'" using g'(2-4) Cons.prems(1,2,4) by (simp add: tcp_inv_def marks_all_def)
  then show ?case using Cons.IH[of g'] g' Cons.prems(2-4) by (simp add: cp_node_count_def)
qed simp

interpretation ti: arrow_insertion tdag_inv tdag_node_count tdag_rel tdag_insert_directed edge_respects_time
  "\<lambda>g s t. (s, t) \<notin> tdag_rel g" tdag_nodes
proof unfold_locales
  fix g s t
  assume a: "tdag_inv g" "s < tdag_node_count g" "t < tdag_node_count g" "edge_respects_time g s t"
    "(s, t) \<notin> tdag_rel g" "(t, s) \<notin> (tdag_rel g)\<^sup>*"
  then show "\<exists>g'. tdag_insert_directed g s t = Some (Inr (), g') \<and> tdag_inv g' \<and>
      tdag_rel g' = insert (s, t) (tdag_rel g) \<and> tdag_nodes g' = tdag_nodes g \<and>
      (\<forall>u v. (u, v) \<notin> tdag_rel g \<longrightarrow> (u, v) \<noteq> (s, t) \<longrightarrow> (u, v) \<noteq> (t, s) \<longrightarrow> (u, v) \<notin> tdag_rel g')"
    by (cases rule: tdag_insert_directed_cases[of g s t]) auto
next
  fix g g' :: temporal_dag
  assume eq: "tdag_nodes g = tdag_nodes g'"
  then show "tdag_node_count g = tdag_node_count g' \<and> edge_respects_time g = edge_respects_time g'"
    using edge_respects_time_nodes[OF eq] by (auto simp: tdag_node_count_def tdag_nodes_def dc_node_count_def fun_eq_iff)
qed

interpretation tci: arrow_insertion "\<lambda>g. tcp_inv g \<and> cp_all_directed g" cp_node_count cp_rel tcp_insert_directed
  "\<lambda>g s t. pair_in_time (cp_nodes g) s t Tail Arrow" "\<lambda>g s t. cp_marks g s t = None" cp_nodes
proof unfold_locales
  fix g s t
  assume a: "tcp_inv g \<and> cp_all_directed g" "s < cp_node_count g" "t < cp_node_count g"
    "pair_in_time (cp_nodes g) s t Tail Arrow" "cp_marks g s t = None" "(t, s) \<notin> (cp_rel g)\<^sup>*"
  let ?e = "me_directed s t"
  have st: "s \<noteq> t" using a(6) by auto
  have time: "contemporaneous_self (cp_nodes g) s t = None" "reject_future_to_past (cp_nodes g) s t = Inr ()"
    using a(4) by (simp_all add: pair_in_time_def in_time_def)
  have "tcp_refusal g ?e = None"
    using a st time by (simp add: tcp_refusal_def insert_refusal_def me_directed_def is_cpdag_legal_def
        parent_child_def cp_marks_def cp_rel_def)
  then obtain g' where g': "tcp_insert_marked g ?e = Some (Inr (), g')" "tcp_inv g'" "cp_nodes g' = cp_nodes g"
      "cp_marks g' = set_pair (cp_marks g) s t (Some (Tail, Arrow, Empty))"
    using tcp_insert_marked_cases[of g ?e] a(1) by (auto simp: me_directed_def)
  have wf: "cp_wf g" using a(1) by (simp add: tcp_inv_def)
  have mirror: "cp_marks g t s = None"
    using marks_sym_None[OF ms_wfD(2)[OF cp_wfD(2)[OF wf]]] a(5) unfolding cp_marks_def by blast
  then have "(s, t) \<notin> cp_rel g" "(t, s) \<notin> cp_rel g" using a(5) by (simp_all add: cp_rel_def ms_rel_iff cp_marks_def)
  then have rel: "cp_rel g' = insert (s, t) (cp_rel g)"
    using marks_rel_set_pair[OF st, of "cp_marks g" "Some (Tail, Arrow, Empty)"] g'(4)
    by (simp add: cp_rel_def ms_rel_def cp_marks_def marks_arrow_def)
  have dir: "cp_all_directed g'"
    unfolding cp_all_directed_def g'(4) by (rule marks_all_set_pair) (use a(1) in \<open>auto simp: cp_all_directed_def\<close>)
  have "\<forall>u v. cp_marks g u v = None \<longrightarrow> (u, v) \<noteq> (s, t) \<longrightarrow> (u, v) \<noteq> (t, s) \<longrightarrow> cp_marks g' u v = None"
    unfolding g'(4) by (simp add: set_pair_def)
  with g' rel dir show "\<exists>g'. tcp_insert_directed g s t = Some (Inr (), g') \<and> (tcp_inv g' \<and> cp_all_directed g') \<and>
      cp_rel g' = insert (s, t) (cp_rel g) \<and> cp_nodes g' = cp_nodes g \<and>
      (\<forall>u v. cp_marks g u v = None \<longrightarrow> (u, v) \<noteq> (s, t) \<longrightarrow> (u, v) \<noteq> (t, s) \<longrightarrow> cp_marks g' u v = None)"
    by (simp add: tcp_insert_directed_def)
qed (simp add: cp_node_count_def)

lemma pair_in_time_lagged:
  assumes "ns ! s = Lagged v l" "ns ! t = Lagged v' l'"
  shows "pair_in_time ns s t Tail Arrow \<longleftrightarrow> l' \<le> l \<and> \<not> (v = v' \<and> l = 0 \<and> l' = 0)"
  using assms by (auto simp: pair_in_time_def in_time_def reject_future_to_past_def contemporaneous_self_def
      lag_is_contemporaneous_def)

lemma tcp_from_temporal_dag_spec:
  assumes "tdag_inv d"
  shows "\<exists>g. tcp_from_temporal_dag d = Some g \<and> tcp_inv g \<and> cp_all_directed g \<and> cp_nodes g = tdag_nodes d \<and>
    cp_rel g = tdag_rel d"
proof -
  let ?g0 = "tcp_add_nodes tcp_empty (tdag_nodes d)"
  have "temporal_node n" if "is_Lagged n" for n using that by (cases n) simp_all
  then have stat: "\<forall>n \<in> set (tdag_nodes d). temporal_node n" using assms by (simp add: tdag_inv_defs)
  have count: "length (tdag_nodes d) = tdag_node_count d" by (simp add: tdag_nodes_def tdag_node_count_def dc_node_count_def)
  have small: "tdag_node_count d \<le> id_space"
    using dc_wfD(4)[OF tdag_inv_core(2)[OF assms]] by (simp add: tdag_node_count_def)
  have nil: "cp_nodes tcp_empty = []" by (simp add: tcp_empty_def)
  have "tcp_empty = cp_empty" by (simp add: tcp_empty_def cp_empty_def)
  then have e0: "tcp_inv tcp_empty" "cp_nodes tcp_empty = []" "cp_marks tcp_empty = (\<lambda>_ _. None)"
    using cp_empty_wf nil by (simp_all add: tcp_inv_def marks_all_def)
  have "cp_node_count tcp_empty + length (tdag_nodes d) \<le> id_space"
    using small count e0(2) by (simp add: cp_node_count_def)
  from tcp_add_nodes_spec[OF e0(1) stat this e0(3)]
  have g0: "tcp_inv ?g0" "cp_nodes ?g0 = tdag_nodes d" "cp_marks ?g0 = (\<lambda>_ _. None)"
    unfolding e0(2,3) by simp_all
  have rel0: "cp_rel ?g0 = {}" using g0(3) by (auto simp: cp_rel_def ms_rel_def marks_rel_def cp_marks_def)
  note pairs = arrow_pairs_marked_edges[OF tdag_inv_core(2)[OF assms]]
  have rel: "set (arrow_pairs (tdag_edges d)) = tdag_rel d" using pairs(1) by (simp add: tdag_edges_def tdag_rel_def)
  have ok: "s < tdag_node_count d \<and> t < tdag_node_count d \<and> pair_in_time (tdag_nodes d) s t Tail Arrow"
    if "(s, t) \<in> tdag_rel d" for s t
  proof -
    have b: "s < tdag_node_count d" "t < tdag_node_count d"
      using dc_rel_bound[OF tdag_inv_core(2)[OF assms]] that by (simp_all add: tdag_rel_def tdag_node_count_def)
    have "edge_respects_time d s t" using assms that by (auto simp: tdag_inv_def)
    with b show ?thesis
      using pair_in_time_lagged[OF tdag_node_lagged[OF tdag_inv_core(3)[OF assms] b(1)]
          tdag_node_lagged[OF tdag_inv_core(3)[OF assms] b(2)]] by (simp add: edge_respects_time_def)
  qed
  have "\<exists>g. try_each (\<lambda>(s, t) g. tcp_insert_directed g s t) (arrow_pairs (tdag_edges d)) ?g0 = Some (Inr (), g) \<and>
      (tcp_inv g \<and> cp_all_directed g) \<and> cp_rel g = cp_rel ?g0 \<union> set (arrow_pairs (tdag_edges d)) \<and> cp_nodes g = cp_nodes ?g0"
  proof (rule tci.accepts_all)
    show "tcp_inv ?g0 \<and> cp_all_directed ?g0" using g0 by (simp add: cp_all_directed_def marks_all_def)
    show "distinct (arrow_pairs (tdag_edges d))" using pairs(2) by (simp add: tdag_edges_def)
    show "\<forall>(s, t) \<in> set (arrow_pairs (tdag_edges d)). s < cp_node_count ?g0 \<and> t < cp_node_count ?g0 \<and>
        pair_in_time (cp_nodes ?g0) s t Tail Arrow \<and> cp_marks ?g0 s t = None"
      using ok g0(2,3) count unfolding rel by (auto simp: cp_node_count_def)
    show "acyclic (cp_rel ?g0 \<union> set (arrow_pairs (tdag_edges d)))"
      using assms rel0 rel by (simp add: tdag_inv_defs dc_inv_def tdag_rel_def)
  qed
  then obtain g where g: "try_each (insert_arrow tcp_insert_directed) (tdag_edges d) ?g0 = Some (Inr (), g)"
      "tcp_inv g" "cp_all_directed g" "cp_rel g = tdag_rel d" "cp_nodes g = tdag_nodes d"
    using rel rel0 g0(2) unfolding try_each_insert_arrow by auto
  have "tcp_from_temporal_dag d = Some g" using cp_insert_arrows_each[OF g(1)] by (simp add: tcp_from_temporal_dag_def)
  with g show ?thesis by blast
qed

lemma tdag_add_each:
  assumes "tdag_inv d" "tdag_rel d = {}" "\<forall>n \<in> set ms. is_Lagged n" "tdag_node_count d + length ms \<le> id_space"
  shows "\<exists>d'. for_each (\<lambda>n d. case tdag_add_node d n of (Inl e, d') \<Rightarrow> (Inl e, d') | (Inr _, d') \<Rightarrow> (Inr (), d')) ms d =
      (Inr (), d') \<and> tdag_inv d' \<and> tdag_rel d' = {} \<and> tdag_nodes d' = tdag_nodes d @ ms"
  using assms
proof (induction ms arbitrary: d)
  case (Cons n ms)
  obtain r d1 where d1: "tdag_add_node d n = (r, d1)" by fastforce
  note spec = tdag_add_node_spec[OF Cons.prems(1) d1]
  have n: "r = Inr (tdag_node_count d)" "tdag_nodes d1 = tdag_nodes d @ [n]"
    using spec(3) Cons.prems(3,4) by simp_all
  have count: "tdag_node_count d1 = Suc (tdag_node_count d)"
    using n(2) by (simp add: tdag_node_count_def tdag_nodes_def dc_node_count_def)
  have "\<exists>d'. for_each (\<lambda>n d. case tdag_add_node d n of (Inl e, d') \<Rightarrow> (Inl e, d') | (Inr _, d') \<Rightarrow> (Inr (), d')) ms d1 =
      (Inr (), d') \<and> tdag_inv d' \<and> tdag_rel d' = {} \<and> tdag_nodes d' = tdag_nodes d1 @ ms"
    by (rule Cons.IH) (use spec(1,2) Cons.prems(2-4) count in simp_all)
  then show ?case using d1 n by simp
qed simp

text \<open>
  A context node stops the conversion with an error; with lagged nodes only, a temporal CPDAG whose
  edges are all arrows completes to the temporal DAG with those arrows.
\<close>

lemma tcp_to_directed_skeleton_spec:
  assumes "tcp_inv g" "\<forall>n \<in> set (cp_nodes g). is_Lagged n"
  shows "\<exists>d. tcp_to_directed_skeleton g = Some (Inr d) \<and> tdag_inv d \<and> tdag_nodes d = cp_nodes g \<and> tdag_rel d = cp_rel g"
proof -
  have wf: "cp_wf g" using assms(1) by (rule tcp_inv_wf)
  note arrows = cpg.arrows_listed[OF wf]
  have empty: "tdag_rel tdag_empty = {}" "tdag_node_count tdag_empty = 0" "tdag_nodes tdag_empty = []"
    by (simp_all add: tdag_rel_def tdag_empty_def dc_new_def dc_rel_def tdag_node_count_def dc_node_count_def tdag_nodes_def)
  obtain d0 where d0: "for_each (\<lambda>n d. case tdag_add_node d n of (Inl e, d') \<Rightarrow> (Inl e, d') | (Inr _, d') \<Rightarrow> (Inr (), d'))
      (cp_nodes g) tdag_empty = (Inr (), d0)" "tdag_inv d0" "tdag_rel d0 = {}" "tdag_nodes d0 = cp_nodes g"
    using tdag_add_each[OF tdag_empty_inv empty(1) assms(2)] cp_wfD(4)[OF wf] empty
    by (auto simp: cp_node_count_def)
  have count: "tdag_node_count d0 = cp_node_count g"
    using d0(4) by (simp add: tdag_node_count_def tdag_nodes_def dc_node_count_def cp_node_count_def)
  have time: "edge_respects_time d0 s t" if st: "(s, t) \<in> cp_rel g" for s t
  proof -
    have b: "s < cp_node_count g" "t < cp_node_count g" using cpg.arrow_range[OF wf] st by (simp_all add: cp_rel_def)
    note lagged = tdag_node_lagged[OF tdag_inv_core(3)[OF d0(2)]]
    have "tdag_nodes d0 ! s = Lagged (tdag_var d0 s) (tdag_lag d0 s)" "tdag_nodes d0 ! t = Lagged (tdag_var d0 t) (tdag_lag d0 t)"
      using lagged b count by simp_all
    then show ?thesis using tcp_arrow_in_time[OF assms(1) st] by (auto simp: edge_respects_time_def d0(4))
  qed
  have set_arrows: "set (arrow_pairs (cp_edges g)) = cp_rel g" using arrows(1) by (simp add: cp_edges_def cp_rel_def)
  have "\<exists>d. try_each (\<lambda>(s, t) d. tdag_insert_directed d s t) (arrow_pairs (cp_edges g)) d0 = Some (Inr (), d) \<and>
      tdag_inv d \<and> tdag_rel d = tdag_rel d0 \<union> set (arrow_pairs (cp_edges g)) \<and> tdag_nodes d = tdag_nodes d0"
  proof (rule ti.accepts_all[OF d0(2)])
    show "distinct (arrow_pairs (cp_edges g))" using arrows(2) by (simp add: cp_edges_def)
    show "\<forall>(s, t) \<in> set (arrow_pairs (cp_edges g)). s < tdag_node_count d0 \<and> t < tdag_node_count d0 \<and>
        edge_respects_time d0 s t \<and> (s, t) \<notin> tdag_rel d0"
      unfolding set_arrows using time cpg.arrow_range[OF wf] d0(3) count by (auto simp: cp_rel_def)
    show "acyclic (tdag_rel d0 \<union> set (arrow_pairs (cp_edges g)))" using arrows(3) d0(3) set_arrows by (simp add: cp_rel_def)
  qed
  then obtain d where d: "try_each (insert_arrow tdag_insert_directed) (cp_edges g) d0 = Some (Inr (), d)"
      "tdag_inv d" "tdag_rel d = cp_rel g" "tdag_nodes d = cp_nodes g"
    using set_arrows d0(3,4) unfolding try_each_insert_arrow by auto
  then show ?thesis using d0(1) by (simp add: tcp_to_directed_skeleton_def)
qed

lemma tcp_try_into_temporal_dag_spec:
  assumes "tcp_inv g" "\<forall>n \<in> set (cp_nodes g). is_Lagged n"
  shows "if cp_all_directed g
    then \<exists>d. tcp_try_into_temporal_dag g = Some (Inr d) \<and> tdag_inv d \<and> tdag_nodes d = cp_nodes g \<and> tdag_rel d = cp_rel g
    else \<exists>msg. tcp_try_into_temporal_dag g = Some (Inl (InvalidEndpoints msg))"
proof -
  note left = no_undirected_left[OF tcp_inv_wf(1)[OF assms(1)],
      of "''cannot complete TemporalCpdag to TemporalDag while undirected edges remain''"
         "''cannot complete TemporalCpdag to TemporalDag while conflict edges remain''"]
  show ?thesis
  proof (cases "cp_all_directed g")
    case True
    then show ?thesis using left tcp_to_directed_skeleton_spec[OF assms] by (simp add: tcp_try_into_temporal_dag_def)
  next
    case False
    then obtain e where "undirected_left ''cannot complete TemporalCpdag to TemporalDag while undirected edges remain''
        ''cannot complete TemporalCpdag to TemporalDag while conflict edges remain'' (cp_edges g) = Some e" using left by auto
    with undirected_left_Some[OF this] False show ?thesis by (auto simp: tcp_try_into_temporal_dag_def)
  qed
qed

end
