(* ===== verification/Search_Budget.thy ===== *)
theory Search_Budget
  imports Graph_Types
begin

text \<open>
  \<open>antecedent-core/src/search.rs\<close>: the contract every bounded search runs under. A budget charges
  each operation against an operation limit, a depth limit, a memory cap and a cancellation token.

  The token is shared with other threads. \<open>ct_flag k\<close> is what its \<open>k\<close>-th observation reads, so the
  theorems hold for every schedule of cancellation requests; \<open>ct_checks\<close> counts the observations.
\<close>

record cancellation_token =
  ct_flag :: "nat \<Rightarrow> bool"
  ct_checks :: nat

definition is_cancelled :: "cancellation_token \<Rightarrow> bool \<times> cancellation_token" where
  "is_cancelled tok = (ct_flag tok (ct_checks tok), tok\<lparr>ct_checks := ct_checks tok + 1\<rparr>)"

record search_limits =
  sl_operations :: nat
  sl_depth :: nat

datatype search_stop = StopOperations | StopDepth | StopMemory | StopCancelled

fun stop_code :: "search_stop \<Rightarrow> string" where
  "stop_code StopOperations = ''search.operations''"
| "stop_code StopDepth = ''search.depth''"
| "stop_code StopMemory = ''search.memory''"
| "stop_code StopCancelled = ''search.cancelled''"

definition default_search_memory_bytes :: nat where
  "default_search_memory_bytes = 512 * 1024 * 1024"

record search_receipt =
  rc_stop :: search_stop
  rc_operations_limit :: nat
  rc_depth_limit :: nat
  rc_memory_limit_bytes :: "nat option"
  rc_operations_consumed :: "nat option"
  rc_depth_reached :: "nat option"
  rc_explored :: "string list"
  rc_unevaluated :: "string list"

record search_budget =
  sb_limits :: search_limits
  sb_memory_limit_bytes :: nat
  sb_operations :: nat
  sb_depth_reached :: nat
  sb_entered :: bool

definition sb_receipt :: "search_budget \<Rightarrow> search_stop \<Rightarrow> string list \<Rightarrow> string list \<Rightarrow> search_receipt" where
  "sb_receipt b stop explored unevaluated =
     \<lparr>rc_stop = stop, rc_operations_limit = sl_operations (sb_limits b), rc_depth_limit = sl_depth (sb_limits b),
      rc_memory_limit_bytes = Some (sb_memory_limit_bytes b),
      rc_operations_consumed = (if sb_entered b then Some (sb_operations b) else None),
      rc_depth_reached = (if sb_entered b then Some (sb_depth_reached b) else None),
      rc_explored = explored, rc_unevaluated = unevaluated\<rparr>"

text \<open>
  \<open>with_memory\<close> reads the token once; \<open>hard\<close> is the context's hard memory limit. The token is not part
  of the budget, which holds a reference to the context: it is passed and returned.
\<close>

definition sb_with_memory ::
  "search_limits \<Rightarrow> nat \<Rightarrow> nat option \<Rightarrow> cancellation_token \<Rightarrow>
    (search_receipt + search_budget) \<times> cancellation_token" where
  "sb_with_memory limits memory hard tok =
     (let cap = (case hard of None \<Rightarrow> memory | Some h \<Rightarrow> min h memory);
          budget = \<lparr>sb_limits = limits, sb_memory_limit_bytes = cap, sb_operations = 0,
                    sb_depth_reached = 0, sb_entered = False\<rparr>;
          (cancelled, tok') = is_cancelled tok;
          stop = (if cancelled then Some StopCancelled
                  else if sl_operations limits = 0 then Some StopOperations
                  else if sl_depth limits = 0 then Some StopDepth
                  else None)
      in case stop of
           Some s \<Rightarrow> (Inl (sb_receipt budget s [] []), tok')
         | None \<Rightarrow> (Inr budget, tok'))"

definition search_budget_new ::
  "search_limits \<Rightarrow> nat option \<Rightarrow> cancellation_token \<Rightarrow>
    (search_receipt + search_budget) \<times> cancellation_token" where
  "search_budget_new limits hard tok = sb_with_memory limits default_search_memory_bytes hard tok"

definition sb_charge ::
  "search_budget \<Rightarrow> cancellation_token \<Rightarrow> nat \<Rightarrow> nat \<Rightarrow>
    (search_stop + unit) \<times> search_budget \<times> cancellation_token" where
  "sb_charge b tok depth bytes =
     (let b1 = b\<lparr>sb_entered := True, sb_depth_reached := max (sb_depth_reached b) depth\<rparr>;
          (cancelled, tok') = is_cancelled tok
      in if cancelled then (Inl StopCancelled, b1, tok')
         else if bytes > sb_memory_limit_bytes b1 then (Inl StopMemory, b1, tok')
         else if sb_operations b1 \<ge> sl_operations (sb_limits b1) then (Inl StopOperations, b1, tok')
         else if depth > sl_depth (sb_limits b1) then (Inl StopDepth, b1, tok')
         else (Inr (), b1\<lparr>sb_operations := sb_operations b1 + 1\<rparr>, tok'))"

section \<open>What a charge ensures\<close>

definition sb_inv :: "search_budget \<Rightarrow> bool" where
  "sb_inv b \<longleftrightarrow> sb_operations b \<le> sl_operations (sb_limits b) \<and> (sb_operations b > 0 \<longrightarrow> sb_entered b)"

lemma sb_with_memory_spec:
  "sb_with_memory limits memory hard tok = (Inr b, tok') \<Longrightarrow>
     sb_inv b \<and> sb_limits b = limits \<and> sb_operations b = 0 \<and> 0 < sl_operations limits \<and> 0 < sl_depth limits \<and>
     sb_memory_limit_bytes b \<le> memory"
  by (auto simp: sb_with_memory_def is_cancelled_def sb_inv_def Let_def split: if_splits option.splits)

text \<open>An accepted charge costs one operation; a refused one costs none and says why.\<close>

lemma sb_charge_spec:
  assumes "sb_inv b" "sb_charge b tok depth bytes = (r, b', tok')"
  shows "sb_inv b'" "sb_limits b' = sb_limits b" "sb_memory_limit_bytes b' = sb_memory_limit_bytes b" "sb_entered b'"
    and "r = Inr () \<Longrightarrow> sb_operations b' = sb_operations b + 1 \<and> sb_operations b < sl_operations (sb_limits b) \<and>
      depth \<le> sl_depth (sb_limits b) \<and> bytes \<le> sb_memory_limit_bytes b"
    and "r = Inl s \<Longrightarrow> sb_operations b' = sb_operations b"
    and "r = Inl StopOperations \<Longrightarrow> sb_operations b = sl_operations (sb_limits b)"
    and "r = Inl StopDepth \<Longrightarrow> sl_depth (sb_limits b) < depth"
    and "r = Inl StopMemory \<Longrightarrow> sb_memory_limit_bytes b < bytes"
    and "r = Inl StopCancelled \<longleftrightarrow> ct_flag tok (ct_checks tok)"
    and "tok' = tok\<lparr>ct_checks := ct_checks tok + 1\<rparr>"
    and "sb_depth_reached b' = max (sb_depth_reached b) depth"
  using assms by (auto simp: sb_charge_def is_cancelled_def sb_inv_def Let_def split: if_splits)

end
