(* ===== verification/Mec_Search.thy ===== *)
theory Mec_Search
  imports Temporal_Cpdag Search_Budget Dag_Paths
begin

text \<open>
  \<open>mec_search.rs\<close> and \<open>cpdag_completion.rs\<close>: the orientation search that streams the members of a
  Markov equivalence class, one undirected edge at a time, under a search budget.

  The traits \<open>MecCpdag\<close> and \<open>MecDag\<close> are records of the operations the search uses; the macros'
  instances for the two CPDAG and the two DAG types are \<open>cpdag_mec\<close>, \<open>tcp_mec\<close>, \<open>dag_mec\<close>,
  \<open>tdag_mec\<close>. The search clones its graphs, so states are passed by value.
\<close>

record 'g mec_cpdag =
  mc_node_count :: "'g \<Rightarrow> nat"
  mc_parents :: "'g \<Rightarrow> dense_id \<Rightarrow> dense_id list"
  mc_has_edge :: "'g \<Rightarrow> dense_id \<Rightarrow> dense_id \<Rightarrow> bool"
  mc_edges :: "'g \<Rightarrow> marked_edge list"
  mc_conflict_edge_count :: "'g \<Rightarrow> nat"
  mc_orient_undirected :: "'g \<Rightarrow> dense_id \<Rightarrow> dense_id \<Rightarrow> ((graph_error + unit) \<times> 'g) option"

record 'd mec_dag =
  md_node_count :: "'d \<Rightarrow> nat"
  md_parents :: "'d \<Rightarrow> dense_id \<Rightarrow> dense_id list"
  md_children :: "'d \<Rightarrow> dense_id \<Rightarrow> dense_id list"
  md_edges :: "'d \<Rightarrow> marked_edge list"

definition cpdag_mec :: "cpdag mec_cpdag" where
  "cpdag_mec = \<lparr>mc_node_count = cp_node_count, mc_parents = cp_parents, mc_has_edge = cp_has_edge,
     mc_edges = cp_edges, mc_conflict_edge_count = cp_conflict_edge_count,
     mc_orient_undirected = cp_orient_undirected\<rparr>"

definition tcp_mec :: "temporal_cpdag mec_cpdag" where
  "tcp_mec = cpdag_mec\<lparr>mc_orient_undirected := tcp_orient_undirected\<rparr>"

definition dag_mec :: "dag mec_dag" where
  "dag_mec = \<lparr>md_node_count = dag_node_count, md_parents = dag_parents, md_children = dag_children,
     md_edges = dag_edges\<rparr>"

text \<open>The temporal DAG's row accessors panic on unknown ids; the search asks for stored nodes only.\<close>

definition tdag_mec :: "temporal_dag mec_dag" where
  "tdag_mec = \<lparr>md_node_count = tdag_node_count, md_parents = (\<lambda>d i. the (tdag_parents d i)),
     md_children = (\<lambda>d i. the (tdag_children d i)), md_edges = tdag_edges\<rparr>"

section \<open>Unshielded colliders\<close>

definition sorted_pair :: "dense_id \<Rightarrow> dense_id \<Rightarrow> nat \<times> nat" where
  "sorted_pair a b = (if a \<le> b then (a, b) else (b, a))"

text \<open>The double loop over positions \<open>left_i < right_i\<close>.\<close>

fun index_pairs :: "'a list \<Rightarrow> ('a \<times> 'a) list" where
  "index_pairs [] = []"
| "index_pairs (x # xs) = map (Pair x) xs @ index_pairs xs"

definition colliders_at ::
  "(dense_id \<Rightarrow> dense_id \<Rightarrow> bool) \<Rightarrow> dense_id list \<Rightarrow> dense_id \<Rightarrow> (nat \<times> nat \<times> nat) list" where
  "colliders_at adjacent parents center =
     map (\<lambda>(l, r). (fst (sorted_pair l r), center, snd (sorted_pair l r)))
       (filter (\<lambda>(l, r). \<not> adjacent l r) (index_pairs parents))"

definition unshielded_colliders_cpdag :: "'g mec_cpdag \<Rightarrow> 'g \<Rightarrow> (nat \<times> nat \<times> nat) list" where
  "unshielded_colliders_cpdag M g =
     remdups_adj (sort (concat (map (\<lambda>c. colliders_at (mc_has_edge M g) (mc_parents M g c) c)
       [0..<min (mc_node_count M g) id_space])))"

definition unshielded_colliders_dag :: "'d mec_dag \<Rightarrow> 'd \<Rightarrow> (nat \<times> nat \<times> nat) list" where
  "unshielded_colliders_dag D d =
     remdups_adj (sort (concat (map
       (\<lambda>c. colliders_at (\<lambda>l r. r \<in> set (md_children D d l) \<or> l \<in> set (md_children D d r)) (md_parents D d c) c)
       [0..<min (md_node_count D d) id_space])))"

definition mec_edge_oriented :: "'d mec_dag \<Rightarrow> 'd \<Rightarrow> marked_edge \<Rightarrow> bool" where
  "mec_edge_oriented D d e =
     (case parent_child e of
        Some (src, tgt) \<Rightarrow> tgt \<in> set (md_children D d src)
      | None \<Rightarrow>
          (if is_undirected e
           then (me_b e \<in> set (md_children D d (me_a e))) \<noteq> (me_a e \<in> set (md_children D d (me_b e)))
           else \<not> is_conflict e))"

definition is_mec_member :: "'g mec_cpdag \<Rightarrow> 'd mec_dag \<Rightarrow> 'g \<Rightarrow> 'd \<Rightarrow> bool \<Rightarrow> bool" where
  "is_mec_member M D g d same_nodes =
     (if \<not> same_nodes then False
      else if \<not> list_all (mec_edge_oriented D d) (mc_edges M g) then False
      else if \<not> list_all (\<lambda>e. case parent_child e of Some (src, tgt) \<Rightarrow> mc_has_edge M g src tgt | None \<Rightarrow> True)
            (md_edges D d) then False
      else unshielded_colliders_cpdag M g = unshielded_colliders_dag D d)"

text \<open>\<open>allowed\<close> is sorted, so the binary search decides membership.\<close>

definition has_forbidden_collider_at ::
  "'g mec_cpdag \<Rightarrow> (nat \<times> nat \<times> nat) list \<Rightarrow> 'g \<Rightarrow> dense_id \<Rightarrow> bool" where
  "has_forbidden_collider_at M allowed g center =
     list_ex (\<lambda>(l, r). \<not> mc_has_edge M g l r \<and>
         (fst (sorted_pair l r), center, snd (sorted_pair l r)) \<notin> set allowed)
       (index_pairs (mc_parents M g center))"

section \<open>The search\<close>

record 'g mec_search =
  mx_base :: 'g
  mx_undirected :: "(dense_id \<times> dense_id) list"
  mx_allowed_colliders :: "(nat \<times> nat \<times> nat) list"
  mx_max_completions :: nat
  mx_next_index :: nat
  mx_stack :: "('g \<times> nat) list"
  mx_limits :: search_limits
  mx_hard_limit :: "nat option"
  mx_token :: cancellation_token
  mx_memory_limit_bytes :: nat
  mx_state_bytes :: nat
  mx_operations :: nat
  mx_depth_reached :: nat
  mx_stop :: "search_stop option"

text \<open>
  \<open>edge_size\<close> stands for \<open>size_of::<MarkedEdge>()\<close>, which the compiler chooses. The context is the pair
  of its hard memory limit and its token.
\<close>

definition mec_new ::
  "'g mec_cpdag \<Rightarrow> nat \<Rightarrow> 'g \<Rightarrow> nat \<Rightarrow> search_limits \<Rightarrow> nat option \<Rightarrow> cancellation_token \<Rightarrow> string \<Rightarrow>
    graph_error + 'g mec_search" where
  "mec_new M edge_size g max_completions limits hard tok conflict_message =
     (if mc_conflict_edge_count M g > 0 then Inl (InvalidEndpoints conflict_message)
      else Inr \<lparr>mx_base = g,
        mx_undirected = remdups_adj (sort (map (\<lambda>e. sorted_pair (me_a e) (me_b e))
          (filter is_undirected (mc_edges M g)))),
        mx_allowed_colliders = unshielded_colliders_cpdag M g,
        mx_max_completions = max_completions, mx_next_index = 0, mx_stack = [(g, 0)],
        mx_limits = limits, mx_hard_limit = hard, mx_token = tok,
        mx_memory_limit_bytes = (case hard of None \<Rightarrow> default_search_memory_bytes
          | Some h \<Rightarrow> min h default_search_memory_bytes),
        mx_state_bytes = saturating_mul
          (saturating_add (mc_node_count M g) (saturating_mul (length (mc_edges M g)) 2)) edge_size,
        mx_operations = 0, mx_depth_reached = 0, mx_stop = None\<rparr>)"

definition mec_hit_cap :: "'g mec_search \<Rightarrow> bool" where
  "mec_hit_cap s \<longleftrightarrow> mx_next_index s \<ge> mx_max_completions s \<and> mx_stack s \<noteq> [] \<or> mx_stop s \<noteq> None"

definition mec_n_undirected :: "'g mec_search \<Rightarrow> nat" where
  "mec_n_undirected s = length (mx_undirected s)"

text \<open>
  The two children of a state, in the order they are pushed: \<open>b -> a\<close> first, so that \<open>a -> b\<close> is on
  top. An orientation that fails or makes a forbidden collider at its head is dropped.
\<close>

fun mec_push_children ::
  "'g mec_cpdag \<Rightarrow> (nat \<times> nat \<times> nat) list \<Rightarrow> 'g \<Rightarrow> nat \<Rightarrow> (dense_id \<times> dense_id) list \<Rightarrow>
    ('g \<times> nat) list \<Rightarrow> ('g \<times> nat) list option" where
  "mec_push_children M allowed g edge_i [] stack = Some stack"
| "mec_push_children M allowed g edge_i ((src, tgt) # rest) stack =
     (case mc_orient_undirected M g src tgt of
        None \<Rightarrow> None
      | Some (Inl _, _) \<Rightarrow> mec_push_children M allowed g edge_i rest stack
      | Some (Inr _, next_g) \<Rightarrow>
          (if has_forbidden_collider_at M allowed next_g tgt
           then mec_push_children M allowed g edge_i rest stack
           else mec_push_children M allowed g edge_i rest ((next_g, edge_i + 1) # stack)))"

text \<open>The loop of \<open>expand\<close>: every iteration charges one operation, so the budget bounds it.\<close>

function mec_expand ::
  "'g mec_cpdag \<Rightarrow> 'g mec_search \<Rightarrow> search_budget \<Rightarrow> ('g option \<times> 'g mec_search \<times> search_budget) option" where
  "mec_expand M s budget =
     (case mx_stack s of
        [] \<Rightarrow> Some (None, s, budget)
      | (g, edge_i) # rest \<Rightarrow>
          (let live = saturating_add (length rest) 1
           in case sb_charge budget (mx_token s) edge_i (saturating_mul live (mx_state_bytes s)) of
                (Inl stop, budget', tok') \<Rightarrow>
                  Some (None, s\<lparr>mx_stop := Some stop, mx_token := tok'\<rparr>, budget')
              | (Inr _, budget', tok') \<Rightarrow>
                  (if edge_i = length (mx_undirected s)
                   then Some (Some g, s\<lparr>mx_stack := rest, mx_token := tok'\<rparr>, budget')
                   else if edge_i > length (mx_undirected s) then None
                   else (case mx_undirected s ! edge_i of
                           (a, b) \<Rightarrow>
                             (case mec_push_children M (mx_allowed_colliders s) g edge_i [(b, a), (a, b)] rest of
                                None \<Rightarrow> None
                              | Some stack' \<Rightarrow>
                                  mec_expand M (s\<lparr>mx_stack := stack', mx_token := tok'\<rparr>) budget')))))"
  by pat_completeness auto
termination
  by (relation "measure (\<lambda>(M, s, b). sl_operations (sb_limits b) - sb_operations b)")
    (auto simp: sb_charge_def is_cancelled_def Let_def split: if_splits)

declare mec_expand.simps [simp del]

definition mec_next_oriented :: "'g mec_cpdag \<Rightarrow> 'g mec_search \<Rightarrow> ('g option \<times> 'g mec_search) option" where
  "mec_next_oriented M s =
     (if mx_next_index s \<ge> mx_max_completions s \<or> mx_stop s \<noteq> None \<or> mx_stack s = [] then Some (None, s)
      else (let remaining = \<lparr>sl_operations = sl_operations (mx_limits s) - mx_operations s,
                             sl_depth = sl_depth (mx_limits s)\<rparr>
            in case sb_with_memory remaining (mx_memory_limit_bytes s) (mx_hard_limit s) (mx_token s) of
                 (Inl receipt, tok') \<Rightarrow> Some (None, s\<lparr>mx_stop := Some (rc_stop receipt), mx_token := tok'\<rparr>)
               | (Inr budget, tok') \<Rightarrow>
                   (case mec_expand M (s\<lparr>mx_token := tok'\<rparr>) budget of
                      None \<Rightarrow> None
                    | Some (found, s', budget') \<Rightarrow>
                        Some (found, s'\<lparr>mx_operations := saturating_add (mx_operations s') (sb_operations budget'),
                                       mx_depth_reached := max (mx_depth_reached s') (sb_depth_reached budget')\<rparr>))))"

definition mec_record_yield :: "'g mec_search \<Rightarrow> nat \<times> 'g mec_search" where
  "mec_record_yield s = (mx_next_index s, s\<lparr>mx_next_index := mx_next_index s + 1\<rparr>)"

section \<open>The stream as a list of leaves\<close>

text \<open>
  The search tree without budget: the leaves below a state, in the order the stack visits them.
\<close>

fun mec_leaves :: "'g mec_cpdag \<Rightarrow> (nat \<times> nat \<times> nat) list \<Rightarrow> (dense_id \<times> dense_id) list \<Rightarrow> 'g \<Rightarrow> 'g list" where
  "mec_leaves M allowed [] g = [g]"
| "mec_leaves M allowed ((a, b) # us) g =
     concat (map (\<lambda>(src, tgt).
         case mc_orient_undirected M g src tgt of
           Some (Inr _, g') \<Rightarrow> (if has_forbidden_collider_at M allowed g' tgt then [] else mec_leaves M allowed us g')
         | _ \<Rightarrow> [])
       [(a, b), (b, a)])"

definition mec_pending :: "'g mec_cpdag \<Rightarrow> 'g mec_search \<Rightarrow> 'g list" where
  "mec_pending M s =
     concat (map (\<lambda>(g, i). mec_leaves M (mx_allowed_colliders s) (drop i (mx_undirected s)) g) (mx_stack s))"

definition mec_states_ok :: "('g \<Rightarrow> bool) \<Rightarrow> 'g mec_search \<Rightarrow> bool" where
  "mec_states_ok ginv s \<longleftrightarrow> (\<forall>(g, i) \<in> set (mx_stack s). ginv g \<and> i \<le> length (mx_undirected s))"

definition mec_same_search :: "'g mec_search \<Rightarrow> 'g mec_search \<Rightarrow> bool" where
  "mec_same_search s s' \<longleftrightarrow> mx_base s' = mx_base s \<and> mx_undirected s' = mx_undirected s \<and>
     mx_allowed_colliders s' = mx_allowed_colliders s \<and> mx_max_completions s' = mx_max_completions s \<and>
     mx_next_index s' = mx_next_index s \<and> mx_limits s' = mx_limits s"

lemma mec_same_search_refl [simp]: "mec_same_search s s"
  by (simp add: mec_same_search_def)

lemma mec_same_search_trans: "mec_same_search s t \<Longrightarrow> mec_same_search t u \<Longrightarrow> mec_same_search s u"
  by (simp add: mec_same_search_def)

text \<open>What the search asks of a graph type: orienting never panics and keeps the type's invariant.\<close>

locale mec_type =
  fixes M :: "'g mec_cpdag" and ginv :: "'g \<Rightarrow> bool"
  assumes orient_total: "ginv g \<Longrightarrow> \<exists>r g'. mc_orient_undirected M g u v = Some (r, g') \<and> ginv g'"
begin

lemma push_children_spec:
  assumes "ginv g"
  shows "\<exists>stack'. mec_push_children M allowed g i ps stack = Some stack' \<and>
    (\<exists>new. stack' = new @ stack \<and> (\<forall>(g', j) \<in> set new. ginv g' \<and> j = i + 1) \<and>
      concat (map (\<lambda>(g, i). mec_leaves M allowed (drop i us) g) new) =
        concat (map (\<lambda>(src, tgt). case mc_orient_undirected M g src tgt of
             Some (Inr _, g') \<Rightarrow> (if has_forbidden_collider_at M allowed g' tgt then []
                                else mec_leaves M allowed (drop (i + 1) us) g')
           | _ \<Rightarrow> []) (rev ps)))"
proof (induction ps arbitrary: stack)
  case (Cons p ps)
  obtain u v where p: "p = (u, v)" by fastforce
  obtain r g' where o: "mc_orient_undirected M g u v = Some (r, g')" "ginv g'"
    using orient_total[OF assms] by blast
  show ?case
  proof (cases "\<exists>x. r = Inr x \<and> \<not> has_forbidden_collider_at M allowed g' v")
    case False
    then have "mec_push_children M allowed g i (p # ps) stack = mec_push_children M allowed g i ps stack"
      using o by (cases r) (simp_all add: p)
    moreover have "(case mc_orient_undirected M g u v of
        Some (Inr _, g') \<Rightarrow> (if has_forbidden_collider_at M allowed g' v then []
                           else mec_leaves M allowed (drop (i + 1) us) g') | _ \<Rightarrow> []) = []"
      using o False by (cases r) simp_all
    ultimately show ?thesis using Cons.IH[of stack] by (simp add: p)
  next
    case True
    then have step: "mec_push_children M allowed g i (p # ps) stack =
        mec_push_children M allowed g i ps ((g', i + 1) # stack)"
      using o by (auto simp: p)
    obtain new where new: "mec_push_children M allowed g i ps ((g', i + 1) # stack) = Some (new @ (g', i + 1) # stack)"
        "\<forall>(g', j) \<in> set new. ginv g' \<and> j = i + 1"
        "concat (map (\<lambda>(g, i). mec_leaves M allowed (drop i us) g) new) =
          concat (map (\<lambda>(src, tgt). case mc_orient_undirected M g src tgt of
             Some (Inr _, g') \<Rightarrow> (if has_forbidden_collider_at M allowed g' tgt then []
                                else mec_leaves M allowed (drop (i + 1) us) g')
           | _ \<Rightarrow> []) (rev ps))"
      using Cons.IH[of "(g', i + 1) # stack"] by auto
    have leaf: "(case mc_orient_undirected M g u v of
        Some (Inr _, g') \<Rightarrow> (if has_forbidden_collider_at M allowed g' v then []
                           else mec_leaves M allowed (drop (i + 1) us) g') | _ \<Rightarrow> []) =
        mec_leaves M allowed (drop (i + 1) us) g'"
      using o True by auto
    show ?thesis
    proof (intro exI conjI)
      show "mec_push_children M allowed g i (p # ps) stack = Some ((new @ [(g', i + 1)]) @ stack)"
        using step new(1) by simp
      show "(new @ [(g', i + 1)]) @ stack = (new @ [(g', i + 1)]) @ stack" ..
      show "\<forall>(g', j) \<in> set (new @ [(g', i + 1)]). ginv g' \<and> j = i + 1" using new(2) o(2) by auto
    qed (use new(3) leaf in \<open>simp add: p\<close>)
  qed
qed simp

lemma expand_spec:
  assumes "mec_states_ok ginv s" "sb_inv budget"
  shows "\<exists>r s' b'. mec_expand M s budget = Some (r, s', b') \<and> mec_states_ok ginv s' \<and> mec_same_search s s' \<and>
    mx_operations s' = mx_operations s \<and> sb_inv b' \<and> sb_limits b' = sb_limits budget \<and>
    (r \<noteq> None \<longrightarrow> sb_operations budget < sb_operations b') \<and>
    (case r of
       Some g \<Rightarrow> ginv g \<and> mx_stop s' = mx_stop s \<and> mec_pending M s = g # mec_pending M s'
     | None \<Rightarrow> mec_pending M s' = mec_pending M s \<and>
         (mx_stop s' \<noteq> None \<or> mx_stop s' = mx_stop s \<and> mx_stack s' = []))"
  using assms
proof (induction "sl_operations (sb_limits budget) - sb_operations budget" arbitrary: s budget rule: less_induct)
  case less
  show ?case
  proof (cases "mx_stack s")
    case Nil
    then show ?thesis using less.prems by (simp add: mec_expand.simps[of _ s])
  next
    case (Cons top rest)
    obtain g i where top: "top = (g, i)" by fastforce
    have g: "ginv g" "i \<le> length (mx_undirected s)" "\<forall>(g, i) \<in> set rest. ginv g \<and> i \<le> length (mx_undirected s)"
      using less.prems(1) Cons top by (auto simp: mec_states_ok_def)
    let ?bytes = "saturating_mul (saturating_add (length rest) 1) (mx_state_bytes s)"
    obtain r b1 tok1 where ch: "sb_charge budget (mx_token s) i ?bytes = (r, b1, tok1)" by (metis prod_cases3)
    note charge = sb_charge_spec[OF less.prems(2) ch]
    let ?leaves = "\<lambda>(g, i). mec_leaves M (mx_allowed_colliders s) (drop i (mx_undirected s)) g"
    have pend: "mec_pending M s = ?leaves (g, i) @ concat (map ?leaves rest)"
      using Cons top by (simp add: mec_pending_def)
    show ?thesis
    proof (cases r)
      case (Inl stop)
      let ?s = "s\<lparr>mx_stop := Some stop, mx_token := tok1\<rparr>"
      have "mec_expand M s budget = Some (None, ?s, b1)"
        using Cons top ch Inl by (simp add: mec_expand.simps[of _ s])
      then show ?thesis using less.prems(1) charge(1,2)
        by (simp add: mec_states_ok_def mec_same_search_def mec_pending_def)
    next
      case (Inr u)
      show ?thesis
      proof (cases "i = length (mx_undirected s)")
        case True
        let ?s = "s\<lparr>mx_stack := rest, mx_token := tok1\<rparr>"
        have "mec_expand M s budget = Some (Some g, ?s, b1)"
          using Cons top ch Inr True by (simp add: mec_expand.simps[of _ s])
        moreover have "mec_pending M s = g # mec_pending M ?s"
          using pend True by (simp add: mec_pending_def)
        ultimately show ?thesis using g charge(1,2,5) Inr
          by (simp add: mec_states_ok_def mec_same_search_def)
      next
        case False
        then have i: "i < length (mx_undirected s)" using g(2) by simp
        obtain a b where ab: "mx_undirected s ! i = (a, b)" by fastforce
        obtain stack' new where push:
            "mec_push_children M (mx_allowed_colliders s) g i [(b, a), (a, b)] rest = Some stack'"
            "stack' = new @ rest" "\<forall>(g', j) \<in> set new. ginv g' \<and> j = i + 1"
            "concat (map (\<lambda>(g, i). mec_leaves M (mx_allowed_colliders s) (drop i (mx_undirected s)) g) new) =
              concat (map (\<lambda>(src, tgt). case mc_orient_undirected M g src tgt of
                Some (Inr _, g') \<Rightarrow> (if has_forbidden_collider_at M (mx_allowed_colliders s) g' tgt then []
                   else mec_leaves M (mx_allowed_colliders s) (drop (i + 1) (mx_undirected s)) g')
              | _ \<Rightarrow> []) (rev [(b, a), (a, b)]))"
          using push_children_spec[OF g(1), of "mx_allowed_colliders s" i "[(b, a), (a, b)]" rest "mx_undirected s"]
          by blast
        let ?s = "s\<lparr>mx_stack := stack', mx_token := tok1\<rparr>"
        have drop: "drop i (mx_undirected s) = (a, b) # drop (i + 1) (mx_undirected s)"
          using i ab by (simp add: Cons_nth_drop_Suc[symmetric])
        have run: "mec_expand M s budget = mec_expand M ?s b1"
          using Cons top ch Inr False i ab push(1) by (simp add: mec_expand.simps[of _ s])
        have same: "mec_pending M ?s = mec_pending M s"
        proof -
          have "?leaves (g, i) = concat (map ?leaves new)"
            unfolding push(4) prod.case drop mec_leaves.simps rev.simps append.simps ..
          then show ?thesis using pend push(2) by (simp add: mec_pending_def)
        qed
        have ok: "mec_states_ok ginv ?s"
          using push(2,3) g(3) i by (auto simp: mec_states_ok_def)
        have "sl_operations (sb_limits b1) - sb_operations b1 < sl_operations (sb_limits budget) - sb_operations budget"
          using charge(2) charge(5)[OF Inr[simplified]] by (metis Suc_eq_plus1 diff_less_mono2 lessI)
        from less.hyps[OF this ok charge(1)] obtain r' s' b' where
          ih: "mec_expand M ?s b1 = Some (r', s', b')" "mec_states_ok ginv s'" "mec_same_search ?s s'"
            "mx_operations s' = mx_operations ?s" "sb_inv b'" "sb_limits b' = sb_limits b1"
            "r' \<noteq> None \<longrightarrow> sb_operations b1 < sb_operations b'"
            "case r' of Some g \<Rightarrow> ginv g \<and> mx_stop s' = mx_stop ?s \<and> mec_pending M ?s = g # mec_pending M s'
             | None \<Rightarrow> mec_pending M s' = mec_pending M ?s \<and>
                 (mx_stop s' \<noteq> None \<or> mx_stop s' = mx_stop ?s \<and> mx_stack s' = [])"
          by blast
        have "mec_same_search s s'" using ih(3) by (simp add: mec_same_search_def)
        moreover have "r' \<noteq> None \<longrightarrow> sb_operations budget < sb_operations b'" using ih(7) charge(5) Inr by auto
        ultimately show ?thesis using ih run same charge(2) by (intro exI[of _ r'] exI[of _ s'] exI[of _ b']) (cases r'; simp)
      qed
    qed
  qed
qed

text \<open>
  One call to the stream: it yields the next leaf, or stops because a bound was reached (the pending
  leaves stay), or because nothing is left. The operations of the whole stream never exceed the limit.
\<close>

lemma next_oriented_spec:
  assumes "mec_states_ok ginv s" "mx_operations s \<le> sl_operations (mx_limits s)"
  shows "\<exists>r s'. mec_next_oriented M s = Some (r, s') \<and> mec_states_ok ginv s' \<and> mec_same_search s s' \<and>
    mx_operations s' \<le> sl_operations (mx_limits s') \<and>
    (case r of
       Some g \<Rightarrow> ginv g \<and> mx_next_index s < mx_max_completions s \<and> mx_stop s' = None \<and>
         mec_pending M s = g # mec_pending M s'
     | None \<Rightarrow> mec_pending M s' = mec_pending M s \<and> (mec_hit_cap s' \<or> mec_pending M s' = []))"
proof (cases "mx_next_index s \<ge> mx_max_completions s \<or> mx_stop s \<noteq> None \<or> mx_stack s = []")
  case True
  then have "mec_next_oriented M s = Some (None, s)" by (simp add: mec_next_oriented_def)
  moreover have "mec_hit_cap s \<or> mec_pending M s = []"
    using True by (cases "mx_stack s = []") (auto simp: mec_hit_cap_def mec_pending_def)
  ultimately show ?thesis using assms by simp
next
  case False
  let ?rem = "\<lparr>sl_operations = sl_operations (mx_limits s) - mx_operations s, sl_depth = sl_depth (mx_limits s)\<rparr>"
  obtain br tok1 where b: "sb_with_memory ?rem (mx_memory_limit_bytes s) (mx_hard_limit s) (mx_token s) = (br, tok1)"
    by fastforce
  show ?thesis
  proof (cases br)
    case (Inl receipt)
    let ?s = "s\<lparr>mx_stop := Some (rc_stop receipt), mx_token := tok1\<rparr>"
    have "mec_next_oriented M s = Some (None, ?s)" using False b Inl by (simp add: mec_next_oriented_def)
    then show ?thesis using assms
      by (simp add: mec_states_ok_def mec_same_search_def mec_pending_def mec_hit_cap_def)
  next
    case (Inr budget)
    note bud = sb_with_memory_spec[OF b[unfolded Inr]]
    let ?s = "s\<lparr>mx_token := tok1\<rparr>"
    have "mec_states_ok ginv ?s" using assms(1) by (simp add: mec_states_ok_def)
    from expand_spec[OF this, of budget] bud obtain r s' b' where
      ex: "mec_expand M ?s budget = Some (r, s', b')" "mec_states_ok ginv s'" "mec_same_search ?s s'"
        "mx_operations s' = mx_operations s" "sb_inv b'" "sb_limits b' = ?rem"
        "case r of Some g \<Rightarrow> ginv g \<and> mx_stop s' = mx_stop ?s \<and> mec_pending M ?s = g # mec_pending M s'
         | None \<Rightarrow> mec_pending M s' = mec_pending M ?s \<and>
             (mx_stop s' \<noteq> None \<or> mx_stop s' = mx_stop ?s \<and> mx_stack s' = [])"
      by auto
    let ?t = "s'\<lparr>mx_operations := saturating_add (mx_operations s') (sb_operations b'),
        mx_depth_reached := max (mx_depth_reached s') (sb_depth_reached b')\<rparr>"
    have run: "mec_next_oriented M s = Some (r, ?t)"
      using False b Inr ex(1) by (simp add: mec_next_oriented_def)
    have "sb_operations b' \<le> sl_operations (mx_limits s) - mx_operations s"
      using ex(5,6) by (simp add: sb_inv_def)
    then have ops: "mx_operations ?t \<le> sl_operations (mx_limits ?t)"
      using assms(2) ex(3,4) by (simp add: saturating_add_def mec_same_search_def)
    have pend: "mec_pending M ?t = mec_pending M s'" "mec_pending M ?s = mec_pending M s"
      by (simp_all add: mec_pending_def)
    have "mec_states_ok ginv ?t" "mec_same_search s ?t"
      using ex(2,3) by (simp_all add: mec_states_ok_def mec_same_search_def)
    moreover have "case r of
       Some g \<Rightarrow> ginv g \<and> mx_next_index s < mx_max_completions s \<and> mx_stop ?t = None \<and>
         mec_pending M s = g # mec_pending M ?t
     | None \<Rightarrow> mec_pending M ?t = mec_pending M s \<and> (mec_hit_cap ?t \<or> mec_pending M ?t = [])"
    proof (cases r)
      case None
      then have "mx_stop s' \<noteq> None \<or> mx_stack s' = []" "mec_pending M s' = mec_pending M s"
        using ex(7) pend by auto
      then show ?thesis unfolding None option.case pend by (auto simp: mec_hit_cap_def mec_pending_def)
    next
      case (Some g)
      then show ?thesis using ex(7) False unfolding pend by (simp add: pend(2))
    qed
    ultimately show ?thesis using run ops by blast
  qed
qed

end

interpretation cpm: mec_type cpdag_mec cp_wf
proof unfold_locales
  fix g u v assume g: "cp_wf g"
  show "\<exists>r g'. mc_orient_undirected cpdag_mec g u v = Some (r, g') \<and> cp_wf g'"
    by (rule cp_orient_undirected_cases[OF g, of u v]) (use g in \<open>auto simp: cpdag_mec_def\<close>)
qed

interpretation tcm: mec_type tcp_mec tcp_inv
proof unfold_locales
  fix g u v assume g: "tcp_inv g"
  show "\<exists>r g'. mc_orient_undirected tcp_mec g u v = Some (r, g') \<and> tcp_inv g'"
    by (rule tcp_orient_undirected_cases[OF g, of u v]) (use g in \<open>auto simp: tcp_mec_def\<close>)
qed

end
