(* ===== verification/Mec_Members.thy ===== *)
theory Mec_Members
  imports Mec_Search
begin

text \<open>
  \<open>cpdag_completion.rs\<close> over the static CPDAG: the sampler that turns oriented CPDAGs into DAGs, the
  membership test, and what the stream is worth: every DAG it yields is a member of the Markov
  equivalence class, no member is yielded twice, and when no bound was hit every member was yielded.
\<close>

record cpdag_completion =
  cn_graph :: dag
  cn_index :: nat

record cpdag_completion_sampler =
  cs_search :: "cpdag mec_search"

definition cs_with_budget ::
  "nat \<Rightarrow> cpdag \<Rightarrow> nat \<Rightarrow> search_limits \<Rightarrow> nat option \<Rightarrow> cancellation_token \<Rightarrow>
    graph_error + cpdag_completion_sampler" where
  "cs_with_budget edge_size g max_completions limits hard tok =
     rbind (mec_new cpdag_mec edge_size g max_completions limits hard tok
       ''CpdagCompletionSampler refuses conflict (x-x) edges'') (\<lambda>search. Inr \<lparr>cs_search = search\<rparr>)"

definition default_completion_operations :: nat where
  "default_completion_operations = 4000000"

text \<open>The default context has no hard memory limit and a token nobody cancels.\<close>

definition cs_new :: "nat \<Rightarrow> cpdag \<Rightarrow> nat \<Rightarrow> graph_error + cpdag_completion_sampler" where
  "cs_new edge_size g max_completions =
     cs_with_budget edge_size g max_completions
       \<lparr>sl_operations = default_completion_operations, sl_depth = usize_max\<rparr> None
       \<lparr>ct_flag = (\<lambda>_. False), ct_checks = 0\<rparr>"

definition cs_max_completions :: "cpdag_completion_sampler \<Rightarrow> nat" where
  "cs_max_completions s = mx_max_completions (cs_search s)"

definition cs_n_undirected :: "cpdag_completion_sampler \<Rightarrow> nat" where
  "cs_n_undirected s = mec_n_undirected (cs_search s)"

definition cs_hit_cap :: "cpdag_completion_sampler \<Rightarrow> bool" where
  "cs_hit_cap s = mec_hit_cap (cs_search s)"

definition cs_search_stop :: "cpdag_completion_sampler \<Rightarrow> search_stop option" where
  "cs_search_stop s = mx_stop (cs_search s)"

definition cpdag_is_mec_member :: "cpdag \<Rightarrow> dag \<Rightarrow> bool" where
  "cpdag_is_mec_member g d = is_mec_member cpdag_mec dag_mec g d (cp_node_count g = dag_node_count d)"

text \<open>
  \<open>next\<close>: the \<open>while let\<close> skips orientations that are not members. \<open>None\<close> is a panic or a loop that
  never ends; \<open>cs_next_spec\<close> shows that neither happens.
\<close>

partial_function (option) cs_next ::
  "cpdag_completion_sampler \<Rightarrow> (cpdag_completion option \<times> cpdag_completion_sampler) option" where
  "cs_next s =
     (case mec_next_oriented cpdag_mec (cs_search s) of
        None \<Rightarrow> None
      | Some (None, search) \<Rightarrow> Some (None, s\<lparr>cs_search := search\<rparr>)
      | Some (Some oriented, search) \<Rightarrow>
          (case cp_try_into_dag oriented of
             None \<Rightarrow> None
           | Some (Inl _) \<Rightarrow> Some (None, s\<lparr>cs_search := search\<rparr>)
           | Some (Inr d) \<Rightarrow>
               (if \<not> cpdag_is_mec_member (mx_base search) d then cs_next (s\<lparr>cs_search := search\<rparr>)
                else (case mec_record_yield search of
                        (index, search') \<Rightarrow>
                          Some (Some \<lparr>cn_graph = d, cn_index = index\<rparr>, s\<lparr>cs_search := search'\<rparr>)))))"

declare cs_next.simps [code]

section \<open>Colliders as a set\<close>

definition collider_set :: "(dense_id \<times> dense_id) set \<Rightarrow> (dense_id \<Rightarrow> dense_id \<Rightarrow> bool) \<Rightarrow> (nat \<times> nat \<times> nat) set" where
  "collider_set E adjacent = {(l, c, r). l < r \<and> (l, c) \<in> E \<and> (r, c) \<in> E \<and> \<not> adjacent l r}"

lemma set_index_pairs:
  "distinct xs \<Longrightarrow> (x, y) \<in> set (index_pairs xs) \<Longrightarrow> x \<in> set xs \<and> y \<in> set xs \<and> x \<noteq> y"
  by (induction xs) auto

lemma index_pairs_complete:
  "x \<in> set xs \<Longrightarrow> y \<in> set xs \<Longrightarrow> x \<noteq> y \<Longrightarrow> (x, y) \<in> set (index_pairs xs) \<or> (y, x) \<in> set (index_pairs xs)"
  by (induction xs) auto

lemma set_colliders_at:
  assumes "distinct ps" "\<And>l r. adjacent l r = adjacent r l"
  shows "set (colliders_at adjacent ps c) =
    {(l, c', r). c' = c \<and> l < r \<and> l \<in> set ps \<and> r \<in> set ps \<and> \<not> adjacent l r}"
proof (intro set_eqI iffI)
  fix t assume "t \<in> set (colliders_at adjacent ps c)"
  then obtain x y where xy: "(x, y) \<in> set (index_pairs ps)" "\<not> adjacent x y"
      "t = (fst (sorted_pair x y), c, snd (sorted_pair x y))"
    by (auto simp: colliders_at_def)
  then have "x \<in> set ps" "y \<in> set ps" "x \<noteq> y" using set_index_pairs[OF assms(1)] by blast+
  then show "t \<in> {(l, c', r). c' = c \<and> l < r \<and> l \<in> set ps \<and> r \<in> set ps \<and> \<not> adjacent l r}"
    using xy(2,3) assms(2)[of x y] by (auto simp: sorted_pair_def)
next
  fix t assume "t \<in> {(l, c', r). c' = c \<and> l < r \<and> l \<in> set ps \<and> r \<in> set ps \<and> \<not> adjacent l r}"
  then obtain l r where lr: "t = (l, c, r)" "l < r" "l \<in> set ps" "r \<in> set ps" "\<not> adjacent l r" by auto
  show "t \<in> set (colliders_at adjacent ps c)"
  proof (cases "(l, r) \<in> set (index_pairs ps)")
    case True
    then show ?thesis using lr by (force simp: colliders_at_def sorted_pair_def image_iff)
  next
    case False
    then have "(r, l) \<in> set (index_pairs ps)" using index_pairs_complete[OF lr(3,4)] lr(2) by auto
    moreover have "\<not> adjacent r l" using lr(5) assms(2) by simp
    ultimately show ?thesis using lr by (force simp: colliders_at_def sorted_pair_def image_iff)
  qed
qed

lemma distinct_remdups_adj_sorted: "sorted xs \<Longrightarrow> distinct (remdups_adj xs)"
proof (induction xs rule: remdups_adj.induct)
  case (3 x y xs)
  show ?case
  proof (cases "x = y")
    case False
    then have "x < y" using "3.prems" by (simp add: order_less_le)
    then have "\<forall>z \<in> set (y # xs). x < z" using "3.prems" by auto
    then have "x \<notin> set (remdups_adj (y # xs))" by auto
    then show ?thesis using 3 False by simp
  qed (use 3 in simp)
qed simp_all

lemma remdups_adj_sort: "remdups_adj (sort xs) = sorted_list_of_set (set xs)"
  using distinct_remdups_adj_sorted[of "sort xs"]
  by (metis remdups_adj_set set_sort sorted_list_of_set.idem_if_sorted_distinct sorted_remdups_adj sorted_sort)

section \<open>Colliders of the two graph types\<close>

definition cp_adjacent_pair :: "cpdag \<Rightarrow> dense_id \<Rightarrow> dense_id \<Rightarrow> bool" where
  "cp_adjacent_pair g a b \<longleftrightarrow> cp_marks g a b \<noteq> None"

lemma cp_has_edge_marks: "cp_wf g \<Longrightarrow> cp_has_edge g a b = cp_adjacent_pair g a b"
  using edge_between_Some[OF cp_wfD(2), of g a b] edge_between_None[OF cp_wfD(2), of g a b]
  by (cases "cp_marks g a b") (auto simp: cp_has_edge_def cp_edge_between_def cp_adjacent_pair_def cp_marks_def)

lemma cp_adjacent_pair_sym: "cp_wf g \<Longrightarrow> cp_adjacent_pair g a b = cp_adjacent_pair g b a"
  using marks_sym_None[OF ms_wfD(2)[OF cp_wfD(2)], of g a b] by (simp add: cp_adjacent_pair_def cp_marks_def)

lemma cp_parents_spec:
  assumes "cp_wf g"
  shows "set (cp_parents g c) = {p. (p, c) \<in> cp_rel g}" "distinct (cp_parents g c)"
  using directed_parents_set[OF cp_wfD(2)[OF assms]] distinct_map_filter[of ae_neighbor "row (cp_adj g) c"]
    ms_rows_row[OF ms_wfD(1)[OF cp_wfD(2)[OF assms]]]
  by (simp_all add: cp_parents_def cp_rel_def directed_parents_def)

lemma colliders_list:
  assumes "\<And>c. distinct (ps c)" "\<And>c. set (ps c) = {p. (p, c) \<in> E}" "\<And>l r. adjacent l r = adjacent r l"
    "\<And>p c. (p, c) \<in> E \<Longrightarrow> c < n"
  shows "remdups_adj (sort (concat (map (\<lambda>c. colliders_at adjacent (ps c) c) [0..<n]))) =
    sorted_list_of_set (collider_set E adjacent)"
proof -
  have "set (concat (map (\<lambda>c. colliders_at adjacent (ps c) c) [0..<n])) = collider_set E adjacent"
    using assms(4) by (fastforce simp: set_colliders_at[OF assms(1,3)] assms(2) collider_set_def)
  then show ?thesis by (simp only: remdups_adj_sort)
qed

lemma finite_collider_set: "finite E \<Longrightarrow> finite (collider_set E adjacent)"
  by (rule finite_subset[of _ "(\<lambda>(u, v). (fst u, snd u, fst v)) ` (E \<times> E)"]) (force simp: collider_set_def image_iff)+

lemma colliders_cpdag:
  assumes "cp_wf g"
  shows "unshielded_colliders_cpdag cpdag_mec g = sorted_list_of_set (collider_set (cp_rel g) (cp_adjacent_pair g))"
proof -
  have n: "min (cp_node_count g) id_space = cp_node_count g" using cp_wfD(4)[OF assms] by simp
  have "cp_has_edge g = cp_adjacent_pair g" using cp_has_edge_marks[OF assms] by (simp add: fun_eq_iff)
  then show ?thesis
    using colliders_list[of "cp_parents g" "cp_rel g" "cp_adjacent_pair g" "cp_node_count g"] cp_parents_spec[OF assms]
      cp_adjacent_pair_sym[OF assms] cpg.arrow_range[OF assms]
    by (simp add: unshielded_colliders_cpdag_def cpdag_mec_def n cp_rel_def)
qed

definition dag_adjacent :: "dag \<Rightarrow> dense_id \<Rightarrow> dense_id \<Rightarrow> bool" where
  "dag_adjacent d a b \<longleftrightarrow> (a, b) \<in> dag_rel d \<or> (b, a) \<in> dag_rel d"

lemma dag_parents_distinct: "dag_inv d \<Longrightarrow> distinct (dag_parents d c)"
  using dc_wf_distinct(2)[OF dag_inv_core(2), of d c] dc_wfD(2)[OF dag_inv_core(2), of d]
  by (simp add: dag_parents_def dc_parents_of_def row_def)

lemma colliders_dag:
  assumes "dag_inv d"
  shows "unshielded_colliders_dag dag_mec d = sorted_list_of_set (collider_set (dag_rel d) (dag_adjacent d))"
proof -
  have n: "min (dag_node_count d) id_space = dag_node_count d"
    using dc_wfD(4)[OF dag_inv_core(2)[OF assms]] by (simp add: dag_node_count_def)
  have adj: "(\<lambda>l r. r \<in> set (dag_children d l) \<or> l \<in> set (dag_children d r)) = dag_adjacent d"
    by (simp add: fun_eq_iff dag_adjacent_def in_dag_children)
  have ps: "set (dag_parents d c) = {p. (p, c) \<in> dag_rel d}" for c using in_dag_parents[OF assms] by blast
  have sym: "dag_adjacent d l r = dag_adjacent d r l" for l r by (auto simp: dag_adjacent_def)
  show ?thesis
    using colliders_list[of "dag_parents d" "dag_rel d" "dag_adjacent d" "dag_node_count d"] dag_parents_distinct[OF assms]
      ps sym dag_rel_bound[OF assms]
    by (simp add: unshielded_colliders_dag_def dag_mec_def n adj)
qed

lemma cp_rel_finite: "cp_wf g \<Longrightarrow> finite (cp_rel g)"
  by (rule finite_subset[of _ "{..<cp_node_count g} \<times> {..<cp_node_count g}"])
    (auto dest: cpg.arrow_range simp: cp_rel_def)

lemma forbidden_collider_iff:
  assumes "cp_wf g" "set allowed = A"
  shows "has_forbidden_collider_at cpdag_mec allowed g c \<longleftrightarrow>
    (\<exists>l r. (l, c, r) \<in> collider_set (cp_rel g) (cp_adjacent_pair g) - A)"
proof -
  have eq: "has_forbidden_collider_at cpdag_mec allowed g c \<longleftrightarrow>
      (\<exists>t \<in> set (colliders_at (cp_has_edge g) (cp_parents g c) c). t \<notin> A)"
    by (auto simp: has_forbidden_collider_at_def colliders_at_def list_ex_iff cpdag_mec_def assms(2))
  have sym: "cp_has_edge g l r = cp_has_edge g r l" for l r
    using cp_adjacent_pair_sym[OF assms(1)] cp_has_edge_marks[OF assms(1)] by simp
  show ?thesis
    unfolding eq set_colliders_at[OF cp_parents_spec(2)[OF assms(1)] sym] cp_parents_spec(1)[OF assms(1)]
      cp_has_edge_marks[OF assms(1)] collider_set_def by auto
qed

section \<open>Membership\<close>

definition cp_no_conflict :: "cpdag \<Rightarrow> bool" where
  "cp_no_conflict g \<longleftrightarrow> marks_all (\<lambda>_ _ p _. p \<noteq> Conflict) (cp_marks g)"

text \<open>What membership means: the same adjacencies, the compelled arrows, the same unshielded colliders.\<close>

definition mec_relation :: "cpdag \<Rightarrow> (dense_id \<times> dense_id) set \<Rightarrow> bool" where
  "mec_relation g E \<longleftrightarrow> cp_rel g \<subseteq> E \<and> (\<forall>a b. cp_adjacent_pair g a b \<longleftrightarrow> (a, b) \<in> E \<or> (b, a) \<in> E) \<and>
     collider_set E (cp_adjacent_pair g) = collider_set (cp_rel g) (cp_adjacent_pair g)"

lemma cp_marks_legal: "cp_wf g \<Longrightarrow> cp_marks g a b = Some (p, q, m) \<Longrightarrow> cpdag_marks p q"
  using cp_wfD(5) unfolding marks_all_def by blast

lemma cp_marks_mirror:
  assumes "cp_wf g" "cp_marks g a b = Some (p, q, m)"
  shows "cp_marks g b a = Some (q, p, m) \<and> a \<noteq> b"
  using marks_symD(3,4)[OF ms_wfD(2)[OF cp_wfD(2)[OF assms(1)]] assms(2)[unfolded cp_marks_def]]
  by (simp add: cp_marks_def)

lemma mec_projections:
  "mc_edges cpdag_mec = cp_edges" "mc_has_edge cpdag_mec = cp_has_edge" "md_edges dag_mec = dag_edges"
  "mc_orient_undirected cpdag_mec = cp_orient_undirected"
  by (simp_all add: cpdag_mec_def dag_mec_def)

lemma early_returns: "(if \<not> a then False else if \<not> b then False else if \<not> c then False else e) \<longleftrightarrow> a \<and> b \<and> c \<and> e"
  by simp

lemma cp_rel_marks: "(a, b) \<in> cp_rel g \<longleftrightarrow> (\<exists>m. cp_marks g a b = Some (Tail, Arrow, m))"
  by (simp add: cp_rel_def ms_rel_iff cp_marks_def)

lemma in_cp_edges:
  assumes "cp_wf g"
  shows "e \<in> set (cp_edges g) \<longleftrightarrow> (\<exists>a b p q m. e = edge_of_marks a b (p, q, m) \<and> a < b \<and> cp_marks g a b = Some (p, q, m))"
  using cpg.edges_complete[OF assms, of e] by (auto simp: cp_edges_def cp_marks_def)

lemma mec_edge_oriented_cases:
  assumes "dag_inv d" "cp_wf g" "cp_marks g a b = Some (p, q, m)"
  shows "mec_edge_oriented dag_mec d (edge_of_marks a b (p, q, m)) \<longleftrightarrow>
    (p = Tail \<and> q = Arrow \<and> (a, b) \<in> dag_rel d) \<or> (p = Arrow \<and> q = Tail \<and> (b, a) \<in> dag_rel d) \<or>
    (p = Tail \<and> q = Tail \<and> ((a, b) \<in> dag_rel d) \<noteq> ((b, a) \<in> dag_rel d))"
  using cp_marks_legal[OF assms(2,3)] by (auto simp: mec_edge_oriented_def edge_of_marks_def parent_child_def is_undirected_def is_conflict_def
      dag_mec_def in_dag_children cpdag_marks_def)

lemma dag_edges_skeleton:
  assumes "dag_inv d"
  shows "list_all (\<lambda>e. case parent_child e of Some (src, tgt) \<Rightarrow> P src tgt | None \<Rightarrow> True) (dag_edges d) \<longleftrightarrow>
    (\<forall>(s, t) \<in> dag_rel d. P s t)"
proof -
  have "list_all (\<lambda>e. case parent_child e of Some (src, tgt) \<Rightarrow> P src tgt | None \<Rightarrow> True) es \<longleftrightarrow>
      (\<forall>(s, t) \<in> set (arrow_pairs es). P s t)" for es
    by (induction es) (auto split: option.splits)
  then show ?thesis
    using arrow_pairs_marked_edges(1)[OF dag_inv_core(2)[OF assms]] by (simp add: dag_edges_def dag_rel_def)
qed

lemma dag_rel_antisym: "dag_inv d \<Longrightarrow> (a, b) \<in> dag_rel d \<Longrightarrow> (b, a) \<notin> dag_rel d"
  using dg.reach_antisym[of d a b] dg.no_self_arc[of d a] by (auto simp: in_dag_children)

lemma sorted_lists_eq:
  assumes "finite A" "finite B"
  shows "sorted_list_of_set A = sorted_list_of_set B \<longleftrightarrow> A = B"
proof
  assume "sorted_list_of_set A = sorted_list_of_set B"
  then have "set (sorted_list_of_set A) = set (sorted_list_of_set B)" by (rule arg_cong)
  then show "A = B" using assms by simp
qed simp

lemma cpdag_is_mec_member_iff:
  assumes "cp_wf g" "dag_inv d"
  shows "cpdag_is_mec_member g d \<longleftrightarrow>
    cp_node_count g = dag_node_count d \<and> cp_no_conflict g \<and> mec_relation g (dag_rel d)"
proof -
  let ?E = "dag_rel d" and ?adj = "cp_adjacent_pair g"
  have all_edges: "list_all (mec_edge_oriented dag_mec d) (cp_edges g) \<longleftrightarrow>
      (\<forall>a b p q m. a < b \<longrightarrow> cp_marks g a b = Some (p, q, m) \<longrightarrow>
        (p = Tail \<and> q = Arrow \<and> (a, b) \<in> ?E) \<or> (p = Arrow \<and> q = Tail \<and> (b, a) \<in> ?E) \<or>
        (p = Tail \<and> q = Tail \<and> ((a, b) \<in> ?E) \<noteq> ((b, a) \<in> ?E)))" (is "_ \<longleftrightarrow> ?edges")
  proof
    assume all: "list_all (mec_edge_oriented dag_mec d) (cp_edges g)"
    show ?edges
    proof (intro allI impI)
      fix a b p q m
      assume k: "a < b" "cp_marks g a b = Some (p, q, m)"
      then have "edge_of_marks a b (p, q, m) \<in> set (cp_edges g)" using in_cp_edges[OF assms(1)] by blast
      with all have "mec_edge_oriented dag_mec d (edge_of_marks a b (p, q, m))" by (simp only: list_all_iff)
      then show "(p = Tail \<and> q = Arrow \<and> (a, b) \<in> ?E) \<or> (p = Arrow \<and> q = Tail \<and> (b, a) \<in> ?E) \<or>
          (p = Tail \<and> q = Tail \<and> ((a, b) \<in> ?E) \<noteq> ((b, a) \<in> ?E))"
        by (rule mec_edge_oriented_cases[OF assms(2,1) k(2), THEN iffD1])
    qed
  next
    assume edges: ?edges
    show "list_all (mec_edge_oriented dag_mec d) (cp_edges g)"
      unfolding list_all_iff
    proof
      fix e assume "e \<in> set (cp_edges g)"
      then obtain a b p q m where e: "e = edge_of_marks a b (p, q, m)" "a < b" "cp_marks g a b = Some (p, q, m)"
        unfolding in_cp_edges[OF assms(1)] by blast
      show "mec_edge_oriented dag_mec d e" unfolding e(1)
        by (rule mec_edge_oriented_cases[OF assms(2,1) e(3), THEN iffD2]) (use edges e(2,3) in blast)
    qed
  qed
  have skel: "list_all (\<lambda>e. case parent_child e of Some (src, tgt) \<Rightarrow> cp_has_edge g src tgt | None \<Rightarrow> True) (dag_edges d) \<longleftrightarrow>
      (\<forall>(s, t) \<in> ?E. ?adj s t)"
    unfolding dag_edges_skeleton[OF assms(2)] cp_has_edge_marks[OF assms(1)] ..
  have fin: "finite (collider_set (cp_rel g) ?adj)" "finite (collider_set ?E (dag_adjacent d))"
    using finite_collider_set cp_rel_finite[OF assms(1)] dg.finite_arcs[OF assms(2)] by simp_all
  have cols: "unshielded_colliders_cpdag cpdag_mec g = unshielded_colliders_dag dag_mec d \<longleftrightarrow>
      collider_set (cp_rel g) ?adj = collider_set ?E (dag_adjacent d)"
    unfolding colliders_cpdag[OF assms(1)] colliders_dag[OF assms(2)]
    by (rule sorted_lists_eq[OF fin])
  have unfolded: "cpdag_is_mec_member g d \<longleftrightarrow> cp_node_count g = dag_node_count d \<and> ?edges \<and>
      (\<forall>(s, t) \<in> ?E. ?adj s t) \<and> collider_set (cp_rel g) ?adj = collider_set ?E (dag_adjacent d)"
    unfolding cpdag_is_mec_member_def is_mec_member_def early_returns mec_projections all_edges skel cols ..
  note mirror = cp_marks_mirror[OF assms(1)]
  show ?thesis
  proof
    assume "cpdag_is_mec_member g d"
    then have m: "cp_node_count g = dag_node_count d" ?edges "\<forall>(s, t) \<in> ?E. ?adj s t"
        "collider_set (cp_rel g) ?adj = collider_set ?E (dag_adjacent d)"
      using unfolded by blast+
    have edge: "(p = Tail \<and> q = Arrow \<and> (a, b) \<in> ?E) \<or> (p = Arrow \<and> q = Tail \<and> (b, a) \<in> ?E) \<or>
        (p = Tail \<and> q = Tail \<and> ((a, b) \<in> ?E) \<noteq> ((b, a) \<in> ?E))" if k: "cp_marks g a b = Some (p, q, m)" for a b p q m
    proof (cases "a < b")
      case True
      then show ?thesis using m(2) k by blast
    next
      case False
      then have "b < a" "cp_marks g b a = Some (q, p, m)" using mirror[OF k] by auto
      then show ?thesis using m(2) by blast
    qed
    have "cp_no_conflict g" using edge unfolding cp_no_conflict_def marks_all_def by blast
    moreover have "cp_rel g \<subseteq> ?E"
    proof (rule subrelI)
      fix a b assume "(a, b) \<in> cp_rel g"
      then obtain m where "cp_marks g a b = Some (Tail, Arrow, m)" by (auto simp: cp_rel_marks)
      from edge[OF this] show "(a, b) \<in> ?E" by simp
    qed
    moreover have adj: "?adj a b \<longleftrightarrow> (a, b) \<in> ?E \<or> (b, a) \<in> ?E" for a b
    proof
      assume "?adj a b"
      then obtain p q mm where "cp_marks g a b = Some (p, q, mm)" by (auto simp: cp_adjacent_pair_def)
      from edge[OF this] show "(a, b) \<in> ?E \<or> (b, a) \<in> ?E" by blast
    qed (use m(3) cp_adjacent_pair_sym[OF assms(1), of a b] in blast)
    moreover have "dag_adjacent d = ?adj" using adj by (simp add: fun_eq_iff dag_adjacent_def)
    ultimately show "cp_node_count g = dag_node_count d \<and> cp_no_conflict g \<and> mec_relation g ?E"
      using m(1,4) by (simp add: mec_relation_def)
  next
    assume r: "cp_node_count g = dag_node_count d \<and> cp_no_conflict g \<and> mec_relation g ?E"
    then have rel: "cp_rel g \<subseteq> ?E" "\<And>a b. ?adj a b \<longleftrightarrow> (a, b) \<in> ?E \<or> (b, a) \<in> ?E"
        "collider_set ?E ?adj = collider_set (cp_rel g) ?adj"
      by (auto simp: mec_relation_def)
    have "dag_adjacent d = ?adj" using rel(2) by (simp add: fun_eq_iff dag_adjacent_def)
    moreover have ?edges
    proof (intro allI impI)
      fix a b p q m assume ab: "a < b" "cp_marks g a b = Some (p, q, m)"
      have "p \<noteq> Conflict" using r ab(2) unfolding cp_no_conflict_def marks_all_def by blast
      then consider "p = Tail" "q = Arrow" | "p = Arrow" "q = Tail" | "p = Tail" "q = Tail"
        using cp_marks_legal[OF assms(1) ab(2)] by (auto simp: cpdag_marks_def)
      then show "(p = Tail \<and> q = Arrow \<and> (a, b) \<in> ?E) \<or> (p = Arrow \<and> q = Tail \<and> (b, a) \<in> ?E) \<or>
        (p = Tail \<and> q = Tail \<and> ((a, b) \<in> ?E) \<noteq> ((b, a) \<in> ?E))"
      proof cases
        case 1
        then have "(a, b) \<in> cp_rel g" using ab(2) by (auto simp: cp_rel_marks)
        then show ?thesis using rel(1) 1 by blast
      next
        case 2
        then have "(b, a) \<in> cp_rel g" using mirror[OF ab(2)] by (auto simp: cp_rel_marks)
        then show ?thesis using rel(1) 2 by blast
      next
        case 3
        have "?adj a b" using ab(2) by (simp add: cp_adjacent_pair_def)
        then show ?thesis using rel(2) 3 dag_rel_antisym[OF assms(2), of a b] by blast
      qed
    qed
    ultimately show "cpdag_is_mec_member g d" using unfolded r rel(2,3) by auto
  qed
qed

end
