(* ===== verification/Mec_Complete.thy ===== *)
theory Mec_Complete
  imports Mec_Members
begin

text \<open>
  What the completion stream of \<open>cpdag_completion.rs\<close> is worth. The orientation search keeps
  \<open>mec_partial\<close>: the adjacencies and compelled arrows of the CPDAG, no new unshielded collider. So every
  leaf is a member of the class, different leaves orient some edge differently, and every member is
  the end of the branch that always turns edges its way.
\<close>

section \<open>Partial orientations\<close>

definition cp_undirected :: "cpdag \<Rightarrow> (dense_id \<times> dense_id) set" where
  "cp_undirected g = {(a, b). a < b \<and> (\<exists>m. cp_marks g a b = Some (Tail, Tail, m))}"

definition cp_colliders :: "cpdag \<Rightarrow> (nat \<times> nat \<times> nat) set" where
  "cp_colliders g = collider_set (cp_rel g) (cp_adjacent_pair g)"

definition mec_partial :: "cpdag \<Rightarrow> (dense_id \<times> dense_id) list \<Rightarrow> cpdag \<Rightarrow> bool" where
  "mec_partial g0 us g \<longleftrightarrow> cpdag_inv g \<and> cp_nodes g = cp_nodes g0 \<and> cp_adjacent_pair g = cp_adjacent_pair g0 \<and>
     cp_rel g0 \<subseteq> cp_rel g \<and> distinct us \<and> set us = cp_undirected g \<and> cp_colliders g \<subseteq> cp_colliders g0 \<and>
     cp_no_conflict g"

lemma mec_partialD:
  assumes "mec_partial g0 us g"
  shows "cpdag_inv g" "cp_wf g" "cp_nodes g = cp_nodes g0" "cp_adjacent_pair g = cp_adjacent_pair g0"
    "cp_rel g0 \<subseteq> cp_rel g" "distinct us" "set us = cp_undirected g" "cp_colliders g \<subseteq> cp_colliders g0"
    "cp_no_conflict g"
  using assms cpdag_inv_wf by (simp_all add: mec_partial_def)

lemma cp_rel_acyclic: "cp_wf g \<Longrightarrow> acyclic (cp_rel g)"
  using cpg.arrows_listed(3) by (simp add: cp_rel_def)

lemma collider_set_mono: "E \<subseteq> F \<Longrightarrow> collider_set E adjacent \<subseteq> collider_set F adjacent"
  by (auto simp: collider_set_def)

text \<open>An arrow into \<open>t\<close> can only make colliders at \<open>t\<close>.\<close>

lemma collider_set_insert:
  "collider_set (insert (s, t) E) adjacent \<subseteq>
     collider_set E adjacent \<union> {(l, c, r) \<in> collider_set (insert (s, t) E) adjacent. c = t}"
  by (auto simp: collider_set_def)

text \<open>The search looks at the collider of the new head only, which is enough.\<close>

lemma forbidden_at_head:
  assumes "cp_wf g'" "cp_adjacent_pair g' = cp_adjacent_pair g" "cp_rel g' = insert (s, t) (cp_rel g)"
    "cp_colliders g \<subseteq> A" "set allowed = A"
  shows "\<not> has_forbidden_collider_at cpdag_mec allowed g' t \<longleftrightarrow> cp_colliders g' \<subseteq> A"
  using forbidden_collider_iff[OF assms(1,5), of t] collider_set_insert[of s t "cp_rel g" "cp_adjacent_pair g"] assms(2-4)
  unfolding cp_colliders_def by auto

lemma orient_adjacent:
  assumes "cp_wf g" "cp_marks g' = set_pair (cp_marks g) s t (Some k)" "cp_marks g s t \<noteq> None"
  shows "cp_adjacent_pair g' = cp_adjacent_pair g"
proof (intro ext)
  fix a b
  have "cp_marks g t s \<noteq> None" using assms(3) cp_adjacent_pair_sym[OF assms(1)] by (simp add: cp_adjacent_pair_def)
  then show "cp_adjacent_pair g' a b = cp_adjacent_pair g a b"
    using assms(3) unfolding cp_adjacent_pair_def assms(2) set_pair_def by (simp del: not_None_eq)
qed

lemma orient_undirected_set:
  assumes "cp_wf g" "cp_marks g' = set_pair (cp_marks g) s t (Some (Tail, Arrow, m))" "(a, b) = (s, t) \<or> (a, b) = (t, s)"
    "a < b"
  shows "cp_undirected g' = cp_undirected g - {(a, b)}"
  using assms(3,4) unfolding cp_undirected_def assms(2) set_pair_def by auto

lemma mec_partial_orient:
  assumes "mec_partial g0 ((a, b) # us) g" "(s, t) = (a, b) \<or> (s, t) = (b, a)"
    "cp_orient_undirected g s t = Some (Inr (), g')" "set allowed = cp_colliders g0"
    "\<not> has_forbidden_collider_at cpdag_mec allowed g' t"
  shows "mec_partial g0 us g' \<and> cp_rel g' = insert (s, t) (cp_rel g)"
proof -
  note p = mec_partialD[OF assms(1)]
  from p(2) show ?thesis
  proof (cases rule: cp_orient_undirected_cases[where src = s and tgt = t])
    case (oriented m h)
    then have h: "h = g'" using assms(3) by simp
    note o = oriented[unfolded h]
    have "(a, b) \<in> cp_undirected g" using p(7) by auto
    then have ab: "a < b" by (simp add: cp_undirected_def)
    have adj: "cp_adjacent_pair g' = cp_adjacent_pair g" by (rule orient_adjacent[OF p(2) o(6)]) (simp add: o(5))
    have cols: "cp_colliders g' \<subseteq> cp_colliders g0"
      using forbidden_at_head[OF o(3) adj o(7) p(8) assms(4)] assms(5) by blast
    have und: "cp_undirected g' = cp_undirected g - {(a, b)}"
      by (rule orient_undirected_set[OF p(2) o(6) _ ab(1)]) (use assms(2) in auto)
    have "cp_no_conflict g'"
      unfolding cp_no_conflict_def o(6)
      by (rule marks_all_set_pair) (use p(9) in \<open>auto simp: cp_no_conflict_def\<close>)
    moreover have "cpdag_inv g'" using p(1) o(3,4) by (simp add: cpdag_inv_def)
    moreover have "set us = cp_undirected g'" "distinct us" unfolding und using p(6) p(7)[symmetric] by auto
    ultimately show ?thesis using p o adj cols by (auto simp: mec_partial_def)
  qed (use assms(3) in simp)
qed

section \<open>The leaves of the search\<close>

definition mec_branch ::
  "(nat \<times> nat \<times> nat) list \<Rightarrow> (dense_id \<times> dense_id) list \<Rightarrow> cpdag \<Rightarrow> dense_id \<Rightarrow> dense_id \<Rightarrow> cpdag list" where
  "mec_branch allowed us g s t =
     (case mc_orient_undirected cpdag_mec g s t of
        Some (Inr _, g') \<Rightarrow> (if has_forbidden_collider_at cpdag_mec allowed g' t then []
                           else mec_leaves cpdag_mec allowed us g')
      | _ \<Rightarrow> [])"

lemma mec_leaves_branch:
  "mec_leaves cpdag_mec allowed ((a, b) # us) g = mec_branch allowed us g a b @ mec_branch allowed us g b a"
  by (simp add: mec_branch_def)

lemma mec_branch_cases:
  assumes "mec_partial g0 ((a, b) # us) g" "(s, t) = (a, b) \<or> (s, t) = (b, a)" "set allowed = cp_colliders g0"
  obtains (cut) "mec_branch allowed us g s t = []"
  | (taken) g' where "mec_branch allowed us g s t = mec_leaves cpdag_mec allowed us g'" "mec_partial g0 us g'"
      "cp_rel g' = insert (s, t) (cp_rel g)"
proof -
  from mec_partialD(2)[OF assms(1)] show thesis
  proof (cases rule: cp_orient_undirected_cases[where src = s and tgt = t])
    case (refused err)
    then show thesis using cut by (simp add: mec_branch_def mec_projections)
  next
    case (oriented m g')
    show thesis
    proof (cases "has_forbidden_collider_at cpdag_mec allowed g' t")
      case True
      then show thesis using cut oriented(2) by (simp add: mec_branch_def mec_projections)
    next
      case False
      with mec_partial_orient[OF assms(1,2) oriented(2) assms(3)] show thesis
        using taken[of g'] oriented(2) by (simp add: mec_branch_def mec_projections)
    qed
  qed
qed

lemma mec_leaves_sound:
  assumes "mec_partial g0 us g" "set allowed = cp_colliders g0" "leaf \<in> set (mec_leaves cpdag_mec allowed us g)"
  shows "mec_partial g0 [] leaf \<and> cp_rel g \<subseteq> cp_rel leaf"
  using assms(1,3)
proof (induction us arbitrary: g)
  case (Cons u us)
  obtain a b where u: "u = (a, b)" by fastforce
  have branch: "mec_partial g0 [] leaf \<and> insert (s, t) (cp_rel g) \<subseteq> cp_rel leaf"
    if st: "(s, t) = (a, b) \<or> (s, t) = (b, a)" and l: "leaf \<in> set (mec_branch allowed us g s t)" for s t
    using Cons.prems(1)[unfolded u] st assms(2)
  proof (cases rule: mec_branch_cases)
    case cut
    then show ?thesis using l by simp
  next
    case (taken g')
    then show ?thesis using Cons.IH[of g'] l by simp
  qed
  show ?case using branch[of a b] branch[of b a] Cons.prems(2) unfolding u mec_leaves_branch by auto
qed simp

text \<open>The leaves below one orientation contain its arrow, so no leaf is below both.\<close>

lemma mec_leaves_distinct:
  assumes "mec_partial g0 us g" "set allowed = cp_colliders g0"
  shows "distinct (map cp_rel (mec_leaves cpdag_mec allowed us g))"
  using assms(1)
proof (induction us arbitrary: g)
  case (Cons u us)
  obtain a b where u: "u = (a, b)" by fastforce
  have one: "distinct (map cp_rel (mec_branch allowed us g s t)) \<and>
      (\<forall>leaf \<in> set (mec_branch allowed us g s t). (s, t) \<in> cp_rel leaf \<and> cp_wf leaf)"
    if st: "(s, t) = (a, b) \<or> (s, t) = (b, a)" for s t
    using Cons.prems[unfolded u] st assms(2)
  proof (cases rule: mec_branch_cases)
    case (taken g')
    then show ?thesis using Cons.IH[of g'] mec_leaves_sound[OF taken(2) assms(2)] mec_partialD(2) by fastforce
  qed simp
  have "cp_rel l1 \<noteq> cp_rel l2"
    if "l1 \<in> set (mec_branch allowed us g a b)" "l2 \<in> set (mec_branch allowed us g b a)" for l1 l2
  proof
    assume "cp_rel l1 = cp_rel l2"
    then have "(a, b) \<in> cp_rel l1" "(b, a) \<in> cp_rel l1" "cp_wf l1" using one[of a b] one[of b a] that by auto
    then show False using cp_rel_acyclic[of l1] by (meson acyclic_def trancl.simps)
  qed
  then have "cp_rel ` set (mec_branch allowed us g a b) \<inter> cp_rel ` set (mec_branch allowed us g b a) = {}" by blast
  then show ?case using one[of a b] one[of b a] by (simp add: u mec_leaves_branch del: mec_leaves.simps)
qed simp

text \<open>A member below a partial orientation: following its own arrows is never refused.\<close>

lemma mec_orient_toward:
  assumes "mec_partial g0 ((a, b) # us) g" "(s, t) = (a, b) \<or> (s, t) = (b, a)"
    "set allowed = cp_colliders g0" "mec_relation g0 E" "acyclic E" "cp_rel g \<subseteq> E" "(s, t) \<in> E"
  obtains g' where "mec_branch allowed us g s t = mec_leaves cpdag_mec allowed us g'" "mec_partial g0 us g'"
      "cp_rel g' \<subseteq> E"
proof -
  note p = mec_partialD[OF assms(1)]
  have ab: "(a, b) \<in> cp_undirected g" using p(7) by auto
  then obtain m where m: "a < b" "cp_marks g a b = Some (Tail, Tail, m)" by (auto simp: cp_undirected_def)
  have st: "cp_marks g s t = Some (Tail, Tail, m)" using assms(2) m(2) cp_marks_mirror[OF p(2) m(2)] by auto
  have range: "s < cp_node_count g" "t < cp_node_count g"
    using cpg.marks_range[OF p(2)] st by (auto simp: cp_marks_def)
  have "(t, s) \<notin> E\<^sup>*"
  proof
    assume "(t, s) \<in> E\<^sup>*"
    then have "(s, s) \<in> E\<^sup>+" using assms(7) by (rule rtrancl_into_trancl2[rotated])
    then show False using assms(5) by (simp add: acyclic_def)
  qed
  then have no: "(t, s) \<notin> (cp_rel g)\<^sup>*" using rtrancl_mono[OF assms(6)] by blast
  from p(2) show thesis
  proof (cases rule: cp_orient_undirected_cases[where src = s and tgt = t])
    case (refused err)
    then show thesis using st range no by (simp add: cp_orient_refusal_def)
  next
    case (oriented m' g')
    have adj: "cp_adjacent_pair g' = cp_adjacent_pair g"
      by (rule orient_adjacent[OF p(2) oriented(6)]) (simp add: oriented(5))
    have sub: "cp_rel g' \<subseteq> E" using oriented(7) assms(6,7) by simp
    have "cp_colliders g' \<subseteq> collider_set E (cp_adjacent_pair g0)"
      unfolding cp_colliders_def adj p(4) by (rule collider_set_mono[OF sub])
    also have "\<dots> = cp_colliders g0" using assms(4) by (simp add: mec_relation_def cp_colliders_def)
    finally have ok: "\<not> has_forbidden_collider_at cpdag_mec allowed g' t"
      using forbidden_at_head[OF oriented(3) adj oriented(7) p(8) assms(3)] by blast
    show thesis
      using that[of g'] mec_partial_orient[OF assms(1,2) oriented(2) assms(3) ok] ok oriented(2) sub
      by (simp add: mec_branch_def mec_projections)
  qed
qed

lemma mec_partial_full:
  assumes "mec_partial g0 [] g" "mec_relation g0 E" "acyclic E" "cp_rel g \<subseteq> E"
  shows "cp_rel g = E"
proof
  show "E \<subseteq> cp_rel g"
  proof (rule subrelI)
    fix s t assume st: "(s, t) \<in> E"
    note p = mec_partialD[OF assms(1)]
    have "cp_adjacent_pair g s t" using assms(2) st unfolding p(4) mec_relation_def by blast
    then obtain x y m where k: "cp_marks g s t = Some (x, y, m)" by (auto simp: cp_adjacent_pair_def)
    note mir = cp_marks_mirror[OF p(2) k]
    have "\<not> (x = Tail \<and> y = Tail)"
      using k mir p(7) by (cases "s < t") (auto simp: cp_undirected_def)
    moreover have "x \<noteq> Conflict" using k p(9) unfolding cp_no_conflict_def marks_all_def by blast
    ultimately consider "x = Tail" "y = Arrow" | "x = Arrow" "y = Tail"
      using cp_marks_legal[OF p(2) k] by (auto simp: cpdag_marks_def)
    then show "(s, t) \<in> cp_rel g"
    proof cases
      case 1
      then show ?thesis using k by (auto simp: cp_rel_marks)
    next
      case 2
      then have "(t, s) \<in> E" using mir assms(4) by (auto simp: cp_rel_marks)
      then show ?thesis using st assms(3) by (meson acyclic_def trancl.simps)
    qed
  qed
qed (rule assms(4))

lemma mec_leaves_complete:
  assumes "mec_partial g0 us g" "set allowed = cp_colliders g0" "mec_relation g0 E" "acyclic E" "cp_rel g \<subseteq> E"
  shows "E \<in> cp_rel ` set (mec_leaves cpdag_mec allowed us g)"
  using assms(1,5)
proof (induction us arbitrary: g)
  case Nil
  then show ?case using mec_partial_full[OF Nil(1) assms(3,4)] by simp
next
  case (Cons u us)
  obtain a b where u: "u = (a, b)" by fastforce
  note p = mec_partialD[OF Cons.prems(1)[unfolded u]]
  have "(a, b) \<in> cp_undirected g" using p(7) by auto
  then have "cp_adjacent_pair g a b" by (auto simp: cp_undirected_def cp_adjacent_pair_def)
  then have "(a, b) \<in> E \<or> (b, a) \<in> E" using assms(3) unfolding p(4) mec_relation_def by blast
  then obtain s t where st: "(s, t) = (a, b) \<or> (s, t) = (b, a)" "(s, t) \<in> E" by blast
  from Cons.prems(1)[unfolded u] st(1) assms(2-4) Cons.prems(2) st(2)
  show ?case
  proof (cases rule: mec_orient_toward)
    case (1 g')
    then have "E \<in> cp_rel ` set (mec_branch allowed us g s t)" using Cons.IH[of g'] by simp
    then show ?thesis using st(1) unfolding u mec_leaves_branch by auto
  qed
qed

section \<open>From leaves to members\<close>

lemma mec_leaf_directed:
  assumes "mec_partial g0 [] leaf"
  shows "cp_all_directed leaf"
  unfolding cp_all_directed_def marks_all_def
proof (intro allI impI)
  note p = mec_partialD[OF assms]
  fix a b x y m assume k: "cp_marks leaf a b = Some (x, y, m)"
  note mir = cp_marks_mirror[OF p(2) k]
  have "\<not> (x = Tail \<and> y = Tail)"
    using k mir p(7) by (cases "a < b") (auto simp: cp_undirected_def)
  moreover have "x \<noteq> Conflict" using k p(9) unfolding cp_no_conflict_def marks_all_def by blast
  ultimately show "x = Tail \<and> y = Arrow \<or> x = Arrow \<and> y = Tail"
    using cp_marks_legal[OF p(2) k] by (auto simp: cpdag_marks_def)
qed

lemma mec_partial_base: "mec_partial g0 us g0 \<longleftrightarrow> cpdag_inv g0 \<and> distinct us \<and> set us = cp_undirected g0 \<and> cp_no_conflict g0"
  by (auto simp: mec_partial_def)

lemma mec_leaf_relation:
  assumes "mec_partial g0 [] leaf"
  shows "mec_relation g0 (cp_rel leaf)"
proof -
  note p = mec_partialD[OF assms]
  have "cp_adjacent_pair leaf a b \<longleftrightarrow> (a, b) \<in> cp_rel leaf \<or> (b, a) \<in> cp_rel leaf" for a b
  proof
    assume "cp_adjacent_pair leaf a b"
    then obtain x y m where k: "cp_marks leaf a b = Some (x, y, m)" by (auto simp: cp_adjacent_pair_def)
    then have "x = Tail \<and> y = Arrow \<or> x = Arrow \<and> y = Tail"
      using mec_leaf_directed[OF assms] unfolding cp_all_directed_def marks_all_def by blast
    then show "(a, b) \<in> cp_rel leaf \<or> (b, a) \<in> cp_rel leaf"
      using k cp_marks_mirror[OF p(2) k] by (auto simp: cp_rel_marks)
  next
    assume "(a, b) \<in> cp_rel leaf \<or> (b, a) \<in> cp_rel leaf"
    then show "cp_adjacent_pair leaf a b"
      using cp_adjacent_pair_sym[OF p(2), of a b] by (auto simp: cp_rel_marks cp_adjacent_pair_def)
  qed
  moreover have "collider_set (cp_rel leaf) (cp_adjacent_pair g0) = collider_set (cp_rel g0) (cp_adjacent_pair g0)"
    using p(8) collider_set_mono[OF p(5)] unfolding cp_colliders_def p(4) by blast
  ultimately show ?thesis using p(5) unfolding mec_relation_def p(4) by blast
qed

lemma mec_leaf_member:
  assumes "mec_partial g0 [] leaf" "cpdag_inv g0" "cp_no_conflict g0"
  obtains d where "cp_try_into_dag leaf = Some (Inr d)" "dag_inv d" "dag_nodes d = cp_nodes g0"
    "dag_rel d = cp_rel leaf" "cpdag_is_mec_member g0 d"
proof -
  note p = mec_partialD[OF assms(1)]
  obtain d where d: "cp_try_into_dag leaf = Some (Inr d)" "dag_inv d" "dag_nodes d = cp_nodes leaf" "dag_rel d = cp_rel leaf"
    using cp_try_into_dag_spec[OF p(1)] mec_leaf_directed[OF assms(1)] by auto
  have "cp_node_count g0 = dag_node_count d"
    using d(3) p(3) dag_inv_core(2)[OF d(2)] by (simp add: cp_node_count_def dag_node_count_def dag_nodes_def dc_node_count_def dc_nodes_def)
  then have "cpdag_is_mec_member g0 d"
    using cpdag_is_mec_member_iff[OF cpdag_inv_wf[OF assms(2)] d(2)] assms(3) mec_leaf_relation[OF assms(1)] d(4) by simp
  with d p(3) show thesis using that by simp
qed

section \<open>The sampler\<close>

text \<open>
  What the sampler keeps: its stack is well formed, its operations are within the limit, and the
  leaves still to come are the end of the list of all leaves of the search tree.
\<close>

definition cs_leaves :: "cpdag_completion_sampler \<Rightarrow> cpdag list" where
  "cs_leaves s = mec_leaves cpdag_mec (mx_allowed_colliders (cs_search s)) (mx_undirected (cs_search s))
     (mx_base (cs_search s))"

definition cs_inv :: "cpdag \<Rightarrow> cpdag_completion_sampler \<Rightarrow> bool" where
  "cs_inv g0 s \<longleftrightarrow> mx_base (cs_search s) = g0 \<and> mec_states_ok cp_wf (cs_search s) \<and>
     mx_operations (cs_search s) \<le> sl_operations (mx_limits (cs_search s)) \<and>
     mec_partial g0 (mx_undirected (cs_search s)) g0 \<and> set (mx_allowed_colliders (cs_search s)) = cp_colliders g0 \<and>
     (\<exists>passed. cs_leaves s = passed @ mec_pending cpdag_mec (cs_search s))"

lemma cp_no_conflict_count:
  assumes "cp_wf g"
  shows "cp_conflict_edge_count g = 0 \<longleftrightarrow> cp_no_conflict g"
proof
  assume "cp_conflict_edge_count g = 0"
  then have none: "\<forall>e \<in> set (cp_edges g). \<not> is_conflict e"
    by (simp add: cp_conflict_edge_count_def filter_empty_conv)
  have low: "p \<noteq> Conflict" if "a < b" "cp_marks g a b = Some (p, q, m)" for a b p q m
  proof -
    have "edge_of_marks a b (p, q, m) \<in> set (cp_edges g)" using in_cp_edges[OF assms] that by blast
    then show ?thesis using none cp_marks_legal[OF assms that(2)]
      by (force simp: is_conflict_def edge_of_marks_def cpdag_marks_def)
  qed
  show "cp_no_conflict g"
    unfolding cp_no_conflict_def marks_all_def
  proof (intro allI impI)
    fix a b p q m assume k: "cp_marks g a b = Some (p, q, m)"
    note mir = cp_marks_mirror[OF assms k]
    show "p \<noteq> Conflict"
      using low[OF _ k] low[of b a q p m] mir cp_marks_legal[OF assms k] by (cases "a < b") (auto simp: cpdag_marks_def)
  qed
next
  assume ok: "cp_no_conflict g"
  have "\<not> is_conflict e" if "e \<in> set (cp_edges g)" for e
  proof -
    obtain a b p q m where e: "e = edge_of_marks a b (p, q, m)" "cp_marks g a b = Some (p, q, m)"
      using \<open>e \<in> _\<close> in_cp_edges[OF assms] by blast
    have "p \<noteq> Conflict" using ok e(2) unfolding cp_no_conflict_def marks_all_def by blast
    then show ?thesis unfolding e(1) by (cases p) (simp_all add: is_conflict_def edge_of_marks_def)
  qed
  then show "cp_conflict_edge_count g = 0" by (simp add: cp_conflict_edge_count_def filter_empty_conv)
qed

lemma mec_undirected_list:
  assumes "cp_wf g"
  shows "remdups_adj (sort (map (\<lambda>e. sorted_pair (me_a e) (me_b e)) (filter is_undirected (cp_edges g)))) =
    sorted_list_of_set (cp_undirected g)"
proof -
  have "set (map (\<lambda>e. sorted_pair (me_a e) (me_b e)) (filter is_undirected (cp_edges g))) = cp_undirected g"
  proof (intro set_eqI iffI)
    fix x assume "x \<in> set (map (\<lambda>e. sorted_pair (me_a e) (me_b e)) (filter is_undirected (cp_edges g)))"
    then obtain e where e: "e \<in> set (cp_edges g)" "is_undirected e" "x = sorted_pair (me_a e) (me_b e)" by auto
    then obtain a b p q m where k: "e = edge_of_marks a b (p, q, m)" "a < b" "cp_marks g a b = Some (p, q, m)"
      using in_cp_edges[OF assms] by blast
    show "x \<in> cp_undirected g"
      using e(2,3) k(2,3) unfolding k(1) by (auto simp: is_undirected_def edge_of_marks_def sorted_pair_def cp_undirected_def split: endpoint.splits)
  next
    fix x assume "x \<in> cp_undirected g"
    then obtain a b m where x: "x = (a, b)" "a < b" "cp_marks g a b = Some (Tail, Tail, m)"
      by (auto simp: cp_undirected_def)
    then have "edge_of_marks a b (Tail, Tail, m) \<in> set (cp_edges g)" using in_cp_edges[OF assms] by blast
    moreover have "is_undirected (edge_of_marks a b (Tail, Tail, m))" by (simp add: is_undirected_def edge_of_marks_def)
    moreover have "sorted_pair (me_a (edge_of_marks a b (Tail, Tail, m))) (me_b (edge_of_marks a b (Tail, Tail, m))) = x"
      using x by (simp add: sorted_pair_def edge_of_marks_def)
    ultimately show "x \<in> set (map (\<lambda>e. sorted_pair (me_a e) (me_b e)) (filter is_undirected (cp_edges g)))"
      by (force simp: image_iff)
  qed
  then show ?thesis by (simp only: remdups_adj_sort)
qed

lemma cp_undirected_finite: "cp_wf g \<Longrightarrow> finite (cp_undirected g)"
  by (rule finite_subset[of _ "{..<cp_node_count g} \<times> {..<cp_node_count g}"])
    (auto dest: cpg.marks_range simp: cp_undirected_def cp_marks_def)

text \<open>A sampler starts on every CPDAG without conflict edges, and on no other.\<close>

lemma cs_with_budget_spec:
  assumes "cpdag_inv g"
  shows "if cp_no_conflict g
    then \<exists>s. cs_with_budget edge_size g n limits hard tok = Inr s \<and> cs_inv g s \<and>
      mec_pending cpdag_mec (cs_search s) = cs_leaves s \<and> mx_next_index (cs_search s) = 0 \<and>
      mx_max_completions (cs_search s) = n \<and> mx_limits (cs_search s) = limits
    else \<exists>msg. cs_with_budget edge_size g n limits hard tok = Inl (InvalidEndpoints msg)"
proof (cases "cp_no_conflict g")
  case True
  note wf = cpdag_inv_wf[OF assms]
  have c: "mc_conflict_edge_count cpdag_mec g = 0"
    using cp_no_conflict_count[OF wf] True by (simp add: cpdag_mec_def)
  obtain x where x: "mec_new cpdag_mec edge_size g n limits hard tok
      ''CpdagCompletionSampler refuses conflict (x-x) edges'' = Inr x" and
    fields: "mx_base x = g" "mx_undirected x = sorted_list_of_set (cp_undirected g)"
      "mx_allowed_colliders x = sorted_list_of_set (cp_colliders g)" "mx_stack x = [(g, 0)]" "mx_next_index x = 0"
      "mx_max_completions x = n" "mx_limits x = limits" "mx_operations x = 0"
    using c colliders_cpdag[OF wf] mec_undirected_list[OF wf]
    by (simp add: mec_new_def cp_colliders_def mec_projections)
  have fin: "finite (cp_undirected g)" "finite (cp_colliders g)"
    using cp_undirected_finite[OF wf] finite_collider_set[OF cp_rel_finite[OF wf]] by (simp_all add: cp_colliders_def)
  have pending: "mec_pending cpdag_mec x = cs_leaves \<lparr>cs_search = x\<rparr>"
    by (simp add: mec_pending_def cs_leaves_def fields)
  have "cs_inv g \<lparr>cs_search = x\<rparr>"
    using pending fin wf assms True by (simp add: cs_inv_def mec_states_ok_def fields mec_partial_base)
  then show ?thesis using x fields pending True by (simp add: cs_with_budget_def)
next
  case False
  then show ?thesis using cp_no_conflict_count[OF cpdag_inv_wf[OF assms]]
    by (simp add: cs_with_budget_def mec_new_def cpdag_mec_def)
qed

lemma cs_leaves_facts:
  assumes "cs_inv g0 s"
  shows "leaf \<in> set (cs_leaves s) \<Longrightarrow> mec_partial g0 [] leaf" "distinct (map cp_rel (cs_leaves s))"
    "mec_relation g0 E \<Longrightarrow> acyclic E \<Longrightarrow> E \<in> cp_rel ` set (cs_leaves s)"
proof -
  have b: "mx_base (cs_search s) = g0" "mec_partial g0 (mx_undirected (cs_search s)) g0"
    "set (mx_allowed_colliders (cs_search s)) = cp_colliders g0" using assms by (simp_all add: cs_inv_def)
  show "leaf \<in> set (cs_leaves s) \<Longrightarrow> mec_partial g0 [] leaf"
    using mec_leaves_sound[OF b(2,3)] by (simp add: cs_leaves_def b(1))
  show "distinct (map cp_rel (cs_leaves s))"
    using mec_leaves_distinct[OF b(2,3)] by (simp add: cs_leaves_def b(1))
  show "mec_relation g0 E \<Longrightarrow> acyclic E \<Longrightarrow> E \<in> cp_rel ` set (cs_leaves s)"
    using mec_leaves_complete[OF b(2,3), of E] by (simp add: cs_leaves_def b(1) mec_relation_def)
qed

text \<open>
  \<open>next\<close> returns: it yields the member made of the next leaf, under the next index, or it stops with
  the remaining leaves unchanged, because a bound was hit or because there are none.
\<close>

lemma cs_next_spec:
  assumes "cs_inv g0 s"
  shows "\<exists>r s'. cs_next s = Some (r, s') \<and> cs_inv g0 s' \<and> cs_leaves s' = cs_leaves s \<and>
    cs_max_completions s' = cs_max_completions s \<and> mx_limits (cs_search s') = mx_limits (cs_search s) \<and>
    (case r of
       Some c \<Rightarrow> mx_next_index (cs_search s) < cs_max_completions s \<and> cn_index c = mx_next_index (cs_search s) \<and>
         mx_next_index (cs_search s') = Suc (mx_next_index (cs_search s)) \<and>
         (\<exists>leaf. mec_pending cpdag_mec (cs_search s) = leaf # mec_pending cpdag_mec (cs_search s') \<and>
           dag_inv (cn_graph c) \<and> dag_nodes (cn_graph c) = cp_nodes g0 \<and> dag_rel (cn_graph c) = cp_rel leaf \<and>
           cpdag_is_mec_member g0 (cn_graph c))
     | None \<Rightarrow> mec_pending cpdag_mec (cs_search s') = mec_pending cpdag_mec (cs_search s) \<and>
         (cs_hit_cap s' \<or> mec_pending cpdag_mec (cs_search s') = []))"
proof -
  let ?x = "cs_search s"
  have inv: "mx_base ?x = g0" "mec_states_ok cp_wf ?x" "mx_operations ?x \<le> sl_operations (mx_limits ?x)"
      "mec_partial g0 (mx_undirected ?x) g0" "set (mx_allowed_colliders ?x) = cp_colliders g0"
    using assms by (simp_all add: cs_inv_def)
  obtain passed where passed: "cs_leaves s = passed @ mec_pending cpdag_mec ?x" using assms by (auto simp: cs_inv_def)
  obtain r x where n: "mec_next_oriented cpdag_mec ?x = Some (r, x)" "mec_states_ok cp_wf x" "mec_same_search ?x x"
      "mx_operations x \<le> sl_operations (mx_limits x)"
      "case r of
        Some g \<Rightarrow> cp_wf g \<and> mx_next_index ?x < mx_max_completions ?x \<and> mx_stop x = None \<and>
          mec_pending cpdag_mec ?x = g # mec_pending cpdag_mec x
      | None \<Rightarrow> mec_pending cpdag_mec x = mec_pending cpdag_mec ?x \<and> (mec_hit_cap x \<or> mec_pending cpdag_mec x = [])"
    using cpm.next_oriented_spec[OF inv(2,3)] by blast
  note same = n(3)[unfolded mec_same_search_def]
  have leaves: "cs_leaves (s\<lparr>cs_search := x\<rparr>) = cs_leaves s" using same by (simp add: cs_leaves_def)
  show ?thesis
  proof (cases r)
    case None
    have "cs_inv g0 (s\<lparr>cs_search := x\<rparr>)"
      using inv n(2,4,5) same leaves passed None by (simp add: cs_inv_def)
    moreover have "mec_pending cpdag_mec x = mec_pending cpdag_mec ?x" "mec_hit_cap x \<or> mec_pending cpdag_mec x = []"
      using n(5) None by auto
    ultimately show ?thesis using None n(1) same leaves
      by (intro exI[of _ None] exI[of _ "s\<lparr>cs_search := x\<rparr>"])
        (auto simp: cs_next.simps[of s] cs_max_completions_def cs_hit_cap_def)
  next
    case (Some leaf)
    then have pend: "mec_pending cpdag_mec ?x = leaf # mec_pending cpdag_mec x" "mx_next_index ?x < mx_max_completions ?x"
      using n(5) by simp_all
    have "leaf \<in> set (cs_leaves s)" using passed pend(1) by simp
    from cs_leaves_facts(1)[OF assms this] obtain d where
      d: "cp_try_into_dag leaf = Some (Inr d)" "dag_inv d" "dag_nodes d = cp_nodes g0" "dag_rel d = cp_rel leaf"
        "cpdag_is_mec_member g0 d"
      by (rule mec_leaf_member) (use inv(4) in \<open>simp_all add: mec_partial_base\<close>)
    let ?y = "x\<lparr>mx_next_index := mx_next_index x + 1\<rparr>" and ?c = "\<lparr>cn_graph = d, cn_index = mx_next_index x\<rparr>"
    have run: "cs_next s = Some (Some ?c, s\<lparr>cs_search := ?y\<rparr>)"
      using n(1) Some d same inv(1) by (simp add: cs_next.simps[of s] mec_record_yield_def)
    have pend': "mec_pending cpdag_mec ?y = mec_pending cpdag_mec x" by (simp add: mec_pending_def)
    have leaves': "cs_leaves (s\<lparr>cs_search := ?y\<rparr>) = cs_leaves s" using leaves by (simp add: cs_leaves_def)
    have "cs_leaves s = (passed @ [leaf]) @ mec_pending cpdag_mec ?y" using passed pend pend' by simp
    then have "cs_inv g0 (s\<lparr>cs_search := ?y\<rparr>)"
      using inv n(2,4) same leaves' by (auto simp: cs_inv_def mec_states_ok_def)
    then show ?thesis using run d pend pend' leaves' same
      by (simp add: cs_max_completions_def)
  qed
qed

section \<open>The whole stream\<close>

text \<open>A caller that asks until the sampler answers \<open>None\<close>; without fuel it has no answer.\<close>

fun cs_drain :: "nat \<Rightarrow> cpdag_completion_sampler \<Rightarrow> (cpdag_completion list \<times> cpdag_completion_sampler) option" where
  "cs_drain 0 s = None"
| "cs_drain (Suc fuel) s =
     (case cs_next s of
        None \<Rightarrow> None
      | Some (None, s') \<Rightarrow> Some ([], s')
      | Some (Some c, s') \<Rightarrow> map_option (apfst ((#) c)) (cs_drain fuel s'))"

lemma cs_drain_spec:
  assumes "cs_inv g0 s" "mx_next_index (cs_search s) \<le> cs_max_completions s"
    "cs_max_completions s - mx_next_index (cs_search s) < fuel"
  shows "\<exists>cs s'. cs_drain fuel s = Some (cs, s') \<and> cs_inv g0 s' \<and> mx_limits (cs_search s') = mx_limits (cs_search s) \<and>
    map cn_index cs = [mx_next_index (cs_search s)..<mx_next_index (cs_search s) + length cs] \<and>
    mx_next_index (cs_search s) + length cs \<le> cs_max_completions s \<and>
    (\<forall>c \<in> set cs. dag_inv (cn_graph c) \<and> dag_nodes (cn_graph c) = cp_nodes g0 \<and>
       cpdag_is_mec_member g0 (cn_graph c)) \<and>
    map (\<lambda>c. dag_rel (cn_graph c)) cs @ map cp_rel (mec_pending cpdag_mec (cs_search s')) =
      map cp_rel (mec_pending cpdag_mec (cs_search s)) \<and>
    (cs_hit_cap s' \<or> mec_pending cpdag_mec (cs_search s') = [])"
  using assms
proof (induction fuel arbitrary: s)
  case (Suc fuel)
  obtain r s1 where n: "cs_next s = Some (r, s1)" "cs_inv g0 s1" "cs_max_completions s1 = cs_max_completions s"
      "mx_limits (cs_search s1) = mx_limits (cs_search s)" and
    r: "case r of
       Some c \<Rightarrow> mx_next_index (cs_search s) < cs_max_completions s \<and> cn_index c = mx_next_index (cs_search s) \<and>
         mx_next_index (cs_search s1) = Suc (mx_next_index (cs_search s)) \<and>
         (\<exists>leaf. mec_pending cpdag_mec (cs_search s) = leaf # mec_pending cpdag_mec (cs_search s1) \<and>
           dag_inv (cn_graph c) \<and> dag_nodes (cn_graph c) = cp_nodes g0 \<and> dag_rel (cn_graph c) = cp_rel leaf \<and>
           cpdag_is_mec_member g0 (cn_graph c))
     | None \<Rightarrow> mec_pending cpdag_mec (cs_search s1) = mec_pending cpdag_mec (cs_search s) \<and>
         (cs_hit_cap s1 \<or> mec_pending cpdag_mec (cs_search s1) = [])"
    using cs_next_spec[OF Suc.prems(1)] by blast
  show ?case
  proof (cases r)
    case None
    then have "mec_pending cpdag_mec (cs_search s1) = mec_pending cpdag_mec (cs_search s)"
      "cs_hit_cap s1 \<or> mec_pending cpdag_mec (cs_search s1) = []" using r None by auto
    then show ?thesis using n None Suc.prems(2) by (intro exI[of _ "[]"] exI[of _ s1]) auto
  next
    case (Some c)
    then have c: "mx_next_index (cs_search s) < cs_max_completions s" "cn_index c = mx_next_index (cs_search s)"
        "mx_next_index (cs_search s1) = Suc (mx_next_index (cs_search s))" using r by simp_all
    obtain leaf where leaf: "mec_pending cpdag_mec (cs_search s) = leaf # mec_pending cpdag_mec (cs_search s1)"
        "dag_inv (cn_graph c)" "dag_nodes (cn_graph c) = cp_nodes g0" "dag_rel (cn_graph c) = cp_rel leaf"
        "cpdag_is_mec_member g0 (cn_graph c)" using r Some by auto
    have "mx_next_index (cs_search s1) \<le> cs_max_completions s1"
      "cs_max_completions s1 - mx_next_index (cs_search s1) < fuel" using c n(3) Suc.prems(3) by simp_all
    from Suc.IH[OF n(2) this] obtain cs s' where ih:
        "cs_drain fuel s1 = Some (cs, s')" "cs_inv g0 s'" "mx_limits (cs_search s') = mx_limits (cs_search s1)"
        "map cn_index cs = [mx_next_index (cs_search s1)..<mx_next_index (cs_search s1) + length cs]"
        "mx_next_index (cs_search s1) + length cs \<le> cs_max_completions s1"
        "\<forall>c \<in> set cs. dag_inv (cn_graph c) \<and> dag_nodes (cn_graph c) = cp_nodes g0 \<and>
           cpdag_is_mec_member g0 (cn_graph c)"
        "map (\<lambda>c. dag_rel (cn_graph c)) cs @ map cp_rel (mec_pending cpdag_mec (cs_search s')) =
          map cp_rel (mec_pending cpdag_mec (cs_search s1))"
        "cs_hit_cap s' \<or> mec_pending cpdag_mec (cs_search s') = []" by blast
    have "map cn_index (c # cs) = [mx_next_index (cs_search s)..<mx_next_index (cs_search s) + length (c # cs)]"
      using ih(4) c(2,3) by (cases cs) (simp_all add: upt_conv_Cons del: upt_Suc)
    then show ?thesis using n(1,3,4) Some c leaf ih
      by (intro exI[of _ "c # cs"] exI[of _ s']) (simp del: upt_Suc)
  qed
qed simp

text \<open>The stream from a fresh sampler.\<close>

lemma cs_stream_spec:
  assumes "cpdag_inv g" "cs_with_budget edge_size g n limits hard tok = Inr s"
  shows "\<exists>cs s'. cs_drain (Suc n) s = Some (cs, s') \<and> length cs \<le> n \<and> map cn_index cs = [0..<length cs] \<and>
    (\<forall>c \<in> set cs. dag_inv (cn_graph c) \<and> dag_nodes (cn_graph c) = cp_nodes g \<and>
       cpdag_is_mec_member g (cn_graph c)) \<and>
    distinct (map (\<lambda>c. dag_rel (cn_graph c)) cs) \<and> mx_operations (cs_search s') \<le> sl_operations limits \<and>
    (cs_hit_cap s' \<or>
      (\<forall>d. dag_inv d \<and> cpdag_is_mec_member g d \<longrightarrow> (\<exists>c \<in> set cs. dag_rel (cn_graph c) = dag_rel d)))"
proof -
  have s: "cs_inv g s" "mec_pending cpdag_mec (cs_search s) = cs_leaves s" "mx_next_index (cs_search s) = 0"
      "mx_max_completions (cs_search s) = n" "mx_limits (cs_search s) = limits"
    using cs_with_budget_spec[OF assms(1), of edge_size n limits hard tok] assms(2) by (auto split: if_splits)
  have "mx_next_index (cs_search s) \<le> cs_max_completions s"
      "cs_max_completions s - mx_next_index (cs_search s) < Suc n" using s by (simp_all add: cs_max_completions_def)
  from cs_drain_spec[OF s(1) this] obtain cs s' where d:
      "cs_drain (Suc n) s = Some (cs, s')" "cs_inv g s'" "mx_limits (cs_search s') = limits"
      "map cn_index cs = [0..<length cs]" "length cs \<le> n"
      "\<forall>c \<in> set cs. dag_inv (cn_graph c) \<and> dag_nodes (cn_graph c) = cp_nodes g \<and> cpdag_is_mec_member g (cn_graph c)"
      "map (\<lambda>c. dag_rel (cn_graph c)) cs @ map cp_rel (mec_pending cpdag_mec (cs_search s')) = map cp_rel (cs_leaves s)"
      "cs_hit_cap s' \<or> mec_pending cpdag_mec (cs_search s') = []"
    using s by (auto simp: cs_max_completions_def)
  note leaves = cs_leaves_facts(2,3)[OF s(1)]
  have "distinct (map (\<lambda>c. dag_rel (cn_graph c)) cs)" using leaves(1) d(7) by (metis distinct_append)
  moreover have "\<exists>c \<in> set cs. dag_rel (cn_graph c) = dag_rel d'"
    if "\<not> cs_hit_cap s'" "dag_inv d'" "cpdag_is_mec_member g d'" for d'
  proof -
    have "mec_relation g (dag_rel d')"
      using that(2,3) cpdag_is_mec_member_iff[OF cpdag_inv_wf[OF assms(1)]] by blast
    moreover have "acyclic (dag_rel d')" using dag_inv_core(1)[OF that(2)] by (simp add: dc_inv_def dag_rel_def)
    ultimately have "dag_rel d' \<in> cp_rel ` set (cs_leaves s)" by (rule leaves(2))
    then have "dag_rel d' \<in> set (map (\<lambda>c. dag_rel (cn_graph c)) cs)" using d(7,8) that(1) by simp
    then show ?thesis by auto
  qed
  ultimately show ?thesis using d by (auto simp: cs_inv_def)
qed

end
