(* ===== verification/Mec_Room.thy ===== *)
theory Mec_Room
  imports Mec_Complete
begin

text \<open>
  When the bounds of \<open>cpdag_completion.rs\<close> leave room for the whole search tree, the stream never stops
  early: the work still to do is counted by the nodes of the binary trees below the stacked states,
  each iteration of \<open>expand\<close> spends one operation and at least one unit of that work, and the stack
  is never longer than it.
\<close>

section \<open>The work below the stack\<close>

fun tree_size :: "nat \<Rightarrow> nat" where
  "tree_size 0 = 1"
| "tree_size (Suc k) = 2 * tree_size k + 1"

definition mec_weight :: "nat \<Rightarrow> nat \<Rightarrow> nat" where
  "mec_weight n i = tree_size (n - i)"

definition mec_work :: "'g mec_search \<Rightarrow> nat" where
  "mec_work s = sum_list (map (\<lambda>(g, i). mec_weight (length (mx_undirected s)) i) (mx_stack s))"

lemma tree_size_power: "tree_size k + 1 = 2 ^ Suc k"
  by (induction k) simp_all

lemma mec_weight_pos: "0 < mec_weight n i"
  unfolding mec_weight_def by (cases "n - i") simp_all

lemma mec_weight_step:
  assumes "i < n"
  shows "2 * mec_weight n (i + 1) + 1 = mec_weight n i"
proof -
  have "n - i = Suc (n - (i + 1))" using assms by simp
  then show ?thesis unfolding mec_weight_def by simp
qed

lemma mec_work_length: "length (mx_stack s) \<le> mec_work s"
proof -
  have "length xs \<le> sum_list (map (\<lambda>(g, i). mec_weight n i) xs)" for xs :: "('g \<times> nat) list" and n
  proof (induction xs)
    case (Cons x xs)
    then show ?case using mec_weight_pos[of n "snd x"] by (cases x) simp
  qed simp
  then show ?thesis by (simp add: mec_work_def)
qed

lemma sum_list_constant:
  "\<forall>(g, j) \<in> set xs. j = i \<Longrightarrow> sum_list (map (\<lambda>(g, j). mec_weight n j) xs) = length xs * mec_weight n i"
  by (induction xs) auto

lemma push_children_length:
  "mec_push_children M allowed g i ps stack = Some stack' \<Longrightarrow> length stack' \<le> length stack + length ps"
proof (induction ps arbitrary: stack)
  case (Cons p ps)
  obtain u v where p: "p = (u, v)" by fastforce
  from Cons.prems show ?case
    by (auto simp: p split: option.splits prod.splits sum.splits if_splits dest!: Cons.IH)
qed simp

text \<open>What a search needs so that no bound stops it.\<close>

definition mec_roomy :: "'g mec_search \<Rightarrow> bool" where
  "mec_roomy s \<longleftrightarrow> (\<forall>n. \<not> ct_flag (mx_token s) n) \<and> mx_hard_limit s = None \<and> mx_stop s = None \<and>
     length (mx_undirected s) \<le> sl_depth (mx_limits s) \<and> 0 < sl_depth (mx_limits s) \<and>
     mx_operations s + mec_work s \<le> sl_operations (mx_limits s) \<and> sl_operations (mx_limits s) \<le> usize_max \<and>
     mec_work s * mx_state_bytes s \<le> mx_memory_limit_bytes s"

definition mec_same_bounds :: "'g mec_search \<Rightarrow> 'g mec_search \<Rightarrow> bool" where
  "mec_same_bounds s s' \<longleftrightarrow> ct_flag (mx_token s') = ct_flag (mx_token s) \<and> mx_hard_limit s' = mx_hard_limit s \<and>
     mx_state_bytes s' = mx_state_bytes s \<and> mx_memory_limit_bytes s' = mx_memory_limit_bytes s"

lemma sb_charge_roomy:
  assumes "\<forall>n. \<not> ct_flag tok n" "bytes \<le> sb_memory_limit_bytes b" "sb_operations b < sl_operations (sb_limits b)"
    "depth \<le> sl_depth (sb_limits b)"
  shows "\<exists>b'. sb_charge b tok depth bytes = (Inr (), b', tok\<lparr>ct_checks := ct_checks tok + 1\<rparr>) \<and>
    sb_operations b' = sb_operations b + 1 \<and> sb_limits b' = sb_limits b \<and>
    sb_memory_limit_bytes b' = sb_memory_limit_bytes b"
  using assms by (simp add: sb_charge_def is_cancelled_def Let_def)

context mec_type
begin

lemma expand_roomy:
  assumes "mec_states_ok ginv s" "\<forall>n. \<not> ct_flag (mx_token s) n" "length (mx_undirected s) \<le> sl_depth (sb_limits b)"
    "sb_operations b + mec_work s \<le> sl_operations (sb_limits b)" "mec_work s * mx_state_bytes s \<le> sb_memory_limit_bytes b"
  shows "\<exists>r s' b'. mec_expand M s b = Some (r, s', b') \<and> mx_stop s' = mx_stop s \<and> mec_same_bounds s s' \<and>
    sb_operations b' + mec_work s' \<le> sb_operations b + mec_work s \<and> mec_work s' \<le> mec_work s"
  using assms
proof (induction "mec_work s" arbitrary: s b rule: less_induct)
  case less
  let ?n = "length (mx_undirected s)"
  show ?case
  proof (cases "mx_stack s")
    case Nil
    then show ?thesis by (simp add: mec_expand.simps[of _ s] mec_same_bounds_def)
  next
    case (Cons top rest)
    obtain g i where top: "top = (g, i)" by fastforce
    have g: "ginv g" "i \<le> ?n" "\<forall>(g, i) \<in> set rest. ginv g \<and> i \<le> ?n"
      using less.prems(1) Cons top by (auto simp: mec_states_ok_def)
    let ?rest = "sum_list (map (\<lambda>(g, i). mec_weight ?n i) rest)"
    have work: "mec_work s = mec_weight ?n i + ?rest" by (simp add: mec_work_def Cons top)
    let ?bytes = "saturating_mul (saturating_add (length rest) 1) (mx_state_bytes s)"
    have "length rest + 1 \<le> mec_work s" using mec_work_length[of s] Cons by simp
    then have "(length rest + 1) * mx_state_bytes s \<le> mec_work s * mx_state_bytes s" by (rule mult_le_mono1)
    moreover have "?bytes \<le> (length rest + 1) * mx_state_bytes s"
    proof -
      have "?bytes \<le> saturating_add (length rest) 1 * mx_state_bytes s" by (simp add: saturating_mul_def)
      also have "\<dots> \<le> (length rest + 1) * mx_state_bytes s" by (rule mult_le_mono1) (simp add: saturating_add_def)
      finally show ?thesis .
    qed
    ultimately have bytes: "?bytes \<le> sb_memory_limit_bytes b" using less.prems(5) by simp
    have "0 < mec_work s" using work mec_weight_pos[of ?n i] by simp
    then have "sb_operations b < sl_operations (sb_limits b)" using less.prems(4) by simp
    moreover have "i \<le> sl_depth (sb_limits b)" using g(2) less.prems(3) by simp
    ultimately obtain b1 where ch: "sb_charge b (mx_token s) i ?bytes =
        (Inr (), b1, (mx_token s)\<lparr>ct_checks := ct_checks (mx_token s) + 1\<rparr>)" and
      b1: "sb_operations b1 = sb_operations b + 1" "sb_limits b1 = sb_limits b"
        "sb_memory_limit_bytes b1 = sb_memory_limit_bytes b"
      using sb_charge_roomy[OF less.prems(2) bytes] by blast
    let ?tok = "(mx_token s)\<lparr>ct_checks := ct_checks (mx_token s) + 1\<rparr>"
    show ?thesis
    proof (cases "i = ?n")
      case True
      let ?s = "s\<lparr>mx_stack := rest, mx_token := ?tok\<rparr>"
      have "mec_expand M s b = Some (Some g, ?s, b1)"
        using Cons top ch True by (simp add: mec_expand.simps[of _ s])
      moreover have "mec_work ?s = ?rest" by (simp add: mec_work_def)
      ultimately show ?thesis using b1 work mec_weight_pos[of ?n i] by (simp add: mec_same_bounds_def)
    next
      case False
      then have i: "i < ?n" using g(2) by simp
      obtain a c where ac: "mx_undirected s ! i = (a, c)" by fastforce
      obtain stack' new where push:
          "mec_push_children M (mx_allowed_colliders s) g i [(c, a), (a, c)] rest = Some stack'"
          "stack' = new @ rest" "\<forall>(g', j) \<in> set new. ginv g' \<and> j = i + 1"
        using push_children_spec[OF g(1), of "mx_allowed_colliders s" i "[(c, a), (a, c)]" rest "mx_undirected s"]
        by blast
      let ?s = "s\<lparr>mx_stack := stack', mx_token := ?tok\<rparr>"
      have run: "mec_expand M s b = mec_expand M ?s b1"
        using Cons top ch False i ac push(1) by (simp add: mec_expand.simps[of _ s])
      have "length new \<le> 2" using push_children_length[OF push(1)] push(2) by simp
      then have "length new * mec_weight ?n (i + 1) \<le> 2 * mec_weight ?n (i + 1)" by (rule mult_le_mono1)
      moreover have "\<forall>(g', j) \<in> set new. j = i + 1" using push(3) by auto
      then have "mec_work ?s = length new * mec_weight ?n (i + 1) + ?rest"
        using sum_list_constant[of new "i + 1" ?n] by (simp add: mec_work_def push(2))
      ultimately have "mec_work ?s + 1 \<le> mec_work s" unfolding work mec_weight_step[OF i, symmetric] by linarith
      then have less_work: "mec_work ?s < mec_work s" "sb_operations b1 + mec_work ?s \<le> sb_operations b + mec_work s"
        using b1(1) by simp_all
      have ok: "mec_states_ok ginv ?s" using push(2,3) g(3) i by (auto simp: mec_states_ok_def)
      have mem: "mec_work ?s * mx_state_bytes ?s \<le> sb_memory_limit_bytes b1"
        using order_trans[OF mult_le_mono1[OF less_imp_le[OF less_work(1)], of "mx_state_bytes s"] less.prems(5)]
        unfolding b1(3) by simp
      obtain r s' b' where ih: "mec_expand M ?s b1 = Some (r, s', b')" "mx_stop s' = mx_stop ?s" "mec_same_bounds ?s s'"
          "sb_operations b' + mec_work s' \<le> sb_operations b1 + mec_work ?s" "mec_work s' \<le> mec_work ?s"
        using less.hyps[OF less_work(1) ok _ _ _ mem] less.prems(2-4) b1(2) less_work(2) by auto
      show ?thesis using ih run less_work by (intro exI[of _ r] exI[of _ s'] exI[of _ b']) (simp add: mec_same_bounds_def)
    qed
  qed
qed

lemma next_oriented_roomy:
  assumes "mec_states_ok ginv s" "mec_roomy s" "mec_next_oriented M s = Some (r, s')"
  shows "mec_roomy s'"
proof (cases "mx_next_index s \<ge> mx_max_completions s \<or> mx_stop s \<noteq> None \<or> mx_stack s = []")
  case True
  then show ?thesis using assms by (auto simp: mec_next_oriented_def)
next
  case False
  note roomy = assms(2)[unfolded mec_roomy_def]
  let ?rem = "\<lparr>sl_operations = sl_operations (mx_limits s) - mx_operations s, sl_depth = sl_depth (mx_limits s)\<rparr>"
    and ?tok = "(mx_token s)\<lparr>ct_checks := ct_checks (mx_token s) + 1\<rparr>"
  have "mec_work s \<noteq> 0" using mec_work_length[of s] False by (cases "mx_stack s") simp_all
  then have "sl_operations ?rem \<noteq> 0" "sl_depth ?rem \<noteq> 0" using roomy by auto
  then obtain b where b: "sb_with_memory ?rem (mx_memory_limit_bytes s) (mx_hard_limit s) (mx_token s) = (Inr b, ?tok)"
      "sb_limits b = ?rem" "sb_operations b = 0" "sb_memory_limit_bytes b = mx_memory_limit_bytes s"
    using roomy by (simp add: sb_with_memory_def is_cancelled_def Let_def)
  let ?s = "s\<lparr>mx_token := ?tok\<rparr>"
  have work: "mec_work ?s = mec_work s" by (simp add: mec_work_def)
  have ok: "mec_states_ok ginv ?s" using assms(1) by (simp add: mec_states_ok_def)
  have "mec_work ?s \<le> sl_operations (mx_limits s) - mx_operations s" using roomy unfolding work by linarith
  then obtain f t b' where ex: "mec_expand M ?s b = Some (f, t, b')" "mx_stop t = mx_stop ?s" "mec_same_bounds ?s t"
      "sb_operations b' + mec_work t \<le> sb_operations b + mec_work ?s" "mec_work t \<le> mec_work ?s"
    using expand_roomy[OF ok, of b] roomy b(2-4) work by auto
  have same: "mec_same_search ?s t" "mx_operations t = mx_operations s"
    using expand_spec[OF ok, of b] b(2,3) ex(1) by (auto simp: sb_inv_def)
  have s': "s' = t\<lparr>mx_operations := saturating_add (mx_operations t) (sb_operations b'),
      mx_depth_reached := max (mx_depth_reached t) (sb_depth_reached b')\<rparr>"
    using assms(3) False b(1) ex(1) by (simp add: mec_next_oriented_def)
  have "mec_work s' = mec_work t" by (simp add: s' mec_work_def)
  moreover have "mx_operations s' \<le> mx_operations s + sb_operations b'" using same(2) by (simp add: s' saturating_add_def)
  ultimately have "mx_operations s' + mec_work s' \<le> sl_operations (mx_limits s)" using ex(4) b(3) work roomy by simp
  moreover have "mec_work s' * mx_state_bytes s \<le> mx_memory_limit_bytes s"
    unfolding \<open>mec_work s' = mec_work t\<close>
    by (rule order_trans[OF mult_le_mono1[OF ex(5)[unfolded work]]]) (use roomy in blast)
  moreover have "mx_stop s' = None" "mx_limits s' = mx_limits s" "mx_undirected s' = mx_undirected s"
      "ct_flag (mx_token s') = ct_flag (mx_token s)" "mx_hard_limit s' = None" "mx_state_bytes s' = mx_state_bytes s"
      "mx_memory_limit_bytes s' = mx_memory_limit_bytes s"
    using ex(2,3) same(1) roomy by (simp_all add: s' mec_same_bounds_def mec_same_search_def)
  ultimately show ?thesis using roomy by (simp add: mec_roomy_def)
qed

lemma leaves_bound: "length (mec_leaves M allowed us g) \<le> 2 ^ length us"
proof (induction us arbitrary: g)
  case (Cons u us)
  obtain a b where u: "u = (a, b)" by fastforce
  have "length (case mc_orient_undirected M g s t of
        Some (Inr _, g') \<Rightarrow> (if has_forbidden_collider_at M allowed g' t then [] else mec_leaves M allowed us g')
      | _ \<Rightarrow> []) \<le> 2 ^ length us" for s t
    using Cons.IH by (auto split: option.split prod.split sum.split)
  from add_mono[OF this[of a b] this[of b a]] show ?case by (simp add: u)
qed simp

end

section \<open>The sampler with room\<close>

lemma cs_next_run:
  assumes "cs_inv g0 s"
  obtains (stopped) x where "mec_next_oriented cpdag_mec (cs_search s) = Some (None, x)"
      "mec_same_search (cs_search s) x" "cs_next s = Some (None, s\<lparr>cs_search := x\<rparr>)"
  | (yielded) leaf x c where "mec_next_oriented cpdag_mec (cs_search s) = Some (Some leaf, x)"
      "mec_same_search (cs_search s) x"
      "cs_next s = Some (Some c, s\<lparr>cs_search := x\<lparr>mx_next_index := mx_next_index x + 1\<rparr>\<rparr>)"
proof -
  let ?x = "cs_search s"
  have inv: "mec_states_ok cp_wf ?x" "mx_operations ?x \<le> sl_operations (mx_limits ?x)" "mx_base ?x = g0"
      "mec_partial g0 (mx_undirected ?x) g0" using assms by (simp_all add: cs_inv_def)
  obtain f x where n: "mec_next_oriented cpdag_mec ?x = Some (f, x)" "mec_same_search ?x x" and
      f: "case f of Some g \<Rightarrow> mec_pending cpdag_mec ?x = g # mec_pending cpdag_mec x | None \<Rightarrow> True"
    using cpm.next_oriented_spec[OF inv(1,2)] by (fastforce split: option.splits)
  show thesis
  proof (cases f)
    case None
    then show thesis using stopped n by (simp add: cs_next.simps[of s])
  next
    case (Some leaf)
    obtain passed where "cs_leaves s = passed @ mec_pending cpdag_mec ?x" using assms by (auto simp: cs_inv_def)
    then have "leaf \<in> set (cs_leaves s)" using f Some by simp
    from cs_leaves_facts(1)[OF assms this] obtain d where "cp_try_into_dag leaf = Some (Inr d)"
        "cpdag_is_mec_member g0 d"
      by (rule mec_leaf_member) (use inv(4) in \<open>simp_all add: mec_partial_base\<close>)
    then show thesis using yielded[of leaf x "\<lparr>cn_graph = d, cn_index = mx_next_index x\<rparr>"] n Some inv(3)
      by (simp add: cs_next.simps[of s] mec_record_yield_def mec_same_search_def)
  qed
qed

lemma cs_next_roomy:
  assumes "cs_inv g0 s" "mec_roomy (cs_search s)" "cs_next s = Some (r, s')"
  shows "mec_roomy (cs_search s')"
proof -
  have ok: "mec_states_ok cp_wf (cs_search s)" using assms(1) by (simp add: cs_inv_def)
  from assms(1) show ?thesis
  proof (cases rule: cs_next_run)
    case (stopped x)
    then show ?thesis using cpm.next_oriented_roomy[OF ok assms(2) stopped(1)] assms(3) by auto
  next
    case (yielded leaf x c)
    then show ?thesis using cpm.next_oriented_roomy[OF ok assms(2) yielded(1)] assms(3)
      by (auto simp: mec_roomy_def mec_work_def)
  qed
qed

lemma cs_next_none_index:
  assumes "cs_inv g0 s" "cs_next s = Some (None, s')"
  shows "mx_next_index (cs_search s') = mx_next_index (cs_search s)"
  using assms(1) by (rule cs_next_run) (use assms(2) in \<open>auto simp: mec_same_search_def\<close>)

lemma cs_drain_roomy:
  assumes "cs_inv g0 s" "mec_roomy (cs_search s)" "cs_drain fuel s = Some (cs, s')"
  shows "mec_roomy (cs_search s') \<and> mx_next_index (cs_search s') = mx_next_index (cs_search s) + length cs \<and>
    cs_max_completions s' = cs_max_completions s"
  using assms
proof (induction fuel arbitrary: s cs)
  case (Suc fuel)
  obtain r s1 where n: "cs_next s = Some (r, s1)" "cs_inv g0 s1" "cs_max_completions s1 = cs_max_completions s" and
      r: "case r of Some c \<Rightarrow> mx_next_index (cs_search s1) = Suc (mx_next_index (cs_search s)) | None \<Rightarrow> True"
    using cs_next_spec[OF Suc.prems(1)] by (fastforce split: option.splits)
  note room = cs_next_roomy[OF Suc.prems(1,2) n(1)]
  show ?case
  proof (cases r)
    case None
    have "mx_next_index (cs_search s1) = mx_next_index (cs_search s)"
      using cs_next_none_index[OF Suc.prems(1)] n(1) None by simp
    then show ?thesis using None n Suc.prems(3) room by simp
  next
    case (Some c)
    then obtain cs' where "cs = c # cs'" "cs_drain fuel s1 = Some (cs', s')" using Suc.prems(3) n(1) by auto
    then show ?thesis using Suc.IH[OF n(2) room] n(3) r Some by simp
  qed
qed simp

text \<open>A sampler whose limits have room for the tree over its undirected edges.\<close>

lemma cs_with_budget_roomy:
  assumes "cpdag_inv g" "cs_with_budget edge_size g n limits None tok = Inr s" "\<forall>i. \<not> ct_flag tok i"
    "card (cp_undirected g) \<le> sl_depth limits" "0 < sl_depth limits" "2 ^ Suc (card (cp_undirected g)) \<le> sl_operations limits"
    "sl_operations limits \<le> usize_max"
    "2 ^ Suc (card (cp_undirected g)) * ((cp_node_count g + 2 * length (cp_edges g)) * edge_size) \<le> default_search_memory_bytes"
  shows "mec_roomy (cs_search s)" "length (cs_leaves s) \<le> 2 ^ card (cp_undirected g)"
proof -
  let ?k = "card (cp_undirected g)" and ?x = "cs_search s"
  have us: "mx_undirected ?x = sorted_list_of_set (cp_undirected g)"
    and x: "mx_stack ?x = [(g, 0)]" "mx_operations ?x = 0" "mx_limits ?x = limits" "mx_hard_limit ?x = None"
      "mx_token ?x = tok" "mx_stop ?x = None" "mx_memory_limit_bytes ?x = default_search_memory_bytes"
    and bytes: "mx_state_bytes ?x = saturating_mul
         (saturating_add (cp_node_count g) (saturating_mul (length (cp_edges g)) 2)) edge_size"
    using assms(2) mec_undirected_list[OF cpdag_inv_wf[OF assms(1)]]
    by (auto simp: cs_with_budget_def mec_new_def mec_projections cpdag_mec_def split: if_splits)
  have len: "length (mx_undirected ?x) = ?k" by (simp add: us)
  have work: "mec_work ?x = tree_size ?k" by (simp add: mec_work_def x mec_weight_def len)
  have size: "tree_size ?k \<le> 2 ^ Suc ?k" using tree_size_power[of ?k] by simp
  have "saturating_add (cp_node_count g) (saturating_mul (length (cp_edges g)) 2) \<le> cp_node_count g + 2 * length (cp_edges g)"
    by (simp add: saturating_add_def saturating_mul_def)
  then have "mx_state_bytes ?x \<le> (cp_node_count g + 2 * length (cp_edges g)) * edge_size"
    unfolding bytes saturating_mul_def[of _ edge_size] by (meson min.coboundedI1 mult_le_mono1)
  from mult_le_mono[OF size this] assms(8)
  have "mec_work ?x * mx_state_bytes ?x \<le> default_search_memory_bytes" unfolding work by (rule order_trans)
  then show "mec_roomy ?x" using assms(3-7) size by (simp add: mec_roomy_def x len work)
  show "length (cs_leaves s) \<le> 2 ^ ?k"
    using cpm.leaves_bound[of "mx_allowed_colliders ?x" "mx_undirected ?x" "mx_base ?x"] by (simp add: cs_leaves_def len)
qed

text \<open>With room, and a cap above the number of leaves, the stream is the whole class.\<close>

lemma cs_stream_complete:
  assumes "cpdag_inv g" "cp_no_conflict g" "\<forall>i. \<not> ct_flag tok i"
    "card (cp_undirected g) \<le> sl_depth limits" "0 < sl_depth limits" "2 ^ Suc (card (cp_undirected g)) \<le> sl_operations limits"
    "sl_operations limits \<le> usize_max" "2 ^ card (cp_undirected g) < n"
    "2 ^ Suc (card (cp_undirected g)) * ((cp_node_count g + 2 * length (cp_edges g)) * edge_size) \<le> default_search_memory_bytes"
  shows "\<exists>s cs s'. cs_with_budget edge_size g n limits None tok = Inr s \<and> cs_drain (Suc n) s = Some (cs, s') \<and>
    \<not> cs_hit_cap s' \<and> distinct (map (\<lambda>c. dag_rel (cn_graph c)) cs) \<and>
    (\<lambda>c. dag_rel (cn_graph c)) ` set cs = {dag_rel d | d. dag_inv d \<and> cpdag_is_mec_member g d}"
proof -
  obtain s where s: "cs_with_budget edge_size g n limits None tok = Inr s" "cs_inv g s"
      "mec_pending cpdag_mec (cs_search s) = cs_leaves s" "mx_next_index (cs_search s) = 0" "cs_max_completions s = n"
    using cs_with_budget_spec[OF assms(1), of edge_size n limits None tok] assms(2) by (auto simp: cs_max_completions_def)
  note room = cs_with_budget_roomy[OF assms(1) s(1) assms(3-7,9)]
  obtain cs s' where d: "cs_drain (Suc n) s = Some (cs, s')" "distinct (map (\<lambda>c. dag_rel (cn_graph c)) cs)"
      "\<forall>c \<in> set cs. dag_inv (cn_graph c) \<and> cpdag_is_mec_member g (cn_graph c)"
      "cs_hit_cap s' \<or> (\<forall>d. dag_inv d \<and> cpdag_is_mec_member g d \<longrightarrow> (\<exists>c \<in> set cs. dag_rel (cn_graph c) = dag_rel d))"
    using cs_stream_spec[OF assms(1) s(1)] by blast
  have "length cs \<le> length (cs_leaves s)"
  proof -
    have "set (map (\<lambda>c. dag_rel (cn_graph c)) cs) \<subseteq> cp_rel ` set (cs_leaves s)"
    proof
      fix E assume "E \<in> set (map (\<lambda>c. dag_rel (cn_graph c)) cs)"
      then obtain c where c: "c \<in> set cs" "E = dag_rel (cn_graph c)" by auto
      then have "mec_relation g E" "acyclic E"
        using d(3) cpdag_is_mec_member_iff[OF cpdag_inv_wf[OF assms(1)]] dag_inv_core(1)
        by (auto simp: dc_inv_def dag_rel_def)
      then show "E \<in> cp_rel ` set (cs_leaves s)" by (rule cs_leaves_facts(3)[OF s(2)])
    qed
    from card_mono[OF _ this] have "card (set (map (\<lambda>c. dag_rel (cn_graph c)) cs)) \<le> card (cp_rel ` set (cs_leaves s))"
      by simp
    also have "\<dots> \<le> length (cs_leaves s)" by (meson card_image_le card_length finite_set le_trans)
    finally show ?thesis using distinct_card[OF d(2)] by simp
  qed
  then have "length cs < n" using room(2) assms(8) by simp
  moreover note cs_drain_roomy[OF s(2) room(1) d(1)]
  ultimately have no_cap: "\<not> cs_hit_cap s'"
    using s(4,5) by (simp add: cs_hit_cap_def mec_hit_cap_def mec_roomy_def cs_max_completions_def)
  then have "(\<lambda>c. dag_rel (cn_graph c)) ` set cs = {dag_rel d | d. dag_inv d \<and> cpdag_is_mec_member g d}"
    using d(3,4) by (auto simp: image_iff) metis
  then show ?thesis using s(1) d(1,2) no_cap by blast
qed

end
