(* ===== verification/Marked_Properties.thy ===== *)
theory Marked_Properties
  imports Mec_Room
begin

text \<open>
  The correctness statements of the marked graphs, the temporal graphs, the search budget and the
  completion stream, each over the code's own operations and applied to a concrete graph: a chain
  of three nodes whose two edges are undirected, and a temporal graph of two lags.
\<close>

section \<open>Sample graphs\<close>

definition undirected_chain :: cpdag where
  "undirected_chain = snd (the (cp_insert_undirected (snd (the (cp_insert_undirected (cp_with_variables 3) 0 1))) 1 2))"

lemma cp_with_variables_facts:
  assumes "n \<le> id_space"
  shows "cp_wf (cp_with_variables n)" "cp_nodes (cp_with_variables n) = map Static [0..<n]"
    "cp_marks (cp_with_variables n) = (\<lambda>_ _. None)"
proof -
  have "cp_node_count cp_empty = 0" "cp_nodes cp_empty = []" by (simp_all add: cp_node_count_def cp_empty_def)
  then show "cp_wf (cp_with_variables n)" "cp_nodes (cp_with_variables n) = map Static [0..<n]"
    "cp_marks (cp_with_variables n) = (\<lambda>_ _. None)"
    using cp_add_nodes_spec[OF cp_empty_wf(1), of "map Static [0..<n]"] assms
    by (simp_all add: cp_with_variables_def cp_empty_wf(3))
qed

lemma fresh_undirected:
  assumes "cp_wf g" "a < b" "b < cp_node_count g" "cp_marks g a b = None"
  shows "\<exists>g'. cp_insert_undirected g a b = Some (Inr (), g') \<and> cp_wf g' \<and> cp_nodes g' = cp_nodes g \<and>
    cp_marks g' = set_pair (cp_marks g) a b (Some (Tail, Tail, Empty))"
proof -
  have "cp_marks g b a = None" using cp_adjacent_pair_sym[OF assms(1), of b a] assms(4)
    by (simp add: cp_adjacent_pair_def del: not_None_eq)
  then have "cp_refusal g (me_undirected a b) = None"
    using assms(2-4) by (simp add: cp_refusal_def is_cpdag_legal_def me_undirected_def insert_refusal_def cp_marks_def
        parent_child_def)
  from assms(1) show ?thesis
  proof (cases rule: cp_insert_marked_cases[where e = "me_undirected a b"])
    case (inserted g')
    then show ?thesis using assms(2) by (simp add: cp_insert_undirected_def me_undirected_def)
  qed (use \<open>cp_refusal g _ = None\<close> in simp)
qed

lemma undirected_chain:
  "cpdag_inv undirected_chain" "cp_node_count undirected_chain = 3"
  "cp_marks undirected_chain = set_pair (set_pair (\<lambda>_ _. None) 0 1 (Some (Tail, Tail, Empty))) 1 2 (Some (Tail, Tail, Empty))"
proof -
  have small: "3 \<le> id_space" by (simp add: id_space_def)
  note base = cp_with_variables_facts[OF small]
  obtain g1 where g1: "cp_insert_undirected (cp_with_variables 3) 0 1 = Some (Inr (), g1)" "cp_wf g1"
      "cp_nodes g1 = map Static [0..<3]" "cp_marks g1 = set_pair (\<lambda>_ _. None) 0 1 (Some (Tail, Tail, Empty))"
    using fresh_undirected[OF base(1), of 0 1] base by (auto simp: cp_node_count_def)
  obtain g2 where g2: "cp_insert_undirected g1 1 2 = Some (Inr (), g2)" "cp_wf g2" "cp_nodes g2 = map Static [0..<3]"
      "cp_marks g2 = set_pair (cp_marks g1) 1 2 (Some (Tail, Tail, Empty))"
    using fresh_undirected[OF g1(2), of 1 2] g1(3,4) by (auto simp: cp_node_count_def set_pair_def)
  have "undirected_chain = g2" by (simp only: undirected_chain_def g1(1) g2(1) option.sel prod.sel)
  then show "cpdag_inv undirected_chain" "cp_node_count undirected_chain = 3"
    "cp_marks undirected_chain =
      set_pair (set_pair (\<lambda>_ _. None) 0 1 (Some (Tail, Tail, Empty))) 1 2 (Some (Tail, Tail, Empty))"
    using g2 g1(4) by (auto simp: cpdag_inv_def cp_node_count_def)
qed

lemma undirected_chain_no_conflict: "cp_no_conflict undirected_chain"
  unfolding cp_no_conflict_def undirected_chain(3)
  by (intro marks_all_set_pair) (auto simp: marks_all_def)

definition two_lags :: temporal_dag where
  "two_lags = snd (tdag_add_node (snd (tdag_add_node tdag_empty (Lagged 0 1))) (Lagged 0 0))"

lemma two_lags:
  "tdag_inv two_lags" "tdag_node_count two_lags = 2" "tdag_rel two_lags = {}"
  "tdag_lag two_lags 0 = 1" "tdag_lag two_lags (Suc 0) = 0" "tdag_var two_lags 0 = 0" "tdag_var two_lags (Suc 0) = 0"
proof -
  obtain r1 g1 where g1: "tdag_add_node tdag_empty (Lagged 0 1) = (r1, g1)" by fastforce
  obtain r2 g2 where g2: "tdag_add_node g1 (Lagged 0 0) = (r2, g2)" by fastforce
  note s1 = tdag_add_node_spec[OF tdag_empty_inv g1] and e = tdag_empty_def dc_new_def
  have small: "2 \<le> id_space" by (simp add: id_space_def)
  have n1: "tdag_nodes g1 = [Lagged 0 1]"
    using s1(3) small by (simp add: e tdag_node_count_def tdag_nodes_def dc_node_count_def)
  note s2 = tdag_add_node_spec[OF s1(1) g2]
  have n2: "tdag_nodes g2 = [Lagged 0 1, Lagged 0 0]"
    using s2(3) n1 small by (simp add: tdag_node_count_def tdag_nodes_def dc_node_count_def)
  have t: "two_lags = g2" by (simp only: two_lags_def g1 g2 prod.sel)
  have "tdag_rel tdag_empty = {}" by (simp add: e tdag_rel_def dc_rel_def)
  then show "tdag_inv two_lags" "tdag_rel two_lags = {}" using s1 s2 by (simp_all add: t)
  show "tdag_node_count two_lags = 2" "tdag_lag two_lags 0 = 1" "tdag_lag two_lags (Suc 0) = 0"
    "tdag_var two_lags 0 = 0" "tdag_var two_lags (Suc 0) = 0"
    using n2 by (simp_all add: t tdag_lag_def tdag_var_def tdag_node_count_def tdag_nodes_def dc_node_count_def)
qed

text \<open>The adjacency of the chain, whose marks are known.\<close>

lemma chain_adj:
  "ms_inv (cp_adj undirected_chain)" "length (cp_adj undirected_chain) = 3"
  "ms_marks (cp_adj undirected_chain) 0 1 = Some (Tail, Tail, Empty)"
  "ms_marks (cp_adj undirected_chain) 1 2 = Some (Tail, Tail, Empty)"
  "ms_marks (cp_adj undirected_chain) 0 2 = None" "ms_rel (cp_adj undirected_chain) = {}"
proof -
  note wf = cpdag_inv_wf[OF undirected_chain(1)]
  show "ms_inv (cp_adj undirected_chain)" "length (cp_adj undirected_chain) = 3"
    using cp_wfD(1,3)[OF wf] undirected_chain(2) by simp_all
  show "ms_marks (cp_adj undirected_chain) 0 1 = Some (Tail, Tail, Empty)"
    "ms_marks (cp_adj undirected_chain) 1 2 = Some (Tail, Tail, Empty)"
    "ms_marks (cp_adj undirected_chain) 0 2 = None"
    using undirected_chain(3) unfolding cp_marks_def by (simp_all add: set_pair_def)
  have "cp_marks undirected_chain a b \<noteq> Some (Tail, Arrow, m)" for a b m
    unfolding undirected_chain(3) by (auto simp: set_pair_def)
  then show "ms_rel (cp_adj undirected_chain) = {}" by (auto simp: ms_rel_iff cp_marks_def)
qed

section \<open>Marked adjacency\<close>

text \<open>C25: inserting a marked edge between two different stored nodes never panics; it is exactly one update
  of the map from node pairs to marks (the mirrored pair included), and it refuses, leaving the rows
  as they are, exactly the pairs that have an edge and the arrows that close a directed cycle.\<close>

theorem insert_marked_refines:
  assumes "ms_inv adj" "me_a e < length adj" "me_b e < length adj" "me_a e \<noteq> me_b e"
  shows "\<exists>r adj'. insert_marked_finish adj e = Some (r, adj') \<and> ms_inv adj' \<and> length adj' = length adj \<and>
    (if ms_marks adj (me_a e) (me_b e) \<noteq> None
     then r = Inl (DuplicateEdge (me_a e) (me_b e)) \<and> adj' = adj
     else if \<exists>s t. parent_child e = Some (s, t) \<and> (t, s) \<in> (ms_rel adj)\<^sup>*
     then (\<exists>s t. r = Inl (Cycle s t)) \<and> adj' = adj
     else r = Inr () \<and>
       ms_marks adj' = set_pair (ms_marks adj) (me_a e) (me_b e) (Some (me_at_a e, me_at_b e, me_middle e)))"
  by (rule insert_marked_finish_spec[OF assms])
    (use assms(1) in \<open>auto simp: insert_refusal_def split: if_splits option.splits\<close>)

theorem insert_marked_refines_witness:
  "\<exists>adj'. insert_marked_finish (cp_adj undirected_chain) (me_directed 0 2) = Some (Inr (), adj') \<and> ms_inv adj' \<and>
    ms_marks adj' = set_pair (ms_marks (cp_adj undirected_chain)) 0 2 (Some (Tail, Arrow, Empty))"
  using insert_marked_refines[of "cp_adj undirected_chain" "me_directed 0 2"] chain_adj
  by (auto simp: me_directed_def parent_child_def)

text \<open>Replacing the marks of an existing edge never panics; either it is one update of the map, or the
  new marks would make an arrow that closes a cycle through the other edges, and then the error names that
  arrow and every pair has the marks it had before.\<close>

theorem set_marks_refines:
  assumes "ms_inv adj" "ms_marks adj a b = Some (p0, q0, m)"
  shows "\<exists>r adj'. set_marks_finish adj a b p q \<lparr>me_a = a, me_b = b, me_at_a = p0, me_at_b = q0, me_middle = m\<rparr>
      = Some (r, adj') \<and> ms_inv adj' \<and>
    (if \<exists>(s, t) \<in> marks_arrow a b (Some (p, q, m)). (t, s) \<in> (other_arrows adj a b)\<^sup>*
     then ms_marks adj' = ms_marks adj \<and> (\<exists>s t. r = Inl (Cycle s t) \<and> (s, t) \<in> marks_arrow a b (Some (p, q, m)))
     else r = Inr () \<and> ms_marks adj' = set_pair (ms_marks adj) a b (Some (p, q, m)))"
  by (rule set_marks_finish_spec[OF assms refl, of p q]) auto

theorem set_marks_refines_witness:
  "\<exists>adj'. set_marks_finish (cp_adj undirected_chain) 0 1 Tail Arrow
       \<lparr>me_a = 0, me_b = 1, me_at_a = Tail, me_at_b = Tail, me_middle = Empty\<rparr> = Some (Inr (), adj') \<and>
    ms_marks adj' = set_pair (ms_marks (cp_adj undirected_chain)) 0 1 (Some (Tail, Arrow, Empty))"
proof -
  have "other_arrows (cp_adj undirected_chain) 0 1 = {}"
    using chain_adj(6) by (simp add: other_arrows_def ms_rel_def)
  moreover have "marks_arrow 0 1 (Some (Tail, Arrow, Empty)) = {(0, 1)}" by (simp add: marks_arrow_def)
  ultimately show ?thesis
    using set_marks_refines[OF chain_adj(1,3), of Tail Arrow] by auto
qed

text \<open>C39: the edge list of a marked graph has exactly one edge per adjacent pair, stored with the smaller id
  first whatever its direction, with the marks of that pair, in the order of its sort key.\<close>

theorem all_marked_edges_correct:
  assumes "ms_wf adj"
  shows "set (all_marked_edges adj) = {edge_of_marks a b k | a b k. a < b \<and> ms_marks adj a b = Some k} \<and>
    distinct (map (\<lambda>e. (me_a e, me_b e)) (all_marked_edges adj)) \<and>
    sorted (map edge_sort_key (all_marked_edges adj))"
  using all_marked_edges_spec[OF assms] by blast

theorem all_marked_edges_correct_witness:
  "\<lparr>me_a = 0, me_b = 1, me_at_a = Tail, me_at_b = Tail, me_middle = Empty\<rparr> \<in> set (cp_edges undirected_chain) \<and>
   distinct (map (\<lambda>e. (me_a e, me_b e)) (cp_edges undirected_chain))"
proof -
  have "ms_wf (cp_adj undirected_chain)" using chain_adj(1) by (simp add: ms_inv_def)
  from all_marked_edges_correct[OF this] show ?thesis
    using chain_adj(3) by (force simp: cp_edges_def edge_of_marks_def)
qed

section \<open>CPDAGs\<close>

text \<open>C23: every mutation of a CPDAG (inserting, orienting, pinning a conflict, removing) returns, keeps the
  invariant (legal marks, mirrored rows, acyclic arrows, static nodes) and the node table, and leaves the graph
  untouched when it refuses.\<close>

theorem cpdag_mutations_keep_invariant:
  assumes "cpdag_inv g"
    and "run \<in> {\<lambda>g. cp_insert_marked g e, \<lambda>g. cp_orient_undirected g a b, \<lambda>g. cp_mark_conflict g a b,
      \<lambda>g. cp_remove_edge g a b}"
  shows "\<exists>r g'. run g = Some (r, g') \<and> cpdag_inv g' \<and> cp_nodes g' = cp_nodes g \<and> (r \<noteq> Inr () \<longrightarrow> g' = g)"
proof -
  note wf = cpdag_inv_wf[OF assms(1)]
  have keep: "cpdag_inv g'" if "cp_wf g'" "cp_nodes g' = cp_nodes g" for g'
    using that assms(1) by (simp add: cpdag_inv_def)
  have "\<exists>r g'. cp_insert_marked g e = Some (r, g') \<and> cpdag_inv g' \<and> cp_nodes g' = cp_nodes g \<and> (r \<noteq> Inr () \<longrightarrow> g' = g)"
    by (rule cp_insert_marked_cases[OF wf, of e]) (use keep assms(1) in auto)
  moreover have "\<exists>r g'. cp_orient_undirected g a b = Some (r, g') \<and> cpdag_inv g' \<and> cp_nodes g' = cp_nodes g \<and>
      (r \<noteq> Inr () \<longrightarrow> g' = g)"
    by (rule cp_orient_undirected_cases[OF wf, of a b]) (use keep assms(1) in auto)
  moreover have "\<exists>r g'. cp_mark_conflict g a b = Some (r, g') \<and> cpdag_inv g' \<and> cp_nodes g' = cp_nodes g \<and>
      (r \<noteq> Inr () \<longrightarrow> g' = g)"
    by (rule cp_mark_conflict_cases[OF wf, of a b]) (use keep assms(1) in auto)
  moreover have "\<exists>r g'. cp_remove_edge g a b = Some (r, g') \<and> cpdag_inv g' \<and> cp_nodes g' = cp_nodes g \<and>
      (r \<noteq> Inr () \<longrightarrow> g' = g)"
    by (rule cp_remove_edge_cases[OF wf, of a b]) (use keep assms(1) in auto)
  ultimately show ?thesis using assms(2) by auto
qed

theorem cpdag_mutations_keep_invariant_witness:
  "\<exists>r g'. cp_orient_undirected undirected_chain 1 0 = Some (r, g') \<and> cpdag_inv g' \<and>
    cp_nodes g' = cp_nodes undirected_chain"
  using cpdag_mutations_keep_invariant[OF undirected_chain(1),
      of "\<lambda>g. cp_orient_undirected g 1 0" undefined 1 0] by auto

text \<open>Orienting an undirected edge succeeds exactly when both nodes exist, the pair carries tail-tail marks
  and the new arrow closes no directed cycle; then the arrow is the only change of the directed part.\<close>

theorem cpdag_orient_undirected_correct:
  assumes "cpdag_inv g"
  shows "\<exists>r g'. cp_orient_undirected g s t = Some (r, g') \<and>
    (r = Inr () \<longleftrightarrow> (\<exists>m. cp_marks g s t = Some (Tail, Tail, m)) \<and> (t, s) \<notin> (cp_rel g)\<^sup>*) \<and>
    (if r = Inr () then cp_rel g' = insert (s, t) (cp_rel g) \<and>
       (\<exists>m. cp_marks g' = set_pair (cp_marks g) s t (Some (Tail, Arrow, m)))
     else g' = g)"
proof (rule cp_orient_undirected_cases[OF cpdag_inv_wf[OF assms], of s t])
  fix err assume "cp_orient_refusal g s t = Some err" "cp_orient_undirected g s t = Some (Inl err, g)"
  moreover have "s < cp_node_count g \<and> t < cp_node_count g" if "cp_marks g s t = Some k" for k
    using cpg.marks_range[OF cpdag_inv_wf[OF assms]] that by (auto simp: cp_marks_def)
  ultimately show ?thesis by (auto simp: cp_orient_refusal_def split: if_splits)
next
  fix m g' assume "cp_orient_refusal g s t = None" "cp_orient_undirected g s t = Some (Inr (), g')"
    "cp_marks g s t = Some (Tail, Tail, m)" "cp_marks g' = set_pair (cp_marks g) s t (Some (Tail, Arrow, m))"
    "cp_rel g' = insert (s, t) (cp_rel g)"
  then show ?thesis by (auto simp: cp_orient_refusal_def split: if_splits)
qed

theorem cpdag_orient_undirected_correct_witness:
  "\<exists>g'. cp_orient_undirected undirected_chain 0 1 = Some (Inr (), g') \<and> cp_rel g' = {(0, 1)}"
proof -
  have "cp_rel undirected_chain = {}" using chain_adj(6) by (simp add: cp_rel_def)
  moreover have "cp_marks undirected_chain 0 1 = Some (Tail, Tail, Empty)" using chain_adj(3) by (simp add: cp_marks_def)
  ultimately show ?thesis using cpdag_orient_undirected_correct[OF undirected_chain(1), of 0 1] by auto
qed

text \<open>C33: a DAG turned into a CPDAG and back is the DAG with the same node table and the same edges, and
  neither direction fails.\<close>

theorem cpdag_from_dag_round_trip:
  assumes "dag_inv d"
  shows "\<exists>g d'. cp_from_dag d = Some g \<and> cpdag_inv g \<and> cp_try_into_dag g = Some (Inr d') \<and> dag_inv d' \<and>
    dag_nodes d' = dag_nodes d \<and> dag_rel d' = dag_rel d"
proof -
  obtain g where g: "cp_from_dag d = Some g" "cpdag_inv g" "cp_all_directed g" "cp_nodes g = dag_nodes d" "cp_rel g = dag_rel d"
    using cp_from_dag_spec[OF assms] by blast
  with cp_try_into_dag_spec[OF g(2)] show ?thesis by auto
qed

theorem cpdag_from_dag_round_trip_witness:
  "\<exists>g d'. cp_from_dag diamond = Some g \<and> cp_try_into_dag g = Some (Inr d') \<and>
    dag_rel d' = {(0, 1), (0, 2), (1, 3), (2, 3)}"
  using cpdag_from_dag_round_trip[OF diamond(1)] by (auto simp: diamond)

section \<open>The Markov equivalence class of a CPDAG\<close>

text \<open>C29: the membership test accepts a DAG exactly when it has as many nodes as the CPDAG, the CPDAG has no
  conflict edge, both have the same adjacencies, the DAG keeps every compelled arrow, and their unshielded
  colliders are the same set of triples.\<close>

theorem mec_membership_correct:
  assumes "cpdag_inv g" "dag_inv d"
  shows "cpdag_is_mec_member g d \<longleftrightarrow>
    cp_node_count g = dag_node_count d \<and> (\<forall>a b p q m. cp_marks g a b = Some (p, q, m) \<longrightarrow> p \<noteq> Conflict) \<and>
    (\<forall>a b. cp_marks g a b \<noteq> None \<longleftrightarrow> (a, b) \<in> dag_rel d \<or> (b, a) \<in> dag_rel d) \<and> cp_rel g \<subseteq> dag_rel d \<and>
    collider_set (dag_rel d) (\<lambda>a b. cp_marks g a b \<noteq> None) = collider_set (cp_rel g) (\<lambda>a b. cp_marks g a b \<noteq> None)"
proof -
  have "cp_adjacent_pair g = (\<lambda>a b. cp_marks g a b \<noteq> None)" by (simp add: fun_eq_iff cp_adjacent_pair_def)
  then show ?thesis
    unfolding cpdag_is_mec_member_iff[OF cpdag_inv_wf[OF assms(1)] assms(2)] mec_relation_def
      cp_no_conflict_def marks_all_def by (simp del: not_None_eq) blast
qed

lemma diamond_not_in_chain: "\<not> cp_node_count undirected_chain = dag_node_count diamond"
  by (simp add: undirected_chain(2) diamond)

theorem mec_membership_correct_witness: "\<not> cpdag_is_mec_member undirected_chain diamond"
  using mec_membership_correct[OF undirected_chain(1) diamond(1)] diamond_not_in_chain by blast

text \<open>C8: asking a fresh sampler until it answers nothing ends after at most n completions; every completion is
  a DAG over the CPDAG's nodes in its Markov equivalence class, numbered in order, no two have the same edges,
  the operations stay within the limit, and unless the sampler reports that it hit a bound every member of
  the class was yielded.\<close>

theorem mec_stream_enumerates_class:
  assumes "cpdag_inv g" "cs_with_budget edge_size g n limits hard tok = Inr s"
  shows "\<exists>cs s'. cs_drain (Suc n) s = Some (cs, s') \<and> length cs \<le> n \<and> map cn_index cs = [0..<length cs] \<and>
    (\<forall>c \<in> set cs. dag_inv (cn_graph c) \<and> dag_nodes (cn_graph c) = cp_nodes g \<and>
       cpdag_is_mec_member g (cn_graph c)) \<and>
    distinct (map (\<lambda>c. dag_rel (cn_graph c)) cs) \<and> mx_operations (cs_search s') \<le> sl_operations limits \<and>
    (cs_hit_cap s' \<or>
      (\<forall>d. dag_inv d \<and> cpdag_is_mec_member g d \<longrightarrow> (\<exists>c \<in> set cs. dag_rel (cn_graph c) = dag_rel d)))"
  by (rule cs_stream_spec[OF assms])

theorem mec_stream_enumerates_class_witness:
  "\<exists>s cs s'. cs_new 24 undirected_chain 5 = Inr s \<and> cs_drain 6 s = Some (cs, s') \<and> length cs \<le> 5 \<and>
    (\<forall>c \<in> set cs. cpdag_is_mec_member undirected_chain (cn_graph c)) \<and> distinct (map (\<lambda>c. dag_rel (cn_graph c)) cs)"
proof -
  obtain s where s: "cs_new 24 undirected_chain 5 = Inr s"
    using cs_with_budget_spec[OF undirected_chain(1)] undirected_chain_no_conflict unfolding cs_new_def by meson
  from mec_stream_enumerates_class[OF undirected_chain(1) s[unfolded cs_new_def]] show ?thesis
    using s by (auto simp: eval_nat_numeral)
qed

lemma chain_size: "card (cp_undirected undirected_chain) = 2" "length (cp_edges undirected_chain) \<le> 2"
proof -
  note wf = cpdag_inv_wf[OF undirected_chain(1)]
  have marks: "cp_marks undirected_chain a b \<noteq> None \<and> a < b \<longleftrightarrow> (a, b) \<in> {(0, 1), (1, 2)}" for a b
    unfolding undirected_chain(3) by (auto simp: set_pair_def)
  have tails: "cp_marks undirected_chain 0 1 = Some (Tail, Tail, Empty)" "cp_marks undirected_chain 1 2 = Some (Tail, Tail, Empty)"
    unfolding undirected_chain(3) by (simp_all add: set_pair_def)
  have "cp_undirected undirected_chain = {(0, 1), (1, 2)}"
  proof (intro set_eqI iffI)
    fix x assume "x \<in> cp_undirected undirected_chain"
    then obtain a b m where x: "x = (a, b)" "a < b" "cp_marks undirected_chain a b = Some (Tail, Tail, m)"
      by (auto simp: cp_undirected_def)
    then have "cp_marks undirected_chain a b \<noteq> None \<and> a < b" by simp
    then show "x \<in> {(0, 1), (1, 2)}" unfolding marks x(1) .
  next
    fix x assume "x \<in> {(0 :: nat, 1 :: nat), (1, 2)}"
    then show "x \<in> cp_undirected undirected_chain" using tails by (auto simp: cp_undirected_def)
  qed
  then show "card (cp_undirected undirected_chain) = 2" by simp
  let ?pairs = "map (\<lambda>e. (me_a e, me_b e)) (cp_edges undirected_chain)"
  note listed = all_marked_edges_spec[OF cp_wfD(2)[OF wf], folded cp_edges_def]
  have "set ?pairs \<subseteq> {(0, 1), (1, 2)}"
  proof
    fix x assume "x \<in> set ?pairs"
    then obtain e where "e \<in> set (cp_edges undirected_chain)" "x = (me_a e, me_b e)" by auto
    then obtain a b k where "e = edge_of_marks a b k" "a < b" "cp_marks undirected_chain a b = Some k"
      using listed(1) by (auto simp: cp_marks_def)
    then have "x = (a, b)" "cp_marks undirected_chain a b \<noteq> None \<and> a < b"
      using \<open>x = _\<close> by (auto simp: edge_of_marks_def split: prod.splits)
    then show "x \<in> {(0, 1), (1, 2)}" unfolding marks by simp
  qed
  from card_mono[OF _ this] have "card (set ?pairs) \<le> 2" by simp
  then show "length (cp_edges undirected_chain) \<le> 2" using distinct_card[OF listed(2)] by simp
qed

text \<open>C9: when the limits leave room for the binary tree over the undirected edges (operations, depth and
  memory), nobody cancels and the cap is above the number of its leaves, the stream does not hit a bound and the
  edge sets it yields are exactly those of the class, each once.\<close>

theorem mec_stream_complete_with_room:
  assumes "cpdag_inv g" "cp_conflict_edge_count g = 0" "\<forall>i. \<not> ct_flag tok i"
    "card (cp_undirected g) \<le> sl_depth limits" "0 < sl_depth limits" "2 ^ Suc (card (cp_undirected g)) \<le> sl_operations limits"
    "sl_operations limits \<le> usize_max" "2 ^ card (cp_undirected g) < n"
    "2 ^ Suc (card (cp_undirected g)) * ((cp_node_count g + 2 * length (cp_edges g)) * edge_size) \<le> default_search_memory_bytes"
  shows "\<exists>s cs s'. cs_with_budget edge_size g n limits None tok = Inr s \<and> cs_drain (Suc n) s = Some (cs, s') \<and>
    \<not> cs_hit_cap s' \<and> distinct (map (\<lambda>c. dag_rel (cn_graph c)) cs) \<and>
    (\<lambda>c. dag_rel (cn_graph c)) ` set cs = {dag_rel d | d. dag_inv d \<and> cpdag_is_mec_member g d}"
  by (rule cs_stream_complete[OF assms(1) _ assms(3-9)])
    (use cp_no_conflict_count[OF cpdag_inv_wf[OF assms(1)]] assms(2) in simp)

theorem mec_stream_complete_with_room_witness:
  "\<exists>s cs s'. cs_new 24 undirected_chain 5 = Inr s \<and> cs_drain 6 s = Some (cs, s') \<and> \<not> cs_hit_cap s' \<and>
    (\<lambda>c. dag_rel (cn_graph c)) ` set cs = {dag_rel d | d. dag_inv d \<and> cpdag_is_mec_member undirected_chain d}"
proof -
  let ?limits = "\<lparr>sl_operations = default_completion_operations, sl_depth = usize_max\<rparr>"
  have "cp_conflict_edge_count undirected_chain = 0"
    using cp_no_conflict_count[OF cpdag_inv_wf[OF undirected_chain(1)]] undirected_chain_no_conflict by simp
  moreover have "2 ^ Suc (card (cp_undirected undirected_chain)) *
      ((cp_node_count undirected_chain + 2 * length (cp_edges undirected_chain)) * 24) \<le> default_search_memory_bytes"
    using chain_size(2) by (simp add: chain_size(1) undirected_chain(2) default_search_memory_bytes_def)
  ultimately have "\<exists>s cs s'. cs_with_budget 24 undirected_chain 5 ?limits None \<lparr>ct_flag = (\<lambda>_. False), ct_checks = 0\<rparr> = Inr s \<and>
      cs_drain (Suc 5) s = Some (cs, s') \<and> \<not> cs_hit_cap s' \<and> distinct (map (\<lambda>c. dag_rel (cn_graph c)) cs) \<and>
      (\<lambda>c. dag_rel (cn_graph c)) ` set cs = {dag_rel d | d. dag_inv d \<and> cpdag_is_mec_member undirected_chain d}"
    by (intro mec_stream_complete_with_room[OF undirected_chain(1)])
      (simp_all add: chain_size(1) usize_max_def default_completion_operations_def)
  then show ?thesis unfolding cs_new_def by (auto simp: eval_nat_numeral)
qed

text \<open>C35: one call of the orientation search over a temporal CPDAG returns whatever the bounds are: it yields a
  well-formed temporal CPDAG, or it stops; the invariant of every state on the stack is kept, the search
  tables do not change, and the operations of the whole stream never exceed the limit.\<close>

theorem temporal_mec_search_returns:
  assumes "mec_states_ok tcp_inv s" "mx_operations s \<le> sl_operations (mx_limits s)"
  shows "\<exists>r s'. mec_next_oriented tcp_mec s = Some (r, s') \<and> mec_states_ok tcp_inv s' \<and> mec_same_search s s' \<and>
    mx_operations s' \<le> sl_operations (mx_limits s') \<and>
    (case r of Some g \<Rightarrow> tcp_inv g \<and> mx_next_index s < mx_max_completions s
     | None \<Rightarrow> mec_hit_cap s' \<or> mec_pending tcp_mec s' = [])"
  using tcm.next_oriented_spec[OF assms] by (fastforce split: option.splits)

theorem temporal_mec_search_returns_witness:
  "\<exists>s r s'. mec_new tcp_mec 24 cp_empty 3 \<lparr>sl_operations = 5, sl_depth = 5\<rparr> None \<lparr>ct_flag = (\<lambda>_. False), ct_checks = 0\<rparr>
      ''conflict'' = Inr s \<and> mec_next_oriented tcp_mec s = Some (r, s') \<and> mx_operations s' \<le> 5"
proof -
  have empty: "tcp_inv cp_empty"
    by (simp add: tcp_inv_def cp_empty_wf marks_all_def) (simp add: cp_empty_def)
  have "cp_edges cp_empty = []" by (simp add: cp_edges_def cp_empty_def all_marked_edges_def)
  then obtain s where s: "mec_new tcp_mec 24 cp_empty 3 \<lparr>sl_operations = 5, sl_depth = 5\<rparr> None
      \<lparr>ct_flag = (\<lambda>_. False), ct_checks = 0\<rparr> ''conflict'' = Inr s" "mx_stack s = [(cp_empty, 0)]" "mx_operations s = 0"
      "mx_limits s = \<lparr>sl_operations = 5, sl_depth = 5\<rparr>"
    by (simp add: mec_new_def tcp_mec_def cpdag_mec_def cp_conflict_edge_count_def)
  have "mec_states_ok tcp_inv s" using s(2) empty by (simp add: mec_states_ok_def)
  from temporal_mec_search_returns[OF this] s show ?thesis by (fastforce simp: mec_same_search_def)
qed

section \<open>Temporal graphs\<close>

text \<open>C24: inserting an edge into a temporal DAG never panics and accepts exactly the edges between stored
  nodes that do not point to the past, are not a contemporaneous self edge, are new and close no cycle; a
  refused edge leaves the graph equal, and the error names the first failed check: a self-loop is a contemporaneous
  self edge at lag 0 and a cycle at a later lag.\<close>

theorem temporal_insert_directed_correct:
  assumes "tdag_inv g"
  shows "\<exists>r g'. tdag_insert_directed g s t = Some (r, g') \<and> tdag_inv g' \<and>
    (r = Inr () \<longleftrightarrow> s < tdag_node_count g \<and> t < tdag_node_count g \<and> tdag_lag g t \<le> tdag_lag g s \<and>
       \<not> (tdag_var g s = tdag_var g t \<and> tdag_lag g s = 0 \<and> tdag_lag g t = 0) \<and> (s, t) \<notin> tdag_rel g \<and>
       (t, s) \<notin> (tdag_rel g)\<^sup>*) \<and>
    (if r = Inr () then tdag_rel g' = insert (s, t) (tdag_rel g) \<and> tdag_nodes g' = tdag_nodes g
     else r = Inl (tdag_refusal g s t) \<and> tdag_eq g' g)"
  by (rule tdag_insert_directed_cases[OF assms, of s t])
    (use assms in \<open>auto simp: edge_respects_time_def\<close>)

theorem temporal_insert_directed_correct_witness:
  "\<exists>g. tdag_insert_directed two_lags 1 0 = Some (Inl (FutureToPast 1 0 0 1), g) \<and> tdag_eq g two_lags"
proof -
  have "tdag_refusal two_lags 1 0 = FutureToPast 1 0 0 1" by (simp add: tdag_refusal_def two_lags)
  with temporal_insert_directed_correct[OF two_lags(1), of 1 0] show ?thesis by (auto simp: two_lags)
qed

text \<open>In a temporal DAG nothing reaches its past: when the search says that one node reaches another, the
  second is not earlier; and the search answers for every pair.\<close>

theorem temporal_reach_respects_time:
  assumes "tdag_inv g"
  shows "\<exists>answer. tdag_reaches g u v = Some answer \<and> (answer \<longrightarrow> tdag_lag g v \<le> tdag_lag g u)"
  using tdag_reaches_spec[OF assms, of u v] tdag_path_lag[OF assms, of u v] by auto

theorem temporal_reach_respects_time_witness: "tdag_reaches two_lags 1 0 = Some False"
  using temporal_reach_respects_time[OF two_lags(1), of 1 0] by (auto simp: two_lags)

text \<open>The batch insertion of a temporal DAG (all checks first, then unchecked appends) answers and stores
  what inserting the edges one by one does, on every batch.\<close>

theorem temporal_batch_is_one_by_one:
  assumes "tdag_inv g"
  shows "\<exists>r g1 g2. tdag_insert_directed_edges g es = Some (r, g1) \<and>
    try_each (\<lambda>(src, tgt) g'. tdag_insert_directed g' src tgt) es g = Some (r, g2) \<and> tdag_eq g1 g2 \<and> tdag_inv g1"
  using tdag_insert_directed_edges_spec[OF assms, of es] by (simp add: tdag_insert_one_by_one_def)

theorem temporal_batch_is_one_by_one_witness:
  "\<exists>r g1 g2. tdag_insert_directed_edges two_lags [(0, 1), (1, 0)] = Some (r, g1) \<and>
    try_each (\<lambda>(src, tgt) g'. tdag_insert_directed g' src tgt) [(0, 1), (1, 0)] two_lags = Some (r, g2) \<and> tdag_eq g1 g2"
  using temporal_batch_is_one_by_one[OF two_lags(1), of "[(0, 1), (1, 0)]"] by blast

text \<open>C34: a temporal DAG turned into a temporal CPDAG and back has the same nodes and edges, and neither
  direction fails.\<close>

theorem temporal_cpdag_round_trip:
  assumes "tdag_inv d"
  shows "\<exists>g d'. tcp_from_temporal_dag d = Some g \<and> tcp_inv g \<and> tcp_try_into_temporal_dag g = Some (Inr d') \<and>
    tdag_inv d' \<and> tdag_nodes d' = tdag_nodes d \<and> tdag_rel d' = tdag_rel d"
proof -
  obtain g where g: "tcp_from_temporal_dag d = Some g" "tcp_inv g" "cp_all_directed g" "cp_nodes g = tdag_nodes d"
      "cp_rel g = tdag_rel d"
    using tcp_from_temporal_dag_spec[OF assms] by blast
  moreover have "\<forall>n \<in> set (cp_nodes g). is_Lagged n" using assms g(4) by (simp add: tdag_inv_defs)
  ultimately show ?thesis using tcp_try_into_temporal_dag_spec[OF g(2)] by auto
qed

theorem temporal_cpdag_round_trip_witness:
  "\<exists>g d'. tcp_from_temporal_dag two_lags = Some g \<and> tcp_try_into_temporal_dag g = Some (Inr d') \<and> tdag_rel d' = {}"
  using temporal_cpdag_round_trip[OF two_lags(1)] by (auto simp: two_lags)

text \<open>An edge offered to a temporal CPDAG is refused or inserted without a panic; afterwards every arrow
  still respects time and the marks changed at most at that pair.\<close>

theorem temporal_cpdag_insert_safe:
  assumes "tcp_inv g"
  shows "\<exists>r g'. tcp_insert_marked g e = Some (r, g') \<and> tcp_inv g' \<and>
    (\<forall>a b m. cp_marks g' a b = Some (Tail, Arrow, m) \<longrightarrow> in_time (cp_nodes g') a b) \<and>
    (if r = Inr () then cp_marks g' = set_pair (cp_marks g) (me_a e) (me_b e) (Some (me_at_a e, me_at_b e, me_middle e))
     else g' = g)"
proof -
  have timed: "\<forall>a b m. cp_marks h a b = Some (Tail, Arrow, m) \<longrightarrow> in_time (cp_nodes h) a b" if "tcp_inv h" for h
    using tcp_inv_wf(2)[OF that] unfolding marks_all_def pair_in_time_def by blast
  have "\<exists>r g'. tcp_insert_marked g e = Some (r, g') \<and> tcp_inv g' \<and>
      (if r = Inr () then cp_marks g' = set_pair (cp_marks g) (me_a e) (me_b e) (Some (me_at_a e, me_at_b e, me_middle e))
       else g' = g)"
    by (rule tcp_insert_marked_cases[OF assms, of e]) (use assms in auto)
  with timed show ?thesis by blast
qed

theorem temporal_cpdag_insert_safe_witness:
  "\<exists>g r g'. tcp_from_temporal_dag two_lags = Some g \<and> tcp_insert_marked g (me_directed 1 0) = Some (r, g') \<and>
    (\<forall>a b m. cp_marks g' a b = Some (Tail, Arrow, m) \<longrightarrow> in_time (cp_nodes g') a b)"
proof -
  obtain g where g: "tcp_from_temporal_dag two_lags = Some g" "tcp_inv g"
    using tcp_from_temporal_dag_spec[OF two_lags(1)] by blast
  from temporal_cpdag_insert_safe[OF g(2), of "me_directed 1 0"] g(1) show ?thesis by blast
qed

section \<open>The search budget\<close>

text \<open>C36: charging a budget either takes exactly one operation, with the operations, the depth and the memory
  within the limits, or takes none and names a bound that is really exceeded; the token is read once.\<close>

theorem search_budget_bounds:
  assumes "sb_operations b \<le> sl_operations (sb_limits b)" "sb_charge b tok depth bytes = (r, b', tok')"
  shows "sb_operations b' \<le> sl_operations (sb_limits b') \<and> sb_limits b' = sb_limits b \<and>
    ct_checks tok' = ct_checks tok + 1 \<and> sb_depth_reached b' = max (sb_depth_reached b) depth \<and>
    (case r of
       Inr _ \<Rightarrow> sb_operations b' = sb_operations b + 1 \<and> depth \<le> sl_depth (sb_limits b) \<and>
         bytes \<le> sb_memory_limit_bytes b \<and> \<not> ct_flag tok (ct_checks tok)
     | Inl stop \<Rightarrow> sb_operations b' = sb_operations b \<and>
         (case stop of
            StopCancelled \<Rightarrow> ct_flag tok (ct_checks tok)
          | StopMemory \<Rightarrow> sb_memory_limit_bytes b < bytes
          | StopOperations \<Rightarrow> sb_operations b = sl_operations (sb_limits b)
          | StopDepth \<Rightarrow> sl_depth (sb_limits b) < depth))"
  using assms by (auto simp: sb_charge_def is_cancelled_def Let_def split: if_splits)

theorem search_budget_bounds_witness:
  "\<exists>b' tok'. sb_charge \<lparr>sb_limits = \<lparr>sl_operations = 1, sl_depth = 4\<rparr>, sb_memory_limit_bytes = 64, sb_operations = 1,
      sb_depth_reached = 0, sb_entered = True\<rparr> \<lparr>ct_flag = (\<lambda>_. False), ct_checks = 0\<rparr> 2 16 =
    (Inl StopOperations, b', tok') \<and> sb_operations b' = 1 \<and> ct_checks tok' = 1"
proof -
  let ?b = "\<lparr>sb_limits = \<lparr>sl_operations = 1, sl_depth = 4\<rparr>, sb_memory_limit_bytes = 64, sb_operations = 1,
      sb_depth_reached = 0, sb_entered = True\<rparr>" and ?t = "\<lparr>ct_flag = (\<lambda>_. False), ct_checks = 0\<rparr>"
  obtain r b' t' where c: "sb_charge ?b ?t 2 16 = (r, b', t')" by (metis prod_cases3)
  have "r = Inl StopOperations" using c by (auto simp: sb_charge_def is_cancelled_def Let_def)
  with search_budget_bounds[OF _ c] c show ?thesis by auto
qed

end
