(* ===== verification/Causal_Model.thy ===== *)
theory Causal_Model
  imports Complex_Main "HOL-Library.FuncSet"
begin

text \<open>
  The probability the ID algorithm is about, over finite discrete domains. \<open>marg dm S f\<close> sums \<open>f\<close>
  over the values of the nodes in \<open>S\<close>. A semi-Markovian model gives every node a kernel that reads
  its parents and the latents affecting it, and two nodes share a latent only along a bidirected
  edge; \<open>q_factor M S\<close> is the distribution of \<open>S\<close> when everything else is held fixed by
  intervention (the \<open>Q[S]\<close> of Tian and Pearl).

  \<open>causal_factors\<close> states what identification uses of such a family: marginals over non-ancestral
  parts, products over parts without bidirected edges between them, positivity.
  \<open>semi_markovian_factors\<close> proves it for every semi-Markovian model.
\<close>

section \<open>Summing variables out\<close>

type_synonym 'v env = "nat \<Rightarrow> 'v"

definition marg :: "(nat \<Rightarrow> 'v set) \<Rightarrow> nat set \<Rightarrow> ('v env \<Rightarrow> real) \<Rightarrow> 'v env \<Rightarrow> real" where
  "marg dm S f \<sigma> = (\<Sum>\<tau> \<in> PiE S dm. f (override_on \<sigma> \<tau> S))"

definition valid_env :: "(nat \<Rightarrow> 'v set) \<Rightarrow> nat set \<Rightarrow> 'v env \<Rightarrow> bool" where
  "valid_env dm V \<sigma> \<longleftrightarrow> (\<forall>i \<in> V. \<sigma> i \<in> dm i)"

definition ignores :: "('v env \<Rightarrow> real) \<Rightarrow> nat set \<Rightarrow> bool" where
  "ignores f S \<longleftrightarrow> (\<forall>\<sigma> \<tau>. (\<forall>i. i \<notin> S \<longrightarrow> \<sigma> i = \<tau> i) \<longrightarrow> f \<sigma> = f \<tau>)"

lemma marg_empty [simp]: "marg dm {} f = f"
  by (simp add: marg_def fun_eq_iff)

lemma marg_insert:
  assumes "i \<notin> S"
  shows "marg dm (insert i S) f \<sigma> = (\<Sum>a \<in> dm i. marg dm S f (\<sigma>(i := a)))"
proof -
  have at: "override_on \<sigma> (\<tau>(i := a)) (insert i S) = override_on (\<sigma>(i := a)) \<tau> S" for a \<tau>
    using assms by (auto simp: override_on_def fun_eq_iff)
  have "marg dm (insert i S) f \<sigma> =
      (\<Sum>(a, \<tau>) \<in> dm i \<times> PiE S dm. f (override_on (\<sigma>(i := a)) \<tau> S))"
    unfolding marg_def PiE_insert_eq
    by (subst sum.reindex[OF inj_combinator[OF assms]]) (simp add: at case_prod_beta)
  also have "\<dots> = (\<Sum>a \<in> dm i. marg dm S f (\<sigma>(i := a)))"
    by (simp add: marg_def sum.cartesian_product)
  finally show ?thesis .
qed

lemma marg_single: "marg dm {i} f \<sigma> = (\<Sum>a \<in> dm i. f (\<sigma>(i := a)))"
  using marg_insert[of i "{}" dm f \<sigma>] by simp

lemma marg_union:
  assumes "finite S" "S \<inter> T = {}"
  shows "marg dm (S \<union> T) f = marg dm S (marg dm T f)"
  using assms
proof (induction S)
  case (insert i S)
  then have "i \<notin> S \<union> T" by blast
  with insert show ?case by (auto simp: marg_insert fun_eq_iff)
qed simp

lemma override_valid: "valid_env dm V \<sigma> \<Longrightarrow> \<tau> \<in> PiE S dm \<Longrightarrow> valid_env dm V (override_on \<sigma> \<tau> S)"
  by (auto simp: valid_env_def override_on_def PiE_def Pi_def)

lemma marg_cong:
  assumes "\<And>\<rho>. valid_env dm V \<rho> \<Longrightarrow> f \<rho> = g \<rho>" "valid_env dm V \<sigma>"
  shows "marg dm S f \<sigma> = marg dm S g \<sigma>"
  unfolding marg_def using override_valid[OF assms(2)] assms(1) by (auto intro: sum.cong)

lemma ignoresD: "ignores f S \<Longrightarrow> (\<And>i. i \<notin> S \<Longrightarrow> \<sigma> i = \<tau> i) \<Longrightarrow> f \<sigma> = f \<tau>"
  by (simp add: ignores_def)

lemma ignores_mono: "ignores f S \<Longrightarrow> T \<subseteq> S \<Longrightarrow> ignores f T"
  unfolding ignores_def by blast

lemma ignores_times: "ignores f S \<Longrightarrow> ignores g S \<Longrightarrow> ignores (\<lambda>\<sigma>. f \<sigma> * g \<sigma>) S"
  unfolding ignores_def by metis

lemma ignores_prod: "(\<And>i. i \<in> I \<Longrightarrow> ignores (f i) S) \<Longrightarrow> ignores (\<lambda>\<sigma>. \<Prod>i \<in> I. f i \<sigma>) S"
  unfolding ignores_def by (intro allI impI prod.cong refl) blast

lemma marg_times_left:
  assumes "ignores f S"
  shows "marg dm S (\<lambda>\<sigma>. f \<sigma> * g \<sigma>) \<sigma> = f \<sigma> * marg dm S g \<sigma>"
proof -
  have "f (override_on \<sigma> \<tau> S) = f \<sigma>" for \<tau> by (rule ignoresD[OF assms]) (simp add: override_on_def)
  then show ?thesis by (simp add: marg_def sum_distrib_left)
qed

lemma marg_ignores:
  assumes "ignores f T"
  shows "ignores (marg dm S f) (S \<union> T)"
  unfolding ignores_def
proof (intro allI impI)
  fix \<sigma> \<tau> :: "'a env" assume agree: "\<forall>i. i \<notin> S \<union> T \<longrightarrow> \<sigma> i = \<tau> i"
  have "f (override_on \<sigma> \<rho> S) = f (override_on \<tau> \<rho> S)" for \<rho>
    by (rule ignoresD[OF assms]) (use agree in \<open>auto simp: override_on_def\<close>)
  then show "marg dm S f \<sigma> = marg dm S f \<tau>" by (simp add: marg_def)
qed

lemma ignores_empty [simp]: "ignores f {}"
  by (simp add: ignores_def fun_eq_iff[symmetric])

text \<open>A product of two functions that read different variables sums to the product of the sums.\<close>

lemma marg_split:
  assumes "finite A" "finite B" "A \<inter> B = {}" "ignores f B" "ignores g A"
  shows "marg dm (A \<union> B) (\<lambda>\<sigma>. f \<sigma> * g \<sigma>) \<sigma> = marg dm A f \<sigma> * marg dm B g \<sigma>"
proof -
  have "ignores (marg dm B g) A" by (rule ignores_mono[OF marg_ignores[OF assms(5), of dm B]]) blast
  then have "marg dm A (\<lambda>\<sigma>. marg dm B g \<sigma> * f \<sigma>) \<sigma> = marg dm B g \<sigma> * marg dm A f \<sigma>"
    by (rule marg_times_left)
  moreover have "marg dm (A \<union> B) (\<lambda>\<sigma>. f \<sigma> * g \<sigma>) = marg dm A (\<lambda>\<sigma>. marg dm B g \<sigma> * f \<sigma>)"
    unfolding marg_union[OF assms(1,3)]
    by (intro arg_cong[where f = "marg dm A"] ext) (simp add: marg_times_left[OF assms(4)] mult.commute)
  ultimately show ?thesis by (simp add: mult.commute)
qed

lemma marg_product_one:
  assumes "finite S" "\<And>i. i \<in> S \<Longrightarrow> (\<Sum>a \<in> dm i. w i a) = (1 :: real)"
  shows "marg dm S (\<lambda>\<sigma>. \<Prod>i \<in> S. w i (\<sigma> i)) \<sigma> = 1"
  using assms
proof (induction S)
  case (insert i S)
  have "ignores (\<lambda>\<sigma>. w i (\<sigma> i)) S" using insert(2) by (auto simp: ignores_def)
  moreover have "ignores (\<lambda>\<sigma>. \<Prod>i \<in> S. w i (\<sigma> i)) {i}"
    using insert(2) by (auto simp: ignores_def intro!: prod.cong)
  ultimately have "marg dm ({i} \<union> S) (\<lambda>\<sigma>. w i (\<sigma> i) * (\<Prod>i \<in> S. w i (\<sigma> i))) \<sigma> =
      marg dm {i} (\<lambda>\<sigma>. w i (\<sigma> i)) \<sigma> * marg dm S (\<lambda>\<sigma>. \<Prod>i \<in> S. w i (\<sigma> i)) \<sigma>"
    by (intro marg_split) (use insert in auto)
  with insert show ?case by (simp add: marg_single)
qed simp

section \<open>Families of causal factors\<close>

definition ancestral_in :: "(nat \<times> nat) set \<Rightarrow> nat set \<Rightarrow> nat set \<Rightarrow> bool" where
  "ancestral_in D W S \<longleftrightarrow> W \<subseteq> S \<and> (\<forall>p u. (p, u) \<in> D \<longrightarrow> u \<in> W \<longrightarrow> p \<in> S \<longrightarrow> p \<in> W)"

definition unconfounded :: "(nat \<times> nat) set \<Rightarrow> nat set \<Rightarrow> nat set \<Rightarrow> bool" where
  "unconfounded B S T \<longleftrightarrow> S \<inter> T = {} \<and> (\<forall>s \<in> S. \<forall>t \<in> T. (s, t) \<notin> B)"

definition causal_factors ::
  "(nat \<times> nat) set \<Rightarrow> (nat \<times> nat) set \<Rightarrow> nat set \<Rightarrow> (nat \<Rightarrow> 'v set) \<Rightarrow> (nat set \<Rightarrow> 'v env \<Rightarrow> real) \<Rightarrow> bool" where
  "causal_factors D B V dm Q \<longleftrightarrow>
     (\<forall>\<sigma> \<tau>. (\<forall>i \<in> V. \<sigma> i = \<tau> i) \<longrightarrow> Q V \<sigma> = Q V \<tau>) \<and>
     (\<forall>\<sigma>. valid_env dm V \<sigma> \<longrightarrow>
        Q {} \<sigma> = 1 \<and> (\<forall>S \<subseteq> V. 0 < Q S \<sigma>) \<and>
        (\<forall>S \<subseteq> V. \<forall>W. ancestral_in D W S \<longrightarrow> marg dm (S - W) (Q S) \<sigma> = Q W \<sigma>) \<and>
        (\<forall>S T. S \<union> T \<subseteq> V \<longrightarrow> unconfounded B S T \<longrightarrow> Q (S \<union> T) \<sigma> = Q S \<sigma> * Q T \<sigma>))"

lemma causal_factorsD:
  assumes "causal_factors D B V dm Q" "valid_env dm V \<sigma>"
  shows "Q {} \<sigma> = 1" "S \<subseteq> V \<Longrightarrow> 0 < Q S \<sigma>"
    "S \<subseteq> V \<Longrightarrow> ancestral_in D W S \<Longrightarrow> marg dm (S - W) (Q S) \<sigma> = Q W \<sigma>"
    "S \<union> T \<subseteq> V \<Longrightarrow> unconfounded B S T \<Longrightarrow> Q (S \<union> T) \<sigma> = Q S \<sigma> * Q T \<sigma>"
  using assms by (simp_all add: causal_factors_def)

lemma ancestral_in_refl [simp]: "ancestral_in D S S"
  by (auto simp: ancestral_in_def)

lemma ancestral_in_trans: "ancestral_in D U W \<Longrightarrow> ancestral_in D W S \<Longrightarrow> ancestral_in D U S"
  unfolding ancestral_in_def by blast

lemma ancestral_in_mono: "ancestral_in D W S \<Longrightarrow> T \<subseteq> S \<Longrightarrow> ancestral_in D (W \<inter> T) T"
  unfolding ancestral_in_def by blast

text \<open>A partition into parts without bidirected edges between them.\<close>

lemma factors_product:
  assumes "causal_factors D B V dm Q" "valid_env dm V \<sigma>" "finite I" "\<And>i. i \<in> I \<Longrightarrow> S i \<subseteq> V"
    and "\<And>i j. i \<in> I \<Longrightarrow> j \<in> I \<Longrightarrow> i \<noteq> j \<Longrightarrow> unconfounded B (S i) (S j)"
  shows "Q (\<Union>i \<in> I. S i) \<sigma> = (\<Prod>i \<in> I. Q (S i) \<sigma>)"
  using assms(3-)
proof (induction I)
  case (insert i I)
  have "unconfounded B (S i) (S j)" if "j \<in> I" for j
    by (rule insert.prems(2)) (use that insert.hyps in auto)
  then have "unconfounded B (S i) (\<Union>j \<in> I. S j)" by (auto simp: unconfounded_def)
  moreover have "S i \<union> (\<Union>j \<in> I. S j) \<subseteq> V" using insert.prems(1) by blast
  ultimately have "Q (S i \<union> (\<Union>j \<in> I. S j)) \<sigma> = Q (S i) \<sigma> * Q (\<Union>j \<in> I. S j) \<sigma>"
    by (intro causal_factorsD(4)[OF assms(1,2)])
  also have "Q (\<Union>j \<in> I. S j) \<sigma> = (\<Prod>j \<in> I. Q (S j) \<sigma>)"
    by (rule insert.IH) (use insert.prems in auto)
  finally show ?case using insert.hyps by simp
qed (simp add: causal_factorsD(1)[OF assms(1,2)])

section \<open>Semi-Markovian models\<close>

text \<open>Latents and their values are numbered.\<close>

record 'v causal_model =
  cm_kernel :: "nat \<Rightarrow> 'v env \<Rightarrow> nat env \<Rightarrow> real"
  cm_latents :: "nat set"
  cm_affects :: "nat \<Rightarrow> nat set"
  cm_latent_dom :: "nat \<Rightarrow> nat set"
  cm_weight :: "nat \<Rightarrow> nat \<Rightarrow> real"

definition kernels_local :: "(nat \<times> nat) set \<Rightarrow> nat set \<Rightarrow> 'v causal_model \<Rightarrow> bool" where
  "kernels_local D V M \<longleftrightarrow>
     (\<forall>i \<in> V. \<forall>\<sigma> \<sigma>' u u'. (\<forall>j. j = i \<or> (j, i) \<in> D \<longrightarrow> \<sigma> j = \<sigma>' j) \<longrightarrow>
        (\<forall>l \<in> cm_latents M. i \<in> cm_affects M l \<longrightarrow> u l = u' l) \<longrightarrow>
        cm_kernel M i \<sigma> u = cm_kernel M i \<sigma>' u')"

definition semi_markovian ::
  "(nat \<times> nat) set \<Rightarrow> (nat \<times> nat) set \<Rightarrow> nat set \<Rightarrow> (nat \<Rightarrow> 'v set) \<Rightarrow> 'v causal_model \<Rightarrow> bool" where
  "semi_markovian D B V dm M \<longleftrightarrow>
     (\<forall>i \<in> V. finite (dm i)) \<and> finite (cm_latents M) \<and>
     (\<forall>l \<in> cm_latents M. finite (cm_latent_dom M l) \<and> (\<forall>u. 0 \<le> cm_weight M l u) \<and>
        (\<Sum>u \<in> cm_latent_dom M l. cm_weight M l u) = 1) \<and>
     (\<forall>l \<in> cm_latents M. \<forall>i \<in> cm_affects M l. \<forall>j \<in> cm_affects M l. i \<in> V \<longrightarrow> j \<in> V \<longrightarrow> i \<noteq> j \<longrightarrow> (i, j) \<in> B) \<and>
     (\<forall>i \<in> V. \<forall>\<sigma> u. 0 \<le> cm_kernel M i \<sigma> u \<and> (\<Sum>a \<in> dm i. cm_kernel M i (\<sigma>(i := a)) u) = 1) \<and>
     kernels_local D V M"

text \<open>The distribution of \<open>S\<close> under \<open>do\<close> of all other nodes: the truncated factorisation.\<close>

definition q_factor :: "'v causal_model \<Rightarrow> nat set \<Rightarrow> 'v env \<Rightarrow> real" where
  "q_factor M S \<sigma> =
     marg (cm_latent_dom M) (cm_latents M)
       (\<lambda>u. (\<Prod>l \<in> cm_latents M. cm_weight M l (u l)) * (\<Prod>i \<in> S. cm_kernel M i \<sigma> u)) (\<lambda>_. 0)"

text \<open>The observational law and the law of the outcomes under an intervention on \<open>X\<close>.\<close>

definition observational_law :: "'v causal_model \<Rightarrow> nat set \<Rightarrow> 'v env \<Rightarrow> real" where
  "observational_law M V = q_factor M V"

definition interventional_law ::
  "'v causal_model \<Rightarrow> (nat \<Rightarrow> 'v set) \<Rightarrow> nat set \<Rightarrow> nat set \<Rightarrow> nat set \<Rightarrow> 'v env \<Rightarrow> real" where
  "interventional_law M dm V X Y = marg dm (V - X - Y) (q_factor M (V - X))"

lemma semi_markovianD:
  assumes "semi_markovian D B V dm M"
  shows "i \<in> V \<Longrightarrow> finite (dm i)" "finite (cm_latents M)"
    "l \<in> cm_latents M \<Longrightarrow> 0 \<le> cm_weight M l x"
    "l \<in> cm_latents M \<Longrightarrow> (\<Sum>u \<in> cm_latent_dom M l. cm_weight M l u) = 1"
    "l \<in> cm_latents M \<Longrightarrow> i \<in> cm_affects M l \<Longrightarrow> j \<in> cm_affects M l \<Longrightarrow> i \<in> V \<Longrightarrow> j \<in> V \<Longrightarrow> i \<noteq> j \<Longrightarrow> (i, j) \<in> B"
    "i \<in> V \<Longrightarrow> 0 \<le> cm_kernel M i \<sigma> u" "i \<in> V \<Longrightarrow> (\<Sum>a \<in> dm i. cm_kernel M i (\<sigma>(i := a)) u) = 1"
  using assms by (simp_all add: semi_markovian_def)

lemma semi_markovian_local:
  assumes "semi_markovian D B V dm M" "i \<in> V" "\<And>j. j = i \<or> (j, i) \<in> D \<Longrightarrow> \<sigma> j = \<sigma>' j"
    and "\<And>l. l \<in> cm_latents M \<Longrightarrow> i \<in> cm_affects M l \<Longrightarrow> u l = u' l"
  shows "cm_kernel M i \<sigma> u = cm_kernel M i \<sigma>' u'"
proof -
  have "kernels_local D V M" using assms(1) by (simp add: semi_markovian_def)
  from this[unfolded kernels_local_def, rule_format, OF assms(2), of \<sigma> \<sigma>' u u'] show ?thesis
    using assms(3,4) by blast
qed

lemma kernel_le_one:
  assumes "semi_markovian D B V dm M" "i \<in> V" "\<sigma> i \<in> dm i"
  shows "cm_kernel M i \<sigma> u \<le> 1"
proof -
  have "cm_kernel M i (\<sigma>(i := \<sigma> i)) u \<le> (\<Sum>a \<in> dm i. cm_kernel M i (\<sigma>(i := a)) u)"
    by (rule member_le_sum) (use assms semi_markovianD[OF assms(1)] in auto)
  then show ?thesis using semi_markovianD(7)[OF assms(1,2)] by simp
qed

lemma marg_mono:
  "(\<And>\<rho>. f \<rho> \<le> g \<rho>) \<Longrightarrow> marg dm S f \<sigma> \<le> marg dm S g \<sigma>"
  by (simp add: marg_def sum_mono)

lemma q_factor_empty:
  assumes "semi_markovian D B V dm M"
  shows "q_factor M {} \<sigma> = 1"
  using marg_product_one[of "cm_latents M" "cm_weight M" "cm_latent_dom M"] semi_markovianD(2,4)[OF assms]
  by (simp add: q_factor_def)

lemma q_factor_antimono:
  assumes "semi_markovian D B V dm M" "valid_env dm V \<sigma>" "S \<subseteq> T" "T \<subseteq> V" "finite V"
  shows "q_factor M T \<sigma> \<le> q_factor M S \<sigma>"
proof -
  have fin: "finite T" using assms(4,5) by (rule finite_subset)
  have "(\<Prod>i \<in> T. cm_kernel M i \<sigma> u) \<le> (\<Prod>i \<in> S. cm_kernel M i \<sigma> u)" for u
  proof -
    have "(\<Prod>i \<in> T. cm_kernel M i \<sigma> u) = (\<Prod>i \<in> S. cm_kernel M i \<sigma> u) * (\<Prod>i \<in> T - S. cm_kernel M i \<sigma> u)"
      using prod.subset_diff[OF assms(3) fin] by (simp add: mult.commute)
    also have "\<dots> \<le> (\<Prod>i \<in> S. cm_kernel M i \<sigma> u) * 1"
    proof (rule mult_left_mono)
      show "(\<Prod>i \<in> T - S. cm_kernel M i \<sigma> u) \<le> 1"
        using assms kernel_le_one[OF assms(1)] semi_markovianD(6)[OF assms(1)]
        by (intro prod_le_1) (auto simp: valid_env_def)
      show "0 \<le> (\<Prod>i \<in> S. cm_kernel M i \<sigma> u)"
        using assms semi_markovianD(6)[OF assms(1)] by (intro prod_nonneg) auto
    qed
    finally show ?thesis by simp
  qed
  then show ?thesis unfolding q_factor_def
    by (intro marg_mono mult_left_mono prod_nonneg) (use semi_markovianD(3)[OF assms(1)] in auto)
qed

lemma marg_commute:
  "marg dm S (\<lambda>\<rho>. marg em T (f \<rho>) u) \<sigma> = marg em T (\<lambda>v. marg dm S (\<lambda>\<rho>. f \<rho> v) \<sigma>) u"
  unfolding marg_def by (rule sum.swap)

text \<open>A node without children sums to one.\<close>

lemma q_factor_childless:
  assumes sm: "semi_markovian D B V dm M" and S: "S \<subseteq> V" "finite S" "i \<in> S" "\<And>j. j \<in> S \<Longrightarrow> (i, j) \<notin> D"
  shows "marg dm {i} (q_factor M S) \<sigma> = q_factor M (S - {i}) \<sigma>"
proof -
  let ?L = "cm_latents M" and ?w = "\<lambda>u. \<Prod>l \<in> cm_latents M. cm_weight M l (u l)"
  let ?rest = "\<lambda>\<rho> u. \<Prod>j \<in> S - {i}. cm_kernel M j \<rho> u"
  have rest: "?rest (\<sigma>(i := a)) u = ?rest \<sigma> u" for a u
    by (rule prod.cong[OF refl], rule semi_markovian_local[OF sm]) (use S in auto)
  have "marg dm {i} (\<lambda>\<rho>. ?w u * (\<Prod>j \<in> S. cm_kernel M j \<rho> u)) \<sigma> = ?w u * ?rest \<sigma> u" for u
  proof -
    have "(\<Prod>j \<in> S. cm_kernel M j \<rho> u) = ?rest \<rho> u * cm_kernel M i \<rho> u" for \<rho>
      using prod.remove[OF S(2,3), of "\<lambda>j. cm_kernel M j \<rho> u"] by (simp add: mult.commute)
    then have "marg dm {i} (\<lambda>\<rho>. ?w u * (\<Prod>j \<in> S. cm_kernel M j \<rho> u)) \<sigma> =
        (\<Sum>a \<in> dm i. (?w u * ?rest \<sigma> u) * cm_kernel M i (\<sigma>(i := a)) u)"
      by (simp add: marg_single rest mult.assoc)
    also have "\<dots> = ?w u * ?rest \<sigma> u"
      using semi_markovianD(7)[OF sm] S(1,3) by (simp add: sum_distrib_left[symmetric] subset_iff)
    finally show ?thesis .
  qed
  then show ?thesis
    unfolding q_factor_def by (subst marg_commute) simp
qed

lemma q_factor_ancestral:
  assumes sm: "semi_markovian D B V dm M" and "acyclic D" "S \<subseteq> V" "finite V" "ancestral_in D W S"
  shows "marg dm (S - W) (q_factor M S) \<sigma> = q_factor M W \<sigma>"
proof -
  have "finite S" using assms(3,4) by (rule finite_subset)
  then show ?thesis using assms(3,5)
  proof (induction "card (S - W)" arbitrary: S \<sigma>)
    case 0
    then have "S = W" by (auto simp: ancestral_in_def)
    then show ?case by simp
  next
    case (Suc n)
    let ?R = "D \<inter> (S - W) \<times> (S - W)"
    have "finite ?R" using Suc.prems(1) by blast
    moreover have "acyclic ?R" using assms(2) by (rule acyclic_subset) blast
    ultimately have "wf (?R\<inverse>)" by (rule finite_acyclic_wf_converse)
    moreover obtain k where "k \<in> S - W" using Suc.hyps(2) by (metis card.empty ex_in_conv nat.distinct(1))
    ultimately obtain i where i: "i \<in> S - W" "\<And>j. (j, i) \<in> ?R\<inverse> \<Longrightarrow> j \<notin> S - W" by (rule wfE_min) blast
    have childless: "(i, j) \<notin> D" if "j \<in> S" for j
      using that i Suc.prems(3) by (cases "j \<in> W") (auto simp: ancestral_in_def)
    let ?S = "S - {i}"
    have W: "ancestral_in D W ?S" using Suc.prems(3) i(1) by (auto simp: ancestral_in_def)
    have split: "S - W = (?S - W) \<union> {i}" using i(1) by blast
    then have "card (S - W) = Suc (card (?S - W))" using Suc.prems(1) by simp
    then have card: "n = card (?S - W)" using Suc.hyps(2) by simp
    from split have "marg dm (S - W) (q_factor M S) \<sigma> = marg dm (?S - W) (marg dm {i} (q_factor M S)) \<sigma>"
      using marg_union[of "?S - W" "{i}" dm "q_factor M S"] Suc.prems(1) by simp
    also have "marg dm {i} (q_factor M S) = q_factor M ?S"
      using i(1) childless by (intro ext q_factor_childless[OF sm Suc.prems(2,1)]) auto
    also have "marg dm (?S - W) (q_factor M ?S) \<sigma> = q_factor M W \<sigma>"
      by (rule Suc.hyps(1)[OF card]) (use Suc.prems W in auto)
    finally show ?case .
  qed
qed

lemma q_factor_split:
  assumes sm: "semi_markovian D B V dm M" and "S \<union> T \<subseteq> V" "finite V" "unconfounded B S T"
  shows "q_factor M (S \<union> T) \<sigma> = q_factor M S \<sigma> * q_factor M T \<sigma>"
proof -
  let ?dom = "cm_latent_dom M"
  define A where "A = {l \<in> cm_latents M. cm_affects M l \<inter> S \<noteq> {}}"
  define C where "C = cm_latents M - A"
  let ?w = "\<lambda>L u. \<Prod>l \<in> L. cm_weight M l (u l)" and ?k = "\<lambda>S u. \<Prod>i \<in> S. cm_kernel M i \<sigma> u"
  have fin: "finite A" "finite C" "finite S" "finite T" and L: "cm_latents M = A \<union> C" "A \<inter> C = {}"
    using semi_markovianD(2)[OF sm] finite_subset[OF _ assms(3)] assms(2) by (auto simp: A_def C_def)
  have w: "?w (cm_latents M) u = ?w A u * ?w C u" for u
    unfolding L(1) by (rule prod.union_disjoint[OF fin(1,2) L(2)])
  have one: "marg ?dom A (?w A) u = 1" "marg ?dom C (?w C) u = 1" for u
    using semi_markovianD(4)[OF sm] fin by (auto simp: A_def C_def intro!: marg_product_one)
  have ign: "ignores (?w A) C" "ignores (?w C) A" using L(2) by (auto simp: ignores_def intro!: prod.cong)
  have "ignores (?k S) C"
    unfolding ignores_def
    by (intro allI impI prod.cong[OF refl] semi_markovian_local[OF sm]) (use assms(2) in \<open>auto simp: A_def C_def\<close>)
  moreover have "i \<notin> cm_affects M l" if i: "i \<in> T" and l: "l \<in> A" for i l
  proof
    assume "i \<in> cm_affects M l"
    moreover obtain s where "s \<in> S" "s \<in> cm_affects M l" "l \<in> cm_latents M" using l by (auto simp: A_def)
    ultimately show False
      using semi_markovianD(5)[OF sm, of l s i] i assms(2,4) by (auto simp: unconfounded_def)
  qed
  then have "ignores (?k T) A"
    unfolding ignores_def
    by (intro allI impI prod.cong[OF refl] semi_markovian_local[OF sm]) (use assms(2) in auto)
  ultimately have k: "ignores (\<lambda>u. ?w A u * ?k S u) C" "ignores (\<lambda>u. ?w C u * ?k T u) A"
    using ignores_times ign by blast+
  have "?w (cm_latents M) u * ?k (S \<union> T) u = (?w A u * ?k S u) * (?w C u * ?k T u)" for u
    using prod.union_disjoint[OF fin(3,4), of "\<lambda>i. cm_kernel M i \<sigma> u"] assms(4)
    by (simp add: w unconfounded_def mult_ac)
  then have "q_factor M (S \<union> T) \<sigma> =
      marg ?dom A (\<lambda>u. ?w A u * ?k S u) (\<lambda>_. 0) * marg ?dom C (\<lambda>u. ?w C u * ?k T u) (\<lambda>_. 0)"
    unfolding q_factor_def using marg_split[OF fin(1,2) L(2) k] by (simp add: L(1))
  moreover have "q_factor M S \<sigma> = marg ?dom A (\<lambda>u. ?w A u * ?k S u) (\<lambda>_. 0)"
    unfolding q_factor_def w using marg_split[OF fin(1,2) L(2) k(1) ign(2)] one(2)
    by (simp add: L(1) mult_ac)
  moreover have "q_factor M T \<sigma> = marg ?dom C (\<lambda>u. ?w C u * ?k T u) (\<lambda>_. 0)"
    unfolding q_factor_def w using marg_split[OF fin(1,2) L(2) ign(1) k(2)] one(1)
    by (simp add: L(1) mult_ac)
  ultimately show ?thesis by simp
qed

theorem semi_markovian_factors:
  assumes sm: "semi_markovian D B V dm M" and "acyclic D" "finite V" "D \<subseteq> V \<times> V"
    and pos: "\<And>\<sigma>. valid_env dm V \<sigma> \<Longrightarrow> 0 < observational_law M V \<sigma>"
  shows "causal_factors D B V dm (q_factor M)"
  unfolding causal_factors_def
proof (intro conjI allI impI)
  fix \<sigma> \<tau> :: "'a env" assume agree: "\<forall>i \<in> V. \<sigma> i = \<tau> i"
  have "cm_kernel M i \<sigma> u = cm_kernel M i \<tau> u" if "i \<in> V" for i u
    by (rule semi_markovian_local[OF sm that]) (use agree that assms(4) in auto)
  then show "q_factor M V \<sigma> = q_factor M V \<tau>" by (simp add: q_factor_def)
next
  fix \<sigma> :: "'a env" and S assume valid: "valid_env dm V \<sigma>" and S: "S \<subseteq> V"
  have "0 < q_factor M V \<sigma>" using pos[OF valid] by (simp add: observational_law_def)
  also have "\<dots> \<le> q_factor M S \<sigma>" by (rule q_factor_antimono[OF sm valid S order_refl assms(3)])
  finally show "0 < q_factor M S \<sigma>" .
qed (use q_factor_empty[OF sm] q_factor_ancestral[OF sm assms(2) _ assms(3)] q_factor_split[OF sm _ assms(3)] in auto)

end
