(* ===== verification/Tian_Factors.thy ===== *)
theory Tian_Factors
  imports Causal_Model Graph_Order
begin

text \<open>
  The telescope of Tian and Pearl: along a topological order, the factor of a district is the
  product of the conditionals of its nodes given all nodes before them, whether those conditionals
  are formed in the district or in the larger set it is a district of.
\<close>

definition before :: "nat list \<Rightarrow> nat \<Rightarrow> nat set" where
  "before t i = set (takeWhile (\<lambda>j. j \<noteq> i) t)"

definition cond_factor :: "(nat set \<Rightarrow> 'v env \<Rightarrow> real) \<Rightarrow> nat list \<Rightarrow> nat set \<Rightarrow> nat \<Rightarrow> 'v env \<Rightarrow> real" where
  "cond_factor Q t v i \<sigma> = Q (insert i (v \<inter> before t i)) \<sigma> / Q (v \<inter> before t i) \<sigma>"

lemma before_at: "i \<notin> set xs \<Longrightarrow> before (xs @ i # ys) i = set xs"
proof -
  assume "i \<notin> set xs"
  then have "\<And>j. j \<in> set xs \<Longrightarrow> j \<noteq> i" by blast
  then show ?thesis by (simp add: before_def takeWhile_append2)
qed

lemma before_Cons: "i \<notin> set is \<Longrightarrow> j \<in> set is \<Longrightarrow> before (i # is) j = insert i (before is j)"
  by (auto simp: before_def)

lemma split_at:
  assumes "i \<in> set t" "distinct t"
  obtains xs ys where "t = xs @ i # ys" "i \<notin> set xs" "before t i = set xs"
proof -
  obtain xs ys where t: "t = xs @ i # ys" "i \<notin> set xs" using split_list_first[OF assms(1)] by blast
  with before_at[of i xs ys] that show ?thesis by blast
qed

lemma before_subset: "before t i \<subseteq> set t"
  using set_takeWhileD by (force simp: before_def)

lemma not_before_self [simp]: "i \<notin> before t i"
  by (auto simp: before_def dest: set_takeWhileD)

text \<open>Everything before a node, and with the node itself, is ancestral.\<close>

lemma ancestral_prefix:
  assumes "parents_first D (xs @ ys)"
  shows "ancestral_in D (v \<inter> set xs) v"
proof -
  have "p \<in> set xs" if edge: "(p, u) \<in> D" and u: "u \<in> set xs" for p u
  proof -
    obtain as bs where "xs = as @ u # bs" using u by (meson split_list)
    with assms have "parents_first D (as @ u # (bs @ ys))" by simp
    from parents_first_before[OF this edge] \<open>xs = as @ u # bs\<close> show ?thesis by simp
  qed
  then show ?thesis unfolding ancestral_in_def by blast
qed

lemma ancestral_before:
  assumes "topological D V t" "i \<in> v" "v \<subseteq> V"
  shows "ancestral_in D (v \<inter> before t i) v" "ancestral_in D (insert i (v \<inter> before t i)) v"
proof -
  have t: "distinct t" "set t = V" "parents_first D t" using assms(1) by (simp_all add: topological_def)
  have "i \<in> set t" using assms(2,3) t(2) by blast
  then obtain xs ys where s: "t = xs @ i # ys" "i \<notin> set xs" "before t i = set xs" by (rule split_at[OF _ t(1)])
  show "ancestral_in D (v \<inter> before t i) v" unfolding s(3) using t(3) s(1) by (intro ancestral_prefix) simp
  have "ancestral_in D (v \<inter> set (xs @ [i])) v" using t(3) s(1) by (intro ancestral_prefix[of D _ ys]) simp
  moreover have "v \<inter> set (xs @ [i]) = insert i (v \<inter> before t i)" using assms(2) unfolding s(3) by auto
  ultimately show "ancestral_in D (insert i (v \<inter> before t i)) v" by simp
qed

theorem telescope:
  assumes cf: "causal_factors D B V dm Q" "valid_env dm V \<sigma>" and top: "topological D V t" and S: "S \<subseteq> V"
  shows "(\<Prod>i \<in> S. cond_factor Q t S i \<sigma>) = Q S \<sigma>"
proof -
  have t: "distinct t" "set t = V" using top by (auto simp: topological_def)
  have "(\<Prod>i \<in> S \<inter> set xs. cond_factor Q t S i \<sigma>) = Q (S \<inter> set xs) \<sigma>" if "t = xs @ ys" for xs ys
    using that
  proof (induction xs arbitrary: ys rule: rev_induct)
    case Nil
    then show ?case by (simp add: causal_factorsD(1)[OF cf])
  next
    case (snoc i xs)
    have IH: "(\<Prod>i \<in> S \<inter> set xs. cond_factor Q t S i \<sigma>) = Q (S \<inter> set xs) \<sigma>"
      by (rule snoc.IH[of "i # ys"]) (use snoc.prems in simp)
    show ?case
    proof (cases "i \<in> S")
      case True
      have i: "i \<notin> set xs" "before t i = set xs" using t(1) snoc.prems before_at[of i xs ys] by auto
      have "0 < Q (S \<inter> set xs) \<sigma>" using S by (intro causal_factorsD(2)[OF cf]) blast
      then show ?thesis using IH True i by (simp add: cond_factor_def Int_insert_right)
    qed (use IH in \<open>simp add: Int_insert_right\<close>)
  qed
  from this[of t "[]"] t(2) S show ?thesis by (simp add: Int_absorb2)
qed

lemma cond_factor_district:
  assumes cf: "causal_factors D B V dm Q" "valid_env dm V \<sigma>" and "S \<subseteq> v" "v \<subseteq> V" "unconfounded B S (v - S)"
    and "i \<in> S"
  shows "cond_factor Q t v i \<sigma> = cond_factor Q t S i \<sigma>"
proof -
  let ?b = "before t i"
  have split: "v \<inter> ?b = (S \<inter> ?b) \<union> ((v - S) \<inter> ?b)" using assms(3) by blast
  have un: "unconfounded B (insert i (S \<inter> ?b)) ((v - S) \<inter> ?b)" "unconfounded B (S \<inter> ?b) ((v - S) \<inter> ?b)"
    using assms(5,6) by (auto simp: unconfounded_def)
  have "Q (insert i (S \<inter> ?b) \<union> ((v - S) \<inter> ?b)) \<sigma> = Q (insert i (S \<inter> ?b)) \<sigma> * Q ((v - S) \<inter> ?b) \<sigma>"
    by (rule causal_factorsD(4)[OF cf _ un(1)]) (use assms in auto)
  moreover have "Q ((S \<inter> ?b) \<union> ((v - S) \<inter> ?b)) \<sigma> = Q (S \<inter> ?b) \<sigma> * Q ((v - S) \<inter> ?b) \<sigma>"
    by (rule causal_factorsD(4)[OF cf _ un(2)]) (use assms in auto)
  moreover have "0 < Q ((v - S) \<inter> ?b) \<sigma>" by (rule causal_factorsD(2)[OF cf]) (use assms in auto)
  ultimately show ?thesis unfolding cond_factor_def split by simp
qed

text \<open>The factor of a district of \<open>v\<close>, from the conditionals formed in \<open>v\<close>.\<close>

corollary telescope_district:
  assumes "causal_factors D B V dm Q" "valid_env dm V \<sigma>" "topological D V t" "S \<subseteq> v" "v \<subseteq> V"
    "unconfounded B S (v - S)"
  shows "(\<Prod>i \<in> S. cond_factor Q t v i \<sigma>) = Q S \<sigma>"
  using telescope[OF assms(1,2,3), of S] cond_factor_district[OF assms(1,2,4,5,6)] assms(4,5)
  by (simp cong: prod.cong)

text \<open>The conditional as a ratio of marginals of any set of which \<open>v\<close> is an ancestral part.\<close>

lemma cond_factor_ratio:
  assumes cf: "causal_factors D B V dm Q" "valid_env dm V \<sigma>" and top: "topological D V t"
    and "T \<subseteq> V" "ancestral_in D v T" "i \<in> v"
  shows "marg dm (T - insert i (v \<inter> before t i)) (Q T) \<sigma> / marg dm (T - (v \<inter> before t i)) (Q T) \<sigma> =
    cond_factor Q t v i \<sigma>"
proof -
  have v: "v \<subseteq> V" using assms(4,5) by (auto simp: ancestral_in_def)
  note anc = ancestral_in_trans[OF ancestral_before(1)[OF top assms(6) v] assms(5)]
    ancestral_in_trans[OF ancestral_before(2)[OF top assms(6) v] assms(5)]
  show ?thesis
    unfolding cond_factor_def causal_factorsD(3)[OF cf assms(4) anc(1)] causal_factorsD(3)[OF cf assms(4) anc(2)] ..
qed

end
