(* ===== verification/Run_Result.thy ===== *)
theory Run_Result
  imports Prelude
begin

text \<open>
  The result of a computation over the expression arena. Besides a value it can end in one of
  three ways a Rust caller would see as no value at all, and the development keeps them apart:
  \<^item> \<open>NoIds\<close>: a table of the arena holds \<open>2^32\<close> entries and \<open>u32::try_from(len).expect\<close> panics;
  \<^item> \<open>Abort\<close>: any other panic (an index out of range, an assertion, an \<open>expect\<close>);
  \<^item> \<open>Timeout\<close>: the fuel of a recursion whose termination is a theorem ran out.

  \<open>holds Q r\<close> says that \<open>r\<close> is a value with \<open>Q\<close> unless the id space is exhausted; it excludes
  every other panic and non-termination, and composes along \<open>run_bind\<close>.
\<close>

datatype 'a run = Done 'a | NoIds | Abort | Timeout

fun run_bind :: "'a run \<Rightarrow> ('a \<Rightarrow> 'b run) \<Rightarrow> 'b run" where
  "run_bind (Done a) f = f a"
| "run_bind NoIds f = NoIds"
| "run_bind Abort f = Abort"
| "run_bind Timeout f = Timeout"

fun of_option :: "'a option \<Rightarrow> 'a run" where
  "of_option None = Abort"
| "of_option (Some a) = Done a"

text \<open>\<open>xs[i]\<close>, which panics out of range.\<close>

definition at_index :: "'a list \<Rightarrow> nat \<Rightarrow> 'a run" where
  "at_index xs i = (if i < length xs then Done (xs ! i) else Abort)"

text \<open>\<open>?\<close> for a computation that returns a \<open>Result\<close> and changes a state.\<close>

definition try_bind ::
  "(('e + 'a) \<times> 's) run \<Rightarrow> ('a \<Rightarrow> 's \<Rightarrow> (('e + 'b) \<times> 's) run) \<Rightarrow> (('e + 'b) \<times> 's) run" where
  "try_bind m f = run_bind m (\<lambda>(r, s). case r of Inl e \<Rightarrow> Done (Inl e, s) | Inr a \<Rightarrow> f a s)"

text \<open>The values of a list of steps over a state, in order; the first error ends it.\<close>

fun try_map ::
  "('x \<Rightarrow> 's \<Rightarrow> (('e + 'a) \<times> 's) run) \<Rightarrow> 'x list \<Rightarrow> 's \<Rightarrow> (('e + 'a list) \<times> 's) run" where
  "try_map f [] s = Done (Inr [], s)"
| "try_map f (x # xs) s =
     try_bind (f x s) (\<lambda>y s1. try_bind (try_map f xs s1) (\<lambda>ys s2. Done (Inr (y # ys), s2)))"

fun run_map :: "('x \<Rightarrow> 's \<Rightarrow> ('a \<times> 's) run) \<Rightarrow> 'x list \<Rightarrow> 's \<Rightarrow> ('a list \<times> 's) run" where
  "run_map f [] s = Done ([], s)"
| "run_map f (x # xs) s =
     run_bind (f x s) (\<lambda>(y, s1). run_bind (run_map f xs s1) (\<lambda>(ys, s2). Done (y # ys, s2)))"

definition holds :: "('a \<Rightarrow> bool) \<Rightarrow> 'a run \<Rightarrow> bool" where
  "holds Q r = (case r of Done a \<Rightarrow> Q a | NoIds \<Rightarrow> True | Abort \<Rightarrow> False | Timeout \<Rightarrow> False)"

lemma holds_simps [simp]:
  "holds Q (Done a) = Q a" "holds Q NoIds" "\<not> holds Q Abort" "\<not> holds Q Timeout"
  by (simp_all add: holds_def)

lemma holds_bind [intro?]:
  "holds P m \<Longrightarrow> (\<And>a. m = Done a \<Longrightarrow> P a \<Longrightarrow> holds Q (f a)) \<Longrightarrow> holds Q (run_bind m f)"
  by (cases m) simp_all

lemma holds_mono: "holds P m \<Longrightarrow> (\<And>a. P a \<Longrightarrow> Q a) \<Longrightarrow> holds Q m"
  by (cases m) simp_all

lemma holds_conj: "holds P m \<Longrightarrow> holds Q m \<Longrightarrow> holds (\<lambda>a. P a \<and> Q a) m"
  by (cases m) simp_all

lemma holds_Done: "holds P m \<Longrightarrow> m = Done a \<Longrightarrow> P a"
  by simp

lemma run_bind_eq_Done [simp]: "run_bind m f = Done b \<longleftrightarrow> (\<exists>a. m = Done a \<and> f a = Done b)"
  by (cases m) simp_all

lemma run_bind_eq_Timeout:
  "run_bind m f = Timeout \<longleftrightarrow> m = Timeout \<or> (\<exists>a. m = Done a \<and> f a = Timeout)"
  by (cases m) simp_all

lemma run_bind_assoc: "run_bind (run_bind m f) g = run_bind m (\<lambda>a. run_bind (f a) g)"
  by (cases m) simp_all

lemma run_bind_Done [simp]: "run_bind m Done = m"
  by (cases m) simp_all

lemma holds_of_option: "m = Some a \<Longrightarrow> P a \<Longrightarrow> holds P (of_option m)"
  by simp

lemma holds_at_index [simp]: "holds P (at_index xs i) \<longleftrightarrow> i < length xs \<and> P (xs ! i)"
  by (simp add: at_index_def)

lemma at_index_Done [simp]: "i < length xs \<Longrightarrow> at_index xs i = Done (xs ! i)"
  by (simp add: at_index_def)

lemma try_bind_simps [simp]:
  "try_bind (Done (Inr a, s)) f = f a s" "try_bind (Done (Inl e, s)) f = Done (Inl e, s)"
  "try_bind NoIds f = NoIds" "try_bind Abort f = Abort" "try_bind Timeout f = Timeout"
  by (simp_all add: try_bind_def)

lemma holds_try_bind:
  "holds P m \<Longrightarrow> (\<And>e s. P (Inl e, s) \<Longrightarrow> Q (Inl e, s)) \<Longrightarrow>
    (\<And>a s. m = Done (Inr a, s) \<Longrightarrow> P (Inr a, s) \<Longrightarrow> holds Q (f a s)) \<Longrightarrow> holds Q (try_bind m f)"
  by (cases m) (auto simp: try_bind_def split: sum.splits)

lemma run_map_holds:
  assumes "I s" and "\<And>x s. x \<in> set xs \<Longrightarrow> I s \<Longrightarrow> holds (\<lambda>(y, s'). I s' \<and> le s s' \<and> P x y s') (f x s)"
    and refl: "\<And>s. le s s" and trans: "\<And>s t u. le s t \<Longrightarrow> le t u \<Longrightarrow> le s u"
    and keep: "\<And>x y s t. I s \<Longrightarrow> I t \<Longrightarrow> P x y s \<Longrightarrow> le s t \<Longrightarrow> P x y t"
  shows "holds (\<lambda>(ys, s'). I s' \<and> le s s' \<and> list_all2 (\<lambda>x y. P x y s') xs ys) (run_map f xs s)"
  using assms(1,2)
proof (induction xs arbitrary: s)
  case Nil
  then show ?case by (simp add: refl)
next
  case (Cons x xs)
  show ?case
    unfolding run_map.simps
  proof (rule holds_bind)
    show "holds (\<lambda>(y, s'). I s' \<and> le s s' \<and> P x y s') (f x s)" using Cons.prems by simp
    fix p assume "case p of (y, s') \<Rightarrow> I s' \<and> le s s' \<and> P x y s'"
    then obtain y s1 where p: "p = (y, s1)" "I s1" "le s s1" "P x y s1" by (cases p) auto
    show "holds (\<lambda>(ys, s'). I s' \<and> le s s' \<and> list_all2 (\<lambda>x y. P x y s') (x # xs) ys)
        (case p of (y, s1) \<Rightarrow> run_bind (run_map f xs s1) (\<lambda>(ys, s2). Done (y # ys, s2)))"
      unfolding p(1) prod.case
    proof (rule holds_bind)
      show "holds (\<lambda>(ys, s'). I s' \<and> le s1 s' \<and> list_all2 (\<lambda>x y. P x y s') xs ys) (run_map f xs s1)"
        by (rule Cons.IH) (use Cons.prems p in simp_all)
      fix q assume "case q of (ys, s') \<Rightarrow> I s' \<and> le s1 s' \<and> list_all2 (\<lambda>x y. P x y s') xs ys"
      with p show "holds (\<lambda>(ys, s'). I s' \<and> le s s' \<and> list_all2 (\<lambda>x y. P x y s') (x # xs) ys)
          (case q of (ys, s2) \<Rightarrow> Done (y # ys, s2))"
        by (cases q) (auto intro: trans keep)
    qed
  qed
qed

end
