(* ===== verification/Prepared_Admg.thy ===== *)
theory Prepared_Admg
  imports Admg_Queries Run_Result
begin

text \<open>
  \<open>antecedent-identify\<close>: the errors of \<open>error.rs\<close>, the assumption sets of
  \<open>antecedent-core/src/assumption.rs\<close>, and \<open>prepared.rs\<close>: an ADMG with its topological order and
  variable index, the queries the ID recursion asks of it and their memoised form.

  \<open>pa_inv\<close> is what preparation establishes. \<open>pa_named\<close> says that every node carries a variable of
  its own, which is what the recursion needs to write its functional down.
\<close>

section \<open>Errors\<close>

datatype identification_budget = BudgetSteps | BudgetMemory | BudgetBinding | BudgetBindingMemory | BudgetZTransport

fun budget_code :: "identification_budget \<Rightarrow> string" where
  "budget_code BudgetSteps = ''transport.identification_budget''"
| "budget_code BudgetMemory = ''transport.identification_memory_budget''"
| "budget_code BudgetBinding = ''transport.binding_budget''"
| "budget_code BudgetBindingMemory = ''transport.memory_budget''"
| "budget_code BudgetZTransport = ''z_transport.exhausted_computation''"

datatype identification_error =
    UnknownVariable variable_id
  | UnsupportedQuery string
  | SustainedPolicyUnsupported
  | NotCertified string
  | ResultLimitExceeded nat
  | InvalidQuery string
  | InvariantViolated string
  | GraphFailure graph_error
  | Cancelled
  | BudgetExhausted identification_budget
  | InvalidInput string
  | UnsupportedInput string
  | InvalidCatalog string
  | MissingEvidence string string
  | InvalidDerivation string
  | Message string

fun is_budget_or_cancel :: "identification_error \<Rightarrow> bool" where
  "is_budget_or_cancel Cancelled = True"
| "is_budget_or_cancel (BudgetExhausted _) = True"
| "is_budget_or_cancel _ = False"

text \<open>\<open>format!("\<dots>{}", n)\<close> for an unsigned number.\<close>

fun decimal :: "nat \<Rightarrow> string" where
  "decimal n = (if n < 10 then [char_of (48 + n)] else decimal (n div 10) @ [char_of (48 + n mod 10)])"

declare decimal.simps [simp del]

section \<open>Assumptions\<close>

datatype assumption =
    CausalMarkov
  | Faithfulness
  | CausalSufficiency
  | Consistency
  | Positivity
  | NoInterference
  | Stationarity
  | PiecewiseStationarity
  | NoSelectionBias
  | ExclusionRestriction variable_id
  | Monotonicity
  | ParametricRestriction string string
  | PriorRestriction string string
  | CustomAssumption string string

datatype assumption_source = UserDeclared | AlgorithmDefault string | Artifact | Derived string

datatype assumption_scope =
    ScopeGlobal
  | ScopeIdentification
  | ScopeEstimation
  | ScopeDiscovery
  | ScopeVariables "variable_id list"

datatype assumption_status = StatusDeclared | StatusSupported | StatusContradicted | StatusUntestable

record assumption_record =
  as_assumption :: assumption
  as_source :: assumption_source
  as_scope :: assumption_scope
  as_status :: assumption_status

type_synonym assumption_set = "assumption_record list"

definition assumptions_push :: "assumption_set \<Rightarrow> assumption_record \<Rightarrow> assumption_set" where
  "assumptions_push s r = s @ [r]"

definition causal_markov :: "string \<Rightarrow> assumption_record" where
  "causal_markov algorithm = \<lparr>as_assumption = CausalMarkov, as_source = AlgorithmDefault algorithm,
     as_scope = ScopeIdentification, as_status = StatusDeclared\<rparr>"

section \<open>The prepared graph\<close>

record prepared_admg =
  pa_admg :: admg
  pa_declared_assumptions :: assumption_set
  pa_var_index :: "variable_id \<Rightarrow> dense_id option"
  pa_topo :: "dense_id list"

definition node_variable_id :: "node_ref list \<Rightarrow> nat \<Rightarrow> variable_id option" where
  "node_variable_id nodes dense =
     (if dense < length nodes
      then (case nodes ! dense of
              Static v \<Rightarrow> Some v
            | Unfolded _ _ \<Rightarrow> (if dense < id_space then Some dense else None)
            | Lagged _ _ \<Rightarrow> None
            | Context _ _ \<Rightarrow> None)
      else None)"

definition dense_of_static :: "node_ref list \<Rightarrow> variable_id \<Rightarrow> identification_error + dense_id" where
  "dense_of_static nodes v =
     (case find (\<lambda>i. node_variable_id nodes i = Some v) [0..<length nodes] of
        None \<Rightarrow> Inl (UnknownVariable v)
      | Some i \<Rightarrow> Inr i)"

text \<open>The loop filling the index; the first node of a variable wins.\<close>

fun index_variables ::
  "node_ref list \<Rightarrow> nat list \<Rightarrow> (variable_id \<Rightarrow> dense_id option) \<Rightarrow> (variable_id \<Rightarrow> dense_id option)" where
  "index_variables nodes [] ix = ix"
| "index_variables nodes (i # is) ix =
     index_variables nodes is
       (case node_variable_id nodes i of
          None \<Rightarrow> ix
        | Some v \<Rightarrow> (case ix v of None \<Rightarrow> ix(v \<mapsto> i) | Some _ \<Rightarrow> ix))"

definition pa_with_assumptions ::
  "admg \<Rightarrow> assumption_set \<Rightarrow> (identification_error + prepared_admg) run" where
  "pa_with_assumptions a asms =
     run_bind (of_option (admg_validate a)) (\<lambda>r. case r of
        Inl e \<Rightarrow> Done (Inl (GraphFailure e))
      | Inr _ \<Rightarrow>
          run_bind (of_option (admg_topological_order a)) (\<lambda>order. case order of
             None \<Rightarrow> Done (Inl (Message ''ADMG topological order incomplete (cycle?)''))
           | Some topo \<Rightarrow>
               (if admg_node_count a \<le> id_space
                then Done (Inr \<lparr>pa_admg = a, pa_declared_assumptions = asms,
                  pa_var_index = index_variables (admg_nodes a) [0..<admg_node_count a] (\<lambda>_. None),
                  pa_topo = topo\<rparr>)
                else Abort)))"

definition pa_new :: "admg \<Rightarrow> (identification_error + prepared_admg) run" where
  "pa_new a = pa_with_assumptions a []"

definition pa_from_dag_with_assumptions ::
  "dag \<Rightarrow> assumption_set \<Rightarrow> (identification_error + prepared_admg) run" where
  "pa_from_dag_with_assumptions d asms =
     run_bind (of_option (admg_from_dag d)) (\<lambda>r. case r of
        Inl e \<Rightarrow> Done (Inl (GraphFailure e))
      | Inr a \<Rightarrow> pa_with_assumptions a asms)"

definition pa_from_dag :: "dag \<Rightarrow> (identification_error + prepared_admg) run" where
  "pa_from_dag d = pa_from_dag_with_assumptions d []"

definition pa_var_to_dense :: "prepared_admg \<Rightarrow> variable_id \<Rightarrow> identification_error + dense_id" where
  "pa_var_to_dense pa v = (case pa_var_index pa v of None \<Rightarrow> Inl (UnknownVariable v) | Some i \<Rightarrow> Inr i)"

definition pa_dense_to_var :: "prepared_admg \<Rightarrow> dense_id \<Rightarrow> identification_error + variable_id" where
  "pa_dense_to_var pa i =
     (case node_variable_id (admg_nodes (pa_admg pa)) i of
        None \<Rightarrow> Inl (Message (''unknown dense node '' @ decimal i))
      | Some v \<Rightarrow> Inr v)"

text \<open>\<open>iter().map(dense_to_var).collect::<Result<_, _>>()\<close>\<close>

fun pa_dense_to_vars :: "prepared_admg \<Rightarrow> dense_id list \<Rightarrow> identification_error + variable_id list" where
  "pa_dense_to_vars pa [] = Inr []"
| "pa_dense_to_vars pa (i # is) =
     rbind (pa_dense_to_var pa i) (\<lambda>v. rbind (pa_dense_to_vars pa is) (\<lambda>vs. Inr (v # vs)))"

text \<open>The memo of ancestral closures of one run.\<close>

type_synonym ancestor_memo = "((bitset \<times> bitset) \<times> bitset) list"

definition pa_ancestors_within ::
  "prepared_admg \<Rightarrow> bitset \<Rightarrow> bitset \<Rightarrow> graph_workspace \<Rightarrow> (bitset \<times> graph_workspace) run" where
  "pa_ancestors_within pa seeds active ws =
     (if bs_len seeds \<noteq> bs_len active then Abort
      else run_bind (of_option (bs_intersect_with seeds active)) (\<lambda>key.
        of_option (admg_ancestors_within (pa_admg pa) key active None ws)))"

definition pa_ancestors_cached ::
  "prepared_admg \<Rightarrow> bitset \<Rightarrow> bitset \<Rightarrow> graph_workspace \<Rightarrow> ancestor_memo \<Rightarrow>
    (bitset \<times> graph_workspace \<times> ancestor_memo) run" where
  "pa_ancestors_cached pa seeds active ws memo =
     (if bs_len seeds \<noteq> bs_len active then Abort
      else run_bind (of_option (bs_intersect_with seeds active)) (\<lambda>key.
        case map_of memo (key, active) of
          Some cached \<Rightarrow> Done (cached, ws, memo)
        | None \<Rightarrow>
            run_bind (of_option (admg_ancestors_within (pa_admg pa) key active None ws)) (\<lambda>(out, ws').
              Done (out, ws', ((key, active), out) # memo))))"

definition pa_ancestors_bar_x ::
  "prepared_admg \<Rightarrow> bitset \<Rightarrow> bitset \<Rightarrow> bitset \<Rightarrow> graph_workspace \<Rightarrow> (bitset \<times> graph_workspace) run" where
  "pa_ancestors_bar_x pa seeds active intervene ws =
     of_option (admg_ancestors_within (pa_admg pa) seeds active (Some intervene) ws)"

definition pa_c_components :: "prepared_admg \<Rightarrow> bitset \<Rightarrow> bitset list run" where
  "pa_c_components pa nodes = of_option (admg_district_components_within (pa_admg pa) nodes)"

definition pa_is_single_c_component :: "prepared_admg \<Rightarrow> bitset \<Rightarrow> bool run" where
  "pa_is_single_c_component pa nodes =
     (if \<not> bs_any nodes then Done True
      else run_bind (pa_c_components pa nodes) (\<lambda>comps.
        Done (length comps = 1 \<and> bs_equal_set (comps ! 0) nodes)))"

section \<open>The invariant\<close>

definition pa_count :: "prepared_admg \<Rightarrow> nat" where
  "pa_count pa = admg_node_count (pa_admg pa)"

definition pa_inv :: "prepared_admg \<Rightarrow> bool" where
  "pa_inv pa \<longleftrightarrow> admg_inv (pa_admg pa) \<and> pa_count pa \<le> u32_max \<and>
     topological (admg_rel (pa_admg pa)) {..<pa_count pa} (pa_topo pa) \<and>
     (\<forall>v. pa_var_index pa v = find (\<lambda>i. node_variable_id (admg_nodes (pa_admg pa)) i = Some v) [0..<pa_count pa])"

definition pa_named :: "prepared_admg \<Rightarrow> bool" where
  "pa_named pa \<longleftrightarrow> (\<forall>i < pa_count pa. \<exists>v. pa_dense_to_var pa i = Inr v \<and> pa_var_to_dense pa v = Inr i)"

lemma pa_invD:
  assumes "pa_inv pa"
  shows "admg_inv (pa_admg pa)" "pa_count pa \<le> u32_max" "admg_node_count (pa_admg pa) = pa_count pa"
    "topological (admg_rel (pa_admg pa)) {..<pa_count pa} (pa_topo pa)"
    "distinct (pa_topo pa)" "set (pa_topo pa) = {..<pa_count pa}"
  using assms by (simp_all add: pa_inv_def pa_count_def topological_def)

lemma index_variables_spec:
  "index_variables nodes is ix v =
     (case ix v of Some i \<Rightarrow> Some i | None \<Rightarrow> find (\<lambda>i. node_variable_id nodes i = Some v) is)"
  by (induction "is" arbitrary: ix) (auto split: option.splits)

lemma pa_with_assumptions_spec:
  assumes "admg_inv a" "admg_node_count a \<le> u32_max"
  shows "\<exists>pa. pa_with_assumptions a asms = Done (Inr pa) \<and> pa_inv pa \<and> pa_admg pa = a \<and>
    pa_declared_assumptions pa = asms"
proof -
  obtain order where o: "admg_topological_order a = Some (Some order)"
      "topological (admg_rel a) {..<admg_node_count a} order"
    using admg_topological_order_spec[OF assms(1)] by blast
  have "admg_validate a = Some (Inr ())" by (rule admg_validate_ok) (use assms in \<open>simp add: wf_simps\<close>)
  moreover have "admg_node_count a \<le> id_space" using assms(2) by (simp add: u32_max_def id_space_def)
  ultimately show ?thesis
    using o assms
    by (simp add: pa_with_assumptions_def pa_inv_def pa_count_def index_variables_spec)
qed

lemma pa_dense_to_var_iff:
  "pa_dense_to_var pa i = Inr v \<longleftrightarrow> node_variable_id (admg_nodes (pa_admg pa)) i = Some v"
  by (simp add: pa_dense_to_var_def split: option.splits)

lemma find_upt_Some:
  "find P [0..<n] = Some i \<longleftrightarrow> i < n \<and> P i \<and> (\<forall>j < i. \<not> P j)"
  unfolding find_Some_iff by (auto intro!: exI[of _ i])

lemma pa_var_to_dense_spec:
  assumes "pa_inv pa"
  shows "pa_var_to_dense pa v = Inr i \<longleftrightarrow> i < pa_count pa \<and> pa_dense_to_var pa i = Inr v \<and>
    (\<forall>j < i. pa_dense_to_var pa j \<noteq> Inr v)"
proof -
  have "pa_var_to_dense pa v = Inr i \<longleftrightarrow> pa_var_index pa v = Some i"
    by (simp add: pa_var_to_dense_def split: option.splits)
  also have "\<dots> \<longleftrightarrow> find (\<lambda>i. node_variable_id (admg_nodes (pa_admg pa)) i = Some v) [0..<pa_count pa] = Some i"
    using assms by (simp add: pa_inv_def)
  finally show ?thesis unfolding find_upt_Some pa_dense_to_var_iff .
qed

lemma pa_named_iff:
  assumes "pa_inv pa"
  shows "pa_named pa \<longleftrightarrow> (\<exists>f. inj_on f {..<pa_count pa} \<and> (\<forall>i < pa_count pa. pa_dense_to_var pa i = Inr (f i)))"
proof
  assume named: "pa_named pa"
  define f where "f i = projr (pa_dense_to_var pa i)" for i
  have at: "pa_dense_to_var pa i = Inr (f i) \<and> pa_var_to_dense pa (f i) = Inr i" if i: "i < pa_count pa" for i
  proof -
    obtain v where "pa_dense_to_var pa i = Inr v" "pa_var_to_dense pa v = Inr i"
      using named i unfolding pa_named_def by blast
    then show ?thesis by (simp add: f_def)
  qed
  have "inj_on f {..<pa_count pa}"
  proof (rule inj_onI)
    fix i j assume ij: "i \<in> {..<pa_count pa}" "j \<in> {..<pa_count pa}" "f i = f j"
    from ij(1) have "pa_var_to_dense pa (f i) = Inr i" by (intro conjunct2[OF at]) simp
    moreover from ij(2) have "pa_var_to_dense pa (f j) = Inr j" by (intro conjunct2[OF at]) simp
    ultimately show "i = j" using ij(3) by (metis sum.inject(2))
  qed
  then show "\<exists>f. inj_on f {..<pa_count pa} \<and> (\<forall>i < pa_count pa. pa_dense_to_var pa i = Inr (f i))"
  proof (intro exI[of _ f] conjI allI impI)
    fix i assume "i < pa_count pa"
    then show "pa_dense_to_var pa i = Inr (f i)" by (rule conjunct1[OF at])
  qed
next
  assume "\<exists>f. inj_on f {..<pa_count pa} \<and> (\<forall>i < pa_count pa. pa_dense_to_var pa i = Inr (f i))"
  then obtain f where f: "inj_on f {..<pa_count pa}" "\<And>i. i < pa_count pa \<Longrightarrow> pa_dense_to_var pa i = Inr (f i)" by blast
  have "pa_var_to_dense pa (f i) = Inr i" if "i < pa_count pa" for i
    unfolding pa_var_to_dense_spec[OF assms] using that f by (auto simp: inj_on_def)
  with f show "pa_named pa" unfolding pa_named_def by blast
qed

text \<open>The variable of a node.\<close>

definition pa_var :: "prepared_admg \<Rightarrow> dense_id \<Rightarrow> variable_id" where
  "pa_var pa i = projr (pa_dense_to_var pa i)"

lemma pa_namedD:
  assumes "pa_named pa" "i < pa_count pa"
  shows "pa_dense_to_var pa i = Inr (pa_var pa i)" "pa_var_to_dense pa (pa_var pa i) = Inr i"
  using assms by (force simp: pa_named_def pa_var_def)+

lemma pa_var_inj: "pa_named pa \<Longrightarrow> i < pa_count pa \<Longrightarrow> j < pa_count pa \<Longrightarrow> pa_var pa i = pa_var pa j \<longleftrightarrow> i = j"
  by (metis pa_namedD(2) sum.inject(2))

lemma pa_dense_to_vars_spec:
  assumes "pa_named pa" "\<forall>i \<in> set is. i < pa_count pa"
  shows "pa_dense_to_vars pa is = Inr (map (pa_var pa) is)"
  using assms(2) by (induction "is") (simp_all add: pa_namedD[OF assms(1)])

section \<open>The queries\<close>

text \<open>Node sets of the recursion: bit sets over the nodes of the graph.\<close>

definition nodes_in :: "nat \<Rightarrow> bitset \<Rightarrow> bool" where
  "nodes_in n b \<longleftrightarrow> bs_inv b \<and> bs_len b = n"

lemma nodes_inD: "nodes_in n b \<Longrightarrow> bs_inv b" "nodes_in n b \<Longrightarrow> bs_len b = n"
  "nodes_in n b \<Longrightarrow> i \<in> bs_members b \<Longrightarrow> i < n"
  using bs_members_below by (auto simp: nodes_in_def)

lemma nodes_in_members: "nodes_in n b \<Longrightarrow> bs_members b \<subseteq> {..<n}"
  using nodes_inD(3) by blast

lemma nodes_in_iter:
  assumes "nodes_in n b" "n \<le> u32_max"
  shows "bs_iter b = Some (bs_ids b)" "bs_to_dense_ids b = Some (bs_ids b)"
  using bs_iter[OF nodes_inD(1)[OF assms(1)] nodes_in_members[OF assms(1)]] assms(2)
  by (simp_all add: u32_max_def id_space_def)

lemma nodes_in_ids: "nodes_in n b \<Longrightarrow> set (bs_ids b) = bs_members b"
  using bs_ids(1) nodes_inD(1) by blast

lemma nodes_in_eq: "nodes_in n b \<Longrightarrow> nodes_in n c \<Longrightarrow> b = c \<longleftrightarrow> bs_members b = bs_members c"
  using bs_extensional[of b c] by (auto simp: nodes_in_def)

lemma nodes_in_empty [simp]: "nodes_in n (bs_with_len n)" "bs_members (bs_with_len n) = {}"
  by (simp_all add: nodes_in_def bs_simps)

lemma nodes_in_full [simp]: "nodes_in n (bs_full n)" "bs_members (bs_full n) = {..<n}"
  by (simp_all add: nodes_in_def bs_simps)

lemma nodes_in_ops:
  assumes "nodes_in n b" "nodes_in n c"
  shows "holds (\<lambda>r. nodes_in n r \<and> bs_members r = bs_members b \<union> bs_members c) (of_option (bs_union_with b c))"
    and "holds (\<lambda>r. nodes_in n r \<and> bs_members r = bs_members b \<inter> bs_members c) (of_option (bs_intersect_with b c))"
    and "holds (\<lambda>r. nodes_in n r \<and> bs_members r = bs_members b - bs_members c) (of_option (bs_difference_with b c))"
  using bs_union_with[of b c] bs_intersect_with[of b c] bs_difference_with[of b c] assms
  by (auto simp: nodes_in_def)

lemma nodes_in_subset:
  "nodes_in n b \<Longrightarrow> nodes_in n c \<Longrightarrow> bs_is_subset_of b c = Some (bs_members b \<subseteq> bs_members c)"
  by (simp add: nodes_in_def bs_simps)

text \<open>Ancestors of \<open>S\<close> by directed edges leaving \<open>T\<close> and not entering \<open>X\<close>.\<close>

definition up :: "admg \<Rightarrow> nat set \<Rightarrow> nat set \<Rightarrow> (nat \<times> nat) set" where
  "up a T X = {(p, u) \<in> admg_rel a. u \<notin> X \<and> p \<in> T}"

definition anc :: "admg \<Rightarrow> nat set \<Rightarrow> nat set \<Rightarrow> nat set \<Rightarrow> nat set" where
  "anc a S T X = {p. \<exists>s \<in> S. (p, s) \<in> (up a T X)\<^sup>*}"

lemma anc_seeds: "S \<subseteq> anc a S T X"
  by (auto simp: anc_def)

lemma anc_within: "anc a S T X \<subseteq> S \<union> T"
  by (auto simp: anc_def up_def elim: converse_rtranclE)

lemma anc_step: "(p, u) \<in> admg_rel a \<Longrightarrow> u \<in> anc a S T X \<Longrightarrow> u \<notin> X \<Longrightarrow> p \<in> T \<Longrightarrow> p \<in> anc a S T X"
  unfolding anc_def up_def by (blast intro: converse_rtrancl_into_rtrancl)

lemma up_mono: "T \<subseteq> T' \<Longrightarrow> X' \<subseteq> X \<Longrightarrow> up a T X \<subseteq> up a T' X'"
  by (auto simp: up_def)

lemma anc_mono: "S \<subseteq> S' \<Longrightarrow> T \<subseteq> T' \<Longrightarrow> X' \<subseteq> X \<Longrightarrow> anc a S T X \<subseteq> anc a S' T' X'"
  using rtrancl_mono[OF up_mono[of T T' X' X a]] by (auto simp: anc_def)

lemma anc_trans: "p \<in> anc a S T X \<Longrightarrow> S \<subseteq> anc a R T X \<Longrightarrow> p \<in> anc a R T X"
  unfolding anc_def by (blast intro: rtrancl_trans)

lemma anc_induct [consumes 1, case_names seed step]:
  assumes "p \<in> anc a S T X" and "\<And>s. s \<in> S \<Longrightarrow> P s"
    and "\<And>p u. (p, u) \<in> admg_rel a \<Longrightarrow> u \<notin> X \<Longrightarrow> p \<in> T \<Longrightarrow> u \<in> anc a S T X \<Longrightarrow> P u \<Longrightarrow> P p"
  shows "P p"
proof -
  obtain s where s: "s \<in> S" "(p, s) \<in> (up a T X)\<^sup>*" using assms(1) by (auto simp: anc_def)
  from s(2) show ?thesis
  proof (induction rule: converse_rtrancl_induct)
    case base
    with s(1) assms(2) show ?case by blast
  next
    case (step y z)
    moreover have "z \<in> anc a S T X" using step(2) s(1) by (auto simp: anc_def)
    ultimately show ?case using assms(3)[of y z] by (simp add: up_def)
  qed
qed

lemma admg_ancestors_within_anc:
  assumes "admg_inv a" "admg_node_count a = n" "n \<le> u32_max" "nodes_in n seeds" "nodes_in n active" "ws_inv ws"
    and "bs_members seeds \<subseteq> bs_members active"
  shows "holds (\<lambda>(out, ws'). nodes_in n out \<and> ws_inv ws' \<and>
    bs_members out = anc a (bs_members seeds) (bs_members active) (in_set_opt bar_x))
    (of_option (admg_ancestors_within a seeds active bar_x ws))"
proof -
  have "n \<le> id_space" using assms(3) by (simp add: u32_max_def id_space_def)
  then have ids: "bs_members seeds \<subseteq> {..<id_space}" using nodes_in_members[OF assms(4)] by auto
  obtain out ws' where o: "admg_ancestors_within a seeds active bar_x ws = Some (out, ws')" "bs_inv out"
      "ws_inv ws'" "bs_members out = {p. \<exists>s \<in> bs_members seeds \<inter> bs_members active.
        (p, s) \<in> {(p, u) \<in> admg_rel a. u \<notin> in_set_opt bar_x \<and> p \<in> bs_members active}\<^sup>*}"
    using admg_ancestors_within_spec[OF assms(1) nodes_inD(1)[OF assms(4)] assms(6), of active bar_x]
      nodes_inD(2)[OF assms(5)] assms(2) ids by auto
  have "\<And>u w. u < n \<Longrightarrow> w \<in> set (admg_parents a u) \<Longrightarrow> w < n"
    using admg_rel_bound[OF assms(1)] in_admg_parents[OF assms(1)] assms(2) by blast
  then have "bs_len out = n"
    using o(1) closure_into_spec[OF bs_with_len(1)[of n] assms(6), of n "admg_parents a"
      "\<lambda>u p. \<not> in_opt bar_x u \<and> bs_contains active p" "filter (bs_contains active) (bs_ids seeds)"] assms(2)
    unfolding admg_within_eq(2)[OF nodes_inD(1)[OF assms(4)] ids] by auto
  with o show ?thesis using assms(7) by (simp add: nodes_in_def anc_def up_def Int_absorb2)
qed

section \<open>Districts\<close>

definition connected :: "admg \<Rightarrow> nat set \<Rightarrow> bool" where
  "connected a S \<longleftrightarrow> (\<forall>u \<in> S. \<forall>v \<in> S. (u, v) \<in> (district_rel a S)\<^sup>*)"

definition district_of :: "admg \<Rightarrow> nat set \<Rightarrow> nat \<Rightarrow> nat set" where
  "district_of a S s = (district_rel a S)\<^sup>* `` {s}"

lemma district_rel_mono: "S \<subseteq> T \<Longrightarrow> district_rel a S \<subseteq> district_rel a T"
  by (auto simp: district_rel_def)

lemma district_of_self [simp]: "s \<in> district_of a S s"
  by (simp add: district_of_def)

lemma district_of_within: "s \<in> S \<Longrightarrow> district_of a S s \<subseteq> S"
  by (auto simp: district_of_def district_rel_def elim: rtranclE)

lemma district_of_closed: "u \<in> district_of a S s \<Longrightarrow> (u, v) \<in> admg_bi a \<Longrightarrow> u \<in> S \<Longrightarrow> v \<in> S \<Longrightarrow> v \<in> district_of a S s"
  unfolding district_of_def district_rel_def by (auto intro: rtrancl_into_rtrancl)

lemma district_of_connected:
  assumes "admg_inv a" "s \<in> S"
  shows "connected a (district_of a S s)"
proof -
  let ?D = "district_of a S s" and ?R = "district_rel a (district_of a S s)"
  have from_s: "(s, v) \<in> ?R\<^sup>*" if "v \<in> ?D" for v
  proof -
    from that have "(s, v) \<in> (district_rel a S)\<^sup>*" by (simp add: district_of_def)
    then show ?thesis
    proof (induction rule: rtrancl_induct)
      case (step y z)
      then have "y \<in> ?D" "z \<in> ?D" by (auto simp: district_of_def)
      with step show ?case by (auto simp: district_rel_def intro: rtrancl_into_rtrancl)
    qed simp
  qed
  have "sym (?R\<^sup>*)" by (rule sym_rtrancl[OF sym_district_rel[OF assms(1)]])
  then show ?thesis unfolding connected_def using from_s by (meson rtrancl_trans symD)
qed

lemma connected_district:
  assumes "connected a T" "T \<subseteq> S" "s \<in> T"
  shows "T \<subseteq> district_of a S s"
  using assms rtrancl_mono[OF district_rel_mono[OF assms(2), of a]] by (auto simp: connected_def district_of_def)

lemma district_of_eq:
  assumes "admg_inv a" "t \<in> district_of a S s"
  shows "district_of a S t = district_of a S s"
proof -
  have "sym ((district_rel a S)\<^sup>*)" by (rule sym_rtrancl[OF sym_district_rel[OF assms(1)]])
  then show ?thesis using assms(2) unfolding district_of_def by (auto intro: rtrancl_trans dest: symD)
qed

lemma connected_iff_district:
  assumes "admg_inv a" "s \<in> S"
  shows "connected a S \<longleftrightarrow> district_of a S s = S"
  using district_of_connected[OF assms] connected_district[of a S S s] district_of_within[OF assms(2), of a] assms(2)
  by auto

text \<open>The list of components: every district once.\<close>

definition districts_list :: "admg \<Rightarrow> nat \<Rightarrow> nat set \<Rightarrow> bitset list \<Rightarrow> bool" where
  "districts_list a n S comps \<longleftrightarrow> (\<forall>c \<in> set comps. nodes_in n c) \<and> distinct (map bs_members comps) \<and>
     bs_members ` set comps = district_of a S ` S"

lemma least_in_class:
  assumes "sym R" "s \<in> (S :: nat set)" "R `` S \<subseteq> S"
  obtains m where "m \<in> S" "(m, s) \<in> R\<^sup>*" "\<And>t. t < m \<Longrightarrow> (t, m) \<notin> R\<^sup>*"
proof -
  let ?m = "LEAST m. (m, s) \<in> R\<^sup>*"
  have m: "(?m, s) \<in> R\<^sup>*" by (rule LeastI[of _ s]) simp
  then have "(s, ?m) \<in> R\<^sup>*" using sym_rtrancl[OF assms(1)] by (meson symD)
  then have "?m \<in> S" using assms(2,3) by (induction rule: rtrancl_induct) auto
  moreover have "(t, ?m) \<notin> R\<^sup>*" if "t < ?m" for t
    using not_less_Least[OF that] m by (meson rtrancl_trans)
  ultimately show thesis using m that by blast
qed

lemma pa_c_components_spec:
  assumes "pa_inv pa" "nodes_in (pa_count pa) nodes"
  shows "holds (districts_list (pa_admg pa) (pa_count pa) (bs_members nodes)) (pa_c_components pa nodes)"
proof -
  let ?a = "pa_admg pa" and ?S = "bs_members nodes" and ?n = "pa_count pa"
  let ?R = "district_rel ?a ?S"
  note inv = pa_invD[OF assms(1)]
  obtain comps where c: "admg_district_components_within ?a nodes = Some comps"
      "\<forall>c \<in> set comps. bs_inv c \<and> bs_len c = ?n"
      "map bs_members comps = map (district_of ?a ?S)
        (filter (\<lambda>s. s \<in> ?S \<and> (\<forall>t < s. (t, s) \<notin> ?R\<^sup>*)) [0..<?n])"
    using admg_district_components_within_spec[OF inv(1), of nodes] inv(2,3) nodes_inD(1)[OF assms(2)]
      nodes_in_members[OF assms(2)] unfolding district_of_def by auto
  let ?ms = "filter (\<lambda>s. s \<in> ?S \<and> (\<forall>t < s. (t, s) \<notin> ?R\<^sup>*)) [0..<?n]"
  have sym: "sym ?R" by (rule sym_district_rel[OF inv(1)])
  have "inj_on (district_of ?a ?S) (set ?ms)"
  proof (rule inj_onI)
    fix x y assume xy: "x \<in> set ?ms" "y \<in> set ?ms" "district_of ?a ?S x = district_of ?a ?S y"
    then have "x \<in> district_of ?a ?S y" by (metis district_of_self)
    then have "(y, x) \<in> ?R\<^sup>*" "(x, y) \<in> ?R\<^sup>*"
      using sym_rtrancl[OF sym] by (auto simp: district_of_def dest: symD)
    with xy(1,2) show "x = y" by (cases x y rule: linorder_cases) auto
  qed
  then have "distinct (map bs_members comps)" unfolding c(3) by (simp add: distinct_map)
  moreover have "bs_members ` set comps = district_of ?a ?S ` ?S"
  proof -
    have "bs_members ` set comps = district_of ?a ?S ` set ?ms"
      using arg_cong[OF c(3), of set] by simp
    also have "\<dots> = district_of ?a ?S ` ?S"
    proof (rule set_eqI, rule iffI)
      fix D assume "D \<in> district_of ?a ?S ` ?S"
      then obtain s where s: "s \<in> ?S" "D = district_of ?a ?S s" by blast
      have "?R `` ?S \<subseteq> ?S" by (auto simp: district_rel_def)
      then obtain m where m: "m \<in> ?S" "(m, s) \<in> ?R\<^sup>*" "\<And>t. t < m \<Longrightarrow> (t, m) \<notin> ?R\<^sup>*"
        using least_in_class[OF sym s(1)] by blast
      then have "m \<in> set ?ms" using nodes_inD(3)[OF assms(2)] by simp
      moreover have "D = district_of ?a ?S m"
        using district_of_eq[OF inv(1), of s ?S m] m(2) s(2) by (simp add: district_of_def)
      ultimately show "D \<in> district_of ?a ?S ` set ?ms" by blast
    qed auto
    finally show ?thesis .
  qed
  ultimately show ?thesis
    using c(1,2) by (simp add: pa_c_components_def districts_list_def nodes_in_def)
qed

lemma districts_listD:
  assumes "districts_list a n S comps" "admg_inv a" "c \<in> set comps"
  shows "nodes_in n c" "bs_members c \<subseteq> S" "bs_members c \<noteq> {}" "connected a (bs_members c)"
    and "u \<in> bs_members c \<Longrightarrow> v \<in> S \<Longrightarrow> (u, v) \<in> admg_bi a \<Longrightarrow> v \<in> bs_members c"
proof -
  show "nodes_in n c" using assms by (simp add: districts_list_def)
  have "bs_members c \<in> district_of a S ` S"
    using assms(1,3) by (metis districts_list_def imageI)
  then obtain s where s: "s \<in> S" "bs_members c = district_of a S s" by blast
  show sub: "bs_members c \<subseteq> S" using district_of_within s by simp
  show "bs_members c \<noteq> {}" using s(2) district_of_self by (metis empty_iff)
  show "connected a (bs_members c)" using district_of_connected[OF assms(2) s(1)] s(2) by simp
  show "v \<in> bs_members c" if "u \<in> bs_members c" "v \<in> S" "(u, v) \<in> admg_bi a"
    using district_of_closed[of u a S s v] that s(2) sub by auto
qed

lemma districts_list_cover:
  "districts_list a n S comps \<Longrightarrow> s \<in> S \<Longrightarrow> \<exists>c \<in> set comps. bs_members c = district_of a S s"
  unfolding districts_list_def by (metis image_iff)

lemma districts_list_empty: "districts_list a n S comps \<Longrightarrow> comps = [] \<longleftrightarrow> S = {}"
  unfolding districts_list_def by (metis image_is_empty set_empty)

lemma districts_list_single:
  assumes "districts_list a n S comps" "admg_inv a" "S \<noteq> {}"
  shows "length comps = 1 \<longleftrightarrow> connected a S" "length comps = 1 \<Longrightarrow> bs_members (comps ! 0) = S"
proof -
  obtain s where s: "s \<in> S" using assms(3) by blast
  have card: "length comps = card (district_of a S ` S)"
    using assms(1) distinct_card[of "map bs_members comps"] by (simp add: districts_list_def)
  show "length comps = 1 \<longleftrightarrow> connected a S"
  proof
    assume "connected a S"
    then have "\<forall>t \<in> S. district_of a S t = S" using connected_iff_district[OF assms(2)] by blast
    then have "district_of a S ` S = {S}" using s by (auto simp: image_def)
    then show "length comps = 1" using card by simp
  next
    assume "length comps = 1"
    then obtain D where "district_of a S ` S = {D}" using card by (metis One_nat_def card_1_singletonE)
    then have "district_of a S t = district_of a S s" if "t \<in> S" for t using that s by (metis image_eqI singletonD)
    then have "S \<subseteq> district_of a S s" using district_of_self by blast
    then show "connected a S"
      using connected_iff_district[OF assms(2) s] district_of_within[OF s, of a] by blast
  qed
  then show "bs_members (comps ! 0) = S" if "length comps = 1"
  proof -
    obtain c where "c \<in> set comps" "bs_members c = district_of a S s" using districts_list_cover[OF assms(1) s] by blast
    moreover have "comps = [comps ! 0]" using that by (metis One_nat_def length_0_conv length_Suc_conv nth_Cons_0)
    ultimately show ?thesis
      using \<open>length comps = 1 \<longleftrightarrow> connected a S\<close> that connected_iff_district[OF assms(2) s] by (metis empty_iff list.set(1) set_ConsD)
  qed
qed

lemma pa_is_single_c_component_spec:
  assumes "pa_inv pa" "nodes_in (pa_count pa) nodes"
  shows "pa_is_single_c_component pa nodes = Done (connected (pa_admg pa) (bs_members nodes)) \<or>
    pa_is_single_c_component pa nodes = NoIds"
proof (cases "bs_members nodes = {}")
  case True
  then show ?thesis
    using bs_any_members[OF nodes_inD(1)[OF assms(2)]] by (simp add: pa_is_single_c_component_def connected_def)
next
  case False
  then have any: "bs_any nodes" using bs_any_members[OF nodes_inD(1)[OF assms(2)]] by simp
  have "pa_c_components pa nodes \<noteq> NoIds"
    by (cases "admg_district_components_within (pa_admg pa) nodes") (simp_all add: pa_c_components_def)
  with pa_c_components_spec[OF assms] obtain comps where c: "pa_c_components pa nodes = Done comps"
      "districts_list (pa_admg pa) (pa_count pa) (bs_members nodes) comps"
    by (cases "pa_c_components pa nodes") auto
  note single = districts_list_single[OF c(2) pa_invD(1)[OF assms(1)] False]
  have "bs_equal_set (comps ! 0) nodes" if one: "length comps = 1"
  proof -
    have "nodes_in (pa_count pa) (comps ! 0)" using c(2) one by (simp add: districts_list_def)
    then show ?thesis using nodes_in_eq[OF _ assms(2)] single(2)[OF one] by (simp add: bs_equal_set_eq)
  qed
  then show ?thesis using any c(1) single(1) by (auto simp: pa_is_single_c_component_def)
qed

end
