(* ===== verification/Hedge_Criterion.thy ===== *)
theory Hedge_Criterion
  imports Prepared_Admg
begin

text \<open>
  The graph theory behind hedges. \<open>hedge\<close> is the definition of the literature (a pair of
  \<open>R\<close>-rooted C-forests, the smaller a subgraph of the larger); \<open>hedge_sets\<close> is the condition on
  node sets that \<open>HedgeCertificate::verify\<close> tests, and the two agree. \<open>id_inv\<close> is the invariant of
  the ID recursion over \<open>(y, x, v)\<close>: it is preserved by lines 2, 3, 4 and 7, and when line 5
  applies it makes \<open>(v, v - x)\<close> a hedge for the original query.
\<close>

section \<open>C-forests\<close>

text \<open>
  A C-forest on the nodes \<open>N\<close>: directed edges \<open>D\<close> of which every node starts at most one, and
  bidirected edges \<open>B\<close> that connect all of \<open>N\<close>. Its roots are the nodes without a child.
\<close>

definition c_forest :: "nat set \<Rightarrow> (nat \<times> nat) set \<Rightarrow> (nat \<times> nat) set \<Rightarrow> nat set \<Rightarrow> bool" where
  "c_forest N D B R \<longleftrightarrow> D \<subseteq> N \<times> N \<and> single_valued D \<and> B \<subseteq> N \<times> N \<and>
     (\<forall>u \<in> N. \<forall>v \<in> N. (u, v) \<in> B\<^sup>*) \<and> R = N - Domain D"

definition hedge :: "admg \<Rightarrow> nat set \<Rightarrow> nat set \<Rightarrow> nat set \<Rightarrow> nat set \<Rightarrow> nat set \<Rightarrow> bool" where
  "hedge a V X Y F F' \<longleftrightarrow> (\<exists>D B D' B' R.
     D \<subseteq> admg_rel a \<and> B \<subseteq> admg_bi a \<and> D' \<subseteq> D \<and> B' \<subseteq> B \<and> F' \<subseteq> F \<and>
     c_forest F D B R \<and> c_forest F' D' B' R \<and> F \<inter> X \<noteq> {} \<and> F' \<inter> X = {} \<and> R \<subseteq> anc a Y V X)"

definition hedge_sets :: "admg \<Rightarrow> nat set \<Rightarrow> nat set \<Rightarrow> nat set \<Rightarrow> nat set \<Rightarrow> nat set \<Rightarrow> bool" where
  "hedge_sets a V X Y F F' \<longleftrightarrow>
     F' \<noteq> {} \<and> F' \<subseteq> F \<and> F \<inter> X \<noteq> {} \<and> F' \<inter> X = {} \<and> connected a F \<and> connected a F' \<and>
     (let R = anc a Y V X \<inter> F'
      in R \<noteq> {} \<and> F \<subseteq> anc a R F {} \<and> F' \<subseteq> anc a R F' {})"

lemma acyclic_forest_roots:
  assumes "finite D" "acyclic D" "D \<subseteq> N \<times> N" "u \<in> N"
  shows "\<exists>r \<in> N - Domain D. (u, r) \<in> D\<^sup>*"
proof -
  have "wf (D\<inverse>)" using finite_acyclic_wf[of "D\<inverse>"] assms(1,2) by simp
  then show ?thesis using assms(4)
  proof (induction u rule: wf_induct_rule)
    case (less u)
    show ?case
    proof (cases "u \<in> Domain D")
      case True
      then obtain w where w: "(u, w) \<in> D" by blast
      then obtain r where "r \<in> N - Domain D" "(w, r) \<in> D\<^sup>*" using less.IH[of w] assms(3) by blast
      with w show ?thesis by (blast intro: converse_rtrancl_into_rtrancl)
    qed (use less.prems in blast)
  qed
qed

lemma finite_admg_rel: "admg_inv a \<Longrightarrow> finite (admg_rel a)"
  by (rule finite_subset[of _ "{..<admg_node_count a} \<times> {..<admg_node_count a}"])
    (auto dest: admg_rel_bound)

lemma acyclic_admg_rel: "admg_inv a \<Longrightarrow> acyclic (admg_rel a)"
  by (simp add: admg_inv_def dc_inv_def admg_rel_def)

lemma forest_reaches_roots:
  assumes "admg_inv a" "D \<subseteq> admg_rel a" "c_forest N D B R" "R \<subseteq> Q"
  shows "N \<subseteq> anc a Q N {}"
proof
  fix u assume "u \<in> N"
  have "finite D" using finite_admg_rel[OF assms(1)] assms(2) by (rule rev_finite_subset)
  moreover have "acyclic D" using acyclic_admg_rel[OF assms(1)] assms(2) by (rule acyclic_subset)
  moreover have D: "D \<subseteq> N \<times> N" "R = N - Domain D" using assms(3) by (simp_all add: c_forest_def)
  ultimately obtain r where r: "r \<in> R" "(u, r) \<in> D\<^sup>*" using acyclic_forest_roots[of D N u] \<open>u \<in> N\<close> by blast
  have "D \<subseteq> up a N {}" using assms(2) D(1) by (auto simp: up_def)
  then have "(u, r) \<in> (up a N {})\<^sup>*" using r(2) rtrancl_mono by blast
  with r(1) assms(4) show "u \<in> anc a Q N {}" by (auto simp: anc_def)
qed

lemma forest_connected:
  assumes "B \<subseteq> admg_bi a" "c_forest N D B R"
  shows "connected a N"
proof -
  have "B \<subseteq> district_rel a N" using assms by (auto simp: c_forest_def district_rel_def)
  then have "B\<^sup>* \<subseteq> (district_rel a N)\<^sup>*" by (rule rtrancl_mono)
  with assms(2) show ?thesis by (auto simp: c_forest_def connected_def)
qed

text \<open>Every node that reaches the roots inside \<open>N\<close> can be given one outgoing edge inside \<open>N\<close>.\<close>

lemma child_choice:
  assumes "N \<subseteq> anc a R N {}" "R \<subseteq> N"
  shows "\<exists>f. \<forall>u \<in> N - R. (u, f u) \<in> admg_rel a \<and> f u \<in> N"
proof -
  have "\<exists>w. (u, w) \<in> admg_rel a \<and> w \<in> N" if u: "u \<in> N - R" for u
  proof -
    have "u \<in> anc a R N {}" using u assms(1) by blast
    then obtain r where r: "r \<in> R" "(u, r) \<in> (up a N {})\<^sup>*" by (auto simp: anc_def)
    moreover have "u \<noteq> r" using r(1) u by blast
    ultimately obtain w where w: "(u, w) \<in> up a N {}" "(w, r) \<in> (up a N {})\<^sup>*"
      by (meson converse_rtranclE)
    then have "w \<in> anc a R N {}" using r(1) by (auto simp: anc_def)
    then have "w \<in> N" using anc_within[of a R N "{}"] assms(2) by blast
    with w(1) show ?thesis by (auto simp: up_def)
  qed
  then show ?thesis by metis
qed

lemma domain_of_choice: "Domain {(u, h u) | u. u \<in> S} = S"
  by force

lemma choice_forest:
  assumes "\<And>u. u \<in> N - R \<Longrightarrow> h u \<in> N" "connected a N" "R \<subseteq> N"
  shows "c_forest N {(u, h u) | u. u \<in> N - R} (district_rel a N) R"
proof -
  have "N - (N - R) = R" using assms(3) by blast
  moreover have "{(u, h u) | u. u \<in> N - R} \<subseteq> N \<times> N" using assms(1) by blast
  moreover have "single_valued {(u, h u) | u. u \<in> N - R}" by (auto simp: single_valued_def)
  moreover have "district_rel a N \<subseteq> N \<times> N" by (auto simp: district_rel_def)
  ultimately show ?thesis using assms(2) unfolding c_forest_def domain_of_choice connected_def by blast
qed

theorem hedge_iff_sets:
  assumes "admg_inv a"
  shows "hedge a V X Y F F' \<longleftrightarrow> hedge_sets a V X Y F F'"
proof
  assume "hedge a V X Y F F'"
  then obtain D B D' B' R where h: "D \<subseteq> admg_rel a" "B \<subseteq> admg_bi a" "D' \<subseteq> D" "B' \<subseteq> B" "F' \<subseteq> F"
      "c_forest F D B R" "c_forest F' D' B' R" "F \<inter> X \<noteq> {}" "F' \<inter> X = {}" "R \<subseteq> anc a Y V X"
    unfolding hedge_def by blast
  let ?Q = "anc a Y V X \<inter> F'"
  have "R \<subseteq> ?Q" using h(7,10) by (auto simp: c_forest_def)
  then have reach: "F \<subseteq> anc a ?Q F {}" "F' \<subseteq> anc a ?Q F' {}"
    using forest_reaches_roots[OF assms h(1,6)] forest_reaches_roots[OF assms subset_trans[OF h(3,1)] h(7)] by simp_all
  have "F \<noteq> {}" using h(8) by blast
  with reach(1) have "?Q \<noteq> {}" by (auto simp: anc_def)
  moreover from this have "F' \<noteq> {}" by blast
  moreover have "connected a F" "connected a F'"
    using forest_connected[OF h(2,6)] forest_connected[OF subset_trans[OF h(4,2)] h(7)] by simp_all
  ultimately show "hedge_sets a V X Y F F'" using h(5,8,9) reach by (simp add: hedge_sets_def)
next
  assume "hedge_sets a V X Y F F'"
  then obtain R where R: "R = anc a Y V X \<inter> F'" and h: "F' \<subseteq> F" "F \<inter> X \<noteq> {}" "F' \<inter> X = {}"
      "connected a F" "connected a F'" "F \<subseteq> anc a R F {}" "F' \<subseteq> anc a R F' {}"
    unfolding hedge_sets_def by (auto simp: Let_def)
  have sub: "R \<subseteq> F'" using R by blast
  obtain f where f: "\<And>u. u \<in> F' - R \<Longrightarrow> (u, f u) \<in> admg_rel a \<and> f u \<in> F'"
    using child_choice[OF h(7) sub] by blast
  obtain g where g: "\<And>u. u \<in> F - R \<Longrightarrow> (u, g u) \<in> admg_rel a \<and> g u \<in> F"
    using child_choice[OF h(6)] sub h(1) by blast
  let ?D' = "{(u, f u) | u. u \<in> F' - R}" and ?D = "{(u, if u \<in> F' then f u else g u) | u. u \<in> F - R}"
  have "c_forest F' ?D' (district_rel a F') R"
    using f by (intro choice_forest h(5) sub) blast
  moreover have "c_forest F ?D (district_rel a F) R"
  proof (intro choice_forest h(4))
    fix u assume "u \<in> F - R"
    then show "(if u \<in> F' then f u else g u) \<in> F" using f[of u] g[of u] h(1) by auto
  qed (use sub h(1) in blast)
  moreover have "?D' \<subseteq> ?D" using h(1) by auto
  moreover have "?D \<subseteq> admg_rel a"
  proof
    fix e assume "e \<in> ?D"
    then obtain u where "e = (u, if u \<in> F' then f u else g u)" "u \<in> F - R" by blast
    then show "e \<in> admg_rel a" using f[of u] g[of u] by auto
  qed
  moreover have "district_rel a F' \<subseteq> district_rel a F" "district_rel a F \<subseteq> admg_bi a"
    using h(1) by (auto simp: district_rel_def)
  moreover have "R \<subseteq> anc a Y V X" using R by blast
  ultimately show "hedge a V X Y F F'"
    unfolding hedge_def using h(1-3)
    by (intro exI[of _ ?D] exI[of _ "district_rel a F"] exI[of _ ?D'] exI[of _ "district_rel a F'"]
        exI[of _ R] conjI)
qed

section \<open>The invariant of the recursion\<close>

text \<open>
  \<open>X0\<close> and \<open>Y0\<close> are the treatments and outcomes of the query, \<open>V\<close> all nodes. Until line 4 has
  been taken the outcomes are the original ones and an intervened node that reaches them past the
  interventions is an original treatment (\<open>early\<close>). From line 4 on, everything not intervened on is
  an outcome, and a set of nodes reaching the outcomes without an original treatment in it has no
  bidirected edge to them from outside (\<open>late\<close>).
\<close>

definition early :: "admg \<Rightarrow> nat set \<Rightarrow> nat set \<Rightarrow> nat set \<Rightarrow> nat set \<Rightarrow> nat set \<Rightarrow> bool" where
  "early a X0 Y0 y x v \<longleftrightarrow> y = Y0 \<and> x \<inter> anc a y v x \<subseteq> X0"

definition late :: "admg \<Rightarrow> nat set \<Rightarrow> nat set \<Rightarrow> nat set \<Rightarrow> nat set \<Rightarrow> bool" where
  "late a X0 y x v \<longleftrightarrow> v - x = y \<and>
     (\<forall>Z \<subseteq> v. Z \<subseteq> anc a y Z {} \<longrightarrow> Z \<inter> X0 = {} \<longrightarrow> (\<forall>s \<in> y. \<forall>t \<in> Z - y. (s, t) \<notin> admg_bi a))"

definition id_inv ::
  "admg \<Rightarrow> nat set \<Rightarrow> nat set \<Rightarrow> nat set \<Rightarrow> nat set \<Rightarrow> nat set \<Rightarrow> nat set \<Rightarrow> bool" where
  "id_inv a V X0 Y0 y x v \<longleftrightarrow> y \<noteq> {} \<and> y \<subseteq> v \<and> x \<subseteq> v \<and> v \<subseteq> V \<and> x \<inter> y = {} \<and> X0 \<inter> v \<subseteq> x \<and>
     y \<subseteq> anc a Y0 V X0 \<and> (early a X0 Y0 y x v \<or> late a X0 y x v \<and> connected a y)"

lemma id_invD:
  assumes "id_inv a V X0 Y0 y x v"
  shows "y \<noteq> {}" "y \<subseteq> v" "x \<subseteq> v" "v \<subseteq> V" "x \<inter> y = {}" "X0 \<inter> v \<subseteq> x" "y \<subseteq> anc a Y0 V X0"
  using assms by (simp_all add: id_inv_def)

lemma id_inv_start:
  assumes "Y0 \<noteq> {}" "Y0 \<subseteq> V" "X0 \<subseteq> V" "X0 \<inter> Y0 = {}"
  shows "id_inv a V X0 Y0 Y0 X0 V"
  using assms anc_seeds[of Y0 a V X0] by (auto simp: id_inv_def early_def)

text \<open>Lines 2 and 7 pass to a part of \<open>v\<close> that contains the outcomes.\<close>

lemma id_inv_restrict:
  assumes "id_inv a V X0 Y0 y x v" "y \<subseteq> w" "w \<subseteq> v"
  shows "id_inv a V X0 Y0 y (x \<inter> w) w"
proof -
  note inv = id_invD[OF assms(1)]
  have "early a X0 Y0 y (x \<inter> w) w" if "early a X0 Y0 y x v"
  proof -
    have "up a w (x \<inter> w) \<subseteq> up a v x \<union> {(p, u). u \<notin> w}" using assms(3) by (auto simp: up_def)
    have "anc a y w (x \<inter> w) \<subseteq> anc a y v x"
    proof
      fix p assume "p \<in> anc a y w (x \<inter> w)"
      then show "p \<in> anc a y v x"
      proof (induction rule: anc_induct)
        case (seed s)
        then show ?case using anc_seeds by blast
      next
        case (step p u)
        have "u \<in> w" using step(4) anc_within[of a y w "x \<inter> w"] assms(2) by blast
        with step assms(3) show ?case by (intro anc_step[of p u]) auto
      qed
    qed
    with that show ?thesis by (auto simp: early_def)
  qed
  moreover have "late a X0 y (x \<inter> w) w" if "late a X0 y x v"
  proof -
    have "w - x \<inter> w = y" using that assms(2,3) by (auto simp: late_def)
    moreover have "\<forall>s \<in> y. \<forall>t \<in> Z - y. (s, t) \<notin> admg_bi a" if "Z \<subseteq> w" "Z \<subseteq> anc a y Z {}" "Z \<inter> X0 = {}" for Z
    proof -
      have "Z \<subseteq> v" using that(1) assms(3) by blast
      then show ?thesis using \<open>late a X0 y x v\<close> that(2,3) unfolding late_def by meson
    qed
    ultimately show ?thesis by (simp add: late_def)
  qed
  ultimately show ?thesis using assms inv unfolding id_inv_def by blast
qed

text \<open>Line 3 intervenes on the non-ancestors.\<close>

lemma id_inv_line3:
  assumes "id_inv a V X0 Y0 y x v" "w = v - x - anc a y v x"
  shows "id_inv a V X0 Y0 y (x \<union> w) v"
proof -
  note inv = id_invD[OF assms(1)]
  have w: "w \<inter> y = {}" "w \<subseteq> v" using assms(2) anc_seeds[of y a v x] by blast+
  have "early a X0 Y0 y (x \<union> w) v" if e: "early a X0 Y0 y x v"
  proof -
    have "anc a y v (x \<union> w) \<subseteq> anc a y v x" by (rule anc_mono) auto
    with e assms(2) show ?thesis by (auto simp: early_def)
  qed
  moreover have "w = {}" if "late a X0 y x v"
    using that assms(2) anc_seeds[of y a v x] by (auto simp: late_def)
  ultimately show ?thesis using inv w assms(1) unfolding id_inv_def by auto
qed

text \<open>Line 4 asks for each component of \<open>v - x\<close> under all other interventions.\<close>

lemma last_blocked:
  assumes "u \<in> anc a S Z {}" "u \<in> x" "\<And>s. s \<in> S \<Longrightarrow> s \<in> anc a y v x" "S \<inter> x = {}" "Z \<subseteq> v" "S \<subseteq> Z"
  shows "\<exists>t \<in> x \<inter> Z. t \<in> anc a y v x"
proof -
  have "u \<in> anc a y v x \<and> u \<notin> x \<or> (\<exists>t \<in> x \<inter> Z. t \<in> anc a y v x)" using assms(1)
  proof (induction rule: anc_induct)
    case (seed s)
    then show ?case using assms(3,4) by blast
  next
    case (step p u)
    show ?case
    proof (cases "\<exists>t \<in> x \<inter> Z. t \<in> anc a y v x")
      case False
      then have "u \<in> anc a y v x" "u \<notin> x" using step by blast+
      then have "p \<in> anc a y v x" using step(1,3) assms(5) by (intro anc_step[of p u]) auto
      with False step(3) show ?thesis by blast
    qed blast
  qed
  with assms(2) show ?thesis by blast
qed

lemma id_inv_line4:
  assumes "id_inv a V X0 Y0 y x v" "early a X0 Y0 y x v" "v - x \<subseteq> anc a y v x"
    and "s \<subseteq> v - x" "s \<noteq> {}" "\<And>t u. t \<in> s \<Longrightarrow> u \<in> v - x \<Longrightarrow> (t, u) \<in> admg_bi a \<Longrightarrow> u \<in> s" "connected a s"
  shows "id_inv a V X0 Y0 s (v - s) v"
proof -
  note inv = id_invD[OF assms(1)]
  have "v - x \<subseteq> anc a Y0 V X0"
  proof
    fix p assume p: "p \<in> v - x"
    then have "p \<in> anc a y v x" using assms(3) by blast
    then have "p \<in> anc a y V X0" using p
    proof (induction rule: anc_induct)
      case (seed q)
      then show ?case using anc_seeds by blast
    next
      case (step p u)
      have "u \<in> v" using step(4) anc_within[of a y v x] inv(2) by blast
      then have "u \<notin> X0" "u \<in> v - x" using step(2) inv(6) by blast+
      with step inv(4) show ?case by (intro anc_step[of p u]) auto
    qed
    then show "p \<in> anc a Y0 V X0" using inv(7) by (rule anc_trans)
  qed
  then have root: "s \<subseteq> anc a Y0 V X0" using assms(4) by blast
  have "(p, t) \<notin> admg_bi a" if Z: "Z \<subseteq> v" "Z \<subseteq> anc a s Z {}" "Z \<inter> X0 = {}" and p: "p \<in> s" "t \<in> Z - s" for Z p t
  proof
    assume bi: "(p, t) \<in> admg_bi a"
    have "t \<in> x" using assms(6)[OF p(1) _ bi] p(2) Z(1) by blast
    have "s \<inter> anc a s Z {} \<subseteq> Z \<union> s" by blast
    have "t \<in> anc a s (Z \<union> s) {}" using Z(2) p(2) anc_mono[of s s Z "Z \<union> s" "{}" "{}" a] by blast
    then have "\<exists>u \<in> x \<inter> (Z \<union> s). u \<in> anc a y v x"
      using \<open>t \<in> x\<close> assms(3,4) Z(1) by (intro last_blocked[of t a s]) auto
    then obtain u where u: "u \<in> x" "u \<in> Z \<union> s" "u \<in> anc a y v x" by blast
    then have "u \<in> Z" using assms(4) by blast
    moreover have "u \<in> X0" using u assms(2) by (auto simp: early_def)
    ultimately show False using Z(3) by blast
  qed
  then have "late a X0 s (v - s) v" unfolding late_def using assms(4) by blast
  then show ?thesis unfolding id_inv_def using root assms(4,5,7) inv(4,6) by auto
qed

text \<open>In the late phase the remaining nodes are the outcomes and stay connected.\<close>

lemma id_inv_early:
  "id_inv a V X0 Y0 y x v \<Longrightarrow> \<not> connected a (v - x) \<Longrightarrow> early a X0 Y0 y x v"
  by (auto simp: id_inv_def late_def)

theorem id_line5_hedge:
  assumes "admg_inv a" "id_inv a V X0 Y0 y x v" "x \<noteq> {}"
    and "v = anc a y v {}" "v - x \<subseteq> anc a y v x" "connected a (v - x)" "connected a v"
  shows "hedge a V X0 Y0 v (v - x)"
proof -
  note inv = id_invD[OF assms(2)]
  let ?R = "anc a Y0 V X0 \<inter> (v - x)"
  have y: "y \<subseteq> v - x" "y \<subseteq> ?R" using inv(2,5,7) by blast+
  have "v \<inter> X0 \<noteq> {}"
  proof
    assume none: "v \<inter> X0 = {}"
    from assms(2) consider "early a X0 Y0 y x v" | "late a X0 y x v" by (auto simp: id_inv_def)
    then show False
    proof cases
      case 1
      obtain u where u: "u \<in> x" using assms(3) by blast
      then have "u \<in> anc a y v {}" using inv(3) assms(4) by blast
      then have "\<exists>t \<in> x \<inter> v. t \<in> anc a y v x"
        using u inv(2,5) anc_seeds[of y a v x] by (intro last_blocked[of u a y v x]) auto
      with 1 none show False by (auto simp: early_def)
    next
      case 2
      then have apart: "(s, t) \<notin> admg_bi a" if "s \<in> y" "t \<in> v - y" for s t
        using that none assms(4) by (auto simp: late_def)
      obtain s t where st: "s \<in> y" "t \<in> x" using inv(1) assms(3) by blast
      then have "(s, t) \<in> (district_rel a v)\<^sup>*" using assms(7) inv(2,3) by (auto simp: connected_def)
      then have "t \<in> y"
        by (induction rule: rtrancl_induct) (use st apart in \<open>auto simp: district_rel_def\<close>)
      then show False using st inv(5) by blast
    qed
  qed
  moreover have "(v - x) \<inter> X0 = {}" using inv(6) by blast
  moreover have "v \<subseteq> anc a ?R v {}"
    using assms(4) anc_mono[OF y(2), of v v "{}" "{}" a] by blast
  moreover have "v - x \<subseteq> anc a ?R (v - x) {}"
  proof
    fix p assume p: "p \<in> v - x"
    then have "p \<in> anc a y v x" using assms(5) by blast
    then show "p \<in> anc a ?R (v - x) {}" using p
    proof (induction rule: anc_induct)
      case (seed q)
      then show ?case using y(2) anc_seeds by blast
    next
      case (step p u)
      have "u \<in> v - x" using step(2,4) anc_within[of a y v x] inv(2) by blast
      with step show ?case by (intro anc_step[of p u]) auto
    qed
  qed
  moreover have "v - x \<noteq> {}" "?R \<noteq> {}" using y inv(1) by blast+
  ultimately have "hedge_sets a V X0 Y0 v (v - x)"
    unfolding hedge_sets_def Let_def using assms(6,7) by blast
  then show ?thesis using hedge_iff_sets[OF assms(1)] by blast
qed

end
