(* ===== verification/Hedge.thy ===== *)
theory Hedge
  imports Hedge_Criterion
begin

text \<open>
  \<open>hedge.rs\<close>: the certificate of non-identifiability ID line 5 issues, the problem it carries, and
  its verification. \<open>hc_verify_spec\<close> says that verification accepts exactly the hedges of the
  literature; \<open>hp_capture_spec\<close> and \<open>hp_prepare_spec\<close> that the captured problem rebuilds the graph it was taken from,
  so that \<open>hc_verify_carried\<close> asks the same question.
\<close>

record hedge_problem =
  hp_variables :: "variable_id list"
  hp_directed :: "(nat \<times> nat) list"
  hp_bidirected :: "(nat \<times> nat) list"
  hp_treatments :: "variable_id list"
  hp_outcomes :: "variable_id list"

record hedge_certificate =
  hc_f :: "variable_id list"
  hc_f_prime :: "variable_id list"
  hc_f_dense :: "dense_id list"
  hc_f_prime_dense :: "dense_id list"
  hc_problem :: "hedge_problem option"

section \<open>The carried problem\<close>

definition hp_capture :: "prepared_admg \<Rightarrow> bitset \<Rightarrow> bitset \<Rightarrow> (identification_error + hedge_problem) run" where
  "hp_capture pa x y =
     (let a = pa_admg pa; n = admg_node_count a;
          directed = admg_directed_edge_pairs_sorted a;
          bidirected = concat (map (\<lambda>i. map (Pair i)
            (filter (\<lambda>b. b > i) (admg_bidirected_neighbors a i))) [0..<n])
      in if n > id_space then Abort
         else case pa_dense_to_vars pa [0..<n] of Inl e \<Rightarrow> Done (Inl e) | Inr vars \<Rightarrow>
              run_bind (of_option (bs_iter x)) (\<lambda>xs. case pa_dense_to_vars pa xs of Inl e \<Rightarrow> Done (Inl e) | Inr ts \<Rightarrow>
              run_bind (of_option (bs_iter y)) (\<lambda>ys. case pa_dense_to_vars pa ys of Inl e \<Rightarrow> Done (Inl e) | Inr os \<Rightarrow>
                Done (Inr \<lparr>hp_variables = vars, hp_directed = directed, hp_bidirected = sort bidirected,
                  hp_treatments = ts, hp_outcomes = os\<rparr>))))"

definition graph_failure :: "(graph_error + 'a) \<Rightarrow> identification_error + unit" where
  "graph_failure r = (case r of Inl e \<Rightarrow> Inl (GraphFailure e) | Inr _ \<Rightarrow> Inr ())"

lemma graph_failure_simps [simp]:
  "graph_failure (Inl e) = Inl (GraphFailure e)" "graph_failure (Inr i) = Inr ()"
  by (simp_all add: graph_failure_def)

definition hp_prepare :: "hedge_problem \<Rightarrow> (identification_error + prepared_admg) run" where
  "hp_prepare hp =
     run_bind (of_option
       (try_each (\<lambda>v a. Some (apfst graph_failure (admg_add_node a (Static v))))
         (hp_variables hp) admg_empty))
       (\<lambda>(r, a). case r of Inl e \<Rightarrow> Done (Inl e) | Inr _ \<Rightarrow>
     run_bind (of_option
       (try_each (\<lambda>(s, t) a. map_option (apfst graph_failure) (admg_insert_directed a s t))
         (hp_directed hp) a))
       (\<lambda>(r, a). case r of Inl e \<Rightarrow> Done (Inl e) | Inr _ \<Rightarrow>
     run_bind (of_option
       (try_each (\<lambda>(s, t) a. map_option (apfst graph_failure) (admg_insert_bidirected a s t))
         (hp_bidirected hp) a))
       (\<lambda>(r, a). case r of Inl e \<Rightarrow> Done (Inl e) | Inr _ \<Rightarrow> pa_new a)))"

section \<open>The certificate\<close>

definition hc_from_sets :: "bitset \<Rightarrow> bitset \<Rightarrow> (dense_id \<Rightarrow> variable_id) \<Rightarrow> hedge_certificate option" where
  "hc_from_sets f f' var =
     (case bs_to_dense_ids f of
        None \<Rightarrow> None
      | Some fd \<Rightarrow>
          map_option (\<lambda>fd'. \<lparr>hc_f = map var fd, hc_f_prime = map var fd', hc_f_dense = fd, hc_f_prime_dense = fd',
            hc_problem = None\<rparr>) (bs_to_dense_ids f'))"

definition hc_with_problem :: "hedge_certificate \<Rightarrow> hedge_problem \<Rightarrow> hedge_certificate" where
  "hc_with_problem hc hp = hc\<lparr>hc_problem := Some hp\<rparr>"

definition not_a_hedge :: "string \<Rightarrow> identification_error" where
  "not_a_hedge what = Message (''not a hedge: '' @ what)"

text \<open>The loop of \<open>to_set\<close>.\<close>

fun hedge_nodes ::
  "prepared_admg \<Rightarrow> (dense_id \<times> variable_id) list \<Rightarrow> bitset \<Rightarrow> bitset option run" where
  "hedge_nodes pa [] acc = Done (Some acc)"
| "hedge_nodes pa ((node, var) # rest) acc =
     (if node \<ge> admg_node_count (pa_admg pa) then Done None
      else (case pa_dense_to_var pa node of
              Inl _ \<Rightarrow> Done None
            | Inr v \<Rightarrow>
                (if v \<noteq> var then Done None
                 else run_bind (of_option (bs_insert acc node)) (hedge_nodes pa rest))))"

definition hedge_to_set ::
  "prepared_admg \<Rightarrow> dense_id list \<Rightarrow> variable_id list \<Rightarrow> bitset option run" where
  "hedge_to_set pa dense vars =
     (if length dense \<noteq> length vars then Done None
      else hedge_nodes pa (zip dense vars) (bs_with_len (admg_node_count (pa_admg pa))))"

fun insert_variables ::
  "prepared_admg \<Rightarrow> variable_id list \<Rightarrow> bitset \<Rightarrow> (identification_error + bitset) run" where
  "insert_variables pa [] acc = Done (Inr acc)"
| "insert_variables pa (v # vs) acc =
     (case pa_var_to_dense pa v of
        Inl e \<Rightarrow> Done (Inl e)
      | Inr i \<Rightarrow> run_bind (of_option (bs_insert acc i)) (insert_variables pa vs))"

definition hc_check_roots ::
  "prepared_admg \<Rightarrow> bitset \<Rightarrow> bitset \<Rightarrow> bitset \<Rightarrow> bitset \<Rightarrow> (identification_error + unit) run" where
  "hc_check_roots pa f f' x y =
     (let n = admg_node_count (pa_admg pa) in
      run_bind (pa_ancestors_bar_x pa y (bs_full n) x ws_default) (\<lambda>(above, ws).
      run_bind (of_option (bs_intersect_with above f')) (\<lambda>roots.
        if \<not> bs_any roots
        then Done (Inl (not_a_hedge ''no node of F' is an ancestor of the outcomes once edges into X are cut''))
        else
          run_bind (pa_ancestors_bar_x pa roots f (bs_with_len n) ws) (\<lambda>(up_f, ws).
            let bad = Inl (not_a_hedge ''F and F' are not both forests rooted in the same set'')
            in if \<not> bs_equal_set up_f f then Done bad
               else run_bind (pa_ancestors_bar_x pa roots f' (bs_with_len n) ws) (\<lambda>(up_f', ws).
                 if \<not> bs_equal_set up_f' f' then Done bad else Done (Inr ()))))))"

definition hc_check ::
  "prepared_admg \<Rightarrow> bitset \<Rightarrow> bitset \<Rightarrow> bitset \<Rightarrow> bitset \<Rightarrow> (identification_error + unit) run" where
  "hc_check pa f f' x y =
     run_bind (if \<not> bs_any f' then Done False else of_option (bs_is_subset_of f' f)) (\<lambda>sub.
       if \<not> sub then Done (Inl (not_a_hedge ''F' must be a non-empty subset of F''))
       else run_bind (of_option (bs_iter f)) (\<lambda>fs.
         if \<not> list_ex (bs_contains x) fs
         then Done (Inl (not_a_hedge ''F does not meet the treatments''))
         else run_bind (of_option (bs_iter f')) (\<lambda>fs'.
           if list_ex (bs_contains x) fs'
           then Done (Inl (not_a_hedge ''F' meets the treatments''))
           else
             run_bind (pa_is_single_c_component pa f) (\<lambda>c.
             run_bind (if \<not> c then Done False else pa_is_single_c_component pa f') (\<lambda>c'.
               if \<not> c'
               then Done (Inl (not_a_hedge ''F and F' must each be bidirected-connected''))
               else hc_check_roots pa f f' x y)))))"

definition hc_verify ::
  "hedge_certificate \<Rightarrow> prepared_admg \<Rightarrow> variable_id list \<Rightarrow> variable_id list \<Rightarrow>
    (identification_error + unit) run" where
  "hc_verify hc pa treatments outcomes =
     (let none = bs_with_len (admg_node_count (pa_admg pa)) in
      run_bind (hedge_to_set pa (hc_f_dense hc) (hc_f hc)) (\<lambda>f.
      run_bind (hedge_to_set pa (hc_f_prime_dense hc) (hc_f_prime hc)) (\<lambda>f'.
        case (f, f') of
          (Some f, Some f') \<Rightarrow>
            run_bind (insert_variables pa treatments none) (\<lambda>x. case x of Inl e \<Rightarrow> Done (Inl e) | Inr x \<Rightarrow>
            run_bind (insert_variables pa outcomes none) (\<lambda>y. case y of Inl e \<Rightarrow> Done (Inl e) | Inr y \<Rightarrow>
              hc_check pa f f' x y))
        | _ \<Rightarrow> Done (Inl (not_a_hedge ''certificate nodes do not belong to this graph'')))))"

definition hc_verify_carried :: "hedge_certificate \<Rightarrow> (identification_error + unit) run" where
  "hc_verify_carried hc =
     (case hc_problem hc of
        None \<Rightarrow> Done (Inl (Message ''hedge certificate carries no graph to verify against''))
      | Some hp \<Rightarrow> run_bind (hp_prepare hp) (\<lambda>r. case r of
          Inl e \<Rightarrow> Done (Inl e)
        | Inr pa \<Rightarrow> hc_verify hc pa (hp_treatments hp) (hp_outcomes hp)))"

section \<open>Verification accepts exactly the hedges\<close>

lemma of_option_ancestors:
  assumes "pa_inv pa" "nodes_in (pa_count pa) s" "nodes_in (pa_count pa) t" "nodes_in (pa_count pa) x"
    "ws_inv ws" "bs_members s \<subseteq> bs_members t"
  shows "\<exists>out ws'. pa_ancestors_bar_x pa s t x ws = Done (out, ws') \<and> nodes_in (pa_count pa) out \<and> ws_inv ws' \<and>
    bs_members out = anc (pa_admg pa) (bs_members s) (bs_members t) (bs_members x)"
proof -
  have "in_set_opt (Some x) = bs_members x" by (auto simp: in_set_opt_def in_opt_def bs_contains_members)
  with admg_ancestors_within_anc[OF pa_invD(1,3,2)[OF assms(1)] assms(2,3,5,6), of "Some x"]
  show ?thesis
    unfolding pa_ancestors_bar_x_def
    by (cases "admg_ancestors_within (pa_admg pa) s t (Some x) ws") auto
qed

lemma members_any: "nodes_in n b \<Longrightarrow> bs_any b \<longleftrightarrow> bs_members b \<noteq> {}"
  using bs_any_members nodes_inD(1) by blast

lemma members_list_ex: "nodes_in n b \<Longrightarrow> list_ex (bs_contains x) (bs_ids b) \<longleftrightarrow> bs_members b \<inter> bs_members x \<noteq> {}"
  using nodes_in_ids by (auto simp: list_ex_iff bs_contains_members)

lemma hc_check_roots_spec:
  assumes "pa_inv pa" "nodes_in (pa_count pa) f" "nodes_in (pa_count pa) f'" "nodes_in (pa_count pa) x"
    "nodes_in (pa_count pa) y" "bs_members f' \<subseteq> bs_members f"
  shows "\<exists>r. hc_check_roots pa f f' x y = Done r \<and> (r = Inr () \<longleftrightarrow>
    (let R = anc (pa_admg pa) (bs_members y) {..<pa_count pa} (bs_members x) \<inter> bs_members f'
     in R \<noteq> {} \<and> bs_members f \<subseteq> anc (pa_admg pa) R (bs_members f) {} \<and>
        bs_members f' \<subseteq> anc (pa_admg pa) R (bs_members f') {}))"
proof -
  let ?n = "pa_count pa" and ?a = "pa_admg pa"
  have n: "admg_node_count ?a = ?n" by (simp add: pa_count_def)
  have "bs_members y \<subseteq> bs_members (bs_full ?n)" using nodes_in_members[OF assms(5)] by simp
  then obtain above ws where ab: "pa_ancestors_bar_x pa y (bs_full ?n) x ws_default = Done (above, ws)"
      "nodes_in ?n above" "ws_inv ws" "bs_members above = anc ?a (bs_members y) {..<?n} (bs_members x)"
    using of_option_ancestors[OF assms(1,5) nodes_in_full(1) assms(4) ws_default_inv] by (auto simp: nodes_in_full)
  obtain roots where ro: "bs_intersect_with above f' = Some roots" "nodes_in ?n roots"
      "bs_members roots = bs_members above \<inter> bs_members f'"
    using nodes_in_ops(2)[OF ab(2) assms(3)] by (cases "bs_intersect_with above f'") auto
  have sub: "bs_members roots \<subseteq> bs_members f" "bs_members roots \<subseteq> bs_members f'" using ro(3) assms(6) by auto
  obtain uf ws1 where uf: "pa_ancestors_bar_x pa roots f (bs_with_len ?n) ws = Done (uf, ws1)"
      "nodes_in ?n uf" "ws_inv ws1" "bs_members uf = anc ?a (bs_members roots) (bs_members f) {}"
    using of_option_ancestors[OF assms(1) ro(2) assms(2) nodes_in_empty(1) ab(3) sub(1)] by auto
  obtain uf' ws2 where uf': "pa_ancestors_bar_x pa roots f' (bs_with_len ?n) ws1 = Done (uf', ws2)"
      "nodes_in ?n uf'" "ws_inv ws2" "bs_members uf' = anc ?a (bs_members roots) (bs_members f') {}"
    using of_option_ancestors[OF assms(1) ro(2) assms(3) nodes_in_empty(1) uf(3) sub(2)] by auto
  have eq: "bs_equal_set u g \<longleftrightarrow> bs_members g \<subseteq> anc ?a (bs_members roots) (bs_members g) {}"
    if "nodes_in ?n u" "nodes_in ?n g" "bs_members u = anc ?a (bs_members roots) (bs_members g) {}"
      "bs_members roots \<subseteq> bs_members g" for u g
    using nodes_in_eq[OF that(1,2)] that(3,4) anc_within[of ?a "bs_members roots" "bs_members g" "{}"]
    by (auto simp: bs_equal_set_eq)
  show ?thesis
    using members_any[OF ro(2)] eq[OF uf(2) assms(2) uf(4) sub(1)] eq[OF uf'(2) assms(3) uf'(4) sub(2)] ro(3) ab(4)
    by (auto simp: hc_check_roots_def n ab(1) ro(1) uf(1) uf'(1) Let_def)
qed

lemma pa_is_single_Done:
  assumes "pa_inv pa" "nodes_in (pa_count pa) nodes"
  shows "pa_is_single_c_component pa nodes = Done (connected (pa_admg pa) (bs_members nodes))"
proof -
  have "pa_c_components pa nodes \<noteq> NoIds"
    by (cases "admg_district_components_within (pa_admg pa) nodes") (simp_all add: pa_c_components_def)
  then have "pa_is_single_c_component pa nodes \<noteq> NoIds"
    by (cases "pa_c_components pa nodes") (simp_all add: pa_is_single_c_component_def)
  with pa_is_single_c_component_spec[OF assms] show ?thesis by blast
qed

lemma hc_check_spec:
  assumes "pa_inv pa" "nodes_in (pa_count pa) f" "nodes_in (pa_count pa) f'" "nodes_in (pa_count pa) x"
    "nodes_in (pa_count pa) y"
  shows "\<exists>r. hc_check pa f f' x y = Done r \<and> (r = Inr () \<longleftrightarrow>
    hedge (pa_admg pa) {..<pa_count pa} (bs_members x) (bs_members y) (bs_members f) (bs_members f'))"
proof -
  note iters = nodes_in_iter(1)[OF assms(2) pa_invD(2)[OF assms(1)]] nodes_in_iter(1)[OF assms(3) pa_invD(2)[OF assms(1)]]
  show ?thesis
  proof (cases "bs_members f' \<noteq> {} \<and> bs_members f' \<subseteq> bs_members f \<and> bs_members f \<inter> bs_members x \<noteq> {} \<and>
    bs_members f' \<inter> bs_members x = {} \<and> connected (pa_admg pa) (bs_members f) \<and>
    connected (pa_admg pa) (bs_members f')")
    case True
    then show ?thesis
      using hc_check_roots_spec[OF assms(1-5)]
      unfolding hedge_iff_sets[OF pa_invD(1)[OF assms(1)]] hedge_sets_def
      by (simp add: hc_check_def members_any[OF assms(3)] members_list_ex[OF assms(2)] members_list_ex[OF assms(3)] iters
          nodes_in_subset[OF assms(3,2)] pa_is_single_Done[OF assms(1,2)] pa_is_single_Done[OF assms(1,3)])
  next
    case False
    then have "\<not> hedge (pa_admg pa) {..<pa_count pa} (bs_members x) (bs_members y) (bs_members f) (bs_members f')"
      unfolding hedge_iff_sets[OF pa_invD(1)[OF assms(1)]] hedge_sets_def by blast
    moreover have "\<exists>e. hc_check pa f f' x y = Done (Inl e)"
      using False
      by (auto simp: hc_check_def members_any[OF assms(3)] members_list_ex[OF assms(2)] members_list_ex[OF assms(3)] iters
          nodes_in_subset[OF assms(3,2)] pa_is_single_Done[OF assms(1,2)] pa_is_single_Done[OF assms(1,3)])
    ultimately show ?thesis by auto
  qed
qed

definition names_nodes :: "prepared_admg \<Rightarrow> dense_id list \<Rightarrow> variable_id list \<Rightarrow> bool" where
  "names_nodes pa ds vs \<longleftrightarrow> list_all2 (\<lambda>d v. d < pa_count pa \<and> pa_dense_to_var pa d = Inr v) ds vs"

lemma nodes_in_insert:
  "nodes_in n b \<Longrightarrow> i < n \<Longrightarrow> \<exists>b'. bs_insert b i = Some b' \<and> nodes_in n b' \<and> bs_members b' = insert i (bs_members b)"
  using bs.ins_step[of b i] unfolding nodes_in_def by metis

lemma hedge_nodes_spec:
  assumes "nodes_in (pa_count pa) acc"
  shows "if \<forall>(d, v) \<in> set dvs. d < pa_count pa \<and> pa_dense_to_var pa d = Inr v
    then \<exists>b. hedge_nodes pa dvs acc = Done (Some b) \<and> nodes_in (pa_count pa) b \<and>
      bs_members b = bs_members acc \<union> fst ` set dvs
    else hedge_nodes pa dvs acc = Done None"
  using assms
proof (induction dvs arbitrary: acc)
  case (Cons p dvs)
  obtain d v where p: "p = (d, v)" by (cases p)
  show ?case
  proof (cases "d < pa_count pa \<and> pa_dense_to_var pa d = Inr v")
    case True
    then obtain b where b: "bs_insert acc d = Some b" "nodes_in (pa_count pa) b"
        "bs_members b = insert d (bs_members acc)"
      using nodes_in_insert[OF Cons.prems] by blast
    have "hedge_nodes pa (p # dvs) acc = hedge_nodes pa dvs b"
      using True b(1) by (simp add: p pa_count_def)
    then show ?thesis using Cons.IH[OF b(2)] True b(3) p by (auto split: if_splits)
  next
    case False
    then show ?thesis by (auto simp: p pa_count_def split: sum.splits)
  qed
qed simp

lemma hedge_to_set_spec:
  "if names_nodes pa ds vs
   then \<exists>b. hedge_to_set pa ds vs = Done (Some b) \<and> nodes_in (pa_count pa) b \<and> bs_members b = set ds
   else hedge_to_set pa ds vs = Done None"
proof (cases "length ds = length vs")
  case True
  have "names_nodes pa ds vs \<longleftrightarrow> (\<forall>(d, v) \<in> set (zip ds vs). d < pa_count pa \<and> pa_dense_to_var pa d = Inr v)"
    using True by (simp add: names_nodes_def list_all2_iff)
  moreover have "fst ` set (zip ds vs) = set ds"
    using map_fst_zip[OF True] by (metis list.set_map)
  ultimately show ?thesis
    using hedge_nodes_spec[OF nodes_in_empty(1), where pa = pa and dvs = "zip ds vs"] True
    by (simp add: hedge_to_set_def pa_count_def split: if_splits)
next
  case False
  then have "\<not> names_nodes pa ds vs" by (auto simp: names_nodes_def dest: list_all2_lengthD)
  with False show ?thesis by (simp add: hedge_to_set_def)
qed

definition dense_of_vars :: "prepared_admg \<Rightarrow> variable_id list \<Rightarrow> nat set" where
  "dense_of_vars pa vs = {i. \<exists>v \<in> set vs. pa_var_to_dense pa v = Inr i}"

lemma insert_variables_spec:
  assumes "pa_inv pa" "nodes_in (pa_count pa) acc" "\<forall>v \<in> set vs. \<exists>i. pa_var_to_dense pa v = Inr i"
  shows "\<exists>b. insert_variables pa vs acc = Done (Inr b) \<and> nodes_in (pa_count pa) b \<and>
    bs_members b = bs_members acc \<union> dense_of_vars pa vs"
  using assms(2,3)
proof (induction vs arbitrary: acc)
  case (Cons v vs)
  obtain i where i: "pa_var_to_dense pa v = Inr i" using Cons.prems(2) by auto
  then have "i < pa_count pa" using pa_var_to_dense_spec[OF assms(1)] by blast
  then obtain b where b: "bs_insert acc i = Some b" "nodes_in (pa_count pa) b" "bs_members b = insert i (bs_members acc)"
    using nodes_in_insert[OF Cons.prems(1)] by blast
  obtain c where c: "insert_variables pa vs b = Done (Inr c)" "nodes_in (pa_count pa) c"
      "bs_members c = bs_members b \<union> dense_of_vars pa vs"
    using Cons.IH[OF b(2)] Cons.prems(2) by auto
  with i b show ?case by (auto simp: dense_of_vars_def)
qed (simp add: dense_of_vars_def)

lemma hc_verify_spec:
  assumes "pa_inv pa" "\<forall>v \<in> set ts \<union> set os. \<exists>i. pa_var_to_dense pa v = Inr i"
  shows "\<exists>r. hc_verify hc pa ts os = Done r \<and> (r = Inr () \<longleftrightarrow>
    names_nodes pa (hc_f_dense hc) (hc_f hc) \<and> names_nodes pa (hc_f_prime_dense hc) (hc_f_prime hc) \<and>
    hedge (pa_admg pa) {..<pa_count pa} (dense_of_vars pa ts) (dense_of_vars pa os)
      (set (hc_f_dense hc)) (set (hc_f_prime_dense hc)))"
proof (cases "names_nodes pa (hc_f_dense hc) (hc_f hc) \<and> names_nodes pa (hc_f_prime_dense hc) (hc_f_prime hc)")
  case True
  obtain f where f: "hedge_to_set pa (hc_f_dense hc) (hc_f hc) = Done (Some f)" "nodes_in (pa_count pa) f"
      "bs_members f = set (hc_f_dense hc)"
    using hedge_to_set_spec[of pa "hc_f_dense hc" "hc_f hc"] True by auto
  obtain f' where f': "hedge_to_set pa (hc_f_prime_dense hc) (hc_f_prime hc) = Done (Some f')"
      "nodes_in (pa_count pa) f'" "bs_members f' = set (hc_f_prime_dense hc)"
    using hedge_to_set_spec[of pa "hc_f_prime_dense hc" "hc_f_prime hc"] True by auto
  obtain x where x: "insert_variables pa ts (bs_with_len (pa_count pa)) = Done (Inr x)" "nodes_in (pa_count pa) x"
      "bs_members x = dense_of_vars pa ts"
    using insert_variables_spec[OF assms(1) nodes_in_empty(1), of ts] assms(2) by auto
  obtain y where y: "insert_variables pa os (bs_with_len (pa_count pa)) = Done (Inr y)" "nodes_in (pa_count pa) y"
      "bs_members y = dense_of_vars pa os"
    using insert_variables_spec[OF assms(1) nodes_in_empty(1), of os] assms(2) by auto
  show ?thesis
    using True hc_check_spec[OF assms(1) f(2) f'(2) x(2) y(2)]
    by (simp add: hc_verify_def f(1,3) f'(1,3) x(1,3) y(1,3) Let_def flip: pa_count_def)
next
  case False
  have "\<exists>r. hedge_to_set pa ds vs = Done r" for ds vs using hedge_to_set_spec[of pa ds vs] by (auto split: if_splits)
  then obtain r r' where r: "hedge_to_set pa (hc_f_dense hc) (hc_f hc) = Done r"
      "hedge_to_set pa (hc_f_prime_dense hc) (hc_f_prime hc) = Done r'" by blast
  moreover have "r = None \<or> r' = None"
    using False r hedge_to_set_spec[of pa "hc_f_dense hc" "hc_f hc"]
      hedge_to_set_spec[of pa "hc_f_prime_dense hc" "hc_f_prime hc"] by (auto split: if_splits)
  ultimately have "\<exists>e. hc_verify hc pa ts os = Done (Inl e)"
    by (auto simp: hc_verify_def Let_def split: option.splits)
  with False show ?thesis by auto
qed

section \<open>The carried problem rebuilds the graph\<close>

text \<open>Insertion of a list of edges into a graph that has none of them and stays acyclic.\<close>

lemma insert_directed_list:
  assumes "admg_inv a" "distinct es" "set es \<inter> admg_rel a = {}" "acyclic (admg_rel a \<union> set es)"
    and "\<forall>(s, t) \<in> set es. s < admg_node_count a \<and> t < admg_node_count a"
  shows "\<exists>a'. try_each (\<lambda>(s, t) a. map_option (apfst graph_failure) (admg_insert_directed a s t)) es a =
      Some (Inr (), a') \<and> admg_inv a' \<and> admg_rel a' = admg_rel a \<union> set es \<and> admg_bi a' = admg_bi a \<and>
      admg_nodes a' = admg_nodes a"
  using assms
proof (induction es arbitrary: a)
  case (Cons e es)
  obtain s t where e: "e = (s, t)" by (cases e)
  have loop: "s \<noteq> t" using Cons.prems(4) e by (auto simp: acyclic_def)
  have new: "(s, t) \<notin> admg_rel a" using Cons.prems(3) e by auto
  have ac: "acyclic (insert (s, t) (admg_rel a))"
    using Cons.prems(4) by (rule acyclic_subset) (auto simp: e)
  have ends: "s < admg_node_count a" "t < admg_node_count a" using Cons.prems(5) e by auto
  show ?case
  proof (rule admg_insert_directed_cases[OF Cons.prems(1), of s t], goal_cases)
    case 1
    then show ?case using loop new ac ends by (auto simp: acyclic_insert)
  next
    case (2 b)
    have nodes: "admg_node_count b = admg_node_count a"
      using 2 by (simp add: admg_node_count_def admg_nodes_def dc_node_count_def)
    have "\<exists>a'. try_each (\<lambda>(s, t) a. map_option (apfst graph_failure) (admg_insert_directed a s t)) es b =
        Some (Inr (), a') \<and> admg_inv a' \<and> admg_rel a' = admg_rel b \<union> set es \<and> admg_bi a' = admg_bi b \<and>
        admg_nodes a' = admg_nodes b"
      using Cons.prems 2 e nodes by (intro Cons.IH) auto
    moreover have "admg_bi b = admg_bi a" using 2 by (simp add: admg_bi_def)
    ultimately show ?case using 2 e by auto
  qed
qed simp

lemma insert_bidirected_list:
  assumes "admg_inv a" "distinct es" "\<forall>(s, t) \<in> set es. s < t \<and> t < admg_node_count a \<and> (s, t) \<notin> admg_bi a"
  shows "\<exists>a'. try_each (\<lambda>(s, t) a. map_option (apfst graph_failure) (admg_insert_bidirected a s t)) es a =
      Some (Inr (), a') \<and> admg_inv a' \<and> ad_directed a' = ad_directed a \<and>
      admg_bi a' = admg_bi a \<union> {(u, v). (u, v) \<in> set es \<or> (v, u) \<in> set es}"
  using assms
proof (induction es arbitrary: a)
  case (Cons e es)
  obtain s t where e: "e = (s, t)" by (cases e)
  have st: "s < t" "t < admg_node_count a" "(s, t) \<notin> admg_bi a" using Cons.prems(3) e by auto
  obtain b where b: "admg_insert_bidirected a s t = Some (Inr (), b)" "admg_inv b" "ad_directed b = ad_directed a"
      "admg_bi b = admg_bi a \<union> {(s, t), (t, s)}"
    using admg_insert_bidirected_spec[OF Cons.prems(1), of s t] st by auto
  have nodes: "admg_node_count b = admg_node_count a" using b(3) by (simp add: admg_node_count_def)
  have "\<exists>a'. try_each (\<lambda>(s, t) a. map_option (apfst graph_failure) (admg_insert_bidirected a s t)) es b =
      Some (Inr (), a') \<and> admg_inv a' \<and> ad_directed a' = ad_directed b \<and>
      admg_bi a' = admg_bi b \<union> {(u, v). (u, v) \<in> set es \<or> (v, u) \<in> set es}"
  proof (rule Cons.IH[OF b(2)])
    show "distinct es" using Cons.prems(2) by simp
    show "\<forall>(s, t) \<in> set es. s < t \<and> t < admg_node_count b \<and> (s, t) \<notin> admg_bi b"
      using Cons.prems(2,3) e b(4) nodes by auto
  qed
  then show ?case using b e by auto
qed simp

lemma add_static_list:
  assumes "admg_edgeless ns a" "length ns + length vs \<le> id_space"
  shows "\<exists>a'. try_each (\<lambda>v a. Some (apfst graph_failure (admg_add_node a (Static v)))) vs a =
      Some (Inr (), a') \<and> admg_edgeless (ns @ map Static vs) a'"
  using assms
proof (induction vs arbitrary: ns a)
  case (Cons v vs)
  obtain b where b: "admg_add_node a (Static v) = (Inr (length ns), b)" "admg_edgeless (ns @ [Static v]) b"
    using admg_add_node_edgeless[OF Cons.prems(1), of "Static v"] Cons.prems(2) by auto
  with Cons.IH[OF b(2)] Cons.prems(2) show ?case by simp
qed simp

lemma hp_capture_spec:
  assumes "pa_inv pa" "pa_named pa" "nodes_in (pa_count pa) x" "nodes_in (pa_count pa) y"
  shows "\<exists>hp. hp_capture pa x y = Done (Inr hp) \<and> hp_variables hp = map (pa_var pa) [0..<pa_count pa] \<and>
    hp_directed hp = sorted_list_of_set (admg_rel (pa_admg pa)) \<and>
    distinct (hp_bidirected hp) \<and> set (hp_bidirected hp) = {(u, v) \<in> admg_bi (pa_admg pa). u < v} \<and>
    hp_treatments hp = map (pa_var pa) (bs_ids x) \<and> hp_outcomes hp = map (pa_var pa) (bs_ids y)"
proof -
  let ?a = "pa_admg pa" and ?n = "pa_count pa"
  note inv = pa_invD[OF assms(1)]
  let ?ps = "concat (map (\<lambda>i. map (Pair i) (filter (\<lambda>b. b > i) (admg_bidirected_neighbors ?a i))) [0..<?n])"
  have n: "admg_node_count ?a = ?n" by (simp add: pa_count_def)
  have len: "length (ad_bidirected ?a) = ?n"
    using inv(1) n by (simp add: admg_inv_def bi_inv_def)
  have "?ps = concat (map (\<lambda>i. map (Pair i) (filter (\<lambda>t. t > i) (ad_bidirected ?a ! i))) [0..<length (ad_bidirected ?a)])"
    by (rule arg_cong[where f = concat], rule map_cong) (simp_all add: len admg_bidirected_neighbors_def row_nth)
  then have bi: "sort ?ps = sorted_list_of_set {(u, v) \<in> admg_bi ?a. u < v}"
    using admg_bidirected_edge_pairs_sorted_spec[OF inv(1)] by (simp add: admg_bidirected_edge_pairs_sorted_def)
  have fin: "finite {(u, v) \<in> admg_bi ?a. u < v}"
    by (rule finite_subset[of _ "{..<?n} \<times> {..<?n}"]) (use admg_bi_bound[OF inv(1)] n in auto)
  have vars: "pa_dense_to_vars pa (bs_ids z) = Inr (map (pa_var pa) (bs_ids z))" if "nodes_in ?n z" for z
    using pa_dense_to_vars_spec[OF assms(2)] nodes_inD(3)[OF that] nodes_in_ids[OF that] by blast
  have all: "pa_dense_to_vars pa [0..<?n] = Inr (map (pa_var pa) [0..<?n])"
    by (rule pa_dense_to_vars_spec[OF assms(2)]) simp
  have small: "\<not> ?n > id_space" using inv(2) by (simp add: u32_max_def id_space_def)
  have dir: "admg_directed_edge_pairs_sorted ?a = sorted_list_of_set (admg_rel ?a)"
    unfolding admg_directed_edge_pairs_sorted_def admg_rel_def
    using dc_edge_pairs_sorted_spec inv(1) by (simp add: wf_simps)
  show ?thesis
    using vars[OF assms(3)] vars[OF assms(4)] nodes_in_iter[OF assms(3) inv(2)] nodes_in_iter[OF assms(4) inv(2)]
      all small bi dir fin
    by (simp add: hp_capture_def Let_def n)
qed

text \<open>A problem with these tables is rebuilt as a graph with the same edges over the same variables.\<close>

lemma hp_prepare_spec:
  assumes "admg_inv a" "admg_node_count a = n" "n \<le> u32_max"
    and "hp_variables hp = vs" "length vs = n" "distinct vs"
    and "hp_directed hp = sorted_list_of_set (admg_rel a)"
    and "distinct (hp_bidirected hp)" "set (hp_bidirected hp) = {(u, v) \<in> admg_bi a. u < v}"
  shows "\<exists>pa. hp_prepare hp = Done (Inr pa) \<and> pa_inv pa \<and> pa_named pa \<and> pa_count pa = n \<and>
    admg_rel (pa_admg pa) = admg_rel a \<and> admg_bi (pa_admg pa) = admg_bi a \<and>
    (\<forall>i < n. pa_var pa i = vs ! i)"
proof -
  obtain b where b: "try_each (\<lambda>v a. Some (apfst graph_failure (admg_add_node a (Static v)))) vs admg_empty =
      Some (Inr (), b)" "admg_edgeless (map Static vs) b"
    using add_static_list[OF admg_empty_edgeless, of vs] assms(3,5) by (auto simp: u32_max_def id_space_def)
  have "length (map Static vs) \<le> id_space" using assms(3,5) by (simp add: u32_max_def id_space_def)
  from admg_edgeless_inv[OF b(2) this] have bi: "admg_inv b" "admg_rel b = {}" "admg_bi b = {}"
    "admg_nodes b = map Static vs" "admg_node_count b = n" using assms(5) by auto
  have fin: "finite (admg_rel a)" by (rule finite_admg_rel[OF assms(1)])
  obtain c where c: "try_each (\<lambda>(s, t) a. map_option (apfst graph_failure) (admg_insert_directed a s t))
      (hp_directed hp) b = Some (Inr (), c)" "admg_inv c" "admg_rel c = admg_rel a" "admg_bi c = {}"
      "admg_nodes c = map Static vs"
  proof -
    have "\<forall>(s, t) \<in> set (hp_directed hp). s < admg_node_count b \<and> t < admg_node_count b"
      using admg_rel_bound[OF assms(1)] assms(2,7) fin bi(5) by auto
    then show thesis
      using insert_directed_list[OF bi(1), of "hp_directed hp"] bi assms(7) fin acyclic_admg_rel[OF assms(1)] that
      by auto
  qed
  then have nc: "admg_node_count c = n" using assms(5) by (simp add: admg_node_count_def admg_nodes_def dc_node_count_def)
  obtain d where d: "try_each (\<lambda>(s, t) a. map_option (apfst graph_failure) (admg_insert_bidirected a s t))
      (hp_bidirected hp) c = Some (Inr (), d)" "admg_inv d" "ad_directed d = ad_directed c"
      "admg_bi d = {(u, v). (u, v) \<in> set (hp_bidirected hp) \<or> (v, u) \<in> set (hp_bidirected hp)}"
  proof -
    have "\<forall>(s, t) \<in> set (hp_bidirected hp). s < t \<and> t < admg_node_count c \<and> (s, t) \<notin> admg_bi c"
      using admg_bi_bound[OF assms(1)] assms(2,9) c(4) nc by auto
    then show thesis using insert_bidirected_list[OF c(2) assms(8)] c(4) that by auto
  qed
  have bi_d: "admg_bi d = admg_bi a"
  proof -
    have "(u, v) \<in> admg_bi a \<longleftrightarrow> (u, v) \<in> admg_bi a \<and> u < v \<or> (v, u) \<in> admg_bi a \<and> v < u" for u v
      using admg_bi_sym[OF assms(1)] admg_bi_irrefl[OF assms(1)] by (metis linorder_neqE_nat)
    then show ?thesis unfolding d(4) assms(9) by auto
  qed
  have nd: "admg_node_count d = n" using d(3) nc by (simp add: admg_node_count_def)
  obtain pa where pa: "pa_with_assumptions d [] = Done (Inr pa)" "pa_inv pa" "pa_admg pa = d"
    using pa_with_assumptions_spec[OF d(2), of "[]"] nd assms(3) by auto
  have cnt: "pa_count pa = n" using pa(3) nd by (simp add: pa_count_def)
  have nodes: "admg_nodes d = map Static vs" using d(3) c(5) by (simp add: admg_nodes_def)
  have at: "pa_dense_to_var pa i = Inr (vs ! i)" if "i < n" for i
    unfolding pa_dense_to_var_iff using that assms(5) pa(3) nodes by (simp add: node_variable_id_def)
  have "inj_on (\<lambda>i. vs ! i) {..<pa_count pa}"
    using assms(5,6) cnt by (auto simp: inj_on_def nth_eq_iff_index_eq)
  then have "pa_named pa" unfolding pa_named_iff[OF pa(2)] using at cnt by blast
  moreover have "pa_var pa i = vs ! i" if "i < n" for i using at[OF that] by (simp add: pa_var_def)
  moreover have "admg_rel d = admg_rel a" using d(3) c(3) by (simp add: admg_rel_def)
  ultimately show ?thesis
    using b(1) c(1) d(1) pa cnt bi_d assms(4) by (simp add: hp_prepare_def pa_new_def)
qed

lemma hedge_cong:
  "admg_rel a = admg_rel b \<Longrightarrow> admg_bi a = admg_bi b \<Longrightarrow> hedge a V X Y F F' = hedge b V X Y F F'"
  by (simp add: hedge_def anc_def up_def)

lemma dense_of_vars_nodes:
  assumes "pa_named pa" "nodes_in (pa_count pa) x"
  shows "dense_of_vars pa (map (pa_var pa) (bs_ids x)) = bs_members x"
    and "\<forall>v \<in> set (map (pa_var pa) (bs_ids x)). \<exists>i. pa_var_to_dense pa v = Inr i"
  using pa_namedD(2)[OF assms(1)] nodes_inD(3)[OF assms(2)] nodes_in_ids[OF assms(2)]
  by (auto simp: dense_of_vars_def)

lemma hc_from_sets_spec:
  assumes "n \<le> u32_max" "nodes_in n f" "nodes_in n f'"
  shows "\<exists>hc. hc_from_sets f f' var = Some hc \<and> hc_f_dense hc = bs_ids f \<and> hc_f_prime_dense hc = bs_ids f' \<and>
    hc_f hc = map var (bs_ids f) \<and> hc_f_prime hc = map var (bs_ids f')"
  by (simp add: hc_from_sets_def nodes_in_iter[OF assms(2,1)] nodes_in_iter[OF assms(3,1)])

text \<open>
  A certificate made from node sets and the problem of the same run verifies from what it carries
  exactly when the sets are a hedge.
\<close>

theorem hc_verify_carried_spec:
  assumes "pa_inv pa" "pa_named pa" "nodes_in (pa_count pa) x" "nodes_in (pa_count pa) y"
    and "nodes_in (pa_count pa) f" "nodes_in (pa_count pa) f'" "hp_capture pa x y = Done (Inr hp)"
  shows "\<exists>hc r. hc_from_sets f f' (pa_var pa) = Some hc \<and> hc_verify_carried (hc_with_problem hc hp) = Done r \<and>
    (r = Inr () \<longleftrightarrow> hedge (pa_admg pa) {..<pa_count pa} (bs_members x) (bs_members y) (bs_members f) (bs_members f'))"
proof -
  let ?n = "pa_count pa" and ?a = "pa_admg pa"
  obtain hc where hc: "hc_from_sets f f' (pa_var pa) = Some hc" "hc_f_dense hc = bs_ids f" "hc_f_prime_dense hc = bs_ids f'"
      "hc_f hc = map (pa_var pa) (bs_ids f)" "hc_f_prime hc = map (pa_var pa) (bs_ids f')"
    using hc_from_sets_spec[OF pa_invD(2)[OF assms(1)] assms(5,6)] by blast
  let ?hc = "hc_with_problem hc hp"
  have hp: "hp_variables hp = map (pa_var pa) [0..<?n]" "hp_directed hp = sorted_list_of_set (admg_rel ?a)"
    "distinct (hp_bidirected hp)" "set (hp_bidirected hp) = {(u, v) \<in> admg_bi ?a. u < v}"
    "hp_treatments hp = map (pa_var pa) (bs_ids x)" "hp_outcomes hp = map (pa_var pa) (bs_ids y)"
    using hp_capture_spec[OF assms(1-4)] assms(7) by auto
  have "distinct (map (pa_var pa) [0..<?n])"
    using pa_var_inj[OF assms(2)] by (simp add: distinct_map inj_on_def)
  then obtain pb where pb: "hp_prepare hp = Done (Inr pb)" "pa_inv pb" "pa_named pb" "pa_count pb = ?n"
      "admg_rel (pa_admg pb) = admg_rel ?a" "admg_bi (pa_admg pb) = admg_bi ?a"
      "\<And>i. i < ?n \<Longrightarrow> pa_var pb i = pa_var pa i"
    using hp_prepare_spec[OF pa_invD(1,3,2)[OF assms(1)] hp(1) _ _ hp(2-4)] by auto
  have names: "names_nodes pb (bs_ids g) (map (pa_var pa) (bs_ids g))" if g: "nodes_in ?n g" for g
  proof -
    have "d < ?n \<and> pa_dense_to_var pb d = Inr (pa_var pa d)" if "d \<in> set (bs_ids g)" for d
    proof -
      have "d < ?n" using that nodes_in_ids[OF g] nodes_inD(3)[OF g] by blast
      then show ?thesis using pa_namedD(1)[OF pb(3), of d] pb(4,7) by simp
    qed
    then show ?thesis using pb(4) by (auto simp: names_nodes_def list_all2_conv_all_nth)
  qed
  have same: "map (pa_var pa) (bs_ids g) = map (pa_var pb) (bs_ids g)" if "nodes_in ?n g" for g
    using pb(7) nodes_inD(3)[OF that] nodes_in_ids[OF that] by auto
  have x: "nodes_in (pa_count pb) x" "nodes_in (pa_count pb) y" using assms(3,4) pb(4) by simp_all
  have vars: "dense_of_vars pb (hp_treatments hp) = bs_members x" "dense_of_vars pb (hp_outcomes hp) = bs_members y"
    "\<forall>v \<in> set (hp_treatments hp) \<union> set (hp_outcomes hp). \<exists>i. pa_var_to_dense pb v = Inr i"
    using dense_of_vars_nodes[OF pb(3) x(1)] dense_of_vars_nodes[OF pb(3) x(2)]
    unfolding hp(5,6) same[OF assms(3)] same[OF assms(4)] by auto
  have cert: "hc_f_dense ?hc = bs_ids f" "hc_f_prime_dense ?hc = bs_ids f'" "hc_f ?hc = map (pa_var pa) (bs_ids f)"
    "hc_f_prime ?hc = map (pa_var pa) (bs_ids f')" "hc_problem ?hc = Some hp"
    by (simp_all add: hc_with_problem_def hc)
  have sets: "set (bs_ids f) = bs_members f" "set (bs_ids f') = bs_members f'"
    using nodes_in_ids assms(5,6) by blast+
  obtain r where r: "hc_verify ?hc pb (hp_treatments hp) (hp_outcomes hp) = Done r"
      "r = Inr () \<longleftrightarrow> hedge (pa_admg pb) {..<?n} (bs_members x) (bs_members y) (bs_members f) (bs_members f')"
    using hc_verify_spec[OF pb(2) vars(3), of ?hc] names[OF assms(5)] names[OF assms(6)] vars(1,2) pb(4)
    by (auto simp: cert sets)
  then show ?thesis using hedge_cong[OF pb(5,6)] pb(1) hc(1) by (simp add: hc_verify_carried_def cert)
qed

end
