(* ===== verification/Expr_Arena.thy ===== *)
theory Expr_Arena
  imports Run_Result Graph_Types "HOL-Library.Sublist"
begin

text \<open>
  \<open>antecedent-expr/src/lib.rs\<close>: the arena of causal expressions. Five tables (variable sets,
  intervention sets, expression lists, nodes, population keys) are interned: a vector of entries
  with an index from entry to position. \<open>arena_inv\<close> in \<open>Expr_Trees\<close> says that every index agrees with its vector,
  that variable sets and interventions are strictly sorted and that a node refers only to entries
  that exist and to nodes before it. The locale \<open>intern_table\<close> of \<open>Expr_Trees\<close> is the contract of one table.

  Values (\<open>antecedent-core/src/value.rs\<close>) compare floats by bits, so a float is its bit pattern;
  strings are their UTF-8 bytes.
\<close>

section \<open>Values and interventions\<close>

datatype val =
    Float64 "64 word"
  | Int64 "64 word"
  | BoolVal bool
  | Category "32 word"
  | Label string

text \<open>\<open>U+E000\<close> is \<open>EE 80 80\<close> in UTF-8.\<close>

definition symbolic_intervention_label :: string where
  "symbolic_intervention_label =
     [CHR 0xEE, CHR 0x80, CHR 0x80] @ ''antecedent.symbolic_intervention''"

definition val_symbolic_intervention :: val where
  "val_symbolic_intervention = Label symbolic_intervention_label"

fun val_is_symbolic_intervention :: "val \<Rightarrow> bool" where
  "val_is_symbolic_intervention (Label s) \<longleftrightarrow> s = symbolic_intervention_label"
| "val_is_symbolic_intervention _ \<longleftrightarrow> False"

record intervention_assignment =
  ia_variable :: variable_id
  ia_value :: val

definition ia_concrete :: "variable_id \<Rightarrow> val \<Rightarrow> intervention_assignment" where
  "ia_concrete v x = \<lparr>ia_variable = v, ia_value = x\<rparr>"

definition ia_symbolic :: "variable_id \<Rightarrow> intervention_assignment" where
  "ia_symbolic v = \<lparr>ia_variable = v, ia_value = val_symbolic_intervention\<rparr>"

definition ia_is_symbolic :: "intervention_assignment \<Rightarrow> bool" where
  "ia_is_symbolic a \<longleftrightarrow> val_is_symbolic_intervention (ia_value a)"

section \<open>Nodes\<close>

type_synonym expr_id = nat
type_synonym var_set_id = nat
type_synonym intervention_set_id = nat
type_synonym population_key_id = nat
type_synonym expr_list_id = nat
type_synonym regime_id = nat

datatype contrast_op = Difference

datatype domain_ref = Observational | Interventional

datatype expr_node =
    Distribution var_set_id var_set_id intervention_set_id domain_ref population_key_id
      "regime_id option"
  | Kernel expr_id var_set_id population_key_id "regime_id option"
  | Product expr_list_id
  | SumOut var_set_id expr_id
  | IntegralOut var_set_id expr_id
  | Ratio expr_id expr_id
  | Expectation variable_id expr_id
  | Contrast expr_id expr_id contrast_op

record distribution_leaf =
  dl_variables :: var_set_id
  dl_conditioned_on :: var_set_id
  dl_intervention :: intervention_set_id
  dl_domain :: domain_ref

datatype expr_error =
    RegimeDomainMismatch
  | CaptureOrConflict
  | MissingBinding
  | FreeVariableMismatch
  | CertificateBindFailed
  | InvalidInstrumentSet

record derivation_meta =
  dm_rule :: string
  dm_note :: "string option"
  dm_input :: "expr_id option"
  dm_output :: "expr_id option"
  dm_graph_operation :: "string option"
  dm_premises :: "string list"
  dm_evidence :: "regime_id list"
  dm_parents :: "expr_id list"

definition dm_of_rule :: "string \<Rightarrow> string option \<Rightarrow> derivation_meta" where
  "dm_of_rule rl note = \<lparr>dm_rule = rl, dm_note = note, dm_input = None, dm_output = None,
     dm_graph_operation = None, dm_premises = [], dm_evidence = [], dm_parents = []\<rparr>"

section \<open>The arena\<close>

record expr_arena =
  ar_nodes :: "expr_node list"
  ar_var_sets :: "variable_id list list"
  ar_var_set_index :: "variable_id list \<Rightarrow> var_set_id option"
  ar_interventions :: "intervention_assignment list list"
  ar_intervention_index :: "intervention_assignment list \<Rightarrow> intervention_set_id option"
  ar_lists :: "expr_id list list"
  ar_list_index :: "expr_id list \<Rightarrow> expr_list_id option"
  ar_node_index :: "expr_node \<Rightarrow> expr_id option"
  ar_derivation :: "expr_id \<Rightarrow> derivation_meta option"
  ar_empty_var_set_id :: "var_set_id option"
  ar_empty_intervention_set_id :: "intervention_set_id option"
  ar_populations :: "string list"
  ar_population_index :: "string \<Rightarrow> population_key_id option"
  ar_empty_population_id :: "population_key_id option"

definition ar_new :: expr_arena where
  "ar_new = \<lparr>ar_nodes = [], ar_var_sets = [], ar_var_set_index = (\<lambda>_. None),
     ar_interventions = [], ar_intervention_index = (\<lambda>_. None), ar_lists = [],
     ar_list_index = (\<lambda>_. None), ar_node_index = (\<lambda>_. None), ar_derivation = (\<lambda>_. None),
     ar_empty_var_set_id = None, ar_empty_intervention_set_id = None, ar_populations = [],
     ar_population_index = (\<lambda>_. None), ar_empty_population_id = None\<rparr>"

text \<open>
  The interning step every table repeats: a hit returns the position, a miss appends the entry
  and indexes it; the position must fit a \<open>u32\<close>.
\<close>

definition intern_key ::
  "'k list \<Rightarrow> ('k \<Rightarrow> nat option) \<Rightarrow> 'k \<Rightarrow> (nat \<times> 'k list \<times> ('k \<Rightarrow> nat option)) run" where
  "intern_key items ix k =
     (case ix k of
        Some i \<Rightarrow> Done (i, items, ix)
      | None \<Rightarrow>
          if length items < id_space then Done (length items, items @ [k], ix(k \<mapsto> length items))
          else NoIds)"

definition ar_intern_var_set :: "expr_arena \<Rightarrow> variable_id list \<Rightarrow> (var_set_id \<times> expr_arena) run" where
  "ar_intern_var_set a vars =
     run_bind (intern_key (ar_var_sets a) (ar_var_set_index a) (remdups_adj (sort vars)))
       (\<lambda>(i, items, ix). Done (i, a\<lparr>ar_var_sets := items, ar_var_set_index := ix\<rparr>))"

text \<open>The loop of \<open>try_intern_intervention_assignments\<close>; \<open>kept\<close> is the vector built so far.\<close>

fun merge_assignments ::
  "intervention_assignment list \<Rightarrow> intervention_assignment list \<Rightarrow>
    expr_error + intervention_assignment list" where
  "merge_assignments kept [] = Inr kept"
| "merge_assignments kept (x # xs) =
     (if kept \<noteq> [] \<and> ia_variable (last kept) = ia_variable x
      then (if ia_value (last kept) \<noteq> ia_value x then Inl CaptureOrConflict
            else merge_assignments kept xs)
      else merge_assignments (kept @ [x]) xs)"

definition ar_try_intern_intervention_assignments ::
  "expr_arena \<Rightarrow> intervention_assignment list \<Rightarrow>
    ((expr_error + intervention_set_id) \<times> expr_arena) run" where
  "ar_try_intern_intervention_assignments a asgs =
     (case merge_assignments [] (sort_key ia_variable asgs) of
        Inl e \<Rightarrow> Done (Inl e, a)
      | Inr v \<Rightarrow>
          run_bind (intern_key (ar_interventions a) (ar_intervention_index a) v)
            (\<lambda>(i, items, ix).
              Done (Inr i, a\<lparr>ar_interventions := items, ar_intervention_index := ix\<rparr>)))"

definition ar_intern_intervention_assignments ::
  "expr_arena \<Rightarrow> intervention_assignment list \<Rightarrow> (intervention_set_id \<times> expr_arena) run" where
  "ar_intern_intervention_assignments a asgs =
     run_bind (ar_try_intern_intervention_assignments a asgs)
       (\<lambda>(r, a'). case r of Inl _ \<Rightarrow> Abort | Inr i \<Rightarrow> Done (i, a'))"

definition ar_intern_intervention_set ::
  "expr_arena \<Rightarrow> variable_id list \<Rightarrow> (intervention_set_id \<times> expr_arena) run" where
  "ar_intern_intervention_set a vars = ar_intern_intervention_assignments a (map ia_symbolic vars)"

definition ar_empty_var_set :: "expr_arena \<Rightarrow> (var_set_id \<times> expr_arena) run" where
  "ar_empty_var_set a =
     (case ar_empty_var_set_id a of
        Some i \<Rightarrow> Done (i, a)
      | None \<Rightarrow> run_bind (ar_intern_var_set a []) (\<lambda>(i, a). Done (i, a\<lparr>ar_empty_var_set_id := Some i\<rparr>)))"

definition ar_intern_population :: "expr_arena \<Rightarrow> string \<Rightarrow> (population_key_id \<times> expr_arena) run" where
  "ar_intern_population a k =
     run_bind (intern_key (ar_populations a) (ar_population_index a) k)
       (\<lambda>(i, items, ix). Done (i, a\<lparr>ar_populations := items, ar_population_index := ix\<rparr>))"

definition ar_empty_population :: "expr_arena \<Rightarrow> (population_key_id \<times> expr_arena) run" where
  "ar_empty_population a =
     (case ar_empty_population_id a of
        Some i \<Rightarrow> Done (i, a)
      | None \<Rightarrow> run_bind (ar_intern_population a '''')
          (\<lambda>(i, a). Done (i, a\<lparr>ar_empty_population_id := Some i\<rparr>)))"

definition ar_empty_intervention_set :: "expr_arena \<Rightarrow> (intervention_set_id \<times> expr_arena) run" where
  "ar_empty_intervention_set a =
     (case ar_empty_intervention_set_id a of
        Some i \<Rightarrow> Done (i, a)
      | None \<Rightarrow> run_bind (ar_intern_intervention_assignments a [])
          (\<lambda>(i, a). Done (i, a\<lparr>ar_empty_intervention_set_id := Some i\<rparr>)))"

definition ar_intern_list :: "expr_arena \<Rightarrow> expr_id list \<Rightarrow> (expr_list_id \<times> expr_arena) run" where
  "ar_intern_list a xs =
     run_bind (intern_key (ar_lists a) (ar_list_index a) xs)
       (\<lambda>(i, items, ix). Done (i, a\<lparr>ar_lists := items, ar_list_index := ix\<rparr>))"

definition ar_intern :: "expr_arena \<Rightarrow> expr_node \<Rightarrow> (expr_id \<times> expr_arena) run" where
  "ar_intern a n =
     run_bind (intern_key (ar_nodes a) (ar_node_index a) n)
       (\<lambda>(i, items, ix). Done (i, a\<lparr>ar_nodes := items, ar_node_index := ix\<rparr>))"

definition ar_intern_distribution ::
  "expr_arena \<Rightarrow> var_set_id \<Rightarrow> var_set_id \<Rightarrow> intervention_set_id \<Rightarrow> domain_ref \<Rightarrow>
    (expr_id \<times> expr_arena) run" where
  "ar_intern_distribution a vs cond iv d =
     run_bind (ar_empty_population a) (\<lambda>(p, a). ar_intern a (Distribution vs cond iv d p None))"

definition ar_intern_distribution_tagged ::
  "expr_arena \<Rightarrow> distribution_leaf \<Rightarrow> string \<Rightarrow> regime_id option \<Rightarrow> domain_ref option \<Rightarrow>
    ((expr_error + expr_id) \<times> expr_arena) run" where
  "ar_intern_distribution_tagged a leaf pop regime kind =
     (if regime \<noteq> None \<and> kind \<noteq> None \<and> the kind \<noteq> dl_domain leaf
      then Done (Inl RegimeDomainMismatch, a)
      else run_bind (ar_intern_population a pop) (\<lambda>(p, a).
        run_bind (ar_intern a (Distribution (dl_variables leaf) (dl_conditioned_on leaf)
            (dl_intervention leaf) (dl_domain leaf) p regime))
          (\<lambda>(i, a). Done (Inr i, a))))"

definition ar_intern_kernel ::
  "expr_arena \<Rightarrow> expr_id \<Rightarrow> var_set_id \<Rightarrow> string \<Rightarrow> regime_id option \<Rightarrow>
    (expr_id \<times> expr_arena) run" where
  "ar_intern_kernel a body bound pop regime =
     run_bind (ar_intern_population a pop) (\<lambda>(p, a). ar_intern a (Kernel body bound p regime))"

definition ar_var_set :: "expr_arena \<Rightarrow> var_set_id \<Rightarrow> variable_id list run" where
  "ar_var_set a i = at_index (ar_var_sets a) i"

definition ar_intervention_assignments ::
  "expr_arena \<Rightarrow> intervention_set_id \<Rightarrow> intervention_assignment list run" where
  "ar_intervention_assignments a i = at_index (ar_interventions a) i"

definition ar_intervention_set :: "expr_arena \<Rightarrow> intervention_set_id \<Rightarrow> variable_id list run" where
  "ar_intervention_set a i =
     run_bind (ar_intervention_assignments a i) (\<lambda>xs. Done (map ia_variable xs))"

definition ar_list :: "expr_arena \<Rightarrow> expr_list_id \<Rightarrow> expr_id list run" where
  "ar_list a i = at_index (ar_lists a) i"

definition ar_node :: "expr_arena \<Rightarrow> expr_id \<Rightarrow> expr_node run" where
  "ar_node a i = at_index (ar_nodes a) i"

definition ar_population :: "expr_arena \<Rightarrow> population_key_id \<Rightarrow> string run" where
  "ar_population a i = at_index (ar_populations a) i"

definition ar_len :: "expr_arena \<Rightarrow> nat" where
  "ar_len a = length (ar_nodes a)"

definition ar_is_empty :: "expr_arena \<Rightarrow> bool" where
  "ar_is_empty a \<longleftrightarrow> ar_nodes a = []"

definition ar_derivation_of :: "expr_arena \<Rightarrow> expr_id \<Rightarrow> derivation_meta option" where
  "ar_derivation_of a i = ar_derivation a i"

definition ar_set_derivation :: "expr_arena \<Rightarrow> expr_id \<Rightarrow> derivation_meta \<Rightarrow> expr_arena" where
  "ar_set_derivation a i m = a\<lparr>ar_derivation := (ar_derivation a)(i \<mapsto> m)\<rparr>"

definition ar_set_derivation_if_absent :: "expr_arena \<Rightarrow> expr_id \<Rightarrow> derivation_meta \<Rightarrow> expr_arena" where
  "ar_set_derivation_if_absent a i m =
     (case ar_derivation a i of None \<Rightarrow> ar_set_derivation a i m | Some _ \<Rightarrow> a)"

text \<open>\<open>walk.rs\<close>, \<open>child_ids\<close>; \<open>children_of\<close> in \<open>lib.rs\<close> lists the same ids.\<close>

definition ar_child_ids :: "expr_arena \<Rightarrow> expr_id \<Rightarrow> expr_id list run" where
  "ar_child_ids a i =
     run_bind (ar_node a i) (\<lambda>n. case n of
        Distribution _ _ _ _ _ _ \<Rightarrow> Done []
      | Kernel body _ _ _ \<Rightarrow> Done [body]
      | Product l \<Rightarrow> ar_list a l
      | SumOut _ e \<Rightarrow> Done [e]
      | IntegralOut _ e \<Rightarrow> Done [e]
      | Ratio x y \<Rightarrow> Done [x, y]
      | Expectation _ d \<Rightarrow> Done [d]
      | Contrast x y _ \<Rightarrow> Done [x, y])"

text \<open>Semantic equality of arenas: the tables, not the indexes, the caches or the derivations.\<close>

definition ar_eq :: "expr_arena \<Rightarrow> expr_arena \<Rightarrow> bool" where
  "ar_eq a b \<longleftrightarrow> ar_nodes a = ar_nodes b \<and> ar_var_sets a = ar_var_sets b \<and>
     ar_interventions a = ar_interventions b \<and> ar_lists a = ar_lists b \<and>
     ar_populations a = ar_populations b"

end
