(* ===== verification/Expr_Trees.thy ===== *)
theory Expr_Trees
  imports Expr_Arena
begin

text \<open>
  What the arena operations guarantee. \<open>arena_inv\<close> is kept by every operation and \<open>ar_le\<close> says that
  the tables only grow, so an id keeps its meaning. \<open>tree_of\<close> unfolds an id to the expression it
  stands for; hash-consing makes the unfolding injective on the ids of one arena.
\<close>

section \<open>One interned table\<close>

definition pool_inv :: "'k list \<Rightarrow> ('k \<Rightarrow> nat option) \<Rightarrow> bool" where
  "pool_inv items ix \<longleftrightarrow>
     (\<forall>k i. ix k = Some i \<longleftrightarrow> i < length items \<and> items ! i = k) \<and> length items \<le> id_space"

lemma pool_inv_empty [simp]: "pool_inv [] (\<lambda>_. None)"
  by (simp add: pool_inv_def)

lemma pool_inv_hit: "pool_inv items ix \<Longrightarrow> i < length items \<Longrightarrow> ix (items ! i) = Some i"
  by (simp add: pool_inv_def)

lemma pool_inv_miss: "pool_inv items ix \<Longrightarrow> ix k = None \<Longrightarrow> k \<notin> set items"
  by (auto simp: in_set_conv_nth pool_inv_hit)

lemma pool_inv_distinct: "pool_inv items ix \<Longrightarrow> distinct items"
  unfolding distinct_conv_nth by (metis option.inject pool_inv_hit)

lemma pool_inv_inj:
  "pool_inv items ix \<Longrightarrow> i < length items \<Longrightarrow> j < length items \<Longrightarrow> items ! i = items ! j \<longleftrightarrow> i = j"
  using nth_eq_iff_index_eq[OF pool_inv_distinct] by blast

lemma intern_key_spec:
  assumes "pool_inv items ix"
  shows "holds (\<lambda>(i, items', ix'). pool_inv items' ix' \<and> i < length items' \<and> items' ! i = k \<and>
    prefix items items' \<and> set items' \<subseteq> insert k (set items)) (intern_key items ix k)"
proof (cases "ix k")
  case None
  have fresh: "k \<notin> set items" by (rule pool_inv_miss[OF assms None])
  have "pool_inv (items @ [k]) (ix(k \<mapsto> length items))" if "length items < id_space"
    using assms that fresh by (auto simp: pool_inv_def nth_append less_Suc_eq)
  with None show ?thesis by (auto simp: intern_key_def)
next
  case (Some i)
  with assms have "i < length items" "items ! i = k" by (auto simp: pool_inv_def)
  with Some assms show ?thesis by (auto simp: intern_key_def)
qed

lemma intern_key_known:
  "pool_inv items ix \<Longrightarrow> i < length items \<Longrightarrow> intern_key items ix (items ! i) = Done (i, items, ix)"
  by (simp add: intern_key_def pool_inv_hit)

lemma intern_key_no_ids: "intern_key items ix k = NoIds \<longleftrightarrow> ix k = None \<and> id_space \<le> length items"
  by (auto simp: intern_key_def split: option.splits)

section \<open>The invariant\<close>

fun node_ok :: "expr_arena \<Rightarrow> nat \<Rightarrow> expr_node \<Rightarrow> bool" where
  "node_ok a n (Distribution vs c iv _ p _) \<longleftrightarrow>
     vs < length (ar_var_sets a) \<and> c < length (ar_var_sets a) \<and> iv < length (ar_interventions a) \<and>
     p < length (ar_populations a)"
| "node_ok a n (Kernel b vs p _) \<longleftrightarrow> b < n \<and> vs < length (ar_var_sets a) \<and> p < length (ar_populations a)"
| "node_ok a n (Product l) \<longleftrightarrow> l < length (ar_lists a) \<and> (\<forall>c \<in> set (ar_lists a ! l). c < n)"
| "node_ok a n (SumOut vs e) \<longleftrightarrow> vs < length (ar_var_sets a) \<and> e < n"
| "node_ok a n (IntegralOut vs e) \<longleftrightarrow> vs < length (ar_var_sets a) \<and> e < n"
| "node_ok a n (Ratio x y) \<longleftrightarrow> x < n \<and> y < n"
| "node_ok a n (Expectation _ d) \<longleftrightarrow> d < n"
| "node_ok a n (Contrast x y _) \<longleftrightarrow> x < n \<and> y < n"

definition arena_inv :: "expr_arena \<Rightarrow> bool" where
  "arena_inv a \<longleftrightarrow>
     pool_inv (ar_nodes a) (ar_node_index a) \<and> pool_inv (ar_var_sets a) (ar_var_set_index a) \<and>
     pool_inv (ar_interventions a) (ar_intervention_index a) \<and> pool_inv (ar_lists a) (ar_list_index a) \<and>
     pool_inv (ar_populations a) (ar_population_index a) \<and>
     (\<forall>vs \<in> set (ar_var_sets a). sorted vs \<and> distinct vs) \<and>
     (\<forall>v \<in> set (ar_interventions a). sorted (map ia_variable v) \<and> distinct (map ia_variable v)) \<and>
     (\<forall>l \<in> set (ar_lists a). \<forall>c \<in> set l. c < length (ar_nodes a)) \<and>
     (\<forall>i < length (ar_nodes a). node_ok a i (ar_nodes a ! i)) \<and>
     (\<forall>i. ar_empty_var_set_id a = Some i \<longrightarrow> i < length (ar_var_sets a) \<and> ar_var_sets a ! i = []) \<and>
     (\<forall>i. ar_empty_intervention_set_id a = Some i \<longrightarrow>
        i < length (ar_interventions a) \<and> ar_interventions a ! i = []) \<and>
     (\<forall>i. ar_empty_population_id a = Some i \<longrightarrow>
        i < length (ar_populations a) \<and> ar_populations a ! i = '''')"

definition ar_le :: "expr_arena \<Rightarrow> expr_arena \<Rightarrow> bool" where
  "ar_le a b \<longleftrightarrow> prefix (ar_nodes a) (ar_nodes b) \<and> prefix (ar_var_sets a) (ar_var_sets b) \<and>
     prefix (ar_interventions a) (ar_interventions b) \<and> prefix (ar_lists a) (ar_lists b) \<and>
     prefix (ar_populations a) (ar_populations b)"

lemma ar_le_refl [simp, intro!]: "ar_le a a"
  by (simp add: ar_le_def)

lemma ar_le_trans [trans]: "ar_le a b \<Longrightarrow> ar_le b c \<Longrightarrow> ar_le a c"
  unfolding ar_le_def by (meson prefix_order.trans)

lemma prefix_nth: "prefix xs ys \<Longrightarrow> i < length xs \<Longrightarrow> i < length ys \<and> ys ! i = xs ! i"
  by (auto simp: prefix_def nth_append)

lemma ar_le_entries:
  assumes "ar_le a b"
  shows "i < length (ar_nodes a) \<Longrightarrow> i < length (ar_nodes b) \<and> ar_nodes b ! i = ar_nodes a ! i"
    and "i < length (ar_var_sets a) \<Longrightarrow> i < length (ar_var_sets b) \<and> ar_var_sets b ! i = ar_var_sets a ! i"
    and "i < length (ar_interventions a) \<Longrightarrow>
      i < length (ar_interventions b) \<and> ar_interventions b ! i = ar_interventions a ! i"
    and "i < length (ar_lists a) \<Longrightarrow> i < length (ar_lists b) \<and> ar_lists b ! i = ar_lists a ! i"
    and "i < length (ar_populations a) \<Longrightarrow>
      i < length (ar_populations b) \<and> ar_populations b ! i = ar_populations a ! i"
  using assms prefix_nth unfolding ar_le_def by blast+

lemma ar_le_length: "ar_le a b \<Longrightarrow> length (ar_nodes a) \<le> length (ar_nodes b)"
  by (simp add: ar_le_def prefix_length_le)

lemma node_ok_mono: "node_ok a n x \<Longrightarrow> ar_le a b \<Longrightarrow> n \<le> m \<Longrightarrow> node_ok b m x"
proof (cases x)
  case (Product l)
  assume "node_ok a n x" "ar_le a b" "n \<le> m"
  with Product ar_le_entries(4)[OF \<open>ar_le a b\<close>, of l] show ?thesis by fastforce
qed (auto dest: ar_le_entries)

lemma arena_inv_new [simp]: "arena_inv ar_new"
  by (simp add: arena_inv_def ar_new_def)

lemma arena_invD:
  assumes "arena_inv a"
  shows "pool_inv (ar_nodes a) (ar_node_index a)" "pool_inv (ar_var_sets a) (ar_var_set_index a)"
    "pool_inv (ar_interventions a) (ar_intervention_index a)" "pool_inv (ar_lists a) (ar_list_index a)"
    "pool_inv (ar_populations a) (ar_population_index a)"
    "i < length (ar_nodes a) \<Longrightarrow> node_ok a i (ar_nodes a ! i)"
    "j < length (ar_var_sets a) \<Longrightarrow> sorted (ar_var_sets a ! j) \<and> distinct (ar_var_sets a ! j)"
    "j < length (ar_interventions a) \<Longrightarrow>
      sorted (map ia_variable (ar_interventions a ! j)) \<and> distinct (map ia_variable (ar_interventions a ! j))"
    "j < length (ar_lists a) \<Longrightarrow> c \<in> set (ar_lists a ! j) \<Longrightarrow> c < length (ar_nodes a)"
  using assms unfolding arena_inv_def by (simp_all, blast intro: nth_mem)

text \<open>What an operation that only appends leaves behind.\<close>

definition grows :: "expr_arena \<Rightarrow> expr_arena \<Rightarrow> bool" where
  "grows a b \<longleftrightarrow> arena_inv b \<and> ar_le a b"

lemma growsI: "arena_inv b \<Longrightarrow> ar_le a b \<Longrightarrow> grows a b"
  and growsD: "grows a b \<Longrightarrow> arena_inv b \<and> ar_le a b"
  by (simp_all add: grows_def)

lemma grows_refl [simp]: "grows a a \<longleftrightarrow> arena_inv a"
  by (simp add: grows_def)

lemma grows_trans [trans]: "grows a b \<Longrightarrow> grows b c \<Longrightarrow> grows a c"
  using ar_le_trans by (auto simp: grows_def)

section \<open>The operations\<close>

lemma sorted_dedup_distinct: "sorted xs \<Longrightarrow> distinct (remdups_adj xs)" for xs :: "nat list"
  by (induction xs rule: remdups_adj.induct) auto

lemma sort_dedup_set: "remdups_adj (sort xs) = sorted_list_of_set (set xs)" for xs :: "nat list"
  using sorted_dedup_distinct[of "sort xs"] sorted_list_of_set.idem_if_sorted_distinct[of "remdups_adj (sort xs)"]
  by simp

lemma node_ok_cong:
  "ar_var_sets b = ar_var_sets a \<Longrightarrow> ar_interventions b = ar_interventions a \<Longrightarrow>
    ar_lists b = ar_lists a \<Longrightarrow> ar_populations b = ar_populations a \<Longrightarrow> node_ok b n x = node_ok a n x"
  by (cases x) simp_all

text \<open>The invariant after a step that appends to the tables: only the new entries are checked.\<close>

lemma arena_inv_append:
  assumes inv: "arena_inv a" and le: "ar_le a b"
    and pools: "pool_inv (ar_nodes b) (ar_node_index b)" "pool_inv (ar_var_sets b) (ar_var_set_index b)"
      "pool_inv (ar_interventions b) (ar_intervention_index b)" "pool_inv (ar_lists b) (ar_list_index b)"
      "pool_inv (ar_populations b) (ar_population_index b)"
    and sets: "\<And>vs. vs \<in> set (ar_var_sets b) \<Longrightarrow> vs \<notin> set (ar_var_sets a) \<Longrightarrow> sorted vs \<and> distinct vs"
    and asgs: "\<And>v. v \<in> set (ar_interventions b) \<Longrightarrow> v \<notin> set (ar_interventions a) \<Longrightarrow>
      sorted (map ia_variable v) \<and> distinct (map ia_variable v)"
    and lists: "\<And>l c. l \<in> set (ar_lists b) \<Longrightarrow> l \<notin> set (ar_lists a) \<Longrightarrow> c \<in> set l \<Longrightarrow>
      c < length (ar_nodes a)"
    and nodes: "\<And>i. length (ar_nodes a) \<le> i \<Longrightarrow> i < length (ar_nodes b) \<Longrightarrow> node_ok b i (ar_nodes b ! i)"
    and caches: "ar_empty_var_set_id b = ar_empty_var_set_id a"
      "ar_empty_intervention_set_id b = ar_empty_intervention_set_id a"
      "ar_empty_population_id b = ar_empty_population_id a"
  shows "grows a b"
proof (rule growsI[OF _ le])
  note len = ar_le_length[OF le] and entries = ar_le_entries[OF le]
  have "node_ok b i (ar_nodes b ! i)" if "i < length (ar_nodes b)" for i
  proof (cases "i < length (ar_nodes a)")
    case True
    then show ?thesis using node_ok_mono[OF arena_invD(6)[OF inv True] le order_refl] entries(1)[OF True] by simp
  qed (use nodes that in simp)
  moreover have "sorted vs \<and> distinct vs" if "vs \<in> set (ar_var_sets b)" for vs
    using that sets inv by (cases "vs \<in> set (ar_var_sets a)") (simp_all add: arena_inv_def)
  moreover have "sorted (map ia_variable v) \<and> distinct (map ia_variable v)" if "v \<in> set (ar_interventions b)" for v
    using that asgs inv by (cases "v \<in> set (ar_interventions a)") (simp_all add: arena_inv_def)
  moreover have "c < length (ar_nodes b)" if "l \<in> set (ar_lists b)" "c \<in> set l" for l c
  proof -
    have "c < length (ar_nodes a)"
      using that lists inv by (cases "l \<in> set (ar_lists a)") (auto simp: arena_inv_def)
    with len show ?thesis by simp
  qed
  moreover have "i < length (ar_var_sets b) \<and> ar_var_sets b ! i = []" if "ar_empty_var_set_id b = Some i" for i
    using that caches inv entries(2)[of i] by (simp add: arena_inv_def)
  moreover have "i < length (ar_interventions b) \<and> ar_interventions b ! i = []"
    if "ar_empty_intervention_set_id b = Some i" for i
    using that caches inv entries(3)[of i] by (simp add: arena_inv_def)
  moreover have "i < length (ar_populations b) \<and> ar_populations b ! i = []"  
    if "ar_empty_population_id b = Some i" for i
    using that caches inv entries(5)[of i] by (simp add: arena_inv_def)
  ultimately show "arena_inv b" unfolding arena_inv_def using pools by blast
qed

text \<open>
  The contract of one interned table of the arena: its entries and index agree, writing it back changes
  nothing, and appending an entry that is allowed there grows the arena. The lemmas say what the
  interning step then returns.
\<close>

locale intern_table =
  fixes items :: "expr_arena \<Rightarrow> 'k list" and index :: "expr_arena \<Rightarrow> 'k \<Rightarrow> nat option"
    and put :: "'k list \<Rightarrow> ('k \<Rightarrow> nat option) \<Rightarrow> expr_arena \<Rightarrow> expr_arena"
    and entry_ok :: "expr_arena \<Rightarrow> 'k \<Rightarrow> bool"
  assumes table_inv: "arena_inv a \<Longrightarrow> pool_inv (items a) (index a)"
    and items_put: "items (put xs ix a) = xs"
    and put_same: "put (items a) (index a) a = a"
    and put_new: "arena_inv a \<Longrightarrow> entry_ok a k \<Longrightarrow> k \<notin> set (items a) \<Longrightarrow> pool_inv (items a @ [k]) ix \<Longrightarrow>
      grows a (put (items a @ [k]) ix a)"
begin

lemma intern_step:
  assumes "arena_inv a" "entry_ok a k"
  shows "holds (\<lambda>(i, b). grows a b \<and> i < length (items b) \<and> items b ! i = k \<and> (\<exists>xs ix. b = put xs ix a))
    (run_bind (intern_key (items a) (index a) k) (\<lambda>(i, xs, ix). Done (i, put xs ix a)))"
proof (cases "index a k")
  case None
  note pool = table_inv[OF assms(1)]
  have "pool_inv (items a @ [k]) ((index a)(k \<mapsto> length (items a)))" if "length (items a) < id_space"
    using intern_key_spec[OF pool, of k] None that by (simp add: intern_key_def)
  then show ?thesis
    using None put_new[OF assms pool_inv_miss[OF pool None]] items_put by (auto simp: intern_key_def)
next
  case (Some i)
  then have "i < length (items a) \<and> items a ! i = k" using table_inv[OF assms(1)] by (simp add: pool_inv_def)
  with Some assms(1) put_same show ?thesis by (simp add: intern_key_def) metis
qed

lemma intern_again:
  assumes "arena_inv a" "i < length (items a)"
  shows "run_bind (intern_key (items a) (index a) (items a ! i)) (\<lambda>(i, xs, ix). Done (i, put xs ix a)) = Done (i, a)"
  using intern_key_known[OF table_inv[OF assms(1)] assms(2)] put_same by simp

end

text \<open>The five tables of the arena.\<close>

interpretation var_sets: intern_table ar_var_sets ar_var_set_index
  "\<lambda>xs ix a. a\<lparr>ar_var_sets := xs, ar_var_set_index := ix\<rparr>" "\<lambda>a vs. sorted vs \<and> distinct vs"
  by unfold_locales (simp_all add: arena_invD, intro arena_inv_append, auto simp: ar_le_def arena_invD)

interpretation interventions: intern_table ar_interventions ar_intervention_index
  "\<lambda>xs ix a. a\<lparr>ar_interventions := xs, ar_intervention_index := ix\<rparr>"
  "\<lambda>a v. sorted (map ia_variable v) \<and> distinct (map ia_variable v)"
  by unfold_locales (simp_all add: arena_invD, intro arena_inv_append, auto simp: ar_le_def arena_invD)

interpretation populations: intern_table ar_populations ar_population_index
  "\<lambda>xs ix a. a\<lparr>ar_populations := xs, ar_population_index := ix\<rparr>" "\<lambda>a k. True"
  by unfold_locales (simp_all add: arena_invD, intro arena_inv_append, auto simp: ar_le_def arena_invD)

interpretation lists: intern_table ar_lists ar_list_index
  "\<lambda>xs ix a. a\<lparr>ar_lists := xs, ar_list_index := ix\<rparr>" "\<lambda>a l. \<forall>c \<in> set l. c < length (ar_nodes a)"
  by unfold_locales (simp_all add: arena_invD, intro arena_inv_append, auto simp: ar_le_def arena_invD)

lemma node_append_grows:
  assumes "arena_inv a" "node_ok a (length (ar_nodes a)) n" "pool_inv (ar_nodes a @ [n]) ix"
  shows "grows a (a\<lparr>ar_nodes := ar_nodes a @ [n], ar_node_index := ix\<rparr>)"
proof -
  let ?b = "a\<lparr>ar_nodes := ar_nodes a @ [n], ar_node_index := ix\<rparr>"
  have "node_ok ?b (length (ar_nodes a)) n" using assms(2) by (cases n) auto
  with assms show ?thesis
    by (intro arena_inv_append) (auto simp: ar_le_def arena_invD nth_append le_less_Suc_eq)
qed

interpretation node_table: intern_table ar_nodes ar_node_index
  "\<lambda>xs ix a. a\<lparr>ar_nodes := xs, ar_node_index := ix\<rparr>" "\<lambda>a n. node_ok a (length (ar_nodes a)) n"
  by unfold_locales (simp_all add: arena_invD node_append_grows)

lemma ar_intern_var_set_spec:
  assumes "arena_inv a"
  shows "holds (\<lambda>(i, a'). grows a a' \<and> i < length (ar_var_sets a') \<and>
    ar_var_sets a' ! i = sorted_list_of_set (set vars)) (ar_intern_var_set a vars)"
  unfolding ar_intern_var_set_def sort_dedup_set
  by (rule holds_mono[OF var_sets.intern_step[OF assms]]) auto

lemma ar_empty_var_set_spec:
  assumes "arena_inv a"
  shows "holds (\<lambda>(i, a'). grows a a' \<and> i < length (ar_var_sets a') \<and> ar_var_sets a' ! i = [])
    (ar_empty_var_set a)"
proof (cases "ar_empty_var_set_id a")
  case None
  show ?thesis
    unfolding ar_empty_var_set_def None option.case
  proof (rule holds_bind[OF ar_intern_var_set_spec[OF assms]], clarsimp)
    fix i b assume b: "grows a b" "i < length (ar_var_sets b)" "ar_var_sets b ! i = []"
    let ?c = "b\<lparr>ar_empty_var_set_id := Some i\<rparr>"
    have "arena_inv ?c"
      using growsD[OF b(1)] b(2,3) by (simp add: arena_inv_def node_ok_cong[of ?c b])
    then show "grows a ?c" using growsD[OF b(1)] by (auto simp: grows_def ar_le_def)
  qed
qed (use assms in \<open>simp add: ar_empty_var_set_def arena_inv_def\<close>)

lemma merge_assignments_sound:
  assumes "merge_assignments kept xs = Inr out"
    and "sorted (map ia_variable (kept @ xs))" "distinct (map ia_variable kept)"
  shows "sorted (map ia_variable out) \<and> distinct (map ia_variable out) \<and> set out = set kept \<union> set xs"
  using assms
proof (induction kept xs rule: merge_assignments.induct)
  case (2 kept x xs)
  show ?case
  proof (cases "kept \<noteq> [] \<and> ia_variable (last kept) = ia_variable x")
    case True
    with 2(3) have same: "ia_value (last kept) = ia_value x" by (auto split: if_splits)
    with True have "x = last kept" by (simp add: intervention_assignment.equality)
    then have "x \<in> set kept" using True by simp
    moreover have "sorted (map ia_variable (kept @ xs))" using 2(4) by (simp add: sorted_append)
    ultimately show ?thesis using 2(1)[OF True] same 2(3,5) True by auto
  next
    case False
    have "ia_variable x \<notin> set (map ia_variable kept)"
    proof
      assume "ia_variable x \<in> set (map ia_variable kept)"
      then obtain y where y: "y \<in> set kept" "ia_variable y = ia_variable x" by auto
      then have ne: "kept \<noteq> []" by auto
      have "sorted (map ia_variable (butlast kept @ [last kept]))" using 2(4) ne by (simp add: sorted_append)
      moreover have "y = last kept \<or> y \<in> set (butlast kept)"
        using y(1) ne by (metis append_butlast_last_id rotate1.simps(2) set_ConsD set_rotate1)
      ultimately have "ia_variable y \<le> ia_variable (last kept)" by (auto simp: sorted_append simp del: append_butlast_last_id)
      moreover have "ia_variable (last kept) \<le> ia_variable x"
        using 2(4) ne by (auto simp: sorted_append)
      ultimately show False using y(2) False ne by simp
    qed
    then show ?thesis using 2(2)[OF False] 2(3-5) False by auto
  qed
qed simp

text \<open>It refuses exactly when a variable is given two values.\<close>

lemma merge_assignments_complete:
  assumes "inj_on ia_variable (set kept \<union> set xs)"
  shows "\<exists>out. merge_assignments kept xs = Inr out"
  using assms
proof (induction kept xs rule: merge_assignments.induct)
  case (2 kept x xs)
  show ?case
  proof (cases "kept \<noteq> [] \<and> ia_variable (last kept) = ia_variable x")
    case True
    then have "last kept = x" using 2(3) by (intro inj_onD[OF 2(3)]) simp_all
    then show ?thesis using 2(1)[OF True] 2(3) True by (simp add: inj_on_def)
  next
    case False
    then show ?thesis using 2(2)[OF False] 2(3) by (auto simp: inj_on_def)
  qed
qed simp

lemma merge_assignments_error: "merge_assignments kept xs = Inl e \<Longrightarrow> e = CaptureOrConflict"
  by (induction kept xs rule: merge_assignments.induct) (auto split: if_splits)

lemma ar_try_intern_assignments_spec:
  assumes "arena_inv a"
  shows "holds (\<lambda>(r, a'). grows a a' \<and> (case r of
      Inl e \<Rightarrow> e = CaptureOrConflict \<and> a' = a \<and> \<not> inj_on ia_variable (set asgs)
    | Inr i \<Rightarrow> i < length (ar_interventions a') \<and> set (ar_interventions a' ! i) = set asgs \<and>
        sorted (map ia_variable (ar_interventions a' ! i)) \<and> distinct (map ia_variable (ar_interventions a' ! i))))
    (ar_try_intern_intervention_assignments a asgs)"
proof (cases "merge_assignments [] (sort_key ia_variable asgs)")
  case (Inl e)
  moreover have "e = CaptureOrConflict" by (rule merge_assignments_error[OF Inl])
  moreover have "\<not> inj_on ia_variable (set asgs)"
    using merge_assignments_complete[of "[]" "sort_key ia_variable asgs"] Inl by auto
  ultimately show ?thesis using assms by (simp add: ar_try_intern_intervention_assignments_def)
next
  case (Inr v)
  have v: "sorted (map ia_variable v)" "distinct (map ia_variable v)" "set v = set asgs"
    using merge_assignments_sound[OF Inr] by simp_all
  have step: "ar_try_intern_intervention_assignments a asgs =
      run_bind (run_bind (intern_key (ar_interventions a) (ar_intervention_index a) v)
        (\<lambda>(i, xs, ix). Done (i, a\<lparr>ar_interventions := xs, ar_intervention_index := ix\<rparr>))) (\<lambda>(i, b). Done (Inr i, b))"
    by (cases "intern_key (ar_interventions a) (ar_intervention_index a) v")
      (auto simp: ar_try_intern_intervention_assignments_def Inr)
  show ?thesis
    unfolding step by (rule holds_bind[OF interventions.intern_step[OF assms]]) (use v in auto)
qed

lemma ar_intern_assignments_spec:
  assumes "arena_inv a" and "inj_on ia_variable (set asgs)"
  shows "holds (\<lambda>(i, a'). grows a a' \<and> i < length (ar_interventions a') \<and>
      set (ar_interventions a' ! i) = set asgs \<and> sorted (map ia_variable (ar_interventions a' ! i)) \<and>
      distinct (map ia_variable (ar_interventions a' ! i)))
    (ar_intern_intervention_assignments a asgs)"
  unfolding ar_intern_intervention_assignments_def
  by (rule holds_bind[OF ar_try_intern_assignments_spec[OF assms(1)]]) (use assms(2) in \<open>auto split: sum.splits\<close>)

lemma ar_empty_intervention_set_spec:
  assumes "arena_inv a"
  shows "holds (\<lambda>(i, a'). grows a a' \<and> i < length (ar_interventions a') \<and> ar_interventions a' ! i = [])
    (ar_empty_intervention_set a)"
proof (cases "ar_empty_intervention_set_id a")
  case None
  show ?thesis
    unfolding ar_empty_intervention_set_def None option.case
  proof (rule holds_bind[OF ar_intern_assignments_spec[OF assms]], simp, clarsimp)
    fix i b assume b: "grows a b" "i < length (ar_interventions b)" "ar_interventions b ! i = []"
    let ?c = "b\<lparr>ar_empty_intervention_set_id := Some i\<rparr>"
    have "arena_inv ?c"
      using growsD[OF b(1)] b(2,3) by (simp add: arena_inv_def node_ok_cong[of ?c b])
    then show "grows a ?c" using growsD[OF b(1)] by (auto simp: grows_def ar_le_def)
  qed
qed (use assms in \<open>simp add: ar_empty_intervention_set_def arena_inv_def\<close>)

lemma ar_intern_population_spec:
  assumes "arena_inv a"
  shows "holds (\<lambda>(i, a'). grows a a' \<and> i < length (ar_populations a') \<and> ar_populations a' ! i = k)
    (ar_intern_population a k)"
  unfolding ar_intern_population_def by (rule holds_mono[OF populations.intern_step[OF assms]]) auto

lemma ar_empty_population_spec:
  assumes "arena_inv a"
  shows "holds (\<lambda>(i, a'). grows a a' \<and> i < length (ar_populations a') \<and> ar_populations a' ! i = [])
    (ar_empty_population a)"
proof (cases "ar_empty_population_id a")
  case None
  show ?thesis
    unfolding ar_empty_population_def None option.case
  proof (rule holds_bind[OF ar_intern_population_spec[OF assms]], clarsimp)
    fix i b assume b: "grows a b" "i < length (ar_populations b)" "ar_populations b ! i = []"
    let ?c = "b\<lparr>ar_empty_population_id := Some i\<rparr>"
    have "arena_inv ?c"
      using growsD[OF b(1)] b(2,3) by (simp add: arena_inv_def node_ok_cong[of ?c b])
    then show "grows a ?c" using growsD[OF b(1)] by (auto simp: grows_def ar_le_def)
  qed
qed (use assms in \<open>simp add: ar_empty_population_def arena_inv_def\<close>)

lemma ar_intern_list_spec:
  assumes "arena_inv a" and "\<forall>c \<in> set xs. c < length (ar_nodes a)"
  shows "holds (\<lambda>(i, a'). grows a a' \<and> i < length (ar_lists a') \<and> ar_lists a' ! i = xs \<and>
    ar_nodes a' = ar_nodes a) (ar_intern_list a xs)"
  unfolding ar_intern_list_def by (rule holds_mono[OF lists.intern_step[OF assms]]) auto

lemma ar_intern_spec:
  assumes "arena_inv a" and "node_ok a (length (ar_nodes a)) n"
  shows "holds (\<lambda>(i, a'). grows a a' \<and> i < length (ar_nodes a') \<and> ar_nodes a' ! i = n) (ar_intern a n)"
  unfolding ar_intern_def by (rule holds_mono[OF node_table.intern_step[OF assms]]) auto

lemma ar_intern_again: "arena_inv a \<Longrightarrow> i < length (ar_nodes a) \<Longrightarrow> ar_intern a (ar_nodes a ! i) = Done (i, a)"
  unfolding ar_intern_def by (rule node_table.intern_again)

section \<open>Unfolding an id to the expression it stands for\<close>

datatype expr_tree =
    TDistribution "variable_id list" "variable_id list" "intervention_assignment list" domain_ref
      string "regime_id option"
  | TKernel expr_tree "variable_id list" string "regime_id option"
  | TProduct "expr_tree list"
  | TSumOut "variable_id list" expr_tree
  | TIntegralOut "variable_id list" expr_tree
  | TRatio expr_tree expr_tree
  | TExpectation variable_id expr_tree
  | TContrast expr_tree expr_tree contrast_op
  | TDangling

fun node_view :: "expr_arena \<Rightarrow> (expr_id \<Rightarrow> expr_tree) \<Rightarrow> expr_node \<Rightarrow> expr_tree" where
  "node_view a sub (Distribution vs c iv d p r) =
     TDistribution (row (ar_var_sets a) vs) (row (ar_var_sets a) c) (row (ar_interventions a) iv) d
       (row (ar_populations a) p) r"
| "node_view a sub (Kernel b vs p r) = TKernel (sub b) (row (ar_var_sets a) vs) (row (ar_populations a) p) r"
| "node_view a sub (Product l) = TProduct (map sub (row (ar_lists a) l))"
| "node_view a sub (SumOut vs e) = TSumOut (row (ar_var_sets a) vs) (sub e)"
| "node_view a sub (IntegralOut vs e) = TIntegralOut (row (ar_var_sets a) vs) (sub e)"
| "node_view a sub (Ratio x y) = TRatio (sub x) (sub y)"
| "node_view a sub (Expectation f d) = TExpectation f (sub d)"
| "node_view a sub (Contrast x y p) = TContrast (sub x) (sub y) p"

fun node_kids :: "expr_arena \<Rightarrow> expr_node \<Rightarrow> expr_id list" where
  "node_kids a (Distribution _ _ _ _ _ _) = []"
| "node_kids a (Kernel b _ _ _) = [b]"
| "node_kids a (Product l) = row (ar_lists a) l"
| "node_kids a (SumOut _ e) = [e]"
| "node_kids a (IntegralOut _ e) = [e]"
| "node_kids a (Ratio x y) = [x, y]"
| "node_kids a (Expectation _ d) = [d]"
| "node_kids a (Contrast x y _) = [x, y]"

function tree_of :: "expr_arena \<Rightarrow> expr_id \<Rightarrow> expr_tree" where
  "tree_of a i =
     (if i < length (ar_nodes a)
      then node_view a (\<lambda>c. if c < i then tree_of a c else TDangling) (ar_nodes a ! i) else TDangling)"
  by pat_completeness auto
termination by (relation "measure snd") auto

declare tree_of.simps [simp del]

lemma node_view_cong:
  "(\<And>c. c \<in> set (node_kids a n) \<Longrightarrow> f c = g c) \<Longrightarrow> node_view a f n = node_view a g n"
  by (cases n) auto

lemma node_ok_kids: "node_ok a i n \<Longrightarrow> c \<in> set (node_kids a n) \<Longrightarrow> c < i"
  by (cases n) (auto simp: row_def split: if_splits)

lemma tree_of_node:
  assumes "arena_inv a" "i < length (ar_nodes a)"
  shows "tree_of a i = node_view a (tree_of a) (ar_nodes a ! i)"
  using node_ok_kids[OF arena_invD(6)[OF assms]] assms(2)
  by (subst tree_of.simps) (auto intro: node_view_cong)

lemma node_view_mono:
  assumes "node_ok a i n" "ar_le a b"
  shows "node_view b f n = node_view a f n" "node_kids b n = node_kids a n"
  using assms by (cases n; auto simp: row_def dest: ar_le_entries)+

lemma tree_of_mono:
  assumes "arena_inv a" "arena_inv b" "ar_le a b" "i < length (ar_nodes a)"
  shows "tree_of b i = tree_of a i"
  using assms(4)
proof (induction i rule: less_induct)
  case (less i)
  have i: "i < length (ar_nodes b)" "ar_nodes b ! i = ar_nodes a ! i"
    using ar_le_entries(1)[OF assms(3) less.prems] by simp_all
  have "tree_of b i = node_view a (tree_of b) (ar_nodes a ! i)"
    using tree_of_node[OF assms(2) i(1)] node_view_mono(1)[OF arena_invD(6)[OF assms(1) less.prems] assms(3)] i(2)
    by simp
  also have "\<dots> = node_view a (tree_of a) (ar_nodes a ! i)"
  proof (rule node_view_cong)
    fix c assume "c \<in> set (node_kids a (ar_nodes a ! i))"
    then have "c < i" by (rule node_ok_kids[OF arena_invD(6)[OF assms(1) less.prems]])
    then show "tree_of b c = tree_of a c" using less by simp
  qed
  also have "\<dots> = tree_of a i" using tree_of_node[OF assms(1) less.prems] by simp
  finally show ?case .
qed

lemmas grows_tree = tree_of_mono[OF _ conjunct1[OF growsD] conjunct2[OF growsD]]

lemma grows_length: "grows a b \<Longrightarrow> i < length (ar_nodes a) \<Longrightarrow> i < length (ar_nodes b)"
  using ar_le_length growsD by fastforce

lemma map_pair_inj:
  "map f xs = map g ys \<Longrightarrow> (\<And>x y. x \<in> set xs \<Longrightarrow> y \<in> set ys \<Longrightarrow> f x = g y \<Longrightarrow> x = y) \<Longrightarrow> xs = ys"
proof (induction xs arbitrary: ys)
  case (Cons x xs)
  then show ?case by (cases ys) auto
qed simp

text \<open>Hash-consing: equal expressions have equal ids.\<close>

lemma tree_of_inj:
  assumes inv: "arena_inv a"
  shows "i < length (ar_nodes a) \<Longrightarrow> j < length (ar_nodes a) \<Longrightarrow> tree_of a i = tree_of a j \<Longrightarrow> i = j"
proof (induction i arbitrary: j rule: less_induct)
  case (less i)
  let ?m = "ar_nodes a ! i" and ?n = "ar_nodes a ! j"
  have ok: "node_ok a i ?m" "node_ok a j ?n" using arena_invD(6)[OF inv] less.prems by simp_all
  have eq: "node_view a (tree_of a) ?m = node_view a (tree_of a) ?n"
    using less.prems(3) tree_of_node[OF inv less.prems(1)] tree_of_node[OF inv less.prems(2)] by simp
  have same: "x = y" if "x \<in> set (node_kids a ?m)" "y \<in> set (node_kids a ?n)" "tree_of a x = tree_of a y" for x y
    using less.IH[of x y] node_ok_kids[OF ok(1) that(1)] node_ok_kids[OF ok(2) that(2)] less.prems that(3)
    by simp
  note inj = pool_inv_inj[OF arena_invD(2)[OF inv]] pool_inv_inj[OF arena_invD(3)[OF inv]]
    pool_inv_inj[OF arena_invD(4)[OF inv]] pool_inv_inj[OF arena_invD(5)[OF inv]]
  have "?m = ?n"
  proof (cases ?m)
    case (Product l)
    then obtain k where k: "?n = Product k" using eq by (cases ?n) auto
    have "map (tree_of a) (row (ar_lists a) l) = map (tree_of a) (row (ar_lists a) k)"
      using eq Product k by simp
    moreover have "x = y" if "x \<in> set (row (ar_lists a) l)" "y \<in> set (row (ar_lists a) k)"
      "tree_of a x = tree_of a y" for x y
      by (rule same) (use that Product k in simp_all)
    ultimately have "row (ar_lists a) l = row (ar_lists a) k" by (rule map_pair_inj)
    with Product k ok inj(3) show ?thesis by (simp add: row_def)
  next
    case (Kernel b vs p r)
    then obtain b' vs' p' where k: "?n = Kernel b' vs' p' r" using eq by (cases ?n) auto
    with Kernel same[of b b'] eq ok inj(1,4) show ?thesis by (simp add: row_def)
  next
    case (SumOut vs e)
    then obtain vs' e' where k: "?n = SumOut vs' e'" using eq by (cases ?n) auto
    with SumOut same[of e e'] eq ok inj(1) show ?thesis by (simp add: row_def)
  next
    case (IntegralOut vs e)
    then obtain vs' e' where k: "?n = IntegralOut vs' e'" using eq by (cases ?n) auto
    with IntegralOut same[of e e'] eq ok inj(1) show ?thesis by (simp add: row_def)
  next
    case (Ratio x y)
    then obtain x' y' where k: "?n = Ratio x' y'" using eq by (cases ?n) auto
    with Ratio same[of x x'] same[of y y'] eq show ?thesis by simp
  next
    case (Expectation g d)
    then obtain d' where k: "?n = Expectation g d'" using eq by (cases ?n) auto
    with Expectation same[of d d'] eq show ?thesis by simp
  next
    case (Contrast x y p)
    then obtain x' y' where k: "?n = Contrast x' y' p" using eq by (cases ?n) auto
    with Contrast same[of x x'] same[of y y'] eq show ?thesis by simp
  next
    case (Distribution vs c iv d p r)
    then obtain vs' c' iv' p' where k: "?n = Distribution vs' c' iv' d p' r" using eq by (cases ?n) auto
    with Distribution eq ok inj(1,2,4) show ?thesis by (simp add: row_def)
  qed
  then show ?case using pool_inv_inj[OF arena_invD(1)[OF inv]] less.prems by simp
qed

text \<open>What interning one node yields, in terms of trees.\<close>

lemma ar_intern_tree:
  assumes "arena_inv a" "node_ok a (length (ar_nodes a)) n"
  shows "holds (\<lambda>(i, a'). grows a a' \<and> i < length (ar_nodes a') \<and>
    tree_of a' i = node_view a (tree_of a) n) (ar_intern a n)"
proof (rule holds_mono[OF ar_intern_spec[OF assms]], clarsimp)
  fix i b assume b: "grows a b" "i < length (ar_nodes b)" "n = ar_nodes b ! i"
  note g = growsD[OF b(1)]
  have "tree_of b i = node_view b (tree_of b) n"
    unfolding b(3) by (rule tree_of_node[OF conjunct1[OF g] b(2)])
  also have "\<dots> = node_view a (tree_of b) n"
    by (rule node_view_mono(1)[OF assms(2) conjunct2[OF g]])
  also have "\<dots> = node_view a (tree_of a) n"
  proof (rule node_view_cong)
    fix c assume "c \<in> set (node_kids a n)"
    then have "c < length (ar_nodes a)" by (rule node_ok_kids[OF assms(2)])
    then show "tree_of b c = tree_of a c" by (rule grows_tree[OF assms(1) b(1) b(1)])
  qed
  finally show "tree_of b i = node_view a (tree_of a) (ar_nodes b ! i)" using b(3) by simp
qed

section \<open>Free variables\<close>

fun free_of :: "expr_tree \<Rightarrow> nat set" where
  "free_of (TDistribution vs c iv _ _ _) =
     set vs \<union> {v \<in> set c. \<not> (\<exists>x \<in> set iv. ia_variable x = v \<and> \<not> ia_is_symbolic x)} \<union>
     {ia_variable x | x. x \<in> set iv \<and> ia_is_symbolic x}"
| "free_of (TKernel b _ _ _) = free_of b"
| "free_of (TProduct ts) = (\<Union>t \<in> set ts. free_of t)"
| "free_of (TSumOut vs e) = free_of e - set vs"
| "free_of (TIntegralOut vs e) = free_of e - set vs"
| "free_of (TRatio x y) = free_of x \<union> free_of y"
| "free_of (TExpectation f d) = free_of d - {f}"
| "free_of (TContrast x y _) = free_of x \<union> free_of y"
| "free_of TDangling = {}"

lemma finite_free_of [simp]: "finite (free_of t)"
  by (induction t) auto

text \<open>Every binder binds only variables its body depends on.\<close>

fun live :: "expr_tree \<Rightarrow> bool" where
  "live (TKernel b _ _ _) \<longleftrightarrow> live b"
| "live (TProduct ts) \<longleftrightarrow> (\<forall>t \<in> set ts. live t)"
| "live (TSumOut vs e) \<longleftrightarrow> set vs \<subseteq> free_of e \<and> live e"
| "live (TIntegralOut vs e) \<longleftrightarrow> set vs \<subseteq> free_of e \<and> live e"
| "live (TRatio x y) \<longleftrightarrow> live x \<and> live y"
| "live (TExpectation _ d) \<longleftrightarrow> live d"
| "live (TContrast x y _) \<longleftrightarrow> live x \<and> live y"
| "live _ \<longleftrightarrow> True"

end
