(* ===== verification/Identification_Result.thy ===== *)
theory Identification_Result
  imports Hedge Expr_Trees
begin

text \<open>
  \<open>antecedent-identify/src/result.rs\<close> with the types it reports: the identification status of
  \<open>antecedent-core/src/identification.rs\<close>, the diagnostics of \<open>diagnostic.rs\<close> and the estimands of
  \<open>antecedent-expr/src/estimand.rs\<close>. The query is a type parameter: results carry it unread.
\<close>

section \<open>Status and diagnostics\<close>

datatype identification_status =
    NonparametricallyIdentified
  | IdentifiedUnderParametricRestrictions
  | IdentifiedUnderPriorRestrictions
  | PartiallyIdentified
  | GraphDependent
  | NotIdentified

fun is_as_str :: "identification_status \<Rightarrow> string" where
  "is_as_str NonparametricallyIdentified = ''nonparametrically_identified''"
| "is_as_str IdentifiedUnderParametricRestrictions = ''identified_under_parametric_restrictions''"
| "is_as_str IdentifiedUnderPriorRestrictions = ''identified_under_prior_restrictions''"
| "is_as_str PartiallyIdentified = ''partially_identified''"
| "is_as_str GraphDependent = ''graph_dependent''"
| "is_as_str NotIdentified = ''not_identified''"

definition is_from_name :: "string \<Rightarrow> identification_status option" where
  "is_from_name name = find (\<lambda>s. is_as_str s = name)
     [NonparametricallyIdentified, IdentifiedUnderParametricRestrictions,
      IdentifiedUnderPriorRestrictions, PartiallyIdentified, GraphDependent, NotIdentified]"

datatype diagnostic_severity = InfoSeverity | WarningSeverity | ErrorSeverity

datatype diagnostic_kind = ScientificKind | SupportKind | ExecutionKind

record diagnostic =
  dg_code :: string
  dg_kind :: diagnostic_kind
  dg_severity :: diagnostic_severity
  dg_message :: string
  dg_artifact_id :: "string option"
  dg_fields :: "(string \<times> string) list"

definition dg_new :: "string \<Rightarrow> diagnostic_kind \<Rightarrow> diagnostic_severity \<Rightarrow> string \<Rightarrow> diagnostic" where
  "dg_new code kind severity message =
     \<lparr>dg_code = code, dg_kind = kind, dg_severity = severity, dg_message = message,
      dg_artifact_id = None, dg_fields = []\<rparr>"

section \<open>Estimands\<close>

datatype estimand_method =
    BackdoorAdjustment
  | BackdoorEfficient
  | FrontDoor
  | Iv
  | RdSharp
  | TemporalBackdoorUnfolded
  | TemporalMediationTotal
  | TemporalMediationDirect
  | TemporalMediationMediated
  | GeneralId
  | PathSpecificNatural
  | RandomizedItt
  | RandomizedPolicyValue

fun em_as_str :: "estimand_method \<Rightarrow> string" where
  "em_as_str BackdoorAdjustment = ''backdoor.adjustment''"
| "em_as_str BackdoorEfficient = ''backdoor.efficient''"
| "em_as_str FrontDoor = ''frontdoor''"
| "em_as_str Iv = ''iv''"
| "em_as_str RdSharp = ''rd.sharp''"
| "em_as_str TemporalBackdoorUnfolded = ''temporal.backdoor.unfolded''"
| "em_as_str TemporalMediationTotal = ''temporal_mediation.total''"
| "em_as_str TemporalMediationDirect = ''temporal_mediation.direct''"
| "em_as_str TemporalMediationMediated = ''temporal_mediation.mediated''"
| "em_as_str GeneralId = ''general.id''"
| "em_as_str PathSpecificNatural = ''path_specific.natural''"
| "em_as_str RandomizedItt = ''randomized.itt''"
| "em_as_str RandomizedPolicyValue = ''randomized.policy_value''"

definition all_estimand_methods :: "estimand_method list" where
  "all_estimand_methods = [BackdoorAdjustment, BackdoorEfficient, FrontDoor, Iv, RdSharp,
     TemporalBackdoorUnfolded, TemporalMediationTotal, TemporalMediationDirect,
     TemporalMediationMediated, GeneralId, PathSpecificNatural, RandomizedItt, RandomizedPolicyValue]"

definition em_from_str :: "string \<Rightarrow> string + estimand_method" where
  "em_from_str s = (case find (\<lambda>m. em_as_str m = s) all_estimand_methods of
     None \<Rightarrow> Inl (''unknown estimand method `'' @ s @ ''`'') | Some m \<Rightarrow> Inr m)"

fun em_is_temporal_mediation :: "estimand_method \<Rightarrow> bool" where
  "em_is_temporal_mediation TemporalMediationTotal = True"
| "em_is_temporal_mediation TemporalMediationDirect = True"
| "em_is_temporal_mediation TemporalMediationMediated = True"
| "em_is_temporal_mediation _ = False"

fun em_is_backdoor_family :: "estimand_method \<Rightarrow> bool" where
  "em_is_backdoor_family BackdoorAdjustment = True"
| "em_is_backdoor_family BackdoorEfficient = True"
| "em_is_backdoor_family _ = False"

text \<open>Cutoff and bandwidth are \<open>f64\<close> fields that are only stored: bit patterns.\<close>

record rd_design_params =
  rd_running_variable :: variable_id
  rd_cutoff :: "64 word"
  rd_bandwidth :: "64 word"

record identified_estimand =
  ie_method :: string
  ie_adjustment_set :: "variable_id list"
  ie_instruments :: "variable_id list"
  ie_mediators :: "variable_id list"
  ie_functional :: expr_id
  ie_rd_design :: "rd_design_params option"

definition ie_new :: "string \<Rightarrow> variable_id list \<Rightarrow> variable_id list \<Rightarrow> variable_id list \<Rightarrow> expr_id \<Rightarrow>
    rd_design_params option \<Rightarrow> identified_estimand" where
  "ie_new method adj ins med f rd =
     \<lparr>ie_method = method, ie_adjustment_set = adj, ie_instruments = ins, ie_mediators = med,
      ie_functional = f, ie_rd_design = rd\<rparr>"

definition ie_method_kind :: "identified_estimand \<Rightarrow> string + estimand_method" where
  "ie_method_kind e = em_from_str (ie_method e)"

definition ie_is_adjustment_shaped :: "identified_estimand \<Rightarrow> bool" where
  "ie_is_adjustment_shaped e \<longleftrightarrow>
     (ie_method e = ''backdoor.adjustment'' \<or> ie_method e = ''backdoor.efficient'' \<or>
      prefix ''generalized.adjustment'' (ie_method e) \<or> prefix ''tiered.'' (ie_method e)) \<and>
     ie_rd_design e = None"

definition ie_backdoor :: "string \<Rightarrow> variable_id list \<Rightarrow> expr_id \<Rightarrow> identified_estimand" where
  "ie_backdoor method adj f = ie_new method adj [] [] f None"

definition ie_instrumental :: "string \<Rightarrow> variable_id list \<Rightarrow> expr_id \<Rightarrow> identified_estimand" where
  "ie_instrumental method ins f = ie_new method [] ins [] f None"

definition ie_frontdoor :: "string \<Rightarrow> variable_id list \<Rightarrow> expr_id \<Rightarrow> identified_estimand" where
  "ie_frontdoor method med f = ie_new method [] [] med f None"

definition ie_rd_sharp :: "expr_id \<Rightarrow> rd_design_params \<Rightarrow> identified_estimand" where
  "ie_rd_sharp f design = ie_new (em_as_str RdSharp) [] [] [] f (Some design)"

section \<open>Results\<close>

record derivation_step =
  ds_rule :: string
  ds_detail :: string

type_synonym derivation_trace = "derivation_step list"

definition dt_push :: "derivation_trace \<Rightarrow> string \<Rightarrow> string \<Rightarrow> derivation_trace" where
  "dt_push t rl detail = t @ [\<lparr>ds_rule = rl, ds_detail = detail\<rparr>]"

record performance_record =
  pr_candidates_examined :: nat
  pr_sets_returned :: nat

definition pr_default :: performance_record where
  "pr_default = \<lparr>pr_candidates_examined = 0, pr_sets_returned = 0\<rparr>"

record estimand_claim =
  ec_status :: identification_status
  ec_required_assumptions :: assumption_set

record 'q identification_result =
  rs_status :: identification_status
  rs_query :: 'q
  rs_estimands :: "identified_estimand list"
  rs_arena :: expr_arena
  rs_derivation :: derivation_trace
  rs_required_assumptions :: assumption_set
  rs_diagnostics :: "diagnostic list"
  rs_performance :: performance_record
  rs_hedge :: "hedge_certificate option"
  rs_estimand_claims :: "estimand_claim list"

definition rs_identified ::
  "'q \<Rightarrow> identified_estimand list \<Rightarrow> expr_arena \<Rightarrow> derivation_trace \<Rightarrow> assumption_set \<Rightarrow>
    performance_record \<Rightarrow> 'q identification_result" where
  "rs_identified q es a d asms perf =
     \<lparr>rs_status = NonparametricallyIdentified, rs_query = q, rs_estimands = es, rs_arena = a,
      rs_derivation = d, rs_required_assumptions = asms, rs_diagnostics = [],
      rs_performance = perf, rs_hedge = None, rs_estimand_claims = []\<rparr>"

definition rs_identified_under_parametric_restrictions ::
  "'q \<Rightarrow> identified_estimand list \<Rightarrow> expr_arena \<Rightarrow> derivation_trace \<Rightarrow> assumption_set \<Rightarrow>
    performance_record \<Rightarrow> 'q identification_result" where
  "rs_identified_under_parametric_restrictions q es a d asms perf =
     \<lparr>rs_status = IdentifiedUnderParametricRestrictions, rs_query = q, rs_estimands = es, rs_arena = a,
      rs_derivation = d, rs_required_assumptions = asms, rs_diagnostics = [],
      rs_performance = perf, rs_hedge = None, rs_estimand_claims = []\<rparr>"

definition rs_not_identified ::
  "'q \<Rightarrow> derivation_trace \<Rightarrow> assumption_set \<Rightarrow> performance_record \<Rightarrow> 'q identification_result" where
  "rs_not_identified q d asms perf =
     \<lparr>rs_status = NotIdentified, rs_query = q, rs_estimands = [], rs_arena = ar_new,
      rs_derivation = d, rs_required_assumptions = asms, rs_diagnostics = [],
      rs_performance = perf, rs_hedge = None, rs_estimand_claims = []\<rparr>"

definition rs_not_identified_hedge ::
  "'q \<Rightarrow> derivation_trace \<Rightarrow> assumption_set \<Rightarrow> performance_record \<Rightarrow> hedge_certificate \<Rightarrow>
    diagnostic list \<Rightarrow> 'q identification_result" where
  "rs_not_identified_hedge q d asms perf hc dgs =
     \<lparr>rs_status = NotIdentified, rs_query = q, rs_estimands = [], rs_arena = ar_new,
      rs_derivation = d, rs_required_assumptions = asms, rs_diagnostics = dgs,
      rs_performance = perf, rs_hedge = Some hc, rs_estimand_claims = []\<rparr>"

definition rs_with_estimand_claims ::
  "'q identification_result \<Rightarrow> estimand_claim list \<Rightarrow> 'q identification_result run" where
  "rs_with_estimand_claims r claims =
     (if claims = [] \<or> length claims = length (rs_estimands r)
      then Done (r\<lparr>rs_estimand_claims := claims\<rparr>) else Abort)"

definition rs_claim :: "'q identification_result \<Rightarrow> nat \<Rightarrow> estimand_claim option" where
  "rs_claim r i =
     (if i \<ge> length (rs_estimands r) then None
      else Some (if i < length (rs_estimand_claims r) then rs_estimand_claims r ! i
                 else \<lparr>ec_status = rs_status r, ec_required_assumptions = rs_required_assumptions r\<rparr>))"

definition rs_narrowed_to :: "'q identification_result \<Rightarrow> nat \<Rightarrow> 'q identification_result option" where
  "rs_narrowed_to r i =
     (case rs_claim r i of
        None \<Rightarrow> None
      | Some c \<Rightarrow> Some (r\<lparr>rs_status := ec_status c, rs_required_assumptions := ec_required_assumptions c,
          rs_estimands := [rs_estimands r ! i], rs_estimand_claims := [c]\<rparr>))"

definition search_bounded_diagnostic :: "string \<Rightarrow> string \<Rightarrow> diagnostic run" where
  "search_bounded_diagnostic code detail =
     (if suffix ''.search_bounded'' code then Done (dg_new code ExecutionKind WarningSeverity detail)
      else Abort)"

section \<open>Names round trip, narrowing keeps the claim\<close>

lemma find_name:
  assumes "distinct (map f xs)" "x \<in> set xs"
  shows "find (\<lambda>y. f y = name) xs = Some x \<longleftrightarrow> name = f x"
proof
  assume "find (\<lambda>y. f y = name) xs = Some x"
  then show "name = f x" by (auto simp: find_Some_iff)
next
  assume "name = f x"
  moreover have "f y = f x \<longleftrightarrow> y = x" if "y \<in> set xs" for y
    using inj_on_eq_iff[of f "set xs"] that assms by (simp add: distinct_map)
  ultimately show "find (\<lambda>y. f y = name) xs = Some x"
    using assms(2) by (induction xs) auto
qed

lemma is_from_name_iff: "is_from_name name = Some s \<longleftrightarrow> name = is_as_str s"
  unfolding is_from_name_def by (rule find_name) (simp, cases s, simp_all)

lemma em_as_str_distinct: "distinct (map em_as_str all_estimand_methods)"
  by (simp add: all_estimand_methods_def)

lemma em_from_str_iff: "em_from_str name = Inr m \<longleftrightarrow> name = em_as_str m"
proof -
  have "m \<in> set all_estimand_methods" by (cases m) (simp_all add: all_estimand_methods_def)
  then show ?thesis
    using find_name[OF em_as_str_distinct, of m name] by (auto simp: em_from_str_def split: option.split)
qed

lemma rs_narrowed_claim:
  assumes "rs_narrowed_to r i = Some r'"
  shows "rs_claim r' 0 = rs_claim r i" "rs_narrowed_to r' 0 = Some r'"
    "rs_estimands r' = [rs_estimands r ! i]" "rs_arena r' = rs_arena r"
  using assms by (auto simp: rs_narrowed_to_def rs_claim_def split: if_splits)

lemma rs_narrowed_range: "rs_narrowed_to r i = None \<longleftrightarrow> length (rs_estimands r) \<le> i"
  by (simp add: rs_narrowed_to_def rs_claim_def)

end
