(* ===== verification/Id_Algorithm.thy ===== *)
theory Id_Algorithm
  imports Identification_Result "HOL-Library.AList"
begin

text \<open>
  \<open>id.rs\<close>: the ID algorithm of Shpitser and Pearl on a prepared ADMG. The laws of line 7 with their
  marginals and conditionals, the emission of a law into the expression arena, the seven lines with
  their memo, budget meter and derivation, and the entry points on sets of nodes.

  The recursion of the code has no fuel; \<open>id_recurse\<close> runs on fuel so that it is a total function,
  and \<open>Id_Sound\<close> shows that \<open>id_fuel\<close> is always enough. The memo is an association list with one
  entry per key; the charge of the meter is a closure over a state of its own.
\<close>

section \<open>Laws\<close>

text \<open>\<open>Law sumset factors\<close> is \<open>\<Sum>\<^sub>s\<^sub>u\<^sub>m\<^sub>s\<^sub>e\<^sub>t \<Prod> factors\<close>.\<close>

datatype factor = ObservedFactor dense_id bitset | ConditionalFactor dense_id law
  and law = Law (law_sumset: bitset) (law_factors: "factor list")

fun factor_var :: "factor \<Rightarrow> dense_id" where
  "factor_var (ObservedFactor v _) = v"
| "factor_var (ConditionalFactor v _) = v"

datatype dist_ctx = MarginalCtx | CFactorCtx law

type_synonym assign = "(dense_id \<times> val) list"

fun dist_marginalize :: "dist_ctx \<Rightarrow> bitset \<Rightarrow> dist_ctx option" where
  "dist_marginalize MarginalCtx removed = Some MarginalCtx"
| "dist_marginalize (CFactorCtx law) removed =
     map_option (\<lambda>s. CFactorCtx (Law s (law_factors law))) (bs_union_with (law_sumset law) removed)"

text \<open>The loop of \<open>marginal_conditionals\<close> over the topological order.\<close>

fun marginal_conditionals_loop ::
  "bitset \<Rightarrow> bitset \<Rightarrow> dense_id list \<Rightarrow> bitset \<Rightarrow> factor list option" where
  "marginal_conditionals_loop s v [] preceding = Some []"
| "marginal_conditionals_loop s v (i # is) preceding =
     (if \<not> bs_contains v i then marginal_conditionals_loop s v is preceding
      else (case bs_insert preceding i of
              None \<Rightarrow> None
            | Some preceding' \<Rightarrow>
                map_option (\<lambda>fs. if bs_contains s i then ObservedFactor i preceding # fs else fs)
                  (marginal_conditionals_loop s v is preceding')))"

definition marginal_conditionals :: "prepared_admg \<Rightarrow> bitset \<Rightarrow> bitset \<Rightarrow> factor list option" where
  "marginal_conditionals pa s v =
     marginal_conditionals_loop s v (pa_topo pa) (bs_with_len (bs_bit_len v))"

fun law_conditionals_loop ::
  "law \<Rightarrow> bitset \<Rightarrow> bitset \<Rightarrow> dense_id list \<Rightarrow> bitset \<Rightarrow> factor list option" where
  "law_conditionals_loop law s v [] later = Some []"
| "law_conditionals_loop law s v (i # is) later =
     (if \<not> bs_contains v i then law_conditionals_loop law s v is later
      else let later' = bs_remove later i
           in if bs_contains s i
              then (case bs_union_with (law_sumset law) later' of
                      None \<Rightarrow> None
                    | Some sumset \<Rightarrow>
                        map_option (\<lambda>fs. ConditionalFactor i (Law sumset (law_factors law)) # fs)
                          (law_conditionals_loop law s v is later'))
              else law_conditionals_loop law s v is later')"

definition law_conditionals ::
  "prepared_admg \<Rightarrow> bitset \<Rightarrow> bitset \<Rightarrow> law \<Rightarrow> (identification_error + factor list) option" where
  "law_conditionals pa s v law =
     (if \<not> bs_any (law_sumset law)
      then let kept = filter (\<lambda>f. bs_contains s (factor_var f)) (law_factors law)
           in Some (if length kept \<noteq> bs_count_ones s
                    then Inl (InvariantViolated
                      ''general ID: current law does not cover the requested C-component'')
                    else Inr kept)
      else map_option Inr (law_conditionals_loop law s v (pa_topo pa) v))"

section \<open>Emission into the arena\<close>

text \<open>An arena operation that cannot fail, among those that can.\<close>

definition infallible :: "('a \<times> 's) run \<Rightarrow> (('e + 'a) \<times> 's) run" where
  "infallible m = run_bind m (\<lambda>(a, s). Done (Inr a, s))"

definition pure_result :: "('e + 'a) \<Rightarrow> 's \<Rightarrow> (('e + 'a) \<times> 's) run" where
  "pure_result r s = Done (r, s)"

type_synonym 'a emission = "expr_arena \<Rightarrow> ((identification_error + 'a) \<times> expr_arena) run"

definition intern_assignments :: "intervention_assignment list \<Rightarrow> intervention_set_id emission" where
  "intern_assignments asgs a =
     run_bind (ar_try_intern_intervention_assignments a asgs) (\<lambda>(r, a).
       Done (case r of Inl _ \<Rightarrow> Inl (InvalidInput ''identification.conflicting_intervention_levels'')
                     | Inr i \<Rightarrow> Inr i, a))"

fun touching_assignments ::
  "prepared_admg \<Rightarrow> assign \<Rightarrow> dense_id \<Rightarrow> variable_id list \<Rightarrow>
    identification_error + intervention_assignment list" where
  "touching_assignments pa [] i cond = Inr []"
| "touching_assignments pa ((t, x) # rest) i cond =
     rbind (pa_dense_to_var pa t) (\<lambda>t_var.
     rbind (touching_assignments pa rest i cond) (\<lambda>ts.
       Inr (if t = i \<or> t_var \<in> set cond then \<lparr>ia_variable = t_var, ia_value = x\<rparr> # ts else ts)))"

definition intervention_for_factor ::
  "prepared_admg \<Rightarrow> assign \<Rightarrow> dense_id \<Rightarrow> variable_id list \<Rightarrow> (intervention_set_id \<times> domain_ref) emission" where
  "intervention_for_factor pa assign i cond a =
     try_bind (pure_result (touching_assignments pa assign i cond) a) (\<lambda>touching a.
       if touching = []
       then try_bind (infallible (ar_empty_intervention_set a)) (\<lambda>iv a. Done (Inr (iv, Observational), a))
       else try_bind (intern_assignments touching a) (\<lambda>iv a. Done (Inr (iv, Interventional), a)))"

text \<open>The distribution \<open>P(i | cond)\<close> every emission site builds the same way.\<close>

definition emit_conditional ::
  "prepared_admg \<Rightarrow> assign \<Rightarrow> dense_id \<Rightarrow> dense_id list \<Rightarrow> expr_id emission" where
  "emit_conditional pa assign i cond a =
     try_bind (pure_result (pa_dense_to_var pa i) a) (\<lambda>var_i a.
     try_bind (infallible (ar_intern_var_set a [var_i])) (\<lambda>vars a.
     try_bind (pure_result (pa_dense_to_vars pa cond) a) (\<lambda>cond_vars a.
     try_bind (infallible (ar_intern_var_set a cond_vars)) (\<lambda>conditioned_on a.
     try_bind (intervention_for_factor pa assign i cond_vars a) (\<lambda>(intervention, dom_ref) a.
       infallible (ar_intern_distribution a vars conditioned_on intervention dom_ref))))))"

definition intern_nodes :: "prepared_admg \<Rightarrow> bitset \<Rightarrow> var_set_id emission" where
  "intern_nodes pa nodes a =
     run_bind (of_option (bs_iter nodes)) (\<lambda>ids.
     try_bind (pure_result (pa_dense_to_vars pa ids) a) (\<lambda>vars a.
       infallible (ar_intern_var_set a vars)))"

definition emit_product :: "expr_id list \<Rightarrow> expr_id emission" where
  "emit_product es a =
     (if length es = 1 then Done (Inr (es ! 0), a)
      else try_bind (infallible (ar_intern_list a es)) (\<lambda>l a. infallible (ar_intern a (Product l))))"

definition emit_sum :: "prepared_admg \<Rightarrow> bitset \<Rightarrow> expr_id \<Rightarrow> expr_id emission" where
  "emit_sum pa sum_vars e a =
     (if bs_any sum_vars
      then try_bind (intern_nodes pa sum_vars a) (\<lambda>vs a. infallible (ar_intern a (SumOut vs e)))
      else Done (Inr e, a))"

function law_emit :: "prepared_admg \<Rightarrow> assign \<Rightarrow> law \<Rightarrow> bitset \<Rightarrow> expr_id emission"
  and factors_emit :: "prepared_admg \<Rightarrow> assign \<Rightarrow> factor list \<Rightarrow> bitset \<Rightarrow> expr_id list emission"
  and factor_emit :: "prepared_admg \<Rightarrow> assign \<Rightarrow> factor \<Rightarrow> bitset \<Rightarrow> expr_id emission" where
  "law_emit pa assign (Law sumset fs) bound a =
     (case bs_union_with bound sumset of
        None \<Rightarrow> Abort
      | Some bound \<Rightarrow>
          try_bind (factors_emit pa assign fs bound a) (\<lambda>es a.
          try_bind (emit_product es a) (\<lambda>product a. emit_sum pa sumset product a)))"
| "factors_emit pa assign [] bound a = Done (Inr [], a)"
| "factors_emit pa assign (f # fs) bound a =
     try_bind (factor_emit pa assign f bound a) (\<lambda>e a.
     try_bind (factors_emit pa assign fs bound a) (\<lambda>es a. Done (Inr (e # es), a)))"
| "factor_emit pa assign (ObservedFactor i cond) bound a =
     run_bind (of_option (bs_iter cond)) (\<lambda>ids.
       emit_conditional pa (filter (\<lambda>(t, _). \<not> bs_contains bound t) assign) i ids a)"
| "factor_emit pa assign (ConditionalFactor i num) bound a =
     try_bind (law_emit pa assign num bound a) (\<lambda>numerator a.
     try_bind
       (if \<not> bs_contains bound i \<and> list_ex (\<lambda>(t, _). t = i) assign
        then (case bs_insert bound i of None \<Rightarrow> Abort | Some inner \<Rightarrow> law_emit pa assign num inner a)
        else Done (Inr numerator, a)) (\<lambda>body a.
     try_bind (pure_result (pa_dense_to_var pa i) a) (\<lambda>var_i a.
     try_bind (infallible (ar_intern_var_set a [var_i])) (\<lambda>vars a.
     try_bind (infallible (ar_intern a (SumOut vars body))) (\<lambda>denominator a.
       infallible (ar_intern a (Ratio numerator denominator)))))))"
  by pat_completeness auto
termination
  by (relation "measure (\<lambda>x. case x of
      Inl (_, _, l, _, _) \<Rightarrow> size l
    | Inr (Inl (_, _, fs, _, _)) \<Rightarrow> size_list size fs
    | Inr (Inr (_, _, f, _, _)) \<Rightarrow> size f)") auto

text \<open>The loop shared by \<open>q_component_product\<close>: the factors of \<open>s\<close>, each given all of \<open>v\<close> before it.\<close>

fun q_component_factors ::
  "prepared_admg \<Rightarrow> assign \<Rightarrow> bitset \<Rightarrow> bitset \<Rightarrow> dense_id list \<Rightarrow> bitset \<Rightarrow> expr_id list emission" where
  "q_component_factors pa assign s v [] preceding a = Done (Inr [], a)"
| "q_component_factors pa assign s v (i # is) preceding a =
     (if \<not> bs_contains v i then q_component_factors pa assign s v is preceding a
      else try_bind
        (if bs_contains s i
         then run_bind (of_option (bs_iter preceding)) (\<lambda>ids.
                try_bind (emit_conditional pa assign i ids a) (\<lambda>e a. Done (Inr [e], a)))
         else Done (Inr [], a)) (\<lambda>here a.
        case bs_insert preceding i of
          None \<Rightarrow> Abort
        | Some preceding \<Rightarrow>
            try_bind (q_component_factors pa assign s v is preceding a) (\<lambda>es a.
              Done (Inr (here @ es), a))))"

definition q_component_product ::
  "prepared_admg \<Rightarrow> bitset \<Rightarrow> bitset \<Rightarrow> assign \<Rightarrow> expr_id emission" where
  "q_component_product pa s v assign a =
     try_bind (infallible (ar_empty_intervention_set a)) (\<lambda>empty_i a.
     try_bind (q_component_factors pa assign s v (pa_topo pa) (bs_with_len (bs_bit_len v)) a) (\<lambda>factors a.
       if factors = []
       then try_bind (intern_nodes pa s a) (\<lambda>y a.
            try_bind (infallible (ar_empty_var_set a)) (\<lambda>none a.
              infallible (ar_intern_distribution a y none empty_i Observational)))
       else emit_product factors a))"

fun markov_factors ::
  "prepared_admg \<Rightarrow> assign \<Rightarrow> bitset \<Rightarrow> dense_id list \<Rightarrow> expr_id list emission" where
  "markov_factors pa assign v [] a = Done (Inr [], a)"
| "markov_factors pa assign v (i # is) a =
     (if \<not> bs_contains v i then markov_factors pa assign v is a
      else try_bind (emit_conditional pa assign i
                       (filter (bs_contains v) (admg_parents (pa_admg pa) i)) a) (\<lambda>e a.
           try_bind (markov_factors pa assign v is a) (\<lambda>es a. Done (Inr (e # es), a))))"

definition markov_product :: "prepared_admg \<Rightarrow> bitset \<Rightarrow> assign \<Rightarrow> expr_id emission" where
  "markov_product pa v assign a =
     try_bind (infallible (ar_empty_intervention_set a)) (\<lambda>empty_i a.
     try_bind (markov_factors pa assign v (pa_topo pa) a) (\<lambda>factors a.
       if factors = []
       then try_bind (infallible (ar_empty_var_set a)) (\<lambda>none a.
              infallible (ar_intern_distribution a none none empty_i Observational))
       else emit_product factors a))"

definition c_component_expression ::
  "prepared_admg \<Rightarrow> bitset \<Rightarrow> bitset \<Rightarrow> bitset \<Rightarrow> assign \<Rightarrow> expr_id emission" where
  "c_component_expression pa s y v assign a =
     try_bind (q_component_product pa s v assign a) (\<lambda>product a.
     run_bind (of_option (bs_difference_with s y)) (\<lambda>sum_vars. emit_sum pa sum_vars product a))"

definition observational_marginal ::
  "prepared_admg \<Rightarrow> bitset \<Rightarrow> bitset \<Rightarrow> assign \<Rightarrow> expr_id emission" where
  "observational_marginal pa y v assign a =
     run_bind (pa_c_components pa v) (\<lambda>comps.
     try_bind
       (if comps = [] then markov_product pa v assign a
        else try_bind (try_map (\<lambda>s. q_component_product pa s v assign) comps a) emit_product)
       (\<lambda>factors a.
     run_bind (of_option (bs_difference_with v y)) (\<lambda>sum_vars. emit_sum pa sum_vars factors a)))"

fun dist_marginal :: "prepared_admg \<Rightarrow> dist_ctx \<Rightarrow> bitset \<Rightarrow> bitset \<Rightarrow> assign \<Rightarrow> expr_id emission" where
  "dist_marginal pa MarginalCtx y v assign a = observational_marginal pa y v assign a"
| "dist_marginal pa (CFactorCtx law) y v assign a =
     run_bind (of_option (bs_difference_with v y)) (\<lambda>sumset.
     run_bind (of_option (bs_union_with sumset (law_sumset law))) (\<lambda>sumset.
       law_emit pa assign (Law sumset (law_factors law)) (bs_with_len (bs_bit_len v)) a))"

section \<open>The run\<close>

record id_query =
  iq_y :: bitset
  iq_x :: bitset
  iq_v :: bitset
  iq_dist :: dist_ctx
  iq_assign :: assign

datatype subproblem_key = SubproblemKey bitset bitset bitset assign dist_ctx

definition key_of :: "id_query \<Rightarrow> subproblem_key" where
  "key_of q = SubproblemKey (iq_y q) (iq_x q) (iq_v q) (iq_assign q) (iq_dist q)"

datatype id_outcome = IdExpr expr_id | IdFail hedge_certificate

record 'c id_meter =
  im_charge :: "(nat \<Rightarrow> nat \<Rightarrow> 'c \<Rightarrow> (identification_error + unit) \<times> 'c) option"
  im_state :: 'c
  im_depth :: nat

definition im_unmetered :: "unit id_meter" where
  "im_unmetered = \<lparr>im_charge = None, im_state = (), im_depth = 0\<rparr>"

definition im_enter ::
  "'c id_meter \<Rightarrow> nat \<Rightarrow> nat \<Rightarrow> ((identification_error + unit) \<times> 'c id_meter) run" where
  "im_enter m arena_nodes memo_entries =
     (if im_depth m + 1 > usize_max then Abort
      else let depth = im_depth m + 1;
               bytes = saturating_add (saturating_mul arena_nodes 96) (saturating_mul memo_entries 192)
           in Done (case im_charge m of
                      Some charge \<Rightarrow>
                        (let (r, s) = charge depth bytes (im_state m)
                         in (r, m\<lparr>im_depth := depth, im_state := s\<rparr>))
                    | None \<Rightarrow> (Inr (), m\<lparr>im_depth := depth\<rparr>)))"

definition im_leave :: "'c id_meter \<Rightarrow> 'c id_meter" where
  "im_leave m = m\<lparr>im_depth := im_depth m - 1\<rparr>"

record 'c id_run =
  ir_ancestors :: ancestor_memo
  ir_arena :: expr_arena
  ir_memo :: "(subproblem_key \<times> id_outcome) list"
  ir_derivation :: derivation_trace
  ir_perf :: performance_record
  ir_ws :: graph_workspace
  ir_meter :: "'c id_meter"

type_synonym ('c, 'a) id_step = "'c id_run \<Rightarrow> ((identification_error + 'a) \<times> 'c id_run) run"

definition ir_push :: "string \<Rightarrow> string \<Rightarrow> 'c id_run \<Rightarrow> 'c id_run" where
  "ir_push rl detail run = run\<lparr>ir_derivation := dt_push (ir_derivation run) rl detail\<rparr>"

text \<open>Run an emission on the arena of the run.\<close>

definition in_arena :: "'a emission \<Rightarrow> ('c, 'a) id_step" where
  "in_arena f run = run_bind (f (ir_arena run)) (\<lambda>(r, a). Done (r, run\<lparr>ir_arena := a\<rparr>))"

definition emitted :: "expr_id emission \<Rightarrow> ('c, id_outcome) id_step" where
  "emitted f run = try_bind (in_arena f run) (\<lambda>e run. Done (Inr (IdExpr e), run))"

section \<open>The seven lines\<close>

definition id_line1 :: "prepared_admg \<Rightarrow> id_query \<Rightarrow> ('c, id_outcome) id_step" where
  "id_line1 pa q run =
     emitted (dist_marginal pa (iq_dist q) (iq_y q) (iq_v q) (iq_assign q))
       (ir_push ''general.id.line1'' ''empty intervention; marginal of current dist'' run)"

definition id_line2 ::
  "(id_query \<Rightarrow> ('c, id_outcome) id_step) \<Rightarrow> id_query \<Rightarrow> bitset \<Rightarrow> ('c, id_outcome) id_step" where
  "id_line2 rec q an_y run =
     run_bind (of_option (bs_intersect_with (iq_x q) an_y)) (\<lambda>x2.
     run_bind (of_option (bs_difference_with (iq_v q) an_y)) (\<lambda>removed.
     run_bind (of_option (dist_marginalize (iq_dist q) removed)) (\<lambda>dist2.
       rec (q\<lparr>iq_x := x2, iq_v := an_y, iq_dist := dist2\<rparr>)
         (ir_push ''general.id.line2'' ''restrict to ancestral set of Y'' run))))"

definition id_line3 ::
  "(id_query \<Rightarrow> ('c, id_outcome) id_step) \<Rightarrow> id_query \<Rightarrow> bitset \<Rightarrow> ('c, id_outcome) id_step" where
  "id_line3 rec q w run =
     run_bind (of_option (bs_union_with (iq_x q) w)) (\<lambda>x2.
       rec (q\<lparr>iq_x := x2\<rparr>) (ir_push ''general.id.line3'' ''add superfluous interventions'' run))"

text \<open>The loop of line 4 over the components; a failed one ends it with its certificate.\<close>

fun id_parts ::
  "(id_query \<Rightarrow> ('c, id_outcome) id_step) \<Rightarrow> id_query \<Rightarrow> bitset list \<Rightarrow>
    ('c, hedge_certificate + expr_id list) id_step" where
  "id_parts rec q [] run = Done (Inr (Inr []), run)"
| "id_parts rec q (s # ss) run =
     run_bind (of_option (bs_difference_with (iq_v q) s)) (\<lambda>x_i.
     try_bind (rec (q\<lparr>iq_y := s, iq_x := x_i\<rparr>) run) (\<lambda>out run.
       case out of
         IdFail c \<Rightarrow> Done (Inr (Inl c), run)
       | IdExpr e \<Rightarrow>
           try_bind (id_parts rec q ss run) (\<lambda>r run.
             Done (Inr (case r of Inl c \<Rightarrow> Inl c | Inr es \<Rightarrow> Inr (e # es)), run))))"

definition id_line4 ::
  "prepared_admg \<Rightarrow> (id_query \<Rightarrow> ('c, id_outcome) id_step) \<Rightarrow> id_query \<Rightarrow> bitset list \<Rightarrow>
    ('c, id_outcome) id_step" where
  "id_line4 pa rec q comps run =
     try_bind (id_parts rec q comps
         (ir_push ''general.id.line4''
           (''C-component factorization ('' @ decimal (length comps) @ '' parts)'') run)) (\<lambda>r run.
       case r of
         Inl c \<Rightarrow> Done (Inr (IdFail c), run)
       | Inr factors \<Rightarrow>
           try_bind (in_arena (\<lambda>a. try_bind (infallible (ar_intern_list a factors)) (\<lambda>l a.
               infallible (ar_intern a (Product l)))) run) (\<lambda>product run.
           run_bind (of_option (bs_difference_with (iq_v q) (iq_y q))) (\<lambda>sum_vars.
           run_bind (of_option (bs_difference_with sum_vars (iq_x q))) (\<lambda>sum_vars.
             emitted (emit_sum pa sum_vars product) run))))"

definition id_line5 :: "prepared_admg \<Rightarrow> id_query \<Rightarrow> bitset \<Rightarrow> ('c, id_outcome) id_step" where
  "id_line5 pa q s run =
     (let run = ir_push ''general.id.line5'' ''hedge: G is a single C-component'' run
      in run_bind (of_option (bs_iter (iq_v q))) (\<lambda>ids. case pa_dense_to_vars pa ids of
           Inl e \<Rightarrow> Done (Inl e, run)
         | Inr _ \<Rightarrow> run_bind (of_option (hc_from_sets (iq_v q) s (pa_var pa)))
             (\<lambda>hc. Done (Inr (IdFail hc), run))))"

definition id_line6 :: "prepared_admg \<Rightarrow> id_query \<Rightarrow> bitset \<Rightarrow> ('c, id_outcome) id_step" where
  "id_line6 pa q s run =
     emitted (\<lambda>a. case iq_dist q of
         MarginalCtx \<Rightarrow> c_component_expression pa s (iq_y q) (iq_v q) (iq_assign q) a
       | CFactorCtx law \<Rightarrow>
           run_bind (of_option (bs_difference_with s (iq_y q))) (\<lambda>sum_vars.
           run_bind (of_option (law_conditionals pa s (iq_v q) law)) (\<lambda>r.
           try_bind (pure_result r a) (\<lambda>fs a.
             law_emit pa (iq_assign q) (Law sum_vars fs) (bs_with_len (bs_bit_len (iq_v q))) a))))
       (ir_push ''general.id.line6'' ''S is a C-component of G; factorize current dist'' run)"

definition id_line7 ::
  "prepared_admg \<Rightarrow> (id_query \<Rightarrow> ('c, id_outcome) id_step) \<Rightarrow> id_query \<Rightarrow> bitset \<Rightarrow>
    ('c, id_outcome) id_step" where
  "id_line7 pa rec q s_prime run =
     (let run = ir_push ''general.id.line7''
           ''recurse into containing C-component S' against Q[S']'' run in
      run_bind (of_option (bs_intersect_with (iq_x q) s_prime)) (\<lambda>x2.
      run_bind (of_option (case iq_dist q of
           MarginalCtx \<Rightarrow> map_option Inr (marginal_conditionals pa s_prime (iq_v q))
         | CFactorCtx law \<Rightarrow> law_conditionals pa s_prime (iq_v q) law)) (\<lambda>r.
      try_bind (pure_result r run) (\<lambda>factors run.
        rec (q\<lparr>iq_x := x2, iq_v := s_prime,
               iq_dist := CFactorCtx (Law (bs_with_len (bs_bit_len (iq_v q))) factors)\<rparr>) run))))"

text \<open>\<open>s.is_subset_of(c) && !c.equal_set(s)\<close> over the components, the first that passes.\<close>

fun find_containing :: "bitset \<Rightarrow> bitset list \<Rightarrow> bitset option option" where
  "find_containing s [] = Some None"
| "find_containing s (c # cs) =
     (case bs_is_subset_of s c of
        None \<Rightarrow> None
      | Some sub \<Rightarrow> if sub \<and> \<not> bs_equal_set c s then Some (Some c) else find_containing s cs)"

definition id_lines_5_to_7 ::
  "prepared_admg \<Rightarrow> (id_query \<Rightarrow> ('c, id_outcome) id_step) \<Rightarrow> id_query \<Rightarrow> bitset \<Rightarrow>
    ('c, id_outcome) id_step" where
  "id_lines_5_to_7 pa rec q s run =
     run_bind (pa_c_components pa (iq_v q)) (\<lambda>g_comps.
       if list_ex (\<lambda>c. bs_equal_set c s) g_comps then id_line6 pa q s run
       else run_bind (of_option (find_containing s g_comps)) (\<lambda>found. case found of
              Some s_prime \<Rightarrow> id_line7 pa rec q s_prime run
            | None \<Rightarrow> Done (Inl (InvariantViolated
                ''general ID: no line applies to the current C-component state''), run)))"

definition id_body ::
  "prepared_admg \<Rightarrow> (id_query \<Rightarrow> ('c, id_outcome) id_step) \<Rightarrow> id_query \<Rightarrow> ('c, id_outcome) id_step" where
  "id_body pa rec q run =
     (if \<not> bs_any (iq_x q) then id_line1 pa q run
      else run_bind (pa_ancestors_cached pa (iq_y q) (iq_v q) (ir_ws run) (ir_ancestors run))
        (\<lambda>(an_y, ws, memo). let run = run\<lparr>ir_ws := ws, ir_ancestors := memo\<rparr> in
        if \<not> bs_equal_set (iq_v q) an_y then id_line2 rec q an_y run
        else run_bind (of_option (bs_difference_with (iq_v q) (iq_x q))) (\<lambda>v_minus_x.
        run_bind (pa_ancestors_bar_x pa (iq_y q) (iq_v q) (iq_x q) (ir_ws run)) (\<lambda>(an_bar, ws).
        let run = run\<lparr>ir_ws := ws\<rparr> in
        run_bind (of_option (bs_difference_with v_minus_x an_bar)) (\<lambda>w.
        if bs_any w then id_line3 rec q w run
        else run_bind (pa_c_components pa v_minus_x) (\<lambda>comps.
        if comps = []
        then Done (Inl (InvariantViolated
          ''general ID: outcomes are not disjoint from interventions''), run)
        else if length comps > 1 then id_line4 pa rec q comps run
        else run_bind (pa_is_single_c_component pa (iq_v q)) (\<lambda>single.
          if single then id_line5 pa q (comps ! 0) run
          else id_lines_5_to_7 pa rec q (comps ! 0) run)))))))"

primrec id_recurse :: "nat \<Rightarrow> prepared_admg \<Rightarrow> id_query \<Rightarrow> ('c, id_outcome) id_step" where
  "id_recurse 0 pa q run = Timeout"
| "id_recurse (Suc fuel) pa q run =
     (let perf = ir_perf run;
          run = run\<lparr>ir_perf := perf\<lparr>pr_candidates_examined :=
            saturating_add (pr_candidates_examined perf) 1\<rparr>\<rparr>
      in run_bind (im_enter (ir_meter run) (ar_len (ir_arena run)) (length (ir_memo run))) (\<lambda>(r, meter).
         let run = run\<lparr>ir_meter := meter\<rparr> in
         case r of
           Inl e \<Rightarrow> Done (Inl e, run)
         | Inr _ \<Rightarrow>
             (case map_of (ir_memo run) (key_of q) of
                Some hit \<Rightarrow>
                  (let perf = ir_perf run
                   in Done (Inr hit, run\<lparr>ir_perf := perf\<lparr>pr_sets_returned :=
                        saturating_add (pr_sets_returned perf) 1\<rparr>, ir_meter := im_leave (ir_meter run)\<rparr>))
              | None \<Rightarrow>
                  try_bind (id_body pa (id_recurse fuel pa) q run) (\<lambda>outcome run.
                    Done (Inr outcome, run\<lparr>ir_meter := im_leave (ir_meter run),
                      ir_memo := AList.update (key_of q) outcome (ir_memo run)\<rparr>)))))"

section \<open>Entry points\<close>

definition id_fuel :: "prepared_admg \<Rightarrow> nat" where
  "id_fuel pa = 2 * admg_node_count (pa_admg pa) + 1"

definition require_disjoint :: "bitset \<Rightarrow> bitset \<Rightarrow> (identification_error + unit) run" where
  "require_disjoint y x =
     (if \<not> bs_any y then Done (Inl (UnsupportedQuery ''general ID requires at least one outcome''))
      else run_bind (of_option (bs_iter y)) (\<lambda>ys. Done
        (if list_ex (bs_contains x) ys
         then Inl (UnsupportedQuery
           ''general ID requires outcomes disjoint from the intervened variables'')
         else Inr ())))"

definition ir_start ::
  "derivation_trace \<Rightarrow> graph_workspace \<Rightarrow> 'c id_meter \<Rightarrow> 'c id_run" where
  "ir_start d ws meter = \<lparr>ir_ancestors = [], ir_arena = ar_new, ir_memo = [], ir_derivation = d,
     ir_perf = pr_default, ir_ws = ws, ir_meter = meter\<rparr>"

definition id_start :: "prepared_admg \<Rightarrow> bitset \<Rightarrow> bitset \<Rightarrow> assign \<Rightarrow> id_query" where
  "id_start pa y x assign = \<lparr>iq_y = y, iq_x = x, iq_v = bs_full (admg_node_count (pa_admg pa)),
     iq_dist = MarginalCtx, iq_assign = assign\<rparr>"

datatype metered_id = MeteredIdentified expr_arena expr_id | MeteredHedge hedge_certificate

definition identify_interventional_metered ::
  "prepared_admg \<Rightarrow> bitset \<Rightarrow> bitset \<Rightarrow> graph_workspace \<Rightarrow>
    (nat \<Rightarrow> nat \<Rightarrow> 'c \<Rightarrow> (identification_error + unit) \<times> 'c) \<Rightarrow> 'c \<Rightarrow>
    ((identification_error + metered_id) \<times> graph_workspace \<times> 'c) run" where
  "identify_interventional_metered pa y x ws charge c =
     run_bind (require_disjoint y x) (\<lambda>r. case r of
        Inl e \<Rightarrow> Done (Inl e, ws, c)
      | Inr _ \<Rightarrow>
          run_bind (id_recurse (id_fuel pa) pa (id_start pa y x [])
              (ir_start [] ws \<lparr>im_charge = Some charge, im_state = c, im_depth = 0\<rparr>)) (\<lambda>(r, run).
          let rest = (ir_ws run, im_state (ir_meter run)) in
          case r of
            Inl e \<Rightarrow> Done (Inl e, rest)
          | Inr (IdExpr e) \<Rightarrow> Done (Inr (MeteredIdentified (ir_arena run) e), rest)
          | Inr (IdFail hc) \<Rightarrow>
              run_bind (hp_capture pa x y) (\<lambda>p. Done (case p of
                  Inl e \<Rightarrow> Inl e
                | Inr hp \<Rightarrow> Inr (MeteredHedge (hc_with_problem hc hp)), rest))))"

definition with_causal_markov :: "prepared_admg \<Rightarrow> string \<Rightarrow> assumption_set" where
  "with_causal_markov pa algorithm =
     assumptions_push (pa_declared_assumptions pa) (causal_markov algorithm)"

definition debug_ids :: "nat list \<Rightarrow> string" where
  "debug_ids xs = ''['' @ concat (map (\<lambda>(i, x). (if i = 0 then '''' else '', '') @ decimal x)
     (enumerate 0 xs)) @ '']''"

definition joined_ids :: "nat list \<Rightarrow> string" where
  "joined_ids xs = concat (map (\<lambda>(i, x). (if i = 0 then '''' else '','') @ decimal x) (enumerate 0 xs))"

definition not_identified_with_hedge ::
  "'q \<Rightarrow> derivation_trace \<Rightarrow> assumption_set \<Rightarrow> performance_record \<Rightarrow> hedge_certificate \<Rightarrow>
    'q identification_result" where
  "not_identified_with_hedge query derivation assumptions performance hc =
     rs_not_identified_hedge query
       (dt_push derivation ''general.id.hedge''
         (''hedge F='' @ debug_ids (hc_f hc) @ '' F'='' @ debug_ids (hc_f_prime hc)))
       assumptions performance hc
       [\<lparr>dg_code = ''identify.hedge'', dg_kind = ScientificKind, dg_severity = ErrorSeverity,
         dg_message = ''effect not identifiable; hedge F size '' @ decimal (length (hc_f hc)) @
           '' / F' size '' @ decimal (length (hc_f_prime hc)),
         dg_artifact_id = None,
         dg_fields = [(''f'', joined_ids (hc_f hc)), (''f_prime'', joined_ids (hc_f_prime hc))]\<rparr>]"

definition general_id_estimand :: "expr_id \<Rightarrow> identified_estimand" where
  "general_id_estimand functional = ie_new (em_as_str GeneralId) [] [] [] functional None"

definition identify_sets ::
  "prepared_admg \<Rightarrow> bitset \<Rightarrow> bitset \<Rightarrow> 'q \<Rightarrow> graph_workspace \<Rightarrow> assign \<Rightarrow>
    ((identification_error + 'q identification_result) \<times> graph_workspace) run" where
  "identify_sets pa y x query ws assignments =
     run_bind (require_disjoint y x) (\<lambda>r. case r of
        Inl e \<Rightarrow> Done (Inl e, ws)
      | Inr _ \<Rightarrow>
          run_bind (id_recurse (id_fuel pa) pa (id_start pa y x assignments)
              (ir_start (dt_push [] ''general.id'' (''Shpitser'' @ en_dash @ ''Pearl ID'')) ws im_unmetered))
            (\<lambda>(r, run). case r of
              Inl e \<Rightarrow> Done (Inl e, ir_ws run)
            | Inr (IdExpr functional) \<Rightarrow>
                Done (Inr (rs_identified query [general_id_estimand functional] (ir_arena run)
                  (ir_derivation run) (with_causal_markov pa ''general.id'') (ir_perf run)), ir_ws run)
            | Inr (IdFail hc) \<Rightarrow>
                run_bind (hp_capture pa x y) (\<lambda>p. Done (case p of
                    Inl e \<Rightarrow> Inl e
                  | Inr hp \<Rightarrow> Inr (not_identified_with_hedge query (ir_derivation run)
                      (pa_declared_assumptions pa) (ir_perf run) (hc_with_problem hc hp)), ir_ws run))))"

end
