(* ===== verification/Law_Semantics.thy ===== *)
theory Law_Semantics
  imports Tian_Factors Id_Algorithm
begin

text \<open>
  What a law of the ID recursion stands for. \<open>law_den\<close> reads it as a function of the nodes' values
  given the observational law \<open>P\<close>. \<open>dist_ok pa d v\<close> is the invariant of the current distribution
  over \<open>v\<close>: in every model of the graph it is \<open>Q[v]\<close>, the factors of a line-7 law being the
  conditionals of its nodes along the topological order. Line 2 and line 7 keep it.
\<close>

section \<open>The reading of a law\<close>

function law_den :: "(nat \<Rightarrow> val set) \<Rightarrow> nat set \<Rightarrow> (val env \<Rightarrow> real) \<Rightarrow> law \<Rightarrow> val env \<Rightarrow> real"
  and factors_den :: "(nat \<Rightarrow> val set) \<Rightarrow> nat set \<Rightarrow> (val env \<Rightarrow> real) \<Rightarrow> factor list \<Rightarrow> val env \<Rightarrow> real"
  and factor_den :: "(nat \<Rightarrow> val set) \<Rightarrow> nat set \<Rightarrow> (val env \<Rightarrow> real) \<Rightarrow> factor \<Rightarrow> val env \<Rightarrow> real" where
  "law_den dm V P (Law s fs) \<sigma> = marg dm (bs_members s) (factors_den dm V P fs) \<sigma>"
| "factors_den dm V P [] \<sigma> = 1"
| "factors_den dm V P (f # fs) \<sigma> = factor_den dm V P f \<sigma> * factors_den dm V P fs \<sigma>"
| "factor_den dm V P (ObservedFactor i c) \<sigma> =
     marg dm (V - insert i (bs_members c)) P \<sigma> / marg dm (V - bs_members c) P \<sigma>"
| "factor_den dm V P (ConditionalFactor i num) \<sigma> =
     law_den dm V P num \<sigma> / marg dm {i} (law_den dm V P num) \<sigma>"
  by pat_completeness auto
termination
  by (relation "measure (\<lambda>x. case x of
      Inl (_, _, _, l, _) \<Rightarrow> size l
    | Inr (Inl (_, _, _, fs, _)) \<Rightarrow> size_list size fs
    | Inr (Inr (_, _, _, f, _)) \<Rightarrow> size f)") auto

lemma factors_den_prod: "factors_den dm V P fs \<sigma> = (\<Prod>f \<leftarrow> fs. factor_den dm V P f \<sigma>)"
  by (induction fs) simp_all

section \<open>Models of the graph\<close>

abbreviation pa_nodes :: "prepared_admg \<Rightarrow> nat set" where
  "pa_nodes pa \<equiv> {..<pa_count pa}"

definition world :: "prepared_admg \<Rightarrow> (nat \<Rightarrow> val set) \<Rightarrow> (nat set \<Rightarrow> val env \<Rightarrow> real) \<Rightarrow> bool" where
  "world pa dm Q \<longleftrightarrow>
     causal_factors (admg_rel (pa_admg pa)) (admg_bi (pa_admg pa)) (pa_nodes pa) dm Q"

type_synonym denotation = "(nat \<Rightarrow> val set) \<Rightarrow> (nat set \<Rightarrow> val env \<Rightarrow> real) \<Rightarrow> val env \<Rightarrow> real"

text \<open>
  A model in which the nodes are independent draws from one biased law. A functional that stands for
  \<open>Q[S]\<close> has to mention every node of \<open>S\<close>, since in this model \<open>Q[S]\<close> changes with each of them.
\<close>

definition biased :: "val set \<Rightarrow> (val \<Rightarrow> real) \<Rightarrow> bool" where
  "biased U p \<longleftrightarrow> finite U \<and> (\<forall>x \<in> U. 0 < p x) \<and> sum p U = 1 \<and> BoolVal True \<in> U \<and> BoolVal False \<in> U \<and>
     p (BoolVal True) \<noteq> p (BoolVal False)"

definition coin :: "(val \<Rightarrow> real) \<Rightarrow> nat set \<Rightarrow> val env \<Rightarrow> real" where
  "coin p S \<sigma> = (\<Prod>i \<in> S. p (\<sigma> i))"

lemma biasedD:
  assumes "biased U p"
  shows "finite U" "x \<in> U \<Longrightarrow> 0 < p x" "sum p U = 1" "BoolVal b \<in> U" "p (BoolVal True) \<noteq> p (BoolVal False)"
  using assms by (cases b; simp add: biased_def)+

lemma biased_exists:
  assumes "finite A"
  shows "\<exists>U p. biased U p \<and> A \<subseteq> U"
proof -
  let ?U = "insert (BoolVal True) (insert (BoolVal False) A)"
  let ?w = "\<lambda>x. if x = BoolVal True then 2 else (1 :: real)"
  have fin: "finite ?U" using assms by simp
  have pos: "0 < sum ?w ?U" by (rule sum_pos[OF fin]) auto
  have "sum (\<lambda>x. ?w x / sum ?w ?U) ?U = sum ?w ?U / sum ?w ?U" by (rule sum_divide_distrib[symmetric])
  also have "\<dots> = 1" using pos by simp
  finally have one: "sum (\<lambda>x. ?w x / sum ?w ?U) ?U = 1" .
  have "?w (BoolVal True) / sum ?w ?U \<noteq> ?w (BoolVal False) / sum ?w ?U" using pos by simp
  moreover have "\<forall>x \<in> ?U. 0 < ?w x / sum ?w ?U" using pos by simp
  ultimately have "biased ?U (\<lambda>x. ?w x / sum ?w ?U)" using fin one unfolding biased_def by blast
  then show ?thesis by blast
qed

lemma coin_pos: "biased U p \<Longrightarrow> (\<And>i. i \<in> S \<Longrightarrow> \<sigma> i \<in> U) \<Longrightarrow> 0 < coin p S \<sigma>"
  unfolding coin_def by (intro prod_pos) (simp add: biasedD(2))

lemma coin_remove: "finite S \<Longrightarrow> i \<in> S \<Longrightarrow> coin p S \<sigma> = p (\<sigma> i) * coin p (S - {i}) \<sigma>"
  unfolding coin_def by (rule prod.remove)

lemma coin_ancestral:
  assumes b: "biased U p" and S: "finite S" and W: "W \<subseteq> S"
  shows "marg (\<lambda>_. U) (S - W) (coin p S) \<sigma> = coin p W \<sigma>"
proof -
  have all: "coin p S = (\<lambda>\<sigma>. coin p W \<sigma> * coin p (S - W) \<sigma>)"
    using prod.subset_diff[OF W S] by (auto simp: coin_def fun_eq_iff mult.commute)
  have "ignores (coin p W) (S - W)" unfolding coin_def by (auto simp: ignores_def intro!: prod.cong)
  then have "marg (\<lambda>_. U) (S - W) (coin p S) \<sigma> = coin p W \<sigma> * marg (\<lambda>_. U) (S - W) (coin p (S - W)) \<sigma>"
    unfolding all by (rule marg_times_left)
  also have "marg (\<lambda>_. U) (S - W) (coin p (S - W)) \<sigma> = 1"
    using marg_product_one[of "S - W" "\<lambda>_. p" "\<lambda>_. U" \<sigma>] S biasedD(3)[OF b] by (simp add: coin_def[abs_def])
  finally show ?thesis by simp
qed

lemma coin_world:
  assumes b: "biased U p"
  shows "world pa (\<lambda>_. U) (coin p)"
proof -
  let ?V = "pa_nodes pa"
  have fin: "finite S" if "S \<subseteq> ?V" for S using that finite_subset by blast
  have "0 < coin p S \<sigma>" if "valid_env (\<lambda>_. U) ?V \<sigma>" "S \<subseteq> ?V" for S \<sigma>
    by (rule coin_pos[OF b]) (use that in \<open>auto simp: valid_env_def\<close>)
  moreover have "marg (\<lambda>_. U) (S - W) (coin p S) \<sigma> = coin p W \<sigma>"
    if "S \<subseteq> ?V" "ancestral_in (admg_rel (pa_admg pa)) W S" for S W \<sigma>
    by (rule coin_ancestral[OF b fin[OF that(1)]]) (use that(2) in \<open>simp add: ancestral_in_def\<close>)
  moreover have "coin p (S \<union> T) \<sigma> = coin p S \<sigma> * coin p T \<sigma>"
    if "S \<union> T \<subseteq> ?V" "unconfounded (admg_bi (pa_admg pa)) S T" for S T \<sigma>
    unfolding coin_def by (rule prod.union_disjoint) (use that fin in \<open>auto simp: unconfounded_def\<close>)
  moreover have "coin p ?V \<sigma> = coin p ?V \<tau>" if "\<forall>i \<in> ?V. \<sigma> i = \<tau> i" for \<sigma> \<tau>
    using that by (auto simp: coin_def intro: prod.cong)
  ultimately show ?thesis unfolding world_def causal_factors_def by (simp add: coin_def)
qed

text \<open>A reading that changes with a node in every such model.\<close>

definition reads :: "prepared_admg \<Rightarrow> denotation \<Rightarrow> nat \<Rightarrow> bool" where
  "reads pa F i \<longleftrightarrow> (\<forall>U p \<sigma>. biased U p \<longrightarrow> valid_env (\<lambda>_. U) (pa_nodes pa) \<sigma> \<longrightarrow>
     F (\<lambda>_. U) (coin p) (\<sigma>(i := BoolVal True)) \<noteq> F (\<lambda>_. U) (coin p) (\<sigma>(i := BoolVal False)))"

lemma valid_flip: "biased U p \<Longrightarrow> valid_env (\<lambda>_. U) V \<sigma> \<Longrightarrow> valid_env (\<lambda>_. U) V (\<sigma>(i := BoolVal b))"
  by (simp add: valid_env_def biasedD(4))

lemma reads_cong:
  assumes "reads pa F i" "\<And>dm Q \<sigma>. world pa dm Q \<Longrightarrow> valid_env dm (pa_nodes pa) \<sigma> \<Longrightarrow> F dm Q \<sigma> = G dm Q \<sigma>"
  shows "reads pa G i"
  using assms(1) assms(2)[OF coin_world] valid_flip unfolding reads_def by metis

lemma reads_factor:
  assumes "S \<subseteq> pa_nodes pa" "i \<in> S"
  shows "reads pa (\<lambda>dm Q. Q S) i"
  unfolding reads_def
proof (intro allI impI)
  fix U p \<sigma> assume b: "biased U p" and val: "valid_env (\<lambda>_. U) (pa_nodes pa) \<sigma>"
  have fin: "finite S" using assms(1) finite_subset by blast
  have rest: "coin p (S - {i}) (\<sigma>(i := x)) = coin p (S - {i}) \<sigma>" for x
    unfolding coin_def by (rule prod.cong) auto
  have "0 < coin p (S - {i}) \<sigma>" by (rule coin_pos[OF b]) (use val assms(1) in \<open>auto simp: valid_env_def\<close>)
  then show "coin p S (\<sigma>(i := BoolVal True)) \<noteq> coin p S (\<sigma>(i := BoolVal False))"
    using biasedD(5)[OF b] by (simp add: coin_remove[OF fin assms(2)] rest)
qed

text \<open>
  The laws the recursion may emit: a node that is summed out, or conditioned, is read by what it is
  summed out of.
\<close>

fun law_wf :: "prepared_admg \<Rightarrow> law \<Rightarrow> bool" and factor_wf :: "prepared_admg \<Rightarrow> factor \<Rightarrow> bool" where
  "law_wf pa (Law s fs) \<longleftrightarrow> nodes_in (pa_count pa) s \<and> (\<forall>f \<in> set fs. factor_wf pa f) \<and>
     (\<forall>i \<in> bs_members s. reads pa (\<lambda>dm Q. factors_den dm (pa_nodes pa) (Q (pa_nodes pa)) fs) i)"
| "factor_wf pa (ObservedFactor i c) \<longleftrightarrow> i < pa_count pa \<and> nodes_in (pa_count pa) c \<and> i \<notin> bs_members c"
| "factor_wf pa (ConditionalFactor i num) \<longleftrightarrow> i < pa_count pa \<and> law_wf pa num \<and>
     reads pa (\<lambda>dm Q. law_den dm (pa_nodes pa) (Q (pa_nodes pa)) num) i"

text \<open>The factors of \<open>S\<close>, as conditionals formed in \<open>v\<close>.\<close>

definition conditionals_ok :: "prepared_admg \<Rightarrow> nat set \<Rightarrow> nat set \<Rightarrow> factor list \<Rightarrow> bool" where
  "conditionals_ok pa v S fs \<longleftrightarrow>
     map factor_var fs = filter (\<lambda>i. i \<in> S) (pa_topo pa) \<and>
     (\<forall>f \<in> set fs. factor_wf pa f \<and>
        (\<forall>dm Q \<sigma>. world pa dm Q \<longrightarrow> valid_env dm (pa_nodes pa) \<sigma> \<longrightarrow>
           factor_den dm (pa_nodes pa) (Q (pa_nodes pa)) f \<sigma> = cond_factor Q (pa_topo pa) v (factor_var f) \<sigma>))"

definition law_ok :: "prepared_admg \<Rightarrow> law \<Rightarrow> nat set \<Rightarrow> bool" where
  "law_ok pa law v \<longleftrightarrow>
     nodes_in (pa_count pa) (law_sumset law) \<and> bs_members (law_sumset law) \<inter> v = {} \<and> v \<subseteq> pa_nodes pa \<and>
     ancestral_in (admg_rel (pa_admg pa)) v (v \<union> bs_members (law_sumset law)) \<and>
     conditionals_ok pa (v \<union> bs_members (law_sumset law)) (v \<union> bs_members (law_sumset law)) (law_factors law)"

fun dist_ok :: "prepared_admg \<Rightarrow> dist_ctx \<Rightarrow> nat set \<Rightarrow> bool" where
  "dist_ok pa MarginalCtx v \<longleftrightarrow> ancestral_in (admg_rel (pa_admg pa)) v (pa_nodes pa)"
| "dist_ok pa (CFactorCtx law) v \<longleftrightarrow> law_ok pa law v"

lemma conditionals_okD:
  assumes "conditionals_ok pa v S fs"
  shows "map factor_var fs = filter (\<lambda>i. i \<in> S) (pa_topo pa)" "f \<in> set fs \<Longrightarrow> factor_wf pa f"
    "f \<in> set fs \<Longrightarrow> world pa dm Q \<Longrightarrow> valid_env dm (pa_nodes pa) \<sigma> \<Longrightarrow>
      factor_den dm (pa_nodes pa) (Q (pa_nodes pa)) f \<sigma> = cond_factor Q (pa_topo pa) v (factor_var f) \<sigma>"
  using assms by (simp_all add: conditionals_ok_def)

lemma law_okD:
  assumes "law_ok pa law v"
  shows "nodes_in (pa_count pa) (law_sumset law)" "bs_members (law_sumset law) \<inter> v = {}" "v \<subseteq> pa_nodes pa"
    "bs_members (law_sumset law) \<subseteq> pa_nodes pa"
    "ancestral_in (admg_rel (pa_admg pa)) v (v \<union> bs_members (law_sumset law))"
    "conditionals_ok pa (v \<union> bs_members (law_sumset law)) (v \<union> bs_members (law_sumset law)) (law_factors law)"
  using assms nodes_in_members by (auto simp: law_ok_def)

lemma conditionals_product:
  assumes inv: "pa_inv pa" and ok: "conditionals_ok pa v S fs" and w: "world pa dm Q"
    and val: "valid_env dm (pa_nodes pa) \<sigma>" and S: "S \<subseteq> pa_nodes pa"
  shows "factors_den dm (pa_nodes pa) (Q (pa_nodes pa)) fs \<sigma> = (\<Prod>i \<in> S. cond_factor Q (pa_topo pa) v i \<sigma>)"
proof -
  note topo = pa_invD(5,6)[OF inv]
  have "factors_den dm (pa_nodes pa) (Q (pa_nodes pa)) fs \<sigma> =
      (\<Prod>f \<leftarrow> fs. cond_factor Q (pa_topo pa) v (factor_var f) \<sigma>)"
    unfolding factors_den_prod using conditionals_okD(3)[OF ok _ w val] by (simp cong: map_cong)
  also have "\<dots> = (\<Prod>i \<leftarrow> map factor_var fs. cond_factor Q (pa_topo pa) v i \<sigma>)"
    by (simp add: comp_def)
  also have "\<dots> = (\<Prod>i \<in> set (filter (\<lambda>i. i \<in> S) (pa_topo pa)). cond_factor Q (pa_topo pa) v i \<sigma>)"
    unfolding conditionals_okD(1)[OF ok] using topo(1) by (intro prod.distinct_set_conv_list[symmetric]) simp
  also have "set (filter (\<lambda>i. i \<in> S) (pa_topo pa)) = S" using topo(2) S by auto
  finally show ?thesis .
qed

lemma cond_factor_coin:
  assumes "biased U p" "valid_env (\<lambda>_. U) (pa_nodes pa) \<sigma>" "v \<subseteq> pa_nodes pa"
  shows "cond_factor (coin p) t v i \<sigma> = p (\<sigma> i)"
proof -
  let ?b = "v \<inter> before t i"
  have "0 < coin p ?b \<sigma>" by (rule coin_pos[OF assms(1)]) (use assms(2,3) in \<open>auto simp: valid_env_def\<close>)
  moreover have "insert i ?b - {i} = ?b" by auto
  moreover have "finite (insert i ?b)" using assms(3) finite_subset by fastforce
  ultimately show ?thesis unfolding cond_factor_def by (subst coin_remove[of "insert i ?b" i]) auto
qed

lemma conditionals_reads:
  assumes inv: "pa_inv pa" and ok: "conditionals_ok pa v S fs" and v: "v \<subseteq> pa_nodes pa" and S: "S \<subseteq> pa_nodes pa" "i \<in> S"
  shows "reads pa (\<lambda>dm Q. factors_den dm (pa_nodes pa) (Q (pa_nodes pa)) fs) i"
proof -
  have "factors_den (\<lambda>_. U) (pa_nodes pa) (coin p (pa_nodes pa)) fs \<sigma> = coin p S \<sigma>"
    if "biased U p" "valid_env (\<lambda>_. U) (pa_nodes pa) \<sigma>" for U p \<sigma>
    using conditionals_product[OF inv ok coin_world[OF that(1)] that(2) S(1)] cond_factor_coin[OF that v]
    by (simp add: coin_def)
  then show ?thesis using reads_factor[OF S] valid_flip unfolding reads_def by metis
qed

text \<open>Whatever is summed out of an admissible law, what is left can be emitted.\<close>

lemma law_ok_wf:
  assumes inv: "pa_inv pa" and ok: "law_ok pa law v" and s: "nodes_in (pa_count pa) s"
    and sub: "bs_members s \<subseteq> v \<union> bs_members (law_sumset law)"
  shows "law_wf pa (Law s (law_factors law))"
proof -
  note okD = law_okD[OF ok]
  have "v \<union> bs_members (law_sumset law) \<subseteq> pa_nodes pa" using okD(3,4) by blast
  then show ?thesis
    using s conditionals_okD(2)[OF okD(6)] conditionals_reads[OF inv okD(6)] sub by auto
qed

text \<open>A law over \<open>v\<close> stands for \<open>Q[v]\<close>; so does it when more is summed out of it.\<close>

lemma law_den_sum:
  assumes inv: "pa_inv pa" and ok: "law_ok pa law v" and w: "world pa dm Q"
    and val: "valid_env dm (pa_nodes pa) \<sigma>"
    and s: "bs_members s = R \<union> bs_members (law_sumset law)" and R: "R \<subseteq> v"
  shows "law_den dm (pa_nodes pa) (Q (pa_nodes pa)) (Law s (law_factors law)) \<sigma> = marg dm R (Q v) \<sigma>"
proof -
  let ?S = "bs_members (law_sumset law)"
  note okD = law_okD[OF ok] and top = pa_invD(4)[OF inv]
  have T: "v \<union> ?S \<subseteq> pa_nodes pa" using okD(3,4) by blast
  have den: "factors_den dm (pa_nodes pa) (Q (pa_nodes pa)) (law_factors law) \<rho> = Q (v \<union> ?S) \<rho>"
    if "valid_env dm (pa_nodes pa) \<rho>" for \<rho>
    using conditionals_product[OF inv okD(6) w that T] telescope[OF w[unfolded world_def] that top T] by simp
  have "law_den dm (pa_nodes pa) (Q (pa_nodes pa)) (Law s (law_factors law)) \<sigma> =
      marg dm (bs_members s) (Q (v \<union> ?S)) \<sigma>"
    unfolding law_den.simps by (rule marg_cong[OF den val])
  also have "\<dots> = marg dm R (marg dm ?S (Q (v \<union> ?S))) \<sigma>"
    unfolding s using R okD(2,3) by (subst marg_union) (auto intro: finite_subset[of _ "pa_nodes pa"])
  also have "\<dots> = marg dm R (Q v) \<sigma>"
  proof (rule marg_cong[OF _ val])
    fix \<rho> assume \<rho>: "valid_env dm (pa_nodes pa) \<rho>"
    have "(v \<union> ?S) - v = ?S" using okD(2) by blast
    then show "marg dm ?S (Q (v \<union> ?S)) \<rho> = Q v \<rho>"
      using causal_factorsD(3)[OF w[unfolded world_def] \<rho> T okD(5)] by simp
  qed
  finally show ?thesis .
qed

lemma law_den_marginal:
  assumes inv: "pa_inv pa" and ok: "law_ok pa law v" and w: "world pa dm Q"
    and val: "valid_env dm (pa_nodes pa) \<sigma>"
    and s: "bs_members s = bs_members (law_sumset law) \<union> (v - W)" and W: "ancestral_in (admg_rel (pa_admg pa)) W v"
  shows "law_den dm (pa_nodes pa) (Q (pa_nodes pa)) (Law s (law_factors law)) \<sigma> = Q W \<sigma>"
  using law_den_sum[OF inv ok w val, of s "v - W"] s
    causal_factorsD(3)[OF w[unfolded world_def] val law_okD(3)[OF ok] W] by (simp add: Un_commute)

section \<open>Line 2\<close>

lemma dist_marginalize_ok:
  assumes "dist_ok pa d v" "ancestral_in (admg_rel (pa_admg pa)) w v" "nodes_in (pa_count pa) removed"
    "bs_members removed = v - w"
  shows "\<exists>d'. dist_marginalize d removed = Some d' \<and> dist_ok pa d' w"
proof (cases d)
  case MarginalCtx
  with assms show ?thesis using ancestral_in_trans by auto
next
  case (CFactorCtx law)
  with assms have ok: "law_ok pa law v" by simp
  note okD = law_okD[OF ok]
  obtain s where s: "bs_union_with (law_sumset law) removed = Some s" "nodes_in (pa_count pa) s"
      "bs_members s = bs_members (law_sumset law) \<union> (v - w)"
    using nodes_in_ops(1)[OF okD(1) assms(3)] assms(4) by (cases "bs_union_with (law_sumset law) removed") auto
  have w: "w \<subseteq> v" using assms(2) by (auto simp: ancestral_in_def)
  have all: "w \<union> bs_members s = v \<union> bs_members (law_sumset law)" using w s(3) by blast
  have "law_ok pa (Law s (law_factors law)) w"
    unfolding law_ok_def law.sel all
    using s(2,3) w okD ancestral_in_trans[OF assms(2) okD(5)] by auto
  with CFactorCtx s(1) show ?thesis by simp
qed

section \<open>Conditionals\<close>


lemma marginal_conditionals_loop_spec:
  assumes "nodes_in n preceding" "\<forall>i \<in> set is. i < n" "distinct is" "bs_members preceding \<inter> set is = {}"
  shows "\<exists>fs. marginal_conditionals_loop s v is preceding = Some fs \<and>
    map factor_var fs = filter (\<lambda>i. i \<in> bs_members v \<and> i \<in> bs_members s) is \<and>
    (\<forall>f \<in> set fs. \<exists>i c. f = ObservedFactor i c \<and> i \<in> set is \<and> nodes_in n c \<and>
       bs_members c = bs_members preceding \<union> (bs_members v \<inter> before is i))"
  using assms
proof (induction "is" arbitrary: preceding)
  case (Cons i "is")
  show ?case
  proof (cases "bs_contains v i")
    case True
    obtain p' where p': "bs_insert preceding i = Some p'" "nodes_in n p'"
        "bs_members p' = insert i (bs_members preceding)"
      using nodes_in_insert[OF Cons.prems(1), of i] Cons.prems(2) by auto
    obtain fs where fs: "marginal_conditionals_loop s v is p' = Some fs"
        "map factor_var fs = filter (\<lambda>i. i \<in> bs_members v \<and> i \<in> bs_members s) is"
        "\<forall>f \<in> set fs. \<exists>j c. f = ObservedFactor j c \<and> j \<in> set is \<and> nodes_in n c \<and>
          bs_members c = bs_members p' \<union> (bs_members v \<inter> before is j)"
      using Cons.IH[OF p'(2)] Cons.prems p'(3) by auto
    have later: "\<exists>j c. f = ObservedFactor j c \<and> j \<in> set (i # is) \<and> nodes_in n c \<and>
        bs_members c = bs_members preceding \<union> (bs_members v \<inter> before (i # is) j)" if f_in: "f \<in> set fs" for f
    proof -
      obtain j c where f: "f = ObservedFactor j c" "j \<in> set is" "nodes_in n c"
          "bs_members c = bs_members p' \<union> (bs_members v \<inter> before is j)"
        using fs(3) f_in by blast
      have "before (i # is) j = insert i (before is j)" 
        using Cons.prems(3) f(2) by (intro before_Cons) simp_all
      moreover have "i \<in> bs_members v" using True by (simp add: bs_contains_members)
      ultimately have "bs_members c = bs_members preceding \<union> (bs_members v \<inter> before (i # is) j)"
        using f(4) p'(3) by simp
      with f(1-3) show ?thesis by (intro exI[of _ j] exI[of _ c]) simp
    qed
    have here: "\<exists>j c. ObservedFactor i preceding = ObservedFactor j c \<and> j \<in> set (i # is) \<and> nodes_in n c \<and>
        bs_members c = bs_members preceding \<union> (bs_members v \<inter> before (i # is) j)"
      using Cons.prems(1) by (intro exI[of _ i] exI[of _ preceding]) (simp add: before_def)
    show ?thesis
    proof (cases "bs_contains s i")
      case s: True
      have "\<forall>f \<in> set (ObservedFactor i preceding # fs).
          \<exists>j c. f = ObservedFactor j c \<and> j \<in> set (i # is) \<and> nodes_in n c \<and>
          bs_members c = bs_members preceding \<union> (bs_members v \<inter> before (i # is) j)"
        using later here by (metis set_ConsD)
      with True s fs(1,2) p'(1) show ?thesis
        by (intro exI[of _ "ObservedFactor i preceding # fs"]) (simp add: bs_contains_members)
    next
      case s: False
      with True fs(1,2) p'(1) later show ?thesis
        by (intro exI[of _ fs]) (simp add: bs_contains_members)
    qed
  next
    case False
    obtain fs where fs: "marginal_conditionals_loop s v is preceding = Some fs"
        "map factor_var fs = filter (\<lambda>i. i \<in> bs_members v \<and> i \<in> bs_members s) is"
        "\<forall>f \<in> set fs. \<exists>j c. f = ObservedFactor j c \<and> j \<in> set is \<and> nodes_in n c \<and>
          bs_members c = bs_members preceding \<union> (bs_members v \<inter> before is j)"
      using Cons.IH[OF Cons.prems(1)] Cons.prems by auto
    have "bs_members v \<inter> before (i # is) j = bs_members v \<inter> before is j" if "j \<in> set is" for j
      using False Cons.prems(3) that by (auto simp: before_def bs_contains_members)
    with False fs show ?thesis by (fastforce simp: bs_contains_members)
  qed
qed simp

lemma marginal_conditionals_ok:
  assumes inv: "pa_inv pa" and ok: "dist_ok pa MarginalCtx (bs_members v)" and v: "nodes_in (pa_count pa) v"
    and s: "bs_members s \<subseteq> bs_members v"
  shows "\<exists>fs. marginal_conditionals pa s v = Some fs \<and> conditionals_ok pa (bs_members v) (bs_members s) fs"
proof -
  let ?n = "pa_count pa" and ?t = "pa_topo pa"
  note topo = pa_invD(4-6)[OF inv]
  obtain fs where fs: "marginal_conditionals_loop s v ?t (bs_with_len (bs_bit_len v)) = Some fs"
      "map factor_var fs = filter (\<lambda>i. i \<in> bs_members v \<and> i \<in> bs_members s) ?t"
      "\<forall>f \<in> set fs. \<exists>i c. f = ObservedFactor i c \<and> i \<in> set ?t \<and> nodes_in ?n c \<and>
         bs_members c = bs_members v \<inter> before ?t i"
    using marginal_conditionals_loop_spec[of ?n "bs_with_len (bs_bit_len v)" ?t s v] topo nodes_inD(2)[OF v]
    by (auto simp: bs_bit_len_def)
  have vars: "map factor_var fs = filter (\<lambda>i. i \<in> bs_members s) ?t"
    unfolding fs(2) using s by (intro filter_cong refl) blast
  have "factor_wf pa f \<and> (\<forall>dm Q \<sigma>. world pa dm Q \<longrightarrow> valid_env dm (pa_nodes pa) \<sigma> \<longrightarrow>
      factor_den dm (pa_nodes pa) (Q (pa_nodes pa)) f \<sigma> = cond_factor Q ?t (bs_members v) (factor_var f) \<sigma>)"
    if f: "f \<in> set fs" for f
  proof -
    obtain i c where c: "f = ObservedFactor i c" "i \<in> set ?t" "nodes_in ?n c" "bs_members c = bs_members v \<inter> before ?t i"
      using fs(3) f by blast
    have "factor_var f \<in> set (map factor_var fs)" using f by simp
    then have i: "i \<in> bs_members v" using s c(1) by (auto simp: vars)
    show ?thesis
      using c topo(3) cond_factor_ratio[OF _ _ topo(1) order_refl _ i] ok by (auto simp: world_def)
  qed
  with vars fs(1) show ?thesis by (simp add: marginal_conditionals_def conditionals_ok_def)
qed

lemma law_conditionals_loop_spec:
  assumes "nodes_in n later" "bs_members later = bs_members v \<inter> set is" "distinct is" "nodes_in n (law_sumset law)"
  shows "\<exists>fs. law_conditionals_loop law s v is later = Some fs \<and>
    map factor_var fs = filter (\<lambda>i. i \<in> bs_members v \<and> i \<in> bs_members s) is \<and>
    (\<forall>f \<in> set fs. \<exists>i c. f = ConditionalFactor i (Law c (law_factors law)) \<and> i \<in> set is \<and> nodes_in n c \<and>
       bs_members c = bs_members (law_sumset law) \<union> (bs_members v \<inter> set is - insert i (before is i)))"
  using assms(1-3)
proof (induction "is" arbitrary: later)
  case (Cons i "is")
  show ?case
  proof (cases "bs_contains v i")
    case True
    let ?l = "bs_remove later i"
    have l: "nodes_in n ?l" "bs_members ?l = bs_members v \<inter> set is"
      using Cons.prems by (auto simp: nodes_in_def bs_simps)
    obtain fs where fs: "law_conditionals_loop law s v is ?l = Some fs"
        "map factor_var fs = filter (\<lambda>i. i \<in> bs_members v \<and> i \<in> bs_members s) is"
        "\<forall>f \<in> set fs. \<exists>j c. f = ConditionalFactor j (Law c (law_factors law)) \<and> j \<in> set is \<and> nodes_in n c \<and>
          bs_members c = bs_members (law_sumset law) \<union> (bs_members v \<inter> set is - insert j (before is j))"
      using Cons.IH[OF l] Cons.prems(3) by auto
    have later: "\<exists>j c. f = ConditionalFactor j (Law c (law_factors law)) \<and> j \<in> set (i # is) \<and> nodes_in n c \<and>
        bs_members c = bs_members (law_sumset law) \<union> (bs_members v \<inter> set (i # is) - insert j (before (i # is) j))"
      if f_in: "f \<in> set fs" for f
    proof -
      obtain j c where f: "f = ConditionalFactor j (Law c (law_factors law))" "j \<in> set is" "nodes_in n c"
          "bs_members c = bs_members (law_sumset law) \<union> (bs_members v \<inter> set is - insert j (before is j))"
        using fs(3) f_in by blast
      have "before (i # is) j = insert i (before is j)" 
        using Cons.prems(3) f(2) by (intro before_Cons) simp_all
      moreover have "bs_members v \<inter> set (i # is) - insert j (insert i (before is j)) =
          bs_members v \<inter> set is - insert j (before is j)" using Cons.prems(3) by auto
      ultimately have "bs_members c = bs_members (law_sumset law) \<union>
          (bs_members v \<inter> set (i # is) - insert j (before (i # is) j))" using f(4) by simp
      with f(1-3) show ?thesis by (intro exI[of _ j] exI[of _ c]) simp
    qed
    obtain c where c: "bs_union_with (law_sumset law) ?l = Some c" "nodes_in n c"
        "bs_members c = bs_members (law_sumset law) \<union> (bs_members v \<inter> set is)"
      using nodes_in_ops(1)[OF assms(4) l(1)] l(2) by (cases "bs_union_with (law_sumset law) ?l") auto
    have here: "\<exists>j c'. ConditionalFactor i (Law c (law_factors law)) = ConditionalFactor j (Law c' (law_factors law)) \<and>
        j \<in> set (i # is) \<and> nodes_in n c' \<and>
        bs_members c' = bs_members (law_sumset law) \<union> (bs_members v \<inter> set (i # is) - insert j (before (i # is) j))"
    proof (intro exI[of _ i] exI[of _ c] conjI refl)
      have "before (i # is) i = {}" by (simp add: before_def)
      moreover have "bs_members v \<inter> set (i # is) - {i} = bs_members v \<inter> set is" using Cons.prems(3) by auto
      ultimately show "bs_members c = bs_members (law_sumset law) \<union>
          (bs_members v \<inter> set (i # is) - insert i (before (i # is) i))" using c(3) by simp
    qed (use c(2) in simp_all)
    show ?thesis
    proof (cases "bs_contains s i")
      case s: True
      have "\<forall>f \<in> set (ConditionalFactor i (Law c (law_factors law)) # fs).
          \<exists>j c. f = ConditionalFactor j (Law c (law_factors law)) \<and> j \<in> set (i # is) \<and> nodes_in n c \<and>
          bs_members c = bs_members (law_sumset law) \<union> (bs_members v \<inter> set (i # is) - insert j (before (i # is) j))"
        using later here by (metis set_ConsD)
      with True s fs(1,2) c(1) show ?thesis
        by (intro exI[of _ "ConditionalFactor i (Law c (law_factors law)) # fs"]) (simp add: bs_contains_members Let_def)
    next
      case s: False
      with True fs(1,2) later show ?thesis
        by (intro exI[of _ fs]) (simp add: bs_contains_members Let_def)
    qed
  next
    case False
    have l: "bs_members later = bs_members v \<inter> set is" using Cons.prems(2) False by (auto simp: bs_contains_members)
    obtain fs where fs: "law_conditionals_loop law s v is later = Some fs"
        "map factor_var fs = filter (\<lambda>i. i \<in> bs_members v \<and> i \<in> bs_members s) is"
        "\<forall>f \<in> set fs. \<exists>j c. f = ConditionalFactor j (Law c (law_factors law)) \<and> j \<in> set is \<and> nodes_in n c \<and>
          bs_members c = bs_members (law_sumset law) \<union> (bs_members v \<inter> set is - insert j (before is j))"
      using Cons.IH[OF Cons.prems(1) l] Cons.prems(3) by auto
    have "bs_members v \<inter> set (i # is) - insert j (before (i # is) j) =
        bs_members v \<inter> set is - insert j (before is j)" if "j \<in> set is" for j
      using False Cons.prems(3) that by (auto simp: before_def bs_contains_members)
    with False fs show ?thesis by (intro exI[of _ fs]) (fastforce simp: bs_contains_members)
  qed
qed simp

lemma law_conditionals_ok:
  assumes inv: "pa_inv pa" and ok: "law_ok pa law (bs_members v)" and v: "nodes_in (pa_count pa) v"
    and s: "nodes_in (pa_count pa) s" "bs_members s \<subseteq> bs_members v"
  shows "\<exists>fs. law_conditionals pa s v law = Some (Inr fs) \<and> conditionals_ok pa (bs_members v) (bs_members s) fs"
proof (cases "bs_members (law_sumset law) = {}")
  case True
  note okD = law_okD[OF ok]
  let ?kept = "filter (\<lambda>f. bs_contains s (factor_var f)) (law_factors law)"
  have ok': "conditionals_ok pa (bs_members v) (bs_members v) (law_factors law)" using okD(6) True by simp
  have vars: "map factor_var ?kept = filter (\<lambda>i. i \<in> bs_members s) (pa_topo pa)"
  proof -
    have "map factor_var ?kept = filter (bs_contains s) (map factor_var (law_factors law))"
      by (simp add: filter_map comp_def)
    also have "\<dots> = filter (\<lambda>i. i \<in> bs_members s) (pa_topo pa)"
      unfolding conditionals_okD(1)[OF ok'] filter_filter using s(2)
      by (intro filter_cong refl) (auto simp: bs_contains_members)
    finally show ?thesis .
  qed
  have "set (filter (\<lambda>i. i \<in> bs_members s) (pa_topo pa)) = bs_members s"
    using pa_invD(6)[OF inv] nodes_in_members[OF s(1)] by auto
  moreover have "distinct (filter (\<lambda>i. i \<in> bs_members s) (pa_topo pa))" using pa_invD(5)[OF inv] by simp
  ultimately have "length ?kept = card (bs_members s)"
    using distinct_card length_map[of factor_var ?kept] unfolding vars by metis
  then have "length ?kept = bs_count_ones s" using bs_count_ones_card[OF nodes_inD(1)[OF s(1)]] by simp
  moreover have "\<not> bs_any (law_sumset law)" using True members_any[OF okD(1)] by simp
  moreover have "conditionals_ok pa (bs_members v) (bs_members s) ?kept"
    unfolding conditionals_ok_def using vars conditionals_okD(2,3)[OF ok'] by simp
  ultimately show ?thesis by (simp add: law_conditionals_def)
next
  case False
  let ?n = "pa_count pa" and ?t = "pa_topo pa" and ?v = "bs_members v"
  note okD = law_okD[OF ok] and topo = pa_invD(4-6)[OF inv]
  have all: "?v \<inter> set ?t = ?v" using topo(3) nodes_in_members[OF v] by auto
  obtain fs where fs: "law_conditionals_loop law s v ?t v = Some fs"
      "map factor_var fs = filter (\<lambda>i. i \<in> ?v \<and> i \<in> bs_members s) ?t"
      "\<forall>f \<in> set fs. \<exists>i c. f = ConditionalFactor i (Law c (law_factors law)) \<and> i \<in> set ?t \<and> nodes_in ?n c \<and>
         bs_members c = bs_members (law_sumset law) \<union> (?v - insert i (before ?t i))"
    using law_conditionals_loop_spec[of ?n v v ?t law s] v topo(2) okD(1) all by auto
  have vars: "map factor_var fs = filter (\<lambda>i. i \<in> bs_members s) ?t"
    unfolding fs(2) using s by (intro filter_cong refl) blast
  have "factor_wf pa f \<and> (\<forall>dm Q \<sigma>. world pa dm Q \<longrightarrow> valid_env dm (pa_nodes pa) \<sigma> \<longrightarrow>
      factor_den dm (pa_nodes pa) (Q (pa_nodes pa)) f \<sigma> = cond_factor Q ?t ?v (factor_var f) \<sigma>)"
    if f: "f \<in> set fs" for f
  proof -
    obtain i c where c: "f = ConditionalFactor i (Law c (law_factors law))" "i \<in> set ?t" "nodes_in ?n c"
        "bs_members c = bs_members (law_sumset law) \<union> (?v - insert i (before ?t i))"
      using fs(3) f by blast
    have "factor_var f \<in> set (map factor_var fs)" using f by simp
    then have i: "i \<in> ?v" using s(2) c(1) by (auto simp: vars)
    let ?b = "?v \<inter> before ?t i"
    note anc = ancestral_before[OF topo(1) i okD(3)]
    have split: "bs_members c = bs_members (law_sumset law) \<union> (?v - insert i ?b)" using c(4) by auto
    have num: "law_den dm (pa_nodes pa) (Q (pa_nodes pa)) (Law c (law_factors law)) \<rho> = Q (insert i ?b) \<rho>"
      if "world pa dm Q" "valid_env dm (pa_nodes pa) \<rho>" for dm Q \<rho>
      by (rule law_den_marginal[OF inv ok that split anc(2)])
    have "reads pa (\<lambda>dm Q. law_den dm (pa_nodes pa) (Q (pa_nodes pa)) (Law c (law_factors law))) i"
      by (rule reads_cong[OF reads_factor[of "insert i ?b"]]) (use num okD(3) i in auto)
    moreover have "law_wf pa (Law c (law_factors law))" by (rule law_ok_wf[OF inv ok c(3)]) (use c(4) in auto)
    ultimately have "factor_wf pa f" using c topo(3) by simp
    moreover have "factor_den dm (pa_nodes pa) (Q (pa_nodes pa)) f \<sigma> = cond_factor Q ?t ?v i \<sigma>"
      if w: "world pa dm Q" and val: "valid_env dm (pa_nodes pa) \<sigma>" for dm Q \<sigma>
    proof -
      have b: "ancestral_in (admg_rel (pa_admg pa)) ?b (insert i ?b)"
        using ancestral_in_mono[OF anc(1), of "insert i ?b"] i by (simp add: Int_insert_right Int_absorb1 Int_commute) 
      have "insert i ?b - ?b = {i}" by auto
      then have "marg dm {i} (Q (insert i ?b)) \<sigma> = Q ?b \<sigma>"
        using causal_factorsD(3)[OF w[unfolded world_def] val _ b] i okD(3) by auto
      then show ?thesis
        using marg_cong[of dm "pa_nodes pa" "law_den dm (pa_nodes pa) (Q (pa_nodes pa)) (Law c (law_factors law))",
            OF num[OF w] val, of "{i}"] num[OF w val]
        by (simp add: c(1) cond_factor_def)
    qed
    ultimately show ?thesis using c(1) by simp
  qed
  moreover have "bs_any (law_sumset law)" using False members_any[OF okD(1)] by simp
  ultimately show ?thesis using vars fs(1) by (simp add: law_conditionals_def conditionals_ok_def)
qed

section \<open>Line 7\<close>

lemma law_ok_district:
  assumes inv: "pa_inv pa" and ok: "conditionals_ok pa v S fs" and "S \<subseteq> v" "v \<subseteq> pa_nodes pa"
    and "unconfounded (admg_bi (pa_admg pa)) S (v - S)"
  shows "law_ok pa (Law (bs_with_len (pa_count pa)) fs) S"
proof -
  have "conditionals_ok pa S S fs"
    unfolding conditionals_ok_def
  proof (intro conjI ballI allI impI)
    show vars: "map factor_var fs = filter (\<lambda>i. i \<in> S) (pa_topo pa)" by (rule conditionals_okD(1)[OF ok])
    fix f assume f: "f \<in> set fs"
    then show "factor_wf pa f" by (rule conditionals_okD(2)[OF ok])
    fix dm Q \<sigma> assume w: "world pa dm Q" and val: "valid_env dm (pa_nodes pa) \<sigma>"
    have "factor_var f \<in> set (map factor_var fs)" using f by simp
    then have "factor_var f \<in> S" by (simp add: vars)
    then show "factor_den dm (pa_nodes pa) (Q (pa_nodes pa)) f \<sigma> = cond_factor Q (pa_topo pa) S (factor_var f) \<sigma>"
      using conditionals_okD(3)[OF ok f w val] cond_factor_district[OF w[unfolded world_def] val assms(3-5)] by simp
  qed
  then show ?thesis using assms(3,4) by (simp add: law_ok_def)
qed

lemma conditionals_district:
  assumes "pa_inv pa" "conditionals_ok pa v S fs" "S \<subseteq> v" "v \<subseteq> pa_nodes pa"
    "unconfounded (admg_bi (pa_admg pa)) S (v - S)" "world pa dm Q" "valid_env dm (pa_nodes pa) \<sigma>"
  shows "factors_den dm (pa_nodes pa) (Q (pa_nodes pa)) fs \<sigma> = Q S \<sigma>"
  using conditionals_product[OF assms(1,2,6,7)]
    telescope_district[OF assms(6)[unfolded world_def] assms(7) pa_invD(4)[OF assms(1)] assms(3-5)] assms(3,4)
  by simp

end
