(* ===== verification/Expr_Value.thy ===== *)
theory Expr_Value
  imports Law_Semantics
begin

text \<open>
  The value of an expression in a model. \<open>tree_value\<close> evaluates an unfolded expression over finite
  domains: a distribution leaf is a ratio of marginals of the joint law of the observed variables,
  read at the levels its intervention sets; a sum ranges over the domains of its variables.

  \<open>denotes pa assign B a e F\<close> says that the expression \<open>e\<close> of the arena has, in every model of the
  graph, the value \<open>F\<close> of the environment in which every intervened variable outside \<open>B\<close> has its
  level, and that every binder of \<open>e\<close> binds only variables its body depends on. The rest of the theory
  shows it for each emission of \<open>id.rs\<close>.
\<close>

section \<open>Evaluation\<close>

definition apply_levels :: "intervention_assignment list \<Rightarrow> val env \<Rightarrow> val env" where
  "apply_levels iv s v =
     (case find (\<lambda>a. ia_variable a = v \<and> \<not> ia_is_symbolic a) iv of Some a \<Rightarrow> ia_value a | None \<Rightarrow> s v)"

fun tree_value ::
  "(val \<Rightarrow> real) \<Rightarrow> (nat \<Rightarrow> val set) \<Rightarrow> nat set \<Rightarrow> (val env \<Rightarrow> real) \<Rightarrow> expr_tree \<Rightarrow> val env \<Rightarrow> real" where
  "tree_value num dv Vs P (TDistribution vs c iv d p r) s =
     (let s' = apply_levels iv s
      in marg dv (Vs - (set vs \<union> set c)) P s' / marg dv (Vs - set c) P s')"
| "tree_value num dv Vs P (TKernel b vs p r) s = tree_value num dv Vs P b s"
| "tree_value num dv Vs P (TProduct ts) s = (\<Prod>t \<leftarrow> ts. tree_value num dv Vs P t s)"
| "tree_value num dv Vs P (TSumOut vs e) s = marg dv (set vs) (tree_value num dv Vs P e) s"
| "tree_value num dv Vs P (TIntegralOut vs e) s = marg dv (set vs) (tree_value num dv Vs P e) s"
| "tree_value num dv Vs P (TRatio x y) s = tree_value num dv Vs P x s / tree_value num dv Vs P y s"
| "tree_value num dv Vs P (TExpectation f d) s =
     (\<Sum>x \<in> dv f. num x * tree_value num dv Vs P d (s(f := x)))"
| "tree_value num dv Vs P (TContrast x y Difference) s =
     tree_value num dv Vs P x s - tree_value num dv Vs P y s"
| "tree_value num dv Vs P TDangling s = 0"

text \<open>The value depends on the free variables only.\<close>

lemma marg_agree:
  assumes "\<And>s s'. (\<forall>v \<in> Vs. s v = s' v) \<Longrightarrow> P s = P s'" "\<forall>v \<in> Vs - S. s v = s' v"
  shows "marg dv S P s = marg dv S P s'"
  unfolding marg_def by (intro sum.cong assms(1)) (use assms(2) in \<open>auto simp: override_on_def\<close>)

lemma marg_agree_bound:
  assumes "\<And>s s'. (\<forall>v \<in> A. s v = s' v) \<Longrightarrow> g s = g s'" "\<forall>v \<in> A - S. s v = s' v"
  shows "marg dv S g s = marg dv S g s'"
  by (rule marg_agree[OF assms])

lemma apply_levels_agree:
  assumes "\<not> (\<exists>x \<in> set iv. ia_variable x = v \<and> \<not> ia_is_symbolic x) \<Longrightarrow> s v = s' v"
  shows "apply_levels iv s v = apply_levels iv s' v"
proof (cases "find (\<lambda>a. ia_variable a = v \<and> \<not> ia_is_symbolic a) iv")
  case None
  then have "s v = s' v" using assms by (auto simp: find_None_iff)
  with None show ?thesis by (simp add: apply_levels_def)
qed (simp add: apply_levels_def)

lemma tree_value_agree:
  assumes P: "\<And>s s'. (\<forall>v \<in> Vs. s v = s' v) \<Longrightarrow> P s = P s'"
  shows "(\<forall>v \<in> free_of t. s v = s' v) \<Longrightarrow> tree_value num dv Vs P t s = tree_value num dv Vs P t s'"
proof (induction t arbitrary: s s')
  case (TDistribution vs c iv d p r)
  have lev: "apply_levels iv s v = apply_levels iv s' v" if "v \<in> set vs \<union> set c" for v
    by (rule apply_levels_agree) (use TDistribution that in auto)
  have "marg dv (Vs - (set vs \<union> set c)) P (apply_levels iv s) = marg dv (Vs - (set vs \<union> set c)) P (apply_levels iv s')"
    "marg dv (Vs - set c) P (apply_levels iv s) = marg dv (Vs - set c) P (apply_levels iv s')"
    by (rule marg_agree[of Vs]; use P lev in blast)+
  then show ?case by (simp add: Let_def)
next
  case (TProduct ts)
  then show ?case by (auto intro!: arg_cong[where f = prod_list])
next
  case (TSumOut vs e)
  then show ?case by (auto intro: marg_agree[of "free_of e"])
next
  case (TIntegralOut vs e)
  then show ?case by (auto intro: marg_agree[of "free_of e"])
next
  case (TRatio x y)
  have "tree_value num dv Vs P x s = tree_value num dv Vs P x s'" "tree_value num dv Vs P y s = tree_value num dv Vs P y s'"
    by (rule TRatio.IH; use TRatio.prems in simp)+
  then show ?case by simp
next
  case (TExpectation f d)
  have "tree_value num dv Vs P d (s(f := x)) = tree_value num dv Vs P d (s'(f := x))" for x
    by (rule TExpectation.IH) (use TExpectation.prems in simp)
  then show ?case by simp
next
  case (TContrast x y c)
  have "tree_value num dv Vs P x s = tree_value num dv Vs P x s'" "tree_value num dv Vs P y s = tree_value num dv Vs P y s'"
    by (rule TContrast.IH; use TContrast.prems in simp)+
  then show ?case by (cases c) simp
qed auto

section \<open>Variables and nodes\<close>

definition node_env :: "prepared_admg \<Rightarrow> val env \<Rightarrow> val env" where
  "node_env pa s = restrict (\<lambda>i. s (pa_var pa i)) (pa_nodes pa)"

definition pa_vars :: "prepared_admg \<Rightarrow> nat set" where
  "pa_vars pa = pa_var pa ` pa_nodes pa"

definition pa_joint :: "prepared_admg \<Rightarrow> (nat set \<Rightarrow> val env \<Rightarrow> real) \<Rightarrow> val env \<Rightarrow> real" where
  "pa_joint pa Q s = Q (pa_nodes pa) (node_env pa s)"

definition node_dom :: "prepared_admg \<Rightarrow> (nat \<Rightarrow> val set) \<Rightarrow> nat \<Rightarrow> val set" where
  "node_dom pa dv i = dv (pa_var pa i)"

definition under_levels :: "assign \<Rightarrow> nat set \<Rightarrow> val env \<Rightarrow> val env" where
  "under_levels assign B \<sigma> i =
     (if i \<in> B then \<sigma> i else case map_of assign i of Some x \<Rightarrow> x | None \<Rightarrow> \<sigma> i)"

definition levels_ok :: "(nat \<Rightarrow> val set) \<Rightarrow> assign \<Rightarrow> bool" where
  "levels_ok dm assign \<longleftrightarrow> (\<forall>(t, x) \<in> set assign. x \<in> dm t \<and> \<not> val_is_symbolic_intervention x)"

definition levels_set :: "assign \<Rightarrow> bool" where
  "levels_set assign \<longleftrightarrow> (\<forall>(t, x) \<in> set assign. \<not> val_is_symbolic_intervention x)"

definition denotes ::
  "prepared_admg \<Rightarrow> assign \<Rightarrow> nat set \<Rightarrow> expr_arena \<Rightarrow> expr_id \<Rightarrow> denotation \<Rightarrow> bool" where
  "denotes pa assign B a e F \<longleftrightarrow> e < length (ar_nodes a) \<and> (levels_set assign \<longrightarrow> live (tree_of a e)) \<and>
     (\<forall>num dv Q s. world pa (node_dom pa dv) Q \<longrightarrow> levels_ok (node_dom pa dv) assign \<longrightarrow>
        valid_env dv (pa_vars pa) s \<longrightarrow>
        tree_value num dv (pa_vars pa) (pa_joint pa Q) (tree_of a e) s =
          F (node_dom pa dv) Q (under_levels assign B (node_env pa s)))"

lemma denotesD:
  assumes "denotes pa assign B a e F" "world pa (node_dom pa dv) Q" "levels_ok (node_dom pa dv) assign"
    "valid_env dv (pa_vars pa) s"
  shows "tree_value num dv (pa_vars pa) (pa_joint pa Q) (tree_of a e) s =
    F (node_dom pa dv) Q (under_levels assign B (node_env pa s))"
  using assms by (simp add: denotes_def)

lemma node_env_valid:
  "valid_env dv (pa_vars pa) s \<longleftrightarrow> valid_env (node_dom pa dv) (pa_nodes pa) (node_env pa s)"
  by (auto simp: valid_env_def pa_vars_def node_dom_def node_env_def)

lemma under_levels_valid:
  assumes "levels_ok dm assign" "valid_env dm V \<sigma>"
  shows "valid_env dm V (under_levels assign B \<sigma>)"
  using assms by (auto simp: valid_env_def under_levels_def levels_ok_def split: option.split dest!: map_of_SomeD)

lemma node_env_update:
  assumes "pa_named pa" "i < pa_count pa"
  shows "node_env pa (s(pa_var pa i := x)) = (node_env pa s)(i := x)"
  using pa_var_inj[OF assms(1) _ assms(2)] assms(2) by (auto simp: node_env_def restrict_def fun_eq_iff)

lemma node_env_agree: "(\<forall>v \<in> pa_vars pa. s v = s' v) \<Longrightarrow> node_env pa s = node_env pa s'"
  by (auto simp: node_env_def pa_vars_def restrict_def fun_eq_iff)

text \<open>What a denotation reads is free in the expression.\<close>

lemma denotes_reads:
  assumes named: "pa_named pa" and den: "denotes pa assign B a e F" and lev: "levels_set assign"
    and i: "i < pa_count pa" "i \<in> B" "reads pa F i"
  shows "pa_var pa i \<in> free_of (tree_of a e)"
proof (rule ccontr)
  assume not: "pa_var pa i \<notin> free_of (tree_of a e)"
  obtain U p where b: "biased U p" "snd ` set assign \<subseteq> U" using biased_exists[of "snd ` set assign"] by auto
  let ?dv = "\<lambda>_ :: nat. U" and ?s = "\<lambda>x. (\<lambda>_. BoolVal True)(pa_var pa i := x)"
  let ?u = "under_levels assign B (node_env pa (\<lambda>_. BoolVal True))"
  have dm: "node_dom pa ?dv = (\<lambda>_. U)" by (simp add: node_dom_def fun_eq_iff)
  have ok: "levels_ok (\<lambda>_. U) assign" using lev b(2) by (force simp: levels_ok_def levels_set_def)
  have agree: "pa_joint pa (coin p) s = pa_joint pa (coin p) s'" if "\<forall>v \<in> pa_vars pa. s v = s' v" for s s'
    using node_env_agree[OF that] by (simp add: pa_joint_def)
  have val: "valid_env (\<lambda>_. U) (pa_nodes pa) ?u"
    by (rule under_levels_valid[OF ok]) (auto simp: valid_env_def node_env_def biasedD(4)[OF b(1)])
  have den': "tree_value (\<lambda>_. 0) ?dv (pa_vars pa) (pa_joint pa (coin p)) (tree_of a e) s =
      F (\<lambda>_. U) (coin p) (under_levels assign B (node_env pa s))" if "valid_env ?dv (pa_vars pa) s" for s
    using denotesD[OF den, of ?dv "coin p" s] coin_world[OF b(1), of pa] ok that unfolding dm by simp
  have "F (\<lambda>_. U) (coin p) (?u(i := BoolVal x)) =
      tree_value (\<lambda>_. 0) ?dv (pa_vars pa) (pa_joint pa (coin p)) (tree_of a e) (?s (BoolVal x))" for x
  proof -
    have "under_levels assign B (node_env pa (?s (BoolVal x))) = ?u(i := BoolVal x)"
      unfolding node_env_update[OF named i(1)] using i(2) by (intro ext) (simp add: under_levels_def split: option.split)
    moreover have "valid_env ?dv (pa_vars pa) (?s (BoolVal x))" by (simp add: valid_env_def biasedD(4)[OF b(1)])
    ultimately show ?thesis using den'[of "?s (BoolVal x)"] by simp
  qed
  moreover have "tree_value (\<lambda>_. 0) ?dv (pa_vars pa) (pa_joint pa (coin p)) (tree_of a e) (?s (BoolVal True)) =
      tree_value (\<lambda>_. 0) ?dv (pa_vars pa) (pa_joint pa (coin p)) (tree_of a e) (?s (BoolVal False))"
    by (rule tree_value_agree[OF agree]) (use not in auto)
  ultimately have "F (\<lambda>_. U) (coin p) (?u(i := BoolVal True)) = F (\<lambda>_. U) (coin p) (?u(i := BoolVal False))" by simp
  with i(3) b(1) val show False unfolding reads_def by blast
qed

text \<open>Sums over variables are sums over nodes.\<close>

lemma marg_vars:
  assumes named: "pa_named pa" and "finite S" "S \<subseteq> pa_nodes pa"
    and "\<And>s. valid_env dv (pa_vars pa) s \<Longrightarrow> g s = f (node_env pa s)" "valid_env dv (pa_vars pa) s"
  shows "marg dv (pa_var pa ` S) g s = marg (node_dom pa dv) S f (node_env pa s)"
  using assms(2,3,5)
proof (induction S arbitrary: s)
  case (insert i S)
  have "pa_var pa i \<notin> pa_var pa ` S"
    using insert.hyps insert.prems(1) pa_var_inj[OF named, of i] by auto
  then have "marg dv (pa_var pa ` insert i S) g s =
      (\<Sum>x \<in> dv (pa_var pa i). marg dv (pa_var pa ` S) g (s(pa_var pa i := x)))"
    by (simp add: marg_insert)
  also have "\<dots> = (\<Sum>x \<in> node_dom pa dv i. marg (node_dom pa dv) S f ((node_env pa s)(i := x)))"
  proof (rule sum.cong)
    fix x assume x: "x \<in> node_dom pa dv i"
    then have "valid_env dv (pa_vars pa) (s(pa_var pa i := x))"
      using insert.prems(2) by (auto simp: valid_env_def node_dom_def)
    then show "marg dv (pa_var pa ` S) g (s(pa_var pa i := x)) = marg (node_dom pa dv) S f ((node_env pa s)(i := x))"
      using insert.IH insert.prems(1) node_env_update[OF named, of i s x] by simp
  qed (simp add: node_dom_def)
  also have "\<dots> = marg (node_dom pa dv) (insert i S) f (node_env pa s)"
    using insert.hyps by (simp add: marg_insert)
  finally show ?case .
qed (simp add: assms(4))

section \<open>Changing what is denoted\<close>

lemma denotes_grows:
  assumes "denotes pa assign B a e F" "arena_inv a" "grows a b"
  shows "denotes pa assign B b e F"
  using assms grows_tree[OF assms(2) assms(3) assms(3)] grows_length[OF assms(3)] by (simp add: denotes_def)

lemma denotes_cong:
  assumes "denotes pa assign B a e F"
    and "\<And>dm Q \<sigma>. world pa dm Q \<Longrightarrow> valid_env dm (pa_nodes pa) \<sigma> \<Longrightarrow> F dm Q \<sigma> = G dm Q \<sigma>"
  shows "denotes pa assign B a e G"
  using assms under_levels_valid node_env_valid unfolding denotes_def by metis

lemma denotes_bound:
  assumes "denotes pa assign B a e F" "B \<inter> fst ` set assign = B' \<inter> fst ` set assign"
  shows "denotes pa assign B' a e F"
proof -
  have "under_levels assign B \<sigma> = under_levels assign B' \<sigma>" for \<sigma>
  proof
    fix i show "under_levels assign B \<sigma> i = under_levels assign B' \<sigma> i"
      using assms(2) map_of_eq_None_iff[of assign i] by (auto simp: under_levels_def split: option.split)
  qed
  with assms(1) show ?thesis by (simp add: denotes_def)
qed

lemma denotes_id: "denotes pa assign B a e F \<Longrightarrow> e < length (ar_nodes a)"
  and denotes_live: "denotes pa assign B a e F \<Longrightarrow> levels_set assign \<Longrightarrow> live (tree_of a e)"
  by (simp_all add: denotes_def)

definition emits :: "prepared_admg \<Rightarrow> assign \<Rightarrow> nat set \<Rightarrow> denotation \<Rightarrow> expr_arena \<Rightarrow>
    (identification_error + expr_id) \<times> expr_arena \<Rightarrow> bool" where
  "emits pa assign B F a = (\<lambda>(r, a'). grows a a' \<and> (\<exists>e. r = Inr e \<and> denotes pa assign B a' e F))"

lemma emitsI: "grows a a' \<Longrightarrow> denotes pa assign B a' e F \<Longrightarrow> emits pa assign B F a (Inr e, a')"
  by (simp add: emits_def)

lemma holds_emits_cong:
  assumes "holds (emits pa assign B F a) m"
    and "\<And>dm Q \<sigma>. world pa dm Q \<Longrightarrow> valid_env dm (pa_nodes pa) \<sigma> \<Longrightarrow> F dm Q \<sigma> = G dm Q \<sigma>"
  shows "holds (emits pa assign B G a) m"
  using assms(1) denotes_cong[OF _ assms(2)] by (auto simp: emits_def intro!: holds_mono[OF assms(1)])

lemma holds_emits_grows:
  "grows a b \<Longrightarrow> holds (emits pa assign B F b) m \<Longrightarrow> holds (emits pa assign B F a) m"
  by (erule holds_mono) (auto simp: emits_def intro: grows_trans)

text \<open>The steps of an emission: a table entry, or an expression used later.\<close>

lemma holds_entry:
  assumes "holds (\<lambda>(i, a'). grows a a' \<and> P i a') m"
    and "\<And>i a'. grows a a' \<Longrightarrow> P i a' \<Longrightarrow> holds (emits pa assign B F a') (f i a')"
  shows "holds (emits pa assign B F a) (try_bind (infallible m) f)"
  using assms by (cases m) (auto simp: infallible_def intro: holds_emits_grows)

lemma holds_last_entry:
  assumes "holds (\<lambda>(i, a'). grows a a' \<and> P i a') m"
    and "\<And>i a'. grows a a' \<Longrightarrow> P i a' \<Longrightarrow> denotes pa assign B a' i F"
  shows "holds (emits pa assign B F a) (infallible m)"
  using assms by (cases m) (auto simp: infallible_def emits_def)

lemma holds_emitted:
  assumes "holds (emits pa assign B F a) m" "arena_inv a"
    and "\<And>e a'. grows a a' \<Longrightarrow> denotes pa assign B a' e F \<Longrightarrow> holds (emits pa assign B' G a') (f e a')"
  shows "holds (emits pa assign B' G a) (try_bind m f)"
  using assms by (cases m) (auto simp: emits_def[of pa assign B F] intro: holds_emits_grows)

lemma try_bind_pure [simp]: "try_bind (pure_result (Inr x) s) f = f x s"
  by (simp add: pure_result_def)

lemma holds_pair_mono:
  "holds (\<lambda>(i, s). P i s) m \<Longrightarrow> (\<And>i s. P i s \<Longrightarrow> R i s) \<Longrightarrow> holds (\<lambda>(i, s). R i s) m"
  by (cases m) auto

section \<open>Sums and products\<close>

lemma under_levels_override: "under_levels assign (B \<union> S) (override_on \<sigma> \<tau> S) = override_on (under_levels assign B \<sigma>) \<tau> S"
  by (auto simp: under_levels_def override_on_def fun_eq_iff)

lemma under_levels_marg: "marg dm S (\<lambda>\<sigma>. F (under_levels assign (B \<union> S) \<sigma>)) \<sigma> = marg dm S F (under_levels assign B \<sigma>)"
  by (simp add: marg_def under_levels_override)

lemma intern_sum:
  assumes named: "pa_named pa" and inv: "arena_inv a" and den: "denotes pa assign (B \<union> S) a e F"
    and S: "S \<subseteq> pa_nodes pa" "\<And>i. i \<in> S \<Longrightarrow> reads pa F i"
    and vs: "vs < length (ar_var_sets a)" "set (ar_var_sets a ! vs) = pa_var pa ` S"
  shows "holds (\<lambda>(i, a'). grows a a' \<and> denotes pa assign B a' i (\<lambda>dm Q. marg dm S (F dm Q))) (ar_intern a (SumOut vs e))"
proof -
  have e: "e < length (ar_nodes a)" by (rule denotes_id[OF den])
  have "holds (\<lambda>(i, a'). grows a a' \<and> i < length (ar_nodes a') \<and>
      tree_of a' i = node_view a (tree_of a) (SumOut vs e)) (ar_intern a (SumOut vs e))"
    by (rule ar_intern_tree[OF inv]) (use vs(1) e in simp)
  then show ?thesis
  proof (rule holds_pair_mono, elim conjE)
    fix i a' assume g: "grows a a'" "i < length (ar_nodes a')" "tree_of a' i = node_view a (tree_of a) (SumOut vs e)"
    have t: "tree_of a' i = TSumOut (ar_var_sets a ! vs) (tree_of a e)" using g(3) vs(1) by (simp add: row_def)
    have fin: "finite S" using S(1) finite_subset by blast
    have "live (tree_of a' i)" if "levels_set assign"
      unfolding t using denotes_live[OF den that] denotes_reads[OF named den that] S vs(2) by auto
    moreover have "tree_value num dv (pa_vars pa) (pa_joint pa Q) (tree_of a' i) s =
        marg (node_dom pa dv) S (F (node_dom pa dv) Q) (under_levels assign B (node_env pa s))"
      if "world pa (node_dom pa dv) Q" "levels_ok (node_dom pa dv) assign" "valid_env dv (pa_vars pa) s" for num dv Q s
    proof -
      have "tree_value num dv (pa_vars pa) (pa_joint pa Q) (tree_of a' i) s =
          marg (node_dom pa dv) S (\<lambda>\<sigma>. F (node_dom pa dv) Q (under_levels assign (B \<union> S) \<sigma>)) (node_env pa s)"
        unfolding t tree_value.simps vs(2)
        by (rule marg_vars[OF named fin S(1) _ that(3)]) (use den that(1,2) in \<open>simp add: denotes_def\<close>)
      then show ?thesis unfolding under_levels_marg .
    qed
    ultimately show "grows a a' \<and> denotes pa assign B a' i (\<lambda>dm Q. marg dm S (F dm Q))"
      using g(1,2) by (simp add: denotes_def)
  qed
qed

lemma intern_nodes_spec:
  assumes "pa_inv pa" "pa_named pa" "arena_inv a" "nodes_in (pa_count pa) s"
  shows "holds (\<lambda>(r, a'). grows a a' \<and> (\<exists>vs. r = Inr vs \<and> vs < length (ar_var_sets a') \<and>
    set (ar_var_sets a' ! vs) = pa_var pa ` bs_members s)) (intern_nodes pa s a)"
proof -
  have "\<forall>i \<in> set (bs_ids s). i < pa_count pa" "set (bs_ids s) = bs_members s"
    using nodes_inD[OF assms(4)] nodes_in_ids[OF assms(4)] by blast+
  then have vars: "pa_dense_to_vars pa (bs_ids s) = Inr (map (pa_var pa) (bs_ids s))"
      "set (map (pa_var pa) (bs_ids s)) = pa_var pa ` bs_members s"
    using pa_dense_to_vars_spec[OF assms(2)] by auto
  show ?thesis
    unfolding intern_nodes_def nodes_in_iter(1)[OF assms(4) pa_invD(2)[OF assms(1)]] of_option.simps run_bind.simps
      vars(1) try_bind_pure infallible_def
    by (rule holds_bind[OF ar_intern_var_set_spec[OF assms(3)]]) (auto simp: vars(2)[unfolded set_map])
qed

lemma emit_sum_emits:
  assumes prep: "pa_inv pa" and named: "pa_named pa" and inv: "arena_inv a" and den: "denotes pa assign (B \<union> bs_members s) a e F"
    and s: "nodes_in (pa_count pa) s" "\<And>i. i \<in> bs_members s \<Longrightarrow> reads pa F i"
  shows "holds (emits pa assign B (\<lambda>dm Q. marg dm (bs_members s) (F dm Q)) a) (emit_sum pa s e a)"
proof (cases "bs_any s")
  case True
  have "holds (emits pa assign B (\<lambda>dm Q. marg dm (bs_members s) (F dm Q)) a)
      (try_bind (intern_nodes pa s a) (\<lambda>vs a. infallible (ar_intern a (SumOut vs e))))"
  proof (rule holds_try_bind[OF intern_nodes_spec[OF prep named inv s(1)]], simp, clarify)
    fix r a' vs
    assume g: "grows a a'" "vs < length (ar_var_sets a')" "set (ar_var_sets a' ! vs) = pa_var pa ` bs_members s"
    have inv': "arena_inv a'" using growsD[OF g(1)] by simp
    show "holds (emits pa assign B (\<lambda>dm Q. marg dm (bs_members s) (F dm Q)) a) (infallible (ar_intern a' (SumOut vs e)))"
      by (rule holds_emits_grows[OF g(1)], rule holds_last_entry[OF intern_sum[OF named inv'
          denotes_grows[OF den inv g(1)] nodes_in_members[OF s(1)] s(2) g(2,3)]])
  qed
  with True show ?thesis by (simp add: emit_sum_def)
next
  case False
  then have "bs_members s = {}" using members_any[OF s(1)] by simp
  with False den inv show ?thesis by (simp add: emit_sum_def emits_def)
qed

lemma intern_product_emits:
  assumes inv: "arena_inv a" and den: "list_all2 (\<lambda>e F. denotes pa assign B a e F) es Fs"
  shows "holds (emits pa assign B (\<lambda>dm Q \<sigma>. \<Prod>F \<leftarrow> Fs. F dm Q \<sigma>) a)
    (try_bind (infallible (ar_intern_list a es)) (\<lambda>l a. infallible (ar_intern a (Product l))))"
proof -
  have ids: "\<forall>c \<in> set es. c < length (ar_nodes a)"
    by (metis den denotes_id in_set_conv_nth list_all2_conv_all_nth)
  have val: "map (\<lambda>e. tree_value num dv (pa_vars pa) (pa_joint pa Q) (tree_of a e) s) es =
      map (\<lambda>F. F (node_dom pa dv) Q (under_levels assign B (node_env pa s))) Fs"
    if "world pa (node_dom pa dv) Q" "levels_ok (node_dom pa dv) assign" "valid_env dv (pa_vars pa) s" for num dv Q s
    using den that by (auto simp: list_all2_conv_all_nth denotes_def intro!: nth_equalityI)
  have alive: "\<forall>e \<in> set es. live (tree_of a e)" if "levels_set assign"
    by (metis that den denotes_live in_set_conv_nth list_all2_conv_all_nth)
  show ?thesis
  proof (rule holds_entry[OF ar_intern_list_spec[OF inv ids]], clarify)
    fix l b assume b: "grows a b" "l < length (ar_lists b)" "es = ar_lists b ! l" "ar_nodes b = ar_nodes a"
    have invb: "arena_inv b" using growsD[OF b(1)] by simp
    have "holds (\<lambda>(i, a'). grows b a' \<and> i < length (ar_nodes a') \<and>
        tree_of a' i = node_view b (tree_of b) (Product l)) (ar_intern b (Product l))"
      by (rule ar_intern_tree[OF invb]) (use b ids in auto)
    then show "holds (emits pa assign B (\<lambda>dm Q \<sigma>. \<Prod>F \<leftarrow> Fs. F dm Q \<sigma>) b) (infallible (ar_intern b (Product l)))"
    proof (rule holds_last_entry, clarify)
      fix i a' assume i: "i < length (ar_nodes a')" "tree_of a' i = node_view b (tree_of b) (Product l)"
      have "map (tree_of b) es = map (tree_of a) es"
        using ids grows_tree[OF inv b(1) b(1)] by simp
      then have "tree_of a' i = TProduct (map (tree_of a) es)" using i(2) b(2,3) by (simp add: row_def)
      then show "denotes pa assign B a' i (\<lambda>dm Q \<sigma>. \<Prod>F \<leftarrow> Fs. F dm Q \<sigma>)"
        using i(1) val alive by (simp add: denotes_def comp_def)
    qed
  qed
qed

lemma emit_product_emits:
  assumes inv: "arena_inv a" and den: "list_all2 (\<lambda>e F. denotes pa assign B a e F) es Fs"
  shows "holds (emits pa assign B (\<lambda>dm Q \<sigma>. \<Prod>F \<leftarrow> Fs. F dm Q \<sigma>) a) (emit_product es a)"
proof (cases "length es = 1")
  case True
  then obtain e F where "es = [e]" "Fs = [F]" "denotes pa assign B a e F"
    using den by (cases es; cases Fs) auto
  with inv show ?thesis by (simp add: emit_product_def emits_def)
qed (use intern_product_emits[OF inv den] in \<open>simp add: emit_product_def\<close>)

end
