(* ===== verification/Id_Emission.thy ===== *)
theory Id_Emission
  imports Expr_Value
begin

text \<open>
  Every emission of \<open>id.rs\<close> succeeds on named nodes and writes an expression with the intended
  value: a factor \<open>P(i | cond)\<close>, a law with its bound variables, the factor of a district, the
  marginal of the current distribution (lines 1 and 6).
\<close>

section \<open>One conditional\<close>

definition cond_ratio :: "nat set \<Rightarrow> nat \<Rightarrow> nat set \<Rightarrow> denotation" where
  "cond_ratio V i C dm Q \<sigma> = marg dm (V - insert i C) (Q V) \<sigma> / marg dm (V - C) (Q V) \<sigma>"

definition unbound :: "nat set \<Rightarrow> assign \<Rightarrow> assign" where
  "unbound B assign = filter (\<lambda>(t, _). t \<notin> B) assign"

lemma touching_assignments_spec:
  assumes named: "pa_named pa" and "\<forall>(t, x) \<in> set assign. t < pa_count pa"
  shows "\<exists>ts. touching_assignments pa assign i cond = Inr ts \<and>
    set ts = {\<lparr>ia_variable = pa_var pa t, ia_value = x\<rparr> | t x. (t, x) \<in> set assign \<and> (t = i \<or> pa_var pa t \<in> set cond)}"
  using assms(2)
proof (induction assign)
  case (Cons p assign)
  obtain t x where p: "p = (t, x)" by (cases p)
  have t: "pa_dense_to_var pa t = Inr (pa_var pa t)" using Cons.prems p pa_namedD[OF named] by auto
  obtain ts where "touching_assignments pa assign i cond = Inr ts"
    "set ts = {\<lparr>ia_variable = pa_var pa t, ia_value = x\<rparr> | t x. (t, x) \<in> set assign \<and> (t = i \<or> pa_var pa t \<in> set cond)}"
    using Cons by auto
  then show ?case using p t by (auto simp: rbind_def)
qed simp

lemma intervention_for_factor_spec:
  assumes named: "pa_named pa" and inv: "arena_inv a" and nodes: "\<forall>(t, x) \<in> set assign. t < pa_count pa"
    and dist: "distinct (map fst assign)"
  shows "holds (\<lambda>(r, a'). grows a a' \<and> (\<exists>iv d. r = Inr (iv, d) \<and> iv < length (ar_interventions a') \<and>
      distinct (map ia_variable (ar_interventions a' ! iv)) \<and>
      set (ar_interventions a' ! iv) = {\<lparr>ia_variable = pa_var pa t, ia_value = x\<rparr> | t x.
        (t, x) \<in> set assign \<and> (t = i \<or> pa_var pa t \<in> set cond)}))
    (intervention_for_factor pa assign i cond a)"
proof -
  let ?T = "{\<lparr>ia_variable = pa_var pa t, ia_value = x\<rparr> | t x. (t, x) \<in> set assign \<and> (t = i \<or> pa_var pa t \<in> set cond)}"
  obtain ts where ts: "touching_assignments pa assign i cond = Inr ts" "set ts = ?T"
    using touching_assignments_spec[OF named nodes] by blast
  show ?thesis
  proof (cases "ts = []")
    case True
    with ts(2) have none: "?T = {}" by simp
    show ?thesis
      unfolding intervention_for_factor_def ts(1) try_bind_pure none
      using True ar_empty_intervention_set_spec[OF inv]
      by (cases "ar_empty_intervention_set a") (auto simp: infallible_def)
  next
    case False
    have inj: "inj_on ia_variable (set ts)"
    proof (rule inj_onI)
      fix x y assume "x \<in> set ts" "y \<in> set ts" "ia_variable x = ia_variable y"
      then obtain t u p q where x: "x = \<lparr>ia_variable = pa_var pa t, ia_value = p\<rparr>" "(t, p) \<in> set assign"
          and y: "y = \<lparr>ia_variable = pa_var pa u, ia_value = q\<rparr>" "(u, q) \<in> set assign"
          and "pa_var pa t = pa_var pa u"
        unfolding ts(2) by auto
      then have "t = u" using nodes pa_var_inj[OF named, of t u] by auto
      with x y dist show "x = y" using eq_key_imp_eq_value by fast
    qed
    have "holds (\<lambda>(r, a'). grows a a' \<and> (\<exists>iv. r = Inr iv \<and> iv < length (ar_interventions a') \<and>
        distinct (map ia_variable (ar_interventions a' ! iv)) \<and> set (ar_interventions a' ! iv) = ?T))
        (intern_assignments ts a)"
      unfolding intern_assignments_def
      by (rule holds_bind[OF ar_try_intern_assignments_spec[OF inv]])
        (use inj ts(2) in \<open>auto split: sum.splits\<close>)
    then show ?thesis
      unfolding intervention_for_factor_def ts(1) try_bind_pure using False
      by (cases "intern_assignments ts a") auto
  qed
qed

text \<open>The levels a factor carries are those of the nodes it mentions.\<close>

lemma apply_levels_at:
  assumes named: "pa_named pa" and ok: "levels_ok (node_dom pa dv) assign" and dist: "distinct (map fst assign)"
    and nodes: "\<forall>(t, x) \<in> set assign. t < pa_count pa"
    and iv: "distinct (map ia_variable iv)" "set iv = {\<lparr>ia_variable = pa_var pa t, ia_value = x\<rparr> | t x.
      (t, x) \<in> set (unbound B assign) \<and> t \<in> T}"
    and j: "j < pa_count pa" "j \<in> T"
  shows "node_env pa (apply_levels iv s) j = under_levels assign B (node_env pa s) j"
proof -
  have var: "node_env pa r j = r (pa_var pa j)" for r using j(1) by (simp add: node_env_def)
  have hits: "a \<in> set iv \<and> ia_variable a = pa_var pa j \<longleftrightarrow>
      (\<exists>x. a = \<lparr>ia_variable = pa_var pa j, ia_value = x\<rparr> \<and> (j, x) \<in> set assign \<and> j \<notin> B)" for a
    using nodes j pa_var_inj[OF named _ j(1)] unfolding iv(2) by (fastforce simp: unbound_def)
  show ?thesis
  proof (cases "j \<notin> B \<and> (\<exists>x. map_of assign j = Some x)")
    case True
    then obtain x where x: "map_of assign j = Some x" "j \<notin> B" by blast
    then have in_assign: "(j, x) \<in> set assign" by (simp add: map_of_SomeD)
    let ?a = "\<lparr>ia_variable = pa_var pa j, ia_value = x\<rparr>"
    have sym: "\<not> ia_is_symbolic ?a" using ok in_assign by (auto simp: levels_ok_def ia_is_symbolic_def)
    have only: "a = ?a" if a: "a \<in> set iv" "ia_variable a = pa_var pa j" for a
    proof -
      obtain y where "a = \<lparr>ia_variable = pa_var pa j, ia_value = y\<rparr>" "(j, y) \<in> set assign"
        using hits[of a] a by blast
      then show ?thesis using eq_key_imp_eq_value[OF dist in_assign] by simp
    qed
    have mem: "?a \<in> set iv" using hits[of ?a] in_assign x(2) by simp
    have "find (\<lambda>a. ia_variable a = pa_var pa j \<and> \<not> ia_is_symbolic a) iv = Some ?a"
    proof (cases "find (\<lambda>a. ia_variable a = pa_var pa j \<and> \<not> ia_is_symbolic a) iv")
      case None
      with mem sym show ?thesis by (auto simp: find_None_iff)
    next
      case (Some b)
      then have "b \<in> set iv" "ia_variable b = pa_var pa j" by (auto simp: find_Some_iff)
      with only Some show ?thesis by simp
    qed
    then show ?thesis unfolding var[of "apply_levels iv s"] using x by (simp add: apply_levels_def under_levels_def)
  next
    case False
    have "find (\<lambda>a. ia_variable a = pa_var pa j \<and> \<not> ia_is_symbolic a) iv = None"
      unfolding find_None_iff
    proof (intro notI, elim exE conjE)
      fix a assume "a \<in> set iv" "ia_variable a = pa_var pa j"
      then obtain x where "(j, x) \<in> set assign" "j \<notin> B" using hits[of a] by blast
      with False show False by (cases "map_of assign j") (auto simp: map_of_eq_None_iff image_iff)
    qed
    then have "node_env pa (apply_levels iv s) j = node_env pa s j"
      unfolding var by (simp add: apply_levels_def)
    moreover have "under_levels assign B (node_env pa s) j = node_env pa s j"
      using False by (auto simp: under_levels_def split: option.split)
    ultimately show ?thesis by simp
  qed
qed

lemma ignores_nodes:
  assumes "world pa dm Q" "S \<subseteq> pa_nodes pa"
  shows "ignores (marg dm (pa_nodes pa - S) (Q (pa_nodes pa))) (- S)"
proof -
  have "ignores (Q (pa_nodes pa)) (- pa_nodes pa)"
    using assms(1) by (simp add: world_def causal_factors_def ignores_def)
  from marg_ignores[OF this, of dm "pa_nodes pa - S"] show ?thesis
    by (rule ignores_mono) (use assms(2) in auto)
qed

text \<open>The value of the leaf \<open>P(i | cond)\<close> under its levels.\<close>

lemma conditional_leaf_value:
  assumes named: "pa_named pa" and ok: "levels_ok (node_dom pa dv) assign" and dist: "distinct (map fst assign)"
    and nodes: "\<forall>(t, x) \<in> set assign. t < pa_count pa"
    and iv: "distinct (map ia_variable iv)" "set iv = {\<lparr>ia_variable = pa_var pa t, ia_value = x\<rparr> | t x.
      (t, x) \<in> set (unbound B assign) \<and> t \<in> T}"
    and w: "world pa (node_dom pa dv) Q" and val: "valid_env dv (pa_vars pa) s" and T: "T \<subseteq> pa_nodes pa" "S \<subseteq> T"
  shows "marg dv (pa_vars pa - pa_var pa ` S) (pa_joint pa Q) (apply_levels iv s) =
    marg (node_dom pa dv) (pa_nodes pa - S) (Q (pa_nodes pa)) (under_levels assign B (node_env pa s))"
proof -
  let ?V = "pa_nodes pa" and ?s = "apply_levels iv s" and ?dm = "node_dom pa dv"
  let ?l = "under_levels assign B (node_env pa s)"
  have S: "S \<subseteq> ?V" using T by blast
  have agree: "node_env pa ?s j = ?l j" if "j \<in> T" for j
    by (rule apply_levels_at[OF named ok dist nodes iv]) (use that T in auto)
  have "node_env pa ?s j \<in> ?dm j" if j: "j < pa_count pa" for j
  proof (cases "j \<in> T")
    case True
    have "valid_env ?dm ?V ?l" by (rule under_levels_valid[OF ok]) (use val node_env_valid in blast)
    then show ?thesis using agree[OF True] j by (simp add: valid_env_def)
  next
    case False
    have "ia_variable b \<noteq> pa_var pa j" if b: "b \<in> set iv" for b
    proof -
      obtain t x where t: "ia_variable b = pa_var pa t" "t \<in> T" using b unfolding iv(2) by auto
      then have "t < pa_count pa" "t \<noteq> j" using T False by auto
      with t(1) j pa_var_inj[OF named] show ?thesis by simp
    qed
    then have "find (\<lambda>a. ia_variable a = pa_var pa j \<and> \<not> ia_is_symbolic a) iv = None"
      by (auto simp: find_None_iff)
    then have "?s (pa_var pa j) = s (pa_var pa j)" by (simp add: apply_levels_def)
    with val j show ?thesis by (simp add: node_env_def valid_env_def node_dom_def pa_vars_def)
  qed
  then have valid_s: "valid_env dv (pa_vars pa) ?s" unfolding node_env_valid by (simp add: valid_env_def)
  have "pa_vars pa - pa_var pa ` S = pa_var pa ` (?V - S)"
    unfolding pa_vars_def using S pa_var_inj[OF named]
    by (intro inj_on_image_set_diff[symmetric, of _ ?V]) (auto simp: inj_on_def)
  then have "marg dv (pa_vars pa - pa_var pa ` S) (pa_joint pa Q) ?s = marg ?dm (?V - S) (Q ?V) (node_env pa ?s)"
    using marg_vars[OF named _ _ _ valid_s, of "?V - S" "pa_joint pa Q" "Q ?V"] by (simp add: pa_joint_def)
  also have "\<dots> = marg ?dm (?V - S) (Q ?V) ?l"
    by (rule ignoresD[OF ignores_nodes[OF w S]]) (use agree T(2) in auto)
  finally show ?thesis .
qed

lemma ar_intern_distribution_tree:
  assumes inv: "arena_inv a" and "vs < length (ar_var_sets a)" "c < length (ar_var_sets a)" "iv < length (ar_interventions a)"
  shows "holds (\<lambda>(x, a'). grows a a' \<and> x < length (ar_nodes a') \<and> tree_of a' x =
      TDistribution (ar_var_sets a ! vs) (ar_var_sets a ! c) (ar_interventions a ! iv) d [] None)
    (ar_intern_distribution a vs c iv d)"
  unfolding ar_intern_distribution_def
proof (rule holds_bind[OF ar_empty_population_spec[OF inv]], clarify)
  fix p f assume f: "grows a f" "p < length (ar_populations f)" "ar_populations f ! p = []"
  have invf: "arena_inv f" using growsD[OF f(1)] by simp
  note le = ar_le_entries[OF conjunct2[OF growsD[OF f(1)]]]
  have "holds (\<lambda>(x, a'). grows f a' \<and> x < length (ar_nodes a') \<and>
      tree_of a' x = node_view f (tree_of f) (Distribution vs c iv d p None)) (ar_intern f (Distribution vs c iv d p None))"
    by (rule ar_intern_tree[OF invf]) (use f(2) assms(2-4) le in auto)
  then show "holds (\<lambda>(x, a'). grows a a' \<and> x < length (ar_nodes a') \<and> tree_of a' x =
      TDistribution (ar_var_sets a ! vs) (ar_var_sets a ! c) (ar_interventions a ! iv) d [] None)
    (ar_intern f (Distribution vs c iv d p None))"
    by (rule holds_pair_mono) (use grows_trans[OF f(1)] le assms(2-4) f(2,3) in \<open>auto simp: row_def\<close>)
qed

lemma emit_conditional_emits:
  assumes named: "pa_named pa" and inv: "arena_inv a" and nodes: "\<forall>(t, x) \<in> set assign. t < pa_count pa"
    and dist: "distinct (map fst assign)" and i: "i < pa_count pa" and C: "set cond \<subseteq> pa_nodes pa"
  shows "holds (emits pa assign B (cond_ratio (pa_nodes pa) i (set cond)) a)
    (emit_conditional pa (unbound B assign) i cond a)"
proof -
  let ?F = "cond_ratio (pa_nodes pa) i (set cond)" and ?asg = "unbound B assign"
  let ?cv = "map (pa_var pa) cond" and ?T = "insert i (set cond)"
  have var_i: "pa_dense_to_var pa i = Inr (pa_var pa i)" by (rule pa_namedD(1)[OF named i])
  have vars: "pa_dense_to_vars pa cond = Inr ?cv" by (rule pa_dense_to_vars_spec[OF named]) (use C in auto)
  have nodes': "\<forall>(t, x) \<in> set ?asg. t < pa_count pa" using nodes by (auto simp: unbound_def)
  have dist': "distinct (map fst ?asg)" using dist by (simp add: unbound_def distinct_map_filter)
  have touched: "t = i \<or> pa_var pa t \<in> set ?cv \<longleftrightarrow> t \<in> ?T" if "(t, x) \<in> set ?asg" for t x
    using that nodes' C pa_var_inj[OF named] by (force simp: image_iff)
  show ?thesis
    unfolding emit_conditional_def var_i vars try_bind_pure
  proof (rule holds_entry[OF ar_intern_var_set_spec[OF inv]], rule holds_entry[OF ar_intern_var_set_spec],
      simp add: grows_def, elim conjE)
    fix vs b c d assume b: "grows a b" "vs < length (ar_var_sets b)" "ar_var_sets b ! vs = sorted_list_of_set (set [pa_var pa i])"
      and d: "grows b d" "c < length (ar_var_sets d)" "ar_var_sets d ! c = sorted_list_of_set (set ?cv)"
    have invd: "arena_inv d" using growsD[OF d(1)] by simp
    show "holds (emits pa assign B ?F d) (try_bind (intervention_for_factor pa ?asg i ?cv d)
        (\<lambda>(iv, dr) a. infallible (ar_intern_distribution a vs c iv dr)))"
    proof (rule holds_try_bind[OF intervention_for_factor_spec[OF named invd nodes' dist']], simp, clarify)
      fix iv dr e
      assume e: "grows d e" "iv < length (ar_interventions e)" "distinct (map ia_variable (ar_interventions e ! iv))"
        "set (ar_interventions e ! iv) = {\<lparr>ia_variable = pa_var pa t, ia_value = x\<rparr> | t x.
          (t, x) \<in> set ?asg \<and> (t = i \<or> pa_var pa t \<in> set ?cv)}"
      have inve: "arena_inv e" using growsD[OF e(1)] by simp
      have lev: "set (ar_interventions e ! iv) = {\<lparr>ia_variable = pa_var pa t, ia_value = x\<rparr> | t x.
          (t, x) \<in> set ?asg \<and> t \<in> ?T}"
        unfolding e(4) using touched by blast
      have sets: "vs < length (ar_var_sets e)" "set (ar_var_sets e ! vs) = pa_var pa ` {i}"
          "c < length (ar_var_sets e)" "set (ar_var_sets e ! c) = pa_var pa ` set cond"
        using ar_le_entries(2)[OF conjunct2[OF growsD[OF d(1)]] b(2)] b(3)
          ar_le_entries(2)[OF conjunct2[OF growsD[OF e(1)]]] d(2,3) by auto
      have T: "?T \<subseteq> pa_nodes pa" using i C by simp
      show "holds (emits pa assign B ?F d) (infallible (ar_intern_distribution e vs c iv dr))"
      proof (rule holds_emits_grows[OF e(1)],
          rule holds_last_entry[OF ar_intern_distribution_tree[OF inve sets(1,3) e(2)]], elim conjE)
        fix x a'
        assume x: "x < length (ar_nodes a')" and t: "tree_of a' x =
            TDistribution (ar_var_sets e ! vs) (ar_var_sets e ! c) (ar_interventions e ! iv) dr [] None"
        have all: "pa_var pa ` {i} \<union> pa_var pa ` set cond = pa_var pa ` ?T" by simp
        note leaf = conditional_leaf_value[OF named _ dist nodes e(3) lev _ _ T]
        show "denotes pa assign B a' x ?F"
          unfolding denotes_def t tree_value.simps sets(2,4) Let_def cond_ratio_def all
          using x by (intro conjI allI impI) (simp_all only: live.simps leaf[OF _ _ _ order_refl] leaf[OF _ _ _ subset_insertI])
      qed
    qed
  qed
qed

section \<open>Laws\<close>

lemma intern_ratio:
  assumes inv: "arena_inv a" and den: "denotes pa assign B a x F" "denotes pa assign B a y G"
  shows "holds (\<lambda>(i, a'). grows a a' \<and> denotes pa assign B a' i (\<lambda>dm Q \<sigma>. F dm Q \<sigma> / G dm Q \<sigma>))
    (ar_intern a (Ratio x y))"
proof -
  have "holds (\<lambda>(i, a'). grows a a' \<and> i < length (ar_nodes a') \<and>
      tree_of a' i = node_view a (tree_of a) (Ratio x y)) (ar_intern a (Ratio x y))"
    by (rule ar_intern_tree[OF inv]) (use den denotes_id in auto)
  then show ?thesis by (rule holds_pair_mono) (use den in \<open>auto simp: denotes_def\<close>)
qed

definition assign_ok :: "prepared_admg \<Rightarrow> assign \<Rightarrow> bool" where
  "assign_ok pa assign \<longleftrightarrow> (\<forall>(t, x) \<in> set assign. t < pa_count pa) \<and> distinct (map fst assign)"

definition emits_list :: "prepared_admg \<Rightarrow> assign \<Rightarrow> nat set \<Rightarrow> denotation list \<Rightarrow> expr_arena \<Rightarrow>
    (identification_error + expr_id list) \<times> expr_arena \<Rightarrow> bool" where
  "emits_list pa assign B Fs a = (\<lambda>(r, a'). grows a a' \<and>
     (\<exists>es. r = Inr es \<and> list_all2 (\<lambda>e F. denotes pa assign B a' e F) es Fs))"

lemma emits_list_cons:
  assumes e: "grows a b" "denotes pa assign B b e F" and es: "holds (emits_list pa assign B Fs b) m"
  shows "holds (emits_list pa assign B (F # Fs) a) (try_bind m (\<lambda>es a. Done (Inr (e # es), a)))"
  using es grows_trans[OF e(1)] denotes_grows[OF e(2) conjunct1[OF growsD[OF e(1)]]]
  by (cases m) (auto simp: emits_list_def)

lemma try_map_emits:
  assumes "arena_inv a" and "\<And>x b. x \<in> set xs \<Longrightarrow> arena_inv b \<Longrightarrow> holds (emits pa assign B (F x) b) (f x b)"
  shows "holds (emits_list pa assign B (map F xs) a) (try_map f xs a)"
  using assms
proof (induction xs arbitrary: a)
  case (Cons x xs)
  have here: "holds (emits pa assign B (F x) a) (f x a)" by (rule Cons.prems) (use Cons.prems(1) in simp_all)
  show ?case
    unfolding try_map.simps list.map
  proof (rule holds_try_bind[OF here], simp add: emits_def, unfold emits_def, clarify)
    fix e b assume b: "grows a b" "denotes pa assign B b e (F x)"
    show "holds (emits_list pa assign B (F x # map F xs) a)
        (try_bind (try_map f xs b) (\<lambda>es a. Done (Inr (e # es), a)))"
      by (rule emits_list_cons[OF b], rule Cons.IH) (use growsD[OF b(1)] Cons.prems(2) in auto)
  qed
qed (simp add: emits_list_def)

lemma factors_emit_map: "factors_emit pa assign fs bound = try_map (\<lambda>f. factor_emit pa assign f bound) fs"
  by (induction fs) (auto simp: fun_eq_iff)

text \<open>A list of expressions, then their product.\<close>

lemma holds_product:
  assumes "holds (emits_list pa assign B Fs a) m"
    and "\<And>a' e. grows a a' \<Longrightarrow> denotes pa assign B a' e (\<lambda>dm Q \<sigma>. \<Prod>F \<leftarrow> Fs. F dm Q \<sigma>) \<Longrightarrow>
      holds (emits pa assign B' G a') (f e a')"
  shows "holds (emits pa assign B' G a) (try_bind m (\<lambda>es a. try_bind (emit_product es a) f))"
proof (rule holds_try_bind[OF assms(1)], simp add: emits_list_def, unfold emits_list_def, clarify)
  fix es b assume b: "grows a b" "list_all2 (\<lambda>e F. denotes pa assign B b e F) es Fs"
  have invb: "arena_inv b" using growsD[OF b(1)] by simp
  show "holds (emits pa assign B' G a) (try_bind (emit_product es b) f)"
    by (rule holds_emits_grows[OF b(1)], rule holds_emitted[OF emit_product_emits[OF invb b(2)] invb], rule assms(2))
      (use grows_trans[OF b(1)] in auto)
qed

lemma law_emit_emits:
  assumes inv: "pa_inv pa" and named: "pa_named pa" and ok: "assign_ok pa assign"
  shows "law_wf p law \<Longrightarrow> p = pa \<Longrightarrow> nodes_in (pa_count pa) bound \<Longrightarrow> arena_inv a \<Longrightarrow>
      holds (emits pa assign (bs_members bound) (\<lambda>dm Q. law_den dm (pa_nodes pa) (Q (pa_nodes pa)) law) a)
        (law_emit pa assign law bound a)"
    and "factor_wf p f \<Longrightarrow> p = pa \<Longrightarrow> nodes_in (pa_count pa) bound \<Longrightarrow> arena_inv a \<Longrightarrow>
      holds (emits pa assign (bs_members bound) (\<lambda>dm Q. factor_den dm (pa_nodes pa) (Q (pa_nodes pa)) f) a)
        (factor_emit pa assign f bound a)"
proof (induction p law and p f arbitrary: bound a and bound a rule: law_wf_factor_wf.induct)
  case (1 p s fs)
  let ?V = "pa_nodes pa"
  have s: "nodes_in (pa_count pa) s" "\<And>f. f \<in> set fs \<Longrightarrow> factor_wf p f"
      "\<And>i. i \<in> bs_members s \<Longrightarrow> reads pa (\<lambda>dm Q. factors_den dm ?V (Q ?V) fs) i"
    using "1.prems"(1,2) by simp_all
  obtain bound' where b: "bs_union_with bound s = Some bound'" "nodes_in (pa_count pa) bound'"
      "bs_members bound' = bs_members bound \<union> bs_members s"
    using nodes_in_ops(1)[OF "1.prems"(3) s(1)] by (cases "bs_union_with bound s") auto
  have facs: "holds (emits_list pa assign (bs_members bound') (map (\<lambda>f dm Q. factor_den dm ?V (Q ?V) f) fs) a)
      (factors_emit pa assign fs bound' a)"
    unfolding factors_emit_map
    by (rule try_map_emits[OF "1.prems"(4)], rule "1.IH") (use s b "1.prems"(2) in auto)
  show ?case
    unfolding law_emit.simps b(1) option.case
  proof (rule holds_product[OF facs])
    fix a2 e assume a2: "grows a a2" and product: "denotes pa assign (bs_members bound') a2 e
        (\<lambda>dm Q \<sigma>. \<Prod>F \<leftarrow> map (\<lambda>f dm Q. factor_den dm ?V (Q ?V) f) fs. F dm Q \<sigma>)"
    have "denotes pa assign (bs_members bound \<union> bs_members s) a2 e (\<lambda>dm Q. factors_den dm ?V (Q ?V) fs)"
      by (rule denotes_cong[OF product[unfolded b(3)]]) (simp add: factors_den_prod comp_def)
    from emit_sum_emits[OF inv named _ this s(1,3)] growsD[OF a2]
    have "holds (emits pa assign (bs_members bound) (\<lambda>dm Q. marg dm (bs_members s) (factors_den dm ?V (Q ?V) fs)) a2)
        (emit_sum pa s e a2)" by simp
    then show "holds (emits pa assign (bs_members bound) (\<lambda>dm Q. law_den dm ?V (Q ?V) (Law s fs)) a2) (emit_sum pa s e a2)"
      by (rule holds_emits_cong) simp
  qed
next
  case (2 p i c)
  have c: "nodes_in (pa_count pa) c" using 2(1,2) by simp
  note set_c = nodes_in_ids[OF c]
  have filt: "filter (\<lambda>(t, _). \<not> bs_contains bound t) assign = unbound (bs_members bound) assign"
    by (simp add: unbound_def bs_contains_members)
  have "holds (emits pa assign (bs_members bound) (cond_ratio (pa_nodes pa) i (set (bs_ids c))) a)
      (emit_conditional pa (unbound (bs_members bound) assign) i (bs_ids c) a)"
    by (rule emit_conditional_emits[OF named 2(4)])
      (use ok 2(1,2) nodes_in_members set_c in \<open>auto simp: assign_ok_def\<close>)
  then have "holds (emits pa assign (bs_members bound) (cond_ratio (pa_nodes pa) i (bs_members c)) a)
      (factor_emit pa assign (ObservedFactor i c) bound a)"
    by (simp only: factor_emit.simps filt set_c nodes_in_iter(1)[OF c pa_invD(2)[OF inv]] of_option.simps run_bind.simps)
  then show ?case by (rule holds_emits_cong) (simp add: cond_ratio_def)
next
  case (3 p i num)
  let ?V = "pa_nodes pa" and ?B = "bs_members bound"
  let ?N = "\<lambda>dm Q. law_den dm (pa_nodes pa) (Q (pa_nodes pa)) num"
  have i: "i < pa_count pa" "law_wf p num" "reads pa ?N i" using "3.prems"(1,2) by simp_all
  note IH = "3.IH"[OF i(2) "3.prems"(2)]
  have targets: "list_ex (\<lambda>(t, _). t = i) assign \<longleftrightarrow> i \<in> fst ` set assign" by (force simp: list_ex_iff)
  obtain inner where inner: "bs_insert bound i = Some inner" "nodes_in (pa_count pa) inner" "bs_members inner = insert i ?B"
    using nodes_in_insert[OF "3.prems"(3) i(1)] by blast
  have var_i: "pa_dense_to_var pa i = Inr (pa_var pa i)" using pa_namedD(1)[OF named] i(1) by simp
  show ?case
    unfolding factor_emit.simps var_i
  proof (rule holds_emitted[OF IH[OF "3.prems"(3,4)] "3.prems"(4)])
    fix x a1 assume a1: "grows a a1" "denotes pa assign ?B a1 x ?N"
    have inv1: "arena_inv a1" using growsD[OF a1(1)] by simp
    have body: "holds (emits pa assign (?B \<union> {i}) ?N a1)
        (if \<not> bs_contains bound i \<and> list_ex (\<lambda>(t, _). t = i) assign
         then (case bs_insert bound i of None \<Rightarrow> Abort | Some inner \<Rightarrow> law_emit pa assign num inner a1)
         else Done (Inr x, a1))"
    proof (cases "\<not> bs_contains bound i \<and> list_ex (\<lambda>(t, _). t = i) assign")
      case True
      with IH[OF inner(2) inv1] inner show ?thesis by simp
    next
      case False
      then have "(?B \<union> {i}) \<inter> fst ` set assign = ?B \<inter> fst ` set assign"
        unfolding targets by (auto simp: bs_contains_members)
      with denotes_bound[OF a1(2)] have "denotes pa assign (?B \<union> {i}) a1 x ?N" by blast
      with False inv1 show ?thesis by (auto simp: emits_def)
    qed
    show "holds (emits pa assign ?B (\<lambda>dm Q. factor_den dm ?V (Q ?V) (ConditionalFactor i num)) a1)
        (try_bind (if \<not> bs_contains bound i \<and> list_ex (\<lambda>(t, _). t = i) assign
           then (case bs_insert bound i of None \<Rightarrow> Abort | Some inner \<Rightarrow> law_emit pa assign num inner a1)
           else Done (Inr x, a1)) (\<lambda>body a.
         try_bind (pure_result (Inr (pa_var pa i)) a) (\<lambda>var_i a.
         try_bind (infallible (ar_intern_var_set a [var_i])) (\<lambda>vars a.
         try_bind (infallible (ar_intern a (SumOut vars body))) (\<lambda>denominator a.
           infallible (ar_intern a (Ratio x denominator)))))))"
      unfolding try_bind_pure
    proof (rule holds_emitted[OF body inv1], rule holds_entry[OF ar_intern_var_set_spec], simp add: growsD, elim conjE)
      fix y a2 vs a3
      assume a2: "grows a1 a2" "denotes pa assign (?B \<union> {i}) a2 y ?N"
        and a3: "grows a2 a3" "vs < length (ar_var_sets a3)" "ar_var_sets a3 ! vs = sorted_list_of_set (set [pa_var pa i])"
      have inv23: "arena_inv a2" "arena_inv a3" using growsD[OF a2(1)] growsD[OF a3(1)] by simp_all
      have "holds (\<lambda>(j, a'). grows a3 a' \<and> denotes pa assign ?B a' j (\<lambda>dm Q. marg dm {i} (?N dm Q)))
          (ar_intern a3 (SumOut vs y))"
        by (rule intern_sum[OF named inv23(2) denotes_grows[OF a2(2) inv23(1) a3(1)]])
          (use i a3 in auto)
      then show "holds (emits pa assign ?B (\<lambda>dm Q. factor_den dm ?V (Q ?V) (ConditionalFactor i num)) a3)
          (try_bind (infallible (ar_intern a3 (SumOut vs y))) (\<lambda>denominator a.
            infallible (ar_intern a (Ratio x denominator))))"
      proof (rule holds_entry)
        fix z a4 assume a4: "grows a3 a4" "denotes pa assign ?B a4 z (\<lambda>dm Q. marg dm {i} (?N dm Q))"
        have inv4: "arena_inv a4" using growsD[OF a4(1)] by simp
        have x: "denotes pa assign ?B a4 x ?N"
          by (rule denotes_grows[OF a1(2) inv1]) (use a2(1) a3(1) a4(1) grows_trans in blast)
        show "holds (emits pa assign ?B (\<lambda>dm Q. factor_den dm ?V (Q ?V) (ConditionalFactor i num)) a4)
            (infallible (ar_intern a4 (Ratio x z)))"
          by (rule holds_emits_cong, rule holds_last_entry[OF intern_ratio[OF inv4 x a4(2)]], assumption) simp
      qed
    qed
  qed
qed

section \<open>Districts\<close>

lemma districts_disjoint:
  assumes "districts_list a n S comps" "admg_inv a" "c \<in> set comps" "d \<in> set comps" "c \<noteq> d"
  shows "bs_members c \<inter> bs_members d = {}"
proof (rule ccontr)
  assume "bs_members c \<inter> bs_members d \<noteq> {}"
  then obtain u where u: "u \<in> bs_members c" "u \<in> bs_members d" by blast
  have "bs_members e = district_of a S u" if "e \<in> set comps" "u \<in> bs_members e" for e
  proof -
    have "bs_members e \<in> district_of a S ` S" using assms(1) that(1) by (metis districts_list_def imageI)
    then show ?thesis using that(2) district_of_eq[OF assms(2)] by blast
  qed
  then have "bs_members c = bs_members d" using u assms(3,4) by metis
  moreover have "inj_on bs_members (set comps)" using assms(1) by (simp add: districts_list_def distinct_map)
  ultimately show False using assms(3-5) by (auto dest: inj_onD)
qed

lemma districts_unconfounded:
  assumes "districts_list a n S comps" "admg_inv a" "c \<in> set comps"
  shows "unconfounded (admg_bi a) (bs_members c) (S - bs_members c)"
  using districts_listD(5)[OF assms] by (auto simp: unconfounded_def)

lemma districts_union:
  assumes "districts_list a n S comps" "admg_inv a"
  shows "(\<Union>c \<in> set comps. bs_members c) = S"
  using districts_listD(2)[OF assms] districts_list_cover[OF assms(1)] district_of_self by fastforce

lemma districts_product:
  assumes "districts_list (pa_admg pa) n v comps" "pa_inv pa" "v \<subseteq> pa_nodes pa"
    and w: "world pa dm Q" "valid_env dm (pa_nodes pa) \<sigma>"
  shows "(\<Prod>c \<leftarrow> comps. Q (bs_members c) \<sigma>) = Q v \<sigma>"
proof -
  note inv = pa_invD(1)[OF assms(2)]
  have dist: "distinct comps" using assms(1) by (auto simp: districts_list_def distinct_map)
  have "(\<Prod>c \<leftarrow> comps. Q (bs_members c) \<sigma>) = (\<Prod>c \<in> set comps. Q (bs_members c) \<sigma>)"
    using dist by (rule prod.distinct_set_conv_list[symmetric])
  also have "\<dots> = Q (\<Union>c \<in> set comps. bs_members c) \<sigma>"
  proof (rule factors_product[OF w(1)[unfolded world_def] w(2), symmetric])
    fix c d assume cd: "c \<in> set comps" "d \<in> set comps" "c \<noteq> d"
    then have "bs_members d \<subseteq> v - bs_members c"
      using districts_disjoint[OF assms(1) inv] districts_listD(2)[OF assms(1) inv] by blast
    with districts_unconfounded[OF assms(1) inv cd(1)]
    show "unconfounded (admg_bi (pa_admg pa)) (bs_members c) (bs_members d)" by (auto simp: unconfounded_def)
  qed (use districts_listD(2)[OF assms(1) inv] assms(3) in blast)+
  also have "(\<Union>c \<in> set comps. bs_members c) = v" by (rule districts_union[OF assms(1) inv])
  finally show ?thesis .
qed

section \<open>Factors of the marginal\<close>

lemma unbound_none [simp]: "unbound {} assign = assign"
  by (simp add: unbound_def)

lemma q_component_factors_emits:
  assumes inv: "pa_inv pa" and named: "pa_named pa" and ok: "assign_ok pa assign" and v: "nodes_in (pa_count pa) v"
  shows "arena_inv a \<Longrightarrow> nodes_in (pa_count pa) preceding \<Longrightarrow> distinct is \<Longrightarrow> set is \<subseteq> pa_nodes pa \<Longrightarrow>
    holds (emits_list pa assign {} (map (\<lambda>i. cond_ratio (pa_nodes pa) i (bs_members preceding \<union> (bs_members v \<inter> before is i)))
        (filter (\<lambda>i. i \<in> bs_members v \<and> i \<in> bs_members s) is)) a)
      (q_component_factors pa assign s v is preceding a)"
proof (induction "is" arbitrary: preceding a)
  case (Cons i "is")
  let ?F = "\<lambda>p is i. cond_ratio (pa_nodes pa) i (bs_members p \<union> (bs_members v \<inter> before is i))"
  let ?sel = "\<lambda>i. i \<in> bs_members v \<and> i \<in> bs_members s"
  have i: "i < pa_count pa" "i \<notin> set is" using Cons.prems(3,4) by auto
  show ?case
  proof (cases "bs_contains v i")
    case False
    have same: "map (?F preceding (i # is)) (filter ?sel (i # is)) = map (?F preceding is) (filter ?sel is)"
      using i(2) False by (auto simp: before_Cons bs_contains_members)
    have "holds (emits_list pa assign {} (map (?F preceding is) (filter ?sel is)) a)
        (q_component_factors pa assign s v is preceding a)"
      by (rule Cons.IH[OF Cons.prems(1,2)]) (use Cons.prems(3,4) in simp_all)
    then show ?thesis unfolding same using False by simp
  next
    case True
    obtain p' where p': "bs_insert preceding i = Some p'" "nodes_in (pa_count pa) p'"
        "bs_members p' = insert i (bs_members preceding)"
      using nodes_in_insert[OF Cons.prems(2) i(1)] by blast
    have iv: "i \<in> bs_members v" using True by (simp add: bs_contains_members)
    have later: "map (?F p' is) (filter ?sel is) = map (?F preceding (i # is)) (filter ?sel is)"
    proof (rule map_cong[OF refl])
      fix j assume "j \<in> set (filter ?sel is)"
      then have "before (i # is) j = insert i (before is j)" using i(2) by (intro before_Cons) simp_all
      then have "bs_members p' \<union> (bs_members v \<inter> before is j) = bs_members preceding \<union> (bs_members v \<inter> before (i # is) j)"
        using p'(3) iv by simp
      then show "?F p' is j = ?F preceding (i # is) j" by simp
    qed
    have IH: "holds (emits_list pa assign {} (map (?F preceding (i # is)) (filter ?sel is)) b)
        (q_component_factors pa assign s v is p' b)" if "arena_inv b" for b
      using Cons.IH[OF that p'(2)] Cons.prems(3,4) unfolding later by simp
    show ?thesis
    proof (cases "bs_contains s i")
      case s: False
      with True IH[OF Cons.prems(1)] p'(1) show ?thesis
        by (cases "q_component_factors pa assign s v is p' a") (auto simp: bs_contains_members emits_list_def)
    next
      case s: True
      have first: "before (i # is) i = {}" by (simp add: before_def)
      note iter = nodes_in_ids[OF Cons.prems(2)] and listed = nodes_in_iter(1)[OF Cons.prems(2) pa_invD(2)[OF inv]]
      have "holds (emits pa assign {} (cond_ratio (pa_nodes pa) i (set (bs_ids preceding))) a)
          (emit_conditional pa (unbound {} assign) i (bs_ids preceding) a)"
        by (rule emit_conditional_emits[OF named Cons.prems(1) _ _ i(1)])
          (use ok nodes_in_members[OF Cons.prems(2)] iter in \<open>auto simp: assign_ok_def\<close>)
      then have here: "holds (emits pa assign {} (?F preceding (i # is) i) a) (emit_conditional pa assign i (bs_ids preceding) a)"
        by (simp add: iter first)
      have list: "map (?F preceding (i # is)) (filter ?sel (i # is)) =
          ?F preceding (i # is) i # map (?F preceding (i # is)) (filter ?sel is)"
        using iv s by (simp add: bs_contains_members)
      show ?thesis
      proof (cases "emit_conditional pa assign i (bs_ids preceding) a")
        case (Done p)
        then obtain e b where e: "p = (Inr e, b)" "grows a b" "denotes pa assign {} b e (?F preceding (i # is) i)"
          using here by (auto simp: emits_def)
        from emits_list_cons[OF e(2,3) IH] growsD[OF e(2)] True s p'(1) Done e(1) listed show ?thesis
          unfolding list by simp
      qed (use here True s listed in simp_all)
    qed
  qed
qed (simp add: emits_list_def)

lemma q_component_product_emits:
  assumes inv: "pa_inv pa" and named: "pa_named pa" and ok: "assign_ok pa assign" and a: "arena_inv a"
    and v: "nodes_in (pa_count pa) v" "ancestral_in (admg_rel (pa_admg pa)) (bs_members v) (pa_nodes pa)"
    and s: "bs_members s \<subseteq> bs_members v" "bs_members s \<noteq> {}"
    and un: "unconfounded (admg_bi (pa_admg pa)) (bs_members s) (bs_members v - bs_members s)"
  shows "holds (emits pa assign {} (\<lambda>dm Q. Q (bs_members s)) a) (q_component_product pa s v assign a)"
proof -
  let ?t = "pa_topo pa" and ?V = "pa_nodes pa" and ?S = "bs_members s" and ?v = "bs_members v"
  note topo = pa_invD(4-6)[OF inv]
  have sub: "?v \<subseteq> ?V" by (rule nodes_in_members[OF v(1)])
  have sel: "filter (\<lambda>i. i \<in> ?v \<and> i \<in> ?S) ?t = filter (\<lambda>i. i \<in> ?S) ?t" using s(1) by (intro filter_cong refl) blast
  let ?Fs = "map (\<lambda>i. cond_ratio ?V i (?v \<inter> before ?t i)) (filter (\<lambda>i. i \<in> ?S) ?t)"
  have set_sel: "set (filter (\<lambda>i. i \<in> ?S) ?t) = ?S" using topo(3) s(1) sub by auto
  have facs: "holds (emits_list pa assign {} ?Fs b)
      (q_component_factors pa assign s v ?t (bs_with_len (bs_bit_len v)) b)" if "arena_inv b" for b
    using q_component_factors_emits[OF inv named ok v(1) that, of "bs_with_len (bs_bit_len v)" ?t s] topo nodes_inD(2)[OF v(1)]
    by (simp add: sel bs_bit_len_def)
  have product: "(\<Prod>F \<leftarrow> ?Fs. F dm Q \<sigma>) = Q ?S \<sigma>" if w: "world pa dm Q" "valid_env dm ?V \<sigma>" for dm Q \<sigma>
  proof -
    have "(\<Prod>F \<leftarrow> ?Fs. F dm Q \<sigma>) = (\<Prod>i \<leftarrow> filter (\<lambda>i. i \<in> ?S) ?t. cond_ratio ?V i (?v \<inter> before ?t i) dm Q \<sigma>)"
      by (simp add: comp_def)
    also have "\<dots> = (\<Prod>i \<in> ?S. cond_ratio ?V i (?v \<inter> before ?t i) dm Q \<sigma>)"
      unfolding prod.distinct_set_conv_list[of "filter (\<lambda>i. i \<in> ?S) ?t", OF distinct_filter[OF topo(2)], symmetric] set_sel ..
    also have "\<dots> = (\<Prod>i \<in> ?S. cond_factor Q ?t ?v i \<sigma>)"
      unfolding cond_ratio_def
      by (rule prod.cong[OF refl], rule cond_factor_ratio[OF w(1)[unfolded world_def] w(2) topo(1) order_refl v(2)])
        (use s(1) in blast)
    also have "\<dots> = Q ?S \<sigma>" by (rule telescope_district[OF w(1)[unfolded world_def] w(2) topo(1) s(1) sub un])
    finally show ?thesis .
  qed
  have "?Fs \<noteq> []"
  proof
    assume "?Fs = []"
    then have "filter (\<lambda>i. i \<in> ?S) ?t = []" by (simp only: map_is_Nil_conv)
    from arg_cong[OF this, of set] show False using s(2) by (simp only: set_sel list.set)
  qed
  show ?thesis
    unfolding q_component_product_def
  proof (rule holds_entry[OF ar_empty_intervention_set_spec[OF a]], elim conjE)
    fix empty_i b assume b: "grows a b"
    have invb: "arena_inv b" using growsD[OF b] by simp
    show "holds (emits pa assign {} (\<lambda>dm Q. Q ?S) b)
        (try_bind (q_component_factors pa assign s v ?t (bs_with_len (bs_bit_len v)) b) (\<lambda>factors a.
          if factors = []
          then try_bind (intern_nodes pa s a) (\<lambda>y a. try_bind (infallible (ar_empty_var_set a)) (\<lambda>none a.
                infallible (ar_intern_distribution a y none empty_i Observational)))
          else emit_product factors a))"
    proof (rule holds_try_bind[OF facs[OF invb]], simp add: emits_list_def, unfold emits_list_def, clarify)
      fix es c assume c: "grows b c" "list_all2 (\<lambda>e F. denotes pa assign {} c e F) es ?Fs"
      have "es \<noteq> []"
      proof
        assume "es = []"
        with c(2) have "?Fs = []" by (simp only: list_all2_Nil)
        with \<open>?Fs \<noteq> []\<close> show False by contradiction
      qed
      then show "holds (emits pa assign {} (\<lambda>dm Q. Q ?S) b)
          (if es = [] then try_bind (intern_nodes pa s c) (\<lambda>y a. try_bind (infallible (ar_empty_var_set a)) (\<lambda>none a.
                infallible (ar_intern_distribution a y none empty_i Observational)))
           else emit_product es c)"
        using holds_emits_grows[OF c(1) holds_emits_cong[OF emit_product_emits[OF conjunct1[OF growsD[OF c(1)]] c(2)] product]]
        by (simp only: if_False)
    qed
  qed
qed

section \<open>Lines 1 and 6\<close>

text \<open>Summing nodes without a level out of an expression.\<close>

lemma emit_sum_unlabelled:
  assumes "pa_inv pa" "pa_named pa" "arena_inv a" "denotes pa assign {} a e (\<lambda>dm Q. Q A)" "nodes_in (pa_count pa) s"
    and "bs_members s \<inter> fst ` set assign = {}" "bs_members s \<subseteq> A" "A \<subseteq> pa_nodes pa"
  shows "holds (emits pa assign {} (\<lambda>dm Q. marg dm (bs_members s) (Q A)) a) (emit_sum pa s e a)"
  using emit_sum_emits[OF assms(1,2,3) denotes_bound[OF assms(4), of "{} \<union> bs_members s"] assms(5)] assms(7)
    reads_factor[OF assms(8)] assms(6) by auto

lemma holds_of_option_emits:
  assumes "holds P (of_option m)" and "\<And>x. m = Some x \<Longrightarrow> P x \<Longrightarrow> holds (emits pa assign B F a) (f x)"
  shows "holds (emits pa assign B F a) (run_bind (of_option m) f)"
  using assms by (cases m) auto

lemma holds_product_end:
  assumes "holds (emits_list pa assign B Fs a) m"
  shows "holds (emits pa assign B (\<lambda>dm Q \<sigma>. \<Prod>F \<leftarrow> Fs. F dm Q \<sigma>) a) (try_bind m emit_product)"
proof (rule holds_try_bind[OF assms], simp add: emits_list_def, unfold emits_list_def, clarify)
  fix es b assume b: "grows a b" "list_all2 (\<lambda>e F. denotes pa assign B b e F) es Fs"
  show "holds (emits pa assign B (\<lambda>dm Q \<sigma>. \<Prod>F \<leftarrow> Fs. F dm Q \<sigma>) a) (emit_product es b)"
    by (rule holds_emits_grows[OF b(1)], rule emit_product_emits[OF _ b(2)]) (use growsD[OF b(1)] in simp)
qed

lemma holds_difference:
  assumes "nodes_in n b" "nodes_in n c"
    and "\<And>r. nodes_in n r \<Longrightarrow> bs_members r = bs_members b - bs_members c \<Longrightarrow> holds P (f r)"
  shows "holds P (run_bind (of_option (bs_difference_with b c)) f)"
  using nodes_in_ops(3)[OF assms(1,2)] assms(3) by (cases "bs_difference_with b c") auto

lemma holds_union:
  assumes "nodes_in n b" "nodes_in n c"
    and "\<And>r. nodes_in n r \<Longrightarrow> bs_members r = bs_members b \<union> bs_members c \<Longrightarrow> holds P (f r)"
  shows "holds P (run_bind (of_option (bs_union_with b c)) f)"
  using nodes_in_ops(1)[OF assms(1,2)] assms(3) by (cases "bs_union_with b c") auto

lemma holds_intersect:
  assumes "nodes_in n b" "nodes_in n c"
    and "\<And>r. nodes_in n r \<Longrightarrow> bs_members r = bs_members b \<inter> bs_members c \<Longrightarrow> holds P (f r)"
  shows "holds P (run_bind (of_option (bs_intersect_with b c)) f)"
  using nodes_in_ops(2)[OF assms(1,2)] assms(3) by (cases "bs_intersect_with b c") auto

lemma observational_marginal_emits:
  assumes inv: "pa_inv pa" and named: "pa_named pa" and ok: "assign_ok pa assign" and a: "arena_inv a"
    and v: "nodes_in (pa_count pa) v" "dist_ok pa MarginalCtx (bs_members v)" "bs_members v \<noteq> {}"
    and y: "nodes_in (pa_count pa) y" and free: "bs_members v \<inter> fst ` set assign = {}"
  shows "holds (emits pa assign {} (\<lambda>dm Q. marg dm (bs_members v - bs_members y) (Q (bs_members v))) a)
    (observational_marginal pa y v assign a)"
  unfolding observational_marginal_def
proof (rule holds_bind[OF pa_c_components_spec[OF inv v(1)]])
  let ?v = "bs_members v"
  fix comps assume comps: "districts_list (pa_admg pa) (pa_count pa) ?v comps"
  note admg = pa_invD(1)[OF inv] and sub = nodes_in_members[OF v(1)]
  have "comps \<noteq> []" using districts_list_empty[OF comps] v(3) by simp
  have "holds (emits_list pa assign {} (map (\<lambda>c dm Q. Q (bs_members c)) comps) a)
      (try_map (\<lambda>s. q_component_product pa s v assign) comps a)"
  proof (rule try_map_emits[OF a])
    fix c b assume c: "c \<in> set comps" and b: "arena_inv b"
    show "holds (emits pa assign {} (\<lambda>dm Q. Q (bs_members c)) b) (q_component_product pa c v assign b)"
      by (rule q_component_product_emits[OF inv named ok b v(1) _ districts_listD(2,3)[OF comps admg c]
          districts_unconfounded[OF comps admg c]]) (use v(2) in simp)
  qed
  then have "holds (emits pa assign {} (\<lambda>dm Q. Q ?v) a)
      (try_bind (try_map (\<lambda>s. q_component_product pa s v assign) comps a) emit_product)"
    by (rule holds_emits_cong[OF holds_product_end])
      (use districts_product[OF comps inv sub] in \<open>simp add: comp_def\<close>)
  then show "holds (emits pa assign {} (\<lambda>dm Q. marg dm (?v - bs_members y) (Q ?v)) a)
      (try_bind (if comps = [] then markov_product pa v assign a
          else try_bind (try_map (\<lambda>s. q_component_product pa s v assign) comps a) emit_product)
        (\<lambda>factors a. run_bind (of_option (bs_difference_with v y)) (\<lambda>sum_vars. emit_sum pa sum_vars factors a)))"
    unfolding if_not_P[OF \<open>comps \<noteq> []\<close>]
  proof (rule holds_emitted[OF _ a])
    fix e b assume b: "grows a b" "denotes pa assign {} b e (\<lambda>dm Q. Q ?v)"
    show "holds (emits pa assign {} (\<lambda>dm Q. marg dm (?v - bs_members y) (Q ?v)) b)
        (run_bind (of_option (bs_difference_with v y)) (\<lambda>sum_vars. emit_sum pa sum_vars e b))"
    proof (rule holds_difference[OF v(1) y])
      fix r assume r: "nodes_in (pa_count pa) r" "bs_members r = ?v - bs_members y"
      show "holds (emits pa assign {} (\<lambda>dm Q. marg dm (?v - bs_members y) (Q ?v)) b) (emit_sum pa r e b)"
        using emit_sum_unlabelled[OF inv named _ b(2) r(1) _ _ sub] growsD[OF b(1)] r(2) free by auto
    qed
  qed
qed

lemma dist_marginal_emits:
  assumes inv: "pa_inv pa" and named: "pa_named pa" and ok: "assign_ok pa assign" and a: "arena_inv a"
    and v: "nodes_in (pa_count pa) v" "dist_ok pa d (bs_members v)" "bs_members v \<noteq> {}"
    and y: "nodes_in (pa_count pa) y" and free: "bs_members v \<inter> fst ` set assign = {}"
  shows "holds (emits pa assign {} (\<lambda>dm Q. marg dm (bs_members v - bs_members y) (Q (bs_members v))) a)
    (dist_marginal pa d y v assign a)"
proof (cases d)
  case MarginalCtx
  with observational_marginal_emits[OF inv named ok a v(1) _ v(3) y free] v(2) show ?thesis by simp
next
  case (CFactorCtx law)
  with v(2) have law: "law_ok pa law (bs_members v)" by simp
  note okD = law_okD[OF law]
  show ?thesis
    unfolding CFactorCtx dist_marginal.simps
  proof (rule holds_difference[OF v(1) y], rule holds_union[OF _ okD(1)], assumption)
    fix r s assume r: "nodes_in (pa_count pa) r" "bs_members r = bs_members v - bs_members y"
      and s: "nodes_in (pa_count pa) s" "bs_members s = bs_members r \<union> bs_members (law_sumset law)"
    have wf: "law_wf pa (Law s (law_factors law))"
      by (rule law_ok_wf[OF inv law s(1)]) (use r(2) s(2) in auto)
    have "holds (emits pa assign (bs_members (bs_with_len (bs_bit_len v)))
        (\<lambda>dm Q. law_den dm (pa_nodes pa) (Q (pa_nodes pa)) (Law s (law_factors law))) a)
        (law_emit pa assign (Law s (law_factors law)) (bs_with_len (bs_bit_len v)) a)"
      by (rule law_emit_emits(1)[OF inv named ok wf refl _ a]) (simp add: bs_bit_len_def nodes_inD(2)[OF v(1)])
    then show "holds (emits pa assign {} (\<lambda>dm Q. marg dm (bs_members v - bs_members y) (Q (bs_members v))) a)
        (law_emit pa assign (Law s (law_factors law)) (bs_with_len (bs_bit_len v)) a)"
      unfolding nodes_in_empty(2)
      by (rule holds_emits_cong) (rule law_den_sum[OF inv law], use r s in auto)
  qed
qed

text \<open>Line 6: the factor of a district of \<open>v\<close>, summed down to the outcomes.\<close>

lemma line6_emits:
  assumes inv: "pa_inv pa" and named: "pa_named pa" and ok: "assign_ok pa assign" and a: "arena_inv a"
    and v: "nodes_in (pa_count pa) v" "dist_ok pa d (bs_members v)"
    and s: "nodes_in (pa_count pa) s" "bs_members s \<subseteq> bs_members v" "bs_members s \<noteq> {}"
    and un: "unconfounded (admg_bi (pa_admg pa)) (bs_members s) (bs_members v - bs_members s)"
    and y: "nodes_in (pa_count pa) y" and free: "bs_members s \<inter> fst ` set assign = {}"
  shows "holds (emits pa assign {} (\<lambda>dm Q. marg dm (bs_members s - bs_members y) (Q (bs_members s))) a)
    (case d of
       MarginalCtx \<Rightarrow> c_component_expression pa s y v assign a
     | CFactorCtx law \<Rightarrow>
         run_bind (of_option (bs_difference_with s y)) (\<lambda>sum_vars.
         run_bind (of_option (law_conditionals pa s v law)) (\<lambda>r.
         try_bind (pure_result r a) (\<lambda>fs a.
           law_emit pa assign (Law sum_vars fs) (bs_with_len (bs_bit_len v)) a))))"
proof (cases d)
  case MarginalCtx
  show ?thesis
    unfolding MarginalCtx dist_ctx.case c_component_expression_def
  proof (rule holds_emitted[OF q_component_product_emits[OF inv named ok a v(1) _ s(2,3) un] a], use v(2) MarginalCtx in simp,
      rule holds_difference[OF s(1) y])
    fix e b r assume b: "grows a b" "denotes pa assign {} b e (\<lambda>dm Q. Q (bs_members s))"
      and r: "nodes_in (pa_count pa) r" "bs_members r = bs_members s - bs_members y"
    show "holds (emits pa assign {} (\<lambda>dm Q. marg dm (bs_members s - bs_members y) (Q (bs_members s))) b) (emit_sum pa r e b)"
      using emit_sum_unlabelled[OF inv named _ b(2) r(1)] growsD[OF b(1)] r(2) free nodes_in_members[OF s(1)] by auto
  qed
next
  case (CFactorCtx law)
  with v(2) have law: "law_ok pa law (bs_members v)" by simp
  obtain fs where fs: "law_conditionals pa s v law = Some (Inr fs)" "conditionals_ok pa (bs_members v) (bs_members s) fs"
    using law_conditionals_ok[OF inv law v(1) s(1,2)] by blast
  show ?thesis
    unfolding CFactorCtx dist_ctx.case fs(1) of_option.simps run_bind.simps try_bind_pure
  proof (rule holds_difference[OF s(1) y])
    fix r assume r: "nodes_in (pa_count pa) r" "bs_members r = bs_members s - bs_members y"
    have wf: "law_wf pa (Law r fs)"
      using r conditionals_okD(2)[OF fs(2)]
        conditionals_reads[OF inv fs(2) nodes_in_members[OF v(1)] nodes_in_members[OF s(1)]] by simp
    have "holds (emits pa assign (bs_members (bs_with_len (bs_bit_len v)))
        (\<lambda>dm Q. law_den dm (pa_nodes pa) (Q (pa_nodes pa)) (Law r fs)) a)
        (law_emit pa assign (Law r fs) (bs_with_len (bs_bit_len v)) a)"
      by (rule law_emit_emits(1)[OF inv named ok wf refl _ a]) (simp add: bs_bit_len_def nodes_inD(2)[OF v(1)])
    then show "holds (emits pa assign {} (\<lambda>dm Q. marg dm (bs_members s - bs_members y) (Q (bs_members s))) a)
        (law_emit pa assign (Law r fs) (bs_with_len (bs_bit_len v)) a)"
      unfolding nodes_in_empty(2)
    proof (rule holds_emits_cong)
      fix dm Q \<sigma> assume w: "world pa dm Q" "valid_env dm (pa_nodes pa) \<sigma>"
      show "law_den dm (pa_nodes pa) (Q (pa_nodes pa)) (Law r fs) \<sigma> =
          marg dm (bs_members s - bs_members y) (Q (bs_members s)) \<sigma>"
        unfolding law_den.simps r(2)
        by (rule marg_cong[OF conditionals_district[OF inv fs(2) s(2) nodes_in_members[OF v(1)] un w(1)] w(2)])
    qed
  qed
qed

end
