(* ===== verification/Id_Sound.thy ===== *)
theory Id_Sound
  imports Id_Emission
begin

text \<open>
  The ID recursion, line by line. \<open>outcome_ok\<close> is what a subproblem's outcome must be: an
  expression with the value of the subproblem's interventional law in every model of the graph, or
  a hedge for the original query. \<open>run_ok\<close> is the invariant of the run (arena, workspace, both
  memos), \<open>query_ok\<close> that of the subproblem. Every line keeps them, so the recursion returns such
  an outcome: it never panics, never reaches an \<open>InvariantViolated\<close> error, and \<open>id_measure\<close> falls on
  every recursive call.
\<close>

section \<open>What an outcome must be\<close>

definition sub_law :: "nat set \<Rightarrow> nat set \<Rightarrow> denotation" where
  "sub_law y S dm Q = marg dm (S - y) (Q S)"

fun outcome_ok ::
  "prepared_admg \<Rightarrow> nat set \<Rightarrow> nat set \<Rightarrow> assign \<Rightarrow> nat set \<Rightarrow> nat set \<Rightarrow> id_outcome \<Rightarrow> expr_arena \<Rightarrow> bool" where
  "outcome_ok pa X0 Y0 assign y S (IdExpr e) a \<longleftrightarrow> denotes pa assign {} a e (sub_law y S)"
| "outcome_ok pa X0 Y0 assign y S (IdFail c) a \<longleftrightarrow>
     (\<exists>f f'. nodes_in (pa_count pa) f \<and> nodes_in (pa_count pa) f' \<and> hc_from_sets f f' (pa_var pa) = Some c \<and>
        hedge (pa_admg pa) (pa_nodes pa) X0 Y0 (bs_members f) (bs_members f'))"

fun memo_entry_ok :: "prepared_admg \<Rightarrow> nat set \<Rightarrow> nat set \<Rightarrow> expr_arena \<Rightarrow> subproblem_key \<times> id_outcome \<Rightarrow> bool" where
  "memo_entry_ok pa X0 Y0 a (SubproblemKey y x v assign d, out) \<longleftrightarrow>
     outcome_ok pa X0 Y0 assign (bs_members y) (bs_members v - bs_members x) out a"

definition ancestor_memo_ok :: "prepared_admg \<Rightarrow> ancestor_memo \<Rightarrow> bool" where
  "ancestor_memo_ok pa memo \<longleftrightarrow> (\<forall>((key, active), out) \<in> set memo. nodes_in (pa_count pa) out \<and>
     bs_members out = anc (pa_admg pa) (bs_members key) (bs_members active) {})"

definition run_ok :: "prepared_admg \<Rightarrow> nat set \<Rightarrow> nat set \<Rightarrow> 'c id_run \<Rightarrow> bool" where
  "run_ok pa X0 Y0 run \<longleftrightarrow> arena_inv (ir_arena run) \<and> ws_inv (ir_ws run) \<and>
     ancestor_memo_ok pa (ir_ancestors run) \<and> (\<forall>m \<in> set (ir_memo run). memo_entry_ok pa X0 Y0 (ir_arena run) m)"

definition query_ok :: "prepared_admg \<Rightarrow> nat set \<Rightarrow> nat set \<Rightarrow> id_query \<Rightarrow> bool" where
  "query_ok pa X0 Y0 q \<longleftrightarrow>
     nodes_in (pa_count pa) (iq_y q) \<and> nodes_in (pa_count pa) (iq_x q) \<and> nodes_in (pa_count pa) (iq_v q) \<and>
     id_inv (pa_admg pa) (pa_nodes pa) X0 Y0 (bs_members (iq_y q)) (bs_members (iq_x q)) (bs_members (iq_v q)) \<and>
     dist_ok pa (iq_dist q) (bs_members (iq_v q)) \<and> assign_ok pa (iq_assign q) \<and> fst ` set (iq_assign q) \<subseteq> X0"

definition query_outcome :: "prepared_admg \<Rightarrow> nat set \<Rightarrow> nat set \<Rightarrow> id_query \<Rightarrow> id_outcome \<Rightarrow> expr_arena \<Rightarrow> bool" where
  "query_outcome pa X0 Y0 q = outcome_ok pa X0 Y0 (iq_assign q) (bs_members (iq_y q))
     (bs_members (iq_v q) - bs_members (iq_x q))"

definition id_measure :: "id_query \<Rightarrow> nat" where
  "id_measure q = card (bs_members (iq_v q)) + card (bs_members (iq_v q) - bs_members (iq_x q))"

text \<open>
  The states the charge of a meter passes through while it grants every call. An error can only be
  one that the charge returned, in a state reached that way, and the state it left is the final one.
\<close>

definition granted :: "(nat \<Rightarrow> nat \<Rightarrow> 'c \<Rightarrow> (identification_error + unit) \<times> 'c) \<Rightarrow> ('c \<times> 'c) set" where
  "granted charge = {(c, c'). \<exists>depth bytes. charge depth bytes c = (Inr (), c')}"

definition charged :: "'c id_meter \<Rightarrow> 'c id_meter \<Rightarrow> bool" where
  "charged m m' \<longleftrightarrow> im_charge m' = im_charge m \<and>
     (case im_charge m of None \<Rightarrow> im_state m' = im_state m
      | Some charge \<Rightarrow> (im_state m, im_state m') \<in> (granted charge)\<^sup>*)"

definition refused :: "'c id_meter \<Rightarrow> 'c id_meter \<Rightarrow> identification_error \<Rightarrow> bool" where
  "refused m m' e \<longleftrightarrow> (\<exists>charge depth bytes c. im_charge m = Some charge \<and> (im_state m, c) \<in> (granted charge)\<^sup>* \<and>
     charge depth bytes c = (Inl e, im_state m'))"

lemma charged_refl [simp]: "charged m m"
  by (simp add: charged_def split: option.splits)

lemma charged_trans: "charged m1 m2 \<Longrightarrow> charged m2 m3 \<Longrightarrow> charged m1 m3"
  by (auto simp: charged_def split: option.splits)

lemma refused_after: "charged m1 m2 \<Longrightarrow> refused m2 m3 e \<Longrightarrow> refused m1 m3 e"
  unfolding refused_def charged_def by (auto, meson rtrancl_trans)

definition step_ok ::
  "prepared_admg \<Rightarrow> nat set \<Rightarrow> nat set \<Rightarrow> 'c id_run \<Rightarrow> ('a \<Rightarrow> expr_arena \<Rightarrow> bool) \<Rightarrow>
    (identification_error + 'a) \<times> 'c id_run \<Rightarrow> bool" where
  "step_ok pa X0 Y0 run R = (\<lambda>(r, run'). run_ok pa X0 Y0 run' \<and> grows (ir_arena run) (ir_arena run') \<and>
     (case r of Inl e \<Rightarrow> refused (ir_meter run) (ir_meter run') e
      | Inr out \<Rightarrow> charged (ir_meter run) (ir_meter run') \<and>
          im_depth (ir_meter run') = im_depth (ir_meter run) \<and> R out (ir_arena run')))"

definition rec_ok ::
  "prepared_admg \<Rightarrow> nat set \<Rightarrow> nat set \<Rightarrow> nat \<Rightarrow> (id_query \<Rightarrow> ('c, id_outcome) id_step) \<Rightarrow> bool" where
  "rec_ok pa X0 Y0 m rec \<longleftrightarrow> (\<forall>q run. id_measure q < m \<longrightarrow> query_ok pa X0 Y0 q \<longrightarrow> run_ok pa X0 Y0 run \<longrightarrow>
     im_depth (ir_meter run) + m \<le> usize_max \<longrightarrow>
     holds (step_ok pa X0 Y0 run (query_outcome pa X0 Y0 q)) (rec q run))"

lemma query_okD:
  assumes "query_ok pa X0 Y0 q"
  shows "nodes_in (pa_count pa) (iq_y q)" "nodes_in (pa_count pa) (iq_x q)" "nodes_in (pa_count pa) (iq_v q)"
    "id_inv (pa_admg pa) (pa_nodes pa) X0 Y0 (bs_members (iq_y q)) (bs_members (iq_x q)) (bs_members (iq_v q))"
    "dist_ok pa (iq_dist q) (bs_members (iq_v q))" "assign_ok pa (iq_assign q)" "fst ` set (iq_assign q) \<subseteq> X0"
  using assms by (simp_all add: query_ok_def)

lemma run_okD:
  assumes "run_ok pa X0 Y0 run"
  shows "arena_inv (ir_arena run)" "ws_inv (ir_ws run)" "ancestor_memo_ok pa (ir_ancestors run)"
    "m \<in> set (ir_memo run) \<Longrightarrow> memo_entry_ok pa X0 Y0 (ir_arena run) m"
  using assms by (simp_all add: run_ok_def)

lemma outcome_ok_grows:
  "outcome_ok pa X0 Y0 assign y S out a \<Longrightarrow> arena_inv a \<Longrightarrow> grows a b \<Longrightarrow> outcome_ok pa X0 Y0 assign y S out b"
  by (cases out) (auto intro: denotes_grows)

lemma memo_entry_grows:
  assumes "memo_entry_ok pa X0 Y0 a m" "arena_inv a" "grows a b"
  shows "memo_entry_ok pa X0 Y0 b m"
proof -
  obtain y x v asg d out where m: "m = (SubproblemKey y x v asg d, out)" by (cases m; cases "fst m") auto
  from assms(1) show ?thesis unfolding m memo_entry_ok.simps by (rule outcome_ok_grows[OF _ assms(2,3)])
qed

lemma rec_okD:
  "rec_ok pa X0 Y0 m rec \<Longrightarrow> id_measure q < m \<Longrightarrow> query_ok pa X0 Y0 q \<Longrightarrow> run_ok pa X0 Y0 run \<Longrightarrow>
    im_depth (ir_meter run) + m \<le> usize_max \<Longrightarrow> holds (step_ok pa X0 Y0 run (query_outcome pa X0 Y0 q)) (rec q run)"
  unfolding rec_ok_def by blast

text \<open>Bookkeeping that leaves the parts the invariant reads alone.\<close>

lemma step_ok_same:
  assumes "holds (step_ok pa X0 Y0 run1 R) m" "ir_arena run1 = ir_arena run" "ir_meter run1 = ir_meter run"
  shows "holds (step_ok pa X0 Y0 run R) m"
  using assms(1) unfolding step_ok_def assms(2,3) .

lemma ir_push_simps [simp]:
  "ir_arena (ir_push rl d run) = ir_arena run" "ir_meter (ir_push rl d run) = ir_meter run"
  "ir_ws (ir_push rl d run) = ir_ws run" "ir_memo (ir_push rl d run) = ir_memo run"
  "ir_ancestors (ir_push rl d run) = ir_ancestors run"
  by (simp_all add: ir_push_def)

lemma run_ok_push [simp]: "run_ok pa X0 Y0 (ir_push rl d run) = run_ok pa X0 Y0 run"
  by (simp add: run_ok_def)

lemma run_ok_arena:
  assumes "run_ok pa X0 Y0 run" "grows (ir_arena run) a"
  shows "run_ok pa X0 Y0 (run\<lparr>ir_arena := a\<rparr>)"
  using memo_entry_grows[OF _ run_okD(1)[OF assms(1)] assms(2)] growsD[OF assms(2)] run_okD[OF assms(1)]
  by (simp add: run_ok_def)

text \<open>An emission inside the run.\<close>

lemma in_arena_ok:
  assumes "run_ok pa X0 Y0 run" "holds (emits pa assign B F (ir_arena run)) (f (ir_arena run))"
  shows "holds (step_ok pa X0 Y0 run (\<lambda>e a. denotes pa assign B a e F)) (in_arena f run)"
  using assms run_ok_arena by (cases "f (ir_arena run)") (auto simp: in_arena_def step_ok_def emits_def)

lemma emitted_ok:
  assumes "run_ok pa X0 Y0 run" "holds (emits pa (iq_assign q) {} (sub_law (bs_members (iq_y q))
      (bs_members (iq_v q) - bs_members (iq_x q))) (ir_arena run)) (f (ir_arena run))"
  shows "holds (step_ok pa X0 Y0 run (query_outcome pa X0 Y0 q)) (emitted f run)"
proof -
  have "holds (step_ok pa X0 Y0 run (\<lambda>e a. denotes pa (iq_assign q) {} a e
      (sub_law (bs_members (iq_y q)) (bs_members (iq_v q) - bs_members (iq_x q))))) (in_arena f run)"
    by (rule in_arena_ok) (fact assms)+
  then show ?thesis
    by (cases "in_arena f run") (auto simp: emitted_def step_ok_def query_outcome_def try_bind_def split: sum.splits)
qed

lemma step_ok_bind:
  assumes "holds (step_ok pa X0 Y0 run R) m"
    and "\<And>out run'. run_ok pa X0 Y0 run' \<Longrightarrow> grows (ir_arena run) (ir_arena run') \<Longrightarrow>
      im_depth (ir_meter run') = im_depth (ir_meter run) \<Longrightarrow> R out (ir_arena run') \<Longrightarrow>
      holds (step_ok pa X0 Y0 run' T) (f out run')"
  shows "holds (step_ok pa X0 Y0 run T) (try_bind m f)"
proof (cases m)
  case (Done p)
  obtain r run' where p: "p = (r, run')" by (cases p)
  show ?thesis
  proof (cases r)
    case (Inl e)
    with assms(1) Done p show ?thesis by (simp add: step_ok_def)
  next
    case (Inr out)
    with assms(1) Done p have ok: "run_ok pa X0 Y0 run'" "grows (ir_arena run) (ir_arena run')"
        "im_depth (ir_meter run') = im_depth (ir_meter run)" "charged (ir_meter run) (ir_meter run')"
        "R out (ir_arena run')"
      by (simp_all add: step_ok_def)
    have "holds (step_ok pa X0 Y0 run' T) (f out run')" by (rule assms(2)[OF ok(1,2,3,5)])
    then show ?thesis
      unfolding Done p Inr try_bind_simps using ok grows_trans[OF ok(2)]
      by (elim holds_mono) (auto simp: step_ok_def split: sum.splits intro: charged_trans refused_after)
  qed
qed (use assms(1) in simp_all)

section \<open>The values the lines pass on\<close>

lemma sub_law_restrict:
  assumes "world pa dm Q" "valid_env dm (pa_nodes pa) \<sigma>" "S \<subseteq> pa_nodes pa"
    and "ancestral_in (admg_rel (pa_admg pa)) W S" "y \<subseteq> W"
  shows "sub_law y S dm Q \<sigma> = sub_law y W dm Q \<sigma>"
proof -
  have W: "W \<subseteq> S" using assms(4) by (simp add: ancestral_in_def)
  then have S: "S - y = (W - y) \<union> (S - W)" using assms(5) by blast
  have "finite (W - y)" using W assms(3) by (auto intro: finite_subset[of _ "pa_nodes pa"])
  then have "marg dm (S - y) (Q S) \<sigma> = marg dm (W - y) (marg dm (S - W) (Q S)) \<sigma>"
    unfolding S by (subst marg_union) auto
  also have "\<dots> = marg dm (W - y) (Q W) \<sigma>"
    by (rule marg_cong[OF causal_factorsD(3)[OF assms(1)[unfolded world_def] _ assms(3,4)] assms(2)])
  finally show ?thesis by (simp add: sub_law_def)
qed

lemma outcome_ok_cong:
  assumes "outcome_ok pa X0 Y0 assign y W out a"
    and "\<And>dm Q \<sigma>. world pa dm Q \<Longrightarrow> valid_env dm (pa_nodes pa) \<sigma> \<Longrightarrow> sub_law y W dm Q \<sigma> = sub_law y S dm Q \<sigma>"
  shows "outcome_ok pa X0 Y0 assign y S out a"
  using assms by (cases out) (auto intro: denotes_cong)

lemma anc_ancestral: "ancestral_in (admg_rel a) (anc a y v {}) v" if "y \<subseteq> v"
  unfolding ancestral_in_def using anc_within[of a y v "{}"] that by (auto intro: anc_step)

lemma ancestors_cached_ok:
  assumes inv: "pa_inv pa" and "nodes_in (pa_count pa) y" "nodes_in (pa_count pa) v" "bs_members y \<subseteq> bs_members v"
    and "ws_inv ws" "ancestor_memo_ok pa memo"
  shows "holds (\<lambda>(out, ws', memo'). nodes_in (pa_count pa) out \<and>
      bs_members out = anc (pa_admg pa) (bs_members y) (bs_members v) {} \<and> ws_inv ws' \<and> ancestor_memo_ok pa memo')
    (pa_ancestors_cached pa y v ws memo)"
proof -
  have len: "bs_len y = bs_len v" using nodes_inD(2)[OF assms(2)] nodes_inD(2)[OF assms(3)] by simp
  obtain key where key: "bs_intersect_with y v = Some key" "nodes_in (pa_count pa) key"
      "bs_members key = bs_members y \<inter> bs_members v"
    using nodes_in_ops(2)[OF assms(2,3)] by (cases "bs_intersect_with y v") auto
  have ky: "bs_members key = bs_members y" using key(3) assms(4) by blast
  have fresh: "holds (\<lambda>(out, ws'). nodes_in (pa_count pa) out \<and> ws_inv ws' \<and>
      bs_members out = anc (pa_admg pa) (bs_members y) (bs_members v) {})
      (of_option (admg_ancestors_within (pa_admg pa) key v None ws))"
    using admg_ancestors_within_anc[OF pa_invD(1,3,2)[OF inv] key(2) assms(3,5), of None] assms(4) ky
    by (simp add: in_set_opt_def in_opt_def)
  show ?thesis
  proof (cases "map_of memo (key, v)")
    case None
    with fresh key(1) len assms(6) ky show ?thesis
      unfolding pa_ancestors_cached_def
      by (cases "admg_ancestors_within (pa_admg pa) key v None ws") (auto simp: ancestor_memo_ok_def)
  next
    case (Some out)
    then have "((key, v), out) \<in> set memo" by (rule map_of_SomeD)
    with Some key(1) len assms(5,6) ky show ?thesis
      unfolding pa_ancestors_cached_def by (auto simp: ancestor_memo_ok_def)
  qed
qed

section \<open>Line by line\<close>

text \<open>The setting of one call: a subproblem, a run and a recursion for smaller subproblems.\<close>

definition call_ok ::
  "prepared_admg \<Rightarrow> nat set \<Rightarrow> nat set \<Rightarrow> (id_query \<Rightarrow> ('c, id_outcome) id_step) \<Rightarrow> id_query \<Rightarrow> 'c id_run \<Rightarrow> bool" where
  "call_ok pa X0 Y0 rec q run \<longleftrightarrow> pa_inv pa \<and> pa_named pa \<and> query_ok pa X0 Y0 q \<and> run_ok pa X0 Y0 run \<and>
     rec_ok pa X0 Y0 (id_measure q) rec \<and> im_depth (ir_meter run) + id_measure q \<le> usize_max"

lemma call_okD:
  assumes "call_ok pa X0 Y0 rec q run"
  shows "pa_inv pa" "pa_named pa" "query_ok pa X0 Y0 q" "run_ok pa X0 Y0 run" "rec_ok pa X0 Y0 (id_measure q) rec"
    "im_depth (ir_meter run) + id_measure q \<le> usize_max"
  using assms by (simp_all add: call_ok_def)

lemma call_ok_push [simp]: "call_ok pa X0 Y0 rec q (ir_push rl d run) = call_ok pa X0 Y0 rec q run"
  by (simp add: call_ok_def)

text \<open>Passing a subproblem on: its outcome is the outcome of the query when the laws agree.\<close>

lemma pass_on:
  assumes c: "call_ok pa X0 Y0 rec q run" and q': "query_ok pa X0 Y0 q'" "id_measure q' < id_measure q"
    and same: "iq_assign q' = iq_assign q" "iq_y q' = iq_y q"
    and eq: "\<And>dm Q \<sigma>. world pa dm Q \<Longrightarrow> valid_env dm (pa_nodes pa) \<sigma> \<Longrightarrow>
      sub_law (bs_members (iq_y q)) (bs_members (iq_v q') - bs_members (iq_x q')) dm Q \<sigma> =
      sub_law (bs_members (iq_y q)) (bs_members (iq_v q) - bs_members (iq_x q)) dm Q \<sigma>"
  shows "holds (step_ok pa X0 Y0 run (query_outcome pa X0 Y0 q)) (rec q' run)"
proof -
  have "holds (step_ok pa X0 Y0 run (query_outcome pa X0 Y0 q')) (rec q' run)"
    by (rule rec_okD[OF call_okD(5)[OF c] q'(2,1) call_okD(4,6)[OF c]])
  moreover have "query_outcome pa X0 Y0 q out a" if "query_outcome pa X0 Y0 q' out a" for out a
    using outcome_ok_cong[OF _ eq] that by (simp add: query_outcome_def same)
  ultimately show ?thesis by (elim holds_mono) (auto simp: step_ok_def split: sum.splits)
qed

lemma line1_ok:
  assumes c: "call_ok pa X0 Y0 rec q run" and "bs_members (iq_x q) = {}"
  shows "holds (step_ok pa X0 Y0 run (query_outcome pa X0 Y0 q)) (id_line1 pa q run)"
proof -
  note cD = call_okD[OF c] and qD = query_okD[OF call_okD(3)[OF c]]
  note iD = id_invD[OF qD(4)]
  have "bs_members (iq_v q) \<inter> fst ` set (iq_assign q) = {}" using iD(6) qD(7) assms(2) by blast
  then have "holds (emits pa (iq_assign q) {} (\<lambda>dm Q. marg dm (bs_members (iq_v q) - bs_members (iq_y q))
        (Q (bs_members (iq_v q)))) (ir_arena run))
      (dist_marginal pa (iq_dist q) (iq_y q) (iq_v q) (iq_assign q) (ir_arena run))"
    using iD(1,2) by (intro dist_marginal_emits cD(1,2) qD run_okD(1)[OF cD(4)]) auto
  then have "holds (emits pa (iq_assign q) {} (sub_law (bs_members (iq_y q)) (bs_members (iq_v q) - bs_members (iq_x q)))
      (ir_arena run)) (dist_marginal pa (iq_dist q) (iq_y q) (iq_v q) (iq_assign q) (ir_arena run))"
    by (simp only: sub_law_def[abs_def] assms(2) Diff_empty)
  then show ?thesis
    unfolding id_line1_def using cD(4) by (intro step_ok_same[OF emitted_ok]) simp_all
qed

lemma line2_ok:
  assumes c: "call_ok pa X0 Y0 rec q run" and an: "nodes_in (pa_count pa) an"
    "bs_members an = anc (pa_admg pa) (bs_members (iq_y q)) (bs_members (iq_v q)) {}"
    and ne: "bs_members an \<noteq> bs_members (iq_v q)"
  shows "holds (step_ok pa X0 Y0 run (query_outcome pa X0 Y0 q)) (id_line2 rec q an run)"
proof -
  note cD = call_okD[OF c] and qD = query_okD[OF call_okD(3)[OF c]]
  note iD = id_invD[OF qD(4)]
  let ?n = "pa_count pa" and ?D = "admg_rel (pa_admg pa)"
  let ?y = "bs_members (iq_y q)" and ?x = "bs_members (iq_x q)" and ?v = "bs_members (iq_v q)" and ?an = "bs_members an"
  have anc: "ancestral_in ?D ?an ?v" unfolding an(2) by (rule anc_ancestral[OF iD(2)])
  have sub: "?y \<subseteq> ?an" "?an \<subseteq> ?v" using anc_seeds an(2) anc by (auto simp: ancestral_in_def)
  have fin: "finite ?v" using nodes_in_members[OF qD(3)] finite_subset by blast
  show ?thesis
    unfolding id_line2_def
  proof (rule holds_intersect[OF qD(2) an(1)], rule holds_difference[OF qD(3) an(1)])
    fix x2 removed
    assume x2: "nodes_in ?n x2" "bs_members x2 = ?x \<inter> ?an" and removed: "nodes_in ?n removed" "bs_members removed = ?v - ?an"
    obtain d where d: "dist_marginalize (iq_dist q) removed = Some d" "dist_ok pa d ?an"
      using dist_marginalize_ok[OF qD(5) anc removed] by blast
    let ?q = "q\<lparr>iq_x := x2, iq_v := an, iq_dist := d\<rparr>"
    have ok: "query_ok pa X0 Y0 ?q"
      using qD an(1) x2 d(2) id_inv_restrict[OF qD(4) sub] by (simp add: query_ok_def)
    have "card ?an < card ?v" using sub(2) ne fin by (intro psubset_card_mono) auto
    moreover have "card (?an - ?x \<inter> ?an) \<le> card (?v - ?x)" using sub(2) fin by (intro card_mono) auto
    ultimately have less: "id_measure ?q < id_measure q" by (simp add: id_measure_def x2(2))
    have "?an - ?x \<inter> ?an = ?an \<inter> (?v - ?x)" using sub(2) by blast
    then have W: "ancestral_in ?D (?an - ?x \<inter> ?an) (?v - ?x)" using ancestral_in_mono[OF anc, of "?v - ?x"] by auto
    have V: "?v - ?x \<subseteq> pa_nodes pa" "?y \<subseteq> ?an - ?x \<inter> ?an" using iD(4,5) sub(1) by blast+
    have "holds (step_ok pa X0 Y0 (ir_push ''general.id.line2'' ''restrict to ancestral set of Y'' run) (query_outcome pa X0 Y0 q))
        (rec ?q (ir_push ''general.id.line2'' ''restrict to ancestral set of Y'' run))"
    proof (rule pass_on[OF _ ok less])
      fix dm Q \<sigma> assume w: "world pa dm Q" "valid_env dm (pa_nodes pa) \<sigma>"
      show "sub_law ?y (bs_members (iq_v ?q) - bs_members (iq_x ?q)) dm Q \<sigma> = sub_law ?y (?v - ?x) dm Q \<sigma>"
        using sub_law_restrict[OF w V(1) W V(2)] by (simp add: x2(2))
    qed (use c in simp_all)
    then show "holds (step_ok pa X0 Y0 run (query_outcome pa X0 Y0 q))
        (run_bind (of_option (dist_marginalize (iq_dist q) removed)) (\<lambda>dist2.
          rec (q\<lparr>iq_x := x2, iq_v := an, iq_dist := dist2\<rparr>)
            (ir_push ''general.id.line2'' ''restrict to ancestral set of Y'' run)))"
      unfolding d(1) of_option.simps run_bind.simps by (rule step_ok_same) simp_all
  qed
qed

lemma line3_ok:
  assumes c: "call_ok pa X0 Y0 rec q run" and w: "nodes_in (pa_count pa) w" "bs_members w \<noteq> {}"
    "bs_members w = bs_members (iq_v q) - bs_members (iq_x q) -
      anc (pa_admg pa) (bs_members (iq_y q)) (bs_members (iq_v q)) (bs_members (iq_x q))"
  shows "holds (step_ok pa X0 Y0 run (query_outcome pa X0 Y0 q)) (id_line3 rec q w run)"
proof -
  note cD = call_okD[OF c] and qD = query_okD[OF call_okD(3)[OF c]]
  note iD = id_invD[OF qD(4)]
  let ?D = "admg_rel (pa_admg pa)"
  let ?y = "bs_members (iq_y q)" and ?x = "bs_members (iq_x q)" and ?v = "bs_members (iq_v q)"
  let ?an = "anc (pa_admg pa) ?y ?v ?x"
  have fin: "finite ?v" using nodes_in_members[OF qD(3)] finite_subset by blast
  show ?thesis
    unfolding id_line3_def
  proof (rule holds_union[OF qD(2) w(1)])
    fix x2 assume x2: "nodes_in (pa_count pa) x2" "bs_members x2 = ?x \<union> bs_members w"
    let ?q = "q\<lparr>iq_x := x2\<rparr>"
    have ok: "query_ok pa X0 Y0 ?q"
      using qD x2 id_inv_line3[OF qD(4) w(3)] by (simp add: query_ok_def)
    have S: "?v - (?x \<union> bs_members w) = (?v - ?x) \<inter> ?an" using w(3) by blast
    have "card (?v - (?x \<union> bs_members w)) < card (?v - ?x)" using w(2,3) fin by (intro psubset_card_mono) auto
    then have less: "id_measure ?q < id_measure q" by (simp add: id_measure_def x2(2))
    have W: "ancestral_in ?D ((?v - ?x) \<inter> ?an) (?v - ?x)"
      unfolding ancestral_in_def by (auto intro: anc_step)
    have V: "?v - ?x \<subseteq> pa_nodes pa" "?y \<subseteq> (?v - ?x) \<inter> ?an"
      using anc_seeds[of ?y "pa_admg pa" ?v ?x] iD(2,4,5) by blast+
    have "holds (step_ok pa X0 Y0 (ir_push ''general.id.line3'' ''add superfluous interventions'' run)
        (query_outcome pa X0 Y0 q)) (rec ?q (ir_push ''general.id.line3'' ''add superfluous interventions'' run))"
    proof (rule pass_on[OF _ ok less])
      fix dm Q \<sigma> assume w: "world pa dm Q" "valid_env dm (pa_nodes pa) \<sigma>"
      show "sub_law ?y (bs_members (iq_v ?q) - bs_members (iq_x ?q)) dm Q \<sigma> = sub_law ?y (?v - ?x) dm Q \<sigma>"
        using sub_law_restrict[OF w V(1) W V(2)] by (simp add: x2(2) S)
    qed (use c in simp_all)
    then show "holds (step_ok pa X0 Y0 run (query_outcome pa X0 Y0 q))
        (rec ?q (ir_push ''general.id.line3'' ''add superfluous interventions'' run))"
      by (rule step_ok_same) simp_all
  qed
qed

text \<open>Line 4.\<close>

lemma parts_ok:
  fixes rec :: "id_query \<Rightarrow> ('c, id_outcome) id_step"
  assumes c: "pa_inv pa" "pa_named pa" "query_ok pa X0 Y0 q" "rec_ok pa X0 Y0 (id_measure q) rec"
    and comps: "districts_list (pa_admg pa) (pa_count pa) (bs_members (iq_v q) - bs_members (iq_x q)) comps"
    and several: "\<not> connected (pa_admg pa) (bs_members (iq_v q) - bs_members (iq_x q))"
    and above: "bs_members (iq_v q) - bs_members (iq_x q) \<subseteq>
      anc (pa_admg pa) (bs_members (iq_y q)) (bs_members (iq_v q)) (bs_members (iq_x q))"
  shows "set cs \<subseteq> set comps \<Longrightarrow> run_ok pa X0 Y0 run \<Longrightarrow> im_depth (ir_meter run) + id_measure q \<le> usize_max \<Longrightarrow>
    holds (step_ok pa X0 Y0 run (\<lambda>r a. case r of
        Inl h \<Rightarrow> query_outcome pa X0 Y0 q (IdFail h) a
      | Inr es \<Rightarrow> list_all2 (\<lambda>e F. denotes pa (iq_assign q) {} a e F) es (map (\<lambda>c dm Q. Q (bs_members c)) cs)))
    (id_parts rec q cs run)"
proof (induction cs arbitrary: run)
  case Nil
  then show ?case using run_okD(1) by (auto simp: step_ok_def)
next
  case (Cons s cs)
  note qD = query_okD[OF c(3)] and admg = pa_invD(1)[OF c(1)]
  let ?S = "bs_members (iq_v q) - bs_members (iq_x q)" and ?a = "pa_admg pa"
  let ?R = "\<lambda>cs r a. case r of
        Inl h \<Rightarrow> query_outcome pa X0 Y0 q (IdFail h) a
      | Inr es \<Rightarrow> list_all2 (\<lambda>e F. denotes pa (iq_assign q) {} a e F) es (map (\<lambda>c dm Q. Q (bs_members c)) cs)"
  have s_in: "s \<in> set comps" using Cons.prems(1) by simp
  note sD = districts_listD[OF comps admg s_in]
  have fin: "finite (bs_members (iq_v q))" using nodes_in_members[OF qD(3)] finite_subset by blast
  have strict: "bs_members s \<subset> ?S" using sD(2,4) several by auto
  show ?case
    unfolding id_parts.simps
  proof (rule holds_difference[OF qD(3) sD(1)])
    fix x_i assume x_i: "nodes_in (pa_count pa) x_i" "bs_members x_i = bs_members (iq_v q) - bs_members s"
    let ?q = "q\<lparr>iq_y := s, iq_x := x_i\<rparr>"
    have rest: "bs_members (iq_v q) - bs_members x_i = bs_members s" using x_i(2) sD(2) by blast
    have "id_inv ?a (pa_nodes pa) X0 Y0 (bs_members s) (bs_members (iq_v q) - bs_members s) (bs_members (iq_v q))"
      by (rule id_inv_line4[OF qD(4) id_inv_early[OF qD(4) several] above sD(2,3) sD(5) sD(4)])
    then have ok: "query_ok pa X0 Y0 ?q" using qD sD(1) x_i by (simp add: query_ok_def)
    have less: "id_measure ?q < id_measure q"
      using psubset_card_mono[OF _ strict] fin by (simp add: id_measure_def rest)
    have here: "holds (step_ok pa X0 Y0 run (query_outcome pa X0 Y0 ?q)) (rec ?q run)"
      by (rule rec_okD[OF c(4) less ok Cons.prems(2,3)])
    show "holds (step_ok pa X0 Y0 run (?R (s # cs)))
        (try_bind (rec ?q run) (\<lambda>out run. case out of
            IdFail c \<Rightarrow> Done (Inr (Inl c), run)
          | IdExpr e \<Rightarrow> try_bind (id_parts rec q cs run) (\<lambda>r run.
              Done (Inr (case r of Inl c \<Rightarrow> Inl c | Inr es \<Rightarrow> Inr (e # es)), run))))"
    proof (rule step_ok_bind[OF here])
      fix out and run1 :: "'c id_run"
      assume run1: "run_ok pa X0 Y0 run1" "grows (ir_arena run) (ir_arena run1)"
        "im_depth (ir_meter run1) = im_depth (ir_meter run)" and out: "query_outcome pa X0 Y0 ?q out (ir_arena run1)"
      note inv1 = run_okD(1)[OF run1(1)]
      show "holds (step_ok pa X0 Y0 run1 (?R (s # cs))) (case out of
            IdFail c \<Rightarrow> Done (Inr (Inl c), run1)
          | IdExpr e \<Rightarrow> try_bind (id_parts rec q cs run1) (\<lambda>r run.
              Done (Inr (case r of Inl c \<Rightarrow> Inl c | Inr es \<Rightarrow> Inr (e # es)), run)))"
      proof (cases out)
        case (IdFail h)
        with out run1(1) inv1 show ?thesis by (simp add: step_ok_def query_outcome_def)
      next
        case (IdExpr e)
        then have e: "denotes pa (iq_assign q) {} (ir_arena run1) e (\<lambda>dm Q. Q (bs_members s))"
          using out by (simp add: query_outcome_def rest sub_law_def[abs_def])
        have "holds (step_ok pa X0 Y0 run1 (?R cs)) (id_parts rec q cs run1)"
          by (rule Cons.IH) (use Cons.prems run1 in simp_all)
        then have "holds (step_ok pa X0 Y0 run1 (?R (s # cs))) (try_bind (id_parts rec q cs run1) (\<lambda>r run.
              Done (Inr (case r of Inl c \<Rightarrow> Inl c | Inr es \<Rightarrow> Inr (e # es)), run)))"
        proof (rule step_ok_bind)
          fix r and run2 :: "'c id_run" assume run2: "run_ok pa X0 Y0 run2" "grows (ir_arena run1) (ir_arena run2)" "?R cs r (ir_arena run2)"
          have "?R (s # cs) (case r of Inl c \<Rightarrow> Inl c | Inr es \<Rightarrow> Inr (e # es)) (ir_arena run2)"
            using run2(3) denotes_grows[OF e inv1 run2(2)] by (cases r) simp_all
          then show "holds (step_ok pa X0 Y0 run2 (?R (s # cs)))
              (Done (Inr (case r of Inl c \<Rightarrow> Inl c | Inr es \<Rightarrow> Inr (e # es)), run2))"
            using run2(1) run_okD(1)[OF run2(1)] by (simp add: step_ok_def)
        qed
        then show ?thesis by (simp add: IdExpr)
      qed
    qed
  qed
qed

lemma line4_ok:
  fixes rec :: "id_query \<Rightarrow> ('c, id_outcome) id_step"
  assumes c: "call_ok pa X0 Y0 rec q run"
    and comps: "districts_list (pa_admg pa) (pa_count pa) (bs_members (iq_v q) - bs_members (iq_x q)) comps"
    and several: "\<not> connected (pa_admg pa) (bs_members (iq_v q) - bs_members (iq_x q))"
    and above: "bs_members (iq_v q) - bs_members (iq_x q) \<subseteq>
      anc (pa_admg pa) (bs_members (iq_y q)) (bs_members (iq_v q)) (bs_members (iq_x q))"
  shows "holds (step_ok pa X0 Y0 run (query_outcome pa X0 Y0 q)) (id_line4 pa rec q comps run)"
proof -
  note cD = call_okD[OF c] and qD = query_okD[OF call_okD(3)[OF c]]
  note iD = id_invD[OF qD(4)]
  let ?S = "bs_members (iq_v q) - bs_members (iq_x q)" and ?y = "bs_members (iq_y q)"
  let ?run = "ir_push ''general.id.line4'' (''C-component factorization ('' @ decimal (length comps) @ '' parts)'') run"
  have parts: "holds (step_ok pa X0 Y0 ?run (\<lambda>r a. case r of
        Inl h \<Rightarrow> query_outcome pa X0 Y0 q (IdFail h) a
      | Inr es \<Rightarrow> list_all2 (\<lambda>e F. denotes pa (iq_assign q) {} a e F) es (map (\<lambda>c dm Q. Q (bs_members c)) comps)))
      (id_parts rec q comps ?run)"
    by (rule parts_ok[OF cD(1-3,5) comps several above]) (use cD(4,6) in simp_all)
  have free: "(?S - ?y) \<inter> fst ` set (iq_assign q) = {}" using iD(6) qD(7) by blast
  have "holds (step_ok pa X0 Y0 ?run (query_outcome pa X0 Y0 q)) (id_line4 pa rec q comps run)"
    unfolding id_line4_def
  proof (rule step_ok_bind[OF parts])
    fix r and run1 :: "'c id_run"
    assume run1: "run_ok pa X0 Y0 run1" and r: "case r of
        Inl h \<Rightarrow> query_outcome pa X0 Y0 q (IdFail h) (ir_arena run1)
      | Inr es \<Rightarrow> list_all2 (\<lambda>e F. denotes pa (iq_assign q) {} (ir_arena run1) e F) es (map (\<lambda>c dm Q. Q (bs_members c)) comps)"
    note inv1 = run_okD(1)[OF run1]
    show "holds (step_ok pa X0 Y0 run1 (query_outcome pa X0 Y0 q)) (case r of
         Inl c \<Rightarrow> Done (Inr (IdFail c), run1)
       | Inr factors \<Rightarrow>
           try_bind (in_arena (\<lambda>a. try_bind (infallible (ar_intern_list a factors)) (\<lambda>l a.
               infallible (ar_intern a (Product l)))) run1) (\<lambda>product run.
           run_bind (of_option (bs_difference_with (iq_v q) (iq_y q))) (\<lambda>sum_vars.
           run_bind (of_option (bs_difference_with sum_vars (iq_x q))) (\<lambda>sum_vars.
             emitted (emit_sum pa sum_vars product) run))))"
    proof (cases r)
      case (Inl h)
      with r run1 inv1 show ?thesis by (simp add: step_ok_def)
    next
      case (Inr factors)
      then have dens: "list_all2 (\<lambda>e F. denotes pa (iq_assign q) {} (ir_arena run1) e F) factors
          (map (\<lambda>c dm Q. Q (bs_members c)) comps)" using r by simp
      have "holds (emits pa (iq_assign q) {} (\<lambda>dm Q. Q ?S) (ir_arena run1))
          (try_bind (infallible (ar_intern_list (ir_arena run1) factors)) (\<lambda>l a. infallible (ar_intern a (Product l))))"
        by (rule holds_emits_cong[OF intern_product_emits[OF inv1 dens]])
          (use districts_product[OF comps cD(1)] iD(4) in \<open>auto simp: comp_def\<close>)
      from in_arena_ok[OF run1, where f = "\<lambda>a. try_bind (infallible (ar_intern_list a factors))
          (\<lambda>l a. infallible (ar_intern a (Product l)))", OF this]
      have "holds (step_ok pa X0 Y0 run1 (\<lambda>e a. denotes pa (iq_assign q) {} a e (\<lambda>dm Q. Q ?S)))
          (in_arena (\<lambda>a. try_bind (infallible (ar_intern_list a factors)) (\<lambda>l a. infallible (ar_intern a (Product l)))) run1)" .
      then show ?thesis
        unfolding Inr sum.case
      proof (rule step_ok_bind)
        fix e and run2 :: "'c id_run" assume run2: "run_ok pa X0 Y0 run2" and e: "denotes pa (iq_assign q) {} (ir_arena run2) e (\<lambda>dm Q. Q ?S)"
        show "holds (step_ok pa X0 Y0 run2 (query_outcome pa X0 Y0 q))
            (run_bind (of_option (bs_difference_with (iq_v q) (iq_y q))) (\<lambda>sum_vars.
             run_bind (of_option (bs_difference_with sum_vars (iq_x q))) (\<lambda>sum_vars.
               emitted (emit_sum pa sum_vars e) run2)))"
        proof (rule holds_difference[OF qD(3,1)], rule holds_difference[OF _ qD(2)], assumption)
          fix r1 sv assume "bs_members r1 = bs_members (iq_v q) - ?y"
            and sv: "nodes_in (pa_count pa) sv" "bs_members sv = bs_members r1 - bs_members (iq_x q)"
          then have sv': "bs_members sv = ?S - ?y" by blast
          have "holds (emits pa (iq_assign q) {} (\<lambda>dm Q. marg dm (bs_members sv) (Q ?S)) (ir_arena run2))
              (emit_sum pa sv e (ir_arena run2))"
            by (rule emit_sum_unlabelled[OF cD(1,2) run_okD(1)[OF run2] e sv(1)]) (use free sv' nodes_in_members[OF qD(3)] in auto)
          then have "holds (emits pa (iq_assign q) {} (sub_law ?y ?S) (ir_arena run2)) (emit_sum pa sv e (ir_arena run2))"
            unfolding sv' by (simp only: sub_law_def[abs_def])
          then show "holds (step_ok pa X0 Y0 run2 (query_outcome pa X0 Y0 q)) (emitted (emit_sum pa sv e) run2)"
            by (rule emitted_ok[OF run2])
        qed
      qed
    qed
  qed
  then show ?thesis by (rule step_ok_same) simp_all
qed

text \<open>Lines 5 to 7: everything left is one district.\<close>

lemma equal_set_iff: "bs_equal_set b c \<longleftrightarrow> b = c"
  by (auto simp: bs_equal_set_def)

lemma find_containing_spec:
  assumes "nodes_in n s" "\<forall>c \<in> set cs. nodes_in n c"
  shows "find_containing s cs = Some (find (\<lambda>c. bs_members s \<subseteq> bs_members c \<and> c \<noteq> s) cs)"
  using assms(2) nodes_in_subset[OF assms(1)] by (induction cs) (auto simp: equal_set_iff)

lemma line5_ok:
  fixes rec :: "id_query \<Rightarrow> ('c, id_outcome) id_step"
  assumes c: "call_ok pa X0 Y0 rec q run" and x: "bs_members (iq_x q) \<noteq> {}"
    and s: "nodes_in (pa_count pa) s" "bs_members s = bs_members (iq_v q) - bs_members (iq_x q)"
    and all: "bs_members (iq_v q) = anc (pa_admg pa) (bs_members (iq_y q)) (bs_members (iq_v q)) {}"
      "bs_members (iq_v q) - bs_members (iq_x q) \<subseteq>
        anc (pa_admg pa) (bs_members (iq_y q)) (bs_members (iq_v q)) (bs_members (iq_x q))"
    and conn: "connected (pa_admg pa) (bs_members s)" "connected (pa_admg pa) (bs_members (iq_v q))"
  shows "holds (step_ok pa X0 Y0 run (query_outcome pa X0 Y0 q)) (id_line5 pa q s run)"
proof -
  note cD = call_okD[OF c] and qD = query_okD[OF call_okD(3)[OF c]]
  note small = pa_invD(2)[OF cD(1)]
  have vars: "pa_dense_to_vars pa (bs_ids (iq_v q)) = Inr (map (pa_var pa) (bs_ids (iq_v q)))"
    by (rule pa_dense_to_vars_spec[OF cD(2)]) (use nodes_inD[OF qD(3)] nodes_in_ids[OF qD(3)] in blast)
  obtain hc where hc: "hc_from_sets (iq_v q) s (pa_var pa) = Some hc"
    using hc_from_sets_spec[OF small qD(3) s(1)] by blast
  have "hedge (pa_admg pa) (pa_nodes pa) X0 Y0 (bs_members (iq_v q)) (bs_members s)"
    unfolding s(2) by (rule id_line5_hedge[OF pa_invD(1)[OF cD(1)] qD(4) x all conn[unfolded s(2)]])
  then have "query_outcome pa X0 Y0 q (IdFail hc) (ir_arena run)"
    using qD(3) s(1) hc by (auto simp: query_outcome_def)
  with vars hc nodes_in_iter(1)[OF qD(3) small] cD(4) run_okD(1)[OF cD(4)] show ?thesis
    by (simp add: id_line5_def Let_def step_ok_def)
qed

lemma line6_ok:
  fixes rec :: "id_query \<Rightarrow> ('c, id_outcome) id_step"
  assumes c: "call_ok pa X0 Y0 rec q run"
    and s: "nodes_in (pa_count pa) s" "bs_members s = bs_members (iq_v q) - bs_members (iq_x q)"
    and un: "unconfounded (admg_bi (pa_admg pa)) (bs_members s) (bs_members (iq_v q) - bs_members s)"
  shows "holds (step_ok pa X0 Y0 run (query_outcome pa X0 Y0 q)) (id_line6 pa q s run)"
proof -
  note cD = call_okD[OF c] and qD = query_okD[OF call_okD(3)[OF c]]
  note iD = id_invD[OF qD(4)]
  have sub: "bs_members s \<subseteq> bs_members (iq_v q)" "bs_members s \<noteq> {}"
    and free: "bs_members s \<inter> fst ` set (iq_assign q) = {}"
    using s(2) iD(1,2,5,6) qD(7) by blast+
  note em = line6_emits[OF cD(1,2) qD(6) run_okD(1)[OF cD(4)] qD(3,5) s(1) sub un qD(1) free]
  have "(\<lambda>dm Q. marg dm (bs_members s - bs_members (iq_y q)) (Q (bs_members s))) =
      sub_law (bs_members (iq_y q)) (bs_members (iq_v q) - bs_members (iq_x q))"
    by (simp add: sub_law_def[abs_def] s(2))
  note em' = em[unfolded this]
  show ?thesis
    unfolding id_line6_def
    by (rule step_ok_same[OF emitted_ok], unfold ir_push_simps run_ok_push, fact cD(4), fact em') (rule refl)+
qed

lemma line7_ok:
  fixes rec :: "id_query \<Rightarrow> ('c, id_outcome) id_step"
  assumes c: "call_ok pa X0 Y0 rec q run"
    and s: "bs_members s = bs_members (iq_v q) - bs_members (iq_x q)"
    and comps: "districts_list (pa_admg pa) (pa_count pa) (bs_members (iq_v q)) comps"
    and s': "s' \<in> set comps" "bs_members s \<subseteq> bs_members s'" and split: "\<not> connected (pa_admg pa) (bs_members (iq_v q))"
  shows "holds (step_ok pa X0 Y0 run (query_outcome pa X0 Y0 q)) (id_line7 pa rec q s' run)"
proof -
  note cD = call_okD[OF c] and qD = query_okD[OF call_okD(3)[OF c]]
  note iD = id_invD[OF qD(4)] and admg = pa_invD(1)[OF cD(1)]
  let ?n = "pa_count pa"
  let ?y = "bs_members (iq_y q)" and ?x = "bs_members (iq_x q)" and ?v = "bs_members (iq_v q)" and ?s' = "bs_members s'"
  let ?run = "ir_push ''general.id.line7'' ''recurse into containing C-component S' against Q[S']'' run"
  note sD = districts_listD[OF comps admg s'(1)]
  have un: "unconfounded (admg_bi (pa_admg pa)) ?s' (?v - ?s')" by (rule districts_unconfounded[OF comps admg s'(1)])
  have y: "?y \<subseteq> ?s'" using iD(2,5) s s'(2) by blast
  have strict: "?s' \<subset> ?v" using sD(2,4) split by auto
  obtain fs where fs: "(case iq_dist q of
        MarginalCtx \<Rightarrow> map_option Inr (marginal_conditionals pa s' (iq_v q))
      | CFactorCtx law \<Rightarrow> law_conditionals pa s' (iq_v q) law) = Some (Inr fs)"
      "conditionals_ok pa ?v ?s' fs"
  proof (cases "iq_dist q")
    case MarginalCtx
    with marginal_conditionals_ok[OF cD(1) _ qD(3) sD(2)] qD(5) that show ?thesis by auto
  next
    case (CFactorCtx law)
    with law_conditionals_ok[OF cD(1) _ qD(3) sD(1,2)] qD(5) that show ?thesis by auto
  qed
  have law: "law_ok pa (Law (bs_with_len (bs_bit_len (iq_v q))) fs) ?s'"
    using law_ok_district[OF cD(1) fs(2) sD(2) iD(4) un] nodes_inD(2)[OF qD(3)] by (simp add: bs_bit_len_def)
  have fin: "finite ?v" using nodes_in_members[OF qD(3)] finite_subset by blast
  have "holds (step_ok pa X0 Y0 ?run (query_outcome pa X0 Y0 q)) (id_line7 pa rec q s' run)"
    unfolding id_line7_def fs(1) Let_def of_option.simps run_bind.simps try_bind_pure
  proof (rule holds_intersect[OF qD(2) sD(1)])
    fix x2 assume x2: "nodes_in ?n x2" "bs_members x2 = ?x \<inter> ?s'"
    let ?q = "q\<lparr>iq_x := x2, iq_v := s', iq_dist := CFactorCtx (Law (bs_with_len (bs_bit_len (iq_v q))) fs)\<rparr>"
    have ok: "query_ok pa X0 Y0 ?q"
      using qD sD(1) x2 law id_inv_restrict[OF qD(4) y sD(2)] by (simp add: query_ok_def)
    have rest: "?s' - ?x \<inter> ?s' = ?v - ?x" using s s'(2) sD(2) by blast
    have less: "id_measure ?q < id_measure q"
      using psubset_card_mono[OF fin strict] by (simp add: id_measure_def x2(2) rest)
    show "holds (step_ok pa X0 Y0 ?run (query_outcome pa X0 Y0 q)) (rec ?q ?run)"
      by (rule pass_on[OF _ ok less]) (use c in \<open>simp_all add: x2(2) rest\<close>)
  qed
  then show ?thesis by (rule step_ok_same) simp_all
qed

lemma lines_5_to_7_ok:
  fixes rec :: "id_query \<Rightarrow> ('c, id_outcome) id_step"
  assumes c: "call_ok pa X0 Y0 rec q run"
    and s: "nodes_in (pa_count pa) s" "bs_members s = bs_members (iq_v q) - bs_members (iq_x q)"
      "connected (pa_admg pa) (bs_members s)"
    and split: "\<not> connected (pa_admg pa) (bs_members (iq_v q))"
  shows "holds (step_ok pa X0 Y0 run (query_outcome pa X0 Y0 q)) (id_lines_5_to_7 pa rec q s run)"
  unfolding id_lines_5_to_7_def
proof (rule holds_bind[OF pa_c_components_spec])
  note cD = call_okD[OF c] and qD = query_okD[OF call_okD(3)[OF c]]
  note iD = id_invD[OF qD(4)] and admg = pa_invD(1)[OF cD(1)]
  show "pa_inv pa" "nodes_in (pa_count pa) (iq_v q)" by (fact cD(1), fact qD(3))
  fix comps assume comps: "districts_list (pa_admg pa) (pa_count pa) (bs_members (iq_v q)) comps"
  show "holds (step_ok pa X0 Y0 run (query_outcome pa X0 Y0 q))
      (if list_ex (\<lambda>c. bs_equal_set c s) comps then id_line6 pa q s run
       else run_bind (of_option (find_containing s comps)) (\<lambda>found. case found of
              Some s_prime \<Rightarrow> id_line7 pa rec q s_prime run
            | None \<Rightarrow> Done (Inl (InvariantViolated
                ''general ID: no line applies to the current C-component state''), run)))"
  proof (cases "s \<in> set comps")
    case True
    then have "list_ex (\<lambda>c. bs_equal_set c s) comps" by (auto simp: list_ex_iff equal_set_iff)
    with line6_ok[OF c s(1,2) districts_unconfounded[OF comps admg True]] show ?thesis by simp
  next
    case False
    then have no: "\<not> list_ex (\<lambda>c. bs_equal_set c s) comps" by (auto simp: list_ex_iff equal_set_iff)
    have all: "\<forall>c \<in> set comps. nodes_in (pa_count pa) c" using comps by (simp add: districts_list_def)
    obtain t where t: "t \<in> bs_members s" using s(2) iD(1,2,5) by blast
    then have tv: "t \<in> bs_members (iq_v q)" using s(2) by blast
    obtain d where d: "d \<in> set comps" "bs_members d = district_of (pa_admg pa) (bs_members (iq_v q)) t"
      using districts_list_cover[OF comps tv] by blast
    have "bs_members s \<subseteq> bs_members d" unfolding d(2) by (rule connected_district[OF s(3) _ t]) (use s(2) in blast)
    moreover have "d \<noteq> s" using d(1) False by blast
    ultimately have "find (\<lambda>c. bs_members s \<subseteq> bs_members c \<and> c \<noteq> s) comps \<noteq> None"
      using d(1) by (auto simp: find_None_iff)
    then obtain s' where found: "find (\<lambda>c. bs_members s \<subseteq> bs_members c \<and> c \<noteq> s) comps = Some s'" by blast
    then have "s' \<in> set comps" "bs_members s \<subseteq> bs_members s'" by (auto simp: find_Some_iff)
    with line7_ok[OF c s(2) comps _ _ split] no find_containing_spec[OF s(1) all] found show ?thesis by simp
  qed
qed

section \<open>The body and the recursion\<close>

lemma id_body_ok:
  fixes rec :: "id_query \<Rightarrow> ('c, id_outcome) id_step"
  assumes c: "call_ok pa X0 Y0 rec q run"
  shows "holds (step_ok pa X0 Y0 run (query_outcome pa X0 Y0 q)) (id_body pa rec q run)"
proof (cases "bs_any (iq_x q)")
  case False
  then have "bs_members (iq_x q) = {}" using members_any query_okD(2)[OF call_okD(3)[OF c]] by blast
  with line1_ok[OF c] False show ?thesis by (simp add: id_body_def)
next
  case True
  note cD = call_okD[OF c] and qD = query_okD[OF call_okD(3)[OF c]]
  note iD = id_invD[OF qD(4)] and rD = run_okD[OF cD(4)] and admg = pa_invD(1)[OF cD(1)]
  let ?P = "\<lambda>run. step_ok pa X0 Y0 run (query_outcome pa X0 Y0 q)"
  let ?y = "bs_members (iq_y q)" and ?x = "bs_members (iq_x q)" and ?v = "bs_members (iq_v q)"
  have x: "?x \<noteq> {}" using True members_any[OF qD(2)] by simp
  show ?thesis
    unfolding id_body_def if_not_P[OF not_not[THEN iffD2, OF True]]
  proof (rule holds_bind[OF ancestors_cached_ok[OF cD(1) qD(1,3) iD(2) rD(2,3)]], clarify, unfold Let_def)
    fix an ws memo
    assume an: "nodes_in (pa_count pa) an" "bs_members an = anc (pa_admg pa) ?y ?v {}"
      and ws: "ws_inv ws" "ancestor_memo_ok pa memo"
    let ?run = "run\<lparr>ir_ws := ws, ir_ancestors := memo\<rparr>"
    have c1: "call_ok pa X0 Y0 rec q ?run" using c ws by (simp add: call_ok_def run_ok_def)
    show "holds (?P run) (if \<not> bs_equal_set (iq_v q) an then id_line2 rec q an ?run
        else run_bind (of_option (bs_difference_with (iq_v q) (iq_x q))) (\<lambda>v_minus_x.
        run_bind (pa_ancestors_bar_x pa (iq_y q) (iq_v q) (iq_x q) (ir_ws ?run)) (\<lambda>(an_bar, ws).
        run_bind (of_option (bs_difference_with v_minus_x an_bar)) (\<lambda>w.
        if bs_any w then id_line3 rec q w (?run\<lparr>ir_ws := ws\<rparr>)
        else run_bind (pa_c_components pa v_minus_x) (\<lambda>comps.
        if comps = []
        then Done (Inl (InvariantViolated
          ''general ID: outcomes are not disjoint from interventions''), ?run\<lparr>ir_ws := ws\<rparr>)
        else if length comps > 1 then id_line4 pa rec q comps (?run\<lparr>ir_ws := ws\<rparr>)
        else run_bind (pa_is_single_c_component pa (iq_v q)) (\<lambda>single.
          if single then id_line5 pa q (comps ! 0) (?run\<lparr>ir_ws := ws\<rparr>)
          else id_lines_5_to_7 pa rec q (comps ! 0) (?run\<lparr>ir_ws := ws\<rparr>)))))))"
    proof (cases "?v = bs_members an")
      case False
      then have "\<not> bs_equal_set (iq_v q) an" by (auto simp: equal_set_iff)
      with step_ok_same[OF line2_ok[OF c1 an], of run] False show ?thesis by simp
    next
      case v: True
      then have "bs_equal_set (iq_v q) an" using nodes_in_eq[OF qD(3) an(1)] by (simp add: equal_set_iff)
      then have ne: "\<not> \<not> bs_equal_set (iq_v q) an" by simp
      show ?thesis
        unfolding if_not_P[OF ne]
      proof (rule holds_difference[OF qD(3,2)])
        fix vx assume vx: "nodes_in (pa_count pa) vx" "bs_members vx = ?v - ?x"
        obtain bar ws1 where bar: "pa_ancestors_bar_x pa (iq_y q) (iq_v q) (iq_x q) (ir_ws ?run) = Done (bar, ws1)"
            "nodes_in (pa_count pa) bar" "ws_inv ws1" "bs_members bar = anc (pa_admg pa) ?y ?v ?x"
          using of_option_ancestors[OF cD(1) qD(1,3,2), of "ir_ws ?run"] ws(1) iD(2) by auto
        let ?run1 = "?run\<lparr>ir_ws := ws1\<rparr>"
        have c2: "call_ok pa X0 Y0 rec q ?run1" using c ws bar(3) by (simp add: call_ok_def run_ok_def)
        note same = step_ok_same[of pa X0 Y0 ?run1 _ _ run]
        show "holds (?P run) (run_bind (pa_ancestors_bar_x pa (iq_y q) (iq_v q) (iq_x q) (ir_ws ?run)) (\<lambda>(an_bar, ws).
          run_bind (of_option (bs_difference_with vx an_bar)) (\<lambda>w.
          if bs_any w then id_line3 rec q w (?run\<lparr>ir_ws := ws\<rparr>)
          else run_bind (pa_c_components pa vx) (\<lambda>comps.
          if comps = []
          then Done (Inl (InvariantViolated
            ''general ID: outcomes are not disjoint from interventions''), ?run\<lparr>ir_ws := ws\<rparr>)
          else if length comps > 1 then id_line4 pa rec q comps (?run\<lparr>ir_ws := ws\<rparr>)
          else run_bind (pa_is_single_c_component pa (iq_v q)) (\<lambda>single.
            if single then id_line5 pa q (comps ! 0) (?run\<lparr>ir_ws := ws\<rparr>)
            else id_lines_5_to_7 pa rec q (comps ! 0) (?run\<lparr>ir_ws := ws\<rparr>))))))"
          unfolding bar(1) run_bind.simps prod.case
        proof (rule holds_difference[OF vx(1) bar(2)])
          fix w assume w: "nodes_in (pa_count pa) w" "bs_members w = bs_members vx - bs_members bar"
          show "holds (?P run) (if bs_any w then id_line3 rec q w ?run1
            else run_bind (pa_c_components pa vx) (\<lambda>comps.
            if comps = []
            then Done (Inl (InvariantViolated ''general ID: outcomes are not disjoint from interventions''), ?run1)
            else if length comps > 1 then id_line4 pa rec q comps ?run1
            else run_bind (pa_is_single_c_component pa (iq_v q)) (\<lambda>single.
              if single then id_line5 pa q (comps ! 0) ?run1 else id_lines_5_to_7 pa rec q (comps ! 0) ?run1)))"
          proof (cases "bs_any w")
            case True
            with line3_ok[OF c2 w(1)] w(2) vx(2) bar(4) members_any[OF w(1)] show ?thesis
              by (auto intro!: same)
          next
            case False
            then have above: "?v - ?x \<subseteq> anc (pa_admg pa) ?y ?v ?x"
              using w(2) vx(2) bar(4) members_any[OF w(1)] by blast
            show ?thesis
              unfolding if_not_P[OF False]
            proof (rule holds_bind[OF pa_c_components_spec[OF cD(1) vx(1)]])
              fix comps assume comps: "districts_list (pa_admg pa) (pa_count pa) (bs_members vx) comps"
              have S: "?v - ?x \<noteq> {}" using iD(1,2,5) by blast
              have some: "comps \<noteq> []" using districts_list_empty[OF comps] S vx(2) by simp
              note single = districts_list_single[OF comps admg S[folded vx(2)]]
              show "holds (?P run) (if comps = []
                then Done (Inl (InvariantViolated ''general ID: outcomes are not disjoint from interventions''), ?run1)
                else if length comps > 1 then id_line4 pa rec q comps ?run1
                else run_bind (pa_is_single_c_component pa (iq_v q)) (\<lambda>single.
                  if single then id_line5 pa q (comps ! 0) ?run1 else id_lines_5_to_7 pa rec q (comps ! 0) ?run1))"
              proof (cases "length comps = 1")
                case False
                then have "length comps > 1" using some by (cases comps) auto
                moreover have "\<not> connected (pa_admg pa) (?v - ?x)" using single(1) False vx(2) by simp
                ultimately show ?thesis
                  using line4_ok[OF c2 comps[unfolded vx(2)] _ above] some by (auto intro!: same)
              next
                case one: True
                let ?s = "comps ! 0"
                have s: "nodes_in (pa_count pa) ?s" "bs_members ?s = ?v - ?x" "connected (pa_admg pa) (bs_members ?s)"
                  using districts_listD(1)[OF comps admg, of ?s] single one vx(2) by auto
                show ?thesis
                proof (cases "connected (pa_admg pa) ?v")
                  case True
                  with line5_ok[OF c2 x s(1,2) trans[OF v an(2)] above s(3)] some one pa_is_single_Done[OF cD(1) qD(3)]
                  show ?thesis by (auto intro!: same)
                next
                  case False
                  with lines_5_to_7_ok[OF c2 s] some one pa_is_single_Done[OF cD(1) qD(3)]
                  show ?thesis by (auto intro!: same)
                qed
              qed
            qed
          qed
        qed
      qed
    qed
  qed
qed

lemma alist_update_set: "set (AList.update k x al) \<subseteq> insert (k, x) (set al)"
  by (induction al) auto

lemma memo_update_ok:
  assumes "run_ok pa X0 Y0 run" "query_outcome pa X0 Y0 q out (ir_arena run)"
  shows "run_ok pa X0 Y0 (run\<lparr>ir_meter := m, ir_memo := AList.update (key_of q) out (ir_memo run)\<rparr>)"
  using assms alist_update_set[of "key_of q" out "ir_memo run"]
  by (auto simp: run_ok_def query_outcome_def key_of_def)

lemma im_enter_ok:
  assumes "im_depth m < usize_max"
  shows "\<exists>r m'. im_enter m nodes entries = Done (r, m') \<and> im_depth m' = im_depth m + 1 \<and>
    (case r of Inl e \<Rightarrow> refused m m' e
     | Inr _ \<Rightarrow> charged m m' \<and> (\<forall>charge. im_charge m = Some charge \<longrightarrow> (im_state m, im_state m') \<in> granted charge))"
proof (cases "im_charge m")
  case (Some charge)
  let ?b = "saturating_add (saturating_mul nodes 96) (saturating_mul entries 192)"
  obtain r s where rs: "charge (im_depth m + 1) ?b (im_state m) = (r, s)" by fastforce
  have enter: "im_enter m nodes entries = Done (r, m\<lparr>im_depth := im_depth m + 1, im_state := s\<rparr>)"
    using assms Some rs by (simp add: im_enter_def)
  show ?thesis
  proof (cases r)
    case (Inl e)
    then show ?thesis unfolding enter using Some rs by (auto simp: refused_def)
  next
    case (Inr u)
    then have "(im_state m, s) \<in> granted charge" using rs by (auto simp: granted_def)
    then show ?thesis unfolding enter using Some Inr by (simp add: charged_def r_into_rtrancl)
  qed
qed (use assms in \<open>simp add: im_enter_def charged_def\<close>)

text \<open>What a call does to the charge: it is asked at least once before there is an outcome.\<close>

definition asked :: "'c id_meter \<Rightarrow> (identification_error + 'a) \<times> 'c id_run \<Rightarrow> bool" where
  "asked m = (\<lambda>(r, run'). case r of Inl _ \<Rightarrow> True | Inr _ \<Rightarrow>
     \<forall>charge. im_charge m = Some charge \<longrightarrow> (im_state m, im_state (ir_meter run')) \<in> (granted charge)\<^sup>+)"

lemma asked_after:
  assumes "im_charge m = Some charge \<longrightarrow> (im_state m, im_state m1) \<in> granted charge" "charged m1 m2" "im_charge m1 = im_charge m"
  shows "im_charge m = Some charge \<longrightarrow> (im_state m, im_state m2) \<in> (granted charge)\<^sup>+"
  using assms by (auto simp: charged_def intro: rtrancl_into_trancl2)

theorem id_recurse_ok:
  fixes run :: "'c id_run"
  assumes inv: "pa_inv pa" and named: "pa_named pa"
  shows "id_measure q < fuel \<Longrightarrow> query_ok pa X0 Y0 q \<Longrightarrow> run_ok pa X0 Y0 run \<Longrightarrow>
    im_depth (ir_meter run) + id_measure q < usize_max \<Longrightarrow>
    holds (\<lambda>p. step_ok pa X0 Y0 run (query_outcome pa X0 Y0 q) p \<and> asked (ir_meter run) p) (id_recurse fuel pa q run)"
proof (induction fuel arbitrary: q run)
  case (Suc fuel)
  let ?P = "\<lambda>p. step_ok pa X0 Y0 run (query_outcome pa X0 Y0 q) p \<and> asked (ir_meter run) p"
  let ?run0 = "run\<lparr>ir_perf := (ir_perf run)\<lparr>pr_candidates_examined :=
            saturating_add (pr_candidates_examined (ir_perf run)) 1\<rparr>\<rparr>"
  obtain r meter where enter: "im_enter (ir_meter run) (ar_len (ir_arena run)) (length (ir_memo run)) = Done (r, meter)"
      "im_depth meter = im_depth (ir_meter run) + 1"
      "case r of Inl e \<Rightarrow> refused (ir_meter run) meter e
       | Inr _ \<Rightarrow> charged (ir_meter run) meter \<and>
           (\<forall>charge. im_charge (ir_meter run) = Some charge \<longrightarrow> (im_state (ir_meter run), im_state meter) \<in> granted charge)"
    using im_enter_ok[of "ir_meter run" "ar_len (ir_arena run)" "length (ir_memo run)"] Suc.prems(4) by auto
  let ?run = "?run0\<lparr>ir_meter := meter\<rparr>"
  have run: "run_ok pa X0 Y0 ?run" using Suc.prems(3) by (simp add: run_ok_def)
  have arena: "arena_inv (ir_arena run)" by (rule run_okD(1)[OF Suc.prems(3)])
  have unfold: "id_recurse (Suc fuel) pa q run = (case r of
           Inl e \<Rightarrow> Done (Inl e, ?run)
         | Inr _ \<Rightarrow>
             (case map_of (ir_memo ?run) (key_of q) of
                Some hit \<Rightarrow>
                  (let perf = ir_perf ?run
                   in Done (Inr hit, ?run\<lparr>ir_perf := perf\<lparr>pr_sets_returned :=
                        saturating_add (pr_sets_returned perf) 1\<rparr>, ir_meter := im_leave (ir_meter ?run)\<rparr>))
              | None \<Rightarrow>
                  try_bind (id_body pa (id_recurse fuel pa) q ?run) (\<lambda>outcome run.
                    Done (Inr outcome, run\<lparr>ir_meter := im_leave (ir_meter run),
                      ir_memo := AList.update (key_of q) outcome (ir_memo run)\<rparr>))))"
    by (cases r) (simp_all add: enter(1) Let_def del: One_nat_def cong del: option.case_cong_weak)
  show ?case
  proof (cases r)
    case (Inl e)
    then show ?thesis using run arena enter(3) unfolding unfold by (simp add: step_ok_def asked_def)
  next
    case (Inr u)
    with enter(3) have granted: "charged (ir_meter run) meter" "im_charge meter = im_charge (ir_meter run)"
        "\<And>charge. im_charge (ir_meter run) = Some charge \<longrightarrow> (im_state (ir_meter run), im_state meter) \<in> granted charge"
      by (simp_all add: charged_def)
    have left: "charged m (im_leave m') = charged m m'" "im_state (im_leave m') = im_state m'" for m m' :: "'c id_meter"
      by (cases "im_charge m") (simp_all add: charged_def im_leave_def)
    show ?thesis
    proof (cases "map_of (ir_memo ?run) (key_of q)")
      case (Some hit)
      then have "(key_of q, hit) \<in> set (ir_memo run)" by (auto dest: map_of_SomeD)
      then have "query_outcome pa X0 Y0 q hit (ir_arena run)"
        using run_okD(4)[OF Suc.prems(3)] by (fastforce simp: key_of_def query_outcome_def)
      moreover have "run_ok pa X0 Y0 (run\<lparr>ir_perf := p, ir_meter := m\<rparr>)" for p m
        using Suc.prems(3) by (simp add: run_ok_def)
      moreover have "im_depth (im_leave meter) = im_depth (ir_meter run)" using enter(2) by (simp add: im_leave_def)
      ultimately show ?thesis
        unfolding unfold Inr sum.case Some option.case
        using arena granted(1) asked_after[OF granted(3) charged_refl granted(2)]
        by (simp add: step_ok_def asked_def left Let_def)
    next
      case None
      have "rec_ok pa X0 Y0 (id_measure q) (id_recurse fuel pa :: id_query \<Rightarrow> ('c, id_outcome) id_step)"
        unfolding rec_ok_def
      proof (intro allI impI)
        fix q' and run' :: "'c id_run"
        assume "id_measure q' < id_measure q" "query_ok pa X0 Y0 q'" "run_ok pa X0 Y0 run'"
          "im_depth (ir_meter run') + id_measure q \<le> usize_max"
        then show "holds (step_ok pa X0 Y0 run' (query_outcome pa X0 Y0 q')) (id_recurse fuel pa q' run')"
          using holds_mono[OF Suc.IH[of q' run']] Suc.prems(1) by simp
      qed
      then have "call_ok pa X0 Y0 (id_recurse fuel pa) q ?run"
        using inv named Suc.prems(2,4) run enter(2) by (simp add: call_ok_def)
      note body = id_body_ok[OF this]
      show ?thesis
        unfolding unfold Inr sum.case None option.case
      proof (cases "id_body pa (id_recurse fuel pa) q ?run")
        case (Done p)
        obtain res run1 where p: "p = (res, run1)" by (cases p)
        with body Done have ok: "run_ok pa X0 Y0 run1" "grows (ir_arena run) (ir_arena run1)"
            "case res of Inl e \<Rightarrow> refused meter (ir_meter run1) e
             | Inr out \<Rightarrow> charged meter (ir_meter run1) \<and>
                 im_depth (ir_meter run1) = im_depth (ir_meter run) + 1 \<and> query_outcome pa X0 Y0 q out (ir_arena run1)"
          using enter(2) by (auto simp: step_ok_def split: sum.splits)
        show "holds ?P (try_bind (id_body pa (id_recurse fuel pa) q ?run) (\<lambda>outcome run.
                    Done (Inr outcome, run\<lparr>ir_meter := im_leave (ir_meter run),
                      ir_memo := AList.update (key_of q) outcome (ir_memo run)\<rparr>)))"
        proof (cases res)
          case (Inl e)
          then show ?thesis
            unfolding Done p using ok refused_after[OF granted(1)] by (simp add: step_ok_def asked_def)
        next
          case (Inr out)
          have "im_depth (im_leave (ir_meter run1)) = im_depth (ir_meter run)" using ok(3) Inr by (simp add: im_leave_def)
          with ok Inr show ?thesis
            unfolding Done p
            using memo_update_ok[OF ok(1)] charged_trans[OF granted(1)] asked_after[OF granted(3) _ granted(2), of "ir_meter run1"]
            by (simp add: step_ok_def asked_def left)
        qed
      qed (use body in simp_all)
    qed
  qed
qed simp

end
