(* ===== verification/Identify_Properties.thy ===== *)
theory Identify_Properties
  imports Id_Sound "HOL-Library.Code_Target_Numeral"
begin

text \<open>
  The correctness statements of the general identification algorithm and of hedge certificates.

  \<open>identifies_effect\<close> is what an identified functional promises: in every semi-Markovian model of
  the graph with a positive observational law, over every finite domain and at every value of the
  variables, evaluating the expression on the observational law gives the law of the outcomes under
  the intervention. The intervened variables that carry a level are read at that level. Its binders
  bind only variables that are free in their bodies, so that simplification accepts it.
\<close>

section \<open>What an identified functional promises\<close>

definition levels_env :: "assign \<Rightarrow> val env \<Rightarrow> val env" where
  "levels_env assign \<sigma> i = (case map_of assign i of Some x \<Rightarrow> x | None \<Rightarrow> \<sigma> i)"

definition identifies_effect ::
  "prepared_admg \<Rightarrow> nat set \<Rightarrow> nat set \<Rightarrow> assign \<Rightarrow> expr_arena \<Rightarrow> expr_id \<Rightarrow> bool" where
  "identifies_effect pa X Y assign a e \<longleftrightarrow> arena_inv a \<and> e < length (ar_nodes a) \<and>
     (levels_set assign \<longrightarrow> live (tree_of a e)) \<and>
     (\<forall>num dv (M :: val causal_model) s.
        semi_markovian (admg_rel (pa_admg pa)) (admg_bi (pa_admg pa)) (pa_nodes pa) (node_dom pa dv) M \<longrightarrow>
        (\<forall>\<sigma>. valid_env (node_dom pa dv) (pa_nodes pa) \<sigma> \<longrightarrow> 0 < observational_law M (pa_nodes pa) \<sigma>) \<longrightarrow>
        levels_ok (node_dom pa dv) assign \<longrightarrow> valid_env dv (pa_vars pa) s \<longrightarrow>
        tree_value num dv (pa_vars pa) (\<lambda>s. observational_law M (pa_nodes pa) (node_env pa s)) (tree_of a e) s =
          interventional_law M (node_dom pa dv) (pa_nodes pa) X Y (levels_env assign (node_env pa s)))"

lemma model_world:
  assumes inv: "pa_inv pa" and sm: "semi_markovian (admg_rel (pa_admg pa)) (admg_bi (pa_admg pa)) (pa_nodes pa) dm M"
    and pos: "\<forall>\<sigma>. valid_env dm (pa_nodes pa) \<sigma> \<longrightarrow> 0 < observational_law M (pa_nodes pa) \<sigma>"
  shows "world pa dm (q_factor M)"
proof -
  note a = pa_invD(1,3)[OF inv]
  show ?thesis
    unfolding world_def
    by (rule semi_markovian_factors[OF sm acyclic_admg_rel[OF a(1)]]) (use admg_rel_bound[OF a(1)] a(2) pos in auto)
qed

lemma denotes_identifies:
  assumes inv: "pa_inv pa" and a: "arena_inv a" and d: "denotes pa assign {} a e (sub_law Y (pa_nodes pa - X))"
  shows "identifies_effect pa X Y assign a e"
  unfolding identifies_effect_def
proof (intro conjI allI impI)
  show "arena_inv a" by (rule a)
  show "e < length (ar_nodes a)" by (rule denotes_id[OF d])
  show "live (tree_of a e)" if "levels_set assign" by (rule denotes_live[OF d that])
  fix num dv s and M :: "val causal_model"
  let ?D = "admg_rel (pa_admg pa)" and ?dm = "node_dom pa dv"
  assume sm: "semi_markovian ?D (admg_bi (pa_admg pa)) (pa_nodes pa) ?dm M"
    and pos: "\<forall>\<sigma>. valid_env ?dm (pa_nodes pa) \<sigma> \<longrightarrow> 0 < observational_law M (pa_nodes pa) \<sigma>"
    and lv: "levels_ok ?dm assign" "valid_env dv (pa_vars pa) s"
  have "world pa ?dm (q_factor M)" by (rule model_world[OF inv sm pos])
  moreover have "(\<lambda>s. observational_law M (pa_nodes pa) (node_env pa s)) = pa_joint pa (q_factor M)"
    by (simp add: pa_joint_def[abs_def] observational_law_def)
  moreover have "under_levels assign {} (node_env pa s) = levels_env assign (node_env pa s)"
    by (simp add: under_levels_def[abs_def] levels_env_def[abs_def])
  ultimately show "tree_value num dv (pa_vars pa) (\<lambda>s. observational_law M (pa_nodes pa) (node_env pa s)) (tree_of a e) s =
      interventional_law M ?dm (pa_nodes pa) X Y (levels_env assign (node_env pa s))"
    using d lv by (simp add: denotes_def sub_law_def interventional_law_def)
qed

section \<open>The recursion from the entry points\<close>

definition query_sets_ok :: "prepared_admg \<Rightarrow> bitset \<Rightarrow> bitset \<Rightarrow> assign \<Rightarrow> bool" where
  "query_sets_ok pa y x assign \<longleftrightarrow> nodes_in (pa_count pa) y \<and> nodes_in (pa_count pa) x \<and>
     distinct (map fst assign) \<and> fst ` set assign \<subseteq> bs_members x"

lemma query_sets_okD:
  assumes "query_sets_ok pa y x assign"
  shows "nodes_in (pa_count pa) y" "nodes_in (pa_count pa) x" "fst ` set assign \<subseteq> bs_members x" "assign_ok pa assign"
  using assms nodes_inD(3) by (auto simp: query_sets_ok_def assign_ok_def)

lemma require_disjoint_cases:
  assumes "nodes_in n y" "n \<le> u32_max"
  obtains msg where "require_disjoint y x = Done (Inl (UnsupportedQuery msg))"
      "bs_members y = {} \<or> bs_members y \<inter> bs_members x \<noteq> {}"
  | "require_disjoint y x = Done (Inr ())" "bs_members y \<noteq> {}" "bs_members y \<inter> bs_members x = {}"
proof (cases "bs_members y \<noteq> {} \<and> bs_members y \<inter> bs_members x = {}")
  case True
  then show ?thesis
    using assms by (intro that(2)) (simp_all add: require_disjoint_def members_any members_list_ex nodes_in_iter(1))
next
  case False
  then have "\<exists>msg. require_disjoint y x = Done (Inl (UnsupportedQuery msg))"
    using assms by (auto simp: require_disjoint_def members_any members_list_ex nodes_in_iter(1))
  with False that(1) show ?thesis by blast
qed

lemma require_disjoint_iff:
  assumes "nodes_in n y" "n \<le> u32_max"
  shows "require_disjoint y x = Done (Inr ()) \<longleftrightarrow> bs_members y \<noteq> {} \<and> bs_members y \<inter> bs_members x = {}"
  by (rule require_disjoint_cases[OF assms, of x]) auto

lemma id_start_ok:
  assumes inv: "pa_inv pa" and q: "query_sets_ok pa y x assign" and r: "require_disjoint y x = Done (Inr ())"
  shows "query_ok pa (bs_members x) (bs_members y) (id_start pa y x assign)"
    and "id_measure (id_start pa y x assign) < id_fuel pa" "id_fuel pa \<le> usize_max"
proof -
  note qD = query_sets_okD[OF q]
  note n = pa_invD(3,2)[OF inv]
  have full: "nodes_in (pa_count pa) (bs_full (pa_count pa))" "bs_members (bs_full (pa_count pa)) = pa_nodes pa"
    by (simp_all add: nodes_in_def bs_full)
  have r': "bs_members y \<noteq> {}" "bs_members x \<inter> bs_members y = {}"
    using r unfolding require_disjoint_iff[OF qD(1) n(2)] by blast+
  have dist: "ancestral_in (admg_rel (pa_admg pa)) (pa_nodes pa) (pa_nodes pa)" by (auto simp: ancestral_in_def)
  show "query_ok pa (bs_members x) (bs_members y) (id_start pa y x assign)"
    using qD full dist id_inv_start[OF r'(1) nodes_in_members[OF qD(1)] nodes_in_members[OF qD(2)] r'(2)]
    by (simp add: query_ok_def id_start_def n)
  have "card (pa_nodes pa - bs_members x) \<le> card (pa_nodes pa)" by (intro card_mono) auto
  then show "id_measure (id_start pa y x assign) < id_fuel pa"
    by (simp add: id_measure_def id_start_def id_fuel_def n full)
  show "id_fuel pa \<le> usize_max" using n by (simp add: id_fuel_def u32_max_def usize_max_def)
qed

lemma ir_start_ok:
  "ws_inv ws \<Longrightarrow> run_ok pa X Y (ir_start d ws meter)"
  by (simp add: run_ok_def ir_start_def ancestor_memo_ok_def)

lemma id_recurse_start:
  assumes inv: "pa_inv pa" and named: "pa_named pa" and q: "query_sets_ok pa y x assign" and ws: "ws_inv ws"
    and r: "require_disjoint y x = Done (Inr ())" and depth: "im_depth meter = 0"
  shows "holds (\<lambda>p. step_ok pa (bs_members x) (bs_members y) (ir_start d ws meter)
      (query_outcome pa (bs_members x) (bs_members y) (id_start pa y x assign)) p \<and> asked meter p)
    (id_recurse (id_fuel pa) pa (id_start pa y x assign) (ir_start d ws meter))"
proof -
  have "ir_meter (ir_start d ws meter) = meter" by (simp add: ir_start_def)
  then show ?thesis
    using id_recurse_ok[OF inv named id_start_ok(2)[OF inv q r] id_start_ok(1)[OF inv q r] ir_start_ok[OF ws], of d meter]
      id_start_ok(2,3)[OF inv q r] depth by simp
qed

text \<open>An outcome of the whole query: a functional for the effect, or a certificate that verifies.\<close>

definition effect_outcome :: "prepared_admg \<Rightarrow> bitset \<Rightarrow> bitset \<Rightarrow> assign \<Rightarrow> id_outcome \<Rightarrow> expr_arena \<Rightarrow> bool" where
  "effect_outcome pa x y assign out a \<longleftrightarrow>
     (case out of
        IdExpr e \<Rightarrow> identifies_effect pa (bs_members x) (bs_members y) assign a e
      | IdFail c \<Rightarrow> hedge (pa_admg pa) (pa_nodes pa) (bs_members x) (bs_members y)
            (set (hc_f_dense c)) (set (hc_f_prime_dense c)) \<and>
          (\<exists>hp. hp_capture pa x y = Done (Inr hp) \<and> hc_verify_carried (hc_with_problem c hp) = Done (Inr ())))"

lemma effect_outcomeI:
  assumes inv: "pa_inv pa" and named: "pa_named pa" and q: "query_sets_ok pa y x assign" and a: "arena_inv a"
    and out: "query_outcome pa (bs_members x) (bs_members y) (id_start pa y x assign) out a"
  shows "effect_outcome pa x y assign out a"
proof -
  note qD = query_sets_okD[OF q]
  note out' = out[unfolded query_outcome_def id_start_def]
  have v: "bs_members (bs_full (admg_node_count (pa_admg pa))) = pa_nodes pa"
    by (simp add: bs_full pa_invD(3)[OF inv])
  show ?thesis
  proof (cases out)
    case (IdExpr e)
    with out' v show ?thesis using denotes_identifies[OF inv a] by (simp add: effect_outcome_def)
  next
    case (IdFail c)
    with out' obtain f f' where f: "nodes_in (pa_count pa) f" "nodes_in (pa_count pa) f'"
        "hc_from_sets f f' (pa_var pa) = Some c"
        "hedge (pa_admg pa) (pa_nodes pa) (bs_members x) (bs_members y) (bs_members f) (bs_members f')" by auto
    obtain hp where hp: "hp_capture pa x y = Done (Inr hp)" using hp_capture_spec[OF inv named qD(2,1)] by blast
    have "set (hc_f_dense c) = bs_members f" "set (hc_f_prime_dense c) = bs_members f'"
      using hc_from_sets_spec[OF pa_invD(2)[OF inv] f(1,2), of "pa_var pa"] f(3) nodes_in_ids[OF f(1)] nodes_in_ids[OF f(2)]
      by auto
    with f hc_verify_carried_spec[OF inv named qD(2,1) f(1,2) hp] hp IdFail show ?thesis
      by (auto simp: effect_outcome_def)
  qed
qed

lemma identify_sets_outcome:
  assumes inv: "pa_inv pa" and named: "pa_named pa" and q: "query_sets_ok pa y x assign" and ws: "ws_inv ws"
    and r: "require_disjoint y x = Done (Inr ())"
  obtains "identify_sets pa y x query ws assign = NoIds"
  | ws' a e d perf where "identify_sets pa y x query ws assign =
        Done (Inr (rs_identified query [general_id_estimand e] a d (with_causal_markov pa ''general.id'') perf), ws')"
      "ws_inv ws'" "identifies_effect pa (bs_members x) (bs_members y) assign a e"
      "denotes pa assign {} a e (sub_law (bs_members y) (pa_nodes pa - bs_members x))"
  | ws' c hp d perf where "identify_sets pa y x query ws assign =
        Done (Inr (not_identified_with_hedge query d (pa_declared_assumptions pa) perf (hc_with_problem c hp)), ws')"
      "ws_inv ws'" "hp_capture pa x y = Done (Inr hp)" "hc_verify_carried (hc_with_problem c hp) = Done (Inr ())"
      "hedge (pa_admg pa) (pa_nodes pa) (bs_members x) (bs_members y) (set (hc_f_dense c)) (set (hc_f_prime_dense c))"
proof -
  let ?d = "dt_push [] ''general.id'' (''Shpitser'' @ en_dash @ ''Pearl ID'')"
  have start: "im_depth im_unmetered = 0" "im_charge im_unmetered = None" by (simp_all add: im_unmetered_def)
  note rec = id_recurse_start[OF inv named q ws r start(1), of ?d]
  show ?thesis
  proof (cases "id_recurse (id_fuel pa) pa (id_start pa y x assign) (ir_start ?d ws im_unmetered)")
    case NoIds
    then show ?thesis using that(1) r by (simp add: identify_sets_def)
  next
    case (Done p)
    obtain res run where p: "p = (res, run)" by (cases p)
    have meter: "ir_meter (ir_start ?d ws im_unmetered) = im_unmetered" by (simp add: ir_start_def)
    obtain out where out: "res = Inr out" "ws_inv (ir_ws run)"
        "query_outcome pa (bs_members x) (bs_members y) (id_start pa y x assign) out (ir_arena run)"
        "arena_inv (ir_arena run)"
      using rec start(2) unfolding Done p holds_simps step_ok_def run_ok_def meter refused_def
      by (auto split: sum.splits)
    note eff = effect_outcomeI[OF inv named q out(4,3)]
    note out' = out(3)[unfolded query_outcome_def id_start_def]
    have v: "bs_members (bs_full (admg_node_count (pa_admg pa))) = pa_nodes pa"
      by (simp add: bs_full pa_invD(3)[OF inv])
    show ?thesis
    proof (cases out)
      case (IdExpr e)
      then show ?thesis
        using that(2)[OF _ out(2)] eff r Done p out(1) out' v by (simp add: identify_sets_def effect_outcome_def)
    next
      case (IdFail c)
      with eff obtain hp where hp: "hp_capture pa x y = Done (Inr hp)"
          "hc_verify_carried (hc_with_problem c hp) = Done (Inr ())"
          "hedge (pa_admg pa) (pa_nodes pa) (bs_members x) (bs_members y) (set (hc_f_dense c)) (set (hc_f_prime_dense c))"
        by (auto simp: effect_outcome_def)
      show ?thesis
        by (rule that(3)[OF _ out(2) hp]) (use IdFail hp(1) r Done p out(1) in \<open>simp add: identify_sets_def\<close>)
    qed
  qed (use rec in simp_all)
qed

section \<open>Queries the witnesses run on\<close>

text \<open>The set of the listed nodes among \<open>n\<close>.\<close>

definition listed_nodes :: "nat \<Rightarrow> nat list \<Rightarrow> bitset" where
  "listed_nodes n xs = fold (\<lambda>i b. case bs_insert b i of Some b' \<Rightarrow> b' | None \<Rightarrow> b) xs (bs_with_len n)"

lemma listed_nodes:
  "\<forall>i \<in> set xs. i < n \<Longrightarrow> nodes_in n (listed_nodes n xs) \<and> bs_members (listed_nodes n xs) = set xs"
proof (induction xs rule: rev_induct)
  case (snoc i xs)
  then obtain b where "bs_insert (listed_nodes n xs) i = Some b" "nodes_in n b"
      "bs_members b = insert i (bs_members (listed_nodes n xs))"
    using nodes_in_insert[of n "listed_nodes n xs" i] by auto
  then show ?case using snoc by (simp add: listed_nodes_def)
qed (simp add: listed_nodes_def nodes_in_empty)

text \<open>The prepared form of a stored graph whose nodes are its first variables.\<close>

definition prepared :: "admg \<Rightarrow> prepared_admg" where
  "prepared a = \<lparr>pa_admg = a, pa_declared_assumptions = [],
     pa_var_index = index_variables (admg_nodes a) [0..<admg_node_count a] (\<lambda>_. None),
     pa_topo = (case admg_topological_order a of Some (Some topo) \<Rightarrow> topo | _ \<Rightarrow> [])\<rparr>"

lemma prepared_graph:
  assumes "admg_inv a" "admg_node_count a = n" "n \<le> u32_max" "admg_nodes a = map Static [0..<n]"
  shows "pa_new a = Done (Inr (prepared a))" "pa_inv (prepared a)" "pa_named (prepared a)" "pa_count (prepared a) = n"
proof -
  obtain pa where pa: "pa_new a = Done (Inr pa)" "pa_inv pa" "pa_admg pa = a"
    using pa_with_assumptions_spec[of a "[]"] assms by (auto simp: pa_new_def)
  have "admg_validate a = Some (Inr ())" by (rule admg_validate_ok) (use assms in \<open>simp add: wf_simps\<close>)
  then have eq: "pa = prepared a"
    using pa(1) by (auto simp: pa_new_def pa_with_assumptions_def prepared_def split: option.splits if_splits)
  show "pa_new a = Done (Inr (prepared a))" "pa_inv (prepared a)" using pa eq by simp_all
  show c: "pa_count (prepared a) = n" using assms by (simp add: pa_count_def prepared_def)
  have "pa_dense_to_var (prepared a) i = Inr i" if "i < n" for i
    unfolding pa_dense_to_var_iff using that assms by (simp add: prepared_def node_variable_id_def)
  then show "pa_named (prepared a)"
    unfolding pa_named_iff[OF \<open>pa_inv (prepared a)\<close>] c by (intro exI[of _ "\<lambda>i. i"]) simp
qed

definition bow_arc :: admg where
  "bow_arc = admg_of_edges 2 [(0, 1)] 0 1"

lemma bow_arc: "admg_inv bow_arc" "admg_node_count bow_arc = 2" "admg_nodes bow_arc = map Static [0..<2]"
    "admg_rel bow_arc = {(0, 1)}" "admg_bi bow_arc = {(0, 1), (1, 0)}"
  using admg_of_edges[of 2 "[(0, 1)]" 0 1] by (simp_all add: bow_arc_def id_space_def)

lemmas bow_prepared = prepared_graph[OF bow_arc(1,2) _ bow_arc(3)]
lemmas chain_prepared = prepared_graph[OF confounded_chain(1,2) _ confounded_chain(3)]

section \<open>General identification\<close>

text \<open>C1: on a prepared graph with distinct variables the ID algorithm returns (no panic, no endless
  recursion; only the 32-bit id space of the arena can run out). It refuses exactly the queries without
  an outcome or with an outcome that is intervened on. Otherwise it either returns one functional whose
  value in every positive semi-Markovian model of the graph is the law of the outcomes under the
  intervention, or it reports the query as not identified with a certificate whose node sets form a
  hedge for the query and which verifies from the problem it carries.\<close>

theorem identify_sets_correct:
  assumes "pa_inv pa" "pa_named pa" "query_sets_ok pa y x assign" "ws_inv ws"
  shows "holds (\<lambda>(r, ws'). ws_inv ws' \<and> (case r of
      Inl e \<Rightarrow> (bs_members y = {} \<or> bs_members y \<inter> bs_members x \<noteq> {}) \<and> (\<exists>msg. e = UnsupportedQuery msg)
    | Inr res \<Rightarrow> bs_members y \<noteq> {} \<and> bs_members y \<inter> bs_members x = {} \<and> rs_query res = query \<and>
        (rs_status res = NonparametricallyIdentified \<and> rs_hedge res = None \<and>
           (\<exists>e. rs_estimands res = [general_id_estimand e] \<and>
              identifies_effect pa (bs_members x) (bs_members y) assign (rs_arena res) e) \<or>
         rs_status res = NotIdentified \<and> rs_estimands res = [] \<and>
           (\<exists>hc hp. rs_hedge res = Some hc \<and> hp_capture pa x y = Done (Inr hp) \<and> hc_problem hc = Some hp \<and>
              hedge (pa_admg pa) (pa_nodes pa) (bs_members x) (bs_members y)
                (set (hc_f_dense hc)) (set (hc_f_prime_dense hc)) \<and>
              hc_verify_carried hc = Done (Inr ())))))
    (identify_sets pa y x query ws assign)"
proof (rule require_disjoint_cases[OF query_sets_okD(1)[OF assms(3)] pa_invD(2)[OF assms(1)], of x])
  fix msg assume "require_disjoint y x = Done (Inl (UnsupportedQuery msg))"
    "bs_members y = {} \<or> bs_members y \<inter> bs_members x \<noteq> {}"
  then show ?thesis using assms(4) by (simp add: identify_sets_def)
next
  assume r: "require_disjoint y x = Done (Inr ())"
    and ok: "bs_members y \<noteq> {}" "bs_members y \<inter> bs_members x = {}"
  have carried: "hc_f_dense (hc_with_problem c hp) = hc_f_dense c" "hc_problem (hc_with_problem c hp) = Some hp"
    "hc_f_prime_dense (hc_with_problem c hp) = hc_f_prime_dense c" for c hp by (simp_all add: hc_with_problem_def)
  show ?thesis
    by (rule identify_sets_outcome[OF assms r, of query])
      (use ok in \<open>auto simp: rs_identified_def not_identified_with_hedge_def rs_not_identified_hedge_def carried\<close>)
qed

lemma identify_chain_runs:
  "(case identify_sets (prepared confounded_chain) (listed_nodes 3 [1]) (listed_nodes 3 [0]) () ws_default [] of
      Done (Inr res, ws) \<Rightarrow> rs_status res = NonparametricallyIdentified \<and> map ie_functional (rs_estimands res) = [0] \<and>
        ar_nodes (rs_arena res) = [Distribution 0 1 0 Observational 0 None] \<and>
        ar_var_sets (rs_arena res) = [[1], [0]] \<and> ar_interventions (rs_arena res) = [[]]
    | _ \<Rightarrow> False)"
  by code_simp

theorem identify_sets_correct_witness:
  "\<exists>res ws'. identify_sets (prepared confounded_chain) (listed_nodes 3 [1]) (listed_nodes 3 [0]) () ws_default [] =
      Done (Inr res, ws') \<and> rs_status res = NonparametricallyIdentified \<and>
      ar_nodes (rs_arena res) = [Distribution 0 1 0 Observational 0 None] \<and>
      identifies_effect (prepared confounded_chain) {0} {1} [] (rs_arena res) 0"
proof -
  let ?pa = "prepared confounded_chain"
  have small: "(3 :: nat) \<le> u32_max" by (simp add: u32_max_def)
  note pa = chain_prepared[OF small]
  have sets: "nodes_in 3 (listed_nodes 3 [0])" "bs_members (listed_nodes 3 [0]) = {0}"
    "nodes_in 3 (listed_nodes 3 [1])" "bs_members (listed_nodes 3 [1]) = {1}"
    using listed_nodes[of "[0]" 3] listed_nodes[of "[1]" 3] by simp_all
  have q: "query_sets_ok ?pa (listed_nodes 3 [1]) (listed_nodes 3 [0]) []"
    using sets pa(4) by (simp add: query_sets_ok_def)
  obtain res ws' where run: "identify_sets ?pa (listed_nodes 3 [1]) (listed_nodes 3 [0]) () ws_default [] = Done (Inr res, ws')"
      "rs_status res = NonparametricallyIdentified" "map ie_functional (rs_estimands res) = [0]"
      "ar_nodes (rs_arena res) = [Distribution 0 1 0 Observational 0 None]"
    using identify_chain_runs by (auto split: run.splits sum.splits prod.splits)
  have "rs_status res \<noteq> NotIdentified" using run(2) by simp
  then obtain e where e: "rs_estimands res = [general_id_estimand e]" "identifies_effect ?pa {0} {1} [] (rs_arena res) e"
    using identify_sets_correct[OF pa(2,3) q ws_default_inv, of "()", unfolded run(1) holds_simps prod.case sum.case sets(2,4)]
    by blast
  then have "e = 0" using run(3) by (simp add: general_id_estimand_def ie_new_def)
  with run e show ?thesis by blast
qed

text \<open>C11: the metered entry point does the same under a caller's charge, unless the 32-bit id space of the arena
  runs out. A query without an outcome, or with one that is intervened on, is refused before the charge is asked.
  Any other query is charged at least once; the call ends with an error exactly as the charge returned it, from a
  state it reached by granting every call before, or, when every call was granted, with the functional
  of the effect or a hedge that verifies. The caller gets back the state the last charge left.\<close>

theorem identify_metered_correct:
  assumes "pa_inv pa" "pa_named pa" "query_sets_ok pa y x []" "ws_inv ws"
  shows "holds (\<lambda>(r, ws', c'). ws_inv ws' \<and> (case r of
      Inl e \<Rightarrow>
        (bs_members y = {} \<or> bs_members y \<inter> bs_members x \<noteq> {}) \<and> (\<exists>msg. e = UnsupportedQuery msg) \<and> c' = c \<or>
        bs_members y \<noteq> {} \<and> bs_members y \<inter> bs_members x = {} \<and>
          (\<exists>depth bytes c1. (c, c1) \<in> (granted charge)\<^sup>* \<and> charge depth bytes c1 = (Inl e, c'))
    | Inr out \<Rightarrow> bs_members y \<noteq> {} \<and> bs_members y \<inter> bs_members x = {} \<and> (c, c') \<in> (granted charge)\<^sup>+ \<and>
        (case out of
           MeteredIdentified a e \<Rightarrow> identifies_effect pa (bs_members x) (bs_members y) [] a e
         | MeteredHedge hc \<Rightarrow>
             hedge (pa_admg pa) (pa_nodes pa) (bs_members x) (bs_members y)
               (set (hc_f_dense hc)) (set (hc_f_prime_dense hc)) \<and>
             hc_verify_carried hc = Done (Inr ()))))
    (identify_interventional_metered pa y x ws charge c)" (is "holds ?P _")
proof (rule require_disjoint_cases[OF query_sets_okD(1)[OF assms(3)] pa_invD(2)[OF assms(1)], of x])
  fix msg assume "require_disjoint y x = Done (Inl (UnsupportedQuery msg))"
    "bs_members y = {} \<or> bs_members y \<inter> bs_members x \<noteq> {}"
  then show ?thesis using assms(4) by (simp add: identify_interventional_metered_def)
next
  assume r: "require_disjoint y x = Done (Inr ())"
    and disj: "bs_members y \<noteq> {}" "bs_members y \<inter> bs_members x = {}"
  let ?m = "\<lparr>im_charge = Some charge, im_state = c, im_depth = 0\<rparr>"
  have meter: "ir_meter (ir_start [] ws ?m) = ?m" by (simp add: ir_start_def)
  let ?R = "\<lambda>p. step_ok pa (bs_members x) (bs_members y) (ir_start [] ws ?m)
      (query_outcome pa (bs_members x) (bs_members y) (id_start pa y x [])) p \<and> asked ?m p"
  have rec: "holds ?R (id_recurse (id_fuel pa) pa (id_start pa y x []) (ir_start [] ws ?m))"
    by (rule id_recurse_start[OF assms r]) simp
  have carried: "hc_f_dense (hc_with_problem c hp) = hc_f_dense c"
    "hc_f_prime_dense (hc_with_problem c hp) = hc_f_prime_dense c" for c hp by (simp_all add: hc_with_problem_def)
  show ?thesis
    unfolding identify_interventional_metered_def r run_bind.simps sum.case
  proof (rule holds_bind[OF rec])
    fix p assume p: "?R p"
    obtain res run where p_eq: "p = (res, run)" by (cases p)
    have ok: "ws_inv (ir_ws run)" "\<And>e. res = Inl e \<Longrightarrow> \<exists>depth bytes c1. (c, c1) \<in> (granted charge)\<^sup>* \<and>
          charge depth bytes c1 = (Inl e, im_state (ir_meter run))"
      "\<And>out. res = Inr out \<Longrightarrow> (c, im_state (ir_meter run)) \<in> (granted charge)\<^sup>+ \<and>
          effect_outcome pa x y [] out (ir_arena run)"
      using p effect_outcomeI[OF assms(1-3)] unfolding p_eq step_ok_def meter
      by (auto simp: run_ok_def refused_def asked_def)
    show "holds ?P
      (case p of (r, run) \<Rightarrow> let rest = (ir_ws run, im_state (ir_meter run)) in case r of
            Inl e \<Rightarrow> Done (Inl e, rest)
          | Inr (IdExpr e) \<Rightarrow> Done (Inr (MeteredIdentified (ir_arena run) e), rest)
          | Inr (IdFail hc) \<Rightarrow>
              run_bind (hp_capture pa x y) (\<lambda>p. Done (case p of
                  Inl e \<Rightarrow> Inl e
                | Inr hp \<Rightarrow> Inr (MeteredHedge (hc_with_problem hc hp)), rest)))"
    proof (cases res)
      case (Inr out)
      then show ?thesis using ok disj by (cases out) (auto simp: p_eq effect_outcome_def carried)
    qed (use ok disj in \<open>simp add: p_eq\<close>)
  qed
qed

lemma identify_bow_runs:
  "(case identify_interventional_metered (prepared bow_arc) (listed_nodes 2 [1]) (listed_nodes 2 [0]) ws_default
        (\<lambda>depth bytes _. (Inr (), ())) () of
      Done (Inr (MeteredHedge hc), ws, _) \<Rightarrow> hc_f_dense hc = [0, 1] \<and> hc_f_prime_dense hc = [1]
    | _ \<Rightarrow> False)"
  by code_simp

theorem identify_metered_correct_witness:
  "\<exists>hc ws'. identify_interventional_metered (prepared bow_arc) (listed_nodes 2 [1]) (listed_nodes 2 [0]) ws_default
        (\<lambda>depth bytes _. (Inr (), ())) () = Done (Inr (MeteredHedge hc), ws', ()) \<and>
      hedge bow_arc {..<2} {0} {1} {0, 1} {1} \<and> hc_verify_carried hc = Done (Inr ())"
proof -
  have small: "(2 :: nat) \<le> u32_max" by (simp add: u32_max_def)
  note pa = bow_prepared[OF small]
  have sets: "nodes_in 2 (listed_nodes 2 [0])" "bs_members (listed_nodes 2 [0]) = {0}"
    "nodes_in 2 (listed_nodes 2 [1])" "bs_members (listed_nodes 2 [1]) = {1}"
    using listed_nodes[of "[0]" 2] listed_nodes[of "[1]" 2] by simp_all
  have q: "query_sets_ok (prepared bow_arc) (listed_nodes 2 [1]) (listed_nodes 2 [0]) []"
    using sets pa(4) by (simp add: query_sets_ok_def)
  have admg: "pa_admg (prepared bow_arc) = bow_arc" by (simp add: prepared_def)
  obtain hc ws' where run: "identify_interventional_metered (prepared bow_arc) (listed_nodes 2 [1]) (listed_nodes 2 [0]) ws_default
        (\<lambda>depth bytes _. (Inr (), ())) () = Done (Inr (MeteredHedge hc), ws', ())"
      "hc_f_dense hc = [0, 1]" "hc_f_prime_dense hc = [1]"
    using identify_bow_runs by (auto split: run.splits) (auto split: sum.splits metered_id.splits)
  show ?thesis
    using identify_metered_correct[OF pa(2,3) q ws_default_inv, where charge = "\<lambda>depth bytes _. (Inr (), ())" and c = "()"]
      run sets pa(4) admg by auto
qed

section \<open>Hedge certificates\<close>

lemma insert_variables_unknown:
  assumes "pa_inv pa" "nodes_in (pa_count pa) acc" "\<exists>v \<in> set vs. \<forall>i. pa_var_to_dense pa v \<noteq> Inr i"
  shows "\<exists>v. insert_variables pa vs acc = Done (Inl (UnknownVariable v))"
  using assms(2,3)
proof (induction vs arbitrary: acc)
  case (Cons v vs)
  show ?case
  proof (cases "pa_var_to_dense pa v")
    case (Inl e)
    then show ?thesis by (auto simp: pa_var_to_dense_def split: option.splits)
  next
    case (Inr i)
    then have "i < pa_count pa" using pa_var_to_dense_spec[OF assms(1)] by blast
    then obtain b where b: "bs_insert acc i = Some b" "nodes_in (pa_count pa) b"
      using nodes_in_insert[OF Cons.prems(1)] by blast
    with Cons Inr show ?thesis by auto
  qed
qed simp

text \<open>C2: verifying a certificate against a graph always answers, and accepts exactly when its node lists
  name nodes of the graph by their variables, every treatment and outcome is a variable of the graph,
  and the two node sets are a hedge for them: two C-forests with the same roots among the ancestors of
  the outcomes, one inside the other, the larger meeting the treatments and the smaller avoiding them.\<close>

theorem hedge_verification_correct:
  assumes "pa_inv pa"
  shows "\<exists>r. hc_verify hc pa ts os = Done r \<and> (r = Inr () \<longleftrightarrow>
    names_nodes pa (hc_f_dense hc) (hc_f hc) \<and> names_nodes pa (hc_f_prime_dense hc) (hc_f_prime hc) \<and>
    (\<forall>v \<in> set ts \<union> set os. \<exists>i. pa_var_to_dense pa v = Inr i) \<and>
    hedge (pa_admg pa) {..<pa_count pa} (dense_of_vars pa ts) (dense_of_vars pa os)
      (set (hc_f_dense hc)) (set (hc_f_prime_dense hc)))"
proof (cases "\<forall>v \<in> set ts \<union> set os. \<exists>i. pa_var_to_dense pa v = Inr i")
  case True
  then show ?thesis using hc_verify_spec[OF assms True] by auto
next
  case False
  obtain r1 where r1: "hedge_to_set pa (hc_f_dense hc) (hc_f hc) = Done r1"
    using hedge_to_set_spec[of pa "hc_f_dense hc" "hc_f hc"] by (auto split: if_splits)
  obtain r2 where r2: "hedge_to_set pa (hc_f_prime_dense hc) (hc_f_prime hc) = Done r2"
    using hedge_to_set_spec[of pa "hc_f_prime_dense hc" "hc_f_prime hc"] by (auto split: if_splits)
  have refuse: "(\<exists>v. insert_variables pa ts (bs_with_len (pa_count pa)) = Done (Inl (UnknownVariable v))) \<or>
      (\<exists>b v. insert_variables pa ts (bs_with_len (pa_count pa)) = Done (Inr b) \<and>
        insert_variables pa os (bs_with_len (pa_count pa)) = Done (Inl (UnknownVariable v)))"
  proof (cases "\<forall>v \<in> set ts. \<exists>i. pa_var_to_dense pa v = Inr i")
    case True
    with False insert_variables_spec[OF assms nodes_in_empty(1) True]
      insert_variables_unknown[OF assms nodes_in_empty(1), of os] show ?thesis by auto
  next
    case False
    then show ?thesis using insert_variables_unknown[OF assms nodes_in_empty(1), of ts] by auto
  qed
  have "\<exists>e. hc_verify hc pa ts os = Done (Inl e)"
    using refuse by (cases r1; cases r2) (auto simp: hc_verify_def r1 r2 Let_def simp flip: pa_count_def)
  with False show ?thesis by auto
qed

theorem hedge_verification_correct_witness:
  "\<exists>r. hc_verify \<lparr>hc_f = [0, 1], hc_f_prime = [1], hc_f_dense = [0, 1], hc_f_prime_dense = [1], hc_problem = None\<rparr>
      (prepared bow_arc) [7] [1] = Done r \<and> r \<noteq> Inr ()"
proof -
  have small: "(2 :: nat) \<le> u32_max" by (simp add: u32_max_def)
  note pa = bow_prepared[OF small]
  have "pa_var_to_dense (prepared bow_arc) 7 \<noteq> Inr i" for i
  proof
    assume i: "pa_var_to_dense (prepared bow_arc) 7 = Inr i"
    then have "i < 2" "pa_dense_to_var (prepared bow_arc) i = Inr 7"
      using pa_var_to_dense_spec[OF pa(2)] pa(4) by auto
    then show False by (auto simp: pa_dense_to_var_iff prepared_def bow_arc node_variable_id_def)
  qed
  with hedge_verification_correct[OF pa(2), where ts = "[7]" and os = "[1]"
      and hc = "\<lparr>hc_f = [0, 1], hc_f_prime = [1], hc_f_dense = [0, 1], hc_f_prime_dense = [1], hc_problem = None\<rparr>"]
  show ?thesis by auto
qed

text \<open>C14: the problem captured from a graph always rebuilds it, so a certificate made from two node sets of
  the graph verifies from what it carries exactly when the sets are a hedge of the graph.\<close>

theorem carried_certificate_verifies:
  assumes "pa_inv pa" "pa_named pa" "nodes_in (pa_count pa) x" "nodes_in (pa_count pa) y"
    and "nodes_in (pa_count pa) f" "nodes_in (pa_count pa) f'"
  shows "\<exists>hc hp r. hc_from_sets f f' (pa_var pa) = Some hc \<and> hp_capture pa x y = Done (Inr hp) \<and>
    hc_verify_carried (hc_with_problem hc hp) = Done r \<and>
    (r = Inr () \<longleftrightarrow> hedge (pa_admg pa) {..<pa_count pa} (bs_members x) (bs_members y) (bs_members f) (bs_members f'))"
proof -
  obtain hp where "hp_capture pa x y = Done (Inr hp)" using hp_capture_spec[OF assms(1-4)] by blast
  with hc_verify_carried_spec[OF assms this] show ?thesis by blast
qed

theorem carried_certificate_verifies_witness:
  "\<exists>hc hp r. hc_from_sets (listed_nodes 2 [0]) (listed_nodes 2 [1]) (pa_var (prepared bow_arc)) = Some hc \<and>
    hp_capture (prepared bow_arc) (listed_nodes 2 [0]) (listed_nodes 2 [1]) = Done (Inr hp) \<and>
    hc_verify_carried (hc_with_problem hc hp) = Done r \<and> r \<noteq> Inr ()"
proof -
  have small: "(2 :: nat) \<le> u32_max" by (simp add: u32_max_def)
  note pa = bow_prepared[OF small]
  have sets: "nodes_in (pa_count (prepared bow_arc)) (listed_nodes 2 [0])" "bs_members (listed_nodes 2 [0]) = {0}"
    "nodes_in (pa_count (prepared bow_arc)) (listed_nodes 2 [1])" "bs_members (listed_nodes 2 [1]) = {1}"
    using listed_nodes[of "[0]" 2] listed_nodes[of "[1]" 2] pa(4) by simp_all
  have "\<not> hedge (pa_admg (prepared bow_arc)) {..<2} {0} {1} {0} {1}" by (auto simp: hedge_def)
  with carried_certificate_verifies[OF pa(2,3) sets(1,3) sets(1,3)] show ?thesis
    unfolding sets(2,4) pa(4) by blast
qed

section \<open>Expressions\<close>

text \<open>C15: interning a node into a well-formed arena keeps the arena well-formed and every earlier
  expression as it was; the returned id stands for the node's expression and is the only id that does,
  so equal expressions have equal ids. It fails only when the node is new and the table already holds as many
  entries as there are 32-bit ids.\<close>

theorem interning_is_canonical:
  assumes "arena_inv a" "node_ok a (length (ar_nodes a)) n"
  shows "holds (\<lambda>(i, b). arena_inv b \<and> i < length (ar_nodes b) \<and> tree_of b i = node_view a (tree_of a) n \<and>
      (\<forall>j < length (ar_nodes b). tree_of b j = tree_of b i \<longrightarrow> j = i) \<and>
      (\<forall>j < length (ar_nodes a). j < length (ar_nodes b) \<and> tree_of b j = tree_of a j)) (ar_intern a n) \<and>
    (ar_intern a n = NoIds \<longleftrightarrow> n \<notin> set (ar_nodes a) \<and> length (ar_nodes a) = id_space)"
proof
  show "holds (\<lambda>(i, b). arena_inv b \<and> i < length (ar_nodes b) \<and> tree_of b i = node_view a (tree_of a) n \<and>
      (\<forall>j < length (ar_nodes b). tree_of b j = tree_of b i \<longrightarrow> j = i) \<and>
      (\<forall>j < length (ar_nodes a). j < length (ar_nodes b) \<and> tree_of b j = tree_of a j)) (ar_intern a n)"
  proof (rule holds_mono[OF ar_intern_tree[OF assms]], clarify, intro conjI allI impI)
    fix i b j assume b: "grows a b" "i < length (ar_nodes b)"
    show "arena_inv b" using growsD[OF b(1)] by blast
    then show "j = i" if "j < length (ar_nodes b)" "tree_of b j = tree_of b i"
      using tree_of_inj that b(2) by blast
    show "j < length (ar_nodes b)" "tree_of b j = tree_of a j" if "j < length (ar_nodes a)"
      using grows_length[OF b(1) that] grows_tree[OF assms(1) b(1) b(1) that] by simp_all
  qed
  note pool = arena_invD(1)[OF assms(1)]
  have "ar_intern a n = NoIds \<longleftrightarrow> intern_key (ar_nodes a) (ar_node_index a) n = NoIds"
    by (cases "intern_key (ar_nodes a) (ar_node_index a) n") (auto simp: ar_intern_def)
  moreover have "n \<notin> set (ar_nodes a)" if "ar_node_index a n = None" by (rule pool_inv_miss[OF pool that])
  moreover have "n \<in> set (ar_nodes a)" if "ar_node_index a n = Some i" for i
    using pool that by (auto simp: pool_inv_def)
  ultimately show "ar_intern a n = NoIds \<longleftrightarrow> n \<notin> set (ar_nodes a) \<and> length (ar_nodes a) = id_space"
    using pool by (cases "ar_node_index a n") (auto simp: intern_key_no_ids pool_inv_def)
qed

theorem interning_is_canonical_witness:
  "\<exists>a. ar_intern_list ar_new [] = Done (0, a) \<and>
    holds (\<lambda>(i, b). arena_inv b \<and> i < length (ar_nodes b) \<and> tree_of b i = TProduct []) (ar_intern a (Product 0))"
proof -
  obtain a where a: "ar_intern_list ar_new [] = Done (0, a)" "ar_lists a = [[]]"
    by (simp add: ar_intern_list_def ar_new_def intern_key_def id_space_def)
  have inv: "arena_inv a" using ar_intern_list_spec[OF arena_inv_new, of "[]"] a(1) growsD by auto
  have ok: "node_ok a (length (ar_nodes a)) (Product 0)" using a(2) by simp
  show ?thesis
    using conjunct1[OF interning_is_canonical[OF inv ok]] a
    by (intro exI[of _ a] conjI a(1)) (elim holds_mono, auto simp: row_def)
qed

lemma interning_assignments_no_ids:
  assumes "arena_inv a"
  shows "ar_try_intern_intervention_assignments a asgs = NoIds \<longleftrightarrow>
       inj_on ia_variable (set asgs) \<and> length (ar_interventions a) = id_space \<and>
       set asgs \<notin> set ` set (ar_interventions a)"
proof (cases "merge_assignments [] (sort_key ia_variable asgs)")
  case (Inl e)
  then have "\<not> inj_on ia_variable (set asgs)"
    using merge_assignments_complete[of "[]" "sort_key ia_variable asgs"] by auto
  with Inl show ?thesis by (simp add: ar_try_intern_intervention_assignments_def)
next
  case (Inr v)
  note pool = arena_invD(3)[OF assms]
  have v: "sorted (map ia_variable v)" "distinct (map ia_variable v)" "set v = set asgs"
    using merge_assignments_sound[OF Inr] by simp_all
  then have inj: "inj_on ia_variable (set asgs)" by (simp add: distinct_map)
  have row: "row = v" if "row \<in> set (ar_interventions a)" "set row = set asgs" for row
  proof (rule map_sorted_distinct_set_unique[where f = ia_variable])
    obtain k where "k < length (ar_interventions a)" "row = ar_interventions a ! k"
      using \<open>row \<in> set (ar_interventions a)\<close> by (auto simp: in_set_conv_nth)
    then show "sorted (map ia_variable row)" "distinct (map ia_variable row)" using arena_invD(8)[OF assms] by auto
  qed (use that(2) v inj in simp_all)
  have new: "set asgs \<notin> set ` set (ar_interventions a) \<longleftrightarrow> v \<notin> set (ar_interventions a)"
    using row v(3) by blast
  have "ar_try_intern_intervention_assignments a asgs = NoIds \<longleftrightarrow>
      intern_key (ar_interventions a) (ar_intervention_index a) v = NoIds"
    by (cases "intern_key (ar_interventions a) (ar_intervention_index a) v")
      (auto simp: ar_try_intern_intervention_assignments_def Inr)
  also have "\<dots> \<longleftrightarrow> v \<notin> set (ar_interventions a) \<and> length (ar_interventions a) = id_space"
  proof (cases "ar_intervention_index a v")
    case None
    then show ?thesis using pool_inv_miss[OF pool None] pool by (auto simp: intern_key_no_ids pool_inv_def)
  next
    case (Some k)
    then have "v \<in> set (ar_interventions a)" using pool by (auto simp: pool_inv_def)
    with Some show ?thesis by (simp add: intern_key_no_ids)
  qed
  finally show ?thesis unfolding new using inj by blast
qed

text \<open>C16: interning a list of interventions is refused, as a conflict and without changing
  the arena, exactly when some variable is given two different values; otherwise the entry holds
  exactly the given assignments, sorted, each variable once. It panics only when those are a new entry and the table
  already holds as many entries as there are 32-bit ids, and always then.\<close>

theorem interning_assignments_correct:
  assumes "arena_inv a"
  shows "holds (\<lambda>(r, b). arena_inv b \<and> (case r of
      Inl e \<Rightarrow> e = CaptureOrConflict \<and> b = a \<and> \<not> inj_on ia_variable (set asgs)
    | Inr i \<Rightarrow> inj_on ia_variable (set asgs) \<and> i < length (ar_interventions b) \<and>
        set (ar_interventions b ! i) = set asgs \<and> sorted (map ia_variable (ar_interventions b ! i)) \<and>
        distinct (map ia_variable (ar_interventions b ! i))))
    (ar_try_intern_intervention_assignments a asgs) \<and>
    (ar_try_intern_intervention_assignments a asgs = NoIds \<longleftrightarrow>
       inj_on ia_variable (set asgs) \<and> length (ar_interventions a) = id_space \<and>
       set asgs \<notin> set ` set (ar_interventions a))"
proof
  show "ar_try_intern_intervention_assignments a asgs = NoIds \<longleftrightarrow>
       inj_on ia_variable (set asgs) \<and> length (ar_interventions a) = id_space \<and>
       set asgs \<notin> set ` set (ar_interventions a)"
    by (rule interning_assignments_no_ids[OF assms])
  show "holds (\<lambda>(r, b). arena_inv b \<and> (case r of
      Inl e \<Rightarrow> e = CaptureOrConflict \<and> b = a \<and> \<not> inj_on ia_variable (set asgs)
    | Inr i \<Rightarrow> inj_on ia_variable (set asgs) \<and> i < length (ar_interventions b) \<and>
        set (ar_interventions b ! i) = set asgs \<and> sorted (map ia_variable (ar_interventions b ! i)) \<and>
        distinct (map ia_variable (ar_interventions b ! i))))
    (ar_try_intern_intervention_assignments a asgs)"
    by (rule holds_mono[OF ar_try_intern_assignments_spec[OF assms]])
      (auto simp: grows_def distinct_map split: sum.splits)
qed

theorem interning_assignments_correct_witness:
  "\<exists>r. ar_try_intern_intervention_assignments ar_new [ia_concrete 3 (BoolVal True), ia_concrete 3 (BoolVal False)] =
      Done (Inl CaptureOrConflict, r) \<and> r = ar_new"
proof -
  let ?asgs = "[ia_concrete 3 (BoolVal True), ia_concrete 3 (BoolVal False)]"
  have "\<not> inj_on ia_variable (set ?asgs)" by (simp add: inj_on_def ia_concrete_def)
  moreover obtain r b where run: "ar_try_intern_intervention_assignments ar_new ?asgs = Done (r, b)"
    by (simp add: ar_try_intern_intervention_assignments_def ia_concrete_def)
  ultimately show ?thesis
    using interning_assignments_correct[OF arena_inv_new, of ?asgs] by (cases r) simp_all
qed

end
