(* ===== verification/Expr_Walk.thy ===== *)
theory Expr_Walk
  imports Expr_Trees
begin

text \<open>
  Walks over the arena: the memoised fold of \<open>walk.rs\<close>, and \<open>import\<close> of \<open>lib.rs\<close>, which copies an
  expression into another arena. \<open>fold_expr_spec\<close> says that a fold whose step computes a function of
  the unfolded expression returns that function, whatever the memo already holds;
  \<open>ar_import_spec\<close> that the copy unfolds to the original expression.
\<close>

section \<open>The fold\<close>

text \<open>The recursion of the code has no fuel; children come before their parents, so \<open>id + 1\<close> is enough.\<close>

fun fold_expr ::
  "nat \<Rightarrow> expr_arena \<Rightarrow> (expr_arena \<Rightarrow> expr_id \<Rightarrow> 'v list \<Rightarrow> 'v run) \<Rightarrow> expr_id \<Rightarrow> (expr_id \<Rightarrow> 'v option) \<Rightarrow>
    ('v \<times> (expr_id \<Rightarrow> 'v option)) run" where
  "fold_expr 0 a step i memo = Timeout"
| "fold_expr (Suc fuel) a step i memo =
     (case memo i of
        Some cached \<Rightarrow> Done (cached, memo)
      | None \<Rightarrow>
          run_bind (ar_child_ids a i) (\<lambda>children.
          run_bind (run_map (fold_expr fuel a step) children memo) (\<lambda>(child_values, memo).
          run_bind (step a i child_values) (\<lambda>v. Done (v, memo(i \<mapsto> v))))))"

lemma ar_child_ids_Done:
  assumes "arena_inv a" "i < length (ar_nodes a)"
  shows "ar_child_ids a i = Done (node_kids a (ar_nodes a ! i))"
  using arena_invD(6)[OF assms] assms(2)
  by (cases "ar_nodes a ! i") (auto simp: ar_child_ids_def ar_node_def ar_list_def row_def)

text \<open>The memo holds values of \<open>f\<close>, and what it held stays there.\<close>

definition fold_memo_ok :: "expr_arena \<Rightarrow> (expr_tree \<Rightarrow> 'v) \<Rightarrow> (expr_id \<Rightarrow> 'v option) \<Rightarrow> bool" where
  "fold_memo_ok a f memo \<longleftrightarrow> (\<forall>i v. memo i = Some v \<longrightarrow> i < length (ar_nodes a) \<and> v = f (tree_of a i))"

lemma fold_memo_ok_empty [simp]: "fold_memo_ok a f (\<lambda>_. None)"
  by (simp add: fold_memo_ok_def)

lemma fold_memo_ok_grows:
  assumes "fold_memo_ok a f memo" "arena_inv a" "grows a b"
  shows "fold_memo_ok b f memo"
  using assms(1) grows_length[OF assms(3)] grows_tree[OF assms(2,3,3)] by (auto simp: fold_memo_ok_def)

lemma fold_expr_spec:
  assumes inv: "arena_inv a"
    and step: "\<And>i. i < length (ar_nodes a) \<Longrightarrow>
      step a i (map (\<lambda>c. f (tree_of a c)) (node_kids a (ar_nodes a ! i))) = Done (f (tree_of a i))"
  shows "i < length (ar_nodes a) \<Longrightarrow> i < fuel \<Longrightarrow> fold_memo_ok a f memo \<Longrightarrow>
    \<exists>memo'. fold_expr fuel a step i memo = Done (f (tree_of a i), memo') \<and> fold_memo_ok a f memo'"
proof (induction fuel arbitrary: i memo)
  case (Suc fuel)
  let ?kids = "node_kids a (ar_nodes a ! i)"
  have kids: "c < i" if "c \<in> set ?kids" for c
    using node_ok_kids[OF arena_invD(6)[OF inv Suc.prems(1)] that] .
  have list: "\<exists>memo'. run_map (fold_expr fuel a step) cs memo = Done (map (\<lambda>c. f (tree_of a c)) cs, memo') \<and>
      fold_memo_ok a f memo'" if "set cs \<subseteq> set ?kids" "fold_memo_ok a f memo" for cs memo
    using that
  proof (induction cs arbitrary: memo)
    case (Cons c cs)
    have "c < i" using kids Cons.prems(1) by simp
    then obtain m1 where "fold_expr fuel a step c memo = Done (f (tree_of a c), m1)" "fold_memo_ok a f m1"
      using Suc.IH[of c memo] Suc.prems(1,2) Cons.prems(2) by auto
    with Cons.IH[of m1] Cons.prems(1) show ?case by auto
  qed simp
  show ?case
  proof (cases "memo i")
    case None
    obtain m1 where m1: "run_map (fold_expr fuel a step) ?kids memo = Done (map (\<lambda>c. f (tree_of a c)) ?kids, m1)"
        "fold_memo_ok a f m1"
      using list[OF subset_refl Suc.prems(3)] by blast
    then show ?thesis
      using None step[OF Suc.prems(1)] ar_child_ids_Done[OF inv Suc.prems(1)] Suc.prems(1)
      by (simp add: fold_memo_ok_def)
  qed (use Suc.prems(3) in \<open>simp add: fold_memo_ok_def\<close>)
qed simp

section \<open>Copying into another arena\<close>

text \<open>
  The stack has its top at the head; the ordered set of reached ids is a list that is sorted when it is
  iterated. \<open>None\<close> is a loop that never ends, which \<open>reach_loop_spec\<close> excludes.
\<close>

partial_function (option) reach_loop ::
  "expr_arena \<Rightarrow> expr_id list \<Rightarrow> expr_id list \<Rightarrow> expr_id list run option" where
  "reach_loop source stack reachable =
     (case stack of
        [] \<Rightarrow> Some (Done reachable)
      | i # rest \<Rightarrow>
          (if i \<in> set reachable then reach_loop source rest reachable
           else (case ar_child_ids source i of
                   Done children \<Rightarrow> reach_loop source (rev children @ rest) (i # reachable)
                 | NoIds \<Rightarrow> Some NoIds
                 | Abort \<Rightarrow> Some Abort
                 | Timeout \<Rightarrow> Some Timeout)))"

declare reach_loop.simps [code]

definition ar_import_var_set :: "expr_arena \<Rightarrow> var_set_id \<Rightarrow> expr_arena \<Rightarrow> (var_set_id \<times> expr_arena) run" where
  "ar_import_var_set source vs a = run_bind (ar_var_set source vs) (ar_intern_var_set a)"

text \<open>\<open>remap[c]\<close> panics for an id that was not copied.\<close>

definition remapped :: "(expr_id \<Rightarrow> expr_id option) \<Rightarrow> expr_id \<Rightarrow> expr_id run" where
  "remapped remap c = of_option (remap c)"

fun remapped_all :: "(expr_id \<Rightarrow> expr_id option) \<Rightarrow> expr_id list \<Rightarrow> expr_id list run" where
  "remapped_all remap [] = Done []"
| "remapped_all remap (c # cs) =
     run_bind (remapped remap c) (\<lambda>d. run_bind (remapped_all remap cs) (\<lambda>ds. Done (d # ds)))"

fun import_node ::
  "expr_arena \<Rightarrow> (expr_id \<Rightarrow> expr_id option) \<Rightarrow> expr_node \<Rightarrow> expr_arena \<Rightarrow> (expr_node \<times> expr_arena) run" where
  "import_node source remap (Distribution vs c iv d p r) a =
     run_bind (ar_import_var_set source vs a) (\<lambda>(vs', a).
     run_bind (ar_import_var_set source c a) (\<lambda>(c', a).
     run_bind (run_bind (ar_intervention_assignments source iv) (ar_intern_intervention_assignments a)) (\<lambda>(iv', a).
     run_bind (run_bind (ar_population source p) (ar_intern_population a)) (\<lambda>(p', a).
       Done (Distribution vs' c' iv' d p' r, a)))))"
| "import_node source remap (Kernel b vs p r) a =
     run_bind (remapped remap b) (\<lambda>b'.
     run_bind (ar_import_var_set source vs a) (\<lambda>(vs', a).
     run_bind (run_bind (ar_population source p) (ar_intern_population a)) (\<lambda>(p', a).
       Done (Kernel b' vs' p' r, a))))"
| "import_node source remap (Product l) a =
     run_bind (run_bind (ar_list source l) (remapped_all remap)) (\<lambda>children.
     run_bind (ar_intern_list a children) (\<lambda>(l', a). Done (Product l', a)))"
| "import_node source remap (SumOut vs e) a =
     run_bind (ar_import_var_set source vs a) (\<lambda>(vs', a).
     run_bind (remapped remap e) (\<lambda>e'. Done (SumOut vs' e', a)))"
| "import_node source remap (IntegralOut vs e) a =
     run_bind (ar_import_var_set source vs a) (\<lambda>(vs', a).
     run_bind (remapped remap e) (\<lambda>e'. Done (IntegralOut vs' e', a)))"
| "import_node source remap (Ratio x y) a =
     run_bind (remapped remap x) (\<lambda>x'. run_bind (remapped remap y) (\<lambda>y'. Done (Ratio x' y', a)))"
| "import_node source remap (Expectation f d) a =
     run_bind (remapped remap d) (\<lambda>d'. Done (Expectation f d', a))"
| "import_node source remap (Contrast x y p) a =
     run_bind (remapped remap x) (\<lambda>x'. run_bind (remapped remap y) (\<lambda>y'. Done (Contrast x' y' p, a)))"

fun import_nodes ::
  "expr_arena \<Rightarrow> expr_id list \<Rightarrow> (expr_id \<Rightarrow> expr_id option) \<Rightarrow> expr_arena \<Rightarrow>
    ((expr_id \<Rightarrow> expr_id option) \<times> expr_arena) run" where
  "import_nodes source [] remap a = Done (remap, a)"
| "import_nodes source (i # is) remap a =
     run_bind (ar_node source i) (\<lambda>n.
     run_bind (import_node source remap n a) (\<lambda>(n', a).
     run_bind (ar_intern a n') (\<lambda>(j, a). import_nodes source is (remap(i \<mapsto> j)) a)))"

definition import_meta :: "(expr_id \<Rightarrow> expr_id option) \<Rightarrow> derivation_meta \<Rightarrow> derivation_meta" where
  "import_meta remap meta =
     meta\<lparr>dm_input := Option.bind (dm_input meta) remap, dm_output := Option.bind (dm_output meta) remap,
          dm_parents := List.map_filter remap (dm_parents meta)\<rparr>"

fun import_derivations ::
  "expr_arena \<Rightarrow> (expr_id \<Rightarrow> expr_id option) \<Rightarrow> expr_id list \<Rightarrow> expr_arena \<Rightarrow> expr_arena run" where
  "import_derivations source remap [] a = Done a"
| "import_derivations source remap (i # is) a =
     (case ar_derivation_of source i of
        None \<Rightarrow> import_derivations source remap is a
      | Some meta \<Rightarrow>
          run_bind (remapped remap i) (\<lambda>j.
            import_derivations source remap is (ar_set_derivation_if_absent a j (import_meta remap meta))))"

definition ar_import :: "expr_arena \<Rightarrow> expr_id \<Rightarrow> expr_arena \<Rightarrow> (expr_id \<times> expr_arena) run" where
  "ar_import source root a =
     run_bind (case reach_loop source [root] [] of Some r \<Rightarrow> r | None \<Rightarrow> Timeout) (\<lambda>reachable.
       let ids = sort reachable in
       run_bind (import_nodes source ids (\<lambda>_. None) a) (\<lambda>(remap, a).
       run_bind (import_derivations source remap ids a) (\<lambda>a.
       run_bind (remapped remap root) (\<lambda>j. Done (j, a)))))"

section \<open>The copy\<close>

abbreviation kids_of :: "expr_arena \<Rightarrow> expr_id \<Rightarrow> expr_id set" where
  "kids_of a i \<equiv> set (node_kids a (ar_nodes a ! i))"

lemma reach_loop_spec:
  assumes inv: "arena_inv a"
  shows "set stack \<subseteq> {..<length (ar_nodes a)} \<Longrightarrow> set reachable \<subseteq> {..<length (ar_nodes a)} \<Longrightarrow> distinct reachable \<Longrightarrow>
    (\<forall>x \<in> set reachable. kids_of a x \<subseteq> set reachable \<union> set stack) \<Longrightarrow>
    \<exists>r. reach_loop a stack reachable = Some (Done r) \<and> set stack \<union> set reachable \<subseteq> set r \<and>
      set r \<subseteq> {..<length (ar_nodes a)} \<and> distinct r \<and> (\<forall>x \<in> set r. kids_of a x \<subseteq> set r)"
proof (induction "(stack, reachable)" arbitrary: stack reachable
    rule: wf_induct_rule[OF wf_measures, of "[\<lambda>(stack, reachable). length (ar_nodes a) - length reachable, \<lambda>(stack, reachable). length stack]"])
  case less: (1 stack reachable)
  let ?n = "length (ar_nodes a)"
  note IH = less(1)
  show ?case
  proof (cases stack)
    case Nil
    then show ?thesis using less(2-5) by (subst reach_loop.simps) simp
  next
    case (Cons i rest)
    show ?thesis
    proof (cases "i \<in> set reachable")
      case True
      have "reach_loop a stack reachable = reach_loop a rest reachable"
        by (subst reach_loop.simps) (simp add: Cons True)
      moreover obtain r where "reach_loop a rest reachable = Some (Done r)" "set rest \<union> set reachable \<subseteq> set r"
          "set r \<subseteq> {..<?n}" "distinct r" "\<forall>x \<in> set r. kids_of a x \<subseteq> set r"
        using IH[of rest reachable] less(2-5) Cons True insert_absorb[of i "set reachable \<union> set rest"] by auto
      ultimately show ?thesis using True Cons by auto
    next
      case False
      have i: "i < ?n" using less(2) Cons by simp
      have kids: "kids_of a i \<subseteq> {..<?n}"
      proof
        fix c assume "c \<in> kids_of a i"
        then have "c < i" by (rule node_ok_kids[OF arena_invD(6)[OF inv i]])
        then show "c \<in> {..<?n}" using i by simp
      qed
      have "card (set (i # reachable)) \<le> card {..<?n}" by (rule card_mono) (use less(3) i in auto)
      then have shorter: "?n - length (i # reachable) < ?n - length reachable"
        using False less(4) by (simp add: distinct_card)
      have closed: "\<forall>x \<in> set (i # reachable). kids_of a x \<subseteq>
          set (i # reachable) \<union> set (rev (node_kids a (ar_nodes a ! i)) @ rest)"
        using less(5) Cons by fastforce
      have "reach_loop a stack reachable = reach_loop a (rev (node_kids a (ar_nodes a ! i)) @ rest) (i # reachable)"
        by (subst reach_loop.simps) (simp add: Cons False ar_child_ids_Done[OF inv i])
      moreover obtain r where "reach_loop a (rev (node_kids a (ar_nodes a ! i)) @ rest) (i # reachable) = Some (Done r)"
          "set (rev (node_kids a (ar_nodes a ! i)) @ rest) \<union> set (i # reachable) \<subseteq> set r"
          "set r \<subseteq> {..<?n}" "distinct r" "\<forall>x \<in> set r. kids_of a x \<subseteq> set r"
        using IH[of "rev (node_kids a (ar_nodes a ! i)) @ rest" "i # reachable"] shorter less(2-4) closed Cons False i kids
        by auto
      ultimately show ?thesis using Cons by auto
    qed
  qed
qed

text \<open>The table entries a node refers to are copied as they are.\<close>

lemma ar_import_var_set_spec:
  assumes "arena_inv source" "arena_inv a" "vs < length (ar_var_sets source)"
  shows "holds (\<lambda>(i, b). grows a b \<and> i < length (ar_var_sets b) \<and> ar_var_sets b ! i = ar_var_sets source ! vs)
    (ar_import_var_set source vs a)"
proof -
  have "sorted_list_of_set (set (ar_var_sets source ! vs)) = ar_var_sets source ! vs"
    using arena_invD(7)[OF assms(1,3)] sorted_list_of_set.idem_if_sorted_distinct by blast
  then show ?thesis
    using ar_intern_var_set_spec[OF assms(2), of "ar_var_sets source ! vs"] assms(3)
    by (simp add: ar_import_var_set_def ar_var_set_def)
qed

lemma import_interventions_spec:
  assumes "arena_inv source" "arena_inv a" "iv < length (ar_interventions source)"
  shows "holds (\<lambda>(i, b). grows a b \<and> i < length (ar_interventions b) \<and>
      ar_interventions b ! i = ar_interventions source ! iv)
    (run_bind (ar_intervention_assignments source iv) (ar_intern_intervention_assignments a))"
proof -
  note entry = arena_invD(8)[OF assms(1,3)]
  have inj: "inj_on ia_variable (set (ar_interventions source ! iv))" using entry by (simp add: distinct_map)
  show ?thesis
    using ar_intern_assignments_spec[OF assms(2) inj] assms(3) entry inj
    by (auto simp: ar_intervention_assignments_def elim!: holds_mono intro!: map_sorted_distinct_set_unique[of ia_variable])
qed

lemma import_population_spec:
  assumes "arena_inv a" "p < length (ar_populations source)"
  shows "holds (\<lambda>(i, b). grows a b \<and> i < length (ar_populations b) \<and> ar_populations b ! i = ar_populations source ! p)
    (run_bind (ar_population source p) (ar_intern_population a))"
  using ar_intern_population_spec[OF assms(1)] assms(2) by (simp add: ar_population_def)

text \<open>The ids copied so far stand for the same expressions.\<close>

definition remap_ok :: "expr_arena \<Rightarrow> (expr_id \<Rightarrow> expr_id option) \<Rightarrow> expr_arena \<Rightarrow> bool" where
  "remap_ok source remap a \<longleftrightarrow> (\<forall>i j. remap i = Some j \<longrightarrow>
     i < length (ar_nodes source) \<and> j < length (ar_nodes a) \<and> tree_of a j = tree_of source i)"

lemma remap_ok_grows: "remap_ok source remap a \<Longrightarrow> arena_inv a \<Longrightarrow> grows a b \<Longrightarrow> remap_ok source remap b"
  using grows_length grows_tree unfolding remap_ok_def by metis

lemma remapped_Done:
  "c \<in> dom remap \<Longrightarrow> remapped remap c = Done (the (remap c))"
  by (auto simp: remapped_def)

lemma remapped_all_Done:
  "set cs \<subseteq> dom remap \<Longrightarrow> remapped_all remap cs = Done (map (\<lambda>c. the (remap c)) cs)"
  by (induction cs) (simp_all add: remapped_Done)

lemma import_node_spec:
  assumes src: "arena_inv source" and inv: "arena_inv a" and ok: "node_ok source i n" "i < length (ar_nodes source)"
    and map: "remap_ok source remap a" "set (node_kids source n) \<subseteq> dom remap"
  shows "holds (\<lambda>(n', b). grows a b \<and> node_ok b (length (ar_nodes b)) n' \<and>
      node_view b (tree_of b) n' = node_view source (tree_of source) n) (import_node source remap n a)"
proof -
  have target: "the (remap c) < length (ar_nodes b) \<and> tree_of b (the (remap c)) = tree_of source c \<and>
      remapped remap c = Done (the (remap c))" if "c \<in> set (node_kids source n)" "grows a b" for c b
  proof -
    have "c \<in> dom remap" using map(2) that(1) by blast
    then show ?thesis
      using remap_ok_grows[OF map(1) inv that(2)] remapped_Done[of c remap] by (auto simp: remap_ok_def)
  qed
  have self: "grows a a" using inv by simp
  have sets: "holds (\<lambda>(i, c). grows b c \<and> i < length (ar_var_sets c) \<and> ar_var_sets c ! i = ar_var_sets source ! vs)
      (ar_import_var_set source vs b)" if "grows a b" "vs < length (ar_var_sets source)" for b vs
    using ar_import_var_set_spec[OF src conjunct1[OF growsD[OF that(1)]] that(2)] .
  show ?thesis
  proof (cases n)
    case (Ratio x y)
    then show ?thesis using target[of x, OF _ self] target[of y, OF _ self] self by simp
  next
    case (Expectation f d)
    then show ?thesis using target[of d, OF _ self] self by simp
  next
    case (Contrast x y p)
    then show ?thesis using target[of x, OF _ self] target[of y, OF _ self] self by simp
  next
    case (SumOut vs e)
    show ?thesis
      unfolding SumOut import_node.simps
    proof (rule holds_bind[OF sets[OF self]], goal_cases)
      case (2 p)
      then show ?case using target[of e "snd p"] SumOut ok by (auto simp: row_def)
    qed (use ok SumOut in simp)
  next
    case (IntegralOut vs e)
    show ?thesis
      unfolding IntegralOut import_node.simps
    proof (rule holds_bind[OF sets[OF self]], goal_cases)
      case (2 p)
      then show ?case using target[of e "snd p"] IntegralOut ok by (auto simp: row_def)
    qed (use ok IntegralOut in simp)
  next
    case (Product l)
    let ?cs = "ar_lists source ! l"
    have l: "l < length (ar_lists source)" "node_kids source n = ?cs" using ok(1) Product by (simp_all add: row_def)
    have cs: "remapped_all remap ?cs = Done (map (\<lambda>c. the (remap c)) ?cs)"
      by (rule remapped_all_Done) (use map(2) l(2) in simp)
    have "holds (\<lambda>(i, b). grows a b \<and> i < length (ar_lists b) \<and> ar_lists b ! i = map (\<lambda>c. the (remap c)) ?cs \<and>
        ar_nodes b = ar_nodes a) (ar_intern_list a (map (\<lambda>c. the (remap c)) ?cs))"
      by (rule ar_intern_list_spec[OF inv]) (use target[OF _ self] l(2) in auto)
    then show ?thesis
      unfolding Product import_node.simps
    proof (simp add: ar_list_def l(1) cs, elim holds_bind, clarify)
      fix l' b assume b: "grows a b" "l' < length (ar_lists b)" "ar_lists b ! l' = map (\<lambda>c. the (remap c)) ?cs"
      show "holds (\<lambda>(n', b). grows a b \<and> node_ok b (length (ar_nodes b)) n' \<and>
          node_view b (tree_of b) n' = TProduct (map (tree_of source) (row (ar_lists source) l))) (Done (Product l', b))"
        using b target[OF _ b(1)] l by (auto simp: row_def)
    qed
  next
    case (Kernel e vs p r)
    have e: "remapped remap e = Done (the (remap e))" using target[of e, OF _ self] Kernel by simp
    show ?thesis
      unfolding Kernel import_node.simps e run_bind.simps
    proof (rule holds_bind[OF sets[OF self]], use ok Kernel in simp, clarify)
      fix vs' b assume b: "grows a b" "vs' < length (ar_var_sets b)" "ar_var_sets b ! vs' = ar_var_sets source ! vs"
      have "p < length (ar_populations source)" using ok(1) Kernel by simp
      then show "holds (\<lambda>(n', b). grows a b \<and> node_ok b (length (ar_nodes b)) n' \<and>
          node_view b (tree_of b) n' = node_view source (tree_of source) (Kernel e vs p r))
        (run_bind (run_bind (ar_population source p) (ar_intern_population b)) (\<lambda>(p', a). Done (Kernel (the (remap e)) vs' p' r, a)))"
      proof (intro holds_bind[OF import_population_spec[OF conjunct1[OF growsD[OF b(1)]]]], assumption, clarify)
        fix p' c assume c: "grows b c" "p' < length (ar_populations c)" "ar_populations c ! p' = ar_populations source ! p"
        note le = ar_le_entries[OF conjunct2[OF growsD[OF c(1)]]] and ac = grows_trans[OF b(1) c(1)]
        show "holds (\<lambda>(n', b). grows a b \<and> node_ok b (length (ar_nodes b)) n' \<and>
            node_view b (tree_of b) n' = node_view source (tree_of source) (Kernel e vs p r))
          (Done (Kernel (the (remap e)) vs' p' r, c))"
          using b c le(2)[OF b(2)] ac target[of e, OF _ ac] ok(1) Kernel by (simp add: row_def)
      qed
    qed
  next
    case (Distribution vs c iv d p r)
    note okD = ok(1)[unfolded Distribution node_ok.simps]
    let ?P = "\<lambda>(n', b). grows a b \<and> node_ok b (length (ar_nodes b)) n' \<and>
      node_view b (tree_of b) n' = node_view source (tree_of source) (Distribution vs c iv d p r)"
    show ?thesis
      unfolding Distribution import_node.simps
    proof (rule holds_bind[OF sets[OF self]], use okD in simp, clarify)
      fix vs' b assume b: "grows a b" "vs' < length (ar_var_sets b)" "ar_var_sets b ! vs' = ar_var_sets source ! vs"
      show "holds ?P (run_bind (ar_import_var_set source c b) (\<lambda>(c', a).
          run_bind (run_bind (ar_intervention_assignments source iv) (ar_intern_intervention_assignments a)) (\<lambda>(iv', a).
          run_bind (run_bind (ar_population source p) (ar_intern_population a)) (\<lambda>(p', a).
            Done (Distribution vs' c' iv' d p' r, a)))))"
      proof (rule holds_bind[OF sets[OF b(1)]], use okD in simp, clarify)
        fix c' e assume e: "grows b e" "c' < length (ar_var_sets e)" "ar_var_sets e ! c' = ar_var_sets source ! c"
        show "holds ?P (run_bind (run_bind (ar_intervention_assignments source iv) (ar_intern_intervention_assignments e)) (\<lambda>(iv', a).
            run_bind (run_bind (ar_population source p) (ar_intern_population a)) (\<lambda>(p', a).
              Done (Distribution vs' c' iv' d p' r, a))))"
        proof (rule holds_bind[OF import_interventions_spec[OF src conjunct1[OF growsD[OF e(1)]]]], use okD in simp, clarify)
          fix iv' f assume f: "grows e f" "iv' < length (ar_interventions f)"
            "ar_interventions f ! iv' = ar_interventions source ! iv"
          show "holds ?P (run_bind (run_bind (ar_population source p) (ar_intern_population f)) (\<lambda>(p', a).
              Done (Distribution vs' c' iv' d p' r, a)))"
          proof (rule holds_bind[OF import_population_spec[OF conjunct1[OF growsD[OF f(1)]]]], use okD in simp, clarify)
            fix p' g assume g: "grows f g" "p' < length (ar_populations g)"
              "ar_populations g ! p' = ar_populations source ! p"
            note bg = grows_trans[OF e(1) grows_trans[OF f(1) g(1)]] and eg = grows_trans[OF f(1) g(1)]
            note entries = ar_le_entries(2)[OF conjunct2[OF growsD[OF bg]] b(2)]
              ar_le_entries(2)[OF conjunct2[OF growsD[OF eg]] e(2)] ar_le_entries(3)[OF conjunct2[OF growsD[OF g(1)]] f(2)]
            show "holds ?P (Done (Distribution vs' c' iv' d p' r, g))"
              using b(3) e(3) f(3) g entries grows_trans[OF b(1) bg] okD by (simp add: row_def)
          qed
        qed
      qed
    qed
  qed
qed

lemma import_nodes_spec:
  assumes src: "arena_inv source"
  shows "arena_inv a \<Longrightarrow> remap_ok source remap a \<Longrightarrow> set is \<subseteq> {..<length (ar_nodes source)} \<Longrightarrow>
    (\<forall>k < length is. kids_of source (is ! k) \<subseteq> dom remap \<union> set (take k is)) \<Longrightarrow>
    holds (\<lambda>(remap', b). grows a b \<and> remap_ok source remap' b \<and> dom remap' = dom remap \<union> set is)
      (import_nodes source is remap a)"
proof (induction "is" arbitrary: a remap)
  case (Cons i "is")
  have i: "i < length (ar_nodes source)" using Cons.prems(3) by simp
  have kids: "kids_of source i \<subseteq> dom remap" using Cons.prems(4) by (force dest: spec[of _ 0])
  have node: "ar_node source i = Done (ar_nodes source ! i)" using i by (simp add: ar_node_def)
  show ?case
    unfolding import_nodes.simps node run_bind.simps
  proof (rule holds_bind[OF import_node_spec[OF src Cons.prems(1) arena_invD(6)[OF src i] i Cons.prems(2) kids]], clarify)
    fix n b assume b: "grows a b" "node_ok b (length (ar_nodes b)) n"
      "node_view b (tree_of b) n = node_view source (tree_of source) (ar_nodes source ! i)"
    have inv: "arena_inv b" using growsD[OF b(1)] by blast
    show "holds (\<lambda>(remap', b). grows a b \<and> remap_ok source remap' b \<and> dom remap' = dom remap \<union> set (i # is))
      (run_bind (ar_intern b n) (\<lambda>(j, a). import_nodes source is (remap(i \<mapsto> j)) a))"
    proof (rule holds_bind[OF ar_intern_tree[OF inv b(2)]], clarify)
      fix j c assume c: "grows b c" "j < length (ar_nodes c)" "tree_of c j = node_view b (tree_of b) n"
      have ac: "grows a c" by (rule grows_trans[OF b(1) c(1)])
      have "remap_ok source (remap(i \<mapsto> j)) c"
        using remap_ok_grows[OF Cons.prems(2,1) ac] c(2,3) b(3) i tree_of_node[OF src i] by (simp add: remap_ok_def)
      moreover have "\<forall>k < length is. kids_of source (is ! k) \<subseteq> dom (remap(i \<mapsto> j)) \<union> set (take k is)"
      proof (intro allI impI)
        fix k assume "k < length is"
        then show "kids_of source (is ! k) \<subseteq> dom (remap(i \<mapsto> j)) \<union> set (take k is)"
          using Cons.prems(4)[rule_format, of "Suc k"] by auto
      qed
      moreover have "set is \<subseteq> {..<length (ar_nodes source)}" using Cons.prems(3) by simp
      ultimately have "holds (\<lambda>(remap', b). grows c b \<and> remap_ok source remap' b \<and>
          dom remap' = dom (remap(i \<mapsto> j)) \<union> set is) (import_nodes source is (remap(i \<mapsto> j)) c)"
        using conjunct1[OF growsD[OF c(1)]] by (intro Cons.IH)
      then show "holds (\<lambda>(remap', b). grows a b \<and> remap_ok source remap' b \<and> dom remap' = dom remap \<union> set (i # is))
          (import_nodes source is (remap(i \<mapsto> j)) c)"
        by (elim holds_mono) (auto intro: grows_trans[OF ac])
    qed
  qed
qed simp

text \<open>Derivations are no part of what an id stands for.\<close>

lemma derivation_irrelevant:
  assumes "ar_nodes b = ar_nodes a" "ar_node_index b = ar_node_index a" "ar_var_sets b = ar_var_sets a"
    "ar_var_set_index b = ar_var_set_index a" "ar_interventions b = ar_interventions a"
    "ar_intervention_index b = ar_intervention_index a" "ar_lists b = ar_lists a" "ar_list_index b = ar_list_index a"
    "ar_populations b = ar_populations a" "ar_population_index b = ar_population_index a"
    "ar_empty_var_set_id b = ar_empty_var_set_id a" "ar_empty_intervention_set_id b = ar_empty_intervention_set_id a"
    "ar_empty_population_id b = ar_empty_population_id a"
  shows "arena_inv a \<Longrightarrow> grows a b"
  using assms by (simp add: grows_def arena_inv_def ar_le_def node_ok_cong[of b a])

lemma set_derivation_grows:
  "arena_inv a \<Longrightarrow> grows a (ar_set_derivation a i m)" "arena_inv a \<Longrightarrow> grows a (ar_set_derivation_if_absent a i m)"
  by (auto simp: ar_set_derivation_def ar_set_derivation_if_absent_def intro: derivation_irrelevant split: option.split)

lemma import_derivations_spec:
  "arena_inv a \<Longrightarrow> set is \<subseteq> dom remap \<Longrightarrow> holds (\<lambda>b. grows a b) (import_derivations source remap is a)"
proof (induction "is" arbitrary: a)
  case (Cons i "is")
  have i: "remapped remap i = Done (the (remap i))" using Cons.prems(2) by (intro remapped_Done) simp
  show ?case
  proof (cases "ar_derivation_of source i")
    case (Some m)
    let ?b = "ar_set_derivation_if_absent a (the (remap i)) (import_meta remap m)"
    have b: "grows a ?b" by (rule set_derivation_grows(2)[OF Cons.prems(1)])
    have "holds (\<lambda>c. grows ?b c) (import_derivations source remap is ?b)"
      using growsD[OF b] Cons.prems(2) by (intro Cons.IH) simp_all
    then show ?thesis using Some i by (auto elim!: holds_mono intro: grows_trans[OF b])
  qed (use Cons in simp)
qed simp

theorem ar_import_spec:
  assumes src: "arena_inv source" and inv: "arena_inv a" and root: "root < length (ar_nodes source)"
  shows "holds (\<lambda>(j, b). grows a b \<and> j < length (ar_nodes b) \<and> tree_of b j = tree_of source root)
    (ar_import source root a)"
proof -
  obtain r where r: "reach_loop source [root] [] = Some (Done r)" "root \<in> set r"
      "set r \<subseteq> {..<length (ar_nodes source)}" "distinct r" "\<forall>x \<in> set r. kids_of source x \<subseteq> set r"
    using reach_loop_spec[OF src, of "[root]" "[]"] root by auto
  have below: "kids_of source (sort r ! k) \<subseteq> set (take k (sort r))" if k: "k < length (sort r)" for k
  proof
    fix c assume c: "c \<in> kids_of source (sort r ! k)"
    have "sort r ! k \<in> set r" using k by (metis nth_mem set_sort)
    then have at: "sort r ! k < length (ar_nodes source)" "c \<in> set (sort r)" using r(3,5) c by auto
    have "c < sort r ! k" by (rule node_ok_kids[OF arena_invD(6)[OF src at(1)] c])
    moreover obtain m where m: "m < length (sort r)" "sort r ! m = c" using at(2) by (metis in_set_conv_nth)
    ultimately have "m < k" using sorted_nth_mono[of "sort r" k m] by (metis linorder_not_le m(1) sorted_sort)
    then show "c \<in> set (take k (sort r))" using m k by (force simp: in_set_conv_nth simp del: length_sort)
  qed
  have "holds (\<lambda>(remap', b). grows a b \<and> remap_ok source remap' b \<and> dom remap' = set (sort r))
      (import_nodes source (sort r) (\<lambda>_. None) a)"
    using import_nodes_spec[OF src inv, of "\<lambda>_. None" "sort r"] r(3) below by (simp add: remap_ok_def)
  then show ?thesis
    unfolding ar_import_def r(1) option.case run_bind.simps Let_def
  proof (rule holds_bind, clarify)
    fix remap b assume b: "grows a b" "remap_ok source remap b" "dom remap = set (sort r)"
    have invb: "arena_inv b" using growsD[OF b(1)] by blast
    have mapped: "remapped remap root = Done (the (remap root))" using b(3) r(2) by (intro remapped_Done) simp
    have "holds (\<lambda>c. grows b c) (import_derivations source remap (sort r) b)"
      by (rule import_derivations_spec[OF invb]) (use b(3) in simp)
    then show "holds (\<lambda>(j, b). grows a b \<and> j < length (ar_nodes b) \<and> tree_of b j = tree_of source root)
      (run_bind (import_derivations source remap (sort r) b) (\<lambda>a. run_bind (remapped remap root) (\<lambda>j. Done (j, a))))"
    proof (rule holds_bind)
      fix c assume c: "grows b c"
      have "root \<in> dom remap" using b(3) r(2) by simp
      then show "holds (\<lambda>(j, b). grows a b \<and> j < length (ar_nodes b) \<and> tree_of b j = tree_of source root)
        (run_bind (remapped remap root) (\<lambda>j. Done (j, c)))"
        using mapped grows_trans[OF b(1) c] remap_ok_grows[OF b(2) invb c] by (auto simp: remap_ok_def)
    qed
  qed
qed

end
