(* ===== verification/Expr_Simplify.thy ===== *)
theory Expr_Simplify
  imports Expr_Walk
begin

text \<open>
  \<open>simplify.rs\<close>: free variables, the local rewrite rules and the memoised bottom-up simplification, which
  refuses an expression with a binder that binds a variable its body does not depend on. The
  recursion runs on fuel (a child's id is smaller than its parent's); the fixpoint loop over the
  rules is a partial function, \<open>None\<close> being a loop that never ends. \<open>Simplify_Value\<close> shows that
  neither happens and that the value is kept.
\<close>

section \<open>Errors and binders\<close>

datatype simplify_error =
    DeadSumOut "variable_id list"
  | DeadIntegralOut "variable_id list"

datatype binder_kind = SumBinder | IntegralBinder

fun empty_tag :: "binder_kind \<Rightarrow> string" where
  "empty_tag SumBinder = ''simplify.empty_sum_out''"
| "empty_tag IntegralBinder = ''simplify.empty_integral_out''"

fun merge_tag :: "binder_kind \<Rightarrow> string" where
  "merge_tag SumBinder = ''simplify.merge_sum_out''"
| "merge_tag IntegralBinder = ''simplify.merge_integral_out''"

fun dead_error :: "binder_kind \<Rightarrow> variable_id list \<Rightarrow> simplify_error" where
  "dead_error SumBinder vs = DeadSumOut vs"
| "dead_error IntegralBinder vs = DeadIntegralOut vs"

fun make_node :: "binder_kind \<Rightarrow> var_set_id \<Rightarrow> expr_id \<Rightarrow> expr_node" where
  "make_node SumBinder vs e = SumOut vs e"
| "make_node IntegralBinder vs e = IntegralOut vs e"

fun match_inner :: "binder_kind \<Rightarrow> expr_node \<Rightarrow> (var_set_id \<times> expr_id) option" where
  "match_inner SumBinder (SumOut vs e) = Some (vs, e)"
| "match_inner IntegralBinder (IntegralOut vs e) = Some (vs, e)"
| "match_inner _ _ = None"

section \<open>Free variables\<close>

text \<open>\<open>sort_unstable\<close> and \<open>dedup\<close>; \<open>binary_search\<close> on a sorted slice is membership.\<close>

definition sorted_dedup :: "variable_id list \<Rightarrow> variable_id list" where
  "sorted_dedup vs = remdups_adj (sort vs)"

definition difference :: "variable_id list \<Rightarrow> variable_id list \<Rightarrow> variable_id list" where
  "difference xs ys = filter (\<lambda>v. v \<notin> set ys) xs"

definition free_var_step :: "expr_arena \<Rightarrow> expr_id \<Rightarrow> variable_id list list \<Rightarrow> variable_id list run" where
  "free_var_step a i children =
     run_bind (ar_node a i) (\<lambda>n. run_bind (case n of
         Distribution vs c iv _ _ _ \<Rightarrow>
           run_bind (ar_var_set a vs) (\<lambda>vars.
           run_bind (ar_intervention_assignments a iv) (\<lambda>assignments.
           run_bind (ar_var_set a c) (\<lambda>cond.
             Done (vars @ filter (\<lambda>v. \<not> list_ex (\<lambda>x. ia_variable x = v \<and> \<not> ia_is_symbolic x) assignments) cond @
               map ia_variable (filter ia_is_symbolic assignments)))))
       | Kernel _ _ _ _ \<Rightarrow> at_index children 0
       | Product _ \<Rightarrow> Done (concat children)
       | SumOut vs _ \<Rightarrow>
           run_bind (ar_var_set a vs) (\<lambda>bound. run_bind (at_index children 0) (\<lambda>vars. Done (difference vars bound)))
       | IntegralOut vs _ \<Rightarrow>
           run_bind (ar_var_set a vs) (\<lambda>bound. run_bind (at_index children 0) (\<lambda>vars. Done (difference vars bound)))
       | Ratio _ _ \<Rightarrow>
           run_bind (at_index children 0) (\<lambda>xs. run_bind (at_index children 1) (\<lambda>ys. Done (xs @ ys)))
       | Contrast _ _ _ \<Rightarrow>
           run_bind (at_index children 0) (\<lambda>xs. run_bind (at_index children 1) (\<lambda>ys. Done (xs @ ys)))
       | Expectation f _ \<Rightarrow>
           run_bind (at_index children 0) (\<lambda>vars. Done (filter (\<lambda>v. v \<noteq> f) vars)))
       (\<lambda>vars. Done (sorted_dedup vars)))"

type_synonym free_memo = "expr_id \<Rightarrow> variable_id list option"

definition free_vars :: "expr_arena \<Rightarrow> expr_id \<Rightarrow> free_memo \<Rightarrow> (variable_id list \<times> free_memo) run" where
  "free_vars a i memo = fold_expr (Suc i) a free_var_step i memo"

section \<open>The run\<close>

record simplify_run =
  sp_arena :: expr_arena
  sp_memo :: "expr_id \<Rightarrow> expr_id option"
  sp_free :: free_memo

type_synonym 'a simplify_step = "simplify_run \<Rightarrow> ((simplify_error + 'a) \<times> simplify_run) run"

definition sp_emit :: "(expr_arena \<Rightarrow> (expr_id \<times> expr_arena) run) \<Rightarrow> expr_id simplify_step" where
  "sp_emit f r = run_bind (f (sp_arena r)) (\<lambda>(i, a). Done (Inr i, r\<lparr>sp_arena := a\<rparr>))"

section \<open>The rules\<close>

definition intern_derived :: "expr_node \<Rightarrow> string \<Rightarrow> expr_arena \<Rightarrow> (expr_id \<times> expr_arena) run" where
  "intern_derived n rl a =
     run_bind (ar_intern a n) (\<lambda>(i, a').
       Done (i, if ar_len a' > ar_len a then ar_set_derivation_if_absent a' i (dm_of_rule rl None) else a'))"

definition rewrite_binder :: "binder_kind \<Rightarrow> expr_id \<Rightarrow> var_set_id \<Rightarrow> expr_id \<Rightarrow> expr_id simplify_step" where
  "rewrite_binder kind i vs e r =
     run_bind (ar_var_set (sp_arena r) vs) (\<lambda>bound.
       if bound = [] then Done (Inr e, r)
       else
         run_bind (free_vars (sp_arena r) e (sp_free r)) (\<lambda>(free, memo).
         let r = r\<lparr>sp_free := memo\<rparr>; dead = difference bound free
         in if dead \<noteq> [] then Done (Inl (dead_error kind dead), r)
            else
              run_bind (ar_node (sp_arena r) e) (\<lambda>body. case match_inner kind body of
                Some (inner_v, inner_e) \<Rightarrow>
                  run_bind (ar_var_set (sp_arena r) inner_v) (\<lambda>inner.
                    sp_emit (\<lambda>a. run_bind (ar_intern_var_set a (bound @ inner)) (\<lambda>(union, a).
                      intern_derived (make_node kind union inner_e) (merge_tag kind) a)) r)
              | None \<Rightarrow> Done (Inr i, r))))"

text \<open>The loop of \<open>rewrite_product\<close> over the factors, with whether one of them was a product.\<close>

fun flat_factors :: "expr_arena \<Rightarrow> expr_id list \<Rightarrow> (expr_id list \<times> bool) run" where
  "flat_factors a [] = Done ([], False)"
| "flat_factors a (c # cs) =
     run_bind (ar_node a c) (\<lambda>n.
       case n of
         Product inner \<Rightarrow>
           run_bind (ar_list a inner) (\<lambda>xs. run_bind (flat_factors a cs) (\<lambda>(ys, _). Done (xs @ ys, True)))
       | _ \<Rightarrow> run_bind (flat_factors a cs) (\<lambda>(ys, flattened). Done (c # ys, flattened)))"

definition rewrite_product :: "expr_id \<Rightarrow> expr_list_id \<Rightarrow> expr_arena \<Rightarrow> (expr_id \<times> expr_arena) run" where
  "rewrite_product i l a =
     run_bind (ar_list a l) (\<lambda>children.
       if length children = 1 then Done (children ! 0, a)
       else
         run_bind (flat_factors a children) (\<lambda>(flat, flattened).
         let flat = sort flat
         in if flattened \<or> flat \<noteq> children
            then if length flat = 1 then Done (flat ! 0, a)
                 else run_bind (ar_intern_list a flat) (\<lambda>(l', a).
                   intern_derived (Product l')
                     (if flattened then ''simplify.flatten_product'' else ''simplify.canonical_product'') a)
            else Done (i, a)))"

definition rewrite_ratio :: "expr_id \<Rightarrow> expr_id \<Rightarrow> expr_id \<Rightarrow> expr_arena \<Rightarrow> (expr_id \<times> expr_arena) run" where
  "rewrite_ratio i numerator denominator a =
     run_bind (ar_node a numerator) (\<lambda>n.
       case n of
         Ratio x y \<Rightarrow>
           run_bind (ar_intern_list a (sort [y, denominator])) (\<lambda>(l, a).
           run_bind (ar_intern a (Product l)) (\<lambda>(yz, a).
             intern_derived (Ratio x yz) ''simplify.ratio_assoc_left'' a))
       | _ \<Rightarrow> Done (i, a))"

definition apply_local_rules :: "expr_id \<Rightarrow> expr_id simplify_step" where
  "apply_local_rules i r =
     run_bind (ar_node (sp_arena r) i) (\<lambda>n.
       case n of
         SumOut vs e \<Rightarrow> rewrite_binder SumBinder i vs e r
       | IntegralOut vs e \<Rightarrow> rewrite_binder IntegralBinder i vs e r
       | Product l \<Rightarrow> sp_emit (rewrite_product i l) r
       | Ratio x y \<Rightarrow> sp_emit (rewrite_ratio i x y) r
       | _ \<Rightarrow> Done (Inr i, r))"

partial_function (option) rules_loop ::
  "expr_id \<Rightarrow> simplify_run \<Rightarrow> ((simplify_error + expr_id) \<times> simplify_run) run option" where
  "rules_loop i r =
     (case apply_local_rules i r of
        Done (Inr nxt, r') \<Rightarrow> if nxt = i then Some (Done (Inr i, r')) else rules_loop nxt r'
      | Done (Inl e, r') \<Rightarrow> Some (Done (Inl e, r'))
      | NoIds \<Rightarrow> Some NoIds
      | Abort \<Rightarrow> Some Abort
      | Timeout \<Rightarrow> Some Timeout)"

declare rules_loop.simps [code]

definition apply_rules_fixpoint :: "expr_id \<Rightarrow> expr_id simplify_step" where
  "apply_rules_fixpoint i r = (case rules_loop i r of Some m \<Rightarrow> m | None \<Rightarrow> Timeout)"

section \<open>The recursion\<close>

definition rebuild_node :: "expr_id \<Rightarrow> expr_node \<Rightarrow> expr_id list \<Rightarrow> expr_arena \<Rightarrow> (expr_id \<times> expr_arena) run" where
  "rebuild_node i n cs a =
     (case n of
        Distribution _ _ _ _ _ _ \<Rightarrow> Done (i, a)
      | Kernel _ bound p rg \<Rightarrow> run_bind (at_index cs 0) (\<lambda>body. ar_intern a (Kernel body bound p rg))
      | Product _ \<Rightarrow> run_bind (ar_intern_list a cs) (\<lambda>(l, a). ar_intern a (Product l))
      | SumOut vs _ \<Rightarrow> run_bind (at_index cs 0) (\<lambda>e. ar_intern a (SumOut vs e))
      | IntegralOut vs _ \<Rightarrow> run_bind (at_index cs 0) (\<lambda>e. ar_intern a (IntegralOut vs e))
      | Ratio _ _ \<Rightarrow> run_bind (at_index cs 0) (\<lambda>x. run_bind (at_index cs 1) (\<lambda>y. ar_intern a (Ratio x y)))
      | Expectation f _ \<Rightarrow> run_bind (at_index cs 0) (\<lambda>d. ar_intern a (Expectation f d))
      | Contrast _ _ p \<Rightarrow> run_bind (at_index cs 0) (\<lambda>x. run_bind (at_index cs 1) (\<lambda>y. ar_intern a (Contrast x y p))))"

definition rebuild_children :: "(expr_id \<Rightarrow> expr_id simplify_step) \<Rightarrow> expr_id \<Rightarrow> expr_id simplify_step" where
  "rebuild_children rec i r =
     run_bind (ar_node (sp_arena r) i) (\<lambda>n.
     run_bind (ar_child_ids (sp_arena r) i) (\<lambda>children.
     try_bind (try_map rec children r) (\<lambda>cs r. sp_emit (rebuild_node i n cs) r)))"

fun simplify_rec :: "nat \<Rightarrow> expr_id \<Rightarrow> expr_id simplify_step" where
  "simplify_rec 0 i r = Timeout"
| "simplify_rec (Suc fuel) i r =
     (case sp_memo r i of
        Some cached \<Rightarrow> Done (Inr cached, r)
      | None \<Rightarrow>
          try_bind (rebuild_children (simplify_rec fuel) i r) (\<lambda>rebuilt r.
          try_bind (apply_rules_fixpoint rebuilt r) (\<lambda>simplified r.
            Done (Inr simplified, r\<lparr>sp_memo := (sp_memo r)(i \<mapsto> simplified)\<rparr>))))"

definition ar_simplify :: "expr_arena \<Rightarrow> expr_id \<Rightarrow> ((simplify_error + expr_id) \<times> expr_arena) run" where
  "ar_simplify a root =
     run_bind (simplify_rec (Suc root) root \<lparr>sp_arena = a, sp_memo = (\<lambda>_. None), sp_free = (\<lambda>_. None)\<rparr>)
       (\<lambda>(res, r). Done (res, sp_arena r))"

section \<open>Conditionals as ratios of marginals\<close>

record marginal_conditional =
  mc_joint :: expr_id
  mc_numerator_summed :: "variable_id list"
  mc_denominator_summed :: "variable_id list"

text \<open>The loop of \<open>peel_marginalisation\<close>; every step goes to an earlier id.\<close>

fun peel_loop :: "nat \<Rightarrow> expr_arena \<Rightarrow> expr_id \<Rightarrow> variable_id list \<Rightarrow> (expr_id \<times> variable_id list) run" where
  "peel_loop 0 a i summed = Timeout"
| "peel_loop (Suc fuel) a i summed =
     run_bind (ar_node a i) (\<lambda>n.
       case n of
         Kernel body _ _ _ \<Rightarrow> peel_loop fuel a body summed
       | SumOut vs e \<Rightarrow> run_bind (ar_var_set a vs) (\<lambda>bound. peel_loop fuel a e (summed @ bound))
       | IntegralOut vs e \<Rightarrow> run_bind (ar_var_set a vs) (\<lambda>bound. peel_loop fuel a e (summed @ bound))
       | _ \<Rightarrow> Done (i, sorted_dedup summed))"

definition peel_marginalisation :: "expr_arena \<Rightarrow> expr_id \<Rightarrow> (expr_id \<times> variable_id list) run" where
  "peel_marginalisation a i = peel_loop (Suc i) a i []"

definition marginal_conditional_of :: "expr_arena \<Rightarrow> expr_id \<Rightarrow> expr_id \<Rightarrow> marginal_conditional option run" where
  "marginal_conditional_of a numerator denominator =
     run_bind (peel_marginalisation a numerator) (\<lambda>(joint, ns).
     run_bind (peel_marginalisation a denominator) (\<lambda>(denominator_joint, ds).
       let strict_superset = length ds > length ns \<and> list_all (\<lambda>v. v \<in> set ds) ns
       in Done (if joint = denominator_joint \<and> strict_superset
                then Some \<lparr>mc_joint = joint, mc_numerator_summed = ns, mc_denominator_summed = ds\<rparr> else None)))"

end
