(* ===== verification/Simplify_Value.thy ===== *)
theory Simplify_Value
  imports Expr_Simplify Expr_Value
begin

text \<open>
  Simplification keeps the value. Two expressions are \<open>tree_equiv\<close> when they have the same free variables
  and the same value in every model. Every rule keeps both, a rule that changes the root lowers \<open>rank\<close>, so the fixpoint loop
  returns, and the memoised recursion refuses exactly the expressions that are not live.
\<close>

section \<open>The computed free variables\<close>

definition free_list :: "expr_tree \<Rightarrow> nat list" where
  "free_list t = sorted_list_of_set (free_of t)"

lemma set_free_list [simp]: "set (free_list t) = free_of t"
  by (simp add: free_list_def)

lemma sorted_dedup_eq: "finite S \<Longrightarrow> set xs = S \<Longrightarrow> sorted_dedup xs = sorted_list_of_set S"
  by (simp add: sorted_dedup_def sort_dedup_set)

lemma free_var_step_spec:
  assumes "arena_inv a" "i < length (ar_nodes a)"
  shows "free_var_step a i (map (\<lambda>c. free_list (tree_of a c)) (node_kids a (ar_nodes a ! i))) =
    Done (free_list (tree_of a i))"
proof -
  note ok = arena_invD(6)[OF assms] and tree = tree_of_node[OF assms]
  have node: "ar_node a i = Done (ar_nodes a ! i)" using assms(2) by (simp add: ar_node_def)
  have dedup: "set xs = free_of t \<Longrightarrow> sorted_dedup xs = free_list t" for xs t
    by (simp add: sorted_dedup_eq free_list_def)
  show ?thesis
  proof (cases "ar_nodes a ! i")
    case (Distribution vs c iv d p r)
    then show ?thesis
      using ok node tree
      by (simp add: free_var_step_def ar_var_set_def ar_intervention_assignments_def row_def list_ex_iff)
        (rule dedup, auto)
  next
    case (Product l)
    then show ?thesis using ok node tree by (auto simp: free_var_step_def row_def intro!: dedup)
  qed (use ok node tree in \<open>auto simp: free_var_step_def ar_var_set_def row_def difference_def intro!: dedup\<close>)
qed

definition free_memo_ok :: "expr_arena \<Rightarrow> free_memo \<Rightarrow> bool" where
  "free_memo_ok a = fold_memo_ok a free_list"

lemma free_vars_spec:
  assumes "arena_inv a" "i < length (ar_nodes a)" "free_memo_ok a memo"
  shows "\<exists>memo'. free_vars a i memo = Done (free_list (tree_of a i), memo') \<and> free_memo_ok a memo'"
  using fold_expr_spec[where step = free_var_step and f = free_list, OF assms(1) free_var_step_spec[OF assms(1)] assms(2)] assms(3)
  unfolding free_vars_def free_memo_ok_def by blast

section \<open>Equivalent expressions\<close>

definition tree_equiv :: "expr_tree \<Rightarrow> expr_tree \<Rightarrow> bool" where
  "tree_equiv t u \<longleftrightarrow> free_of t = free_of u \<and>
     (\<forall>num dv Vs P s. tree_value num dv Vs P t s = tree_value num dv Vs P u s)"

lemma tree_equivI:
  "free_of t = free_of u \<Longrightarrow> (\<And>num dv Vs P s. tree_value num dv Vs P t s = tree_value num dv Vs P u s) \<Longrightarrow>
    tree_equiv t u"
  by (simp add: tree_equiv_def)

lemma tree_equivD:
  "tree_equiv t u \<Longrightarrow> free_of t = free_of u" "tree_equiv t u \<Longrightarrow> tree_value num dv Vs P t = tree_value num dv Vs P u"
  by (simp_all add: tree_equiv_def fun_eq_iff)

lemma tree_equiv_refl [simp]: "tree_equiv t t"
  by (simp add: tree_equiv_def)

lemma tree_equiv_trans [trans]: "tree_equiv t u \<Longrightarrow> tree_equiv u v \<Longrightarrow> tree_equiv t v"
  by (simp add: tree_equiv_def)

lemma tree_equiv_list:
  assumes "list_all2 tree_equiv ts us"
  shows "tree_equiv (TProduct ts) (TProduct us)"
proof -
  have "(\<Union>t \<in> set ts. free_of t) = (\<Union>t \<in> set us. free_of t)"
    using assms by (induction rule: list_all2_induct) (auto dest: tree_equivD(1))
  moreover have "map (\<lambda>t. tree_value num dv Vs P t s) ts = map (\<lambda>t. tree_value num dv Vs P t s) us" for num dv Vs P s
    using assms by (induction rule: list_all2_induct) (auto simp: tree_equivD(2))
  ultimately show ?thesis by (simp add: tree_equiv_def)
qed

lemma tree_equiv_intros:
  assumes "tree_equiv t u"
  shows "tree_equiv (TKernel t vs p r) (TKernel u vs p r)" "tree_equiv (TSumOut vs t) (TSumOut vs u)"
    "tree_equiv (TIntegralOut vs t) (TIntegralOut vs u)" "tree_equiv (TExpectation f t) (TExpectation f u)"
  using tree_equivD[OF assms] by (simp_all add: tree_equiv_def)

lemma tree_equiv_pairs:
  assumes "tree_equiv t u" "tree_equiv v w"
  shows "tree_equiv (TRatio t v) (TRatio u w)" "tree_equiv (TContrast t v p) (TContrast u w p)"
  using tree_equivD[OF assms(1)] tree_equivD[OF assms(2)] by (cases p, simp_all add: tree_equiv_def)+

section \<open>What the rules rewrite\<close>

lemma tree_value_binders:
  "tree_value num dv Vs P (TSumOut vs e) = marg dv (set vs) (tree_value num dv Vs P e)"
  "tree_value num dv Vs P (TIntegralOut vs e) = marg dv (set vs) (tree_value num dv Vs P e)"
  by (simp_all add: fun_eq_iff)

lemma merge_binders:
  assumes "set vs \<subseteq> free_of (TSumOut ws e)" "set us = set vs \<union> set ws"
  shows "tree_equiv (TSumOut us e) (TSumOut vs (TSumOut ws e))"
proof (rule tree_equivI)
  have "set vs \<inter> set ws = {}" using assms(1) by auto
  then show "tree_value num dv Vs P (TSumOut us e) s = tree_value num dv Vs P (TSumOut vs (TSumOut ws e)) s" for num dv Vs P s
    unfolding tree_value_binders assms(2) by (simp only: marg_union[OF finite_set])
qed (use assms in auto)

lemma merge_integrals:
  assumes "set vs \<subseteq> free_of (TIntegralOut ws e)" "set us = set vs \<union> set ws"
  shows "tree_equiv (TIntegralOut us e) (TIntegralOut vs (TIntegralOut ws e))"
proof (rule tree_equivI)
  have "set vs \<inter> set ws = {}" using assms(1) by auto
  then show "tree_value num dv Vs P (TIntegralOut us e) s = tree_value num dv Vs P (TIntegralOut vs (TIntegralOut ws e)) s"
    for num dv Vs P s
    unfolding tree_value_binders assms(2) by (simp only: marg_union[OF finite_set])
qed (use assms in auto)

lemma empty_binder:
  "tree_equiv e (TSumOut [] e)" "tree_equiv e (TIntegralOut [] e)"
  by (simp_all add: tree_equiv_def)

lemma singleton_product: "tree_equiv t (TProduct [t])"
  by (simp add: tree_equiv_def)

lemma ratio_of_ratio:
  assumes "set us = {y, z}" "length us = 2"
  shows "tree_equiv (TRatio x (TProduct us)) (TRatio (TRatio x y) z)"
proof (rule tree_equivI)
  obtain a b where us: "us = [a, b]" using assms(2) by (auto simp: length_Suc_conv numeral_2_eq_2)
  then have "(a = y \<and> b = z) \<or> (a = z \<and> b = y)" using assms(1) by (auto simp: doubleton_eq_iff)
  then show "tree_value num dv Vs P (TRatio x (TProduct us)) s = tree_value num dv Vs P (TRatio (TRatio x y) z) s"
    for num dv Vs P s using us by (auto simp: mult.commute)
qed (use assms in auto)

section \<open>One rule\<close>

text \<open>The direct parts of an expression.\<close>

definition kids_live :: "expr_arena \<Rightarrow> expr_id \<Rightarrow> bool" where
  "kids_live a i \<longleftrightarrow> (\<forall>c \<in> kids_of a i. live (tree_of a c))"

lemma live_kids:
  assumes "arena_inv a" "i < length (ar_nodes a)" "live (tree_of a i)"
  shows "kids_live a i"
  using assms(3) tree_of_node[OF assms(1,2)]
  by (cases "ar_nodes a ! i") (auto simp: kids_live_def)

text \<open>Where a node's next rule would look: decreases with every rule that changes the root.\<close>

definition is_product :: "expr_arena \<Rightarrow> expr_id \<Rightarrow> bool" where
  "is_product a c = (case ar_nodes a ! c of Product _ \<Rightarrow> True | _ \<Rightarrow> False)"

fun top_id :: "nat list \<Rightarrow> nat" where
  "top_id [] = 0"
| "top_id (x # xs) = max (Suc x) (top_id xs)"

lemma top_id_le: "top_id xs \<le> n \<longleftrightarrow> (\<forall>x \<in> set xs. x < n)"
  by (induction xs) auto

lemma top_id_less: "top_id xs < n \<longleftrightarrow> 0 < n \<and> (\<forall>x \<in> set xs. Suc x < n)"
  by (induction xs) auto

lemma top_id_upper: "x \<in> set xs \<Longrightarrow> x < top_id xs"
  using top_id_le[of xs "top_id xs"] by simp

definition rank :: "expr_arena \<Rightarrow> expr_id \<Rightarrow> nat \<times> nat \<times> nat" where
  "rank a i =
     (case ar_nodes a ! i of
        SumOut _ e \<Rightarrow> (Suc e, 0, 0)
      | IntegralOut _ e \<Rightarrow> (Suc e, 0, 0)
      | Ratio x _ \<Rightarrow> (Suc x, 0, 0)
      | Product l \<Rightarrow>
          (let cs = row (ar_lists a) l
           in (top_id cs, top_id (filter (is_product a) cs), if sorted cs then 0 else 1))
      | _ \<Rightarrow> (0, 0, 0))"

definition rank_less :: "((nat \<times> nat \<times> nat) \<times> (nat \<times> nat \<times> nat)) set" where
  "rank_less = less_than <*lex*> less_than <*lex*> less_than"

lemma wf_rank_less: "wf rank_less"
  by (simp add: rank_less_def wf_lex_prod)

lemma rank_top:
  assumes "arena_inv a" "i < length (ar_nodes a)"
  shows "fst (rank a i) \<le> i"
proof -
  have "c < i" if "c \<in> kids_of a i" for c by (rule node_ok_kids[OF arena_invD(6)[OF assms] that])
  then show ?thesis by (cases "ar_nodes a ! i") (auto simp: rank_def Let_def top_id_le Suc_le_eq)
qed

lemma rank_below:
  assumes "arena_inv a" "j < length (ar_nodes a)" "j < fst r"
  shows "(rank a j, r) \<in> rank_less"
  using rank_top[OF assms(1,2)] assms(3) by (cases r; cases "rank a j") (auto simp: rank_less_def)

text \<open>The rank only depends on entries the arena already had.\<close>

lemma grows_node:
  assumes "grows a b" "i < length (ar_nodes a)"
  shows "ar_nodes b ! i = ar_nodes a ! i"
  using ar_le_entries(1)[OF conjunct2[OF growsD[OF assms(1)]] assms(2)] by simp

lemma grows_kids:
  assumes "arena_inv a" "grows a b" "i < length (ar_nodes a)"
  shows "node_kids b (ar_nodes b ! i) = node_kids a (ar_nodes a ! i)"
  using node_view_mono(2)[OF arena_invD(6)[OF assms(1,3)] conjunct2[OF growsD[OF assms(2)]]] grows_node[OF assms(2,3)]
  by simp

lemma grows_rank:
  assumes "arena_inv a" "grows a b" "i < length (ar_nodes a)"
  shows "rank b i = rank a i"
proof (cases "ar_nodes a ! i")
  case (Product l)
  have lists: "row (ar_lists b) l = row (ar_lists a) l"
    using grows_kids[OF assms] grows_node[OF assms(2,3)] Product by simp
  have "is_product b c = is_product a c" if "c \<in> set (row (ar_lists a) l)" for c
  proof -
    have "c < i" by (rule node_ok_kids[OF arena_invD(6)[OF assms(1,3)]]) (simp add: Product that)
    then show ?thesis using grows_node[OF assms(2), of c] assms(3) by (simp add: is_product_def)
  qed
  then have "filter (is_product b) (row (ar_lists a) l) = filter (is_product a) (row (ar_lists a) l)"
    by (intro filter_cong refl)
  then show ?thesis using grows_node[OF assms(2,3)] Product lists by (simp add: rank_def Let_def)
qed (use grows_node[OF assms(2,3)] in \<open>simp_all add: rank_def\<close>)

section \<open>The state of the run\<close>

definition sp_ok :: "simplify_run \<Rightarrow> bool" where
  "sp_ok r \<longleftrightarrow> arena_inv (sp_arena r) \<and> free_memo_ok (sp_arena r) (sp_free r) \<and>
     (\<forall>i j. sp_memo r i = Some j \<longrightarrow> i < length (ar_nodes (sp_arena r)) \<and> j < length (ar_nodes (sp_arena r)) \<and>
        live (tree_of (sp_arena r) i) \<and> live (tree_of (sp_arena r) j) \<and>
        tree_equiv (tree_of (sp_arena r) j) (tree_of (sp_arena r) i))"

lemma sp_okD:
  assumes "sp_ok r"
  shows "arena_inv (sp_arena r)" "free_memo_ok (sp_arena r) (sp_free r)"
    "sp_memo r i = Some j \<Longrightarrow> i < length (ar_nodes (sp_arena r)) \<and> j < length (ar_nodes (sp_arena r)) \<and>
        live (tree_of (sp_arena r) i) \<and> live (tree_of (sp_arena r) j) \<and>
        tree_equiv (tree_of (sp_arena r) j) (tree_of (sp_arena r) i)"
  using assms by (simp_all add: sp_ok_def)

lemma sp_ok_arena:
  assumes "sp_ok r" "grows (sp_arena r) b"
  shows "sp_ok (r\<lparr>sp_arena := b\<rparr>)"
proof -
  note inv = sp_okD(1)[OF assms(1)]
  have "fold_memo_ok b free_list (sp_free r)"
    using fold_memo_ok_grows[OF _ inv assms(2)] sp_okD(2)[OF assms(1)] by (simp add: free_memo_ok_def)
  then show ?thesis
    using sp_okD(3)[OF assms(1)] grows_length[OF assms(2)] grows_tree[OF inv assms(2,2)] growsD[OF assms(2)]
    by (simp add: sp_ok_def free_memo_ok_def)
qed

text \<open>What a step that emits yields.\<close>

definition sp_result :: "simplify_run \<Rightarrow> (expr_id \<Rightarrow> expr_arena \<Rightarrow> bool) \<Rightarrow> (simplify_error \<Rightarrow> bool) \<Rightarrow>
    (simplify_error + expr_id) \<times> simplify_run \<Rightarrow> bool" where
  "sp_result r P E = (\<lambda>(res, r'). sp_ok r' \<and> grows (sp_arena r) (sp_arena r') \<and>
     (case res of Inl e \<Rightarrow> E e | Inr j \<Rightarrow> j < length (ar_nodes (sp_arena r')) \<and> P j (sp_arena r')))"

lemma sp_emit_result:
  assumes "sp_ok r" "holds (\<lambda>(j, b). grows (sp_arena r) b \<and> j < length (ar_nodes b) \<and> P j b) (f (sp_arena r))"
  shows "holds (sp_result r P E) (sp_emit f r)"
  unfolding sp_emit_def
  by (rule holds_bind[OF assms(2)]) (auto simp: sp_result_def sp_ok_arena[OF assms(1)])

lemma intern_derived_tree:
  assumes "arena_inv a" "node_ok a (length (ar_nodes a)) n"
  shows "holds (\<lambda>(i, b). grows a b \<and> i < length (ar_nodes b) \<and> tree_of b i = node_view a (tree_of a) n \<and>
    ar_nodes b ! i = n) (intern_derived n rl a)"
  unfolding intern_derived_def
proof (rule holds_bind[OF holds_conj[OF ar_intern_tree[OF assms] ar_intern_spec[OF assms]]])
  fix p assume p: "(case p of (i, b) \<Rightarrow> grows a b \<and> i < length (ar_nodes b) \<and> tree_of b i = node_view a (tree_of a) n) \<and>
    (case p of (i, b) \<Rightarrow> grows a b \<and> i < length (ar_nodes b) \<and> ar_nodes b ! i = n)"
  obtain i b where eq: "p = (i, b)" by (cases p)
  with p have b: "grows a b" "i < length (ar_nodes b)" "tree_of b i = node_view a (tree_of a) n" "ar_nodes b ! i = n" by auto
  let ?c = "ar_set_derivation_if_absent b i (dm_of_rule rl None)"
  have inv: "arena_inv b" using growsD[OF b(1)] by blast
  have c: "grows b ?c" by (rule set_derivation_grows(2)[OF inv])
  show "holds (\<lambda>(i, b). grows a b \<and> i < length (ar_nodes b) \<and> tree_of b i = node_view a (tree_of a) n \<and> ar_nodes b ! i = n)
      (case p of (i, a') \<Rightarrow> Done (i, if ar_len a' > ar_len a then ar_set_derivation_if_absent a' i (dm_of_rule rl None) else a'))"
    using b grows_trans[OF b(1) c] grows_length[OF c b(2)] grows_tree[OF inv c c b(2)] grows_node[OF c b(2)]
    by (simp add: eq)
qed

definition rule_result :: "simplify_run \<Rightarrow> expr_id \<Rightarrow> (simplify_error + expr_id) \<times> simplify_run \<Rightarrow> bool" where
  "rule_result r i = sp_result r
     (\<lambda>j b. live (tree_of b i) \<and> live (tree_of b j) \<and> tree_equiv (tree_of b j) (tree_of b i) \<and>
        (j = i \<or> (rank b j, rank (sp_arena r) i) \<in> rank_less))
     (\<lambda>e. \<not> live (tree_of (sp_arena r) i))"

text \<open>The part of the result that an emission without the run's state has.\<close>

definition rewritten :: "expr_arena \<Rightarrow> expr_id \<Rightarrow> expr_id \<Rightarrow> expr_arena \<Rightarrow> bool" where
  "rewritten a i j b \<longleftrightarrow> grows a b \<and> j < length (ar_nodes b) \<and> live (tree_of b j) \<and>
     tree_equiv (tree_of b j) (tree_of a i) \<and> (j = i \<or> (rank b j, rank a i) \<in> rank_less)"

lemma rule_emitted:
  assumes "sp_ok r" "i < length (ar_nodes (sp_arena r))" "live (tree_of (sp_arena r) i)"
    and "holds (\<lambda>(j, b). rewritten (sp_arena r) i j b) (f (sp_arena r))"
  shows "holds (rule_result r i) (sp_emit f r)"
  unfolding rule_result_def
proof (rule sp_emit_result[OF assms(1)], rule holds_mono[OF assms(4)], clarify)
  fix j b assume b: "rewritten (sp_arena r) i j b"
  then have "tree_of b i = tree_of (sp_arena r) i"
    using grows_tree[OF sp_okD(1)[OF assms(1)] _ _ assms(2)] unfolding rewritten_def by blast
  with b assms(3) show "grows (sp_arena r) b \<and> j < length (ar_nodes b) \<and> live (tree_of b i) \<and> live (tree_of b j) \<and>
      tree_equiv (tree_of b j) (tree_of b i) \<and> (j = i \<or> (rank b j, rank (sp_arena r) i) \<in> rank_less)"
    by (simp add: rewritten_def)
qed

lemma rule_same:
  assumes "sp_ok r" "i < length (ar_nodes (sp_arena r))" "live (tree_of (sp_arena r) i)"
  shows "rule_result r i (Inr i, r)"
  using assms sp_okD(1)[OF assms(1)] by (simp add: rule_result_def sp_result_def)

lemma rule_to_below:
  assumes "sp_ok r" "i < length (ar_nodes (sp_arena r))" "live (tree_of (sp_arena r) i)"
    and "j < fst (rank (sp_arena r) i)" "live (tree_of (sp_arena r) j)"
    and "tree_equiv (tree_of (sp_arena r) j) (tree_of (sp_arena r) i)"
  shows "rule_result r i (Inr j, r)"
proof -
  note inv = sp_okD(1)[OF assms(1)]
  have "j < length (ar_nodes (sp_arena r))" using rank_top[OF inv assms(2)] assms(2,4) by simp
  then show ?thesis using assms rank_below[OF inv _ assms(4)] inv by (simp add: rule_result_def sp_result_def)
qed

subsection \<open>Binders\<close>

fun tree_binder :: "binder_kind \<Rightarrow> nat list \<Rightarrow> expr_tree \<Rightarrow> expr_tree" where
  "tree_binder SumBinder vs t = TSumOut vs t"
| "tree_binder IntegralBinder vs t = TIntegralOut vs t"

lemma binder_simps [simp]:
  "node_view a f (make_node k vs e) = tree_binder k (row (ar_var_sets a) vs) (f e)"
  "live (tree_binder k xs t) \<longleftrightarrow> set xs \<subseteq> free_of t \<and> live t"
  "free_of (tree_binder k xs t) = free_of t - set xs"
  "node_ok a n (make_node k vs e) \<longleftrightarrow> vs < length (ar_var_sets a) \<and> e < n"
  "node_kids a (make_node k vs e) = [e]"
  by (cases k; simp)+

lemma rank_binder: "ar_nodes a ! i = make_node k vs e \<Longrightarrow> rank a i = (Suc e, 0, 0)"
  by (cases k) (simp_all add: rank_def)

lemma match_inner_iff: "match_inner k n = Some (vs, e) \<longleftrightarrow> n = make_node k vs e"
  by (cases k; cases n) auto

lemma merge_tree_binders:
  "set vs \<subseteq> free_of (tree_binder k ws e) \<Longrightarrow> set us = set vs \<union> set ws \<Longrightarrow>
    tree_equiv (tree_binder k us e) (tree_binder k vs (tree_binder k ws e))"
  by (cases k) (simp_all add: merge_binders merge_integrals)

lemma empty_tree_binder: "tree_equiv e (tree_binder k [] e)"
  by (cases k) (simp_all add: empty_binder)

lemma rewrite_binder_ok:
  assumes ok: "sp_ok r" and i: "i < length (ar_nodes (sp_arena r))" and kids: "kids_live (sp_arena r) i"
    and node: "ar_nodes (sp_arena r) ! i = make_node kind vs e"
  shows "holds (rule_result r i) (rewrite_binder kind i vs e r)"
proof -
  let ?a = "sp_arena r"
  note inv = sp_okD(1)[OF ok]
  have vs: "vs < length (ar_var_sets ?a)" "e < i" using arena_invD(6)[OF inv i] node by simp_all
  let ?bound = "ar_var_sets ?a ! vs"
  have e: "e < length (ar_nodes ?a)" "live (tree_of ?a e)" using vs(2) i kids node by (simp_all add: kids_live_def)
  have tree: "tree_of ?a i = tree_binder kind ?bound (tree_of ?a e)"
    using tree_of_node[OF inv i] node vs(1) by (simp add: row_def)
  have rank: "rank ?a i = (Suc e, 0, 0)" by (rule rank_binder[OF node])
  have set: "ar_var_set ?a vs = Done ?bound" using vs(1) by (simp add: ar_var_set_def)
  show ?thesis
  proof (cases "?bound = []")
    case True
    then have "rule_result r i (Inr e, r)"
      using e(2) tree empty_tree_binder[of "tree_of ?a e" kind] by (intro rule_to_below[OF ok i]) (simp_all add: rank)
    then show ?thesis using True by (simp add: rewrite_binder_def set)
  next
    case False
    obtain memo where free: "free_vars ?a e (sp_free r) = Done (free_list (tree_of ?a e), memo)" "free_memo_ok ?a memo"
      using free_vars_spec[OF inv e(1) sp_okD(2)[OF ok]] by blast
    let ?r = "r\<lparr>sp_free := memo\<rparr>"
    have ok': "sp_ok ?r" using ok free(2) by (simp add: sp_ok_def)
    let ?dead = "difference ?bound (free_list (tree_of ?a e))"
    have dead: "?dead = [] \<longleftrightarrow> set ?bound \<subseteq> free_of (tree_of ?a e)"
      by (auto simp: difference_def filter_empty_conv)
    have body: "ar_node ?a e = Done (ar_nodes ?a ! e)" using e(1) by (simp add: ar_node_def)
    show ?thesis
    proof (cases "?dead = []")
      case no_dead: False
      then have "rule_result r i (Inl (dead_error kind ?dead), ?r)"
        using ok' dead tree inv by (simp add: rule_result_def sp_result_def)
      then show ?thesis using False no_dead by (simp add: rewrite_binder_def set free(1))
    next
      case True
      then have sub: "set ?bound \<subseteq> free_of (tree_of ?a e)" using dead by simp
      then have live_i: "live (tree_of ?a i)" using e(2) by (simp add: tree)
      show ?thesis
      proof (cases "match_inner kind (ar_nodes ?a ! e)")
        case None
        have "rule_result ?r i (Inr i, ?r)" by (rule rule_same[OF ok']) (use i live_i in simp_all)
        then show ?thesis
          using False True None by (simp add: rewrite_binder_def set free(1) body rule_result_def sp_result_def)
      next
        case (Some p)
        obtain inner_v inner_e where p: "p = (inner_v, inner_e)" by (cases p)
        have inner: "ar_nodes ?a ! e = make_node kind inner_v inner_e" using Some p match_inner_iff by auto
        then have iv: "inner_v < length (ar_var_sets ?a)" "inner_e < e" using arena_invD(6)[OF inv e(1)] by simp_all
        let ?inner = "ar_var_sets ?a ! inner_v"
        have inner_set: "ar_var_set ?a inner_v = Done ?inner" using iv(1) by (simp add: ar_var_set_def)
        have tree_e: "tree_of ?a e = tree_binder kind ?inner (tree_of ?a inner_e)"
          using tree_of_node[OF inv e(1)] inner iv(1) by (simp add: row_def)
        have "holds (\<lambda>(j, b). rewritten ?a i j b)
          (run_bind (ar_intern_var_set ?a (?bound @ ?inner)) (\<lambda>(union, a).
            intern_derived (make_node kind union inner_e) (merge_tag kind) a))"
        proof (rule holds_bind[OF ar_intern_var_set_spec[OF inv]], clarify)
          fix u b assume b: "grows ?a b" "u < length (ar_var_sets b)"
            "ar_var_sets b ! u = sorted_list_of_set (set (?bound @ ?inner))"
          have invb: "arena_inv b" using growsD[OF b(1)] by blast
          have lens: "inner_e < length (ar_nodes b)"
            using grows_length[OF b(1)] iv(2) e(1) by simp
          have trees: "tree_of b inner_e = tree_of ?a inner_e"
            using grows_tree[OF inv b(1) b(1)] iv(2) e(1) by simp
          show "holds (\<lambda>(j, b). rewritten ?a i j b) (intern_derived (make_node kind u inner_e) (merge_tag kind) b)"
          proof (rule holds_mono[OF intern_derived_tree[OF invb]], use b(2) lens in simp, clarify)
            fix j c assume c: "grows b c" "j < length (ar_nodes c)"
              "tree_of c j = node_view b (tree_of b) (make_node kind u inner_e)"
              "ar_nodes c ! j = make_node kind u inner_e"
            have tj: "tree_of c j = tree_binder kind (ar_var_sets b ! u) (tree_of ?a inner_e)"
              using c(3) b(2) trees by (simp add: row_def)
            have "tree_equiv (tree_of c j) (tree_of ?a i)"
              unfolding tj tree tree_e by (rule merge_tree_binders) (use sub b(3) tree_e in simp_all)
            moreover have "live (tree_of c j)"
              using sub e(2) b(3) by (auto simp: tj tree_e)
            moreover have "(rank c j, rank ?a i) \<in> rank_less"
              using iv(2) by (simp add: rank rank_binder[OF c(4)] rank_less_def)
            ultimately show "rewritten ?a i j c"
              using grows_trans[OF b(1) c(1)] c(2) by (simp add: rewritten_def)
          qed
        qed
        then have "holds (rule_result ?r i)
          (sp_emit (\<lambda>a. run_bind (ar_intern_var_set a (?bound @ ?inner)) (\<lambda>(union, a).
            intern_derived (make_node kind union inner_e) (merge_tag kind) a)) ?r)"
          by (intro rule_emitted[OF ok']) (use i live_i in simp_all)
        then show ?thesis
          using False True Some p inner_set
          by (simp add: rewrite_binder_def set free(1) body rule_result_def sp_result_def)
      qed
    qed
  qed
qed

subsection \<open>Products\<close>

definition factors_of :: "expr_arena \<Rightarrow> expr_id \<Rightarrow> expr_id list" where
  "factors_of a c = (case ar_nodes a ! c of Product l \<Rightarrow> row (ar_lists a) l | _ \<Rightarrow> [c])"

lemma flat_factors_eq:
  assumes "arena_inv a" "\<forall>c \<in> set cs. c < length (ar_nodes a)"
  shows "flat_factors a cs = Done (concat (map (factors_of a) cs), \<exists>c \<in> set cs. is_product a c)"
  using assms(2)
proof (induction cs)
  case (Cons c cs)
  have c: "ar_node a c = Done (ar_nodes a ! c)" using Cons.prems by (simp add: ar_node_def)
  have ok: "node_ok a c (ar_nodes a ! c)" using arena_invD(6)[OF assms(1)] Cons.prems by simp
  show ?case
    using Cons ok c
    by (cases "ar_nodes a ! c") (simp_all add: factors_of_def is_product_def ar_list_def row_def)
qed simp

lemma factors_below:
  assumes "arena_inv a" "c < length (ar_nodes a)" "x \<in> set (factors_of a c)"
  shows "x < c \<or> x = c \<and> \<not> is_product a c"
  using assms(3) node_ok_kids[OF arena_invD(6)[OF assms(1,2)], of x]
  by (cases "ar_nodes a ! c") (auto simp: factors_of_def is_product_def)

lemma factors_live:
  assumes "arena_inv a" "c < length (ar_nodes a)" "x \<in> set (factors_of a c)" "live (tree_of a c)"
  shows "live (tree_of a x)"
  using assms(3,4) tree_of_node[OF assms(1,2)] by (cases "ar_nodes a ! c") (auto simp: factors_of_def)

text \<open>A product equals the product of the factors of its factors.\<close>


lemma factor_equiv:
  assumes "arena_inv a" "c < length (ar_nodes a)"
  shows "tree_equiv (TProduct (map (tree_of a) (factors_of a c))) (tree_of a c)"
  using tree_of_node[OF assms] by (cases "ar_nodes a ! c") (simp_all add: factors_of_def tree_equiv_def)

lemma flatten_equiv:
  assumes "arena_inv a" "\<forall>c \<in> set cs. c < length (ar_nodes a)"
  shows "tree_equiv (TProduct (map (tree_of a) (concat (map (factors_of a) cs)))) (TProduct (map (tree_of a) cs))"
  using assms(2)
proof (induction cs)
  case (Cons c cs)
  note f = tree_equivD[OF factor_equiv[OF assms(1)]] and ih = tree_equivD[OF Cons.IH]
  show ?case
    using f[of c] ih Cons.prems by (simp add: tree_equiv_def fun_eq_iff)
qed simp

lemma sorted_equiv:
  "tree_equiv (TProduct (map f (sort xs))) (TProduct (map f xs))" for xs :: "nat list"
proof (rule tree_equivI)
  fix num dv Vs P s
  have "prod_list (map g (insort x ys)) = g x * prod_list (map g ys)" for g :: "nat \<Rightarrow> real" and x ys
    by (induction ys) auto
  then have "prod_list (map g (sort xs)) = prod_list (map g xs)" for g :: "nat \<Rightarrow> real"
    by (induction xs) simp_all
  then show "tree_value num dv Vs P (TProduct (map f (sort xs))) s = tree_value num dv Vs P (TProduct (map f xs)) s"
    by (simp add: comp_def)
qed simp

lemma top_id_mono: "(\<And>x. x \<in> set xs \<Longrightarrow> \<exists>y \<in> set ys. x \<le> y) \<Longrightarrow> top_id xs \<le> top_id ys"
  using top_id_upper[of _ ys] by (force simp: top_id_le)

lemma top_id_strict:
  "ys \<noteq> [] \<Longrightarrow> (\<And>x. x \<in> set xs \<Longrightarrow> \<exists>y \<in> set ys. x < y) \<Longrightarrow> top_id xs < top_id ys"
  using top_id_upper[of _ ys] unfolding top_id_less by (cases ys) (auto, fastforce+)

lemma rewritten_same: "arena_inv a \<Longrightarrow> i < length (ar_nodes a) \<Longrightarrow> live (tree_of a i) \<Longrightarrow> rewritten a i i a"
  by (simp add: rewritten_def)

lemma rewritten_below:
  assumes "arena_inv a" "i < length (ar_nodes a)" "j < fst (rank a i)" "live (tree_of a j)"
    "tree_equiv (tree_of a j) (tree_of a i)"
  shows "rewritten a i j a"
proof -
  have "j < length (ar_nodes a)" using rank_top[OF assms(1,2)] assms(2,3) by simp
  then show ?thesis using assms rank_below[OF assms(1) _ assms(3)] by (simp add: rewritten_def)
qed

lemma flatten_rank:
  assumes inv: "arena_inv a" and below: "\<forall>c \<in> set cs. c < length (ar_nodes a)"
    and new: "new = sort (concat (map (factors_of a) cs))" and changed: "(\<exists>c \<in> set cs. is_product a c) \<or> new \<noteq> cs"
  shows "((top_id new, top_id (filter (is_product a) new), 0), (top_id cs, top_id (filter (is_product a) cs), if sorted cs then 0 else 1))
    \<in> rank_less"
proof -
  have of_cs: "\<exists>c \<in> set cs. x \<le> c \<and> (is_product a x \<longrightarrow> x < c \<and> is_product a c)" if "x \<in> set new" for x
  proof -
    have "x \<in> set (concat (map (factors_of a) cs))" using that unfolding new set_sort .
    then obtain c where c: "c \<in> set cs" "x \<in> set (factors_of a c)" by auto
    then have "x < c \<or> x = c \<and> \<not> is_product a c" using factors_below[OF inv] below by blast
    moreover have "is_product a c" if "x < c"
      using that c(2) by (auto simp: factors_of_def is_product_def split: expr_node.splits)
    ultimately show ?thesis using c(1) less_imp_le by blast
  qed
  have top: "top_id new \<le> top_id cs" by (rule top_id_mono) (use of_cs in blast)
  show ?thesis
  proof (cases "\<exists>c \<in> set cs. is_product a c")
    case True
    then have "top_id (filter (is_product a) new) < top_id (filter (is_product a) cs)"
      using of_cs by (intro top_id_strict) (auto simp: filter_empty_conv)
    with top show ?thesis by (auto simp: rank_less_def)
  next
    case False
    then have "map (factors_of a) cs = map (\<lambda>c. [c]) cs"
      by (auto simp: factors_of_def is_product_def split: expr_node.splits)
    then have "new = sort cs" unfolding new by (simp only: concat_map_singleton) simp
    moreover from this have "\<not> sorted cs" using changed False sorted_sort_id by metis
    moreover have "filter (is_product a) new = []" "filter (is_product a) cs = []"
      using False calculation(1) by (auto simp: filter_empty_conv)
    ultimately show ?thesis using top by (auto simp: rank_less_def)
  qed
qed

lemma rewrite_product_ok:
  assumes inv: "arena_inv a" and i: "i < length (ar_nodes a)" and kids: "kids_live a i"
    and node: "ar_nodes a ! i = Product l"
  shows "live (tree_of a i) \<and> holds (\<lambda>(j, b). rewritten a i j b) (rewrite_product i l a)"
proof -
  have l: "l < length (ar_lists a)" "\<forall>c \<in> set (ar_lists a ! l). c < i" using arena_invD(6)[OF inv i] node by simp_all
  let ?cs = "ar_lists a ! l"
  let ?flat = "concat (map (factors_of a) ?cs)"
  let ?new = "sort ?flat"
  have list: "ar_list a l = Done ?cs" using l(1) by (simp add: ar_list_def)
  have below: "\<forall>c \<in> set ?cs. c < length (ar_nodes a)" using l(2) i by auto
  have tree: "tree_of a i = TProduct (map (tree_of a) ?cs)"
    using tree_of_node[OF inv i] node l(1) by (simp add: row_def)
  have live_cs: "\<forall>c \<in> set ?cs. live (tree_of a c)" using kids node l(1) by (simp add: kids_live_def row_def)
  then have live_i: "live (tree_of a i)" by (simp add: tree)
  have rank_i: "rank a i = (top_id ?cs, top_id (filter (is_product a) ?cs), if sorted ?cs then 0 else 1)"
    using node l(1) by (simp add: rank_def row_def Let_def)
  have flat_eq: "flat_factors a ?cs = Done (?flat, \<exists>c \<in> set ?cs. is_product a c)"
    by (rule flat_factors_eq[OF inv below])
  have new_of: "\<exists>c \<in> set ?cs. x \<in> set (factors_of a c) \<and> (x < c \<or> x = c \<and> \<not> is_product a c)" if "x \<in> set ?new" for x
    using that factors_below[OF inv] below by fastforce
  have live_new: "live (tree_of a x)" "x < length (ar_nodes a)" "x < top_id ?cs" if x: "x \<in> set ?new" for x
  proof -
    obtain c where c: "c \<in> set ?cs" "x \<in> set (factors_of a c)" "x \<le> c" using new_of[OF x] by auto
    then show "live (tree_of a x)" using factors_live[OF inv] below live_cs by blast
    show "x < length (ar_nodes a)" "x < top_id ?cs"
      using c below top_id_upper[OF c(1)] by (auto intro: le_less_trans)
  qed
  have equiv: "tree_equiv (TProduct (map (tree_of a) ?new)) (tree_of a i)"
    unfolding tree by (rule tree_equiv_trans[OF sorted_equiv flatten_equiv[OF inv below]])
  have "rewritten a i (?cs ! 0) a" if "length ?cs = 1"
  proof -
    from that obtain c where c: "?cs = [c]" by (auto simp: length_Suc_conv)
    show ?thesis
      using c live_cs tree singleton_product[of "tree_of a c"] by (intro rewritten_below[OF inv i]) (simp_all add: rank_i)
  qed
  moreover have "rewritten a i (?new ! 0) a" if "length ?new = 1"
  proof -
    from that obtain c where c: "?new = [c]" unfolding One_nat_def length_Suc_conv by auto
    have "tree_equiv (tree_of a c) (TProduct [tree_of a c])" by (rule singleton_product)
    also have "tree_equiv \<dots> (tree_of a i)" using equiv unfolding c by simp
    finally show ?thesis
      using live_new[of c] unfolding c by (intro rewritten_below[OF inv i]) (simp_all add: rank_i)
  qed
  moreover have "holds (\<lambda>(j, b). rewritten a i j b)
      (run_bind (ar_intern_list a ?new) (\<lambda>(l', a). intern_derived (Product l') rl a))"
    if changed: "(\<exists>c \<in> set ?cs. is_product a c) \<or> ?new \<noteq> ?cs" for rl
  proof (rule holds_bind[OF ar_intern_list_spec[OF inv]], use live_new(2) in blast, clarify)
    fix l' b assume b: "grows a b" "l' < length (ar_lists b)" "ar_lists b ! l' = ?new" "ar_nodes b = ar_nodes a"
    have invb: "arena_inv b" using growsD[OF b(1)] by blast
    have trees: "map (tree_of b) ?new = map (tree_of a) ?new"
      using live_new(2) by (auto intro!: grows_tree[OF inv b(1) b(1)])
    show "holds (\<lambda>(j, b). rewritten a i j b) (intern_derived (Product l') rl b)"
    proof (rule holds_mono[OF intern_derived_tree[OF invb]], use b live_new(2) in simp, clarify)
      fix j c assume c: "grows b c" "j < length (ar_nodes c)" "tree_of c j = node_view b (tree_of b) (Product l')"
        "ar_nodes c ! j = Product l'"
      have gc: "grows a c" by (rule grows_trans[OF b(1) c(1)])
      have tj: "tree_of c j = TProduct (map (tree_of a) ?new)"
        using c(3) b(2,3) trees by (simp add: row_def)
      have lists: "row (ar_lists c) l' = ?new"
        using ar_le_entries(4)[OF conjunct2[OF growsD[OF c(1)]] b(2)] b(3) by (simp add: row_def)
      have "filter (is_product c) ?new = filter (is_product a) ?new"
        using live_new(2) grows_node[OF gc] by (intro filter_cong refl) (simp add: is_product_def)
      then have "rank c j = (top_id ?new, top_id (filter (is_product a) ?new), 0)"
        using c(4) lists by (simp add: rank_def Let_def)
      then have "(rank c j, rank a i) \<in> rank_less"
        using flatten_rank[OF inv below refl changed] by (simp add: rank_i)
      moreover have "live (tree_of c j)" using live_new(1) by (simp add: tj)
      ultimately show "rewritten a i j c"
        using gc c(2) equiv by (simp add: rewritten_def tj)
    qed
  qed
  ultimately show ?thesis
    using live_i rewritten_same[OF inv i live_i]
    by (auto simp: rewrite_product_def list flat_eq Let_def)
qed

subsection \<open>Ratios\<close>

lemma rewrite_ratio_ok:
  assumes inv: "arena_inv a" and i: "i < length (ar_nodes a)" and kids: "kids_live a i"
    and node: "ar_nodes a ! i = Ratio n d"
  shows "live (tree_of a i) \<and> holds (\<lambda>(j, b). rewritten a i j b) (rewrite_ratio i n d a)"
proof -
  have nd: "n < i" "d < i" using arena_invD(6)[OF inv i] node by simp_all
  then have n: "n < length (ar_nodes a)" using i by simp
  have tree: "tree_of a i = TRatio (tree_of a n) (tree_of a d)" using tree_of_node[OF inv i] node by simp
  have live_nd: "live (tree_of a n)" "live (tree_of a d)" using kids node by (simp_all add: kids_live_def)
  then have live_i: "live (tree_of a i)" by (simp add: tree)
  have body: "ar_node a n = Done (ar_nodes a ! n)" using n by (simp add: ar_node_def)
  show ?thesis
  proof (cases "\<exists>x y. ar_nodes a ! n = Ratio x y")
    case False
    then have "rewrite_ratio i n d a = Done (i, a)"
      by (cases "ar_nodes a ! n") (simp_all add: rewrite_ratio_def body)
    then show ?thesis using live_i rewritten_same[OF inv i live_i] by simp
  next
    case True
    then obtain x y where xy: "ar_nodes a ! n = Ratio x y" by blast
    then have below: "x < n" "y < n" using arena_invD(6)[OF inv n] by simp_all
    have tree_n: "tree_of a n = TRatio (tree_of a x) (tree_of a y)" using tree_of_node[OF inv n] xy by simp
    let ?l = "sort [y, d]"
    have l: "set ?l = {y, d}" "length ?l = 2" by auto
    have "holds (\<lambda>(j, b). rewritten a i j b) (run_bind (ar_intern_list a ?l) (\<lambda>(l, a).
        run_bind (ar_intern a (Product l)) (\<lambda>(yz, a). intern_derived (Ratio x yz) ''simplify.ratio_assoc_left'' a)))"
    proof (rule holds_bind[OF ar_intern_list_spec[OF inv]], use l below nd i in simp, clarify)
      fix l' b assume b: "grows a b" "l' < length (ar_lists b)" "ar_lists b ! l' = ?l" "ar_nodes b = ar_nodes a"
      have invb: "arena_inv b" using growsD[OF b(1)] by blast
      show "holds (\<lambda>(j, b). rewritten a i j b) (run_bind (ar_intern b (Product l'))
          (\<lambda>(yz, a). intern_derived (Ratio x yz) ''simplify.ratio_assoc_left'' a))"
      proof (rule holds_bind[OF ar_intern_tree[OF invb]], use b l below nd i in simp, clarify)
        fix yz c assume c: "grows b c" "yz < length (ar_nodes c)" "tree_of c yz = node_view b (tree_of b) (Product l')"
        have invc: "arena_inv c" using growsD[OF c(1)] by blast
        have gc: "grows a c" by (rule grows_trans[OF b(1) c(1)])
        have x: "x < length (ar_nodes a)" using below n by simp
        have trees: "tree_of b z = tree_of a z" if "z < i" for z
          using grows_tree[OF inv b(1) b(1), of z] that i by simp
        have yz: "tree_of c yz = TProduct (map (tree_of a) ?l)"
          using c(3) b(2,3) trees below nd by (simp add: row_def)
        show "holds (\<lambda>(j, b). rewritten a i j b) (intern_derived (Ratio x yz) ''simplify.ratio_assoc_left'' c)"
        proof (rule holds_mono[OF intern_derived_tree[OF invc]], use c(2) grows_length[OF gc x] in simp, clarify)
          fix j e assume e: "grows c e" "j < length (ar_nodes e)" "tree_of e j = node_view c (tree_of c) (Ratio x yz)"
            "ar_nodes e ! j = Ratio x yz"
          have tj: "tree_of e j = TRatio (tree_of a x) (TProduct (map (tree_of a) ?l))"
            using e(3) yz grows_tree[OF inv gc gc x] by simp
          have "tree_equiv (tree_of e j) (tree_of a i)"
            unfolding tj tree tree_n by (rule ratio_of_ratio) (use l in auto)
          moreover have "live (tree_of e j)" using live_nd l by (auto simp: tj tree_n)
          moreover have "(rank e j, rank a i) \<in> rank_less"
            using below by (simp add: rank_def node e(4) rank_less_def)
          ultimately show "rewritten a i j e"
            using grows_trans[OF gc e(1)] e(2) by (simp add: rewritten_def)
        qed
      qed
    qed
    then show ?thesis using live_i xy by (simp add: rewrite_ratio_def body)
  qed
qed

section \<open>The fixpoint of the rules\<close>

lemma apply_local_rules_ok:
  assumes ok: "sp_ok r" and i: "i < length (ar_nodes (sp_arena r))" and kids: "kids_live (sp_arena r) i"
  shows "holds (rule_result r i) (apply_local_rules i r)"
proof -
  let ?n = "ar_nodes (sp_arena r) ! i"
  note inv = sp_okD(1)[OF ok]
  have node: "ar_node (sp_arena r) i = Done ?n" using i by (simp add: ar_node_def)
  have same: "rule_result r i (Inr i, r)" if "live (tree_of (sp_arena r) i)" by (rule rule_same[OF ok i that])
  note tree = tree_of_node[OF inv i]
  show ?thesis
  proof (cases ?n)
    case (SumOut vs e)
    then show ?thesis using rewrite_binder_ok[OF ok i kids, of SumBinder vs e] by (simp add: apply_local_rules_def node)
  next
    case (IntegralOut vs e)
    then show ?thesis
      using rewrite_binder_ok[OF ok i kids, of IntegralBinder vs e] by (simp add: apply_local_rules_def node)
  next
    case (Product l)
    then show ?thesis
      using rewrite_product_ok[OF inv i kids Product] rule_emitted[OF ok i] by (simp add: apply_local_rules_def node)
  next
    case (Ratio x y)
    then show ?thesis
      using rewrite_ratio_ok[OF inv i kids Ratio] rule_emitted[OF ok i] by (simp add: apply_local_rules_def node)
  qed (use kids same tree in \<open>simp_all add: apply_local_rules_def node kids_live_def\<close>)
qed

text \<open>The result of the loop: the rules never end in an error on a live expression.\<close>

definition simplifies :: "simplify_run \<Rightarrow> expr_id \<Rightarrow> (simplify_error + expr_id) \<times> simplify_run \<Rightarrow> bool" where
  "simplifies r i = sp_result r
     (\<lambda>j b. live (tree_of b i) \<and> live (tree_of b j) \<and> tree_equiv (tree_of b j) (tree_of b i))
     (\<lambda>e. \<not> live (tree_of (sp_arena r) i))"

lemma simplifies_trans:
  assumes "sp_ok r" "sp_ok r'" "i < length (ar_nodes (sp_arena r))" "grows (sp_arena r) (sp_arena r')"
    and "j < length (ar_nodes (sp_arena r'))"
    and "live (tree_of (sp_arena r') i)" "live (tree_of (sp_arena r') j)" "tree_equiv (tree_of (sp_arena r') j) (tree_of (sp_arena r') i)"
    and "simplifies r' j p"
  shows "simplifies r i p"
proof -
  obtain res r'' where p: "p = (res, r'')" by (cases p)
  note inv = sp_okD(1)[OF assms(1)] and inv' = sp_okD(1)[OF assms(2)]
  have s: "sp_ok r''" "grows (sp_arena r') (sp_arena r'')"
    using assms(9) by (simp_all add: p simplifies_def sp_result_def)
  have trees: "tree_of (sp_arena r'') i = tree_of (sp_arena r') i" "tree_of (sp_arena r'') j = tree_of (sp_arena r') j"
    using grows_tree[OF inv' s(2) s(2)] grows_length[OF assms(4) assms(3)] assms(5) by blast+
  show ?thesis
    using assms(6-9) s grows_trans[OF assms(4) s(2)] trees
    by (cases res) (auto simp: p simplifies_def sp_result_def intro: tree_equiv_trans)
qed

lemma rules_loop_ok:
  assumes "sp_ok r" "i < length (ar_nodes (sp_arena r))" "kids_live (sp_arena r) i"
  shows "\<exists>m. rules_loop i r = Some m \<and> holds (simplifies r i) m"
  using assms
proof (induction "rank (sp_arena r) i" arbitrary: i r rule: wf_induct_rule[OF wf_rank_less])
  case 1
  show ?case
  proof (cases "apply_local_rules i r")
    case (Done p)
    obtain res r' where p: "p = (res, r')" by (cases p)
    have one: "rule_result r i (res, r')"
      using apply_local_rules_ok[OF "1.prems"] Done p by simp
    show ?thesis
    proof (cases res)
      case (Inl e)
      then show ?thesis
        using one by (subst rules_loop.simps) (simp add: Done p simplifies_def rule_result_def sp_result_def)
    next
      case (Inr j)
      have j: "sp_ok r'" "grows (sp_arena r) (sp_arena r')" "j < length (ar_nodes (sp_arena r'))"
        "live (tree_of (sp_arena r') i)" "live (tree_of (sp_arena r') j)" "tree_equiv (tree_of (sp_arena r') j) (tree_of (sp_arena r') i)"
        "j = i \<or> (rank (sp_arena r') j, rank (sp_arena r) i) \<in> rank_less"
        using one Inr by (simp_all add: rule_result_def sp_result_def)
      show ?thesis
      proof (cases "j = i")
        case True
        then show ?thesis
          using j Inr by (subst rules_loop.simps) (simp add: Done p simplifies_def sp_result_def)
      next
        case False
        then have less: "(rank (sp_arena r') j, rank (sp_arena r) i) \<in> rank_less" using j(7) by simp
        obtain m where m: "rules_loop j r' = Some m" "holds (simplifies r' j) m"
          using "1.hyps"[OF less j(1,3)] live_kids[OF sp_okD(1)[OF j(1)] j(3,5)] by blast
        have "holds (simplifies r i) m"
          by (rule holds_mono[OF m(2)]) (rule simplifies_trans[OF "1.prems"(1) j(1) "1.prems"(2) j(2-6)])
        then show ?thesis using m(1) False Inr by (subst rules_loop.simps) (simp add: Done p)
      qed
    qed
  next
    case NoIds
    then show ?thesis by (subst rules_loop.simps) simp
  qed (use apply_local_rules_ok[OF "1.prems"] in simp_all)
qed

lemma apply_rules_fixpoint_ok:
  assumes "sp_ok r" "i < length (ar_nodes (sp_arena r))" "kids_live (sp_arena r) i"
  shows "holds (simplifies r i) (apply_rules_fixpoint i r)"
  using rules_loop_ok[OF assms] by (auto simp: apply_rules_fixpoint_def)

section \<open>The recursion\<close>

lemma holds_pair_bind:
  "holds (\<lambda>(i, b). P i b) m \<Longrightarrow> (\<And>i b. P i b \<Longrightarrow> holds Q (f i b)) \<Longrightarrow> holds Q (run_bind m (\<lambda>(i, b). f i b))"
  by (cases m) auto

text \<open>A rebuilt node has the value of the old one, and is live when the old one is.\<close>

definition rebuilt_as :: "expr_arena \<Rightarrow> expr_id \<Rightarrow> expr_id \<times> expr_arena \<Rightarrow> bool" where
  "rebuilt_as b i = (\<lambda>(j, c). grows b c \<and> j < length (ar_nodes c) \<and> kids_live c j \<and>
     tree_equiv (tree_of c j) (tree_of b i) \<and> (live (tree_of c j) \<longleftrightarrow> live (tree_of b i)))"

lemma intern_rebuilt:
  assumes inv: "arena_inv b" and ok: "node_ok b (length (ar_nodes b)) n"
    and kids: "\<forall>c \<in> set (node_kids b n). live (tree_of b c)"
    and same: "tree_equiv (node_view b (tree_of b) n) (tree_of b i)"
      "live (node_view b (tree_of b) n) \<longleftrightarrow> live (tree_of b i)"
  shows "holds (rebuilt_as b i) (ar_intern b n)"
proof (rule holds_mono[OF holds_conj[OF ar_intern_tree[OF inv ok] ar_intern_spec[OF inv ok]]])
  fix p assume p: "(case p of (j, c) \<Rightarrow> grows b c \<and> j < length (ar_nodes c) \<and> tree_of c j = node_view b (tree_of b) n) \<and>
    (case p of (j, c) \<Rightarrow> grows b c \<and> j < length (ar_nodes c) \<and> ar_nodes c ! j = n)"
  obtain j c where eq: "p = (j, c)" by (cases p)
  with p have c: "grows b c" "j < length (ar_nodes c)" "tree_of c j = node_view b (tree_of b) n" "ar_nodes c ! j = n"
    by auto
  have k: "node_kids c n = node_kids b n" using node_view_mono(2)[OF ok conjunct2[OF growsD[OF c(1)]]] .
  have "tree_of c x = tree_of b x" if "x \<in> set (node_kids b n)" for x
    using grows_tree[OF inv c(1) c(1)] node_ok_kids[OF ok that] by simp
  then have "kids_live c j" using kids k c(4) by (simp add: kids_live_def)
  then show "rebuilt_as b i p" using c(1-3) same by (simp add: rebuilt_as_def eq)
qed

definition same_kid :: "expr_arena \<Rightarrow> expr_id \<Rightarrow> expr_id \<Rightarrow> bool" where
  "same_kid b c d \<longleftrightarrow> d < length (ar_nodes b) \<and> live (tree_of b c) \<and> live (tree_of b d) \<and>
     tree_equiv (tree_of b d) (tree_of b c)"

lemma same_kid_free: "same_kid b c d \<Longrightarrow> free_of (tree_of b d) = free_of (tree_of b c)"
  by (simp add: same_kid_def tree_equiv_def)

lemma same_kids_product:
  assumes "list_all2 (same_kid b) cs ds"
  shows "tree_equiv (TProduct (map (tree_of b) ds)) (TProduct (map (tree_of b) cs))"
    "\<forall>d \<in> set ds. d < length (ar_nodes b) \<and> live (tree_of b d)" "\<forall>c \<in> set cs. live (tree_of b c)"
proof -
  have "list_all2 tree_equiv (map (tree_of b) ds) (map (tree_of b) cs)"
    using assms by (induction rule: list_all2_induct) (auto simp: same_kid_def)
  then show "tree_equiv (TProduct (map (tree_of b) ds)) (TProduct (map (tree_of b) cs))" by (rule tree_equiv_list)
  show "\<forall>d \<in> set ds. d < length (ar_nodes b) \<and> live (tree_of b d)" "\<forall>c \<in> set cs. live (tree_of b c)"
    using assms by (induction rule: list_all2_induct) (auto simp: same_kid_def)
qed

lemma rebuild_node_ok:
  assumes inv: "arena_inv b" and i: "i < length (ar_nodes b)"
    and ds: "list_all2 (same_kid b) (node_kids b (ar_nodes b ! i)) ds"
  shows "holds (rebuilt_as b i) (rebuild_node i (ar_nodes b ! i) ds b)"
proof -
  note tree = tree_of_node[OF inv i]
  have ok: "node_ok b (length (ar_nodes b)) (ar_nodes b ! i)"
    by (rule node_ok_mono[OF arena_invD(6)[OF inv i] _ less_imp_le[OF i]]) (simp add: ar_le_refl)
  show ?thesis
  proof (cases "ar_nodes b ! i")
    case (Product l)
    note kids = same_kids_product[OF ds[unfolded Product node_kids.simps]]
    have "holds (rebuilt_as b i) (run_bind (ar_intern_list b ds) (\<lambda>(l, a). ar_intern a (Product l)))"
    proof (rule holds_pair_bind[OF ar_intern_list_spec[OF inv]])
      show "\<forall>c \<in> set ds. c < length (ar_nodes b)" using kids(2) by blast
      fix l' c assume "grows b c \<and> l' < length (ar_lists c) \<and> ar_lists c ! l' = ds \<and> ar_nodes c = ar_nodes b"
      then have c: "grows b c" "l' < length (ar_lists c)" "ar_lists c ! l' = ds" "ar_nodes c = ar_nodes b" by simp_all
      have invc: "arena_inv c" using growsD[OF c(1)] by blast
      have trees: "tree_of c x = tree_of b x" if "x < length (ar_nodes b)" for x
        by (rule grows_tree[OF inv c(1) c(1) that])
      then have view: "map (tree_of c) ds = map (tree_of b) ds" "row (ar_lists c) l' = ds"
        using kids(2) c(2,3) by (simp_all add: row_def)
      have ti: "tree_of c i = TProduct (map (tree_of b) (row (ar_lists b) l))" using trees[OF i] tree Product by simp
      have "holds (rebuilt_as c i) (ar_intern c (Product l'))"
        by (rule intern_rebuilt[OF invc]) (use c kids view ti trees in \<open>simp_all del: map_eq_conv\<close>)
      then show "holds (rebuilt_as b i) (ar_intern c (Product l'))"
        by (rule holds_mono) (auto simp: rebuilt_as_def trees[OF i] intro: grows_trans[OF c(1)])
    qed
    then show ?thesis by (simp add: rebuild_node_def Product)
  next
    case (Distribution vs c iv d p r)
    then show ?thesis using inv i by (simp add: rebuild_node_def rebuilt_as_def kids_live_def)
  next
    case (Kernel e vs p r)
    then obtain d where d: "ds = [d]" "same_kid b e d" using ds by (auto simp: list_all2_Cons1)
    then show ?thesis
      using ok tree Kernel by (auto simp: rebuild_node_def same_kid_def intro!: intern_rebuilt[OF inv] tree_equiv_intros)
  next
    case (SumOut vs e)
    then obtain d where d: "ds = [d]" "same_kid b e d" using ds by (auto simp: list_all2_Cons1)
    then show ?thesis
      using ok tree SumOut same_kid_free[OF d(2)]
      by (auto simp: rebuild_node_def same_kid_def intro!: intern_rebuilt[OF inv] tree_equiv_intros)
  next
    case (IntegralOut vs e)
    then obtain d where d: "ds = [d]" "same_kid b e d" using ds by (auto simp: list_all2_Cons1)
    then show ?thesis
      using ok tree IntegralOut same_kid_free[OF d(2)]
      by (auto simp: rebuild_node_def same_kid_def intro!: intern_rebuilt[OF inv] tree_equiv_intros)
  next
    case (Expectation f e)
    then obtain d where d: "ds = [d]" "same_kid b e d" using ds by (auto simp: list_all2_Cons1)
    then show ?thesis
      using ok tree Expectation by (auto simp: rebuild_node_def same_kid_def intro!: intern_rebuilt[OF inv] tree_equiv_intros)
  next
    case (Ratio x y)
    then obtain d e where d: "ds = [d, e]" "same_kid b x d" "same_kid b y e" using ds by (auto simp: list_all2_Cons1)
    then show ?thesis
      using ok tree Ratio by (auto simp: rebuild_node_def same_kid_def intro!: intern_rebuilt[OF inv] tree_equiv_pairs)
  next
    case (Contrast x y p)
    then obtain d e where d: "ds = [d, e]" "same_kid b x d" "same_kid b y e" using ds by (auto simp: list_all2_Cons1)
    then show ?thesis
      using ok tree Contrast by (auto simp: rebuild_node_def same_kid_def intro!: intern_rebuilt[OF inv] tree_equiv_pairs)
  qed
qed

lemma same_kid_grows:
  assumes "arena_inv a" "grows a b" "c < length (ar_nodes a)" "same_kid a c d"
  shows "same_kid b c d"
  using assms(4) grows_tree[OF assms(1,2,2)] grows_length[OF assms(2)] assms(3) by (simp add: same_kid_def)

definition kids_result :: "simplify_run \<Rightarrow> expr_id list \<Rightarrow> (simplify_error + expr_id list) \<times> simplify_run \<Rightarrow> bool" where
  "kids_result r cs = (\<lambda>(res, r'). sp_ok r' \<and> grows (sp_arena r) (sp_arena r') \<and>
     (case res of
        Inl e \<Rightarrow> \<exists>c \<in> set cs. \<not> live (tree_of (sp_arena r) c)
      | Inr ds \<Rightarrow> list_all2 (same_kid (sp_arena r')) cs ds))"

lemma try_map_simplifies:
  assumes "sp_ok r" "\<forall>c \<in> set cs. c < length (ar_nodes (sp_arena r))"
    and "\<And>c r. c \<in> set cs \<Longrightarrow> sp_ok r \<Longrightarrow> c < length (ar_nodes (sp_arena r)) \<Longrightarrow> holds (simplifies r c) (f c r)"
  shows "holds (kids_result r cs) (try_map f cs r)"
  using assms
proof (induction cs arbitrary: r)
  case Nil
  then show ?case using sp_okD(1) by (simp add: kids_result_def)
next
  case (Cons c cs)
  have c: "c < length (ar_nodes (sp_arena r))" using Cons.prems(2) by simp
  note inv = sp_okD(1)[OF Cons.prems(1)]
  show ?case
    unfolding try_map.simps
  proof (rule holds_try_bind[OF Cons.prems(3)[OF _ Cons.prems(1) c]])
    fix d r1 assume "simplifies r c (Inr d, r1)"
    then have r1: "sp_ok r1" "grows (sp_arena r) (sp_arena r1)" "same_kid (sp_arena r1) c d"
      by (simp_all add: simplifies_def sp_result_def same_kid_def)
    have same: "tree_of (sp_arena r1) x = tree_of (sp_arena r) x" if "x < length (ar_nodes (sp_arena r))" for x
      by (rule grows_tree[OF inv r1(2,2) that])
    show "holds (kids_result r (c # cs)) (try_bind (try_map f cs r1) (\<lambda>ys s2. Done (Inr (d # ys), s2)))"
    proof (rule holds_try_bind[OF Cons.IH[OF r1(1)]])
      show "\<forall>c \<in> set cs. c < length (ar_nodes (sp_arena r1))" using Cons.prems(2) grows_length[OF r1(2)] by simp
      fix ds r2 assume "kids_result r1 cs (Inr ds, r2)"
      then have r2: "sp_ok r2" "grows (sp_arena r1) (sp_arena r2)" "list_all2 (same_kid (sp_arena r2)) cs ds"
        by (simp_all add: kids_result_def)
      then show "holds (kids_result r (c # cs)) (Done (Inr (d # ds), r2))"
        using same_kid_grows[OF sp_okD(1)[OF r1(1)] r2(2) grows_length[OF r1(2) c] r1(3)] grows_trans[OF r1(2) r2(2)]
        by (simp add: kids_result_def)
    qed (use Cons.prems(2,3) same grows_trans[OF r1(2)] in \<open>auto simp: kids_result_def\<close>)
  qed (simp_all add: simplifies_def sp_result_def kids_result_def)
qed

definition rebuild_result :: "simplify_run \<Rightarrow> expr_id \<Rightarrow> (simplify_error + expr_id) \<times> simplify_run \<Rightarrow> bool" where
  "rebuild_result r i = sp_result r
     (\<lambda>j b. kids_live b j \<and> tree_equiv (tree_of b j) (tree_of b i) \<and> (live (tree_of b j) \<longleftrightarrow> live (tree_of b i)))
     (\<lambda>e. \<not> live (tree_of (sp_arena r) i))"

lemma not_live_kid:
  assumes "arena_inv a" "i < length (ar_nodes a)" "c \<in> kids_of a i" "\<not> live (tree_of a c)"
  shows "\<not> live (tree_of a i)"
  using live_kids[OF assms(1,2)] assms(3,4) by (auto simp: kids_live_def)

lemma rebuild_children_ok:
  assumes ok: "sp_ok r" and i: "i < length (ar_nodes (sp_arena r))"
    and rec: "\<And>c r. c < i \<Longrightarrow> sp_ok r \<Longrightarrow> c < length (ar_nodes (sp_arena r)) \<Longrightarrow> holds (simplifies r c) (f c r)"
  shows "holds (rebuild_result r i) (rebuild_children f i r)"
proof -
  let ?a = "sp_arena r"
  let ?cs = "node_kids ?a (ar_nodes ?a ! i)"
  note inv = sp_okD(1)[OF ok]
  have below: "c < i" if "c \<in> set ?cs" for c by (rule node_ok_kids[OF arena_invD(6)[OF inv i] that])
  have node: "ar_node ?a i = Done (ar_nodes ?a ! i)" using i by (simp add: ar_node_def)
  have "holds (rebuild_result r i) (try_bind (try_map f ?cs r) (\<lambda>cs r. sp_emit (rebuild_node i (ar_nodes ?a ! i) cs) r))"
  proof (rule holds_try_bind[OF try_map_simplifies[OF ok]])
    show "\<forall>c \<in> set ?cs. c < length (ar_nodes ?a)" using below i by (auto intro: less_trans)
    show "rebuild_result r i (Inl e, s)" if "kids_result r ?cs (Inl e, s)" for e s
      using that not_live_kid[OF inv i] by (auto simp: kids_result_def rebuild_result_def sp_result_def)
    fix ds r1 assume "kids_result r ?cs (Inr ds, r1)"
    then have r1: "sp_ok r1" "grows ?a (sp_arena r1)" "list_all2 (same_kid (sp_arena r1)) ?cs ds"
      by (simp_all add: kids_result_def)
    let ?b = "sp_arena r1"
    note invb = sp_okD(1)[OF r1(1)]
    have ib: "i < length (ar_nodes ?b)" by (rule grows_length[OF r1(2) i])
    have same: "ar_nodes ?b ! i = ar_nodes ?a ! i" "node_kids ?b (ar_nodes ?b ! i) = ?cs"
      using grows_node[OF r1(2) i] grows_kids[OF inv r1(2) i] by simp_all
    have "holds (rebuilt_as ?b i) (rebuild_node i (ar_nodes ?a ! i) ds ?b)"
      using rebuild_node_ok[OF invb ib, of ds] r1(3) unfolding same(2) unfolding same(1) .
    then have "holds (\<lambda>(j, c). grows ?b c \<and> j < length (ar_nodes c) \<and> (kids_live c j \<and>
        tree_equiv (tree_of c j) (tree_of c i) \<and> (live (tree_of c j) \<longleftrightarrow> live (tree_of c i))))
      (rebuild_node i (ar_nodes ?a ! i) ds ?b)"
      by (rule holds_mono) (auto simp: rebuilt_as_def grows_tree[OF invb _ _ ib])
    then have "holds (sp_result r1 (\<lambda>j c. kids_live c j \<and> tree_equiv (tree_of c j) (tree_of c i) \<and>
        (live (tree_of c j) \<longleftrightarrow> live (tree_of c i))) (\<lambda>_. False))
      (sp_emit (rebuild_node i (ar_nodes ?a ! i) ds) r1)"
      by (rule sp_emit_result[OF r1(1)])
    then show "holds (rebuild_result r i) (sp_emit (rebuild_node i (ar_nodes ?a ! i) ds) r1)"
      by (rule holds_mono) (auto simp: rebuild_result_def sp_result_def intro: grows_trans[OF r1(2)] split: sum.splits)
  qed (use rec below in blast)
  then show ?thesis by (simp add: rebuild_children_def node ar_child_ids_Done[OF inv i])
qed

lemma simplify_rec_ok:
  "sp_ok r \<Longrightarrow> i < length (ar_nodes (sp_arena r)) \<Longrightarrow> i < fuel \<Longrightarrow> holds (simplifies r i) (simplify_rec fuel i r)"
proof (induction fuel arbitrary: i r)
  case (Suc fuel)
  note ok = Suc.prems(1) and i = Suc.prems(2)
  note inv = sp_okD(1)[OF ok]
  show ?case
  proof (cases "sp_memo r i")
    case (Some j)
    then show ?thesis using sp_okD(3)[OF ok Some] ok inv by (simp add: simplifies_def sp_result_def)
  next
    case None
    have "holds (simplifies r i) (try_bind (rebuild_children (simplify_rec fuel) i r) (\<lambda>rebuilt r.
        try_bind (apply_rules_fixpoint rebuilt r) (\<lambda>simplified r.
          Done (Inr simplified, r\<lparr>sp_memo := (sp_memo r)(i \<mapsto> simplified)\<rparr>))))"
    proof (rule holds_try_bind[OF rebuild_children_ok[OF ok i]])
      show "holds (simplifies r c) (simplify_rec fuel c r)"
        if "c < i" "sp_ok r" "c < length (ar_nodes (sp_arena r))" for c r
        by (rule Suc.IH[OF that(2,3)]) (use that Suc.prems(3) in simp)
      show "simplifies r i (Inl e, s)" if "rebuild_result r i (Inl e, s)" for e s
        using that by (simp add: rebuild_result_def simplifies_def sp_result_def)
      fix j r1 assume "rebuild_result r i (Inr j, r1)"
      then have r1: "sp_ok r1" "grows (sp_arena r) (sp_arena r1)" "j < length (ar_nodes (sp_arena r1))"
        "kids_live (sp_arena r1) j" "tree_equiv (tree_of (sp_arena r1) j) (tree_of (sp_arena r1) i)"
        "live (tree_of (sp_arena r1) j) \<longleftrightarrow> live (tree_of (sp_arena r1) i)"
        by (simp_all add: rebuild_result_def sp_result_def)
      note inv1 = sp_okD(1)[OF r1(1)]
      have i1: "i < length (ar_nodes (sp_arena r1))" by (rule grows_length[OF r1(2) i])
      have live_i: "live (tree_of (sp_arena r1) i) \<longleftrightarrow> live (tree_of (sp_arena r) i)"
        using grows_tree[OF inv r1(2,2) i] by simp
      show "holds (simplifies r i) (try_bind (apply_rules_fixpoint j r1) (\<lambda>simplified r.
          Done (Inr simplified, r\<lparr>sp_memo := (sp_memo r)(i \<mapsto> simplified)\<rparr>)))"
      proof (rule holds_try_bind[OF apply_rules_fixpoint_ok[OF r1(1,3,4)]])
        show "simplifies r i (Inl e, s)" if "simplifies r1 j (Inl e, s)" for e s
          using that r1(6) live_i grows_trans[OF r1(2)] by (simp add: simplifies_def sp_result_def)
        fix k r2 assume "simplifies r1 j (Inr k, r2)"
        then have r2: "sp_ok r2" "grows (sp_arena r1) (sp_arena r2)" "k < length (ar_nodes (sp_arena r2))"
          "live (tree_of (sp_arena r2) j)" "live (tree_of (sp_arena r2) k)"
          "tree_equiv (tree_of (sp_arena r2) k) (tree_of (sp_arena r2) j)"
          by (simp_all add: simplifies_def sp_result_def)
        have trees: "tree_of (sp_arena r2) j = tree_of (sp_arena r1) j" "tree_of (sp_arena r2) i = tree_of (sp_arena r1) i"
          using grows_tree[OF inv1 r2(2,2)] r1(3) i1 by simp_all
        have k: "live (tree_of (sp_arena r2) i)" "tree_equiv (tree_of (sp_arena r2) k) (tree_of (sp_arena r2) i)"
          using r1(5,6) r2(4,6) trees tree_equiv_trans by auto
        have "sp_ok (r2\<lparr>sp_memo := (sp_memo r2)(i \<mapsto> k)\<rparr>)"
          using r2(1,3,5) k grows_length[OF r2(2) i1] by (simp add: sp_ok_def)
        then show "holds (simplifies r i) (Done (Inr k, r2\<lparr>sp_memo := (sp_memo r2)(i \<mapsto> k)\<rparr>))"
          using r2(3,5) k grows_trans[OF r1(2) r2(2)] by (simp add: simplifies_def sp_result_def)
      qed
    qed
    then show ?thesis by (simp add: None)
  qed
qed simp

theorem ar_simplify_spec:
  assumes "arena_inv a" "i < length (ar_nodes a)"
  shows "holds (\<lambda>(res, b). grows a b \<and>
    (case res of
       Inl e \<Rightarrow> \<not> live (tree_of a i)
     | Inr e \<Rightarrow> live (tree_of a i) \<and> e < length (ar_nodes b) \<and> live (tree_of b e) \<and>
         tree_equiv (tree_of b e) (tree_of a i))) (ar_simplify a i)"
  unfolding ar_simplify_def
proof (rule holds_pair_bind)
  let ?r = "\<lparr>sp_arena = a, sp_memo = (\<lambda>_. None), sp_free = (\<lambda>_. None)\<rparr>"
  have "sp_ok ?r" using assms(1) by (simp add: sp_ok_def free_memo_ok_def fold_memo_ok_def)
  then show "holds (\<lambda>(res, r'). simplifies ?r i (res, r')) (simplify_rec (Suc i) i ?r)"
    using simplify_rec_ok[of ?r i "Suc i"] assms(2) by simp
  fix res r' assume "simplifies ?r i (res, r')"
  then show "holds (\<lambda>(res, b). grows a b \<and> (case res of Inl e \<Rightarrow> \<not> live (tree_of a i)
      | Inr e \<Rightarrow> live (tree_of a i) \<and> e < length (ar_nodes b) \<and> live (tree_of b e) \<and>
         tree_equiv (tree_of b e) (tree_of a i))) (Done (res, sp_arena r'))"
    using grows_tree[OF assms(1) _ _ assms(2)] by (cases res) (auto simp: simplifies_def sp_result_def)
qed

section \<open>Ratios of marginals\<close>

text \<open>The expression under the outer kernels, sums and integrals, and the variables these bind.\<close>

fun core_of :: "expr_tree \<Rightarrow> expr_tree" where
  "core_of (TKernel b _ _ _) = core_of b"
| "core_of (TSumOut _ e) = core_of e"
| "core_of (TIntegralOut _ e) = core_of e"
| "core_of t = t"

fun outer_vars :: "expr_tree \<Rightarrow> nat set" where
  "outer_vars (TKernel b _ _ _) = outer_vars b"
| "outer_vars (TSumOut vs e) = set vs \<union> outer_vars e"
| "outer_vars (TIntegralOut vs e) = set vs \<union> outer_vars e"
| "outer_vars t = {}"

lemma tree_binder_outer [simp]:
  "core_of (tree_binder k vs t) = core_of t" "outer_vars (tree_binder k vs t) = set vs \<union> outer_vars t"
  by (cases k; simp)+

lemma outer_free: "free_of t = free_of (core_of t) - outer_vars t"
  by (induction t) auto

lemma finite_outer [simp]: "finite (outer_vars t)"
  by (induction t) auto

lemma outer_value:
  "live t \<Longrightarrow> tree_value num dv Vs P t = marg dv (outer_vars t) (tree_value num dv Vs P (core_of t))"
proof (induction t)
  case (TKernel b vs p r)
  then show ?case by (simp add: fun_eq_iff)
next
  case (TSumOut vs e)
  then have "set vs \<inter> outer_vars e = {}" using outer_free[of e] by auto
  then show ?case using TSumOut unfolding tree_value_binders by (simp add: marg_union)
next
  case (TIntegralOut vs e)
  then have "set vs \<inter> outer_vars e = {}" using outer_free[of e] by auto
  then show ?case using TIntegralOut unfolding tree_value_binders by (simp add: marg_union)
qed simp_all

lemma peel_loop_ok:
  assumes inv: "arena_inv a"
  shows "i < length (ar_nodes a) \<Longrightarrow> i < fuel \<Longrightarrow>
    \<exists>j vs. peel_loop fuel a i summed = Done (j, sorted_dedup (summed @ vs)) \<and> j < length (ar_nodes a) \<and>
      tree_of a j = core_of (tree_of a i) \<and> set vs = outer_vars (tree_of a i)"
proof (induction fuel arbitrary: i summed)
  case (Suc fuel)
  let ?n = "ar_nodes a ! i"
  note tree = tree_of_node[OF inv Suc.prems(1)] and ok = arena_invD(6)[OF inv Suc.prems(1)]
  have node: "ar_node a i = Done ?n" using Suc.prems(1) by (simp add: ar_node_def)
  have peeled: ?case if k: "?n = make_node k ws e" for k ws e
  proof -
    let ?ws = "ar_var_sets a ! ws"
    have e: "ws < length (ar_var_sets a)" "e < i" using ok k by simp_all
    have t: "tree_of a i = tree_binder k ?ws (tree_of a e)" using tree k e(1) by (simp add: row_def)
    have bound: "ar_var_set a ws = Done ?ws" using e(1) by (simp add: ar_var_set_def)
    obtain j vs where j: "peel_loop fuel a e (summed @ ?ws) = Done (j, sorted_dedup ((summed @ ?ws) @ vs))"
      "j < length (ar_nodes a)" "tree_of a j = core_of (tree_of a e)" "set vs = outer_vars (tree_of a e)"
      using Suc.IH[of e "summed @ ?ws"] e(2) Suc.prems(1,2) by (auto simp: less_Suc_eq)
    have "peel_loop (Suc fuel) a i summed = peel_loop fuel a e (summed @ ?ws)"
      using k by (cases k) (simp_all add: node bound)
    then show ?thesis using j t by (intro exI[of _ j] exI[of _ "?ws @ vs"]) simp
  qed
  have other: ?case if "peel_loop (Suc fuel) a i summed = Done (i, sorted_dedup summed)"
      "core_of (tree_of a i) = tree_of a i" "outer_vars (tree_of a i) = {}"
    using that Suc.prems(1) by (intro exI[of _ i] exI[of _ "[]"]) simp
  show ?case
  proof (cases ?n)
    case (Kernel e vs p r)
    then have e: "e < i" "tree_of a i = TKernel (tree_of a e) (row (ar_var_sets a) vs) (row (ar_populations a) p) r"
      using ok tree by simp_all
    then show ?thesis using Suc.IH[of e summed] Suc.prems Kernel by (simp add: node)
  next
    case (SumOut vs e)
    then show ?thesis using peeled[of SumBinder vs e] by simp
  next
    case (IntegralOut vs e)
    then show ?thesis using peeled[of IntegralBinder vs e] by simp
  qed (use other tree in \<open>simp_all add: node\<close>)
qed simp

lemma peel_marginalisation_ok:
  assumes "arena_inv a" "i < length (ar_nodes a)"
  shows "\<exists>j. peel_marginalisation a i = Done (j, sorted_list_of_set (outer_vars (tree_of a i))) \<and>
    j < length (ar_nodes a) \<and> tree_of a j = core_of (tree_of a i)"
proof -
  obtain j vs where j: "peel_loop (Suc i) a i [] = Done (j, sorted_dedup vs)" "j < length (ar_nodes a)"
    "tree_of a j = core_of (tree_of a i)" "set vs = outer_vars (tree_of a i)"
    using peel_loop_ok[OF assms, of "Suc i" "[]"] by auto
  then show ?thesis
    by (intro exI[of _ j]) (simp add: peel_marginalisation_def sorted_dedup_eq del: peel_loop.simps)
qed

text \<open>A marginal over more variables that is zero makes the marginal over fewer zero.\<close>

lemma marg_zero_mono:
  assumes "finite T" "S \<subseteq> T" "\<And>v. finite (dv v)" "\<And>v. v \<in> T \<Longrightarrow> s v \<in> dv v" "\<And>s. 0 \<le> f s"
    and "marg dv T f s = (0 :: real)"
  shows "marg dv S f s = 0"
proof -
  have T: "T = (T - S) \<union> S" using assms(2) by blast
  have "marg dv T f s = marg dv (T - S) (marg dv S f) s"
    by (subst T, subst marg_union) (use assms(1) in auto)
  then have zero: "(\<Sum>\<tau> \<in> PiE (T - S) dv. marg dv S f (override_on s \<tau> (T - S))) = 0"
    using assms(6) by (simp add: marg_def)
  have "0 \<le> marg dv S f u" for u unfolding marg_def by (intro sum_nonneg assms(5))
  moreover have "finite (PiE (T - S) dv)" by (intro finite_PiE) (use assms(1,3) in auto)
  ultimately have all: "marg dv S f (override_on s \<tau> (T - S)) = 0" if "\<tau> \<in> PiE (T - S) dv" for \<tau>
    using zero that by (simp add: sum_nonneg_eq_0_iff)
  let ?\<tau> = "restrict s (T - S)"
  have "override_on s ?\<tau> (T - S) = s" by (auto simp: override_on_def fun_eq_iff)
  moreover have "?\<tau> \<in> PiE (T - S) dv" using assms(4) by auto
  ultimately show ?thesis using all[of ?\<tau>] by simp
qed

theorem marginal_conditional_spec:
  assumes "arena_inv a" "n < length (ar_nodes a)" "d < length (ar_nodes a)"
  shows "\<exists>m. marginal_conditional_of a n d = Done m \<and>
    (m \<noteq> None \<longleftrightarrow> core_of (tree_of a n) = core_of (tree_of a d) \<and> outer_vars (tree_of a n) \<subset> outer_vars (tree_of a d)) \<and>
    (\<forall>mc. m = Some mc \<longrightarrow> mc_joint mc < length (ar_nodes a) \<and> tree_of a (mc_joint mc) = core_of (tree_of a n) \<and>
       mc_numerator_summed mc = sorted_list_of_set (outer_vars (tree_of a n)) \<and>
       mc_denominator_summed mc = sorted_list_of_set (outer_vars (tree_of a d)))"
proof -
  let ?V = "outer_vars (tree_of a n)" and ?W = "outer_vars (tree_of a d)"
  obtain j where j: "peel_marginalisation a n = Done (j, sorted_list_of_set ?V)" "j < length (ar_nodes a)"
    "tree_of a j = core_of (tree_of a n)"
    using peel_marginalisation_ok[OF assms(1,2)] by blast
  obtain k where k: "peel_marginalisation a d = Done (k, sorted_list_of_set ?W)" "k < length (ar_nodes a)"
    "tree_of a k = core_of (tree_of a d)"
    using peel_marginalisation_ok[OF assms(1,3)] by blast
  have "j = k \<longleftrightarrow> core_of (tree_of a n) = core_of (tree_of a d)"
    using j(2,3) k(2,3) tree_of_inj[OF assms(1)] by metis
  moreover have "card ?V < card ?W \<and> ?V \<subseteq> ?W \<longleftrightarrow> ?V \<subset> ?W"
    using psubset_card_mono[of ?W ?V] by auto
  ultimately show ?thesis
    using j k by (auto simp: marginal_conditional_of_def list_all_iff Let_def subset_iff)
qed

end
