(* ===== verification/Expression_Properties.thy ===== *)
theory Expression_Properties
  imports Simplify_Value "HOL-Library.Code_Target_Numeral"
begin

text \<open>
  The properties of the operations on stored expressions: copying an expression into another arena
  (\<open>CausalExprArena::import\<close>), simplifying it, and recognising the ratio of two marginals of one joint as a
  conditional distribution.
\<close>

section \<open>Example arenas\<close>

definition table_index :: "'a list \<Rightarrow> 'a \<Rightarrow> nat option" where
  "table_index xs = map_of (zip xs [0..<length xs])"

lemma pool_inv_table: "distinct xs \<Longrightarrow> length xs \<le> id_space \<Longrightarrow> pool_inv xs (table_index xs)"
  by (auto simp: pool_inv_def table_index_def map_of_zip_nth in_set_zip dest!: map_of_SomeD)

definition arena_of :: "expr_node list \<Rightarrow> variable_id list list \<Rightarrow> expr_id list list \<Rightarrow> expr_arena" where
  "arena_of nodes sets ls = ar_new\<lparr>ar_nodes := nodes, ar_node_index := table_index nodes,
     ar_var_sets := sets, ar_var_set_index := table_index sets, ar_lists := ls, ar_list_index := table_index ls,
     ar_interventions := [[]], ar_intervention_index := table_index [[]],
     ar_populations := [''''], ar_population_index := table_index ['''']\<rparr>"

lemma arena_of_inv:
  assumes "distinct nodes" "distinct sets" "distinct ls"
    and "length nodes \<le> id_space" "length sets \<le> id_space" "length ls \<le> id_space"
    and "\<forall>vs \<in> set sets. sorted vs \<and> distinct vs" "\<forall>l \<in> set ls. \<forall>c \<in> set l. c < length nodes"
    and "\<forall>i < length nodes. node_ok (arena_of nodes sets ls) i (nodes ! i)"
  shows "arena_inv (arena_of nodes sets ls)"
  using assms by (simp add: arena_inv_def arena_of_def ar_new_def pool_inv_table id_space_def)

text \<open>A sum over one variable of a sum over another, as in the test \<open>merge_nested_sum_out\<close>.\<close>

definition nested_sum :: expr_arena where
  "nested_sum = arena_of [Distribution 3 0 0 Observational 0 None, SumOut 2 0, SumOut 1 1] [[], [1], [2], [1, 2]] []"

abbreviation joint_tree :: expr_tree where
  "joint_tree \<equiv> TDistribution [1, 2] [] [] Observational [] None"

lemma nested_sum_ok:
  "arena_inv nested_sum" "length (ar_nodes nested_sum) = 3" "tree_of nested_sum 0 = joint_tree"
  "tree_of nested_sum 1 = TSumOut [2] joint_tree" "tree_of nested_sum 2 = TSumOut [1] (TSumOut [2] joint_tree)"
proof -
  show inv: "arena_inv nested_sum"
    unfolding nested_sum_def by (rule arena_of_inv) (auto simp: id_space_def arena_of_def less_Suc_eq)
  show len: "length (ar_nodes nested_sum) = 3" by (simp add: nested_sum_def arena_of_def)
  note view = nested_sum_def arena_of_def ar_new_def row_def
  show t0: "tree_of nested_sum 0 = joint_tree"
    using tree_of_node[OF inv, of 0] len by (simp add: view)
  show t1: "tree_of nested_sum 1 = TSumOut [2] joint_tree"
    using tree_of_node[OF inv, of 1] len t0 by (simp add: view)
  show "tree_of nested_sum 2 = TSumOut [1] (TSumOut [2] joint_tree)"
    using tree_of_node[OF inv, of 2] len t1 by (simp add: view)
qed

section \<open>Simplification\<close>

text \<open>C5: simplifying an expression always ends, without changing an expression that
  was already there, and it panics only when the 32-bit id space of the arena is exhausted. Short of that, it is refused exactly when some binder of the expression binds a variable that its body does
  not depend on; otherwise the result has the same free variables and, in every model and at
  every environment, the same value, and again no binder binds a variable its body does not depend on.\<close>

theorem simplify_keeps_value:
  assumes "arena_inv a" "i < length (ar_nodes a)"
  shows "holds (\<lambda>(res, b). arena_inv b \<and>
      (\<forall>j < length (ar_nodes a). j < length (ar_nodes b) \<and> tree_of b j = tree_of a j) \<and>
      (case res of
         Inl _ \<Rightarrow> \<not> live (tree_of a i)
       | Inr e \<Rightarrow> live (tree_of a i) \<and> e < length (ar_nodes b) \<and> live (tree_of b e) \<and>
           free_of (tree_of b e) = free_of (tree_of a i) \<and>
           (\<forall>num dv Vs P s. tree_value num dv Vs P (tree_of b e) s = tree_value num dv Vs P (tree_of a i) s)))
    (ar_simplify a i)"
proof (rule holds_mono[OF ar_simplify_spec[OF assms]], clarify)
  fix res b assume b: "grows a b" and res: "case res of Inl _ \<Rightarrow> \<not> live (tree_of a i)
    | Inr e \<Rightarrow> live (tree_of a i) \<and> e < length (ar_nodes b) \<and> live (tree_of b e) \<and> tree_equiv (tree_of b e) (tree_of a i)"
  have "\<forall>j < length (ar_nodes a). j < length (ar_nodes b) \<and> tree_of b j = tree_of a j"
    using grows_length[OF b] grows_tree[OF assms(1) b b] by simp
  moreover have "arena_inv b" using growsD[OF b] by simp
  ultimately show "arena_inv b \<and> (\<forall>j < length (ar_nodes a). j < length (ar_nodes b) \<and> tree_of b j = tree_of a j) \<and>
      (case res of Inl _ \<Rightarrow> \<not> live (tree_of a i)
       | Inr e \<Rightarrow> live (tree_of a i) \<and> e < length (ar_nodes b) \<and> live (tree_of b e) \<and>
           free_of (tree_of b e) = free_of (tree_of a i) \<and>
           (\<forall>num dv Vs P s. tree_value num dv Vs P (tree_of b e) s = tree_value num dv Vs P (tree_of a i) s))"
    using res unfolding tree_equiv_def by (simp split: sum.splits)
qed

lemma nested_sum_simplified:
  "(case ar_simplify nested_sum 2 of Done (Inr e, b) \<Rightarrow> ar_nodes b ! e = SumOut 3 0 | _ \<Rightarrow> False)"
  by code_simp

theorem simplify_keeps_value_witness:
  "\<exists>e b. ar_simplify nested_sum 2 = Done (Inr e, b) \<and> ar_nodes b ! e = SumOut 3 0 \<and>
    (\<forall>num dv Vs P s. tree_value num dv Vs P (tree_of b e) s = marg dv {1} (marg dv {2} (tree_value num dv Vs P joint_tree)) s)"
proof -
  obtain res b where ran: "ar_simplify nested_sum 2 = Done (res, b)"
    using nested_sum_simplified by (auto split: run.splits)
  then obtain e where "res = Inr e" "ar_nodes b ! e = SumOut 3 0" using nested_sum_simplified by (cases res) auto
  with ran have run: "ar_simplify nested_sum 2 = Done (Inr e, b)" "ar_nodes b ! e = SumOut 3 0" by simp_all
  have val_eq: "tree_value num dv Vs P (tree_of nested_sum 2) s =
      marg dv {1} (marg dv {2} (tree_value num dv Vs P joint_tree)) s" for num dv Vs P s
    unfolding nested_sum_ok(5) tree_value_binders by simp
  show ?thesis
    using simplify_keeps_value[OF nested_sum_ok(1), of 2] run nested_sum_ok(2) unfolding val_eq by auto
qed

text \<open>The denominator that \<open>rewrite_ratio\<close> interns is not itself simplified, so simplifying twice can change
  the expression again: the comment of \<open>apply_rules_fixpoint\<close> says its children are already simplified.\<close>

definition nested_ratio :: expr_arena where
  "nested_ratio = arena_of
     [Distribution 0 0 0 Observational 0 None, Product 0, Ratio 0 0, Ratio 2 1] [[]] [[0, 0]]"

theorem simplify_again_changes:
  "(case ar_simplify nested_ratio 3 of
      Done (Inr e, b) \<Rightarrow> (case ar_simplify b e of Done (Inr e', _) \<Rightarrow> e' \<noteq> e | _ \<Rightarrow> False)
    | _ \<Rightarrow> False)"
  by code_simp

section \<open>Copying an expression\<close>

text \<open>C17: importing an expression of one arena into another never panics unless the id space is exhausted, keeps every
  expression the target arena had, and returns the id of the same expression: the import unfolds to
  exactly what it was in the source, and importing it again returns the same id.\<close>

theorem import_copies_expression:
  assumes "arena_inv source" "arena_inv a" "i < length (ar_nodes source)"
  shows "holds (\<lambda>(j, b). arena_inv b \<and> j < length (ar_nodes b) \<and> tree_of b j = tree_of source i \<and>
      (\<forall>k < length (ar_nodes a). k < length (ar_nodes b) \<and> tree_of b k = tree_of a k) \<and>
      holds (\<lambda>(j', b'). j' = j) (ar_import source i b))
    (ar_import source i a)"
proof (rule holds_mono[OF ar_import_spec[OF assms]], clarify, intro conjI allI impI)
  fix j b assume b: "grows a b" "j < length (ar_nodes b)" "tree_of b j = tree_of source i"
  show invb: "arena_inv b" using growsD[OF b(1)] by blast
  show "k < length (ar_nodes b)" "tree_of b k = tree_of a k" if "k < length (ar_nodes a)" for k
    using grows_length[OF b(1) that] grows_tree[OF assms(2) b(1,1) that] by simp_all
  show "holds (\<lambda>(j', b'). j' = j) (ar_import source i b)"
  proof (rule holds_mono[OF ar_import_spec[OF assms(1) invb assms(3)]], clarify)
    fix j' b' assume b': "grows b b'" "j' < length (ar_nodes b')" "tree_of b' j' = tree_of source i"
    have "tree_of b' j = tree_of b' j'" using grows_tree[OF invb b'(1,1) b(2)] b(3) b'(3) by simp
    then show "j' = j" using tree_of_inj[OF _ grows_length[OF b'(1) b(2)] b'(2)] growsD[OF b'(1)] by simp
  qed
qed

lemma nested_sum_imported: "(case ar_import nested_sum 2 ar_new of Done (j, b) \<Rightarrow> j = 2 | _ \<Rightarrow> False)"
  by code_simp

theorem import_copies_expression_witness:
  "\<exists>b. ar_import nested_sum 2 ar_new = Done (2, b) \<and> tree_of b 2 = TSumOut [1] (TSumOut [2] joint_tree)"
proof -
  obtain b where run: "ar_import nested_sum 2 ar_new = Done (2, b)"
    using nested_sum_imported by (auto split: run.splits)
  with import_copies_expression[OF nested_sum_ok(1) arena_inv_new, of 2] nested_sum_ok(2,5) show ?thesis by simp
qed

section \<open>Ratios of marginals\<close>

text \<open>C18: a numerator and a denominator are recognised as a conditional distribution exactly when, under their outer
  sums, integrals and kernels, they are the same expression and the denominator sums over strictly more
  variables. When no binder of the two is dead, they then are the marginals of that joint over the
  reported variables, and wherever a denominator of a nonnegative joint is zero, so is the numerator: the conditional can be extended
  across a null event.\<close>

theorem marginal_conditional_correct:
  assumes "arena_inv a" "n < length (ar_nodes a)" "d < length (ar_nodes a)"
  shows "\<exists>m. marginal_conditional_of a n d = Done m \<and>
    (m \<noteq> None \<longleftrightarrow> core_of (tree_of a n) = core_of (tree_of a d) \<and> outer_vars (tree_of a n) \<subset> outer_vars (tree_of a d)) \<and>
    (\<forall>mc num dv Vs P s. m = Some mc \<and> live (tree_of a n) \<and> live (tree_of a d) \<longrightarrow>
       (let joint = tree_value num dv Vs P (tree_of a (mc_joint mc))
        in tree_value num dv Vs P (tree_of a n) s = marg dv (set (mc_numerator_summed mc)) joint s \<and>
          tree_value num dv Vs P (tree_of a d) s = marg dv (set (mc_denominator_summed mc)) joint s \<and>
          ((\<forall>v. finite (dv v) \<and> s v \<in> dv v) \<and> (\<forall>s. 0 \<le> joint s) \<and> tree_value num dv Vs P (tree_of a d) s = 0 \<longrightarrow>
             tree_value num dv Vs P (tree_of a n) s = 0)))"
proof -
  let ?V = "outer_vars (tree_of a n)" and ?W = "outer_vars (tree_of a d)"
  obtain m where m: "marginal_conditional_of a n d = Done m"
    "m \<noteq> None \<longleftrightarrow> core_of (tree_of a n) = core_of (tree_of a d) \<and> ?V \<subset> ?W"
    "\<forall>mc. m = Some mc \<longrightarrow> mc_joint mc < length (ar_nodes a) \<and> tree_of a (mc_joint mc) = core_of (tree_of a n) \<and>
       mc_numerator_summed mc = sorted_list_of_set ?V \<and> mc_denominator_summed mc = sorted_list_of_set ?W"
    using marginal_conditional_spec[OF assms(1-3)] by blast
  show ?thesis
  proof (intro exI[of _ m] conjI m(1,2) allI impI)
    fix mc num dv Vs P s assume "m = Some mc \<and> live (tree_of a n) \<and> live (tree_of a d)"
    then have some: "m = Some mc" and alive: "live (tree_of a n)" "live (tree_of a d)" by simp_all
    let ?J = "tree_value num dv Vs P (tree_of a (mc_joint mc))"
    have sets: "set (mc_numerator_summed mc) = ?V" "set (mc_denominator_summed mc) = ?W" "?V \<subseteq> ?W"
      "core_of (tree_of a n) = tree_of a (mc_joint mc)" "core_of (tree_of a d) = tree_of a (mc_joint mc)"
      using m(2,3) some by auto
    have vals: "tree_value num dv Vs P (tree_of a n) = marg dv ?V ?J" "tree_value num dv Vs P (tree_of a d) = marg dv ?W ?J"
      using outer_value[OF alive(1)] outer_value[OF alive(2)] sets(4,5) by simp_all
    have "marg dv ?V ?J s = 0" if "\<forall>v. finite (dv v) \<and> s v \<in> dv v" "\<forall>s. 0 \<le> ?J s" "marg dv ?W ?J s = 0"
      by (rule marg_zero_mono[OF finite_outer sets(3) _ _ _ that(3)]) (use that in auto)
    then show "let joint = ?J in tree_value num dv Vs P (tree_of a n) s = marg dv (set (mc_numerator_summed mc)) joint s \<and>
        tree_value num dv Vs P (tree_of a d) s = marg dv (set (mc_denominator_summed mc)) joint s \<and>
        ((\<forall>v. finite (dv v) \<and> s v \<in> dv v) \<and> (\<forall>s. 0 \<le> joint s) \<and> tree_value num dv Vs P (tree_of a d) s = 0 \<longrightarrow>
           tree_value num dv Vs P (tree_of a n) s = 0)"
      unfolding Let_def vals sets(1,2) by blast
  qed
qed

theorem marginal_conditional_correct_witness:
  "\<exists>mc. marginal_conditional_of nested_sum 1 2 = Done (Some mc) \<and>
    (\<forall>num dv Vs P s. tree_value num dv Vs P (TSumOut [2] joint_tree) s =
       marg dv (set (mc_numerator_summed mc)) (tree_value num dv Vs P (tree_of nested_sum (mc_joint mc))) s)"
  using marginal_conditional_correct[OF nested_sum_ok(1), of 1 2] nested_sum_ok(2-5) by (auto simp: Let_def)

end
