(* ===== verification/Do_Calculus.thy ===== *)
theory Do_Calculus
  imports Causal_Model Separation_Criterion
begin

text \<open>
  Two facts of probability that conditional identification rests on, proved for every semi-Markovian
  model. The global Markov property: nodes the ball cannot reach are independent given the
  conditioning set, because the factor of an ancestral set splits along the districts of its
  moral graph. Rule 2 of the do-calculus: an observed node that is separated from the outcomes once its outgoing
  edges are removed may be intervened on instead of observed.
\<close>

section \<open>The global Markov property\<close>

lemma q_factor_ignores:
  assumes sm: "semi_markovian D B W dm M" and "S \<subseteq> W" "\<And>i j. i \<in> S \<Longrightarrow> j \<in> R \<Longrightarrow> \<not> near D i j"
  shows "ignores (q_factor M S) R"
  unfolding ignores_def
proof (intro allI impI)
  fix \<sigma> \<tau> :: "'a env" assume agree: "\<forall>i. i \<notin> R \<longrightarrow> \<sigma> i = \<tau> i"
  have "cm_kernel M i \<sigma> u = cm_kernel M i \<tau> u" if "i \<in> S" for i u
    by (rule semi_markovian_local[OF sm]) (use assms(2,3) agree that in \<open>auto simp: near_def\<close>)
  then show "q_factor M S \<sigma> = q_factor M S \<tau>" by (simp add: q_factor_def)
qed

text \<open>
  \<open>K\<close> is closed under the moral graph on \<open>A\<close> outside \<open>C\<close>: no district of \<open>A\<close> has its clique both in \<open>K\<close>
  and in the rest.
\<close>

lemma markov_split:
  assumes sm: "semi_markovian D B W dm M" and W: "finite W" "A - W \<subseteq> C" and B: "sym B"
    and closed: "\<And>u v. u \<in> K \<Longrightarrow> (u, v) \<in> clique_rel D B A \<Longrightarrow> v \<notin> C \<Longrightarrow> v \<in> K"
  shows "\<exists>f g. (\<forall>\<sigma>. q_factor M (A \<inter> W) \<sigma> = f \<sigma> * g \<sigma>) \<and> ignores f (A \<inter> W - C - K) \<and> ignores g K"
proof -
  define S where "S = {d \<in> A \<inter> W. \<exists>c \<in> A. (c, d) \<in> (spouses_in B A)\<^sup>* \<and> (\<exists>u \<in> K. near D c u)}"
  let ?T = "A \<inter> W - S"
  have S: "S \<subseteq> A \<inter> W" by (auto simp: S_def)
  have "(s, t) \<notin> B" if st: "s \<in> S" "t \<in> ?T" for s t
  proof
    assume "(s, t) \<in> B"
    then have "(s, t) \<in> spouses_in B A" using st S by (auto simp: spouses_in_def)
    then have "t \<in> S" using st unfolding S_def by (auto intro: rtrancl_into_rtrancl)
    with st(2) show False by blast
  qed
  then have "q_factor M (S \<union> ?T) \<sigma> = q_factor M S \<sigma> * q_factor M ?T \<sigma>" for \<sigma>
    by (intro q_factor_split[OF sm _ W(1)]) (use S in \<open>auto simp: unconfounded_def\<close>)
  moreover have "S \<union> ?T = A \<inter> W" using S by blast
  moreover have "ignores (q_factor M S) (A \<inter> W - C - K)"
  proof (rule q_factor_ignores[OF sm])
    fix i j assume i: "i \<in> S" and j: "j \<in> A \<inter> W - C - K"
    show "\<not> near D i j"
    proof
      assume "near D i j"
      moreover obtain c u where "c \<in> A" "(c, i) \<in> (spouses_in B A)\<^sup>*" "u \<in> K" "near D c u" "i \<in> A"
        using i by (auto simp: S_def)
      ultimately have "j \<in> K" using closed[of u j] j by (auto simp: clique_rel_def)
      with j show False by blast
    qed
  qed (use S in blast)
  moreover have "ignores (q_factor M ?T) K"
    by (rule q_factor_ignores[OF sm]) (auto simp: S_def)
  ultimately show ?thesis by metis
qed

lemma marg_ancestral:
  assumes sm: "semi_markovian D B W dm M" and "acyclic D" "finite W" and T: "ancestral_in D T W" "R \<subseteq> T"
  shows "marg dm (W - R) (q_factor M W) = marg dm (T - R) (q_factor M T)"
proof -
  have "marg dm ((T - R) \<union> (W - T)) (q_factor M W) = marg dm (T - R) (marg dm (W - T) (q_factor M W))"
    by (rule marg_union) (use T assms(3) in \<open>auto simp: ancestral_in_def intro: finite_subset\<close>)
  moreover have "(T - R) \<union> (W - T) = W - R" using T by (auto simp: ancestral_in_def)
  moreover have "marg dm (W - T) (q_factor M W) = q_factor M T"
    by (intro ext q_factor_ancestral[OF sm assms(2) order_refl assms(3) T(1)])
  ultimately show ?thesis by simp
qed

theorem global_markov:
  fixes dm :: "nat \<Rightarrow> 'v set"
  assumes sm: "semi_markovian D B W dm M" and W: "finite W" and D: "acyclic D" and B: "sym B"
    and sets: "z \<in> W" "Y \<subseteq> W" "z \<notin> Y" "z \<notin> C" "Y \<inter> C = {}"
    and outside: "ancestors D (insert z Y \<union> C) - W \<subseteq> C"
    and sep: "\<forall>y \<in> Y. \<not> ball_connected D B C z y"
  shows "marg dm (W - (insert z Y \<union> C)) (q_factor M W) \<sigma> * marg dm (W - C) (q_factor M W) \<sigma> =
    marg dm (W - (Y \<union> C)) (q_factor M W) \<sigma> * marg dm (W - insert z C) (q_factor M W) \<sigma>"
proof -
  define A where "A = ancestors D (insert z Y \<union> C)"
  define K where "K = (open_moral D B A C)\<^sup>* `` {z}"
  define T where "T = A \<inter> W"
  define L where "L = T - C - K"
  have inA: "insert z Y \<union> C \<subseteq> A" unfolding A_def by (rule ancestors_refl)
  have K: "K \<inter> C = {}" "K \<inter> Y = {}" "z \<in> K"
    using moral_reach_through[OF sets(4) sep] moral_reach_avoids[OF sets(4) sep] unfolding K_def A_def by auto
  have closed: "v \<in> K" if "u \<in> K" "(u, v) \<in> clique_rel D B A" "v \<notin> C" for u v
    by (rule clique_step[OF K_def that])
  have "v \<in> A" if "(z, v) \<in> (open_moral D B A C)\<^sup>*" for v
    using that
  proof (induction rule: rtrancl_induct)
    case (step u v)
    then obtain d where "d \<in> A" "near D d v" by (auto simp: open_moral_def moral_rel_def clique_rel_def)
    then show ?case unfolding A_def near_def using ancestors_parent by fast
  qed (use inA in blast)
  then have KT: "K \<subseteq> T" using K(1) outside unfolding K_def T_def A_def by blast
  have anc: "ancestral_in D T W" unfolding ancestral_in_def T_def A_def using ancestors_parent by fast
  have finT: "finite T" using W unfolding T_def by blast
  have YL: "Y \<subseteq> L" using sets(2,5) K(2) inA by (auto simp: L_def T_def)
  have CT: "C \<inter> W \<subseteq> T" using inA by (auto simp: T_def)
  have "\<exists>f g. (\<forall>\<sigma>. q_factor M T \<sigma> = f \<sigma> * g \<sigma>) \<and> ignores f L \<and> ignores g K"
    unfolding L_def T_def by (rule markov_split[OF sm W _ B closed]) (use outside in \<open>simp_all add: A_def\<close>)
  then obtain f g where fg: "\<And>\<sigma>. q_factor M T \<sigma> = f \<sigma> * g \<sigma>" "ignores f L" "ignores g K" by blast
  have part: "marg dm (W - R) (q_factor M W) \<sigma> = marg dm (K - R) f \<sigma> * marg dm (L - R) g \<sigma>"
    if R: "C \<subseteq> R" "R \<inter> W \<subseteq> T" for R
  proof -
    have split: "T - (R \<inter> W) = (K - R) \<union> (L - R)" using R KT by (auto simp: L_def T_def)
    have "marg dm (W - (R \<inter> W)) (q_factor M W) = marg dm (T - (R \<inter> W)) (q_factor M T)"
      by (rule marg_ancestral[OF sm D W anc R(2)])
    moreover have "W - (R \<inter> W) = W - R" by blast
    moreover have "q_factor M T = (\<lambda>\<sigma>. f \<sigma> * g \<sigma>)" using fg(1) by (intro ext)
    ultimately have "marg dm (W - R) (q_factor M W) \<sigma> = marg dm ((K - R) \<union> (L - R)) (\<lambda>\<sigma>. f \<sigma> * g \<sigma>) \<sigma>"
      unfolding split by simp
    also have "\<dots> = marg dm (K - R) f \<sigma> * marg dm (L - R) g \<sigma>"
      by (rule marg_split) (use finT KT fg in \<open>auto simp: L_def intro: finite_subset ignores_mono\<close>)
    finally show ?thesis .
  qed
  have eqs: "K - (insert z Y \<union> C) = K - insert z C" "L - (insert z Y \<union> C) = L - (Y \<union> C)"
      "L - insert z C = L - C" "K - (Y \<union> C) = K - C"
    using K by (auto simp: L_def)
  have below: "(insert z Y \<union> C) \<inter> W \<subseteq> T" "C \<inter> W \<subseteq> T" "(Y \<union> C) \<inter> W \<subseteq> T" "insert z C \<inter> W \<subseteq> T"
    using inA by (auto simp: T_def)
  show ?thesis
    using part[of "insert z Y \<union> C"] part[of C] part[of "Y \<union> C"] part[of "insert z C"] below eqs
    by (simp add: Un_upper2 subset_insertI subset_insertI2)
qed

section \<open>Rule 2\<close>

text \<open>
  The model in which the outgoing edges of \<open>z\<close> carry the fixed level \<open>l\<close> instead of its value: a model of
  the graph without these edges that agrees with the original one where \<open>z\<close> has the level \<open>l\<close>.
\<close>

definition split_model :: "nat \<Rightarrow> 'v \<Rightarrow> 'v causal_model \<Rightarrow> 'v causal_model" where
  "split_model z l M = M\<lparr>cm_kernel := (\<lambda>i \<sigma>. cm_kernel M i (if i = z then \<sigma> else \<sigma>(z := l)))\<rparr>"

text \<open>The graph after \<open>do(X)\<close> without the edges out of \<open>z\<close>: \<open>G\<close> with \<open>X\<close> barred and \<open>z\<close> underlined.\<close>

definition cut_directed :: "nat set \<Rightarrow> nat \<Rightarrow> (nat \<times> nat) set \<Rightarrow> (nat \<times> nat) set" where
  "cut_directed X z D = {(a, b) \<in> D. b \<notin> X \<and> a \<noteq> z}"

definition cut_bidirected :: "nat set \<Rightarrow> (nat \<times> nat) set \<Rightarrow> (nat \<times> nat) set" where
  "cut_bidirected X B = {(a, b) \<in> B. a \<notin> X \<and> b \<notin> X}"

lemma split_model_simps [simp]:
  "cm_kernel (split_model z l M) i \<sigma> u = cm_kernel M i (if i = z then \<sigma> else \<sigma>(z := l)) u"
  "cm_latents (split_model z l M) = cm_latents M" "cm_affects (split_model z l M) = cm_affects M"
  "cm_latent_dom (split_model z l M) = cm_latent_dom M" "cm_weight (split_model z l M) = cm_weight M"
  by (simp_all add: split_model_def)

lemma split_model_semi_markovian:
  assumes sm: "semi_markovian D B V dm M" and irr: "(z, z) \<notin> D"
  shows "semi_markovian (cut_directed X z D) (cut_bidirected X B) (V - X) dm (split_model z l M)"
  unfolding semi_markovian_def
proof (intro conjI)
  show "\<forall>i \<in> V - X. \<forall>\<sigma> u. 0 \<le> cm_kernel (split_model z l M) i \<sigma> u \<and>
      (\<Sum>a \<in> dm i. cm_kernel (split_model z l M) i (\<sigma>(i := a)) u) = 1"
  proof (intro ballI allI conjI)
    fix i \<sigma> and u :: "nat env" assume i: "i \<in> V - X"
    show "0 \<le> cm_kernel (split_model z l M) i \<sigma> u" using semi_markovianD(6)[OF sm] i by simp
    show "(\<Sum>a \<in> dm i. cm_kernel (split_model z l M) i (\<sigma>(i := a)) u) = 1"
      using semi_markovianD(7)[OF sm, of i] i by (cases "i = z") (simp_all add: fun_upd_twist[of i z])
  qed
  show "kernels_local (cut_directed X z D) (V - X) (split_model z l M)"
    unfolding kernels_local_def
  proof (intro ballI allI impI)
    fix i and \<sigma> \<sigma>' :: "'a env" and u u' :: "nat env"
    assume i: "i \<in> V - X" and agree: "\<forall>j. j = i \<or> (j, i) \<in> cut_directed X z D \<longrightarrow> \<sigma> j = \<sigma>' j"
      and lat: "\<forall>k \<in> cm_latents (split_model z l M). i \<in> cm_affects (split_model z l M) k \<longrightarrow> u k = u' k"
    have "cm_kernel M i (if i = z then \<sigma> else \<sigma>(z := l)) u = cm_kernel M i (if i = z then \<sigma>' else \<sigma>'(z := l)) u'"
      by (rule semi_markovian_local[OF sm]) (use i agree lat irr in \<open>auto simp: cut_directed_def\<close>)
    then show "cm_kernel (split_model z l M) i \<sigma> u = cm_kernel (split_model z l M) i \<sigma>' u'" by simp
  qed
qed (use sm semi_markovianD(5)[OF sm] in \<open>auto simp: semi_markovian_def cut_bidirected_def\<close>)

lemma q_factor_split_model:
  assumes sm: "semi_markovian D B V dm M" and "S \<subseteq> V" "\<sigma> z = l"
  shows "q_factor (split_model z l M) S \<sigma> = q_factor M S \<sigma>"
proof -
  have "\<sigma>(z := l) = \<sigma>" using assms(3) by auto
  then show ?thesis by (simp add: q_factor_def cong: if_cong)
qed

lemma marg_fixed_cong:
  assumes "z \<notin> R" "\<And>\<sigma>. \<sigma> z = l \<Longrightarrow> f \<sigma> = g \<sigma>" "\<sigma> z = l"
  shows "marg dm R f \<sigma> = marg dm R g \<sigma>"
  unfolding marg_def by (intro sum.cong refl assms(2)) (simp add: override_on_def assms(1,3))

theorem do_calculus_rule_2:
  fixes dm :: "nat \<Rightarrow> 'v set"
  assumes sm: "semi_markovian D B V dm M" and V: "finite V" "D \<subseteq> V \<times> V" and D: "acyclic D" and B: "sym B"
    and sets: "X \<subseteq> V" "Z \<subseteq> V" "Y \<subseteq> V" "z \<in> V" "z \<notin> X" "z \<notin> Y" "z \<notin> Z" "Y \<inter> X = {}" "Y \<inter> Z = {}" "Z \<inter> X = {}"
    and sep: "\<forall>y \<in> Y. \<not> ball_connected (cut_directed X z D) (cut_bidirected X B) (X \<union> Z) z y"
  shows "interventional_law M dm V X (Y \<union> insert z Z) \<sigma> * interventional_law M dm V (insert z X) Z \<sigma> =
    interventional_law M dm V (insert z X) (Y \<union> Z) \<sigma> * interventional_law M dm V X (insert z Z) \<sigma>"
proof -
  let ?W = "V - X" and ?D = "cut_directed X z D" and ?B = "cut_bidirected X B" and ?C = "X \<union> Z"
  let ?N = "split_model z (\<sigma> z) M"
  have irr: "(z, z) \<notin> D" using D by (auto simp: acyclic_def)
  note smN = split_model_semi_markovian[OF sm irr, of X "\<sigma> z"]
  have D': "acyclic ?D" by (rule acyclic_subset[OF D]) (auto simp: cut_directed_def)
  have B': "sym ?B" using B by (auto simp: sym_def cut_bidirected_def)
  have "a \<in> V" if "(a, b) \<in> ?D\<^sup>*" "b \<in> V" for a b
    using that V(2) by (induction rule: converse_rtrancl_induct) (auto simp: cut_directed_def)
  then have outside: "ancestors ?D (insert z Y \<union> ?C) - ?W \<subseteq> ?C" using sets by (auto simp: ancestors_def)
  have markov: "marg dm (?W - (insert z Y \<union> ?C)) (q_factor ?N ?W) \<sigma> * marg dm (?W - ?C) (q_factor ?N ?W) \<sigma> =
      marg dm (?W - (Y \<union> ?C)) (q_factor ?N ?W) \<sigma> * marg dm (?W - insert z ?C) (q_factor ?N ?W) \<sigma>"
    by (rule global_markov[OF smN _ D' B' _ _ _ _ _ outside sep]) (use V sets in auto)
  have kept: "marg dm (?W - R) (q_factor ?N ?W) \<sigma> = marg dm (?W - R) (q_factor M ?W) \<sigma>" if "z \<in> R" for R
    by (rule marg_fixed_cong[of z _ "\<sigma> z"]) (use that q_factor_split_model[OF sm] in auto)
  have removed: "marg dm (?W - R) (q_factor ?N ?W) \<sigma> = marg dm (V - insert z X - R) (q_factor M (V - insert z X)) \<sigma>"
    if R: "z \<notin> R" for R
  proof -
    let ?S = "V - insert z X"
    have "marg dm ((?S - R) \<union> {z}) (q_factor ?N ?W) = marg dm (?S - R) (marg dm {z} (q_factor ?N ?W))"
      by (rule marg_union) (use V in auto)
    moreover have "(?S - R) \<union> {z} = ?W - R" "?W - {z} = ?S" using sets R by auto
    moreover have "marg dm {z} (q_factor ?N ?W) = q_factor ?N (?W - {z})"
      by (intro ext q_factor_childless[OF smN]) (use V sets in \<open>auto simp: cut_directed_def\<close>)
    ultimately have "marg dm (?W - R) (q_factor ?N ?W) \<sigma> = marg dm (?S - R) (q_factor ?N ?S) \<sigma>" by simp
    also have "\<dots> = marg dm (?S - R) (q_factor M ?S) \<sigma>"
      by (rule marg_fixed_cong[of z _ "\<sigma> z"]) (use q_factor_split_model[OF sm] in auto)
    finally show ?thesis .
  qed
  have eqs: "V - X - insert z (Y \<union> (X \<union> Z)) = V - X - insert z (Y \<union> Z)" "?W - insert z ?C = V - X - insert z Z"
    "V - insert z X - (Y \<union> ?C) = V - insert z X - (Y \<union> Z)" "V - insert z X - ?C = V - insert z X - Z" by auto
  show ?thesis
    using markov kept[of "insert z Y \<union> ?C"] kept[of "insert z ?C"] removed[of "Y \<union> ?C"] removed[of ?C] sets
    unfolding interventional_law_def by (simp add: eqs)
qed

end
