(* ===== verification/Conditional_Id.thy ===== *)
theory Conditional_Id
  imports Identify_Properties Simplify_Value Do_Calculus Admg_Separation
begin

text \<open>
  Conditional identification (\<open>idc.rs\<close>): \<open>P(Y | do(X), Z)\<close>. Line 1 moves a conditioning variable into
  the intervention when rule 2 of the do-calculus allows it, which is an m-separation in the graph
  without the edges into \<open>X\<close> and without those out of the candidate. Line 2 identifies the joint
  effect on \<open>Y\<close> and what is left of \<open>Z\<close> and divides it by its sum over \<open>Y\<close>.

  Interventions are hard sets, a variable with its level: the other kinds of \<open>Intervention\<close> are
  reduced to these, or refused, before the algorithm starts.
\<close>

section \<open>Distribution queries\<close>

type_synonym hard_set = "variable_id \<times> val"

record distribution_query =
  dq_outcomes :: "variable_id list"
  dq_interventions :: "hard_set list"
  dq_conditioning :: "variable_id list"

definition f64_is_finite :: "64 word \<Rightarrow> bool" where
  "f64_is_finite w \<longleftrightarrow> (drop_bit 52 w) mod 2048 \<noteq> 2047"

fun hard_set_is_valid :: "hard_set \<Rightarrow> bool" where
  "hard_set_is_valid (v, val.Float64 w) = f64_is_finite w"
| "hard_set_is_valid (v, _) = True"

text \<open>The first outcome that some intervention targets.\<close>

definition dq_validate :: "distribution_query \<Rightarrow> string + unit" where
  "dq_validate q =
     (if dq_outcomes q = [] then Inl ''interventional distribution requires at least one outcome''
      else if \<not> list_all hard_set_is_valid (dq_interventions q)
      then Inl ''invalid intervention: intervention level must be finite''
      else case find (\<lambda>y. y \<in> fst ` set (dq_interventions q)) (dq_outcomes q) of
        Some y \<Rightarrow> Inl (''distribution outcome V'' @ decimal y @ '' is also an intervention target'')
      | None \<Rightarrow>
          (if list_ex (\<lambda>z. z \<in> set (dq_outcomes q) \<or> z \<in> fst ` set (dq_interventions q)) (dq_conditioning q)
           then Inl ''distribution conditioning overlaps outcome or intervention''
           else Inr ()))"

definition validate_distribution_query :: "distribution_query \<Rightarrow> identification_error + unit" where
  "validate_distribution_query q = map_sum InvalidQuery (\<lambda>u. u) (dq_validate q)"

text \<open>The \<open>Distribution\<close> arm of \<open>IdIdentifier::identify\<close>.\<close>

definition identify_distribution ::
  "prepared_admg \<Rightarrow> distribution_query \<Rightarrow> graph_workspace \<Rightarrow>
    ((identification_error + distribution_query identification_result) \<times> graph_workspace) run" where
  "identify_distribution pa q ws =
     (case validate_distribution_query q of
        Inl e \<Rightarrow> Done (Inl e, ws)
      | Inr _ \<Rightarrow>
          (if dq_conditioning q \<noteq> []
           then Done (Inl (UnsupportedQuery
             ''conditional Distribution requires IdcIdentifier (or AutoIdentifier)''), ws)
           else
             run_bind (insert_variables pa (map fst (dq_interventions q)) (bs_with_len (pa_count pa))) (\<lambda>rx.
             case rx of Inl e \<Rightarrow> Done (Inl e, ws) | Inr x \<Rightarrow>
             run_bind (insert_variables pa (dq_outcomes q) (bs_with_len (pa_count pa))) (\<lambda>ry.
             case ry of Inl e \<Rightarrow> Done (Inl e, ws) | Inr y \<Rightarrow>
               identify_sets pa y x q ws []))))"

section \<open>Surgery\<close>

definition mutilate_bar_x :: "admg \<Rightarrow> bitset \<Rightarrow> (identification_error + admg) run" where
  "mutilate_bar_x a x =
     run_bind (of_option (admg_copy_filtered a Preserve (\<lambda>_ to. \<not> bs_contains x to)
         (\<lambda>u v. \<not> bs_contains x u \<and> \<not> bs_contains x v)))
       (\<lambda>r. Done (map_sum GraphFailure (\<lambda>g. g) r))"

definition drop_outgoing_from :: "admg \<Rightarrow> dense_id \<Rightarrow> (identification_error + admg) run" where
  "drop_outgoing_from a z =
     run_bind (of_option (admg_copy_filtered a Preserve (\<lambda>from _. from \<noteq> z) (\<lambda>_ _. True)))
       (\<lambda>r. Done (map_sum GraphFailure (\<lambda>g. g) r))"

fun separated_loop ::
  "admg \<Rightarrow> dense_id list \<Rightarrow> dense_id \<Rightarrow> dense_id list \<Rightarrow> dsep_workspace \<Rightarrow>
    ((identification_error + bool) \<times> dsep_workspace) run" where
  "separated_loop g [] z cond ws = Done (Inr True, ws)"
| "separated_loop g (y # ys) z cond ws =
     run_bind (of_option (admg_is_m_separated g y z cond ws)) (\<lambda>(r, ws').
       case r of
         Inl e \<Rightarrow> Done (Inl (GraphFailure e), ws')
       | Inr separated \<Rightarrow> if separated then separated_loop g ys z cond ws' else Done (Inr False, ws'))"

definition y_separated_from ::
  "admg \<Rightarrow> bitset \<Rightarrow> dense_id \<Rightarrow> bitset \<Rightarrow> dsep_workspace \<Rightarrow>
    ((identification_error + bool) \<times> dsep_workspace) run" where
  "y_separated_from g y z cond ws =
     run_bind (of_option (bs_to_dense_ids cond)) (\<lambda>cond_ids.
     run_bind (of_option (bs_iter y)) (\<lambda>ys. separated_loop g ys z cond_ids ws))"

section \<open>The recursion\<close>

record id_workspace =
  iw_graph :: graph_workspace
  iw_dsep :: dsep_workspace

record idc_run =
  cr_workspace :: id_workspace
  cr_derivation :: derivation_trace
  cr_perf :: performance_record

datatype idc_ok =
    IdcIdentified expr_id expr_arena
  | IdcNotIdentified "distribution_query identification_result"

type_synonym 'a idc_step = "idc_run \<Rightarrow> ((identification_error + 'a) \<times> idc_run) run"

definition cr_push :: "string \<Rightarrow> string \<Rightarrow> idc_run \<Rightarrow> idc_run" where
  "cr_push rl detail run = run\<lparr>cr_derivation := dt_push (cr_derivation run) rl detail\<rparr>"

text \<open>The loop of line 1: the first candidate that rule 2 lets move, with what is left to condition on.\<close>

fun idc_line1 :: "admg \<Rightarrow> bitset \<Rightarrow> bitset \<Rightarrow> bitset \<Rightarrow> dense_id list \<Rightarrow> (dense_id \<times> bitset) option idc_step" where
  "idc_line1 surgical y x z [] run = Done (Inr None, run)"
| "idc_line1 surgical y x z (z_node # zs) run =
     (let z_rest = bs_remove z z_node in
      run_bind (of_option (bs_union_with x z_rest)) (\<lambda>cond.
      run_bind (if admg_children surgical z_node = [] then Done (Inr surgical) else drop_outgoing_from surgical z_node)
        (\<lambda>candidate. case candidate of
           Inl e \<Rightarrow> Done (Inl e, run)
         | Inr graph \<Rightarrow>
             run_bind (y_separated_from graph y z_node cond (iw_dsep (cr_workspace run))) (\<lambda>(r, dsep).
             let run = run\<lparr>cr_workspace := (cr_workspace run)\<lparr>iw_dsep := dsep\<rparr>\<rparr> in
             case r of
               Inl e \<Rightarrow> Done (Inl e, run)
             | Inr separated \<Rightarrow>
                 if separated then Done (Inr (Some (z_node, z_rest)), run)
                 else idc_line1 surgical y x z zs run))))"

definition distribution_query_from_sets ::
  "prepared_admg \<Rightarrow> bitset \<Rightarrow> bitset \<Rightarrow> (variable_id \<Rightarrow> val option) \<Rightarrow>
    (identification_error + distribution_query) run" where
  "distribution_query_from_sets pa y x known =
     run_bind (of_option (bs_iter y)) (\<lambda>ys.
     run_bind (of_option (bs_iter x)) (\<lambda>xs.
     Done (rbind (pa_dense_to_vars pa ys) (\<lambda>outcomes.
     rbind (pa_dense_to_vars pa xs) (\<lambda>variables.
       Inr \<lparr>dq_outcomes = outcomes,
         dq_interventions = map (\<lambda>v. (v, case known v of Some level \<Rightarrow> level | None \<Rightarrow> val.Int64 0)) variables,
         dq_conditioning = []\<rparr>)))))"

definition intern_bitset_vars :: "prepared_admg \<Rightarrow> bitset \<Rightarrow> var_set_id emission" where
  "intern_bitset_vars pa nodes a =
     run_bind (of_option (bs_iter nodes)) (\<lambda>ids.
     try_bind (pure_result (pa_dense_to_vars pa ids) a) (\<lambda>vars a. infallible (ar_intern_var_set a vars)))"

fun simplify_error_string :: "simplify_error \<Rightarrow> string" where
  "simplify_error_string (DeadSumOut vs) =
     ''SumOut binds variable(s) not free in its body: '' @
       concat (map (\<lambda>(i, v). (if i = 0 then '''' else '', '') @ ''V'' @ decimal v) (enumerate 0 vs))"
| "simplify_error_string (DeadIntegralOut vs) =
     ''IntegralOut binds variable(s) not free in its body: '' @
       concat (map (\<lambda>(i, v). (if i = 0 then '''' else '', '') @ ''V'' @ decimal v) (enumerate 0 vs))"

definition simplified :: "expr_arena \<Rightarrow> expr_id \<Rightarrow> ((identification_error + expr_id) \<times> expr_arena) run" where
  "simplified a i =
     run_bind (ar_simplify a i) (\<lambda>(r, a). Done (map_sum (\<lambda>e. Message (simplify_error_string e)) (\<lambda>j. j) r, a))"

definition idc_ratio :: "prepared_admg \<Rightarrow> bitset \<Rightarrow> expr_id \<Rightarrow> expr_id emission" where
  "idc_ratio pa y functional a =
     try_bind (intern_bitset_vars pa y a) (\<lambda>y_vars a.
     try_bind (infallible (ar_intern a (SumOut y_vars functional))) (\<lambda>denom a.
     try_bind (infallible (ar_intern a (Ratio functional denom))) (\<lambda>ratio a. simplified a ratio)))"

definition idc_line2 ::
  "prepared_admg \<Rightarrow> (variable_id \<Rightarrow> val option) \<Rightarrow> bitset \<Rightarrow> bitset \<Rightarrow> bitset \<Rightarrow> idc_ok idc_step" where
  "idc_line2 pa known y x z run =
     (let run = cr_push ''general.idc.line2'' (''reduce to ID on Y'' @ [CHR 0xE2, CHR 0x88, CHR 0xAA] @ ''Z'') run in
      run_bind (of_option (bs_union_with y z)) (\<lambda>yz.
      run_bind (distribution_query_from_sets pa yz x known) (\<lambda>built. case built of
        Inl e \<Rightarrow> Done (Inl e, run)
      | Inr q \<Rightarrow>
          run_bind (identify_distribution pa q (iw_graph (cr_workspace run))) (\<lambda>(r, graph).
          let run = run\<lparr>cr_workspace := (cr_workspace run)\<lparr>iw_graph := graph\<rparr>\<rparr> in
          case r of
            Inl e \<Rightarrow> Done (Inl e, run)
          | Inr id_res \<Rightarrow>
              (if rs_status id_res \<noteq> NonparametricallyIdentified then Done (Inr (IdcNotIdentified id_res), run)
               else run_bind (at_index (rs_estimands id_res) 0) (\<lambda>estimand.
                 run_bind (idc_ratio pa y (ie_functional estimand) (rs_arena id_res)) (\<lambda>(r, arena).
                 case r of
                   Inl e \<Rightarrow> Done (Inl e, run)
                 | Inr functional \<Rightarrow> Done (Inr (IdcIdentified functional arena), run))))))))"

primrec idc_recurse ::
  "nat \<Rightarrow> prepared_admg \<Rightarrow> (variable_id \<Rightarrow> val option) \<Rightarrow> bitset \<Rightarrow> bitset \<Rightarrow> bitset \<Rightarrow> admg \<Rightarrow> idc_ok idc_step" where
  "idc_recurse 0 pa known y x z surgical run = Timeout"
| "idc_recurse (Suc fuel) pa known y x z surgical run =
     (let run = run\<lparr>cr_perf := (cr_perf run)\<lparr>pr_candidates_examined :=
            saturating_add (pr_candidates_examined (cr_perf run)) 1\<rparr>\<rparr> in
      run_bind (of_option (bs_iter z)) (\<lambda>zs.
      try_bind (idc_line1 surgical y x z zs run) (\<lambda>found run.
        case found of
          Some (z_node, z_rest) \<Rightarrow>
            (let run = cr_push ''general.idc.line1''
                 (''insert Z='' @ decimal z_node @ '' into intervention (rule 2)'') run in
             run_bind (of_option (bs_insert x z_node)) (\<lambda>x2.
             run_bind (mutilate_bar_x (pa_admg pa) x2) (\<lambda>s. case s of
               Inl e \<Rightarrow> Done (Inl e, run)
             | Inr surgical \<Rightarrow> idc_recurse fuel pa known y x2 z_rest surgical run)))
        | None \<Rightarrow> idc_line2 pa known y x z run)))"

section \<open>The entry points\<close>

text \<open>A call moves one of at most \<open>pa_count\<close> conditioning nodes before it recurses.\<close>

definition idc_fuel :: "prepared_admg \<Rightarrow> nat" where
  "idc_fuel pa = pa_count pa + 1"

definition known_levels :: "hard_set list \<Rightarrow> variable_id \<Rightarrow> val option" where
  "known_levels interventions = fold (\<lambda>(v, level) m. m(v \<mapsto> level)) interventions (\<lambda>_. None)"

definition idc_result ::
  "prepared_admg \<Rightarrow> distribution_query \<Rightarrow> idc_ok \<Rightarrow> idc_run \<Rightarrow> distribution_query identification_result" where
  "idc_result pa q outcome run =
     (case outcome of
        IdcIdentified functional arena \<Rightarrow>
          rs_identified q [general_id_estimand functional] arena (cr_derivation run)
            (with_causal_markov pa ''general.idc'') (cr_perf run)
      | IdcNotIdentified res \<Rightarrow>
          res\<lparr>rs_derivation := cr_derivation run @ rs_derivation res,
            rs_performance := (rs_performance res)\<lparr>pr_candidates_examined :=
              saturating_add (pr_candidates_examined (rs_performance res)) (pr_candidates_examined (cr_perf run))\<rparr>\<rparr>)"

definition identify_conditional ::
  "prepared_admg \<Rightarrow> variable_id list \<Rightarrow> hard_set list \<Rightarrow> variable_id list \<Rightarrow> id_workspace \<Rightarrow>
    ((identification_error + distribution_query identification_result) \<times> id_workspace) run" where
  "identify_conditional pa outcomes interventions conditioning ws =
     (let q = \<lparr>dq_outcomes = outcomes, dq_interventions = interventions, dq_conditioning = conditioning\<rparr>;
          none = bs_with_len (pa_count pa) in
      case validate_distribution_query q of
        Inl e \<Rightarrow> Done (Inl e, ws)
      | Inr _ \<Rightarrow>
          run_bind (insert_variables pa outcomes none) (\<lambda>ry. case ry of Inl e \<Rightarrow> Done (Inl e, ws) | Inr y \<Rightarrow>
          run_bind (insert_variables pa (map fst interventions) none) (\<lambda>rx. case rx of Inl e \<Rightarrow> Done (Inl e, ws) | Inr x \<Rightarrow>
          run_bind (insert_variables pa conditioning none) (\<lambda>rz. case rz of Inl e \<Rightarrow> Done (Inl e, ws) | Inr z \<Rightarrow>
          run_bind (mutilate_bar_x (pa_admg pa) x) (\<lambda>s. case s of Inl e \<Rightarrow> Done (Inl e, ws) | Inr surgical \<Rightarrow>
          run_bind (idc_recurse (idc_fuel pa) pa (known_levels interventions) y x z surgical
              \<lparr>cr_workspace = ws,
               cr_derivation = dt_push [] ''general.idc'' (''Shpitser'' @ en_dash @ ''Pearl IDC''),
               cr_perf = pr_default\<rparr>) (\<lambda>(r, run).
            Done (map_sum (\<lambda>e. e) (\<lambda>outcome. idc_result pa q outcome run) r, cr_workspace run)))))))"

definition idc_identify ::
  "prepared_admg \<Rightarrow> distribution_query \<Rightarrow> id_workspace \<Rightarrow>
    ((identification_error + distribution_query identification_result) \<times> id_workspace) run" where
  "idc_identify pa q ws =
     (case validate_distribution_query q of
        Inl e \<Rightarrow> Done (Inl e, ws)
      | Inr _ \<Rightarrow>
          (if dq_conditioning q = []
           then run_bind (identify_distribution pa q (iw_graph ws)) (\<lambda>(r, graph). Done (r, ws\<lparr>iw_graph := graph\<rparr>))
           else run_bind (identify_conditional pa (dq_outcomes q) (dq_interventions q) (dq_conditioning q) ws)
             (\<lambda>(r, ws). Done (map_sum (\<lambda>e. e) (\<lambda>res. res\<lparr>rs_query := q\<rparr>) r, ws))))"

section \<open>Conditional laws and rule 2\<close>

definition positive_model :: "prepared_admg \<Rightarrow> (nat \<Rightarrow> val set) \<Rightarrow> val causal_model \<Rightarrow> bool" where
  "positive_model pa dm M \<longleftrightarrow>
     semi_markovian (admg_rel (pa_admg pa)) (admg_bi (pa_admg pa)) (pa_nodes pa) dm M \<and>
     (\<forall>\<sigma>. valid_env dm (pa_nodes pa) \<sigma> \<longrightarrow> 0 < observational_law M (pa_nodes pa) \<sigma>)"

text \<open>\<open>P(Y | do(X), Z)\<close>.\<close>

definition conditional_law ::
  "'v causal_model \<Rightarrow> (nat \<Rightarrow> 'v set) \<Rightarrow> nat set \<Rightarrow> nat set \<Rightarrow> nat set \<Rightarrow> nat set \<Rightarrow> 'v env \<Rightarrow> real" where
  "conditional_law M dm V X Y Z \<sigma> = interventional_law M dm V X (Y \<union> Z) \<sigma> / interventional_law M dm V X Z \<sigma>"

definition same_conditional :: "prepared_admg \<Rightarrow> nat set \<Rightarrow> nat set \<Rightarrow> nat set \<Rightarrow> nat set \<Rightarrow> nat set \<Rightarrow> bool" where
  "same_conditional pa Y X Z X' Z' \<longleftrightarrow>
     (\<forall>dm M \<sigma>. positive_model pa dm M \<longrightarrow> valid_env dm (pa_nodes pa) \<sigma> \<longrightarrow>
        conditional_law M dm (pa_nodes pa) X Y Z \<sigma> = conditional_law M dm (pa_nodes pa) X' Y Z' \<sigma>)"

lemma same_conditional_refl [simp]: "same_conditional pa Y X Z X Z"
  by (simp add: same_conditional_def)

lemma same_conditional_trans [trans]:
  "same_conditional pa Y X Z X' Z' \<Longrightarrow> same_conditional pa Y X' Z' X'' Z'' \<Longrightarrow> same_conditional pa Y X Z X'' Z''"
  by (simp add: same_conditional_def)

lemma positive_world: "pa_inv pa \<Longrightarrow> positive_model pa dm M \<Longrightarrow> world pa dm (q_factor M)"
  by (simp add: positive_model_def model_world)

lemma interventional_law_pos:
  assumes inv: "pa_inv pa" and M: "positive_model pa dm M" and val: "valid_env dm (pa_nodes pa) \<sigma>"
  shows "0 < interventional_law M dm (pa_nodes pa) X Y \<sigma>"
proof -
  let ?V = "pa_nodes pa" and ?R = "pa_nodes pa - X - Y"
  note w = positive_world[OF inv M, unfolded world_def]
  have "finite (dm i)" if "i < pa_count pa" for i
    using M that semi_markovianD(1) unfolding positive_model_def by blast
  then have "finite (PiE ?R dm)" by (intro finite_PiE) auto
  moreover have "restrict \<sigma> ?R \<in> PiE ?R dm" using val by (auto simp: valid_env_def)
  then have "PiE ?R dm \<noteq> {}" by blast
  moreover have "0 < q_factor M (?V - X) (override_on \<sigma> \<tau> ?R)" if "\<tau> \<in> PiE ?R dm" for \<tau>
    by (rule causal_factorsD(2)[OF w]) (use val that in \<open>auto simp: valid_env_def override_on_def\<close>)
  ultimately show ?thesis unfolding interventional_law_def marg_def by (rule sum_pos)
qed

text \<open>Rule 2 applies to \<open>z\<close>: it is separated from \<open>Y\<close> in \<open>G\<close> with \<open>X\<close> barred and \<open>z\<close> underlined.\<close>

definition movable :: "prepared_admg \<Rightarrow> nat set \<Rightarrow> nat set \<Rightarrow> nat set \<Rightarrow> nat \<Rightarrow> bool" where
  "movable pa X Y Z z \<longleftrightarrow> (\<forall>y \<in> Y. \<not> ball_connected (cut_directed X z (admg_rel (pa_admg pa)))
     (cut_bidirected X (admg_bi (pa_admg pa))) (X \<union> (Z - {z})) y z)"

lemma rule_2_step:
  assumes inv: "pa_inv pa" and sets: "X \<subseteq> pa_nodes pa" "Y \<subseteq> pa_nodes pa" "Z \<subseteq> pa_nodes pa"
      "X \<inter> Y = {}" "X \<inter> Z = {}" "Y \<inter> Z = {}" "z \<in> Z"
    and sep: "movable pa X Y Z z"
  shows "same_conditional pa Y X Z (insert z X) (Z - {z})"
  unfolding same_conditional_def
proof (intro allI impI)
  let ?V = "pa_nodes pa" and ?D = "admg_rel (pa_admg pa)" and ?B = "admg_bi (pa_admg pa)" and ?Z = "Z - {z}"
  fix dm and M :: "val causal_model" and \<sigma>
  assume M: "positive_model pa dm M" and val: "valid_env dm ?V \<sigma>"
  note a = pa_invD(1,3)[OF inv]
  note pos = interventional_law_pos[OF inv M val]
  have B: "sym ?B" using admg_bi_sym[OF a(1)] by (auto simp: sym_def)
  have "sym (cut_bidirected X ?B)" using B by (auto simp: sym_def cut_bidirected_def)
  then have sep': "\<forall>y \<in> Y. \<not> ball_connected (cut_directed X z ?D) (cut_bidirected X ?B) (X \<union> ?Z) z y"
    using sep ball_connected_sym[of "cut_bidirected X ?B" _ "X \<union> ?Z" z] sets unfolding movable_def by blast
  have eq: "insert z ?Z = Z" using sets(7) by blast
  have "interventional_law M dm ?V X (Y \<union> Z) \<sigma> * interventional_law M dm ?V (insert z X) ?Z \<sigma> =
    interventional_law M dm ?V (insert z X) (Y \<union> ?Z) \<sigma> * interventional_law M dm ?V X Z \<sigma>"
  proof (rule do_calculus_rule_2[OF M[unfolded positive_model_def, THEN conjunct1] _ _ acyclic_admg_rel[OF a(1)] B,
        of X ?Z Y z \<sigma>, unfolded eq])
    show "?D \<subseteq> ?V \<times> ?V" using admg_rel_bound[OF a(1)] a(2) by auto
  qed (use sets sep' in blast)+
  then show "conditional_law M dm ?V X Y Z \<sigma> = conditional_law M dm ?V (insert z X) Y ?Z \<sigma>"
    unfolding conditional_law_def using pos[of X Z] pos[of "insert z X" ?Z] by (simp add: divide_eq_eq eq_divide_eq)
qed

section \<open>What the steps do\<close>

lemma node_count_nodes: "admg_inv a \<Longrightarrow> admg_node_count a = length (admg_nodes a)"
  using dc_wfD(3)[OF admg_inv_core(2)] by (simp add: admg_nodes_def admg_node_count_def)

lemma copy_preserving:
  assumes "admg_inv a"
  shows "\<exists>g. admg_copy_filtered a Preserve kd kb = Some (Inr g) \<and> admg_inv g \<and> admg_nodes g = admg_nodes a \<and>
    admg_rel g = {(u, v) \<in> admg_rel a. kd u v} \<and> admg_bi g = {(u, v) \<in> admg_bi a. kb (min u v) (max u v)}"
  using admg_copy_filtered_spec(1)[OF assms, of Preserve kd kb] by (simp add: copy_fits_def copy_label_list_def)

lemma mutilate_bar_x_spec:
  assumes "admg_inv a"
  obtains g where "mutilate_bar_x a x = Done (Inr g)" "admg_inv g" "admg_node_count g = admg_node_count a"
    "admg_rel g = {(u, v) \<in> admg_rel a. v \<notin> bs_members x}" "admg_bi g = cut_bidirected (bs_members x) (admg_bi a)"
proof -
  obtain g where g: "admg_copy_filtered a Preserve (\<lambda>_ to. \<not> bs_contains x to)
        (\<lambda>u v. \<not> bs_contains x u \<and> \<not> bs_contains x v) = Some (Inr g)" "admg_inv g" "admg_nodes g = admg_nodes a"
      "admg_rel g = {(u, v) \<in> admg_rel a. \<not> bs_contains x v}"
      "admg_bi g = {(u, v) \<in> admg_bi a. \<not> bs_contains x (min u v) \<and> \<not> bs_contains x (max u v)}"
    using copy_preserving[OF assms, of "\<lambda>_ to. \<not> bs_contains x to" "\<lambda>u v. \<not> bs_contains x u \<and> \<not> bs_contains x v"]
    by blast
  have "admg_bi g = cut_bidirected (bs_members x) (admg_bi a)"
    unfolding g(5) cut_bidirected_def by (auto simp: bs_contains_members min_def max_def)
  with g that show thesis
    by (simp add: mutilate_bar_x_def bs_contains_members node_count_nodes[OF assms] node_count_nodes[OF g(2)])
qed

lemma drop_outgoing_from_spec:
  assumes "admg_inv a"
  obtains g where "drop_outgoing_from a z = Done (Inr g)" "admg_inv g" "admg_node_count g = admg_node_count a"
    "admg_rel g = {(u, v) \<in> admg_rel a. u \<noteq> z}" "admg_bi g = admg_bi a"
proof -
  obtain g where g: "admg_copy_filtered a Preserve (\<lambda>from _. from \<noteq> z) (\<lambda>_ _. True) = Some (Inr g)" "admg_inv g"
      "admg_nodes g = admg_nodes a" "admg_rel g = {(u, v) \<in> admg_rel a. u \<noteq> z}" "admg_bi g = admg_bi a"
    using copy_preserving[OF assms, of "\<lambda>from _. from \<noteq> z" "\<lambda>_ _. True"] by auto
  with that show thesis
    by (simp add: drop_outgoing_from_def node_count_nodes[OF assms] node_count_nodes[OF g(2)])
qed

lemma separated_loop_spec:
  assumes "admg_inv g" "sw_inv ws" "z < admg_node_count g" "\<forall>v \<in> set cond. v < admg_node_count g"
    "\<forall>y \<in> set ys. y < admg_node_count g \<and> y \<noteq> z \<and> y \<notin> set cond" "z \<notin> set cond"
  shows "\<exists>ws'. separated_loop g ys z cond ws = Done (Inr (\<forall>y \<in> set ys.
      \<not> ball_connected (admg_rel g) (admg_bi g) (set cond) y z), ws') \<and> sw_inv ws'"
  using assms(2,5)
proof (induction ys arbitrary: ws)
  case (Cons y ys)
  obtain ws' where m: "admg_is_m_separated g y z cond ws =
      Some (Inr (\<not> ball_connected (admg_rel g) (admg_bi g) (set cond) y z), ws')" "sw_inv ws'"
    using admg_is_m_separated_spec[OF assms(1) Cons.prems(1) _ assms(3,4), of y] Cons.prems(2) assms(6) by auto
  with Cons.IH[OF m(2)] Cons.prems(2) show ?case by auto
qed simp

text \<open>What \<open>surgical\<close> is: the graph without the edges into \<open>X\<close>.\<close>

definition barred :: "prepared_admg \<Rightarrow> nat set \<Rightarrow> admg \<Rightarrow> bool" where
  "barred pa X g \<longleftrightarrow> admg_inv g \<and> admg_node_count g = pa_count pa \<and>
     admg_rel g = {(u, v) \<in> admg_rel (pa_admg pa). v \<notin> X} \<and> admg_bi g = cut_bidirected X (admg_bi (pa_admg pa))"

lemma mutilate_barred:
  assumes "pa_inv pa"
  shows "\<exists>g. mutilate_bar_x (pa_admg pa) x = Done (Inr g) \<and> barred pa (bs_members x) g"
  by (rule mutilate_bar_x_spec[OF pa_invD(1)[OF assms], of x]) (use pa_invD(3)[OF assms] in \<open>auto simp: barred_def\<close>)

lemma no_children: "admg_inv g \<Longrightarrow> admg_children g z = [] \<Longrightarrow> (z, v) \<notin> admg_rel g"
  by (simp add: admg_rel_def dc_rel_def admg_children_def dc_children_of_def)

lemma candidate_spec:
  assumes bar: "barred pa X surgical"
  shows "\<exists>g. (if admg_children surgical z = [] then Done (Inr surgical) else drop_outgoing_from surgical z) = Done (Inr g) \<and>
    admg_inv g \<and> admg_node_count g = pa_count pa \<and>
    admg_rel g = cut_directed X z (admg_rel (pa_admg pa)) \<and> admg_bi g = cut_bidirected X (admg_bi (pa_admg pa))"
proof (cases "admg_children surgical z = []")
  case True
  with no_children bar have "admg_rel surgical = cut_directed X z (admg_rel (pa_admg pa))"
    unfolding barred_def cut_directed_def by blast
  with True bar show ?thesis by (simp add: barred_def)
next
  case False
  have inv: "admg_inv surgical" using bar by (simp add: barred_def)
  obtain g where g: "drop_outgoing_from surgical z = Done (Inr g)" "admg_inv g"
      "admg_node_count g = admg_node_count surgical" "admg_rel g = {(u, v) \<in> admg_rel surgical. u \<noteq> z}"
      "admg_bi g = admg_bi surgical"
    by (rule drop_outgoing_from_spec[OF inv])
  have "admg_rel g = cut_directed X z (admg_rel (pa_admg pa))"
    unfolding g(4) using bar by (auto simp: barred_def cut_directed_def)
  with False g bar show ?thesis by (simp add: barred_def)
qed

definition idc_sets :: "prepared_admg \<Rightarrow> bitset \<Rightarrow> bitset \<Rightarrow> bitset \<Rightarrow> bool" where
  "idc_sets pa y x z \<longleftrightarrow> nodes_in (pa_count pa) y \<and> nodes_in (pa_count pa) x \<and> nodes_in (pa_count pa) z \<and>
     bs_members y \<noteq> {} \<and> bs_members x \<inter> bs_members y = {} \<and> bs_members x \<inter> bs_members z = {} \<and>
     bs_members y \<inter> bs_members z = {}"

lemma idc_setsD:
  assumes "idc_sets pa y x z"
  shows "nodes_in (pa_count pa) y" "nodes_in (pa_count pa) x" "nodes_in (pa_count pa) z" "bs_members y \<noteq> {}"
    "bs_members x \<inter> bs_members y = {}" "bs_members x \<inter> bs_members z = {}" "bs_members y \<inter> bs_members z = {}"
    "bs_members y \<subseteq> pa_nodes pa" "bs_members x \<subseteq> pa_nodes pa" "bs_members z \<subseteq> pa_nodes pa"
  using assms nodes_in_members by (auto simp: idc_sets_def)

lemma nodes_in_remove: "nodes_in n b \<Longrightarrow> nodes_in n (bs_remove b i) \<and> bs_members (bs_remove b i) = bs_members b - {i}"
  by (simp add: nodes_in_def bs_remove)

lemma idc_line1_spec:
  assumes inv: "pa_inv pa" and sets: "idc_sets pa y x z" and bar: "barred pa (bs_members x) surgical"
  shows "sw_inv (iw_dsep (cr_workspace run)) \<Longrightarrow> set zs \<subseteq> bs_members z \<Longrightarrow>
    \<exists>found dsep. idc_line1 surgical y x z zs run =
      Done (Inr found, run\<lparr>cr_workspace := (cr_workspace run)\<lparr>iw_dsep := dsep\<rparr>\<rparr>) \<and> sw_inv dsep \<and>
      (case found of
         None \<Rightarrow> \<forall>c \<in> set zs. \<not> movable pa (bs_members x) (bs_members y) (bs_members z) c
       | Some (c, r) \<Rightarrow> c \<in> set zs \<and> nodes_in (pa_count pa) r \<and> bs_members r = bs_members z - {c} \<and>
           movable pa (bs_members x) (bs_members y) (bs_members z) c)"
proof (induction zs arbitrary: run)
  case (Cons c zs)
  note sD = idc_setsD[OF sets]
  let ?Y = "bs_members y" and ?X = "bs_members x" and ?Z = "bs_members z" and ?r = "bs_remove z c"
  have r: "nodes_in (pa_count pa) ?r" "bs_members ?r = ?Z - {c}" using nodes_in_remove[OF sD(3)] by blast+
  obtain cond where cond: "bs_union_with x ?r = Some cond" "nodes_in (pa_count pa) cond" "bs_members cond = ?X \<union> (?Z - {c})"
    using nodes_in_ops(1)[OF sD(2) r(1)] r(2) by (cases "bs_union_with x ?r") auto
  obtain g where g: "(if admg_children surgical c = [] then Done (Inr surgical) else drop_outgoing_from surgical c) = Done (Inr g)"
      "admg_inv g" "admg_node_count g = pa_count pa"
      "admg_rel g = cut_directed ?X c (admg_rel (pa_admg pa))" "admg_bi g = cut_bidirected ?X (admg_bi (pa_admg pa))"
    using candidate_spec[OF bar, of c] by blast
  note ids = nodes_in_ids[OF cond(2)] nodes_in_ids[OF sD(1)]
  note small = pa_invD(2)[OF inv]
  have c: "c \<in> ?Z" using Cons.prems(2) by simp
  obtain dsep where sep: "y_separated_from g y c cond (iw_dsep (cr_workspace run)) =
      Done (Inr (movable pa ?X ?Y ?Z c), dsep)" "sw_inv dsep"
    using separated_loop_spec[OF g(2) Cons.prems(1), of c "bs_ids cond" "bs_ids y"] sD c cond nodes_inD(3)
    unfolding y_separated_from_def nodes_in_iter(2)[OF cond(2) small] nodes_in_iter(1)[OF sD(1) small]
      of_option.simps run_bind.simps movable_def ids g(3-5) cond(3)
    by (smt (verit) Diff_iff Un_iff disjoint_iff insertI1 subsetD lessThan_iff)
  let ?run = "run\<lparr>cr_workspace := (cr_workspace run)\<lparr>iw_dsep := dsep\<rparr>\<rparr>"
  show ?case
  proof (cases "movable pa ?X ?Y ?Z c")
    case True
    then show ?thesis using sep r cond(1) g(1) by (auto simp: Let_def)
  next
    case False
    obtain found dsep' where rec: "idc_line1 surgical y x z zs ?run =
        Done (Inr found, ?run\<lparr>cr_workspace := (cr_workspace ?run)\<lparr>iw_dsep := dsep'\<rparr>\<rparr>)" "sw_inv dsep'"
        "case found of
         None \<Rightarrow> \<forall>c \<in> set zs. \<not> movable pa ?X ?Y ?Z c
       | Some (c, r) \<Rightarrow> c \<in> set zs \<and> nodes_in (pa_count pa) r \<and> bs_members r = ?Z - {c} \<and> movable pa ?X ?Y ?Z c"
      using Cons.IH[of ?run] sep(2) Cons.prems(2) by auto
    have "idc_line1 surgical y x z (c # zs) run = idc_line1 surgical y x z zs ?run"
      using False sep(1) cond(1) g(1) by (simp add: Let_def)
    with rec False show ?thesis by (intro exI[of _ found] exI[of _ dsep']) (auto split: option.splits)
  qed
next
  case Nil
  then show ?case by (intro exI[of _ None] exI[of _ "iw_dsep (cr_workspace run)"]) simp
qed

section \<open>Line 2: the ratio\<close>

lemma reads_marginal:
  assumes "S \<subseteq> pa_nodes pa" "W \<subseteq> S" "i \<in> W"
  shows "reads pa (sub_law W S) i"
proof -
  have fin: "finite S" using assms(1) finite_subset by blast
  have "sub_law W S (\<lambda>_. U) (coin p) = coin p W" if "biased U p" for U p
    using coin_ancestral[OF that fin assms(2)] by (simp add: sub_law_def fun_eq_iff)
  with reads_factor[of W pa i] assms show ?thesis unfolding reads_def by auto
qed

lemma sub_law_sum:
  assumes "finite S" "Y \<subseteq> S" "Y \<inter> Z = {}"
  shows "marg dm Y (sub_law (Y \<union> Z) S dm Q) = sub_law Z S dm Q"
proof -
  have "S - Z = Y \<union> (S - (Y \<union> Z))" using assms(2,3) by blast
  moreover have "finite Y" using assms(1,2) finite_subset by blast
  ultimately show ?thesis unfolding sub_law_def using assms(1) by (subst marg_union[symmetric]) auto
qed

lemma denotes_equiv:
  assumes "denotes pa assign B a i F" "e < length (ar_nodes b)" "tree_equiv (tree_of b e) (tree_of a i)"
    "live (tree_of b e)"
  shows "denotes pa assign B b e F"
  using assms tree_equivD(2)[OF assms(3)] by (simp add: denotes_def)

lemma simplified_emits:
  assumes inv: "arena_inv a" and den: "denotes pa assign B a i F" and lev: "levels_set assign"
  shows "holds (emits pa assign B F a) (simplified a i)"
  unfolding simplified_def
proof (rule holds_bind[OF ar_simplify_spec[OF inv denotes_id[OF den]]], clarify)
  fix res :: "simplify_error + expr_id" and b
  assume b: "grows a b" and res: "case res of Inl e \<Rightarrow> \<not> live (tree_of a i)
    | Inr e \<Rightarrow> live (tree_of a i) \<and> e < length (ar_nodes b) \<and> live (tree_of b e) \<and> tree_equiv (tree_of b e) (tree_of a i)"
  then obtain e where "res = Inr e" "e < length (ar_nodes b)" "tree_equiv (tree_of b e) (tree_of a i)" "live (tree_of b e)"
    using denotes_live[OF den lev] by (auto split: sum.splits)
  with denotes_equiv[OF den] b
  show "holds (emits pa assign B F a) (Done (map_sum (\<lambda>e. Message (simplify_error_string e)) (\<lambda>j. j) res, b))"
    by (simp add: emits_def)
qed

lemma intern_bitset_vars_spec:
  assumes prep: "pa_inv pa" and named: "pa_named pa" and inv: "arena_inv a" and y: "nodes_in (pa_count pa) y"
  shows "holds (\<lambda>(r, b). \<exists>vs. r = Inr vs \<and> grows a b \<and> vs < length (ar_var_sets b) \<and>
    set (ar_var_sets b ! vs) = pa_var pa ` bs_members y) (intern_bitset_vars pa y a)"
proof -
  have "set (bs_ids y) = bs_members y" by (rule nodes_in_ids[OF y])
  then have "pa_dense_to_vars pa (bs_ids y) = Inr (map (pa_var pa) (bs_ids y))"
      "set (map (pa_var pa) (bs_ids y)) = pa_var pa ` bs_members y"
    using pa_dense_to_vars_spec[OF named, of "bs_ids y"] nodes_inD(3)[OF y] by simp_all
  then show ?thesis
    unfolding intern_bitset_vars_def infallible_def nodes_in_iter(1)[OF y pa_invD(2)[OF prep]] of_option.simps run_bind.simps
    using ar_intern_var_set_spec[OF inv, of "map (pa_var pa) (bs_ids y)"]
    by (cases "ar_intern_var_set a (map (pa_var pa) (bs_ids y))") auto
qed

lemma idc_ratio_emits:
  assumes inv: "pa_inv pa" and named: "pa_named pa" and a: "arena_inv a" and S: "S \<subseteq> pa_nodes pa"
    and y: "nodes_in (pa_count pa) y" "bs_members y \<union> Z \<subseteq> S" "bs_members y \<inter> Z = {}"
    and den: "denotes pa [] {} a e (sub_law (bs_members y \<union> Z) S)"
  shows "holds (emits pa [] {} (\<lambda>dm Q \<sigma>. sub_law (bs_members y \<union> Z) S dm Q \<sigma> / sub_law Z S dm Q \<sigma>) a) (idc_ratio pa y e a)"
    (is "holds (emits pa [] {} ?R a) _")
proof -
  let ?Y = "bs_members y"
  have lev: "levels_set []" by (simp add: levels_set_def)
  have fin: "finite S" using S finite_subset by blast
  have den': "denotes pa [] ({} \<union> ?Y) a e (sub_law (?Y \<union> Z) S)" by (rule denotes_bound[OF den]) simp
  have sum: "marg dm ?Y (sub_law (?Y \<union> Z) S dm Q) = sub_law Z S dm Q" for dm Q
    by (rule sub_law_sum[OF fin]) (use y in auto)
  show ?thesis
    unfolding idc_ratio_def
  proof (rule holds_try_bind[OF intern_bitset_vars_spec[OF inv named a y(1)]], simp, clarify)
    fix vs b assume b: "grows a b" "vs < length (ar_var_sets b)" "set (ar_var_sets b ! vs) = pa_var pa ` ?Y"
    have invb: "arena_inv b" using growsD[OF b(1)] by simp
    have s: "holds (\<lambda>(i, a'). grows b a' \<and> denotes pa [] {} a' i (sub_law Z S)) (ar_intern b (SumOut vs e))"
      using intern_sum[OF named invb denotes_grows[OF den' a b(1)] _ _ b(2,3)] nodes_in_members[OF y(1)]
        reads_marginal[OF S y(2)] by (simp add: sum)
    show "holds (emits pa [] {} ?R a) (try_bind (infallible (ar_intern b (SumOut vs e))) (\<lambda>denom a.
        try_bind (infallible (ar_intern a (Ratio e denom))) (\<lambda>ratio a. simplified a ratio)))"
    proof (rule holds_emits_grows[OF b(1)], rule holds_entry[OF s])
      fix d c assume c: "grows b c" "denotes pa [] {} c d (sub_law Z S)"
      have invc: "arena_inv c" using growsD[OF c(1)] by simp
      have e: "denotes pa [] {} c e (sub_law (?Y \<union> Z) S)" by (rule denotes_grows[OF den a grows_trans[OF b(1) c(1)]])
      show "holds (emits pa [] {} ?R c) (try_bind (infallible (ar_intern c (Ratio e d))) (\<lambda>ratio a. simplified a ratio))"
      proof (rule holds_entry[OF intern_ratio[OF invc e c(2)]])
        fix i a' assume a': "grows c a'" "denotes pa [] {} a' i ?R"
        show "holds (emits pa [] {} ?R a') (simplified a' i)"
          by (rule simplified_emits[OF _ a'(2) lev]) (use growsD[OF a'(1)] in simp)
      qed
    qed
  qed
qed

section \<open>What the algorithm promises\<close>

definition identifies_conditional ::
  "prepared_admg \<Rightarrow> nat set \<Rightarrow> nat set \<Rightarrow> nat set \<Rightarrow> expr_arena \<Rightarrow> expr_id \<Rightarrow> bool" where
  "identifies_conditional pa X Y Z a e \<longleftrightarrow> arena_inv a \<and> e < length (ar_nodes a) \<and> live (tree_of a e) \<and>
     (\<forall>num dv M s. positive_model pa (node_dom pa dv) M \<longrightarrow> valid_env dv (pa_vars pa) s \<longrightarrow>
        tree_value num dv (pa_vars pa) (\<lambda>s. observational_law M (pa_nodes pa) (node_env pa s)) (tree_of a e) s =
          conditional_law M (node_dom pa dv) (pa_nodes pa) X Y Z (node_env pa s))"

text \<open>A certificate that the joint effect of \<open>X\<close> on \<open>Y\<close> is not identified.\<close>

definition refutes :: "prepared_admg \<Rightarrow> nat set \<Rightarrow> nat set \<Rightarrow> hedge_certificate \<Rightarrow> bool" where
  "refutes pa X Y hc \<longleftrightarrow> hedge (pa_admg pa) (pa_nodes pa) X Y (set (hc_f_dense hc)) (set (hc_f_prime_dense hc)) \<and>
     hc_verify_carried hc = Done (Inr ())"

text \<open>What is left when no conditioning node can be moved any more.\<close>

definition reduced_to :: "prepared_admg \<Rightarrow> nat set \<Rightarrow> nat set \<Rightarrow> nat set \<Rightarrow> nat set \<Rightarrow> nat set \<Rightarrow> bool" where
  "reduced_to pa Y X Z X' Z' \<longleftrightarrow> X \<subseteq> X' \<and> Z' \<subseteq> Z \<and> X' \<union> Z' = X \<union> Z \<and> X' \<inter> Z' = {} \<and>
     same_conditional pa Y X Z X' Z' \<and> (\<forall>c \<in> Z'. \<not> movable pa X' Y Z' c)"

fun idc_outcome_ok :: "prepared_admg \<Rightarrow> nat set \<Rightarrow> nat set \<Rightarrow> nat set \<Rightarrow> idc_ok \<Rightarrow> bool" where
  "idc_outcome_ok pa X Y Z (IdcIdentified e a) \<longleftrightarrow> identifies_conditional pa X Y Z a e"
| "idc_outcome_ok pa X Y Z (IdcNotIdentified res) \<longleftrightarrow> rs_status res = NotIdentified \<and> rs_estimands res = [] \<and>
     (\<exists>hc X' Z'. rs_hedge res = Some hc \<and> reduced_to pa Y X Z X' Z' \<and> refutes pa X' (Y \<union> Z') hc)"

lemma identifies_conditional_cong:
  "identifies_conditional pa X Y Z a e \<Longrightarrow> same_conditional pa Y X' Z' X Z \<Longrightarrow> identifies_conditional pa X' Y Z' a e"
  using node_env_valid by (fastforce simp: identifies_conditional_def same_conditional_def)

lemma denotes_conditional:
  assumes inv: "pa_inv pa" and a: "arena_inv a"
    and den: "denotes pa [] {} a e (\<lambda>dm Q \<sigma>. sub_law (Y \<union> Z) (pa_nodes pa - X) dm Q \<sigma> / sub_law Z (pa_nodes pa - X) dm Q \<sigma>)"
  shows "identifies_conditional pa X Y Z a e"
  unfolding identifies_conditional_def
proof (intro conjI allI impI)
  show "arena_inv a" "e < length (ar_nodes a)" by (rule a, rule denotes_id[OF den])
  show "live (tree_of a e)" by (rule denotes_live[OF den]) (simp add: levels_set_def)
  fix num dv M s assume M: "positive_model pa (node_dom pa dv) M" "valid_env dv (pa_vars pa) s"
  have joint: "(\<lambda>s. observational_law M (pa_nodes pa) (node_env pa s)) = pa_joint pa (q_factor M)"
    by (simp add: pa_joint_def[abs_def] observational_law_def)
  have "under_levels [] {} (node_env pa s) = node_env pa s" by (simp add: under_levels_def fun_eq_iff)
  then show "tree_value num dv (pa_vars pa) (\<lambda>s. observational_law M (pa_nodes pa) (node_env pa s)) (tree_of a e) s =
      conditional_law M (node_dom pa dv) (pa_nodes pa) X Y Z (node_env pa s)"
    unfolding joint using denotesD[OF den positive_world[OF inv M(1)] _ M(2)]
    by (simp add: levels_ok_def conditional_law_def interventional_law_def sub_law_def)
qed

section \<open>Line 2\<close>

definition levels_valid :: "(variable_id \<Rightarrow> val option) \<Rightarrow> bool" where
  "levels_valid known \<longleftrightarrow> (\<forall>v level. known v = Some level \<longrightarrow> hard_set_is_valid (v, level))"

lemma dense_of_node_vars:
  assumes "pa_named pa" "nodes_in (pa_count pa) b"
  shows "dense_of_vars pa (map (pa_var pa) (bs_ids b)) = bs_members b"
  using nodes_in_ids[OF assms(2)] nodes_inD(3)[OF assms(2)] pa_namedD(2)[OF assms(1)]
  by (auto simp: dense_of_vars_def)

lemma insert_node_vars:
  assumes inv: "pa_inv pa" and named: "pa_named pa" and b: "nodes_in (pa_count pa) b"
  shows "insert_variables pa (map (pa_var pa) (bs_ids b)) (bs_with_len (pa_count pa)) = Done (Inr b)"
proof -
  have "\<forall>v \<in> set (map (pa_var pa) (bs_ids b)). \<exists>i. pa_var_to_dense pa v = Inr i"
    using nodes_in_ids[OF b] nodes_inD(3)[OF b] pa_namedD(2)[OF named] by auto
  from insert_variables_spec[OF inv nodes_in_empty(1) this] obtain c where
    c: "insert_variables pa (map (pa_var pa) (bs_ids b)) (bs_with_len (pa_count pa)) = Done (Inr c)"
      "nodes_in (pa_count pa) c" "bs_members c = bs_members b"
    using dense_of_node_vars[OF named b] by auto
  then show ?thesis using nodes_in_eq[OF c(2) b] by simp
qed

text \<open>The query that line 2 builds passes validation and reaches the recursion with the sets it was built from.\<close>

lemma built_query:
  assumes inv: "pa_inv pa" and named: "pa_named pa" and y: "nodes_in (pa_count pa) y" and x: "nodes_in (pa_count pa) x"
    and sets: "bs_members y \<noteq> {}" "bs_members x \<inter> bs_members y = {}" and known: "levels_valid known"
  shows "\<exists>q. distribution_query_from_sets pa y x known = Done (Inr q) \<and> identify_distribution pa q ws = identify_sets pa y x q ws []"
proof -
  let ?vs = "\<lambda>b. map (pa_var pa) (bs_ids b)" and ?level = "\<lambda>v. case known v of Some level \<Rightarrow> level | None \<Rightarrow> val.Int64 0"
  let ?q = "\<lparr>dq_outcomes = ?vs y, dq_interventions = map (\<lambda>v. (v, ?level v)) (?vs x), dq_conditioning = []\<rparr>"
  have iter: "set (bs_ids b) = bs_members b" "\<forall>i \<in> set (bs_ids b). i < pa_count pa" if "nodes_in (pa_count pa) b" for b
    using nodes_in_ids[OF that] nodes_inD(3)[OF that] by auto
  have q: "distribution_query_from_sets pa y x known = Done (Inr ?q)"
    using pa_dense_to_vars_spec[OF named iter(2)[OF y]] pa_dense_to_vars_spec[OF named iter(2)[OF x]]
      nodes_in_iter(1)[OF y pa_invD(2)[OF inv]] nodes_in_iter(1)[OF x pa_invD(2)[OF inv]]
    by (simp add: distribution_query_from_sets_def rbind_def)
  have "hard_set_is_valid (v, ?level v)" for v using known by (auto simp: levels_valid_def split: option.split)
  then have "list_all hard_set_is_valid (dq_interventions ?q)" by (simp add: list_all_iff)
  moreover have "dq_outcomes ?q \<noteq> []" using sets(1) iter(1)[OF y] by auto
  moreover have "find (\<lambda>v. v \<in> fst ` set (dq_interventions ?q)) (dq_outcomes ?q) = None"
    using sets(2) iter[OF x] iter[OF y] pa_var_inj[OF named] by (auto simp: find_None_iff image_iff)
  ultimately have "validate_distribution_query ?q = Inr ()" by (simp add: validate_distribution_query_def dq_validate_def)
  moreover have "map fst (dq_interventions ?q) = ?vs x" by (simp add: comp_def)
  ultimately have "identify_distribution pa ?q ws = identify_sets pa y x ?q ws []"
    using insert_node_vars[OF inv named x] insert_node_vars[OF inv named y] by (simp add: identify_distribution_def comp_def)
  with q show ?thesis by blast
qed

definition iw_ok :: "id_workspace \<Rightarrow> bool" where
  "iw_ok ws \<longleftrightarrow> ws_inv (iw_graph ws) \<and> sw_inv (iw_dsep ws)"

definition idc_done :: "prepared_admg \<Rightarrow> nat set \<Rightarrow> nat set \<Rightarrow> nat set \<Rightarrow> (identification_error + idc_ok) \<times> idc_run \<Rightarrow> bool" where
  "idc_done pa X Y Z = (\<lambda>(r, run). iw_ok (cr_workspace run) \<and> (\<exists>out. r = Inr out \<and> idc_outcome_ok pa X Y Z out))"

lemma idc_line2_spec:
  assumes inv: "pa_inv pa" and named: "pa_named pa" and sets: "idc_sets pa y x z" and known: "levels_valid known"
    and ws: "iw_ok (cr_workspace run)" and stuck: "\<forall>c \<in> bs_members z. \<not> movable pa (bs_members x) (bs_members y) (bs_members z) c"
  shows "holds (idc_done pa (bs_members x) (bs_members y) (bs_members z)) (idc_line2 pa known y x z run)"
proof -
  note sD = idc_setsD[OF sets]
  let ?Y = "bs_members y" and ?X = "bs_members x" and ?Z = "bs_members z"
  obtain yz where yz: "bs_union_with y z = Some yz" "nodes_in (pa_count pa) yz" "bs_members yz = ?Y \<union> ?Z"
    using nodes_in_ops(1)[OF sD(1,3)] by (cases "bs_union_with y z") auto
  let ?ws = "iw_graph (cr_workspace run)"
  obtain q where q: "distribution_query_from_sets pa yz x known = Done (Inr q)"
      "identify_distribution pa q ?ws = identify_sets pa yz x q ?ws []"
    using built_query[OF inv named yz(2) sD(2) _ _ known, of ?ws] sD(4-6) yz(3) by auto
  have qs: "query_sets_ok pa yz x []" using yz(2) sD(2) by (simp add: query_sets_ok_def)
  have r: "require_disjoint yz x = Done (Inr ())" using require_disjoint_iff[OF yz(2) pa_invD(2)[OF inv]] sD(4-6) yz(3) by auto
  have iw: "ws_inv ?ws" using ws by (simp add: iw_ok_def)
  have S: "pa_nodes pa - ?X \<subseteq> pa_nodes pa" "?Y \<union> ?Z \<subseteq> pa_nodes pa - ?X" using sD by auto
  have same: "reduced_to pa ?Y ?X ?Z ?X ?Z" using stuck sD(6) by (simp add: reduced_to_def)
  note line2 = idc_line2_def Let_def yz(1) q(1) of_option.simps run_bind.simps sum.case cr_push_def
  show ?thesis
  proof (rule identify_sets_outcome[OF inv named qs iw r, of q])
    assume "identify_sets pa yz x q ?ws [] = NoIds"
    then show ?thesis by (simp add: line2 q(2))
  next
    fix ws' a e d perf
    assume run: "identify_sets pa yz x q ?ws [] = Done (Inr (rs_identified q [general_id_estimand e] a d
        (with_causal_markov pa ''general.id'') perf), ws')" and ws': "ws_inv ws'"
      and eff: "identifies_effect pa ?X (bs_members yz) [] a e"
      and den: "denotes pa [] {} a e (sub_law (bs_members yz) (pa_nodes pa - ?X))"
    have a: "arena_inv a" using eff by (simp add: identifies_effect_def)
    have ratio: "holds (emits pa [] {} (\<lambda>dm Q \<sigma>. sub_law (?Y \<union> ?Z) (pa_nodes pa - ?X) dm Q \<sigma> / sub_law ?Z (pa_nodes pa - ?X) dm Q \<sigma>) a)
        (idc_ratio pa y e a)"
      by (rule idc_ratio_emits[OF inv named a S(1) sD(1) S(2) sD(7) den[unfolded yz(3)]])
    have post: "identifies_conditional pa ?X ?Y ?Z a' e'"
      if "grows a a'" "denotes pa [] {} a' e' (\<lambda>dm Q \<sigma>. sub_law (?Y \<union> ?Z) (pa_nodes pa - ?X) dm Q \<sigma> / sub_law ?Z (pa_nodes pa - ?X) dm Q \<sigma>)"
      for a' e'
      by (rule denotes_conditional[OF inv _ that(2)]) (use growsD[OF that(1)] in simp)
    have ws1: "iw_ok ((cr_workspace run)\<lparr>iw_graph := ws'\<rparr>)" using ws ws' by (simp add: iw_ok_def)
    show ?thesis
      using ratio post ws1
      by (cases "idc_ratio pa y e a")
        (auto simp: line2 q(2) run rs_identified_def at_index_def general_id_estimand_def ie_new_def emits_def idc_done_def)
  next
    fix ws' c hp d perf
    assume run: "identify_sets pa yz x q ?ws [] = Done (Inr (not_identified_with_hedge q d (pa_declared_assumptions pa) perf
        (hc_with_problem c hp)), ws')" and ws': "ws_inv ws'"
      and v: "hc_verify_carried (hc_with_problem c hp) = Done (Inr ())"
      and h: "hedge (pa_admg pa) (pa_nodes pa) ?X (bs_members yz) (set (hc_f_dense c)) (set (hc_f_prime_dense c))"
    have "iw_ok ((cr_workspace run)\<lparr>iw_graph := ws'\<rparr>)" using ws ws' by (simp add: iw_ok_def)
    moreover have "refutes pa ?X (?Y \<union> ?Z) (hc_with_problem c hp)"
      using v h by (simp add: refutes_def hc_with_problem_def yz(3))
    ultimately show ?thesis
      using same by (auto simp: line2 q(2) run not_identified_with_hedge_def rs_not_identified_hedge_def idc_done_def)
  qed
qed

section \<open>The recursion\<close>

lemma idc_outcome_same:
  assumes "idc_outcome_ok pa X' Y Z' out" "same_conditional pa Y X Z X' Z'" "X \<subseteq> X'" "Z' \<subseteq> Z" "X' \<union> Z' = X \<union> Z"
  shows "idc_outcome_ok pa X Y Z out"
proof (cases out)
  case (IdcIdentified e a)
  then show ?thesis using assms(1) identifies_conditional_cong[OF _ assms(2)] by simp
next
  case (IdcNotIdentified res)
  have "reduced_to pa Y X Z X'' Z''" if "reduced_to pa Y X' Z' X'' Z''" for X'' Z''
    using that assms(3-5) same_conditional_trans[OF assms(2)] unfolding reduced_to_def by blast
  with IdcNotIdentified assms(1) show ?thesis by simp blast
qed

lemma idc_recurse_ok:
  assumes inv: "pa_inv pa" and named: "pa_named pa" and known: "levels_valid known"
  shows "card (bs_members z) < fuel \<Longrightarrow> idc_sets pa y x z \<Longrightarrow> barred pa (bs_members x) surgical \<Longrightarrow>
    iw_ok (cr_workspace run) \<Longrightarrow>
    holds (idc_done pa (bs_members x) (bs_members y) (bs_members z)) (idc_recurse fuel pa known y x z surgical run)"
proof (induction fuel arbitrary: x z surgical run)
  case (Suc fuel)
  note sD = idc_setsD[OF Suc.prems(2)]
  let ?Y = "bs_members y" and ?X = "bs_members x" and ?Z = "bs_members z"
  let ?run = "run\<lparr>cr_perf := (cr_perf run)\<lparr>pr_candidates_examined := saturating_add (pr_candidates_examined (cr_perf run)) 1\<rparr>\<rparr>"
  note iter = nodes_in_ids[OF sD(3)] and listed = nodes_in_iter(1)[OF sD(3) pa_invD(2)[OF inv]]
  have sw: "sw_inv (iw_dsep (cr_workspace ?run))" using Suc.prems(4) by (simp add: iw_ok_def)
  obtain found dsep where line1: "idc_line1 surgical y x z (bs_ids z) ?run =
        Done (Inr found, ?run\<lparr>cr_workspace := (cr_workspace ?run)\<lparr>iw_dsep := dsep\<rparr>\<rparr>)" "sw_inv dsep"
      "case found of
         None \<Rightarrow> \<forall>c \<in> ?Z. \<not> movable pa ?X ?Y ?Z c
       | Some (c, r) \<Rightarrow> c \<in> ?Z \<and> nodes_in (pa_count pa) r \<and> bs_members r = ?Z - {c} \<and> movable pa ?X ?Y ?Z c"
    using idc_line1_spec[OF inv Suc.prems(2,3) sw, of "bs_ids z"] unfolding iter by blast
  let ?run1 = "?run\<lparr>cr_workspace := (cr_workspace ?run)\<lparr>iw_dsep := dsep\<rparr>\<rparr>"
  have ws: "iw_ok (cr_workspace ?run1)" using Suc.prems(4) line1(2) by (simp add: iw_ok_def)
  show ?case
  proof (cases found)
    case None
    then show ?thesis
      using idc_line2_spec[OF inv named Suc.prems(2) known ws] line1 listed by (simp add: Let_def try_bind_def)
  next
    case (Some p)
    then obtain c r where p: "found = Some (c, r)" by (cases p) simp
    then have c: "c \<in> ?Z" "nodes_in (pa_count pa) r" "bs_members r = ?Z - {c}" "movable pa ?X ?Y ?Z c"
      using line1(3) by simp_all
    obtain x2 where x2: "bs_insert x c = Some x2" "nodes_in (pa_count pa) x2" "bs_members x2 = insert c ?X"
      using nodes_in_insert[OF sD(2)] c(1) sD(10) by blast
    obtain g where g: "mutilate_bar_x (pa_admg pa) x2 = Done (Inr g)" "barred pa (bs_members x2) g"
      using mutilate_barred[OF inv] by blast
    let ?run2 = "cr_push ''general.idc.line1'' (''insert Z='' @ decimal c @ '' into intervention (rule 2)'') ?run1"
    have "finite ?Z" using sD(10) finite_subset by blast
    then have "card (bs_members r) < fuel" using Suc.prems(1) c(1,3) card_Diff1_less[of ?Z c] by simp
    moreover have "idc_sets pa y x2 r" using c x2 sD by (auto simp: idc_sets_def)
    moreover have "iw_ok (cr_workspace ?run2)" using ws by (simp add: cr_push_def)
    ultimately have rec: "holds (idc_done pa (insert c ?X) ?Y (?Z - {c})) (idc_recurse fuel pa known y x2 r g ?run2)"
      using Suc.IH[of r x2 g ?run2] g(2) x2(3) c(3) by simp
    have same: "same_conditional pa ?Y ?X ?Z (insert c ?X) (?Z - {c})"
      by (rule rule_2_step[OF inv]) (use sD c in auto)
    have "idc_outcome_ok pa ?X ?Y ?Z out" if "idc_outcome_ok pa (insert c ?X) ?Y (?Z - {c}) out" for out
      by (rule idc_outcome_same[OF that same]) (use c(1) in auto)
    then have "holds (idc_done pa ?X ?Y ?Z) (idc_recurse fuel pa known y x2 r g ?run2)"
      by (intro holds_mono[OF rec]) (auto simp: idc_done_def)
    then show ?thesis using line1(1) p x2(1) g(1) listed by (simp add: Let_def try_bind_def)
  qed
qed simp

end
