(* ===== verification/Conditional_Properties.thy ===== *)
theory Conditional_Properties
  imports Conditional_Id
begin

text \<open>
  The correctness statements of conditional identification: what the entry point of \<open>idc.rs\<close> returns, and the
  rule of the do-calculus its reduction rests on.
\<close>

section \<open>Resolving a query\<close>

lemma query_fields [simp]:
  "\<lparr>dq_outcomes = dq_outcomes q, dq_interventions = dq_interventions q, dq_conditioning = dq_conditioning q\<rparr> = q"
  by simp

definition dq_variables :: "distribution_query \<Rightarrow> variable_id list" where
  "dq_variables q = dq_outcomes q @ map fst (dq_interventions q) @ dq_conditioning q"

definition known_variables :: "prepared_admg \<Rightarrow> variable_id list \<Rightarrow> bool" where
  "known_variables pa vs \<longleftrightarrow> (\<forall>v \<in> set vs. \<exists>i. pa_var_to_dense pa v = Inr i)"

lemma known_variables_append [simp]:
  "known_variables pa (us @ vs) \<longleftrightarrow> known_variables pa us \<and> known_variables pa vs"
  by (auto simp: known_variables_def)

text \<open>Either every variable has a node, or the first lookup that fails ends the call.\<close>

lemma insert_variables_result:
  assumes "pa_inv pa"
  obtains b where "known_variables pa vs" "insert_variables pa vs (bs_with_len (pa_count pa)) = Done (Inr b)"
      "nodes_in (pa_count pa) b" "bs_members b = dense_of_vars pa vs"
  | v where "\<not> known_variables pa vs" "insert_variables pa vs (bs_with_len (pa_count pa)) = Done (Inl (UnknownVariable v))"
proof (cases "known_variables pa vs")
  case True
  with insert_variables_spec[OF assms nodes_in_empty(1), of vs] that(1) show thesis
    unfolding known_variables_def by auto
next
  case False
  then have "\<exists>v \<in> set vs. \<forall>i. pa_var_to_dense pa v \<noteq> Inr i" by (auto simp: known_variables_def)
  from insert_variables_unknown[OF assms nodes_in_empty(1) this] that(2)[OF False] show thesis by blast
qed

lemma dense_of_vars_disjoint:
  assumes "pa_inv pa" "set us \<inter> set vs = {}"
  shows "dense_of_vars pa us \<inter> dense_of_vars pa vs = {}"
proof (rule ccontr)
  assume "dense_of_vars pa us \<inter> dense_of_vars pa vs \<noteq> {}"
  then obtain i u v where "pa_var_to_dense pa u = Inr i" "pa_var_to_dense pa v = Inr i" "u \<in> set us" "v \<in> set vs"
    by (auto simp: dense_of_vars_def)
  then show False using assms pa_var_to_dense_spec[OF assms(1)] by (metis disjoint_iff sum.inject(2))
qed

lemma dq_validate_ok:
  assumes "dq_validate q = Inr ()"
  shows "dq_outcomes q \<noteq> []" "list_all hard_set_is_valid (dq_interventions q)"
    "set (dq_outcomes q) \<inter> fst ` set (dq_interventions q) = {}"
    "set (dq_outcomes q) \<inter> set (dq_conditioning q) = {}" "fst ` set (dq_interventions q) \<inter> set (dq_conditioning q) = {}"
proof -
  have none: "find (\<lambda>y. y \<in> fst ` set (dq_interventions q)) (dq_outcomes q) = None"
    and "dq_outcomes q \<noteq> []" "list_all hard_set_is_valid (dq_interventions q)"
    and over: "\<not> list_ex (\<lambda>z. z \<in> set (dq_outcomes q) \<or> z \<in> fst ` set (dq_interventions q)) (dq_conditioning q)"
    using assms by (auto simp: dq_validate_def split: if_splits option.splits)
  then show "dq_outcomes q \<noteq> []" "list_all hard_set_is_valid (dq_interventions q)" by simp_all
  show "set (dq_outcomes q) \<inter> fst ` set (dq_interventions q) = {}" using none unfolding find_None_iff by blast
  show "set (dq_outcomes q) \<inter> set (dq_conditioning q) = {}" "fst ` set (dq_interventions q) \<inter> set (dq_conditioning q) = {}"
    using over unfolding list_ex_iff by blast+
qed

lemma known_levels_sound: "known_levels iv v = Some level \<Longrightarrow> (v, level) \<in> set iv"
  unfolding known_levels_def
proof (induction iv rule: rev_induct)
  case (snoc p iv)
  then show ?case by (cases p) (auto split: if_splits)
qed simp

lemma known_levels_valid: "list_all hard_set_is_valid iv \<Longrightarrow> levels_valid (known_levels iv)"
  using known_levels_sound by (force simp: levels_valid_def list_all_iff)

section \<open>The result of a query\<close>

text \<open>What a result says about \<open>P(Y | do(X), Z)\<close>, given the sets of nodes.\<close>

definition conditional_answer ::
  "prepared_admg \<Rightarrow> nat set \<Rightarrow> nat set \<Rightarrow> nat set \<Rightarrow> 'q identification_result \<Rightarrow> bool" where
  "conditional_answer pa X Y Z res \<longleftrightarrow>
     rs_status res = NonparametricallyIdentified \<and> rs_hedge res = None \<and>
       (\<exists>e. rs_estimands res = [general_id_estimand e] \<and> identifies_conditional pa X Y Z (rs_arena res) e) \<or>
     rs_status res = NotIdentified \<and> rs_estimands res = [] \<and>
       (\<exists>hc X' Z'. rs_hedge res = Some hc \<and> reduced_to pa Y X Z X' Z' \<and> refutes pa X' (Y \<union> Z') hc)"

lemma identified_answer:
  "identifies_conditional pa X Y Z a e \<Longrightarrow> conditional_answer pa X Y Z (rs_identified q [general_id_estimand e] a d asms perf)"
  unfolding conditional_answer_def by (auto simp: rs_identified_def)

lemma hedge_answer:
  "reduced_to pa Y X Z X' Z' \<Longrightarrow> refutes pa X' (Y \<union> Z') hc \<Longrightarrow>
    conditional_answer pa X Y Z (not_identified_with_hedge q d asms perf hc)"
  unfolding conditional_answer_def by (auto simp: not_identified_with_hedge_def rs_not_identified_hedge_def)

lemma idc_result_answer:
  assumes "idc_outcome_ok pa X Y Z out"
  shows "conditional_answer pa X Y Z (idc_result pa q out run)"
proof (cases out)
  case (IdcIdentified e a)
  with assms identified_answer show ?thesis by (simp add: idc_result_def)
next
  case (IdcNotIdentified res)
  with assms show ?thesis by (simp add: conditional_answer_def idc_result_def)
qed

text \<open>Without conditioning the law is the interventional one.\<close>

lemma unconditional_identifies:
  assumes inv: "pa_inv pa" and eff: "identifies_effect pa X Y [] a e"
  shows "identifies_conditional pa X Y {} a e"
proof -
  have one: "interventional_law M dm (pa_nodes pa) X {} \<sigma> = 1"
    if "positive_model pa dm M" "valid_env dm (pa_nodes pa) \<sigma>" for M dm \<sigma>
  proof -
    note w = positive_world[OF inv that(1), unfolded world_def]
    have "ancestral_in (admg_rel (pa_admg pa)) {} (pa_nodes pa - X)" by (auto simp: ancestral_in_def)
    then show ?thesis
      using causal_factorsD(3)[OF w that(2), of "pa_nodes pa - X" "{}"] causal_factorsD(1)[OF w that(2)]
      by (simp add: interventional_law_def)
  qed
  have "levels_env [] \<sigma> = \<sigma>" for \<sigma> by (simp add: levels_env_def fun_eq_iff)
  with eff show ?thesis
    unfolding identifies_conditional_def identifies_effect_def conditional_law_def positive_model_def
    using one[unfolded positive_model_def] node_env_valid by (simp add: levels_set_def levels_ok_def)
qed

definition query_answer ::
  "prepared_admg \<Rightarrow> distribution_query \<Rightarrow> identification_error + distribution_query identification_result \<Rightarrow> bool" where
  "query_answer pa q r \<longleftrightarrow>
     (case r of
        Inl e \<Rightarrow> dq_validate q \<noteq> Inr () \<or> \<not> known_variables pa (dq_variables q)
      | Inr res \<Rightarrow> dq_validate q = Inr () \<and> known_variables pa (dq_variables q) \<and>
          conditional_answer pa (dense_of_vars pa (map fst (dq_interventions q))) (dense_of_vars pa (dq_outcomes q))
            (dense_of_vars pa (dq_conditioning q)) res)"

lemma idc_sets_query:
  assumes inv: "pa_inv pa" and ok: "dq_validate q = Inr ()"
    and y: "known_variables pa (dq_outcomes q)" "nodes_in (pa_count pa) y" "bs_members y = dense_of_vars pa (dq_outcomes q)"
    and x: "nodes_in (pa_count pa) x" "bs_members x = dense_of_vars pa (map fst (dq_interventions q))"
    and z: "nodes_in (pa_count pa) z" "bs_members z = dense_of_vars pa (dq_conditioning q)"
  shows "idc_sets pa y x z"
proof -
  note d = dq_validate_ok[OF ok]
  have "bs_members y \<noteq> {}" using d(1) y(1) unfolding y(3) by (cases "dq_outcomes q") (auto simp: known_variables_def dense_of_vars_def)
  then show ?thesis
    unfolding idc_sets_def using y(2) x(1) z(1) dense_of_vars_disjoint[OF inv] d(3-5) unfolding y(3) x(2) z(2)
    by (simp add: Int_commute)
qed

lemma identify_conditional_spec:
  assumes inv: "pa_inv pa" and named: "pa_named pa" and ws: "iw_ok ws"
  shows "holds (\<lambda>(r, ws'). iw_ok ws' \<and> query_answer pa q r)
    (identify_conditional pa (dq_outcomes q) (dq_interventions q) (dq_conditioning q) ws)"
proof (cases "dq_validate q")
  case (Inl msg)
  then show ?thesis
    using ws by (simp add: identify_conditional_def validate_distribution_query_def Let_def query_answer_def)
next
  case (Inr u)
  then have ok: "dq_validate q = Inr ()" by simp
  let ?none = "bs_with_len (pa_count pa)"
  have start: "validate_distribution_query q = Inr ()" using ok by (simp add: validate_distribution_query_def)
  show ?thesis
  proof (rule insert_variables_result[OF inv, of "dq_outcomes q"])
    fix y assume y: "known_variables pa (dq_outcomes q)" "insert_variables pa (dq_outcomes q) ?none = Done (Inr y)"
      "nodes_in (pa_count pa) y" "bs_members y = dense_of_vars pa (dq_outcomes q)"
    show ?thesis
    proof (rule insert_variables_result[OF inv, of "map fst (dq_interventions q)"])
      fix x assume x: "known_variables pa (map fst (dq_interventions q))"
        "insert_variables pa (map fst (dq_interventions q)) ?none = Done (Inr x)"
        "nodes_in (pa_count pa) x" "bs_members x = dense_of_vars pa (map fst (dq_interventions q))"
      show ?thesis
      proof (rule insert_variables_result[OF inv, of "dq_conditioning q"])
        fix z assume z: "known_variables pa (dq_conditioning q)" "insert_variables pa (dq_conditioning q) ?none = Done (Inr z)"
          "nodes_in (pa_count pa) z" "bs_members z = dense_of_vars pa (dq_conditioning q)"
        obtain g where g: "mutilate_bar_x (pa_admg pa) x = Done (Inr g)" "barred pa (bs_members x) g"
          using mutilate_barred[OF inv] by blast
        let ?run = "\<lparr>cr_workspace = ws, cr_derivation = dt_push [] ''general.idc'' (''Shpitser'' @ en_dash @ ''Pearl IDC''),
          cr_perf = pr_default\<rparr>"
        have "card (bs_members z) \<le> card (pa_nodes pa)" by (rule card_mono) (use nodes_in_members[OF z(3)] in auto)
        then have "card (bs_members z) < idc_fuel pa" by (simp add: idc_fuel_def)
        then have rec: "holds (idc_done pa (bs_members x) (bs_members y) (bs_members z))
            (idc_recurse (idc_fuel pa) pa (known_levels (dq_interventions q)) y x z g ?run)"
          using idc_recurse_ok[OF inv named known_levels_valid[OF dq_validate_ok(2)[OF ok]] _
              idc_sets_query[OF inv ok y(1,3,4) x(3,4) z(3,4)] g(2)] ws by simp
        have known: "known_variables pa (dq_variables q)" using y(1) x(1) z(1) by (simp add: dq_variables_def)
        show ?thesis
          unfolding identify_conditional_def query_fields start Let_def sum.case y(2) x(2) z(2) g(1) run_bind.simps
          by (rule holds_bind[OF rec])
            (auto simp: idc_done_def query_answer_def ok known x(4) y(4) z(4) intro: idc_result_answer)
      qed (use y x ws start in \<open>simp add: identify_conditional_def Let_def query_answer_def dq_variables_def\<close>)
    qed (use y ws start in \<open>simp add: identify_conditional_def Let_def query_answer_def dq_variables_def\<close>)
  qed (use ws start in \<open>simp add: identify_conditional_def Let_def query_answer_def dq_variables_def\<close>)
qed

lemma identify_distribution_spec:
  assumes inv: "pa_inv pa" and named: "pa_named pa" and ws: "ws_inv ws" and cond: "dq_conditioning q = []"
  shows "holds (\<lambda>(r, ws'). ws_inv ws' \<and> query_answer pa q r \<and> (\<forall>res. r = Inr res \<longrightarrow> rs_query res = q))
    (identify_distribution pa q ws)"
proof (cases "dq_validate q")
  case (Inl msg)
  then show ?thesis
    using ws by (simp add: identify_distribution_def validate_distribution_query_def query_answer_def)
next
  case (Inr u)
  then have ok: "dq_validate q = Inr ()" by simp
  let ?none = "bs_with_len (pa_count pa)"
  have start: "validate_distribution_query q = Inr ()" using ok by (simp add: validate_distribution_query_def)
  show ?thesis
  proof (rule insert_variables_result[OF inv, of "map fst (dq_interventions q)"])
    fix x assume x: "known_variables pa (map fst (dq_interventions q))"
      "insert_variables pa (map fst (dq_interventions q)) ?none = Done (Inr x)"
      "nodes_in (pa_count pa) x" "bs_members x = dense_of_vars pa (map fst (dq_interventions q))"
    show ?thesis
    proof (rule insert_variables_result[OF inv, of "dq_outcomes q"])
      fix y assume y: "known_variables pa (dq_outcomes q)" "insert_variables pa (dq_outcomes q) ?none = Done (Inr y)"
        "nodes_in (pa_count pa) y" "bs_members y = dense_of_vars pa (dq_outcomes q)"
      have none: "dense_of_vars pa (dq_conditioning q) = {}" by (simp add: cond dense_of_vars_def)
      have sets: "idc_sets pa y x ?none"
        by (rule idc_sets_query[OF inv ok y(1,3,4) x(3,4)]) (simp_all add: none)
      note sD = idc_setsD[OF sets]
      have known: "known_variables pa (dq_variables q)"
        using y(1) x(1) by (simp add: dq_variables_def cond known_variables_def[of pa "[]"])
      have qs: "query_sets_ok pa y x []" using x(3) y(3) by (simp add: query_sets_ok_def)
      have r: "require_disjoint y x = Done (Inr ())" using require_disjoint_iff[OF y(3) pa_invD(2)[OF assms(1)]] sD(4,5) by blast
      have run: "identify_distribution pa q ws = identify_sets pa y x q ws []"
        using start cond x(2) y(2) by (simp add: identify_distribution_def)
      have same: "reduced_to pa (bs_members y) (bs_members x) {} (bs_members x) {}" by (simp add: reduced_to_def)
      note sets_of = x(4)[symmetric] y(4)[symmetric] none
      show ?thesis
        unfolding run
      proof (rule identify_sets_outcome[OF inv named qs ws r, of q])
        fix ws' a e d perf
        assume "identify_sets pa y x q ws [] = Done (Inr (rs_identified q [general_id_estimand e] a d
            (with_causal_markov pa ''general.id'') perf), ws')" "ws_inv ws'"
          and e: "identifies_effect pa (bs_members x) (bs_members y) [] a e"
        then show "holds (\<lambda>(r, ws'). ws_inv ws' \<and> query_answer pa q r \<and> (\<forall>res. r = Inr res \<longrightarrow> rs_query res = q))
            (identify_sets pa y x q ws [])"
          using identified_answer[OF unconditional_identifies[OF inv e]]
          by (simp add: query_answer_def ok known sets_of rs_identified_def)
      next
        fix ws' c hp d perf
        assume "identify_sets pa y x q ws [] = Done (Inr (not_identified_with_hedge q d (pa_declared_assumptions pa) perf
            (hc_with_problem c hp)), ws')" "ws_inv ws'"
          and h: "hc_verify_carried (hc_with_problem c hp) = Done (Inr ())"
            "hedge (pa_admg pa) (pa_nodes pa) (bs_members x) (bs_members y) (set (hc_f_dense c)) (set (hc_f_prime_dense c))"
        moreover have "refutes pa (bs_members x) (bs_members y \<union> {}) (hc_with_problem c hp)"
          using h by (simp add: refutes_def hc_with_problem_def)
        ultimately show "holds (\<lambda>(r, ws'). ws_inv ws' \<and> query_answer pa q r \<and> (\<forall>res. r = Inr res \<longrightarrow> rs_query res = q))
            (identify_sets pa y x q ws [])"
          using hedge_answer[OF same, of "hc_with_problem c hp" q d "pa_declared_assumptions pa" perf]
          by (simp add: query_answer_def ok known sets_of not_identified_with_hedge_def rs_not_identified_hedge_def)
      qed simp
    qed (use x ws start cond in \<open>simp add: identify_distribution_def query_answer_def dq_variables_def\<close>)
  qed (use ws start cond in \<open>simp add: identify_distribution_def query_answer_def dq_variables_def\<close>)
qed

section \<open>Conditional identification\<close>

text \<open>C3: conditional identification returns (no panic, no endless recursion; only the 32-bit id space of the arena can
  run out) and keeps both workspaces. It refuses exactly the queries that do not validate or name a variable
  without a node. Otherwise it answers for P(Y | do(X), Z): either one functional whose value in
  every positive semi-Markovian model of the graph is that conditional law, or a certificate. The certificate is a
  verified hedge for the joint effect of X' on Y and Z', where X' and Z' come from X and Z by moving conditioning
  variables into the intervention, P(Y | do(X'), Z') is the same law in every model, and rule 2 moves no further variable.\<close>

theorem conditional_identification_correct:
  assumes "pa_inv pa" "pa_named pa" "iw_ok ws"
  shows "holds (\<lambda>(r, ws'). iw_ok ws' \<and> (case r of
      Inl e \<Rightarrow> dq_validate q \<noteq> Inr () \<or> \<not> known_variables pa (dq_variables q)
    | Inr res \<Rightarrow> dq_validate q = Inr () \<and> known_variables pa (dq_variables q) \<and> rs_query res = q \<and>
        conditional_answer pa (dense_of_vars pa (map fst (dq_interventions q))) (dense_of_vars pa (dq_outcomes q))
          (dense_of_vars pa (dq_conditioning q)) res))
    (idc_identify pa q ws)"
proof (cases "validate_distribution_query q")
  case (Inl e)
  then show ?thesis using assms(3) by (auto simp: idc_identify_def validate_distribution_query_def)
next
  case start: (Inr u)
  show ?thesis
  proof (cases "dq_conditioning q = []")
    case True
    have graph: "ws_inv (iw_graph ws)" using assms(3) by (simp add: iw_ok_def)
    have run: "idc_identify pa q ws =
        run_bind (identify_distribution pa q (iw_graph ws)) (\<lambda>(r, graph). Done (r, ws\<lparr>iw_graph := graph\<rparr>))"
      using True start by (simp add: idc_identify_def)
    show ?thesis
      unfolding run
      by (rule holds_bind[OF identify_distribution_spec[OF assms(1,2) graph True]])
        (use assms(3) in \<open>auto simp: query_answer_def iw_ok_def split: sum.splits\<close>)
  next
    case False
    have run: "idc_identify pa q ws =
        run_bind (identify_conditional pa (dq_outcomes q) (dq_interventions q) (dq_conditioning q) ws)
          (\<lambda>(r, ws). Done (map_sum (\<lambda>e. e) (\<lambda>res. res\<lparr>rs_query := q\<rparr>) r, ws))"
      using False start by (simp add: idc_identify_def)
    have same: "conditional_answer pa X Y Z (res\<lparr>rs_query := q\<rparr>) \<longleftrightarrow> conditional_answer pa X Y Z res"
      for X Y Z and res :: "distribution_query identification_result"
      by (simp add: conditional_answer_def)
    show ?thesis
      unfolding run
      by (rule holds_bind[OF identify_conditional_spec[OF assms]])
        (auto simp: query_answer_def same split: sum.splits)
  qed
qed

text \<open>\<open>P(2 | do(0), 1)\<close> in the confounded chain: rule 2 moves 1 into the intervention.\<close>

definition chain_query :: distribution_query where
  "chain_query = \<lparr>dq_outcomes = [2], dq_interventions = [(0, BoolVal True)], dq_conditioning = [1]\<rparr>"

definition iw_default :: id_workspace where
  "iw_default = \<lparr>iw_graph = ws_default, iw_dsep = sw_default\<rparr>"

lemma iw_default_ok: "iw_ok iw_default"
  by (simp add: iw_ok_def iw_default_def ws_default_inv sw_default_inv)

lemma idc_chain_runs:
  "(case idc_identify (prepared confounded_chain) chain_query iw_default of
      Done (Inr res, ws) \<Rightarrow> rs_status res = NonparametricallyIdentified \<and> map ie_functional (rs_estimands res) = [7] \<and>
        map ds_rule (rs_derivation res) = [''general.idc'', ''general.idc.line1'', ''general.idc.line2'']
    | _ \<Rightarrow> False)"
  by code_simp

lemma prepared_var:
  assumes "admg_inv a" "admg_node_count a = n" "n \<le> u32_max" "admg_nodes a = map Static [0..<n]" "v < n"
  shows "pa_var_to_dense (prepared a) v = Inr v"
proof -
  have "pa_dense_to_var (prepared a) i = Inr i" if "i < n" for i
    unfolding pa_dense_to_var_iff using that assms(4) by (simp add: prepared_def node_variable_id_def)
  then show ?thesis
    unfolding pa_var_to_dense_spec[OF prepared_graph(2)[OF assms(1-4)]] prepared_graph(4)[OF assms(1-4)] using assms(5) by simp
qed

lemma chain_var: "v < 3 \<Longrightarrow> pa_var_to_dense (prepared confounded_chain) v = Inr v"
  by (rule prepared_var[OF confounded_chain(1,2) _ confounded_chain(3)]) (simp_all add: u32_max_def)

theorem conditional_identification_correct_witness:
  "\<exists>res ws'. idc_identify (prepared confounded_chain) chain_query iw_default = Done (Inr res, ws') \<and>
     map ds_rule (rs_derivation res) = [''general.idc'', ''general.idc.line1'', ''general.idc.line2''] \<and>
     identifies_conditional (prepared confounded_chain) {0} {2} {1} (rs_arena res) 7"
proof -
  let ?pa = "prepared confounded_chain"
  have small: "(3 :: nat) \<le> u32_max" by (simp add: u32_max_def)
  note pa = chain_prepared[OF small]
  have nodes: "dense_of_vars ?pa [v] = {v}" if "v < 3" for v using chain_var[OF that] by (auto simp: dense_of_vars_def)
  obtain res ws' where run: "idc_identify ?pa chain_query iw_default = Done (Inr res, ws')"
      "rs_status res = NonparametricallyIdentified" "map ie_functional (rs_estimands res) = [7]"
      "map ds_rule (rs_derivation res) = [''general.idc'', ''general.idc.line1'', ''general.idc.line2'']"
    using idc_chain_runs by (auto split: run.splits sum.splits prod.splits)
  have "conditional_answer ?pa {0} {2} {1} res"
    using conditional_identification_correct[OF pa(2,3) iw_default_ok, of chain_query, unfolded run(1) holds_simps prod.case sum.case]
    by (simp add: chain_query_def nodes)
  then obtain e where e: "rs_estimands res = [general_id_estimand e]" "identifies_conditional ?pa {0} {2} {1} (rs_arena res) e"
    using run(2) unfolding conditional_answer_def by auto
  then have "e = 7" using run(3) by (simp add: general_id_estimand_def ie_new_def)
  with run e show ?thesis by (intro exI[of _ res] exI[of _ ws']) simp
qed

end
