(* ===== verification/Effect_Contrast.thy ===== *)
theory Effect_Contrast
  imports Conditional_Properties
begin

text \<open>
  Means under an intervention (\<open>id.rs\<close>): the intervention response, one expectation over an identified
  law, and the contrast of two levels of a schedule of treatments, the difference of two expectations
  that share one arena and one memo. Interventions are hard sets.
\<close>

section \<open>Resolving the treatments\<close>

text \<open>\<open>x_set\<close> and the dense ids of the schedule, in its order.\<close>

fun schedule_nodes ::
  "prepared_admg \<Rightarrow> variable_id list \<Rightarrow> bitset \<Rightarrow> (identification_error + (bitset \<times> dense_id list)) run" where
  "schedule_nodes pa [] x = Done (Inr (x, []))"
| "schedule_nodes pa (t # ts) x =
     (case pa_var_to_dense pa t of
        Inl e \<Rightarrow> Done (Inl e)
      | Inr d \<Rightarrow> run_bind (of_option (bs_insert x d)) (\<lambda>x.
          run_bind (schedule_nodes pa ts x) (\<lambda>r. Done (map_sum (\<lambda>e. e) (\<lambda>(x, ds). (x, d # ds)) r))))"

text \<open>The same loop of the response keeps every node with its level.\<close>

fun response_nodes ::
  "prepared_admg \<Rightarrow> hard_set list \<Rightarrow> bitset \<Rightarrow> (identification_error + (bitset \<times> assign)) run" where
  "response_nodes pa [] x = Done (Inr (x, []))"
| "response_nodes pa ((t, level) # ts) x =
     (case pa_var_to_dense pa t of
        Inl e \<Rightarrow> Done (Inl e)
      | Inr d \<Rightarrow> run_bind (of_option (bs_insert x d)) (\<lambda>x.
          run_bind (response_nodes pa ts x) (\<lambda>r. Done (map_sum (\<lambda>e. e) (\<lambda>(x, as). (x, (d, level) # as)) r))))"

section \<open>Expectations\<close>

definition expectation_contrast :: "variable_id \<Rightarrow> expr_id \<Rightarrow> expr_id \<Rightarrow> expr_id emission" where
  "expectation_contrast outcome left right a =
     try_bind (infallible (ar_intern a (Expectation outcome left))) (\<lambda>left_exp a.
     try_bind (infallible (ar_intern a (Expectation outcome right))) (\<lambda>right_exp a.
     try_bind (infallible (ar_intern a (Contrast left_exp right_exp Difference))) (\<lambda>contrast a.
       simplified a contrast)))"

fun estimand_means :: "variable_id \<Rightarrow> identified_estimand list \<Rightarrow> expr_arena \<Rightarrow> (identified_estimand list \<times> expr_arena) run" where
  "estimand_means outcome [] a = Done ([], a)"
| "estimand_means outcome (e # es) a =
     run_bind (ar_intern a (Expectation outcome (ie_functional e))) (\<lambda>(i, a).
     run_bind (estimand_means outcome es a) (\<lambda>(es, a). Done (e\<lparr>ie_functional := i\<rparr> # es, a)))"

section \<open>The intervention response\<close>

text \<open>The \<open>InterventionResponse\<close> part of \<open>identify_response\<close>.\<close>

definition identify_intervention_mean ::
  "prepared_admg \<Rightarrow> variable_id \<Rightarrow> hard_set list \<Rightarrow> 'q \<Rightarrow> graph_workspace \<Rightarrow>
    ((identification_error + 'q identification_result) \<times> graph_workspace) run" where
  "identify_intervention_mean pa outcome interventions query ws =
     run_bind (response_nodes pa interventions (bs_with_len (pa_count pa))) (\<lambda>rx.
     case rx of Inl e \<Rightarrow> Done (Inl e, ws) | Inr (x, assignments) \<Rightarrow>
     run_bind (insert_variables pa [outcome] (bs_with_len (pa_count pa))) (\<lambda>ry.
     case ry of Inl e \<Rightarrow> Done (Inl e, ws) | Inr y \<Rightarrow>
     run_bind (identify_sets pa y x query ws assignments) (\<lambda>(r, ws).
     case r of Inl e \<Rightarrow> Done (Inl e, ws) | Inr res \<Rightarrow>
     run_bind (estimand_means outcome (rs_estimands res) (rs_arena res)) (\<lambda>(estimands, arena).
       Done (Inr (res\<lparr>rs_estimands := estimands, rs_arena := arena,
         rs_derivation := dt_push (rs_derivation res) ''identify.response.general_id''
           (''Shpitser'' @ en_dash @ ''Pearl ID of the intervention mean at the requested Set levels'')\<rparr>), ws)))))"

section \<open>The schedule contrast\<close>

definition assign_for :: "dense_id list \<Rightarrow> val \<Rightarrow> assign" where
  "assign_for ds level = map (\<lambda>d. (d, level)) ds"

text \<open>One side: a recursion on the shared arena and memo, with ancestors of its own.\<close>

definition contrast_side :: "prepared_admg \<Rightarrow> bitset \<Rightarrow> bitset \<Rightarrow> assign \<Rightarrow> (unit, id_outcome) id_step" where
  "contrast_side pa y x assign run =
     id_recurse (id_fuel pa) pa (id_start pa y x assign) (run\<lparr>ir_ancestors := [], ir_meter := im_unmetered\<rparr>)"

text \<open>Both sides and their contrast, as in \<open>identify_ate_impl\<close> and \<open>identify_schedule_contrast\<close>.\<close>

definition two_sided ::
  "prepared_admg \<Rightarrow> bitset \<Rightarrow> bitset \<Rightarrow> variable_id \<Rightarrow> assign \<Rightarrow> assign \<Rightarrow> 'q \<Rightarrow> derivation_trace \<Rightarrow> graph_workspace \<Rightarrow>
    ((identification_error + 'q identification_result) \<times> graph_workspace) run" where
  "two_sided pa y x outcome active control query derivation ws =
     run_bind (contrast_side pa y x active (ir_start derivation ws im_unmetered)) (\<lambda>(left, run). case left of
         Inl e \<Rightarrow> Done (Inl e, ir_ws run)
       | Inr (IdFail hc) \<Rightarrow> Done (Inr (not_identified_with_hedge query (ir_derivation run)
           (pa_declared_assumptions pa) (ir_perf run) hc), ir_ws run)
       | Inr (IdExpr left) \<Rightarrow>
           run_bind (contrast_side pa y x control run) (\<lambda>(right, run). case right of
             Inl e \<Rightarrow> Done (Inl e, ir_ws run)
           | Inr (IdFail hc) \<Rightarrow> Done (Inr (not_identified_with_hedge query (ir_derivation run)
               (pa_declared_assumptions pa) (ir_perf run) hc), ir_ws run)
           | Inr (IdExpr right) \<Rightarrow>
               run_bind (expectation_contrast outcome left right (ir_arena run)) (\<lambda>(r, arena). Done (case r of
                 Inl e \<Rightarrow> Inl e
               | Inr functional \<Rightarrow> Inr (rs_identified query [general_id_estimand functional] arena (ir_derivation run)
                   (with_causal_markov pa ''general.id'') (ir_perf run)), ir_ws run))))"

definition identify_schedule_contrast ::
  "prepared_admg \<Rightarrow> variable_id \<Rightarrow> variable_id list \<Rightarrow> val \<Rightarrow> val \<Rightarrow> 'q \<Rightarrow> graph_workspace \<Rightarrow>
    ((identification_error + 'q identification_result) \<times> graph_workspace) run" where
  "identify_schedule_contrast pa outcome schedule active control query ws =
     (if schedule = [] then Done (Inl (Message ''empty treatment schedule''), ws)
      else
        run_bind (schedule_nodes pa schedule (bs_with_len (pa_count pa))) (\<lambda>rx.
        case rx of Inl e \<Rightarrow> Done (Inl e, ws) | Inr (x, ds) \<Rightarrow>
        run_bind (insert_variables pa [outcome] (bs_with_len (pa_count pa))) (\<lambda>ry.
        case ry of Inl e \<Rightarrow> Done (Inl e, ws) | Inr y \<Rightarrow>
        run_bind (require_disjoint y x) (\<lambda>rd. case rd of Inl e \<Rightarrow> Done (Inl e, ws) | Inr _ \<Rightarrow>
          two_sided pa y x outcome (assign_for ds active) (assign_for ds control) query
            (dt_push [] ''general.id'' (''Shpitser'' @ en_dash @ ''Pearl ID for schedule contrast'')) ws))))"

section \<open>The average effect\<close>

text \<open>A query for all observed units and the mean; its two interventions are hard sets.\<close>

record average_effect_query =
  ae_treatment :: variable_id
  ae_outcome :: variable_id
  ae_effect_modifiers :: "variable_id list"
  ae_control :: hard_set
  ae_active :: hard_set

definition ae_validate :: "average_effect_query \<Rightarrow> string + unit" where
  "ae_validate q =
     (if ae_treatment q = ae_outcome q
      then Inl (''treatment and outcome are the same variable V'' @ decimal (ae_treatment q))
      else if fst (ae_control q) \<noteq> ae_treatment q
      then Inl (''intervention targets V'' @ decimal (fst (ae_control q)) @ '', expected treatment V'' @ decimal (ae_treatment q))
      else if fst (ae_active q) \<noteq> ae_treatment q
      then Inl (''intervention targets V'' @ decimal (fst (ae_active q)) @ '', expected treatment V'' @ decimal (ae_treatment q))
      else if list_ex (\<lambda>m. m = ae_treatment q \<or> m = ae_outcome q) (ae_effect_modifiers q)
      then Inl ''effect modifier overlaps treatment or outcome''
      else Inr ())"

definition identify_ate ::
  "prepared_admg \<Rightarrow> average_effect_query \<Rightarrow> graph_workspace \<Rightarrow>
    ((identification_error + average_effect_query identification_result) \<times> graph_workspace) run" where
  "identify_ate pa q ws =
     (case ae_validate q of
        Inl _ \<Rightarrow> Done (Inl (UnsupportedQuery ''invalid average-effect query''), ws)
      | Inr _ \<Rightarrow>
          (case pa_var_to_dense pa (ae_treatment q) of Inl e \<Rightarrow> Done (Inl e, ws) | Inr t \<Rightarrow>
           case pa_var_to_dense pa (ae_outcome q) of Inl e \<Rightarrow> Done (Inl e, ws) | Inr y \<Rightarrow>
           run_bind (of_option (bs_insert (bs_with_len (pa_count pa)) y)) (\<lambda>y_set.
           run_bind (of_option (bs_insert (bs_with_len (pa_count pa)) t)) (\<lambda>x_set.
             two_sided pa y_set x_set (ae_outcome q) [(t, snd (ae_active q))] [(t, snd (ae_control q))] q
               (dt_push [] ''general.id'' (''Shpitser'' @ en_dash @ ''Pearl ID for ATE contrast'')) ws))))"

section \<open>What is promised\<close>

text \<open>\<open>E[num(outcome) | do(X)]\<close> at the levels of \<open>assign\<close>.\<close>

definition outcome_mean ::
  "prepared_admg \<Rightarrow> (val \<Rightarrow> real) \<Rightarrow> (nat \<Rightarrow> val set) \<Rightarrow> val causal_model \<Rightarrow> nat set \<Rightarrow> variable_id \<Rightarrow> assign \<Rightarrow> val env \<Rightarrow> real" where
  "outcome_mean pa num dv M X v assign s =
     (\<Sum>x \<in> dv v. num x * interventional_law M (node_dom pa dv) (pa_nodes pa) X (dense_of_vars pa [v])
        (levels_env assign (node_env pa (s(v := x)))))"

abbreviation observed_value ::
  "prepared_admg \<Rightarrow> (val \<Rightarrow> real) \<Rightarrow> (nat \<Rightarrow> val set) \<Rightarrow> val causal_model \<Rightarrow> expr_tree \<Rightarrow> val env \<Rightarrow> real" where
  "observed_value pa num dv M t s \<equiv>
     tree_value num dv (pa_vars pa) (\<lambda>s. observational_law M (pa_nodes pa) (node_env pa s)) t s"

definition identifies_mean :: "prepared_admg \<Rightarrow> nat set \<Rightarrow> variable_id \<Rightarrow> assign \<Rightarrow> expr_arena \<Rightarrow> expr_id \<Rightarrow> bool" where
  "identifies_mean pa X v assign a e \<longleftrightarrow> arena_inv a \<and> e < length (ar_nodes a) \<and>
     (levels_set assign \<longrightarrow> live (tree_of a e)) \<and>
     (\<forall>num dv M s. positive_model pa (node_dom pa dv) M \<longrightarrow> levels_ok (node_dom pa dv) assign \<longrightarrow>
        valid_env dv (pa_vars pa) s \<longrightarrow>
        observed_value pa num dv M (tree_of a e) s = outcome_mean pa num dv M X v assign s)"

definition identifies_contrast ::
  "prepared_admg \<Rightarrow> nat set \<Rightarrow> variable_id \<Rightarrow> assign \<Rightarrow> assign \<Rightarrow> expr_arena \<Rightarrow> expr_id \<Rightarrow> bool" where
  "identifies_contrast pa X v as cs a e \<longleftrightarrow> arena_inv a \<and> e < length (ar_nodes a) \<and> live (tree_of a e) \<and>
     (\<forall>num dv M s. positive_model pa (node_dom pa dv) M \<longrightarrow>
        levels_ok (node_dom pa dv) as \<longrightarrow> levels_ok (node_dom pa dv) cs \<longrightarrow> valid_env dv (pa_vars pa) s \<longrightarrow>
        observed_value pa num dv M (tree_of a e) s =
          outcome_mean pa num dv M X v as s - outcome_mean pa num dv M X v cs s)"

section \<open>The emissions\<close>

lemma identifies_effect_grows:
  "identifies_effect pa X Y assign a e \<Longrightarrow> grows a b \<Longrightarrow> identifies_effect pa X Y assign b e"
  using grows_tree[of a b b e] grows_length[of a b] growsD[of a b] by (simp add: identifies_effect_def)

lemma identifies_mean_grows:
  "identifies_mean pa X v assign a e \<Longrightarrow> grows a b \<Longrightarrow> identifies_mean pa X v assign b e"
  using grows_tree[of a b b e] grows_length[of a b] growsD[of a b] by (simp add: identifies_mean_def)

lemma intern_mean:
  assumes eff: "identifies_effect pa X (dense_of_vars pa [v]) assign a e"
  shows "holds (\<lambda>(i, b). grows a b \<and> identifies_mean pa X v assign b i) (ar_intern a (Expectation v e))"
proof -
  have e: "arena_inv a" "e < length (ar_nodes a)" using eff by (simp_all add: identifies_effect_def)
  have "holds (\<lambda>(i, b). grows a b \<and> i < length (ar_nodes b) \<and> tree_of b i = node_view a (tree_of a) (Expectation v e))
      (ar_intern a (Expectation v e))"
    by (rule ar_intern_tree[OF e(1)]) (use e(2) in simp)
  then show ?thesis
  proof (rule holds_pair_mono, elim conjE)
    fix i b assume b: "grows a b" "i < length (ar_nodes b)" "tree_of b i = node_view a (tree_of a) (Expectation v e)"
    have t: "tree_of b i = TExpectation v (tree_of a e)" using b(3) by simp
    have "observed_value pa num dv M (tree_of b i) s = outcome_mean pa num dv M X v assign s"
      if M: "positive_model pa (node_dom pa dv) M" "levels_ok (node_dom pa dv) assign" "valid_env dv (pa_vars pa) s" for num dv M s
      unfolding t tree_value.simps outcome_mean_def
    proof (rule sum.cong[OF refl])
      fix x assume "x \<in> dv v"
      then have "valid_env dv (pa_vars pa) (s(v := x))" using M(3) by (simp add: valid_env_def)
      then show "num x * observed_value pa num dv M (tree_of a e) (s(v := x)) =
          num x * interventional_law M (node_dom pa dv) (pa_nodes pa) X (dense_of_vars pa [v])
            (levels_env assign (node_env pa (s(v := x))))"
        using eff M(1,2) by (simp add: identifies_effect_def positive_model_def)
    qed
    then show "grows a b \<and> identifies_mean pa X v assign b i"
      using b eff growsD[OF b(1)] by (simp add: identifies_mean_def identifies_effect_def)
  qed
qed

lemma expectation_contrast_spec:
  assumes eff: "identifies_effect pa X (dense_of_vars pa [v]) as a l" "identifies_effect pa X (dense_of_vars pa [v]) cs a r"
    and lev: "levels_set as" "levels_set cs"
  shows "holds (\<lambda>(res, b). \<exists>e. res = Inr e \<and> grows a b \<and> identifies_contrast pa X v as cs b e) (expectation_contrast v l r a)"
    (is "holds ?P _")
proof -
  have pair: "holds ?P (try_bind (infallible m) f)"
    if "holds (\<lambda>(i, b). R i b) m" "\<And>i b. R i b \<Longrightarrow> holds ?P (f i b)" for R m f
    using that by (cases m) (auto simp: infallible_def)
  show ?thesis
    unfolding expectation_contrast_def
  proof (rule pair[OF intern_mean[OF eff(1)]], elim conjE, rule pair[OF intern_mean], rule identifies_effect_grows[OF eff(2)],
      assumption, elim conjE)
    fix i b j c assume i: "grows a b" "identifies_mean pa X v as b i" and j: "grows b c" "identifies_mean pa X v cs c j"
    have i': "identifies_mean pa X v as c i" by (rule identifies_mean_grows[OF i(2) j(1)])
    have c: "arena_inv c" "i < length (ar_nodes c)" "j < length (ar_nodes c)"
      using i' j(2) by (simp_all add: identifies_mean_def)
    have "holds (\<lambda>(k, d). grows c d \<and> k < length (ar_nodes d) \<and>
        tree_of d k = node_view c (tree_of c) (Contrast i j Difference)) (ar_intern c (Contrast i j Difference))"
      by (rule ar_intern_tree[OF c(1)]) (use c in simp)
    then show "holds ?P (try_bind (infallible (ar_intern c (Contrast i j Difference))) (\<lambda>contrast a. simplified a contrast))"
    proof (rule pair, elim conjE)
      fix k d assume d: "grows c d" "k < length (ar_nodes d)" "tree_of d k = node_view c (tree_of c) (Contrast i j Difference)"
      have t: "tree_of d k = TContrast (tree_of c i) (tree_of c j) Difference" using d(3) by simp
      have alive: "live (tree_of d k)" using i' j(2) lev unfolding t by (simp add: identifies_mean_def)
      have invd: "arena_inv d" using growsD[OF d(1)] by simp
      show "holds ?P (simplified d k)"
        unfolding simplified_def
      proof (rule holds_bind[OF ar_simplify_spec[OF invd d(2)]], clarify)
        fix res :: "simplify_error + expr_id" and f
        assume f: "grows d f" and "case res of Inl e \<Rightarrow> \<not> live (tree_of d k)
          | Inr e \<Rightarrow> live (tree_of d k) \<and> e < length (ar_nodes f) \<and> live (tree_of f e) \<and> tree_equiv (tree_of f e) (tree_of d k)"
        then obtain e where e: "res = Inr e" "e < length (ar_nodes f)" "live (tree_of f e)" "tree_equiv (tree_of f e) (tree_of d k)"
          using alive by (auto split: sum.splits)
        have "identifies_contrast pa X v as cs f e"
          using i' j(2) e growsD[OF f] tree_equivD(2)[OF e(4)]
          by (simp add: identifies_contrast_def identifies_mean_def t)
        moreover have "grows a f" using i(1) j(1) d(1) f grows_trans by blast
        ultimately show "holds ?P (Done (map_sum (\<lambda>e. Message (simplify_error_string e)) (\<lambda>j. j) res, f))"
          using e(1) by simp
      qed
    qed
  qed
qed

section \<open>The treatments\<close>

definition node_of :: "prepared_admg \<Rightarrow> variable_id \<Rightarrow> dense_id" where
  "node_of pa v = projr (pa_var_to_dense pa v)"

definition node_levels :: "prepared_admg \<Rightarrow> hard_set list \<Rightarrow> assign" where
  "node_levels pa ivs = map (\<lambda>(v, level). (node_of pa v, level)) ivs"

lemma known_node: "known_variables pa vs \<Longrightarrow> v \<in> set vs \<Longrightarrow> pa_var_to_dense pa v = Inr (node_of pa v)"
  by (auto simp: known_variables_def node_of_def)

lemma dense_of_known: "known_variables pa vs \<Longrightarrow> dense_of_vars pa vs = node_of pa ` set vs"
  using known_node[of pa vs] by (force simp: dense_of_vars_def)

lemma inj_node_of:
  assumes "pa_inv pa" "known_variables pa vs"
  shows "inj_on (node_of pa) (set vs)"
proof (rule inj_onI)
  fix u v assume "u \<in> set vs" "v \<in> set vs" "node_of pa u = node_of pa v"
  then have "pa_var_to_dense pa u = Inr (node_of pa v)" "pa_var_to_dense pa v = Inr (node_of pa v)"
    using known_node[OF assms(2)] by auto
  then show "u = v" using pa_var_to_dense_spec[OF assms(1)] by (metis sum.inject(2))
qed

lemma response_nodes_spec:
  assumes inv: "pa_inv pa"
  shows "nodes_in (pa_count pa) x \<Longrightarrow>
    (if known_variables pa (map fst ivs)
     then \<exists>x'. response_nodes pa ivs x = Done (Inr (x', node_levels pa ivs)) \<and> nodes_in (pa_count pa) x' \<and>
       bs_members x' = bs_members x \<union> dense_of_vars pa (map fst ivs)
     else \<exists>e. response_nodes pa ivs x = Done (Inl e))"
proof (induction ivs arbitrary: x)
  case (Cons p ivs)
  obtain t level where p: "p = (t, level)" by (cases p)
  show ?case
  proof (cases "pa_var_to_dense pa t")
    case (Inl e)
    then show ?thesis by (simp add: p known_variables_def)
  next
    case (Inr d)
    then have "d < pa_count pa" using pa_var_to_dense_spec[OF inv] by blast
    then obtain x1 where x1: "bs_insert x d = Some x1" "nodes_in (pa_count pa) x1" "bs_members x1 = insert d (bs_members x)"
      using nodes_in_insert[OF Cons.prems] by blast
    have d: "dense_of_vars pa (t # vs) = insert d (dense_of_vars pa vs)" for vs
      using Inr by (auto simp: dense_of_vars_def)
    have known: "known_variables pa (t # vs) \<longleftrightarrow> known_variables pa vs" for vs using Inr by (simp add: known_variables_def)
    show ?thesis using Cons.IH[OF x1(2)] Inr x1 by (auto simp: p d known node_levels_def node_of_def split: if_splits)
  qed
qed (simp add: known_variables_def node_levels_def dense_of_vars_def)

lemma schedule_response:
  "schedule_nodes pa ts x =
     run_bind (response_nodes pa (map (\<lambda>t. (t, level)) ts) x) (\<lambda>r. Done (map_sum (\<lambda>e. e) (\<lambda>(x, as). (x, map fst as)) r))"
proof (induction ts arbitrary: x)
  case (Cons t ts)
  have step: "run_bind (run_bind m (\<lambda>r. Done (f r))) (\<lambda>r. Done (g r)) = run_bind m (\<lambda>r. Done (g (f r)))" for m f g
    by (cases m) simp_all
  show ?case
  proof (cases "pa_var_to_dense pa t")
    case (Inr d)
    show ?thesis
    proof (cases "bs_insert x d")
      case (Some x1)
      then show ?thesis using Inr Cons.IH[of x1] by (simp add: step sum.map_comp comp_def case_prod_unfold)
    qed (simp add: Inr)
  qed simp
qed simp

lemma schedule_nodes_spec:
  assumes inv: "pa_inv pa" and x: "nodes_in (pa_count pa) x"
  shows "if known_variables pa ts
    then \<exists>x'. schedule_nodes pa ts x = Done (Inr (x', map (node_of pa) ts)) \<and> nodes_in (pa_count pa) x' \<and>
      bs_members x' = bs_members x \<union> dense_of_vars pa ts
    else \<exists>e. schedule_nodes pa ts x = Done (Inl e)"
  using response_nodes_spec[OF inv x, of "map (\<lambda>t. (t, BoolVal True)) ts"]
  unfolding schedule_response[where level = "BoolVal True"]
  by (auto simp: comp_def node_levels_def split: if_splits)

lemma target_query_ok:
  assumes inv: "pa_inv pa" and known: "known_variables pa vs" and dist: "distinct vs"
    and y: "nodes_in (pa_count pa) y" and x: "nodes_in (pa_count pa) x" "bs_members x = dense_of_vars pa vs"
  shows "query_sets_ok pa y x (map (\<lambda>v. (node_of pa v, f v)) vs)"
  using y x dist inj_node_of[OF inv known]
  by (auto simp: query_sets_ok_def dense_of_known[OF known] comp_def distinct_map)

text \<open>The outcome and the sets of a query on one outcome.\<close>

lemma one_outcome:
  assumes inv: "pa_inv pa" and known: "known_variables pa (v # vs)"
    and x: "bs_members x = dense_of_vars pa vs"
    and y: "nodes_in (pa_count pa) y" "bs_members y = dense_of_vars pa [v]"
  shows "if v \<in> set vs then \<exists>e. require_disjoint y x = Done (Inl e) else require_disjoint y x = Done (Inr ())"
proof -
  have k: "known_variables pa [v]" "known_variables pa vs" using known by (simp_all add: known_variables_def)
  have "bs_members y = {node_of pa v}" using y(2) dense_of_known[OF k(1)] by simp
  moreover have "node_of pa v \<in> node_of pa ` set vs \<longleftrightarrow> v \<in> set vs"
    using inj_on_image_mem_iff[OF inj_node_of[OF inv known], of v "set vs"] by simp blast
  ultimately have "bs_members y \<noteq> {} \<and> bs_members y \<inter> bs_members x = {} \<longleftrightarrow> v \<notin> set vs"
    unfolding x dense_of_known[OF k(2)] by auto
  then show ?thesis using require_disjoint_cases[OF y(1) pa_invD(2)[OF inv], of x] by (metis (full_types))
qed

section \<open>One side\<close>

lemma contrast_side_spec:
  assumes inv: "pa_inv pa" and named: "pa_named pa" and q: "query_sets_ok pa y x assign" and r: "require_disjoint y x = Done (Inr ())"
    and run: "run_ok pa (bs_members x) (bs_members y) run"
  shows "holds (\<lambda>(r, run'). run_ok pa (bs_members x) (bs_members y) run' \<and> grows (ir_arena run) (ir_arena run') \<and>
      (\<exists>out. r = Inr out \<and> effect_outcome pa x y assign out (ir_arena run')))
    (contrast_side pa y x assign run)"
proof -
  let ?run = "run\<lparr>ir_ancestors := [], ir_meter := im_unmetered\<rparr>" and ?X = "bs_members x" and ?Y = "bs_members y"
  have run': "run_ok pa ?X ?Y ?run" using run by (simp add: run_ok_def ancestor_memo_ok_def)
  have "holds (step_ok pa ?X ?Y ?run (query_outcome pa ?X ?Y (id_start pa y x assign)))
      (id_recurse (id_fuel pa) pa (id_start pa y x assign) ?run)"
    using holds_mono[OF id_recurse_ok[OF inv named id_start_ok(2)[OF inv q r] id_start_ok(1)[OF inv q r] run']]
      id_start_ok(2,3)[OF inv q r] by (simp add: im_unmetered_def)
  then show ?thesis
    unfolding contrast_side_def
  proof (rule holds_mono, clarify)
    fix res run2 assume ok: "step_ok pa ?X ?Y ?run (query_outcome pa ?X ?Y (id_start pa y x assign)) (res, run2)"
    then obtain out where out: "res = Inr out" "query_outcome pa ?X ?Y (id_start pa y x assign) out (ir_arena run2)"
      by (cases res) (auto simp: step_ok_def refused_def im_unmetered_def)
    have run2: "run_ok pa ?X ?Y run2" "grows (ir_arena run) (ir_arena run2)" using ok by (simp_all add: step_ok_def)
    with effect_outcomeI[OF inv named q run_okD(1)[OF run2(1)] out(2)] out(1)
    show "run_ok pa ?X ?Y run2 \<and> grows (ir_arena run) (ir_arena run2) \<and>
      (\<exists>out. res = Inr out \<and> effect_outcome pa x y assign out (ir_arena run2))" by blast
  qed
qed

text \<open>The outcome of \<open>identify_sets\<close> as a property of its result.\<close>

lemma identify_sets_result:
  assumes "pa_inv pa" "pa_named pa" "query_sets_ok pa y x assign" "ws_inv ws" "require_disjoint y x = Done (Inr ())"
  shows "holds (\<lambda>(r, ws'). ws_inv ws' \<and> (\<exists>res. r = Inr res \<and> rs_query res = query \<and>
      (rs_status res = NonparametricallyIdentified \<and> rs_hedge res = None \<and>
         (\<exists>e. rs_estimands res = [general_id_estimand e] \<and>
            identifies_effect pa (bs_members x) (bs_members y) assign (rs_arena res) e) \<or>
       rs_status res = NotIdentified \<and> rs_estimands res = [] \<and>
         (\<exists>hc. rs_hedge res = Some hc \<and> refutes pa (bs_members x) (bs_members y) hc))))
    (identify_sets pa y x query ws assign)"
  by (rule identify_sets_outcome[OF assms, of query])
    (auto simp: rs_identified_def not_identified_with_hedge_def rs_not_identified_hedge_def refutes_def hc_with_problem_def)

section \<open>The answers\<close>

definition mean_answer ::
  "prepared_admg \<Rightarrow> nat set \<Rightarrow> variable_id \<Rightarrow> assign \<Rightarrow> 'q identification_result \<Rightarrow> bool" where
  "mean_answer pa X v assign res \<longleftrightarrow>
     rs_status res = NonparametricallyIdentified \<and> rs_hedge res = None \<and>
       (\<exists>e. rs_estimands res = [general_id_estimand e] \<and> identifies_mean pa X v assign (rs_arena res) e) \<or>
     rs_status res = NotIdentified \<and> rs_estimands res = [] \<and>
       (\<exists>hc. rs_hedge res = Some hc \<and> refutes pa X (dense_of_vars pa [v]) hc)"

definition contrast_answer ::
  "prepared_admg \<Rightarrow> nat set \<Rightarrow> variable_id \<Rightarrow> assign \<Rightarrow> assign \<Rightarrow> 'q identification_result \<Rightarrow> bool" where
  "contrast_answer pa X v as cs res \<longleftrightarrow>
     rs_status res = NonparametricallyIdentified \<and> rs_hedge res = None \<and>
       (\<exists>e. rs_estimands res = [general_id_estimand e] \<and> identifies_contrast pa X v as cs (rs_arena res) e) \<or>
     rs_status res = NotIdentified \<and> rs_estimands res = [] \<and>
       (\<exists>hc. rs_hedge res = Some hc \<and>
          hedge (pa_admg pa) (pa_nodes pa) X (dense_of_vars pa [v]) (set (hc_f_dense hc)) (set (hc_f_prime_dense hc)))"

lemma mean_of_effect:
  assumes "rs_estimands res = [general_id_estimand e]"
    and "identifies_effect pa X (dense_of_vars pa [v]) assign (rs_arena res) e"
    and "rs_status res = NonparametricallyIdentified" "rs_hedge res = None"
  shows "holds (\<lambda>(es, a). mean_answer pa X v assign (res\<lparr>rs_estimands := es, rs_arena := a, rs_derivation := d\<rparr>))
    (estimand_means v (rs_estimands res) (rs_arena res))"
  using intern_mean[OF assms(2)] assms(1,3,4)
  by (cases "ar_intern (rs_arena res) (Expectation v e)")
    (auto simp: mean_answer_def general_id_estimand_def ie_new_def)

lemma hedge_contrast:
  assumes "hedge (pa_admg pa) (pa_nodes pa) X (dense_of_vars pa [v]) (set (hc_f_dense hc)) (set (hc_f_prime_dense hc))"
  shows "contrast_answer pa X v as cs (not_identified_with_hedge q d asms perf hc)"
  using assms unfolding contrast_answer_def by (auto simp: not_identified_with_hedge_def rs_not_identified_hedge_def)

text \<open>What is left of the response after \<open>identify_sets\<close>.\<close>

lemma answer_of_sets:
  fixes res :: "'q identification_result"
  assumes known: "known_variables pa (v # ts)" and out: "v \<notin> set ts"
    and sets: "bs_members x = dense_of_vars pa ts" "bs_members y = dense_of_vars pa [v]"
    and ws: "ws_inv ws" and query: "rs_query res = q"
    and ans: "rs_status res = NonparametricallyIdentified \<and> rs_hedge res = None \<and>
         (\<exists>e. rs_estimands res = [general_id_estimand e] \<and>
            identifies_effect pa (bs_members x) (bs_members y) assign (rs_arena res) e) \<or>
       rs_status res = NotIdentified \<and> rs_estimands res = [] \<and>
         (\<exists>hc. rs_hedge res = Some hc \<and> refutes pa (bs_members x) (bs_members y) hc)"
  shows "holds (\<lambda>(r, ws'). ws_inv ws' \<and> (case r of
      Inl (e :: identification_error) \<Rightarrow> \<not> known_variables pa (v # ts) \<or> v \<in> set ts
    | Inr res \<Rightarrow> known_variables pa (v # ts) \<and> v \<notin> set ts \<and> rs_query res = q \<and>
        mean_answer pa (dense_of_vars pa ts) v assign res))
    (run_bind (estimand_means v (rs_estimands res) (rs_arena res)) (\<lambda>(es, a).
      Done (Inr (res\<lparr>rs_estimands := es, rs_arena := a, rs_derivation := dt_push (rs_derivation res) rl detail\<rparr>), ws)))"
proof -
  let ?d = "dt_push (rs_derivation res) rl detail"
  have "holds (\<lambda>(es, a). mean_answer pa (dense_of_vars pa ts) v assign
      (res\<lparr>rs_estimands := es, rs_arena := a, rs_derivation := ?d\<rparr>)) (estimand_means v (rs_estimands res) (rs_arena res))"
    using ans
  proof (elim disjE conjE exE)
    fix e assume "rs_estimands res = [general_id_estimand e]" "rs_status res = NonparametricallyIdentified" "rs_hedge res = None"
      "identifies_effect pa (bs_members x) (bs_members y) assign (rs_arena res) e"
    then show ?thesis using mean_of_effect unfolding sets by blast
  qed (auto simp: mean_answer_def sets)
  then show ?thesis
    by (rule holds_bind) (use known out ws query in auto)
qed

text \<open>The two sides and the contrast.\<close>

definition contrast_done ::
  "prepared_admg \<Rightarrow> nat set \<Rightarrow> variable_id \<Rightarrow> assign \<Rightarrow> assign \<Rightarrow> 'q \<Rightarrow>
    (identification_error + 'q identification_result) \<times> graph_workspace \<Rightarrow> bool" where
  "contrast_done pa X v as cs q = (\<lambda>(r, ws). ws_inv ws \<and>
     (\<exists>res. r = Inr res \<and> rs_query res = q \<and> contrast_answer pa X v as cs res))"

lemma hedge_done:
  assumes "effect_outcome pa x y assign (IdFail hc) a" "ws_inv ws"
    and "bs_members x = X" "bs_members y = dense_of_vars pa [v]"
  shows "contrast_done pa X v as cs q (Inr (not_identified_with_hedge q d asms perf hc), ws)"
  using assms hedge_contrast[of pa X v hc as cs q d asms perf]
  by (simp add: contrast_done_def effect_outcome_def not_identified_with_hedge_def rs_not_identified_hedge_def)

lemma contrast_sides:
  assumes inv: "pa_inv pa" and named: "pa_named pa" and q: "query_sets_ok pa y x as" "query_sets_ok pa y x cs"
    and r: "require_disjoint y x = Done (Inr ())" and ws: "ws_inv ws"
    and sets: "bs_members x = X" "bs_members y = dense_of_vars pa [v]" and lev: "levels_set as" "levels_set cs"
  shows "holds (contrast_done pa X v as cs query) (two_sided pa y x v as cs query d ws)"
  unfolding two_sided_def
proof (rule holds_bind[OF contrast_side_spec[OF inv named q(1) r ir_start_ok[OF ws]]], clarify)
  fix run1 :: "unit id_run" and out1
  assume run1: "run_ok pa (bs_members x) (bs_members y) run1" and out1: "effect_outcome pa x y as out1 (ir_arena run1)"
  note ws1 = run_okD(2)[OF run1]
  show "holds (contrast_done pa X v as cs query) (case Inr out1 of
             Inl e \<Rightarrow> Done (Inl e, ir_ws run1)
           | Inr (IdFail hc) \<Rightarrow> Done (Inr (not_identified_with_hedge query (ir_derivation run1)
               (pa_declared_assumptions pa) (ir_perf run1) hc), ir_ws run1)
           | Inr (IdExpr left) \<Rightarrow>
        run_bind (contrast_side pa y x cs run1) (\<lambda>(right, run). case right of
             Inl e \<Rightarrow> Done (Inl e, ir_ws run)
           | Inr (IdFail hc) \<Rightarrow> Done (Inr (not_identified_with_hedge query (ir_derivation run)
               (pa_declared_assumptions pa) (ir_perf run) hc), ir_ws run)
           | Inr (IdExpr right) \<Rightarrow>
        run_bind (expectation_contrast v left right (ir_arena run)) (\<lambda>(r, arena). Done (case r of
             Inl e \<Rightarrow> Inl e
           | Inr functional \<Rightarrow> Inr (rs_identified query [general_id_estimand functional] arena (ir_derivation run)
               (with_causal_markov pa ''general.id'') (ir_perf run)), ir_ws run))))"
  proof (cases out1)
    case (IdFail hc)
    with hedge_done[OF _ ws1 sets] out1 show ?thesis by simp
  next
    case left: (IdExpr l)
    show ?thesis
      unfolding left sum.case id_outcome.case
    proof (rule holds_bind[OF contrast_side_spec[OF inv named q(2) r run1]], clarify)
      fix run2 :: "unit id_run" and out2
      assume run2: "run_ok pa (bs_members x) (bs_members y) run2" "grows (ir_arena run1) (ir_arena run2)"
        and out2: "effect_outcome pa x y cs out2 (ir_arena run2)"
      note ws2 = run_okD(2)[OF run2(1)]
      show "holds (contrast_done pa X v as cs query) (case Inr out2 of
             Inl e \<Rightarrow> Done (Inl e, ir_ws run2)
           | Inr (IdFail hc) \<Rightarrow> Done (Inr (not_identified_with_hedge query (ir_derivation run2)
               (pa_declared_assumptions pa) (ir_perf run2) hc), ir_ws run2)
           | Inr (IdExpr right) \<Rightarrow>
        run_bind (expectation_contrast v l right (ir_arena run2)) (\<lambda>(r, arena). Done (case r of
             Inl e \<Rightarrow> Inl e
           | Inr functional \<Rightarrow> Inr (rs_identified query [general_id_estimand functional] arena (ir_derivation run2)
               (with_causal_markov pa ''general.id'') (ir_perf run2)), ir_ws run2)))"
      proof (cases out2)
        case (IdFail hc)
        with hedge_done[OF _ ws2 sets] out2 show ?thesis by simp
      next
        case right: (IdExpr rt)
        have l: "identifies_effect pa X (dense_of_vars pa [v]) as (ir_arena run2) l"
          using identifies_effect_grows[OF _ run2(2)] out1 left sets by (simp add: effect_outcome_def)
        have rt: "identifies_effect pa X (dense_of_vars pa [v]) cs (ir_arena run2) rt"
          using out2 right sets by (simp add: effect_outcome_def)
        show ?thesis
          unfolding right sum.case id_outcome.case
          by (rule holds_bind[OF expectation_contrast_spec[OF l rt lev]])
            (auto simp: contrast_done_def contrast_answer_def rs_identified_def ws2)
      qed
    qed
  qed
qed

section \<open>Correctness\<close>

lemma chain_known: "(\<forall>v \<in> set vs. v < 3) \<Longrightarrow> known_variables (prepared confounded_chain) vs"
  using chain_var by (auto simp: known_variables_def)

lemma chain_node: "v < 3 \<Longrightarrow> node_of (prepared confounded_chain) v = v"
  using chain_var by (simp add: node_of_def)

lemma chain_dense: "v < 3 \<Longrightarrow> dense_of_vars (prepared confounded_chain) [v] = {v}"
  using chain_var by (auto simp: dense_of_vars_def)

text \<open>C13: the intervention response for hard sets on distinct variables. The call is refused exactly when
  a variable has no node or the outcome is intervened on. Otherwise it returns one functional whose
  value in every positive model of the graph is the mean of the outcome under the intervention at the
  requested levels, or it reports the query as not identified with a certificate that verifies.\<close>

theorem intervention_mean_correct:
  assumes "pa_inv pa" "pa_named pa" "ws_inv ws" "distinct (map fst interventions)"
  shows "holds (\<lambda>(r, ws'). ws_inv ws' \<and> (case r of
      Inl e \<Rightarrow> \<not> known_variables pa (outcome # map fst interventions) \<or> outcome \<in> set (map fst interventions)
    | Inr res \<Rightarrow> known_variables pa (outcome # map fst interventions) \<and> outcome \<notin> set (map fst interventions) \<and>
        rs_query res = query \<and>
        mean_answer pa (dense_of_vars pa (map fst interventions)) outcome (node_levels pa interventions) res))
    (identify_intervention_mean pa outcome interventions query ws)" (is "holds ?P _")
proof (cases "known_variables pa (map fst interventions)")
  case False
  then obtain e where "response_nodes pa interventions (bs_with_len (pa_count pa)) = Done (Inl e)"
    using response_nodes_spec[OF assms(1) nodes_in_empty(1), of interventions] by auto
  with False assms(3) show ?thesis by (simp add: identify_intervention_mean_def known_variables_def)
next
  case True
  let ?ts = "map fst interventions" and ?as = "node_levels pa interventions"
  obtain x where x: "response_nodes pa interventions (bs_with_len (pa_count pa)) = Done (Inr (x, ?as))"
      "nodes_in (pa_count pa) x" "bs_members x = dense_of_vars pa ?ts"
    using response_nodes_spec[OF assms(1) nodes_in_empty(1), of interventions] True by auto
  show ?thesis
  proof (rule insert_variables_result[OF assms(1), of "[outcome]"])
    fix y assume y: "known_variables pa [outcome]"
      "insert_variables pa [outcome] (bs_with_len (pa_count pa)) = Done (Inr y)"
      "nodes_in (pa_count pa) y" "bs_members y = dense_of_vars pa [outcome]"
    have known: "known_variables pa (outcome # ?ts)" using y(1) True by (simp add: known_variables_def)
    note disj = one_outcome[OF assms(1) known x(3) y(3,4)]
    have as: "?as = map (\<lambda>v. (node_of pa v, the (map_of interventions v))) ?ts"
      using assms(4) by (auto simp: node_levels_def)
    have q: "query_sets_ok pa y x ?as" unfolding as by (rule target_query_ok[OF assms(1) True assms(4) y(3) x(2,3)])
    note run = identify_intervention_mean_def x(1) y(2) run_bind.simps sum.case prod.case
    show ?thesis
    proof (cases "outcome \<in> set ?ts")
      case out: True
      then obtain e where "require_disjoint y x = Done (Inl e)" using disj by auto
      then show ?thesis unfolding run identify_sets_def using out assms(3) by simp
    next
      case False
      then have r: "require_disjoint y x = Done (Inr ())" using disj by simp
      show ?thesis
        unfolding run
        by (rule holds_bind[OF identify_sets_result[OF assms(1,2) q assms(3) r, of query]], clarify)
          (simp only: sum.case, rule answer_of_sets[OF known False x(3) y(4) _ refl], assumption+)
    qed
  qed (use x assms(3) in \<open>simp add: identify_intervention_mean_def known_variables_def\<close>)
qed

theorem intervention_mean_correct_witness:
  "holds (\<lambda>(r, _). \<exists>res. r = Inr res \<and> mean_answer (prepared confounded_chain) {0} 2 [(0, BoolVal True)] res)
    (identify_intervention_mean (prepared confounded_chain) 2 [(0, BoolVal True)] () ws_default)"
proof -
  have small: "(3 :: nat) \<le> u32_max" by (simp add: u32_max_def)
  note pa = chain_prepared[OF small]
  show ?thesis
    by (rule holds_mono[OF intervention_mean_correct[OF pa(2,3) ws_default_inv]])
      (auto simp: chain_known chain_node chain_dense node_levels_def split: sum.splits)
qed

text \<open>C12: the schedule contrast, for distinct treatments and levels that are not the symbolic marker. The call is
  refused exactly when the schedule is empty, a variable has no node, or the outcome is scheduled. Otherwise it
  returns one functional whose value in every positive model of the graph is the mean of the outcome with
  every treatment at the active level less the mean with every treatment at the control level, or
  it reports the query as not identified with a hedge for the effect of the schedule on the outcome. Two recursions share
  an arena and a memo on the way.\<close>

theorem schedule_contrast_correct:
  assumes "pa_inv pa" "pa_named pa" "ws_inv ws" "distinct schedule"
    and "\<not> val_is_symbolic_intervention active" "\<not> val_is_symbolic_intervention control"
  shows "holds (\<lambda>(r, ws'). ws_inv ws' \<and> (case r of
      Inl e \<Rightarrow> schedule = [] \<or> \<not> known_variables pa (outcome # schedule) \<or> outcome \<in> set schedule
    | Inr res \<Rightarrow> schedule \<noteq> [] \<and> known_variables pa (outcome # schedule) \<and> outcome \<notin> set schedule \<and>
        rs_query res = query \<and>
        contrast_answer pa (dense_of_vars pa schedule) outcome (assign_for (map (node_of pa) schedule) active)
          (assign_for (map (node_of pa) schedule) control) res))
    (identify_schedule_contrast pa outcome schedule active control query ws)" (is "holds ?P _")
proof (cases "schedule = [] \<or> \<not> known_variables pa schedule")
  case True
  then show ?thesis
  proof (cases "schedule = []")
    case some: False
    with True obtain e where e: "schedule_nodes pa schedule (bs_with_len (pa_count pa)) = Done (Inl e)"
      using schedule_nodes_spec[OF assms(1) nodes_in_empty(1), of schedule] by auto
    have "\<not> known_variables pa (outcome # schedule)" using some True by (auto simp: known_variables_def)
    with e some assms(3) show ?thesis by (simp add: identify_schedule_contrast_def)
  qed (use assms(3) in \<open>simp add: identify_schedule_contrast_def\<close>)
next
  case False
  then have some: "schedule \<noteq> []" and known: "known_variables pa schedule" by simp_all
  let ?ds = "map (node_of pa) schedule"
  obtain x where x: "schedule_nodes pa schedule (bs_with_len (pa_count pa)) = Done (Inr (x, ?ds))"
      "nodes_in (pa_count pa) x" "bs_members x = dense_of_vars pa schedule"
    using schedule_nodes_spec[OF assms(1) nodes_in_empty(1), of schedule] known by auto
  show ?thesis
  proof (rule insert_variables_result[OF assms(1), of "[outcome]"])
    fix y assume y: "known_variables pa [outcome]"
      "insert_variables pa [outcome] (bs_with_len (pa_count pa)) = Done (Inr y)"
      "nodes_in (pa_count pa) y" "bs_members y = dense_of_vars pa [outcome]"
    have all: "known_variables pa (outcome # schedule)" using y(1) known by (simp add: known_variables_def)
    note disj = one_outcome[OF assms(1) all x(3) y(3,4)]
    have q: "query_sets_ok pa y x (assign_for ?ds level)" for level
      using target_query_ok[OF assms(1) known assms(4) y(3) x(2,3), of "\<lambda>_. level"] by (simp add: assign_for_def comp_def)
    note run = identify_schedule_contrast_def if_not_P[OF some] x(1) y(2) run_bind.simps sum.case prod.case
    show ?thesis
    proof (cases "outcome \<in> set schedule")
      case True
      then obtain e where "require_disjoint y x = Done (Inl e)" using disj by auto
      then show ?thesis unfolding run using True assms(3) some all by simp
    next
      case False
      then have r: "require_disjoint y x = Done (Inr ())" "outcome \<notin> set schedule" using disj by simp_all
      have "holds (contrast_done pa (dense_of_vars pa schedule) outcome (assign_for ?ds active) (assign_for ?ds control) query)
          (identify_schedule_contrast pa outcome schedule active control query ws)"
        unfolding run r(1) run_bind.simps sum.case
        by (rule contrast_sides[OF assms(1,2) q q r(1) assms(3) x(3) y(4)]) (use assms(5,6) in \<open>auto simp: assign_for_def levels_set_def\<close>)
      then show ?thesis by (rule holds_mono) (use some all r(2) in \<open>auto simp: contrast_done_def\<close>)
    qed
  qed (use x some assms(3) in \<open>simp add: identify_schedule_contrast_def known_variables_def\<close>)
qed

theorem schedule_contrast_correct_witness:
  "holds (\<lambda>(r, _). \<exists>res. r = Inr res \<and>
      contrast_answer (prepared confounded_chain) {0} 2 [(0, BoolVal True)] [(0, BoolVal False)] res)
    (identify_schedule_contrast (prepared confounded_chain) 2 [0] (BoolVal True) (BoolVal False) () ws_default)"
proof -
  have small: "(3 :: nat) \<le> u32_max" by (simp add: u32_max_def)
  note pa = chain_prepared[OF small]
  show ?thesis
    by (rule holds_mono[OF schedule_contrast_correct[OF pa(2,3) ws_default_inv]])
      (auto simp: chain_known chain_node chain_dense assign_for_def split: sum.splits)
qed

text \<open>C4: the average effect of a treatment set to two levels that are not the symbolic marker. The call is
  refused exactly when the query is invalid or one of its two variables has no node. Otherwise it returns one
  functional whose value in every positive model of the graph is the mean of the outcome under the active level
  less the mean under the control level, or it reports the query as not identified with a hedge.\<close>

theorem average_effect_correct:
  assumes "pa_inv pa" "pa_named pa" "ws_inv ws"
    and "\<not> val_is_symbolic_intervention (snd (ae_active q))" "\<not> val_is_symbolic_intervention (snd (ae_control q))"
  shows "holds (\<lambda>(r, ws'). ws_inv ws' \<and> (case r of
      Inl e \<Rightarrow> ae_validate q \<noteq> Inr () \<or> \<not> known_variables pa [ae_treatment q, ae_outcome q]
    | Inr res \<Rightarrow> ae_validate q = Inr () \<and> known_variables pa [ae_treatment q, ae_outcome q] \<and> rs_query res = q \<and>
        contrast_answer pa (dense_of_vars pa [ae_treatment q]) (ae_outcome q)
          [(node_of pa (ae_treatment q), snd (ae_active q))] [(node_of pa (ae_treatment q), snd (ae_control q))] res))
    (identify_ate pa q ws)"
proof (cases "ae_validate q = Inr () \<and> known_variables pa [ae_treatment q, ae_outcome q]")
  case False
  then show ?thesis
    using assms(3) by (auto simp: identify_ate_def known_variables_def split: sum.splits)
next
  case True
  let ?t = "ae_treatment q" and ?v = "ae_outcome q" and ?none = "bs_with_len (pa_count pa)"
  have ok: "ae_validate q = Inr ()" and known: "known_variables pa [?t, ?v]" using True by simp_all
  have k: "known_variables pa [?t]" "known_variables pa [?v]" "known_variables pa (?v # [?t])"
    using known by (simp_all add: known_variables_def)
  note t = known_node[OF k(1), of ?t, simplified] and v = known_node[OF k(2), of ?v, simplified]
  have below: "node_of pa ?t < pa_count pa" "node_of pa ?v < pa_count pa"
    using t v pa_var_to_dense_spec[OF assms(1)] by blast+
  obtain x where x: "bs_insert ?none (node_of pa ?t) = Some x" "nodes_in (pa_count pa) x" "bs_members x = dense_of_vars pa [?t]"
    using nodes_in_insert[OF nodes_in_empty(1) below(1)] dense_of_known[OF k(1)] by auto
  obtain y where y: "bs_insert ?none (node_of pa ?v) = Some y" "nodes_in (pa_count pa) y" "bs_members y = dense_of_vars pa [?v]"
    using nodes_in_insert[OF nodes_in_empty(1) below(2)] dense_of_known[OF k(2)] by auto
  have ne: "?v \<noteq> ?t" using ok by (auto simp: ae_validate_def split: if_splits)
  have r: "require_disjoint y x = Done (Inr ())" using one_outcome[OF assms(1) k(3) x(3) y(2,3)] ne by simp
  have qs: "query_sets_ok pa y x [(node_of pa ?t, level)]" for level
    using target_query_ok[OF assms(1) k(1) _ y(2) x(2,3), of "\<lambda>_. level"] by simp
  have "holds (contrast_done pa (dense_of_vars pa [?t]) ?v [(node_of pa ?t, snd (ae_active q))] [(node_of pa ?t, snd (ae_control q))] q)
      (identify_ate pa q ws)"
    unfolding identify_ate_def ok t v x(1) y(1) sum.case of_option.simps run_bind.simps
    by (rule contrast_sides[OF assms(1,2) qs qs r assms(3) x(3) y(3)]) (use assms(4,5) in \<open>simp_all add: levels_set_def\<close>)
  then show ?thesis by (rule holds_mono) (use True in \<open>auto simp: contrast_done_def\<close>)
qed

definition chain_ate :: average_effect_query where
  "chain_ate = \<lparr>ae_treatment = 0, ae_outcome = 2, ae_effect_modifiers = [1],
     ae_control = (0, BoolVal False), ae_active = (0, BoolVal True)\<rparr>"

theorem average_effect_correct_witness:
  "holds (\<lambda>(r, _). \<exists>res. r = Inr res \<and> rs_query res = chain_ate \<and>
      contrast_answer (prepared confounded_chain) {0} 2 [(0, BoolVal True)] [(0, BoolVal False)] res)
    (identify_ate (prepared confounded_chain) chain_ate ws_default)"
proof -
  have small: "(3 :: nat) \<le> u32_max" by (simp add: u32_max_def)
  note pa = chain_prepared[OF small]
  have "ae_validate chain_ate = Inr ()" by (simp add: ae_validate_def chain_ate_def)
  then show ?thesis
    by (intro holds_mono[OF average_effect_correct[OF pa(2,3) ws_default_inv]])
      (auto simp: chain_ate_def chain_known chain_node chain_dense split: sum.splits)
qed

end
