(* ===== verification/Spec2Isabelle.thy ===== *)
theory Spec2Isabelle
  imports Graph_Properties Separation_Properties Projection_Properties Marked_Properties Identify_Properties
    Expression_Properties Effect_Contrast
begin

text \<open>
  Verification of the causal-graph layer and the general identification algorithm of \<open>antecedent\<close>, a
  causal-inference engine in Rust.

  What the program is. A user states a causal graph, or a discovery algorithm finds a class of
  graphs; queries about effects are decided on the graph before any number is computed. The crate
  \<open>crates/antecedent-graph\<close> holds the graphs (static and temporal DAGs, ADMGs with bidirected edges,
  CPDAGs with undirected and conflict edges) and the algorithms every later stage trusts:
  reachability, orders, closures, districts, d- and m-separation, and the enumeration of a Markov
  equivalence class. \<open>crates/antecedent-core\<close> holds what these share: ids, node references, schemas,
  the temporal indexer, search budgets. \<open>crates/antecedent-expr\<close> stores the functionals of the observed
  law that queries are answered with, and \<open>crates/antecedent-identify\<close> derives them: the ID algorithm of
  Shpitser and Pearl either returns a functional for the effect or a hedge that shows there is none.
  This development models those parts and proves them.

  How the parts interact. Every directed graph wraps \<open>DirectedCore\<close>, the mirrored child and parent
  tables; \<open>Dag\<close>, \<open>TemporalDag\<close> and \<open>Admg\<close> add their own checks and delegate. CPDAGs store one row of
  marked entries per node in \<open>marked_storage.rs\<close>. All searches borrow a \<open>GraphWorkspace\<close> (two bit
  sets and a frontier) and run the loops of \<open>algo.rs\<close>. The separation queries run the Bayes ball of
  \<open>dsep.rs\<close> and, for a witness path, the ancestral moral graph. The completion stream of a CPDAG clones
  and orients graphs under a \<open>SearchBudget\<close> and turns each leaf into a \<open>Dag\<close>. Identification prepares an
  \<open>Admg\<close> (its topological order and variable index), asks it for ancestors and districts, and interns the
  functional into a \<open>CausalExprArena\<close>; a failure carries a certificate with the graph it is about, which
  is verified by rebuilding that graph and asking it again.

  Theories and the code they model.
   \<^item> \<open>Prelude\<close>: the result type and its bind, loops that stop at the first error, adjacency rows as a
     relation, the worklist reading of a search, collections \<open>bs_simps\<close> and \<open>wf_simps\<close>.
   \<^item> \<open>Graph_Types\<close> (\<open>ids.rs\<close>, \<open>node.rs\<close>, \<open>types.rs\<close>, \<open>error.rs\<close>): ids, lags, node references, marks, marked
     edges, the error type, and the bookkeeping of pending edges in a review.
   \<^item> \<open>Word_Bits\<close>, \<open>Node_BitSet\<close> (\<open>workspace.rs\<close>): bit sets over 64-bit words, word by word, with the
     invariant that bits beyond the length are clear; every operation is the set operation. The locale
     of dense sets there is the interface the searches use for their visited sets.
   \<^item> \<open>Graph_Search\<close>, \<open>Graph_Order\<close> (\<open>algo.rs\<close>): breadth-first reach, closures over rows, over bitmasks and
     over an expansion function, components, Kahn's order and the acyclicity test.
   \<^item> \<open>Directed_Core\<close>, \<open>Digraph_Interface\<close> (\<open>directed.rs\<close>): checked, unchecked and batch insertion; the
     locales \<open>digraph\<close> (what the searches need of a graph) and \<open>core_wrapper\<close> (what batch insertion needs of
     a type that wraps the core), interpreted on \<open>Dag\<close>, \<open>Admg\<close> and \<open>TemporalDag\<close>.
   \<^item> \<open>Indexer\<close> (\<open>temporal.rs\<close> of the core crate), \<open>Schema\<close> (\<open>schema.rs\<close>, \<open>named.rs\<close>): dense ids of a lag window;
     variables, role sets, the builder and the lookup by name.
   \<^item> \<open>Dag\<close>, \<open>Dag_Paths\<close> (\<open>dag.rs\<close>), \<open>Dag_Surgery\<close> (\<open>ancestry.rs\<close>, \<open>overlay.rs\<close>): storage, named construction,
     directed paths under a budget, longest paths, the review; overlays, views, mutilation.
   \<^item> \<open>Admg\<close>, \<open>Admg_Queries\<close> (\<open>admg.rs\<close>): storage, copies, districts, ancestor closures, weak components.
   \<^item> \<open>Separation_Criterion\<close>: the graph theory, over relations only: the ball reaches a target exactly
     when the ancestral moral graph connects it (with bidirected edges as cliques of districts).
   \<^item> \<open>Bayes_Ball\<close>, \<open>Moral_Graph\<close>, \<open>Dag_Separation\<close> (\<open>dsep.rs\<close>), \<open>Admg_Separation\<close> (\<open>msep.rs\<close>): the two
     algorithms and the queries built on them.
   \<^item> \<open>Projection_Criterion\<close>: the graph theory of latent projection, over relations only: the ball meets the
     same observed nodes before and after it. \<open>Projection\<close> (\<open>projection.rs\<close>): the code that builds the
     projection and the sampled comparison of separations.
   \<^item> \<open>Temporal\<close> (\<open>temporal.rs\<close>): DAGs over (variable, lag) nodes whose edges never point to the past.
   \<^item> \<open>Marked_Storage\<close> (\<open>marked_storage.rs\<close>), \<open>Marked_Interface\<close>: rows of marked entries; the abstract graph
     is the map \<open>ms_marks\<close> from pairs to marks, and every operation is an update of it at one pair.
     The locales \<open>marked_graph\<close> and \<open>arrow_insertion\<close> state what the CPDAG types share.
   \<^item> \<open>Cpdag\<close>, \<open>Temporal_Cpdag\<close> (\<open>cpdag.rs\<close>): storage, mutation, conversions, review.
   \<^item> \<open>Search_Budget\<close> (\<open>search.rs\<close>, the token of \<open>execution.rs\<close>), \<open>Mec_Search\<close> (\<open>mec_search.rs\<close>), \<open>Mec_Members\<close>,
     \<open>Mec_Complete\<close>, \<open>Mec_Room\<close> (\<open>cpdag_completion.rs\<close>): budgets, the orientation search, the sampler.
     The locale \<open>mec_type\<close> is what the search asks of a CPDAG type.
   \<^item> \<open>Run_Result\<close>: the result of code that works on the arena; it keeps the exhaustion of the 32-bit id
     space apart from every other panic and from running out of fuel.
   \<^item> \<open>Expr_Arena\<close> (\<open>lib.rs\<close> and \<open>walk.rs\<close> of \<open>antecedent-expr\<close>, \<open>value.rs\<close>): the interned tables and the
     constructors. \<open>Expr_Trees\<close>: the invariant, the locale \<open>intern_table\<close> interpreted on all five tables,
     and the unfolding of an id to the expression it stands for.
   \<^item> \<open>Prepared_Admg\<close> (\<open>prepared.rs\<close>, \<open>error.rs\<close>, \<open>assumption.rs\<close>): the prepared graph, its queries, its memo.
   \<^item> \<open>Hedge_Criterion\<close>: C-forests and hedges over relations only, and the invariant under which line 5
     of ID finds a hedge. \<open>Hedge\<close> (\<open>hedge.rs\<close>): certificates, the problem they carry, verification.
   \<^item> \<open>Identification_Result\<close> (\<open>result.rs\<close>, \<open>estimand.rs\<close>, \<open>identification.rs\<close>, \<open>diagnostic.rs\<close>): statuses,
     methods, estimands, results and the claims of their estimands.
   \<^item> \<open>Id_Algorithm\<close> (\<open>id.rs\<close>, \<open>intervention_support.rs\<close>): laws, their emission, the seven lines with the
     memo, the meter and the derivation, and the entry points on sets of nodes.
   \<^item> \<open>Causal_Model\<close>: semi-Markovian models over finite domains, their \<open>Q[S]\<close> and the laws identification
     uses, all proved from the definition of a model. \<open>Tian_Factors\<close>: the conditionals along a topological
     order whose product is \<open>Q[S]\<close>, and the factorisation over districts.
   \<^item> \<open>Law_Semantics\<close>, \<open>Expr_Value\<close>: the reading of a law and of an expression in a model.
     \<open>Id_Emission\<close>: every emission has the value of the law it emits. \<open>Id_Sound\<close>: every line keeps the
     invariant of the run and returns a right outcome, so the recursion does.
   \<^item> \<open>Expr_Walk\<close> (\<open>walk.rs\<close>, \<open>import\<close> of \<open>lib.rs\<close>): the memoised fold over an expression and the import from
     another arena, in ascending order of the reachable ids. \<open>Expr_Simplify\<close> (\<open>simplify.rs\<close>): the rewrite rules,
     their fixpoint and the memoised recursion. \<open>Simplify_Value\<close>: free variables, when two
     expressions are equivalent, and that every rule keeps both and lowers a rank.
   \<^item> \<open>Do_Calculus\<close>: the global Markov property of a model and rule 2 of the do-calculus, from the definition of
     a model. \<open>Conditional_Id\<close> (\<open>idc.rs\<close>, \<open>distribution.rs\<close>): distribution queries, the surgical graphs, the
     recursion that moves conditioning variables into the intervention, the ratio, the entry points.
     \<open>Effect_Contrast\<close> (\<open>id.rs\<close>, \<open>average.rs\<close>): average effects, schedule contrasts and intervention means.
   \<^item> \<open>Graph_Properties\<close>, \<open>Separation_Properties\<close>, \<open>Projection_Properties\<close>, \<open>Marked_Properties\<close>,
     \<open>Identify_Properties\<close>, \<open>Expression_Properties\<close>, \<open>Conditional_Properties\<close>, the end of \<open>Effect_Contrast\<close>: the statements, each with a concrete graph or arena.

  How state and operations correspond.
   \<^item> A struct is a record with the same fields; accessor macros are functions on the shared record.
   \<^item> \<open>Result<T, E>\<close> is \<open>'e + 'a\<close> with \<open>Inl\<close> the error; a \<open>&mut self\<close> method returns its result with the
     new state, also when it fails. A panic (index out of range, \<open>debug_assert\<close>, arithmetic underflow,
     \<open>expect\<close>) is the outer \<open>None\<close>, so a theorem that exhibits \<open>Some\<close> proves the absence of panics.
   \<^item> A \<open>Vec\<close> used as a stack has its top at the head of the list. The u32 newtypes are naturals with
     the code's range checks (\<open>id_space\<close> is \<open>2 ^ 32\<close>); \<open>usize\<close> and \<open>u64\<close> are 64 bits wide, with the
     saturating operations written out. Bit sets and role sets are machine words. A set lists its members as ids
     and panics from \<open>2 ^ 32\<close> on (\<open>bs_iter\<close>), which callers over graph nodes exclude; a row position of
     a stored graph is used as an id directly, since its constructors refuse more than \<open>2 ^ 32\<close> nodes.
   \<^item> The insertion workspace inside a directed core takes no part in graph equality, as in the code
     (\<open>dag_eq\<close>, \<open>tdag_eq\<close>, \<open>admg_eq\<close>); a thread-local scratch is a fresh workspace per call.
   \<^item> A cancellation token is a schedule of answers with a counter of the reads, so a token may trip
     at any point of a search. \<open>size_of::<MarkedEdge>()\<close> is the parameter \<open>edge_size\<close>.

  What the groups of lemmas show. For each stored graph an invariant (\<open>dag_inv\<close>, \<open>admg_inv\<close>, \<open>tdag_inv\<close>,
  \<open>cpdag_inv\<close>, \<open>tcp_inv\<close>, and \<open>dc_inv\<close>, \<open>ms_inv\<close>, \<open>bs_inv\<close>, \<open>ws_inv\<close> under them) and that every operation keeps
  it; for each operation what it returns on every branch (the \<open>_cases\<close> and \<open>_spec\<close> lemmas); for each
  search that it returns and computes the closure, order or paths of the edge relation; for the
  batch insertions that they agree with one-by-one insertion on every batch; for separation that the
  ball, the moral graph and the witness path agree, and that latent projection keeps it; for the completion stream that it yields members
  of the class, each once, and all of them when no bound is hit. For the arena, that it only grows and that
  an expression has one id; for ID, that it always returns, that an identified functional evaluates to
  the interventional law in every positive semi-Markovian model of the graph, and that a failure comes
  with a hedge; for its metered entry point, that the caller's charge is asked at least once, that an error is the one
  the charge returned from a state it had reached, and that its last state comes back. Positivity is what makes the conditionals of a functional defined. For
  conditional ID, that every move of line 1 keeps the conditional law (by rule 2, whose premise is the separation the code
  tests) and that the returned ratio is that law; for contrasts, that the functional is the difference of the two
  means. For simplification, that it
  ends, keeps the value of an expression in every model and refuses exactly the expressions with a dead binder.

  Bounds and termination. Loops are total functions: the searches terminate because each step marks a
  node or shortens the frontier, the path enumeration because its visit budget falls, the orientation
  search because every iteration charges the budget. \<open>implicit_closure\<close> and the sampler's \<open>next\<close> may loop
  in principle; they are partial functions into options and are proved to return (the first when
  the reachable keys are finitely many). \<open>cs_drain\<close> has fuel: one more than the retention cap is proved
  to be enough. \<open>mec_stream_complete_with_room\<close> says which limits rule out an early stop.
  \<open>id_recurse\<close> has fuel \<open>2 n + 1\<close> for \<open>n\<close> nodes: each call removes a node from the subproblem or moves one into
  its interventions, so \<open>id_recurse_ok\<close> excludes \<open>Timeout\<close>. \<open>NoIds\<close> remains possible there: a functional can
  have exponentially many nodes and the arena panics at \<open>2 ^ 32\<close> entries. \<open>idc_recurse\<close> has fuel
  \<open>n + 1\<close>: every call but the last moves one conditioning node. Interventions are hard sets throughout (\<open>Intervention::Set\<close>).

  Not modelled. \<open>moral_reaches_any\<close> (test code), the display strings of search receipts, the iterators'
  borrow forms of the accessors. The PAG types and their completions, temporal unfolding, tiers and
  selection diagrams. Of the expressions: the estimand builders,
  rendering and evaluation. Of identification: the dispatch on the query enum, the mean curve over a grid of levels and
  the binary witness of other responses in \<open>id.rs\<close>, the interventions that are not hard sets with their reduction
  (\<open>normalize_to_set\<close>), target populations other than all observed units, and the other algorithms
  (adjustment, instruments, transport, recovery, temporal variants). That a query with a hedge is not identifiable is the theorem of Shpitser and
  Pearl; it is not proved here, only that the certificate is a hedge. Discovery, estimation, statistics,
  models, wire formats and the facade are floating-point or I/O code and stay outside.
\<close>

end
